(* ===== verification/Prelude.thy ===== *)
theory Prelude
  imports Main "HOL-Library.Word"
begin

text \<open>
  Shared material of the development: the names of the C integer types as word types, the
  theorem collections the component proofs draw on, and generic lemmas on words, lists and
  address ranges.
\<close>

unbundle bit_operations_syntax

type_synonym u8 = "8 word"
type_synonym u16 = "16 word"
type_synonym u32 = "32 word"
type_synonym u64 = "64 word"
type_synonym addr = "64 word"

named_theorems word_nat \<open>reading machine words as natural numbers\<close>
named_theorems byte_range \<open>membership in a byte range of the address space\<close>

section \<open>Words as natural numbers\<close>

lemma unat_plus_nowrap [word_nat]:
  fixes a b :: "'a::len word"
  assumes "unat a + unat b < 2 ^ LENGTH('a)"
  shows "unat (a + b) = unat a + unat b"
  using assms by (simp add: unat_add_lem)

lemma unat_minus_le [word_nat]:
  fixes a b :: "'a::len word"
  assumes "b \<le> a"
  shows "unat (a - b) = unat a - unat b"
  using assms by (rule unat_sub)

lemma unat_lt_pow [simp]: "unat (a :: 'a::len word) < 2 ^ LENGTH('a)"
  by (rule unsigned_less)

lemma unat_minus_wrap:
  fixes a b :: "'a::len word"
  shows "unat (a - b) =
    (if unat b \<le> unat a then unat a - unat b else 2 ^ LENGTH('a) + unat a - unat b)"
  by (simp add: unat_sub_if_size word_le_nat_alt word_size add.commute)

lemma unat_inj: "unat (a :: 'a::len word) = unat b \<longleftrightarrow> a = b"
  by (simp add: word_unat_eq_iff)

section \<open>Aligned blocks\<close>

lemma aligned_block_div:
  fixes x a k :: nat
  assumes "x mod k = 0" and "x \<le> a" and "a < x + k"
  shows "x = a div k * k"
proof -
  from assms(1) obtain q where x: "x = k * q" by (auto simp: mod_eq_0_iff_dvd)
  have "a div k = q" using assms(2,3) x by (intro div_nat_eqI) (simp_all add: mult.commute)
  then show ?thesis using x by (simp add: mult.commute)
qed

lemma aligned_room:
  fixes x k n :: nat
  assumes "x mod k = 0" and "n mod k = 0" and "x < n"
  shows "x + k \<le> n"
proof -
  from assms(1) obtain q where x: "x = k * q" by (auto simp: mod_eq_0_iff_dvd)
  from assms(2) obtain r where n: "n = k * r" by (auto simp: mod_eq_0_iff_dvd)
  have "q < r" using assms(3) x n by simp
  then have "k * Suc q \<le> k * r" by (intro mult_le_mono2) simp
  then show ?thesis using x n by simp
qed

section \<open>Address ranges\<close>

text \<open>\<open>in_range p n a\<close>: byte \<open>a\<close> is one of the \<open>n\<close> bytes that start at \<open>p\<close>.\<close>

definition in_range :: "addr \<Rightarrow> nat \<Rightarrow> addr \<Rightarrow> bool" where
  "in_range p n a \<longleftrightarrow> unat (a - p) < n"

lemma in_range_0 [simp]: "\<not> in_range p 0 a"
  by (simp add: in_range_def)

lemma in_range_start [simp]: "in_range p n p \<longleftrightarrow> 0 < n"
  by (simp add: in_range_def)

lemma in_range_nat:
  assumes "unat p + n \<le> 2 ^ 64"
  shows "in_range p n a \<longleftrightarrow> unat p \<le> unat a \<and> unat a < unat p + n"
proof -
  have "unat a < 2 ^ 64" using unat_lt_pow [of a] by simp
  then show ?thesis using assms by (auto simp: in_range_def unat_minus_wrap)
qed

lemma in_range_Suc:
  assumes "n < 2 ^ 64"
  shows "in_range p (Suc n) a \<longleftrightarrow> a = p \<or> in_range (p + 1) n a"
proof -
  have "unat (a - p) = Suc (unat (a - (p + 1)))" if "a \<noteq> p"
  proof -
    have "a - p = (a - (p + 1)) + 1" by simp
    moreover have "(a - (p + 1)) + 1 \<noteq> 0" using that by (simp add: algebra_simps)
    ultimately show ?thesis by (metis unatSuc add.commute)
  qed
  moreover have "unat (p - (p + 1)) = 2 ^ 64 - 1"
    by (simp add: unsigned_minus_1_eq_mask mask_eq_exp_minus_1)
  ultimately show ?thesis using assms by (cases "a = p") (simp_all add: in_range_def)
qed

section \<open>Little-endian byte strings\<close>

text \<open>RISC-V stores integers least significant byte first.\<close>

fun le_val :: "u8 list \<Rightarrow> nat" where
  "le_val [] = 0"
| "le_val (b # bs) = unat b + 256 * le_val bs"

fun le_bytes :: "nat \<Rightarrow> nat \<Rightarrow> u8 list" where
  "le_bytes 0 v = []"
| "le_bytes (Suc k) v = of_nat v # le_bytes k (v div 256)"

lemma length_le_bytes [simp]: "length (le_bytes k v) = k"
  by (induction k arbitrary: v) auto

lemma le_val_le_bytes: "le_val (le_bytes k v) = v mod 256 ^ k"
proof (induction k arbitrary: v)
  case 0
  then show ?case by simp
next
  case (Suc k)
  have "v mod 256 ^ Suc k = v mod 256 + 256 * (v div 256 mod 256 ^ k)"
    by (simp add: mod_mult2_eq)
  then show ?case by (simp add: Suc.IH unat_of_nat)
qed

lemma le_val_bound: "le_val bs < 256 ^ length bs"
proof (induction bs)
  case Nil
  then show ?case by simp
next
  case (Cons b bs)
  have "unat b < 256" using unat_lt_pow [of b] by simp
  then have "unat b + 256 * le_val bs < 256 * (le_val bs + 1)" by simp
  also have "\<dots> \<le> 256 * 256 ^ length bs" using Cons by (intro mult_le_mono2) simp
  finally show ?case by simp
qed

lemma le_bytes_le_val: "le_bytes (length bs) (le_val bs) = bs"
proof (induction bs)
  case Nil
  then show ?case by simp
next
  case (Cons b bs)
  have "unat b < 256" using unat_lt_pow [of b] by simp
  then have "(unat b + 256 * le_val bs) div 256 = le_val bs" by simp
  moreover have "(of_nat (unat b + 256 * le_val bs) :: u8) = b"
  proof -
    have "(of_nat (unat b + 256 * le_val bs) :: u8) = of_nat (unat b)"
      by (subst word_of_nat_eq_iff) (simp add: take_bit_eq_mod)
    then show ?thesis by simp
  qed
  ultimately show ?case using Cons by simp
qed

end
