(* ===== verification/Memory.thy ===== *)
theory Memory
  imports Prelude
begin

text \<open>
  Physical memory as bytes, and the copying routines of \<^verbatim>\<open>kernel/mem.c\<close>. Each C loop is a
  recursion on the number of bytes still to move; the lemmas give the closed form of the
  result, which is what the clients use.
\<close>

type_synonym phys = "addr \<Rightarrow> u8"

section \<open>memset, memmove, memcpy\<close>

fun memset :: "phys \<Rightarrow> addr \<Rightarrow> int \<Rightarrow> nat \<Rightarrow> phys" where
  "memset m p c 0 = m"
| "memset m p c (Suc n) = memset (m(p := word_of_int c)) (p + 1) c n"

fun memmove_fwd :: "phys \<Rightarrow> addr \<Rightarrow> addr \<Rightarrow> nat \<Rightarrow> phys" where
  "memmove_fwd m d s 0 = m"
| "memmove_fwd m d s (Suc n) = memmove_fwd (m(d := m s)) (d + 1) (s + 1) n"

fun memmove_bwd :: "phys \<Rightarrow> addr \<Rightarrow> addr \<Rightarrow> nat \<Rightarrow> phys" where
  "memmove_bwd m d s 0 = m"
| "memmove_bwd m d s (Suc n) = memmove_bwd (m(d - 1 := m (s - 1))) (d - 1) (s - 1) n"

definition memmove :: "phys \<Rightarrow> addr \<Rightarrow> addr \<Rightarrow> nat \<Rightarrow> phys" where
  "memmove m d s n =
     (if d < s then memmove_fwd m d s n
      else memmove_bwd m (d + of_nat n) (s + of_nat n) n)"

fun memcpy_loop :: "phys \<Rightarrow> addr \<Rightarrow> addr \<Rightarrow> nat \<Rightarrow> nat \<Rightarrow> phys" where
  "memcpy_loop m d s i 0 = m"
| "memcpy_loop m d s i (Suc k) =
     memcpy_loop (m(d + of_nat i := m (s + of_nat i))) d s (Suc i) k"

definition memcpy :: "phys \<Rightarrow> addr \<Rightarrow> addr \<Rightarrow> nat \<Rightarrow> phys" where
  "memcpy m d s n = memcpy_loop m d s 0 n"

section \<open>Closed forms\<close>

lemma memset_apply:
  assumes "n \<le> 2 ^ 64"
  shows "memset m p c n a = (if in_range p n a then word_of_int c else m a)"
  using assms
proof (induction n arbitrary: m p)
  case 0
  then show ?case by simp
next
  case (Suc n)
  then show ?case by (auto simp: in_range_Suc)
qed

text \<open>The value every copying routine is meant to leave behind.\<close>

definition copied :: "phys \<Rightarrow> addr \<Rightarrow> addr \<Rightarrow> nat \<Rightarrow> phys" where
  "copied m d s n = (\<lambda>a. if in_range d n a then m (s + (a - d)) else m a)"

lemma range_offset:
  fixes p :: addr
  assumes "unat p + n \<le> 2 ^ 64" and "i < n"
  shows "unat (p + of_nat i) = unat p + i"
proof -
  have "unat (of_nat i :: addr) = i" using assms by (simp add: unat_of_nat)
  then show ?thesis using assms unat_plus_nowrap [of p "of_nat i"] by simp
qed

lemma memmove_fwd_copied:
  assumes "unat d + n \<le> 2 ^ 64" and "unat s + n \<le> 2 ^ 64" and "d < s"
  shows "memmove_fwd m d s n = copied m d s n"
  using assms
proof (induction n arbitrary: m d s)
  case 0
  then show ?case by (simp add: copied_def)
next
  case (Suc n)
  show ?case
  proof (cases "n = 0")
    case True
    then show ?thesis by (auto simp: copied_def in_range_Suc)
  next
    case False
    have d1: "unat (d + 1) = unat d + 1" and s1: "unat (s + 1) = unat s + 1"
      using Suc.prems False by (simp_all add: unat_plus_nowrap)
    have lt: "d + 1 < s + 1" using Suc.prems d1 s1 by (simp add: word_less_nat_alt)
    have step: "memmove_fwd m d s (Suc n) = copied (m(d := m s)) (d + 1) (s + 1) n"
      unfolding memmove_fwd.simps
      by (rule Suc.IH) (use Suc.prems d1 s1 lt in simp_all)
    have src: "s + (a - d) \<noteq> d" if "in_range (d + 1) n a" for a
    proof -
      have "unat (s + 1) + unat (a - (d + 1)) < 2 ^ 64"
        using that Suc.prems s1 by (simp add: in_range_def)
      then have "unat (s + 1 + (a - (d + 1))) = unat (s + 1) + unat (a - (d + 1))"
        by (intro unat_plus_nowrap) simp
      then show ?thesis
        using Suc.prems s1 by (simp add: word_unat_eq_iff word_less_nat_alt)
    qed
    have "\<not> in_range (d + 1) n d"
      using Suc.prems d1 by (simp add: in_range_nat)
    then show ?thesis
      unfolding step copied_def
      using src Suc.prems by (intro ext) (auto simp: in_range_Suc)
  qed
qed

lemma in_range_last:
  assumes "unat p + Suc n \<le> 2 ^ 64"
  shows "in_range p (Suc n) a \<longleftrightarrow> a = p + of_nat n \<or> in_range p n a"
proof -
  have "unat (p + of_nat n) = unat p + n"
    using assms by (intro range_offset) auto
  then show ?thesis using assms by (auto simp: in_range_nat word_unat_eq_iff)
qed

lemma memmove_bwd_copied:
  assumes "unat d + n \<le> 2 ^ 64" and "unat s + n \<le> 2 ^ 64" and "s \<le> d"
  shows "memmove_bwd m (d + of_nat n) (s + of_nat n) n = copied m d s n"
  using assms
proof (induction n arbitrary: m)
  case 0
  then show ?case by (simp add: copied_def)
next
  case (Suc n)
  let ?m = "m(d + of_nat n := m (s + of_nat n))"
  have "memmove_bwd m (d + of_nat (Suc n)) (s + of_nat (Suc n)) (Suc n) =
      memmove_bwd ?m (d + of_nat n) (s + of_nat n) n"
    by (simp add: algebra_simps)
  also have "\<dots> = copied ?m d s n"
    by (rule Suc.IH) (use Suc.prems in simp_all)
  finally have step:
    "memmove_bwd m (d + of_nat (Suc n)) (s + of_nat (Suc n)) (Suc n) = copied ?m d s n" .
  have dn: "unat (d + of_nat n) = unat d + n"
    using Suc.prems by (intro range_offset) auto
  have src: "s + (a - d) \<noteq> d + of_nat n" if "in_range d n a" for a
  proof -
    have "unat s + unat (a - d) < 2 ^ 64"
      using that Suc.prems by (simp add: in_range_def)
    then have "unat (s + (a - d)) = unat s + unat (a - d)"
      by (simp add: unat_plus_nowrap)
    then show ?thesis
      using that Suc.prems dn by (simp add: word_unat_eq_iff word_le_nat_alt in_range_def)
  qed
  have "\<not> in_range d n (d + of_nat n)"
    using Suc.prems dn by (simp add: in_range_nat)
  then show ?case
    unfolding step copied_def using src Suc.prems by (intro ext) (auto simp: in_range_last)
qed

lemma memcpy_loop_copied:
  assumes "unat d + (i + n) \<le> 2 ^ 64" and "unat s + (i + n) \<le> 2 ^ 64"
    and "unat s + (i + n) \<le> unat d \<or> unat d + (i + n) \<le> unat s"
  shows "memcpy_loop m d s i n = copied m (d + of_nat i) (s + of_nat i) n"
  using assms
proof (induction n arbitrary: m i)
  case 0
  then show ?case by (simp add: copied_def)
next
  case (Suc n)
  let ?d = "d + of_nat i" and ?s = "s + of_nat i"
  let ?m = "m(?d := m ?s)"
  have di: "unat ?d = unat d + i" and si: "unat ?s = unat s + i"
    using Suc.prems by (auto intro!: range_offset [where n = "i + Suc n"])
  have "memcpy_loop ?m d s (Suc i) n = copied ?m (d + of_nat (Suc i)) (s + of_nat (Suc i)) n"
    by (rule Suc.IH) (use Suc.prems in auto)
  then have "memcpy_loop m d s i (Suc n) = copied ?m (?d + 1) (?s + 1) n"
    unfolding memcpy_loop.simps of_nat_Suc by (simp only: ac_simps)
  moreover have "?s + (a - ?d) \<noteq> ?d" if "in_range ?d (Suc n) a" for a
  proof -
    have "unat ?s + unat (a - ?d) < 2 ^ 64"
      using that Suc.prems si by (simp add: in_range_def)
    then have "unat (?s + (a - ?d)) = unat ?s + unat (a - ?d)"
      by (intro unat_plus_nowrap) simp
    then show ?thesis
      using that Suc.prems di si by (auto simp: word_unat_eq_iff in_range_def)
  qed
  moreover have "in_range ?d (Suc n) a \<longleftrightarrow> a = ?d \<or> in_range (?d + 1) n a" for a
    using Suc.prems by (intro in_range_Suc) simp
  ultimately show ?case
    by (intro ext) (auto simp: copied_def algebra_simps)
qed

lemma memcpy_copied:
  assumes "unat d + n \<le> 2 ^ 64" and "unat s + n \<le> 2 ^ 64"
    and "unat s + n \<le> unat d \<or> unat d + n \<le> unat s"
  shows "memcpy m d s n = copied m d s n"
  using memcpy_loop_copied [of d 0 n s m] assms by (simp add: memcpy_def)

section \<open>Byte strings and 64-bit words in memory\<close>

definition read_bytes :: "phys \<Rightarrow> addr \<Rightarrow> nat \<Rightarrow> u8 list" where
  "read_bytes m a k = map (\<lambda>i. m (a + of_nat i)) [0..<k]"

definition write_bytes :: "phys \<Rightarrow> addr \<Rightarrow> u8 list \<Rightarrow> phys" where
  "write_bytes m a bs = (\<lambda>b. if in_range a (length bs) b then bs ! unat (b - a) else m b)"

definition load64 :: "phys \<Rightarrow> addr \<Rightarrow> u64" where
  "load64 m a = of_nat (le_val (read_bytes m a 8))"

definition store64 :: "phys \<Rightarrow> addr \<Rightarrow> u64 \<Rightarrow> phys" where
  "store64 m a v = write_bytes m a (le_bytes 8 (unat v))"

lemma length_read_bytes [simp]: "length (read_bytes m a k) = k"
  by (simp add: read_bytes_def)

lemma read_write_bytes:
  assumes "length bs < 2 ^ 64"
  shows "read_bytes (write_bytes m a bs) a (length bs) = bs"
  using assms
  by (intro nth_equalityI) (simp_all add: read_bytes_def write_bytes_def in_range_def unat_of_nat)

lemma read_bytes_cong:
  assumes "\<And>b. in_range a k b \<Longrightarrow> m b = m' b" and "k \<le> 2 ^ 64"
  shows "read_bytes m a k = read_bytes m' a k"
  unfolding read_bytes_def
proof (rule map_cong [OF refl])
  fix i assume "i \<in> set [0..<k]"
  then have "in_range a k (a + of_nat i)"
    using assms(2) by (simp add: in_range_def unat_of_nat)
  then show "m (a + of_nat i) = m' (a + of_nat i)" by (rule assms(1))
qed

lemma load64_store64 [simp]: "load64 (store64 m a v) a = v"
proof -
  have "read_bytes (store64 m a v) a 8 = le_bytes 8 (unat v)"
    using read_write_bytes [of "le_bytes 8 (unat v)" m a] by (simp add: store64_def)
  moreover have "unat v < 256 ^ 8" using unat_lt_pow [of v] by simp
  ultimately show ?thesis by (simp add: load64_def le_val_le_bytes)
qed

lemma load64_cong:
  assumes "\<And>b. in_range a 8 b \<Longrightarrow> m b = m' b"
  shows "load64 m a = load64 m' a"
  unfolding load64_def by (subst read_bytes_cong [of a 8 m m', OF assms]) simp_all

lemma store64_outside: "\<not> in_range a 8 b \<Longrightarrow> store64 m a v b = m b"
  by (simp add: store64_def write_bytes_def)

text \<open>Two aligned 64-bit cells are equal or disjoint.\<close>

abbreviation aligned8 :: "addr \<Rightarrow> bool" where
  "aligned8 a \<equiv> unat a mod 8 = 0"

lemma aligned8_room: "aligned8 a \<Longrightarrow> unat a + 8 \<le> 2 ^ 64"
proof -
  assume "aligned8 a"
  moreover have "unat a < 2 ^ 64" using unat_lt_pow [of a] by simp
  ultimately show ?thesis by simp presburger
qed

lemma aligned8_disjoint:
  assumes "aligned8 a" and "aligned8 b" and "in_range a 8 x" and "in_range b 8 x"
  shows "a = b"
proof -
  have "unat a \<le> unat x \<and> unat x < unat a + 8" and "unat b \<le> unat x \<and> unat x < unat b + 8"
    using assms aligned8_room [of a] aligned8_room [of b] by (simp_all add: in_range_nat)
  then have "unat a = unat b" using assms(1,2) by presburger
  then show ?thesis by (simp add: word_unat_eq_iff)
qed

lemma load64_store64_other:
  assumes "aligned8 a" and "aligned8 b" and "a \<noteq> b"
  shows "load64 (store64 m a v) b = load64 m b"
  by (rule load64_cong) (metis assms aligned8_disjoint store64_outside)

section \<open>Properties\<close>

text \<open>\<^verbatim>\<open>memmove\<close> copies correctly for every placement of source and destination, overlapping
  or not: the destination receives the bytes the source held before the call and no other
  byte changes.\<close>

theorem memmove_overlap_safe:
  assumes "unat d + n \<le> 2 ^ 64" and "unat s + n \<le> 2 ^ 64"
  shows "memmove m d s n a = (if in_range d n a then m (s + (a - d)) else m a)"
  using assms memmove_fwd_copied [of d n s m] memmove_bwd_copied [of d n s m]
  by (auto simp: memmove_def copied_def not_less)

theorem memmove_overlap_safe_witness:
  "memmove (\<lambda>a. ucast a) 11 10 3 13 = (if in_range 11 3 13 then ucast (10 + (13 - 11 :: addr)) else ucast (13 :: addr))"
  by (rule memmove_overlap_safe) simp_all

end
