(* ===== verification/Kmonad.thy ===== *)
theory Kmonad
  imports Prelude
begin

text \<open>
  The effects of kernel code. An operation takes the kernel state and returns a result and
  the new state; the result is a value (\<open>Inr\<close>) or the reason why the calling thread does not
  continue (\<open>Inl\<close>): \<^verbatim>\<open>panic\<close> loops for ever, the thread calls \<^verbatim>\<open>exit_proc\<close> (\<open>ExitProc\<close>, whose
  effects \<open>Sched.exit_proc\<close> gives) or has been switched out by it for good (\<open>Gone\<close>), a thread
  sleeps until it is woken, a thread has given up the processor and continues later, a spin lock is held by somebody else, a null pointer is
  dereferenced, a loop over a pointer structure does not end, the machine is switched off, or
  the C code leaves an array's bounds (\<open>Undefined\<close>). Total-correctness triples
  over these operations are composed with the rules of the collection \<open>kwp\<close>.
\<close>

section \<open>Stops and the state-and-error monad\<close>

text \<open>The addresses the kernel sleeps on, by the object they belong to.\<close>

datatype chan =
    ChProc nat
  | ChLog
  | ChBuf nat
  | ChBufLock nat
  | ChInodeLock nat
  | ChDiskFree
  | ChPipeRead addr
  | ChPipeWrite addr

datatype stop =
    Panic string
  | ExitProc int
  | Asleep chan
  | Yielded
  | Spin string
  | NullDeref
  | Diverge
  | Gone
  | PowerOff
  | Undefined

type_synonym ('s, 'a) km = "'s \<Rightarrow> (stop + 'a) \<times> 's"

definition kret :: "'a \<Rightarrow> ('s, 'a) km" where
  "kret x = (\<lambda>s. (Inr x, s))"

definition kstop :: "stop \<Rightarrow> ('s, 'a) km" where
  "kstop e = (\<lambda>s. (Inl e, s))"

abbreviation panic :: "string \<Rightarrow> ('s, 'a) km" where
  "panic msg \<equiv> kstop (Panic msg)"

definition kbind :: "('s, 'a) km \<Rightarrow> ('a \<Rightarrow> ('s, 'b) km) \<Rightarrow> ('s, 'b) km" where
  "kbind m f = (\<lambda>s. case m s of (Inl e, s') \<Rightarrow> (Inl e, s') | (Inr x, s') \<Rightarrow> f x s')"

definition kseq :: "('s, unit) km \<Rightarrow> ('s, 'b) km \<Rightarrow> ('s, 'b) km" where
  "kseq m n = kbind m (\<lambda>_. n)"

definition kget :: "('s \<Rightarrow> 'a) \<Rightarrow> ('s, 'a) km" where
  "kget f = (\<lambda>s. (Inr (f s), s))"

definition kmod :: "('s \<Rightarrow> 's) \<Rightarrow> ('s, unit) km" where
  "kmod g = (\<lambda>s. (Inr (), g s))"

primrec kfor :: "'i list \<Rightarrow> ('i \<Rightarrow> ('s, unit) km) \<Rightarrow> ('s, unit) km" where
  "kfor [] body = kret ()"
| "kfor (i # is) body = kseq (body i) (kfor is body)"

lemmas kmonad_defs = kret_def kstop_def kbind_def kseq_def kget_def kmod_def

lemma kret_run [simp]: "kret x s = (Inr x, s)"
  by (simp add: kret_def)

lemma kstop_run [simp]: "kstop e s = (Inl e, s)"
  by (simp add: kstop_def)

lemma kget_run [simp]: "kget f s = (Inr (f s), s)"
  by (simp add: kget_def)

lemma kmod_run [simp]: "kmod g s = (Inr (), g s)"
  by (simp add: kmod_def)

lemma kbind_run_Inr [simp]: "m s = (Inr x, s') \<Longrightarrow> kbind m f s = f x s'"
  by (simp add: kbind_def)

lemma kbind_run_Inl [simp]: "m s = (Inl e, s') \<Longrightarrow> kbind m f s = (Inl e, s')"
  by (simp add: kbind_def)

lemma kbind_kget [simp]: "kbind (kget f) h s = h (f s) s"
  by (simp add: kbind_def)

lemma kseq_run_Inr [simp]: "m s = (Inr x, s') \<Longrightarrow> kseq m n s = n s'"
  by (simp add: kseq_def)

lemma kseq_run_Inl [simp]: "m s = (Inl e, s') \<Longrightarrow> kseq m n s = (Inl e, s')"
  by (simp add: kseq_def)

lemma kbind_Inr_iff:
  "kbind m f s = (Inr y, t) \<longleftrightarrow> (\<exists>x s'. m s = (Inr x, s') \<and> f x s' = (Inr y, t))"
  by (auto simp: kbind_def split: prod.splits sum.splits)

lemma kseq_Inr_iff:
  "kseq m n s = (Inr y, t) \<longleftrightarrow> (\<exists>s'. m s = (Inr (), s') \<and> n s' = (Inr y, t))"
  by (simp add: kseq_def kbind_Inr_iff)

lemma kbind_assoc: "kbind (kbind m f) g = kbind m (\<lambda>x. kbind (f x) g)"
  by (auto simp: kbind_def fun_eq_iff split: prod.splits sum.splits)

lemma kfor_append: "kfor (xs @ ys) body = kseq (kfor xs body) (kfor ys body)"
  by (induction xs) (auto simp: kmonad_defs fun_eq_iff split: prod.splits sum.splits)

section \<open>Total-correctness triples\<close>

text \<open>From a state with \<open>P\<close> the operation returns a value, and value and state satisfy \<open>Q\<close>.\<close>

definition ktriple :: "('s \<Rightarrow> bool) \<Rightarrow> ('s, 'a) km \<Rightarrow> ('a \<Rightarrow> 's \<Rightarrow> bool) \<Rightarrow> bool" where
  "ktriple P m Q \<longleftrightarrow> (\<forall>s. P s \<longrightarrow> (\<exists>x s'. m s = (Inr x, s') \<and> Q x s'))"

named_theorems kwp \<open>rules for total-correctness triples\<close>

lemma ktripleI: "(\<And>s. P s \<Longrightarrow> \<exists>x s'. m s = (Inr x, s') \<and> Q x s') \<Longrightarrow> ktriple P m Q"
  by (simp add: ktriple_def)

lemma ktripleE:
  assumes "ktriple P m Q" and "P s"
  obtains x s' where "m s = (Inr x, s')" and "Q x s'"
  using assms unfolding ktriple_def by blast

lemma ktriple_pre: "ktriple P m Q \<Longrightarrow> (\<And>s. P' s \<Longrightarrow> P s) \<Longrightarrow> ktriple P' m Q"
  by (auto simp: ktriple_def)

lemma ktriple_post: "ktriple P m Q \<Longrightarrow> (\<And>x s. Q x s \<Longrightarrow> Q' x s) \<Longrightarrow> ktriple P m Q'"
  unfolding ktriple_def by blast

lemma ktriple_ret [kwp]: "ktriple (\<lambda>s. Q x s) (kret x) Q"
  by (simp add: ktriple_def)

lemma ktriple_get [kwp]: "ktriple (\<lambda>s. Q (f s) s) (kget f) Q"
  by (simp add: ktriple_def)

lemma ktriple_mod [kwp]: "ktriple (\<lambda>s. Q () (g s)) (kmod g) Q"
  by (simp add: ktriple_def)

lemma ktriple_bind:
  assumes "ktriple P m R" and "\<And>x. ktriple (R x) (f x) Q"
  shows "ktriple P (kbind m f) Q"
  using assms unfolding ktriple_def by (metis kbind_run_Inr)

lemma ktriple_seq:
  assumes "ktriple P m (\<lambda>_. R)" and "ktriple R n Q"
  shows "ktriple P (kseq m n) Q"
  unfolding kseq_def using assms by (rule ktriple_bind)

lemma ktriple_if [kwp]:
  assumes "b \<Longrightarrow> ktriple P m Q" and "\<not> b \<Longrightarrow> ktriple P' n Q"
  shows "ktriple (\<lambda>s. (b \<longrightarrow> P s) \<and> (\<not> b \<longrightarrow> P' s)) (if b then m else n) Q"
  using assms by (auto simp: ktriple_def)

lemma ktriple_for:
  assumes "\<And>k. k < length xs \<Longrightarrow> ktriple (I k) (body (xs ! k)) (\<lambda>_. I (Suc k))"
  shows "ktriple (I 0) (kfor xs body) (\<lambda>_. I (length xs))"
  using assms
proof (induction xs arbitrary: I)
  case Nil
  then show ?case by (simp add: ktriple_def)
next
  case (Cons x xs)
  have "ktriple (I 0) (body x) (\<lambda>_. I (Suc 0))"
    using Cons.prems [of 0] by simp
  moreover have "ktriple (I (Suc 0)) (kfor xs body) (\<lambda>_. I (Suc (length xs)))"
    by (rule Cons.IH [of "\<lambda>k. I (Suc k)"]) (use Cons.prems [of "Suc _"] in simp)
  ultimately show ?case by (simp add: ktriple_seq)
qed

end
