(* ===== verification/Sched.thy ===== *)
theory Sched
  imports Kmonad
begin

text \<open>
  The process table and the scheduler: the structures \<^verbatim>\<open>proc\<close>, \<^verbatim>\<open>context\<close>, \<^verbatim>\<open>trapframe\<close> of
  \<^verbatim>\<open>kernel/defs.h\<close> and the parts of \<^verbatim>\<open>kernel/proc.c\<close> that move processes between states
  (\<^verbatim>\<open>schedule\<close>, \<^verbatim>\<open>yield\<close>, \<^verbatim>\<open>sleep\<close>, \<^verbatim>\<open>wakeup\<close>, \<^verbatim>\<open>kill_proc\<close>, \<^verbatim>\<open>exit_proc\<close>). A pointer to a process is
  its index in \<^verbatim>\<open>proc_table\<close>. An array of fixed size is a function on its indices; the loops
  visit the indices below the size only. \<^verbatim>\<open>swtch\<close> is a control transfer: a function is split
  where it calls \<^verbatim>\<open>swtch\<close>, and the part after it runs when the thread is switched back in.
\<close>

section \<open>Structures\<close>

definition PROC :: nat where
  "PROC = 32"

definition NOFILE :: nat where
  "NOFILE = 16"

definition SYS_kill :: int where
  "SYS_kill = 129"

datatype procstate = UNUSED | USED | SLEEPING | RUNNABLE | RUNNING | ZOMBIE

record kcontext =
  ctx_ra :: u64
  ctx_sp :: u64
  ctx_s :: "nat \<Rightarrow> u64"

text \<open>The fields of \<^verbatim>\<open>struct trapframe\<close>, all of type \<^verbatim>\<open>uint64\<close>, by name.\<close>

datatype tfield =
    Tf_kernel_satp | Tf_kernel_sp | Tf_kernel_trap | Tf_usertrap | Tf_kernel_vec
  | Tf_kernel_hartid | Tf_sstatus | Tf_epc
  | Tf_ra | Tf_sp | Tf_gp | Tf_tp
  | Tf_t0 | Tf_t1 | Tf_t2 | Tf_t3 | Tf_t4 | Tf_t5 | Tf_t6
  | Tf_s0 | Tf_s1
  | Tf_a0 | Tf_a1 | Tf_a2 | Tf_a3 | Tf_a4 | Tf_a5 | Tf_a6 | Tf_a7
  | Tf_s2 | Tf_s3 | Tf_s4 | Tf_s5 | Tf_s6 | Tf_s7 | Tf_s8 | Tf_s9 | Tf_s10 | Tf_s11

type_synonym trapframe = "tfield \<Rightarrow> u64"

record proc =
  pstate :: procstate
  pid :: int
  kstack :: u64
  pcontext :: kcontext
  killed :: bool
  exit_status :: int
  parent :: "nat option"
  sleep_ticks :: int
  pchan :: "chan option"
  is_user :: bool
  psz :: u64
  pagetable :: addr
  trapframe_ptr :: addr
  tframe :: trapframe
  cwd :: "nat option"
  ofile :: "nat \<Rightarrow> nat option"

record kcore =
  proc_table :: "nat \<Rightarrow> proc"
  current_proc :: "nat option"
  cpu_proc :: "nat option"
  sie :: bool

abbreviation st_of :: "('a) kcore_scheme \<Rightarrow> nat \<Rightarrow> procstate" where
  "st_of s i \<equiv> pstate (proc_table s i)"

definition upd_proc :: "nat \<Rightarrow> (proc \<Rightarrow> proc) \<Rightarrow> ('a) kcore_scheme \<Rightarrow> ('a) kcore_scheme" where
  "upd_proc i f s = s\<lparr>proc_table := (proc_table s)(i := f (proc_table s i))\<rparr>"

lemma upd_proc_simps [simp]:
  "proc_table (upd_proc i f s) = (proc_table s)(i := f (proc_table s i))"
  "current_proc (upd_proc i f s) = current_proc s"
  "cpu_proc (upd_proc i f s) = cpu_proc s"
  "sie (upd_proc i f s) = sie s"
  by (simp_all add: upd_proc_def)

section \<open>Interrupt flag and current process\<close>

definition intr_on :: "(('a) kcore_scheme, unit) km" where
  "intr_on = kmod (\<lambda>s. s\<lparr>sie := True\<rparr>)"

definition intr_off :: "(('a) kcore_scheme, unit) km" where
  "intr_off = kmod (\<lambda>s. s\<lparr>sie := False\<rparr>)"

text \<open>\<^verbatim>\<open>myproc()\<close> used as a pointer: a null pointer is dereferenced when no process runs.\<close>

definition myproc :: "(('a) kcore_scheme, nat) km" where
  "myproc = (\<lambda>s. case current_proc s of None \<Rightarrow> (Inl NullDeref, s) | Some p \<Rightarrow> (Inr p, s))"

definition mypid :: "(('a) kcore_scheme, int) km" where
  "mypid = kbind myproc (\<lambda>p. kget (\<lambda>s. pid (proc_table s p)))"

section \<open>wakeup, kill, lookup\<close>

definition wakeup_proc :: "chan \<Rightarrow> nat \<Rightarrow> ('a) kcore_scheme \<Rightarrow> ('a) kcore_scheme" where
  "wakeup_proc ch i s =
     (if pstate (proc_table s i) = SLEEPING \<and> pchan (proc_table s i) = Some ch
      then upd_proc i (\<lambda>p. p\<lparr>pstate := RUNNABLE\<rparr>) s else s)"

definition wakeup :: "chan \<Rightarrow> (('a) kcore_scheme, unit) km" where
  "wakeup ch = kseq intr_off (kseq (kfor [0..<PROC] (\<lambda>i. kmod (wakeup_proc ch i))) intr_on)"

fun find_proc :: "(nat \<Rightarrow> proc) \<Rightarrow> (proc \<Rightarrow> bool) \<Rightarrow> nat list \<Rightarrow> nat option" where
  "find_proc tab P [] = None"
| "find_proc tab P (i # is) = (if P (tab i) then Some i else find_proc tab P is)"

definition kill_proc :: "int \<Rightarrow> (('a) kcore_scheme, unit) km" where
  "kill_proc n = kmod (\<lambda>s.
     case find_proc (proc_table s) (\<lambda>p. n = pid p) [0..<PROC] of
       None \<Rightarrow> s
     | Some i \<Rightarrow> upd_proc i (\<lambda>p. p\<lparr>killed := True\<rparr>) s)"

definition get_proc :: "int \<Rightarrow> ('a) kcore_scheme \<Rightarrow> nat option" where
  "get_proc n s =
     (if n < 0 \<or> n \<ge> int PROC then None
      else find_proc (proc_table s) (\<lambda>p. pstate p \<noteq> UNUSED \<and> pid p = n) [0..<PROC])"

section \<open>Switching\<close>

definition SLEEP_TIMEOUT :: int where
  "SLEEP_TIMEOUT = 100"

text \<open>The body of the scheduler's loop for one table entry, up to \<^verbatim>\<open>swtch\<close>.\<close>

definition sched_tick :: "proc \<Rightarrow> proc" where
  "sched_tick p =
     (if pstate p = SLEEPING
      then (let t = sleep_ticks p + 1
            in if t > SLEEP_TIMEOUT then p\<lparr>pstate := RUNNABLE, sleep_ticks := 0\<rparr>
               else p\<lparr>sleep_ticks := t\<rparr>)
      else p\<lparr>sleep_ticks := 0\<rparr>)"

definition sched_visit :: "nat \<Rightarrow> ('a) kcore_scheme \<Rightarrow> ('a) kcore_scheme" where
  "sched_visit i s =
     (let s1 = upd_proc i sched_tick s
      in if st_of s1 i = RUNNABLE
         then (upd_proc i (\<lambda>p. p\<lparr>pstate := RUNNING\<rparr>) s1)\<lparr>cpu_proc := Some i, current_proc := Some i\<rparr>
         else s1)"

text \<open>What the scheduler does when \<^verbatim>\<open>swtch\<close> returns to it.\<close>

definition sched_return :: "('a) kcore_scheme \<Rightarrow> ('a) kcore_scheme" where
  "sched_return s = s\<lparr>cpu_proc := None, current_proc := None\<rparr>"

text \<open>\<^verbatim>\<open>yield\<close> before its \<^verbatim>\<open>swtch\<close>; the result says whether it switches.\<close>

definition yield_enter :: "(('a) kcore_scheme, bool) km" where
  "yield_enter =
     kseq intr_off (\<lambda>s.
       case current_proc s of
         None \<Rightarrow> (Inr False, s)
       | Some p \<Rightarrow>
           (Inr True, (upd_proc p (\<lambda>q. q\<lparr>pstate := RUNNABLE\<rparr>) s)
              \<lparr>current_proc := None, cpu_proc := None, sie := True\<rparr>))"

definition check_killed :: "nat \<Rightarrow> (('a) kcore_scheme, unit) km" where
  "check_killed p =
     kbind (kget (\<lambda>s. killed (proc_table s p)))
       (\<lambda>k. if k then kstop (ExitProc SYS_kill) else kret ())"

text \<open>\<^verbatim>\<open>sleep\<close> without its lock argument (the lock is added with the lock component), before and
  after \<^verbatim>\<open>swtch\<close>.\<close>

definition sleep_enter :: "chan \<Rightarrow> (('a) kcore_scheme, nat) km" where
  "sleep_enter ch =
     kseq intr_off (kbind myproc (\<lambda>p.
       kseq (kmod (upd_proc p (\<lambda>q. q\<lparr>pchan := Some ch, pstate := SLEEPING\<rparr>))) (kret p)))"

definition sleep_leave :: "nat \<Rightarrow> (('a) kcore_scheme, unit) km" where
  "sleep_leave p = kmod (upd_proc p (\<lambda>q. q\<lparr>pchan := None\<rparr>))"

text \<open>\<^verbatim>\<open>exit_proc\<close> up to its last \<^verbatim>\<open>swtch\<close>, from which it never returns. Powering off belongs to
  the caller's machine and is passed in.\<close>

definition exit_proc :: "(('a) kcore_scheme, unit) km \<Rightarrow> int \<Rightarrow> (('a) kcore_scheme, 'b) km" where
  "exit_proc shutdown status = (\<lambda>s.
     case current_proc s of
       None \<Rightarrow> panic ''exit_proc: no current process'' s
     | Some p \<Rightarrow>
         kseq (kmod (upd_proc p (\<lambda>q. q\<lparr>exit_status := status\<rparr>)))
           (kbind (kget (\<lambda>s. parent (proc_table s p))) (\<lambda>par.
             kseq (if par = None then shutdown else kret ())
               (kseq (kmod (upd_proc p (\<lambda>q. q\<lparr>pstate := ZOMBIE\<rparr>)))
                 (kseq (case par of None \<Rightarrow> kret () | Some q \<Rightarrow> wakeup (ChProc q))
                   (kseq (kmod (\<lambda>s. s\<lparr>current_proc := None, cpu_proc := None\<rparr>))
                     (kstop Gone)))))) s)"

section \<open>Laws of the operations\<close>

lemma kfor_mod: "kfor xs (\<lambda>i. kmod (f i)) s = (Inr (), fold f xs s)"
  by (induction xs arbitrary: s) simp_all

lemma fold_wakeup_proc:
  assumes "distinct is"
  shows "fold (wakeup_proc ch) is s = s\<lparr>proc_table := (\<lambda>i.
    if i \<in> set is \<and> st_of s i = SLEEPING \<and> pchan (proc_table s i) = Some ch
    then (proc_table s i)\<lparr>pstate := RUNNABLE\<rparr> else proc_table s i)\<rparr>"
  using assms
proof (induction "is" arbitrary: s)
  case Nil
  then show ?case by simp
next
  case (Cons i "is")
  then show ?case by (auto simp: wakeup_proc_def upd_proc_def fun_eq_iff intro!: kcore.equality)
qed

definition woken :: "chan \<Rightarrow> (nat \<Rightarrow> proc) \<Rightarrow> nat \<Rightarrow> proc" where
  "woken ch tab = (\<lambda>i.
     if i < PROC \<and> pstate (tab i) = SLEEPING \<and> pchan (tab i) = Some ch
     then (tab i)\<lparr>pstate := RUNNABLE\<rparr> else tab i)"

lemma wakeup_run: "wakeup ch s = (Inr (), s\<lparr>proc_table := woken ch (proc_table s), sie := True\<rparr>)"
  by (simp add: wakeup_def intr_off_def intr_on_def kfor_mod fold_wakeup_proc woken_def
      cong: if_cong)

lemma woken_pid [simp]: "pid (woken ch tab i) = pid (tab i)"
  by (simp add: woken_def)

lemma woken_running [simp]: "pstate (woken ch tab i) = RUNNING \<longleftrightarrow> pstate (tab i) = RUNNING"
  by (simp add: woken_def)

lemma find_proc_Some:
  "find_proc tab P is = Some i \<Longrightarrow> i \<in> set is \<and> P (tab i)"
  by (induction "is") (auto split: if_splits)

lemma find_proc_None: "find_proc tab P is = None \<longleftrightarrow> (\<forall>i \<in> set is. \<not> P (tab i))"
  by (induction "is") auto

lemma find_proc_least:
  assumes "find_proc tab P is = Some i" and "sorted_wrt (<) is" and "j \<in> set is" and "j < i"
  shows "\<not> P (tab j)"
  using assms by (induction "is") (auto split: if_splits)

lemma sched_visit_dispatch:
  "current_proc (sched_visit i s) =
     (if pstate (sched_tick (proc_table s i)) = RUNNABLE then Some i else current_proc s)"
  by (simp add: sched_visit_def Let_def)

lemma sched_visit_other: "j \<noteq> i \<Longrightarrow> proc_table (sched_visit i s) j = proc_table s j"
  by (simp add: sched_visit_def Let_def)

lemma sched_tick_runnable: "pstate p = RUNNABLE \<Longrightarrow> pstate (sched_tick p) = RUNNABLE"
  by (simp add: sched_tick_def)

lemma sched_tick_running: "pstate (sched_tick p) = RUNNING \<longleftrightarrow> pstate p = RUNNING"
  by (simp add: sched_tick_def Let_def)

section \<open>The scheduler as a state machine\<close>

text \<open>
  \<open>Scanning i\<close>: the scheduler's loop is at table entry \<open>i\<close>. \<open>Executing i\<close>: it has switched to
  process \<open>i\<close>. A process leaves by \<^verbatim>\<open>yield\<close>, \<^verbatim>\<open>sleep\<close> or \<^verbatim>\<open>exit_proc\<close>; an interrupt handler may
  wake sleepers at any time.
\<close>

datatype smode = Scanning nat | Executing nat

definition next_slot :: "nat \<Rightarrow> nat" where
  "next_slot i = (if Suc i < PROC then Suc i else 0)"

inductive sched_step :: "smode \<times> ('a) kcore_scheme \<Rightarrow> smode \<times> ('a) kcore_scheme \<Rightarrow> bool" where
  visit_skip: "i < PROC \<Longrightarrow> current_proc (sched_visit i s) = None \<Longrightarrow>
     sched_step (Scanning i, s) (Scanning (next_slot i), sched_visit i s)"
| visit_run: "i < PROC \<Longrightarrow> current_proc (sched_visit i s) = Some i \<Longrightarrow>
     sched_step (Scanning i, s) (Executing i, sched_visit i s)"
| do_yield: "yield_enter s = (Inr True, s') \<Longrightarrow>
     sched_step (Executing i, s) (Scanning (next_slot i), sched_return s')"
| do_sleep: "sleep_enter ch s = (Inr p, s') \<Longrightarrow>
     sched_step (Executing i, s) (Scanning (next_slot i), sched_return s')"
| do_exit: "parent (proc_table s i) = Some q \<Longrightarrow> 
     (exit_proc (kret ()) status s :: (stop + unit) \<times> ('a) kcore_scheme) = (Inl Gone, s') \<Longrightarrow>
     sched_step (Executing i, s) (Scanning (next_slot i), sched_return s')"
| do_kill: "kill_proc n s = (Inr (), s') \<Longrightarrow> sched_step (Executing i, s) (Executing i, s')"
| do_wakeup: "wakeup ch s = (Inr (), s') \<Longrightarrow> sched_step (m, s) (m, s')"

inductive_cases sched_stepE: "sched_step (m, s) (m', s')"

definition sched_start :: "('a) kcore_scheme \<Rightarrow> bool" where
  "sched_start s \<longleftrightarrow> current_proc s = None \<and> cpu_proc s = None \<and> (\<forall>i. st_of s i \<noteq> RUNNING)"

inductive sched_reach :: "smode \<times> ('a) kcore_scheme \<Rightarrow> bool" where
  boot: "sched_start s \<Longrightarrow> sched_reach (Scanning 0, s)"
| step: "sched_reach c \<Longrightarrow> sched_step c c' \<Longrightarrow> sched_reach c'"

fun sched_inv :: "smode \<times> ('a) kcore_scheme \<Rightarrow> bool" where
  "sched_inv (Scanning i, s) \<longleftrightarrow>
     i < PROC \<and> current_proc s = None \<and> cpu_proc s = None \<and> (\<forall>j. st_of s j \<noteq> RUNNING)"
| "sched_inv (Executing i, s) \<longleftrightarrow>
     i < PROC \<and> current_proc s = Some i \<and> cpu_proc s = Some i \<and>
     (\<forall>j. st_of s j = RUNNING \<longleftrightarrow> j = i)"

lemma next_slot_lt [simp]: "next_slot i < PROC"
  by (simp add: next_slot_def PROC_def)

lemma exit_proc_run:
  assumes "current_proc s = Some p" and "parent (proc_table s p) = Some q"
  shows "exit_proc sd status s = (Inl Gone,
    s\<lparr>proc_table := woken (ChProc q)
        ((proc_table s)(p := (proc_table s p)\<lparr>exit_status := status, pstate := ZOMBIE\<rparr>)),
      current_proc := None, cpu_proc := None, sie := True\<rparr>)"
  using assms by (simp add: exit_proc_def wakeup_run upd_proc_def)

lemma yield_enter_run:
  "yield_enter s = (Inr True, s') \<Longrightarrow> \<exists>p. current_proc s = Some p \<and>
     s' = (upd_proc p (\<lambda>q. q\<lparr>pstate := RUNNABLE\<rparr>) s)\<lparr>current_proc := None, cpu_proc := None, sie := True\<rparr>"
  by (auto simp: yield_enter_def intr_off_def upd_proc_def split: option.splits)

lemma sleep_enter_run:
  "sleep_enter ch s = (Inr p, s') \<Longrightarrow> current_proc s = Some p \<and>
     s' = (upd_proc p (\<lambda>q. q\<lparr>pchan := Some ch, pstate := SLEEPING\<rparr>) s)\<lparr>sie := False\<rparr>"
  by (auto simp: sleep_enter_def intr_off_def myproc_def kbind_Inr_iff upd_proc_def split: option.splits)

lemma kill_proc_run:
  "kill_proc n s = (Inr (), s') \<Longrightarrow>
     st_of s' j = st_of s j \<and> current_proc s' = current_proc s \<and> cpu_proc s' = cpu_proc s"
  by (auto simp: kill_proc_def split: option.splits)

lemma sched_visit_skip_state:
  assumes "current_proc s = None" and "current_proc (sched_visit i s) = None"
  shows "cpu_proc (sched_visit i s) = cpu_proc s \<and> (st_of (sched_visit i s) j = RUNNING \<longleftrightarrow> st_of s j = RUNNING)"
  using assms by (auto simp: sched_visit_def Let_def sched_tick_running split: if_splits)

lemma sched_step_inv: "sched_step c c' \<Longrightarrow> sched_inv c \<Longrightarrow> sched_inv c'"
proof (induction rule: sched_step.induct)
  case (visit_skip i s)
  then show ?case using sched_visit_skip_state [of s i] by simp
next
  case (visit_run i s)
  then show ?case by (auto simp: sched_visit_def Let_def split: if_splits)
next
  case (do_yield s s' i)
  from yield_enter_run [OF do_yield.hyps] do_yield.prems show ?case by (auto simp: sched_return_def)
next
  case (do_sleep ch s p s' i)
  from sleep_enter_run [OF do_sleep.hyps] do_sleep.prems show ?case by (auto simp: sched_return_def)
next
  case (do_exit s i q status s')
  then have s': "s' = s\<lparr>proc_table := woken (ChProc q)
        ((proc_table s)(i := (proc_table s i)\<lparr>exit_status := status, pstate := ZOMBIE\<rparr>)),
      current_proc := None, cpu_proc := None, sie := True\<rparr>"
    by (simp add: exit_proc_run)
  with do_exit.prems show ?case by (simp add: sched_return_def)
next
  case (do_kill n s s' i)
  from kill_proc_run [OF do_kill.hyps] do_kill.prems show ?case by simp
next
  case (do_wakeup ch s s' m)
  then have "s' = s\<lparr>proc_table := woken ch (proc_table s), sie := True\<rparr>" by (simp add: wakeup_run)
  with do_wakeup.prems show ?case by (cases m) simp_all
qed

lemma sched_reach_inv: "sched_reach c \<Longrightarrow> sched_inv c"
proof (induction rule: sched_reach.induct)
  case (boot s)
  then show ?case by (simp add: sched_start_def PROC_def)
next
  case (step c c')
  then show ?case by (blast intro: sched_step_inv)
qed

section \<open>Round robin\<close>

text \<open>
  One pass of the scheduler's \<^verbatim>\<open>for\<close> loop over the given entries; \<open>run i\<close> is whatever process
  \<open>i\<close> does until it switches back. The result lists the processes that were dispatched.
\<close>

fun sched_pass :: "(nat \<Rightarrow> ('a) kcore_scheme \<Rightarrow> ('a) kcore_scheme) \<Rightarrow> nat list
    \<Rightarrow> ('a) kcore_scheme \<Rightarrow> nat list \<times> ('a) kcore_scheme" where
  "sched_pass run [] s = ([], s)"
| "sched_pass run (i # is) s =
     (let s1 = sched_visit i s
      in if current_proc s1 = Some i
         then (let r = sched_pass run is (sched_return (run i s1)) in (i # fst r, snd r))
         else sched_pass run is s1)"

definition keeps_runnable :: "(nat \<Rightarrow> ('a) kcore_scheme \<Rightarrow> ('a) kcore_scheme) \<Rightarrow> bool" where
  "keeps_runnable run \<longleftrightarrow>
     (\<forall>i j s. j \<noteq> i \<longrightarrow> st_of s j = RUNNABLE \<longrightarrow> st_of (run i s) j = RUNNABLE)"

lemma sched_pass_dispatches:
  assumes "keeps_runnable run" and "j \<in> set is" and "st_of s j = RUNNABLE"
  shows "j \<in> set (fst (sched_pass run is s))"
  using assms(2,3)
proof (induction "is" arbitrary: s)
  case Nil
  then show ?case by simp
next
  case (Cons i "is")
  show ?case
  proof (cases "j = i")
    case True
    then have "current_proc (sched_visit i s) = Some i"
      using Cons.prems by (simp add: sched_visit_dispatch sched_tick_runnable)
    then show ?thesis using True by (simp add: Let_def)
  next
    case False
    then have v: "st_of (sched_visit i s) j = RUNNABLE"
      using Cons.prems by (simp add: sched_visit_other)
    then have "st_of (sched_return (run i (sched_visit i s))) j = RUNNABLE"
      using assms(1) False by (auto simp: keeps_runnable_def sched_return_def)
    then show ?thesis using Cons False v by (simp add: Let_def)
  qed
qed

lemma sched_pass_once:
  assumes "distinct is"
  shows "distinct (fst (sched_pass run is s)) \<and> set (fst (sched_pass run is s)) \<subseteq> set is"
  using assms
proof (induction "is" arbitrary: s)
  case Nil
  then show ?case by simp
next
  case (Cons i "is")
  then show ?case by (auto simp: Let_def split: if_splits)
qed

lemma sched_tick_sleeping:
  assumes "pstate p = SLEEPING" and "sleep_ticks p = 0" and "n \<le> 100"
  shows "(sched_tick ^^ n) p = p\<lparr>sleep_ticks := int n\<rparr>"
  using assms(3)
proof (induction n)
  case 0
  then show ?case using assms(2) by simp
next
  case (Suc n)
  then show ?case using assms(1) by (simp add: sched_tick_def SLEEP_TIMEOUT_def)
qed

section \<open>Properties\<close>

text \<open>C13. In every reachable state of the scheduler at most one process is RUNNING; while a
  process executes it is that one, and it is the one \<^verbatim>\<open>current_proc\<close> and the CPU structure
  name; while the scheduler scans, none is.\<close>

theorem one_running_process:
  assumes "sched_reach (m, s)"
  shows "(case m of
      Executing i \<Rightarrow> current_proc s = Some i \<and> cpu_proc s = Some i \<and> (\<forall>j. st_of s j = RUNNING \<longleftrightarrow> j = i)
    | Scanning i \<Rightarrow> current_proc s = None \<and> cpu_proc s = None \<and> (\<forall>j. st_of s j \<noteq> RUNNING))"
  using sched_reach_inv [OF assms] by (cases m) simp_all

definition idle_proc :: proc where
  "idle_proc = \<lparr>pstate = UNUSED, pid = 0, kstack = 0,
     pcontext = \<lparr>ctx_ra = 0, ctx_sp = 0, ctx_s = (\<lambda>_. 0)\<rparr>, killed = False, exit_status = 0,
     parent = None, sleep_ticks = 0, pchan = None, is_user = False, psz = 0, pagetable = 0,
     trapframe_ptr = 0, tframe = (\<lambda>_. 0), cwd = None, ofile = (\<lambda>_. None)\<rparr>"

definition demo_core :: kcore where
  "demo_core = \<lparr>proc_table = (\<lambda>i. if i = 0 then idle_proc\<lparr>pstate := RUNNABLE\<rparr> else idle_proc\<lparr>pid := int i\<rparr>),
     current_proc = None, cpu_proc = None, sie = True\<rparr>"

theorem one_running_process_witness:
  "(case Executing 0 of
      Executing i \<Rightarrow> current_proc (sched_visit 0 demo_core) = Some i \<and>
        cpu_proc (sched_visit 0 demo_core) = Some i \<and>
        (\<forall>j. st_of (sched_visit 0 demo_core) j = RUNNING \<longleftrightarrow> j = i)
    | Scanning i \<Rightarrow> current_proc (sched_visit 0 demo_core) = None \<and>
        cpu_proc (sched_visit 0 demo_core) = None \<and>
        (\<forall>j. st_of (sched_visit 0 demo_core) j \<noteq> RUNNING))"
proof (rule one_running_process)
  have "sched_start demo_core"
    by (simp add: sched_start_def demo_core_def idle_proc_def)
  moreover have "current_proc (sched_visit 0 demo_core) = Some 0"
    by (simp add: sched_visit_dispatch sched_tick_runnable demo_core_def)
  ultimately show "sched_reach (Executing 0, sched_visit 0 demo_core)"
    by (rule_tac sched_reach.step [OF sched_reach.boot sched_step.visit_run]) (simp_all add: PROC_def)
qed



text \<open>A sleeping process that nobody wakes stays asleep for 100 scheduler visits and is made
  runnable by the next one, so a lost wakeup delays a process but never blocks it for good.\<close>

theorem sleep_timeout_wakes:
  assumes "pstate p = SLEEPING" and "sleep_ticks p = 0"
  shows "(n \<le> 100 \<longrightarrow> pstate ((sched_tick ^^ n) p) = SLEEPING) \<and>
    pstate ((sched_tick ^^ 101) p) = RUNNABLE"
proof -
  have "(sched_tick ^^ 101) p = sched_tick ((sched_tick ^^ 100) p)"
    by (metis funpow.simps(2) comp_apply numeral_eq_Suc pred_numeral_simps(2,3) arith_simps(1-3) Suc_numeral)
  moreover have "(sched_tick ^^ 100) p = p\<lparr>sleep_ticks := 100\<rparr>"
    using sched_tick_sleeping [OF assms, of 100] by simp
  ultimately show ?thesis
    using assms sched_tick_sleeping [OF assms, of n] by (simp add: sched_tick_def SLEEP_TIMEOUT_def)
qed

theorem sleep_timeout_wakes_witness:
  "pstate ((sched_tick ^^ 7) (idle_proc\<lparr>pstate := SLEEPING\<rparr>)) = SLEEPING \<and>
   pstate ((sched_tick ^^ 101) (idle_proc\<lparr>pstate := SLEEPING\<rparr>)) = RUNNABLE"
  using sleep_timeout_wakes [of "idle_proc\<lparr>pstate := SLEEPING\<rparr>" 7] by (simp add: idle_proc_def)

end
