(* ===== verification/PhysMem.thy ===== *)
theory PhysMem
  imports Memory Sched
begin

text \<open>
  The physical page allocator, \<^verbatim>\<open>kernel/pm.c\<close>. The free list is threaded through the free pages
  themselves: the first eight bytes of a free page hold the address of the next one. \<open>flist\<close>
  abstracts that structure to the list of free pages, and \<open>pm_inv\<close> is the allocator's
  invariant. The interface the page-table code relies on is the locale \<open>page_alloc\<close>.
\<close>

section \<open>State and operations\<close>

definition PGSIZE :: nat where
  "PGSIZE = 4096"

definition KERNBASE :: addr where
  "KERNBASE = 0x80000000"

definition PHYSTOP :: addr where
  "PHYSTOP = KERNBASE + 128 * 1024 * 1024"

definition PGROUNDUP :: "u64 \<Rightarrow> u64" where
  "PGROUNDUP sz = (sz + 4096 - 1) AND NOT (4096 - 1)"

definition PGROUNDDOWN :: "u64 \<Rightarrow> u64" where
  "PGROUNDDOWN a = a AND NOT (4096 - 1)"

text \<open>\<open>ld_end\<close> is the linker symbol \<^verbatim>\<open>end\<close>, the first address after the kernel image.\<close>

record kpm = kcore +
  mem :: phys
  freelist :: addr
  ld_end :: addr

definition alloc_page :: "(('a) kpm_scheme, addr) km" where
  "alloc_page = (\<lambda>s.
     let r = freelist s
     in if r \<noteq> 0
        then (let s1 = s\<lparr>freelist := load64 (mem s) r\<rparr>
              in (Inr r, s1\<lparr>mem := memset (mem s1) (r + 8) 5 (PGSIZE - 8)\<rparr>))
        else panic ''alloc_page: out of memory'' s)"

definition free_page :: "addr \<Rightarrow> (('a) kpm_scheme, unit) km" where
  "free_page page = (\<lambda>s.
     if unat page mod PGSIZE \<noteq> 0 \<or> page < ld_end s \<or> page \<ge> PHYSTOP
     then panic ''free_page: invalid page address'' s
     else (Inr (), s\<lparr>mem := store64 (mem s) page (freelist s), freelist := page\<rparr>))"

text \<open>The loop of \<^verbatim>\<open>freerange\<close>; the pointer comparison is taken without wrap-around, since a
  pointer past the address space is undefined.\<close>

function freerange_loop :: "addr \<Rightarrow> addr \<Rightarrow> (('a) kpm_scheme, unit) km" where
  "freerange_loop p pa_end =
     (if unat p + PGSIZE \<le> unat pa_end
      then kseq (free_page p) (freerange_loop (p + 4096) pa_end)
      else kret ())"
  by pat_completeness auto
termination
proof (relation "measure (\<lambda>(p, pa_end). unat pa_end - unat p)", simp, goal_cases)
  case (1 p pa_end)
  have "unat p + 4096 < 2 ^ 64"
    using 1 unat_lt_pow [of pa_end] by (simp add: PGSIZE_def)
  then have "unat (p + 4096) = unat p + 4096" by (simp add: unat_plus_nowrap)
  then show ?case using 1 by (simp add: PGSIZE_def)
qed

declare freerange_loop.simps [simp del]

definition freerange :: "addr \<Rightarrow> addr \<Rightarrow> (('a) kpm_scheme, unit) km" where
  "freerange pa_start pa_end = freerange_loop (PGROUNDUP pa_start) pa_end"

definition pmm_init :: "(('a) kpm_scheme, unit) km" where
  "pmm_init = kbind (kget ld_end) (\<lambda>e. freerange e PHYSTOP)"

section \<open>Abstraction and invariant\<close>

primrec flist :: "phys \<Rightarrow> addr \<Rightarrow> addr list \<Rightarrow> bool" where
  "flist m p [] \<longleftrightarrow> p = 0"
| "flist m p (x # xs) \<longleftrightarrow> p = x \<and> x \<noteq> 0 \<and> flist m (load64 m x) xs"

definition page_ok :: "addr \<Rightarrow> addr \<Rightarrow> bool" where
  "page_ok lo x \<longleftrightarrow> unat x mod PGSIZE = 0 \<and> lo \<le> x \<and> x < PHYSTOP"

definition pm_inv :: "('a) kpm_scheme \<Rightarrow> addr list \<Rightarrow> bool" where
  "pm_inv s ps \<longleftrightarrow> 0 < ld_end s \<and> flist (mem s) (freelist s) ps \<and> distinct ps \<and>
     (\<forall>x \<in> set ps. page_ok (ld_end s) x)"

lemma PHYSTOP_eq: "PHYSTOP = 0x88000000"
  by (simp add: PHYSTOP_def KERNBASE_def)

lemma page_room:
  fixes x :: addr
  assumes "unat x mod PGSIZE = 0"
  shows "unat x + PGSIZE \<le> 2 ^ 64"
  using assms unat_lt_pow [of x] by (intro aligned_room) (simp_all add: PGSIZE_def)

lemma page_aligned8:
  fixes x :: addr
  assumes "unat x mod PGSIZE = 0"
  shows "aligned8 x"
proof -
  have "8 dvd (4096 :: nat)" by simp
  then show ?thesis using assms unfolding PGSIZE_def by (metis dvd_trans mod_eq_0_iff_dvd)
qed

lemma pages_disjoint:
  fixes x y :: addr
  assumes "unat x mod PGSIZE = 0" and "unat y mod PGSIZE = 0"
    and "in_range x PGSIZE a" and "in_range y PGSIZE a"
  shows "x = y"
proof -
  have "unat x \<le> unat a \<and> unat a < unat x + PGSIZE" and "unat y \<le> unat a \<and> unat a < unat y + PGSIZE"
    using assms page_room [of x] page_room [of y] by (simp_all add: in_range_nat)
  then have "unat x = unat a div PGSIZE * PGSIZE" and "unat y = unat a div PGSIZE * PGSIZE"
    using assms(1,2) aligned_block_div [of "unat x" PGSIZE "unat a"]
      aligned_block_div [of "unat y" PGSIZE "unat a"] by simp_all
  then show ?thesis by (simp add: word_unat_eq_iff)
qed

lemma in_range_mono: "in_range p n a \<Longrightarrow> n \<le> k \<Longrightarrow> in_range p k a"
  by (simp add: in_range_def)

lemma flist_cong:
  assumes "\<And>x a. x \<in> set ps \<Longrightarrow> in_range x 8 a \<Longrightarrow> m a = m' a"
  shows "flist m p ps = flist m' p ps"
  using assms
proof (induction ps arbitrary: p)
  case Nil
  then show ?case by simp
next
  case (Cons x ps)
  have "load64 m x = load64 m' x" by (rule load64_cong) (use Cons.prems in auto)
  moreover have "flist m q ps = flist m' q ps" for q
    by (rule Cons.IH) (use Cons.prems in auto)
  ultimately show ?case by simp
qed

text \<open>The allocator does not look at memory outside the free pages.\<close>

lemma pm_inv_frame:
  assumes "pm_inv s ps" and "freelist s' = freelist s" and "ld_end s' = ld_end s"
    and "\<And>x a. x \<in> set ps \<Longrightarrow> in_range x PGSIZE a \<Longrightarrow> mem s' a = mem s a"
  shows "pm_inv s' ps"
proof -
  have "flist (mem s') (freelist s) ps = flist (mem s) (freelist s) ps"
    by (rule flist_cong) (use assms(4) in_range_mono [of _ 8 _ PGSIZE] in \<open>auto simp: PGSIZE_def\<close>)
  then show ?thesis using assms(1-3) by (simp add: pm_inv_def)
qed

section \<open>Operations under the invariant\<close>

lemma alloc_page_inv:
  assumes inv: "pm_inv s (x # xs)"
  obtains s' where "alloc_page s = (Inr x, s')" and "pm_inv s' xs"
    and "s' = s\<lparr>mem := mem s', freelist := freelist s'\<rparr>" and "ld_end s' = ld_end s"
    and "\<And>a. \<not> in_range x PGSIZE a \<Longrightarrow> mem s' a = mem s a"
    and "\<And>a. in_range (x + 8) (PGSIZE - 8) a \<Longrightarrow> mem s' a = 5"
proof -
  define m' where "m' = memset (mem s) (x + 8) 5 (PGSIZE - 8)"
  define s' where "s' = s\<lparr>mem := m', freelist := load64 (mem s) x\<rparr>"
  have x: "freelist s = x" "x \<noteq> 0" "flist (mem s) (load64 (mem s) x) xs"
    and al: "unat x mod PGSIZE = 0" and xs: "\<And>y. y \<in> set xs \<Longrightarrow> y \<noteq> x \<and> unat y mod PGSIZE = 0"
    using inv by (auto simp: pm_inv_def page_ok_def)
  have x8: "unat (x + 8) = unat x + 8"
    using page_room [OF al] by (intro unat_plus_nowrap [of x 8, simplified]) (simp add: PGSIZE_def)
  have sub: "in_range (x + 8) (PGSIZE - 8) a \<Longrightarrow> in_range x PGSIZE a" for a
    using page_room [OF al] x8 by (auto simp: in_range_nat PGSIZE_def)
  have out: "m' a = mem s a" if "\<not> in_range x PGSIZE a" for a
    using that sub [of a] by (auto simp: m'_def memset_apply PGSIZE_def)
  have run: "alloc_page s = (Inr x, s')"
    using x by (simp add: alloc_page_def s'_def m'_def Let_def)
  have "flist m' (load64 (mem s) x) xs"
  proof (subst flist_cong [of xs m' "mem s"])
    fix y a assume "y \<in> set xs" and "in_range y 8 a"
    then have "\<not> in_range x PGSIZE a"
      using xs [of y] al pages_disjoint [of x y a] in_range_mono [of y 8 a PGSIZE]
      by (auto simp: PGSIZE_def)
    then show "m' a = mem s a" by (rule out)
  qed (rule x(3))
  then have "pm_inv s' xs" using inv by (auto simp: pm_inv_def s'_def)
  moreover have "m' a = 5" if "in_range (x + 8) (PGSIZE - 8) a" for a
    using that by (simp add: m'_def memset_apply PGSIZE_def)
  ultimately show ?thesis
    using run out by (intro that [of s']) (simp_all add: s'_def)
qed

lemma alloc_page_empty:
  "pm_inv s [] \<Longrightarrow> alloc_page s = (Inl (Panic ''alloc_page: out of memory''), s)"
  by (simp add: pm_inv_def alloc_page_def)

lemma free_page_inv:
  assumes inv: "pm_inv s xs" and ok: "page_ok (ld_end s) x" and new: "x \<notin> set xs"
  obtains s' where "free_page x s = (Inr (), s')" and "pm_inv s' (x # xs)"
    and "s' = s\<lparr>mem := mem s', freelist := freelist s'\<rparr>" and "ld_end s' = ld_end s"
    and "\<And>a. \<not> in_range x 8 a \<Longrightarrow> mem s' a = mem s a"
proof -
  define s' where "s' = s\<lparr>mem := store64 (mem s) x (freelist s), freelist := x\<rparr>"
  have run: "free_page x s = (Inr (), s')"
    using ok by (auto simp: free_page_def page_ok_def s'_def)
  have "flist (mem s') (freelist s) xs = flist (mem s) (freelist s) xs"
  proof (rule flist_cong)
    fix y a assume y: "y \<in> set xs" and "in_range y 8 a"
    then have "\<not> in_range x 8 a"
      using aligned8_disjoint [of x y a] page_aligned8 ok inv new
      by (auto simp: pm_inv_def page_ok_def)
    then show "mem s' a = mem s a" by (simp add: s'_def store64_outside)
  qed
  moreover have "x \<noteq> 0" using ok inv by (auto simp: pm_inv_def page_ok_def)
  moreover have "load64 (mem s') x = freelist s" by (simp add: s'_def)
  ultimately have "pm_inv s' (x # xs)"
    using inv ok new by (simp add: pm_inv_def s'_def)
  then show ?thesis
    using run by (intro that [of s']) (simp_all add: s'_def store64_outside)
qed

section \<open>The allocator's interface\<close>

text \<open>
  What a client may rely on: \<open>inv s xs\<close> relates the state to the list of pages that can still
  be handed out, \<open>valid s\<close> says which addresses are pages of the managed range.
\<close>

locale page_alloc =
  fixes inv :: "'s \<Rightarrow> addr list \<Rightarrow> bool"
    and alloc :: "('s, addr) km"
    and free :: "addr \<Rightarrow> ('s, unit) km"
    and valid :: "'s \<Rightarrow> addr \<Rightarrow> bool"
  assumes inv_valid: "inv s xs \<Longrightarrow> x \<in> set xs \<Longrightarrow> valid s x"
    and inv_distinct: "inv s xs \<Longrightarrow> distinct xs"
    and alloc_law: "inv s (x # xs) \<Longrightarrow>
      \<exists>s'. alloc s = (Inr x, s') \<and> inv s' xs \<and> valid s' = valid s"
    and alloc_empty: "inv s [] \<Longrightarrow> \<exists>msg. alloc s = (Inl (Panic msg), s)"
    and free_law: "inv s xs \<Longrightarrow> valid s x \<Longrightarrow> x \<notin> set xs \<Longrightarrow>
      \<exists>s'. free x s = (Inr (), s') \<and> inv s' (x # xs) \<and> valid s' = valid s"
begin

primrec alloc_n :: "nat \<Rightarrow> ('s, addr list) km" where
  "alloc_n 0 = kret []"
| "alloc_n (Suc n) = kbind alloc (\<lambda>x. kbind (alloc_n n) (\<lambda>xs. kret (x # xs)))"

lemma alloc_n_enough:
  assumes "inv s xs" and "n \<le> length xs"
  shows "\<exists>s'. alloc_n n s = (Inr (take n xs), s') \<and> inv s' (drop n xs) \<and> valid s' = valid s"
  using assms
proof (induction n arbitrary: s xs)
  case 0
  then show ?case by simp
next
  case (Suc n)
  then obtain x ys where xs: "xs = x # ys" by (cases xs) auto
  with Suc.prems alloc_law obtain s1 where s1: "alloc s = (Inr x, s1)" "inv s1 ys" "valid s1 = valid s"
    by blast
  moreover obtain s2 where "alloc_n n s1 = (Inr (take n ys), s2)" "inv s2 (drop n ys)" "valid s2 = valid s1"
    using Suc.IH [OF s1(2)] Suc.prems xs by auto
  ultimately show ?case using xs by simp
qed

lemma free_all:
  assumes "inv s xs" and "distinct (ys @ xs)" and "\<forall>y \<in> set ys. valid s y"
  shows "\<exists>s'. kfor (rev ys) free s = (Inr (), s') \<and> inv s' (ys @ xs) \<and> valid s' = valid s"
  using assms
proof (induction ys arbitrary: s xs rule: rev_induct)
  case Nil
  then show ?case by simp
next
  case (snoc y ys)
  then obtain s1 where s1: "free y s = (Inr (), s1)" "inv s1 (y # xs)" "valid s1 = valid s"
    using free_law [of s xs y] by auto
  then have "\<exists>s'. kfor (rev ys) free s1 = (Inr (), s') \<and> inv s' (ys @ y # xs) \<and> valid s' = valid s1"
    by (intro snoc.IH) (use snoc.prems in auto)
  then show ?case using s1 by auto
qed

end

interpretation pm: page_alloc pm_inv alloc_page free_page "\<lambda>s. page_ok (ld_end s)"
proof (unfold_locales, goal_cases)
  case (1 s xs x)
  then show ?case by (simp add: pm_inv_def)
next
  case (2 s xs)
  then show ?case by (simp add: pm_inv_def)
next
  case (3 s x xs)
  then obtain s' where "alloc_page s = (Inr x, s')" "pm_inv s' xs"
      "ld_end s' = ld_end s"
    by (rule alloc_page_inv)
  then show ?case by simp
next
  case (4 s)
  then show ?case by (auto dest: alloc_page_empty)
next
  case (5 s xs x)
  then obtain s' where "free_page x s = (Inr (), s')" "pm_inv s' (x # xs)"
      "ld_end s' = ld_end s"
    by (rule free_page_inv)
  then show ?case by simp
qed

section \<open>Boot\<close>

lemma and_not_mask_eq: "a AND NOT (mask n) = a - take_bit n (a :: 'a::len word)"
proof -
  have "(a AND NOT (mask n)) + (a AND mask n) = a"
    by (subst disjunctive_add) (auto simp: bit_simps bit_eq_iff)
  then show ?thesis by (simp add: take_bit_eq_mask eq_diff_eq)
qed

lemma unat_and_not_mask: "unat (a AND NOT (mask n)) = unat a - unat (a :: 'a::len word) mod 2 ^ n"
proof -
  have "take_bit n a \<le> a"
    by (simp add: word_le_nat_alt unsigned_take_bit_eq)
  then show ?thesis
    by (simp only: and_not_mask_eq unat_minus_le unsigned_take_bit_eq) (simp add: take_bit_eq_mod)
qed

lemma unat_PGROUNDUP:
  assumes "unat a + 4095 < 2 ^ 64"
  shows "unat (PGROUNDUP a) = (unat a + 4095) div PGSIZE * PGSIZE"
proof -
  have "PGROUNDUP a = (a + 4095) AND NOT (mask 12)" by (simp add: PGROUNDUP_def mask_eq_exp_minus_1 add.commute)
  moreover have "unat (a + 4095) = unat a + 4095" using assms by (simp add: unat_plus_nowrap)
  ultimately show ?thesis
    by (simp add: unat_and_not_mask PGSIZE_def minus_mod_eq_div_mult)
qed

lemma round_up_le: "x mod PGSIZE = 0 \<Longrightarrow> (e + 4095) div PGSIZE * PGSIZE \<le> x \<longleftrightarrow> e \<le> x"
proof -
  assume "x mod PGSIZE = 0"
  then obtain q where q: "x = 4096 * q" by (auto simp: PGSIZE_def mod_eq_0_iff_dvd)
  have "(e + 4095) div 4096 < Suc q \<longleftrightarrow> e + 4095 < Suc q * 4096"
    by (rule div_less_iff_less_mult) simp
  then show ?thesis using q by (auto simp: PGSIZE_def less_Suc_eq_le)
qed

lemma freerange_loop_run:
  assumes "pm_inv s xs" and "unat p mod PGSIZE = 0" and "ld_end s \<le> p" and "p \<le> PHYSTOP"
    and "\<forall>x \<in> set xs. x < p"
  shows "\<exists>s' ps. freerange_loop p PHYSTOP s = (Inr (), s') \<and> pm_inv s' ps \<and> s' = s\<lparr>mem := mem s', freelist := freelist s'\<rparr> \<and>
    (\<forall>a < p. mem s' a = mem s a) \<and> set ps = set xs \<union> {x. unat x mod PGSIZE = 0 \<and> p \<le> x \<and> x < PHYSTOP}"
  using assms
proof (induction "unat PHYSTOP - unat p" arbitrary: s p xs rule: less_induct)
  case less
  have top: "unat PHYSTOP = 0x88000000" "unat PHYSTOP mod PGSIZE = 0" by (simp_all add: PHYSTOP_eq PGSIZE_def)
  show ?case
  proof (cases "p = PHYSTOP")
    case True
    then have "freerange_loop p PHYSTOP s = (Inr (), s)"
      by (subst freerange_loop.simps) (simp add: PGSIZE_def)
    then show ?thesis using less.prems True by (intro exI [of _ s] exI [of _ xs]) auto
  next
    case False
    then have lt: "p < PHYSTOP" using less.prems by simp
    then have "unat p < unat PHYSTOP" by (simp add: word_less_nat_alt)
    then have room: "unat p + PGSIZE \<le> unat PHYSTOP"
      using less.prems(2) top(2) by (rule_tac aligned_room) simp_all
    then have p': "unat (p + 4096) = unat p + PGSIZE"
      using top by (subst unat_plus_nowrap) (simp_all add: PGSIZE_def)
    have "page_ok (ld_end s) p" "p \<notin> set xs" using less.prems lt by (auto simp: page_ok_def)
    then obtain s1 where s1: "free_page p s = (Inr (), s1)" "pm_inv s1 (p # xs)" "s1 = s\<lparr>mem := mem s1, freelist := freelist s1\<rparr>"
        "ld_end s1 = ld_end s" "\<And>a. \<not> in_range p 8 a \<Longrightarrow> mem s1 a = mem s a"
      by (rule free_page_inv [OF less.prems(1)]) (rule that)
    have le: "p + 4096 \<le> PHYSTOP" "p < p + 4096"
      using room p' by (simp_all add: word_le_nat_alt word_less_nat_alt PGSIZE_def)
    have "unat PHYSTOP - unat (p + 4096) < unat PHYSTOP - unat p" "unat (p + 4096) mod PGSIZE = 0" "ld_end s1 \<le> p + 4096"
        "\<forall>x \<in> set (p # xs). x < p + 4096"
      using room p' less.prems le s1(4) by (auto simp: PGSIZE_def)
    from less.hyps [OF this(1) s1(2) this(2,3) le(1) this(4)]
    obtain s' ps where s': "freerange_loop (p + 4096) PHYSTOP s1 = (Inr (), s')" "pm_inv s' ps"
        "s' = s1\<lparr>mem := mem s', freelist := freelist s'\<rparr>" "\<forall>a < p + 4096. mem s' a = mem s1 a"
        "set ps = set (p # xs) \<union> {x. unat x mod PGSIZE = 0 \<and> p + 4096 \<le> x \<and> x < PHYSTOP}"
      by blast
    have keep: "mem s' a = mem s a" if "a < p" for a
    proof -
      have "unat p + 8 \<le> 2 ^ 64" using room top by (simp add: PGSIZE_def)
      then have "\<not> in_range p 8 a" using that by (simp add: in_range_nat word_less_nat_alt)
      moreover have "a < p + 4096" using that le(2) by (rule less_trans)
      ultimately show ?thesis using s'(4) s1(5) by simp
    qed
    have rest: "s' = s\<lparr>mem := mem s', freelist := freelist s'\<rparr>" by (subst s'(3), subst s1(3)) simp
    have "unat x mod PGSIZE = 0 \<and> p \<le> x \<longleftrightarrow> x = p \<or> (unat x mod PGSIZE = 0 \<and> p + 4096 \<le> x)" for x
    proof -
      have "unat x mod PGSIZE = 0 \<and> unat p \<le> unat x \<longleftrightarrow>
          unat x = unat p \<or> (unat x mod PGSIZE = 0 \<and> unat p + PGSIZE \<le> unat x)"
        using less.prems(2) aligned_room [of "unat p" PGSIZE "unat x"] by (auto simp: le_less)
      then show ?thesis using p' by (simp add: word_le_nat_alt word_unat_eq_iff)
    qed
    then have "{x. unat x mod PGSIZE = 0 \<and> p \<le> x \<and> x < PHYSTOP} =
        insert p {x. unat x mod PGSIZE = 0 \<and> p + 4096 \<le> x \<and> x < PHYSTOP}"
      using lt by (intro set_eqI) (simp only: mem_Collect_eq insert_iff, metis)
    then have "set ps = set xs \<union> {x. unat x mod PGSIZE = 0 \<and> p \<le> x \<and> x < PHYSTOP}"
      using s'(5) by simp
    moreover have "freerange_loop p PHYSTOP s = (Inr (), s')"
      using room s1(1) s'(1) by (subst freerange_loop.simps) simp
    ultimately show ?thesis using s'(2) keep rest by blast
  qed
qed

lemma pmm_init_run:
  assumes "freelist s = 0" and "0 < ld_end s" and "ld_end s \<le> PHYSTOP"
  obtains s' ps where "pmm_init s = (Inr (), s')" and "pm_inv s' ps" and "set ps = {x. page_ok (ld_end s) x}"
    and "s' = s\<lparr>mem := mem s', freelist := freelist s'\<rparr>" and "\<And>a. a < ld_end s \<Longrightarrow> mem s' a = mem s a"
proof -
  let ?p = "PGROUNDUP (ld_end s)"
  have le: "unat (ld_end s) \<le> 0x88000000" using assms(3) by (simp add: word_le_nat_alt PHYSTOP_eq)
  then have p: "unat ?p = (unat (ld_end s) + 4095) div PGSIZE * PGSIZE"
    by (intro unat_PGROUNDUP) simp
  have "pm_inv s []" using assms by (simp add: pm_inv_def)
  moreover have "unat ?p mod PGSIZE = 0" using p by simp
  moreover have up: "ld_end s \<le> ?p"
    using p by (simp add: word_le_nat_alt PGSIZE_def)
  moreover have "?p \<le> PHYSTOP"
    using p le by (simp add: word_le_nat_alt PHYSTOP_eq PGSIZE_def)
  ultimately obtain s' ps where s': "freerange_loop ?p PHYSTOP s = (Inr (), s')" "pm_inv s' ps"
      "set ps = {x. unat x mod PGSIZE = 0 \<and> ?p \<le> x \<and> x < PHYSTOP}"
      "s' = s\<lparr>mem := mem s', freelist := freelist s'\<rparr>" "\<forall>a < ?p. mem s' a = mem s a"
    using freerange_loop_run [of s "[]" ?p] by auto
  have "(unat x mod PGSIZE = 0 \<and> ?p \<le> x) = (unat x mod PGSIZE = 0 \<and> ld_end s \<le> x)" for x
    unfolding word_le_nat_alt p by (intro conj_cong refl round_up_le)
  then have "set ps = {x. page_ok (ld_end s) x}" using s'(3) by (simp only: page_ok_def flip: conj_assoc)
  moreover have "mem s' a = mem s a" if "a < ld_end s" for a using s'(5) that up by (meson order_less_le_trans)
  ultimately show ?thesis using s'(1,2,4) by (intro that [of s' ps]) (simp_all add: pmm_init_def freerange_def)
qed

section \<open>Properties\<close>

text \<open>Boot: \<^verbatim>\<open>pmm_init\<close> ends normally and the free list then holds, once each, exactly the
  aligned pages between the end of the kernel image and \<^verbatim>\<open>PHYSTOP\<close>.\<close>

theorem pmm_init_frees_all_pages:
  assumes "freelist s = 0" and "0 < ld_end s" and "ld_end s \<le> PHYSTOP"
  shows "\<exists>s' ps. pmm_init s = (Inr (), s') \<and> pm_inv s' ps \<and> set ps = {x. page_ok (ld_end s) x}"
  using pmm_init_run [OF assms] by metis

definition demo_kpm :: kpm where
  "demo_kpm = kcore.extend demo_core
     \<lparr>mem = (\<lambda>_. 0), freelist = 0, ld_end = 0x80005000\<rparr>"

theorem pmm_init_frees_all_pages_witness:
  "\<exists>s' ps. pmm_init demo_kpm = (Inr (), s') \<and> pm_inv s' ps \<and> set ps = {x. page_ok (ld_end demo_kpm) x}"
  by (rule pmm_init_frees_all_pages) (simp_all add: demo_kpm_def kcore.extend_def PHYSTOP_eq)

text \<open>\<^verbatim>\<open>alloc_page\<close> under the allocator's invariant: with a page left it returns the head of the
  free list, a page of the managed range that is on the list no more, fills all of it but the
  link word with the byte 5, and changes no other byte; with none left it panics and changes
  nothing.\<close>

theorem alloc_page_correct:
  assumes "pm_inv s ps"
  shows "case ps of
      [] \<Rightarrow> alloc_page s = (Inl (Panic ''alloc_page: out of memory''), s)
    | x # xs \<Rightarrow> \<exists>s'. alloc_page s = (Inr x, s') \<and> pm_inv s' xs \<and> x \<notin> set xs \<and>
        page_ok (ld_end s) x \<and>
        (\<forall>a. mem s' a = (if in_range (x + 8) (PGSIZE - 8) a then 5 else mem s a))"
proof (cases ps)
  case Nil
  then show ?thesis using assms by (simp add: alloc_page_empty)
next
  case (Cons x xs)
  then have inv: "pm_inv s (x # xs)" and x: "freelist s = x" "x \<noteq> 0" "page_ok (ld_end s) x" "x \<notin> set xs"
    using assms by (auto simp: pm_inv_def)
  obtain s' where "alloc_page s = (Inr x, s')" "pm_inv s' xs" using inv by (rule alloc_page_inv)
  moreover from this have "mem s' = memset (mem s) (x + 8) 5 (PGSIZE - 8)"
    using x by (auto simp: alloc_page_def Let_def)
  ultimately show ?thesis using Cons x by (simp add: memset_apply PGSIZE_def)
qed

text \<open>A state with two free pages.\<close>

definition demo_free2 :: kpm where
  "demo_free2 = demo_kpm\<lparr>mem := store64 (\<lambda>_. 0) 0x80006000 0x80005000, freelist := 0x80006000\<rparr>"

lemma demo_free2_inv: "pm_inv demo_free2 [0x80006000, 0x80005000]"
proof -
  have "load64 (store64 (\<lambda>_. 0) 0x80006000 0x80005000) 0x80005000 = load64 (\<lambda>_. 0) 0x80005000"
    by (rule load64_store64_other) simp_all
  also have "\<dots> = 0" by code_simp
  finally show ?thesis
    by (simp add: pm_inv_def demo_free2_def demo_kpm_def kcore.extend_def page_ok_def PGSIZE_def PHYSTOP_eq)
qed

theorem alloc_page_correct_witness:
  "\<exists>s'. alloc_page demo_free2 = (Inr 0x80006000, s') \<and> pm_inv s' [0x80005000] \<and>
        (\<forall>a. mem s' a = (if in_range 0x80006008 (PGSIZE - 8) a then 5 else mem demo_free2 a))"
  using alloc_page_correct [OF demo_free2_inv] by auto

text \<open>\<^verbatim>\<open>free_page\<close> accepts exactly the aligned addresses of the managed range. A page that is
  not free yet goes to the head of the list and the invariant is kept, only its link word
  changes; every other address makes the kernel panic with the state unchanged.\<close>

theorem free_page_correct:
  assumes "pm_inv s ps"
  shows "if page_ok (ld_end s) x
    then x \<notin> set ps \<longrightarrow> (\<exists>s'. free_page x s = (Inr (), s') \<and> pm_inv s' (x # ps) \<and>
           load64 (mem s') x = freelist s \<and> (\<forall>a. \<not> in_range x 8 a \<longrightarrow> mem s' a = mem s a))
    else free_page x s = (Inl (Panic ''free_page: invalid page address''), s)"
proof (cases "page_ok (ld_end s) x")
  case True
  show ?thesis
  proof (simp add: True, intro impI)
    assume "x \<notin> set ps"
    with assms True obtain s' where s': "free_page x s = (Inr (), s')" "pm_inv s' (x # ps)"
        "\<And>a. \<not> in_range x 8 a \<Longrightarrow> mem s' a = mem s a" by (metis free_page_inv)
    moreover have "load64 (mem s') x = freelist s"
      using s'(1) True by (auto simp: free_page_def page_ok_def split: if_splits)
    ultimately show "\<exists>s'. free_page x s = (Inr (), s') \<and> pm_inv s' (x # ps) \<and>
           load64 (mem s') x = freelist s \<and> (\<forall>a. \<not> in_range x 8 a \<longrightarrow> mem s' a = mem s a)"
      by blast
  qed
next
  case False
  then show ?thesis by (auto simp: free_page_def page_ok_def not_le not_less)
qed

theorem free_page_correct_witness:
  "\<exists>s'. free_page 0x80007000 demo_free2 = (Inr (), s') \<and>
     pm_inv s' [0x80007000, 0x80006000, 0x80005000]"
  using free_page_correct [where x = "0x80007000", OF demo_free2_inv]
  by (auto simp: page_ok_def PGSIZE_def PHYSTOP_eq demo_free2_def demo_kpm_def kcore.extend_def)

text \<open>The allocator as its clients see it: \<open>n\<close> allocations in a row give \<open>n\<close> distinct pages
  while \<open>n\<close> pages are left, none of which stays on the free list, and freeing them in the
  reverse order restores the free list.\<close>

theorem alloc_free_roundtrip:
  assumes "pm_inv s ps" and "n \<le> length ps"
  shows "\<exists>s1 s2. pm.alloc_n n s = (Inr (take n ps), s1) \<and> distinct (take n ps) \<and>
    pm_inv s1 (drop n ps) \<and> kfor (rev (take n ps)) free_page s1 = (Inr (), s2) \<and> pm_inv s2 ps"
proof -
  obtain s1 where s1: "pm.alloc_n n s = (Inr (take n ps), s1)" "pm_inv s1 (drop n ps)"
      "page_ok (ld_end s1) = page_ok (ld_end s)"
    using pm.alloc_n_enough [OF assms] by blast
  moreover have "distinct (take n ps @ drop n ps)"
    using pm.inv_distinct [OF assms(1)] by simp
  moreover have "\<forall>y \<in> set (take n ps). page_ok (ld_end s1) y"
    using pm.inv_valid [OF assms(1)] s1(3) by (auto dest: in_set_takeD)
  ultimately obtain s2 where "kfor (rev (take n ps)) free_page s1 = (Inr (), s2)"
      "pm_inv s2 (take n ps @ drop n ps)"
    using pm.free_all by blast
  then show ?thesis using s1 \<open>distinct (take n ps @ drop n ps)\<close> by auto
qed

theorem alloc_free_roundtrip_witness:
  "\<exists>s1 s2. pm.alloc_n 2 demo_free2 = (Inr [0x80006000, 0x80005000], s1) \<and> pm_inv s1 [] \<and>
     kfor [0x80005000, 0x80006000] free_page s1 = (Inr (), s2) \<and> pm_inv s2 [0x80006000, 0x80005000]"
  using alloc_free_roundtrip [OF demo_free2_inv, of 2] by simp

end
