(* ===== verification/PageTable.thy ===== *)
theory PageTable
  imports PhysMem
begin

text \<open>
  Sv39 page tables, \<^verbatim>\<open>kernel/vm.c\<close>: the three-level tables lie in physical memory, one page per
  table, and the walk reads and writes their 64-bit entries there. The abstraction of a table is
  the function \<open>pt_map\<close> from virtual addresses to valid leaf entries; \<open>pt_wf\<close> says that the
  tables form a tree of distinct pages. Virtual and physical addresses of kernel memory
  coincide, as the kernel's own map is the identity.
\<close>

section \<open>Constants and address arithmetic\<close>

definition PTE_V :: u64 where "PTE_V = 1"
definition PTE_R :: u64 where "PTE_R = 2"
definition PTE_W :: u64 where "PTE_W = 4"
definition PTE_X :: u64 where "PTE_X = 8"
definition PTE_U :: u64 where "PTE_U = 16"

definition MAXVA :: u64 where "MAXVA = push_bit 39 1"
definition TRAMPOLINE :: u64 where "TRAMPOLINE = 0xfffffffffffff000"
definition TRAPFRAME :: u64 where "TRAPFRAME = TRAMPOLINE - 4096"
definition UART0 :: u64 where "UART0 = 0x10000000"
definition VIRTIO0 :: u64 where "VIRTIO0 = 0x10001000"
definition PLIC :: u64 where "PLIC = 0x0c000000"
definition CLINT :: u64 where "CLINT = 0x2000000"

definition PTE_FLAGS :: "u64 \<Rightarrow> u64" where
  "PTE_FLAGS pte = pte AND 0x3FF"

definition PA2PTE :: "u64 \<Rightarrow> u64" where
  "PA2PTE pa = push_bit 10 (drop_bit 12 pa)"

definition PTE2PA :: "u64 \<Rightarrow> u64" where
  "PTE2PA pte = push_bit 12 (drop_bit 10 pte)"

definition MAKE_SATP :: "u64 \<Rightarrow> u64" where
  "MAKE_SATP pgtbl = push_bit 60 8 OR drop_bit 12 pgtbl"

definition sv39_sign_extend :: "u64 \<Rightarrow> u64" where
  "sv39_sign_extend va =
     (if va AND push_bit 38 1 \<noteq> 0 then va OR NOT (push_bit 39 1 - 1) else va AND (push_bit 39 1 - 1))"

definition sv39_check_valid :: "u64 \<Rightarrow> bool" where
  "sv39_check_valid va \<longleftrightarrow> va < push_bit 39 1 \<or> va \<ge> push_bit 39 (- 1)"

definition px :: "nat \<Rightarrow> u64 \<Rightarrow> u64" where
  "px level va = drop_bit (12 + 9 * level) va AND 0x1FF"

abbreviation pte_valid :: "u64 \<Rightarrow> bool" where
  "pte_valid pte \<equiv> pte AND PTE_V \<noteq> 0"

section \<open>Operations\<close>

record kvm = kpm +
  kernel_pagetable :: addr
  trampoline_phys_addr :: addr
  trapframe_phys_addr :: addr
  ld_etext :: addr
  ld_trampoline :: addr
  satp :: u64

definition create_pagetable :: "(('a) kpm_scheme, addr) km" where
  "create_pagetable = kbind alloc_page (\<lambda>pt.
     if pt = 0 then kret 0
     else kseq (kmod (\<lambda>s. s\<lparr>mem := memset (mem s) pt 0 PGSIZE\<rparr>)) (kret pt))"

text \<open>The walks; \<open>level\<close> counts down to 0 and the null pointer is 0.\<close>

fun walk_lookup_loop :: "phys \<Rightarrow> nat \<Rightarrow> addr \<Rightarrow> u64 \<Rightarrow> addr" where
  "walk_lookup_loop m 0 pt va = pt + 8 * px 0 va"
| "walk_lookup_loop m (Suc l) pt va =
     (let pte = load64 m (pt + 8 * px (Suc l) va)
      in if pte_valid pte
         then (let pa = PTE2PA pte
               in if pa = 0 \<or> unat pa mod PGSIZE \<noteq> 0 then 0 else walk_lookup_loop m l pa va)
         else 0)"

definition walk_lookup :: "phys \<Rightarrow> addr \<Rightarrow> u64 \<Rightarrow> addr" where
  "walk_lookup m pt va0 =
     (let va = sv39_sign_extend va0
      in if \<not> sv39_check_valid va then 0 else walk_lookup_loop m 2 pt va)"

fun walk_create_loop :: "nat \<Rightarrow> addr \<Rightarrow> u64 \<Rightarrow> (('a) kpm_scheme, addr) km" where
  "walk_create_loop 0 pt va = kret (pt + 8 * px 0 va)"
| "walk_create_loop (Suc l) pt va =
     (let a = pt + 8 * px (Suc l) va
      in kbind (kget (\<lambda>s. load64 (mem s) a)) (\<lambda>pte.
           if pte_valid pte then walk_create_loop l (PTE2PA pte) va
           else kbind alloc_page (\<lambda>new_pt.
             if new_pt = 0 then kret 0
             else kseq (kmod (\<lambda>s. s\<lparr>mem := memset (mem s) new_pt 0 PGSIZE\<rparr>))
                    (kseq (kmod (\<lambda>s. s\<lparr>mem := store64 (mem s) a (PA2PTE new_pt OR PTE_V)\<rparr>))
                      (walk_create_loop l new_pt va)))))"

definition walk_create :: "addr \<Rightarrow> u64 \<Rightarrow> (('a) kpm_scheme, addr) km" where
  "walk_create pt va0 =
     (let va = sv39_sign_extend va0
      in if \<not> sv39_check_valid va then panic ''va out of sv39 range'' else walk_create_loop 2 pt va)"

definition store_pte :: "addr \<Rightarrow> u64 \<Rightarrow> (('a) kpm_scheme, unit) km" where
  "store_pte a e = kmod (\<lambda>s. s\<lparr>mem := store64 (mem s) a e\<rparr>)"

definition user_running :: "('a) kcore_scheme \<Rightarrow> bool" where
  "user_running s = (case current_proc s of None \<Rightarrow> False | Some p \<Rightarrow> is_user (proc_table s p))"

text \<open>\<^verbatim>\<open>perm\<close> is an \<^verbatim>\<open>int\<close> of 32 bits, sign-extended where it meets the 64-bit entry.\<close>

definition map_page :: "addr \<Rightarrow> u64 \<Rightarrow> u64 \<Rightarrow> u32 \<Rightarrow> (('a) kpm_scheme, int) km" where
  "map_page pt va pa perm0 =
     kbind (kget user_running) (\<lambda>u.
     if u \<and> va \<ge> 0x80000000 \<and> va \<noteq> TRAMPOLINE \<and> va \<noteq> TRAPFRAME then kstop (ExitProc (- 1))
     else if unat va mod PGSIZE \<noteq> 0 then panic ''map_page: va not aligned''
     else kbind (walk_create pt va) (\<lambda>a.
       if a = 0 then kret (- 1)
       else (let perm = (if va \<ge> 0x80000000 then perm0 AND NOT (ucast PTE_U) else perm0)
             in kbind (kget (\<lambda>s. load64 (mem s) a)) (\<lambda>pte.
                if pte_valid pte
                then if PTE2PA pte = pa
                     then (let np = (PTE_FLAGS pte OR scast perm) AND 0x3FF;
                               new_perm = (if va \<ge> 0x80000000 then np AND NOT PTE_U else np)
                           in kseq (store_pte a (PA2PTE pa OR new_perm OR PTE_V)) (kret 0))
                     else panic ''map_page: remap to different physical address''
                else kseq (store_pte a (PA2PTE pa OR scast perm OR PTE_V)) (kret 0)))))"

text \<open>\<^verbatim>\<open>free_pagetable\<close> recurses over every entry that is valid and has no R, W, X bit, to any
  depth; the fuel bounds the depth, and \<open>free_pagetable_frees\<close> shows that 3 is enough for a
  well-formed table whose leaves have a permission bit.\<close>

primrec free_pagetable :: "nat \<Rightarrow> addr \<Rightarrow> (('a) kpm_scheme, unit) km" where
  "free_pagetable 0 pt = kstop Diverge"
| "free_pagetable (Suc k) pt =
     kseq (kfor [0..<512] (\<lambda>i.
       (let a = pt + 8 * of_nat i
        in kbind (kget (\<lambda>s. load64 (mem s) a)) (\<lambda>pte.
             if pte_valid pte \<and> pte AND (PTE_R OR PTE_W OR PTE_X) = 0
             then kseq (free_pagetable k (PTE2PA pte)) (store_pte a 0)
             else if pte_valid pte then store_pte a 0
             else kret ()))))
       (free_page pt)"

text \<open>The pages from \<open>a\<close> up to \<open>b\<close> (exclusive) that a counting loop visits.\<close>

definition page_range :: "u64 \<Rightarrow> u64 \<Rightarrow> u64 list" where
  "page_range a b = map (\<lambda>k. a + 4096 * of_nat k) [0..<(unat b - unat a + 4095) div PGSIZE]"

definition kvm_map :: "string \<Rightarrow> addr \<Rightarrow> u64 \<Rightarrow> u64 \<Rightarrow> u32 \<Rightarrow> (('a) kpm_scheme, unit) km" where
  "kvm_map msg pt va pa perm =
     kbind (map_page pt va pa perm) (\<lambda>r. if r \<noteq> 0 then panic msg else kret ())"

definition PERM_RW :: u32 where "PERM_RW = ucast (PTE_R OR PTE_W)"
definition PERM_RX :: u32 where "PERM_RX = ucast (PTE_R OR PTE_X)"

definition kvmmake :: "(('a) kvm_scheme, addr) km" where
  "kvmmake = kbind create_pagetable (\<lambda>kpgtbl.
     if kpgtbl = 0 then panic ''kvmmake: alloc failed''
     else
       kseq (kfor (page_range KERNBASE PHYSTOP) (\<lambda>pa.
         kbind (kget ld_etext) (\<lambda>etext.
           kvm_map ''kvmmake: heap map failed'' kpgtbl pa pa (if pa < etext then PERM_RX else PERM_RW))))
      (kseq (kvm_map ''kvmmake: uart map failed'' kpgtbl UART0 UART0 PERM_RW)
      (kseq (kfor (page_range PLIC (PLIC + 0x400000)) (\<lambda>pa.
         kvm_map ''kvmmake: plic map failed'' kpgtbl pa pa PERM_RW))
      (kseq (kfor (page_range CLINT (CLINT + 0x10000)) (\<lambda>pa.
         kvm_map ''kvmmake: clint map failed'' kpgtbl pa pa PERM_RW))
      (kseq (kvm_map ''kvmmake: virtio map failed'' kpgtbl VIRTIO0 VIRTIO0 PERM_RW)
      (kbind alloc_page (\<lambda>tramp_phys.
       if tramp_phys = 0 then panic ''kvmmake: alloc trampoline page failed''
       else
       kseq (kmod (\<lambda>s. s\<lparr>mem := memcpy (mem s) tramp_phys (ld_trampoline s) PGSIZE\<rparr>))
      (kbind alloc_page (\<lambda>trapframe_phys.
       if trapframe_phys = 0 then panic ''kvmmake: alloc trapframe page failed''
       else
       kseq (kmod (\<lambda>s. s\<lparr>mem := memset (mem s) trapframe_phys 0 PGSIZE\<rparr>))
      (kseq (kvm_map ''kvmmake: trampoline map failed'' kpgtbl TRAMPOLINE tramp_phys PERM_RX)
      (kseq (kvm_map ''kvmmake: trapframe map failed'' kpgtbl TRAPFRAME trapframe_phys PERM_RW)
      (kseq (kmod (\<lambda>s. s\<lparr>trampoline_phys_addr := tramp_phys, trapframe_phys_addr := trapframe_phys\<rparr>))
        (kret kpgtbl)))))))))))))"

definition kvminit :: "(('a) kvm_scheme, unit) km" where
  "kvminit = kbind kvmmake (\<lambda>pt.
     kmod (\<lambda>s. s\<lparr>kernel_pagetable := pt, satp := MAKE_SATP pt\<rparr>))"

definition get_current_pagetable :: "('a) kvm_scheme \<Rightarrow> addr" where
  "get_current_pagetable s = kernel_pagetable s"

definition check_is_mapped :: "u64 \<Rightarrow> ('a) kvm_scheme \<Rightarrow> bool" where
  "check_is_mapped va s =
     (let pte = walk_lookup (mem s) (get_current_pagetable s) va
      in pte \<noteq> 0 \<and> pte_valid (load64 (mem s) pte))"

text \<open>The permission bits a fault of type 1 (fetch), 2 (load), 3 (store) asks for.\<close>

definition fault_perm :: "int \<Rightarrow> u64" where
  "fault_perm type = (if type = 1 then PTE_X OR PTE_R else if type = 2 then PTE_R
     else if type = 3 then PTE_R OR PTE_W else 0)"

text \<open>The table the faulting access used, and whether it belongs to a user process.\<close>

definition fault_table :: "('a) kvm_scheme \<Rightarrow> addr \<times> bool" where
  "fault_table s =
     (case current_proc s of
        None \<Rightarrow> (kernel_pagetable s, False)
      | Some p \<Rightarrow> if pagetable (proc_table s p) \<noteq> 0 \<and> is_user (proc_table s p)
                 then (pagetable (proc_table s p), True) else (kernel_pagetable s, False))"

definition handle_page_fault :: "u64 \<Rightarrow> int \<Rightarrow> (('a) kvm_scheme, int) km" where
  "handle_page_fault va type =
     (if va = 0 then panic ''Null pointer dereference''
      else if va < 4096 then panic ''Low address access (likely null pointer offset)''
      else
       let page_va = va div 4096 * 4096 in
       if page_va \<ge> MAXVA then panic ''Virtual address out of range''
       else kbind (kget fault_table) (\<lambda>(pt, usr).
       if usr \<and> va \<ge> 0x80000000 \<and> va \<noteq> TRAMPOLINE \<and> va \<noteq> TRAPFRAME
       then panic ''User process accessing kernel space''
       else kbind (kget (\<lambda>s. let a = walk_lookup (mem s) pt page_va in (a, load64 (mem s) a)))
       (\<lambda>(a, pte).
       if a \<noteq> 0 \<and> pte_valid pte
       then (let need_perm = fault_perm type;
                 current_perm = pte AND (PTE_R OR PTE_W OR PTE_X)
             in if current_perm AND need_perm \<noteq> need_perm
                then kseq (store_pte a (if usr \<and> page_va < 0x80000000
                             then pte OR need_perm OR PTE_U else pte OR need_perm))
                       (kret 1)
                else panic ''Unexpected page fault on valid mapping'')
       else if va \<ge> 0xffffff0000000000 then panic ''Abnormally high address access''
       else kbind alloc_page (\<lambda>page.
         if page = 0 then panic ''Out of memory during page fault''
         else
         kseq (kmod (\<lambda>s. s\<lparr>mem := memset (mem s) page 0 PGSIZE\<rparr>))
         (let perm = (if usr \<and> page_va < 0x80000000 then fault_perm type OR PTE_U else fault_perm type)
          in kbind (map_page pt page_va page (ucast perm)) (\<lambda>r.
               if r \<noteq> 0
               then kseq (free_page page) (panic ''Failed to map page during page fault'')
               else kret 1))))))"

text \<open>\<^verbatim>\<open>uvmcopy\<close>; the loop counter would wrap to 0 only for sizes within a page of \<open>2 ^ 64\<close>.\<close>

function uvmcopy_loop :: "addr \<Rightarrow> addr \<Rightarrow> u64 \<Rightarrow> u64 \<Rightarrow> (('a) kpm_scheme, int) km" where
  "uvmcopy_loop old new i sz =
     (if i < sz
      then (let continue = (if i + 4096 < i then kstop Diverge else uvmcopy_loop old new (i + 4096) sz)
       in kbind (kget (\<lambda>s. let a = walk_lookup (mem s) old i in (a, load64 (mem s) a))) (\<lambda>(a, pte).
         if a = 0 \<or> \<not> pte_valid pte then continue
         else (let pa = PTE2PA pte;
                   flags = (if i < 0x80000000 then PTE_FLAGS pte OR PTE_U else PTE_FLAGS pte AND NOT PTE_U)
           in kbind alloc_page (\<lambda>page.
             if page = 0 then kret (- 1)
             else kseq (kmod (\<lambda>s. s\<lparr>mem := memmove (mem s) page pa PGSIZE\<rparr>))
               (kbind (map_page new i page (ucast flags)) (\<lambda>r.
                  if r \<noteq> 0 then kseq (free_page page) (kret (- 1)) else continue))))))
      else kret 0)"
  by pat_completeness auto
termination
proof (relation "measure (\<lambda>(old, new, i, sz). 2 ^ 64 - unat i)", simp, goal_cases)
  case (1 old new i sz)
  moreover have "i + 4096 \<noteq> i" by simp
  then have "unat (i + 4096) \<noteq> unat i" by (simp only: unat_inj not_False_eq_True)
  ultimately show ?case using unat_lt_pow [of "i + 4096"] by (simp add: word_less_nat_alt not_less)
qed

declare uvmcopy_loop.simps [simp del]

definition uvmcopy :: "addr \<Rightarrow> addr \<Rightarrow> u64 \<Rightarrow> (('a) kpm_scheme, int) km" where
  "uvmcopy old new sz = uvmcopy_loop old new 0 sz"

definition user_va2pa :: "phys \<Rightarrow> addr \<Rightarrow> u64 \<Rightarrow> addr" where
  "user_va2pa m pgtbl va =
     (let a = walk_lookup m pgtbl va
      in if a = 0 then 0
         else let pte = load64 m a
              in if \<not> pte_valid pte then 0
                 else if pte AND PTE_U = 0 then 0
                 else PTE2PA pte OR (va AND 0xFFF))"

text \<open>\<^verbatim>\<open>copyin\<close> returns its result code and the bytes it has stored in \<^verbatim>\<open>dst[0]\<close>, \<^verbatim>\<open>dst[1]\<close>, and
  so on; every caller's destination is kernel memory outside the user's pages.\<close>

fun copyin_loop :: "phys \<Rightarrow> addr \<Rightarrow> u64 \<Rightarrow> nat \<Rightarrow> int \<times> u8 list" where
  "copyin_loop m pgtbl srcva 0 = (0, [])"
| "copyin_loop m pgtbl srcva (Suc n) =
     (let pa = user_va2pa m pgtbl srcva
      in if pa = 0 then (- 1, [])
         else if m pa = 0 then (0, [0])
         else (case copyin_loop m pgtbl (srcva + 1) n of (r, bs) \<Rightarrow> (r, m pa # bs)))"

definition copyin :: "u64 \<Rightarrow> int \<Rightarrow> (('a) kpm_scheme, int \<times> u8 list) km" where
  "copyin srcva maxlen = kbind myproc (\<lambda>p.
     kget (\<lambda>s. copyin_loop (mem s) (pagetable (proc_table s p)) srcva (nat maxlen)))"

fun copyout :: "addr \<Rightarrow> u64 \<Rightarrow> u8 list \<Rightarrow> (('a) kpm_scheme, int) km" where
  "copyout pgtbl dstva [] = kret 0"
| "copyout pgtbl dstva (b # src) =
     kbind (kget (\<lambda>s. user_va2pa (mem s) pgtbl dstva)) (\<lambda>pa.
       if pa = 0 then kret (- 1)
       else kseq (kmod (\<lambda>s. s\<lparr>mem := (mem s)(pa := b)\<rparr>)) (copyout pgtbl (dstva + 1) src))"

text \<open>\<^verbatim>\<open>copyinstr\<close> ignores its page-table argument: the bytes come through \<^verbatim>\<open>copyin\<close> of the running
  process. The second component is the content of \<^verbatim>\<open>dst[0..]\<close> written so far.\<close>

fun copyinstr_loop :: "u64 \<Rightarrow> nat \<Rightarrow> u8 list \<Rightarrow> (('a) kpm_scheme, int \<times> u8 list) km" where
  "copyinstr_loop srcva 0 acc = kret (- 1, butlast acc @ [0])"
| "copyinstr_loop srcva (Suc n) acc =
     kbind (copyin srcva 1) (\<lambda>(r, bs).
       if r < 0 then kret (- 1, acc)
       else (let c = hd bs
             in if c = 0 then kret (0, acc @ [c]) else copyinstr_loop (srcva + 1) n (acc @ [c])))"

definition copyinstr :: "addr \<Rightarrow> u64 \<Rightarrow> int \<Rightarrow> (('a) kpm_scheme, int \<times> u8 list) km" where
  "copyinstr pgtbl srcva maxlen = copyinstr_loop srcva (nat maxlen) []"

definition USER_TEXT_START :: u64 where "USER_TEXT_START = 0x10000"
definition USER_HEAP_START :: u64 where "USER_HEAP_START = 0x400000"
definition USER_STACK_SIZE :: u64 where "USER_STACK_SIZE = 0x20000"
definition USER_STACK_TOP :: u64 where "USER_STACK_TOP = MAXVA - 4096 * 2"
definition USER_STACK_BOTTOM :: u64 where "USER_STACK_BOTTOM = USER_STACK_TOP - USER_STACK_SIZE"
definition USER_HEAP_MAX :: u64 where "USER_HEAP_MAX = USER_STACK_BOTTOM"

definition IS_USER_ADDR :: "u64 \<Rightarrow> bool" where
  "IS_USER_ADDR va \<longleftrightarrow> va \<ge> USER_TEXT_START \<and> va < MAXVA"

definition IS_USER_STACK :: "u64 \<Rightarrow> bool" where
  "IS_USER_STACK va \<longleftrightarrow> va \<ge> USER_STACK_BOTTOM \<and> va < USER_STACK_TOP"

definition IS_USER_HEAP :: "u64 \<Rightarrow> bool" where
  "IS_USER_HEAP va \<longleftrightarrow> va \<ge> USER_HEAP_START \<and> va < USER_HEAP_MAX"

definition check_user_addr :: "u64 \<Rightarrow> u64 \<Rightarrow> bool \<Rightarrow> int" where
  "check_user_addr a sz write =
     (if \<not> IS_USER_ADDR a \<or> \<not> IS_USER_ADDR (a + sz - 1) then - 1
      else if IS_USER_STACK a then (if \<not> IS_USER_STACK (a + sz - 1) then - 1 else 0)
      else if IS_USER_HEAP a then (if \<not> IS_USER_HEAP (a + sz - 1) then - 1 else 0)
      else if a < USER_HEAP_START then (if a + sz > USER_HEAP_START then - 1 else 0)
      else - 1)"

section \<open>Entries and their addresses\<close>

definition ent :: "phys \<Rightarrow> addr \<Rightarrow> u64 \<Rightarrow> u64" where
  "ent m pt i = load64 m (pt + 8 * i)"

abbreviation page_aligned :: "addr \<Rightarrow> bool" where
  "page_aligned x \<equiv> unat x mod PGSIZE = 0"

lemma px_lt [simp]: "px l va < 512"
proof -
  have "(0x1FF :: u64) = mask 9" by (simp add: mask_eq_exp_minus_1)
  then have "px l va = take_bit 9 (drop_bit (12 + 9 * l) va)" by (simp add: px_def take_bit_eq_mask)
  moreover have "unat (take_bit 9 w) < 512" for w :: u64
    using take_bit_nat_less_exp [of 9 "unat w"] by (simp only: unsigned_take_bit_eq) simp
  ultimately show ?thesis by (simp add: word_less_nat_alt)
qed

lemma unat_ent_addr:
  assumes "page_aligned pt" and "i < 512"
  shows "unat (pt + 8 * i) = unat pt + 8 * unat i"
proof -
  have "unat i < 512" using assms(2) by (simp add: word_less_nat_alt)
  then have "unat (8 * i) = 8 * unat i" by (simp add: unat_word_ariths)
  then show ?thesis
    using page_room [OF assms(1)] \<open>unat i < 512\<close> by (subst unat_plus_nowrap) (simp_all add: PGSIZE_def)
qed

lemma ent_addr_aligned8: "page_aligned pt \<Longrightarrow> i < 512 \<Longrightarrow> aligned8 (pt + 8 * i)"
  using page_aligned8 [of pt] by (simp only: unat_ent_addr) presburger

lemma ent_addr_inj:
  "page_aligned pt \<Longrightarrow> i < 512 \<Longrightarrow> j < 512 \<Longrightarrow> pt + 8 * i = pt + 8 * j \<Longrightarrow> i = j"
  using unat_ent_addr [of pt i] unat_ent_addr [of pt j] by (simp add: word_unat_eq_iff)

lemma ent_addr_nz: "page_aligned pt \<Longrightarrow> pt \<noteq> 0 \<Longrightarrow> i < 512 \<Longrightarrow> pt + 8 * i \<noteq> 0"
  using unat_ent_addr [of pt i] by (auto simp: word_unat_eq_iff)

lemma ent_addr_in_page:
  assumes "page_aligned pt" and "i < 512" and "in_range (pt + 8 * i) 8 b"
  shows "in_range pt PGSIZE b"
proof -
  have i: "unat i < 512" using assms(2) by (simp add: word_less_nat_alt)
  have "unat pt + 8 * unat i \<le> unat b \<and> unat b < unat pt + 8 * unat i + 8"
    using assms aligned8_room [OF ent_addr_aligned8 [OF assms(1,2)]]
    by (simp add: in_range_nat unat_ent_addr)
  then show ?thesis using i page_room [OF assms(1)] by (simp add: in_range_nat PGSIZE_def)
qed

lemma ent_cong:
  assumes "page_aligned pt" and "i < 512" and "\<And>b. in_range pt PGSIZE b \<Longrightarrow> m' b = m b"
  shows "ent m' pt i = ent m pt i"
  unfolding ent_def by (rule load64_cong, rule assms(3), rule ent_addr_in_page [OF assms(1,2)])

lemma ent_store:
  assumes "page_aligned pt" and "i < 512" and "j < 512"
  shows "ent (store64 m (pt + 8 * i) e) pt j = (if j = i then e else ent m pt j)"
  using assms ent_addr_inj [OF assms] ent_addr_aligned8 [of pt]
  by (auto simp: ent_def intro!: load64_store64_other)

lemma PTE2PA_aligned [simp]: "unat (PTE2PA e) mod PGSIZE = 0"
  by (simp add: PTE2PA_def PGSIZE_def push_bit_eq_mult unat_word_ariths mod_mod_cancel)

lemma PTE2PA_aligned_dvd [simp]: "PGSIZE dvd unat (PTE2PA e)"
  using PTE2PA_aligned [of e] by (simp only: mod_eq_0_iff_dvd)

lemma page_aligned_bits: "page_aligned x \<Longrightarrow> n < 12 \<Longrightarrow> \<not> bit x n"
proof -
  assume "page_aligned x" and n: "n < 12"
  then have "take_bit 12 (unat x) = 0" by (simp add: PGSIZE_def take_bit_eq_mod)
  then have "unat (take_bit 12 x) = 0" by (simp only: unsigned_take_bit_eq)
  then have "take_bit 12 x = 0" by (simp only: unat_eq_0)
  then show "\<not> bit x n" using n by (metis bit_0_eq bit_take_bit_iff bot_apply bot_bool_def)
qed

lemma PTE2PA_PA2PTE:
  assumes "page_aligned pa" and "drop_bit 10 f = 0"
  shows "PTE2PA (PA2PTE pa OR f) = pa"
proof (rule bit_word_eqI)
  fix n assume "n < LENGTH(64)"
  have f: "\<not> bit f k" if "10 \<le> k" for k
  proof -
    have "bit f k = bit (drop_bit 10 f) (k - 10)" using that by (simp add: bit_simps)
    then show ?thesis using assms(2) by simp
  qed
  show "bit (PTE2PA (PA2PTE pa OR f)) n \<longleftrightarrow> bit pa n"
  proof (cases "n < 12")
    case True
    then show ?thesis using page_aligned_bits [OF assms(1) True] by (simp add: PTE2PA_def bit_simps)
  next
    case False
    moreover from False \<open>n < LENGTH(64)\<close> have "10 \<le> n - 2" "n - 2 < 64" by simp_all
    ultimately show ?thesis
      using f [of "10 + (n - 12)"] \<open>n < LENGTH(64)\<close> by (simp add: PTE2PA_def PA2PTE_def bit_simps)
  qed
qed

section \<open>Sign extension\<close>

lemma sv39_mask: "(push_bit 39 1 - 1 :: u64) = mask 39"
  by (simp add: mask_eq_exp_minus_1 push_bit_eq_mult)

lemma bit_sv39_sign_extend: "n < 39 \<Longrightarrow> bit (sv39_sign_extend va) n = bit va n"
  unfolding sv39_sign_extend_def sv39_mask by (simp add: bit_simps)

lemma px_sv39_sign_extend:
  assumes "l \<le> 2"
  shows "px l (sv39_sign_extend va) = px l va"
proof -
  have mask: "(0x1FF :: u64) = mask 9" by (simp add: mask_eq_exp_minus_1)
  show ?thesis
    unfolding px_def mask
    by (rule bit_word_eqI) (use assms in \<open>auto simp: bit_simps bit_sv39_sign_extend\<close>)
qed

lemma sv39_sign_extend_valid: "sv39_check_valid (sv39_sign_extend va)"
proof (cases "va AND push_bit 38 1 = 0")
  case True
  have "unat (va AND mask 39) < 2 ^ 39"
    using take_bit_nat_less_exp [of 39 "unat va"]
    by (simp only: unsigned_take_bit_eq flip: take_bit_eq_mask)
  then have "va AND mask 39 < push_bit 39 1" by (simp add: word_less_nat_alt push_bit_eq_mult)
  then show ?thesis
    using True unfolding sv39_sign_extend_def sv39_check_valid_def sv39_mask by simp
next
  case False
  have "(push_bit 39 (- 1) :: u64) = NOT (mask 39)"
    by (simp add: mask_eq_exp_minus_1 push_bit_eq_mult)
  moreover have "NOT (mask 39) \<le> va OR NOT (mask 39)"
    by (metis le_word_or2 or.commute)
  ultimately show ?thesis
    using False unfolding sv39_sign_extend_def sv39_check_valid_def sv39_mask by simp
qed

lemma walk_lookup_loop_px:
  assumes "\<And>k. k \<le> l \<Longrightarrow> px k va = px k va'"
  shows "walk_lookup_loop m l pt va = walk_lookup_loop m l pt va'"
  using assms by (induction l arbitrary: pt) (simp_all add: Let_def)

lemma walk_lookup_eq: "walk_lookup m pt va = walk_lookup_loop m 2 pt va"
  using walk_lookup_loop_px [of 2 "sv39_sign_extend va" va]
  by (simp add: walk_lookup_def sv39_sign_extend_valid px_sv39_sign_extend Let_def)

section \<open>Trees of tables\<close>

fun pt_tabs :: "phys \<Rightarrow> nat \<Rightarrow> addr \<Rightarrow> addr set" where
  "pt_tabs m 0 pt = {pt}"
| "pt_tabs m (Suc l) pt =
     insert pt (\<Union>i \<in> {i. i < 512 \<and> pte_valid (ent m pt i)}. pt_tabs m l (PTE2PA (ent m pt i)))"

fun pt_wf :: "phys \<Rightarrow> nat \<Rightarrow> addr \<Rightarrow> bool" where
  "pt_wf m 0 pt \<longleftrightarrow> page_aligned pt \<and> pt \<noteq> 0"
| "pt_wf m (Suc l) pt \<longleftrightarrow> page_aligned pt \<and> pt \<noteq> 0 \<and>
     (\<forall>i < 512. pte_valid (ent m pt i) \<longrightarrow>
        pt_wf m l (PTE2PA (ent m pt i)) \<and> pt \<notin> pt_tabs m l (PTE2PA (ent m pt i))) \<and>
     (\<forall>i < 512. \<forall>j < 512. i \<noteq> j \<longrightarrow> pte_valid (ent m pt i) \<longrightarrow> pte_valid (ent m pt j) \<longrightarrow>
        pt_tabs m l (PTE2PA (ent m pt i)) \<inter> pt_tabs m l (PTE2PA (ent m pt j)) = {})"

fun pt_map :: "phys \<Rightarrow> nat \<Rightarrow> addr \<Rightarrow> u64 \<Rightarrow> u64 option" where
  "pt_map m 0 pt va = (if pte_valid (ent m pt (px 0 va)) then Some (ent m pt (px 0 va)) else None)"
| "pt_map m (Suc l) pt va =
     (if pte_valid (ent m pt (px (Suc l) va)) then pt_map m l (PTE2PA (ent m pt (px (Suc l) va))) va
      else None)"

lemma pt_wf_root: "pt_wf m l pt \<Longrightarrow> page_aligned pt \<and> pt \<noteq> 0"
  by (cases l) auto

lemma pt_tabs_root [simp]: "pt \<in> pt_tabs m l pt"
  by (cases l) auto

lemma pt_tabs_child:
  "pte_valid (ent m pt i) \<Longrightarrow> i < 512 \<Longrightarrow> pt_tabs m l (PTE2PA (ent m pt i)) \<subseteq> pt_tabs m (Suc l) pt"
  by auto

lemma pt_tabs_aligned: "pt_wf m l pt \<Longrightarrow> x \<in> pt_tabs m l pt \<Longrightarrow> page_aligned x \<and> x \<noteq> 0"
proof (induction l arbitrary: pt)
  case 0
  then show ?case by auto
next
  case (Suc l)
  show ?case
  proof (cases "x = pt")
    case True
    then show ?thesis using pt_wf_root [OF Suc.prems(1)] by simp
  next
    case False
    then obtain i where "i < 512" "pte_valid (ent m pt i)" "x \<in> pt_tabs m l (PTE2PA (ent m pt i))"
      using Suc.prems(2) by auto
    then show ?thesis using Suc.IH Suc.prems(1) by (meson pt_wf.simps(2))
  qed
qed

text \<open>A table tree depends on the bytes of its own pages only.\<close>

lemma pt_frame:
  assumes "pt_wf m l pt" and "\<And>x b. x \<in> pt_tabs m l pt \<Longrightarrow> in_range x PGSIZE b \<Longrightarrow> m' b = m b"
  shows "pt_tabs m' l pt = pt_tabs m l pt \<and> pt_wf m' l pt \<and> pt_map m' l pt = pt_map m l pt"
  using assms
proof (induction l arbitrary: pt)
  case 0
  then have "ent m' pt (px 0 va) = ent m pt (px 0 va)" for va
    by (intro ent_cong) auto
  then show ?case using 0 by (auto simp: fun_eq_iff)
next
  case (Suc l)
  have ent: "ent m' pt i = ent m pt i" if "i < 512" for i
    using Suc.prems pt_wf_root [OF Suc.prems(1)] that by (intro ent_cong) auto
  have ih: "pt_tabs m' l (PTE2PA (ent m pt i)) = pt_tabs m l (PTE2PA (ent m pt i)) \<and>
      pt_wf m' l (PTE2PA (ent m pt i)) \<and> pt_map m' l (PTE2PA (ent m pt i)) = pt_map m l (PTE2PA (ent m pt i))"
    if "i < 512" "pte_valid (ent m pt i)" for i
    by (rule Suc.IH) (use Suc.prems that in auto)
  have "pt_tabs m' (Suc l) pt = pt_tabs m (Suc l) pt" using ent ih by (auto cong: conj_cong)
  moreover have "pt_wf m' (Suc l) pt" using Suc.prems(1) ent ih by (simp cong: conj_cong imp_cong)
  moreover have "pt_map m' (Suc l) pt = pt_map m (Suc l) pt" using ent ih by (simp add: fun_eq_iff)
  ultimately show ?case by simp
qed

text \<open>The slot a successful walk ends at lies in one of the tables.\<close>

lemma walk_slot_in_tabs:
  assumes "pt_wf m l pt" and "walk_lookup_loop m l pt va = a" and "a \<noteq> 0"
  shows "\<exists>x \<in> pt_tabs m l pt. \<exists>i < 512. a = x + 8 * i"
  using assms
proof (induction l arbitrary: pt)
  case 0
  then show ?case by (auto intro!: exI [of _ "px 0 va"])
next
  case (Suc l)
  let ?e = "ent m pt (px (Suc l) va)"
  have v: "pte_valid ?e" "walk_lookup_loop m l (PTE2PA ?e) va = a"
    using Suc.prems(2,3) by (auto simp: Let_def ent_def split: if_splits)
  then have "\<exists>x \<in> pt_tabs m l (PTE2PA ?e). \<exists>i < 512. a = x + 8 * i"
    using Suc.prems by (intro Suc.IH) auto
  moreover have "pt_tabs m l (PTE2PA ?e) \<subseteq> pt_tabs m (Suc l) pt" using v(1) px_lt by (rule pt_tabs_child)
  ultimately show ?case by blast
qed

lemma pt_map_lookup:
  assumes "pt_wf m l pt"
  shows "pt_map m l pt va =
    (let a = walk_lookup_loop m l pt va
     in if a \<noteq> 0 \<and> pte_valid (load64 m a) then Some (load64 m a) else None)"
  using assms
proof (induction l arbitrary: pt)
  case 0
  then show ?case using ent_addr_nz [of pt "px 0 va"] by (simp add: ent_def)
next
  case (Suc l)
  then have "pte_valid (ent m pt (px (Suc l) va)) \<Longrightarrow>
      pt_wf m l (PTE2PA (ent m pt (px (Suc l) va)))" by simp
  then show ?case using Suc.IH pt_wf_root by (auto simp: Let_def ent_def)
qed

end
