(* ===== verification/PageMap.thy ===== *)
theory PageMap
  imports PageTable
begin

text \<open>
  Correctness of the page-table operations of \<^verbatim>\<open>kernel/vm.c\<close> against the abstraction
  \<open>pt_map\<close>: creating missing tables leaves the map unchanged, storing an entry updates it at one
  virtual page, and both keep the tree of tables and the page allocator's invariant.
\<close>

section \<open>Storing one entry\<close>

lemma PTE_V_nz [simp]: "PTE_V \<noteq> 0"
  by (simp add: PTE_V_def)

lemma pte_valid_bit: "pte_valid e \<longleftrightarrow> bit e 0"
  by (simp add: PTE_V_def and_one_eq bit_0 odd_iff_mod_2_eq_one)

lemma drop_PTE_V [simp]: "drop_bit 10 PTE_V = 0"
  by (simp add: PTE_V_def)

lemma pages_apart:
  "page_aligned x \<Longrightarrow> page_aligned y \<Longrightarrow> x \<noteq> y \<Longrightarrow> in_range x PGSIZE b \<Longrightarrow> \<not> in_range y PGSIZE b"
  by (metis pages_disjoint)

lemma store_ent_outside:
  "page_aligned x \<Longrightarrow> i < 512 \<Longrightarrow> \<not> in_range x PGSIZE b \<Longrightarrow> store64 m (x + 8 * i) e b = m b"
  by (metis ent_addr_in_page store64_outside)

definition same_page :: "nat \<Rightarrow> u64 \<Rightarrow> u64 \<Rightarrow> bool" where
  "same_page l va va' \<longleftrightarrow> (\<forall>k \<le> l. px k va = px k va')"

lemma same_page_Suc: "same_page (Suc l) va va' \<longleftrightarrow> px (Suc l) va = px (Suc l) va' \<and> same_page l va va'"
  by (auto simp: same_page_def le_Suc_eq)

lemma pt_store:
  assumes "pt_wf m l pt" and "walk_lookup_loop m l pt va = a" and "a \<noteq> 0"
  shows "pt_tabs (store64 m a e) l pt = pt_tabs m l pt \<and> pt_wf (store64 m a e) l pt \<and>
    pt_map (store64 m a e) l pt va' =
      (if same_page l va va' then (if pte_valid e then Some e else None) else pt_map m l pt va')"
  using assms
proof (induction l arbitrary: pt)
  case 0
  then have a: "a = pt + 8 * px 0 va" and al: "page_aligned pt" by auto
  have "ent (store64 m a e) pt (px 0 va') = (if px 0 va' = px 0 va then e else ent m pt (px 0 va'))"
    unfolding a by (rule ent_store [OF al px_lt px_lt])
  then show ?case using 0 by (auto simp: same_page_def)
next
  case (Suc l)
  let ?i = "px (Suc l) va" and ?m = "store64 m a e"
  let ?c = "PTE2PA (ent m pt ?i)"
  have v: "pte_valid (ent m pt ?i)" "walk_lookup_loop m l ?c va = a"
    using Suc.prems(2,3) by (auto simp: Let_def ent_def split: if_splits)
  have wf: "pt_wf m l ?c" "pt \<notin> pt_tabs m l ?c" and al: "page_aligned pt"
    using Suc.prems(1) v(1) by auto
  obtain x k where x: "x \<in> pt_tabs m l ?c" "k < 512" "a = x + 8 * k"
    using walk_slot_in_tabs [OF wf(1) v(2) Suc.prems(3)] by blast
  have xal: "page_aligned x" using pt_tabs_aligned [OF wf(1) x(1)] by simp
  have out: "?m b = m b" if "y \<noteq> x" "page_aligned y" "in_range y PGSIZE b" for y b
    unfolding x(3) using store_ent_outside [OF xal x(2)] pages_apart [OF that(2) xal that(1,3)] by simp
  have ents: "ent ?m pt j = ent m pt j" if "j < 512" for j
    using x(1) wf(2) al that by (intro ent_cong out) auto
  have ih: "pt_tabs ?m l ?c = pt_tabs m l ?c \<and> pt_wf ?m l ?c \<and>
    pt_map ?m l ?c va' =
      (if same_page l va va' then (if pte_valid e then Some e else None) else pt_map m l ?c va')"
    by (rule Suc.IH [OF wf(1) v(2) Suc.prems(3)])
  have other: "pt_tabs ?m l (PTE2PA (ent m pt j)) = pt_tabs m l (PTE2PA (ent m pt j)) \<and>
      pt_wf ?m l (PTE2PA (ent m pt j)) \<and>
      pt_map ?m l (PTE2PA (ent m pt j)) = pt_map m l (PTE2PA (ent m pt j))"
    if j: "j < 512" "pte_valid (ent m pt j)" "j \<noteq> ?i" for j
  proof (rule pt_frame)
    show wfj: "pt_wf m l (PTE2PA (ent m pt j))" using Suc.prems(1) j by simp
    have "pt_tabs m l (PTE2PA (ent m pt j)) \<inter> pt_tabs m l ?c = {}"
      using Suc.prems(1) j v(1) by simp
    then show "?m b = m b" if "y \<in> pt_tabs m l (PTE2PA (ent m pt j))" "in_range y PGSIZE b" for y b
      using that x(1) pt_tabs_aligned [OF wfj] by (intro out [of y]) auto
  qed
  have tabs: "pt_tabs ?m l (PTE2PA (ent m pt j)) = pt_tabs m l (PTE2PA (ent m pt j))"
    and wfs: "pt_wf ?m l (PTE2PA (ent m pt j))" if "j < 512" "pte_valid (ent m pt j)" for j
    using ih other that by (cases "j = ?i"; simp)+
  have "pt_tabs ?m (Suc l) pt = pt_tabs m (Suc l) pt" using ents tabs by (auto cong: conj_cong)
  moreover have "pt_wf ?m (Suc l) pt"
    using Suc.prems(1) ents tabs wfs by (simp cong: conj_cong imp_cong)
  moreover have "pt_map ?m (Suc l) pt va' =
      (if same_page (Suc l) va va' then (if pte_valid e then Some e else None) else pt_map m (Suc l) pt va')"
    using ih other [of "px (Suc l) va'"] ents v(1)
    by (cases "px (Suc l) va' = ?i") (auto simp: same_page_Suc)
  ultimately show ?case by simp
qed

section \<open>Empty tables\<close>

lemma load64_zero: "(\<And>b. in_range a 8 b \<Longrightarrow> m b = 0) \<Longrightarrow> load64 m a = 0"
proof -
  assume "\<And>b. in_range a 8 b \<Longrightarrow> m b = 0"
  then have "load64 m a = load64 (\<lambda>_. 0) a" by (intro load64_cong) simp
  also have "\<dots> = 0" by (simp add: load64_def read_bytes_def numeral_eq_Suc)
  finally show ?thesis .
qed

lemma pt_empty:
  assumes "page_aligned x" and "x \<noteq> 0" and "\<And>b. in_range x PGSIZE b \<Longrightarrow> m b = 0"
  shows "pt_wf m l x \<and> pt_tabs m l x = {x} \<and> pt_map m l x = (\<lambda>_. None)"
proof -
  have "ent m x i = 0" if "i < 512" for i
    unfolding ent_def by (rule load64_zero) (use assms ent_addr_in_page [OF assms(1) that] in blast)
  then show ?thesis using assms(1,2) by (cases l) auto
qed

section \<open>Creating tables on the way\<close>

text \<open>The page tables under \<open>pt\<close> and the allocator's free pages \<open>ps\<close> are intact and apart.\<close>

definition vm_inv :: "('a) kpm_scheme \<Rightarrow> nat \<Rightarrow> addr \<Rightarrow> addr list \<Rightarrow> bool" where
  "vm_inv s l pt ps \<longleftrightarrow>
     pm_inv s ps \<and> pt_wf (mem s) l pt \<and> pt_tabs (mem s) l pt \<inter> set ps = {}"

text \<open>\<open>grown s s' l pt n ps\<close>: from \<open>s\<close> to \<open>s'\<close> the table tree took the first \<open>n\<close> free pages, its
  map is the same and no byte outside the tree changed.\<close>

definition same_rest :: "('a) kpm_scheme \<Rightarrow> ('a) kpm_scheme \<Rightarrow> bool" where
  "same_rest s s' \<longleftrightarrow> (\<exists>m f. s' = s\<lparr>mem := m, freelist := f\<rparr>)"

definition grown :: "('a) kpm_scheme \<Rightarrow> ('a) kpm_scheme \<Rightarrow> nat \<Rightarrow> addr \<Rightarrow> nat \<Rightarrow> addr list \<Rightarrow> bool" where
  "grown s s' l pt n ps \<longleftrightarrow> vm_inv s' l pt (drop n ps) \<and>
     pt_tabs (mem s') l pt = pt_tabs (mem s) l pt \<union> set (take n ps) \<and>
     pt_map (mem s') l pt = pt_map (mem s) l pt \<and> same_rest s s' \<and>
     (\<forall>b. (\<forall>x \<in> pt_tabs (mem s') l pt. \<not> in_range x PGSIZE b) \<longrightarrow> mem s' b = mem s b)"

lemma same_rest_trans: "same_rest s t \<Longrightarrow> same_rest t u \<Longrightarrow> same_rest s u"
  by (auto simp: same_rest_def) (rule exI, rule exI, rule refl)

lemma same_rest_mem: "same_rest s s' \<Longrightarrow> same_rest s (s'\<lparr>mem := m\<rparr>)"
proof -
  assume "same_rest s s'"
  then obtain m' f where "s' = s\<lparr>mem := m', freelist := f\<rparr>" by (auto simp: same_rest_def)
  then have "s'\<lparr>mem := m\<rparr> = s\<lparr>mem := m, freelist := f\<rparr>" by simp
  then show ?thesis unfolding same_rest_def by blast
qed

lemma same_restI: "s' = s\<lparr>mem := mem s', freelist := freelist s'\<rparr> \<Longrightarrow> same_rest s s'"
  unfolding same_rest_def by blast

lemma same_rest_fields:
  "same_rest s s' \<Longrightarrow> proc_table s' = proc_table s \<and> current_proc s' = current_proc s \<and>
     cpu_proc s' = cpu_proc s \<and> sie s' = sie s \<and> ld_end s' = ld_end s \<and> kpm.more s' = kpm.more s"
  by (auto simp: same_rest_def)

lemma same_rest_user: "same_rest s s' \<Longrightarrow> user_running s' = user_running s"
  by (auto simp: same_rest_def user_running_def split: option.splits)

lemma pm_inv_aligned: "pm_inv s ps \<Longrightarrow> x \<in> set ps \<Longrightarrow> page_aligned x \<and> x \<noteq> 0"
  by (auto simp: pm_inv_def page_ok_def)

lemma install_table:
  assumes inv: "vm_inv s (Suc l) pt (x # xs)" and i: "i < 512" and e: "\<not> pte_valid (ent (mem s) pt i)"
  obtains s1 m3 where "alloc_page s = (Inr x, s1)"
    and "m3 = store64 (memset (mem s1) x 0 PGSIZE) (pt + 8 * i) (PA2PTE x OR PTE_V)"
    and "vm_inv (s1\<lparr>mem := m3\<rparr>) (Suc l) pt xs" and "ent m3 pt i = PA2PTE x OR PTE_V"
    and "pt_tabs m3 (Suc l) pt = insert x (pt_tabs (mem s) (Suc l) pt)"
    and "pt_map m3 (Suc l) pt = pt_map (mem s) (Suc l) pt" and "same_rest s (s1\<lparr>mem := m3\<rparr>)"
    and "\<And>b. \<not> in_range x PGSIZE b \<Longrightarrow> \<not> in_range pt PGSIZE b \<Longrightarrow> m3 b = mem s b"
proof -
  have pm: "pm_inv s (x # xs)" and wf: "pt_wf (mem s) (Suc l) pt"
    and dj: "pt_tabs (mem s) (Suc l) pt \<inter> set (x # xs) = {}"
    using inv by (simp_all only: vm_inv_def)
  have al: "page_aligned pt" "page_aligned x" "x \<noteq> 0"
    using pt_wf_root [OF wf] pm_inv_aligned [OF pm, of x] by simp_all
  have xpt: "x \<noteq> pt" using dj pt_tabs_root [of pt "mem s" "Suc l"] by auto
  obtain s1 where s1: "alloc_page s = (Inr x, s1)" "pm_inv s1 xs"
      "s1 = s\<lparr>mem := mem s1, freelist := freelist s1\<rparr>" "ld_end s1 = ld_end s"
      "\<And>a. \<not> in_range x PGSIZE a \<Longrightarrow> mem s1 a = mem s a"
    using alloc_page_inv [OF pm] by metis
  define m2 where "m2 = memset (mem s1) x 0 PGSIZE"
  define m3 where "m3 = store64 m2 (pt + 8 * i) (PA2PTE x OR PTE_V)"
  have m2: "m2 b = (if in_range x PGSIZE b then 0 else mem s b)" for b
    using s1(5) [of b] by (simp add: m2_def memset_apply PGSIZE_def)
  have out: "m3 b = mem s b" if "\<not> in_range x PGSIZE b" "\<not> in_range pt PGSIZE b" for b
    using that m2 store_ent_outside [OF al(1) i] by (simp add: m3_def)
  have zero: "m3 b = 0" if "in_range x PGSIZE b" for b
    using that m2 store_ent_outside [OF al(1) i] pages_apart [OF al(2,1) xpt that] by (simp add: m3_def)
  have same: "m3 b = mem s b" if "page_aligned y" "y \<noteq> x" "y \<noteq> pt" "in_range y PGSIZE b" for y b
    using that al pages_apart [of y x b] pages_apart [of y pt b] by (intro out) auto
  have "ent m2 pt j = ent (mem s) pt j" if "j < 512" for j
    using pages_apart [OF al(1,2)] xpt m2 by (intro ent_cong [OF al(1) that]) auto
  then have ents: "ent m3 pt j = (if j = i then PA2PTE x OR PTE_V else ent (mem s) pt j)" if "j < 512" for j
    using that ent_store [OF al(1) i that] by (simp add: m3_def)
  have pa: "PTE2PA (PA2PTE x OR PTE_V) = x" "pte_valid (PA2PTE x OR PTE_V)"
    using PTE2PA_PA2PTE [OF al(2), of PTE_V] by simp_all
  have new: "pt_wf m3 l x \<and> pt_tabs m3 l x = {x} \<and> pt_map m3 l x = (\<lambda>_. None)"
    using al zero by (intro pt_empty) auto
  have child: "pt_tabs m3 l (PTE2PA (ent (mem s) pt j)) = pt_tabs (mem s) l (PTE2PA (ent (mem s) pt j)) \<and>
      pt_wf m3 l (PTE2PA (ent (mem s) pt j)) \<and>
      pt_map m3 l (PTE2PA (ent (mem s) pt j)) = pt_map (mem s) l (PTE2PA (ent (mem s) pt j))"
    and xj: "x \<notin> pt_tabs (mem s) l (PTE2PA (ent (mem s) pt j))"
    if j: "j < 512" "pte_valid (ent (mem s) pt j)" for j
  proof -
    have wfj: "pt_wf (mem s) l (PTE2PA (ent (mem s) pt j))"
      and nj: "pt \<notin> pt_tabs (mem s) l (PTE2PA (ent (mem s) pt j))" using wf j by auto
    show xj: "x \<notin> pt_tabs (mem s) l (PTE2PA (ent (mem s) pt j))"
      using dj pt_tabs_child [OF j(2,1), of l] by auto
    show "pt_tabs m3 l (PTE2PA (ent (mem s) pt j)) = pt_tabs (mem s) l (PTE2PA (ent (mem s) pt j)) \<and>
      pt_wf m3 l (PTE2PA (ent (mem s) pt j)) \<and>
      pt_map m3 l (PTE2PA (ent (mem s) pt j)) = pt_map (mem s) l (PTE2PA (ent (mem s) pt j))"
      using pt_tabs_aligned [OF wfj] xj nj by (intro pt_frame [OF wfj] same) auto
  qed
  have tabs: "pt_tabs m3 (Suc l) pt = insert x (pt_tabs (mem s) (Suc l) pt)"
  proof -
    have "{j. j < 512 \<and> pte_valid (ent m3 pt j)} = insert i {j. j < 512 \<and> pte_valid (ent (mem s) pt j)}"
      using ents pa(2) i e by (auto split: if_splits)
    moreover have "(\<Union>j \<in> {j. j < 512 \<and> pte_valid (ent (mem s) pt j)}. pt_tabs m3 l (PTE2PA (ent m3 pt j)))
        = (\<Union>j \<in> {j. j < 512 \<and> pte_valid (ent (mem s) pt j)}. pt_tabs (mem s) l (PTE2PA (ent (mem s) pt j)))"
      using ents e child by (intro SUP_cong) auto
    ultimately show ?thesis using ents [OF i] pa(1) new by auto
  qed
  have "pt_wf m3 (Suc l) pt"
    using wf al(1) new child xj xpt ents pa e i by (auto split: if_splits)
  moreover have "pt_map m3 (Suc l) pt = pt_map (mem s) (Suc l) pt"
    using ents e child pa new by (auto simp: fun_eq_iff)
  moreover have "pm_inv (s1\<lparr>mem := m3\<rparr>) xs"
  proof (rule pm_inv_frame [OF s1(2)])
    fix y b assume y: "y \<in> set xs" "in_range y PGSIZE b"
    then have "page_aligned y" "y \<noteq> x" "y \<noteq> pt"
      using pm pm_inv_aligned [OF pm, of y] dj by (auto simp: pm_inv_def)
    then show "mem (s1\<lparr>mem := m3\<rparr>) b = mem s1 b"
      using same [of y b] y s1(5) [of b] pages_apart [of y x b] al by simp
  qed simp_all
  moreover have "pt_tabs m3 (Suc l) pt \<inter> set xs = {}"
    using tabs dj pm by (auto simp: pm_inv_def)
  ultimately show ?thesis
    using that [of s1 m3] s1(1) ents [OF i] tabs out same_rest_mem [OF same_restI [OF s1(3)]]
    by (simp add: vm_inv_def m3_def m2_def)
qed

lemma vm_inv_child:
  "vm_inv s (Suc l) pt ps \<Longrightarrow> i < 512 \<Longrightarrow> pte_valid (ent (mem s) pt i) \<Longrightarrow>
     vm_inv s l (PTE2PA (ent (mem s) pt i)) ps"
  using pt_tabs_child [of "mem s" pt i l] by (auto simp: vm_inv_def)

lemma grown_same_page:
  assumes "grown s s' l c n ps" and "page_aligned y" and "y \<notin> pt_tabs (mem s) l c \<union> set (take n ps)"
    and "in_range y PGSIZE b"
  shows "mem s' b = mem s b"
proof -
  have "\<not> in_range x PGSIZE b" if "x \<in> pt_tabs (mem s') l c" for x
    using assms that pt_tabs_aligned [of "mem s'" l c x] pages_apart [of y x b]
    by (auto simp: grown_def vm_inv_def)
  then show ?thesis using assms(1) unfolding grown_def by blast
qed

lemma grown_parent:
  assumes inv: "vm_inv s (Suc l) pt ps" and i: "i < 512" "pte_valid (ent (mem s) pt i)"
    and g: "grown s s' l (PTE2PA (ent (mem s) pt i)) n ps"
  shows "grown s s' (Suc l) pt n ps \<and> ent (mem s') pt i = ent (mem s) pt i"
proof -
  let ?m = "mem s" and ?m' = "mem s'"
  let ?c = "\<lambda>j. PTE2PA (ent ?m pt j)"
  let ?N = "set (take n ps)"
  have wf: "pt_wf ?m (Suc l) pt" and dj: "pt_tabs ?m (Suc l) pt \<inter> set ps = {}"
    using inv by (simp_all only: vm_inv_def)
  have N: "?N \<subseteq> set ps" by (rule set_take_subset)
  have gi: "pt_tabs ?m' l (?c i) = pt_tabs ?m l (?c i) \<union> ?N" "pt_wf ?m' l (?c i)"
      "pt_map ?m' l (?c i) = pt_map ?m l (?c i)" "pm_inv s' (drop n ps)" "same_rest s s'"
      "pt_tabs ?m' l (?c i) \<inter> set (drop n ps) = {}"
    using g by (auto simp: grown_def vm_inv_def)
  have al: "page_aligned pt" using pt_wf_root [OF wf] by simp
  have "pt \<notin> pt_tabs ?m l (?c i) \<union> ?N"
    using wf i dj N pt_tabs_root [of pt ?m "Suc l"] by auto
  then have ents: "ent ?m' pt j = ent ?m pt j" if "j < 512" for j
    using grown_same_page [OF g al] that by (intro ent_cong [OF al]) auto
  have other: "pt_tabs ?m' l (?c j) = pt_tabs ?m l (?c j) \<and> pt_wf ?m' l (?c j) \<and>
      pt_map ?m' l (?c j) = pt_map ?m l (?c j)"
    if j: "j < 512" "pte_valid (ent ?m pt j)" "j \<noteq> i" for j
  proof (rule pt_frame)
    show wfj: "pt_wf ?m l (?c j)" using wf j by simp
    have "pt_tabs ?m l (?c j) \<inter> pt_tabs ?m l (?c i) = {}" using wf j i by simp
    moreover have "pt_tabs ?m l (?c j) \<inter> ?N = {}"
      using dj N pt_tabs_child [OF j(2,1), of l] by auto
    ultimately show "?m' b = ?m b" if "y \<in> pt_tabs ?m l (?c j)" "in_range y PGSIZE b" for y b
      using that pt_tabs_aligned [OF wfj] by (intro grown_same_page [OF g, of y b]) auto
  qed
  have tabs: "pt_tabs ?m' l (?c j) = pt_tabs ?m l (?c j) \<union> (if j = i then ?N else {})"
    and wfs: "pt_wf ?m' l (?c j)" and maps: "pt_map ?m' l (?c j) = pt_map ?m l (?c j)"
    if "j < 512" "pte_valid (ent ?m pt j)" for j
    using gi other that by (cases "j = i"; simp)+
  have T: "pt_tabs ?m' (Suc l) pt = pt_tabs ?m (Suc l) pt \<union> ?N"
    using ents tabs i by (auto split: if_splits cong: conj_cong)
  have disj: "pt_tabs ?m l (?c j) \<inter> ?N = {}" if "j < 512" "pte_valid (ent ?m pt j)" for j
    using dj N pt_tabs_child [OF that(2,1), of l] by auto
  have "pt_wf ?m' (Suc l) pt"
  proof -
    have "pt \<notin> ?N" using dj N pt_tabs_root [of pt ?m "Suc l"] by auto
    then have "pt \<notin> pt_tabs ?m' l (?c j)" if "j < 512" "pte_valid (ent ?m pt j)" for j
      using wf tabs [OF that] that by simp
    moreover have "pt_tabs ?m' l (?c j) \<inter> pt_tabs ?m' l (?c k) = {}"
      if "j < 512" "k < 512" "j \<noteq> k" "pte_valid (ent ?m pt j)" "pte_valid (ent ?m pt k)" for j k
    proof -
      have "pt_tabs ?m l (?c j) \<inter> pt_tabs ?m l (?c k) = {}" using wf that by simp
      then show ?thesis using tabs [OF that(1,4)] tabs [OF that(2,5)] disj [OF that(1,4)] disj [OF that(2,5)] that(3)
        by auto
    qed
    ultimately show ?thesis using wf ents wfs by (simp cong: conj_cong imp_cong)
  qed
  moreover have "pt_map ?m' (Suc l) pt = pt_map ?m (Suc l) pt"
    using ents maps by (simp add: fun_eq_iff)
  moreover have "pt_tabs ?m' (Suc l) pt \<inter> set (drop n ps) = {}"
  proof -
    have "pt_tabs ?m (Suc l) pt \<inter> set (drop n ps) = {}" using dj set_drop_subset [of n ps] by blast
    moreover have "?N \<inter> set (drop n ps) = {}" using gi(1,6) by blast
    ultimately show ?thesis using T by blast
  qed
  moreover have "?m' b = ?m b" if "\<forall>x \<in> pt_tabs ?m' (Suc l) pt. \<not> in_range x PGSIZE b" for b
  proof -
    have "pt_tabs ?m' l (?c i) \<subseteq> pt_tabs ?m' (Suc l) pt"
      using pt_tabs_child [of ?m' pt i l] ents i by simp
    then show ?thesis using that g unfolding grown_def by blast
  qed
  ultimately show ?thesis using gi T ents [OF i(1)] by (simp add: grown_def vm_inv_def del: pt_tabs.simps pt_wf.simps)
qed

lemma walk_create_grows:
  fixes s :: "('a) kpm_scheme"
  assumes "vm_inv s l pt ps" and "l \<le> length ps"
  shows "\<exists>a s' n. walk_create_loop l pt va s = (Inr a, s') \<and> a \<noteq> 0 \<and>
    walk_lookup_loop (mem s') l pt va = a \<and> grown s s' l pt n ps \<and> n \<le> l"
  using assms
proof (induction l arbitrary: s pt ps)
  case 0
  then have "pt + 8 * px 0 va \<noteq> 0" by (intro ent_addr_nz) (simp_all add: vm_inv_def)
  moreover have "grown s s 0 pt 0 ps" using 0 by (auto simp: grown_def same_rest_def intro!: exI [of _ "mem s"] exI [of _ "freelist s"])
  ultimately show ?case by (intro exI conjI) (simp, assumption, simp_all)
next
  case (Suc l)
  let ?i = "px (Suc l) va"
  have valid: "\<exists>a s' n. walk_create_loop (Suc l) pt va t = (Inr a, s') \<and> a \<noteq> 0 \<and>
    walk_lookup_loop (mem s') (Suc l) pt va = a \<and> grown t s' (Suc l) pt n qs \<and> n \<le> l"
    if t: "vm_inv t (Suc l) pt qs" "pte_valid (ent (mem t) pt ?i)" "l \<le> length qs" for t :: "('a) kpm_scheme" and qs
  proof -
    let ?c = "PTE2PA (ent (mem t) pt ?i)"
    have c: "vm_inv t l ?c qs" using vm_inv_child t px_lt by blast
    then obtain a s' n where r: "walk_create_loop l ?c va t = (Inr a, s')" "a \<noteq> 0"
        "walk_lookup_loop (mem s') l ?c va = a" "grown t s' l ?c n qs" "n \<le> l"
      using Suc.IH [OF c t(3)] by metis
    have "?c \<noteq> 0" using c pt_wf_root by (auto simp: vm_inv_def)
    then show ?thesis
      using r grown_parent [OF t(1) px_lt t(2) r(4)] t(2)
      by (intro exI [of _ a] exI [of _ s'] exI [of _ n]) (simp add: ent_def Let_def)
  qed
  show ?case
  proof (cases "pte_valid (ent (mem s) pt ?i)")
    case True
    then show ?thesis using valid [OF Suc.prems(1) True] Suc.prems(2) by (meson Suc_leD le_Suc_eq)
  next
    case False
    obtain x xs where ps: "ps = x # xs" using Suc.prems(2) by (cases ps) auto
    obtain s1 m3 where s1: "alloc_page s = (Inr x, s1)"
        "m3 = store64 (memset (mem s1) x 0 PGSIZE) (pt + 8 * ?i) (PA2PTE x OR PTE_V)"
        "vm_inv (s1\<lparr>mem := m3\<rparr>) (Suc l) pt xs" "ent m3 pt ?i = PA2PTE x OR PTE_V"
        "pt_tabs m3 (Suc l) pt = insert x (pt_tabs (mem s) (Suc l) pt)"
        "pt_map m3 (Suc l) pt = pt_map (mem s) (Suc l) pt" "same_rest s (s1\<lparr>mem := m3\<rparr>)"
        "\<And>b. \<not> in_range x PGSIZE b \<Longrightarrow> \<not> in_range pt PGSIZE b \<Longrightarrow> m3 b = mem s b"
      using install_table [OF Suc.prems(1) [unfolded ps] px_lt False] by metis
    let ?t = "s1\<lparr>mem := m3\<rparr>"
    have x: "x \<noteq> 0" "page_aligned x"
      using Suc.prems(1) ps by (auto simp: vm_inv_def pm_inv_def page_ok_def)
    obtain a s' n where r: "walk_create_loop (Suc l) pt va ?t = (Inr a, s')" "a \<noteq> 0"
        "walk_lookup_loop (mem s') (Suc l) pt va = a" "grown ?t s' (Suc l) pt n xs" "n \<le> l"
      using valid [OF s1(3)] s1(4) Suc.prems(2) ps by auto
    have "walk_create_loop (Suc l) pt va s = walk_create_loop (Suc l) pt va ?t"
      using False s1(1,2,4) x PTE2PA_PA2PTE [OF x(2), of PTE_V] by (simp add: ent_def Let_def)
    moreover have "grown s s' (Suc l) pt (Suc n) ps"
    proof -
      have sub: "insert x (pt_tabs (mem s) (Suc l) pt) \<subseteq> pt_tabs (mem s') (Suc l) pt"
        using r(4) s1(5) by (auto simp: grown_def simp del: pt_tabs.simps)
      have "mem s' b = mem s b" if "\<forall>x \<in> pt_tabs (mem s') (Suc l) pt. \<not> in_range x PGSIZE b" for b
      proof -
        have "mem s' b = m3 b" using that r(4) by (simp add: grown_def del: pt_tabs.simps)
        moreover have "m3 b = mem s b"
          using that sub pt_tabs_root [of pt "mem s" "Suc l"] by (intro s1(8)) blast+
        ultimately show ?thesis by simp
      qed
      then show ?thesis
        using r(4) s1(5-7) same_rest_trans ps by (auto simp: grown_def simp del: pt_tabs.simps)
    qed
    ultimately show ?thesis using r by (intro exI [of _ a] exI [of _ s'] exI [of _ "Suc n"]) simp
  qed
qed

section \<open>map_page\<close>

lemma walk_create_loop_px:
  assumes "\<And>k. k \<le> l \<Longrightarrow> px k va = px k va'"
  shows "walk_create_loop l pt va = walk_create_loop l pt va'"
  using assms by (induction l arbitrary: pt) (simp_all add: Let_def cong: if_cong)

lemma walk_create_eq: "walk_create pt va = walk_create_loop 2 pt va"
  using walk_create_loop_px [of 2 "sv39_sign_extend va" va]
  by (simp add: walk_create_def sv39_sign_extend_valid px_sv39_sign_extend Let_def)

lemma vm_inv_store:
  assumes "vm_inv s l pt ps" and "walk_lookup_loop (mem s) l pt va = a" and "a \<noteq> 0"
  shows "vm_inv (s\<lparr>mem := store64 (mem s) a e\<rparr>) l pt ps \<and>
    pt_tabs (store64 (mem s) a e) l pt = pt_tabs (mem s) l pt \<and>
    (\<forall>b. (\<forall>x \<in> pt_tabs (mem s) l pt. \<not> in_range x PGSIZE b) \<longrightarrow> store64 (mem s) a e b = mem s b)"
proof -
  have wf: "pt_wf (mem s) l pt" and pm: "pm_inv s ps" and dj: "pt_tabs (mem s) l pt \<inter> set ps = {}"
    using assms(1) by (simp_all add: vm_inv_def)
  obtain x i where x: "x \<in> pt_tabs (mem s) l pt" "i < 512" "a = x + 8 * i"
    using walk_slot_in_tabs [OF wf assms(2,3)] by blast
  have al: "page_aligned x" using pt_tabs_aligned [OF wf x(1)] by simp
  have out: "store64 (mem s) a e b = mem s b" if "\<not> in_range x PGSIZE b" for b
    unfolding x(3) by (rule store_ent_outside [OF al x(2) that])
  have "pm_inv (s\<lparr>mem := store64 (mem s) a e\<rparr>) ps"
  proof (rule pm_inv_frame [OF pm])
    fix y b assume "y \<in> set ps" "in_range y PGSIZE b"
    then show "mem (s\<lparr>mem := store64 (mem s) a e\<rparr>) b = mem s b"
      using out pages_apart [of y x b] al pm_inv_aligned [OF pm, of y] dj x(1) by auto
  qed simp_all
  then show ?thesis
    using pt_store [OF wf assms(2,3), of e] dj out x(1) by (auto simp: vm_inv_def)
qed

text \<open>The entry \<^verbatim>\<open>map_page\<close> writes over an old one (or none).\<close>

definition map_entry :: "u64 \<Rightarrow> u64 \<Rightarrow> u32 \<Rightarrow> u64 option \<Rightarrow> u64" where
  "map_entry va pa perm0 old =
     (let perm = (if va \<ge> 0x80000000 then perm0 AND NOT (ucast PTE_U) else perm0)
      in case old of
           None \<Rightarrow> PA2PTE pa OR scast perm OR PTE_V
         | Some pte \<Rightarrow>
             (let np = (PTE_FLAGS pte OR scast perm) AND 0x3FF
              in PA2PTE pa OR (if va \<ge> 0x80000000 then np AND NOT PTE_U else np) OR PTE_V))"

lemma map_entry_valid [simp]: "pte_valid (map_entry va pa perm old)"
proof -
  have "pte_valid (x OR y OR PTE_V)" for x y by (simp flip: or.assoc)
  then show ?thesis by (simp only: map_entry_def Let_def split: option.split) simp
qed

abbreviation may_map :: "('a) kcore_scheme \<Rightarrow> u64 \<Rightarrow> bool" where
  "may_map s va \<equiv> \<not> (user_running s \<and> va \<ge> 0x80000000 \<and> va \<noteq> TRAMPOLINE \<and> va \<noteq> TRAPFRAME)"

lemma map_page_run:
  assumes inv: "vm_inv s 2 pt ps" and len: "2 \<le> length ps" and al: "page_aligned va" and ok: "may_map s va"
  obtains (mapped) s' n where "case pt_map (mem s) 2 pt va of None \<Rightarrow> True | Some e \<Rightarrow> PTE2PA e = pa"
      and "map_page pt va pa perm s = (Inr 0, s')" and "n \<le> 2" and "vm_inv s' 2 pt (drop n ps)"
      and "same_rest s s'" and "pt_tabs (mem s') 2 pt = pt_tabs (mem s) 2 pt \<union> set (take n ps)"
      and "pt_map (mem s') 2 pt = (\<lambda>va'. if same_page 2 va va'
             then Some (map_entry va pa perm (pt_map (mem s) 2 pt va)) else pt_map (mem s) 2 pt va')"
      and "\<forall>b. (\<forall>x \<in> pt_tabs (mem s') 2 pt. \<not> in_range x PGSIZE b) \<longrightarrow> mem s' b = mem s b"
  | (other) e s' where "pt_map (mem s) 2 pt va = Some e" and "PTE2PA e \<noteq> pa"
      and "map_page pt va pa perm s = (Inl (Panic ''map_page: remap to different physical address''), s')"
proof -
  obtain a s1 n where r: "walk_create_loop 2 pt va s = (Inr a, s1)" "a \<noteq> 0"
      "walk_lookup_loop (mem s1) 2 pt va = a" "grown s s1 2 pt n ps" "n \<le> 2"
    using walk_create_grows [OF inv len] by blast
  have g: "vm_inv s1 2 pt (drop n ps)" "pt_tabs (mem s1) 2 pt = pt_tabs (mem s) 2 pt \<union> set (take n ps)"
      "pt_map (mem s1) 2 pt = pt_map (mem s) 2 pt" "same_rest s s1"
      "\<forall>b. (\<forall>x \<in> pt_tabs (mem s1) 2 pt. \<not> in_range x PGSIZE b) \<longrightarrow> mem s1 b = mem s b"
    using r(4) by (simp_all add: grown_def)
  define old where "old = load64 (mem s1) a"
  have old: "pt_map (mem s) 2 pt va = (if pte_valid old then Some old else None)"
    using pt_map_lookup [of "mem s1" 2 pt va] g(1,3) r(2,3) by (simp add: vm_inv_def old_def)
  let ?e = "map_entry va pa perm (pt_map (mem s) 2 pt va)"
  let ?s' = "s1\<lparr>mem := store64 (mem s1) a ?e\<rparr>"
  have run: "map_page pt va pa perm s =
      (if pte_valid old \<and> PTE2PA old \<noteq> pa
       then (Inl (Panic ''map_page: remap to different physical address''), s1) else (Inr 0, ?s'))"
    using al ok r(1,2) old
    by (simp add: map_page_def walk_create_eq Let_def store_pte_def map_entry_def flip: old_def)
  show ?thesis
  proof (cases "pte_valid old \<and> PTE2PA old \<noteq> pa")
    case True
    then show ?thesis using other run old by simp
  next
    case False
    have st: "vm_inv ?s' 2 pt (drop n ps)" "pt_tabs (mem ?s') 2 pt = pt_tabs (mem s1) 2 pt"
        "\<forall>b. (\<forall>x \<in> pt_tabs (mem s1) 2 pt. \<not> in_range x PGSIZE b) \<longrightarrow> mem ?s' b = mem s1 b"
      using vm_inv_store [OF g(1) r(3,2), of ?e] by simp_all
    have "pt_map (mem ?s') 2 pt = (\<lambda>va'. if same_page 2 va va' then Some ?e else pt_map (mem s) 2 pt va')"
      using pt_store [of "mem s1" 2 pt va a ?e] g(1,3) r(2,3) by (simp add: vm_inv_def fun_eq_iff)
    moreover have "case pt_map (mem s) 2 pt va of None \<Rightarrow> True | Some e \<Rightarrow> PTE2PA e = pa"
      using False old by auto
    ultimately show ?thesis
      using mapped [of ?s' n] run False r(5) st g same_rest_mem [OF g(4)] by simp
  qed
qed

section \<open>Properties\<close>

text \<open>C4. \<^verbatim>\<open>map_page\<close> implements the update of an abstract map. On intact tables, with two free pages,
  an aligned address and a caller that may map it: if the page is not mapped, or mapped to the
  same frame, \<^verbatim>\<open>map_page\<close> returns 0, exactly the virtual addresses of this page change and get
  the entry of \<open>map_entry\<close>, at most two free pages become tables, no byte outside the tables
  changes and all invariants hold again; if it is mapped to another frame the kernel panics.\<close>

theorem map_page_correct:
  assumes "vm_inv s 2 pt ps" and "2 \<le> length ps" and "page_aligned va" and "may_map s va"
  shows "if \<exists>e. pt_map (mem s) 2 pt va = Some e \<and> PTE2PA e \<noteq> pa
    then fst (map_page pt va pa perm s) = Inl (Panic ''map_page: remap to different physical address'')
    else \<exists>s' n. map_page pt va pa perm s = (Inr 0, s') \<and> n \<le> 2 \<and> vm_inv s' 2 pt (drop n ps) \<and>
      pt_map (mem s') 2 pt = (\<lambda>va'. if same_page 2 va va'
        then Some (map_entry va pa perm (pt_map (mem s) 2 pt va)) else pt_map (mem s) 2 pt va') \<and>
      (\<forall>b. (\<forall>x \<in> pt_tabs (mem s') 2 pt. \<not> in_range x PGSIZE b) \<longrightarrow> mem s' b = mem s b)"
  using assms
proof (cases rule: map_page_run [where perm = perm and pa = pa])
  case (mapped s' n)
  then have "\<not> (\<exists>e. pt_map (mem s) 2 pt va = Some e \<and> PTE2PA e \<noteq> pa)" by auto
  then show ?thesis using mapped by auto
next
  case (other e s')
  then show ?thesis by simp
qed

text \<open>A root table at \<open>0x80005000\<close> with nothing mapped, and three free pages.\<close>

definition demo_vm :: kpm where
  "demo_vm = demo_kpm\<lparr>freelist := 0x80008000,
     mem := store64 (store64 (\<lambda>_. 0) 0x80008000 0x80007000) 0x80007000 0x80006000\<rparr>"

lemma demo_vm_mem_outside: 
  "\<not> in_range 0x80008000 8 b \<Longrightarrow> \<not> in_range 0x80007000 8 b \<Longrightarrow> mem demo_vm b = 0"
  by (simp add: demo_vm_def store64_outside)

lemma demo_vm_inv:
  "vm_inv demo_vm 2 0x80005000 [0x80008000, 0x80007000, 0x80006000] \<and>
   pt_map (mem demo_vm) 2 0x80005000 = (\<lambda>_. None)"
proof -
  have l: "load64 (mem demo_vm) 0x80007000 = 0x80006000" by (simp add: demo_vm_def)
  have "load64 (mem demo_vm) 0x80008000 = load64 (store64 (\<lambda>_. 0) 0x80008000 0x80007000) 0x80008000"
    by (simp add: demo_vm_def load64_store64_other)
  moreover have "load64 (mem demo_vm) 0x80006000 = 0"
    by (rule load64_zero) (simp add: demo_vm_mem_outside in_range_nat)
  ultimately have "pm_inv demo_vm [0x80008000, 0x80007000, 0x80006000]"
    using l by (simp add: pm_inv_def page_ok_def PGSIZE_def PHYSTOP_eq)
      (simp add: demo_vm_def demo_kpm_def kcore.extend_def)
  moreover have "pt_wf (mem demo_vm) 2 0x80005000 \<and> pt_tabs (mem demo_vm) 2 0x80005000 = {0x80005000} \<and>
      pt_map (mem demo_vm) 2 0x80005000 = (\<lambda>_. None)"
    by (rule pt_empty) (simp_all add: demo_vm_mem_outside in_range_nat PGSIZE_def)
  ultimately show ?thesis by (simp add: vm_inv_def)
qed

lemmas demo_vm_map = demo_vm_inv [THEN conjunct2, THEN fun_cong]

theorem map_page_correct_witness:
  "\<exists>s' n. map_page 0x80005000 0x10000 0x87000000 0x16 demo_vm = (Inr 0, s') \<and> n \<le> 2 \<and>
      vm_inv s' 2 0x80005000 (drop n [0x80008000, 0x80007000, 0x80006000]) \<and>
      pt_map (mem s') 2 0x80005000 = (\<lambda>va'. if same_page 2 0x10000 va'
        then Some (map_entry 0x10000 0x87000000 0x16 None) else None)"
proof -
  have "may_map demo_vm 0x10000" by simp
  then show ?thesis
    using map_page_correct [of demo_vm "0x80005000" "[0x80008000, 0x80007000, 0x80006000]" "0x10000" "0x87000000" "0x16"]
      demo_vm_inv by (auto simp: PGSIZE_def demo_vm_map cong: if_cong)
qed

end
