(* ===== verification/UserMem.thy ===== *)
theory UserMem
  imports PageMap
begin

text \<open>
  Access to user memory through a page table (\<^verbatim>\<open>user_va2pa\<close>, \<^verbatim>\<open>copyin\<close>, \<^verbatim>\<open>copyout\<close>,
  \<^verbatim>\<open>copyinstr\<close>, \<^verbatim>\<open>check_user_addr\<close>) and page faults (\<^verbatim>\<open>handle_page_fault\<close>), over the
  abstraction of \<open>PageMap\<close>.
\<close>

section \<open>Translation\<close>

definition translate :: "(u64 \<Rightarrow> u64 option) \<Rightarrow> u64 \<Rightarrow> addr option" where
  "translate pm va = (case pm va of None \<Rightarrow> None
     | Some e \<Rightarrow> if e AND PTE_U = 0 then None else Some (PTE2PA e OR (va AND 0xFFF)))"

lemma user_va2pa_eq:
  assumes "pt_wf m 2 pt"
  shows "user_va2pa m pt va = (case translate (pt_map m 2 pt) va of None \<Rightarrow> 0 | Some pa \<Rightarrow> pa)"
  using pt_map_lookup [OF assms, of va]
  by (simp add: user_va2pa_def walk_lookup_eq translate_def Let_def)

section \<open>copyin, copyinstr\<close>

text \<open>The physical addresses of \<open>n\<close> bytes of user memory from \<open>va\<close> on, if all are mapped, and
  the bytes found there.\<close>

fun user_addrs :: "(u64 \<Rightarrow> u64 option) \<Rightarrow> u64 \<Rightarrow> nat \<Rightarrow> addr list option" where
  "user_addrs pm va 0 = Some []"
| "user_addrs pm va (Suc n) =
     (case translate pm va of None \<Rightarrow> None
      | Some pa \<Rightarrow> map_option ((#) pa) (user_addrs pm (va + 1) n))"

definition user_bytes :: "phys \<Rightarrow> (u64 \<Rightarrow> u64 option) \<Rightarrow> u64 \<Rightarrow> nat \<Rightarrow> u8 list option" where
  "user_bytes m pm va n = map_option (map m) (user_addrs pm va n)"

lemma user_bytes_simps [simp]:
  "user_bytes m pm va 0 = Some []"
  "user_bytes m pm va (Suc n) =
     (case translate pm va of None \<Rightarrow> None
      | Some pa \<Rightarrow> map_option ((#) (m pa)) (user_bytes m pm (va + 1) n))"
  by (auto simp: user_bytes_def option.map_comp comp_def split: option.splits)

text \<open>No user page translates to physical address 0, which the code takes for a failure.\<close>

definition nonnull_map :: "(u64 \<Rightarrow> u64 option) \<Rightarrow> bool" where
  "nonnull_map pm \<longleftrightarrow> (\<forall>va. translate pm va \<noteq> Some 0)"

fun upto_nul :: "u8 list \<Rightarrow> u8 list" where
  "upto_nul [] = []"
| "upto_nul (b # bs) = (if b = 0 then [0] else b # upto_nul bs)"

lemma copyin_loop_bytes:
  assumes "pt_wf m 2 pt" and "nonnull_map (pt_map m 2 pt)" and "user_bytes m (pt_map m 2 pt) va n = Some bs"
  shows "copyin_loop m pt va n = (0, upto_nul bs)"
  using assms(3)
proof (induction n arbitrary: va bs)
  case 0
  then show ?case by simp
next
  case (Suc n)
  then obtain pa cs where "translate (pt_map m 2 pt) va = Some pa"
      "user_bytes m (pt_map m 2 pt) (va + 1) n = Some cs" "bs = m pa # cs"
    by (auto split: option.splits)
  moreover from this assms(2) have "pa \<noteq> 0" by (auto simp: nonnull_map_def)
  ultimately show ?case using Suc.IH user_va2pa_eq [OF assms(1)] by (simp add: Let_def)
qed

lemma copyin_unmapped:
  assumes "pt_wf m 2 pt" and "translate (pt_map m 2 pt) va = None"
  shows "copyin_loop m pt va (Suc n) = (- 1, [])"
  using assms by (simp add: user_va2pa_eq)

text \<open>\<open>upto_nul\<close> cuts at the first NUL.\<close>

lemma upto_nul_append: "0 \<notin> set xs \<Longrightarrow> upto_nul (xs @ 0 # ys) = xs @ [0]"
  by (induction xs) auto

lemma upto_nul_id: "0 \<notin> set xs \<Longrightarrow> upto_nul xs = xs"
  by (induction xs) auto

lemma copyinstr_loop_string:
  assumes "pt_wf (mem s) 2 (pagetable (proc_table s p))" and "current_proc s = Some p"
    and "nonnull_map (pt_map (mem s) 2 (pagetable (proc_table s p)))"
    and "user_bytes (mem s) (pt_map (mem s) 2 (pagetable (proc_table s p))) va (Suc (length xs)) = Some (xs @ [0])"
    and "0 \<notin> set xs" and "length xs < n"
  shows "copyinstr_loop va n acc s = (Inr (0, acc @ xs @ [0]), s)"
  using assms(4-6)
proof (induction xs arbitrary: va n acc)
  let ?pm = "pt_map (mem s) 2 (pagetable (proc_table s p))"
  case Nil
  then obtain k where n: "n = Suc k" by (cases n) auto
  obtain pa where "translate ?pm va = Some pa" "mem s pa = 0" using Nil by (auto split: option.splits)
  moreover from this assms(3) have "pa \<noteq> 0" by (auto simp: nonnull_map_def)
  ultimately show ?case
    using n assms(2) user_va2pa_eq [OF assms(1)] by (simp add: copyin_def myproc_def Let_def)
next
  let ?pm = "pt_map (mem s) 2 (pagetable (proc_table s p))"
  case (Cons x xs)
  then obtain k where n: "n = Suc k" by (cases n) auto
  obtain pa where pa: "translate ?pm va = Some pa" "mem s pa = x"
      "user_bytes (mem s) ?pm (va + 1) (Suc (length xs)) = Some (xs @ [0])"
    using Cons.prems by (auto split: option.splits simp del: user_bytes_simps(2) simp: user_bytes_simps(2) [of _ _ va])
  moreover from this assms(3) have "pa \<noteq> 0" by (auto simp: nonnull_map_def)
  ultimately show ?case
    using n assms(2) user_va2pa_eq [OF assms(1)] Cons.IH [of "va + 1" k "acc @ [x]"] Cons.prems
    by (simp add: copyin_def myproc_def Let_def del: user_bytes_simps)
qed

section \<open>copyout\<close>

text \<open>The frames a user may write hold no page table.\<close>

definition frames_apart :: "phys \<Rightarrow> addr \<Rightarrow> bool" where
  "frames_apart m pt \<longleftrightarrow>
     (\<forall>va pa. translate (pt_map m 2 pt) va = Some pa \<longrightarrow> (\<forall>x \<in> pt_tabs m 2 pt. \<not> in_range x PGSIZE pa))"

definition write_at :: "phys \<Rightarrow> addr list \<Rightarrow> u8 list \<Rightarrow> phys" where
  "write_at m as bs = fold (\<lambda>(a, b) m. m(a := b)) (zip as bs) m"

lemma write_at_Cons [simp]: "write_at m (a # as) (b # bs) = write_at (m(a := b)) as bs"
  by (simp add: write_at_def)

lemma write_at_Nil [simp]: "write_at m [] bs = m"
  by (simp add: write_at_def)

lemma write_at_other: "x \<notin> set as \<Longrightarrow> write_at m as bs x = m x"
proof (induction as arbitrary: m bs)
  case (Cons a as)
  then show ?case by (cases bs) (auto simp: write_at_def)
qed simp

lemma write_at_map: "distinct as \<Longrightarrow> length as = length bs \<Longrightarrow> map (write_at m as bs) as = bs"
proof (induction as arbitrary: m bs)
  case (Cons a as)
  then obtain b bs' where "bs = b # bs'" by (cases bs) auto
  then show ?case using Cons by (simp add: write_at_other)
qed simp

lemma write_at_take: "length as \<le> k \<Longrightarrow> write_at m as (take k bs) = write_at m as bs"
proof (induction as arbitrary: m bs k)
  case (Cons a as)
  then obtain k' where "k = Suc k'" by (cases k) auto
  then show ?case using Cons by (cases bs) (auto simp: write_at_def)
qed simp

lemma user_addrs_length: "user_addrs pm va n = Some as \<Longrightarrow> length as = n"
  by (induction n arbitrary: va as) (auto split: option.splits)

lemma user_addrs_translate: "user_addrs pm va n = Some as \<Longrightarrow> a \<in> set as \<Longrightarrow> \<exists>v. translate pm v = Some a"
  by (induction n arbitrary: va as) (auto split: option.splits)

lemma copyout_run:
  assumes "pt_wf (mem s) 2 pt" and "nonnull_map (pt_map (mem s) 2 pt)" and "frames_apart (mem s) pt"
    and "user_addrs (pt_map (mem s) 2 pt) va (length bs) = Some as"
  shows "copyout pt va bs s = (Inr 0, s\<lparr>mem := write_at (mem s) as bs\<rparr>) \<and>
    pt_wf (write_at (mem s) as bs) 2 pt \<and> pt_map (write_at (mem s) as bs) 2 pt = pt_map (mem s) 2 pt \<and>
    pt_tabs (write_at (mem s) as bs) 2 pt = pt_tabs (mem s) 2 pt"
  using assms
proof (induction bs arbitrary: s va as)
  case Nil
  then show ?case by simp
next
  case (Cons b bs)
  let ?m = "mem s"
  obtain pa as' where pa: "translate (pt_map ?m 2 pt) va = Some pa"
      "user_addrs (pt_map ?m 2 pt) (va + 1) (length bs) = Some as'" "as = pa # as'"
    using Cons.prems(4) by (auto split: option.splits)
  define m1 where "m1 = ?m(pa := b)"
  let ?s1 = "s\<lparr>mem := m1\<rparr>"
  have fr: "pt_tabs (mem ?s1) 2 pt = pt_tabs ?m 2 pt \<and> pt_wf (mem ?s1) 2 pt \<and> pt_map (mem ?s1) 2 pt = pt_map ?m 2 pt"
  proof (rule pt_frame [OF Cons.prems(1)])
    fix x c assume "x \<in> pt_tabs ?m 2 pt" "in_range x PGSIZE c"
    then have "c \<noteq> pa" using Cons.prems(3) pa(1) by (auto simp: frames_apart_def)
    then show "mem ?s1 c = ?m c" by (simp add: m1_def)
  qed
  have "pa \<noteq> 0" using Cons.prems(2) pa(1) by (auto simp: nonnull_map_def)
  moreover have "frames_apart (mem ?s1) pt" using Cons.prems(3) fr by (simp add: frames_apart_def)
  ultimately show ?case
    using Cons.IH [of ?s1 "va + 1" as'] fr Cons.prems pa user_va2pa_eq [OF Cons.prems(1), of va]
    by (simp flip: m1_def)
qed

section \<open>Page faults\<close>

definition page_of :: "u64 \<Rightarrow> u64" where
  "page_of va = va div 4096 * 4096"

lemma unat_page_of: "unat (page_of va) = unat va div PGSIZE * PGSIZE"
proof -
  have "unat va div 4096 * 4096 \<le> unat va" by simp
  then have "unat va div 4096 * 4096 < 2 ^ 64" using unat_lt_pow [of va] by simp
  then show ?thesis by (simp add: page_of_def PGSIZE_def unat_word_ariths unat_div)
qed

lemma page_of_aligned [simp]: "page_aligned (page_of va)"
  by (simp add: unat_page_of)

text \<open>A process (or kernel thread) whose fault the handler tries to serve.\<close>

definition fault_served :: "('a) kvm_scheme \<Rightarrow> u64 \<Rightarrow> bool" where
  "fault_served s va \<longleftrightarrow> 4096 \<le> va \<and> page_of va < MAXVA \<and> (snd (fault_table s) \<longrightarrow> va < 0x80000000)"

definition fault_flags :: "bool \<Rightarrow> u64 \<Rightarrow> int \<Rightarrow> u64" where
  "fault_flags usr va type =
     (if usr \<and> page_of va < 0x80000000 then fault_perm type OR PTE_U else fault_perm type)"

lemma handle_page_fault_mapped:
  assumes "fault_served s va" and "fault_table s = (pt, usr)" and "pt_wf (mem s) 2 pt"
    and "pt_map (mem s) 2 pt (page_of va) = Some e"
  shows "handle_page_fault va type s =
    (if e AND (PTE_R OR PTE_W OR PTE_X) AND fault_perm type \<noteq> fault_perm type
     then (Inr 1, s\<lparr>mem := store64 (mem s) (walk_lookup_loop (mem s) 2 pt (page_of va)) (e OR fault_flags usr va type)\<rparr>)
     else (Inl (Panic ''Unexpected page fault on valid mapping''), s))"
proof -
  have va: "va \<noteq> 0" "\<not> va < 4096" "\<not> page_of va \<ge> MAXVA" "usr \<Longrightarrow> \<not> va \<ge> 0x80000000"
    using assms(1,2) by (auto simp: fault_served_def not_less not_le)
  have l: "walk_lookup_loop (mem s) 2 pt (page_of va) \<noteq> 0"
      "load64 (mem s) (walk_lookup_loop (mem s) 2 pt (page_of va)) = e" "pte_valid e"
    using pt_map_lookup [OF assms(3), of "page_of va"] assms(4) by (auto simp: Let_def split: if_splits)
  show ?thesis
    using va l assms(2)
    by (auto simp: handle_page_fault_def Let_def walk_lookup_eq fault_flags_def store_pte_def or.assoc and.assoc
        simp flip: page_of_def)
qed

lemma handle_page_fault_unmapped:
  assumes srv: "fault_served s va" and tab: "fault_table s = (pt, usr)" and inv: "vm_inv s 2 pt (x # ps)"
    and len: "2 \<le> length ps" and none: "pt_map (mem s) 2 pt (page_of va) = None"
    and usr: "user_running s \<Longrightarrow> usr"
  obtains s' n where "handle_page_fault va type s = (Inr 1, s')" and "n \<le> 2"
    and "vm_inv s' 2 pt (drop n ps)"
    and "pt_map (mem s') 2 pt = (\<lambda>va'. if same_page 2 (page_of va) va'
           then Some (map_entry (page_of va) x (ucast (fault_flags usr va type)) None)
           else pt_map (mem s) 2 pt va')"
    and "\<And>b. in_range x PGSIZE b \<Longrightarrow> mem s' b = 0"
proof -
  have va: "va \<noteq> 0" "\<not> va < 4096" "\<not> page_of va \<ge> MAXVA" "usr \<Longrightarrow> \<not> va \<ge> 0x80000000"
    using srv tab by (auto simp: fault_served_def not_less not_le)
  have wf: "pt_wf (mem s) 2 pt" and pm: "pm_inv s (x # ps)" and dj: "pt_tabs (mem s) 2 pt \<inter> set (x # ps) = {}"
    using inv by (simp_all only: vm_inv_def)
  have x: "page_aligned x" "x \<noteq> 0" "x \<notin> set ps"
    using pm_inv_aligned [OF pm, of x] pm by (simp_all add: pm_inv_def)
  obtain s1 where s1: "alloc_page s = (Inr x, s1)" "pm_inv s1 ps" "s1 = s\<lparr>mem := mem s1, freelist := freelist s1\<rparr>"
      "\<And>a. \<not> in_range x PGSIZE a \<Longrightarrow> mem s1 a = mem s a"
    using alloc_page_inv [OF pm] by metis
  define s2 where "s2 = s1\<lparr>mem := memset (mem s1) x 0 PGSIZE\<rparr>"
  have m2: "mem s2 b = (if in_range x PGSIZE b then 0 else mem s b)" for b
    using s1(4) [of b] by (simp add: s2_def memset_apply PGSIZE_def)
  have fr: "pt_tabs (mem s2) 2 pt = pt_tabs (mem s) 2 pt \<and> pt_wf (mem s2) 2 pt \<and>
      pt_map (mem s2) 2 pt = pt_map (mem s) 2 pt"
  proof (rule pt_frame [OF wf])
    fix y b assume "y \<in> pt_tabs (mem s) 2 pt" "in_range y PGSIZE b"
    then show "mem s2 b = mem s b"
      using m2 dj x pt_tabs_aligned [OF wf, of y] pages_apart [of y x b] by auto
  qed
  have "pm_inv s2 ps"
  proof (rule pm_inv_frame [OF s1(2)])
    fix y b assume "y \<in> set ps" "in_range y PGSIZE b"
    then show "mem s2 b = mem s1 b"
      using m2 s1(4) [of b] x pm_inv_aligned [OF s1(2), of y] pages_apart [of y x b] by auto
  qed (simp_all add: s2_def)
  then have inv2: "vm_inv s2 2 pt ps" using fr dj by (auto simp: vm_inv_def)
  have rest: "same_rest s s2"
    using same_rest_mem [OF same_restI [OF s1(3)]] by (simp add: s2_def)
  have ok: "may_map s2 (page_of va)"
  proof
    assume u: "user_running s2 \<and> page_of va \<ge> 0x80000000 \<and> page_of va \<noteq> TRAMPOLINE \<and> page_of va \<noteq> TRAPFRAME"
    then have "usr" using usr same_rest_user [OF rest] by simp
    moreover have "page_of va \<le> va" by (simp add: word_le_nat_alt unat_page_of)
    ultimately show False using va(4) u by auto
  qed
  let ?perm = "ucast (fault_flags usr va type) :: u32"
  from inv2 len page_of_aligned ok show ?thesis
  proof (cases rule: map_page_run [where perm = ?perm and pa = x])
    case (mapped s' n)
    have "walk_lookup_loop (mem s) 2 pt (page_of va) = 0 \<or>
        \<not> pte_valid (load64 (mem s) (walk_lookup_loop (mem s) 2 pt (page_of va)))"
      using pt_map_lookup [OF wf, of "page_of va"] none by (auto simp: Let_def split: if_splits)
    moreover have "\<not> va \<ge> 0xffffff0000000000"
    proof
      assume "va \<ge> 0xffffff0000000000"
      then have "unat va \<ge> 0xffffff0000000000" by (simp add: word_le_nat_alt)
      then have "unat (page_of va) \<ge> 0xffffff0000000000 - 4096"
        by (simp add: unat_page_of PGSIZE_def)
      then show False using va(3) by (simp add: MAXVA_def word_le_nat_alt push_bit_eq_mult)
    qed
    ultimately have "handle_page_fault va type s = (Inr 1, s')"
      using va tab s1(1) x(2) mapped(2)
      by (auto simp: handle_page_fault_def Let_def walk_lookup_eq fault_flags_def s2_def
          simp flip: page_of_def)
    moreover have "mem s' b = 0" if b: "in_range x PGSIZE b" for b
    proof -
      have T: "pt_tabs (mem s') 2 pt = pt_tabs (mem s) 2 pt \<union> set (take n ps)" using mapped(6) fr by simp
      then have "x \<notin> pt_tabs (mem s') 2 pt" using dj x(3) by (auto dest: in_set_takeD)
      moreover have "page_aligned y" if "y \<in> pt_tabs (mem s') 2 pt" for y
        using pt_tabs_aligned [of "mem s'" 2 pt y] mapped(4) that by (simp add: vm_inv_def)
      ultimately have "\<forall>y \<in> pt_tabs (mem s') 2 pt. \<not> in_range y PGSIZE b"
        using pages_apart [OF x(1)] b by metis
      then show ?thesis using mapped(8) m2 b by simp
    qed
    ultimately show ?thesis
      using that [of s' n] mapped(3,4,7) fr none by (simp cong: if_cong)
  next
    case (other e s')
    then show ?thesis using fr none by simp
  qed
qed

section \<open>Properties\<close>

text \<open>C28. A fault on an unmapped page, taken by the kernel or by a user process below
  \<^verbatim>\<open>0x80000000\<close>, is served: \<^verbatim>\<open>handle_page_fault\<close> returns 1, the faulting page is mapped to a fresh
  zero-filled frame with the permission the access needs (and \<^verbatim>\<open>PTE_U\<close> for a user process), and
  no other page's mapping changes.\<close>

theorem page_fault_demand_zero:
  assumes "fault_served s va" and "fault_table s = (pt, usr)" and "vm_inv s 2 pt (x # ps)"
    and "2 \<le> length ps" and "pt_map (mem s) 2 pt (page_of va) = None" and "user_running s \<longrightarrow> usr"
  shows "\<exists>s' n. handle_page_fault va type s = (Inr 1, s') \<and> n \<le> 2 \<and> vm_inv s' 2 pt (drop n ps) \<and>
    pt_map (mem s') 2 pt = (\<lambda>va'. if same_page 2 (page_of va) va'
           then Some (map_entry (page_of va) x (ucast (fault_flags usr va type)) None)
           else pt_map (mem s) 2 pt va') \<and>
    (\<forall>b. in_range x PGSIZE b \<longrightarrow> mem s' b = 0)"
proof -
  have "user_running s \<Longrightarrow> usr" using assms(6) by simp
  then show ?thesis
    by (rule_tac handle_page_fault_unmapped [OF assms(1-5), of type]) blast+
qed

definition demo_kvm :: kvm where
  "demo_kvm = kpm.extend demo_vm
     \<lparr>kernel_pagetable = 0x80005000, trampoline_phys_addr = 0, trapframe_phys_addr = 0,
      ld_etext = 0x80002000, ld_trampoline = 0x80001000, satp = 0\<rparr>"

lemma demo_kvm_inv:
  "vm_inv demo_kvm 2 0x80005000 [0x80008000, 0x80007000, 0x80006000] \<and>
   pt_map (mem demo_kvm) 2 0x80005000 = (\<lambda>_. None) \<and> fault_table demo_kvm = (0x80005000, False)"
proof -
  have "mem demo_kvm = mem demo_vm" "freelist demo_kvm = freelist demo_vm" "ld_end demo_kvm = ld_end demo_vm"
    by (simp_all add: demo_kvm_def kpm.extend_def)
  moreover have "current_proc demo_kvm = None" "kernel_pagetable demo_kvm = 0x80005000"
    by (simp_all add: demo_kvm_def demo_vm_def demo_kpm_def demo_core_def kpm.extend_def kcore.extend_def)
  ultimately show ?thesis
    using demo_vm_inv by (simp add: vm_inv_def pm_inv_def fault_table_def)
qed

theorem page_fault_demand_zero_witness:
  "\<exists>s' n. handle_page_fault 0x5123 3 demo_kvm = (Inr 1, s') \<and> n \<le> 2 \<and>
     vm_inv s' 2 0x80005000 (drop n [0x80007000, 0x80006000]) \<and>
     pt_map (mem s') 2 0x80005000 = (\<lambda>va'. if same_page 2 (page_of 0x5123) va'
           then Some (map_entry (page_of 0x5123) 0x80008000 (ucast (fault_flags False 0x5123 3)) None)
           else pt_map (mem demo_kvm) 2 0x80005000 va')"
proof -
  have "fault_served demo_kvm 0x5123"
    using demo_kvm_inv by (simp add: fault_served_def page_of_def MAXVA_def)
  moreover have "\<not> user_running demo_kvm"
    by (simp add: user_running_def demo_kvm_def demo_vm_def demo_kpm_def demo_core_def kpm.extend_def kcore.extend_def)
  ultimately show ?thesis
    using page_fault_demand_zero [of demo_kvm "0x5123" "0x80005000" False "0x80008000" "[0x80007000, 0x80006000]" 3]
      demo_kvm_inv by auto
qed

text \<open>C35. A fault on a mapped page never fails for lack of permission: whatever bits the access
  needs are added to the entry, also write permission to a page mapped read-only or
  executable, and the access is retried; if the entry has them already the kernel panics.\<close>

theorem page_fault_grants_permission:
  assumes "fault_served s va" and "fault_table s = (pt, usr)" and "vm_inv s 2 pt ps"
    and "pt_map (mem s) 2 pt (page_of va) = Some e"
  shows "if e AND (PTE_R OR PTE_W OR PTE_X) AND fault_perm type \<noteq> fault_perm type
    then \<exists>s'. handle_page_fault va type s = (Inr 1, s') \<and> vm_inv s' 2 pt ps \<and>
      pt_map (mem s') 2 pt = (\<lambda>va'. if same_page 2 (page_of va) va'
           then Some (e OR fault_flags usr va type) else pt_map (mem s) 2 pt va')
    else handle_page_fault va type s = (Inl (Panic ''Unexpected page fault on valid mapping''), s)"
proof -
  let ?a = "walk_lookup_loop (mem s) 2 pt (page_of va)" and ?e = "e OR fault_flags usr va type"
  have wf: "pt_wf (mem s) 2 pt" using assms(3) by (simp add: vm_inv_def)
  have a: "?a \<noteq> 0" "pte_valid e"
    using pt_map_lookup [OF wf, of "page_of va"] assms(4) by (auto simp: Let_def split: if_splits)
  have "pte_valid ?e" using a(2) by (simp only: pte_valid_bit bit_or_iff simp_thms)
  then have "pt_map (store64 (mem s) ?a ?e) 2 pt = (\<lambda>va'. if same_page 2 (page_of va) va'
           then Some ?e else pt_map (mem s) 2 pt va')"
    using pt_store [OF wf refl a(1), of ?e] by (simp add: fun_eq_iff)
  moreover have "vm_inv (s\<lparr>mem := store64 (mem s) ?a ?e\<rparr>) 2 pt ps"
    using vm_inv_store [OF assms(3) refl a(1)] by blast
  ultimately show ?thesis using handle_page_fault_mapped [OF assms(1,2) wf assms(4)] by simp
qed

text \<open>A state with a page mapped read-only at \<open>0x5000\<close>.\<close>

definition demo_ro :: kvm where
  "demo_ro = snd (map_page 0x80005000 0x5000 0x87000000 2 demo_kvm)"

lemma same_rest_fault_table:
  fixes s s' :: "('a) kvm_scheme"
  shows "same_rest s s' \<Longrightarrow> fault_table s' = fault_table s"
  by (auto simp: same_rest_def fault_table_def split: option.splits)

lemma demo_ro_inv:
  "\<exists>ps. vm_inv demo_ro 2 0x80005000 ps \<and> pt_map (mem demo_ro) 2 0x80005000 0x5000 = Some 0x21C00003 \<and>
     fault_table demo_ro = (0x80005000, False)"
proof -
  let ?ps = "[0x80008000, 0x80007000, 0x80006000] :: addr list"
  have inv: "vm_inv demo_kvm 2 0x80005000 ?ps" and none: "pt_map (mem demo_kvm) 2 0x80005000 0x5000 = None"
    using demo_kvm_inv by simp_all
  have e: "map_entry 0x5000 0x87000000 2 None = 0x21C00003" by code_simp
  have "2 \<le> length ?ps" "page_aligned 0x5000" "may_map demo_kvm 0x5000"
    by (simp_all add: PGSIZE_def)
  with inv show ?thesis
  proof (cases rule: map_page_run [where perm = 2 and pa = "0x87000000"])
    case (mapped s' n)
    then show ?thesis
      using none e demo_kvm_inv same_rest_fault_table [of demo_kvm s']
      by (auto simp: demo_ro_def same_page_def)
  next
    case (other e s')
    then show ?thesis using none by simp
  qed
qed

theorem page_fault_grants_permission_witness:
  "\<exists>s'. handle_page_fault 0x5123 3 demo_ro = (Inr 1, s') \<and>
     pt_map (mem s') 2 0x80005000 0x5000 = Some (0x21C00003 OR PTE_R OR PTE_W)"
proof -
  obtain ps where ps: "vm_inv demo_ro 2 0x80005000 ps" "pt_map (mem demo_ro) 2 0x80005000 0x5000 = Some 0x21C00003"
      "fault_table demo_ro = (0x80005000, False)"
    using demo_ro_inv by blast
  have "fault_served demo_ro 0x5123" using ps(3) by (simp add: fault_served_def page_of_def MAXVA_def)
  moreover have "page_of 0x5123 = 0x5000" by (simp add: page_of_def)
  moreover have "0x21C00003 AND (PTE_R OR PTE_W OR PTE_X) AND fault_perm 3 \<noteq> fault_perm 3" by code_simp
  ultimately show ?thesis
    using page_fault_grants_permission [OF _ ps(3,1), of "0x5123" "0x21C00003" 3] ps(2)
    by (auto simp: same_page_def fault_flags_def fault_perm_def)
qed

text \<open>C29. \<^verbatim>\<open>copyout\<close> followed by \<^verbatim>\<open>copyin\<close>: when the user range is mapped to distinct bytes outside the
  page tables, \<^verbatim>\<open>copyout\<close> stores exactly the given bytes there and returns 0; \<^verbatim>\<open>copyin\<close> of the same
  range then also returns 0, but delivers the bytes only up to and including the first NUL, so
  it round-trips exactly the NUL-free data.\<close>

theorem copyout_copyin_roundtrip:
  assumes "pt_wf (mem s) 2 pt" and "nonnull_map (pt_map (mem s) 2 pt)" and "frames_apart (mem s) pt"
    and "user_addrs (pt_map (mem s) 2 pt) va (length bs) = Some as" and "distinct as"
  shows "\<exists>s'. copyout pt va bs s = (Inr 0, s') \<and> (\<forall>b. b \<notin> set as \<longrightarrow> mem s' b = mem s b) \<and>
    user_bytes (mem s') (pt_map (mem s) 2 pt) va (length bs) = Some bs \<and>
    copyin_loop (mem s') pt va (length bs) = (0, upto_nul bs)"
proof -
  let ?m = "write_at (mem s) as bs"
  have run: "copyout pt va bs s = (Inr 0, s\<lparr>mem := ?m\<rparr>)" "pt_wf ?m 2 pt" "pt_map ?m 2 pt = pt_map (mem s) 2 pt"
    using copyout_run [OF assms(1-4)] by simp_all
  have "length as = length bs" using assms(4) by (rule user_addrs_length)
  then have "user_bytes ?m (pt_map (mem s) 2 pt) va (length bs) = Some bs"
    using assms(4,5) by (simp add: user_bytes_def write_at_map)
  then show ?thesis
    using run assms(2) copyin_loop_bytes [of ?m pt va "length bs" bs] by (auto simp: write_at_other)
qed

text \<open>A state whose only mapping is a user page at \<open>0x10000\<close>, backed by the frame \<open>0x87000000\<close>.\<close>

definition demo_user :: kpm where
  "demo_user = snd (map_page 0x80005000 0x10000 0x87000000 0x16 demo_vm)"

lemma same_page_2: "same_page 2 a b \<longleftrightarrow> px 2 a = px 2 b \<and> px 1 a = px 1 b \<and> px 0 a = px 0 b"
  by (auto simp: same_page_def numeral_2_eq_2 le_Suc_eq)

lemma demo_user_inv:
  "\<exists>ps. vm_inv demo_user 2 0x80005000 ps \<and>
     pt_map (mem demo_user) 2 0x80005000 = (\<lambda>va. if same_page 2 0x10000 va then Some 0x21C00017 else None) \<and>
     pt_tabs (mem demo_user) 2 0x80005000 \<subseteq> {0x80005000, 0x80006000, 0x80007000, 0x80008000}"
proof -
  let ?ps = "[0x80008000, 0x80007000, 0x80006000] :: addr list"
  have inv: "vm_inv demo_vm 2 0x80005000 ?ps" and none: "pt_map (mem demo_vm) 2 0x80005000 = (\<lambda>_. None)"
    using demo_vm_inv by simp_all
  have tabs: "pt_tabs (mem demo_vm) 2 0x80005000 = {0x80005000}"
    by (rule pt_empty [THEN conjunct2, THEN conjunct1])
      (simp_all add: demo_vm_mem_outside in_range_nat PGSIZE_def)
  have e: "map_entry 0x10000 0x87000000 0x16 None = 0x21C00017" by code_simp
  have "2 \<le> length ?ps" "page_aligned 0x10000" "may_map demo_vm 0x10000"
    by (simp_all add: PGSIZE_def)
  with inv show ?thesis
  proof (cases rule: map_page_run [where perm = "0x16" and pa = "0x87000000"])
    case (mapped s' n)
    have "set (take n ?ps) \<subseteq> set ?ps" by (rule set_take_subset)
    then have "pt_tabs (mem s') 2 0x80005000 \<subseteq> {0x80005000, 0x80006000, 0x80007000, 0x80008000}"
      using mapped(6) tabs by auto
    moreover have "pt_map (mem s') 2 0x80005000 = (\<lambda>va. if same_page 2 0x10000 va then Some 0x21C00017 else None)"
      using mapped(7) none e by (simp cong: if_cong)
    ultimately show ?thesis using mapped(2,4) by (auto simp: demo_user_def)
  next
    case (other e s')
    then show ?thesis using none by simp
  qed
qed

lemma demo_user_translate:
  assumes "pm = (\<lambda>va. if same_page 2 0x10000 va then Some 0x21C00017 else None)"
  shows "translate pm va = (if same_page 2 0x10000 va then Some (0x87000000 OR (va AND 0xFFF)) else None)"
proof -
  have "PTE2PA 0x21C00017 = 0x87000000" by code_simp
  moreover have "0x21C00017 AND PTE_U \<noteq> 0" by code_simp
  ultimately show ?thesis using assms by (simp add: translate_def)
qed

lemma demo_user_facts:
  "pt_wf (mem demo_user) 2 0x80005000 \<and> nonnull_map (pt_map (mem demo_user) 2 0x80005000) \<and>
   frames_apart (mem demo_user) 0x80005000 \<and>
   user_addrs (pt_map (mem demo_user) 2 0x80005000) 0x10000 3 = Some [0x87000000, 0x87000001, 0x87000002]"
proof -
  let ?pm = "pt_map (mem demo_user) 2 0x80005000"
  obtain ps where ps: "vm_inv demo_user 2 0x80005000 ps"
      and pm: "?pm = (\<lambda>va. if same_page 2 0x10000 va then Some 0x21C00017 else None)"
      and tabs: "pt_tabs (mem demo_user) 2 0x80005000 \<subseteq> {0x80005000, 0x80006000, 0x80007000, 0x80008000}"
    using demo_user_inv by blast
  note tr = demo_user_translate [OF pm]
  have big: "unat (0x87000000 OR w :: u64) \<ge> 0x87000000" for w
    using le_word_or2 [of "0x87000000 :: u64" w] by (simp add: word_le_nat_alt)
  have "nonnull_map ?pm"
  proof -
    have "0x87000000 OR w \<noteq> (0 :: u64)" for w using big [of w] by auto
    then show ?thesis by (simp add: nonnull_map_def tr)
  qed
  moreover have "frames_apart (mem demo_user) 0x80005000"
    unfolding frames_apart_def
  proof (intro allI impI ballI)
    fix va pa x assume "translate ?pm va = Some pa" and x: "x \<in> pt_tabs (mem demo_user) 2 0x80005000"
    then have "unat pa \<ge> 0x87000000" using big by (auto simp: tr split: if_splits)
    moreover have "x \<in> {0x80005000, 0x80006000, 0x80007000, 0x80008000}" using x tabs by blast
    ultimately show "\<not> in_range x PGSIZE pa" by (auto simp: in_range_nat PGSIZE_def)
  qed
  moreover have "same_page 2 0x10000 0x10000" "same_page 2 0x10000 0x10001" "same_page 2 0x10000 0x10002"
    unfolding same_page_2 by code_simp+
  then have "user_addrs ?pm 0x10000 3 = Some [0x87000000, 0x87000001, 0x87000002]"
    by (simp add: numeral_3_eq_3 tr)
  moreover have "pt_wf (mem demo_user) 2 0x80005000" using ps by (simp add: vm_inv_def)
  ultimately show ?thesis by blast
qed

theorem copyout_copyin_roundtrip_witness:
  "\<exists>s'. copyout 0x80005000 0x10000 [7, 0, 9] demo_user = (Inr 0, s') \<and>
    copyin_loop (mem s') 0x80005000 0x10000 3 = (0, [7, 0])"
  using copyout_copyin_roundtrip [of demo_user "0x80005000" "0x10000" "[7, 0, 9]" "[0x87000000, 0x87000001, 0x87000002]"]
    demo_user_facts
  by (auto simp: numeral_3_eq_3 simp del: copyout.simps copyin_loop.simps user_bytes_simps user_addrs.simps)

text \<open>\<^verbatim>\<open>copyinstr\<close> fetches a string: if the running process has a NUL-terminated string mapped at
  the address and it fits the limit, the result is 0 and exactly the string with its NUL.\<close>

theorem copyinstr_fetches_string:
  assumes "current_proc s = Some p" and "pt_wf (mem s) 2 (pagetable (proc_table s p))"
    and "nonnull_map (pt_map (mem s) 2 (pagetable (proc_table s p)))"
    and "user_bytes (mem s) (pt_map (mem s) 2 (pagetable (proc_table s p))) va (length xs + 1) = Some (xs @ [0])"
    and "0 \<notin> set xs" and "int (length xs) < maxlen"
  shows "copyinstr pt va maxlen s = (Inr (0, xs @ [0]), s)"
  using copyinstr_loop_string [OF assms(2,1,3), of va xs "nat maxlen" "[]"] assms(4-6)
  by (simp add: copyinstr_def del: user_bytes_simps)

definition demo_str :: kpm where
  "demo_str = demo_user\<lparr>current_proc := Some 0,
     proc_table := (\<lambda>_. idle_proc\<lparr>pagetable := 0x80005000\<rparr>),
     mem := write_at (mem demo_user) [0x87000000, 0x87000001, 0x87000002] [104, 105, 0]\<rparr>"

lemma demo_str_facts:
  "pt_wf (mem demo_str) 2 0x80005000 \<and> nonnull_map (pt_map (mem demo_str) 2 0x80005000) \<and>
   frames_apart (mem demo_str) 0x80005000 \<and>
   user_addrs (pt_map (mem demo_str) 2 0x80005000) 0x10000 3 = Some [0x87000000, 0x87000001, 0x87000002] \<and>
   user_bytes (mem demo_str) (pt_map (mem demo_str) 2 0x80005000) 0x10000 3 = Some [104, 105, 0]"
proof -
  let ?m = "write_at (mem demo_user) [0x87000000, 0x87000001, 0x87000002] [104, 105, 0]"
  have m: "pt_wf ?m 2 0x80005000" "pt_map ?m 2 0x80005000 = pt_map (mem demo_user) 2 0x80005000"
      "pt_tabs ?m 2 0x80005000 = pt_tabs (mem demo_user) 2 0x80005000"
    using copyout_run [of demo_user "0x80005000" "0x10000" "[104, 105, 0]"] demo_user_facts
    by (simp_all add: numeral_3_eq_3 del: user_addrs.simps)
  have "mem demo_str = ?m" by (simp add: demo_str_def)
  then show ?thesis
    using m demo_user_facts
    by (simp add: frames_apart_def user_bytes_def del: user_bytes_simps user_addrs.simps)
qed

theorem copyinstr_fetches_string_witness:
  "copyinstr 0 0x10000 128 demo_str = (Inr (0, [104, 105] @ [0]), demo_str)"
proof (rule copyinstr_fetches_string)
  have p: "pagetable (proc_table demo_str 0) = 0x80005000" by (simp add: demo_str_def)
  show "current_proc demo_str = Some 0" by (simp add: demo_str_def)
  show "pt_wf (mem demo_str) 2 (pagetable (proc_table demo_str 0))"
    "nonnull_map (pt_map (mem demo_str) 2 (pagetable (proc_table demo_str 0)))"
    using demo_str_facts by (simp_all add: p)
  show "user_bytes (mem demo_str) (pt_map (mem demo_str) 2 (pagetable (proc_table demo_str 0))) 0x10000
      (length [104, 105 :: u8] + 1) = Some ([104, 105] @ [0])"
    using demo_str_facts by (simp add: p numeral_3_eq_3 del: user_bytes_simps)
qed simp_all

text \<open>C20. \<^verbatim>\<open>check_user_addr\<close> and its guarantee: for a size that does not wrap around, acceptance means
  that the whole range lies in the text and data area, in the heap, or in the stack. A size that
  is negative as an \<^verbatim>\<open>int\<close>, such as \<open>- 4096\<close>, wraps and is accepted.\<close>

theorem check_user_addr_one_region:
  "(check_user_addr a sz w = 0 \<and> 0 < sz \<and> unat a + unat sz \<le> 2 ^ 64 \<longrightarrow>
     (\<forall>i < sz. USER_TEXT_START \<le> a + i \<and> a + i < USER_HEAP_START) \<or>
     (\<forall>i < sz. IS_USER_HEAP (a + i)) \<or> (\<forall>i < sz. IS_USER_STACK (a + i))) \<and>
   check_user_addr 0x20000 (- 4096) w = 0"
proof (intro conjI impI)
  assume A: "check_user_addr a sz w = 0 \<and> 0 < sz \<and> unat a + unat sz \<le> 2 ^ 64"
  have sz: "0 < unat sz" using A by (simp add: word_less_nat_alt)
  have add: "unat (a + i) = unat a + unat i" if "i < sz" for i
    using A that by (subst unat_plus_nowrap) (simp_all add: word_less_nat_alt)
  have last: "unat (a + sz - 1) = unat a + unat sz - 1"
  proof -
    have "unat (sz - 1) = unat sz - 1" using sz by (simp add: unat_minus_wrap)
    then show ?thesis using add [of "sz - 1"] sz by (simp add: word_less_nat_alt add_diff_eq)
  qed
  have "IS_USER_ADDR a" "IS_USER_ADDR (a + sz - 1)"
    using A by (auto simp: check_user_addr_def split: if_splits)
  then have end_: "unat a + unat sz \<le> 0x8000000000" "0x10000 \<le> unat a"
    using last sz by (auto simp: IS_USER_ADDR_def MAXVA_def USER_TEXT_START_def word_le_nat_alt word_less_nat_alt)
  then have end2: "unat (a + sz) = unat a + unat sz" by (subst unat_plus_nowrap) simp_all
  consider "IS_USER_STACK a \<and> IS_USER_STACK (a + sz - 1)" | "IS_USER_HEAP a \<and> IS_USER_HEAP (a + sz - 1)"
    | "a + sz \<le> USER_HEAP_START"
    using A by (auto simp: check_user_addr_def not_less split: if_splits)
  then show "(\<forall>i < sz. USER_TEXT_START \<le> a + i \<and> a + i < USER_HEAP_START) \<or>
     (\<forall>i < sz. IS_USER_HEAP (a + i)) \<or> (\<forall>i < sz. IS_USER_STACK (a + i))"
  proof cases
    case 1
    then have "\<forall>i < sz. IS_USER_STACK (a + i)"
      using add last by (auto simp: IS_USER_STACK_def word_le_nat_alt word_less_nat_alt)
    then show ?thesis by blast
  next
    case 2
    then have "\<forall>i < sz. IS_USER_HEAP (a + i)"
      using add last by (auto simp: IS_USER_HEAP_def word_le_nat_alt word_less_nat_alt)
    then show ?thesis by blast
  next
    case 3
    then have "\<forall>i < sz. USER_TEXT_START \<le> a + i \<and> a + i < USER_HEAP_START"
      using add end_ end2 by (auto simp: USER_TEXT_START_def word_le_nat_alt word_less_nat_alt)
    then show ?thesis by blast
  qed
next
  show "check_user_addr 0x20000 (- 4096) w = 0" by (cases w) code_simp+
qed

theorem check_user_addr_one_region_witness:
  "((USER_TEXT_START \<le> 0x20000 + 63 \<and> 0x20000 + 63 < USER_HEAP_START) \<or> IS_USER_HEAP (0x20000 + 63) \<or>
     IS_USER_STACK (0x20000 + 63)) \<and> check_user_addr 0x20000 (- 4096) True = 0"
proof -
  have "check_user_addr 0x20000 64 True = 0" by code_simp
  moreover have "(63 :: u64) < 64" "(0 :: u64) < 64" "unat (0x20000 :: u64) + unat (64 :: u64) \<le> 2 ^ 64" by simp_all
  ultimately show ?thesis using check_user_addr_one_region [of "0x20000" 64 True] by blast
qed

end
