(* ===== verification/Locks.thy ===== *)
theory Locks
  imports Sched
begin

text \<open>
  Spin locks and sleep locks, \<^verbatim>\<open>kernel/spinlock.c\<close> and \<^verbatim>\<open>kernel/sleeplock.c\<close>, and \<^verbatim>\<open>sleep\<close> of
  \<^verbatim>\<open>kernel/proc.c\<close> with its lock argument. A lock lives in some cell of the kernel state; the
  operations take the cell as a reader \<open>g\<close> and an updater \<open>u\<close>, in the form of a record field's
  selector and update function. The locales \<open>lock_cell\<close> and \<open>sleep_cell\<close> say what a cell is and
  carry the lemmas; every lock of the kernel is an interpretation.
\<close>

section \<open>Spin locks\<close>

record spinlock =
  locked :: bool
  lname :: string
  lpid :: int

definition initlock :: "((spinlock \<Rightarrow> spinlock) \<Rightarrow> 's \<Rightarrow> 's) \<Rightarrow> string \<Rightarrow> ('s, unit) km" where
  "initlock u name = kmod (u (\<lambda>_. \<lparr>locked = False, lname = name, lpid = - 1\<rparr>))"

text \<open>A lock that is already held makes the caller print a warning, which dereferences the
  current process, and then spin.\<close>

definition acquire ::
  "(('a) kcore_scheme \<Rightarrow> spinlock) \<Rightarrow> ((spinlock \<Rightarrow> spinlock) \<Rightarrow> ('a) kcore_scheme \<Rightarrow> ('a) kcore_scheme)
     \<Rightarrow> (('a) kcore_scheme, unit) km" where
  "acquire g u = kbind (kget g) (\<lambda>l.
     if locked l then kbind myproc (\<lambda>_. kstop (Spin (lname l)))
     else kseq (kmod (u (\<lambda>l. l\<lparr>locked := True\<rparr>)))
       (kbind mypid (\<lambda>p. kmod (u (\<lambda>l. l\<lparr>lpid := p\<rparr>)))))"

definition release ::
  "(('a) kcore_scheme \<Rightarrow> spinlock) \<Rightarrow> ((spinlock \<Rightarrow> spinlock) \<Rightarrow> ('a) kcore_scheme \<Rightarrow> ('a) kcore_scheme)
     \<Rightarrow> (('a) kcore_scheme, unit) km" where
  "release g u = kbind (kget g) (\<lambda>l.
     if \<not> locked l then kbind myproc (\<lambda>_. kret ())
     else kmod (u (\<lambda>l. l\<lparr>locked := False, lpid := - 1\<rparr>)))"

definition holding :: "('s \<Rightarrow> spinlock) \<Rightarrow> ('s, bool) km" where
  "holding g = kget (\<lambda>s. locked (g s))"

text \<open>\<^verbatim>\<open>sleep(chan, lk)\<close> up to its \<^verbatim>\<open>swtch\<close>, and what it does when it is switched back in.\<close>

definition sleep ::
  "chan \<Rightarrow> (('a) kcore_scheme \<Rightarrow> spinlock) \<Rightarrow> ((spinlock \<Rightarrow> spinlock) \<Rightarrow> ('a) kcore_scheme \<Rightarrow> ('a) kcore_scheme)
     \<Rightarrow> (('a) kcore_scheme, 'b) km" where
  "sleep ch g u = kbind (sleep_enter ch) (\<lambda>p.
     kbind (kget g) (\<lambda>l. kseq (if locked l then release g u else kret ())
       (kseq intr_on (kstop (Asleep ch)))))"

definition sleep_resume ::
  "nat \<Rightarrow> (('a) kcore_scheme \<Rightarrow> spinlock) \<Rightarrow> ((spinlock \<Rightarrow> spinlock) \<Rightarrow> ('a) kcore_scheme \<Rightarrow> ('a) kcore_scheme)
     \<Rightarrow> (('a) kcore_scheme, unit) km" where
  "sleep_resume p g u = kseq (sleep_leave p) (kseq (acquire g u) (check_killed p))"

text \<open>\<^verbatim>\<open>sleep(chan, NULL)\<close>.\<close>

definition sleep_nolock :: "chan \<Rightarrow> (('a) kcore_scheme, 'b) km" where
  "sleep_nolock ch = kbind (sleep_enter ch) (\<lambda>p. kseq intr_on (kstop (Asleep ch)))"

definition sleep_nolock_resume :: "nat \<Rightarrow> (('a) kcore_scheme, unit) km" where
  "sleep_nolock_resume p = kseq (sleep_leave p) (check_killed p)"

section \<open>Sleep locks\<close>

record sleeplock =
  slocked :: bool
  slk :: spinlock
  sname :: string
  spid :: int

text \<open>The spin lock inside a sleep lock's cell.\<close>

abbreviation inner_g :: "('s \<Rightarrow> sleeplock) \<Rightarrow> 's \<Rightarrow> spinlock" where
  "inner_g g \<equiv> (\<lambda>s. slk (g s))"

abbreviation inner_u :: "((sleeplock \<Rightarrow> sleeplock) \<Rightarrow> 's \<Rightarrow> 's) \<Rightarrow> (spinlock \<Rightarrow> spinlock) \<Rightarrow> 's \<Rightarrow> 's" where
  "inner_u u \<equiv> (\<lambda>f. u (slk_update f))"

definition initsleeplock :: "((sleeplock \<Rightarrow> sleeplock) \<Rightarrow> 's \<Rightarrow> 's) \<Rightarrow> string \<Rightarrow> ('s, unit) km" where
  "initsleeplock u name = kseq (initlock (inner_u u) ''sleep lock'')
     (kmod (u (\<lambda>l. l\<lparr>sname := name, slocked := False, spid := 0\<rparr>)))"

text \<open>The loop of \<^verbatim>\<open>acquiresleep\<close> and what follows it; it runs again when the sleeper wakes.\<close>

definition acquiresleep_wait ::
  "chan \<Rightarrow> (('a) kcore_scheme \<Rightarrow> sleeplock) \<Rightarrow> ((sleeplock \<Rightarrow> sleeplock) \<Rightarrow> ('a) kcore_scheme \<Rightarrow> ('a) kcore_scheme)
     \<Rightarrow> (('a) kcore_scheme, unit) km" where
  "acquiresleep_wait ch g u = kbind (kget g) (\<lambda>l.
     if slocked l then sleep ch (inner_g g) (inner_u u)
     else kseq (kmod (u (\<lambda>l. l\<lparr>slocked := True\<rparr>)))
       (kseq (kbind mypid (\<lambda>p. kmod (u (\<lambda>l. l\<lparr>spid := p\<rparr>))))
         (release (inner_g g) (inner_u u))))"

definition acquiresleep ::
  "chan \<Rightarrow> (('a) kcore_scheme \<Rightarrow> sleeplock) \<Rightarrow> ((sleeplock \<Rightarrow> sleeplock) \<Rightarrow> ('a) kcore_scheme \<Rightarrow> ('a) kcore_scheme)
     \<Rightarrow> (('a) kcore_scheme, unit) km" where
  "acquiresleep ch g u = kseq (acquire (inner_g g) (inner_u u))
     (kbind (kget g) (\<lambda>l. kbind mypid (\<lambda>me.
       if slocked l \<and> spid l = me
       then kseq (release (inner_g g) (inner_u u)) (panic ''acquiresleep: recursive lock'')
       else acquiresleep_wait ch g u)))"

definition acquiresleep_resume ::
  "nat \<Rightarrow> chan \<Rightarrow> (('a) kcore_scheme \<Rightarrow> sleeplock) \<Rightarrow> ((sleeplock \<Rightarrow> sleeplock) \<Rightarrow> ('a) kcore_scheme \<Rightarrow> ('a) kcore_scheme)
     \<Rightarrow> (('a) kcore_scheme, unit) km" where
  "acquiresleep_resume p ch g u =
     kseq (sleep_resume p (inner_g g) (inner_u u)) (acquiresleep_wait ch g u)"

definition releasesleep ::
  "chan \<Rightarrow> (('a) kcore_scheme \<Rightarrow> sleeplock) \<Rightarrow> ((sleeplock \<Rightarrow> sleeplock) \<Rightarrow> ('a) kcore_scheme \<Rightarrow> ('a) kcore_scheme)
     \<Rightarrow> (('a) kcore_scheme, unit) km" where
  "releasesleep ch g u = kseq (acquire (inner_g g) (inner_u u))
     (kbind (kget g) (\<lambda>l. kbind mypid (\<lambda>me.
       if \<not> slocked l
       then kseq (release (inner_g g) (inner_u u)) (panic ''releasesleep: lock not held'')
       else if spid l \<noteq> me
       then kseq (release (inner_g g) (inner_u u)) (panic ''releasesleep: not lock owner'')
       else kseq (kmod (u (\<lambda>l. l\<lparr>slocked := False, spid := 0\<rparr>)))
         (kseq (wakeup ch) (release (inner_g g) (inner_u u))))))"

definition holdingsleep ::
  "(('a) kcore_scheme \<Rightarrow> sleeplock) \<Rightarrow> ((sleeplock \<Rightarrow> sleeplock) \<Rightarrow> ('a) kcore_scheme \<Rightarrow> ('a) kcore_scheme)
     \<Rightarrow> (('a) kcore_scheme, bool) km" where
  "holdingsleep g u = kseq (acquire (inner_g g) (inner_u u))
     (kbind (kget g) (\<lambda>l. kbind mypid (\<lambda>me.
       kseq (release (inner_g g) (inner_u u)) (kret (slocked l \<and> spid l = me)))))"

section \<open>Threads that use one sleep lock\<close>

text \<open>
  Where a process stands with respect to a sleep lock: outside, asleep in \<^verbatim>\<open>acquiresleep\<close>, or
  inside the critical section. A step is a complete run of a lock operation by the current
  process up to the point where it returns, sleeps or exits; between the steps the scheduler
  may change everything but the lock cell and the process identifiers.
\<close>

datatype sl_pc = Outside | Waiting | Inside | Exited

abbreviation same_pids :: "('a) kcore_scheme \<Rightarrow> ('a) kcore_scheme \<Rightarrow> bool" where
  "same_pids s s' \<equiv> (\<forall>i. pid (proc_table s' i) = pid (proc_table s i))"

inductive sl_step ::
  "chan \<Rightarrow> (('a) kcore_scheme \<Rightarrow> sleeplock) \<Rightarrow> ((sleeplock \<Rightarrow> sleeplock) \<Rightarrow> ('a) kcore_scheme \<Rightarrow> ('a) kcore_scheme)
     \<Rightarrow> (nat \<Rightarrow> sl_pc) \<times> ('a) kcore_scheme \<Rightarrow> (nat \<Rightarrow> sl_pc) \<times> ('a) kcore_scheme \<Rightarrow> bool"
  for ch g u where
  enter: "current_proc s = Some p \<Longrightarrow> p < PROC \<Longrightarrow> pc p = Outside \<Longrightarrow> acquiresleep ch g u s = (Inr (), s') \<Longrightarrow>
     sl_step ch g u (pc, s) (pc(p := Inside), s')"
| block: "current_proc s = Some p \<Longrightarrow> pc p = Outside \<Longrightarrow> acquiresleep ch g u s = (Inl (Asleep c), s') \<Longrightarrow>
     sl_step ch g u (pc, s) (pc(p := Waiting), s')"
| resume: "current_proc s = Some p \<Longrightarrow> p < PROC \<Longrightarrow> pc p = Waiting \<Longrightarrow> acquiresleep_resume p ch g u s = (Inr (), s') \<Longrightarrow>
     sl_step ch g u (pc, s) (pc(p := Inside), s')"
| block_again: "current_proc s = Some p \<Longrightarrow> pc p = Waiting \<Longrightarrow>
     acquiresleep_resume p ch g u s = (Inl (Asleep c), s') \<Longrightarrow> sl_step ch g u (pc, s) (pc, s')"
| killed: "current_proc s = Some p \<Longrightarrow> pc p = Waiting \<Longrightarrow>
     acquiresleep_resume p ch g u s = (Inl (ExitProc st), s') \<Longrightarrow>
     sl_step ch g u (pc, s) (pc(p := Exited), s')"
| leave: "current_proc s = Some p \<Longrightarrow> pc p = Inside \<Longrightarrow> releasesleep ch g u s = (Inr (), s') \<Longrightarrow>
     sl_step ch g u (pc, s) (pc(p := Outside), s')"
| schedule: "g s' = g s \<Longrightarrow> same_pids s s' \<Longrightarrow> sl_step ch g u (pc, s) (pc, s')"

inductive sl_reach ::
  "chan \<Rightarrow> (('a) kcore_scheme \<Rightarrow> sleeplock) \<Rightarrow> ((sleeplock \<Rightarrow> sleeplock) \<Rightarrow> ('a) kcore_scheme \<Rightarrow> ('a) kcore_scheme)
     \<Rightarrow> (nat \<Rightarrow> sl_pc) \<times> ('a) kcore_scheme \<Rightarrow> bool"
  for ch g u where
  start: "\<not> slocked (g s) \<Longrightarrow> inj_on (\<lambda>i. pid (proc_table s i)) {..<PROC} \<Longrightarrow>
     (\<forall>i. pc i \<noteq> Inside) \<Longrightarrow> sl_reach ch g u (pc, s)"
| step: "sl_reach ch g u c \<Longrightarrow> sl_step ch g u c c' \<Longrightarrow> sl_reach ch g u c'"

definition sl_inv :: "(('a) kcore_scheme \<Rightarrow> sleeplock) \<Rightarrow> (nat \<Rightarrow> sl_pc) \<times> ('a) kcore_scheme \<Rightarrow> bool" where
  "sl_inv g c \<longleftrightarrow> (case c of (pc, s) \<Rightarrow> inj_on (\<lambda>i. pid (proc_table s i)) {..<PROC} \<and>
     (\<forall>p. pc p = Inside \<longrightarrow> p < PROC \<and> slocked (g s) \<and> spid (g s) = pid (proc_table s p)) \<and>
     (slocked (g s) \<longrightarrow> (\<exists>p. pc p = Inside)))"

section \<open>Cells\<close>

locale lock_cell =
  fixes g :: "('a) kcore_scheme \<Rightarrow> spinlock"
    and u :: "(spinlock \<Rightarrow> spinlock) \<Rightarrow> ('a) kcore_scheme \<Rightarrow> ('a) kcore_scheme"
  assumes get_upd [simp]: "g (u f s) = f (g s)"
    and upd_upd [simp]: "u f (u h s) = u (\<lambda>l. f (h l)) s"
    and upd_same: "f (g s) = g s \<Longrightarrow> u f s = s"
    and upd_cur [simp]: "current_proc (u f s) = current_proc s"
    and upd_tab [simp]: "proc_table (u f s) = proc_table s"
begin

lemma acquire_free:
  assumes "\<not> locked (g s)" and "current_proc s = Some p"
  shows "acquire g u s = (Inr (), u (\<lambda>l. l\<lparr>locked := True, lpid := pid (proc_table s p)\<rparr>) s)"
  using assms by (simp add: acquire_def mypid_def myproc_def)

lemma acquire_held:
  assumes "locked (g s)" and "current_proc s = Some p"
  shows "acquire g u s = (Inl (Spin (lname (g s))), s)"
  using assms by (simp add: acquire_def myproc_def)

lemma acquire_no_process:
  assumes "current_proc s = None"
  shows "fst (acquire g u s) = Inl NullDeref"
  using assms by (simp add: acquire_def mypid_def myproc_def kbind_def)

lemma release_held:
  "locked (g s) \<Longrightarrow> release g u s = (Inr (), u (\<lambda>l. l\<lparr>locked := False, lpid := - 1\<rparr>) s)"
  by (simp add: release_def)

text \<open>A critical section that does nothing restores the state, if the lock was free.\<close>

lemma acquire_release:
  assumes "\<not> locked (g s)" and "lpid (g s) = - 1" and "current_proc s = Some p"
  shows "kseq (acquire g u) (release g u) s = (Inr (), s)"
proof -
  have "u (\<lambda>l. l\<lparr>locked := False, lpid := - 1\<rparr>) s = s"
    by (rule upd_same) (use assms in simp)
  then show ?thesis using acquire_free [OF assms(1,3)] by (simp add: release_held)
qed

end

locale sleep_cell =
  fixes g :: "('a) kcore_scheme \<Rightarrow> sleeplock"
    and u :: "(sleeplock \<Rightarrow> sleeplock) \<Rightarrow> ('a) kcore_scheme \<Rightarrow> ('a) kcore_scheme"
  assumes sget_upd [simp]: "g (u f s) = f (g s)"
    and supd_upd [simp]: "u f (u h s) = u (\<lambda>l. f (h l)) s"
    and supd_same: "f (g s) = g s \<Longrightarrow> u f s = s"
    and supd_cur [simp]: "current_proc (u f s) = current_proc s"
    and supd_tab [simp]: "proc_table (u f s) = proc_table s"
    and sget_tab [simp]: "g (s\<lparr>proc_table := t\<rparr>) = g s"
    and sget_sie [simp]: "g (s\<lparr>sie := b\<rparr>) = g s"
    and supd_tab_comm: "u f (s\<lparr>proc_table := t\<rparr>) = (u f s)\<lparr>proc_table := t\<rparr>"
    and supd_sie_comm: "u f (s\<lparr>sie := b\<rparr>) = (u f s)\<lparr>sie := b\<rparr>"
begin

sublocale inner: lock_cell "inner_g g" "inner_u u"
proof
  fix f s assume "f (inner_g g s) = inner_g g s"
  then show "inner_u u f s = s" by (intro supd_same) simp
qed (simp_all add: comp_def)

text \<open>What a completed lock operation says about the lock before and after it.\<close>

lemma acquire_inner_Inr:
  assumes "acquire (inner_g g) (inner_u u) s = (Inr (), s')"
  shows "\<exists>p. current_proc s = Some p \<and> \<not> locked (slk (g s)) \<and>
    s' = u (slk_update (\<lambda>l. l\<lparr>locked := True, lpid := pid (proc_table s p)\<rparr>)) s"
proof (cases "current_proc s")
  case None
  then show ?thesis using inner.acquire_no_process [OF None] assms by simp
next
  case (Some p)
  then show ?thesis
    using inner.acquire_free [of s p] inner.acquire_held [of s p] assms
    by (cases "locked (slk (g s))") auto
qed

lemma acquiresleep_wait_Inr:
  assumes "acquiresleep_wait ch g u s = (Inr (), s')"
  shows "\<exists>p. current_proc s = Some p \<and> \<not> slocked (g s) \<and> slocked (g s') \<and>
    spid (g s') = pid (proc_table s p) \<and> same_pids s s'"
  using assms
  by (auto simp: acquiresleep_wait_def kbind_Inr_iff kseq_Inr_iff sleep_def mypid_def myproc_def release_def
      split: if_splits option.splits)

lemma sleep_pids:
  assumes "sleep ch (inner_g g) (inner_u u) s = (r, s')"
  shows "slocked (g s') = slocked (g s) \<and> spid (g s') = spid (g s) \<and> same_pids s s'"
proof (cases "current_proc s")
  case None
  then show ?thesis
    using assms by (auto simp: sleep_def sleep_enter_def intr_off_def myproc_def)
next
  case (Some p)
  then show ?thesis
    using assms
    by (auto simp: sleep_def sleep_enter_def intr_off_def intr_on_def myproc_def release_def upd_proc_def
        split: if_splits)
qed

lemma acquiresleep_wait_Asleep:
  assumes "acquiresleep_wait ch g u s = (Inl (Asleep c), s')" and "current_proc s = Some p"
  shows "slocked (g s') = slocked (g s) \<and> spid (g s') = spid (g s) \<and> same_pids s s'"
  using assms sleep_pids [of ch s]
  by (auto simp: acquiresleep_wait_def mypid_def myproc_def release_def split: if_splits)

lemma acquiresleep_Inr:
  assumes "acquiresleep ch g u s = (Inr (), s')"
  shows "\<exists>p. current_proc s = Some p \<and> \<not> slocked (g s) \<and> slocked (g s') \<and>
    spid (g s') = pid (proc_table s p) \<and> same_pids s s'"
proof -
  obtain s1 where s1: "acquire (inner_g g) (inner_u u) s = (Inr (), s1)" "acquiresleep_wait ch g u s1 = (Inr (), s')"
    using assms
    by (auto simp: acquiresleep_def kseq_Inr_iff kbind_Inr_iff mypid_def myproc_def split: if_splits option.splits)
  then show ?thesis
    using acquire_inner_Inr [OF s1(1)] acquiresleep_wait_Inr [OF s1(2)] by auto
qed

lemma acquiresleep_Asleep:
  assumes "acquiresleep ch g u s = (Inl (Asleep c), s')" and "current_proc s = Some p"
  shows "slocked (g s') = slocked (g s) \<and> spid (g s') = spid (g s) \<and> same_pids s s'"
proof -
  have "\<not> locked (slk (g s))" using assms inner.acquire_held by (auto simp: acquiresleep_def)
  then obtain s1 where s1: "acquire (inner_g g) (inner_u u) s = (Inr (), s1)"
      "s1 = u (slk_update (\<lambda>l. l\<lparr>locked := True, lpid := pid (proc_table s p)\<rparr>)) s"
    using inner.acquire_free [of s p] assms(2) by simp
  then have "acquiresleep_wait ch g u s1 = (Inl (Asleep c), s')"
    using assms by (auto simp: acquiresleep_def mypid_def myproc_def release_def split: if_splits)
  then show ?thesis using acquiresleep_wait_Asleep [of ch s1 c s' p] s1(2) assms(2) by simp
qed

lemma sleep_resume_run:
  assumes "current_proc s = Some p" and "sleep_resume p (inner_g g) (inner_u u) s = (r, s1)"
  shows "slocked (g s1) = slocked (g s) \<and> spid (g s1) = spid (g s) \<and> same_pids s s1 \<and>
    current_proc s1 = Some p \<and> (\<forall>c. r \<noteq> Inl (Asleep c))"
proof (cases "locked (slk (g s))")
  case True
  then show ?thesis
    using assms inner.acquire_held [of "upd_proc p (\<lambda>q. q\<lparr>pchan := None\<rparr>) s" p]
    by (auto simp: sleep_resume_def sleep_leave_def upd_proc_def)
next
  case False
  then show ?thesis
    using assms inner.acquire_free [of "upd_proc p (\<lambda>q. q\<lparr>pchan := None\<rparr>) s" p]
    by (auto simp: sleep_resume_def sleep_leave_def upd_proc_def check_killed_def split: if_splits)
qed

lemma releasesleep_Inr:
  assumes "releasesleep ch g u s = (Inr (), s')"
  shows "\<exists>p. current_proc s = Some p \<and> slocked (g s) \<and> spid (g s) = pid (proc_table s p) \<and>
    \<not> slocked (g s') \<and> same_pids s s'"
proof -
  obtain s1 where s1: "acquire (inner_g g) (inner_u u) s = (Inr (), s1)"
    using assms by (auto simp: releasesleep_def kseq_Inr_iff)
  obtain p where p: "current_proc s = Some p"
      "s1 = u (slk_update (\<lambda>l. l\<lparr>locked := True, lpid := pid (proc_table s p)\<rparr>)) s"
    using acquire_inner_Inr [OF s1] by blast
  then show ?thesis
    using assms s1
    by (auto simp: releasesleep_def mypid_def myproc_def release_def wakeup_run kseq_Inr_iff split: if_splits)
qed

lemma acquiresleep_resume_Inr:
  assumes "acquiresleep_resume p ch g u s = (Inr (), s')" and "current_proc s = Some p"
  shows "\<not> slocked (g s) \<and> slocked (g s') \<and> spid (g s') = pid (proc_table s p) \<and> same_pids s s'"
proof -
  obtain s1 where s1: "sleep_resume p (inner_g g) (inner_u u) s = (Inr (), s1)" "acquiresleep_wait ch g u s1 = (Inr (), s')"
    using assms(1) by (auto simp: acquiresleep_resume_def kseq_Inr_iff)
  then show ?thesis
    using sleep_resume_run [OF assms(2) s1(1)] acquiresleep_wait_Inr [OF s1(2)] by auto
qed

lemma acquiresleep_resume_Inl:
  assumes "acquiresleep_resume p ch g u s = (Inl e, s')" and "current_proc s = Some p"
    and "e = Asleep c \<or> e = ExitProc st"
  shows "slocked (g s') = slocked (g s) \<and> spid (g s') = spid (g s) \<and> same_pids s s'"
proof -
  obtain r s1 where s1: "sleep_resume p (inner_g g) (inner_u u) s = (r, s1)" by (cases "sleep_resume p (inner_g g) (inner_u u) s")
  note run = sleep_resume_run [OF assms(2) s1]
  show ?thesis
  proof (cases r)
    case (Inl e')
    then show ?thesis using assms(1) s1 run by (auto simp: acquiresleep_resume_def)
  next
    case (Inr x)
    then have w: "acquiresleep_wait ch g u s1 = (Inl e, s')" using assms(1) s1 by (simp add: acquiresleep_resume_def)
    have "e \<noteq> ExitProc st"
      using w run
      by (auto simp: acquiresleep_wait_def sleep_def sleep_enter_def intr_off_def intr_on_def mypid_def myproc_def
          release_def split: if_splits)
    then show ?thesis using acquiresleep_wait_Asleep [of ch s1 c s' p] w run assms(3) by auto
  qed
qed

lemma sl_inv_keep:
  assumes "sl_inv g (pc, s)" and "slocked (g s') = slocked (g s) \<and> spid (g s') = spid (g s) \<and> same_pids s s'"
    and "pc p \<noteq> Inside" and "x \<noteq> Inside"
  shows "sl_inv g (pc(p := x), s') \<and> sl_inv g (pc, s')"
proof -
  have "\<exists>q. (pc(p := x)) q = Inside" if "\<exists>q. pc q = Inside" using that assms(3) by (metis fun_upd_other)
  then show ?thesis using assms by (simp add: sl_inv_def)
qed

lemma sl_inv_unique:
  assumes "sl_inv g (pc, s)" and "pc p = Inside" and "pc q = Inside"
  shows "p = q"
proof (rule inj_onD)
  show "inj_on (\<lambda>i. pid (proc_table s i)) {..<PROC}" using assms(1) by (simp add: sl_inv_def)
  have "\<forall>p. pc p = Inside \<longrightarrow> spid (g s) = pid (proc_table s p)" using assms(1) by (simp add: sl_inv_def)
  then have "spid (g s) = pid (proc_table s p)" "spid (g s) = pid (proc_table s q)" using assms(2,3) by blast+
  then show "pid (proc_table s p) = pid (proc_table s q)" by simp
qed (use assms in \<open>auto simp: sl_inv_def\<close>)

lemma sl_step_inv: "sl_step ch g u c c' \<Longrightarrow> sl_inv g c \<Longrightarrow> sl_inv g c'"
proof (induction rule: sl_step.induct)
  case (enter s p pc s')
  then show ?case using acquiresleep_Inr [OF enter(4)] by (auto simp: sl_inv_def)
next
  case (block s p pc c s')
  then show ?case using sl_inv_keep [OF block(4) acquiresleep_Asleep [OF block(3,1)], of p] by simp
next
  case (resume s p pc s')
  then show ?case using acquiresleep_resume_Inr [OF resume(4,1)] by (auto simp: sl_inv_def)
next
  case (block_again s p pc c s')
  then have "slocked (g s') = slocked (g s) \<and> spid (g s') = spid (g s) \<and> same_pids s s'"
    using acquiresleep_resume_Inl [OF block_again(3,1)] by blast
  then show ?case using sl_inv_keep [OF block_again(4), of s' p Waiting] block_again(2) by simp
next
  case (killed s p pc st s')
  then have "slocked (g s') = slocked (g s) \<and> spid (g s') = spid (g s) \<and> same_pids s s'"
    using acquiresleep_resume_Inl [OF killed(3,1)] by blast
  then show ?case using sl_inv_keep [OF killed(4), of s' p] killed(2) by simp
next
  case (leave s p pc s')
  then obtain q where q: "slocked (g s)" "\<not> slocked (g s')" "same_pids s s'"
    using releasesleep_Inr [OF leave(3)] by blast
  have "r = p" if "pc r = Inside" for r
    using sl_inv_unique [OF leave(4) that leave(2)] .
  then show ?case using leave(4) q by (auto simp: sl_inv_def)
next
  case (schedule s' s pc)
  then show ?case by (simp add: sl_inv_def)
qed

lemma sl_reach_inv: "sl_reach ch g u c \<Longrightarrow> sl_inv g c"
proof (induction rule: sl_reach.induct)
  case (start s pc)
  then show ?case by (simp add: sl_inv_def)
next
  case (step c c')
  then show ?case using sl_step_inv by blast
qed

lemma mutual_exclusion:
  assumes "sl_reach ch g u (pc, s)" and "pc p = Inside" and "pc q = Inside"
  shows "p = q"
  by (rule sl_inv_unique [OF sl_reach_inv [OF assms(1)] assms(2,3)])

text \<open>Lock and unlock with nobody else around: the lock operations of a process that holds no
  inner lock return at once.\<close>

lemma acquiresleep_free:
  assumes "\<not> slocked (g s)" and "\<not> locked (slk (g s))" and "lpid (slk (g s)) = - 1" and "current_proc s = Some p"
  shows "acquiresleep ch g u s = (Inr (), u (\<lambda>l. l\<lparr>slocked := True, spid := pid (proc_table s p)\<rparr>) s)"
proof -
  let ?h = "slk_update (\<lambda>l. l\<lparr>locked := False, lpid := - 1\<rparr>)"
  let ?f = "\<lambda>l. l\<lparr>slocked := True, spid := pid (proc_table s p)\<rparr>"
  have "acquiresleep ch g u s = (Inr (), u (\<lambda>l. ?h (?f l)) s)"
    using assms inner.acquire_free [of s p]
    by (simp add: acquiresleep_def acquiresleep_wait_def mypid_def myproc_def release_def comp_def)
  moreover have "u (\<lambda>l. ?h (?f l)) s = u ?f s"
  proof -
    have "u (\<lambda>l. ?h (?f l)) s = u (\<lambda>l. ?f (?h l)) s"
      by (rule arg_cong [where f = "\<lambda>F. u F s"], rule ext) simp
    also have "\<dots> = u ?f (u ?h s)" by (simp only: supd_upd)
    also have "u ?h s = s" by (rule supd_same) (use assms in simp)
    finally show ?thesis .
  qed
  ultimately show ?thesis by (simp only:)
qed

lemma inner_idle: "\<not> locked (slk (g s)) \<Longrightarrow> lpid (slk (g s)) = - 1 \<Longrightarrow>
    u (slk_update (\<lambda>l. l\<lparr>locked := False, lpid := - 1\<rparr>)) s = s"
  by (rule supd_same) simp

lemma releasesleep_held:
  assumes "slocked (g s)" and "spid (g s) = pid (proc_table s p)" and "\<not> locked (slk (g s))"
    and "lpid (slk (g s)) = - 1" and "current_proc s = Some p"
  shows "releasesleep ch g u s = (Inr (),
    (u (\<lambda>l. l\<lparr>slocked := False, spid := 0\<rparr>) s)\<lparr>proc_table := woken ch (proc_table s), sie := True\<rparr>)"
proof -
  let ?h = "slk_update (\<lambda>l. l\<lparr>locked := False, lpid := - 1\<rparr>)"
  let ?f = "\<lambda>l. l\<lparr>slocked := False, spid := 0\<rparr>"
  have "releasesleep ch g u s =
      (Inr (), (u (\<lambda>l. ?h (?f l)) s)\<lparr>proc_table := woken ch (proc_table s), sie := True\<rparr>)"
    using assms inner.acquire_free [of s p]
    by (simp add: releasesleep_def mypid_def myproc_def release_def comp_def wakeup_run supd_tab_comm supd_sie_comm)
  moreover have "u (\<lambda>l. ?h (?f l)) s = u ?f s"
  proof -
    have "u (\<lambda>l. ?h (?f l)) s = u (\<lambda>l. ?f (?h l)) s"
      by (rule arg_cong [where f = "\<lambda>F. u F s"], rule ext) simp
    also have "\<dots> = u ?f (u ?h s)" by (simp only: supd_upd)
    also have "u ?h s = s" by (rule inner_idle [OF assms(3,4)])
    finally show ?thesis .
  qed
  ultimately show ?thesis by (simp only:)
qed

lemma holdingsleep_run:
  assumes "\<not> locked (slk (g s))" and "lpid (slk (g s)) = - 1" and "current_proc s = Some p"
  shows "holdingsleep g u s = (Inr (slocked (g s) \<and> spid (g s) = pid (proc_table s p)), s)"
  using assms inner.acquire_free [of s p] inner_idle [of s]
  by (simp add: holdingsleep_def mypid_def myproc_def release_def comp_def)

end

end
