(* ===== verification/Pipe.thy ===== *)
theory Pipe
  imports UserMem Locks
begin

text \<open>
  Pipes, \<^verbatim>\<open>kernel/pipe.c\<close> (\<^verbatim>\<open>pipealloc\<close> is with the file table). A \<^verbatim>\<open>struct pipe\<close> occupies the page
  at its address; the structure itself is kept in the store \<open>pipes\<close>. The two counters are 32-bit
  and wrap around; the abstraction \<open>pqueue\<close> is the list of bytes in flight.
\<close>

section \<open>Structure and operations\<close>

definition PIPESIZE :: nat where
  "PIPESIZE = 512"

record pipe =
  pdata :: "nat \<Rightarrow> u8"
  nread :: u32
  nwrite :: u32
  readopen :: bool
  writeopen :: bool

record kpipe = kvm +
  pipes :: "addr \<Rightarrow> pipe"

definition upd_pipe :: "addr \<Rightarrow> (pipe \<Rightarrow> pipe) \<Rightarrow> ('a) kpipe_scheme \<Rightarrow> ('a) kpipe_scheme" where
  "upd_pipe pi f s = s\<lparr>pipes := (pipes s)(pi := f (pipes s pi))\<rparr>"

definition pipeclose :: "addr \<Rightarrow> bool \<Rightarrow> (('a) kpipe_scheme, unit) km" where
  "pipeclose pi writable =
     kseq (if writable
           then kseq (kmod (upd_pipe pi (\<lambda>p. p\<lparr>writeopen := False\<rparr>))) (wakeup (ChPipeRead pi))
           else kseq (kmod (upd_pipe pi (\<lambda>p. p\<lparr>readopen := False\<rparr>))) (wakeup (ChPipeWrite pi)))
       (kbind (kget (\<lambda>s. pipes s pi)) (\<lambda>p.
          if \<not> readopen p \<and> \<not> writeopen p then free_page pi else kret ()))"

text \<open>The loop of \<^verbatim>\<open>pipewrite\<close> from index \<open>i\<close>, with \<open>k\<close> bytes to go; a full pipe puts the writer to
  sleep, and it continues at the same index.\<close>

definition pipe_full :: "pipe \<Rightarrow> bool" where
  "pipe_full p \<longleftrightarrow> nwrite p = nread p + of_nat PIPESIZE"

definition pipe_put :: "u8 \<Rightarrow> pipe \<Rightarrow> pipe" where
  "pipe_put ch p = p\<lparr>pdata := (pdata p)(unat (nwrite p) mod PIPESIZE := ch), nwrite := nwrite p + 1\<rparr>"

fun pipewrite_loop :: "addr \<Rightarrow> u64 \<Rightarrow> nat \<Rightarrow> nat \<Rightarrow> nat \<Rightarrow> (('a) kpipe_scheme, int) km" where
  "pipewrite_loop pi a pr i 0 = kseq (wakeup (ChPipeRead pi)) (kret (int i))"
| "pipewrite_loop pi a pr i (Suc k) =
     kbind (kget (\<lambda>s. (pipes s pi, killed (proc_table s pr)))) (\<lambda>(p, kl).
       if \<not> readopen p \<or> kl then kret (- 1)
       else if pipe_full p then kseq (wakeup (ChPipeRead pi)) (sleep_nolock (ChPipeWrite pi))
       else kbind (copyin (a + of_nat i) 1) (\<lambda>(r, bs).
         if r = - 1 then kseq (wakeup (ChPipeRead pi)) (kret (int i))
         else kseq (kmod (upd_pipe pi (pipe_put (hd bs)))) (pipewrite_loop pi a pr (Suc i) k)))"

definition pipewrite :: "addr \<Rightarrow> u64 \<Rightarrow> int \<Rightarrow> (('a) kpipe_scheme, int) km" where
  "pipewrite pi a n = kbind myproc (\<lambda>pr. pipewrite_loop pi a pr 0 (nat n))"

definition pipewrite_resume :: "addr \<Rightarrow> u64 \<Rightarrow> nat \<Rightarrow> nat \<Rightarrow> nat \<Rightarrow> (('a) kpipe_scheme, int) km" where
  "pipewrite_resume pi a pr i k = kseq (sleep_nolock_resume pr) (pipewrite_loop pi a pr i k)"

definition pipe_empty :: "pipe \<Rightarrow> bool" where
  "pipe_empty p \<longleftrightarrow> nread p = nwrite p"

definition pipe_front :: "pipe \<Rightarrow> u8" where
  "pipe_front p = pdata p (unat (nread p) mod PIPESIZE)"

fun piperead_loop :: "addr \<Rightarrow> u64 \<Rightarrow> nat \<Rightarrow> nat \<Rightarrow> nat \<Rightarrow> (('a) kpipe_scheme, int) km" where
  "piperead_loop pi a pr i 0 = kseq (wakeup (ChPipeWrite pi)) (kret (int i))"
| "piperead_loop pi a pr i (Suc k) =
     kbind (kget (\<lambda>s. pipes s pi)) (\<lambda>p.
       if pipe_empty p then kseq (wakeup (ChPipeWrite pi)) (kret (int i))
       else kseq (kmod (upd_pipe pi (\<lambda>p. p\<lparr>nread := nread p + 1\<rparr>)))
         (kbind (kbind (kget (\<lambda>s. pagetable (proc_table s pr))) (\<lambda>pt. copyout pt (a + of_nat i) [pipe_front p]))
           (\<lambda>r. if r = - 1 then kseq (wakeup (ChPipeWrite pi)) (kret (int i))
                 else piperead_loop pi a pr (Suc i) k)))"

definition piperead_wait :: "addr \<Rightarrow> u64 \<Rightarrow> nat \<Rightarrow> int \<Rightarrow> (('a) kpipe_scheme, int) km" where
  "piperead_wait pi a pr n =
     kbind (kget (\<lambda>s. (pipes s pi, killed (proc_table s pr)))) (\<lambda>(p, kl).
       if pipe_empty p \<and> writeopen p
       then if kl then kret (- 1) else sleep_nolock (ChPipeRead pi)
       else piperead_loop pi a pr 0 (nat n))"

definition piperead :: "addr \<Rightarrow> u64 \<Rightarrow> int \<Rightarrow> (('a) kpipe_scheme, int) km" where
  "piperead pi a n = kbind myproc (\<lambda>pr. piperead_wait pi a pr n)"

definition piperead_resume :: "addr \<Rightarrow> u64 \<Rightarrow> nat \<Rightarrow> int \<Rightarrow> (('a) kpipe_scheme, int) km" where
  "piperead_resume pi a pr n = kseq (sleep_nolock_resume pr) (piperead_wait pi a pr n)"

section \<open>The queue of a pipe\<close>

definition plen :: "pipe \<Rightarrow> nat" where
  "plen p = unat (nwrite p - nread p)"

definition pqueue :: "pipe \<Rightarrow> u8 list" where
  "pqueue p = map (\<lambda>k. pdata p ((unat (nread p) + k) mod PIPESIZE)) [0..<plen p]"

definition pipe_ok :: "pipe \<Rightarrow> bool" where
  "pipe_ok p \<longleftrightarrow> plen p \<le> PIPESIZE"

lemma length_pqueue [simp]: "length (pqueue p) = plen p"
  by (simp add: pqueue_def)

text \<open>The counters wrap at \<open>2 ^ 32\<close>, a multiple of the buffer size.\<close>

lemma mod_512_wrap: "unat (a + b :: u32) mod PIPESIZE = (unat a + unat b) mod PIPESIZE"
  by (simp add: PIPESIZE_def unat_word_ariths mod_mod_cancel)

lemma unat_nwrite_mod: "unat (nwrite p) mod PIPESIZE = (unat (nread p) + plen p) mod PIPESIZE"
  using mod_512_wrap [of "nread p" "nwrite p - nread p"] by (simp add: plen_def)

lemma pipe_full_iff: "pipe_ok p \<Longrightarrow> pipe_full p \<longleftrightarrow> plen p = PIPESIZE"
proof -
  have "nwrite p = nread p + of_nat PIPESIZE \<longleftrightarrow> nwrite p - nread p = of_nat PIPESIZE"
    by (simp only: diff_eq_eq add.commute)
  also have "\<dots> \<longleftrightarrow> plen p = PIPESIZE" by (simp add: plen_def PIPESIZE_def word_unat_eq_iff)
  finally show ?thesis by (simp add: pipe_full_def)
qed

lemma pipe_empty_iff: "pipe_empty p \<longleftrightarrow> plen p = 0"
  by (auto simp: pipe_empty_def plen_def unat_eq_0)

lemma pipe_put_ok:
  assumes "pipe_ok p" and "plen p < PIPESIZE"
  shows "pqueue (pipe_put ch p) = pqueue p @ [ch] \<and> pipe_ok (pipe_put ch p) \<and> plen (pipe_put ch p) = Suc (plen p)"
proof -
  have "plen (pipe_put ch p) = unat (nwrite p + 1 - nread p)" by (simp add: plen_def pipe_put_def)
  also have "nwrite p + 1 - nread p = (nwrite p - nread p) + 1" by (rule diff_add_eq [symmetric])
  also have "unat \<dots> = plen p + 1"
    using assms(2) by (subst unat_plus_nowrap) (simp_all add: plen_def PIPESIZE_def)
  finally have len: "plen (pipe_put ch p) = Suc (plen p)" by simp
  have idx: "(unat (nread p) + k) mod PIPESIZE \<noteq> (unat (nread p) + plen p) mod PIPESIZE" if "k < plen p" for k
  proof
    assume "(unat (nread p) + k) mod PIPESIZE = (unat (nread p) + plen p) mod PIPESIZE"
    then have "PIPESIZE dvd (unat (nread p) + plen p) - (unat (nread p) + k)"
      using that by (intro mod_eq_dvd_iff_nat [THEN iffD1]) simp_all
    then show False using that assms(2) by (auto dest: dvd_imp_le)
  qed
  have "pqueue (pipe_put ch p) = pqueue p @ [ch]"
    using idx by (simp add: pqueue_def len, simp add: pipe_put_def unat_nwrite_mod)
  then show ?thesis using len assms by (simp add: pipe_ok_def)
qed

lemma pipe_get_ok:
  assumes "pipe_ok p" and "\<not> pipe_empty p"
  shows "pqueue p = pipe_front p # pqueue (p\<lparr>nread := nread p + 1\<rparr>) \<and> pipe_ok (p\<lparr>nread := nread p + 1\<rparr>)"
proof -
  let ?p = "p\<lparr>nread := nread p + 1\<rparr>"
  have pos: "0 < plen p" using assms(2) by (simp add: pipe_empty_iff)
  then have "nwrite p - nread p \<noteq> 0" by (auto simp: plen_def)
  then have "unat ((nwrite p - nread p) - 1) = plen p - 1" unfolding plen_def by (rule unat_minus_one)
  moreover have "plen ?p = unat ((nwrite p - nread p) - 1)" by (simp add: plen_def diff_diff_eq)
  ultimately have len: "plen p = Suc (plen ?p)" using pos by simp
  have "(unat (nread p + 1) + k) mod PIPESIZE = (unat (nread p) + Suc k) mod PIPESIZE" for k
    using mod_512_wrap [of "nread p" 1] by (metis add.assoc mod_add_left_eq plus_1_eq_Suc unat_1)
  then have "pqueue p = pipe_front p # pqueue ?p"
    by (simp add: pqueue_def len upt_conv_Cons del: upt_Suc, simp add: pipe_front_def map_Suc_upt [symmetric] del: upt_Suc)
  then show ?thesis using len assms by (simp add: pipe_ok_def)
qed

section \<open>Writing\<close>

lemma upd_pipe_simps [simp]:
  "pipes (upd_pipe pi f s) = (pipes s)(pi := f (pipes s pi))" "mem (upd_pipe pi f s) = mem s"
  "proc_table (upd_pipe pi f s) = proc_table s" "current_proc (upd_pipe pi f s) = current_proc s"
  by (simp_all add: upd_pipe_def)

text \<open>The running process has user memory that can be read.\<close>

definition user_ok :: "('a) kpm_scheme \<Rightarrow> nat \<Rightarrow> bool" where
  "user_ok s p \<longleftrightarrow> current_proc s = Some p \<and> pt_wf (mem s) 2 (pagetable (proc_table s p)) \<and>
     nonnull_map (pt_map (mem s) 2 (pagetable (proc_table s p))) \<and> \<not> killed (proc_table s p)"

abbreviation user_map :: "('a) kpm_scheme \<Rightarrow> nat \<Rightarrow> u64 \<Rightarrow> u64 option" where
  "user_map s p \<equiv> pt_map (mem s) 2 (pagetable (proc_table s p))"

lemma copyin_1:
  assumes "user_ok s p" and "user_bytes (mem s) (user_map s p) va (Suc n) = Some (b # bs)"
  shows "copyin va 1 s = (Inr (0, [b]), s) \<and> user_bytes (mem s) (user_map s p) (va + 1) n = Some bs"
proof -
  obtain pa where "translate (user_map s p) va = Some pa" "mem s pa = b"
      "user_bytes (mem s) (user_map s p) (va + 1) n = Some bs"
    using assms(2) by (auto split: option.splits)
  moreover from this have "pa \<noteq> 0" using assms(1) by (auto simp: user_ok_def nonnull_map_def)
  ultimately show ?thesis
    using assms(1) user_va2pa_eq [of "mem s" "pagetable (proc_table s p)" va]
    by (auto simp: user_ok_def copyin_def myproc_def Let_def)
qed

text \<open>The state after a write that leaves pipe \<open>pi\<close> as \<open>q\<close> and has woken the readers.\<close>

definition pipe_done :: "chan \<Rightarrow> addr \<Rightarrow> pipe \<Rightarrow> ('a) kpipe_scheme \<Rightarrow> ('a) kpipe_scheme" where
  "pipe_done ch pi q s = (upd_pipe pi (\<lambda>_. q) s)\<lparr>proc_table := woken ch (proc_table s), sie := True\<rparr>"

lemma pipe_done_upd: "pipe_done ch pi q (upd_pipe pi f s) = pipe_done ch pi q s"
  by (simp add: pipe_done_def upd_pipe_def)

lemma pipewrite_loop_run:
  assumes "user_ok s p" and "pipe_ok (pipes s pi)" and "readopen (pipes s pi)"
    and "user_bytes (mem s) (user_map s p) (a + of_nat i) (length bs) = Some bs"
    and "plen (pipes s pi) + length bs \<le> PIPESIZE"
  shows "\<exists>q. pipewrite_loop pi a p i (length bs) s = (Inr (int (i + length bs)), pipe_done (ChPipeRead pi) pi q s) \<and>
    pipe_ok q \<and> pqueue q = pqueue (pipes s pi) @ bs \<and> readopen q \<and> writeopen q = writeopen (pipes s pi)"
  using assms
proof (induction bs arbitrary: s i)
  case Nil
  then show ?case
    by (intro exI [of _ "pipes s pi"]) (simp add: wakeup_run pipe_done_def upd_pipe_def)
next
  case (Cons b bs)
  let ?p = "pipes s pi" and ?s1 = "upd_pipe pi (pipe_put b) s"
  have c: "copyin (a + of_nat i) 1 s = (Inr (0, [b]), s)"
      "user_bytes (mem s) (user_map s p) (a + of_nat (Suc i)) (length bs) = Some bs"
    using copyin_1 [OF Cons.prems(1), of "a + of_nat i" "length bs" b bs] Cons.prems(4)
    by (simp_all add: add.commute add.left_commute del: user_bytes_simps)
  have room: "plen ?p < PIPESIZE" using Cons.prems(5) by simp
  note put = pipe_put_ok [OF Cons.prems(2) room, of b]
  have "\<exists>q. pipewrite_loop pi a p (Suc i) (length bs) ?s1 =
        (Inr (int (Suc i + length bs)), pipe_done (ChPipeRead pi) pi q ?s1) \<and>
      pipe_ok q \<and> pqueue q = pqueue (pipes ?s1 pi) @ bs \<and> readopen q \<and> writeopen q = writeopen (pipes ?s1 pi)"
    using Cons.prems put c(2) by (intro Cons.IH) (simp_all add: user_ok_def pipe_put_def del: of_nat_Suc)
  moreover have "pipewrite_loop pi a p i (length (b # bs)) s = pipewrite_loop pi a p (Suc i) (length bs) ?s1"
    using Cons.prems(1-3) c(1) pipe_full_iff [OF Cons.prems(2)] room by (simp add: user_ok_def)
  ultimately show ?case using put by (auto simp: pipe_done_upd pipe_put_def)
qed

lemma pipewrite_loop_full:
  assumes "user_ok s p" and "pipe_ok (pipes s pi)" and "readopen (pipes s pi)"
    and "user_bytes (mem s) (user_map s p) (a + of_nat i) (length bs) = Some bs"
    and "PIPESIZE < plen (pipes s pi) + length bs"
  shows "\<exists>s'. pipewrite_loop pi a p i (length bs) s = (Inl (Asleep (ChPipeWrite pi)), s') \<and>
    pipe_ok (pipes s' pi) \<and> pqueue (pipes s' pi) = pqueue (pipes s pi) @ take (PIPESIZE - plen (pipes s pi)) bs \<and>
    st_of s' p = SLEEPING \<and> pchan (proc_table s' p) = Some (ChPipeWrite pi)"
  using assms
proof (induction bs arbitrary: s i)
  case Nil
  then show ?case by (simp add: pipe_ok_def)
next
  case (Cons b bs)
  let ?p = "pipes s pi" and ?s1 = "upd_pipe pi (pipe_put b) s"
  have c: "copyin (a + of_nat i) 1 s = (Inr (0, [b]), s)"
      "user_bytes (mem s) (user_map s p) (a + of_nat (Suc i)) (length bs) = Some bs"
    using copyin_1 [OF Cons.prems(1), of "a + of_nat i" "length bs" b bs] Cons.prems(4)
    by (simp_all add: add.commute add.left_commute del: user_bytes_simps)
  show ?case
  proof (cases "plen ?p = PIPESIZE")
    case True
    then show ?thesis
      using Cons.prems(1-3) pipe_full_iff [OF Cons.prems(2)]
      by (simp add: user_ok_def wakeup_run sleep_nolock_def sleep_enter_def intr_off_def intr_on_def myproc_def
          upd_proc_def)
  next
    case False
    then have room: "plen ?p < PIPESIZE" using Cons.prems(2) by (simp add: pipe_ok_def)
    note put = pipe_put_ok [OF Cons.prems(2) room, of b]
    have "\<exists>s'. pipewrite_loop pi a p (Suc i) (length bs) ?s1 = (Inl (Asleep (ChPipeWrite pi)), s') \<and>
        pipe_ok (pipes s' pi) \<and> pqueue (pipes s' pi) = pqueue (pipes ?s1 pi) @ take (PIPESIZE - plen (pipes ?s1 pi)) bs \<and>
        st_of s' p = SLEEPING \<and> pchan (proc_table s' p) = Some (ChPipeWrite pi)"
      using Cons.prems put c(2) by (intro Cons.IH) (simp_all add: user_ok_def pipe_put_def del: of_nat_Suc)
    moreover have "pipewrite_loop pi a p i (length (b # bs)) s = pipewrite_loop pi a p (Suc i) (length bs) ?s1"
      using Cons.prems(1-3) c(1) pipe_full_iff [OF Cons.prems(2)] room by (simp add: user_ok_def)
    moreover have "PIPESIZE - plen ?p = Suc (PIPESIZE - Suc (plen ?p))" using room by simp
    ultimately show ?thesis using put by simp
  qed
qed

section \<open>Reading\<close>

lemma copyout_1:
  assumes "user_ok s p" and "frames_apart (mem s) (pagetable (proc_table s p))"
    and "user_addrs (user_map s p) va (Suc n) = Some (pa # as)"
  shows "copyout (pagetable (proc_table s p)) va [b] s = (Inr 0, s\<lparr>mem := (mem s)(pa := b)\<rparr>) \<and>
    user_ok (s\<lparr>mem := (mem s)(pa := b)\<rparr>) p \<and> user_map (s\<lparr>mem := (mem s)(pa := b)\<rparr>) p = user_map s p \<and>
    frames_apart ((mem s)(pa := b)) (pagetable (proc_table s p)) \<and>
    user_addrs (user_map s p) (va + 1) n = Some as"
proof -
  have a: "user_addrs (user_map s p) va (length [b]) = Some [pa]" "user_addrs (user_map s p) (va + 1) n = Some as"
    using assms(3) by (auto split: option.splits)
  note run = copyout_run [OF _ _ assms(2) a(1)]
  then show ?thesis
    using assms(1,2) a(2)
    by (auto simp: user_ok_def frames_apart_def simp del: copyout.simps)
qed

lemma piperead_loop_run:
  assumes "user_ok s p" and "frames_apart (mem s) (pagetable (proc_table s p))" and "pipe_ok (pipes s pi)"
    and "user_addrs (user_map s p) (a + of_nat i) (min k (plen (pipes s pi))) = Some as"
  shows "\<exists>q. piperead_loop pi a p i k s = (Inr (int (i + min k (plen (pipes s pi)))),
      (pipe_done (ChPipeWrite pi) pi q s)\<lparr>mem := write_at (mem s) as (pqueue (pipes s pi))\<rparr>) \<and>
    pipe_ok q \<and> pqueue q = drop k (pqueue (pipes s pi)) \<and>
    readopen q = readopen (pipes s pi) \<and> writeopen q = writeopen (pipes s pi)"
  using assms
proof (induction k arbitrary: s i as)
  case 0
  then show ?case
    by (intro exI [of _ "pipes s pi"]) (simp add: wakeup_run pipe_done_def upd_pipe_def)
next
  case (Suc k)
  let ?p = "pipes s pi"
  show ?case
  proof (cases "pipe_empty ?p")
    case True
    then have "plen ?p = 0" by (simp add: pipe_empty_iff)
    then show ?thesis
      using True Suc.prems
      by (intro exI [of _ ?p]) (simp add: wakeup_run pipe_done_def upd_pipe_def pqueue_def)
  next
    case False
    let ?f = "\<lambda>p. p\<lparr>nread := nread p + 1\<rparr>"
    note get = pipe_get_ok [OF Suc.prems(3) False]
    have len: "plen ?p = Suc (plen (?f ?p))" using arg_cong [OF get [THEN conjunct1], of length] by simp
    let ?m = "min k (plen (?f ?p))"
    have ua: "user_addrs (user_map s p) (a + of_nat i) (Suc ?m) = Some as"
      using Suc.prems(4) by (simp add: len del: user_addrs.simps)
    then obtain pa as' where as: "as = pa # as'" by (auto split: option.splits)
    let ?s1 = "upd_pipe pi ?f s"
    have "user_ok ?s1 p" using Suc.prems(1) by (simp add: user_ok_def)
    then have co: "copyout (pagetable (proc_table s p)) (a + of_nat i) [pipe_front ?p] ?s1 =
          (Inr 0, ?s1\<lparr>mem := (mem s)(pa := pipe_front ?p)\<rparr>)"
        "user_ok (?s1\<lparr>mem := (mem s)(pa := pipe_front ?p)\<rparr>) p"
        "user_map (?s1\<lparr>mem := (mem s)(pa := pipe_front ?p)\<rparr>) p = user_map s p"
        "frames_apart ((mem s)(pa := pipe_front ?p)) (pagetable (proc_table s p))"
        "user_addrs (user_map s p) (a + of_nat i + 1) ?m = Some as'"
      using copyout_1 [of ?s1 p "a + of_nat i" ?m pa as' "pipe_front ?p"] Suc.prems(2) ua as
      by (simp_all del: copyout.simps user_addrs.simps)
    define s2 where "s2 = ?s1\<lparr>mem := (mem s)(pa := pipe_front ?p)\<rparr>"
    have s2: "pipes s2 pi = ?f ?p" "mem s2 = (mem s)(pa := pipe_front ?p)" "proc_table s2 = proc_table s"
      by (simp_all add: s2_def)
    have f: "user_ok s2 p" "frames_apart (mem s2) (pagetable (proc_table s2 p))" "pipe_ok (pipes s2 pi)"
        "user_addrs (user_map s2 p) (a + of_nat (Suc i)) (min k (plen (pipes s2 pi))) = Some as'"
      using co(2-5) get s2 by (simp_all add: s2_def add.commute add.left_commute del: user_addrs.simps)
    have "\<exists>q. piperead_loop pi a p (Suc i) k s2 = (Inr (int (Suc i + ?m)),
        (pipe_done (ChPipeWrite pi) pi q s2)\<lparr>mem := write_at (mem s2) as' (pqueue (?f ?p))\<rparr>) \<and>
      pipe_ok q \<and> pqueue q = drop k (pqueue (?f ?p)) \<and> readopen q = readopen (?f ?p) \<and> writeopen q = writeopen (?f ?p)"
      using Suc.IH [OF f] by (simp only: s2(1))
    then obtain q where q: "piperead_loop pi a p (Suc i) k s2 = (Inr (int (Suc i + ?m)),
        (pipe_done (ChPipeWrite pi) pi q s2)\<lparr>mem := write_at (mem s2) as' (pqueue (?f ?p))\<rparr>)"
      "pipe_ok q" "pqueue q = drop k (pqueue (?f ?p))" "readopen q = readopen ?p" "writeopen q = writeopen ?p"
      by auto
    have "piperead_loop pi a p i (Suc k) s = piperead_loop pi a p (Suc i) k s2"
      using False co(1) by (simp add: s2_def del: copyout.simps)
    moreover have "(pipe_done (ChPipeWrite pi) pi q s2)\<lparr>mem := write_at (mem s2) as' (pqueue (?f ?p))\<rparr> =
        (pipe_done (ChPipeWrite pi) pi q s)\<lparr>mem := write_at (mem s) as (pqueue ?p)\<rparr>"
      using get as by (simp add: pipe_done_def upd_pipe_def s2_def)
    ultimately show ?thesis
      using q get len by (intro exI [of _ q]) auto
  qed
qed

section \<open>Properties\<close>

text \<open>C30. \<^verbatim>\<open>pipewrite\<close> appends: with the read end open, a live writer and its \<open>n\<close> bytes mapped, the bytes
  are appended to the queue in order and \<open>n\<close> is returned if they fit; otherwise exactly as many
  as fit are appended, and the writer sleeps on the pipe's write channel with the readers
  woken. This holds for every value of the 32-bit counters, wrap-around included.\<close>

theorem pipewrite_fifo:
  assumes "user_ok s p" and "pipe_ok (pipes s pi)" and "readopen (pipes s pi)"
    and "user_bytes (mem s) (user_map s p) a (length bs) = Some bs"
  shows "if plen (pipes s pi) + length bs \<le> PIPESIZE
    then \<exists>s'. pipewrite pi a (int (length bs)) s = (Inr (int (length bs)), s') \<and> pipe_ok (pipes s' pi) \<and>
      pqueue (pipes s' pi) = pqueue (pipes s pi) @ bs
    else \<exists>s'. pipewrite pi a (int (length bs)) s = (Inl (Asleep (ChPipeWrite pi)), s') \<and> pipe_ok (pipes s' pi) \<and>
      pqueue (pipes s' pi) = pqueue (pipes s pi) @ take (PIPESIZE - plen (pipes s pi)) bs \<and> st_of s' p = SLEEPING"
proof -
  have cur: "current_proc s = Some p" using assms(1) by (simp add: user_ok_def)
  show ?thesis
  proof (cases "plen (pipes s pi) + length bs \<le> PIPESIZE")
    case True
    then obtain q where "pipewrite_loop pi a p 0 (length bs) s = (Inr (int (length bs)), pipe_done (ChPipeRead pi) pi q s)"
        "pipe_ok q" "pqueue q = pqueue (pipes s pi) @ bs"
      using pipewrite_loop_run [OF assms(1-3), of a 0 bs] assms(4) by auto
    then show ?thesis using True cur by (simp add: pipewrite_def myproc_def pipe_done_def)
  next
    case False
    then obtain s' where "pipewrite_loop pi a p 0 (length bs) s = (Inl (Asleep (ChPipeWrite pi)), s')"
        "pipe_ok (pipes s' pi)" "pqueue (pipes s' pi) = pqueue (pipes s pi) @ take (PIPESIZE - plen (pipes s pi)) bs"
        "st_of s' p = SLEEPING"
      using pipewrite_loop_full [OF assms(1-3), of a 0 bs] assms(4) by auto
    then show ?thesis using False cur by (simp add: pipewrite_def myproc_def)
  qed
qed

text \<open>A process with user memory and a pipe whose counters are about to wrap around.\<close>

definition demo_pipe :: kpipe where
  "demo_pipe = kvm.extend (kpm.extend demo_str
     \<lparr>kernel_pagetable = 0, trampoline_phys_addr = 0, trapframe_phys_addr = 0, ld_etext = 0, ld_trampoline = 0, satp = 0\<rparr>)
     \<lparr>pipes = (\<lambda>_. \<lparr>pdata = (\<lambda>i. of_nat i), nread = 0xFFFFFFFD, nwrite = 0xFFFFFFFF, readopen = True, writeopen = True\<rparr>)\<rparr>"

lemma demo_pipe_user:
  "user_ok demo_pipe 0 \<and> frames_apart (mem demo_pipe) (pagetable (proc_table demo_pipe 0)) \<and>
   user_addrs (user_map demo_pipe 0) 0x10000 3 = Some [0x87000000, 0x87000001, 0x87000002] \<and>
   user_bytes (mem demo_pipe) (user_map demo_pipe 0) 0x10000 3 = Some [104, 105, 0]"
proof -
  have m: "mem demo_pipe = mem demo_str" "current_proc demo_pipe = Some 0" "\<not> killed (proc_table demo_pipe 0)"
    "pagetable (proc_table demo_pipe 0) = 0x80005000"
    by (simp_all add: demo_pipe_def kvm.extend_def kpm.extend_def demo_str_def idle_proc_def)
  then show ?thesis
    using demo_str_facts by (simp add: user_ok_def del: user_bytes_simps user_addrs.simps)
qed

lemma demo_pipe_pipe:
  "pipe_ok (pipes demo_pipe 0x80007000) \<and> readopen (pipes demo_pipe 0x80007000) \<and> plen (pipes demo_pipe 0x80007000) = 2 \<and>
   pqueue (pipes demo_pipe 0x80007000) = [0xFD, 0xFE]"
proof -
  have p: "pipes demo_pipe 0x80007000 =
      \<lparr>pdata = (\<lambda>i. of_nat i), nread = 0xFFFFFFFD, nwrite = 0xFFFFFFFF, readopen = True, writeopen = True\<rparr>"
    by (simp add: demo_pipe_def kvm.extend_def)
  have l: "plen (pipes demo_pipe 0x80007000) = 2" by (simp add: p plen_def)
  moreover have "[0..<2] = [0, 1 :: nat]" by (simp add: upt_rec)
  ultimately show ?thesis by (simp add: pipe_ok_def PIPESIZE_def p pqueue_def)
qed

theorem pipewrite_fifo_witness:
  "\<exists>s'. pipewrite 0x80007000 0x10000 3 demo_pipe = (Inr 3, s') \<and>
     pqueue (pipes s' 0x80007000) = [0xFD, 0xFE, 104, 105, 0]"
  using pipewrite_fifo [of demo_pipe 0 "0x80007000" "0x10000" "[104, 105, 0]"] demo_pipe_user demo_pipe_pipe
  by (auto simp: PIPESIZE_def numeral_3_eq_3 simp del: user_bytes_simps)

text \<open>C31. \<^verbatim>\<open>piperead\<close> takes from the front: from a non-empty pipe it delivers the first
  \<open>min n (length queue)\<close> bytes, in order, to the user's buffer, removes exactly these from the queue,
  and returns their number.\<close>

theorem piperead_fifo:
  assumes "user_ok s p" and "pipe_ok (pipes s pi)" and "\<not> pipe_empty (pipes s pi)"
    and "frames_apart (mem s) (pagetable (proc_table s p))"
    and "user_addrs (user_map s p) a (min (nat n) (plen (pipes s pi))) = Some as" and "distinct as"
  shows "\<exists>s'. piperead pi a n s = (Inr (int (min (nat n) (plen (pipes s pi)))), s') \<and>
    pipe_ok (pipes s' pi) \<and> pqueue (pipes s' pi) = drop (nat n) (pqueue (pipes s pi)) \<and>
    map (mem s') as = take (nat n) (pqueue (pipes s pi))"
proof -
  have cur: "current_proc s = Some p" using assms(1) by (simp add: user_ok_def)
  obtain q where q: "piperead_loop pi a p 0 (nat n) s = (Inr (int (min (nat n) (plen (pipes s pi)))),
      (pipe_done (ChPipeWrite pi) pi q s)\<lparr>mem := write_at (mem s) as (pqueue (pipes s pi))\<rparr>)"
      "pipe_ok q" "pqueue q = drop (nat n) (pqueue (pipes s pi))"
    using piperead_loop_run [OF assms(1,4,2), of a 0 "nat n" as] assms(5) by auto
  have len: "length as = min (nat n) (plen (pipes s pi))" using assms(5) by (rule user_addrs_length)
  have "write_at (mem s) as (pqueue (pipes s pi)) = write_at (mem s) as (take (nat n) (pqueue (pipes s pi)))"
    using len by (simp add: write_at_take)
  then have "map (write_at (mem s) as (pqueue (pipes s pi))) as = take (nat n) (pqueue (pipes s pi))"
    using write_at_map [OF assms(6), of "take (nat n) (pqueue (pipes s pi))" "mem s"] len by simp
  then show ?thesis
    using q cur assms(3) by (simp add: piperead_def piperead_wait_def myproc_def pipe_done_def)
qed

theorem piperead_fifo_witness:
  "\<exists>s'. piperead 0x80007000 0x10000 1 demo_pipe = (Inr 1, s') \<and>
     pqueue (pipes s' 0x80007000) = [0xFE] \<and> map (mem s') [0x87000000] = [0xFD]"
proof -
  have "user_addrs (user_map demo_pipe 0) 0x10000 1 = Some [0x87000000]"
    using demo_pipe_user by (auto simp: numeral_3_eq_3 split: option.splits)
  then show ?thesis
    using piperead_fifo [of demo_pipe 0 "0x80007000" "0x10000" 1 "[0x87000000]"] demo_pipe_user demo_pipe_pipe
    by (auto simp: pipe_empty_iff simp del: user_addrs.simps)
qed

end
