(* ===== verification/Virtio.thy ===== *)
theory Virtio
  imports Pipe
begin

text \<open>
  The virtio block driver, \<^verbatim>\<open>kernel/virtio_disk.c\<close>. Memory the device reads and writes by DMA
  (descriptor table, rings, requests, status bytes, the data of the cache buffers) is the record
  \<open>vhw\<close>, together with the disk image itself. The device is not part of the kernel: it is the
  function \<open>vdev\<close> of the state, and theorems assume of it what the virtio specification promises
  (\<open>good_dev\<close>); \<open>serve\<close> is a reference device that keeps the promise.

  A buffer pointer is the index of the buffer in \<^verbatim>\<open>bcache.buf\<close>; the pointer to the list head is
  the index \<^verbatim>\<open>NBUF\<close>.
\<close>

section \<open>Structures\<close>

definition NUM :: nat where "NUM = 16"
definition BSIZE :: nat where "BSIZE = 1024"
definition MAXOPBLOCKS :: nat where "MAXOPBLOCKS = 10"
definition LOGBLOCKS :: nat where "LOGBLOCKS = MAXOPBLOCKS * 3"
definition NBUF :: nat where "NBUF = MAXOPBLOCKS * 3"

definition VRING_DESC_F_NEXT :: u16 where "VRING_DESC_F_NEXT = 1"
definition VRING_DESC_F_WRITE :: u16 where "VRING_DESC_F_WRITE = 2"
definition VIRTIO_BLK_T_IN :: u32 where "VIRTIO_BLK_T_IN = 0"
definition VIRTIO_BLK_T_OUT :: u32 where "VIRTIO_BLK_T_OUT = 1"

text \<open>What a descriptor's address may point to: request \<open>i\<close>, the data of buffer \<open>b\<close>, status byte \<open>i\<close>.\<close>

datatype vref = NullRef | OpRef nat | DataRef nat | StatusRef nat

record virtq_desc =
  vaddr :: vref
  vlen :: u32
  vflags :: u16
  vnext :: u16

record virtio_blk_req =
  rtype :: u32
  rreserved :: u32
  rsector :: u64

record vhw =
  vdesc :: "nat \<Rightarrow> virtq_desc"
  avail_idx :: u16
  avail_ring :: "nat \<Rightarrow> u16"
  dev_idx :: u16
  used_ring :: "nat \<Rightarrow> u32"
  vops :: "nat \<Rightarrow> virtio_blk_req"
  vstatus :: "nat \<Rightarrow> u8"
  vdata :: "nat \<Rightarrow> u8 list"
  platter :: "nat \<Rightarrow> u8 list"
  vtrace :: "(nat \<times> u8 list) list"

text \<open>\<^verbatim>\<open>struct buf\<close> without its data, which is in \<open>vdata\<close>.\<close>

record buf =
  valid :: bool
  bdisk :: bool
  bdev :: u32
  blockno :: u32
  refcnt :: u32
  block_lock :: sleeplock
  bprev :: nat
  bnext :: nat

record kdisk = kpipe +
  hw :: vhw
  vdev :: "vhw \<Rightarrow> vhw"
  vfree :: "nat \<Rightarrow> bool"
  used_idx :: u16
  info_b :: "nat \<Rightarrow> nat option"
  vdisk_lock :: spinlock
  bufs :: "nat \<Rightarrow> buf"
  bcache_lock :: spinlock

definition upd_hw :: "(vhw \<Rightarrow> vhw) \<Rightarrow> ('a) kdisk_scheme \<Rightarrow> ('a) kdisk_scheme" where
  "upd_hw f s = s\<lparr>hw := f (hw s)\<rparr>"

definition upd_buf :: "nat \<Rightarrow> (buf \<Rightarrow> buf) \<Rightarrow> ('a) kdisk_scheme \<Rightarrow> ('a) kdisk_scheme" where
  "upd_buf i f s = s\<lparr>bufs := (bufs s)(i := f (bufs s i))\<rparr>"

abbreviation bdata :: "('a) kdisk_scheme \<Rightarrow> nat \<Rightarrow> u8 list" where
  "bdata s b \<equiv> vdata (hw s) b"

definition set_bdata :: "nat \<Rightarrow> u8 list \<Rightarrow> ('a) kdisk_scheme \<Rightarrow> ('a) kdisk_scheme" where
  "set_bdata b bs = upd_hw (\<lambda>h. h\<lparr>vdata := (vdata h)(b := bs)\<rparr>)"

section \<open>The reference device\<close>

text \<open>One request: the chain at the next ring entry is an operation, a data area and a status byte.\<close>

definition serve_one :: "vhw \<Rightarrow> vhw" where
  "serve_one h =
     (let i = unat (avail_ring h (unat (dev_idx h) mod NUM));
          d0 = vdesc h i; d1 = vdesc h (unat (vnext d0)); d2 = vdesc h (unat (vnext d1))
      in case (vaddr d0, vaddr d1, vaddr d2) of
           (OpRef k, DataRef b, StatusRef t) \<Rightarrow>
             (let blk = unat (rsector (vops h k)) div 2;
                  h1 = (if rtype (vops h k) = VIRTIO_BLK_T_OUT
                        then h\<lparr>platter := (platter h)(blk := vdata h b), vtrace := vtrace h @ [(blk, vdata h b)]\<rparr>
                        else h\<lparr>vdata := (vdata h)(b := platter h blk)\<rparr>)
              in h1\<lparr>vstatus := (vstatus h)(t := 0),
                    used_ring := (used_ring h)(unat (dev_idx h) mod NUM := of_nat i),
                    dev_idx := dev_idx h + 1\<rparr>)
         | _ \<Rightarrow> h)"

text \<open>The device works off the available ring up to the driver's index.\<close>

definition serve :: "vhw \<Rightarrow> vhw" where
  "serve h = (serve_one ^^ unat (avail_idx h - dev_idx h)) h"

section \<open>Descriptors\<close>

fun find_free :: "(nat \<Rightarrow> bool) \<Rightarrow> nat list \<Rightarrow> nat option" where
  "find_free fr [] = None"
| "find_free fr (i # is) = (if fr i then Some i else find_free fr is)"

definition alloc_desc :: "(('a) kdisk_scheme, nat option) km" where
  "alloc_desc = (\<lambda>s. case find_free (vfree s) [0..<NUM] of
       None \<Rightarrow> (Inr None, s)
     | Some i \<Rightarrow> (Inr (Some i), s\<lparr>vfree := (vfree s)(i := False)\<rparr>))"

definition free_desc :: "nat \<Rightarrow> (('a) kdisk_scheme, unit) km" where
  "free_desc i = kbind (kget vfree) (\<lambda>fr.
     if i \<ge> NUM then panic ''free_desc i >= NUM''
     else if fr i then panic ''free_desc i has already been free''
     else kseq (kmod (\<lambda>s. (upd_hw (\<lambda>h. h\<lparr>vdesc := (vdesc h)(i :=
              \<lparr>vaddr = NullRef, vlen = 0, vflags = 0, vnext = 0\<rparr>)\<rparr>) s)\<lparr>vfree := (vfree s)(i := True)\<rparr>))
            (wakeup ChDiskFree))"

text \<open>\<^verbatim>\<open>alloc3_desc\<close>; on failure the descriptors already taken are freed in order.\<close>

definition alloc3_desc :: "(('a) kdisk_scheme, (nat \<times> nat \<times> nat) option) km" where
  "alloc3_desc = kbind alloc_desc (\<lambda>r0. case r0 of None \<Rightarrow> kret None | Some i0 \<Rightarrow>
     kbind alloc_desc (\<lambda>r1. case r1 of None \<Rightarrow> kseq (free_desc i0) (kret None) | Some i1 \<Rightarrow>
     kbind alloc_desc (\<lambda>r2. case r2 of None \<Rightarrow> kseq (free_desc i0) (kseq (free_desc i1) (kret None)) | Some i2 \<Rightarrow>
       kret (Some (i0, i1, i2)))))"

text \<open>\<^verbatim>\<open>free_chain\<close>: a chain visits each descriptor at most once, because freeing one twice panics,
  so \<^verbatim>\<open>NUM\<close> + 1 rounds are enough.\<close>

fun free_chain_loop :: "nat \<Rightarrow> nat \<Rightarrow> (('a) kdisk_scheme, unit) km" where
  "free_chain_loop 0 i = kstop Diverge"
| "free_chain_loop (Suc k) i = kbind (kget (\<lambda>s. vdesc (hw s) i)) (\<lambda>d.
     kseq (free_desc i)
       (if vflags d AND VRING_DESC_F_NEXT \<noteq> 0 then free_chain_loop k (unat (vnext d)) else kret ()))"

definition free_chain :: "nat \<Rightarrow> (('a) kdisk_scheme, unit) km" where
  "free_chain i = free_chain_loop (NUM + 1) i"

section \<open>The interrupt handler\<close>

text \<open>One completed request; a completed chain without a buffer would be a null dereference.\<close>

definition intr_one :: "(('a) kdisk_scheme, unit) km" where
  "intr_one = (\<lambda>s.
     let id = unat (used_ring (hw s) (unat (used_idx s) mod NUM))
     in if vstatus (hw s) id \<noteq> 0 then panic ''virtio_disk_intr status'' s
        else (case info_b s id of
                None \<Rightarrow> (Inl NullDeref, s)
              | Some b \<Rightarrow> kseq (kmod (upd_buf b (\<lambda>x. x\<lparr>bdisk := False\<rparr>)))
                  (kseq (wakeup (ChBuf b)) (kmod (\<lambda>s. s\<lparr>used_idx := used_idx s + 1\<rparr>))) s))"

fun intr_loop :: "nat \<Rightarrow> (('a) kdisk_scheme, unit) km" where
  "intr_loop 0 = kret ()"
| "intr_loop (Suc n) = kseq intr_one (intr_loop n)"

definition virtio_disk_intr :: "(('a) kdisk_scheme, unit) km" where
  "virtio_disk_intr = kseq intr_off
     (kseq (\<lambda>s. intr_loop (unat (dev_idx (hw s) - used_idx s)) s) intr_on)"

section \<open>Requests\<close>

text \<open>Filling the three descriptors and publishing the chain.\<close>

definition fill_request :: "nat \<Rightarrow> bool \<Rightarrow> nat \<times> nat \<times> nat \<Rightarrow> ('a) kdisk_scheme \<Rightarrow> ('a) kdisk_scheme" where
  "fill_request b write idx s = (case idx of (i0, i1, i2) \<Rightarrow>
     let sector = ucast (blockno (bufs s b) * of_nat (BSIZE div 512));
         s1 = upd_hw (\<lambda>h. h\<lparr>
            vops := (vops h)(i0 := \<lparr>rtype = (if write then VIRTIO_BLK_T_OUT else VIRTIO_BLK_T_IN),
                                    rreserved = 0, rsector = sector\<rparr>),
            vdesc := (vdesc h)
              (i0 := \<lparr>vaddr = OpRef i0, vlen = 16, vflags = VRING_DESC_F_NEXT, vnext = of_nat i1\<rparr>,
               i1 := \<lparr>vaddr = DataRef b, vlen = of_nat BSIZE,
                      vflags = (if write then 0 else VRING_DESC_F_WRITE) OR VRING_DESC_F_NEXT, vnext = of_nat i2\<rparr>,
               i2 := \<lparr>vaddr = StatusRef i0, vlen = 1, vflags = VRING_DESC_F_WRITE, vnext = 0\<rparr>),
            vstatus := (vstatus h)(i0 := 0xff)\<rparr>) s;
         s2 = (upd_buf b (\<lambda>x. x\<lparr>bdisk := True\<rparr>) s1)\<lparr>info_b := (info_b s1)(i0 := Some b)\<rparr>
     in upd_hw (\<lambda>h. h\<lparr>avail_ring := (avail_ring h)(unat (avail_idx h) mod NUM := of_nat i0),
                       avail_idx := avail_idx h + 1\<rparr>) s2)"

text \<open>What happens while the requesting process sleeps: the device works off the ring and raises its
  interrupt. Nothing else runs in this sequential view; the scheduler then picks the process
  again, if it is runnable.\<close>

definition device_run :: "(('a) kdisk_scheme, unit) km" where
  "device_run = kseq (kmod (\<lambda>s. upd_hw (vdev s) s)) virtio_disk_intr"

definition resched :: "nat \<Rightarrow> chan \<Rightarrow> (('a) kcore_scheme, unit) km" where
  "resched p ch = (\<lambda>s. if st_of s p = RUNNABLE then (Inr (), sched_visit p (sched_return s)) else (Inl (Asleep ch), s))"

definition kwake :: "('s, unit) km \<Rightarrow> ('s, unit) km \<Rightarrow> ('s, unit) km" where
  "kwake m k = (\<lambda>s. case m s of (Inl (Asleep c), s') \<Rightarrow> k s' | r \<Rightarrow> r)"

text \<open>\<^verbatim>\<open>yield()\<close> of a process, with nothing else to run.\<close>

definition yield_alone :: "nat \<Rightarrow> chan \<Rightarrow> (('a) kcore_scheme, unit) km" where
  "yield_alone p ch = kbind yield_enter (\<lambda>sw. if sw then kseq (resched p ch) (check_killed p) else kret ())"

text \<open>The waiting loop: one round of sleeping, completion, waking and yielding; if the request is
  still not complete the process stays asleep.\<close>

definition disk_wait :: "nat \<Rightarrow> (('a) kdisk_scheme, unit) km" where
  "disk_wait b = kbind (kget (\<lambda>s. bdisk (bufs s b))) (\<lambda>busy. if \<not> busy then kret () else
     kbind myproc (\<lambda>p.
       kseq (kwake (sleep (ChBuf b) vdisk_lock vdisk_lock_update)
               (kseq device_run
                 (kseq (resched p (ChBuf b)) (sleep_resume p vdisk_lock vdisk_lock_update))))
         (kseq (yield_alone p (ChBuf b))
           (kbind (kget (\<lambda>s. bdisk (bufs s b))) (\<lambda>busy. if busy then kstop (Asleep (ChBuf b)) else kret ())))))"

definition virtio_disk_rw :: "nat \<Rightarrow> bool \<Rightarrow> (('a) kdisk_scheme, unit) km" where
  "virtio_disk_rw b write =
     kseq (acquire vdisk_lock vdisk_lock_update)
       (kbind alloc3_desc (\<lambda>r. case r of
          None \<Rightarrow> sleep ChDiskFree vdisk_lock vdisk_lock_update
        | Some (i0, i1, i2) \<Rightarrow>
            kseq (kmod (fill_request b write (i0, i1, i2)))
              (kseq (disk_wait b)
                (kseq (kmod (\<lambda>s. s\<lparr>info_b := (info_b s)(i0 := None)\<rparr>))
                  (kseq (free_chain i0) (release vdisk_lock vdisk_lock_update))))))"

interpretation vl: lock_cell vdisk_lock vdisk_lock_update
  by unfold_locales (simp_all add: comp_def)

end
