(* ===== verification/VirtioSpec.thy ===== *)
theory VirtioSpec
  imports Virtio
begin

text \<open>
  Correctness of the disk driver for one process at a time: a request leaves the driver idle again
  and has moved exactly one block between the buffer and the disk.
\<close>

section \<open>A process that runs alone\<close>

definition quiet :: "('a) kcore_scheme \<Rightarrow> nat \<Rightarrow> bool" where
  "quiet s p \<longleftrightarrow> p < PROC \<and> current_proc s = Some p \<and> cpu_proc s = Some p \<and> sie s \<and>
     pstate (proc_table s p) = RUNNING \<and> \<not> killed (proc_table s p) \<and> pchan (proc_table s p) = None \<and>
     sleep_ticks (proc_table s p) = 0 \<and> (\<forall>i. pstate (proc_table s i) \<noteq> SLEEPING)"

lemma woken_quiet: "(\<forall>i. pstate (t i) \<noteq> SLEEPING) \<Longrightarrow> woken ch t = t"
  by (auto simp: woken_def fun_eq_iff)

lemma woken_one:
  assumes "\<forall>i. pstate (t i) \<noteq> SLEEPING" and "p < PROC"
  shows "woken ch (t(p := q)) =
    t(p := if pstate q = SLEEPING \<and> pchan q = Some ch then q\<lparr>pstate := RUNNABLE\<rparr> else q)"
  using assms by (auto simp: woken_def fun_eq_iff)

lemma wakeup_quiet: "quiet s p \<Longrightarrow> wakeup ch s = (Inr (), s)"
  by (simp add: wakeup_run quiet_def woken_quiet)

section \<open>Descriptors\<close>

abbreviation zero_desc :: virtq_desc where
  "zero_desc \<equiv> \<lparr>vaddr = NullRef, vlen = 0, vflags = 0, vnext = 0\<rparr>"

definition vq_idle :: "('a) kdisk_scheme \<Rightarrow> bool" where
  "vq_idle s \<longleftrightarrow> (\<forall>i < NUM. vfree s i) \<and> vdesc (hw s) = (\<lambda>_. zero_desc) \<and> info_b s = (\<lambda>_. None) \<and>
     used_idx s = dev_idx (hw s) \<and> avail_idx (hw s) = dev_idx (hw s) \<and>
     \<not> locked (vdisk_lock s) \<and> lpid (vdisk_lock s) = - 1"

lemma upt_NUM: "[0..<NUM] = 0 # 1 # 2 # [3..<NUM]"
  by (simp add: NUM_def upt_rec)

lemma alloc_desc_run:
  "find_free (vfree s) [0..<NUM] = Some i \<Longrightarrow> alloc_desc s = (Inr (Some i), s\<lparr>vfree := (vfree s)(i := False)\<rparr>)"
  by (simp add: alloc_desc_def)

lemma alloc3_all_free:
  assumes "\<forall>i < NUM. vfree s i"
  shows "alloc3_desc s = (Inr (Some (0, 1, 2)), s\<lparr>vfree := (vfree s)(0 := False, 1 := False, 2 := False)\<rparr>)"
proof -
  let ?s1 = "s\<lparr>vfree := (vfree s)(0 := False)\<rparr>"
  let ?s2 = "s\<lparr>vfree := (vfree s)(0 := False, 1 := False)\<rparr>"
  have fr: "vfree s 0" "vfree s 1" "vfree s 2" using assms by (simp_all add: NUM_def)
  have "alloc_desc s = (Inr (Some 0), ?s1)" by (rule alloc_desc_run) (simp add: upt_NUM fr)
  moreover have "alloc_desc ?s1 = (Inr (Some 1), ?s2)"
    using alloc_desc_run [of ?s1 1] fr by (simp add: upt_NUM)
  moreover have "alloc_desc ?s2 = (Inr (Some 2), s\<lparr>vfree := (vfree s)(0 := False, 1 := False, 2 := False)\<rparr>)"
    using alloc_desc_run [of ?s2 2] fr by (simp add: upt_NUM)
  ultimately show ?thesis by (simp add: alloc3_desc_def)
qed

lemma free_desc_run:
  assumes "quiet s p" and "i < NUM" and "\<not> vfree s i"
  shows "free_desc i s =
    (Inr (), (upd_hw (\<lambda>h. h\<lparr>vdesc := (vdesc h)(i := zero_desc)\<rparr>) s)\<lparr>vfree := (vfree s)(i := True)\<rparr>)"
proof -
  let ?s = "(upd_hw (\<lambda>h. h\<lparr>vdesc := (vdesc h)(i := zero_desc)\<rparr>) s)\<lparr>vfree := (vfree s)(i := True)\<rparr>"
  have "quiet ?s p" using assms(1) by (simp add: quiet_def upd_hw_def)
  then show ?thesis using assms(2,3) wakeup_quiet [of ?s p] by (simp add: free_desc_def)
qed

lemma free_chain_step:
  "free_desc i s = (Inr (), s') \<Longrightarrow> free_chain_loop (Suc k) i s =
     (if vflags (vdesc (hw s) i) AND VRING_DESC_F_NEXT \<noteq> 0
      then free_chain_loop k (unat (vnext (vdesc (hw s) i))) s' else (Inr (), s'))"
  by simp

text \<open>A chain of three descriptors.\<close>

lemma free_chain_run:
  assumes "quiet s p" and "i0 < NUM" "i1 < NUM" "i2 < NUM" and "distinct [i0, i1, i2]"
    and "\<not> vfree s i0" "\<not> vfree s i1" "\<not> vfree s i2"
    and "vflags (vdesc (hw s) i0) AND VRING_DESC_F_NEXT \<noteq> 0" "vnext (vdesc (hw s) i0) = of_nat i1"
    and "vflags (vdesc (hw s) i1) AND VRING_DESC_F_NEXT \<noteq> 0" "vnext (vdesc (hw s) i1) = of_nat i2"
    and "vflags (vdesc (hw s) i2) AND VRING_DESC_F_NEXT = 0"
  shows "free_chain i0 s = (Inr (),
    (upd_hw (\<lambda>h. h\<lparr>vdesc := (vdesc h)(i0 := zero_desc, i1 := zero_desc, i2 := zero_desc)\<rparr>) s)
      \<lparr>vfree := (vfree s)(i0 := True, i1 := True, i2 := True)\<rparr>)"
proof -
  have small: "unat (of_nat i :: u16) = i" if "i < NUM" for i using that by (simp add: NUM_def unat_of_nat)
  let ?s1 = "(upd_hw (\<lambda>h. h\<lparr>vdesc := (vdesc h)(i0 := zero_desc)\<rparr>) s)\<lparr>vfree := (vfree s)(i0 := True)\<rparr>"
  let ?s2 = "(upd_hw (\<lambda>h. h\<lparr>vdesc := (vdesc h)(i1 := zero_desc)\<rparr>) ?s1)\<lparr>vfree := (vfree ?s1)(i1 := True)\<rparr>"
  have q1: "quiet ?s1 p" and q2: "quiet ?s2 p" using assms(1) by (simp_all add: quiet_def upd_hw_def)
  have f0: "free_desc i0 s = (Inr (), ?s1)" by (rule free_desc_run [OF assms(1,2,6)])
  have f1: "free_desc i1 ?s1 = (Inr (), ?s2)"
    by (rule free_desc_run [OF q1 assms(3)]) (use assms in \<open>simp add: upd_hw_def\<close>)
  have f2: "free_desc i2 ?s2 =
      (Inr (), (upd_hw (\<lambda>h. h\<lparr>vdesc := (vdesc h)(i2 := zero_desc)\<rparr>) ?s2)\<lparr>vfree := (vfree ?s2)(i2 := True)\<rparr>)"
    by (rule free_desc_run [OF q2 assms(4)]) (use assms in \<open>simp add: upd_hw_def\<close>)
  have d: "vdesc (hw ?s1) i1 = vdesc (hw s) i1" "vdesc (hw ?s2) i2 = vdesc (hw s) i2"
    using assms(5) by (simp_all add: upd_hw_def)
  have "free_chain i0 s = free_chain_loop (Suc (Suc (Suc 14))) i0 s" by (simp add: free_chain_def NUM_def)
  also have "\<dots> = free_chain_loop (Suc (Suc 14)) i1 ?s1"
    using assms(9,10) small [OF assms(3)] by (simp only: free_chain_step [OF f0] simp_thms if_True)
  also have "\<dots> = free_chain_loop (Suc 14) i2 ?s2"
    using assms(11,12) small [OF assms(4)] by (simp only: free_chain_step [OF f1] d simp_thms if_True)
  also have "\<dots> = (Inr (), (upd_hw (\<lambda>h. h\<lparr>vdesc := (vdesc h)(i2 := zero_desc)\<rparr>) ?s2)\<lparr>vfree := (vfree ?s2)(i2 := True)\<rparr>)"
    using assms(13) by (simp only: free_chain_step [OF f2] d simp_thms if_False)
  also have "\<dots> = (Inr (), (upd_hw (\<lambda>h. h\<lparr>vdesc := (vdesc h)(i0 := zero_desc, i1 := zero_desc, i2 := zero_desc)\<rparr>) s)
      \<lparr>vfree := (vfree s)(i0 := True, i1 := True, i2 := True)\<rparr>)"
    by (simp add: upd_hw_def)
  finally show ?thesis .
qed

section \<open>Waiting for the device\<close>

abbreviation asleep_on :: "chan \<Rightarrow> proc \<Rightarrow> proc" where
  "asleep_on ch q \<equiv> q\<lparr>pchan := Some ch, pstate := SLEEPING\<rparr>"

lemma sleep_run:
  assumes "quiet s p" and "locked (vdisk_lock s)"
  shows "sleep ch vdisk_lock vdisk_lock_update s = (Inl (Asleep ch),
    s\<lparr>proc_table := (proc_table s)(p := asleep_on ch (proc_table s p)),
      vdisk_lock := (vdisk_lock s)\<lparr>locked := False, lpid := - 1\<rparr>, sie := True\<rparr>)"
  using assms
  by (simp add: quiet_def sleep_def sleep_enter_def intr_off_def intr_on_def myproc_def upd_proc_def release_def)

lemma intr_run:
  assumes "dev_idx (hw s) - used_idx s = 1" and "used_ring (hw s) (unat (used_idx s) mod NUM) = k"
    and "vstatus (hw s) (unat k) = 0" and "info_b s (unat k) = Some b"
  shows "virtio_disk_intr s = (Inr (),
    s\<lparr>bufs := (bufs s)(b := (bufs s b)\<lparr>bdisk := False\<rparr>), proc_table := woken (ChBuf b) (proc_table s),
      used_idx := used_idx s + 1, sie := True\<rparr>)"
proof -
  have "unat (dev_idx (hw s) - used_idx s) = Suc 0" using assms(1) by simp
  then show ?thesis
    using assms(2-4)
    by (simp add: virtio_disk_intr_def intr_off_def intr_on_def kseq_def kbind_def intr_one_def Let_def
        upd_buf_def wakeup_run)
qed

lemma proc_same [simp]:
  "pstate q = st \<Longrightarrow> q\<lparr>pstate := st\<rparr> = q"
  "pstate q = st \<Longrightarrow> q\<lparr>pchan := c, pstate := st\<rparr> = q\<lparr>pchan := c\<rparr>"
  "pchan q = c \<Longrightarrow> q\<lparr>pchan := c\<rparr> = q"
  by simp_all

lemma resched_run:
  assumes "proc_table s p = q" and "pstate q = RUNNABLE" and "sleep_ticks q = 0"
  shows "resched p ch s = (Inr (),
    s\<lparr>proc_table := (proc_table s)(p := q\<lparr>pstate := RUNNING\<rparr>), cpu_proc := Some p, current_proc := Some p\<rparr>)"
proof -
  have "q\<lparr>sleep_ticks := 0\<rparr> = q" using assms(3) by simp
  then have "sched_tick q = q" using assms(2) by (simp add: sched_tick_def)
  then show ?thesis
    using assms by (simp add: resched_def sched_visit_def sched_return_def upd_proc_def Let_def)
qed

lemma yield_alone_run:
  assumes "quiet s p"
  shows "yield_alone p ch s = (Inr (), s)"
proof -
  let ?q = "(proc_table s p)\<lparr>pstate := RUNNABLE\<rparr>"
  let ?s1 = "s\<lparr>proc_table := (proc_table s)(p := ?q), current_proc := None, cpu_proc := None, sie := True\<rparr>"
  have "yield_enter s = (Inr True, ?s1)"
    using assms by (simp add: quiet_def yield_enter_def intr_off_def upd_proc_def)
  moreover have "resched p ch ?s1 = (Inr (), s)"
    using resched_run [of ?s1 p ?q ch] assms by (auto simp: quiet_def intro!: kcore.equality)
  moreover have "check_killed p s = (Inr (), s)" using assms by (simp add: quiet_def check_killed_def)
  ultimately show ?thesis by (simp add: yield_alone_def)
qed

lemma kwake_run: "m s = (Inl (Asleep c), s') \<Longrightarrow> kwake m k s = k s'"
  by (simp add: kwake_def)

lemma disk_wait_run:
  assumes q: "quiet s p" and lk: "locked (vdisk_lock s)" "lpid (vdisk_lock s) = pid (proc_table s p)"
    and b: "bdisk (bufs s b)"
    and dev: "dev_idx (vdev s (hw s)) - used_idx s = 1"
      "vstatus (vdev s (hw s)) (unat (used_ring (vdev s (hw s)) (unat (used_idx s) mod NUM))) = 0"
      "info_b s (unat (used_ring (vdev s (hw s)) (unat (used_idx s) mod NUM))) = Some b"
  shows "disk_wait b s = (Inr (), s\<lparr>hw := vdev s (hw s), used_idx := used_idx s + 1,
    bufs := (bufs s)(b := (bufs s b)\<lparr>bdisk := False\<rparr>)\<rparr>)"
proof -
  let ?h = "vdev s (hw s)" and ?ch = "ChBuf b" and ?P = "proc_table s p"
  let ?free = "(vdisk_lock s)\<lparr>locked := False, lpid := - 1\<rparr>"
  let ?s1 = "s\<lparr>proc_table := (proc_table s)(p := asleep_on ?ch ?P), vdisk_lock := ?free, sie := True\<rparr>"
  let ?b = "(bufs s)(b := (bufs s b)\<lparr>bdisk := False\<rparr>)"
  let ?s2 = "s\<lparr>proc_table := (proc_table s)(p := ?P\<lparr>pchan := Some ?ch, pstate := RUNNABLE\<rparr>), vdisk_lock := ?free,
      hw := ?h, used_idx := used_idx s + 1, bufs := ?b\<rparr>"
  let ?s3 = "s\<lparr>proc_table := (proc_table s)(p := ?P\<lparr>pchan := Some ?ch\<rparr>), vdisk_lock := ?free,
      hw := ?h, used_idx := used_idx s + 1, bufs := ?b\<rparr>"
  let ?s4 = "s\<lparr>hw := ?h, used_idx := used_idx s + 1, bufs := ?b\<rparr>"
  have P: "pstate ?P = RUNNING" "pchan ?P = None" "sleep_ticks ?P = 0" "\<not> killed ?P"
    and cur: "current_proc s = Some p" "cpu_proc s = Some p" "sie s" "p < PROC"
    and ns: "\<forall>i. pstate (proc_table s i) \<noteq> SLEEPING"
    using q by (simp_all add: quiet_def)
  have sl: "sleep ?ch vdisk_lock vdisk_lock_update s = (Inl (Asleep ?ch) :: stop + unit, ?s1)" by (rule sleep_run [OF q lk(1)])
  have "device_run ?s1 = (Inr (), ?s2)"
    using intr_run [of "?s1\<lparr>hw := ?h\<rparr>" _ b] dev ns cur
    by (simp add: device_run_def upd_hw_def woken_one)
  moreover have "resched p ?ch ?s2 = (Inr (), ?s3)"
    using resched_run [of ?s2 p "?P\<lparr>pchan := Some ?ch, pstate := RUNNABLE\<rparr>" ?ch] P cur
    by (auto intro!: kdisk.equality)
  moreover have "sleep_resume p vdisk_lock vdisk_lock_update ?s3 = (Inr (), ?s4)"
    using vl.acquire_free [of "s\<lparr>vdisk_lock := ?free, hw := ?h, used_idx := used_idx s + 1, bufs := ?b\<rparr>" p] P cur lk
    by (simp add: sleep_resume_def sleep_leave_def upd_proc_def check_killed_def)
  moreover have "yield_alone p ?ch ?s4 = (Inr (), ?s4)"
    by (rule yield_alone_run) (use q in \<open>simp add: quiet_def\<close>)
  ultimately show ?thesis
    using sl b cur(1) by (simp add: disk_wait_def kwake_run myproc_def)
qed

section \<open>A complete request\<close>

text \<open>Exactly one request is pending, and its chain is an operation, a data area and a status byte.\<close>

definition one_request :: "vhw \<Rightarrow> bool" where
  "one_request h \<longleftrightarrow> avail_idx h = dev_idx h + 1 \<and>
     (let d0 = vdesc h (unat (avail_ring h (unat (dev_idx h) mod NUM)));
          d1 = vdesc h (unat (vnext d0)); d2 = vdesc h (unat (vnext d1))
      in case (vaddr d0, vaddr d1, vaddr d2) of (OpRef k, DataRef b, StatusRef t) \<Rightarrow> True | _ \<Rightarrow> False)"

text \<open>What the driver relies on: a device with one request pending serves it, reports success and
  touches nothing else.\<close>

definition good_dev :: "(vhw \<Rightarrow> vhw) \<Rightarrow> bool" where
  "good_dev f \<longleftrightarrow> (\<forall>h. one_request h \<longrightarrow> f h = serve_one h)"

lemma good_dev_serve: "good_dev serve"
  by (simp add: good_dev_def one_request_def serve_def)

lemma sector_block:
  assumes "unat (n :: u32) < 2 ^ 31"
  shows "unat (ucast (n * of_nat (BSIZE div 512)) :: u64) div 2 = unat n"
proof -
  have "unat (n * 2) = unat n * 2" using assms unat_mult_lem [of n 2] by simp
  moreover have "unat (n * 2) < 2 ^ 64" using unat_lt_pow [of "n * 2"] by simp
  then have "unat (ucast (n * 2) :: u64) = unat (n * 2)" by (simp add: unsigned_ucast_eq take_bit_nat_eq_self)
  ultimately show ?thesis by (simp add: BSIZE_def)
qed

text \<open>The device side after \<^verbatim>\<open>fill_request\<close> on descriptors 0, 1, 2 and the device's answer.\<close>

definition answered :: "nat \<Rightarrow> bool \<Rightarrow> nat \<Rightarrow> vhw \<Rightarrow> vhw \<Rightarrow> bool" where
  "answered b write blk h h' \<longleftrightarrow>
     vdata h' = (if write then vdata h else (vdata h)(b := platter h blk)) \<and>
     platter h' = (if write then (platter h)(blk := vdata h b) else platter h) \<and>
     vtrace h' = (if write then vtrace h @ [(blk, vdata h b)] else vtrace h) \<and>
     dev_idx h' = dev_idx h + 1 \<and> avail_idx h' = dev_idx h + 1"

lemma request_served:
  assumes idle: "vq_idle s" and dev: "good_dev (vdev s)" and blk: "unat (blockno (bufs s b)) < 2 ^ 31"
    and h: "h = hw (fill_request b write (0, 1, 2) s)"
  shows "vdev s h = serve_one h" and "answered b write (unat (blockno (bufs s b))) (hw s) (serve_one h)"
    and "vdesc (serve_one h) = vdesc h" and "vstatus (serve_one h) 0 = 0"
    and "used_ring (serve_one h) (unat (dev_idx (hw s)) mod NUM) = 0"
proof -
  have av: "avail_idx (hw s) = dev_idx (hw s)" using idle by (simp add: vq_idle_def)
  have h': "h = hw (fill_request b write (0, 1, 2) s)" by (rule h)
  have "one_request h"
    by (simp add: h' av one_request_def fill_request_def upd_hw_def upd_buf_def Let_def)
  then show "vdev s h = serve_one h" using dev by (simp add: good_dev_def)
  note sb = sector_block [OF blk]
  show "answered b write (unat (blockno (bufs s b))) (hw s) (serve_one h)"
    using sb
    by (simp add: h' av answered_def serve_one_def fill_request_def upd_hw_def upd_buf_def Let_def
        VIRTIO_BLK_T_OUT_def VIRTIO_BLK_T_IN_def)
  show "vdesc (serve_one h) = vdesc h"
    by (simp add: h' av serve_one_def fill_request_def upd_hw_def upd_buf_def Let_def)
  show "vstatus (serve_one h) 0 = 0"
    by (simp add: h' av serve_one_def fill_request_def upd_hw_def upd_buf_def Let_def)
  show "used_ring (serve_one h) (unat (dev_idx (hw s)) mod NUM) = 0"
    by (simp add: h' av serve_one_def fill_request_def upd_hw_def upd_buf_def Let_def)
qed

lemma filled_chain:
  assumes "s3 = fill_request b write (0, 1, 2) s"
  shows "vflags (vdesc (hw s3) 0) AND VRING_DESC_F_NEXT \<noteq> 0" "vnext (vdesc (hw s3) 0) = of_nat 1"
    and "vflags (vdesc (hw s3) 1) AND VRING_DESC_F_NEXT \<noteq> 0" "vnext (vdesc (hw s3) 1) = of_nat 2"
    and "vflags (vdesc (hw s3) 2) AND VRING_DESC_F_NEXT = 0"
  unfolding assms
  by (simp_all add: fill_request_def upd_hw_def upd_buf_def Let_def VRING_DESC_F_NEXT_def VRING_DESC_F_WRITE_def)

lemma fill_request_rest:
  "fill_request b write (0, 1, 2) s = s\<lparr>hw := hw (fill_request b write (0, 1, 2) s),
     bufs := (bufs s)(b := (bufs s b)\<lparr>bdisk := True\<rparr>), info_b := (info_b s)(0 := Some b)\<rparr>"
  by (simp add: fill_request_def upd_hw_def upd_buf_def Let_def)

lemma virtio_disk_rw_run:
  assumes q: "quiet s p" and idle: "vq_idle s" and dev: "good_dev (vdev s)"
    and nb: "\<not> bdisk (bufs s b)" and blk: "unat (blockno (bufs s b)) < 2 ^ 31"
  shows "\<exists>h'. virtio_disk_rw b write s = (Inr (), s\<lparr>hw := h', used_idx := dev_idx h'\<rparr>) \<and>
    vq_idle (s\<lparr>hw := h', used_idx := dev_idx h'\<rparr>) \<and> answered b write (unat (blockno (bufs s b))) (hw s) h'"
proof -
  let ?lk = "(vdisk_lock s)\<lparr>locked := True, lpid := pid (proc_table s p)\<rparr>"
  let ?s1 = "s\<lparr>vdisk_lock := ?lk\<rparr>"
  let ?s2 = "?s1\<lparr>vfree := (vfree s)(0 := False, 1 := False, 2 := False)\<rparr>"
  define s3 where "s3 = fill_request b write (0, 1, 2) ?s2"
  define h3 where "h3 = hw s3"
  let ?h = "serve_one h3"
  have cur: "current_proc s = Some p" using q by (simp add: quiet_def)
  have fr: "\<forall>i < NUM. vfree s i" and ui: "used_idx s = dev_idx (hw s)"
    and lk: "\<not> locked (vdisk_lock s)" "lpid (vdisk_lock s) = - 1"
    using idle by (simp_all add: vq_idle_def)
  have a: "acquire vdisk_lock vdisk_lock_update s = (Inr (), ?s1)"
    using vl.acquire_free [OF lk(1) cur] by simp
  have al: "alloc3_desc ?s1 = (Inr (Some (0, 1, 2)), ?s2)" using alloc3_all_free [of ?s1] fr by simp
  have idle2: "vq_idle (?s2\<lparr>vfree := vfree s, vdisk_lock := vdisk_lock s\<rparr>)" using idle by simp
  have s3: "s3 = s\<lparr>vdisk_lock := ?lk, vfree := (vfree s)(0 := False, 1 := False, 2 := False), hw := h3,
      bufs := (bufs s)(b := (bufs s b)\<lparr>bdisk := True\<rparr>), info_b := (info_b s)(0 := Some b)\<rparr>"
    unfolding h3_def s3_def by (subst fill_request_rest) simp
  have hs3: "h3 = hw (fill_request b write (0, 1, 2) s)"
    by (simp add: h3_def s3_def fill_request_def upd_hw_def upd_buf_def Let_def)
  note sv = request_served [OF idle dev blk hs3]
  have rest3: "vdev s3 = vdev s" "used_idx s3 = used_idx s" "bufs s3 b = (bufs s b)\<lparr>bdisk := True\<rparr>" "info_b s3 0 = Some b"
    by (simp_all add: s3)
  have "quiet s3 p" using q by (simp add: s3 quiet_def)
  moreover have "locked (vdisk_lock s3)" "lpid (vdisk_lock s3) = pid (proc_table s3 p)" by (simp_all add: s3)
  moreover define s4 where "s4 = s3\<lparr>hw := ?h, used_idx := used_idx s + 1,
      bufs := (bufs s3)(b := (bufs s3 b)\<lparr>bdisk := False\<rparr>)\<rparr>"
  ultimately have w: "disk_wait b s3 = (Inr (), s4)"
    using disk_wait_run [of s3 p b] sv rest3 ui by (simp add: answered_def h3_def)
  let ?s5 = "s\<lparr>vdisk_lock := ?lk, vfree := (vfree s)(0 := False, 1 := False, 2 := False), hw := ?h,
      used_idx := used_idx s + 1\<rparr>"
  let ?h' = "?h\<lparr>vdesc := (vdesc ?h)(0 := zero_desc, 1 := zero_desc, 2 := zero_desc)\<rparr>"
  have "info_b s = (\<lambda>_. None)" using idle by (simp add: vq_idle_def)
  then have s5: "s4\<lparr>info_b := (info_b s4)(0 := None)\<rparr> = ?s5"
    using nb by (simp add: s4_def s3 fun_upd_idem)
  have q5: "quiet ?s5 p" using q by (simp add: quiet_def)
  have "free_chain 0 ?s5 = (Inr (), (upd_hw (\<lambda>h. h\<lparr>vdesc := (vdesc h)(0 := zero_desc, 1 := zero_desc, 2 := zero_desc)\<rparr>) ?s5)
      \<lparr>vfree := (vfree ?s5)(0 := True, 1 := True, 2 := True)\<rparr>)"
    by (rule free_chain_run [OF q5])
      (use filled_chain [OF s3_def] sv(3) in \<open>simp_all add: NUM_def h3_def\<close>)
  moreover have "(vfree s)(0 := True, 1 := True, 2 := True) = vfree s"
    using fr by (simp add: fun_eq_iff NUM_def)
  ultimately have fc: "free_chain 0 ?s5 = (Inr (), s\<lparr>vdisk_lock := ?lk, hw := ?h', used_idx := used_idx s + 1\<rparr>)"
    by (simp add: upd_hw_def fun_upd_twist)
  have rl: "release vdisk_lock vdisk_lock_update (s\<lparr>vdisk_lock := ?lk, hw := ?h', used_idx := used_idx s + 1\<rparr>) =
      (Inr (), s\<lparr>hw := ?h', used_idx := used_idx s + 1\<rparr>)"
    using vl.release_held [of "s\<lparr>vdisk_lock := ?lk, hw := ?h', used_idx := used_idx s + 1\<rparr>"] lk by simp
  have ix: "dev_idx ?h' = used_idx s + 1" "avail_idx ?h' = used_idx s + 1"
    using sv(2) ui by (simp_all add: answered_def)
  have "virtio_disk_rw b write s = (Inr (), s\<lparr>hw := ?h', used_idx := dev_idx ?h'\<rparr>)"
    using a al w s5 fc rl ix s3_def [symmetric] by (simp add: virtio_disk_rw_def)
  moreover have "vdesc ?h' = (\<lambda>_. zero_desc)"
    using idle sv(3) unfolding hs3
    by (auto simp: vq_idle_def fill_request_def upd_hw_def upd_buf_def Let_def fun_eq_iff)
  then have "vq_idle (s\<lparr>hw := ?h', used_idx := dev_idx ?h'\<rparr>)" using idle ix by (simp add: vq_idle_def)
  moreover have "answered b write (unat (blockno (bufs s b))) (hw s) ?h'" using sv(2) by (simp add: answered_def)
  ultimately show ?thesis by blast
qed

text \<open>A machine that has just started: process 1 runs, the queue is idle, the cache is empty, and the
  disk holds a block of sevens at 5.\<close>

definition fresh_lock :: "string \<Rightarrow> spinlock" where
  "fresh_lock n = \<lparr>locked = False, lname = n, lpid = - 1\<rparr>"

definition fresh_sleeplock :: "string \<Rightarrow> sleeplock" where
  "fresh_sleeplock n = \<lparr>slocked = False, slk = fresh_lock ''sleep lock'', sname = n, spid = 0\<rparr>"

definition demo_hw :: vhw where
  "demo_hw = \<lparr>vdesc = (\<lambda>_. zero_desc), avail_idx = 0, avail_ring = (\<lambda>_. 0), dev_idx = 0, used_ring = (\<lambda>_. 0),
     vops = (\<lambda>_. \<lparr>rtype = 0, rreserved = 0, rsector = 0\<rparr>), vstatus = (\<lambda>_. 0),
     vdata = (\<lambda>_. replicate BSIZE 0), platter = (\<lambda>k. replicate BSIZE (if k = 5 then 7 else 0)), vtrace = []\<rparr>"

definition demo_buf :: "nat \<Rightarrow> buf" where
  "demo_buf i = \<lparr>valid = False, bdisk = False, bdev = 0, blockno = 5, refcnt = 0,
     block_lock = fresh_sleeplock ''buffer'', bprev = (if i = NBUF then 0 else Suc i),
     bnext = (if i = 0 then NBUF else i - 1)\<rparr>"

definition running_core :: kcore where
  "running_core = \<lparr>proc_table = (\<lambda>i. if i = 1 then idle_proc\<lparr>pid := 1, pstate := RUNNING\<rparr> else idle_proc\<lparr>pid := int i\<rparr>),
     current_proc = Some 1, cpu_proc = Some 1, sie = True\<rparr>"

definition demo_disk :: kdisk where
  "demo_disk = kcore.extend running_core \<lparr>mem = (\<lambda>_. 0), freelist = 0, ld_end = 0x80005000,
     kernel_pagetable = 0, trampoline_phys_addr = 0, trapframe_phys_addr = 0, ld_etext = 0, ld_trampoline = 0, satp = 0,
     pipes = (\<lambda>_. \<lparr>pdata = (\<lambda>_. 0), nread = 0, nwrite = 0, readopen = False, writeopen = False\<rparr>),
     hw = demo_hw, vdev = serve, vfree = (\<lambda>i. i < NUM), used_idx = 0, info_b = (\<lambda>_. None),
     vdisk_lock = fresh_lock ''virtio_disk'', bufs = demo_buf, bcache_lock = fresh_lock ''bcache''\<rparr>"

lemmas demo_disk_defs = demo_disk_def kcore.extend_def running_core_def idle_proc_def demo_hw_def fresh_lock_def

lemma demo_disk_ok: "quiet demo_disk 1" "vq_idle demo_disk" "good_dev (vdev demo_disk)"
  by (simp_all add: quiet_def vq_idle_def demo_disk_defs PROC_def good_dev_serve)



end
