(* ===== verification/Bio.thy ===== *)
theory Bio
  imports VirtioSpec
begin

text \<open>
  The block cache, \<^verbatim>\<open>kernel/bio.c\<close>. The buffers and the list head are \<open>bufs s 0\<close> to
  \<open>bufs s (NBUF - 1)\<close> and \<open>bufs s NBUF\<close>; the least-recently-used list is the circular doubly linked
  list through \<open>bnext\<close> and \<open>bprev\<close>. The list operations are shown to keep a representation of
  that list as an Isabelle list. A process that has to wait for a buffer ends its run with
  \<open>Asleep\<close>. The flag \<^verbatim>\<open>b->refcnt >= 0\<close> of an unsigned counter is always true and left out.
\<close>

section \<open>Operations\<close>

text \<open>The sleep lock of buffer \<open>b\<close> as a cell of the state.\<close>

abbreviation bl_get :: "nat \<Rightarrow> ('a) kdisk_scheme \<Rightarrow> sleeplock" where
  "bl_get b \<equiv> (\<lambda>s. block_lock (bufs s b))"

abbreviation bl_upd :: "nat \<Rightarrow> (sleeplock \<Rightarrow> sleeplock) \<Rightarrow> ('a) kdisk_scheme \<Rightarrow> ('a) kdisk_scheme" where
  "bl_upd b \<equiv> (\<lambda>f. upd_buf b (\<lambda>x. x\<lparr>block_lock := f (block_lock x)\<rparr>))"

abbreviation acquire_bcache :: "(('a) kdisk_scheme, unit) km" where
  "acquire_bcache \<equiv> acquire bcache_lock bcache_lock_update"

abbreviation release_bcache :: "(('a) kdisk_scheme, unit) km" where
  "release_bcache \<equiv> release bcache_lock bcache_lock_update"

text \<open>The pointer assignments that put \<open>b\<close> right after the head.\<close>

definition push_front :: "nat \<Rightarrow> (nat \<Rightarrow> buf) \<Rightarrow> nat \<Rightarrow> buf" where
  "push_front b bs =
     (let bs1 = bs(b := (bs b)\<lparr>bnext := bnext (bs NBUF), bprev := NBUF\<rparr>);
          h = bnext (bs1 NBUF);
          bs2 = bs1(h := (bs1 h)\<lparr>bprev := b\<rparr>)
      in bs2(NBUF := (bs2 NBUF)\<lparr>bnext := b\<rparr>))"

definition unlink_buf :: "nat \<Rightarrow> (nat \<Rightarrow> buf) \<Rightarrow> nat \<Rightarrow> buf" where
  "unlink_buf b bs =
     (let n = bnext (bs b); bs1 = bs(n := (bs n)\<lparr>bprev := bprev (bs b)\<rparr>);
          q = bprev (bs1 b)
      in bs1(q := (bs1 q)\<lparr>bnext := bnext (bs1 b)\<rparr>))"

definition binit :: "(('a) kdisk_scheme, unit) km" where
  "binit = kseq (initlock bcache_lock_update ''bcache'')
     (kseq (kmod (\<lambda>s. s\<lparr>bufs := (bufs s)(NBUF := (bufs s NBUF)\<lparr>bprev := NBUF, bnext := NBUF\<rparr>)\<rparr>))
       (kfor [0..<NBUF] (\<lambda>b. kseq (initsleeplock (bl_upd b) ''buffer'')
          (kmod (\<lambda>s. s\<lparr>bufs := push_front b (bufs s)\<rparr>)))))"

text \<open>A walk along one direction of the list up to the head. With \<open>NBUF + 1\<close> rounds a walk that has
  not met the head has met a buffer twice, and the loop of the code does not end.\<close>

fun walk_lru :: "nat \<Rightarrow> (nat \<Rightarrow> nat) \<Rightarrow> (nat \<Rightarrow> bool) \<Rightarrow> nat \<Rightarrow> stop + nat option" where
  "walk_lru 0 step P b = Inl Diverge"
| "walk_lru (Suc k) step P b =
     (if b = NBUF then Inr None else if P b then Inr (Some b) else walk_lru k step P (step b))"

definition bget :: "u32 \<Rightarrow> u32 \<Rightarrow> (('a) kdisk_scheme, nat) km" where
  "bget dev bno = kseq acquire_bcache (\<lambda>s.
     let bs = bufs s in
     case walk_lru (NBUF + 1) (\<lambda>b. bnext (bs b)) (\<lambda>b. bdev (bs b) = dev \<and> blockno (bs b) = bno) (bnext (bs NBUF)) of
       Inl e \<Rightarrow> (Inl e, s)
     | Inr (Some b) \<Rightarrow>
         kseq (kmod (upd_buf b (\<lambda>x. x\<lparr>refcnt := refcnt x + 1\<rparr>)))
           (kseq release_bcache
             (kseq (acquiresleep (ChBufLock b) (bl_get b) (bl_upd b)) (kret b))) s
     | Inr None \<Rightarrow>
         (case walk_lru (NBUF + 1) (\<lambda>b. bprev (bs b)) (\<lambda>b. refcnt (bs b) = 0) (bprev (bs NBUF)) of
            Inl e \<Rightarrow> (Inl e, s)
          | Inr (Some b) \<Rightarrow>
              kseq (kmod (upd_buf b (\<lambda>x. x\<lparr>bdev := dev, blockno := bno, valid := False, refcnt := 1\<rparr>)))
                (kseq release_bcache
                  (kseq (acquiresleep (ChBufLock b) (bl_get b) (bl_upd b)) (kret b))) s
          | Inr None \<Rightarrow> panic ''bget: no buffers'' s))"

definition bread :: "u32 \<Rightarrow> u32 \<Rightarrow> (('a) kdisk_scheme, nat) km" where
  "bread dev bno = kbind (bget dev bno) (\<lambda>b.
     kbind (kget (\<lambda>s. valid (bufs s b))) (\<lambda>v.
       kseq (if v then kret ()
             else kseq (virtio_disk_rw b False) (kmod (upd_buf b (\<lambda>x. x\<lparr>valid := True\<rparr>))))
         (kret b)))"

definition bwrite :: "nat \<Rightarrow> (('a) kdisk_scheme, unit) km" where
  "bwrite b = kbind (holdingsleep (bl_get b) (bl_upd b)) (\<lambda>h.
     if \<not> h then panic ''bwrite without lock'' else virtio_disk_rw b True)"

definition brelse :: "nat \<Rightarrow> (('a) kdisk_scheme, unit) km" where
  "brelse b = kbind (holdingsleep (bl_get b) (bl_upd b)) (\<lambda>h.
     if \<not> h then panic ''brelse without lock''
     else kseq (releasesleep (ChBufLock b) (bl_get b) (bl_upd b))
       (kseq acquire_bcache
         (kseq intr_off
           (kseq (kmod (upd_buf b (\<lambda>x. x\<lparr>refcnt := refcnt x - 1\<rparr>)))
             (kseq (kmod (\<lambda>s. if refcnt (bufs s b) = 0 \<and> bprev (bufs s b) \<noteq> NBUF
                              then s\<lparr>bufs := push_front b (unlink_buf b (bufs s))\<rparr> else s))
               (kseq intr_on release_bcache))))))"

definition bpin :: "nat \<Rightarrow> (('a) kdisk_scheme, unit) km" where
  "bpin b = kseq acquire_bcache (kseq (kmod (upd_buf b (\<lambda>x. x\<lparr>refcnt := refcnt x + 1\<rparr>))) release_bcache)"

definition bunpin :: "nat \<Rightarrow> (('a) kdisk_scheme, unit) km" where
  "bunpin b = kseq acquire_bcache (kseq (kmod (upd_buf b (\<lambda>x. x\<lparr>refcnt := refcnt x - 1\<rparr>))) release_bcache)"

text \<open>\<^verbatim>\<open>sync_all_buffers\<close>: the buffers to write are collected and pinned in list order; the result of
  the collecting walk is the array \<^verbatim>\<open>sync_list\<close>.\<close>

fun sync_collect :: "nat \<Rightarrow> nat \<Rightarrow> (('a) kdisk_scheme, nat list) km" where
  "sync_collect 0 b = kstop Diverge"
| "sync_collect (Suc k) b = (if b = NBUF then kret [] else
     kbind (kget (\<lambda>s. bufs s b)) (\<lambda>x.
       if valid x \<and> \<not> bdisk x
       then kseq (kmod (upd_buf b (\<lambda>x. x\<lparr>refcnt := refcnt x + 1\<rparr>)))
              (kbind (kget (\<lambda>s. bnext (bufs s b))) (\<lambda>n. kbind (sync_collect k n) (\<lambda>bs. kret (b # bs))))
       else sync_collect k (bnext x)))"

definition sync_one :: "nat \<Rightarrow> (('a) kdisk_scheme, unit) km" where
  "sync_one b = kseq (acquiresleep (ChBufLock b) (bl_get b) (bl_upd b))
     (kbind (kget (\<lambda>s. bufs s b)) (\<lambda>x.
       kseq (if valid x \<and> \<not> bdisk x then bwrite b else kret ())
         (kseq (releasesleep (ChBufLock b) (bl_get b) (bl_upd b))
           (kseq acquire_bcache
             (kseq (kmod (upd_buf b (\<lambda>x. x\<lparr>refcnt := refcnt x - 1\<rparr>))) release_bcache)))))"

definition sync_all_buffers :: "(('a) kdisk_scheme, unit) km" where
  "sync_all_buffers = kseq acquire_bcache
     (kbind (\<lambda>s. sync_collect (NBUF + 1) (bnext (bufs s NBUF)) s) (\<lambda>bs.
       kseq release_bcache (kfor bs sync_one)))"

section \<open>The locks\<close>

interpretation bl: lock_cell bcache_lock bcache_lock_update
  by unfold_locales (simp_all add: comp_def)

lemma upd_buf_id: "f (bufs s b) = bufs s b \<Longrightarrow> upd_buf b f s = s"
  by (simp add: upd_buf_def)

interpretation blk: sleep_cell "bl_get b" "bl_upd b" for b
proof
  fix f :: "sleeplock \<Rightarrow> sleeplock" and s :: "('a) kdisk_scheme"
  assume "f (bl_get b s) = bl_get b s"
  then show "bl_upd b f s = s" by (intro upd_buf_id) simp
qed (simp_all add: upd_buf_def)

section \<open>The list\<close>

text \<open>Neighbours in the sequence are linked both ways.\<close>

fun linked :: "(nat \<Rightarrow> buf) \<Rightarrow> nat list \<Rightarrow> bool" where
  "linked bs (x # y # zs) \<longleftrightarrow> bnext (bs x) = y \<and> bprev (bs y) = x \<and> linked bs (y # zs)"
| "linked bs zs \<longleftrightarrow> True"

definition lru_list :: "(nat \<Rightarrow> buf) \<Rightarrow> nat list \<Rightarrow> bool" where
  "lru_list bs xs \<longleftrightarrow> linked bs (NBUF # xs @ [NBUF]) \<and> distinct xs \<and> set xs = {..<NBUF}"

lemma linked_cong:
  assumes "\<And>x. x \<in> set (butlast zs) \<Longrightarrow> bnext (bs' x) = bnext (bs x)"
    and "\<And>x. x \<in> set (tl zs) \<Longrightarrow> bprev (bs' x) = bprev (bs x)"
  shows "linked bs' zs \<longleftrightarrow> linked bs zs"
  using assms
proof (induction bs zs rule: linked.induct)
  case (1 bs x y zs)
  have "linked bs' (y # zs) \<longleftrightarrow> linked bs (y # zs)" by (rule 1(1)) (use 1(2,3) in \<open>auto split: if_splits\<close>)
  then show ?case using 1(2) [of x] 1(3) [of y] by auto
qed simp_all

lemma linked_append: "linked bs (xs @ y # zs) \<longleftrightarrow> linked bs (xs @ [y]) \<and> linked bs (y # zs)"
proof (induction xs)
  case (Cons a xs)
  then show ?case by (cases xs) auto
qed simp

lemma lru_list_fields:
  assumes "lru_list bs xs" and "\<And>i. bnext (bs' i) = bnext (bs i) \<and> bprev (bs' i) = bprev (bs i)"
  shows "lru_list bs' xs"
proof -
  have "linked bs' zs = linked bs zs" for zs by (rule linked_cong) (simp_all add: assms(2))
  then show ?thesis using assms(1) by (simp add: lru_list_def)
qed

lemma lru_list_length: "lru_list bs xs \<Longrightarrow> length xs = NBUF"
  by (metis card_lessThan distinct_card lru_list_def)

lemma lru_list_bound: "lru_list bs xs \<Longrightarrow> b \<in> set xs \<longleftrightarrow> b < NBUF"
  by (simp add: lru_list_def)

text \<open>Both walks visit the list, and stop at the head.\<close>

lemma walk_forward:
  assumes "linked bs (ys @ [NBUF])" and "NBUF \<notin> set ys" and "length ys < k"
  shows "walk_lru k (\<lambda>b. bnext (bs b)) P (hd (ys @ [NBUF])) = Inr (find P ys)"
  using assms
proof (induction ys arbitrary: k)
  case Nil
  then show ?case by (cases k) auto
next
  case (Cons y ys)
  then obtain j where k: "k = Suc j" by (cases k) auto
  have "linked bs (ys @ [NBUF])" "bnext (bs y) = hd (ys @ [NBUF])"
    using Cons.prems(1) by (cases ys; simp)+
  then show ?case using Cons.IH [of j] Cons.prems k by simp
qed

lemma walk_backward:
  assumes "linked bs (NBUF # ys)" and "NBUF \<notin> set ys" and "length ys < k"
  shows "walk_lru k (\<lambda>b. bprev (bs b)) P (last (NBUF # ys)) = Inr (find P (rev ys))"
  using assms
proof (induction ys arbitrary: k rule: rev_induct)
  case Nil
  then show ?case by (cases k) auto
next
  case (snoc y ys)
  then obtain j where k: "k = Suc j" by (cases k) auto
  have l: "linked bs (NBUF # ys)" "bprev (bs y) = last (NBUF # ys)"
  proof -
    obtain zs z where z: "NBUF # ys = zs @ [z]" by (metis append_butlast_last_id list.distinct(1))
    then have "linked bs ((zs @ [z]) @ [y])" using snoc.prems(1) by (metis append_Cons)
    then have "linked bs (zs @ [z]) \<and> linked bs [z, y]" using linked_append [of bs zs z "[y]"] by simp
    then show "linked bs (NBUF # ys)" "bprev (bs y) = last (NBUF # ys)" unfolding z by simp_all
  qed
  then show ?case using snoc.IH [of j] snoc.prems k by simp
qed

lemma lru_walks:
  assumes "lru_list bs xs"
  shows "walk_lru (NBUF + 1) (\<lambda>b. bnext (bs b)) P (bnext (bs NBUF)) = Inr (find P xs)"
    and "walk_lru (NBUF + 1) (\<lambda>b. bprev (bs b)) P (bprev (bs NBUF)) = Inr (find P (rev xs))"
proof -
  have n: "NBUF \<notin> set xs" "length xs < NBUF + 1"
    using lru_list_length [OF assms] lru_list_bound [OF assms] by simp_all
  have l: "linked bs (NBUF # xs @ [NBUF])" using assms by (simp add: lru_list_def)
  then have "linked bs (xs @ [NBUF]) \<and> bnext (bs NBUF) = hd (xs @ [NBUF])" by (cases xs) simp_all
  then show "walk_lru (NBUF + 1) (\<lambda>b. bnext (bs b)) P (bnext (bs NBUF)) = Inr (find P xs)"
    using walk_forward n by metis
  have "linked bs (NBUF # xs) \<and> bprev (bs NBUF) = last (NBUF # xs)"
  proof -
    obtain zs z where z: "NBUF # xs = zs @ [z]" by (metis append_butlast_last_id list.distinct(1))
    then have "linked bs ((zs @ [z]) @ [NBUF])" using l by (metis append_Cons)
    then show ?thesis using linked_append [of bs zs z "[NBUF]"] z by simp
  qed
  then show "walk_lru (NBUF + 1) (\<lambda>b. bprev (bs b)) P (bprev (bs NBUF)) = Inr (find P (rev xs))"
    using walk_backward n by metis
qed

declare walk_lru.simps [simp del]

text \<open>The pointer operations on the list.\<close>

lemma push_front_linked:
  assumes l: "linked bs (NBUF # xs @ [NBUF])" and b: "b \<noteq> NBUF" "b \<notin> set xs" and d: "distinct xs" "NBUF \<notin> set xs"
  shows "linked (push_front b bs) (NBUF # b # xs @ [NBUF])"
proof (cases xs)
  case Nil
  then show ?thesis using l b by (auto simp: push_front_def Let_def)
next
  case (Cons x ys)
  have "linked bs (x # ys @ [NBUF])" using l Cons by simp
  moreover have "linked (push_front b bs) (x # ys @ [NBUF]) \<longleftrightarrow> linked bs (x # ys @ [NBUF])"
    by (rule linked_cong)
      (use l b d Cons in \<open>auto simp: push_front_def Let_def butlast_append split: if_splits\<close>)
  ultimately show ?thesis using l b d Cons by (auto simp: push_front_def Let_def)
qed

lemma unlink_buf_linked:
  assumes l: "linked bs (NBUF # (us @ b # vs) @ [NBUF])" and d: "distinct (us @ b # vs)" "NBUF \<notin> set (us @ b # vs)"
  shows "linked (unlink_buf b bs) (NBUF # (us @ vs) @ [NBUF])"
proof -
  obtain zs q where q: "NBUF # us = zs @ [q]" by (metis append_butlast_last_id list.distinct(1))
  obtain n ws where n: "vs @ [NBUF] = n # ws" by (metis append_is_Nil_conv list.distinct(1) list.exhaust)
  have "NBUF # (us @ b # vs) @ [NBUF] = zs @ q # b # n # ws"
    using q n by (metis append.assoc append_Cons append_Nil)
  then have l2: "linked bs (zs @ [q])" "linked bs (q # b # n # ws)"
    using l linked_append [of bs zs q "b # n # ws"] by simp_all
  have qs: "q \<in> insert NBUF (set us)" "set zs \<subseteq> insert NBUF (set us)" "q \<notin> set zs" "set us = set (tl (zs @ [q]))"
  proof -
    have "distinct (NBUF # us)" using d by simp
    then show "q \<notin> set zs" unfolding q by simp
    show "q \<in> insert NBUF (set us)" "set zs \<subseteq> insert NBUF (set us)"
      using q by (metis in_set_conv_decomp list.simps(15), metis Un_upper1 list.simps(15) set_append)
    show "set us = set (tl (zs @ [q]))" using q by (metis list.sel(3))
  qed
  have ns: "n \<in> insert NBUF (set vs)" "n \<notin> set ws" "set vs = set (butlast (n # ws))" "set ws \<subseteq> insert NBUF (set vs)"
  proof -
    have "distinct (vs @ [NBUF])" using d by simp
    then show "n \<notin> set ws" unfolding n by simp
    show "set vs = set (butlast (n # ws))" using n by (metis butlast_snoc)
    show "n \<in> insert NBUF (set vs)" "set ws \<subseteq> insert NBUF (set vs)"
      using n by (metis Un_insert_right list.set_intros(1) list.simps(15) set_append sup_bot_right list.set(1),
          metis Un_insert_right list.simps(15) set_append set_subset_Cons sup_bot_right list.set(1))
  qed
  have nb: "n \<noteq> b" "q \<noteq> b" using ns(1) qs(1) d by auto
  have u: "unlink_buf b bs = (let bs1 = bs(n := (bs n)\<lparr>bprev := q\<rparr>) in bs1(q := (bs1 q)\<lparr>bnext := n\<rparr>))"
    using l2 nb by (simp add: unlink_buf_def Let_def)
  have "linked (unlink_buf b bs) (zs @ [q]) \<longleftrightarrow> linked bs (zs @ [q])"
    by (rule linked_cong) (use qs ns d in \<open>auto simp: u Let_def\<close>)
  moreover have "linked (unlink_buf b bs) (n # ws) \<longleftrightarrow> linked bs (n # ws)"
    by (rule linked_cong) (use qs ns d in \<open>auto simp: u Let_def\<close>)
  moreover have "bnext (unlink_buf b bs q) = n" "bprev (unlink_buf b bs n) = q" by (simp_all add: u Let_def)
  ultimately have "linked (unlink_buf b bs) (zs @ q # n # ws)"
    using l2 linked_append [of "unlink_buf b bs" zs q "n # ws"] by simp
  moreover have "NBUF # (us @ vs) @ [NBUF] = zs @ q # n # ws" using q n by (metis append.assoc append_Cons append_Nil)
  ultimately show ?thesis by simp
qed

lemma binit_step:
  assumes "linked bs (NBUF # xs @ [NBUF])" "distinct xs" "set xs = {..<k}" "k < NBUF"
  shows "linked (push_front k bs) (NBUF # (k # xs) @ [NBUF]) \<and> distinct (k # xs) \<and> set (k # xs) = {..<Suc k}"
  using push_front_linked [of bs xs k] assms by (auto simp: lessThan_Suc)

lemma move_to_front:
  assumes "lru_list bs xs" and "b < NBUF"
  shows "lru_list (push_front b (unlink_buf b bs)) (b # remove1 b xs)"
proof -
  have "b \<in> set xs" using assms lru_list_bound by blast
  then obtain us vs where xs: "xs = us @ b # vs" "b \<notin> set us" by (metis split_list_first)
  have d: "distinct xs" "NBUF \<notin> set xs" "linked bs (NBUF # xs @ [NBUF])" using assms(1) by (simp_all add: lru_list_def)
  have "linked (unlink_buf b bs) (NBUF # (us @ vs) @ [NBUF])"
    by (rule unlink_buf_linked) (use d xs in simp_all)
  then have "linked (push_front b (unlink_buf b bs)) (NBUF # b # (us @ vs) @ [NBUF])"
    by (rule push_front_linked) (use d xs assms(2) in auto)
  moreover have "remove1 b xs = us @ vs" using xs by (simp add: remove1_append)
  moreover have "set (b # us @ vs) = {..<NBUF}" using assms(1) xs by (auto simp: lru_list_def)
  ultimately show ?thesis using d xs by (simp add: lru_list_def)
qed

text \<open>A buffer whose predecessor is the head is already in front.\<close>

lemma front_first:
  assumes "lru_list bs xs" and "b < NBUF" and "bprev (bs b) = NBUF"
  shows "b # remove1 b xs = xs"
proof -
  have "b \<in> set xs" using assms lru_list_bound by blast
  then obtain us vs where xs: "xs = us @ b # vs" by (metis split_list)
  obtain zs q where q: "NBUF # us = zs @ [q]" by (metis append_butlast_last_id list.distinct(1))
  have "linked bs (NBUF # us @ b # vs @ [NBUF])" using assms(1) xs by (simp add: lru_list_def)
  moreover have "NBUF # us @ b # vs @ [NBUF] = zs @ q # b # vs @ [NBUF]" using q by (metis append.assoc append_Cons append_Nil)
  ultimately have "bprev (bs b) = q" using linked_append [of bs zs q "b # vs @ [NBUF]"] by simp
  then have "us = []" using assms(1,3) q xs by (cases us rule: rev_cases) (auto simp: lru_list_def)
  then show ?thesis using xs by simp
qed

lemma link_fields [simp]:
  "valid (push_front b bs i) = valid (bs i)" "bdisk (push_front b bs i) = bdisk (bs i)"
  "bdev (push_front b bs i) = bdev (bs i)" "blockno (push_front b bs i) = blockno (bs i)"
  "refcnt (push_front b bs i) = refcnt (bs i)" "block_lock (push_front b bs i) = block_lock (bs i)"
  "valid (unlink_buf b bs i) = valid (bs i)" "bdisk (unlink_buf b bs i) = bdisk (bs i)"
  "bdev (unlink_buf b bs i) = bdev (bs i)" "blockno (unlink_buf b bs i) = blockno (bs i)"
  "refcnt (unlink_buf b bs i) = refcnt (bs i)" "block_lock (unlink_buf b bs i) = block_lock (bs i)"
  by (simp_all add: push_front_def unlink_buf_def Let_def)

section \<open>Boot\<close>

lemma sleeplock_written:
  "(l :: sleeplock)\<lparr>slk := a, sname := n, slocked := b, spid := q\<rparr> = \<lparr>slocked = b, slk = a, sname = n, spid = q\<rparr>"
  by (cases l) simp

text \<open>\<^verbatim>\<open>binit\<close> builds the cache list: whatever the memory held, afterwards forward and backward
  pointers describe one circular list through the head and every buffer exactly once, the highest
  numbered buffer first, all locks are free, and no other field of a buffer has changed.\<close>

lemma binit_run:
  "\<exists>bs. binit s = (Inr (), s\<lparr>bcache_lock := fresh_lock ''bcache'', bufs := bs\<rparr>) \<and> lru_list bs (rev [0..<NBUF]) \<and>
     (\<forall>i < NBUF. block_lock (bs i) = fresh_sleeplock ''buffer'' \<and> valid (bs i) = valid (bufs s i) \<and> bdisk (bs i) = bdisk (bufs s i) \<and>
        bdev (bs i) = bdev (bufs s i) \<and> blockno (bs i) = blockno (bufs s i) \<and> refcnt (bs i) = refcnt (bufs s i))"
proof -
  define body :: "nat \<Rightarrow> (('a) kdisk_scheme, unit) km" where "body = (\<lambda>b. kseq (initsleeplock (bl_upd b) ''buffer'')
          (kmod (\<lambda>s. s\<lparr>bufs := push_front b (bufs s)\<rparr>)))"
  define fields where "fields = (\<lambda>k (t :: ('a) kdisk_scheme). linked (bufs t) (NBUF # rev [0..<k] @ [NBUF]) \<and>
     t = s\<lparr>bcache_lock := fresh_lock ''bcache'', bufs := bufs t\<rparr> \<and>
     (\<forall>i < NBUF. (i < k \<longrightarrow> block_lock (bufs t i) = fresh_sleeplock ''buffer'') \<and> valid (bufs t i) = valid (bufs s i) \<and> bdisk (bufs t i) = bdisk (bufs s i) \<and>
        bdev (bufs t i) = bdev (bufs s i) \<and> blockno (bufs t i) = blockno (bufs s i) \<and> refcnt (bufs t i) = refcnt (bufs s i)))"
  have step: "ktriple (fields k) (body k) (\<lambda>_. fields (Suc k))" if "k < NBUF" for k
  proof (rule ktripleI)
    fix t assume t: "fields k t"
    let ?bs = "(bufs t)(k := (bufs t k)\<lparr>block_lock := fresh_sleeplock ''buffer''\<rparr>)"
    have run: "body k t = (Inr (), t\<lparr>bufs := push_front k ?bs\<rparr>)"
      by (simp add: body_def initsleeplock_def initlock_def upd_buf_def fresh_sleeplock_def fresh_lock_def
          sleeplock_written)
    have "linked ?bs (NBUF # rev [0..<k] @ [NBUF]) \<longleftrightarrow> linked (bufs t) (NBUF # rev [0..<k] @ [NBUF])"
      by (rule linked_cong) simp_all
    moreover have "linked (bufs t) (NBUF # rev [0..<k] @ [NBUF])" using t unfolding fields_def by (rule conjunct1)
    ultimately have "linked (push_front k ?bs) (NBUF # rev [0..<Suc k] @ [NBUF])"
      using binit_step [of ?bs "rev [0..<k]" k] that by (simp add: lessThan_atLeast0)
    moreover have e: "t = s\<lparr>bcache_lock := fresh_lock ''bcache'', bufs := bufs t\<rparr>" using t unfolding fields_def by blast
    have "t\<lparr>bufs := push_front k ?bs\<rparr> = s\<lparr>bcache_lock := fresh_lock ''bcache'', bufs := push_front k ?bs\<rparr>"
      using arg_cong [OF e, of "bufs_update (\<lambda>_. push_front k ?bs)"] by simp
    moreover have "\<forall>i < NBUF. (i < Suc k \<longrightarrow> block_lock (push_front k ?bs i) = fresh_sleeplock ''buffer'') \<and>
        valid (push_front k ?bs i) = valid (bufs s i) \<and> bdisk (push_front k ?bs i) = bdisk (bufs s i) \<and>
        bdev (push_front k ?bs i) = bdev (bufs s i) \<and> blockno (push_front k ?bs i) = blockno (bufs s i) \<and>
        refcnt (push_front k ?bs i) = refcnt (bufs s i)"
      using conjunct2 [OF conjunct2 [OF t [unfolded fields_def]]] by (auto simp: less_Suc_eq)
    ultimately have "fields (Suc k) (t\<lparr>bufs := push_front k ?bs\<rparr>)" unfolding fields_def by simp
    then show "\<exists>x s'. body k t = (Inr x, s') \<and> fields (Suc k) s'" using run by blast
  qed
  let ?s0 = "s\<lparr>bcache_lock := fresh_lock ''bcache'', bufs := (bufs s)(NBUF := (bufs s NBUF)\<lparr>bprev := NBUF, bnext := NBUF\<rparr>)\<rparr>"
  have "ktriple (fields 0) (kfor [0..<NBUF] body) (\<lambda>_. fields (length [0..<NBUF]))"
    by (rule ktriple_for) (use step in simp)
  moreover have "fields 0 ?s0" by (simp add: fields_def)
  ultimately obtain s' where s': "kfor [0..<NBUF] body ?s0 = (Inr (), s')" "fields NBUF s'"
    by (auto elim: ktripleE)
  have "binit s = (Inr (), s')"
    using s'(1) by (simp add: binit_def initlock_def fresh_lock_def body_def)
  moreover have "s' = s\<lparr>bcache_lock := fresh_lock ''bcache'', bufs := bufs s'\<rparr>" using s'(2) unfolding fields_def by blast
  moreover have "linked (bufs s') (NBUF # rev [0..<NBUF] @ [NBUF])" using s'(2) unfolding fields_def by blast
  moreover note conjunct2 [OF conjunct2 [OF s'(2) [unfolded fields_def]]]
  ultimately show ?thesis by (intro exI [of _ "bufs s'"]) (auto simp: lru_list_def)
qed

end
