(* ===== verification/BioSpec.thy ===== *)
theory BioSpec
  imports Bio
begin

text \<open>
  What the block cache promises: seen from outside it is the disk with the pending changes applied
  (\<open>a_view\<close>), a counter of references per block (\<open>a_rc\<close>) and the set of buffers the process holds
  (\<open>a_held\<close>). The operations of \<^verbatim>\<open>kernel/bio.c\<close>, run by a process that nobody competes with,
  implement simple updates of this abstraction; in particular the eviction of a buffer is
  invisible, as long as a changed block keeps a reference until it is written.
\<close>

section \<open>Abstraction and invariant\<close>

definition ROOTDEV :: u32 where
  "ROOTDEV = 1"

definition key :: "('a) kdisk_scheme \<Rightarrow> nat \<Rightarrow> nat" where
  "key s b = unat (blockno (bufs s b))"

definition buf_of :: "('a) kdisk_scheme \<Rightarrow> nat \<Rightarrow> nat option" where
  "buf_of s k = find (\<lambda>b. bdev (bufs s b) = ROOTDEV \<and> key s b = k) [0..<NBUF]"

record acache =
  a_view :: "nat \<Rightarrow> u8 list"
  a_disk :: "nat \<Rightarrow> u8 list"
  a_trace :: "(nat \<times> u8 list) list"
  a_rc :: "nat \<Rightarrow> nat"
  a_held :: "nat \<Rightarrow> nat option"

definition abs_cache :: "('a) kdisk_scheme \<Rightarrow> acache" where
  "abs_cache s = \<lparr>
     a_view = (\<lambda>k. case buf_of s k of Some b \<Rightarrow> bdata s b | None \<Rightarrow> platter (hw s) k),
     a_disk = platter (hw s), a_trace = vtrace (hw s),
     a_rc = (\<lambda>k. case buf_of s k of Some b \<Rightarrow> unat (refcnt (bufs s b)) | None \<Rightarrow> 0),
     a_held = (\<lambda>b. if b < NBUF \<and> slocked (block_lock (bufs s b)) then Some (key s b) else None)\<rparr>"

definition buf_ok :: "('a) kdisk_scheme \<Rightarrow> nat \<Rightarrow> nat \<Rightarrow> bool" where
  "buf_ok s p b \<longleftrightarrow> (let x = bufs s b in
     \<not> bdisk x \<and> \<not> locked (slk (block_lock x)) \<and> lpid (slk (block_lock x)) = - 1 \<and> key s b < 2 ^ 31 \<and>
     (bdev x = 0 \<and> refcnt x = 0 \<or> bdev x = ROOTDEV \<and> valid x) \<and>
     (slocked (block_lock x) \<longrightarrow> refcnt x \<noteq> 0 \<and> spid (block_lock x) = pid (proc_table s p)) \<and>
     (bdev x = ROOTDEV \<and> refcnt x = 0 \<longrightarrow> bdata s b = platter (hw s) (key s b)))"

definition one_buf :: "('a) kdisk_scheme \<Rightarrow> bool" where
  "one_buf s \<longleftrightarrow> (\<forall>b < NBUF. \<forall>c < NBUF. bdev (bufs s b) = ROOTDEV \<and> bdev (bufs s c) = ROOTDEV \<and> key s b = key s c \<longrightarrow> b = c)"

definition lock_idle :: "spinlock \<Rightarrow> bool" where
  "lock_idle l \<longleftrightarrow> \<not> locked l \<and> lpid l = - 1"

definition cache_inv :: "('a) kdisk_scheme \<Rightarrow> nat \<Rightarrow> bool" where
  "cache_inv s p \<longleftrightarrow> quiet s p \<and> vq_idle s \<and> good_dev (vdev s) \<and> (\<exists>xs. lru_list (bufs s) xs) \<and>
     lock_idle (bcache_lock s) \<and> (\<forall>b < NBUF. buf_ok s p b) \<and> one_buf s"

text \<open>Only the disk, the device queue and the buffers differ.\<close>

definition cache_only :: "('a) kdisk_scheme \<Rightarrow> ('a) kdisk_scheme \<Rightarrow> bool" where
  "cache_only s s' \<longleftrightarrow> (\<exists>h i bs. s' = s\<lparr>hw := h, used_idx := i, bufs := bs\<rparr>)"

lemma cache_only_refl [simp]: "cache_only s s"
  unfolding cache_only_def by (rule exI [of _ "hw s"], rule exI [of _ "used_idx s"], rule exI [of _ "bufs s"]) simp

lemma cache_only_trans [trans]: "cache_only s t \<Longrightarrow> cache_only t u \<Longrightarrow> cache_only s u"
  by (clarsimp simp: cache_only_def) blast

lemma cache_onlyI [intro]: "cache_only s (s\<lparr>hw := h, used_idx := i, bufs := bs\<rparr>)"
  unfolding cache_only_def by blast

lemma cache_only_bufs [simp]: "cache_only s (s\<lparr>bufs := bs\<rparr>)"
  unfolding cache_only_def by (rule exI [of _ "hw s"], rule exI [of _ "used_idx s"], rule exI [of _ bs]) simp

lemma cache_only_hw [simp]: "cache_only s (s\<lparr>hw := h\<rparr>)"
  unfolding cache_only_def by (rule exI [of _ h], rule exI [of _ "used_idx s"], rule exI [of _ "bufs s"]) simp

lemma cache_only_queue [simp]: "cache_only s (s\<lparr>hw := h, used_idx := i\<rparr>)"
  unfolding cache_only_def by (rule exI [of _ h], rule exI [of _ i], rule exI [of _ "bufs s"]) simp

lemma find_SomeD: "find P xs = Some c \<Longrightarrow> P c \<and> c \<in> set xs"
  by (auto simp: find_Some_iff)

lemma find_unique:
  assumes "P b" and "b < n" and "\<And>c. c < n \<Longrightarrow> P c \<Longrightarrow> c = b"
  shows "find P [0..<n] = Some b"
proof -
  have "\<not> P j" if "j < b" for j using assms(2) assms(3) [of j] that by linarith
  then show ?thesis unfolding find_Some_iff using assms(1,2) by (intro exI [of _ b]) simp
qed

lemma buf_of_Some:
  assumes "one_buf s"
  shows "buf_of s k = Some b \<longleftrightarrow> b < NBUF \<and> bdev (bufs s b) = ROOTDEV \<and> key s b = k"
proof
  assume "buf_of s k = Some b"
  then show "b < NBUF \<and> bdev (bufs s b) = ROOTDEV \<and> key s b = k" by (auto simp: buf_of_def find_Some_iff)
next
  assume "b < NBUF \<and> bdev (bufs s b) = ROOTDEV \<and> key s b = k"
  then show "buf_of s k = Some b"
    unfolding buf_of_def using assms by (intro find_unique) (auto simp: one_buf_def)
qed

lemma buf_of_None: "buf_of s k = None \<longleftrightarrow> (\<forall>b < NBUF. bdev (bufs s b) = ROOTDEV \<longrightarrow> key s b \<noteq> k)"
  by (auto simp: buf_of_def find_None_iff)

section \<open>Critical sections\<close>

lemma quiet_bufs [simp]:
  "quiet (s\<lparr>bufs := bs\<rparr>) p = quiet s p" "quiet (s\<lparr>hw := h\<rparr>) p = quiet s p" "quiet (s\<lparr>used_idx := i\<rparr>) p = quiet s p"
  "quiet (s\<lparr>bcache_lock := l\<rparr>) p = quiet s p"
  by (simp_all add: quiet_def)

lemma vq_idle_bufs [simp]: "vq_idle (s\<lparr>bufs := bs\<rparr>) = vq_idle s" "vq_idle (s\<lparr>bcache_lock := l\<rparr>) = vq_idle s"
  by (simp_all add: vq_idle_def)

lemma quiet_cur: "quiet s p \<Longrightarrow> current_proc s = Some p"
  by (simp add: quiet_def)

abbreviation bcache_held :: "int \<Rightarrow> ('a) kdisk_scheme \<Rightarrow> ('a) kdisk_scheme" where
  "bcache_held q s \<equiv> s\<lparr>bcache_lock := (bcache_lock s)\<lparr>locked := True, lpid := q\<rparr>\<rparr>"

lemma acquire_bcache_run:
  assumes "lock_idle (bcache_lock s)" and "current_proc s = Some p"
  shows "acquire_bcache s = (Inr (), bcache_held (pid (proc_table s p)) s)"
  using bl.acquire_free [of s p] assms by (simp add: lock_idle_def)

lemma release_bcache_run:
  assumes "lock_idle (bcache_lock s)"
  shows "release_bcache (s\<lparr>bcache_lock := (bcache_lock s)\<lparr>locked := True, lpid := q\<rparr>, bufs := bs\<rparr>) = (Inr (), s\<lparr>bufs := bs\<rparr>)"
  using bl.release_held [of "s\<lparr>bcache_lock := (bcache_lock s)\<lparr>locked := True, lpid := q\<rparr>, bufs := bs\<rparr>"] assms
  by (simp add: lock_idle_def)

lemma bcache_section:
  assumes "lock_idle (bcache_lock s)" and "current_proc s = Some p"
  shows "kseq acquire_bcache (kseq (kmod (upd_buf b f)) release_bcache) s = (Inr (), upd_buf b f s)"
  using acquire_bcache_run [OF assms] release_bcache_run [OF assms(1)] by (simp add: upd_buf_def)

lemma lock_buf:
  assumes "buf_ok s p b" and "current_proc s = Some p" and "\<not> slocked (block_lock (bufs s b))"
  shows "acquiresleep (ChBufLock b) (bl_get b) (bl_upd b) s =
    (Inr (), upd_buf b (\<lambda>x. x\<lparr>block_lock := (block_lock x)\<lparr>slocked := True, spid := pid (proc_table s p)\<rparr>\<rparr>) s)"
  using blk.acquiresleep_free [where b = b and s = s and p = p] assms by (simp add: buf_ok_def Let_def)

definition taken :: "int \<Rightarrow> buf \<Rightarrow> buf" where
  "taken q x = x\<lparr>refcnt := refcnt x + 1, block_lock := (block_lock x)\<lparr>slocked := True, spid := q\<rparr>\<rparr>"

lemma bget_hit:
  assumes inv: "cache_inv s p" and k: "buf_of s (unat bno) = Some b" and free: "\<not> slocked (block_lock (bufs s b))"
  shows "bget ROOTDEV bno s = (Inr b, upd_buf b (taken (pid (proc_table s p))) s)"
proof -
  obtain xs where xs: "lru_list (bufs s) xs" using inv by (auto simp: cache_inv_def)
  have o: "one_buf s" "lock_idle (bcache_lock s)" "quiet s p" and bo: "b < NBUF \<Longrightarrow> buf_ok s p b"
    using inv by (auto simp: cache_inv_def)
  have b: "b < NBUF" "bdev (bufs s b) = ROOTDEV" "blockno (bufs s b) = bno"
    using buf_of_Some [OF o(1)] k by (auto simp: key_def unat_inj)
  let ?P = "\<lambda>b. bdev (bufs s b) = ROOTDEV \<and> blockno (bufs s b) = bno"
  have "find ?P xs = Some b"
  proof (rule ccontr)
    assume n: "find ?P xs \<noteq> Some b"
    have "find ?P xs \<noteq> None" using b xs lru_list_bound by (auto simp: find_None_iff)
    then obtain c where c: "find ?P xs = Some c" "?P c" "c \<in> set xs" using find_SomeD by fastforce
    then show False using o(1) b lru_list_bound [OF xs] n by (auto simp: one_buf_def key_def)
  qed
  then have w: "walk_lru (NBUF + 1) (\<lambda>b. bnext (bufs s b)) ?P (bnext (bufs s NBUF)) = Inr (Some b)"
    using lru_walks(1) [OF xs] by simp
  note cur = quiet_cur [OF o(3)]
  let ?s1 = "upd_buf b (\<lambda>x. x\<lparr>refcnt := refcnt x + 1\<rparr>) s"
  have "acquiresleep (ChBufLock b) (bl_get b) (bl_upd b) ?s1 = (Inr (), upd_buf b (taken (pid (proc_table s p))) s)"
    using blk.acquiresleep_free [where b = b and s = ?s1 and p = p] bo [OF b(1)] free cur
    by (simp add: buf_ok_def Let_def upd_buf_def taken_def)
  then show ?thesis
    using w acquire_bcache_run [OF o(2) cur] release_bcache_run [OF o(2)]
    by (simp add: bget_def Let_def upd_buf_def)
qed

definition recycled :: "u32 \<Rightarrow> int \<Rightarrow> buf \<Rightarrow> buf" where
  "recycled bno q x = x\<lparr>bdev := ROOTDEV, blockno := bno, valid := False, refcnt := 1,
     block_lock := (block_lock x)\<lparr>slocked := True, spid := q\<rparr>\<rparr>"

lemma bget_miss:
  assumes inv: "cache_inv s p" and k: "buf_of s (unat bno) = None" and xs: "lru_list (bufs s) xs"
    and b: "find (\<lambda>b. refcnt (bufs s b) = 0) (rev xs) = Some b"
  shows "bget ROOTDEV bno s = (Inr b, upd_buf b (recycled bno (pid (proc_table s p))) s)"
proof -
  have o: "lock_idle (bcache_lock s)" "quiet s p" using inv by (auto simp: cache_inv_def)
  have bb: "b < NBUF" "refcnt (bufs s b) = 0" using find_SomeD [OF b] lru_list_bound [OF xs] by auto
  then have bo: "buf_ok s p b" using inv by (simp add: cache_inv_def)
  let ?P = "\<lambda>b. bdev (bufs s b) = ROOTDEV \<and> blockno (bufs s b) = bno"
  have "find ?P xs = None" using k lru_list_bound [OF xs] by (auto simp: find_None_iff buf_of_None key_def)
  then have w: "walk_lru (NBUF + 1) (\<lambda>b. bnext (bufs s b)) ?P (bnext (bufs s NBUF)) = Inr None"
    using lru_walks(1) [OF xs] by simp
  note cur = quiet_cur [OF o(2)]
  let ?s1 = "upd_buf b (\<lambda>x. x\<lparr>bdev := ROOTDEV, blockno := bno, valid := False, refcnt := 1\<rparr>) s"
  have "acquiresleep (ChBufLock b) (bl_get b) (bl_upd b) ?s1 = (Inr (), upd_buf b (recycled bno (pid (proc_table s p))) s)"
    using blk.acquiresleep_free [where b = b and s = ?s1 and p = p] bo bb cur
    by (simp add: buf_ok_def Let_def upd_buf_def recycled_def)
  then show ?thesis
    using w lru_walks(2) [OF xs] b acquire_bcache_run [OF o(1) cur] release_bcache_run [OF o(1)]
    by (simp add: bget_def Let_def upd_buf_def)
qed

lemma bread_hit:
  assumes "cache_inv s p" and "buf_of s (unat bno) = Some b" and "\<not> slocked (block_lock (bufs s b))"
  shows "bread ROOTDEV bno s = (Inr b, upd_buf b (taken (pid (proc_table s p))) s)"
proof -
  have "b < NBUF" "bdev (bufs s b) = ROOTDEV" using assms(1,2) by (auto simp: cache_inv_def buf_of_Some)
  then have "valid (bufs s b)" using assms(1) by (auto simp: cache_inv_def buf_ok_def Let_def ROOTDEV_def)
  then show ?thesis using bget_hit [OF assms] by (simp add: bread_def upd_buf_def taken_def)
qed

lemma bread_miss:
  assumes inv: "cache_inv s p" and k: "buf_of s (unat bno) = None" and small: "unat bno < 2 ^ 31"
    and xs: "lru_list (bufs s) xs" and b: "find (\<lambda>b. refcnt (bufs s b) = 0) (rev xs) = Some b"
  shows "\<exists>h'. bread ROOTDEV bno s = (Inr b, s\<lparr>hw := h', used_idx := dev_idx h',
      bufs := (bufs s)(b := (recycled bno (pid (proc_table s p)) (bufs s b))\<lparr>valid := True\<rparr>)\<rparr>) \<and>
    vq_idle (s\<lparr>hw := h', used_idx := dev_idx h'\<rparr>) \<and> answered b False (unat bno) (hw s) h'"
proof -
  let ?x = "recycled bno (pid (proc_table s p)) (bufs s b)"
  let ?s1 = "s\<lparr>bufs := (bufs s)(b := ?x)\<rparr>"
  have o: "quiet s p" "vq_idle s" "good_dev (vdev s)" using inv by (simp_all add: cache_inv_def)
  have "b < NBUF" using find_SomeD [OF b] lru_list_bound [OF xs] by auto
  then have "\<not> bdisk (bufs s b)" using inv by (simp add: cache_inv_def buf_ok_def Let_def)
  then obtain h' where h': "virtio_disk_rw b False ?s1 = (Inr (), ?s1\<lparr>hw := h', used_idx := dev_idx h'\<rparr>)"
      "vq_idle (?s1\<lparr>hw := h', used_idx := dev_idx h'\<rparr>)" "answered b False (unat bno) (hw ?s1) h'"
    using virtio_disk_rw_run [of ?s1 p b False] o small by (auto simp: recycled_def)
  have "bget ROOTDEV bno s = (Inr b, ?s1)" using bget_miss [OF inv k xs b] by (simp add: upd_buf_def)
  moreover have "\<not> valid ?x" by (simp add: recycled_def)
  ultimately have "bread ROOTDEV bno s = (Inr b, s\<lparr>hw := h', used_idx := dev_idx h', bufs := (bufs s)(b := ?x\<lparr>valid := True\<rparr>)\<rparr>)"
    using h'(1) by (simp add: bread_def upd_buf_def)
  moreover have "vq_idle (s\<lparr>hw := h', used_idx := dev_idx h'\<rparr>)" using h'(2) by (simp add: vq_idle_def)
  ultimately show ?thesis using h'(3) by auto
qed

section \<open>Counting buffers in use\<close>

lemma in_use_bufs:
  assumes "cache_inv s p"
  shows "{k. 0 < a_rc (abs_cache s) k} = key s ` {b. b < NBUF \<and> refcnt (bufs s b) \<noteq> 0}"
proof -
  have o: "one_buf s" using assms by (simp add: cache_inv_def)
  have "bdev (bufs s b) = ROOTDEV" if "b < NBUF" "refcnt (bufs s b) \<noteq> 0" for b
    using assms that by (auto simp: cache_inv_def buf_ok_def Let_def)
  then show ?thesis
    by (auto simp: abs_cache_def buf_of_Some [OF o] image_iff unat_gt_0 split: option.splits)
      (metis buf_of_Some [OF o] option.inject option.distinct(1) unat_gt_0)+
qed

lemma free_buf_exists:
  assumes inv: "cache_inv s p" and c: "card {k. 0 < a_rc (abs_cache s) k} < NBUF" and xs: "lru_list (bufs s) xs"
  shows "\<exists>b. find (\<lambda>b. refcnt (bufs s b) = 0) (rev xs) = Some b"
proof (rule ccontr)
  assume "\<not> ?thesis"
  then have all: "refcnt (bufs s b) \<noteq> 0" if "b < NBUF" for b
    using that lru_list_bound [OF xs] by (auto simp: find_None_iff)
  then have "bdev (bufs s b) = ROOTDEV" if "b < NBUF" for b
    using inv that by (auto simp: cache_inv_def buf_ok_def Let_def)
  then have "inj_on (key s) {..<NBUF}" using inv by (auto simp: cache_inv_def one_buf_def intro!: inj_onI)
  then have "card (key s ` {..<NBUF}) = NBUF" by (simp add: card_image)
  moreover have "{b. b < NBUF \<and> refcnt (bufs s b) \<noteq> 0} = {..<NBUF}" using all by auto
  ultimately show False using c in_use_bufs [OF inv] by simp
qed

section \<open>The operations on the abstraction\<close>

lemma key_upd [simp]:
  "key (s\<lparr>bufs := (bufs s)(b := x)\<rparr>) c = (if c = b then unat (blockno x) else key s c)"
  "key (s\<lparr>hw := h\<rparr>) = key s" "key (s\<lparr>used_idx := i\<rparr>) = key s" "key (s\<lparr>bcache_lock := l\<rparr>) = key s"
  by (simp_all add: key_def fun_eq_iff)

lemma same_identity:
  assumes "\<And>c. c < NBUF \<Longrightarrow> bdev (bufs s' c) = bdev (bufs s c) \<and> blockno (bufs s' c) = blockno (bufs s c)"
  shows "buf_of s' = buf_of s" and "one_buf s' = one_buf s"
proof -
  show "buf_of s' = buf_of s"
  proof
    fix k
    show "buf_of s' k = buf_of s k" unfolding buf_of_def by (rule find_cong) (use assms in \<open>auto simp: key_def\<close>)
  qed
  show "one_buf s' = one_buf s" using assms by (simp add: one_buf_def key_def)
qed

lemma same_identity_hw [simp]:
  "buf_of (s\<lparr>hw := h\<rparr>) = buf_of s" "buf_of (s\<lparr>used_idx := i\<rparr>) = buf_of s"
  "one_buf (s\<lparr>hw := h\<rparr>) = one_buf s" "one_buf (s\<lparr>used_idx := i\<rparr>) = one_buf s"
  by (rule same_identity; simp)+

lemma abs_held_upd:
  assumes inv: "one_buf s" and b: "buf_of s k = Some b" and x: "bdev x = bdev (bufs s b)" "blockno x = blockno (bufs s b)"
  shows "abs_cache (s\<lparr>bufs := (bufs s)(b := x)\<rparr>) = (abs_cache s)\<lparr>a_rc := (a_rc (abs_cache s))(k := unat (refcnt x)),
     a_held := (a_held (abs_cache s))(b := if slocked (block_lock x) then Some k else None)\<rparr>"
proof -
  let ?s = "s\<lparr>bufs := (bufs s)(b := x)\<rparr>"
  have bb: "b < NBUF" "key s b = k" using inv b by (auto simp: buf_of_Some)
  have bo: "buf_of ?s = buf_of s" by (rule same_identity(1)) (use x in auto)
  have ne: "buf_of s j \<noteq> Some b" if "j \<noteq> k" for j using that inv bb by (auto simp: buf_of_Some)
  have "a_rc (abs_cache ?s) = (a_rc (abs_cache s))(k := unat (refcnt x))"
    using b ne by (auto simp: abs_cache_def bo fun_eq_iff split: option.splits)
  moreover have "a_held (abs_cache ?s) = (a_held (abs_cache s))(b := if slocked (block_lock x) then Some k else None)"
    using bb x by (auto simp: abs_cache_def fun_eq_iff key_def)
  moreover have "a_view (abs_cache ?s) = a_view (abs_cache s)" by (simp add: abs_cache_def bo cong: option.case_cong)
  ultimately show ?thesis by (simp add: abs_cache_def)
qed

text \<open>What remains to check when one buffer changes and keeps its block.\<close>

lemma inv_held_upd:
  assumes inv: "cache_inv s p" and b: "b < NBUF" and x: "bdev x = bdev (bufs s b)" "blockno x = blockno (bufs s b)"
    and l: "bnext x = bnext (bufs s b)" "bprev x = bprev (bufs s b)"
    and ok: "buf_ok (s\<lparr>bufs := (bufs s)(b := x)\<rparr>) p b"
  shows "cache_inv (s\<lparr>bufs := (bufs s)(b := x)\<rparr>) p"
proof -
  let ?s = "s\<lparr>bufs := (bufs s)(b := x)\<rparr>"
  have "one_buf ?s = one_buf s" by (rule same_identity(2)) (use x in auto)
  moreover obtain xs where "lru_list (bufs s) xs" using inv by (auto simp: cache_inv_def)
  then have "lru_list (bufs ?s) xs" by (rule lru_list_fields) (simp add: l)
  moreover have "buf_ok ?s p c" if "c < NBUF" for c
    using inv that ok by (cases "c = b") (auto simp: cache_inv_def buf_ok_def Let_def)
  ultimately show ?thesis using inv by (auto simp: cache_inv_def)
qed

abbreviation in_use :: "acache \<Rightarrow> nat set" where
  "in_use a \<equiv> {k. 0 < a_rc a k}"

definition a_bread :: "nat \<Rightarrow> nat \<Rightarrow> acache \<Rightarrow> acache" where
  "a_bread k b a = a\<lparr>a_rc := (a_rc a)(k := a_rc a k + 1), a_held := (a_held a)(b \<mapsto> k)\<rparr>"

definition a_brelse :: "nat \<Rightarrow> nat \<Rightarrow> acache \<Rightarrow> acache" where
  "a_brelse k b a = a\<lparr>a_rc := (a_rc a)(k := a_rc a k - 1), a_held := (a_held a)(b := None)\<rparr>"

definition a_bwrite :: "nat \<Rightarrow> acache \<Rightarrow> acache" where
  "a_bwrite k a = a\<lparr>a_disk := (a_disk a)(k := a_view a k), a_trace := a_trace a @ [(k, a_view a k)]\<rparr>"

definition a_store :: "nat \<Rightarrow> u8 list \<Rightarrow> acache \<Rightarrow> acache" where
  "a_store k bs a = a\<lparr>a_view := (a_view a)(k := bs)\<rparr>"

lemma unat_inc: "unat (x :: u32) + 1 < 2 ^ 32 \<Longrightarrow> unat (x + 1) = unat x + 1"
  by (subst unat_plus_nowrap) simp_all

lemma bread_hit_spec:
  assumes inv: "cache_inv s p" and b: "buf_of s (unat bno) = Some b" and free: "\<not> slocked (block_lock (bufs s b))"
    and r: "a_rc (abs_cache s) (unat bno) + 1 < 2 ^ 32"
  shows "\<exists>s'. bread ROOTDEV bno s = (Inr b, s') \<and> cache_inv s' p \<and> cache_only s s' \<and>
    abs_cache s' = a_bread (unat bno) b (abs_cache s) \<and> bdata s' b = a_view (abs_cache s) (unat bno)"
proof -
  let ?x = "taken (pid (proc_table s p)) (bufs s b)"
  let ?s = "s\<lparr>bufs := (bufs s)(b := ?x)\<rparr>"
  have o: "one_buf s" using inv by (simp add: cache_inv_def)
  have bb: "b < NBUF" using b o by (simp add: buf_of_Some)
  have rc: "a_rc (abs_cache s) (unat bno) = unat (refcnt (bufs s b))" using b by (simp add: abs_cache_def)
  then have rx: "unat (refcnt ?x) = a_rc (abs_cache s) (unat bno) + 1"
    using r unat_inc [of "refcnt (bufs s b)"] by (simp add: taken_def)
  then have nz: "refcnt ?x \<noteq> 0" by auto
  have "buf_ok s p b" using inv bb by (simp add: cache_inv_def)
  then have "buf_ok ?s p b"
    using nz b o by (auto simp: buf_ok_def Let_def taken_def buf_of_Some ROOTDEV_def key_def)
  then have "cache_inv ?s p" by (intro inv_held_upd [OF inv bb]) (simp_all add: taken_def)
  moreover have "abs_cache ?s = a_bread (unat bno) b (abs_cache s)"
    using abs_held_upd [OF o b, of ?x] rx by (simp add: a_bread_def taken_def)
  moreover have "bdata ?s b = a_view (abs_cache s) (unat bno)" using b by (simp add: abs_cache_def)
  ultimately show ?thesis using bread_hit [OF inv b free] by (simp add: upd_buf_def)
qed

lemma recycled_identity:
  assumes o: "one_buf s" and n: "buf_of s k = None" and b: "b < NBUF" and x: "bdev x = ROOTDEV" "unat (blockno x) = k"
    and s': "\<And>c. c < NBUF \<Longrightarrow> c \<noteq> b \<Longrightarrow> bufs s' c = bufs s c" "bufs s' b = x"
  shows "one_buf s'" and "buf_of s' j = (if j = k then Some b else if buf_of s j = Some b then None else buf_of s j)"
proof -
  have ks: "key s' c = (if c = b then k else key s c)" if "c < NBUF" for c using that s' x by (simp add: key_def)
  have nk: "bdev (bufs s c) = ROOTDEV \<Longrightarrow> key s c \<noteq> k" if "c < NBUF" for c using n that by (simp add: buf_of_None)
  have dv: "bdev (bufs s' c) = (if c = b then ROOTDEV else bdev (bufs s c))" if "c < NBUF" for c using that s' x by simp
  have uniq: "c = b" if "c < NBUF" "bdev (bufs s c) = ROOTDEV" "bdev (bufs s b) = ROOTDEV" "key s c = key s b" for c
    using o b that by (auto simp: one_buf_def)
  show ob: "one_buf s'" using o nk unfolding one_buf_def by (auto simp: ks dv)
  have "buf_of s' j = Some c \<longleftrightarrow> (if j = k then Some b else if buf_of s j = Some b then None else buf_of s j) = Some c" for c
  proof -
    have "buf_of s' j = Some c \<longleftrightarrow> c < NBUF \<and> (if c = b then j = k else bdev (bufs s c) = ROOTDEV \<and> key s c = j)"
      using buf_of_Some [OF ob] ks dv by auto
    also have "\<dots> \<longleftrightarrow> (if j = k then Some b else if buf_of s j = Some b then None else buf_of s j) = Some c"
      using b nk n buf_of_Some [OF o] uniq by auto
    finally show ?thesis .
  qed
  then show "buf_of s' j = (if j = k then Some b else if buf_of s j = Some b then None else buf_of s j)"
    by (metis (no_types, lifting) not_None_eq)
qed

lemma bread_miss_spec:
  assumes inv: "cache_inv s p" and n: "buf_of s (unat bno) = None" and small: "unat bno < 2 ^ 31"
    and c: "card (in_use (abs_cache s)) < NBUF"
  shows "\<exists>b s'. bread ROOTDEV bno s = (Inr b, s') \<and> cache_inv s' p \<and> cache_only s s' \<and> b < NBUF \<and>
    a_held (abs_cache s) b = None \<and>
    abs_cache s' = a_bread (unat bno) b (abs_cache s) \<and> bdata s' b = a_view (abs_cache s) (unat bno)"
proof -
  obtain xs where xs: "lru_list (bufs s) xs" using inv by (auto simp: cache_inv_def)
  then obtain b where f: "find (\<lambda>b. refcnt (bufs s b) = 0) (rev xs) = Some b" using free_buf_exists [OF inv c] by blast
  let ?x = "(recycled bno (pid (proc_table s p)) (bufs s b))\<lparr>valid := True\<rparr>" and ?k = "unat bno"
  obtain h' where h': "bread ROOTDEV bno s = (Inr b, s\<lparr>hw := h', used_idx := dev_idx h', bufs := (bufs s)(b := ?x)\<rparr>)"
      "vq_idle (s\<lparr>hw := h', used_idx := dev_idx h'\<rparr>)" "answered b False ?k (hw s) h'"
    using bread_miss [OF inv n small xs f] by blast
  define x where "x = ?x"
  define s' where "s' = s\<lparr>hw := h', used_idx := dev_idx h', bufs := (bufs s)(b := x)\<rparr>"
  have s': "bufs s' = (bufs s)(b := x)" "hw s' = h'" "proc_table s' = proc_table s" by (simp_all add: s'_def)
  have x: "bdev x = ROOTDEV" "blockno x = bno" "valid x" "refcnt x = 1" "bdisk x = bdisk (bufs s b)"
    "slocked (block_lock x)" "slk (block_lock x) = slk (block_lock (bufs s b))" "spid (block_lock x) = pid (proc_table s p)"
    "bnext x = bnext (bufs s b)" "bprev x = bprev (bufs s b)"
    by (simp_all add: x_def recycled_def)
  have bb: "b < NBUF" "refcnt (bufs s b) = 0" using find_SomeD [OF f] lru_list_bound [OF xs] by auto
  have o: "one_buf s" "quiet s p" "good_dev (vdev s)" "lock_idle (bcache_lock s)" and ok: "\<And>c. c < NBUF \<Longrightarrow> buf_ok s p c"
    using inv by (auto simp: cache_inv_def)
  have d: "vdata h' = (vdata (hw s))(b := platter (hw s) ?k)" "platter h' = platter (hw s)" "vtrace h' = vtrace (hw s)"
    using h'(3) by (simp_all add: answered_def)
  have idn: "one_buf s'" "buf_of s' j = (if j = ?k then Some b else if buf_of s j = Some b then None else buf_of s j)" for j
    using recycled_identity [OF o(1) n bb(1), of x s'] by (simp_all add: s' x)
  have nh: "\<not> slocked (block_lock (bufs s b))" using ok [OF bb(1)] bb(2) by (auto simp: buf_ok_def Let_def)
  have clean: "bdata s b = platter (hw s) j" if "buf_of s j = Some b" for j
    using that ok [OF bb(1)] bb(2) by (auto simp: buf_ok_def Let_def buf_of_Some [OF o(1)])
  have keep: "buf_ok s' p c" if "c < NBUF" "c \<noteq> b" for c
    using ok [OF that(1)] that(2) d by (simp add: buf_ok_def Let_def key_def s')
  have new: "buf_ok s' p b"
    using ok [OF bb(1)] small by (simp add: buf_ok_def Let_def x key_def s')
  have ok': "buf_ok s' p c" if "c < NBUF" for c using that keep new by (cases "c = b") auto
  have "lru_list (bufs s') xs" using xs by (rule lru_list_fields) (simp add: x s')
  moreover have "vq_idle s'" using h'(2) by (simp add: vq_idle_def s'_def)
  ultimately have ci: "cache_inv s' p" using o idn(1) ok' by (auto simp: cache_inv_def s'_def quiet_def)
  have "a_rc (abs_cache s) ?k = 0" using n by (simp add: abs_cache_def)
  moreover have "a_rc (abs_cache s') = (a_rc (abs_cache s))(?k := 1)"
    using bb(2) by (auto simp: abs_cache_def idn(2) fun_eq_iff s' x split: option.splits)
  moreover have "a_view (abs_cache s') = a_view (abs_cache s)"
    using n clean by (auto simp: abs_cache_def idn(2) fun_eq_iff d s' split: option.splits)
  moreover have "a_held (abs_cache s') = (a_held (abs_cache s))(b \<mapsto> ?k)"
    using bb(1) by (auto simp: abs_cache_def fun_eq_iff s' x key_def)
  ultimately have "abs_cache s' = a_bread ?k b (abs_cache s)"
    by (simp add: a_bread_def abs_cache_def d s')
  moreover have "bdata s' b = a_view (abs_cache s) ?k" using n d by (simp add: abs_cache_def s')
  moreover have "a_held (abs_cache s) b = None" using nh by (simp add: abs_cache_def)
  ultimately show ?thesis using h'(1) bb(1) ci by (auto simp: s'_def x_def)
qed

lemma bread_spec:
  assumes inv: "cache_inv s p" and small: "unat bno < 2 ^ 31" and nh: "unat bno \<notin> ran (a_held (abs_cache s))"
    and r: "a_rc (abs_cache s) (unat bno) + 1 < 2 ^ 32"
    and c: "0 < a_rc (abs_cache s) (unat bno) \<or> card (in_use (abs_cache s)) < NBUF"
  shows "\<exists>b s'. bread ROOTDEV bno s = (Inr b, s') \<and> cache_inv s' p \<and> cache_only s s' \<and> b < NBUF \<and>
    a_held (abs_cache s) b = None \<and>
    abs_cache s' = a_bread (unat bno) b (abs_cache s) \<and> bdata s' b = a_view (abs_cache s) (unat bno)"
proof (cases "buf_of s (unat bno)")
  case None
  then have "a_rc (abs_cache s) (unat bno) = 0" by (simp add: abs_cache_def)
  then show ?thesis using bread_miss_spec [OF inv None small] c by simp
next
  case (Some b)
  have b: "b < NBUF" "key s b = unat bno" using Some inv by (auto simp: cache_inv_def buf_of_Some)
  then have "a_held (abs_cache s) b = Some (unat bno)" if "slocked (block_lock (bufs s b))" using that by (simp add: abs_cache_def)
  then have "\<not> slocked (block_lock (bufs s b))" using nh by (auto dest: ranI)
  moreover from this have "a_held (abs_cache s) b = None" by (simp add: abs_cache_def)
  ultimately show ?thesis using bread_hit_spec [OF inv Some _ r] b by blast
qed

text \<open>What the process knows about a buffer it holds.\<close>

lemma heldD:
  assumes inv: "cache_inv s p" and h: "a_held (abs_cache s) b = Some k"
  shows "b < NBUF" and "slocked (block_lock (bufs s b))" and "spid (block_lock (bufs s b)) = pid (proc_table s p)"
    and "key s b = k" and "buf_of s k = Some b" and "refcnt (bufs s b) \<noteq> 0" and "bdev (bufs s b) = ROOTDEV"
    and "buf_ok s p b" and "a_view (abs_cache s) k = bdata s b" and "a_rc (abs_cache s) k = unat (refcnt (bufs s b))"
proof -
  show b: "b < NBUF" "slocked (block_lock (bufs s b))" "key s b = k" using h by (auto simp: abs_cache_def split: if_splits)
  then show ok: "buf_ok s p b" using inv by (simp add: cache_inv_def)
  show "spid (block_lock (bufs s b)) = pid (proc_table s p)" "refcnt (bufs s b) \<noteq> 0" "bdev (bufs s b) = ROOTDEV"
    using ok b by (auto simp: buf_ok_def Let_def)
  then show bo: "buf_of s k = Some b" using inv b by (simp add: cache_inv_def buf_of_Some)
  show "a_view (abs_cache s) k = bdata s b" "a_rc (abs_cache s) k = unat (refcnt (bufs s b))"
    using bo by (simp_all add: abs_cache_def)
qed

lemma holding_buf:
  assumes "cache_inv s p" and "a_held (abs_cache s) b = Some k"
  shows "holdingsleep (bl_get b) (bl_upd b) s = (Inr True, s)"
  using blk.holdingsleep_run [where b = b and s = s and p = p] heldD [OF assms] assms(1)
  by (simp add: buf_ok_def Let_def cache_inv_def quiet_cur)

lemma set_bdata_spec:
  assumes inv: "cache_inv s p" and h: "a_held (abs_cache s) b = Some k"
  shows "cache_inv (set_bdata b bs s) p" and "cache_only s (set_bdata b bs s)"
    and "abs_cache (set_bdata b bs s) = a_store k bs (abs_cache s)"
proof -
  let ?s = "set_bdata b bs s"
  have s: "?s = s\<lparr>hw := (hw s)\<lparr>vdata := (vdata (hw s))(b := bs)\<rparr>\<rparr>" by (simp add: set_bdata_def upd_hw_def)
  note hd = heldD [OF inv h]
  have "buf_ok ?s p c" if "c < NBUF" for c
    using inv that hd by (cases "c = b") (auto simp: s cache_inv_def buf_ok_def Let_def)
  then show "cache_inv ?s p" using inv by (auto simp: cache_inv_def s vq_idle_def)
  show "cache_only s ?s" by (simp add: s)
  have "buf_of s j \<noteq> Some b" if "j \<noteq> k" for j using that hd inv by (auto simp: cache_inv_def buf_of_Some)
  then have "a_view (abs_cache ?s) = (a_view (abs_cache s))(k := bs)"
    using hd(5) by (auto simp: abs_cache_def s fun_eq_iff split: option.splits)
  then show "abs_cache ?s = a_store k bs (abs_cache s)"
    by (simp add: abs_cache_def a_store_def s cong: option.case_cong if_cong)
qed

lemma bwrite_spec:
  assumes inv: "cache_inv s p" and h: "a_held (abs_cache s) b = Some k"
  shows "\<exists>s'. bwrite b s = (Inr (), s') \<and> cache_inv s' p \<and> cache_only s s' \<and>
    abs_cache s' = a_bwrite k (abs_cache s) \<and> bdata s' = bdata s"
proof -
  note hd = heldD [OF inv h]
  have o: "quiet s p" "vq_idle s" "good_dev (vdev s)" "one_buf s" using inv by (simp_all add: cache_inv_def)
  have k: "unat (blockno (bufs s b)) = k" "k < 2 ^ 31" "\<not> bdisk (bufs s b)"
    using hd(4,8) by (simp_all add: key_def buf_ok_def Let_def)
  obtain h' where h': "virtio_disk_rw b True s = (Inr (), s\<lparr>hw := h', used_idx := dev_idx h'\<rparr>)"
      "vq_idle (s\<lparr>hw := h', used_idx := dev_idx h'\<rparr>)" "answered b True k (hw s) h'"
    using virtio_disk_rw_run [OF o(1-3), of b True] k by auto
  let ?s = "s\<lparr>hw := h', used_idx := dev_idx h'\<rparr>"
  have d: "vdata h' = vdata (hw s)" "platter h' = (platter (hw s))(k := bdata s b)" "vtrace h' = vtrace (hw s) @ [(k, bdata s b)]"
    using h'(3) by (simp_all add: answered_def)
  have "buf_ok ?s p c" if "c < NBUF" for c
  proof -
    have "key s c \<noteq> k" if "c \<noteq> b" "bdev (bufs s c) = ROOTDEV" using o(4) hd \<open>c < NBUF\<close> that by (auto simp: one_buf_def)
    then show ?thesis using inv that hd(6) d by (cases "c = b") (auto simp: cache_inv_def buf_ok_def Let_def)
  qed
  then have "cache_inv ?s p" using inv h'(2) by (auto simp: cache_inv_def)
  moreover have "a_view (abs_cache ?s) = a_view (abs_cache s)"
    using hd(5) by (auto simp: abs_cache_def d fun_eq_iff split: option.splits)
  then have "abs_cache ?s = a_bwrite k (abs_cache s)"
    using hd(9) by (simp add: abs_cache_def a_bwrite_def d cong: option.case_cong if_cong)
  ultimately show ?thesis using h'(1) holding_buf [OF inv h] d by (auto simp: bwrite_def)
qed

lemma refcount_spec:
  assumes inv: "cache_inv s p" and h: "a_held (abs_cache s) b = Some k" and nz: "r \<noteq> 0"
  defines "s' \<equiv> upd_buf b (\<lambda>x. x\<lparr>refcnt := r\<rparr>) s"
  shows "cache_inv s' p \<and> cache_only s s' \<and> abs_cache s' = (abs_cache s)\<lparr>a_rc := (a_rc (abs_cache s))(k := unat r)\<rparr>"
proof -
  note hd = heldD [OF inv h]
  let ?x = "(bufs s b)\<lparr>refcnt := r\<rparr>"
  have "buf_ok (s\<lparr>bufs := (bufs s)(b := ?x)\<rparr>) p b" using hd nz by (auto simp: buf_ok_def Let_def key_def)
  then have "cache_inv (s\<lparr>bufs := (bufs s)(b := ?x)\<rparr>) p" by (intro inv_held_upd [OF inv hd(1)]) simp_all
  moreover have "(a_held (abs_cache s))(b := Some k) = a_held (abs_cache s)" using h by auto
  then have "abs_cache (s\<lparr>bufs := (bufs s)(b := ?x)\<rparr>) = (abs_cache s)\<lparr>a_rc := (a_rc (abs_cache s))(k := unat r)\<rparr>"
    using abs_held_upd [OF _ hd(5), of ?x] hd(2) inv by (simp add: cache_inv_def)
  ultimately show ?thesis by (simp add: s'_def upd_buf_def)
qed

lemma bpin_spec:
  assumes inv: "cache_inv s p" and h: "a_held (abs_cache s) b = Some k" and r: "a_rc (abs_cache s) k + 1 < 2 ^ 32"
  shows "\<exists>s'. bpin b s = (Inr (), s') \<and> cache_inv s' p \<and> cache_only s s' \<and> bdata s' = bdata s \<and>
    abs_cache s' = (abs_cache s)\<lparr>a_rc := (a_rc (abs_cache s))(k := a_rc (abs_cache s) k + 1)\<rparr>"
proof -
  note hd = heldD [OF inv h]
  let ?r = "refcnt (bufs s b) + 1"
  have u: "unat ?r = a_rc (abs_cache s) k + 1" using r hd(10) unat_inc by simp
  then have "?r \<noteq> 0" by auto
  then have rs: "cache_inv (upd_buf b (\<lambda>x. x\<lparr>refcnt := ?r\<rparr>) s) p" "cache_only s (upd_buf b (\<lambda>x. x\<lparr>refcnt := ?r\<rparr>) s)"
    "abs_cache (upd_buf b (\<lambda>x. x\<lparr>refcnt := ?r\<rparr>) s) = (abs_cache s)\<lparr>a_rc := (a_rc (abs_cache s))(k := a_rc (abs_cache s) k + 1)\<rparr>"
    using refcount_spec [OF inv h] u by auto
  have "upd_buf b (\<lambda>x. x\<lparr>refcnt := refcnt x + 1\<rparr>) s = upd_buf b (\<lambda>x. x\<lparr>refcnt := ?r\<rparr>) s" by (simp add: upd_buf_def)
  moreover have "bpin b s = (Inr (), upd_buf b (\<lambda>x. x\<lparr>refcnt := refcnt x + 1\<rparr>) s)"
    using bcache_section [of s p] inv by (simp add: bpin_def cache_inv_def quiet_cur)
  ultimately show ?thesis using rs by (auto simp: upd_buf_def)
qed

lemma unat_dec: "x \<noteq> 0 \<Longrightarrow> unat (x - 1 :: u32) = unat x - 1"
  by (metis One_nat_def unat_minus_one)

lemma bunpin_spec:
  assumes inv: "cache_inv s p" and h: "a_held (abs_cache s) b = Some k" and r: "1 < a_rc (abs_cache s) k"
  shows "\<exists>s'. bunpin b s = (Inr (), s') \<and> cache_inv s' p \<and> cache_only s s' \<and> bdata s' = bdata s \<and>
    abs_cache s' = (abs_cache s)\<lparr>a_rc := (a_rc (abs_cache s))(k := a_rc (abs_cache s) k - 1)\<rparr>"
proof -
  note hd = heldD [OF inv h]
  let ?r = "refcnt (bufs s b) - 1"
  have u: "unat ?r = a_rc (abs_cache s) k - 1" using hd(6,10) unat_dec by simp
  then have "unat ?r \<noteq> 0" using r by simp
  then have "?r \<noteq> 0" by (metis unat_0)
  then have rs: "cache_inv (upd_buf b (\<lambda>x. x\<lparr>refcnt := ?r\<rparr>) s) p" "cache_only s (upd_buf b (\<lambda>x. x\<lparr>refcnt := ?r\<rparr>) s)"
    "abs_cache (upd_buf b (\<lambda>x. x\<lparr>refcnt := ?r\<rparr>) s) = (abs_cache s)\<lparr>a_rc := (a_rc (abs_cache s))(k := a_rc (abs_cache s) k - 1)\<rparr>"
    using refcount_spec [OF inv h] u by auto
  have "upd_buf b (\<lambda>x. x\<lparr>refcnt := refcnt x - 1\<rparr>) s = upd_buf b (\<lambda>x. x\<lparr>refcnt := ?r\<rparr>) s" by (simp add: upd_buf_def)
  moreover have "bunpin b s = (Inr (), upd_buf b (\<lambda>x. x\<lparr>refcnt := refcnt x - 1\<rparr>) s)"
    using bcache_section [of s p] inv by (simp add: bunpin_def cache_inv_def quiet_cur)
  ultimately show ?thesis using rs by (auto simp: upd_buf_def)
qed

text \<open>Moving a buffer in the list changes nothing that the abstraction or the invariant sees.\<close>

lemma relink:
  assumes f: "\<And>i. valid (bs' i) = valid (bs i) \<and> bdisk (bs' i) = bdisk (bs i) \<and> bdev (bs' i) = bdev (bs i) \<and>
      blockno (bs' i) = blockno (bs i) \<and> refcnt (bs' i) = refcnt (bs i) \<and> block_lock (bs' i) = block_lock (bs i)"
  shows "abs_cache (s\<lparr>bufs := bs'\<rparr>) = abs_cache (s\<lparr>bufs := bs\<rparr>)"
    and "cache_inv (s\<lparr>bufs := bs\<rparr>) p \<Longrightarrow> lru_list bs' xs \<Longrightarrow> cache_inv (s\<lparr>bufs := bs'\<rparr>) p"
proof -
  have ii: "buf_of (s\<lparr>bufs := bs'\<rparr>) = buf_of (s\<lparr>bufs := bs\<rparr>)" "one_buf (s\<lparr>bufs := bs'\<rparr>) = one_buf (s\<lparr>bufs := bs\<rparr>)"
    by (rule same_identity; simp add: f)+
  have k: "key (s\<lparr>bufs := bs'\<rparr>) = key (s\<lparr>bufs := bs\<rparr>)" by (simp add: key_def fun_eq_iff f)
  show "abs_cache (s\<lparr>bufs := bs'\<rparr>) = abs_cache (s\<lparr>bufs := bs\<rparr>)"
    by (simp add: abs_cache_def ii k f cong: option.case_cong if_cong)
  have "buf_ok (s\<lparr>bufs := bs'\<rparr>) p c = buf_ok (s\<lparr>bufs := bs\<rparr>) p c" for c by (simp add: buf_ok_def Let_def k f)
  then show "cache_inv (s\<lparr>bufs := bs\<rparr>) p \<Longrightarrow> lru_list bs' xs \<Longrightarrow> cache_inv (s\<lparr>bufs := bs'\<rparr>) p"
    by (auto simp: cache_inv_def ii)
qed

definition released :: "buf \<Rightarrow> buf" where
  "released x = x\<lparr>block_lock := (block_lock x)\<lparr>slocked := False, spid := 0\<rparr>, refcnt := refcnt x - 1\<rparr>"

lemma quiet_sie: "quiet s p \<Longrightarrow> s\<lparr>sie := True\<rparr> = s"
  by (rule kcore.equality) (simp_all add: quiet_def)

lemma brelse_run:
  assumes inv: "cache_inv s p" and h: "a_held (abs_cache s) b = Some k"
  shows "brelse b s = (Inr (), let bs = (bufs s)(b := released (bufs s b)) in
    s\<lparr>bufs := if refcnt (bs b) = 0 \<and> bprev (bs b) \<noteq> NBUF then push_front b (unlink_buf b bs) else bs\<rparr>)"
proof -
  note hd = heldD [OF inv h]
  have q: "quiet s p" "lock_idle (bcache_lock s)" using inv by (simp_all add: cache_inv_def)
  note cur = quiet_cur [OF q(1)]
  let ?s1 = "bl_upd b (\<lambda>l. l\<lparr>slocked := False, spid := 0\<rparr>) s"
  have "releasesleep (ChBufLock b) (bl_get b) (bl_upd b) s =
      (Inr (), ?s1\<lparr>proc_table := woken (ChBufLock b) (proc_table s), sie := True\<rparr>)"
    using blk.releasesleep_held [where b = b and s = s and p = p] hd cur by (simp add: buf_ok_def Let_def)
  moreover have "woken (ChBufLock b) (proc_table s) = proc_table s" using q(1) by (intro woken_quiet) (simp add: quiet_def)
  moreover have "?s1\<lparr>proc_table := proc_table s, sie := True\<rparr> = ?s1"
    using q(1) by (intro kcore.equality) (simp_all add: upd_buf_def quiet_def)
  ultimately have r: "releasesleep (ChBufLock b) (bl_get b) (bl_upd b) s = (Inr (), ?s1)" by simp
  have a: "acquire_bcache ?s1 = (Inr (), bcache_held (pid (proc_table s p)) ?s1)"
    using acquire_bcache_run [of ?s1 p] q cur by (simp add: upd_buf_def)
  have rl: "release_bcache (s\<lparr>bcache_lock := (bcache_lock s)\<lparr>locked := True, lpid := q\<rparr>, bufs := bs, sie := True\<rparr>) =
      (Inr (), s\<lparr>bufs := bs\<rparr>)" for q bs
  proof -
    have "s\<lparr>bcache_lock := (bcache_lock s)\<lparr>locked := True, lpid := q\<rparr>, bufs := bs, sie := True\<rparr> =
        s\<lparr>bcache_lock := (bcache_lock s)\<lparr>locked := True, lpid := q\<rparr>, bufs := bs\<rparr>"
      using quiet_sie [of "s\<lparr>bcache_lock := (bcache_lock s)\<lparr>locked := True, lpid := q\<rparr>, bufs := bs\<rparr>"] \<open>quiet s p\<close> by simp
    then show ?thesis using release_bcache_run [OF q(2)] by simp
  qed
  show ?thesis
    using r a rl holding_buf [OF inv h]
    by (simp add: brelse_def intr_off_def intr_on_def upd_buf_def released_def Let_def)
qed

lemma brelse_spec:
  assumes inv: "cache_inv s p" and h: "a_held (abs_cache s) b = Some k"
    and clean: "a_rc (abs_cache s) k = 1 \<Longrightarrow> a_view (abs_cache s) k = a_disk (abs_cache s) k"
  shows "\<exists>s'. brelse b s = (Inr (), s') \<and> cache_inv s' p \<and> cache_only s s' \<and> bdata s' = bdata s \<and>
    abs_cache s' = a_brelse k b (abs_cache s)"
proof -
  note hd = heldD [OF inv h]
  let ?x = "released (bufs s b)"
  let ?bs = "(bufs s)(b := ?x)"
  have r: "unat (refcnt ?x) = a_rc (abs_cache s) k - 1" using hd(6,10) unat_dec by (simp add: released_def)
  have "a_view (abs_cache s) k = a_disk (abs_cache s) k" if "refcnt ?x = 0"
  proof -
    have "unat (refcnt (bufs s b)) \<noteq> 0" using hd(6) by (metis unat_eq_0)
    moreover have "unat (refcnt ?x) = 0" using that by simp
    ultimately show ?thesis using clean r hd(10) by linarith
  qed
  then have "buf_ok (s\<lparr>bufs := ?bs\<rparr>) p b"
    using hd by (auto simp: buf_ok_def Let_def released_def key_def abs_cache_def)
  then have ci: "cache_inv (s\<lparr>bufs := ?bs\<rparr>) p" by (intro inv_held_upd [OF inv hd(1)]) (simp_all add: released_def)
  have ab: "abs_cache (s\<lparr>bufs := ?bs\<rparr>) = a_brelse k b (abs_cache s)"
    using abs_held_upd [OF _ hd(5), of ?x] r inv by (simp add: cache_inv_def released_def a_brelse_def)
  show ?thesis
  proof (cases "refcnt (?bs b) = 0 \<and> bprev (?bs b) \<noteq> NBUF")
    case False
    then show ?thesis using brelse_run [OF inv h] ci ab by (auto simp: Let_def)
  next
    case True
    let ?bs' = "push_front b (unlink_buf b ?bs)"
    obtain xs where "lru_list ?bs xs" using ci by (auto simp: cache_inv_def)
    then have "lru_list ?bs' (b # remove1 b xs)" using move_to_front hd(1) by blast
    then have "cache_inv (s\<lparr>bufs := ?bs'\<rparr>) p" by (intro relink(2) [OF _ ci]) simp_all
    moreover have "abs_cache (s\<lparr>bufs := ?bs'\<rparr>) = abs_cache (s\<lparr>bufs := ?bs\<rparr>)" by (rule relink(1)) simp
    ultimately show ?thesis using brelse_run [OF inv h] True ab by (auto simp: Let_def)
  qed
qed

section \<open>Properties\<close>

lemma demo_lru: "lru_list demo_buf (rev [0..<NBUF])"
proof -
  have "linked demo_buf (k # rev [0..<k] @ [NBUF])" if "k \<le> NBUF" for k
    using that
  proof (induction k)
    case 0
    then show ?case by (simp add: demo_buf_def)
  next
    case (Suc k)
    then show ?case by (simp add: demo_buf_def)
  qed
  then show ?thesis by (auto simp: lru_list_def)
qed

lemma demo_cache_inv: "cache_inv demo_disk 1"
proof -
  have "bufs demo_disk = demo_buf" "lock_idle (bcache_lock demo_disk)"
    by (simp_all add: demo_disk_defs lock_idle_def)
  then show ?thesis
    using demo_disk_ok demo_lru
    by (auto simp: cache_inv_def buf_ok_def one_buf_def Let_def key_def demo_buf_def ROOTDEV_def fresh_sleeplock_def fresh_lock_def)
qed

lemma demo_abs: "a_rc (abs_cache demo_disk) k = 0" "a_held (abs_cache demo_disk) b = None"
    "a_view (abs_cache demo_disk) = platter (hw demo_disk)"
proof -
  have n: "buf_of demo_disk j = None" for j by (simp add: buf_of_None demo_disk_defs demo_buf_def ROOTDEV_def)
  show "a_rc (abs_cache demo_disk) k = 0" "a_view (abs_cache demo_disk) = platter (hw demo_disk)"
    by (simp_all add: abs_cache_def n)
  show "a_held (abs_cache demo_disk) b = None"
    by (simp add: abs_cache_def demo_disk_defs demo_buf_def fresh_sleeplock_def)
qed

text \<open>C26. \<^verbatim>\<open>bread\<close> sees the latest contents: for a block that nobody holds, and with a buffer to spare
  if the block is not in use, it returns a buffer that was not held, holding the block's current
  contents, whether they come from the cache or from the disk. The block gains one reference, no
  other block's contents or references change although a buffer may have been recycled, the
  structure of the cache is intact and nothing outside the cache has changed.\<close>

theorem bread_sees_latest:
  assumes "cache_inv s p" and "unat bno < 2 ^ 31" and "unat bno \<notin> ran (a_held (abs_cache s))"
    and "a_rc (abs_cache s) (unat bno) + 1 < 2 ^ 32"
    and "0 < a_rc (abs_cache s) (unat bno) \<or> card (in_use (abs_cache s)) < NBUF"
  shows "\<exists>b s'. bread ROOTDEV bno s = (Inr b, s') \<and> cache_inv s' p \<and> cache_only s s' \<and>
    a_held (abs_cache s) b = None \<and> abs_cache s' = a_bread (unat bno) b (abs_cache s) \<and>
    bdata s' b = a_view (abs_cache s) (unat bno)"
  using bread_spec [OF assms] by blast

theorem bread_sees_latest_witness:
  "\<exists>b s'. bread ROOTDEV 5 demo_disk = (Inr b, s') \<and> cache_inv s' 1 \<and> bdata s' b = replicate BSIZE 7"
proof -
  have "ran (a_held (abs_cache demo_disk)) = {}" by (auto simp: ran_def demo_abs)
  moreover have "card (in_use (abs_cache demo_disk)) < NBUF" by (simp add: demo_abs NBUF_def MAXOPBLOCKS_def)
  moreover have "platter (hw demo_disk) 5 = replicate BSIZE 7" by (simp add: demo_disk_defs)
  ultimately show ?thesis using bread_sees_latest [OF demo_cache_inv, of 5] by (force simp: demo_abs)
qed

text \<open>C34. A held block that is changed, written and released: after \<^verbatim>\<open>bwrite\<close> and \<^verbatim>\<open>brelse\<close> the disk holds
  the buffer's bytes at the block as its latest write, the view of every other block is as before,
  the buffer is no longer held, the reference is gone, and the cache is intact. The block may be
  evicted from then on without loss.\<close>

theorem write_back_persists:
  assumes "cache_inv s p" and "a_held (abs_cache s) b = Some k"
  shows "\<exists>s'. kseq (kmod (set_bdata b bs)) (kseq (bwrite b) (brelse b)) s = (Inr (), s') \<and> cache_inv s' p \<and>
    abs_cache s' = a_brelse k b (a_bwrite k (a_store k bs (abs_cache s))) \<and> a_disk (abs_cache s') k = bs"
proof -
  let ?t = "set_bdata b bs s"
  have h1: "cache_inv ?t p" "abs_cache ?t = a_store k bs (abs_cache s)" using set_bdata_spec [OF assms] by simp_all
  have "a_held (abs_cache ?t) b = Some k" using assms(2) h1(2) by (simp add: a_store_def)
  then obtain u where u: "bwrite b ?t = (Inr (), u)" "cache_inv u p" "abs_cache u = a_bwrite k (abs_cache ?t)"
    using bwrite_spec [OF h1(1)] by blast
  have "a_held (abs_cache u) b = Some k" "a_view (abs_cache u) k = a_disk (abs_cache u) k"
    using assms(2) h1(2) u(3) by (simp_all add: a_store_def a_bwrite_def)
  then obtain s' where "brelse b u = (Inr (), s')" "cache_inv s' p" "abs_cache s' = a_brelse k b (abs_cache u)"
    using brelse_spec [OF u(2)] by blast
  then show ?thesis using u h1(2) by (auto simp: a_brelse_def a_bwrite_def a_store_def)
qed

theorem write_back_persists_witness:
  "\<exists>b s s'. bread ROOTDEV 5 demo_disk = (Inr b, s) \<and>
     kseq (kmod (set_bdata b [1, 2, 3])) (kseq (bwrite b) (brelse b)) s = (Inr (), s') \<and>
     a_disk (abs_cache s') 5 = [1, 2, 3]"
proof -
  have r: "ran (a_held (abs_cache demo_disk)) = {}" by (auto simp: ran_def demo_abs)
  have c: "card (in_use (abs_cache demo_disk)) < NBUF" by (simp add: demo_abs NBUF_def MAXOPBLOCKS_def)
  obtain b s where s: "bread ROOTDEV 5 demo_disk = (Inr b, s)" "cache_inv s 1" "abs_cache s = a_bread 5 b (abs_cache demo_disk)"
    using bread_spec [OF demo_cache_inv, of 5] r c by (auto simp: demo_abs)
  then have "a_held (abs_cache s) b = Some 5" by (simp add: a_bread_def)
  then show ?thesis using write_back_persists [OF s(2), of b 5 "[1, 2, 3]"] s(1) by blast
qed

text \<open>A buffer's sleep lock excludes: in every history of lock operations on one buffer by any
  number of processes, whatever the scheduler does between them, at most one process is between
  a completed \<^verbatim>\<open>acquiresleep\<close> and its \<^verbatim>\<open>releasesleep\<close>.\<close>

theorem buf_lock_excludes:
  assumes "sl_reach (ChBufLock b) (bl_get b) (bl_upd b) (pc, s)" and "pc p = Inside" and "pc q = Inside"
  shows "p = q"
  by (rule blk.mutual_exclusion [OF assms])

theorem buf_lock_excludes_witness:
  "\<exists>pc (s :: kdisk). sl_reach (ChBufLock 3) (bl_get 3) (bl_upd 3) (pc, s) \<and> {q. pc q = Inside} = {1}"
proof -
  let ?g = "bl_get 3" and ?u = "bl_upd 3"
  let ?s = "?u (\<lambda>l. l\<lparr>slocked := True, spid := pid (proc_table demo_disk 1)\<rparr>) demo_disk"
  have "\<not> slocked (?g demo_disk)" by (simp add: demo_disk_defs demo_buf_def fresh_sleeplock_def)
  moreover have "inj_on (\<lambda>i. pid (proc_table demo_disk i)) {..<PROC}"
    by (rule inj_onI) (simp add: demo_disk_defs split: if_splits)
  ultimately have "sl_reach (ChBufLock 3) ?g ?u (\<lambda>_. Outside, demo_disk)" by (intro sl_reach.start) simp_all
  moreover have "acquiresleep (ChBufLock 3) ?g ?u demo_disk = (Inr (), ?s)"
    by (rule blk.acquiresleep_free) (simp_all add: demo_disk_defs demo_buf_def fresh_sleeplock_def)
  then have "sl_step (ChBufLock 3) ?g ?u (\<lambda>_. Outside, demo_disk) ((\<lambda>_. Outside)(1 := Inside), ?s)"
    by (intro sl_step.enter) (simp_all add: demo_disk_defs PROC_def)
  ultimately have r: "sl_reach (ChBufLock 3) ?g ?u ((\<lambda>_. Outside)(1 := Inside), ?s)" by (rule sl_reach.step)
  define pc where "pc = (\<lambda>_. Outside)(1 :: nat := Inside)"
  have r': "sl_reach (ChBufLock 3) ?g ?u (pc, ?s)" using r by (simp only: pc_def)
  have "q = 1" if "pc q = Inside" for q by (rule buf_lock_excludes [OF r' that]) (simp add: pc_def)
  moreover have "pc 1 = Inside" by (simp add: pc_def)
  ultimately have "{q. pc q = Inside} = {1}" by blast
  then show ?thesis by (intro exI [of _ pc] exI [of _ ?s] conjI r')
qed

end
