(* ===== verification/Log.thy ===== *)
theory Log
  imports BioSpec
begin

text \<open>
  The write-ahead log, \<^verbatim>\<open>kernel/log.c\<close>. The structure \<^verbatim>\<open>log\<close> is the record \<open>wal\<close> of the state; the
  header of the log on disk is the first block of the log area, read and written through the
  cache as the bytes of \<^verbatim>\<open>struct logheader\<close>. Messages are not modelled. A process that waits for
  space or for a running commit ends its run asleep; \<open>begin_op_resume\<close> continues it.
\<close>

section \<open>Integers in a block\<close>

definition get32 :: "u8 list \<Rightarrow> nat \<Rightarrow> u32" where
  "get32 d off = of_nat (le_val (take 4 (drop off d)))"

definition put32 :: "u8 list \<Rightarrow> nat \<Rightarrow> u32 \<Rightarrow> u8 list" where
  "put32 d off v = take off d @ le_bytes 4 (unat v) @ drop (off + 4) d"

lemma length_put32 [simp]: "off + 4 \<le> length d \<Longrightarrow> length (put32 d off v) = length d"
  by (simp add: put32_def)

lemma get32_put32_same [simp]: "off + 4 \<le> length d \<Longrightarrow> get32 (put32 d off v) off = v"
proof -
  assume a: "off + 4 \<le> length d"
  have "take 4 (drop off (put32 d off v)) = le_bytes 4 (unat v)" using a by (simp add: put32_def)
  moreover have "unat v < 2 ^ 32" using unat_lt_pow [of v] by simp
  ultimately show ?thesis by (simp add: get32_def le_val_le_bytes)
qed

lemma get32_put32_other:
  assumes "off + 4 \<le> length d" and "o1 + 4 \<le> off \<or> off + 4 \<le> o1"
  shows "get32 (put32 d off v) o1 = get32 d o1"
proof -
  have "take 4 (drop o1 (put32 d off v)) = take 4 (drop o1 d)"
    using assms by (auto simp: put32_def drop_append take_drop min_def)
  then show ?thesis by (simp add: get32_def)
qed

section \<open>Structures\<close>

record logheader =
  lh_n :: int
  lh_block :: "nat \<Rightarrow> int"

record log =
  llock :: spinlock
  lstart :: int
  outstanding :: int
  committing :: bool
  ldev :: int
  lh :: logheader

record klog = kdisk +
  wal :: log

definition upd_wal :: "(log \<Rightarrow> log) \<Rightarrow> ('a) klog_scheme \<Rightarrow> ('a) klog_scheme" where
  "upd_wal f s = s\<lparr>wal := f (wal s)\<rparr>"

abbreviation wl_get :: "('a) klog_scheme \<Rightarrow> spinlock" where
  "wl_get \<equiv> (\<lambda>s. llock (wal s))"

abbreviation wl_upd :: "(spinlock \<Rightarrow> spinlock) \<Rightarrow> ('a) klog_scheme \<Rightarrow> ('a) klog_scheme" where
  "wl_upd \<equiv> (\<lambda>f. upd_wal (\<lambda>l. l\<lparr>llock := f (llock l)\<rparr>))"

interpretation wl: lock_cell wl_get wl_upd
proof
  fix f and s :: "('a) klog_scheme" assume "f (wl_get s) = wl_get s"
  then show "wl_upd f s = s" by (simp add: upd_wal_def)
qed (simp_all add: upd_wal_def)

definition log_bread :: "int \<Rightarrow> (('a) klog_scheme, nat) km" where
  "log_bread k = kbind (kget (\<lambda>s. ldev (wal s))) (\<lambda>d. bread (word_of_int d) (word_of_int k))"

section \<open>The header on disk\<close>

text \<open>\<^verbatim>\<open>read_head\<close> trusts the count it finds; a count above \<^verbatim>\<open>LOGBLOCKS\<close> makes the copy loop leave the array.\<close>

definition read_head :: "(('a) klog_scheme, unit) km" where
  "read_head = kbind (kget (\<lambda>s. lstart (wal s))) (\<lambda>st. kbind (log_bread st) (\<lambda>b.
     kbind (kget (\<lambda>s. bdata s b)) (\<lambda>d.
       kseq (kmod (upd_wal (\<lambda>l. l\<lparr>lh := (lh l)\<lparr>lh_n := sint (get32 d 0)\<rparr>\<rparr>)))
         (kseq (if sint (get32 d 0) > int LOGBLOCKS then kstop Undefined
                else kmod (upd_wal (\<lambda>l. l\<lparr>lh := (lh l)\<lparr>lh_block := (\<lambda>i.
                  if int i < sint (get32 d 0) then sint (get32 d (4 + 4 * i)) else lh_block (lh l) i)\<rparr>\<rparr>)))
           (brelse b)))))"

definition set_head :: "logheader \<Rightarrow> u8 list \<Rightarrow> u8 list" where
  "set_head h d = fold (\<lambda>i d. put32 d (4 + 4 * i) (word_of_int (lh_block h i))) [0..<nat (lh_n h)]
     (put32 d 0 (word_of_int (lh_n h)))"

definition write_head :: "(('a) klog_scheme, unit) km" where
  "write_head = kbind (kget (\<lambda>s. lstart (wal s))) (\<lambda>st. kbind (log_bread st) (\<lambda>b.
     kbind (kget (\<lambda>s. lh (wal s))) (\<lambda>h.
       if lh_n h > int LOGBLOCKS then kstop Undefined
       else kseq (kmod (\<lambda>s. set_bdata b (set_head h (bdata s b)) s))
         (kseq (bwrite b) (brelse b)))))"

section \<open>Commit and recovery\<close>

definition install_one :: "bool \<Rightarrow> nat \<Rightarrow> (('a) klog_scheme, unit) km" where
  "install_one recovering tail = kbind (kget (\<lambda>s. lstart (wal s))) (\<lambda>st.
     kbind (log_bread (st + int tail + 1)) (\<lambda>lbuf.
       kbind (kget (\<lambda>s. lh_block (lh (wal s)) tail)) (\<lambda>k. kbind (log_bread k) (\<lambda>dbuf.
         kseq (kmod (\<lambda>s. set_bdata dbuf (bdata s lbuf) s))
           (kseq (bwrite dbuf)
             (kseq (if \<not> recovering then bunpin dbuf else kret ())
               (kseq (brelse lbuf) (brelse dbuf))))))))"

definition install_trans :: "bool \<Rightarrow> (('a) klog_scheme, unit) km" where
  "install_trans recovering = kbind (kget (\<lambda>s. lh_n (lh (wal s)))) (\<lambda>n. kfor [0..<nat n] (install_one recovering))"

definition clear_head :: "(('a) klog_scheme, unit) km" where
  "clear_head = kseq (kmod (upd_wal (\<lambda>l. l\<lparr>lh := (lh l)\<lparr>lh_n := 0\<rparr>\<rparr>))) write_head"

definition recover_from_log :: "(('a) klog_scheme, unit) km" where
  "recover_from_log = kseq read_head (kseq (install_trans True) clear_head)"

definition initlog :: "int \<Rightarrow> u32 \<Rightarrow> (('a) klog_scheme, unit) km" where
  "initlog dev logstart = kseq (initlock wl_upd ''log'')
     (kseq (kmod (upd_wal (\<lambda>l. l\<lparr>lstart := sint logstart, ldev := dev\<rparr>))) recover_from_log)"

definition write_log_one :: "nat \<Rightarrow> (('a) klog_scheme, unit) km" where
  "write_log_one tail = kbind (kget wal) (\<lambda>w.
     kbind (log_bread (lstart w + int tail + 1)) (\<lambda>to_b. kbind (log_bread (lh_block (lh w) tail)) (\<lambda>from_b.
       kseq (kmod (set_bdata to_b (replicate BSIZE 0)))
         (kseq (kmod (\<lambda>s. set_bdata to_b (bdata s from_b) s))
           (kseq (bwrite to_b) (kseq (brelse from_b) (brelse to_b)))))))"

definition write_log :: "(('a) klog_scheme, unit) km" where
  "write_log = kbind (kget (\<lambda>s. lh_n (lh (wal s)))) (\<lambda>n. kfor [0..<nat n] write_log_one)"

definition commit :: "(('a) klog_scheme, unit) km" where
  "commit = kbind (kget (\<lambda>s. lh_n (lh (wal s)))) (\<lambda>n.
     if n > 0 then kseq write_log (kseq write_head (kseq (install_trans False) clear_head)) else kret ())"

section \<open>Transactions\<close>

definition begin_op_loop :: "(('a) klog_scheme, unit) km" where
  "begin_op_loop = kbind (kget wal) (\<lambda>w.
     if committing w then sleep ChLog wl_get wl_upd
     else if lh_n (lh w) + (outstanding w + 1) * int MAXOPBLOCKS > int LOGBLOCKS then sleep ChLog wl_get wl_upd
     else kseq (kmod (upd_wal (\<lambda>l. l\<lparr>outstanding := outstanding l + 1\<rparr>))) (release wl_get wl_upd))"

definition begin_op :: "(('a) klog_scheme, unit) km" where
  "begin_op = kseq (acquire wl_get wl_upd) begin_op_loop"

definition begin_op_resume :: "nat \<Rightarrow> (('a) klog_scheme, unit) km" where
  "begin_op_resume p = kseq (sleep_resume p wl_get wl_upd) begin_op_loop"

definition end_op :: "(('a) klog_scheme, unit) km" where
  "end_op = kseq (acquire wl_get wl_upd)
     (kseq (kmod (upd_wal (\<lambda>l. l\<lparr>outstanding := outstanding l - 1\<rparr>)))
       (kbind (kget wal) (\<lambda>w.
         if committing w then panic ''log.committing''
         else if outstanding w = 0
         then kseq (kmod (upd_wal (\<lambda>l. l\<lparr>committing := True\<rparr>)))
           (kseq (release wl_get wl_upd)
             (kseq commit
               (kseq (acquire wl_get wl_upd)
                 (kseq (kmod (upd_wal (\<lambda>l. l\<lparr>committing := False\<rparr>)))
                   (kseq (wakeup ChLog) (release wl_get wl_upd))))))
         else kseq (wakeup ChLog) (release wl_get wl_upd))))"

text \<open>The index of the block in the header, or its length.\<close>

definition find_logged :: "logheader \<Rightarrow> u32 \<Rightarrow> nat" where
  "find_logged h k = (case find (\<lambda>i. word_of_int (lh_block h i) = k) [0..<nat (lh_n h)] of
     Some i \<Rightarrow> i | None \<Rightarrow> nat (lh_n h))"

definition log_write :: "nat \<Rightarrow> (('a) klog_scheme, unit) km" where
  "log_write b = kseq (acquire wl_get wl_upd) (kbind (kget wal) (\<lambda>w.
     if lh_n (lh w) \<ge> int LOGBLOCKS then panic ''too big a transaction''
     else if outstanding w < 1 then panic ''log_write outside of trans''
     else kbind (kget (\<lambda>s. blockno (bufs s b))) (\<lambda>k.
       kseq (if int (find_logged (lh w) k) = lh_n (lh w)
             then kseq (kmod (upd_wal (\<lambda>l. l\<lparr>lh := (lh l)\<lparr>lh_block := (lh_block (lh l))(nat (lh_n (lh l)) := sint k)\<rparr>\<rparr>)))
                    (kseq (bpin b) (kmod (upd_wal (\<lambda>l. l\<lparr>lh := (lh l)\<lparr>lh_n := lh_n (lh l) + 1\<rparr>\<rparr>))))
             else kret ())
         (release wl_get wl_upd))))"

text \<open>\<^verbatim>\<open>force_commit_log\<close>: nothing in the loop changes the number of open transactions, so only other
  processes can end it; \<open>fuel\<close> bounds the rounds.\<close>

fun force_commit_loop :: "nat \<Rightarrow> (('a) klog_scheme, unit) km" where
  "force_commit_loop 0 = kstop Diverge"
| "force_commit_loop (Suc fuel) = kbind (kget wal) (\<lambda>w.
     if outstanding w > 0
     then kseq (if \<not> committing w
                then kseq (kmod (upd_wal (\<lambda>l. l\<lparr>committing := True\<rparr>)))
                  (kseq (release wl_get wl_upd)
                    (kseq commit
                      (kseq (acquire wl_get wl_upd)
                        (kseq (kmod (upd_wal (\<lambda>l. l\<lparr>committing := False\<rparr>))) (wakeup ChLog)))))
                else kseq (release wl_get wl_upd) (acquire wl_get wl_upd))
            (force_commit_loop fuel)
     else kret ())"

definition force_commit_log :: "nat \<Rightarrow> (('a) klog_scheme, unit) km" where
  "force_commit_log fuel = kseq (acquire wl_get wl_upd)
     (kseq (force_commit_loop fuel) (release wl_get wl_upd))"

definition get_log_status :: "(('a) klog_scheme, int \<times> bool) km" where
  "get_log_status = kseq (acquire wl_get wl_upd) (kbind (kget wal) (\<lambda>w.
     kseq (release wl_get wl_upd) (kret (outstanding w, committing w))))"

end
