(* ===== verification/LogSpec.thy ===== *)
theory LogSpec
  imports Log
begin

text \<open>
  The log makes a transaction atomic. The abstraction of the cache gives the file system's view of
  the disk, the disk itself and the history of writes; a commit is shown to issue exactly the
  sequence of writes of a write-ahead log, and recovery after a crash at any point of that sequence
  is shown to end with the disk before the transaction or the disk after it.
\<close>

section \<open>Log states\<close>

definition log_area :: "nat \<Rightarrow> nat set" where
  "log_area st = {st..st + LOGBLOCKS}"

definition log_at :: "('a) klog_scheme \<Rightarrow> nat \<Rightarrow> nat \<Rightarrow> nat list \<Rightarrow> bool" where
  "log_at s p st L \<longleftrightarrow> cache_inv s p \<and> word_of_int (ldev (wal s)) = ROOTDEV \<and> lstart (wal s) = int st \<and>
     st + LOGBLOCKS < 2 ^ 31 \<and> lh_n (lh (wal s)) = int (length L) \<and> length L \<le> LOGBLOCKS \<and>
     (\<forall>i < length L. lh_block (lh (wal s)) i = int (L ! i)) \<and> (\<forall>k \<in> set L. k < 2 ^ 31 \<and> k \<notin> log_area st)"

definition a_put :: "nat \<Rightarrow> u8 list \<Rightarrow> acache \<Rightarrow> acache" where
  "a_put k v a = a\<lparr>a_view := (a_view a)(k := v), a_disk := (a_disk a)(k := v), a_trace := a_trace a @ [(k, v)]\<rparr>"

lemma upd_wal_cache [simp]:
  "abs_cache (upd_wal f s) = abs_cache s" "cache_inv (upd_wal f s) p = cache_inv s p" "wal (upd_wal f s) = f (wal s)"
  "current_proc (upd_wal f s) = current_proc s" "proc_table (upd_wal f s) = proc_table s" "hw (upd_wal f s) = hw s"
  "bufs (upd_wal f s) = bufs s"
proof -
  have k: "key (upd_wal f s) = key s" by (simp add: key_def upd_wal_def fun_eq_iff)
  have ii: "buf_of (upd_wal f s) = buf_of s" "one_buf (upd_wal f s) = one_buf s"
    by (rule same_identity; simp add: upd_wal_def)+
  have f: "hw (upd_wal f s) = hw s" "bufs (upd_wal f s) = bufs s" by (simp_all add: upd_wal_def)
  show "abs_cache (upd_wal f s) = abs_cache s"
    by (simp add: abs_cache_def ii k f cong: option.case_cong if_cong)
  show "cache_inv (upd_wal f s) p = cache_inv s p"
    by (simp add: cache_inv_def ii buf_ok_def k Let_def) (simp add: upd_wal_def quiet_def vq_idle_def)
qed (simp_all add: upd_wal_def)

lemma cache_only_wal: "cache_only s s' \<Longrightarrow> wal s' = wal s"
  by (auto simp: cache_only_def)

lemma cache_only_cur: "cache_only s s' \<Longrightarrow> current_proc s' = current_proc s \<and> proc_table s' = proc_table s \<and> sie s' = sie s"
  by (auto simp: cache_only_def)

lemma cache_only_upd_wal:
  assumes "cache_only s t"
  shows "cache_only (upd_wal f s) (upd_wal f t)"
proof -
  obtain h i bs where "t = s\<lparr>hw := h, used_idx := i, bufs := bs\<rparr>" using assms by (auto simp: cache_only_def)
  then have "upd_wal f t = (upd_wal f s)\<lparr>hw := h, used_idx := i, bufs := bs\<rparr>" by (simp add: upd_wal_def)
  then show ?thesis by auto
qed

lemma log_at_keep: "log_at s p st L \<Longrightarrow> cache_only s s' \<Longrightarrow> cache_inv s' p \<Longrightarrow> log_at s' p st L"
  by (simp add: log_at_def cache_only_wal)

lemma unat_block: "k < 2 ^ 31 \<Longrightarrow> unat (of_nat k :: u32) = k"
  by (simp add: unat_of_nat)

section \<open>Two buffers\<close>

lemma bread_block:
  assumes "cache_inv s p" and "k < 2 ^ 31" and "k \<notin> ran (a_held (abs_cache s))" and "a_rc (abs_cache s) k \<le> 1"
    and "0 < a_rc (abs_cache s) k \<or> card (in_use (abs_cache s)) < NBUF"
  shows "\<exists>b s'. bread ROOTDEV (of_nat k) s = (Inr b, s') \<and> cache_inv s' p \<and> cache_only s s' \<and>
    a_held (abs_cache s) b = None \<and> abs_cache s' = a_bread k b (abs_cache s) \<and> bdata s' b = a_view (abs_cache s) k"
  using bread_spec [OF assms(1), of "of_nat k"] assms(2-5) unat_block [OF assms(2)] by auto

lemma two_bufs:
  assumes inv: "cache_inv s p" and k: "k1 < 2 ^ 31" "k2 < 2 ^ 31" "k1 \<noteq> k2" and h: "a_held (abs_cache s) = Map.empty"
    and r: "a_rc (abs_cache s) k1 \<le> 1" "a_rc (abs_cache s) k2 \<le> 1" and c1: "card (in_use (abs_cache s)) < NBUF"
    and c2: "0 < a_rc (abs_cache s) k2 \<or> card (insert k1 (in_use (abs_cache s))) < NBUF"
  obtains b1 t1 b2 t2 where "bread ROOTDEV (of_nat k1) s = (Inr b1, t1)" and "cache_only s t1"
    and "bread ROOTDEV (of_nat k2) t1 = (Inr b2, t2)" and "cache_only t1 t2" and "cache_inv t2 p" and "b1 \<noteq> b2"
    and "abs_cache t2 = a_bread k2 b2 (a_bread k1 b1 (abs_cache s))"
    and "a_held (abs_cache t2) b1 = Some k1" and "a_held (abs_cache t2) b2 = Some k2"
proof -
  obtain b1 t1 where 1: "bread ROOTDEV (of_nat k1) s = (Inr b1, t1)" "cache_inv t1 p" "cache_only s t1"
      "abs_cache t1 = a_bread k1 b1 (abs_cache s)"
    using bread_block [OF inv k(1) _ r(1)] h c1 by auto
  have a1: "k2 \<notin> ran (a_held (abs_cache t1))" "a_rc (abs_cache t1) k2 = a_rc (abs_cache s) k2"
    "in_use (abs_cache t1) = insert k1 (in_use (abs_cache s))"
    using 1(4) k(3) h by (auto simp: a_bread_def)
  obtain b2 t2 where 2: "bread ROOTDEV (of_nat k2) t1 = (Inr b2, t2)" "cache_inv t2 p" "cache_only t1 t2"
      "a_held (abs_cache t1) b2 = None" "abs_cache t2 = a_bread k2 b2 (abs_cache t1)"
    using bread_block [OF 1(2) k(2) a1(1)] a1 r(2) c2 by auto
  have "b1 \<noteq> b2" using 2(4) 1(4) by (auto simp: a_bread_def)
  then show thesis using that [OF 1(1,3) 2(1,3,2)] 1(4) 2(5) by (simp add: a_bread_def)
qed

text \<open>A block without references has no pending change.\<close>

lemma clean_block:
  assumes "cache_inv s p" and "a_rc (abs_cache s) k = 0"
  shows "a_view (abs_cache s) k = a_disk (abs_cache s) k"
proof (cases "buf_of s k")
  case None
  then show ?thesis by (simp add: abs_cache_def)
next
  case (Some b)
  then have "b < NBUF" "bdev (bufs s b) = ROOTDEV" "key s b = k" "refcnt (bufs s b) = 0"
    using assms by (auto simp: cache_inv_def buf_of_Some abs_cache_def unat_eq_0)
  then show ?thesis using assms(1) Some by (auto simp: cache_inv_def buf_ok_def Let_def abs_cache_def)
qed

text \<open>Filling one held buffer, writing it and releasing it.\<close>

lemma store_write:
  assumes inv: "cache_inv s p" and h: "a_held (abs_cache s) b = Some k"
  shows "\<exists>t. kseq (kmod (set_bdata b v)) (bwrite b) s = (Inr (), t) \<and> cache_inv t p \<and> cache_only s t \<and>
    abs_cache t = a_put k v (abs_cache s)"
proof -
  note st = set_bdata_spec [OF inv h, of v]
  have "a_held (abs_cache (set_bdata b v s)) b = Some k" using h st(3) by (simp add: a_store_def)
  then obtain t where "bwrite b (set_bdata b v s) = (Inr (), t)" "cache_inv t p" "cache_only (set_bdata b v s) t"
      "abs_cache t = a_bwrite k (abs_cache (set_bdata b v s))"
    using bwrite_spec [OF st(1)] by blast
  then show ?thesis using st cache_only_trans [OF st(2)] by (auto simp: a_store_def a_bwrite_def a_put_def)
qed

lemma kseq_assoc: "kseq (kseq m n) q = kseq m (kseq n q)"
  by (simp add: kseq_def kbind_assoc)

abbreviation pins :: "nat list \<Rightarrow> nat \<Rightarrow> nat" where
  "pins L \<equiv> (\<lambda>k. if k \<in> set L then 1 else 0)"

lemma log_bread_run:
  assumes "word_of_int (ldev (wal s)) = ROOTDEV" and "j = int k"
  shows "log_bread j s = bread ROOTDEV (of_nat k) s"
  using assms by (simp add: log_bread_def)

lemma in_use_pins: "a_rc a = pins L \<Longrightarrow> in_use a = set L"
  by auto

lemma card_pins: "length L < NBUF \<Longrightarrow> card (set L) < NBUF"
  by (meson card_length le_less_trans)

lemma write_log_one_run:
  assumes lg: "log_at s p st L" and h: "a_held (abs_cache s) = Map.empty" and rc: "a_rc (abs_cache s) = pins L"
    and n: "length L < NBUF" and i: "i < length L"
  shows "\<exists>s'. write_log_one i s = (Inr (), s') \<and> cache_inv s' p \<and> cache_only s s' \<and>
    abs_cache s' = a_put (st + 1 + i) (a_view (abs_cache s) (L ! i)) (abs_cache s)"
proof -
  let ?k1 = "st + 1 + i" and ?k2 = "L ! i" and ?a = "abs_cache s"
  have inv: "cache_inv s p" and dv: "word_of_int (ldev (wal s)) = ROOTDEV" and ls: "lstart (wal s) = int st"
    and bk: "lh_block (lh (wal s)) i = int ?k2"
    using lg i by (simp_all add: log_at_def)
  have mem: "?k2 \<in> set L" using i by simp
  have k: "?k1 < 2 ^ 31" "?k2 < 2 ^ 31" "?k1 \<in> log_area st" "?k2 \<notin> log_area st"
    using lg i mem by (auto simp: log_at_def log_area_def)
  then have ne: "?k1 \<noteq> ?k2" "?k1 \<notin> set L" using lg by (auto simp: log_at_def)
  obtain b1 t1 b2 t2 where r: "bread ROOTDEV (of_nat ?k1) s = (Inr b1, t1)" "cache_only s t1"
      "bread ROOTDEV (of_nat ?k2) t1 = (Inr b2, t2)" "cache_only t1 t2" "cache_inv t2 p" "b1 \<noteq> b2"
      "abs_cache t2 = a_bread ?k2 b2 (a_bread ?k1 b1 ?a)"
      "a_held (abs_cache t2) b1 = Some ?k1" "a_held (abs_cache t2) b2 = Some ?k2"
    by (rule two_bufs [OF inv k(1,2) ne(1) h]) (use rc mem card_pins [OF n] in \<open>simp_all add: in_use_pins\<close>)
  let ?u = "set_bdata b1 (replicate BSIZE 0) t2"
  note u = set_bdata_spec [OF r(5,8), of "replicate BSIZE 0"]
  have hu: "a_held (abs_cache ?u) b1 = Some ?k1" "a_held (abs_cache ?u) b2 = Some ?k2" using r(8,9) u(3) by (simp_all add: a_store_def)
  have v: "bdata ?u b2 = a_view ?a ?k2"
    using heldD(9) [OF u(1) hu(2)] u(3) r(7) ne(1) by (simp add: a_store_def a_bread_def)
  obtain w where w: "kseq (kmod (set_bdata b1 (bdata ?u b2))) (bwrite b1) ?u = (Inr (), w)" "cache_inv w p" "cache_only ?u w"
      "abs_cache w = a_put ?k1 (a_view ?a ?k2) (abs_cache ?u)"
    using store_write [OF u(1) hu(1), of "bdata ?u b2"] v by auto
  have hw: "a_held (abs_cache w) b1 = Some ?k1" "a_held (abs_cache w) b2 = Some ?k2" using w(4) hu by (simp_all add: a_put_def)
  have "a_rc (abs_cache w) ?k2 \<noteq> 1"
    using w(4) u(3) r(7) ne rc mem by (simp add: a_put_def a_store_def a_bread_def)
  then obtain x where x: "brelse b2 w = (Inr (), x)" "cache_inv x p" "cache_only w x" "abs_cache x = a_brelse ?k2 b2 (abs_cache w)"
    using brelse_spec [OF w(2) hw(2)] by blast
  have "a_held (abs_cache x) b1 = Some ?k1" "a_view (abs_cache x) ?k1 = a_disk (abs_cache x) ?k1"
    using x(4) w(4) hw(1) r(6) by (simp_all add: a_brelse_def a_put_def)
  then obtain y where y: "brelse b1 x = (Inr (), y)" "cache_inv y p" "cache_only x y" "abs_cache y = a_brelse ?k1 b1 (abs_cache x)"
    using brelse_spec [OF x(2)] by blast
  have "abs_cache y = a_put ?k1 (a_view ?a ?k2) ?a"
    unfolding y(4) x(4) w(4) u(3) r(7)
    using ne r(6) h by (simp add: a_put_def a_brelse_def a_store_def a_bread_def fun_upd_twist)
  moreover have "wal t1 = wal s" using r(2) by (rule cache_only_wal)
  then have "log_bread (lstart (wal s) + int i + 1) s = (Inr b1, t1)" "log_bread (lh_block (lh (wal s)) i) t1 = (Inr b2, t2)"
    using r(1,3) dv ls bk log_bread_run [of s "lstart (wal s) + int i + 1" ?k1] log_bread_run [of t1 _ ?k2] by simp_all
  then have "write_log_one i s = (Inr (), y)"
    using w(1) x(1) y(1) by (simp add: write_log_one_def)
  moreover have "cache_only s y"
    using r(2,4) u(2) w(3) x(3) y(3) cache_only_trans by blast
  ultimately show ?thesis using y(2) by blast
qed

lemma install_one_run:
  assumes lg: "log_at s p st L" and h: "a_held (abs_cache s) = Map.empty" and i: "i < length L"
    and rc1: "a_rc (abs_cache s) (st + 1 + i) = 0" and rc2: "a_rc (abs_cache s) (L ! i) = (if rec then 0 else 1)"
    and c: "card (insert (st + 1 + i) (in_use (abs_cache s))) < NBUF \<or> \<not> rec \<and> card (in_use (abs_cache s)) < NBUF"
  shows "\<exists>s'. install_one rec i s = (Inr (), s') \<and> cache_inv s' p \<and> cache_only s s' \<and>
    abs_cache s' = (a_put (L ! i) (a_view (abs_cache s) (st + 1 + i)) (abs_cache s))
      \<lparr>a_rc := (a_rc (abs_cache s))(L ! i := 0)\<rparr>"
proof -
  let ?k1 = "st + 1 + i" and ?k2 = "L ! i" and ?a = "abs_cache s"
  have inv: "cache_inv s p" and dv: "word_of_int (ldev (wal s)) = ROOTDEV" and ls: "lstart (wal s) = int st"
    and bk: "lh_block (lh (wal s)) i = int ?k2"
    using lg i by (simp_all add: log_at_def)
  have mem: "?k2 \<in> set L" using i by simp
  have k: "?k1 < 2 ^ 31" "?k2 < 2 ^ 31" "?k1 \<in> log_area st" "?k2 \<notin> log_area st"
    using lg i mem by (auto simp: log_at_def log_area_def)
  then have ne: "?k1 \<noteq> ?k2" by auto
  have "finite (in_use ?a)" using in_use_bufs [OF inv] by simp
  then have "card (in_use ?a) \<le> card (insert ?k1 (in_use ?a))" by (intro card_mono) auto
  then have c1: "card (in_use ?a) < NBUF" using c by linarith
  obtain b1 t1 b2 t2 where r: "bread ROOTDEV (of_nat ?k1) s = (Inr b1, t1)" "cache_only s t1"
      "bread ROOTDEV (of_nat ?k2) t1 = (Inr b2, t2)" "cache_only t1 t2" "cache_inv t2 p" "b1 \<noteq> b2"
      "abs_cache t2 = a_bread ?k2 b2 (a_bread ?k1 b1 ?a)"
      "a_held (abs_cache t2) b1 = Some ?k1" "a_held (abs_cache t2) b2 = Some ?k2"
    by (rule two_bufs [OF inv k(1,2) ne(1) h _ _ c1]) (use rc1 rc2 c in \<open>auto split: if_splits\<close>)
  have v: "bdata t2 b1 = a_view ?a ?k1" using heldD(9) [OF r(5,8)] r(7) by (simp add: a_bread_def)
  obtain w where w: "kseq (kmod (set_bdata b2 (bdata t2 b1))) (bwrite b2) t2 = (Inr (), w)" "cache_inv w p" "cache_only t2 w"
      "abs_cache w = a_put ?k2 (a_view ?a ?k1) (abs_cache t2)"
    using store_write [OF r(5,9), of "bdata t2 b1"] v by auto
  have hw: "a_held (abs_cache w) b1 = Some ?k1" "a_held (abs_cache w) b2 = Some ?k2" using w(4) r(8,9) by (simp_all add: a_put_def)
  have rw: "a_rc (abs_cache w) ?k2 = (if rec then 1 else 2)"
    using w(4) r(7) ne rc2 by (simp add: a_put_def a_bread_def)
  obtain z where z: "(if \<not> rec then bunpin b2 else kret ()) w = (Inr (), z)" "cache_inv z p" "cache_only w z"
      "abs_cache z = (abs_cache w)\<lparr>a_rc := (a_rc (abs_cache w))(?k2 := 1)\<rparr>"
  proof (cases rec)
    case True
    then have "abs_cache w = (abs_cache w)\<lparr>a_rc := (a_rc (abs_cache w))(?k2 := 1)\<rparr>" using rw by (simp add: fun_upd_idem)
    then show thesis using that [of w] w(2) True by simp
  next
    case False
    then show thesis using bunpin_spec [OF w(2) hw(2)] rw that by auto
  qed
  have hz: "a_held (abs_cache z) b1 = Some ?k1" "a_held (abs_cache z) b2 = Some ?k2" using z(4) hw by simp_all
  have "a_view (abs_cache z) ?k1 = a_disk (abs_cache z) ?k1"
  proof -
    have "a_view ?a ?k1 = a_disk ?a ?k1" using clean_block [OF inv rc1] .
    then show ?thesis using z(4) w(4) r(7) ne by (simp add: a_put_def a_bread_def)
  qed
  then obtain x where x: "brelse b1 z = (Inr (), x)" "cache_inv x p" "cache_only z x" "abs_cache x = a_brelse ?k1 b1 (abs_cache z)"
    using brelse_spec [OF z(2) hz(1)] by blast
  have "a_held (abs_cache x) b2 = Some ?k2" "a_view (abs_cache x) ?k2 = a_disk (abs_cache x) ?k2"
    using x(4) z(4) w(4) hz(2) r(6) ne by (simp_all add: a_brelse_def a_put_def)
  then obtain y where y: "brelse b2 x = (Inr (), y)" "cache_inv y p" "cache_only x y" "abs_cache y = a_brelse ?k2 b2 (abs_cache x)"
    using brelse_spec [OF x(2)] by blast
  have "abs_cache y = (a_put ?k2 (a_view ?a ?k1) ?a)\<lparr>a_rc := (a_rc ?a)(?k2 := 0)\<rparr>"
    unfolding y(4) x(4) z(4) w(4) r(7)
    using ne r(6) h rc1 by (simp add: a_put_def a_brelse_def a_store_def a_bread_def fun_upd_twist fun_upd_idem)
  moreover have "wal t1 = wal s" using r(2) by (rule cache_only_wal)
  then have "log_bread (lstart (wal s) + int i + 1) s = (Inr b1, t1)" "log_bread (lh_block (lh (wal s)) i) t1 = (Inr b2, t2)"
    using r(1,3) dv ls bk log_bread_run [of s "lstart (wal s) + int i + 1" ?k1] log_bread_run [of t1 _ ?k2] by simp_all
  then have "install_one rec i s = (Inr (), y)"
    using w(1) x(1) y(1) z(1) \<open>wal t1 = wal s\<close> by (simp add: install_one_def)
  moreover have "cache_only s y"
    using r(2,4) w(3) x(3) y(3) z(3) cache_only_trans by blast
  ultimately show ?thesis using y(2) by blast
qed

section \<open>Sequences of writes\<close>

definition put_all :: "(nat \<times> u8 list) list \<Rightarrow> acache \<Rightarrow> acache" where
  "put_all ws = fold (\<lambda>(k, v). a_put k v) ws"

definition apply_writes :: "(nat \<times> u8 list) list \<Rightarrow> (nat \<Rightarrow> u8 list) \<Rightarrow> nat \<Rightarrow> u8 list" where
  "apply_writes ws = fold (\<lambda>(k, v) d. d(k := v)) ws"

lemma put_all_simps [simp]: "put_all [] a = a" "put_all (w # ws) a = put_all ws (a_put (fst w) (snd w) a)"
  "put_all (ws @ vs) a = put_all vs (put_all ws a)"
  by (simp_all add: put_all_def split: prod.splits)

lemma apply_writes_simps [simp]: "apply_writes [] d = d" "apply_writes (w # ws) d = apply_writes ws (d(fst w := snd w))"
  "apply_writes (ws @ vs) d = apply_writes vs (apply_writes ws d)"
  by (simp_all add: apply_writes_def split: prod.splits)

lemma put_all_run:
  "put_all ws a = a\<lparr>a_view := apply_writes ws (a_view a), a_disk := apply_writes ws (a_disk a), a_trace := a_trace a @ ws\<rparr>"
  by (induction ws arbitrary: a) (simp_all add: a_put_def)

lemma apply_writes_other: "k \<notin> fst ` set ws \<Longrightarrow> apply_writes ws d k = d k"
  by (induction ws arbitrary: d) (auto simp: fun_upd_def)

lemma kfor_upt:
  assumes "\<And>i t. i < n \<Longrightarrow> I i t \<Longrightarrow> \<exists>t'. body i t = (Inr (), t') \<and> I (Suc i) t'" and "I 0 s"
  shows "\<exists>s'. kfor [0..<n] body s = (Inr (), s') \<and> I n s'"
proof -
  have "ktriple (I 0) (kfor [0..<n] body) (\<lambda>_. I (length [0..<n]))"
    by (rule ktriple_for) (use assms(1) in \<open>auto intro!: ktripleI\<close>)
  then show ?thesis using assms(2) by (auto elim: ktripleE)
qed

definition log_writes :: "nat \<Rightarrow> nat list \<Rightarrow> (nat \<Rightarrow> u8 list) \<Rightarrow> nat \<Rightarrow> (nat \<times> u8 list) list" where
  "log_writes st L V n = map (\<lambda>i. (st + 1 + i, V (L ! i))) [0..<n]"

definition home_writes :: "nat list \<Rightarrow> (nat \<Rightarrow> u8 list) \<Rightarrow> nat \<Rightarrow> (nat \<times> u8 list) list" where
  "home_writes L W n = map (\<lambda>i. (L ! i, W i)) [0..<n]"

lemma write_log_run:
  assumes lg: "log_at s p st L" and h: "a_held (abs_cache s) = Map.empty" and rc: "a_rc (abs_cache s) = pins L"
    and n: "length L < NBUF"
  shows "\<exists>s'. write_log s = (Inr (), s') \<and> cache_inv s' p \<and> cache_only s s' \<and>
    abs_cache s' = put_all (log_writes st L (a_view (abs_cache s)) (length L)) (abs_cache s)"
proof -
  let ?a = "abs_cache s" and ?V = "a_view (abs_cache s)"
  define I where "I = (\<lambda>j t. cache_inv t p \<and> cache_only s t \<and> abs_cache t = put_all (log_writes st L ?V j) ?a)"
  have "\<exists>t'. write_log_one i t = (Inr (), t') \<and> I (Suc i) t'" if i: "i < length L" and t: "I i t" for i t
  proof -
    have lt: "log_at t p st L" using log_at_keep [OF lg] t by (simp add: I_def)
    have "L ! i \<notin> log_area st" "fst ` set (log_writes st L ?V i) \<subseteq> log_area st"
      using lg i by (auto simp: log_at_def log_writes_def log_area_def)
    then have "L ! i \<notin> fst ` set (log_writes st L ?V i)" by blast
    then have v: "a_view (abs_cache t) (L ! i) = ?V (L ! i)" using t by (simp add: I_def put_all_run apply_writes_other)
    obtain t' where t': "write_log_one i t = (Inr (), t')" "cache_inv t' p" "cache_only t t'"
        "abs_cache t' = a_put (st + 1 + i) (a_view (abs_cache t) (L ! i)) (abs_cache t)"
      using write_log_one_run [OF lt _ _ n i] t h rc by (auto simp: I_def put_all_run)
    then have "I (Suc i) t'" using t v cache_only_trans by (auto simp: I_def log_writes_def)
    then show ?thesis using t'(1) by blast
  qed
  then have "\<exists>s'. kfor [0..<length L] write_log_one s = (Inr (), s') \<and> I (length L) s'"
    by (rule kfor_upt) (use lg in \<open>simp_all add: I_def log_writes_def log_at_def\<close>)
  moreover have "lh_n (lh (wal s)) = int (length L)" using lg by (simp add: log_at_def)
  ultimately show ?thesis by (auto simp: write_log_def I_def)
qed

lemma write_head_run:
  assumes lg: "log_at s p st L" and h: "a_held (abs_cache s) = Map.empty" and rc: "a_rc (abs_cache s) st = 0"
    and c: "card (in_use (abs_cache s)) < NBUF"
  shows "\<exists>s'. write_head s = (Inr (), s') \<and> cache_inv s' p \<and> cache_only s s' \<and>
    abs_cache s' = a_put st (set_head (lh (wal s)) (a_view (abs_cache s) st)) (abs_cache s)"
proof -
  let ?a = "abs_cache s" and ?h = "lh (wal s)"
  have inv: "cache_inv s p" and dv: "word_of_int (ldev (wal s)) = ROOTDEV" and ls: "lstart (wal s) = int st"
    and st: "st < 2 ^ 31" and n: "\<not> lh_n ?h > int LOGBLOCKS"
    using lg by (simp_all add: log_at_def)
  obtain b t where t: "bread ROOTDEV (of_nat st) s = (Inr b, t)" "cache_inv t p" "cache_only s t" "a_held ?a b = None"
      "abs_cache t = a_bread st b ?a" "bdata t b = a_view ?a st"
    using bread_block [OF inv st] h rc c by auto
  have ht: "a_held (abs_cache t) b = Some st" using t(5) by (simp add: a_bread_def)
  obtain w where w: "kseq (kmod (set_bdata b (set_head ?h (bdata t b)))) (bwrite b) t = (Inr (), w)" "cache_inv w p" "cache_only t w"
      "abs_cache w = a_put st (set_head ?h (a_view ?a st)) (abs_cache t)"
    using store_write [OF t(2) ht, of "set_head ?h (bdata t b)"] t(6) by auto
  have "a_held (abs_cache w) b = Some st" "a_view (abs_cache w) st = a_disk (abs_cache w) st"
    using w(4) ht by (simp_all add: a_put_def)
  then obtain y where y: "brelse b w = (Inr (), y)" "cache_inv y p" "cache_only w y" "abs_cache y = a_brelse st b (abs_cache w)"
    using brelse_spec [OF w(2)] by blast
  have "abs_cache y = a_put st (set_head ?h (a_view ?a st)) ?a"
    unfolding y(4) w(4) t(5) using h rc by (simp add: a_put_def a_brelse_def a_bread_def fun_upd_idem)
  moreover have "wal t = wal s" using t(3) by (rule cache_only_wal)
  moreover have "log_bread (lstart (wal s)) s = (Inr b, t)" using log_bread_run [OF dv ls] t(1) by simp
  ultimately have "write_head s = (Inr (), y)" "abs_cache y = a_put st (set_head ?h (a_view ?a st)) ?a"
    using w(1) y(1) n by (simp_all add: write_head_def)
  moreover have "cache_only s y" using t(3) w(3) y(3) cache_only_trans by blast
  ultimately show ?thesis using y(2) by blast
qed

lemma pins_step: "distinct L \<Longrightarrow> i < length L \<Longrightarrow> (pins (drop i L))(L ! i := 0) = pins (drop (Suc i) L)"
proof -
  assume d: "distinct L" "i < length L"
  then have s: "drop i L = L ! i # drop (Suc i) L" by (simp add: Cons_nth_drop_Suc)
  then have "L ! i \<notin> set (drop (Suc i) L)" using d by (metis distinct.simps(2) distinct_drop)
  then show ?thesis unfolding s by (auto simp: fun_eq_iff)
qed

lemma install_trans_run:
  fixes rec :: bool
  defines "rcs \<equiv> \<lambda>L j. if rec then (\<lambda>_. 0) else pins (drop j L)"
  assumes lg: "log_at s p st L" and h: "a_held (abs_cache s) = Map.empty" and rc: "a_rc (abs_cache s) = rcs L 0"
    and n: "rec \<or> distinct L \<and> length L < NBUF"
  shows "\<exists>s'. install_trans rec s = (Inr (), s') \<and> cache_inv s' p \<and> cache_only s s' \<and>
    abs_cache s' = (put_all (home_writes L (\<lambda>i. a_view (abs_cache s) (st + 1 + i)) (length L)) (abs_cache s))
      \<lparr>a_rc := (\<lambda>_. 0)\<rparr>"
proof -
  let ?a = "abs_cache s" and ?W = "\<lambda>i. a_view (abs_cache s) (st + 1 + i)"
  define I where "I = (\<lambda>j t. cache_inv t p \<and> cache_only s t \<and>
      abs_cache t = (put_all (home_writes L ?W j) ?a)\<lparr>a_rc := rcs L j\<rparr>)"
  have area: "set L \<inter> log_area st = {}" using lg by (auto simp: log_at_def)
  have "\<exists>t'. install_one rec i t = (Inr (), t') \<and> I (Suc i) t'" if i: "i < length L" and t: "I i t" for i t
  proof -
    have lt: "log_at t p st L" using log_at_keep [OF lg] t by (simp add: I_def)
    have k1: "st + 1 + i \<in> log_area st" using lg i by (auto simp: log_at_def log_area_def)
    then have nm: "st + 1 + i \<notin> set L" using area by blast
    have "fst ` set (home_writes L ?W i) \<subseteq> set L" using i by (auto simp: home_writes_def)
    then have "st + 1 + i \<notin> fst ` set (home_writes L ?W i)" using nm by blast
    then have v: "a_view (abs_cache t) (st + 1 + i) = ?W i" using t by (simp add: I_def put_all_run apply_writes_other)
    have rt: "a_rc (abs_cache t) = rcs L i" using t by (simp add: I_def)
    have rc1: "a_rc (abs_cache t) (st + 1 + i) = 0" using rt nm by (auto simp: rcs_def dest: in_set_dropD)
    have rc2: "a_rc (abs_cache t) (L ! i) = (if rec then 0 else 1)"
      using rt i by (auto simp: rcs_def Cons_nth_drop_Suc [symmetric])
    have c: "card (insert (st + 1 + i) (in_use (abs_cache t))) < NBUF \<or> \<not> rec \<and> card (in_use (abs_cache t)) < NBUF"
    proof (cases rec)
      case True
      then show ?thesis using rt by (simp add: rcs_def NBUF_def MAXOPBLOCKS_def)
    next
      case False
      then have "in_use (abs_cache t) = set (drop i L)" using rt by (auto simp: rcs_def)
      moreover have "card (set (drop i L)) < NBUF" using n False by (intro card_pins) (simp add: less_imp_diff_less)
      ultimately show ?thesis using False by simp
    qed
    have "a_held (abs_cache t) = Map.empty" using t h by (simp add: I_def put_all_run)
    then obtain t' where t': "install_one rec i t = (Inr (), t')" "cache_inv t' p" "cache_only t t'"
        "abs_cache t' = (a_put (L ! i) (?W i) (abs_cache t))\<lparr>a_rc := (a_rc (abs_cache t))(L ! i := 0)\<rparr>"
      using install_one_run [OF lt _ i rc1 rc2 c] v by auto
    have "(a_rc (abs_cache t))(L ! i := 0) = rcs L (Suc i)"
      using rt n pins_step [OF _ i] by (auto simp: rcs_def)
    then have "abs_cache t' = (put_all (home_writes L ?W (Suc i)) ?a)\<lparr>a_rc := rcs L (Suc i)\<rparr>"
      using t'(4) t by (simp add: I_def home_writes_def a_put_def)
    moreover have "cache_only s t'" using t t'(3) cache_only_trans by (auto simp: I_def)
    ultimately show ?thesis using t' by (simp add: I_def)
  qed
  moreover have "I 0 s" using lg rc by (simp add: I_def home_writes_def log_at_def)
  ultimately have "\<exists>s'. kfor [0..<length L] (install_one rec) s = (Inr (), s') \<and> I (length L) s'" by (rule kfor_upt)
  moreover have "lh_n (lh (wal s)) = int (length L)" using lg by (simp add: log_at_def)
  moreover have "rcs L (length L) = (\<lambda>_. 0)" by (simp add: rcs_def)
  ultimately show ?thesis by (auto simp: install_trans_def I_def)
qed

lemma clear_head_run:
  assumes lg: "log_at s p st L" and h: "a_held (abs_cache s) = Map.empty" and rc: "a_rc (abs_cache s) = (\<lambda>_. 0)"
  shows "\<exists>s'. clear_head s = (Inr (), s') \<and> log_at s' p st [] \<and>
    cache_only (upd_wal (\<lambda>l. l\<lparr>lh := (lh l)\<lparr>lh_n := 0\<rparr>\<rparr>) s) s' \<and>
    abs_cache s' = a_put st (put32 (a_view (abs_cache s) st) 0 0) (abs_cache s)"
proof -
  let ?s = "upd_wal (\<lambda>l. l\<lparr>lh := (lh l)\<lparr>lh_n := 0\<rparr>\<rparr>) s"
  have l0: "log_at ?s p st []" using lg by (simp add: log_at_def)
  obtain s' where s': "write_head ?s = (Inr (), s')" "cache_inv s' p" "cache_only ?s s'"
      "abs_cache s' = a_put st (set_head (lh (wal ?s)) (a_view (abs_cache s) st)) (abs_cache s)"
    using write_head_run [OF l0] h rc by (auto simp: NBUF_def MAXOPBLOCKS_def)
  then show ?thesis using log_at_keep [OF l0 s'(3,2)] by (simp add: clear_head_def set_head_def)
qed

section \<open>Commit\<close>

text \<open>The writes of a commit, in order: the log, the header with the list of blocks, the blocks at their
  places, the empty header.\<close>

definition commit_writes :: "nat \<Rightarrow> nat list \<Rightarrow> logheader \<Rightarrow> (nat \<Rightarrow> u8 list) \<Rightarrow> (nat \<times> u8 list) list" where
  "commit_writes st L h V = log_writes st L V (length L) @ [(st, set_head h (V st))] @
     home_writes L (\<lambda>i. V (L ! i)) (length L) @ [(st, put32 (set_head h (V st)) 0 0)]"

lemma apply_log_writes:
  "apply_writes (log_writes st L V n) d k = (if st < k \<and> k \<le> st + n then V (L ! (k - st - 1)) else d k)"
proof (induction n)
  case 0
  then show ?case by (auto simp: log_writes_def)
next
  case (Suc n)
  have "log_writes st L V (Suc n) = log_writes st L V n @ [(st + 1 + n, V (L ! n))]" by (simp add: log_writes_def)
  then show ?case using Suc by (auto simp: le_Suc_eq)
qed

lemma commit_run:
  assumes lg: "log_at s p st L" and h: "a_held (abs_cache s) = Map.empty" and rc: "a_rc (abs_cache s) = pins L"
    and d: "distinct L" and n: "length L < NBUF" and ne: "L \<noteq> []"
  shows "\<exists>s'. commit s = (Inr (), s') \<and> log_at s' p st [] \<and>
    cache_only (upd_wal (\<lambda>l. l\<lparr>lh := (lh l)\<lparr>lh_n := 0\<rparr>\<rparr>) s) s' \<and>
    abs_cache s' = (put_all (commit_writes st L (lh (wal s)) (a_view (abs_cache s))) (abs_cache s))\<lparr>a_rc := (\<lambda>_. 0)\<rparr>"
proof -
  let ?a = "abs_cache s" and ?V = "a_view (abs_cache s)" and ?h = "lh (wal s)"
  let ?W1 = "log_writes st L ?V (length L)" and ?H = "set_head ?h (?V st)"
  have nl: "st \<notin> set L" "set L \<inter> log_area st = {}" using lg by (auto simp: log_at_def log_area_def)
  obtain t1 where t1: "write_log s = (Inr (), t1)" "cache_inv t1 p" "cache_only s t1" "abs_cache t1 = put_all ?W1 ?a"
    using write_log_run [OF lg h rc n] by blast
  note l1 = log_at_keep [OF lg t1(3,2)]
  have a1: "a_held (abs_cache t1) = Map.empty" "a_rc (abs_cache t1) = pins L" "a_view (abs_cache t1) st = ?V st"
    using t1(4) h rc by (simp_all add: put_all_run apply_log_writes)
  have "card (in_use (abs_cache t1)) < NBUF" using in_use_pins [OF a1(2)] card_pins [OF n] by simp
  then obtain t2 where t2: "write_head t1 = (Inr (), t2)" "cache_inv t2 p" "cache_only t1 t2" "abs_cache t2 = a_put st ?H (abs_cache t1)"
    using write_head_run [OF l1 a1(1)] a1 nl cache_only_wal [OF t1(3)] by auto
  note l2 = log_at_keep [OF l1 t2(3,2)]
  have a2: "a_held (abs_cache t2) = Map.empty" "a_rc (abs_cache t2) = pins (drop 0 L)"
    using t2(4) a1 by (simp_all add: a_put_def)
  have v2: "a_view (abs_cache t2) (st + 1 + i) = ?V (L ! i)" if "i < length L" for i
    using that t2(4) t1(4) by (simp add: a_put_def put_all_run apply_log_writes)
  then have hw: "home_writes L (\<lambda>i. a_view (abs_cache t2) (st + 1 + i)) (length L) = home_writes L (\<lambda>i. ?V (L ! i)) (length L)"
    by (simp add: home_writes_def)
  have "\<exists>s'. install_trans False t2 = (Inr (), s') \<and> cache_inv s' p \<and> cache_only t2 s' \<and>
      abs_cache s' = (put_all (home_writes L (\<lambda>i. a_view (abs_cache t2) (st + 1 + i)) (length L)) (abs_cache t2))\<lparr>a_rc := (\<lambda>_. 0)\<rparr>"
    by (rule install_trans_run [OF l2 a2(1)]) (use a2(2) d n in simp_all)
  then obtain t3 where t3: "install_trans False t2 = (Inr (), t3)" "cache_inv t3 p" "cache_only t2 t3"
      "abs_cache t3 = (put_all (home_writes L (\<lambda>i. ?V (L ! i)) (length L)) (abs_cache t2))\<lparr>a_rc := (\<lambda>_. 0)\<rparr>"
    unfolding hw by blast
  note l3 = log_at_keep [OF l2 t3(3,2)]
  have "st \<notin> fst ` set (home_writes L (\<lambda>i. ?V (L ! i)) (length L))" using nl(1) by (auto simp: home_writes_def)
  then have v3: "a_view (abs_cache t3) st = ?H" using t3(4) t2(4) by (simp add: put_all_run apply_writes_other a_put_def)
  obtain s' where s': "clear_head t3 = (Inr (), s')" "log_at s' p st []"
      "cache_only (upd_wal (\<lambda>l. l\<lparr>lh := (lh l)\<lparr>lh_n := 0\<rparr>\<rparr>) t3) s'"
      "abs_cache s' = a_put st (put32 ?H 0 0) (abs_cache t3)"
    using clear_head_run [OF l3] t3(4) a2(1) v3 by (auto simp: put_all_run)
  have "cache_only s t3" using t1(3) t2(3) t3(3) cache_only_trans by blast
  then have "cache_only (upd_wal (\<lambda>l. l\<lparr>lh := (lh l)\<lparr>lh_n := 0\<rparr>\<rparr>) s) (upd_wal (\<lambda>l. l\<lparr>lh := (lh l)\<lparr>lh_n := 0\<rparr>\<rparr>) t3)"
    by (rule cache_only_upd_wal)
  then have "cache_only (upd_wal (\<lambda>l. l\<lparr>lh := (lh l)\<lparr>lh_n := 0\<rparr>\<rparr>) s) s'" using s'(3) cache_only_trans by blast
  moreover have "commit s = (Inr (), s')"
    using t1(1) t2(1) t3(1) s'(1) ne lg by (simp add: commit_def log_at_def)
  moreover have "abs_cache s' = (put_all (commit_writes st L ?h ?V) ?a)\<lparr>a_rc := (\<lambda>_. 0)\<rparr>"
    using s'(4) t3(4) t2(4) t1(4) by (simp add: commit_writes_def a_put_def)
  ultimately show ?thesis using s'(2) by blast
qed

end
