(* ===== verification/LogCrash.thy ===== *)
theory LogCrash
  imports LogSpec
begin

text \<open>
  Crashes: the disk after a crash is the disk before the transaction with a prefix of the commit's
  writes applied, and the machine starts again with an empty cache. The theorems run
  \<^verbatim>\<open>recover_from_log\<close> on such a machine.
\<close>

section \<open>The header\<close>

lemma length_set_head [simp]:
  assumes "length d = BSIZE" and "lh_n h \<le> int LOGBLOCKS"
  shows "length (set_head h d) = BSIZE"
proof -
  have "length (fold (\<lambda>i d. put32 d (4 + 4 * i) (word_of_int (lh_block h i))) [0..<n] e) = BSIZE"
    if "n \<le> LOGBLOCKS" and "length e = BSIZE" for n e
    using that
    by (induction n) (simp_all add: BSIZE_def LOGBLOCKS_def MAXOPBLOCKS_def)
  moreover have "nat (lh_n h) \<le> LOGBLOCKS" using assms(2) by linarith
  ultimately show ?thesis using assms(1) by (simp add: set_head_def BSIZE_def)
qed

lemma get32_set_head:
  assumes d: "length d = BSIZE" and n: "lh_n h \<le> int LOGBLOCKS"
  shows "get32 (set_head h d) 0 = word_of_int (lh_n h)"
    and "i < nat (lh_n h) \<Longrightarrow> get32 (set_head h d) (4 + 4 * i) = word_of_int (lh_block h i)"
proof -
  let ?f = "\<lambda>n. fold (\<lambda>i d. put32 d (4 + 4 * i) (word_of_int (lh_block h i))) [0..<n] (put32 d 0 (word_of_int (lh_n h)))"
  have "length (?f n) = BSIZE \<and> get32 (?f n) 0 = word_of_int (lh_n h) \<and>
      (\<forall>i < n. get32 (?f n) (4 + 4 * i) = word_of_int (lh_block h i))" if "n \<le> LOGBLOCKS" for n
    using that
  proof (induction n)
    case 0
    then show ?case using d by (simp add: BSIZE_def)
  next
    case (Suc n)
    then have IH: "length (?f n) = BSIZE" "get32 (?f n) 0 = word_of_int (lh_n h)"
        "\<forall>i < n. get32 (?f n) (4 + 4 * i) = word_of_int (lh_block h i)" by simp_all
    have room: "4 + 4 * n + 4 \<le> length (?f n)" using IH(1) Suc.prems by (simp add: BSIZE_def LOGBLOCKS_def MAXOPBLOCKS_def)
    have st: "?f (Suc n) = put32 (?f n) (4 + 4 * n) (word_of_int (lh_block h n))" by simp
    have "get32 (?f (Suc n)) (4 + 4 * i) = word_of_int (lh_block h i)" if "i < Suc n" for i
    proof (cases "i = n")
      case True
      then show ?thesis unfolding st using room by simp
    next
      case False
      then have "get32 (?f (Suc n)) (4 + 4 * i) = get32 (?f n) (4 + 4 * i)"
        unfolding st using room that by (intro get32_put32_other) auto
      then show ?thesis using IH(3) that False by simp
    qed
    moreover have "get32 (?f (Suc n)) 0 = get32 (?f n) 0" unfolding st using room by (intro get32_put32_other) auto
    moreover have "length (?f (Suc n)) = BSIZE" unfolding st using room IH(1) by simp
    ultimately show ?case using IH(2) by simp
  qed
  moreover have "nat (lh_n h) \<le> LOGBLOCKS" using n by linarith
  ultimately have "get32 (?f (nat (lh_n h))) 0 = word_of_int (lh_n h) \<and>
      (\<forall>i < nat (lh_n h). get32 (?f (nat (lh_n h))) (4 + 4 * i) = word_of_int (lh_block h i))" by blast
  then show "get32 (set_head h d) 0 = word_of_int (lh_n h)"
    and "i < nat (lh_n h) \<Longrightarrow> get32 (set_head h d) (4 + 4 * i) = word_of_int (lh_block h i)"
    by (simp_all add: set_head_def)
qed

text \<open>The transaction a disk's log area records, and the disk after replaying it.\<close>

definition disk_log :: "nat \<Rightarrow> (nat \<Rightarrow> u8 list) \<Rightarrow> nat list" where
  "disk_log st D = map (\<lambda>i. unat (get32 (D st) (4 + 4 * i))) [0..<nat (sint (get32 (D st) 0))]"

definition replay :: "nat \<Rightarrow> (nat \<Rightarrow> u8 list) \<Rightarrow> nat \<Rightarrow> u8 list" where
  "replay st D = apply_writes (home_writes (disk_log st D) (\<lambda>i. D (st + 1 + i)) (length (disk_log st D))) D"

definition head_ok :: "nat \<Rightarrow> (nat \<Rightarrow> u8 list) \<Rightarrow> bool" where
  "head_ok st D \<longleftrightarrow> 0 \<le> sint (get32 (D st) 0) \<and> sint (get32 (D st) 0) \<le> int LOGBLOCKS \<and>
     (\<forall>k \<in> set (disk_log st D). k < 2 ^ 31 \<and> k \<notin> log_area st)"

lemma home_keys: "n \<le> length L \<Longrightarrow> fst ` set (home_writes L W n) \<subseteq> set L"
  by (auto simp: home_writes_def)

lemma apply_home_writes:
  assumes "n \<le> length L"
  shows "apply_writes (home_writes L (\<lambda>i. F (L ! i)) n) d k = (if k \<in> set (take n L) then F k else d k)"
  using assms
proof (induction n)
  case 0
  then show ?case by (simp add: home_writes_def)
next
  case (Suc n)
  have "home_writes L (\<lambda>i. F (L ! i)) (Suc n) = home_writes L (\<lambda>i. F (L ! i)) n @ [(L ! n, F (L ! n))]"
    by (simp add: home_writes_def)
  moreover have "take (Suc n) L = take n L @ [L ! n]" using Suc.prems by (simp add: take_Suc_conv_app_nth)
  ultimately show ?case using Suc by auto
qed

section \<open>Recovery\<close>

definition boot_at :: "('a) klog_scheme \<Rightarrow> nat \<Rightarrow> nat \<Rightarrow> bool" where
  "boot_at s p st \<longleftrightarrow> cache_inv s p \<and> word_of_int (ldev (wal s)) = ROOTDEV \<and> lstart (wal s) = int st \<and>
     st + LOGBLOCKS < 2 ^ 31 \<and> a_held (abs_cache s) = Map.empty \<and> a_rc (abs_cache s) = (\<lambda>_. 0)"

lemma boot_clean: "boot_at s p st \<Longrightarrow> a_view (abs_cache s) = a_disk (abs_cache s)"
  using clean_block by (fastforce simp: boot_at_def)

lemma sint_small:
  assumes "unat (w :: u32) < 2 ^ 31"
  shows "sint w = int (unat w)"
proof -
  have e: "uint w = int (unat w)" by (rule uint_nat)
  have "int (unat w) < int (2 ^ 31)" using assms by (simp only: of_nat_less_iff)
  then have "0 \<le> uint w" "uint w < 2 ^ 31" unfolding e by simp_all
  then have "- (2 ^ 31) \<le> uint w" "uint w < 2 ^ 31" by linarith+
  then have "signed_take_bit 31 (uint w) = uint w" by (rule signed_take_bit_int_eq_self)
  then show ?thesis by (simp add: sint_uint)
qed

lemma read_head_run:
  assumes b: "boot_at s p st" and hd: "head_ok st (a_disk (abs_cache s))"
  shows "\<exists>s'. read_head s = (Inr (), s') \<and> log_at s' p st (disk_log st (a_disk (abs_cache s))) \<and>
    abs_cache s' = abs_cache s"
proof -
  let ?a = "abs_cache s" and ?D = "a_disk (abs_cache s)" and ?d = "a_disk (abs_cache s) st"
  let ?n = "sint (get32 ?d 0)" and ?L = "disk_log st ?D"
  have inv: "cache_inv s p" and dv: "word_of_int (ldev (wal s)) = ROOTDEV" and ls: "lstart (wal s) = int st"
    and st: "st < 2 ^ 31" "st + LOGBLOCKS < 2 ^ 31" and h: "a_held ?a = Map.empty" and rc: "a_rc ?a = (\<lambda>_. 0)"
    using b by (simp_all add: boot_at_def)
  obtain bf t where t: "bread ROOTDEV (of_nat st) s = (Inr bf, t)" "cache_inv t p" "cache_only s t"
      "abs_cache t = a_bread st bf ?a" "bdata t bf = ?d"
    using bread_block [OF inv st(1)] h rc boot_clean [OF b] by (auto simp: NBUF_def MAXOPBLOCKS_def)
  let ?f = "\<lambda>l. l\<lparr>lh := (lh l)\<lparr>lh_n := ?n\<rparr>\<rparr>"
  let ?g = "\<lambda>l. l\<lparr>lh := (lh l)\<lparr>lh_block := (\<lambda>i. if int i < ?n then sint (get32 ?d (4 + 4 * i)) else lh_block (lh l) i)\<rparr>\<rparr>"
  let ?u = "upd_wal ?g (upd_wal ?f t)"
  have hu: "a_held (abs_cache ?u) bf = Some st" "a_view (abs_cache ?u) st = a_disk (abs_cache ?u) st"
    using t(4) boot_clean [OF b] by (simp_all add: a_bread_def)
  have iu: "cache_inv ?u p" using t(2) by simp
  obtain y where y: "brelse bf ?u = (Inr (), y)" "cache_inv y p" "cache_only ?u y" "abs_cache y = a_brelse st bf (abs_cache ?u)"
    using brelse_spec [OF iu hu(1)] hu(2) by blast
  have ab: "abs_cache y = ?a"
    using y(4) t(4) h rc by (simp add: a_brelse_def a_bread_def fun_upd_idem)
  have nn: "nat ?n = length ?L" "0 \<le> ?n" "?n \<le> int LOGBLOCKS" using hd by (simp_all add: head_ok_def disk_log_def)
  have Li: "sint (get32 ?d (4 + 4 * i)) = int (?L ! i)" if "i < length ?L" for i
  proof -
    have "?L ! i = unat (get32 ?d (4 + 4 * i))" using that by (simp add: disk_log_def)
    moreover have "?L ! i < 2 ^ 31" using hd that nth_mem by (auto simp: head_ok_def)
    ultimately show ?thesis using sint_small by simp
  qed
  have wy: "wal y = ?g (?f (wal s))" using cache_only_wal [OF y(3)] cache_only_wal [OF t(3)] by (simp cong: if_cong)
  have "log_at y p st ?L"
    using y(2) dv ls st(2) nn Li hd by (auto simp: log_at_def wy head_ok_def)
  moreover have "log_bread (lstart (wal s)) s = (Inr bf, t)" using log_bread_run [OF dv ls] t(1) by simp
  then have "read_head s = (Inr (), y)"
    using y(1) nn(3) t(5) by (simp add: read_head_def cong: if_cong)
  ultimately show ?thesis using ab by blast
qed

lemma recover_run:
  assumes b: "boot_at s p st" and hd: "head_ok st (a_disk (abs_cache s))"
  shows "\<exists>s'. recover_from_log s = (Inr (), s') \<and> log_at s' p st [] \<and> a_held (abs_cache s') = Map.empty \<and>
    a_rc (abs_cache s') = (\<lambda>_. 0) \<and>
    a_disk (abs_cache s') = (replay st (a_disk (abs_cache s)))(st := put32 (a_disk (abs_cache s) st) 0 0)"
proof -
  let ?a = "abs_cache s" and ?D = "a_disk (abs_cache s)" and ?L = "disk_log st (a_disk (abs_cache s))"
  obtain t where t: "read_head s = (Inr (), t)" "log_at t p st ?L" "abs_cache t = ?a" using read_head_run [OF b hd] by blast
  have h: "a_held (abs_cache t) = Map.empty" "a_rc (abs_cache t) = (\<lambda>_. 0)" "a_view (abs_cache t) = ?D"
    using t(3) b boot_clean [OF b] by (simp_all add: boot_at_def)
  obtain u where u: "install_trans True t = (Inr (), u)" "cache_inv u p" "cache_only t u"
      "abs_cache u = (put_all (home_writes ?L (\<lambda>i. ?D (st + 1 + i)) (length ?L)) (abs_cache t))\<lparr>a_rc := (\<lambda>_. 0)\<rparr>"
    using install_trans_run [OF t(2) h(1), of True] h(2,3) by auto
  have au: "a_held (abs_cache u) = Map.empty" "a_rc (abs_cache u) = (\<lambda>_. 0)" "a_disk (abs_cache u) = replay st ?D"
    using u(4) h t(3) by (simp_all add: put_all_run replay_def)
  have "st \<notin> set ?L" using hd by (auto simp: head_ok_def log_area_def)
  then have "st \<notin> fst ` set (home_writes ?L (\<lambda>i. ?D (st + 1 + i)) (length ?L))" using home_keys [of "length ?L" ?L] by blast
  then have v: "a_view (abs_cache u) st = ?D st" using u(4) h(3) by (simp add: put_all_run apply_writes_other)
  obtain s' where s': "clear_head u = (Inr (), s')" "log_at s' p st []"
      "abs_cache s' = a_put st (put32 (a_view (abs_cache u) st) 0 0) (abs_cache u)"
    using clear_head_run [OF log_at_keep [OF t(2) u(3,2)] au(1,2)] by blast
  then show ?thesis using t(1) u(1) au v by (auto simp: recover_from_log_def a_put_def)
qed

section \<open>A crash during commit\<close>

lemma take_commit_writes:
  assumes "m \<le> length (commit_writes st L h V)"
  shows "take m (commit_writes st L h V) =
    (if m \<le> length L then log_writes st L V m
     else if m \<le> 2 * length L + 1
     then log_writes st L V (length L) @ [(st, set_head h (V st))] @ home_writes L (\<lambda>i. V (L ! i)) (m - length L - 1)
     else commit_writes st L h V)"
proof -
  have len: "length (log_writes st L V n) = n" "length (home_writes L W n) = n" for n W
    by (simp_all add: log_writes_def home_writes_def)
  have tk: "take j (log_writes st L V n) = log_writes st L V (min j n)"
    "take j (home_writes L W n) = home_writes L W (min j n)" for j n W
    by (simp_all add: log_writes_def home_writes_def take_map min_def)
  show ?thesis
  proof (cases "m \<le> length L")
    case True
    then show ?thesis by (simp add: commit_writes_def len tk)
  next
    case False
    then obtain j where m: "m = Suc (length L + j)" by (metis add_Suc_right not_less less_imp_Suc_add)
    then show ?thesis using assms by (auto simp: commit_writes_def len tk min_def)
  qed
qed

text \<open>The disk at the moment of the crash, in the three phases of a commit.\<close>

lemma crash_before_commit_point:
  assumes "m \<le> length L" and "length L \<le> LOGBLOCKS"
  shows "apply_writes (log_writes st L V m) D st = D st"
    and "k \<notin> log_area st \<Longrightarrow> apply_writes (log_writes st L V m) D k = D k"
  using assms by (auto simp: apply_log_writes log_area_def)

lemma empty_head:
  assumes "sint (get32 (D st) 0) = 0"
  shows "head_ok st D" and "replay st D = D"
  using assms by (simp_all add: head_ok_def replay_def disk_log_def home_writes_def)

lemma committed_head:
  assumes lg: "log_at s p st L" and d: "length d = BSIZE" and D: "D st = set_head (lh (wal s)) d"
  shows "disk_log st D = L" and "head_ok st D"
proof -
  let ?h = "lh (wal s)"
  have n: "lh_n ?h = int (length L)" "length L \<le> LOGBLOCKS" and bl: "\<And>i. i < length L \<Longrightarrow> lh_block ?h i = int (L ! i)"
    and ks: "\<And>k. k \<in> set L \<Longrightarrow> k < 2 ^ 31 \<and> k \<notin> log_area st"
    using lg by (auto simp: log_at_def)
  then have "length L < 2 ^ 31" by (simp add: LOGBLOCKS_def MAXOPBLOCKS_def)
  then have "unat (of_nat (length L) :: u32) = length L" by (rule unat_block)
  moreover have "get32 (D st) 0 = of_nat (length L)" using get32_set_head(1) [OF d, of ?h] n D by simp
  ultimately have g0: "sint (get32 (D st) 0) = int (length L)"
    using sint_small [of "of_nat (length L)"] \<open>length L < 2 ^ 31\<close> by metis
  have "unat (get32 (D st) (4 + 4 * i)) = L ! i" if "i < length L" for i
  proof -
    have "get32 (D st) (4 + 4 * i) = of_nat (L ! i)" using get32_set_head(2) [OF d, of ?h i] n D bl [OF that] that by simp
    moreover have "L ! i < 2 ^ 31" using ks that by simp
    ultimately show ?thesis using unat_block by metis
  qed
  then have "map (\<lambda>i. unat (get32 (D st) (4 + 4 * i))) [0..<length L] = L" by (intro nth_equalityI) simp_all
  then show dl: "disk_log st D = L" using g0 by (simp add: disk_log_def)
  show "head_ok st D" using g0 n ks dl by (simp add: head_ok_def)
qed

lemma crash_after_commit_point:
  fixes D :: "nat \<Rightarrow> u8 list"
  assumes lg: "log_at s p st L" and j: "j \<le> length L" and V: "length (V st) = BSIZE"
  defines "D' \<equiv> apply_writes (log_writes st L V (length L) @ [(st, set_head (lh (wal s)) (V st))] @
      home_writes L (\<lambda>i. V (L ! i)) j) D"
  shows "head_ok st D'" and "k \<notin> log_area st \<Longrightarrow> replay st D' k = (if k \<in> set L then V k else D k)"
proof -
  have area: "set L \<inter> log_area st = {}" "length L \<le> LOGBLOCKS" using lg by (auto simp: log_at_def)
  have D': "D' k = (if k \<in> set (take j L) then V k else if k = st then set_head (lh (wal s)) (V st)
      else if st < k \<and> k \<le> st + length L then V (L ! (k - st - 1)) else D k)" for k
    using j by (simp add: D'_def apply_home_writes apply_log_writes)
  have la: "st \<in> log_area st" by (simp add: log_area_def)
  have "st \<notin> set (take j L)" using area la by (auto dest: in_set_takeD)
  then have hs: "D' st = set_head (lh (wal s)) (V st)" by (simp add: D')
  note ch = committed_head [OF lg V, of D', OF hs]
  show "head_ok st D'" by (rule ch(2))
  have "D' (st + 1 + i) = V (L ! i)" if "i < length L" for i
  proof -
    have "st + 1 + i \<in> log_area st" using that area(2) by (simp add: log_area_def)
    then have "st + 1 + i \<notin> set (take j L)" using area by (auto dest: in_set_takeD)
    then show ?thesis using that by (simp add: D')
  qed
  then have "home_writes L (\<lambda>i. D' (st + 1 + i)) (length L) = home_writes L (\<lambda>i. V (L ! i)) (length L)"
    by (simp add: home_writes_def)
  then have "replay st D' k = (if k \<in> set L then V k else D' k)" using ch(1) by (simp add: replay_def apply_home_writes)
  then show "k \<notin> log_area st \<Longrightarrow> replay st D' k = (if k \<in> set L then V k else D k)"
    using area la by (auto simp: D' log_area_def dest: in_set_takeD)
qed

text \<open>The state a transaction leaves before it commits: nobody holds a buffer, the header lists distinct
  blocks, which are pinned, and nothing else differs from the disk; the header on disk is empty.\<close>

definition pending :: "('a) klog_scheme \<Rightarrow> nat \<Rightarrow> nat \<Rightarrow> nat list \<Rightarrow> bool" where
  "pending s p st L \<longleftrightarrow> log_at s p st L \<and> a_held (abs_cache s) = Map.empty \<and> a_rc (abs_cache s) = pins L \<and> distinct L \<and>
     length (a_disk (abs_cache s) st) = BSIZE \<and> sint (get32 (a_disk (abs_cache s) st) 0) = 0"

lemma pending_clean:
  assumes "pending s p st L" and "k \<notin> set L"
  shows "a_view (abs_cache s) k = a_disk (abs_cache s) k"
  using assms clean_block [of s p k] by (simp add: pending_def log_at_def)

lemma pending_commit:
  assumes p: "pending s p st L" and n: "length L < NBUF"
  shows "\<exists>s'. commit s = (Inr (), s') \<and> log_at s' p st [] \<and>
    cache_only (upd_wal (\<lambda>l. l\<lparr>lh := (lh l)\<lparr>lh_n := 0\<rparr>\<rparr>) s) s' \<and>
    abs_cache s' = (put_all (if L = [] then [] else commit_writes st L (lh (wal s)) (a_view (abs_cache s))) (abs_cache s))
      \<lparr>a_rc := (\<lambda>_. 0)\<rparr>"
proof (cases "L = []")
  case False
  then show ?thesis using commit_run [of s p st L] assms by (simp add: pending_def)
next
  case True
  then have "lh_n (lh (wal s)) = 0" "a_rc (abs_cache s) = (\<lambda>_. 0)" "log_at s p st []"
    using p by (simp_all add: pending_def log_at_def)
  then have "commit s = (Inr (), s)" "upd_wal (\<lambda>l. l\<lparr>lh := (lh l)\<lparr>lh_n := 0\<rparr>\<rparr>) s = s"
    by (simp_all add: commit_def upd_wal_def)
  then show ?thesis using True \<open>log_at s p st []\<close> \<open>a_rc (abs_cache s) = (\<lambda>_. 0)\<close> by simp
qed

lemma commit_disk:
  assumes p: "pending s p st L" and ne: "L \<noteq> []"
  defines "D' \<equiv> apply_writes (commit_writes st L (lh (wal s)) (a_view (abs_cache s))) (a_disk (abs_cache s))"
  shows "k \<notin> log_area st \<Longrightarrow> D' k = a_view (abs_cache s) k" and "sint (get32 (D' st) 0) = 0"
proof -
  let ?V = "a_view (abs_cache s)" and ?D = "a_disk (abs_cache s)" and ?h = "lh (wal s)"
  have lg: "log_at s p st L" and d: "length (?D st) = BSIZE" using p by (simp_all add: pending_def)
  have la: "st \<in> log_area st" "st \<notin> set L" "lh_n ?h \<le> int LOGBLOCKS" using lg by (auto simp: log_at_def log_area_def)
  have v: "?V st = ?D st" by (rule pending_clean [OF p la(2)])
  have D': "D' k = (if k = st then put32 (set_head ?h (?V st)) 0 0 else if k \<in> set L then ?V k
      else if st < k \<and> k \<le> st + length L then ?V (L ! (k - st - 1)) else ?D k)" for k
    by (simp add: D'_def commit_writes_def apply_home_writes apply_log_writes)
  show "sint (get32 (D' st) 0) = 0" using d v la(3) by (simp add: D' BSIZE_def)
  have "length L \<le> LOGBLOCKS" using lg by (simp add: log_at_def)
  then show "k \<notin> log_area st \<Longrightarrow> D' k = ?V k" using la pending_clean [OF p, of k] by (auto simp: D' log_area_def)
qed

lemma crash_disk:
  assumes p: "pending s p st L" and ne: "L \<noteq> []"
    and D': "D' = apply_writes (take m (commit_writes st L (lh (wal s)) (a_view (abs_cache s)))) (a_disk (abs_cache s))"
  shows "head_ok st D'"
    and "k \<notin> log_area st \<Longrightarrow> replay st D' k = (if m \<le> length L then a_disk (abs_cache s) k else a_view (abs_cache s) k)"
proof -
  let ?V = "a_view (abs_cache s)" and ?D = "a_disk (abs_cache s)" and ?h = "lh (wal s)"
  let ?ws = "commit_writes st L ?h ?V"
  have lg: "log_at s p st L" and d: "length (?D st) = BSIZE" "sint (get32 (?D st) 0) = 0" and ll: "length L \<le> LOGBLOCKS"
    using p by (simp_all add: pending_def log_at_def)
  have st: "st \<notin> set L" using lg by (auto simp: log_at_def log_area_def)
  have V: "length (?V st) = BSIZE" using pending_clean [OF p st] d by simp
  consider (early) "m \<le> length L" | (mid) "length L < m" "m \<le> 2 * length L + 1" | (late) "m > 2 * length L + 1"
    by linarith
  then have "head_ok st D' \<and> (k \<notin> log_area st \<longrightarrow> replay st D' k = (if m \<le> length L then ?D k else ?V k))"
  proof cases
    case early
    then have "take m ?ws = log_writes st L ?V m" using take_commit_writes [of m st L ?h ?V] by (simp add: commit_writes_def log_writes_def)
    then have e: "D' st = ?D st" "k \<notin> log_area st \<Longrightarrow> D' k = ?D k"
      using crash_before_commit_point [OF early ll] D' by simp_all
    then have "sint (get32 (D' st) 0) = 0" using d by simp
    then show ?thesis using empty_head [of D' st] e early by simp
  next
    case mid
    define j where "j = m - length L - 1"
    have j: "m = length L + 1 + j" "j \<le> length L" using mid by (simp_all add: j_def)
    then have "take m ?ws = log_writes st L ?V (length L) @ [(st, set_head ?h (?V st))] @ home_writes L (\<lambda>i. ?V (L ! i)) j"
      using take_commit_writes [of m st L ?h ?V] by (simp add: commit_writes_def log_writes_def home_writes_def)
    then show ?thesis
      using crash_after_commit_point [OF lg j(2), where V = ?V and D = ?D] V pending_clean [OF p, of k] D' j(1) by auto
  next
    case late
    then have "take m ?ws = ?ws" by (simp add: commit_writes_def log_writes_def home_writes_def)
    then have "D' = apply_writes ?ws ?D" using D' by simp
    then show ?thesis using commit_disk [OF p ne] empty_head [of D' st] late by simp
  qed
  then show "head_ok st D'" "k \<notin> log_area st \<Longrightarrow> replay st D' k = (if m \<le> length L then ?D k else ?V k)" by simp_all
qed

section \<open>A machine with pinned blocks\<close>

text \<open>\<open>demo_log n D\<close>: the first \<open>n\<close> buffers hold changed and pinned copies (full of nines) of the blocks 100,
  101, ...; the disk is \<open>D\<close> and the log starts at block 2.\<close>

definition demo_wal :: "nat \<Rightarrow> log" where
  "demo_wal n = \<lparr>llock = fresh_lock ''log'', lstart = 2, outstanding = 1, committing = False, ldev = 1,
     lh = \<lparr>lh_n = int n, lh_block = (\<lambda>i. 100 + int i)\<rparr>\<rparr>"

definition demo_log :: "nat \<Rightarrow> (nat \<Rightarrow> u8 list) \<Rightarrow> klog" where
  "demo_log n D = kdisk.extend (demo_disk\<lparr>
     hw := demo_hw\<lparr>platter := D, vdata := (\<lambda>_. replicate BSIZE 9)\<rparr>,
     bufs := (\<lambda>i. if i < n then (demo_buf i)\<lparr>valid := True, bdev := ROOTDEV, blockno := 100 + of_nat i, refcnt := 1\<rparr>
                  else demo_buf i)\<rparr>) \<lparr>wal = demo_wal n\<rparr>"

definition demo_blocks :: "nat \<Rightarrow> nat list" where
  "demo_blocks n = [100..<100 + n]"

definition zero_disk :: "nat \<Rightarrow> u8 list" where
  "zero_disk k = replicate BSIZE 0"

lemma demo_log_fields:
  "hw (demo_log n D) = demo_hw\<lparr>platter := D, vdata := (\<lambda>_. replicate BSIZE 9)\<rparr>"
  "bufs (demo_log n D) = (\<lambda>i. if i < n then (demo_buf i)\<lparr>valid := True, bdev := ROOTDEV, blockno := 100 + of_nat i, refcnt := 1\<rparr>
     else demo_buf i)"
  "wal (demo_log n D) = demo_wal n" "proc_table (demo_log n D) = proc_table demo_disk"
  "bcache_lock (demo_log n D) = fresh_lock ''bcache''" "vdev (demo_log n D) = serve"
  by (simp_all add: demo_log_def kdisk.extend_def demo_disk_def kcore.extend_def)

lemma demo_block_no: "i < NBUF \<Longrightarrow> unat (100 + of_nat i :: u32) = 100 + i"
proof -
  assume "i < NBUF"
  then have "100 + i < 2 ^ 31" by (simp add: NBUF_def MAXOPBLOCKS_def)
  then show ?thesis using unat_block [of "100 + i"] by simp
qed

lemma demo_log_key: "i < NBUF \<Longrightarrow> key (demo_log n D) i = (if i < n then 100 + i else 5)"
  by (simp add: key_def demo_log_fields demo_block_no) (simp add: demo_buf_def)

lemma demo_log_inv:
  assumes "n \<le> NBUF"
  shows "cache_inv (demo_log n D) 1"
proof -
  let ?s = "demo_log n D"
  have "quiet ?s 1" "vq_idle ?s"
    using demo_disk_ok(1,2)
    by (simp_all add: quiet_def vq_idle_def demo_log_def kdisk.extend_def demo_disk_def kcore.extend_def demo_hw_def)
  moreover have "lru_list (bufs ?s) (rev [0..<NBUF])"
    using demo_lru by (rule lru_list_fields) (simp add: demo_log_fields)
  moreover have "buf_ok ?s 1 b" if "b < NBUF" for b
    using that demo_log_key [OF that, of n D]
    by (simp add: buf_ok_def Let_def demo_log_fields demo_buf_def ROOTDEV_def fresh_sleeplock_def fresh_lock_def NBUF_def MAXOPBLOCKS_def)
  moreover have "one_buf ?s"
    by (auto simp: one_buf_def demo_log_key demo_log_fields demo_buf_def ROOTDEV_def split: if_splits)
  ultimately show ?thesis by (auto simp: cache_inv_def demo_log_fields good_dev_serve lock_idle_def fresh_lock_def)
qed

lemma demo_log_abs:
  assumes "n \<le> NBUF"
  shows "a_disk (abs_cache (demo_log n D)) = D" "a_held (abs_cache (demo_log n D)) = Map.empty"
    "a_rc (abs_cache (demo_log n D)) = pins (demo_blocks n)"
    "a_view (abs_cache (demo_log n D)) = (\<lambda>k. if k \<in> set (demo_blocks n) then replicate BSIZE 9 else D k)"
    "a_trace (abs_cache (demo_log n D)) = []"
proof -
  let ?s = "demo_log n D"
  have o: "one_buf ?s" using demo_log_inv [OF assms] by (simp add: cache_inv_def)
  have bo: "buf_of ?s k = Some b \<longleftrightarrow> b < n \<and> k = 100 + b" for k b
    using assms by (auto simp: buf_of_Some [OF o] demo_log_key demo_log_fields demo_buf_def ROOTDEV_def)
  then have bn: "buf_of ?s k = (if k \<in> set (demo_blocks n) then Some (k - 100) else None)" for k
  proof (cases "buf_of ?s k")
    case None
    then have "\<not> (k - 100 < n \<and> k = 100 + (k - 100))" using bo by (metis option.distinct(1))
    then show ?thesis using None by (auto simp: demo_blocks_def)
  next
    case (Some b)
    then have "b < n" "k = 100 + b" using bo by blast+
    then show ?thesis using Some by (simp add: demo_blocks_def)
  qed
  show "a_disk (abs_cache ?s) = D" "a_trace (abs_cache ?s) = []" by (simp_all add: abs_cache_def demo_log_fields demo_hw_def)
  show "a_held (abs_cache ?s) = Map.empty"
    by (simp add: abs_cache_def demo_log_fields demo_buf_def fresh_sleeplock_def fun_eq_iff)
  show "a_rc (abs_cache ?s) = pins (demo_blocks n)"
    by (auto simp: abs_cache_def bn demo_log_fields fun_eq_iff demo_blocks_def)
  show "a_view (abs_cache ?s) = (\<lambda>k. if k \<in> set (demo_blocks n) then replicate BSIZE 9 else D k)"
    by (auto simp: abs_cache_def bn demo_log_fields demo_hw_def fun_eq_iff)
qed

lemma demo_log_pending:
  assumes n: "n \<le> NBUF" and D: "length (D 2) = BSIZE" "sint (get32 (D 2) 0) = 0"
  shows "pending (demo_log n D) 1 2 (demo_blocks n)"
proof -
  have "log_at (demo_log n D) 1 2 (demo_blocks n)"
    using demo_log_inv [OF n] n
    by (auto simp: log_at_def demo_log_fields demo_wal_def demo_blocks_def log_area_def ROOTDEV_def LOGBLOCKS_def NBUF_def MAXOPBLOCKS_def)
  then show ?thesis
    using demo_log_abs [OF n, of D] D by (simp add: pending_def) (simp add: demo_blocks_def)
qed

lemma demo_boot: "boot_at (demo_log 0 D) 1 2"
  using demo_log_inv [of 0 D] demo_log_abs [of 0 D]
  by (simp add: boot_at_def demo_log_fields demo_wal_def ROOTDEV_def LOGBLOCKS_def MAXOPBLOCKS_def) (simp add: demo_blocks_def)

lemma zero_head: "length (zero_disk k) = BSIZE" "sint (get32 (zero_disk k) 0) = 0"
  by (simp_all add: zero_disk_def get32_def BSIZE_def numeral_eq_Suc)

section \<open>Properties\<close>

lemma commit_done:
  assumes "pending s p st L" and "length L < NBUF"
  shows "\<exists>s'. commit s = (Inr (), s') \<and> pending s' p st [] \<and>
    cache_only (upd_wal (\<lambda>l. l\<lparr>lh := (lh l)\<lparr>lh_n := 0\<rparr>\<rparr>) s) s' \<and>
    (\<forall>k. k \<notin> log_area st \<longrightarrow> a_disk (abs_cache s') k = a_view (abs_cache s) k \<and> a_view (abs_cache s') k = a_view (abs_cache s) k)"
proof -
  let ?V = "a_view (abs_cache s)" and ?D = "a_disk (abs_cache s)"
  define ws where "ws = (if L = [] then [] else commit_writes st L (lh (wal s)) ?V)"
  obtain s' where s': "commit s = (Inr (), s')" "log_at s' p st []"
      "abs_cache s' = (put_all ws (abs_cache s))\<lparr>a_rc := (\<lambda>_. 0)\<rparr>"
      "cache_only (upd_wal (\<lambda>l. l\<lparr>lh := (lh l)\<lparr>lh_n := 0\<rparr>\<rparr>) s) s'"
    using pending_commit [OF assms] by (auto simp: ws_def)
  have a: "a_held (abs_cache s') = Map.empty" "a_rc (abs_cache s') = (\<lambda>_. 0)" "a_disk (abs_cache s') = apply_writes ws ?D"
    using s'(3) assms(1) by (simp_all add: put_all_run pending_def)
  have cl: "a_view (abs_cache s') k = a_disk (abs_cache s') k" for k
    using clean_block [of s' p k] s'(2) a(2) by (simp add: log_at_def)
  have hd: "length (apply_writes ws ?D st) = BSIZE \<and> sint (get32 (apply_writes ws ?D st) 0) = 0 \<and>
      (\<forall>k. k \<notin> log_area st \<longrightarrow> apply_writes ws ?D k = ?V k)"
  proof (cases "L = []")
    case True
    then show ?thesis using assms(1) pending_clean [OF assms(1)] by (simp add: ws_def pending_def)
  next
    case False
    have lg: "log_at s p st L" "length (?V st) = BSIZE"
      using assms(1) pending_clean [OF assms(1), of st] by (auto simp: pending_def log_at_def log_area_def)
    have "lh_n (lh (wal s)) \<le> int LOGBLOCKS" using lg(1) by (simp add: log_at_def)
    then have "length (put32 (set_head (lh (wal s)) (?V st)) 0 0) = BSIZE" using lg(2) by (simp add: BSIZE_def)
    moreover have "apply_writes ws ?D st = put32 (set_head (lh (wal s)) (?V st)) 0 0"
      using False by (simp add: ws_def commit_writes_def)
    ultimately show ?thesis using commit_disk [OF assms(1) False] False by (simp add: ws_def)
  qed
  then have "pending s' p st []" using s'(2) a by (simp add: pending_def)
  then show ?thesis using s'(1,4) hd a(3) cl by auto
qed

text \<open>A commit installs the transaction: it returns, afterwards the disk outside the log area is the
  file system's view before the commit, the view has not changed, the log is empty on disk and in
  memory, and no block is pinned any more. This needs one buffer that is not pinned.\<close>

theorem commit_installs:
  assumes "pending s p st L" and "length L < NBUF"
  shows "\<exists>s'. commit s = (Inr (), s') \<and> pending s' p st [] \<and>
    (\<forall>k. k \<notin> log_area st \<longrightarrow> a_disk (abs_cache s') k = a_view (abs_cache s) k \<and> a_view (abs_cache s') k = a_view (abs_cache s) k)"
  using commit_done [OF assms] by blast

theorem commit_installs_witness:
  "\<exists>s'. commit (demo_log 2 zero_disk) = (Inr (), s') \<and> a_disk (abs_cache s') 101 = replicate BSIZE 9 \<and>
     a_disk (abs_cache s') 99 = replicate BSIZE 0"
proof -
  have "pending (demo_log 2 zero_disk) 1 2 (demo_blocks 2)"
    by (rule demo_log_pending) (simp_all add: zero_head NBUF_def MAXOPBLOCKS_def)
  then obtain s' where s': "commit (demo_log 2 zero_disk) = (Inr (), s')"
      "\<And>k. k \<notin> log_area 2 \<Longrightarrow> a_disk (abs_cache s') k = a_view (abs_cache (demo_log 2 zero_disk)) k"
    using commit_installs [of "demo_log 2 zero_disk" 1 2 "demo_blocks 2"] by (auto simp: demo_blocks_def NBUF_def MAXOPBLOCKS_def)
  have "101 \<notin> log_area 2" "99 \<notin> log_area 2" by (simp_all add: log_area_def LOGBLOCKS_def MAXOPBLOCKS_def)
  then show ?thesis
    using s' demo_log_abs(4) [of 2 zero_disk] by (simp add: demo_blocks_def NBUF_def MAXOPBLOCKS_def) (simp add: zero_disk_def)
qed

text \<open>C2. Atomicity under crashes: take the writes of a commit, stop the machine after any number \<open>m\<close> of
  them, and boot a machine with an empty cache on the resulting disk. Recovery returns with an empty
  log, and the disk outside the log area is the one before the transaction if the header had not
  been written (\<open>m\<close> is at most the number of logged blocks), and the one after it otherwise.\<close>

theorem crash_recovery_atomic:
  assumes "pending s p st L" and "length L < NBUF" and "L \<noteq> []" and "commit s = (Inr (), s')" and "boot_at r q st"
    and "a_disk (abs_cache r) =
      apply_writes (take m (drop (length (a_trace (abs_cache s))) (a_trace (abs_cache s')))) (a_disk (abs_cache s))"
  shows "\<exists>r'. recover_from_log r = (Inr (), r') \<and> log_at r' q st [] \<and>
    (\<forall>k. k \<notin> log_area st \<longrightarrow>
       a_disk (abs_cache r') k = (if m \<le> length L then a_disk (abs_cache s) k else a_view (abs_cache s) k))"
proof -
  let ?ws = "commit_writes st L (lh (wal s)) (a_view (abs_cache s))" and ?D' = "a_disk (abs_cache r)"
  have "abs_cache s' = (put_all ?ws (abs_cache s))\<lparr>a_rc := (\<lambda>_. 0)\<rparr>"
    using pending_commit [OF assms(1,2)] assms(3,4) by auto
  then have "a_trace (abs_cache s') = a_trace (abs_cache s) @ ?ws" by (simp add: put_all_run)
  then have D': "?D' = apply_writes (take m ?ws) (a_disk (abs_cache s))" using assms(6) by simp
  note cd = crash_disk [OF assms(1,3) D']
  obtain r' where r': "recover_from_log r = (Inr (), r')" "log_at r' q st []"
      "a_disk (abs_cache r') = (replay st ?D')(st := put32 (?D' st) 0 0)"
    using recover_run [OF assms(5) cd(1)] by blast
  have "st \<in> log_area st" by (simp add: log_area_def)
  then have "a_disk (abs_cache r') k = (if m \<le> length L then a_disk (abs_cache s) k else a_view (abs_cache s) k)"
    if "k \<notin> log_area st" for k using r'(3) cd(2) [OF that] that by auto
  then show ?thesis using r'(1,2) by blast
qed

theorem crash_recovery_atomic_witness:
  "\<exists>D r'. recover_from_log (demo_log 0 D) = (Inr (), r') \<and> a_disk (abs_cache r') 100 = replicate BSIZE 9 \<and>
     a_disk (abs_cache r') 101 = replicate BSIZE 9 \<and> D 101 = replicate BSIZE 0"
proof -
  let ?s = "demo_log 2 zero_disk"
  have p: "pending ?s 1 2 (demo_blocks 2)"
    by (rule demo_log_pending) (simp_all add: zero_head NBUF_def MAXOPBLOCKS_def)
  have n: "length (demo_blocks 2) < NBUF" "demo_blocks 2 \<noteq> []" by (simp_all add: demo_blocks_def NBUF_def MAXOPBLOCKS_def)
  obtain s' where s': "commit ?s = (Inr (), s')"
      "abs_cache s' = (put_all (commit_writes 2 (demo_blocks 2) (lh (wal ?s)) (a_view (abs_cache ?s))) (abs_cache ?s))\<lparr>a_rc := (\<lambda>_. 0)\<rparr>"
    using pending_commit [OF p n(1)] n(2) by auto
  define D where "D = apply_writes (take 3 (drop (length (a_trace (abs_cache ?s))) (a_trace (abs_cache s')))) (a_disk (abs_cache ?s))"
  have "a_disk (abs_cache (demo_log 0 D)) = D" using demo_log_abs(1) [of 0 D] by simp
  then obtain r' where r': "recover_from_log (demo_log 0 D) = (Inr (), r')"
      "\<And>k. k \<notin> log_area 2 \<Longrightarrow> a_disk (abs_cache r') k = a_view (abs_cache ?s) k"
    using crash_recovery_atomic [OF p n s'(1) demo_boot, where m = 3] by (auto simp: D_def demo_blocks_def)
  have "100 \<notin> log_area 2" "101 \<notin> log_area 2" by (simp_all add: log_area_def LOGBLOCKS_def MAXOPBLOCKS_def)
  then have "a_disk (abs_cache r') 100 = replicate BSIZE 9" "a_disk (abs_cache r') 101 = replicate BSIZE 9"
    using r'(2) demo_log_abs(4) [of 2 zero_disk] by (simp_all add: demo_blocks_def NBUF_def MAXOPBLOCKS_def)
  moreover have "D 101 = replicate BSIZE 0"
    using s'(2) demo_log_abs [of 2 zero_disk]
    by (simp add: D_def put_all_run commit_writes_def log_writes_def demo_blocks_def NBUF_def MAXOPBLOCKS_def upt_rec)
      (simp add: zero_disk_def)
  ultimately show ?thesis using r'(1) by blast
qed

text \<open>A cache without a buffer to spare cannot read another block.\<close>

lemma bread_no_buffers:
  assumes inv: "cache_inv s p" and n: "buf_of s (unat k) = None" and all: "\<And>b. b < NBUF \<Longrightarrow> refcnt (bufs s b) \<noteq> 0"
  shows "fst (bread ROOTDEV k s) = Inl (Panic ''bget: no buffers'')"
proof -
  obtain xs where xs: "lru_list (bufs s) xs" using inv by (auto simp: cache_inv_def)
  have o: "lock_idle (bcache_lock s)" "current_proc s = Some p" using inv by (simp_all add: cache_inv_def quiet_cur)
  have "find (\<lambda>b. bdev (bufs s b) = ROOTDEV \<and> blockno (bufs s b) = k) xs = None"
    using n lru_list_bound [OF xs] by (auto simp: find_None_iff buf_of_None key_def)
  moreover have "find (\<lambda>b. refcnt (bufs s b) = 0) (rev xs) = None"
    using all lru_list_bound [OF xs] by (auto simp: find_None_iff)
  ultimately have "bget ROOTDEV k s = (Inl (Panic ''bget: no buffers''), bcache_held (pid (proc_table s p)) s)"
    using lru_walks [OF xs] acquire_bcache_run [OF o] by (simp add: bget_def Let_def)
  then show ?thesis by (simp add: bread_def)
qed

lemma full_log_stuck:
  assumes "pending s p st L" and "length L = LOGBLOCKS"
  shows "fst (commit s) = Inl (Panic ''bget: no buffers'')"
proof -
  have lg: "log_at s p st L" and inv: "cache_inv s p" and rc: "a_rc (abs_cache s) = pins L" and d: "distinct L"
    using assms(1) by (simp_all add: pending_def log_at_def)
  have len: "length L = NBUF" using assms(2) by (simp add: LOGBLOCKS_def NBUF_def)
  have "card (set L) = NBUF" using d len distinct_card by metis
  then have "card (key s ` {b. b < NBUF \<and> refcnt (bufs s b) \<noteq> 0}) = NBUF"
    using in_use_bufs [OF inv] in_use_pins [OF rc] by metis
  moreover have "card (key s ` {b. b < NBUF \<and> refcnt (bufs s b) \<noteq> 0}) \<le> card {b. b < NBUF \<and> refcnt (bufs s b) \<noteq> 0}"
    by (rule card_image_le) simp
  moreover have sub: "{b. b < NBUF \<and> refcnt (bufs s b) \<noteq> 0} \<subseteq> {..<NBUF}" by auto
  ultimately have "{b. b < NBUF \<and> refcnt (bufs s b) \<noteq> 0} = {..<NBUF}"
    by (metis card_lessThan card_seteq finite_lessThan)
  then have all: "refcnt (bufs s b) \<noteq> 0" if "b < NBUF" for b using that by blast
  have k: "st + 1 < 2 ^ 31" "st + 1 \<notin> set L" using lg by (auto simp: log_at_def log_area_def LOGBLOCKS_def MAXOPBLOCKS_def)
  have "buf_of s (st + 1) = None"
  proof (rule ccontr)
    assume "buf_of s (st + 1) \<noteq> None"
    then obtain b where b: "buf_of s (st + 1) = Some b" by blast
    then have "b < NBUF" using inv by (simp add: cache_inv_def buf_of_Some)
    then have "a_rc (abs_cache s) (st + 1) \<noteq> 0" using b all by (simp add: abs_cache_def unat_eq_0)
    then show False using rc k(2) by simp
  qed
  then have "fst (bread ROOTDEV (of_nat (st + 1)) s) = Inl (Panic ''bget: no buffers'')"
    using bread_no_buffers [OF inv] all unat_block [OF k(1)] by metis
  moreover have "log_bread (lstart (wal s) + int 0 + 1) s = bread ROOTDEV (of_nat (st + 1)) s"
    using lg by (intro log_bread_run) (simp_all add: log_at_def)
  ultimately obtain t where "log_bread (lstart (wal s) + int 0 + 1) s = (Inl (Panic ''bget: no buffers''), t)"
    by (metis prod.collapse)
  then have "write_log_one 0 s = (Inl (Panic ''bget: no buffers''), t)" by (simp add: write_log_one_def)
  moreover have "lh_n (lh (wal s)) = int NBUF" using lg len by (simp add: log_at_def)
  moreover have "[0..<NBUF] = 0 # [1..<NBUF]" by (simp add: upt_rec NBUF_def MAXOPBLOCKS_def)
  ultimately show ?thesis by (simp add: commit_def write_log_def NBUF_def MAXOPBLOCKS_def)
qed

text \<open>C37. The cache is as large as the log: a transaction that fills the log (30 distinct blocks, which the
  reservation of \<^verbatim>\<open>begin_op\<close> allows) pins every buffer, so the commit cannot read the first log block
  and the kernel panics.\<close>

theorem full_log_panics:
  assumes "pending s p st L" and "length L = LOGBLOCKS"
  shows "fst (commit s) = Inl (Panic ''bget: no buffers'')"
  by (rule full_log_stuck [OF assms])

theorem full_log_panics_witness:
  "fst (commit (demo_log 30 zero_disk)) = Inl (Panic ''bget: no buffers'')"
proof -
  have "pending (demo_log 30 zero_disk) 1 2 (demo_blocks 30)"
    by (rule demo_log_pending) (simp_all add: zero_head NBUF_def MAXOPBLOCKS_def)
  moreover have "length (demo_blocks 30) = LOGBLOCKS"
    unfolding demo_blocks_def by (simp only: length_upt LOGBLOCKS_def MAXOPBLOCKS_def)
  ultimately show ?thesis by (rule full_log_panics)
qed

section \<open>Forced commit\<close>

lemma pending_upd_wal [simp]:
  "lh (f (wal s)) = lh (wal s) \<Longrightarrow> lstart (f (wal s)) = lstart (wal s) \<Longrightarrow> ldev (f (wal s)) = ldev (wal s) \<Longrightarrow>
     pending (upd_wal f s) p st L = pending s p st L"
  by (simp add: pending_def log_at_def)

lemma force_commit_round:
  assumes p: "pending s p st L" and n: "length L < NBUF" and l: "locked (llock (wal s))"
    and w: "outstanding (wal s) > 0" "\<not> committing (wal s)"
  shows "\<exists>s'. force_commit_loop (Suc fuel) s = force_commit_loop fuel s' \<and> pending s' p st [] \<and> locked (llock (wal s')) \<and>
    outstanding (wal s') > 0 \<and> \<not> committing (wal s')"
proof -
  let ?free = "\<lambda>l :: spinlock. l\<lparr>locked := False, lpid := - 1\<rparr>"
  let ?s1 = "wl_upd ?free (upd_wal (\<lambda>l. l\<lparr>committing := True\<rparr>) s)"
  have "pending ?s1 p st L" using p by simp
  then obtain t where t: "commit ?s1 = (Inr (), t)" "pending t p st []"
      "cache_only (upd_wal (\<lambda>l. l\<lparr>lh := (lh l)\<lparr>lh_n := 0\<rparr>\<rparr>) ?s1) t"
    using commit_done [OF _ n] by blast
  have wt: "outstanding (wal t) > 0" "\<not> locked (llock (wal t))"
    using cache_only_wal [OF t(3)] w(1) by simp_all
  have q: "quiet t p" using t(2) by (simp add: pending_def log_at_def cache_inv_def)
  let ?u = "upd_wal (\<lambda>l. l\<lparr>committing := False\<rparr>) (wl_upd (\<lambda>l. l\<lparr>locked := True, lpid := pid (proc_table t p)\<rparr>) t)"
  have a: "acquire wl_get wl_upd t = (Inr (), wl_upd (\<lambda>l. l\<lparr>locked := True, lpid := pid (proc_table t p)\<rparr>) t)"
    using wl.acquire_free [of t p] wt(2) quiet_cur [OF q] by simp
  have "quiet ?u p" using q by (simp add: quiet_def upd_wal_def)
  then have wk: "wakeup ChLog ?u = (Inr (), ?u)" by (rule wakeup_quiet)
  have "release wl_get wl_upd (upd_wal (\<lambda>l. l\<lparr>committing := True\<rparr>) s) = (Inr (), ?s1)"
    using wl.release_held [of "upd_wal (\<lambda>l. l\<lparr>committing := True\<rparr>) s"] l by simp
  then have "force_commit_loop (Suc fuel) s = force_commit_loop fuel ?u"
    using w t(1) a wk by simp
  moreover have "pending ?u p st []" using t(2) by simp
  ultimately show ?thesis using wt(1) by (intro exI [of _ ?u]) simp
qed

lemma force_commit_loop_diverges:
  assumes "pending s p st L" and "length L < NBUF" and "locked (llock (wal s))"
    and "outstanding (wal s) > 0" and "\<not> committing (wal s)"
  shows "\<exists>t. force_commit_loop fuel s = (Inl Diverge, t)"
  using assms
proof (induction fuel arbitrary: s L)
  case 0
  then show ?case by simp
next
  case (Suc fuel)
  then obtain s' where s': "force_commit_loop (Suc fuel) s = force_commit_loop fuel s'" "pending s' p st []"
      "locked (llock (wal s'))" "outstanding (wal s') > 0" "\<not> committing (wal s')"
    using force_commit_round [of s p st L fuel] by blast
  then show ?case using Suc.IH [OF s'(2)] by (simp add: NBUF_def MAXOPBLOCKS_def)
qed

text \<open>C38. \<^verbatim>\<open>force_commit_log\<close>, called at shutdown while a transaction is open and nobody else runs, never
  returns: every round commits what is pending but none ends the transaction, so the loop is still
  running after any number of rounds.\<close>

theorem force_commit_never_returns:
  assumes "pending s p st L" and "length L < NBUF" and "\<not> locked (llock (wal s))"
    and "outstanding (wal s) > 0" and "\<not> committing (wal s)"
  shows "fst (force_commit_log fuel s) = Inl Diverge"
proof -
  let ?s = "wl_upd (\<lambda>l. l\<lparr>locked := True, lpid := pid (proc_table s p)\<rparr>) s"
  have "current_proc s = Some p" using assms(1) by (simp add: pending_def log_at_def cache_inv_def quiet_cur)
  then have "acquire wl_get wl_upd s = (Inr (), ?s)" using wl.acquire_free [of s p] assms(3) by simp
  moreover have "\<exists>t. force_commit_loop fuel ?s = (Inl Diverge, t)"
    by (rule force_commit_loop_diverges [of _ p st L]) (use assms in simp_all)
  ultimately show ?thesis by (auto simp: force_commit_log_def)
qed

theorem force_commit_never_returns_witness:
  "fst (force_commit_log 1000 (demo_log 2 zero_disk)) = Inl Diverge"
proof (rule force_commit_never_returns)
  show "pending (demo_log 2 zero_disk) 1 2 (demo_blocks 2)"
    by (rule demo_log_pending) (simp_all add: zero_head NBUF_def MAXOPBLOCKS_def)
qed (simp_all add: demo_log_fields demo_wal_def fresh_lock_def NBUF_def MAXOPBLOCKS_def, simp add: demo_blocks_def)

end
