(* ===== verification/LogTrans.thy ===== *)
theory LogTrans
  imports LogCrash
begin

text \<open>
  Inside a transaction: \<^verbatim>\<open>log_write\<close> records a block once and pins it, and the reservation made by
  \<^verbatim>\<open>begin_op\<close> is enough for every open operation, so the log cannot overflow.
\<close>

section \<open>Recording a block\<close>

text \<open>Every block has one reference for being in the log and one for being held.\<close>

definition in_trans :: "('a) klog_scheme \<Rightarrow> nat \<Rightarrow> nat \<Rightarrow> nat list \<Rightarrow> bool" where
  "in_trans s p st L \<longleftrightarrow> log_at s p st L \<and> distinct L \<and> lock_idle (llock (wal s)) \<and>
     (\<forall>k. a_rc (abs_cache s) k = pins L k + (if k \<in> ran (a_held (abs_cache s)) then 1 else 0))"

text \<open>The part of the state that block operations inside a transaction do not touch.\<close>

definition frame :: "('a) klog_scheme \<Rightarrow> ('a) klog_scheme" where
  "frame s = s\<lparr>hw := undefined, used_idx := 0, bufs := (\<lambda>_. undefined),
     wal := (wal s)\<lparr>lh := \<lparr>lh_n = 0, lh_block = (\<lambda>_. 0)\<rparr>\<rparr>\<rparr>"

lemma frame_cache_only: "cache_only s t \<Longrightarrow> frame t = frame s"
  by (auto simp: cache_only_def frame_def)

lemma idle_again: "lock_idle l \<Longrightarrow> l\<lparr>locked := False, lpid := - 1\<rparr> = l"
  by (simp add: lock_idle_def)

lemma find_logged_iff:
  assumes lg: "log_at s p st L" and k: "unat k < 2 ^ 31"
  shows "int (find_logged (lh (wal s)) k) = lh_n (lh (wal s)) \<longleftrightarrow> unat k \<notin> set L"
proof -
  have n: "lh_n (lh (wal s)) = int (length L)" and bl: "\<And>i. i < length L \<Longrightarrow> lh_block (lh (wal s)) i = int (L ! i)"
    and ks: "\<And>j. j \<in> set L \<Longrightarrow> j < 2 ^ 31" using lg by (auto simp: log_at_def)
  have eq: "(word_of_int (lh_block (lh (wal s)) i) = k) = (L ! i = unat k)" if "i < length L" for i
  proof -
    have "unat (of_nat (L ! i) :: u32) = L ! i" using ks that by (intro unat_block) simp
    then show ?thesis using bl [OF that] by (metis of_int_of_nat_eq unat_inj)
  qed
  let ?f = "find (\<lambda>i. word_of_int (lh_block (lh (wal s)) i) = k) [0..<length L]"
  show ?thesis
  proof (cases ?f)
    case None
    then have "unat k \<notin> set L" using eq by (auto simp: find_None_iff in_set_conv_nth)
    then show ?thesis using None n by (simp add: find_logged_def)
  next
    case (Some i)
    then have "i < length L" "L ! i = unat k" using find_SomeD [OF Some] eq by auto
    then have "unat k \<in> set L" by (metis nth_mem)
    then show ?thesis using Some n \<open>i < length L\<close> by (simp add: find_logged_def)
  qed
qed

lemma log_write_run:
  assumes it: "in_trans s p st L" and h: "a_held (abs_cache s) b = Some k" and ka: "k \<notin> log_area st"
    and n: "length L < LOGBLOCKS" and o: "outstanding (wal s) \<ge> 1"
  shows "\<exists>s'. log_write b s = (Inr (), s') \<and> in_trans s' p st (if k \<in> set L then L else L @ [k]) \<and>
    a_view (abs_cache s') = a_view (abs_cache s) \<and> a_disk (abs_cache s') = a_disk (abs_cache s) \<and>
    a_held (abs_cache s') = a_held (abs_cache s) \<and> outstanding (wal s') = outstanding (wal s) \<and> committing (wal s') = committing (wal s) \<and> frame s' = frame s"
proof -
  have lg: "log_at s p st L" and inv: "cache_inv s p" and li: "lock_idle (llock (wal s))" and ln: "lh_n (lh (wal s)) = int (length L)"
    using it by (simp_all add: in_trans_def log_at_def)
  note hd = heldD [OF inv h]
  have cur: "current_proc s = Some p" using inv by (simp add: cache_inv_def quiet_cur)
  have k: "unat (blockno (bufs s b)) = k" "k < 2 ^ 31" using hd(4,8) by (simp_all add: key_def buf_ok_def Let_def)
  let ?lk = "\<lambda>l :: spinlock. l\<lparr>locked := True, lpid := pid (proc_table s p)\<rparr>"
  let ?un = "\<lambda>l :: spinlock. l\<lparr>locked := False, lpid := - 1\<rparr>"
  let ?s1 = "wl_upd ?lk s"
  have a: "acquire wl_get wl_upd s = (Inr (), ?s1)" using wl.acquire_free [of s p] li cur by (simp add: lock_idle_def)
  have rl: "release wl_get wl_upd t = (Inr (), wl_upd ?un t)" if "locked (llock (wal t))" for t :: "('a) klog_scheme"
    using wl.release_held [of t] that by simp
  have fl: "int (find_logged (lh (wal s)) (blockno (bufs s b))) = lh_n (lh (wal s)) \<longleftrightarrow> k \<notin> set L"
    using find_logged_iff [OF lg, of "blockno (bufs s b)"] k by simp
  show ?thesis
  proof (cases "k \<in> set L")
    case True
    have "wl_upd ?un ?s1 = s" using li by (simp add: upd_wal_def lock_idle_def)
    then have "log_write b s = (Inr (), s)"
      using a rl [of ?s1] fl True ln n o by (simp add: log_write_def)
    then show ?thesis using it True by simp
  next
    case False
    let ?f = "\<lambda>l. l\<lparr>lh := (lh l)\<lparr>lh_block := (lh_block (lh l))(nat (lh_n (lh l)) := int k)\<rparr>\<rparr>"
    let ?g = "\<lambda>l. l\<lparr>lh := (lh l)\<lparr>lh_n := lh_n (lh l) + 1\<rparr>\<rparr>"
    let ?s2 = "upd_wal ?f ?s1"
    have sk: "sint (blockno (bufs s b)) = int k" using sint_small k by metis
    have rc: "a_rc (abs_cache s) k = 1" using it h False by (simp add: in_trans_def ranI)
    obtain t where t: "bpin b ?s2 = (Inr (), t)" "cache_inv t p" "cache_only ?s2 t"
        "abs_cache t = (abs_cache s)\<lparr>a_rc := (a_rc (abs_cache s))(k := Suc (Suc 0))\<rparr>"
      using bpin_spec [of ?s2 p b k] inv h rc by auto
    let ?s' = "wl_upd ?un (upd_wal ?g t)"
    have wt: "wal t = ?f (wal ?s1)" using cache_only_wal [OF t(3)] by simp
    have run: "log_write b s = (Inr (), ?s')"
      using a fl False ln n o sk t(1) rl [of "upd_wal ?g t"] wt by (simp add: log_write_def)
    have w': "wal ?s' = ?g (?f (wal s))\<lparr>llock := ?un (?lk (llock (wal s)))\<rparr>" using wt by simp
    have "log_at ?s' p st (L @ [k])"
      using lg t(2) ka k(2) n by (auto simp: log_at_def wt nth_append less_Suc_eq)
    moreover have "distinct (L @ [k])" using it False by (simp add: in_trans_def)
    moreover have "k \<in> ran (a_held (abs_cache s))" using h by (rule ranI)
    ultimately have "in_trans ?s' p st (L @ [k])"
      using it t(4) False by (auto simp: in_trans_def wt lock_idle_def)
    moreover have "frame ?s' = frame s"
      using t(3) idle_again [OF li] by (auto simp: cache_only_def frame_def upd_wal_def)
    ultimately show ?thesis using run t(4) False by (auto simp: wt)
  qed
qed

text \<open>The way the file system changes a block: read, change, record, release.\<close>

definition logged_update :: "u32 \<Rightarrow> (u8 list \<Rightarrow> u8 list) \<Rightarrow> (('a) klog_scheme, unit) km" where
  "logged_update bno f = kbind (bread ROOTDEV bno) (\<lambda>b.
     kseq (kmod (\<lambda>s. set_bdata b (f (bdata s b)) s)) (kseq (log_write b) (brelse b)))"

lemma in_trans_keep:
  assumes "in_trans s p st L" and "cache_only s s'" and "cache_inv s' p"
    and "\<forall>k. a_rc (abs_cache s') k = pins L k + (if k \<in> ran (a_held (abs_cache s')) then 1 else 0)"
  shows "in_trans s' p st L"
  using assms log_at_keep [OF _ assms(2,3)] by (simp add: in_trans_def cache_only_wal)

lemma logged_update_run:
  assumes it: "in_trans s p st L" and he: "a_held (abs_cache s) = Map.empty" and k: "unat bno < 2 ^ 31" "unat bno \<notin> log_area st"
    and n: "length L < LOGBLOCKS" and o: "outstanding (wal s) \<ge> 1"
  shows "\<exists>s'. logged_update bno f s = (Inr (), s') \<and>
    in_trans s' p st (if unat bno \<in> set L then L else L @ [unat bno]) \<and> a_held (abs_cache s') = Map.empty \<and>
    a_view (abs_cache s') = (a_view (abs_cache s))(unat bno := f (a_view (abs_cache s) (unat bno))) \<and>
    a_disk (abs_cache s') = a_disk (abs_cache s) \<and> outstanding (wal s') = outstanding (wal s) \<and> committing (wal s') = committing (wal s)"
proof -
  let ?k = "unat bno" and ?a = "abs_cache s"
  let ?v = "f (a_view ?a ?k)"
  have inv: "cache_inv s p" and rc: "a_rc ?a = pins L" using it he by (auto simp: in_trans_def log_at_def)
  have "length L < NBUF" using n by (simp add: LOGBLOCKS_def NBUF_def)
  then have "card (in_use ?a) < NBUF" using in_use_pins [OF rc] card_pins by simp
  moreover have "a_rc ?a ?k + 1 < 2 ^ 32" "?k \<notin> ran (a_held ?a)" using rc he by auto
  ultimately obtain b t where t: "bread ROOTDEV bno s = (Inr b, t)" "cache_inv t p" "cache_only s t" "abs_cache t = a_bread ?k b ?a"
      "bdata t b = a_view ?a ?k"
    using bread_spec [OF inv k(1)] by blast
  have it1: "in_trans t p st L" by (rule in_trans_keep [OF it t(3,2)]) (use t(4) rc he in \<open>simp add: a_bread_def\<close>)
  have ht: "a_held (abs_cache t) b = Some ?k" using t(4) by (simp add: a_bread_def)
  note u = set_bdata_spec [OF t(2) ht, of ?v]
  let ?u = "set_bdata b ?v t"
  have it2: "in_trans ?u p st L" by (rule in_trans_keep [OF it1 u(2,1)]) (use u(3) it1 in \<open>simp add: a_store_def in_trans_def\<close>)
  have hu: "a_held (abs_cache ?u) b = Some ?k" using ht u(3) by (simp add: a_store_def)
  have wu: "wal ?u = wal s" using cache_only_wal [OF u(2)] cache_only_wal [OF t(3)] by simp
  obtain w where w: "log_write b ?u = (Inr (), w)" "in_trans w p st (if ?k \<in> set L then L else L @ [?k])"
      "a_view (abs_cache w) = a_view (abs_cache ?u)" "a_disk (abs_cache w) = a_disk (abs_cache ?u)"
      "a_held (abs_cache w) = a_held (abs_cache ?u)" "outstanding (wal w) = outstanding (wal s)" "committing (wal w) = committing (wal s)"
    using log_write_run [OF it2 hu k(2) n] o wu by auto
  have hw: "a_held (abs_cache w) = [b \<mapsto> ?k]" using w(5) u(3) t(4) he by (simp add: a_store_def a_bread_def)
  have rw: "a_rc (abs_cache w) ?k = 2" using w(2) hw by (simp add: in_trans_def)
  have iw: "cache_inv w p" using w(2) by (simp add: in_trans_def log_at_def)
  obtain y where y: "brelse b w = (Inr (), y)" "cache_inv y p" "cache_only w y" "abs_cache y = a_brelse ?k b (abs_cache w)"
    using brelse_spec [OF iw, of b ?k] hw rw by auto
  have "in_trans y p st (if ?k \<in> set L then L else L @ [?k])"
    by (rule in_trans_keep [OF w(2) y(3,2)]) (use w(2) hw y(4) rw in \<open>auto simp: in_trans_def a_brelse_def\<close>)
  moreover have "logged_update bno f s = (Inr (), y)"
    using t(1,5) w(1) y(1) by (simp add: logged_update_def)
  moreover have "a_view (abs_cache y) = (a_view ?a)(?k := ?v)" "a_disk (abs_cache y) = a_disk ?a" "a_held (abs_cache y) = Map.empty"
    using y(4) w(3,4) u(3) t(4) hw by (simp_all add: a_brelse_def a_store_def a_bread_def)
  ultimately show ?thesis using w(6,7) cache_only_wal [OF y(3)] by auto
qed

text \<open>At the end of a transaction in which every block is released, the log is ready to commit.\<close>

lemma in_trans_pending:
  assumes "in_trans s p st L" and "a_held (abs_cache s) = Map.empty" and "length (a_disk (abs_cache s) st) = BSIZE"
    and "sint (get32 (a_disk (abs_cache s) st) 0) = 0"
  shows "pending s p st L"
  using assms by (auto simp: in_trans_def pending_def)

lemma pending_in_trans:
  assumes "pending s p st L" and "lock_idle (llock (wal s))"
  shows "in_trans s p st L"
  using assms by (auto simp: in_trans_def pending_def)

text \<open>Recording a block: inside a transaction, for a block that is held and lies outside the log area,
  \<^verbatim>\<open>log_write\<close> adds the block to the header exactly once (a block already recorded is absorbed), pins it
  exactly once, changes neither contents nor disk, and keeps the accounting of references.\<close>

theorem log_write_absorbs:
  assumes "in_trans s p st L" and "a_held (abs_cache s) b = Some k" and "k \<notin> log_area st"
    and "length L < LOGBLOCKS" and "outstanding (wal s) \<ge> 1"
  shows "\<exists>s'. log_write b s = (Inr (), s') \<and> in_trans s' p st (if k \<in> set L then L else L @ [k]) \<and>
    a_view (abs_cache s') = a_view (abs_cache s) \<and> a_disk (abs_cache s') = a_disk (abs_cache s) \<and>
    a_held (abs_cache s') = a_held (abs_cache s)"
  using log_write_run [OF assms] by blast

theorem log_write_absorbs_witness:
  "\<exists>b s s'. bread ROOTDEV 70 (demo_log 2 zero_disk) = (Inr b, s) \<and> log_write b s = (Inr (), s') \<and>
     in_trans s' 1 2 [100, 101, 70]"
proof -
  let ?s = "demo_log 2 zero_disk"
  have p: "pending ?s 1 2 (demo_blocks 2)" by (rule demo_log_pending) (simp_all add: zero_head NBUF_def MAXOPBLOCKS_def)
  have it: "in_trans ?s 1 2 (demo_blocks 2)"
    by (rule pending_in_trans [OF p]) (simp add: demo_log_fields demo_wal_def lock_idle_def fresh_lock_def)
  have a: "a_held (abs_cache ?s) = Map.empty" "a_rc (abs_cache ?s) = pins (demo_blocks 2)" and inv: "cache_inv ?s 1"
    using p by (simp_all add: pending_def log_at_def)
  have L: "demo_blocks 2 = [100, 101]" by (simp add: demo_blocks_def upt_rec)
  have "card (in_use (abs_cache ?s)) < NBUF" unfolding in_use_pins [OF a(2)] L by (simp add: NBUF_def MAXOPBLOCKS_def)
  then obtain b t where t: "bread ROOTDEV 70 ?s = (Inr b, t)" "cache_inv t 1" "cache_only ?s t" "abs_cache t = a_bread 70 b (abs_cache ?s)"
    using bread_spec [OF inv, of 70] a by (auto simp: L)
  have it1: "in_trans t 1 2 (demo_blocks 2)"
    by (rule in_trans_keep [OF it t(3,2)]) (use t(4) a in \<open>simp add: a_bread_def L\<close>)
  have "a_held (abs_cache t) b = Some 70" "outstanding (wal t) \<ge> 1"
    using t(4) cache_only_wal [OF t(3)] by (simp_all add: a_bread_def demo_log_fields demo_wal_def)
  then show ?thesis
    using log_write_absorbs [OF it1, of b 70] t(1) by (force simp: L log_area_def LOGBLOCKS_def MAXOPBLOCKS_def)
qed

section \<open>Operations and their reservations\<close>

text \<open>The state between file system calls: \<open>ws\<close> lists, for every open operation, how many blocks it has
  recorded. \<open>fs_inv\<close> is the accounting behind \<^verbatim>\<open>MAXOPBLOCKS\<close>.\<close>

definition reserve :: "nat list \<Rightarrow> nat" where
  "reserve ws = sum_list (map (\<lambda>w. MAXOPBLOCKS - w) ws)"

definition fs_inv :: "nat \<Rightarrow> nat \<Rightarrow> ('a) klog_scheme \<times> nat list \<Rightarrow> bool" where
  "fs_inv p st c \<longleftrightarrow> (case c of (s, ws) \<Rightarrow> \<exists>L. in_trans s p st L \<and> a_held (abs_cache s) = Map.empty \<and>
     length (a_disk (abs_cache s) st) = BSIZE \<and> sint (get32 (a_disk (abs_cache s) st) 0) = 0 \<and>
     outstanding (wal s) = int (length ws) \<and> \<not> committing (wal s) \<and> length L + reserve ws \<le> LOGBLOCKS)"

lemma reserve_bound: "reserve ws \<le> length ws * MAXOPBLOCKS"
  by (induction ws) (simp_all add: reserve_def)

lemma reserve_step: "i < length ws \<Longrightarrow> ws ! i < MAXOPBLOCKS \<Longrightarrow> Suc (reserve (ws[i := Suc (ws ! i)])) = reserve ws"
proof (induction ws arbitrary: i)
  case (Cons w ws)
  then show ?case by (cases i) (auto simp: reserve_def)
qed simp

lemma reserve_drop: "reserve (take i ws @ drop (Suc i) ws) \<le> reserve ws"
proof (induction ws arbitrary: i)
  case (Cons w ws)
  then show ?case by (cases i) (auto simp: reserve_def)
qed simp

lemma reserve_room: "i < length ws \<Longrightarrow> ws ! i < MAXOPBLOCKS \<Longrightarrow> 0 < reserve ws"
  using reserve_step by fastforce

lemma in_trans_upd_wal:
  "lh (f (wal s)) = lh (wal s) \<Longrightarrow> lstart (f (wal s)) = lstart (wal s) \<Longrightarrow> ldev (f (wal s)) = ldev (wal s) \<Longrightarrow>
     lock_idle (llock (f (wal s))) \<Longrightarrow> in_trans s p st L \<Longrightarrow> in_trans (upd_wal f s) p st L"
  by (simp add: in_trans_def log_at_def)

text \<open>The lock around a change of the log record leaves no trace.\<close>

lemma wl_acquire:
  assumes "lock_idle (llock (wal s))" and "current_proc s = Some p"
  shows "acquire wl_get wl_upd s = (Inr (), wl_upd (\<lambda>l. l\<lparr>locked := True, lpid := pid (proc_table s p)\<rparr>) s)"
  using wl.acquire_free [of s p] assms by (simp add: lock_idle_def)

lemma wl_release:
  assumes "locked (llock (wal s))"
  shows "release wl_get wl_upd s = (Inr (), wl_upd (\<lambda>l. l\<lparr>locked := False, lpid := - 1\<rparr>) s)"
  using wl.release_held [of s] assms by simp

lemma begin_op_run:
  assumes it: "in_trans s p st L" and c: "\<not> committing (wal s)"
  shows "if int (length L) + (outstanding (wal s) + 1) * int MAXOPBLOCKS \<le> int LOGBLOCKS
    then begin_op s = (Inr (), upd_wal (\<lambda>l. l\<lparr>outstanding := outstanding l + 1\<rparr>) s)
    else fst (begin_op s) = Inl (Asleep ChLog)"
proof -
  let ?s = "wl_upd (\<lambda>l. l\<lparr>locked := True, lpid := pid (proc_table s p)\<rparr>) s"
  have li: "lock_idle (llock (wal s))" and n: "lh_n (lh (wal s)) = int (length L)" and q: "quiet s p"
    using it by (simp_all add: in_trans_def log_at_def cache_inv_def)
  note a = wl_acquire [OF li quiet_cur [OF q]]
  show ?thesis
  proof (cases "int (length L) + (outstanding (wal s) + 1) * int MAXOPBLOCKS \<le> int LOGBLOCKS")
    case True
    have "begin_op s = (Inr (), upd_wal (\<lambda>l. l\<lparr>outstanding := outstanding l + 1\<rparr>) s)"
      using a n c True wl_release [of "upd_wal (\<lambda>l. l\<lparr>outstanding := outstanding l + 1\<rparr>) ?s"] idle_again [OF li]
      by (simp add: begin_op_def begin_op_loop_def) (simp add: upd_wal_def)
    then show ?thesis using True by simp
  next
    case False
    have "current_proc ?s = Some p" using quiet_cur [OF q] by simp
    then have "fst (sleep ChLog wl_get wl_upd ?s) = Inl (Asleep ChLog)"
      by (simp add: sleep_def sleep_enter_def intr_off_def myproc_def release_def intr_on_def)
    then have "fst (begin_op s) = Inl (Asleep ChLog)"
      using a n c False by (simp add: begin_op_def begin_op_loop_def)
    then show ?thesis using False by simp
  qed
qed

lemma end_op_open:
  assumes it: "in_trans s p st L" and c: "\<not> committing (wal s)" and o: "outstanding (wal s) \<noteq> 1"
  shows "end_op s = (Inr (), upd_wal (\<lambda>l. l\<lparr>outstanding := outstanding l - 1\<rparr>) s)"
proof -
  let ?s = "upd_wal (\<lambda>l. l\<lparr>outstanding := outstanding l - 1\<rparr>) (wl_upd (\<lambda>l. l\<lparr>locked := True, lpid := pid (proc_table s p)\<rparr>) s)"
  have li: "lock_idle (llock (wal s))" and q: "quiet s p" using it by (simp_all add: in_trans_def log_at_def cache_inv_def)
  have "quiet ?s p" using q by (simp add: quiet_def upd_wal_def)
  then have "wakeup ChLog ?s = (Inr (), ?s)" by (rule wakeup_quiet)
  then show ?thesis
    using wl_acquire [OF li quiet_cur [OF q]] c o wl_release [of ?s] idle_again [OF li]
    by (simp add: end_op_def) (simp add: upd_wal_def)
qed

lemma end_op_last:
  assumes p: "pending s p st L" and li: "lock_idle (llock (wal s))" and n: "length L < NBUF"
    and c: "\<not> committing (wal s)" and o: "outstanding (wal s) = 1"
  shows "\<exists>u. end_op s = (Inr (), u) \<and> pending u p st [] \<and> lock_idle (llock (wal u)) \<and> outstanding (wal u) = 0 \<and>
    \<not> committing (wal u) \<and> (\<forall>k. k \<notin> log_area st \<longrightarrow>
      a_disk (abs_cache u) k = a_view (abs_cache s) k \<and> a_view (abs_cache u) k = a_view (abs_cache s) k) \<and>
    frame u = upd_wal (\<lambda>l. l\<lparr>outstanding := 0\<rparr>) (frame s)"
proof -
  let ?lk = "\<lambda>q l. (l :: spinlock)\<lparr>locked := True, lpid := q\<rparr>" and ?un = "\<lambda>l :: spinlock. l\<lparr>locked := False, lpid := - 1\<rparr>"
  let ?s1 = "wl_upd (?lk (pid (proc_table s p))) s"
  let ?s2 = "upd_wal (\<lambda>l. l\<lparr>committing := True\<rparr>) (upd_wal (\<lambda>l. l\<lparr>outstanding := outstanding l - 1\<rparr>) ?s1)"
  let ?s3 = "upd_wal (\<lambda>l. l\<lparr>outstanding := 0, committing := True\<rparr>) s"
  have q: "quiet s p" using p by (simp add: pending_def log_at_def cache_inv_def)
  have a: "acquire wl_get wl_upd s = (Inr (), ?s1)" by (rule wl_acquire [OF li quiet_cur [OF q]])
  have r: "release wl_get wl_upd ?s2 = (Inr (), ?s3)"
    using wl_release [of ?s2] idle_again [OF li] o by (simp add: upd_wal_def)
  have "pending ?s3 p st L" using p by simp
  then obtain t where t: "commit ?s3 = (Inr (), t)" "pending t p st []"
      "cache_only (upd_wal (\<lambda>l. l\<lparr>lh := (lh l)\<lparr>lh_n := 0\<rparr>\<rparr>) ?s3) t"
      "\<forall>k. k \<notin> log_area st \<longrightarrow> a_disk (abs_cache t) k = a_view (abs_cache ?s3) k \<and> a_view (abs_cache t) k = a_view (abs_cache ?s3) k"
    using commit_done [OF _ n] by blast
  have wt: "wal t = (wal s)\<lparr>outstanding := 0, committing := True, lh := (lh (wal s))\<lparr>lh_n := 0\<rparr>\<rparr>"
    using cache_only_wal [OF t(3)] by simp
  have qt: "quiet t p" "lock_idle (llock (wal t))" using t(2) li wt by (simp_all add: pending_def log_at_def cache_inv_def)
  let ?u1 = "upd_wal (\<lambda>l. l\<lparr>committing := False\<rparr>) (wl_upd (?lk (pid (proc_table t p))) t)"
  let ?u = "upd_wal (\<lambda>l. l\<lparr>committing := False\<rparr>) t"
  have "quiet ?u1 p" using qt(1) by (simp add: quiet_def upd_wal_def)
  then have wk: "wakeup ChLog ?u1 = (Inr (), ?u1)" by (rule wakeup_quiet)
  have r2: "release wl_get wl_upd ?u1 = (Inr (), ?u)"
    using wl_release [of ?u1] idle_again [OF qt(2)] by (simp add: upd_wal_def)
  have "end_op s = (Inr (), ?u)"
    using a r t(1) wl_acquire [OF qt(2) quiet_cur [OF qt(1)]] wk r2 c o by (simp add: end_op_def)
  moreover have "pending ?u p st []" using t(2) by simp
  moreover have "frame ?u = upd_wal (\<lambda>l. l\<lparr>outstanding := 0\<rparr>) (frame s)"
    using t(3) c by (auto simp: cache_only_def frame_def upd_wal_def)
  ultimately show ?thesis using t(4) wt li by (intro exI [of _ ?u]) simp
qed

text \<open>Interleaved operations of several processes: an operation is opened, records blocks, and is closed.\<close>

inductive log_step :: "nat \<Rightarrow> ('a) klog_scheme \<times> nat list \<Rightarrow> ('a) klog_scheme \<times> nat list \<Rightarrow> bool" for st where
  op_begin: "begin_op s = (Inr (), s') \<Longrightarrow> log_step st (s, ws) (s', ws @ [0])"
| op_update: "i < length ws \<Longrightarrow> ws ! i < MAXOPBLOCKS \<Longrightarrow> unat bno < 2 ^ 31 \<Longrightarrow> unat bno \<notin> log_area st \<Longrightarrow>
     logged_update bno f s = (Inr (), s') \<Longrightarrow> log_step st (s, ws) (s', ws[i := Suc (ws ! i)])"
| op_end: "i < length ws \<Longrightarrow> end_op s = (Inr (), s') \<Longrightarrow> log_step st (s, ws) (s', take i ws @ drop (Suc i) ws)"

inductive log_reach :: "nat \<Rightarrow> nat \<Rightarrow> ('a) klog_scheme \<times> nat list \<Rightarrow> bool" for p st where
  start: "pending s p st [] \<Longrightarrow> lock_idle (llock (wal s)) \<Longrightarrow> outstanding (wal s) = 0 \<Longrightarrow> \<not> committing (wal s) \<Longrightarrow>
     log_reach p st (s, [])"
| step: "log_reach p st c \<Longrightarrow> log_step st c c' \<Longrightarrow> log_reach p st c'"

lemma end_op_full:
  assumes p: "pending s p st L" and li: "lock_idle (llock (wal s))" and n: "length L = LOGBLOCKS"
    and c: "\<not> committing (wal s)" and o: "outstanding (wal s) = 1"
  shows "fst (end_op s) = Inl (Panic ''bget: no buffers'')"
proof -
  let ?s1 = "wl_upd (\<lambda>l. l\<lparr>locked := True, lpid := pid (proc_table s p)\<rparr>) s"
  let ?s2 = "upd_wal (\<lambda>l. l\<lparr>committing := True\<rparr>) (upd_wal (\<lambda>l. l\<lparr>outstanding := outstanding l - 1\<rparr>) ?s1)"
  let ?s3 = "upd_wal (\<lambda>l. l\<lparr>outstanding := 0, committing := True\<rparr>) s"
  have q: "quiet s p" using p by (simp add: pending_def log_at_def cache_inv_def)
  have a: "acquire wl_get wl_upd s = (Inr (), ?s1)" by (rule wl_acquire [OF li quiet_cur [OF q]])
  have r: "release wl_get wl_upd ?s2 = (Inr (), ?s3)"
    using wl_release [of ?s2] idle_again [OF li] o by (simp add: upd_wal_def)
  have "pending ?s3 p st L" using p by simp
  then obtain t where "commit ?s3 = (Inl (Panic ''bget: no buffers''), t)"
    using full_log_stuck [OF _ n] by (metis prod.collapse)
  then show ?thesis using a r c o by (simp add: end_op_def)
qed

lemma log_step_inv: "log_step st c c' \<Longrightarrow> fs_inv p st c \<Longrightarrow> fs_inv p st c'"
proof (induction rule: log_step.induct)
  case (op_begin s s' ws)
  then obtain L where L: "in_trans s p st L" "\<not> committing (wal s)" "outstanding (wal s) = int (length ws)"
      "a_held (abs_cache s) = Map.empty" "length (a_disk (abs_cache s) st) = BSIZE" "sint (get32 (a_disk (abs_cache s) st) 0) = 0"
    by (auto simp: fs_inv_def)
  have room: "int (length L) + (outstanding (wal s) + 1) * int MAXOPBLOCKS \<le> int LOGBLOCKS"
    and s': "s' = upd_wal (\<lambda>l. l\<lparr>outstanding := outstanding l + 1\<rparr>) s"
    using op_begin(1) begin_op_run [OF L(1,2)] by (auto split: if_splits)
  have "int (length L + (length ws + 1) * MAXOPBLOCKS) \<le> int LOGBLOCKS" using room L(3) by (simp add: algebra_simps)
  then have "length L + (length ws + 1) * MAXOPBLOCKS \<le> LOGBLOCKS" by (simp only: of_nat_le_iff)
  moreover have "reserve (ws @ [0]) = reserve ws + MAXOPBLOCKS" by (simp add: reserve_def)
  ultimately have "length L + reserve (ws @ [0]) \<le> LOGBLOCKS" using reserve_bound [of ws] by simp
  moreover have "in_trans s' p st L"
    unfolding s' by (rule in_trans_upd_wal) (use L(1) in \<open>simp_all add: in_trans_def\<close>)
  ultimately show ?case using L by (auto simp: fs_inv_def s')
next
  case (op_update i ws bno f s s')
  then obtain L where L: "in_trans s p st L" "\<not> committing (wal s)" "outstanding (wal s) = int (length ws)"
      "a_held (abs_cache s) = Map.empty" "length (a_disk (abs_cache s) st) = BSIZE" "sint (get32 (a_disk (abs_cache s) st) 0) = 0"
      "length L + reserve ws \<le> LOGBLOCKS"
    by (auto simp: fs_inv_def)
  note rs = reserve_step [OF op_update(1,2)]
  have n: "length L < LOGBLOCKS" using L(7) rs by linarith
  have "outstanding (wal s) \<ge> 1" using L(3) op_update(1) by simp
  then have s': "in_trans s' p st (if unat bno \<in> set L then L else L @ [unat bno])" "a_held (abs_cache s') = Map.empty"
      "a_disk (abs_cache s') = a_disk (abs_cache s)" "outstanding (wal s') = outstanding (wal s)" "committing (wal s') = committing (wal s)"
    using logged_update_run [OF L(1,4) op_update(3,4) n, of f] op_update(5) by auto
  have "length (if unat bno \<in> set L then L else L @ [unat bno]) + reserve (ws[i := Suc (ws ! i)]) \<le> LOGBLOCKS"
    using L(7) rs by simp
  then show ?case unfolding fs_inv_def using s' L by fastforce
next
  case (op_end i ws s s')
  then obtain L where L: "in_trans s p st L" "\<not> committing (wal s)" "outstanding (wal s) = int (length ws)"
      "a_held (abs_cache s) = Map.empty" "length (a_disk (abs_cache s) st) = BSIZE" "sint (get32 (a_disk (abs_cache s) st) 0) = 0"
      "length L + reserve ws \<le> LOGBLOCKS"
    by (auto simp: fs_inv_def)
  let ?ws = "take i ws @ drop (Suc i) ws"
  have len: "int (length ?ws) = int (length ws) - 1" using op_end(1) by simp
  have li: "lock_idle (llock (wal s))" using L(1) by (simp add: in_trans_def)
  note pd = in_trans_pending [OF L(1,4-6)]
  show ?case
  proof (cases "length ws = 1")
    case True
    then have o: "outstanding (wal s) = 1" using L(3) by simp
    have "length L \<noteq> LOGBLOCKS" using end_op_full [OF pd li _ L(2) o] op_end(2) by auto
    then have "length L < NBUF" using L(7) by (simp add: LOGBLOCKS_def NBUF_def)
    then have u: "pending s' p st []" "lock_idle (llock (wal s'))" "outstanding (wal s') = 0" "\<not> committing (wal s')"
      using end_op_last [OF pd li _ L(2) o] op_end(2) by auto
    obtain w where "ws = [w]" using True by (auto simp: length_Suc_conv)
    then have e: "?ws = []" using op_end(1) by simp
    show ?thesis using u pending_in_trans [OF u(1,2)] unfolding e fs_inv_def
      by (auto simp: pending_def reserve_def intro!: exI [of _ "[]"])
  next
    case False
    then have "outstanding (wal s) \<noteq> 1" using L(3) by simp
    then have s': "s' = upd_wal (\<lambda>l. l\<lparr>outstanding := outstanding l - 1\<rparr>) s" using end_op_open [OF L(1,2)] op_end(2) by simp
    have "in_trans s' p st L" unfolding s' by (rule in_trans_upd_wal) (use L(1) in \<open>simp_all add: in_trans_def\<close>)
    moreover have "length L + reserve ?ws \<le> LOGBLOCKS" using L(7) reserve_drop [of i ws] by linarith
    ultimately show ?thesis unfolding fs_inv_def using L len by (auto simp: s' intro!: exI [of _ L])
  qed
qed

lemma log_reach_inv: "log_reach p st c \<Longrightarrow> fs_inv p st c"
proof (induction rule: log_reach.induct)
  case (start s)
  then show ?case using pending_in_trans [OF start(1,2)] by (auto simp: fs_inv_def pending_def reserve_def intro!: exI [of _ "[]"])
next
  case (step c c')
  then show ?case using log_step_inv by blast
qed

text \<open>C12. The log cannot overflow: with any number of open operations, interleaved in any order, every
  operation that has recorded fewer than \<^verbatim>\<open>MAXOPBLOCKS\<close> blocks can record another one. \<^verbatim>\<open>log_write\<close>
  never panics with "too big a transaction" or "log_write outside of trans", the change becomes
  visible at once and the disk does not change before the commit.\<close>

theorem log_never_overflows:
  assumes "log_reach p st (s, ws)" and "i < length ws" and "ws ! i < MAXOPBLOCKS"
    and "unat bno < 2 ^ 31" and "unat bno \<notin> log_area st"
  shows "\<exists>s'. logged_update bno f s = (Inr (), s') \<and>
    a_view (abs_cache s') = (a_view (abs_cache s))(unat bno := f (a_view (abs_cache s) (unat bno))) \<and>
    a_disk (abs_cache s') = a_disk (abs_cache s)"
proof -
  obtain L where L: "in_trans s p st L" "outstanding (wal s) = int (length ws)" "a_held (abs_cache s) = Map.empty"
      "length L + reserve ws \<le> LOGBLOCKS"
    using log_reach_inv [OF assms(1)] by (auto simp: fs_inv_def)
  have "length L < LOGBLOCKS" using L(4) reserve_room [OF assms(2,3)] by linarith
  moreover have "outstanding (wal s) \<ge> 1" using L(2) assms(2) by simp
  ultimately show ?thesis using logged_update_run [OF L(1,3) assms(4,5), of f] by blast
qed

lemma demo_log_start: "log_reach 1 2 ((demo_log 0 zero_disk)\<lparr>wal := (demo_wal 0)\<lparr>outstanding := 0\<rparr>\<rparr>, [])"
proof -
  let ?f = "\<lambda>l. l\<lparr>outstanding := 0\<rparr>"
  have e: "(demo_log 0 zero_disk)\<lparr>wal := (demo_wal 0)\<lparr>outstanding := 0\<rparr>\<rparr> = upd_wal ?f (demo_log 0 zero_disk)"
    by (simp add: upd_wal_def demo_log_fields)
  have "pending (demo_log 0 zero_disk) 1 2 (demo_blocks 0)" by (rule demo_log_pending) (simp_all add: zero_head)
  then have "pending (upd_wal ?f (demo_log 0 zero_disk)) 1 2 []" by (simp add: demo_blocks_def)
  then show ?thesis unfolding e by (rule log_reach.start) (simp_all add: demo_log_fields demo_wal_def lock_idle_def fresh_lock_def)
qed

theorem log_never_overflows_witness:
  "\<exists>(s :: klog) s'. log_reach 1 2 (s, [0 :: nat]) \<and> logged_update 70 (\<lambda>_. [1, 2]) s = (Inr (), s') \<and> a_view (abs_cache s') 70 = [1, 2]"
proof -
  let ?s = "(demo_log 0 zero_disk)\<lparr>wal := (demo_wal 0)\<lparr>outstanding := 0\<rparr>\<rparr>"
  obtain L where L: "in_trans ?s 1 2 L" "\<not> committing (wal ?s)" "length L \<le> 20" "outstanding (wal ?s) = 0"
  proof -
    have "pending (demo_log 0 zero_disk) 1 2 (demo_blocks 0)" by (rule demo_log_pending) (simp_all add: zero_head)
    then have "in_trans (demo_log 0 zero_disk) 1 2 []"
      by (intro pending_in_trans) (simp_all add: demo_blocks_def demo_log_fields demo_wal_def lock_idle_def fresh_lock_def)
    then have "in_trans (upd_wal (\<lambda>l. l\<lparr>outstanding := 0\<rparr>) (demo_log 0 zero_disk)) 1 2 []"
      by (intro in_trans_upd_wal) (simp_all add: in_trans_def)
    then show thesis using that [of "[]"] by (simp add: upd_wal_def demo_log_fields demo_wal_def)
  qed
  define t where "t = upd_wal (\<lambda>l. l\<lparr>outstanding := outstanding l + 1\<rparr>) ?s"
  have "begin_op ?s = (Inr (), t)"
    using begin_op_run [OF L(1,2)] L(3,4) by (simp add: t_def MAXOPBLOCKS_def LOGBLOCKS_def)
  then have "log_step 2 (?s, []) (t, [] @ [0])" by (rule log_step.op_begin)
  then have r: "log_reach 1 2 (t, [0])" using log_reach.step [OF demo_log_start] by simp
  obtain s' where "logged_update 70 (\<lambda>_. [1, 2]) t = (Inr (), s')" "a_view (abs_cache s') 70 = [1, 2]"
    using log_never_overflows [OF r, of 0 70 "\<lambda>_. [1, 2]"] by (auto simp: MAXOPBLOCKS_def log_area_def LOGBLOCKS_def)
  then show ?thesis using r by blast
qed

text \<open>Group commit: when the last open operation ends, and one buffer is left, everything the operations
  recorded is on disk; while others are open, nothing of it is.\<close>

theorem end_op_group_commit:
  assumes "pending s p st L" and "lock_idle (llock (wal s))" and "\<not> committing (wal s)" and "length L < NBUF"
  shows "\<exists>s'. end_op s = (Inr (), s') \<and> outstanding (wal s') = outstanding (wal s) - 1 \<and> \<not> committing (wal s') \<and>
    (\<forall>k. k \<notin> log_area st \<longrightarrow> a_view (abs_cache s') k = a_view (abs_cache s) k \<and>
       a_disk (abs_cache s') k = (if outstanding (wal s) = 1 then a_view else a_disk) (abs_cache s) k)"
proof (cases "outstanding (wal s) = 1")
  case True
  then show ?thesis using end_op_last [OF assms(1,2,4,3)] by auto
next
  case False
  then show ?thesis using end_op_open [OF pending_in_trans [OF assms(1,2)] assms(3)] assms(3) by simp
qed

theorem end_op_group_commit_witness:
  "\<exists>s'. end_op (demo_log 2 zero_disk) = (Inr (), s') \<and> a_disk (abs_cache s') 100 = replicate BSIZE 9"
proof -
  let ?s = "demo_log 2 zero_disk"
  have p: "pending ?s 1 2 (demo_blocks 2)" by (rule demo_log_pending) (simp_all add: zero_head NBUF_def MAXOPBLOCKS_def)
  have w: "lock_idle (llock (wal ?s))" "\<not> committing (wal ?s)" "outstanding (wal ?s) = 1"
    by (simp_all add: demo_log_fields demo_wal_def lock_idle_def fresh_lock_def)
  have n: "length (demo_blocks 2) < NBUF" by (simp add: demo_blocks_def NBUF_def MAXOPBLOCKS_def)
  have "a_view (abs_cache ?s) 100 = replicate BSIZE 9" using demo_log_abs(4) [of 2 zero_disk] by (simp add: demo_blocks_def NBUF_def MAXOPBLOCKS_def)
  moreover have "100 \<notin> log_area 2" by (simp add: log_area_def LOGBLOCKS_def MAXOPBLOCKS_def)
  ultimately show ?thesis using end_op_group_commit [OF p w(1,2) n] w(3) by auto
qed

end
