(* ===== verification/Cstring.thy ===== *)
theory Cstring
  imports Prelude
begin

text \<open>
  The string routines of \<^verbatim>\<open>kernel/string.c\<close>. A \<^verbatim>\<open>char *\<close> argument is the list of bytes of the
  array from that pointer to the array's end (the target's \<^verbatim>\<open>char\<close> is an unsigned byte). A
  routine that would read or write past the end returns \<open>None\<close>; otherwise \<open>Some\<close> of its
  result, or of the destination array's new contents. Source and destination arrays do not
  overlap. \<open>zstr\<close> says that an array holds a given NUL-terminated string.
\<close>

type_synonym carray = "u8 list"

definition zstr :: "carray \<Rightarrow> u8 list \<Rightarrow> bool" where
  "zstr a p \<longleftrightarrow> 0 \<notin> set p \<and> (\<exists>r. a = p @ 0 # r)"

section \<open>Definitions\<close>

fun strlen :: "carray \<Rightarrow> nat option" where
  "strlen [] = None"
| "strlen (c # s) = (if c = 0 then Some 0 else map_option Suc (strlen s))"

fun strcmp :: "carray \<Rightarrow> carray \<Rightarrow> int option" where
  "strcmp (a # p) (b # q) =
     (if a \<noteq> 0 \<and> a = b then strcmp p q else Some (uint a - uint b))"
| "strcmp _ _ = None"

fun strcpy :: "carray \<Rightarrow> carray \<Rightarrow> carray option" where
  "strcpy (d # ds) (c # cs) =
     (if c \<noteq> 0 then map_option ((#) c) (strcpy ds cs) else Some (0 # ds))"
| "strcpy _ _ = None"

fun put_nul :: "carray \<Rightarrow> carray option" where
  "put_nul (d # ds) = Some (0 # ds)"
| "put_nul [] = None"

text \<open>
  The loop of \<^verbatim>\<open>safestrcpy\<close>: \<open>n\<close> is the counter after \<^verbatim>\<open>--n\<close>. When the copied byte is NUL the
  pointer has already moved on, and the final store hits the byte after it.
\<close>

fun safestrcpy_loop :: "carray \<Rightarrow> carray \<Rightarrow> nat \<Rightarrow> carray option" where
  "safestrcpy_loop ds cs 0 = put_nul ds"
| "safestrcpy_loop (d # ds) (c # cs) (Suc n) =
     map_option ((#) c) (if c \<noteq> 0 then safestrcpy_loop ds cs n else put_nul ds)"
| "safestrcpy_loop _ _ (Suc n) = None"

definition safestrcpy :: "carray \<Rightarrow> carray \<Rightarrow> int \<Rightarrow> carray option" where
  "safestrcpy s t n = (if n \<le> 0 then Some s else safestrcpy_loop s t (nat (n - 1)))"

fun atoi_skip :: "carray \<Rightarrow> carray option" where
  "atoi_skip [] = None"
| "atoi_skip (c # s) = (if c = 32 \<or> c = 9 then atoi_skip s else Some (c # s))"

text \<open>The \<^verbatim>\<open>int\<close> accumulator is 32 bits wide and wraps.\<close>

fun atoi_digits :: "carray \<Rightarrow> u32 \<Rightarrow> u32 option" where
  "atoi_digits [] n = None"
| "atoi_digits (c # s) n =
     (if 48 \<le> c \<and> c \<le> 57 then atoi_digits s (n * 10 + (ucast c - 48)) else Some n)"

definition atoi :: "carray \<Rightarrow> u32 option" where
  "atoi s =
     (case atoi_skip s of
        None \<Rightarrow> None
      | Some [] \<Rightarrow> None
      | Some (c # t) \<Rightarrow>
          if c = 45 then map_option (\<lambda>n. - 1 * n) (atoi_digits t 0)
          else if c = 43 then map_option (\<lambda>n. 1 * n) (atoi_digits t 0)
          else map_option (\<lambda>n. 1 * n) (atoi_digits (c # t) 0))"

text \<open>
  The counter of \<^verbatim>\<open>strncmp\<close> and \<^verbatim>\<open>strncpy\<close> is given as a natural number: every call in the
  kernel passes the constant \<^verbatim>\<open>DIRSIZ\<close>.
\<close>

fun strncmp :: "carray \<Rightarrow> carray \<Rightarrow> nat \<Rightarrow> int option" where
  "strncmp s t 0 = Some 0"
| "strncmp (a # s) (b # t) (Suc n) =
     (if a \<noteq> 0 \<and> b \<noteq> 0 \<and> a = b then strncmp s t n else Some (uint a - uint b))"
| "strncmp _ _ (Suc n) = None"

fun strncpy_pad :: "carray \<Rightarrow> nat \<Rightarrow> carray option" where
  "strncpy_pad ds 0 = Some ds"
| "strncpy_pad (d # ds) (Suc n) = map_option ((#) 0) (strncpy_pad ds n)"
| "strncpy_pad [] (Suc n) = None"

fun strncpy :: "carray \<Rightarrow> carray \<Rightarrow> nat \<Rightarrow> carray option" where
  "strncpy ds cs 0 = Some ds"
| "strncpy ds [] (Suc n) = None"
| "strncpy ds (c # cs) (Suc n) =
     (if c \<noteq> 0 then (case ds of [] \<Rightarrow> None | d # ds' \<Rightarrow> map_option ((#) c) (strncpy ds' cs n))
      else strncpy_pad ds (Suc n))"

fun strcat :: "carray \<Rightarrow> carray \<Rightarrow> carray option" where
  "strcat [] src = None"
| "strcat (d # ds) src =
     (if d \<noteq> 0 then map_option ((#) d) (strcat ds src) else strcpy (d # ds) src)"

section \<open>Correctness\<close>

lemma strlen_zstr: "zstr a p \<Longrightarrow> strlen a = Some (length p)"
  unfolding zstr_def by (induction p arbitrary: a) auto

lemma strcmp_terminated:
  assumes "0 \<notin> set p" and "0 \<notin> set q"
  shows "\<exists>v. strcmp (p @ 0 # r) (q @ 0 # r') = Some v \<and>
    (v = 0 \<longleftrightarrow> p = q) \<and> (v < 0 \<longleftrightarrow> (p, q) \<in> lexord {(a, b). a < b})"
  using assms
proof (induction p arbitrary: q)
  case Nil
  then show ?case
    by (cases q) (auto simp: word_less_def lexord_Nil_left word_neq_0_conv)
next
  case (Cons a p)
  show ?case
  proof (cases q)
    case Nil
    then show ?thesis using Cons.prems
      by (auto simp: word_less_def word_neq_0_conv intro: uint_lt_0)
  next
    case (Cons b q')
    then show ?thesis
      using Cons.prems Cons.IH [of q'] word_uint_eq_iff [of a b]
      by (cases "a = b") (auto simp: word_less_def)
  qed
qed

lemma strcpy_zstr:
  assumes "zstr t p" and "length p < length s"
  shows "strcpy s t = Some (p @ 0 # drop (Suc (length p)) s)"
  using assms unfolding zstr_def
proof (induction p arbitrary: s t)
  case Nil
  then show ?case by (cases s) auto
next
  case (Cons c p)
  then show ?case by (cases s) auto
qed

lemma put_nul_eq: "s \<noteq> [] \<Longrightarrow> put_nul s = Some (0 # tl s)"
  by (cases s) auto

lemma safestrcpy_loop_zstr:
  assumes "zstr t p" and "n < length s"
  shows "\<exists>r. safestrcpy_loop s t n = Some r \<and> length r = length s \<and>
    take (Suc (min n (length p))) r = take n p @ [0] \<and> drop (Suc n) r = drop (Suc n) s"
  using assms unfolding zstr_def
proof (induction n arbitrary: s t p)
  case 0
  then show ?case by (cases s) auto
next
  case (Suc n)
  obtain d ds where s: "s = d # ds" using Suc.prems by (cases s) auto
  show ?case
  proof (cases p)
    case Nil
    have "ds \<noteq> []" using Suc.prems s by auto
    then show ?thesis
      using Suc.prems s Nil by (cases ds) (auto simp: put_nul_eq)
  next
    case (Cons c p')
    then obtain t' where t: "t = c # t'" and t': "0 \<notin> set p' \<and> (\<exists>r. t' = p' @ 0 # r)"
      using Suc.prems by auto
    have "\<exists>r. safestrcpy_loop ds t' n = Some r \<and> length r = length ds \<and>
        take (Suc (min n (length p'))) r = take n p' @ [0] \<and> drop (Suc n) r = drop (Suc n) ds"
      by (rule Suc.IH) (use t' Suc.prems s in auto)
    then show ?thesis using Suc.prems s t Cons by auto
  qed
qed

text \<open>
  \<open>cname n a\<close>: the name held by a field of \<open>n\<close> bytes, which is not terminated when the name
  fills the field.
\<close>

definition cname :: "nat \<Rightarrow> carray \<Rightarrow> u8 list" where
  "cname n a = takeWhile (\<lambda>c. c \<noteq> 0) (take n a)"

lemma strncmp_cname:
  assumes "n \<le> length a" and "n \<le> length b"
  shows "\<exists>v. strncmp a b n = Some v \<and> (v = 0 \<longleftrightarrow> cname n a = cname n b)"
  using assms
proof (induction a b n rule: strncmp.induct)
  case (2 a s b t n)
  then show ?case
    using word_uint_eq_iff [of a b] by (cases "a = b") (auto simp: cname_def)
qed (auto simp: cname_def)

lemma strncpy_pad_eq:
  "n \<le> length ds \<Longrightarrow> strncpy_pad ds n = Some (replicate n 0 @ drop n ds)"
  by (induction ds n rule: strncpy_pad.induct) auto

lemma strncpy_cname:
  assumes "n \<le> length ds" and "n \<le> length cs \<or> 0 \<in> set cs"
  shows "\<exists>r. strncpy ds cs n = Some r \<and> length r = length ds \<and>
    cname n r = cname n cs \<and> drop n r = drop n ds"
  using assms
proof (induction ds cs n rule: strncpy.induct)
  case (3 ds c cs n)
  show ?case
  proof (cases "c = 0")
    case True
    then show ?thesis using 3 by (auto simp: strncpy_pad_eq cname_def)
  next
    case False
    obtain d ds' where ds: "ds = d # ds'" using 3 by (cases ds) auto
    then have "\<exists>r. strncpy ds' cs n = Some r \<and> length r = length ds' \<and>
        cname n r = cname n cs \<and> drop n r = drop n ds'"
      using 3 False by auto
    then show ?thesis using False ds by (auto simp: cname_def)
  qed
qed (auto simp: cname_def)

lemma strcat_zstr:
  assumes "zstr d p" and "zstr t q" and "length p + length q < length d"
  shows "strcat d t = Some (p @ q @ 0 # drop (Suc (length p + length q)) d)"
  using assms
proof (induction p arbitrary: d)
  case Nil
  then obtain r where "d = 0 # r" by (auto simp: zstr_def)
  then show ?case using Nil strcpy_zstr [of t q d] by simp
next
  case (Cons c p)
  then obtain d' where d: "d = c # d'" "c \<noteq> 0" "zstr d' p" by (auto simp: zstr_def)
  then show ?case using Cons by simp
qed

section \<open>Properties\<close>

text \<open>\<^verbatim>\<open>strcmp\<close> on two NUL-terminated strings always returns; the result is 0 exactly for
  equal strings and negative exactly when the first precedes the second in the
  lexicographic order of unsigned bytes.\<close>

theorem strcmp_lexicographic:
  assumes "zstr a p" and "zstr b q"
  shows "\<exists>v. strcmp a b = Some v \<and>
    (v = 0 \<longleftrightarrow> p = q) \<and> (v < 0 \<longleftrightarrow> (p, q) \<in> lexord {(x, y). x < y})"
  using assms strcmp_terminated [of p q] unfolding zstr_def by auto

theorem strcmp_lexicographic_witness:
  "\<exists>v. strcmp [97, 98, 0] [97, 99, 0, 7] = Some v \<and>
    (v = 0 \<longleftrightarrow> [97, 98 :: u8] = [97, 99]) \<and>
    (v < 0 \<longleftrightarrow> ([97, 98 :: u8], [97, 99]) \<in> lexord {(x, y). x < y})"
  by (rule strcmp_lexicographic) (simp_all add: zstr_def)

text \<open>A directory entry name written by \<^verbatim>\<open>strncpy\<close> compares equal, under \<^verbatim>\<open>strncmp\<close> with the
  same bound, exactly to the names whose first \<open>n\<close> bytes agree up to the first NUL: in
  particular the stored field is found again under the name it was stored for.\<close>

theorem strncpy_strncmp_roundtrip:
  assumes "n \<le> length d" and "n \<le> length name" and "n \<le> length other"
  shows "\<exists>d' v. strncpy d name n = Some d' \<and> strncmp other d' n = Some v \<and>
    (v = 0 \<longleftrightarrow> cname n other = cname n name) \<and> drop n d' = drop n d"
proof -
  obtain d' where d': "strncpy d name n = Some d'" "length d' = length d"
      "cname n d' = cname n name" "drop n d' = drop n d"
    using strncpy_cname [of n d name] assms by auto
  moreover obtain v where "strncmp other d' n = Some v" "v = 0 \<longleftrightarrow> cname n other = cname n d'"
    using strncmp_cname [of n other d'] assms d' by auto
  ultimately show ?thesis by auto
qed

theorem strncpy_strncmp_roundtrip_witness:
  "\<exists>d' v. strncpy [9, 9, 9, 9] [97, 0, 5] 3 = Some d' \<and> strncmp [97, 0, 8] d' 3 = Some v \<and>
    (v = 0 \<longleftrightarrow> cname 3 [97, 0, 8] = cname 3 [97, 0, 5]) \<and> drop 3 d' = drop 3 [9, 9, 9, 9]"
  by (rule strncpy_strncmp_roundtrip) simp_all

text \<open>\<^verbatim>\<open>safestrcpy\<close> with a positive bound no larger than the destination never leaves the
  array, stores the longest prefix of the source that fits followed by NUL, and leaves the
  bytes from the bound on unchanged.\<close>

theorem safestrcpy_terminates_string:
  assumes "zstr t p" and "0 < n" and "nat n \<le> length s"
  shows "\<exists>r. safestrcpy s t n = Some r \<and> length r = length s \<and>
    zstr r (take (nat n - 1) p) \<and> drop (nat n) r = drop (nat n) s"
proof -
  have "nat (n - 1) < length s" using assms(2,3) by linarith
  from safestrcpy_loop_zstr [OF assms(1) this] obtain r where r:
    "safestrcpy_loop s t (nat (n - 1)) = Some r" "length r = length s"
    "take (Suc (min (nat (n - 1)) (length p))) r = take (nat (n - 1)) p @ [0]"
    "drop (Suc (nat (n - 1))) r = drop (Suc (nat (n - 1))) s"
    by auto
  have n1: "nat (n - 1) = nat n - 1" "Suc (nat n - 1) = nat n" using assms by auto
  have "0 \<notin> set (take (nat n - 1) p)"
    using assms(1) by (auto simp: zstr_def dest: in_set_takeD)
  moreover have "r = (take (nat n - 1) p @ [0]) @ drop (Suc (min (nat n - 1) (length p))) r"
    using r(3) n1 by (metis append_take_drop_id)
  ultimately have "zstr r (take (nat n - 1) p)" by (auto simp: zstr_def)
  then show ?thesis using r n1 assms by (auto simp: safestrcpy_def)
qed

theorem safestrcpy_terminates_string_witness:
  "\<exists>r. safestrcpy [1, 1, 1, 1] [97, 98, 99, 0] 3 = Some r \<and> length r = length [1, 1, 1, 1 :: u8] \<and>
    zstr r (take (nat 3 - 1) [97, 98, 99]) \<and> drop (nat 3) r = drop (nat 3) [1, 1, 1, 1]"
  by (rule safestrcpy_terminates_string) (simp_all add: zstr_def)

end
