(* ===== verification/Blocks.thy ===== *)
theory Blocks
  imports LogTrans Cstring
begin

text \<open>
  The block layer of \<^verbatim>\<open>kernel/fs.c\<close>: the super block, zeroing, allocating and freeing disk blocks.
  The static variable \<^verbatim>\<open>sb\<close> is the field \<open>sb\<close> of the state. \<^verbatim>\<open>int\<close> loop counters that run from 0 to a
  disk size are natural numbers; block numbers given to the cache are 32-bit words. Messages are
  not modelled.
\<close>

section \<open>Super block\<close>

record superblock =
  sb_magic :: u32
  sb_size :: u32
  sb_nblocks :: u32
  sb_ninodes :: u32
  sb_nlog :: u32
  sb_logstart :: u32
  sb_inodestart :: u32
  sb_bmapstart :: u32

record kfs = klog +
  sb :: superblock

definition FSMAGIC :: u32 where
  "FSMAGIC = 0x10203040"

definition BPB :: nat where
  "BPB = BSIZE * 8"

definition BBLOCK :: "u32 \<Rightarrow> superblock \<Rightarrow> u32" where
  "BBLOCK b x = b div of_nat BPB + sb_bmapstart x"

definition load_sb :: "u8 list \<Rightarrow> superblock" where
  "load_sb d = \<lparr>sb_magic = get32 d 0, sb_size = get32 d 4, sb_nblocks = get32 d 8, sb_ninodes = get32 d 12,
     sb_nlog = get32 d 16, sb_logstart = get32 d 20, sb_inodestart = get32 d 24, sb_bmapstart = get32 d 28\<rparr>"

definition readsb :: "u32 \<Rightarrow> (('a) kfs_scheme, unit) km" where
  "readsb dev = kbind (bread dev 1) (\<lambda>bp. kseq (kmod (\<lambda>s. s\<lparr>sb := load_sb (bdata s bp)\<rparr>)) (brelse bp))"

section \<open>Blocks\<close>

definition bzero :: "u32 \<Rightarrow> u32 \<Rightarrow> (('a) kfs_scheme, unit) km" where
  "bzero dev bno = kbind (bread dev bno) (\<lambda>bp.
     kseq (kmod (set_bdata bp (replicate BSIZE 0))) (kseq (log_write bp) (brelse bp)))"

text \<open>Bit \<open>bi\<close> of a bitmap block, with the mask \<open>m\<close> of the code.\<close>

definition bit_mask :: "nat \<Rightarrow> u8" where
  "bit_mask bi = push_bit (bi mod 8) 1"

definition bit_clear :: "u8 list \<Rightarrow> nat \<Rightarrow> bool" where
  "bit_clear d bi \<longleftrightarrow> d ! (bi div 8) AND bit_mask bi = 0"

definition set_bit_at :: "nat \<Rightarrow> u8 list \<Rightarrow> u8 list" where
  "set_bit_at bi d = d[bi div 8 := d ! (bi div 8) OR bit_mask bi]"

definition clear_bit_at :: "nat \<Rightarrow> u8 list \<Rightarrow> u8 list" where
  "clear_bit_at bi d = d[bi div 8 := d ! (bi div 8) AND NOT (bit_mask bi)]"

text \<open>The inner loop of \<^verbatim>\<open>balloc\<close>: the first clear bit among the \<open>n\<close> bits of the block that stand for blocks of the disk.\<close>

definition free_bit :: "u8 list \<Rightarrow> nat \<Rightarrow> nat option" where
  "free_bit d n = find (bit_clear d) [0..<n]"

fun balloc_loop :: "u32 \<Rightarrow> nat list \<Rightarrow> (('a) kfs_scheme, u32) km" where
  "balloc_loop dev [] = kret 0"
| "balloc_loop dev (b # bs) = kbind (kget sb) (\<lambda>x.
     kbind (bread dev (BBLOCK (of_nat b) x)) (\<lambda>bp. kbind (kget (\<lambda>s. bdata s bp)) (\<lambda>d.
       case free_bit d (min BPB (unat (sb_size x) - b)) of
         Some bi \<Rightarrow>
           kseq (kmod (set_bdata bp (set_bit_at bi d)))
             (kseq (log_write bp)
               (kseq (brelse bp)
                 (kseq (bzero dev (of_nat (b + bi))) (kret (of_nat (b + bi))))))
       | None \<Rightarrow> kseq (brelse bp) (balloc_loop dev bs))))"

text \<open>The values of the outer loop's counter: \<open>0, BPB, 2 * BPB, \<dots>\<close> below the disk size.\<close>

definition map_starts :: "u32 \<Rightarrow> nat list" where
  "map_starts sz = map (\<lambda>i. i * BPB) [0..<(unat sz + BPB - 1) div BPB]"

definition balloc :: "u32 \<Rightarrow> (('a) kfs_scheme, u32) km" where
  "balloc dev = kbind (kget (\<lambda>s. sb_size (sb s))) (\<lambda>sz. balloc_loop dev (map_starts sz))"

definition bfree :: "u32 \<Rightarrow> u32 \<Rightarrow> (('a) kfs_scheme, unit) km" where
  "bfree dev b = kbind (kget sb) (\<lambda>x. kbind (bread dev (BBLOCK b x)) (\<lambda>bp.
     kbind (kget (\<lambda>s. bdata s bp)) (\<lambda>d.
       if bit_clear d (unat b mod BPB) then panic ''freeing free block''
       else kseq (kmod (set_bdata bp (clear_bit_at (unat b mod BPB) d)))
         (kseq (log_write bp) (brelse bp)))))"

end
