(* ===== verification/FsTrans.thy ===== *)
theory FsTrans
  imports Blocks
begin

text \<open>
  The file system's view of a transaction. \<open>tx p st n V H F s\<close> describes a state inside a transaction
  of process \<open>p\<close> (in \<open>txo oc p st n V H F s\<close>, at least \<open>oc\<close> operations are open): at most \<open>n\<close> blocks are in the log, the blocks read as \<open>V\<close>, the buffers of \<open>H\<close>
  are held, every changed block is in the log, and the rest of the state is \<open>F\<close>. Reading,
  changing and releasing a buffer are simple updates of \<open>V\<close> and \<open>H\<close>.
\<close>

definition txo :: "int \<Rightarrow> nat \<Rightarrow> nat \<Rightarrow> nat \<Rightarrow> (nat \<Rightarrow> u8 list) \<Rightarrow> (nat \<Rightarrow> nat option) \<Rightarrow> ('a) klog_scheme \<Rightarrow> ('a) klog_scheme \<Rightarrow> bool" where
  "txo oc p st n V H F s \<longleftrightarrow>
     (\<exists>L. in_trans s p st L \<and> length L \<le> n \<and> (\<forall>k. k \<notin> set L \<longrightarrow> a_view (abs_cache s) k = a_disk (abs_cache s) k)) \<and>
     a_view (abs_cache s) = V \<and> a_held (abs_cache s) = H \<and> frame s = F \<and>
     oc \<le> outstanding (wal s) \<and> \<not> committing (wal s) \<and>
     length (a_disk (abs_cache s) st) = BSIZE \<and> sint (get32 (a_disk (abs_cache s) st) 0) = 0"

abbreviation tx :: "nat \<Rightarrow> nat \<Rightarrow> nat \<Rightarrow> (nat \<Rightarrow> u8 list) \<Rightarrow> (nat \<Rightarrow> nat option) \<Rightarrow> ('a) klog_scheme \<Rightarrow> ('a) klog_scheme \<Rightarrow> bool" where
  "tx \<equiv> txo 1"

lemmas tx_def = txo_def

lemma frame_wal: "frame s = F \<Longrightarrow> outstanding (wal s) = outstanding (wal F) \<and> committing (wal s) = committing (wal F)"
  by (auto simp: frame_def)

lemma finite_ran_held: "finite (ran (a_held (abs_cache s)))" and card_ran_held: "card (ran (a_held (abs_cache s))) \<le> NBUF"
proof -
  let ?f = "\<lambda>b. the (a_held (abs_cache s) b)"
  have sub: "ran (a_held (abs_cache s)) \<subseteq> ?f ` {..<NBUF}"
    by (auto simp: abs_cache_def ran_def image_iff split: if_splits intro!: bexI)
  then show "finite (ran (a_held (abs_cache s)))" by (rule finite_subset) simp
  have "card (ran (a_held (abs_cache s))) \<le> card (?f ` {..<NBUF})" by (rule card_mono [OF _ sub]) simp
  also have "\<dots> \<le> NBUF" using card_image_le [of "{..<NBUF}" ?f] by simp
  finally show "card (ran (a_held (abs_cache s))) \<le> NBUF" .
qed

lemma tx_mono: "txo oc p st n V H F s \<Longrightarrow> n \<le> m \<Longrightarrow> txo oc p st m V H F s"
  unfolding tx_def by (meson le_trans)

text \<open>Two buffers never hold the same block.\<close>

lemma tx_held_inj:
  assumes "txo oc p st n V H F s" and "H b = Some k" and "H c = Some k"
  shows "b = c"
proof -
  have inv: "cache_inv s p" and h: "a_held (abs_cache s) = H" using assms(1) by (auto simp: tx_def in_trans_def log_at_def)
  show ?thesis using heldD(5) [OF inv] assms(2,3) h by (metis option.inject)
qed

lemma tx_ran_remove:
  assumes "txo oc p st n V H F s" and "H b = Some k"
  shows "ran (H(b := None)) = ran H - {k}"
proof -
  have inj: "c = b" if "H c = Some k" for c using tx_held_inj [OF assms(1) that assms(2)] .
  show ?thesis
  proof (intro equalityI subsetI)
    fix j assume "j \<in> ran (H(b := None))"
    then obtain c where "H c = Some j" "c \<noteq> b" by (auto simp: ran_def split: if_splits)
    then show "j \<in> ran H - {k}" using inj by (auto intro: ranI)
  next
    fix j assume "j \<in> ran H - {k}"
    then obtain c where "H c = Some j" "j \<noteq> k" by (auto simp: ran_def)
    then show "j \<in> ran (H(b := None))" using assms(2) by (intro ranI [of _ c]) auto
  qed
qed

lemma tx_bread:
  assumes t: "txo oc p st n V H F s" and k: "unat bno < 2 ^ 31" "unat bno \<notin> ran H" and c: "n + card (ran H) < NBUF"
  shows "\<exists>b s'. bread ROOTDEV bno s = (Inr b, s') \<and> txo oc p st n V (H(b \<mapsto> unat bno)) F s' \<and> H b = None \<and>
    bdata s' b = V (unat bno)"
proof -
  obtain L where L: "in_trans s p st L" "length L \<le> n" "\<forall>k. k \<notin> set L \<longrightarrow> a_view (abs_cache s) k = a_disk (abs_cache s) k"
    using t by (auto simp: tx_def)
  have inv: "cache_inv s p" and rc: "a_rc (abs_cache s) j = pins L j + (if j \<in> ran H then 1 else 0)"
    and hv: "a_held (abs_cache s) = H" "a_view (abs_cache s) = V" for j
    using L(1) t by (auto simp: in_trans_def log_at_def tx_def)
  have "in_use (abs_cache s) = set L \<union> ran H" using rc by auto
  then have "card (in_use (abs_cache s)) \<le> length L + card (ran H)"
    using card_Un_le [of "set L" "ran H"] card_length [of L] by simp
  then have cu: "card (in_use (abs_cache s)) < NBUF" using c L(2) by linarith
  obtain b s' where s': "bread ROOTDEV bno s = (Inr b, s')" "cache_inv s' p" "cache_only s s'" "H b = None"
      "abs_cache s' = a_bread (unat bno) b (abs_cache s)" "bdata s' b = V (unat bno)"
  proof -
    have "a_rc (abs_cache s) (unat bno) + 1 < 2 ^ 32" using rc [of "unat bno"] k(2) by simp
    then show thesis using bread_spec [OF inv k(1)] k(2) cu that unfolding hv by blast
  qed
  have "ran (H(b \<mapsto> unat bno)) = insert (unat bno) (ran H)" using s'(4) by (rule ran_map_upd)
  then have "in_trans s' p st L"
    by (intro in_trans_keep [OF L(1) s'(3,2)]) (use rc k(2) hv in \<open>auto simp: s'(5) a_bread_def\<close>)
  then have "txo oc p st n V (H(b \<mapsto> unat bno)) F s'"
    using t L frame_cache_only [OF s'(3)] cache_only_wal [OF s'(3)] unfolding tx_def
    by (auto simp: s'(5) a_bread_def)
  then show ?thesis using s' by blast
qed

lemma tx_brelse:
  assumes t: "txo oc p st n V H F s" and h: "H b = Some k"
  shows "\<exists>s'. brelse b s = (Inr (), s') \<and> txo oc p st n V (H(b := None)) F s'"
proof -
  obtain L where L: "in_trans s p st L" "length L \<le> n" "\<forall>k. k \<notin> set L \<longrightarrow> a_view (abs_cache s) k = a_disk (abs_cache s) k"
    using t by (auto simp: tx_def)
  have inv: "cache_inv s p" and rc: "a_rc (abs_cache s) j = pins L j + (if j \<in> ran H then 1 else 0)"
    and hv: "a_held (abs_cache s) = H" "a_view (abs_cache s) = V" for j
    using L(1) t by (auto simp: in_trans_def log_at_def tx_def)
  have kr: "k \<in> ran H" using h by (rule ranI)
  have "a_view (abs_cache s) k = a_disk (abs_cache s) k" if "a_rc (abs_cache s) k = 1"
    using that rc [of k] kr L(3) by (auto split: if_splits)
  then obtain s' where s': "brelse b s = (Inr (), s')" "cache_inv s' p" "cache_only s s'"
      "abs_cache s' = a_brelse k b (abs_cache s)"
    using brelse_spec [OF inv, of b k] h hv by auto
  have "in_trans s' p st L"
    by (intro in_trans_keep [OF L(1) s'(3,2)])
      (use rc kr hv tx_ran_remove [OF t h] in \<open>auto simp: s'(4) a_brelse_def\<close>)
  then have "txo oc p st n V (H(b := None)) F s'"
    using t L frame_cache_only [OF s'(3)] cache_only_wal [OF s'(3)] unfolding tx_def
    by (auto simp: s'(4) a_brelse_def)
  then show ?thesis using s' by blast
qed

lemma tx_held_view:
  assumes "txo oc p st n V H F s" and "H b = Some k"
  shows "bdata s b = V k" and "k < 2 ^ 31" and "blockno (bufs s b) = of_nat k"
proof -
  have inv: "cache_inv s p" and h: "a_held (abs_cache s) = H" "a_view (abs_cache s) = V"
    using assms(1) by (auto simp: tx_def in_trans_def log_at_def)
  note hd = heldD [OF inv, of b k]
  show "bdata s b = V k" using hd(9) assms(2) h by simp
  show "k < 2 ^ 31" using hd(4,8) assms(2) h by (auto simp: buf_ok_def Let_def)
  show "blockno (bufs s b) = of_nat k" using hd(4) assms(2) h by (auto simp: key_def)
qed

text \<open>Changing a held buffer and recording it.\<close>

lemma tx_update:
  assumes t: "tx p st n V H F s" and h: "H b = Some k" and k: "k \<notin> log_area st" and n: "n < LOGBLOCKS"
  shows "\<exists>s'. log_write b (set_bdata b v s) = (Inr (), s') \<and> tx p st (Suc n) (V(k := v)) H F s'"
proof -
  obtain L where L: "in_trans s p st L" "length L \<le> n" "\<forall>k. k \<notin> set L \<longrightarrow> a_view (abs_cache s) k = a_disk (abs_cache s) k"
    using t by (auto simp: tx_def)
  have inv: "cache_inv s p" and hv: "a_held (abs_cache s) = H" "a_view (abs_cache s) = V"
    using L(1) t by (auto simp: in_trans_def log_at_def tx_def)
  have hb: "a_held (abs_cache s) b = Some k" using h hv by simp
  note u = set_bdata_spec [OF inv hb, of v]
  let ?u = "set_bdata b v s"
  have it: "in_trans ?u p st L"
    by (rule in_trans_keep [OF L(1) u(2,1)]) (use L(1) in \<open>simp add: u(3) a_store_def in_trans_def\<close>)
  have wu: "wal ?u = wal s" "frame ?u = frame s" using cache_only_wal [OF u(2)] frame_cache_only [OF u(2)] by simp_all
  have o: "outstanding (wal ?u) \<ge> 1" using t wu by (simp add: tx_def)
  obtain w where w: "log_write b ?u = (Inr (), w)" "in_trans w p st (if k \<in> set L then L else L @ [k])"
      "a_view (abs_cache w) = a_view (abs_cache ?u)" "a_disk (abs_cache w) = a_disk (abs_cache ?u)"
      "a_held (abs_cache w) = a_held (abs_cache ?u)" "outstanding (wal w) = outstanding (wal ?u)"
      "committing (wal w) = committing (wal ?u)" "frame w = frame ?u"
    using log_write_run [OF it _ k _ o, of b] hb L(2) n by (auto simp: u(3) a_store_def)
  have "length (if k \<in> set L then L else L @ [k]) \<le> Suc n" using L(2) by simp
  moreover have "a_view (abs_cache w) j = a_disk (abs_cache w) j" if "j \<notin> set (if k \<in> set L then L else L @ [k])" for j
    using that L(3) w(3,4) u(3) by (auto simp: a_store_def split: if_splits)
  ultimately have "\<exists>L'. in_trans w p st L' \<and> length L' \<le> Suc n \<and>
      (\<forall>j. j \<notin> set L' \<longrightarrow> a_view (abs_cache w) j = a_disk (abs_cache w) j)"
    using w(2) by blast
  moreover have "a_disk (abs_cache w) = a_disk (abs_cache s)" "a_view (abs_cache w) = V(k := v)" "a_held (abs_cache w) = H"
    using w(3-5) u(3) hv by (simp_all add: a_store_def)
  ultimately have "tx p st (Suc n) (V(k := v)) H F w"
    using t w(6-8) wu unfolding tx_def by simp
  then show ?thesis using w(1) by blast
qed

text \<open>The usual pattern: read a block, change it, record it, release it.\<close>

lemma tx_modify:
  assumes t: "tx p st n V H F s" and k: "unat bno < 2 ^ 31" "unat bno \<notin> ran H" "unat bno \<notin> log_area st"
    and c: "n + card (ran H) < NBUF" "n < LOGBLOCKS"
  shows "\<exists>s'. kbind (bread ROOTDEV bno) (\<lambda>b. kbind (kget (\<lambda>s. bdata s b)) (\<lambda>d.
      kseq (kmod (set_bdata b (f d))) (kseq (log_write b) (kseq (brelse b) m)))) s = m s' \<and>
    tx p st (Suc n) (V(unat bno := f (V (unat bno)))) H F s'"
proof -
  let ?k = "unat bno"
  obtain b t where t: "bread ROOTDEV bno s = (Inr b, t)" "tx p st n V (H(b \<mapsto> ?k)) F t" "H b = None" "bdata t b = V ?k"
    using tx_bread [OF assms(1) k(1,2) c(1)] by blast
  obtain u where u: "log_write b (set_bdata b (f (V ?k)) t) = (Inr (), u)" "tx p st (Suc n) (V(?k := f (V ?k))) (H(b \<mapsto> ?k)) F u"
    using tx_update [OF t(2) _ k(3) c(2), of b "f (V ?k)"] by auto
  obtain w where w: "brelse b u = (Inr (), w)" "tx p st (Suc n) (V(?k := f (V ?k))) ((H(b \<mapsto> ?k))(b := None)) F w"
    using tx_brelse [OF u(2), of b ?k] by auto
  have "(H(b \<mapsto> ?k))(b := None) = H" using t(3) by (simp add: fun_eq_iff)
  then show ?thesis using t u w by auto
qed

text \<open>Reading a block and releasing it.\<close>

lemma tx_read:
  assumes t: "txo oc p st n V H F s" and k: "unat bno < 2 ^ 31" "unat bno \<notin> ran H" and c: "n + card (ran H) < NBUF"
  shows "\<exists>s'. kbind (bread ROOTDEV bno) (\<lambda>b. kbind (kget (\<lambda>s. bdata s b)) (\<lambda>d. kseq (brelse b) (m d))) s = m (V (unat bno)) s' \<and>
    txo oc p st n V H F s'"
proof -
  let ?k = "unat bno"
  obtain b t where t: "bread ROOTDEV bno s = (Inr b, t)" "txo oc p st n V (H(b \<mapsto> ?k)) F t" "H b = None" "bdata t b = V ?k"
    using tx_bread [OF assms] by blast
  obtain w where w: "brelse b t = (Inr (), w)" "txo oc p st n V ((H(b \<mapsto> ?k))(b := None)) F w"
    using tx_brelse [OF t(2), of b ?k] by auto
  have "(H(b \<mapsto> ?k))(b := None) = H" using t(3) by (simp add: fun_eq_iff)
  then show ?thesis using t w by auto
qed

end
