(* ===== verification/BlocksSpec.thy ===== *)
theory BlocksSpec
  imports FsTrans
begin

text \<open>
  The block allocator on the file system's view of a transaction: \<^verbatim>\<open>balloc\<close> takes the first block that
  is free in the bitmap, \<^verbatim>\<open>bfree\<close> gives one back, and both change only the bitmap block concerned
  and, for \<^verbatim>\<open>balloc\<close>, the block itself.
\<close>

section \<open>Bits\<close>

lemma bit_clear_bit: "bit_clear d i \<longleftrightarrow> \<not> bit (d ! (i div 8)) (i mod 8)"
proof -
  have "d ! (i div 8) AND bit_mask i = 0 \<longleftrightarrow> \<not> bit (d ! (i div 8)) (i mod 8)"
    by (simp add: bit_mask_def push_bit_of_1 and_exp_eq_0_iff_not_bit)
  then show ?thesis by (simp add: bit_clear_def)
qed

lemma div_mod_8_eq: "i div 8 = j div 8 \<Longrightarrow> i mod 8 = j mod 8 \<Longrightarrow> i = (j :: nat)"
  by (metis mult_div_mod_eq)

lemma bit_clear_set:
  assumes "i < 8 * length d"
  shows "bit_clear (set_bit_at i d) j \<longleftrightarrow> j \<noteq> i \<and> bit_clear d j"
proof -
  have l: "i div 8 < length d" using assms by linarith
  show ?thesis
  proof (cases "j div 8 = i div 8")
    case True
    then have "j = i \<longleftrightarrow> j mod 8 = i mod 8" using div_mod_8_eq by blast
    then show ?thesis
      using l True by (auto simp: bit_clear_bit set_bit_at_def bit_mask_def bit_simps)
  next
    case False
    then show ?thesis by (auto simp: bit_clear_bit set_bit_at_def)
  qed
qed

lemma bit_clear_clear:
  assumes "i < 8 * length d"
  shows "bit_clear (clear_bit_at i d) j \<longleftrightarrow> j = i \<or> bit_clear d j"
proof -
  have l: "i div 8 < length d" using assms by linarith
  show ?thesis
  proof (cases "j div 8 = i div 8")
    case True
    then have "j = i \<longleftrightarrow> j mod 8 = i mod 8" using div_mod_8_eq by blast
    then show ?thesis
      using l True by (auto simp: bit_clear_bit clear_bit_at_def bit_mask_def bit_simps)
  next
    case False
    then show ?thesis by (auto simp: bit_clear_bit clear_bit_at_def)
  qed
qed

lemma clear_set_bit: "bit_clear d i \<Longrightarrow> clear_bit_at i (set_bit_at i d) = d"
proof (cases "i div 8 < length d")
  case True
  assume "bit_clear d i"
  then have "(d ! (i div 8) OR bit_mask i) AND NOT (bit_mask i) = d ! (i div 8)"
    by (intro bit_word_eqI) (auto simp: bit_clear_bit bit_mask_def bit_simps)
  then show ?thesis using True by (simp add: clear_bit_at_def set_bit_at_def)
qed (simp add: clear_bit_at_def set_bit_at_def list_update_beyond)

lemma length_set_bit [simp]: "length (set_bit_at i d) = length d" "length (clear_bit_at i d) = length d"
  by (simp_all add: set_bit_at_def clear_bit_at_def)

section \<open>The bitmap\<close>

definition bmap_block :: "superblock \<Rightarrow> nat \<Rightarrow> nat" where
  "bmap_block x k = unat (sb_bmapstart x) + k div BPB"

definition blk_free :: "superblock \<Rightarrow> (nat \<Rightarrow> u8 list) \<Rightarrow> nat \<Rightarrow> bool" where
  "blk_free x V k \<longleftrightarrow> bit_clear (V (bmap_block x k)) (k mod BPB)"

definition data_start :: "superblock \<Rightarrow> nat" where
  "data_start x = unat (sb_bmapstart x) + unat (sb_size x) div BPB + 1"

text \<open>The disk layout: the log lies before the bitmap, the bitmap before the data blocks, and no
  block of the metadata is free.\<close>

definition fs_layout :: "superblock \<Rightarrow> nat \<Rightarrow> (nat \<Rightarrow> u8 list) \<Rightarrow> bool" where
  "fs_layout x st V \<longleftrightarrow> unat (sb_size x) < 2 ^ 31 \<and> data_start x < 2 ^ 31 \<and> (\<forall>j \<in> log_area st. j < unat (sb_bmapstart x)) \<and>
     (\<forall>j. unat (sb_bmapstart x) \<le> j \<and> j < data_start x \<longrightarrow> length (V j) = BSIZE) \<and>
     (\<forall>k < unat (sb_size x). blk_free x V k \<longrightarrow> data_start x \<le> k)"

text \<open>The held buffers are neither bitmap blocks nor free blocks.\<close>

definition held_ok :: "superblock \<Rightarrow> (nat \<Rightarrow> u8 list) \<Rightarrow> (nat \<Rightarrow> nat option) \<Rightarrow> bool" where
  "held_ok x V H \<longleftrightarrow> (\<forall>k \<in> ran H. (k < unat (sb_bmapstart x) \<or> data_start x \<le> k) \<and> (k < unat (sb_size x) \<longrightarrow> \<not> blk_free x V k))"

lemma BPB_val: "BPB = 8192"
  by (simp add: BPB_def BSIZE_def)

lemma bmap_block_bounds:
  "k < unat (sb_size x) \<Longrightarrow> unat (sb_bmapstart x) \<le> bmap_block x k \<and> bmap_block x k < data_start x"
  by (auto simp: bmap_block_def data_start_def intro!: le_imp_less_Suc div_le_mono)

lemma unat_BBLOCK:
  assumes "fs_layout x st V" and "unat b < unat (sb_size x)"
  shows "unat (BBLOCK b x) = bmap_block x (unat b)"
proof -
  have "unat (b div of_nat BPB) = unat b div BPB" by (simp add: unat_div BPB_val)
  moreover have "bmap_block x (unat b) < 2 ^ 31"
    using bmap_block_bounds [OF assms(2)] assms(1) by (simp add: fs_layout_def)
  ultimately have "unat (b div of_nat BPB + sb_bmapstart x) = unat b div BPB + unat (sb_bmapstart x)"
    by (subst unat_plus_nowrap) (simp_all add: bmap_block_def)
  then show ?thesis by (simp add: BBLOCK_def bmap_block_def)
qed

lemma bmap_block_usable:
  assumes "fs_layout x st V" and "held_ok x V H" and "k < unat (sb_size x)"
  shows "bmap_block x k < 2 ^ 31" and "bmap_block x k \<notin> log_area st" and "bmap_block x k \<notin> ran H"
    and "length (V (bmap_block x k)) = BSIZE" and "k mod BPB < 8 * length (V (bmap_block x k))"
proof -
  note b = bmap_block_bounds [OF assms(3)]
  show "bmap_block x k < 2 ^ 31" "bmap_block x k \<notin> log_area st" using b assms(1) by (auto simp: fs_layout_def)
  show "bmap_block x k \<notin> ran H" using b assms(2) by (auto simp: held_ok_def)
  show l: "length (V (bmap_block x k)) = BSIZE" using b assms(1) by (auto simp: fs_layout_def)
  show "k mod BPB < 8 * length (V (bmap_block x k))" using l by (simp add: BPB_def BSIZE_def)
qed

text \<open>What marking a block changes.\<close>

lemma blk_free_set:
  assumes "k mod BPB < 8 * length (V (bmap_block x k))"
  shows "blk_free x (V(bmap_block x k := set_bit_at (k mod BPB) (V (bmap_block x k)))) j \<longleftrightarrow> j \<noteq> k \<and> blk_free x V j"
proof (cases "bmap_block x j = bmap_block x k")
  case True
  then have "j div BPB = k div BPB" by (simp add: bmap_block_def)
  then have "j = k \<longleftrightarrow> j mod BPB = k mod BPB" by (metis mult_div_mod_eq)
  then show ?thesis using True bit_clear_set [OF assms] by (auto simp: blk_free_def)
next
  case False
  then show ?thesis by (auto simp: blk_free_def)
qed

lemma blk_free_clear:
  assumes "k mod BPB < 8 * length (V (bmap_block x k))"
  shows "blk_free x (V(bmap_block x k := clear_bit_at (k mod BPB) (V (bmap_block x k)))) j \<longleftrightarrow> j = k \<or> blk_free x V j"
proof (cases "bmap_block x j = bmap_block x k")
  case True
  then have "j div BPB = k div BPB" by (simp add: bmap_block_def)
  then have "j = k \<longleftrightarrow> j mod BPB = k mod BPB" by (metis mult_div_mod_eq)
  then show ?thesis using True bit_clear_clear [OF assms] by (auto simp: blk_free_def)
next
  case False
  then show ?thesis by (auto simp: blk_free_def)
qed

section \<open>Allocation\<close>

lemma find_append: "find P (xs @ ys) = (case find P xs of None \<Rightarrow> find P ys | Some x \<Rightarrow> Some x)"
  by (induction xs) auto

lemma find_shift: "find P [a..<a + m] = map_option (\<lambda>i. a + i) (find (\<lambda>i. P (a + i)) [0..<m])"
proof (induction m)
  case (Suc m)
  then show ?case by (auto simp: find_append split: option.splits)
qed simp

text \<open>The first free block at or after a multiple of \<^verbatim>\<open>BPB\<close>, by bitmap block.\<close>

lemma first_free_split:
  assumes "j * BPB < sz"
  shows "find (blk_free x V) [j * BPB..<sz] =
    (case free_bit (V (unat (sb_bmapstart x) + j)) (min BPB (sz - j * BPB)) of
       Some bi \<Rightarrow> Some (j * BPB + bi) | None \<Rightarrow> find (blk_free x V) [Suc j * BPB..<sz])"
proof -
  let ?m = "min BPB (sz - j * BPB)"
  have "j * BPB + ?m \<le> sz" using assms by simp
  then have "[j * BPB..<sz] = [j * BPB..<j * BPB + ?m] @ [j * BPB + ?m..<sz]"
    using upt_add_eq_append [of "j * BPB" "j * BPB + ?m" "sz - (j * BPB + ?m)"] by simp
  moreover have "[j * BPB + ?m..<sz] = [Suc j * BPB..<sz]" by (simp add: min_def add.commute)
  moreover have "find (blk_free x V) [j * BPB..<j * BPB + ?m] =
      map_option (\<lambda>i. j * BPB + i) (free_bit (V (unat (sb_bmapstart x) + j)) ?m)"
  proof -
    have "find (\<lambda>i. blk_free x V (j * BPB + i)) [0..<?m] = find (bit_clear (V (unat (sb_bmapstart x) + j))) [0..<?m]"
    proof (rule find_cong)
      fix i assume "i \<in> set [0..<?m]"
      then have "i < BPB" by simp
      then show "blk_free x V (j * BPB + i) = bit_clear (V (unat (sb_bmapstart x) + j)) i"
        by (simp add: blk_free_def bmap_block_def)
    qed simp
    then show ?thesis by (simp add: find_shift free_bit_def)
  qed
  ultimately show ?thesis by (simp add: find_append split: option.splits)
qed

text \<open>The contents after block \<open>k\<close> has been taken.\<close>

definition take_block :: "superblock \<Rightarrow> nat \<Rightarrow> (nat \<Rightarrow> u8 list) \<Rightarrow> nat \<Rightarrow> u8 list" where
  "take_block x k V = (V(bmap_block x k := set_bit_at (k mod BPB) (V (bmap_block x k))))(k := replicate BSIZE 0)"

lemma tx_sb: "txo oc p st n V H F s \<Longrightarrow> sb s = sb F"
  by (auto simp: tx_def frame_def)

lemma bzero_run:
  assumes "tx p st n V H F s" and "unat bno < 2 ^ 31" "unat bno \<notin> ran H" "unat bno \<notin> log_area st"
    and "n + card (ran H) < NBUF" "n < LOGBLOCKS"
  shows "\<exists>s'. kseq (bzero ROOTDEV bno) m s = m s' \<and> tx p st (Suc n) (V(unat bno := replicate BSIZE 0)) H F s'"
proof -
  have "kseq (bzero ROOTDEV bno) m = kbind (bread ROOTDEV bno) (\<lambda>b. kbind (kget (\<lambda>s. bdata s b)) (\<lambda>d.
      kseq (kmod (set_bdata b ((\<lambda>_. replicate BSIZE 0) d))) (kseq (log_write b) (kseq (brelse b) m))))"
    by (simp add: bzero_def kseq_def kbind_assoc fun_eq_iff) (simp add: kbind_def split: prod.splits sum.splits)
  then show ?thesis using tx_modify [OF assms, of "\<lambda>_. replicate BSIZE 0" m] by simp
qed

lemma balloc_loop_run:
  assumes t: "tx p st n V H F s" and x: "sb F = x" and lay: "fs_layout x st V" and h: "held_ok x V H"
    and c: "Suc n + card (ran H) < NBUF" "Suc n < LOGBLOCKS" and nb: "nb = (unat (sb_size x) + BPB - 1) div BPB"
    and j: "j \<le> nb"
  shows "\<exists>s'. case find (blk_free x V) [j * BPB..<unat (sb_size x)] of
      None \<Rightarrow> balloc_loop ROOTDEV (map (\<lambda>i. i * BPB) [j..<nb]) s = (Inr 0, s') \<and> tx p st n V H F s'
    | Some k \<Rightarrow> balloc_loop ROOTDEV (map (\<lambda>i. i * BPB) [j..<nb]) s = (Inr (of_nat k), s') \<and>
        tx p st (n + 2) (take_block x k V) H F s'"
  using t j
proof (induction "nb - j" arbitrary: j s)
  case 0
  have "unat (sb_size x) \<le> nb * BPB" unfolding nb BPB_val by linarith
  then show ?case using 0 by (intro exI [of _ s]) (simp add: not_less)
next
  case (Suc d)
  let ?sz = "unat (sb_size x)"
  have jn: "j < nb" using Suc by simp
  then have lt: "j * BPB < ?sz" unfolding nb BPB_val by linarith
  have bl: "balloc_loop ROOTDEV (map (\<lambda>i. i * BPB) [j..<nb]) = balloc_loop ROOTDEV (j * BPB # map (\<lambda>i. i * BPB) [Suc j..<nb])"
    using jn by (simp add: upt_rec)
  have jb: "unat (of_nat (j * BPB) :: u32) = j * BPB"
    using lt lay by (intro unat_block) (simp add: fs_layout_def)
  have bb: "unat (BBLOCK (of_nat (j * BPB)) x) = unat (sb_bmapstart x) + j"
    using unat_BBLOCK [OF lay, of "of_nat (j * BPB)"] jb lt by (simp add: bmap_block_def BPB_val)
  have us: "bmap_block x (j * BPB) = unat (sb_bmapstart x) + j" by (simp add: bmap_block_def BPB_val)
  note u = bmap_block_usable [OF lay h lt, unfolded us]
  let ?m = "min BPB (?sz - j * BPB)" and ?k = "unat (sb_bmapstart x) + j"
  have sx: "sb s = x" using tx_sb [OF Suc.prems(1)] x by simp
  obtain b t where t: "bread ROOTDEV (BBLOCK (of_nat (j * BPB)) x) s = (Inr b, t)" "tx p st n V (H(b \<mapsto> ?k)) F t"
      "H b = None" "bdata t b = V ?k"
    using tx_bread [OF Suc.prems(1), of "BBLOCK (of_nat (j * BPB)) x"] bb u c(1) by auto
  have he: "(H(b \<mapsto> ?k))(b := None) = H" using t(3) by (simp add: fun_eq_iff)
  show ?case
  proof (cases "free_bit (V (unat (sb_bmapstart x) + j)) ?m")
    case None
    obtain w where w: "brelse b t = (Inr (), w)" "tx p st n V H F w"
      using tx_brelse [OF t(2), of b ?k] he by auto
    have "balloc_loop ROOTDEV (map (\<lambda>i. i * BPB) [j..<nb]) s = balloc_loop ROOTDEV (map (\<lambda>i. i * BPB) [Suc j..<nb]) w"
      using t(1,4) w(1) None sx by (simp add: bl)
    moreover have "find (blk_free x V) [j * BPB..<?sz] = find (blk_free x V) [Suc j * BPB..<?sz]"
      using first_free_split [OF lt] None by simp
    moreover note Suc.hyps(1) [of "Suc j" w]
    ultimately show ?thesis using w(2) Suc.hyps(2) jn by (simp cong: option.case_cong)
  next
    case (Some bi)
    let ?kk = "j * BPB + bi"
    have bi: "bi < ?m" "bit_clear (V ?k) bi" using find_SomeD [OF Some [unfolded free_bit_def]] by auto
    have ksz: "?kk < ?sz" "bi < BPB" using bi(1) by auto
    have ku: "unat (of_nat ?kk :: u32) = ?kk" using ksz lay by (intro unat_block) (simp add: fs_layout_def)
    have kb: "bmap_block x ?kk = ?k" "?kk mod BPB = bi" using ksz(2) by (simp_all add: bmap_block_def)
    have fr: "blk_free x V ?kk" using bi(2) kb by (simp add: blk_free_def)
    have kd: "data_start x \<le> ?kk" using fr ksz(1) lay unfolding fs_layout_def by blast
    moreover have "?kk \<notin> ran H" using fr ksz(1) h unfolding held_ok_def by blast
    moreover have "?kk \<notin> log_area st" using kd lay unfolding fs_layout_def data_start_def by fastforce
    ultimately have kn: "data_start x \<le> ?kk" "?kk \<notin> ran H" "?kk \<notin> log_area st" by simp_all
    have "?k \<noteq> ?kk" using kn(1) bmap_block_bounds [OF lt] us by simp
    let ?V = "V(?k := set_bit_at bi (V ?k))"
    obtain u1 where u1: "log_write b (set_bdata b (set_bit_at bi (V ?k)) t) = (Inr (), u1)" "tx p st (Suc n) ?V (H(b \<mapsto> ?k)) F u1"
      using tx_update [OF t(2) _ u(2), of b "set_bit_at bi (V ?k)"] c(2) by auto
    obtain w where w: "brelse b u1 = (Inr (), w)" "tx p st (Suc n) ?V H F w"
      using tx_brelse [OF u1(2), of b ?k] he by auto
    obtain z where z: "kseq (bzero ROOTDEV (of_nat ?kk)) (kret (of_nat ?kk)) w = kret (of_nat ?kk :: u32) z"
        "tx p st (Suc (Suc n)) (?V(?kk := replicate BSIZE 0)) H F z"
      using bzero_run [OF w(2), of "of_nat ?kk" "kret (of_nat ?kk)"] ku kn c ksz lay unfolding fs_layout_def by auto
    have "balloc_loop ROOTDEV (map (\<lambda>i. i * BPB) [j..<nb]) s = (Inr (of_nat ?kk), z)"
      using t(1,4) u1(1) w(1) z(1) Some sx by (simp add: bl)
    moreover have "find (blk_free x V) [j * BPB..<?sz] = Some ?kk" using first_free_split [OF lt] Some by simp
    ultimately show ?thesis using z(2) kb by (intro exI [of _ z]) (simp add: take_block_def)
  qed
qed

lemma balloc_run:
  assumes "tx p st n V H F s" and "sb F = x" and "fs_layout x st V" and "held_ok x V H"
    and "Suc n + card (ran H) < NBUF" "Suc n < LOGBLOCKS"
  shows "\<exists>s'. case find (blk_free x V) [0..<unat (sb_size x)] of
      None \<Rightarrow> balloc ROOTDEV s = (Inr 0, s') \<and> tx p st n V H F s'
    | Some k \<Rightarrow> balloc ROOTDEV s = (Inr (of_nat k), s') \<and> tx p st (n + 2) (take_block x k V) H F s'"
proof -
  have "balloc ROOTDEV s = balloc_loop ROOTDEV (map (\<lambda>i. i * BPB) [0..<(unat (sb_size x) + BPB - 1) div BPB]) s"
    using tx_sb [OF assms(1)] assms(2) by (simp add: balloc_def map_starts_def)
  then show ?thesis using balloc_loop_run [OF assms refl, of 0] by (simp cong: option.case_cong)
qed

text \<open>Taking and returning blocks keeps the layout.\<close>

lemma find_free_block:
  assumes "find (blk_free x V) [0..<unat (sb_size x)] = Some k" and "fs_layout x st V"
  shows "k < unat (sb_size x)" and "blk_free x V k" and "data_start x \<le> k" and "bmap_block x k \<noteq> k" and "k < 2 ^ 31"
    and "bmap_block x k < data_start x" and "k \<notin> log_area st"
    and "k mod BPB < 8 * length (V (bmap_block x k))"
proof -
  have f: "k < unat (sb_size x)" "blk_free x V k" using find_SomeD [OF assms(1)] by auto
  note b = bmap_block_bounds [OF f(1)]
  show "k < unat (sb_size x)" "blk_free x V k" by fact+
  show d: "data_start x \<le> k" using f assms(2) by (simp add: fs_layout_def)
  show "bmap_block x k \<noteq> k" "bmap_block x k < data_start x" "k < 2 ^ 31" using b d f assms(2) by (auto simp: fs_layout_def)
  show "k \<notin> log_area st" using d assms(2) by (auto simp: fs_layout_def data_start_def)
  show "k mod BPB < 8 * length (V (bmap_block x k))" using b assms(2) by (auto simp: fs_layout_def BPB_def BSIZE_def)
qed

lemma take_block_free:
  assumes "find (blk_free x V) [0..<unat (sb_size x)] = Some k" and "fs_layout x st V" and "j < unat (sb_size x)"
  shows "blk_free x (take_block x k V) j \<longleftrightarrow> j \<noteq> k \<and> blk_free x V j"
proof -
  note k = find_free_block [OF assms(1,2)]
  have "bmap_block x j \<noteq> k" using k(3) bmap_block_bounds [OF assms(3)] by simp
  then have "blk_free x (take_block x k V) j = blk_free x (V(bmap_block x k := set_bit_at (k mod BPB) (V (bmap_block x k)))) j"
    by (simp add: blk_free_def take_block_def)
  then show ?thesis using blk_free_set [of k V x j] k(8) by simp
qed

lemma take_block_layout:
  assumes "find (blk_free x V) [0..<unat (sb_size x)] = Some k" and "fs_layout x st V"
  shows "fs_layout x st (take_block x k V)"
proof -
  note k = find_free_block [OF assms]
  have "length (take_block x k V j) = BSIZE" if "unat (sb_bmapstart x) \<le> j" "j < data_start x" for j
    using that assms(2) k(3) by (auto simp: take_block_def fs_layout_def)
  then show ?thesis using assms(2) take_block_free [OF assms] by (simp add: fs_layout_def)
qed

section \<open>Freeing\<close>

definition give_block :: "superblock \<Rightarrow> nat \<Rightarrow> (nat \<Rightarrow> u8 list) \<Rightarrow> nat \<Rightarrow> u8 list" where
  "give_block x k V = V(bmap_block x k := clear_bit_at (k mod BPB) (V (bmap_block x k)))"

lemma bfree_run:
  assumes t: "tx p st n V H F s" and x: "sb F = x" and lay: "fs_layout x st V" and h: "held_ok x V H"
    and c: "n + card (ran H) < NBUF" "n < LOGBLOCKS" and k: "unat b < unat (sb_size x)"
  shows "if blk_free x V (unat b) then fst (bfree ROOTDEV b s) = Inl (Panic ''freeing free block'')
    else \<exists>s'. bfree ROOTDEV b s = (Inr (), s') \<and> tx p st (Suc n) (give_block x (unat b) V) H F s'"
proof -
  let ?k = "bmap_block x (unat b)" and ?i = "unat b mod BPB"
  note u = bmap_block_usable [OF lay h k]
  have sx: "sb s = x" using tx_sb [OF t] x by simp
  obtain bp t where t: "bread ROOTDEV (BBLOCK b x) s = (Inr bp, t)" "tx p st n V (H(bp \<mapsto> ?k)) F t" "H bp = None" "bdata t bp = V ?k"
    using tx_bread [OF t, of "BBLOCK b x"] unat_BBLOCK [OF lay k] u c(1) by auto
  have he: "(H(bp \<mapsto> ?k))(bp := None) = H" using t(3) by (simp add: fun_eq_iff)
  show ?thesis
  proof (cases "blk_free x V (unat b)")
    case True
    then show ?thesis using t(1,4) sx by (simp add: bfree_def blk_free_def)
  next
    case False
    obtain v where v: "log_write bp (set_bdata bp (clear_bit_at ?i (V ?k)) t) = (Inr (), v)"
        "tx p st (Suc n) (give_block x (unat b) V) (H(bp \<mapsto> ?k)) F v"
      using tx_update [OF t(2) _ u(2) c(2), of bp "clear_bit_at ?i (V ?k)"] by (auto simp: give_block_def)
    obtain w where w: "brelse bp v = (Inr (), w)" "tx p st (Suc n) (give_block x (unat b) V) H F w"
      using tx_brelse [OF v(2), of bp ?k] he by auto
    then show ?thesis using False t(1,4) sx v(1) by (simp add: bfree_def blk_free_def)
  qed
qed

lemma give_block_free:
  assumes "fs_layout x st V" and "k < unat (sb_size x)"
  shows "blk_free x (give_block x k V) j \<longleftrightarrow> j = k \<or> blk_free x V j"
proof -
  have "k mod BPB < 8 * length (V (bmap_block x k))"
    using bmap_block_bounds [OF assms(2)] assms(1) by (auto simp: fs_layout_def BPB_def BSIZE_def)
  then show ?thesis using blk_free_clear by (simp add: give_block_def)
qed

lemma give_block_layout:
  assumes "fs_layout x st V" and "k < unat (sb_size x)" and "data_start x \<le> k"
  shows "fs_layout x st (give_block x k V)"
proof -
  have "length (give_block x k V j) = length (V j)" for j by (simp add: give_block_def)
  then show ?thesis using assms give_block_free [OF assms(1,2)] by (auto simp: fs_layout_def)
qed

lemma give_take_block:
  assumes "find (blk_free x V) [0..<unat (sb_size x)] = Some k" and "fs_layout x st V"
  shows "give_block x k (take_block x k V) = V(k := replicate BSIZE 0)"
  using find_free_block [OF assms] clear_set_bit [of "V (bmap_block x k)" "k mod BPB"]
  by (auto simp: give_block_def take_block_def blk_free_def fun_eq_iff)

section \<open>Properties\<close>

text \<open>A small file system for the examples: a log at block 2, the bitmap in block 45, 200 blocks of
  which the first 47 are in use.\<close>

definition demo_sb :: superblock where
  "demo_sb = \<lparr>sb_magic = FSMAGIC, sb_size = 200, sb_nblocks = 154, sb_ninodes = 192, sb_nlog = 31, sb_logstart = 2,
     sb_inodestart = 33, sb_bmapstart = 45\<rparr>"

lemma demo_sb_size [simp]: "sb_size demo_sb = 200"
  by (simp add: demo_sb_def)

definition demo_bitmap :: "u8 list" where
  "demo_bitmap = [255, 255, 255, 255, 255, 127] @ replicate (BSIZE - 6) 0"

definition demo_fs :: kfs where
  "demo_fs = klog.extend (demo_log 0 (zero_disk(45 := demo_bitmap))) \<lparr>sb = demo_sb\<rparr>"

lemma extend_fields [simp]:
  "bufs (klog.extend s e) = bufs s" "hw (klog.extend s e) = hw s" "wal (klog.extend s e) = wal s"
  "proc_table (klog.extend s e) = proc_table s" "bcache_lock (klog.extend s e) = bcache_lock s" "vdev (klog.extend s e) = vdev s"
  by (simp_all add: klog.extend_def)

lemma extend_abs: "abs_cache (klog.extend s e) = abs_cache s"
proof -
  have k: "key (klog.extend s e) = key s" by (simp add: key_def fun_eq_iff)
  then have "buf_of (klog.extend s e) = buf_of s" by (simp add: buf_of_def fun_eq_iff)
  then show ?thesis using k by (simp add: abs_cache_def cong: option.case_cong if_cong)
qed

lemma extend_inv: "cache_inv (klog.extend s e) p = cache_inv s p"
proof -
  have "key (klog.extend s e) = key s" by (simp add: key_def fun_eq_iff)
  then have "buf_ok (klog.extend s e) p = buf_ok s p" "one_buf (klog.extend s e) = one_buf s"
    by (simp_all add: buf_ok_def one_buf_def Let_def fun_eq_iff)
  moreover have "quiet (klog.extend s e) p = quiet s p" "vq_idle (klog.extend s e) = vq_idle s"
    by (simp_all add: quiet_def vq_idle_def klog.extend_def)
  ultimately show ?thesis by (simp add: cache_inv_def)
qed

lemma extend_in_trans: "in_trans (klog.extend s e) p st L = in_trans s p st L"
  by (simp add: in_trans_def log_at_def extend_abs extend_inv)

lemma demo_bitmap_used: "i < 47 \<Longrightarrow> \<not> bit_clear demo_bitmap i"
proof -
  assume i: "i < 47"
  have "list_all (\<lambda>i. \<not> bit_clear [255, 255, 255, 255, 255, 127] i) [0..<47]" by code_simp
  then have "\<not> bit_clear [255, 255, 255, 255, 255, 127] i" using i by (simp add: list_all_iff)
  moreover have "i div 8 < 6" using i by linarith
  ultimately show ?thesis unfolding bit_clear_def demo_bitmap_def by (subst nth_append) simp
qed

lemma demo_layout: "fs_layout demo_sb 2 (zero_disk(45 := demo_bitmap))"
proof -
  have "length demo_bitmap = BSIZE" by (simp add: demo_bitmap_def BSIZE_def)
  moreover have "46 \<le> k" if "k < 200" "blk_free demo_sb (zero_disk(45 := demo_bitmap)) k" for k
    using that demo_bitmap_used [of k] by (fastforce simp: blk_free_def bmap_block_def BPB_val demo_sb_def)
  ultimately show ?thesis
    by (auto simp: fs_layout_def data_start_def demo_sb_def BPB_val log_area_def LOGBLOCKS_def MAXOPBLOCKS_def)
qed

lemma demo_first_free: "find (blk_free demo_sb (zero_disk(45 := demo_bitmap))) [0..<200] = Some 47"
proof -
  let ?P = "blk_free demo_sb (zero_disk(45 := demo_bitmap))"
  have e: "?P k = bit_clear demo_bitmap k" if "k < 200" for k
    using that by (simp add: blk_free_def bmap_block_def BPB_val demo_sb_def)
  have "bit_clear demo_bitmap 47"
    by (simp add: bit_clear_def demo_bitmap_def bit_mask_def)
  then show ?thesis unfolding find_Some_iff using demo_bitmap_used by (intro exI [of _ 47]) (auto simp: e)
qed

lemma demo_has_free: "\<exists>k < unat (sb_size demo_sb). blk_free demo_sb (zero_disk(45 := demo_bitmap)) k"
  using find_SomeD [OF demo_first_free] by (intro exI [of _ 47]) simp

lemma demo_fs_tx: "tx 1 2 0 (zero_disk(45 := demo_bitmap)) Map.empty (frame demo_fs) demo_fs"
proof -
  let ?D = "zero_disk(45 := demo_bitmap)"
  have D: "length (?D 2) = BSIZE" "sint (get32 (?D 2) 0) = 0" using zero_head by simp_all
  have p: "pending (demo_log 0 ?D) 1 2 (demo_blocks 0)" by (rule demo_log_pending) (use D in simp_all)
  have "in_trans (demo_log 0 ?D) 1 2 (demo_blocks 0)"
    by (rule pending_in_trans [OF p]) (simp add: demo_log_fields demo_wal_def lock_idle_def fresh_lock_def)
  then have "in_trans demo_fs 1 2 []" by (simp add: demo_fs_def extend_in_trans demo_blocks_def)
  moreover have "abs_cache demo_fs = abs_cache (demo_log 0 ?D)" "wal demo_fs = demo_wal 0"
    by (simp_all add: demo_fs_def extend_abs demo_log_fields)
  ultimately show ?thesis
    using demo_log_abs [of 0 ?D] D by (auto simp: tx_def demo_wal_def demo_blocks_def intro!: exI [of _ "[]"])
qed

text \<open>C21. The block allocator. Inside a transaction with room for two more blocks in the log and in the
  cache, \<^verbatim>\<open>balloc\<close> returns the lowest-numbered block the bitmap shows as free. Afterwards exactly that
  block has become used, it reads as zeros, it was no metadata block, and every block other than
  it and its bitmap block is unchanged. When no block is free it returns 0 and changes nothing.\<close>

theorem balloc_first_free:
  assumes "tx p st n V H F s" and "sb F = x" and "fs_layout x st V" and "held_ok x V H"
    and "Suc n + card (ran H) < NBUF" "Suc n < LOGBLOCKS"
  shows "\<exists>s' r V'. balloc ROOTDEV s = (Inr r, s') \<and> tx p st (n + 2) V' H F s' \<and> fs_layout x st V' \<and>
    (if \<exists>k < unat (sb_size x). blk_free x V k
     then blk_free x V (unat r) \<and> unat r < unat (sb_size x) \<and> (\<forall>j < unat r. \<not> blk_free x V j) \<and> data_start x \<le> unat r \<and>
       V' (unat r) = replicate BSIZE 0 \<and> (\<forall>j < unat (sb_size x). blk_free x V' j \<longleftrightarrow> j \<noteq> unat r \<and> blk_free x V j) \<and>
       (\<forall>j. j \<noteq> unat r \<and> j \<noteq> bmap_block x (unat r) \<longrightarrow> V' j = V j)
     else r = 0 \<and> V' = V)"
proof (cases "find (blk_free x V) [0..<unat (sb_size x)]")
  case None
  then have "\<not> (\<exists>k < unat (sb_size x). blk_free x V k)" by (auto simp: find_None_iff)
  moreover obtain s' where "balloc ROOTDEV s = (Inr 0, s')" "tx p st n V H F s'"
    using balloc_run [OF assms] None by auto
  moreover from this(2) have "tx p st (n + 2) V H F s'" by (rule tx_mono) simp
  ultimately show ?thesis using assms(3) by (intro exI [of _ s'] exI [of _ 0] exI [of _ V]) auto
next
  case (Some k)
  note k = find_free_block [OF Some assms(3)]
  have u: "unat (of_nat k :: u32) = k" using k(5) by (rule unat_block)
  have ex: "\<exists>k < unat (sb_size x). blk_free x V k" using k(1,2) by blast
  have first: "\<forall>j < k. \<not> blk_free x V j" using Some k(1) by (auto simp: find_Some_iff)
  obtain s' where s': "balloc ROOTDEV s = (Inr (of_nat k), s')" "tx p st (n + 2) (take_block x k V) H F s'"
    using balloc_run [OF assms] Some by auto
  moreover have "take_block x k V j = V j" if "j \<noteq> k" "j \<noteq> bmap_block x k" for j using that by (simp add: take_block_def)
  moreover have "take_block x k V k = replicate BSIZE 0" by (simp add: take_block_def)
  ultimately show ?thesis
    using u ex first k take_block_free [OF Some assms(3)] take_block_layout [OF Some assms(3)]
    by (intro exI [of _ s'] exI [of _ "of_nat k"] exI [of _ "take_block x k V"]) simp
qed

theorem balloc_first_free_witness:
  "\<exists>s'. balloc ROOTDEV demo_fs = (Inr 47, s') \<and> a_view (abs_cache s') 47 = replicate BSIZE 0"
proof -
  have s: "sb (frame demo_fs) = demo_sb" by (simp add: frame_def demo_fs_def klog.extend_def)
  have h: "held_ok demo_sb (zero_disk(45 := demo_bitmap)) Map.empty" "Suc 0 + card (ran (Map.empty :: nat \<Rightarrow> nat option)) < NBUF"
      "Suc 0 < LOGBLOCKS"
    by (simp_all add: held_ok_def NBUF_def LOGBLOCKS_def MAXOPBLOCKS_def)
  obtain s' r V' where r: "balloc ROOTDEV demo_fs = (Inr r, s')" "tx 1 2 (0 + 2) V' Map.empty (frame demo_fs) s'"
      "blk_free demo_sb (zero_disk(45 := demo_bitmap)) (unat r)" "unat r < unat (sb_size demo_sb)" "V' (unat r) = replicate BSIZE 0"
      "\<forall>j < unat r. \<not> blk_free demo_sb (zero_disk(45 := demo_bitmap)) j"
    using balloc_first_free [OF demo_fs_tx s demo_layout h, unfolded if_P [OF demo_has_free]] by blast
  have "find (blk_free demo_sb (zero_disk(45 := demo_bitmap))) [0..<200] = Some (unat r)"
    unfolding find_Some_iff using r(3,4,6) by (intro exI [of _ "unat r"]) auto
  then have "unat r = unat (47 :: u32)" using demo_first_free by simp
  then have "r = 47" by (simp only: unat_inj)
  then show ?thesis using r(1,2,5) by (auto simp: tx_def)
qed

text \<open>Freeing undoes allocating: a block obtained from \<^verbatim>\<open>balloc\<close> can be returned by \<^verbatim>\<open>bfree\<close> without a
  panic, the bitmap is then bit for bit what it was, and returning the block a second time panics
  with "freeing free block".\<close>

theorem balloc_bfree_roundtrip:
  assumes "tx p st n V H F s" and "sb F = x" and "fs_layout x st V" and "held_ok x V H"
    and "n + 3 + card (ran H) < NBUF" "n + 3 < LOGBLOCKS" and "\<exists>k < unat (sb_size x). blk_free x V k"
  shows "\<exists>r s1 s2. balloc ROOTDEV s = (Inr r, s1) \<and> bfree ROOTDEV r s1 = (Inr (), s2) \<and>
    tx p st (n + 3) (V(unat r := replicate BSIZE 0)) H F s2 \<and>
    fst (bfree ROOTDEV r s2) = Inl (Panic ''freeing free block'')"
proof -
  obtain k where f: "find (blk_free x V) [0..<unat (sb_size x)] = Some k"
    using assms(7) by (cases "find (blk_free x V) [0..<unat (sb_size x)]") (auto simp: find_None_iff)
  note k = find_free_block [OF f assms(3)]
  have u: "unat (of_nat k :: u32) = k" using k(5) by (rule unat_block)
  obtain s1 where s1: "balloc ROOTDEV s = (Inr (of_nat k), s1)" "tx p st (n + 2) (take_block x k V) H F s1"
    using balloc_run [OF assms(1-4)] assms(5,6) f by auto
  note tf = take_block_free [OF f assms(3)] and tl = take_block_layout [OF f assms(3)]
  have h1: "held_ok x (take_block x k V) H" using assms(4) tf unfolding held_ok_def by blast
  have nf: "\<not> blk_free x (take_block x k V) k" using tf k(1) by simp
  obtain s2 where s2: "bfree ROOTDEV (of_nat k) s1 = (Inr (), s2)" "tx p st (n + 3) (V(k := replicate BSIZE 0)) H F s2"
    using bfree_run [OF s1(2) assms(2) tl h1, of "of_nat k"] assms(5,6) k(1) u nf give_take_block [OF f assms(3)]
    by (auto simp: numeral_3_eq_3)
  have gl: "fs_layout x st (V(k := replicate BSIZE 0))" and gf: "blk_free x (V(k := replicate BSIZE 0)) j \<longleftrightarrow> j = k \<or> blk_free x (take_block x k V) j" for j
    using give_block_layout [OF tl k(1,3)] give_block_free [OF tl k(1)] give_take_block [OF f assms(3)] by simp_all
  have "k \<notin> ran H" using assms(4) k(1,2) by (auto simp: held_ok_def)
  then have h2: "held_ok x (V(k := replicate BSIZE 0)) H" using h1 gf by (auto simp: held_ok_def)
  have "fst (bfree ROOTDEV (of_nat k) s2) = Inl (Panic ''freeing free block'')"
    using bfree_run [OF s2(2) assms(2) gl h2, of "of_nat k"] assms(5,6) k(1) u gf by simp
  then show ?thesis using s1(1) s2 u by auto
qed

theorem balloc_bfree_roundtrip_witness:
  "\<exists>r s1 s2. balloc ROOTDEV demo_fs = (Inr r, s1) \<and> bfree ROOTDEV r s1 = (Inr (), s2) \<and>
    fst (bfree ROOTDEV r s2) = Inl (Panic ''freeing free block'')"
proof -
  have s: "sb (frame demo_fs) = demo_sb" by (simp add: frame_def demo_fs_def klog.extend_def)
  show ?thesis
    using balloc_bfree_roundtrip [OF demo_fs_tx s demo_layout _ _ _ demo_has_free]
    by (auto simp: held_ok_def NBUF_def LOGBLOCKS_def MAXOPBLOCKS_def)
qed

end
