(* ===== verification/Inode.thy ===== *)
theory Inode
  imports BlocksSpec
begin

text \<open>
  The inode layer of \<^verbatim>\<open>kernel/fs.c\<close>. The inode table is \<open>inodes s 0\<close> to \<open>inodes s (NINODE - 1)\<close>, an
  inode pointer is an index into it (\<open>None\<close> for the null pointer where the code tests for it).
  The field \<^verbatim>\<open>used\<close> of \<^verbatim>\<open>struct inode\<close>, which nothing reads, is left out. An on-disk inode is the
  64 bytes of \<^verbatim>\<open>struct dinode\<close> at its place in a block. A run ends where the process has to sleep.
\<close>

section \<open>Structures\<close>

definition NINODE :: nat where "NINODE = 50"
definition NDIRECT :: nat where "NDIRECT = 12"
definition NINDIRECT :: nat where "NINDIRECT = BSIZE div 4"
definition MAXFILE :: nat where "MAXFILE = NDIRECT + NINDIRECT"
definition DINODE_SIZE :: nat where "DINODE_SIZE = 64"
definition IPB :: nat where "IPB = BSIZE div DINODE_SIZE"
definition ROOTINO :: u32 where "ROOTINO = 1"
definition T_DIR :: u16 where "T_DIR = 1"
definition T_FILE :: u16 where "T_FILE = 2"

record inode =
  idev :: u32
  inum :: u32
  iref :: int
  ivalid :: bool
  itype :: u16
  imajor :: u16
  iminor :: u16
  inlink :: u16
  isize :: u32
  iaddrs :: "nat \<Rightarrow> u32"
  ilk :: sleeplock

record kino = kfs +
  itable_lock :: spinlock
  inodes :: "nat \<Rightarrow> inode"

definition upd_inode :: "nat \<Rightarrow> (inode \<Rightarrow> inode) \<Rightarrow> ('a) kino_scheme \<Rightarrow> ('a) kino_scheme" where
  "upd_inode i f s = s\<lparr>inodes := (inodes s)(i := f (inodes s i))\<rparr>"

abbreviation il_get :: "nat \<Rightarrow> ('a) kino_scheme \<Rightarrow> sleeplock" where
  "il_get i \<equiv> (\<lambda>s. ilk (inodes s i))"

abbreviation il_upd :: "nat \<Rightarrow> (sleeplock \<Rightarrow> sleeplock) \<Rightarrow> ('a) kino_scheme \<Rightarrow> ('a) kino_scheme" where
  "il_upd i \<equiv> (\<lambda>f. upd_inode i (\<lambda>x. x\<lparr>ilk := f (ilk x)\<rparr>))"

abbreviation acquire_itable :: "(('a) kino_scheme, unit) km" where
  "acquire_itable \<equiv> acquire itable_lock itable_lock_update"

abbreviation release_itable :: "(('a) kino_scheme, unit) km" where
  "release_itable \<equiv> release itable_lock itable_lock_update"

section \<open>Inodes on disk\<close>

definition get16 :: "u8 list \<Rightarrow> nat \<Rightarrow> u16" where
  "get16 d off = of_nat (le_val (take 2 (drop off d)))"

definition put16 :: "u8 list \<Rightarrow> nat \<Rightarrow> u16 \<Rightarrow> u8 list" where
  "put16 d off v = take off d @ le_bytes 2 (unat v) @ drop (off + 2) d"

definition IBLOCK :: "u32 \<Rightarrow> superblock \<Rightarrow> u32" where
  "IBLOCK i x = i div of_nat IPB + sb_inodestart x"

definition dinode_at :: "u32 \<Rightarrow> nat" where
  "dinode_at i = DINODE_SIZE * (unat i mod IPB)"

definition load_dinode :: "u8 list \<Rightarrow> nat \<Rightarrow> inode \<Rightarrow> inode" where
  "load_dinode d o1 x = x\<lparr>itype := get16 d o1, imajor := get16 d (o1 + 2), iminor := get16 d (o1 + 4),
     inlink := get16 d (o1 + 6), isize := get32 d (o1 + 8), iaddrs := (\<lambda>i. if i \<le> NDIRECT then get32 d (o1 + 12 + 4 * i) else iaddrs x i)\<rparr>"

definition store_dinode :: "inode \<Rightarrow> nat \<Rightarrow> u8 list \<Rightarrow> u8 list" where
  "store_dinode x o1 d = fold (\<lambda>i d. put32 d (o1 + 12 + 4 * i) (iaddrs x i)) [0..<Suc NDIRECT]
     (put32 (put16 (put16 (put16 (put16 d o1 (itype x)) (o1 + 2) (imajor x)) (o1 + 4) (iminor x)) (o1 + 6) (inlink x)) (o1 + 8) (isize x))"

text \<open>\<^verbatim>\<open>memset(dip, 0, sizeof( *dip))\<close> and the type.\<close>

definition fresh_dinode :: "u16 \<Rightarrow> nat \<Rightarrow> u8 list \<Rightarrow> u8 list" where
  "fresh_dinode ty o1 d = put16 (take o1 d @ replicate DINODE_SIZE 0 @ drop (o1 + DINODE_SIZE) d) o1 ty"

definition iinit :: "(('a) kino_scheme, unit) km" where
  "iinit = kseq (initlock itable_lock_update ''itable'') (kfor [0..<NINODE] (\<lambda>i. initsleeplock (il_upd i) ''inode''))"

section \<open>The inode table\<close>

text \<open>The scan of \<^verbatim>\<open>iget\<close>: an entry in use for this inode, or the first empty entry.\<close>

definition find_inode :: "(nat \<Rightarrow> inode) \<Rightarrow> u32 \<Rightarrow> u32 \<Rightarrow> nat option" where
  "find_inode t dev i = find (\<lambda>j. iref (t j) > 0 \<and> idev (t j) = dev \<and> inum (t j) = i) [0..<NINODE]"

definition find_empty :: "(nat \<Rightarrow> inode) \<Rightarrow> nat option" where
  "find_empty t = find (\<lambda>j. iref (t j) = 0) [0..<NINODE]"

definition iget :: "u32 \<Rightarrow> u32 \<Rightarrow> (('a) kino_scheme, nat) km" where
  "iget dev i = kseq acquire_itable (kbind (kget inodes) (\<lambda>t.
     case find_inode t dev i of
       Some j \<Rightarrow> kseq (kmod (upd_inode j (\<lambda>x. x\<lparr>iref := iref x + 1\<rparr>))) (kseq release_itable (kret j))
     | None \<Rightarrow> (case find_empty t of
           None \<Rightarrow> panic ''iget: no inodes''
         | Some j \<Rightarrow> kseq (kmod (upd_inode j (\<lambda>x. x\<lparr>idev := dev, inum := i, iref := 1, ivalid := False\<rparr>)))
             (kseq release_itable (kret j)))))"

definition idup :: "nat \<Rightarrow> (('a) kino_scheme, nat) km" where
  "idup ip = kseq acquire_itable (kseq (kmod (upd_inode ip (\<lambda>x. x\<lparr>iref := iref x + 1\<rparr>))) (kseq release_itable (kret ip)))"

definition iupdate :: "nat \<Rightarrow> (('a) kino_scheme, unit) km" where
  "iupdate ip = kbind (kget (\<lambda>s. (sb s, inodes s ip))) (\<lambda>(sp, x).
     kbind (bread (idev x) (IBLOCK (inum x) sp)) (\<lambda>bp. kbind (kget (\<lambda>s. bdata s bp)) (\<lambda>d.
       kseq (kmod (set_bdata bp (store_dinode x (dinode_at (inum x)) d))) (kseq (log_write bp) (brelse bp)))))"

fun ialloc_loop :: "u32 \<Rightarrow> u16 \<Rightarrow> u32 list \<Rightarrow> (('a) kino_scheme, nat option) km" where
  "ialloc_loop dev ty [] = kret None"
| "ialloc_loop dev ty (i # is) = kbind (kget sb) (\<lambda>sp.
     kbind (bread dev (IBLOCK i sp)) (\<lambda>bp. kbind (kget (\<lambda>s. bdata s bp)) (\<lambda>d.
       if get16 d (dinode_at i) = 0
       then kseq begin_op
         (kseq (kmod (set_bdata bp (fresh_dinode ty (dinode_at i) d)))
           (kseq (log_write bp) (kseq (brelse bp) (kseq end_op (kbind (iget dev i) (\<lambda>j. kret (Some j)))))))
       else kseq (brelse bp) (ialloc_loop dev ty is))))"

definition ialloc :: "u32 \<Rightarrow> u16 \<Rightarrow> (('a) kino_scheme, nat option) km" where
  "ialloc dev ty = kbind (kget (\<lambda>s. sb_ninodes (sb s))) (\<lambda>n. ialloc_loop dev ty (map of_nat [1..<unat n]))"

definition ilock :: "nat option \<Rightarrow> (('a) kino_scheme, unit) km" where
  "ilock p = (case p of None \<Rightarrow> panic ''ilock'' | Some ip \<Rightarrow> kbind (kget (\<lambda>s. iref (inodes s ip))) (\<lambda>r.
     if r < 1 then panic ''ilock''
     else kseq (acquiresleep (ChInodeLock ip) (il_get ip) (il_upd ip))
       (kbind (kget (\<lambda>s. (sb s, inodes s ip))) (\<lambda>(sp, x).
         if \<not> ivalid x
         then kbind (bread (idev x) (IBLOCK (inum x) sp)) (\<lambda>bp.
           kseq (kmod (\<lambda>s. upd_inode ip (load_dinode (bdata s bp) (dinode_at (inum x))) s))
             (kseq (brelse bp)
               (kseq (kmod (upd_inode ip (\<lambda>x. x\<lparr>ivalid := True\<rparr>)))
                 (kbind (kget (\<lambda>s. itype (inodes s ip))) (\<lambda>ty.
                   if ty = 0 then panic ''ilock: no type'' else kret ())))))
         else kret ()))))"

definition iunlock :: "nat option \<Rightarrow> (('a) kino_scheme, unit) km" where
  "iunlock p = (case p of None \<Rightarrow> panic ''iunlock'' | Some ip \<Rightarrow>
     kbind (holdingsleep (il_get ip) (il_upd ip)) (\<lambda>h. kbind (kget (\<lambda>s. iref (inodes s ip))) (\<lambda>r.
       if \<not> h \<or> r < 1 then panic ''iunlock'' else releasesleep (ChInodeLock ip) (il_get ip) (il_upd ip))))"

section \<open>Blocks of a file\<close>

text \<open>An entry of the address array, allocated when it is empty.\<close>

definition bmap_slot :: "nat \<Rightarrow> nat \<Rightarrow> (('a) kino_scheme, u32) km" where
  "bmap_slot ip i = kbind (kget (\<lambda>s. inodes s ip)) (\<lambda>x.
     if iaddrs x i = 0
     then kbind (balloc (idev x)) (\<lambda>a. if a = 0 then kret 0
       else kseq (kmod (upd_inode ip (\<lambda>x. x\<lparr>iaddrs := (iaddrs x)(i := a)\<rparr>))) (kret a))
     else kret (iaddrs x i))"

text \<open>An entry of the indirect block in buffer \<open>bp\<close>.\<close>

definition bmap_indirect :: "u32 \<Rightarrow> nat \<Rightarrow> nat \<Rightarrow> (('a) kino_scheme, u32) km" where
  "bmap_indirect dev bp i = kbind (kget (\<lambda>s. get32 (bdata s bp) (4 * i))) (\<lambda>a.
     if a = 0
     then kbind (balloc dev) (\<lambda>a. if a \<noteq> 0
       then kseq (kmod (\<lambda>s. set_bdata bp (put32 (bdata s bp) (4 * i) a) s)) (kseq (log_write bp) (kret a))
       else kret a)
     else kret a)"

definition bmap :: "nat \<Rightarrow> u32 \<Rightarrow> (('a) kino_scheme, u32) km" where
  "bmap ip bn =
     (if unat bn < NDIRECT then bmap_slot ip (unat bn)
      else if unat bn - NDIRECT < NINDIRECT
      then kbind (bmap_slot ip NDIRECT) (\<lambda>a. if a = 0 then kret 0
        else kbind (kget (\<lambda>s. idev (inodes s ip))) (\<lambda>dev. kbind (bread dev a) (\<lambda>bp.
          kbind (bmap_indirect dev bp (unat bn - NDIRECT)) (\<lambda>r. kseq (brelse bp) (kret r)))))
      else panic ''bmap: out of range'')"

definition itrunc :: "nat \<Rightarrow> (('a) kino_scheme, unit) km" where
  "itrunc ip = kseq (kfor [0..<NDIRECT] (\<lambda>i. kbind (kget (\<lambda>s. inodes s ip)) (\<lambda>x.
       if iaddrs x i \<noteq> 0
       then kseq (bfree (idev x) (iaddrs x i)) (kmod (upd_inode ip (\<lambda>x. x\<lparr>iaddrs := (iaddrs x)(i := 0)\<rparr>)))
       else kret ())))
     (kseq (kbind (kget (\<lambda>s. inodes s ip)) (\<lambda>x.
       if iaddrs x NDIRECT \<noteq> 0
       then kbind (bread (idev x) (iaddrs x NDIRECT)) (\<lambda>bp.
         kseq (kfor [0..<NINDIRECT] (\<lambda>j. kbind (kget (\<lambda>s. get32 (bdata s bp) (4 * j))) (\<lambda>a.
             if a \<noteq> 0 then bfree (idev x) a else kret ())))
           (kseq (brelse bp)
             (kseq (bfree (idev x) (iaddrs x NDIRECT)) (kmod (upd_inode ip (\<lambda>x. x\<lparr>iaddrs := (iaddrs x)(NDIRECT := 0)\<rparr>))))))
       else kret ()))
     (kseq (kmod (upd_inode ip (\<lambda>x. x\<lparr>isize := 0\<rparr>))) (iupdate ip)))"

definition iput :: "nat \<Rightarrow> (('a) kino_scheme, unit) km" where
  "iput ip = kseq acquire_itable (kseq (kbind (kget (\<lambda>s. inodes s ip)) (\<lambda>x.
     if iref x = 1 \<and> ivalid x \<and> inlink x = 0
     then kseq (acquiresleep (ChInodeLock ip) (il_get ip) (il_upd ip))
       (kseq release_itable
         (kseq (itrunc ip)
           (kseq (kmod (upd_inode ip (\<lambda>x. x\<lparr>itype := 0\<rparr>)))
             (kseq (iupdate ip)
               (kseq (kmod (upd_inode ip (\<lambda>x. x\<lparr>ivalid := False\<rparr>)))
                 (kseq (releasesleep (ChInodeLock ip) (il_get ip) (il_upd ip)) acquire_itable))))))
     else kret ()))
     (kseq (kmod (upd_inode ip (\<lambda>x. x\<lparr>iref := iref x - 1\<rparr>))) release_itable))"

definition iunlockput :: "nat \<Rightarrow> (('a) kino_scheme, unit) km" where
  "iunlockput ip = kseq (iunlock (Some ip)) (iput ip)"

text \<open>\<^verbatim>\<open>ireclaim\<close>: the loop condition is set by the last statement, so the body runs once.\<close>

definition ireclaim_one :: "u32 \<Rightarrow> u32 \<Rightarrow> (('a) kino_scheme, unit) km" where
  "ireclaim_one dev i = kbind (kget sb) (\<lambda>sp. kbind (bread dev (IBLOCK i sp)) (\<lambda>bp. kbind (kget (\<lambda>s. bdata s bp)) (\<lambda>d.
     kbind (if get16 d (dinode_at i) \<noteq> 0 \<and> get16 d (dinode_at i + 6) = 0
            then kbind (iget dev i) (\<lambda>j. kret (Some j)) else kret None) (\<lambda>p.
       kseq (brelse bp)
         (case p of None \<Rightarrow> kret () | Some ip \<Rightarrow> kseq (ilock (Some ip)) (kseq (iunlock (Some ip)) (iput ip)))))))"

definition ireclaim :: "u32 \<Rightarrow> (('a) kino_scheme, unit) km" where
  "ireclaim dev = kseq begin_op (kbind (kget (\<lambda>s. sb_ninodes (sb s))) (\<lambda>n.
     kseq (kfor (map of_nat [1..<unat n]) (ireclaim_one dev)) end_op))"

record stat =
  st_dev :: u32
  st_ino :: u32
  st_type :: u16
  st_nlink :: u16
  st_size :: u64

definition stati :: "inode \<Rightarrow> stat" where
  "stati x = \<lparr>st_dev = idev x, st_ino = inum x, st_type = itype x, st_nlink = inlink x, st_size = ucast (isize x)\<rparr>"

section \<open>Contents of a file\<close>

text \<open>A kernel address is used as it is; a user address goes through the page table. \<open>either_copyin\<close> returns
  the code and the bytes stored at the destination.\<close>

definition either_copyin :: "bool \<Rightarrow> u64 \<Rightarrow> nat \<Rightarrow> (('a) kpm_scheme, int \<times> u8 list) km" where
  "either_copyin user_src src len =
     (if user_src then copyin src (int len) else kget (\<lambda>s. (0, read_bytes (mem s) src len)))"

definition either_copyout :: "bool \<Rightarrow> u64 \<Rightarrow> u8 list \<Rightarrow> (('a) kpm_scheme, int) km" where
  "either_copyout user_dst dst bs =
     (if user_dst then kbind myproc (\<lambda>p. kbind (kget (\<lambda>s. pagetable (proc_table s p))) (\<lambda>pt. copyout pt dst bs))
      else kseq (kmod (\<lambda>s. s\<lparr>mem := write_bytes (mem s) dst bs\<rparr>)) (kret 0))"

text \<open>The pieces a transfer of \<open>n\<close> bytes at offset \<open>off\<close> falls into: one piece per block.\<close>

function chunks :: "nat \<Rightarrow> nat \<Rightarrow> (nat \<times> nat) list" where
  "chunks off n = (if n = 0 then [] else
     let m = min n (BSIZE - off mod BSIZE) in (off, m) # chunks (off + m) (n - m))"
  by pat_completeness auto
termination
  by (relation "measure snd") (auto simp: BSIZE_def)

declare chunks.simps [simp del]

fun readi_loop :: "nat \<Rightarrow> bool \<Rightarrow> u64 \<Rightarrow> nat \<Rightarrow> (nat \<times> nat) list \<Rightarrow> (('a) kino_scheme, int) km" where
  "readi_loop ip user_dst dst tot [] = kret (sint (of_nat tot :: u32))"
| "readi_loop ip user_dst dst tot ((off, m) # cs) = kbind (bmap ip (of_nat (off div BSIZE))) (\<lambda>a.
     if a = 0 then kret (sint (of_nat tot :: u32))
     else kbind (kget (\<lambda>s. idev (inodes s ip))) (\<lambda>dev. kbind (bread dev a) (\<lambda>bp. kbind (kget (\<lambda>s. bdata s bp)) (\<lambda>d.
       kbind (either_copyout user_dst (dst + of_nat tot) (take m (drop (off mod BSIZE) d))) (\<lambda>r.
         kseq (brelse bp) (if r = - 1 then kret (- 1) else readi_loop ip user_dst dst (tot + m) cs))))))"

definition readi :: "nat \<Rightarrow> bool \<Rightarrow> u64 \<Rightarrow> u32 \<Rightarrow> u32 \<Rightarrow> (('a) kino_scheme, int) km" where
  "readi ip user_dst dst off n = kbind (kget (\<lambda>s. isize (inodes s ip))) (\<lambda>sz.
     if off > sz \<or> off + n < off then kret 0
     else readi_loop ip user_dst dst 0 (chunks (unat off) (unat (if off + n > sz then sz - off else n))))"

definition put_bytes :: "nat \<Rightarrow> u8 list \<Rightarrow> u8 list \<Rightarrow> u8 list" where
  "put_bytes off bs d = take off d @ bs @ drop (off + length bs) d"

text \<open>The loop of \<^verbatim>\<open>writei\<close> returns the number of bytes written.\<close>

fun writei_loop :: "nat \<Rightarrow> bool \<Rightarrow> u64 \<Rightarrow> nat \<Rightarrow> (nat \<times> nat) list \<Rightarrow> (('a) kino_scheme, nat) km" where
  "writei_loop ip user_src src tot [] = kret tot"
| "writei_loop ip user_src src tot ((off, m) # cs) = kbind (bmap ip (of_nat (off div BSIZE))) (\<lambda>a.
     if a = 0 then kret tot
     else kbind (kget (\<lambda>s. idev (inodes s ip))) (\<lambda>dev. kbind (bread dev a) (\<lambda>bp.
       kbind (either_copyin user_src (src + of_nat tot) m) (\<lambda>(r, bs).
         kseq (kmod (\<lambda>s. set_bdata bp (put_bytes (off mod BSIZE) bs (bdata s bp)) s))
           (if r = - 1 then kseq (brelse bp) (kret tot)
            else kseq (log_write bp) (kseq (brelse bp) (writei_loop ip user_src src (tot + m) cs)))))))"

definition writei :: "nat \<Rightarrow> bool \<Rightarrow> u64 \<Rightarrow> u32 \<Rightarrow> u32 \<Rightarrow> (('a) kino_scheme, int) km" where
  "writei ip user_src src off n = kbind (kget (\<lambda>s. isize (inodes s ip))) (\<lambda>sz.
     if off > sz \<or> off + n < off then kret (- 1)
     else if unat (off + n) > MAXFILE * BSIZE then kret (- 1)
     else kbind (writei_loop ip user_src src 0 (chunks (unat off) (unat n))) (\<lambda>tot.
       kseq (kbind (kget (\<lambda>s. isize (inodes s ip))) (\<lambda>sz.
         if off + of_nat tot > sz then kmod (upd_inode ip (\<lambda>x. x\<lparr>isize := off + of_nat tot\<rparr>)) else kret ()))
         (kseq (iupdate ip) (kret (sint (of_nat tot :: u32))))))"

end
