(* ===== verification/Dir.thy ===== *)
theory Dir
  imports Inode
begin

text \<open>
  Directories and path names of \<^verbatim>\<open>kernel/fs.c\<close>. A path is the byte array from the pointer on; reading past its
  end is \<open>Undefined\<close>. Local variables that \<^verbatim>\<open>readi\<close> and \<^verbatim>\<open>writei\<close> reach through their address live in
  memory at addresses given by the record \<open>frames\<close>; \<open>fr_name\<close> is what an uninitialised name array
  holds.
\<close>

definition DIRSIZ :: nat where "DIRSIZ = 14"
definition DIRENT_SIZE :: nat where "DIRENT_SIZE = 16"

record frames =
  fr_lookup :: addr
  fr_link :: addr
  fr_unlink :: addr
  fr_name :: carray

section \<open>Path elements\<close>

definition slash :: u8 where "slash = 47"

definition skip_slash :: "carray \<Rightarrow> carray" where
  "skip_slash path = dropWhile (\<lambda>c. c = slash) path"

definition elem_of :: "carray \<Rightarrow> carray" where
  "elem_of s = takeWhile (\<lambda>c. c \<noteq> slash \<and> c \<noteq> 0) s"

definition after_elem :: "carray \<Rightarrow> carray" where
  "after_elem s = dropWhile (\<lambda>c. c \<noteq> slash \<and> c \<noteq> 0) s"

definition put_name :: "carray \<Rightarrow> carray \<Rightarrow> carray" where
  "put_name e name = (if length e \<ge> DIRSIZ then take DIRSIZ e @ drop DIRSIZ name else e @ 0 # drop (length e + 1) name)"

definition skipelem :: "carray \<Rightarrow> carray \<Rightarrow> stop + (carray \<times> carray) option" where
  "skipelem path name =
     (let s = skip_slash path
      in if s = [] then Inl Undefined
         else if hd s = 0 then Inr None
         else let q = after_elem s
              in if q = [] then Inl Undefined
                 else let q' = skip_slash q
                      in if q' = [] then Inl Undefined else Inr (Some (q', put_name (elem_of s) name)))"

lemma skipelem_SomeD:
  assumes "skipelem path name = Inr (Some (q, n))"
  shows "skip_slash path \<noteq> []" "hd (skip_slash path) \<noteq> 0" "q = skip_slash (after_elem (skip_slash path))"
    "n = put_name (elem_of (skip_slash path)) name"
  using assms by (simp_all add: skipelem_def Let_def split: if_split_asm)

lemma skip_slash_hd: "skip_slash path \<noteq> [] \<Longrightarrow> hd (skip_slash path) \<noteq> slash"
  unfolding skip_slash_def by (rule hd_dropWhile [of "\<lambda>c. c = slash"])

lemma skipelem_shorter:
  assumes "skipelem path name = Inr (Some (q, n))"
  shows "length q < length path"
proof -
  note d = skipelem_SomeD [OF assms]
  obtain c r where c: "skip_slash path = c # r" using d(1) by (cases "skip_slash path") auto
  have "length q \<le> length (after_elem (c # r))"
    unfolding d(3) c by (simp only: skip_slash_def length_dropWhile_le)
  also have "\<dots> < length (c # r)"
    using skip_slash_hd [OF d(1)] d(2) c length_dropWhile_le [of "\<lambda>c. c \<noteq> slash \<and> c \<noteq> 0" r] by (simp add: after_elem_def)
  also have "\<dots> \<le> length path" unfolding c [symmetric] skip_slash_def by (rule length_dropWhile_le)
  finally show ?thesis .
qed

text \<open>The successive results of \<^verbatim>\<open>skipelem\<close> on a path, up to the null pointer: the name and the rest of the path. An
  array without a terminator ends in \<open>Undefined\<close>.\<close>

function path_steps :: "carray \<Rightarrow> carray \<Rightarrow> (stop + carray \<times> carray) list" where
  "path_steps path name = (case skipelem path name of
     Inl e \<Rightarrow> [Inl e]
   | Inr None \<Rightarrow> []
   | Inr (Some (q, n)) \<Rightarrow> Inr (n, q) # path_steps q n)"
  by pat_completeness auto
termination
  by (relation "measure (\<lambda>(path, name). length path)") (auto simp: skipelem_shorter)

declare path_steps.simps [simp del]

section \<open>Directory entries\<close>

definition namecmp :: "carray \<Rightarrow> carray \<Rightarrow> int option" where
  "namecmp s t = strncmp s t DIRSIZ"

definition dirent_offs :: "u32 \<Rightarrow> u32 list" where
  "dirent_offs sz = map (\<lambda>i. of_nat (DIRENT_SIZE * i)) [0..<(unat sz + DIRENT_SIZE - 1) div DIRENT_SIZE]"

text \<open>\<^verbatim>\<open>de.inum\<close> and \<^verbatim>\<open>de.name\<close> of an entry at address \<open>de\<close>.\<close>

definition de_inum :: "phys \<Rightarrow> addr \<Rightarrow> u16" where
  "de_inum m de = get16 (read_bytes m de DIRENT_SIZE) 0"

definition de_name :: "phys \<Rightarrow> addr \<Rightarrow> carray" where
  "de_name m de = drop 2 (read_bytes m de DIRENT_SIZE)"

fun dirlookup_loop :: "addr \<Rightarrow> nat \<Rightarrow> carray \<Rightarrow> u32 list \<Rightarrow> (('a) kino_scheme, (nat \<times> u32) option) km" where
  "dirlookup_loop de dp name [] = kret None"
| "dirlookup_loop de dp name (off # os) = kbind (readi dp False de off (of_nat DIRENT_SIZE)) (\<lambda>r.
     if r \<noteq> int DIRENT_SIZE then panic ''dirlookup read''
     else kbind (kget mem) (\<lambda>m.
       if de_inum m de = 0 then dirlookup_loop de dp name os
       else (case namecmp name (de_name m de) of
           None \<Rightarrow> kstop Undefined
         | Some c \<Rightarrow> if c = 0
             then kbind (kget (\<lambda>s. idev (inodes s dp))) (\<lambda>dev. kbind (iget dev (ucast (de_inum m de))) (\<lambda>j. kret (Some (j, off))))
             else dirlookup_loop de dp name os)))"

definition dirlookup :: "addr \<Rightarrow> nat \<Rightarrow> carray \<Rightarrow> (('a) kino_scheme, (nat \<times> u32) option) km" where
  "dirlookup de dp name = kbind (kget (\<lambda>s. inodes s dp)) (\<lambda>x.
     if itype x \<noteq> T_DIR then panic ''dirlookup not DIR'' else dirlookup_loop de dp name (dirent_offs (isize x)))"

text \<open>The scan of \<^verbatim>\<open>dirlink\<close> for an empty entry; without one the offset is the first multiple of the entry size at or
  above the directory size.\<close>

fun dirlink_scan :: "addr \<Rightarrow> nat \<Rightarrow> u32 list \<Rightarrow> u32 \<Rightarrow> (('a) kino_scheme, u32) km" where
  "dirlink_scan de dp [] endoff = kret endoff"
| "dirlink_scan de dp (off # os) endoff = kbind (readi dp False de off (of_nat DIRENT_SIZE)) (\<lambda>r.
     if r \<noteq> int DIRENT_SIZE then panic ''dirlink read''
     else kbind (kget mem) (\<lambda>m. if de_inum m de = 0 then kret off else dirlink_scan de dp os endoff))"

definition dirlink :: "frames \<Rightarrow> nat \<Rightarrow> carray \<Rightarrow> u32 \<Rightarrow> (('a) kino_scheme, int) km" where
  "dirlink fr dp name i = kbind (dirlookup (fr_lookup fr) dp name) (\<lambda>l. case l of
     Some (ip, off) \<Rightarrow> kseq (iput ip) (kret (- 1))
   | None \<Rightarrow> kbind (kget (\<lambda>s. isize (inodes s dp))) (\<lambda>sz. let offs = dirent_offs sz; de = fr_link fr in
       kbind (dirlink_scan de dp offs (of_nat (DIRENT_SIZE * length offs))) (\<lambda>off.
         kbind (kget mem) (\<lambda>m. case strncpy (de_name m de) name DIRSIZ of
             None \<Rightarrow> kstop Undefined
           | Some nm \<Rightarrow> kseq (kmod (\<lambda>s. s\<lparr>mem := write_bytes (mem s) (de + 2) nm\<rparr>))
               (kseq (kmod (\<lambda>s. s\<lparr>mem := write_bytes (mem s) de (le_bytes 2 (unat i))\<rparr>))
                 (kbind (writei dp False de off (of_nat DIRENT_SIZE)) (\<lambda>r.
                   kret (if r \<noteq> int DIRENT_SIZE then - 1 else 0))))))))"

section \<open>Paths\<close>

fun namex_loop :: "frames \<Rightarrow> bool \<Rightarrow> nat \<Rightarrow> carray \<Rightarrow> (stop + carray \<times> carray) list \<Rightarrow> (('a) kino_scheme, nat option \<times> carray) km" where
  "namex_loop fr par ip name [] = (if par then kseq (iput ip) (kret (None, name)) else kret (Some ip, name))"
| "namex_loop fr par ip name (Inl e # ps) = kstop e"
| "namex_loop fr par ip name (Inr (n, q) # ps) =
     kseq (ilock (Some ip)) (kbind (kget (\<lambda>s. itype (inodes s ip))) (\<lambda>ty.
       if ty \<noteq> T_DIR then kseq (iunlockput ip) (kret (None, n))
       else if par \<and> hd q = 0 then kseq (iunlock (Some ip)) (kret (Some ip, n))
       else kbind (dirlookup (fr_lookup fr) ip n) (\<lambda>l. case l of
           None \<Rightarrow> kseq (iunlockput ip) (kret (None, n))
         | Some (nx, off) \<Rightarrow> kseq (iunlockput ip) (namex_loop fr par nx n ps))))"

definition namex :: "frames \<Rightarrow> carray \<Rightarrow> bool \<Rightarrow> carray \<Rightarrow> (('a) kino_scheme, nat option \<times> carray) km" where
  "namex fr path par name = (case path of [] \<Rightarrow> kstop Undefined | c # _ \<Rightarrow>
     kbind (if c = slash then iget ROOTDEV ROOTINO
            else kbind myproc (\<lambda>p. kbind (kget (\<lambda>s. cwd (proc_table s p))) (\<lambda>w. case w of
                None \<Rightarrow> kstop NullDeref | Some ip \<Rightarrow> idup ip)))
       (\<lambda>ip. namex_loop fr par ip name (path_steps path name)))"

definition namei :: "frames \<Rightarrow> carray \<Rightarrow> (('a) kino_scheme, nat option) km" where
  "namei fr path = kbind (namex fr path False (fr_name fr)) (\<lambda>(r, name). kret r)"

definition nameiparent :: "frames \<Rightarrow> carray \<Rightarrow> (('a) kino_scheme, nat option \<times> carray) km" where
  "nameiparent fr path = namex fr path True (fr_name fr)"

section \<open>Creating and removing files\<close>

definition create_new :: "frames \<Rightarrow> nat \<Rightarrow> carray \<Rightarrow> u16 \<Rightarrow> u16 \<Rightarrow> u16 \<Rightarrow> (('a) kino_scheme, nat option) km" where
  "create_new fr dp name ty maj mnr = kbind (kget (\<lambda>s. idev (inodes s dp))) (\<lambda>dev. kbind (ialloc dev ty) (\<lambda>a. case a of
     None \<Rightarrow> panic ''create: ialloc''
   | Some ip \<Rightarrow> kseq (ilock (Some ip))
       (kseq (kmod (upd_inode ip (\<lambda>x. x\<lparr>imajor := maj, iminor := mnr, inlink := 1\<rparr>)))
         (kseq (iupdate ip)
           (kseq (if ty = T_DIR then kseq (kmod (upd_inode dp (\<lambda>x. x\<lparr>inlink := inlink x + 1\<rparr>))) (iupdate dp) else kret ())
             (kbind (kget (\<lambda>s. inum (inodes s ip))) (\<lambda>i. kbind (dirlink fr dp name i) (\<lambda>r.
               if r < 0 then panic ''create: dirlink''
               else kseq (iunlockput dp) (kseq (iunlock (Some ip)) (kseq end_op (kret (Some ip))))))))))))"

definition create :: "frames \<Rightarrow> carray \<Rightarrow> u16 \<Rightarrow> u16 \<Rightarrow> u16 \<Rightarrow> (('a) kino_scheme, nat option) km" where
  "create fr path ty maj mnr = kseq begin_op (kbind (nameiparent fr path) (\<lambda>(d, name). case d of
     None \<Rightarrow> kseq end_op (kret None)
   | Some dp \<Rightarrow> kseq (ilock (Some dp)) (kbind (dirlookup (fr_lookup fr) dp name) (\<lambda>l. case l of
       Some (ip, off) \<Rightarrow> kseq (iunlockput dp) (kseq (ilock (Some ip)) (kbind (kget (\<lambda>s. itype (inodes s ip))) (\<lambda>t.
           if ty = T_FILE \<and> t = T_FILE then kseq (iunlock (Some ip)) (kseq end_op (kret (Some ip)))
           else kseq (iunlockput ip) (kseq end_op (kret None)))))
     | None \<Rightarrow> create_new fr dp name ty maj mnr))))"

definition unlink :: "frames \<Rightarrow> carray \<Rightarrow> (('a) kino_scheme, int) km" where
  "unlink fr path = kseq begin_op (kbind (nameiparent fr path) (\<lambda>(d, name). case d of
     None \<Rightarrow> kseq end_op (kret (- 1))
   | Some dp \<Rightarrow> kseq (ilock (Some dp)) (kbind (dirlookup (fr_lookup fr) dp name) (\<lambda>l. case l of
       None \<Rightarrow> kseq (iunlockput dp) (kseq end_op (kret (- 1)))
     | Some (ip, off) \<Rightarrow> kseq (ilock (Some ip)) (kbind (kget (\<lambda>s. inlink (inodes s ip))) (\<lambda>nl.
         if sint nl < 1 then panic ''unlink: nlink < 1''
         else kseq (kmod (upd_inode ip (\<lambda>x. x\<lparr>inlink := inlink x - 1\<rparr>)))
           (kseq (iupdate ip)
             (kseq (kmod (\<lambda>s. s\<lparr>mem := memset (mem s) (fr_unlink fr) 0 DIRENT_SIZE\<rparr>))
               (kbind (writei dp False (fr_unlink fr) off (of_nat DIRENT_SIZE)) (\<lambda>r.
                 if r \<noteq> int DIRENT_SIZE then panic ''unlink: writei''
                 else kseq (iunlockput ip) (kseq (iunlockput dp) (kseq end_op (kret 0)))))))))))))"

section \<open>Mounting\<close>

text \<open>\<^verbatim>\<open>fsinit\<close> up to the self-test: the listing of the root directory only reads.\<close>

fun list_root :: "addr \<Rightarrow> nat \<Rightarrow> u32 list \<Rightarrow> (('a) kino_scheme, unit) km" where
  "list_root de ip [] = kret ()"
| "list_root de ip (off # os) = kbind (readi ip False de off (of_nat DIRENT_SIZE)) (\<lambda>r.
     if r \<noteq> int DIRENT_SIZE then kret () else list_root de ip os)"

definition fs_mount :: "addr \<Rightarrow> u32 \<Rightarrow> (('a) kino_scheme, unit) km" where
  "fs_mount de dev = kseq (readsb dev) (kbind (kget sb) (\<lambda>x.
     if sb_magic x \<noteq> FSMAGIC then panic ''invalid file system''
     else kseq (initlog (sint dev) (sb_logstart x)) (kseq (ireclaim dev)
       (kbind (iget ROOTDEV ROOTINO) (\<lambda>root. kseq (ilock (Some root)) (kbind (kget (\<lambda>s. inodes s root)) (\<lambda>r.
         kseq (if itype r = T_DIR then list_root de root (dirent_offs (isize r)) else kret ())
           (kseq (iunlock (Some root)) (iput root)))))))))"

end
