(* ===== verification/File.thy ===== *)
theory File
  imports Dir
begin

text \<open>
  Open files, \<^verbatim>\<open>kernel/file.c\<close>, and \<^verbatim>\<open>pipealloc\<close> of \<^verbatim>\<open>kernel/pipe.c\<close>. A file pointer is an index into the
  file table. No driver is ever entered in \<^verbatim>\<open>devsw\<close>; an entry is represented by the value its function
  returns. The boot-time self-test \<^verbatim>\<open>test_filesystem_limits\<close> of \<^verbatim>\<open>kernel/fs.c\<close>, which \<^verbatim>\<open>fsinit\<close> runs, is
  modelled here because it uses the file operations.
\<close>

definition NFILE :: nat where "NFILE = 100"
definition NDEV :: nat where "NDEV = 10"
definition O_RDONLY :: u32 where "O_RDONLY = 0"
definition O_WRONLY :: u32 where "O_WRONLY = 1"
definition O_RDWR :: u32 where "O_RDWR = 2"
definition O_CREATE :: u32 where "O_CREATE = 0x200"

datatype fdtype = FD_NONE | FD_PIPE | FD_INODE | FD_DEVICE

record file_t =
  ftype :: fdtype
  fref :: int
  freadable :: bool
  fwritable :: bool
  fpipe :: addr
  fip :: "nat option"
  foff :: u32
  fmajor :: u16

record kfile = kino +
  ftable_lock :: spinlock
  files :: "nat \<Rightarrow> file_t"
  devsw_read :: "nat \<Rightarrow> (u64 \<Rightarrow> int \<Rightarrow> int) option"
  devsw_write :: "nat \<Rightarrow> (u64 \<Rightarrow> int \<Rightarrow> int) option"

definition upd_file :: "nat \<Rightarrow> (file_t \<Rightarrow> file_t) \<Rightarrow> ('a) kfile_scheme \<Rightarrow> ('a) kfile_scheme" where
  "upd_file f g s = s\<lparr>files := (files s)(f := g (files s f))\<rparr>"

abbreviation acquire_ftable :: "(('a) kfile_scheme, unit) km" where
  "acquire_ftable \<equiv> acquire ftable_lock ftable_lock_update"

abbreviation release_ftable :: "(('a) kfile_scheme, unit) km" where
  "release_ftable \<equiv> release ftable_lock ftable_lock_update"

definition deref :: "'p option \<Rightarrow> ('s, 'p) km" where
  "deref p = (case p of None \<Rightarrow> kstop NullDeref | Some x \<Rightarrow> kret x)"

section \<open>The file table\<close>

definition fileinit :: "(('a) kfile_scheme, unit) km" where
  "fileinit = initlock ftable_lock_update ''ftable''"

definition find_file :: "(nat \<Rightarrow> file_t) \<Rightarrow> nat option" where
  "find_file t = find (\<lambda>f. fref (t f) = 0) [0..<NFILE]"

definition filealloc :: "(('a) kfile_scheme, nat option) km" where
  "filealloc = kseq acquire_ftable (kbind (kget files) (\<lambda>t. case find_file t of
     Some f \<Rightarrow> kseq (kmod (upd_file f (\<lambda>x. x\<lparr>fref := 1\<rparr>))) (kseq release_ftable (kret (Some f)))
   | None \<Rightarrow> kseq release_ftable (kret None)))"

definition filedup :: "nat \<Rightarrow> (('a) kfile_scheme, nat) km" where
  "filedup f = kseq acquire_ftable (kbind (kget (\<lambda>s. fref (files s f))) (\<lambda>r.
     if r < 1 then panic ''filedup''
     else kseq (kmod (upd_file f (\<lambda>x. x\<lparr>fref := fref x + 1\<rparr>))) (kseq release_ftable (kret f))))"

definition fileopen :: "nat \<Rightarrow> bool \<Rightarrow> bool \<Rightarrow> (('a) kfile_scheme, nat option) km" where
  "fileopen ip readable writable = kbind filealloc (\<lambda>r. case r of
     None \<Rightarrow> kret None
   | Some f \<Rightarrow> kseq (kmod (upd_file f (\<lambda>x. x\<lparr>ftype := FD_INODE\<rparr>)))
       (kbind (idup ip) (\<lambda>ip'. kseq (kmod (upd_file f (\<lambda>x. x\<lparr>fip := Some ip', freadable := readable, fwritable := writable, foff := 0\<rparr>)))
         (kret (Some f)))))"

definition fileclose :: "nat \<Rightarrow> (('a) kfile_scheme, unit) km" where
  "fileclose f = kseq acquire_ftable (kbind (kget (\<lambda>s. files s f)) (\<lambda>x0.
     if fref x0 < 1 then panic ''fileclose''
     else kseq (kmod (upd_file f (\<lambda>x. x\<lparr>fref := fref x - 1\<rparr>))) (kbind (kget (\<lambda>s. files s f)) (\<lambda>ff.
       if fref ff > 0 then release_ftable
       else kseq (kmod (upd_file f (\<lambda>x. x\<lparr>fref := 0, ftype := FD_NONE\<rparr>)))
         (kseq release_ftable
           (case ftype ff of
              FD_PIPE \<Rightarrow> pipeclose (fpipe ff) (fwritable ff)
            | FD_INODE \<Rightarrow> kbind (deref (fip ff)) iput
            | FD_DEVICE \<Rightarrow> kbind (deref (fip ff)) iput
            | FD_NONE \<Rightarrow> kret ()))))))"

definition filelock :: "nat \<Rightarrow> (('a) kfile_scheme, unit) km" where
  "filelock f = kbind (kget (\<lambda>s. files s f)) (\<lambda>x. if ftype x = FD_INODE \<or> ftype x = FD_DEVICE then ilock (fip x) else kret ())"

definition fileunlock :: "nat \<Rightarrow> (('a) kfile_scheme, unit) km" where
  "fileunlock f = kbind (kget (\<lambda>s. files s f)) (\<lambda>x. if ftype x = FD_INODE \<or> ftype x = FD_DEVICE then iunlock (fip x) else kret ())"

text \<open>The driver of a major number, if it is in range and set.\<close>

definition dev_entry :: "u16 \<Rightarrow> (nat \<Rightarrow> 'd option) \<Rightarrow> 'd option" where
  "dev_entry maj sw = (if sint maj < 0 \<or> sint maj \<ge> int NDEV then None else sw (unat maj))"

definition fileread :: "nat \<Rightarrow> u64 \<Rightarrow> int \<Rightarrow> (('a) kfile_scheme, int) km" where
  "fileread f a n = kbind (kget (\<lambda>s. files s f)) (\<lambda>x.
     if \<not> freadable x then kret (- 1)
     else (case ftype x of
         FD_PIPE \<Rightarrow> piperead (fpipe x) a n
       | FD_DEVICE \<Rightarrow> kbind (kget devsw_read) (\<lambda>sw. case dev_entry (fmajor x) sw of None \<Rightarrow> kret (- 1) | Some d \<Rightarrow> kret (d a n))
       | FD_INODE \<Rightarrow> kbind (deref (fip x)) (\<lambda>ip. kbind (holdingsleep (il_get ip) (il_upd ip)) (\<lambda>h.
           if \<not> h then kret (- 1)
           else kbind (readi ip False a (foff x) (word_of_int n)) (\<lambda>r.
             kseq (if r > 0 then kmod (upd_file f (\<lambda>x. x\<lparr>foff := foff x + word_of_int r\<rparr>)) else kret ()) (kret r))))
       | FD_NONE \<Rightarrow> panic ''fileread''))"

text \<open>The pieces a transfer of \<open>n\<close> bytes is cut into when one step moves at most \<open>lim\<close> bytes: start and length.\<close>

function pieces :: "nat \<Rightarrow> nat \<Rightarrow> nat \<Rightarrow> (nat \<times> nat) list" where
  "pieces lim i n = (if n = 0 \<or> lim = 0 then [] else let m = min n lim in (i, m) # pieces lim (i + m) (n - m))"
  by pat_completeness auto
termination
  by (relation "measure (\<lambda>(lim, i, n). n)") auto

declare pieces.simps [simp del]

definition write_max :: nat where
  "write_max = ((MAXOPBLOCKS - 1 - 1 - 2) div 2) * BSIZE"

text \<open>The loop of \<^verbatim>\<open>filewrite\<close>: whether every piece has been written.\<close>

fun filewrite_loop :: "nat \<Rightarrow> nat \<Rightarrow> u64 \<Rightarrow> (nat \<times> nat) list \<Rightarrow> (('a) kfile_scheme, bool) km" where
  "filewrite_loop f ip a [] = kret True"
| "filewrite_loop f ip a ((i, m) # ps) = kbind (kget (\<lambda>s. foff (files s f))) (\<lambda>off.
     kbind (writei ip False (a + of_nat i) off (of_nat m)) (\<lambda>r.
       kseq (if r > 0 then kmod (upd_file f (\<lambda>x. x\<lparr>foff := foff x + word_of_int r\<rparr>)) else kret ())
         (if r \<noteq> int m then kret False else filewrite_loop f ip a ps)))"

definition filewrite :: "nat \<Rightarrow> u64 \<Rightarrow> int \<Rightarrow> (('a) kfile_scheme, int) km" where
  "filewrite f a n = kbind (kget (\<lambda>s. files s f)) (\<lambda>x.
     if \<not> fwritable x then kret (- 1)
     else (case ftype x of
         FD_PIPE \<Rightarrow> pipewrite (fpipe x) a n
       | FD_DEVICE \<Rightarrow> kbind (kget devsw_write) (\<lambda>sw. case dev_entry (fmajor x) sw of None \<Rightarrow> kret (- 1) | Some d \<Rightarrow> kret (d a n))
       | FD_INODE \<Rightarrow> kbind (deref (fip x)) (\<lambda>ip. kbind (holdingsleep (il_get ip) (il_upd ip)) (\<lambda>h.
           if \<not> h then kret (- 1)
           else if n < 0 then kret (- 1)
           else kbind (filewrite_loop f ip a (pieces write_max 0 (nat n))) (\<lambda>ok. kret (if ok then n else - 1))))
       | FD_NONE \<Rightarrow> panic ''filewrite''))"

section \<open>Operations in a transaction\<close>

definition open_file :: "nat \<Rightarrow> bool \<Rightarrow> bool \<Rightarrow> (('a) kfile_scheme, nat option) km" where
  "open_file ip readable writable = kseq begin_op (kbind (fileopen ip readable writable) (\<lambda>f. kseq end_op (kret f)))"

definition close :: "nat \<Rightarrow> (('a) kfile_scheme, unit) km" where
  "close f = kseq begin_op (kseq (fileclose f) end_op)"

definition read :: "nat \<Rightarrow> u64 \<Rightarrow> int \<Rightarrow> (('a) kfile_scheme, int) km" where
  "read f a n = kseq begin_op (kseq (filelock f) (kbind (fileread f a n) (\<lambda>r. kseq (fileunlock f) (kseq end_op (kret r)))))"

definition write_file :: "nat \<Rightarrow> u64 \<Rightarrow> int \<Rightarrow> (('a) kfile_scheme, int) km" where
  "write_file f a n = kseq begin_op (kseq (filelock f) (kbind (filewrite f a n) (\<lambda>r. kseq (fileunlock f) (kseq end_op (kret r)))))"

section \<open>Descriptors\<close>

definition fdalloc :: "nat \<Rightarrow> (('a) kfile_scheme, int) km" where
  "fdalloc f = kbind myproc (\<lambda>p. kbind (kget (\<lambda>s. ofile (proc_table s p))) (\<lambda>t.
     case find (\<lambda>fd. t fd = None) [3..<NOFILE] of
       None \<Rightarrow> kret (- 1)
     | Some fd \<Rightarrow> kseq (kmod (upd_proc p (\<lambda>x. x\<lparr>ofile := (ofile x)(fd := Some f)\<rparr>))) (kret (int fd))))"

definition fdget :: "int \<Rightarrow> (('a) kfile_scheme, nat option) km" where
  "fdget fd = kbind myproc (\<lambda>p. kbind (kget (\<lambda>s. ofile (proc_table s p))) (\<lambda>t.
     kret (if fd < 0 \<or> fd \<ge> int NOFILE then None else t (nat fd))))"

definition ker_open :: "frames \<Rightarrow> carray \<Rightarrow> u32 \<Rightarrow> (('a) kfile_scheme, int) km" where
  "ker_open fr path omode =
     kbind (if omode AND O_CREATE \<noteq> 0 then create fr path T_FILE 0 0
            else kbind (namei fr path) (\<lambda>r. case r of
                None \<Rightarrow> kret None
              | Some ip \<Rightarrow> kseq (ilock (Some ip)) (kbind (kget (\<lambda>s. itype (inodes s ip))) (\<lambda>t.
                  if t = T_DIR \<and> omode \<noteq> O_RDONLY then kseq (iunlockput ip) (kret None) else kret (Some ip)))))
       (\<lambda>r. case r of
          None \<Rightarrow> kret (- 1)
        | Some ip \<Rightarrow> kbind (open_file ip (omode AND O_WRONLY = 0) (omode AND O_WRONLY \<noteq> 0 \<or> omode AND O_RDWR \<noteq> 0)) (\<lambda>o1. case o1 of
            None \<Rightarrow> kbind (kget (\<lambda>s. iref (inodes s ip))) (\<lambda>rf.
              kseq (if rf = 1 then iunlockput ip else kseq (iunlock (Some ip)) (iput ip)) (kret (- 1)))
          | Some f \<Rightarrow> kbind (fdalloc f) (\<lambda>fd.
              if fd < 0 then kseq (close f) (kret (- 1))
              else kseq (if omode AND O_CREATE = 0 then iunlock (Some ip) else kret ()) (kret fd))))"

definition ker_close :: "int \<Rightarrow> (('a) kfile_scheme, int) km" where
  "ker_close fd = kbind myproc (\<lambda>p. kbind (fdget fd) (\<lambda>r. case r of
     None \<Rightarrow> kret (- 1)
   | Some f \<Rightarrow> kseq (kmod (upd_proc p (\<lambda>x. x\<lparr>ofile := (ofile x)(nat fd := None)\<rparr>))) (kseq (close f) (kret 0))))"

definition KBUF :: nat where "KBUF = 256"

text \<open>The loops of \<^verbatim>\<open>ker_read\<close> and \<^verbatim>\<open>ker_write\<close>; \<open>kbuf\<close> is the address of the local buffer.\<close>

fun ker_read_loop :: "addr \<Rightarrow> nat \<Rightarrow> u64 \<Rightarrow> nat \<Rightarrow> (nat \<times> nat) list \<Rightarrow> (('a) kfile_scheme, int) km" where
  "ker_read_loop kbuf f a tot [] = kret (int tot)"
| "ker_read_loop kbuf f a tot ((i, m) # ps) = kbind (read f kbuf (int m)) (\<lambda>r.
     if r \<le> 0 then kret (int tot)
     else kbind myproc (\<lambda>p. kbind (kget (\<lambda>s. (pagetable (proc_table s p), read_bytes (mem s) kbuf (nat r)))) (\<lambda>(pt, bs).
       kbind (copyout pt (a + of_nat tot) bs) (\<lambda>c.
         if c < 0 then kret (- 1)
         else if r < int m then kret (int tot + r)
         else ker_read_loop kbuf f a (tot + nat r) ps))))"

definition ker_read :: "addr \<Rightarrow> int \<Rightarrow> u64 \<Rightarrow> int \<Rightarrow> (('a) kfile_scheme, int) km" where
  "ker_read kbuf fd a n = kbind (fdget fd) (\<lambda>r. case r of
     None \<Rightarrow> kret (- 1) | Some f \<Rightarrow> ker_read_loop kbuf f a 0 (pieces KBUF 0 (nat n)))"

fun ker_write_loop :: "addr \<Rightarrow> nat \<Rightarrow> u64 \<Rightarrow> nat \<Rightarrow> (nat \<times> nat) list \<Rightarrow> (('a) kfile_scheme, int) km" where
  "ker_write_loop kbuf f a tot [] = kret (int tot)"
| "ker_write_loop kbuf f a tot ((i, m) # ps) = kbind (copyin (a + of_nat tot) (int m)) (\<lambda>(c, bs).
     kseq (kmod (\<lambda>s. s\<lparr>mem := write_bytes (mem s) kbuf bs\<rparr>))
       (if c < 0 then kret (- 1)
        else kbind (write_file f kbuf (int m)) (\<lambda>r.
          if r \<le> 0 then kret (int tot)
          else if r < int m then kret (int tot + r)
          else ker_write_loop kbuf f a (tot + nat r) ps)))"

definition ker_write :: "addr \<Rightarrow> int \<Rightarrow> u64 \<Rightarrow> int \<Rightarrow> (('a) kfile_scheme, int) km" where
  "ker_write kbuf fd a n = kbind (fdget fd) (\<lambda>r. case r of
     None \<Rightarrow> kret (- 1) | Some f \<Rightarrow> ker_write_loop kbuf f a 0 (pieces KBUF 0 (nat n)))"

definition ker_unlink :: "frames \<Rightarrow> carray \<Rightarrow> (('a) kfile_scheme, int) km" where
  "ker_unlink fr path = unlink fr path"

section \<open>Pipes as files\<close>

definition pipealloc_bad :: "addr \<Rightarrow> nat option \<Rightarrow> nat option \<Rightarrow> (('a) kfile_scheme, (nat \<times> nat) option) km" where
  "pipealloc_bad pi f0 f1 = kseq (if pi \<noteq> 0 then free_page pi else kret ())
     (kseq (case f0 of None \<Rightarrow> kret () | Some f \<Rightarrow> close f)
       (kseq (case f1 of None \<Rightarrow> kret () | Some f \<Rightarrow> close f) (kret None)))"

definition pipealloc :: "(('a) kfile_scheme, (nat \<times> nat) option) km" where
  "pipealloc = kbind filealloc (\<lambda>r0. case r0 of
     None \<Rightarrow> pipealloc_bad 0 None None
   | Some f0 \<Rightarrow> kbind filealloc (\<lambda>r1. case r1 of
       None \<Rightarrow> pipealloc_bad 0 (Some f0) None
     | Some f1 \<Rightarrow> kbind alloc_page (\<lambda>pi.
         if pi = 0 then pipealloc_bad 0 (Some f0) (Some f1)
         else kseq (kmod (upd_pipe pi (\<lambda>p. p\<lparr>readopen := True, writeopen := True, nwrite := 0, nread := 0\<rparr>)))
           (kseq (kmod (upd_file f0 (\<lambda>x. x\<lparr>ftype := FD_PIPE, freadable := True, fwritable := False, fpipe := pi\<rparr>)))
             (kseq (kmod (upd_file f1 (\<lambda>x. x\<lparr>ftype := FD_PIPE, freadable := False, fwritable := True, fpipe := pi\<rparr>)))
               (kret (Some (f0, f1))))))))"

section \<open>Boot\<close>

definition cstr :: "string \<Rightarrow> carray" where
  "cstr xs = map of_char xs @ [0]"

fun limit_writes :: "nat \<Rightarrow> nat \<Rightarrow> addr \<Rightarrow> (('a) kfile_scheme, unit) km" where
  "limit_writes 0 f buffer = kret ()"
| "limit_writes (Suc k) f buffer = kbind (write_file f buffer 1024) (\<lambda>r.
     if r \<noteq> 1024 then kret () else limit_writes k f buffer)"

definition test_filesystem_limits :: "frames \<Rightarrow> addr \<Rightarrow> (('a) kfile_scheme, unit) km" where
  "test_filesystem_limits fr buffer = kbind (create fr (cstr ''/size_test.bin'') T_FILE 0 0) (\<lambda>r. case r of
     None \<Rightarrow> kret ()
   | Some ip \<Rightarrow> kbind (open_file ip True True) (\<lambda>o1. case o1 of
       None \<Rightarrow> iput ip
     | Some f \<Rightarrow> kseq (kmod (\<lambda>s. s\<lparr>mem := memset (mem s) buffer 255 1024\<rparr>))
         (kseq (limit_writes 1024 f buffer)
           (kseq (close f) (kseq (iput ip) (kbind (unlink fr (cstr ''/size_test.bin'')) (\<lambda>_. kret ())))))))"

definition fsinit :: "frames \<Rightarrow> addr \<Rightarrow> addr \<Rightarrow> u32 \<Rightarrow> (('a) kfile_scheme, unit) km" where
  "fsinit fr de buffer dev = kseq (fs_mount de dev) (test_filesystem_limits fr buffer)"

end
