(* ===== verification/AddrSpace.thy ===== *)
theory AddrSpace
  imports PageMap
begin

text \<open>
  \<^verbatim>\<open>uvmcopy\<close> of \<^verbatim>\<open>kernel/vm.c\<close>, the copy of a user address space that \<^verbatim>\<open>fork_proc\<close> makes: every
  mapped page of the old space gets a fresh frame with the same content in the new one.
\<close>

section \<open>Pages of the user half\<close>

lemma bit_px: "bit (px l va) j \<longleftrightarrow> j < 9 \<and> bit va (12 + 9 * l + j)"
proof -
  have "(0x1FF :: u64) = mask 9" by (simp add: mask_eq_exp_minus_1)
  then have "px l va = take_bit 9 (drop_bit (12 + 9 * l) va)" by (simp add: px_def take_bit_eq_mask)
  then show ?thesis by (simp add: bit_simps)
qed

lemma high_bits_0:
  fixes va :: u64
  assumes "unat va < 2 ^ n"
  shows "\<not> bit va (n + k)"
proof -
  have "take_bit n (unat va) = unat va" using assms by (simp add: take_bit_nat_eq_self)
  then have "take_bit n va = va" by (simp only: word_unat_eq_iff unsigned_take_bit_eq)
  then show ?thesis by (metis bit_take_bit_iff not_add_less1)
qed

lemma same_page_inj:
  assumes "same_page 2 va va'" and "page_aligned va" and "page_aligned va'" and "unat va < 2 ^ 39" and "unat va' < 2 ^ 39"
  shows "va = va'"
proof (rule bit_word_eqI)
  fix n assume "n < LENGTH(64)"
  consider "n < 12" | "12 \<le> n" "n < 39" | k where "n = 39 + k" by (metis le_Suc_ex not_le)
  then show "bit va n \<longleftrightarrow> bit va' n"
  proof cases
    case 1
    then show ?thesis using page_aligned_bits [OF assms(2)] page_aligned_bits [OF assms(3)] by simp
  next
    case 2
    define l j where "l = (n - 12) div 9" and "j = (n - 12) mod 9"
    have n: "n = 12 + 9 * l + j" "j < 9" "l \<le> 2" using 2 by (simp_all add: l_def j_def)
    then have "px l va = px l va'" using assms(1) by (simp add: same_page_def)
    then show ?thesis using bit_px [of l va j] bit_px [of l va' j] n by simp
  next
    case 3
    then show ?thesis using high_bits_0 assms(4,5) by blast
  qed
qed

lemma same_page_refl [simp]: "same_page l va va"
  by (simp add: same_page_def)

section \<open>One page\<close>

text \<open>The entry \<^verbatim>\<open>uvmcopy\<close> gives the copy at \<open>x\<close> of a page below \<^verbatim>\<open>0x80000000\<close> with entry \<open>e\<close>.\<close>

definition copy_entry :: "u64 \<Rightarrow> u64 \<Rightarrow> u64 \<Rightarrow> u64" where
  "copy_entry i e x = map_entry i x (ucast (PTE_FLAGS e OR PTE_U)) None"

text \<open>From \<open>s0\<close> to \<open>s\<close> page \<open>va\<close> has been copied; \<open>ps\<close> are the pages still free.\<close>

definition page_copied ::
  "('a) kpm_scheme \<Rightarrow> ('a) kpm_scheme \<Rightarrow> addr \<Rightarrow> addr \<Rightarrow> addr list \<Rightarrow> addr list \<Rightarrow> u64 \<Rightarrow> bool" where
  "page_copied s0 s old new ps0 ps va \<longleftrightarrow>
     (case pt_map (mem s0) 2 old va of
        None \<Rightarrow> pt_map (mem s) 2 new va = None
      | Some e \<Rightarrow> \<exists>x. x \<in> set ps0 \<and> x \<notin> set ps \<and> x \<notin> pt_tabs (mem s) 2 new \<and>
          pt_map (mem s) 2 new va = Some (copy_entry va e x) \<and>
          (\<forall>b. in_range x PGSIZE b \<longrightarrow> mem s b = mem s0 (PTE2PA e + (b - x))))"

text \<open>The old space is apart from the new tables and the free pages: its tables, and the frames it
  maps below \<open>sz\<close>.\<close>

definition old_apart :: "('a) kpm_scheme \<Rightarrow> addr \<Rightarrow> addr \<Rightarrow> addr list \<Rightarrow> u64 \<Rightarrow> bool" where
  "old_apart s0 old new ps0 sz \<longleftrightarrow> pt_wf (mem s0) 2 old \<and>
     pt_tabs (mem s0) 2 old \<inter> (pt_tabs (mem s0) 2 new \<union> set ps0) = {} \<and>
     (\<forall>va e. va < sz \<longrightarrow> pt_map (mem s0) 2 old va = Some e \<longrightarrow> PTE2PA e \<notin> pt_tabs (mem s0) 2 new \<union> set ps0)"

definition uv_inv ::
  "('a) kpm_scheme \<Rightarrow> addr \<Rightarrow> addr \<Rightarrow> addr list \<Rightarrow> u64 \<Rightarrow> u64 \<Rightarrow> ('a) kpm_scheme \<Rightarrow> addr list \<Rightarrow> bool" where
  "uv_inv s0 old new ps0 sz i s ps \<longleftrightarrow> vm_inv s 2 new ps \<and> same_rest s0 s \<and> set ps \<subseteq> set ps0 \<and>
     pt_tabs (mem s) 2 new \<subseteq> pt_tabs (mem s0) 2 new \<union> set ps0 \<and>
     (\<forall>b. (\<forall>x \<in> pt_tabs (mem s0) 2 new \<union> set ps0. \<not> in_range x PGSIZE b) \<longrightarrow> mem s b = mem s0 b) \<and>
     (\<forall>va. page_aligned va \<longrightarrow> va < i \<longrightarrow> page_copied s0 s old new ps0 ps va) \<and>
     (\<forall>va. page_aligned va \<longrightarrow> i \<le> va \<longrightarrow> va < sz \<longrightarrow> pt_map (mem s) 2 new va = None) \<and>
     (\<forall>va. page_aligned va \<longrightarrow> 0x80000000 \<le> va \<longrightarrow> va < 0x8000000000 \<longrightarrow> pt_map (mem s) 2 new va = pt_map (mem s0) 2 new va)"

lemma uv_outside:
  assumes "uv_inv s0 old new ps0 sz i s ps" and pm0: "pm_inv s0 ps0" and wf0: "pt_wf (mem s0) 2 new"
    and "page_aligned y" and "y \<notin> pt_tabs (mem s0) 2 new \<union> set ps0" and "in_range y PGSIZE b"
  shows "mem s b = mem s0 b"
proof -
  have "\<not> in_range x PGSIZE b" if "x \<in> pt_tabs (mem s0) 2 new \<union> set ps0" for x
    using that assms(4-6) pages_apart [of y x b] pt_tabs_aligned [OF wf0, of x] pm_inv_aligned [OF pm0, of x] by (metis UnE)
  then show ?thesis using assms(1) unfolding uv_inv_def by blast
qed

lemma uv_old_same:
  assumes inv: "uv_inv s0 old new ps0 sz i s ps" and pm0: "pm_inv s0 ps0" and wf0: "pt_wf (mem s0) 2 new"
    and old: "old_apart s0 old new ps0 sz"
  shows "pt_map (mem s) 2 old = pt_map (mem s0) 2 old \<and> pt_wf (mem s) 2 old"
proof -
  have wf: "pt_wf (mem s0) 2 old" using old by (simp add: old_apart_def)
  have "mem s b = mem s0 b" if "x \<in> pt_tabs (mem s0) 2 old" "in_range x PGSIZE b" for x b
    using old that pt_tabs_aligned [OF wf that(1)]
    by (intro uv_outside [OF inv pm0 wf0, of x b]) (auto simp: old_apart_def)
  then show ?thesis using pt_frame [OF wf] by blast
qed

lemma next_page:
  assumes "page_aligned i" and "page_aligned va" and "va < i + 4096"
  shows "va \<le> i"
proof (rule ccontr)
  assume "\<not> va \<le> i"
  then have "unat i < unat va" by (simp add: word_le_nat_alt)
  then have "unat i + PGSIZE \<le> unat va" using assms(1,2) by (intro aligned_room) simp_all
  moreover have "unat (i + 4096) \<le> unat i + 4096" by (simp add: unat_word_ariths)
  ultimately show False using assms(3) by (simp add: word_less_nat_alt PGSIZE_def)
qed

lemma uv_inv_advance:
  assumes "vm_inv s 2 new ps" and "same_rest s0 s" and "set ps \<subseteq> set ps0"
    and "pt_tabs (mem s) 2 new \<subseteq> pt_tabs (mem s0) 2 new \<union> set ps0"
    and "\<And>b. (\<forall>x \<in> pt_tabs (mem s0) 2 new \<union> set ps0. \<not> in_range x PGSIZE b) \<Longrightarrow> mem s b = mem s0 b"
    and "\<And>va. page_aligned va \<Longrightarrow> va \<le> i \<Longrightarrow> page_copied s0 s old new ps0 ps va"
    and "\<And>va. page_aligned va \<Longrightarrow> i < va \<Longrightarrow> va < sz \<Longrightarrow> pt_map (mem s) 2 new va = None"
    and high: "\<And>va. page_aligned va \<Longrightarrow> 0x80000000 \<le> va \<Longrightarrow> va < 0x8000000000 \<Longrightarrow> pt_map (mem s) 2 new va = pt_map (mem s0) 2 new va"
    and i: "page_aligned i" "i < i + 4096"
  shows "uv_inv s0 old new ps0 sz (i + 4096) s ps"
proof -
  have "page_copied s0 s old new ps0 ps va" if "page_aligned va" "va < i + 4096" for va
    using assms(6) [OF that(1)] next_page [OF i(1) that] by simp
  moreover have "pt_map (mem s) 2 new va = None" if "page_aligned va" "i + 4096 \<le> va" "va < sz" for va
    using assms(7) [OF that(1) _ that(3)] less_le_trans [OF i(2) that(2)] by simp
  ultimately show ?thesis using assms(1-5) high unfolding uv_inv_def by blast
qed

lemma uv_inv_skip:
  assumes inv: "uv_inv s0 old new ps0 sz i s ps" and i: "i < sz" "page_aligned i" "i < i + 4096"
    and none: "pt_map (mem s0) 2 old i = None"
  shows "uv_inv s0 old new ps0 sz (i + 4096) s ps"
proof (rule uv_inv_advance)
  have "pt_map (mem s) 2 new i = None" using inv i by (simp add: uv_inv_def)
  then have "page_copied s0 s old new ps0 ps i" using none by (simp add: page_copied_def)
  then show "page_copied s0 s old new ps0 ps va" if "page_aligned va" "va \<le> i" for va
    using inv that unfolding uv_inv_def by (cases "va = i") (simp_all add: order.not_eq_order_implies_strict)
qed (use inv i in \<open>simp_all add: uv_inv_def\<close>)

text \<open>Copying one page: the frame is allocated, filled and mapped.\<close>

lemma uv_inv_copy:
  fixes s :: "('a) kpm_scheme"
  assumes inv: "uv_inv s0 old new ps0 sz i s (x # xs)" and pm0: "pm_inv s0 ps0" and wf0: "pt_wf (mem s0) 2 new"
    and old: "old_apart s0 old new ps0 sz" and len: "2 \<le> length xs"
    and i: "i < sz" "page_aligned i" "i < i + 4096" and sz: "sz \<le> 0x80000000"
    and e: "pt_map (mem s0) 2 old i = Some e"
  obtains s1 s' n where "alloc_page s = (Inr x, s1)"
    and "map_page new i x (ucast (PTE_FLAGS e OR PTE_U)) (s1\<lparr>mem := memmove (mem s1) x (PTE2PA e) PGSIZE\<rparr>) = (Inr 0, s')"
    and "n \<le> 2" and "uv_inv s0 old new ps0 sz (i + 4096) s' (drop n xs)"
proof -
  have vm: "vm_inv s 2 new (x # xs)" and rest: "same_rest s0 s" and sub: "set (x # xs) \<subseteq> set ps0"
    and tabs: "pt_tabs (mem s) 2 new \<subseteq> pt_tabs (mem s0) 2 new \<union> set ps0"
    and out: "\<And>b. (\<forall>x \<in> pt_tabs (mem s0) 2 new \<union> set ps0. \<not> in_range x PGSIZE b) \<Longrightarrow> mem s b = mem s0 b"
    and fin: "\<And>va. page_aligned va \<Longrightarrow> va < i \<Longrightarrow> page_copied s0 s old new ps0 (x # xs) va"
    and todo: "\<And>va. page_aligned va \<Longrightarrow> i \<le> va \<Longrightarrow> va < sz \<Longrightarrow> pt_map (mem s) 2 new va = None"
    and high: "\<And>va. page_aligned va \<Longrightarrow> 0x80000000 \<le> va \<Longrightarrow> va < 0x8000000000 \<Longrightarrow> pt_map (mem s) 2 new va = pt_map (mem s0) 2 new va"
    using inv unfolding uv_inv_def by metis+
  have pm: "pm_inv s (x # xs)" and wf: "pt_wf (mem s) 2 new" and dj: "pt_tabs (mem s) 2 new \<inter> set (x # xs) = {}"
    using vm by (simp_all only: vm_inv_def)
  have x: "page_aligned x" "x \<notin> set xs" "x \<notin> pt_tabs (mem s) 2 new" "x \<in> set ps0"
    using pm_inv_aligned [OF pm, of x] pm dj sub by (auto simp: pm_inv_def)
  obtain s1 where s1: "alloc_page s = (Inr x, s1)" "pm_inv s1 xs" "s1 = s\<lparr>mem := mem s1, freelist := freelist s1\<rparr>"
      "\<And>a. \<not> in_range x PGSIZE a \<Longrightarrow> mem s1 a = mem s a"
    using alloc_page_inv [OF pm] by metis
  let ?f = "PTE2PA e"
  have f: "?f \<notin> pt_tabs (mem s0) 2 new \<union> set ps0" using old e i(1) unfolding old_apart_def by blast
  define s2 where "s2 = s1\<lparr>mem := memmove (mem s1) x ?f PGSIZE\<rparr>"
  have mv: "mem s2 b = (if in_range x PGSIZE b then mem s1 (?f + (b - x)) else mem s1 b)" for b
    using memmove_fwd_copied [of x PGSIZE ?f] memmove_bwd_copied [of x PGSIZE ?f] page_room [OF x(1)]
      page_room [OF PTE2PA_aligned, of e]
    by (auto simp: s2_def memmove_def copied_def not_less)
  have fill: "mem s2 b = mem s0 (?f + (b - x))" if "in_range x PGSIZE b" for b
  proof -
    have r: "in_range ?f PGSIZE (?f + (b - x))" using that by (simp add: in_range_def)
    have "?f \<noteq> x" using f x(4) by auto
    then have "mem s1 (?f + (b - x)) = mem s (?f + (b - x))"
      using s1(4) pages_apart [OF PTE2PA_aligned x(1) _ r] by simp
    also have "\<dots> = mem s0 (?f + (b - x))"
      by (rule uv_outside [OF inv pm0 wf0 PTE2PA_aligned f r])
    finally show ?thesis using that mv by simp
  qed
  have keep: "mem s2 b = mem s b" if "\<not> in_range x PGSIZE b" for b using that mv s1(4) by simp
  have keep_page: "mem s2 b = mem s b" if "page_aligned y" "y \<noteq> x" "in_range y PGSIZE b" for y b
    using keep pages_apart [OF that(1) x(1) that(2,3)] by simp
  have fr: "pt_tabs (mem s2) 2 new = pt_tabs (mem s) 2 new \<and> pt_wf (mem s2) 2 new \<and>
      pt_map (mem s2) 2 new = pt_map (mem s) 2 new"
    using x(3) pt_tabs_aligned [OF wf] by (intro pt_frame [OF wf] keep_page) auto
  have "pm_inv s2 xs"
  proof (rule pm_inv_frame [OF s1(2)])
    fix y b assume "y \<in> set xs" "in_range y PGSIZE b"
    then show "mem s2 b = mem s1 b"
      using mv x pm_inv_aligned [OF s1(2), of y] pages_apart [of y x b] by auto
  qed (simp_all add: s2_def)
  then have vm2: "vm_inv s2 2 new xs" using fr dj by (auto simp: vm_inv_def)
  have rest2: "same_rest s s2" using same_rest_mem [OF same_restI [OF s1(3)]] by (simp add: s2_def)
  have lt: "\<not> 0x80000000 \<le> i" using i(1) sz by simp
  then have "may_map s2 i" by simp
  from vm2 len i(2) this show ?thesis
  proof (cases rule: map_page_run [where perm = "ucast (PTE_FLAGS e OR PTE_U)" and pa = x])
    case (other e' s')
    then show ?thesis using fr todo [of i] i by simp
  next
    case (mapped s' n)
    have T: "pt_tabs (mem s') 2 new = pt_tabs (mem s) 2 new \<union> set (take n xs)" using mapped(6) fr by simp
    have sub': "set (take n xs) \<subseteq> set xs" "set (drop n xs) \<subseteq> set xs" by (auto dest: in_set_takeD in_set_dropD)
    have al': "page_aligned y" if "y \<in> pt_tabs (mem s') 2 new" for y
      using pt_tabs_aligned [of "mem s'" 2 new y] mapped(4) that by (simp add: vm_inv_def)
    have page': "mem s' b = mem s2 b" if "page_aligned y" "y \<notin> pt_tabs (mem s') 2 new" "in_range y PGSIZE b" for y b
      using mapped(8) pages_apart [OF that(1) al' _ that(3)] that(2) by metis
    have xT: "x \<notin> pt_tabs (mem s') 2 new" using T x sub' by auto
    have map': "pt_map (mem s') 2 new va = (if same_page 2 i va then Some (copy_entry i e x) else pt_map (mem s) 2 new va)" for va
      using mapped(7) fr todo [of i] i by (simp add: copy_entry_def)
    have other_page: "\<not> same_page 2 i va" if "page_aligned va" "va \<noteq> i" "va < 0x8000000000" for va
      using same_page_inj [of i va] i that lt by (auto simp: word_less_nat_alt word_le_nat_alt)
    have "uv_inv s0 old new ps0 sz (i + 4096) s' (drop n xs)"
    proof (rule uv_inv_advance)
      show "same_rest s0 s'" using same_rest_trans rest rest2 mapped(5) by blast
      show "set (drop n xs) \<subseteq> set ps0" using sub sub' by auto
      show "pt_tabs (mem s') 2 new \<subseteq> pt_tabs (mem s0) 2 new \<union> set ps0" using T tabs sub sub' by auto
      show "mem s' b = mem s0 b" if "\<forall>x \<in> pt_tabs (mem s0) 2 new \<union> set ps0. \<not> in_range x PGSIZE b" for b
      proof -
        have "pt_tabs (mem s') 2 new \<subseteq> pt_tabs (mem s0) 2 new \<union> set ps0" using T tabs sub sub' by auto
        then have "\<forall>x \<in> pt_tabs (mem s') 2 new. \<not> in_range x PGSIZE b" using that by blast
        then have "mem s' b = mem s2 b" using mapped(8) by simp
        also have "\<dots> = mem s b" using keep that x(4) by blast
        finally show ?thesis using out that by simp
      qed
      show "pt_map (mem s') 2 new va = None" if "page_aligned va" "i < va" "va < sz" for va
        using map' [of va] other_page [OF that(1)] that todo [of va] sz by (auto simp: word_less_nat_alt word_le_nat_alt)
      show "pt_map (mem s') 2 new va = pt_map (mem s0) 2 new va" if "page_aligned va" "0x80000000 \<le> va" "va < 0x8000000000" for va
        using map' [of va] other_page [OF that(1) _ that(3)] high [OF that] that(2) lt by auto
      show "page_copied s0 s' old new ps0 (drop n xs) va" if va: "page_aligned va" "va \<le> i" for va
      proof (cases "va = i")
        case True
        have "mem s' b = mem s0 (?f + (b - x))" if "in_range x PGSIZE b" for b
          using page' [OF x(1) xT that] fill [OF that] by simp
        then show ?thesis using True e map' [of i] x xT sub' by (auto simp: page_copied_def)
      next
        case False
        then have lt': "va < i" "va < 0x8000000000"
          using order.not_eq_order_implies_strict [OF False va(2)] lt by (simp_all add: not_le word_less_nat_alt)
        have m: "pt_map (mem s') 2 new va = pt_map (mem s) 2 new va"
          using map' [of va] other_page [OF va(1) False lt'(2)] by simp
        show ?thesis
        proof (cases "pt_map (mem s0) 2 old va")
          case None
          then show ?thesis using fin [OF va(1) lt'(1)] m by (simp add: page_copied_def)
        next
          case (Some e')
          then obtain y where y: "y \<in> set ps0" "y \<notin> set (x # xs)" "y \<notin> pt_tabs (mem s) 2 new"
              "pt_map (mem s) 2 new va = Some (copy_entry va e' y)"
              "\<And>b. in_range y PGSIZE b \<Longrightarrow> mem s b = mem s0 (PTE2PA e' + (b - y))"
            using fin [OF va(1) lt'(1)] by (auto simp: page_copied_def)
          have yal: "page_aligned y" using pm_inv_aligned [OF pm0 y(1)] by simp
          have yT: "y \<notin> pt_tabs (mem s') 2 new" "y \<notin> set (drop n xs)" using y T sub' by auto
          have "mem s' b = mem s0 (PTE2PA e' + (b - y))" if "in_range y PGSIZE b" for b
            using page' [OF yal yT(1) that] keep_page [OF yal _ that] y(2) y(5) [OF that] by auto
          then show ?thesis using Some y(1,4) yT m by (auto simp: page_copied_def)
        qed
      qed
    qed (use mapped(4) i in simp_all)
    then show ?thesis using that [of s1 s' n] s1(1) mapped(2,3) by (simp add: s2_def)
  qed
qed

section \<open>The loop\<close>

definition pages_left :: "u64 \<Rightarrow> u64 \<Rightarrow> nat" where
  "pages_left i sz = (unat sz - unat i + 4095) div 4096"

lemma pages_left_step:
  assumes "i < sz" and "unat (i + 4096) = unat i + 4096"
  shows "pages_left i sz = Suc (pages_left (i + 4096) sz)"
proof -
  define d where "d = unat sz - unat i"
  have d: "0 < d" "unat sz - unat (i + 4096) = d - 4096"
    using assms by (simp_all add: d_def word_less_nat_alt)
  have "(d + 4095) div 4096 = Suc ((d - 4096 + 4095) div 4096)"
  proof (cases "4096 \<le> d")
    case True
    then have "d + 4095 = (d - 4096 + 4095) + 4096" by simp
    then show ?thesis by (simp only: div_add_self2)
  next
    case False
    then have "(d + 4095) div 4096 = 1" using d(1) by (intro div_nat_eqI) simp_all
    then show ?thesis using False by simp
  qed
  then show ?thesis using d by (simp add: pages_left_def flip: d_def)
qed

lemma uvmcopy_loop_run:
  fixes s :: "('a) kpm_scheme"
  assumes "uv_inv s0 old new ps0 sz i s ps" and pm0: "pm_inv s0 ps0" and wf0: "pt_wf (mem s0) 2 new"
    and old: "old_apart s0 old new ps0 sz" and "page_aligned i" and sz: "sz \<le> 0x80000000"
    and "3 * pages_left i sz \<le> length ps"
  shows "\<exists>s' ps' j. uvmcopy_loop old new i sz s = (Inr 0, s') \<and> uv_inv s0 old new ps0 sz j s' ps' \<and> sz \<le> j \<and>
    length ps \<le> length ps' + 3 * pages_left i sz"
  using assms(1,5,7)
proof (induction "unat sz - unat i" arbitrary: i s ps rule: less_induct)
  case less
  show ?case
  proof (cases "i < sz")
    case False
    then have "uvmcopy_loop old new i sz s = (Inr 0, s)" by (subst uvmcopy_loop.simps) simp
    then show ?thesis using less.prems False by (intro exI [of _ s] exI [of _ ps] exI [of _ i]) auto
  next
    case True
    have ui: "unat i < 0x80000000" using True sz by (simp add: word_less_nat_alt word_le_nat_alt)
    then have step: "unat (i + 4096) = unat i + 4096" by (subst unat_plus_nowrap) simp_all
    have i: "i < sz" "page_aligned i" "i < i + 4096" "page_aligned (i + 4096)"
      using True less.prems(2) step by (simp_all add: word_less_nat_alt PGSIZE_def)
    have dec: "unat sz - unat (i + 4096) < unat sz - unat i"
      using True step by (simp add: word_less_nat_alt)
    have left: "3 * pages_left (i + 4096) sz + 3 \<le> length ps"
      using less.prems(3) pages_left_step [OF True step] by simp
    have lk: "pt_map (mem s0) 2 old i = (let a = walk_lookup (mem s) old i
        in if a \<noteq> 0 \<and> pte_valid (load64 (mem s) a) then Some (load64 (mem s) a) else None)"
      using uv_old_same [OF less.prems(1) pm0 wf0 old] pt_map_lookup [of "mem s" 2 old i]
      by (simp add: walk_lookup_eq)
    show ?thesis
    proof (cases "pt_map (mem s0) 2 old i")
      case None
      have "uv_inv s0 old new ps0 sz (i + 4096) s ps" by (rule uv_inv_skip [OF less.prems(1) i(1-3) None])
      then obtain s' ps' j where "uvmcopy_loop old new (i + 4096) sz s = (Inr 0, s')"
          "uv_inv s0 old new ps0 sz j s' ps'" "sz \<le> j" "length ps \<le> length ps' + 3 * pages_left (i + 4096) sz"
        using less.hyps [OF dec _ i(4)] left by (metis add_leD1)
      moreover have "uvmcopy_loop old new i sz s = uvmcopy_loop old new (i + 4096) sz s"
        using True i(3) None lk
        by (subst uvmcopy_loop.simps) (auto simp: Let_def not_less split: if_splits)
      ultimately show ?thesis using pages_left_step [OF True step] by (intro exI [of _ s'] exI [of _ ps'] exI [of _ j]) simp
    next
      case (Some e)
      obtain x xs where ps: "ps = x # xs" using left by (cases ps) auto
      have lt: "i < 0x80000000" using ui by (simp add: word_less_nat_alt)
      obtain s1 s2 n where r: "alloc_page s = (Inr x, s1)"
          "map_page new i x (ucast (PTE_FLAGS e OR PTE_U)) (s1\<lparr>mem := memmove (mem s1) x (PTE2PA e) PGSIZE\<rparr>) = (Inr 0, s2)"
          "n \<le> 2" "uv_inv s0 old new ps0 sz (i + 4096) s2 (drop n xs)"
        using uv_inv_copy [OF less.prems(1) [unfolded ps] pm0 wf0 old _ i(1-3) sz Some] left ps by auto
      have "3 * pages_left (i + 4096) sz \<le> length (drop n xs)" using left ps r(3) by simp
      then obtain s' ps' j where s': "uvmcopy_loop old new (i + 4096) sz s2 = (Inr 0, s')"
          "uv_inv s0 old new ps0 sz j s' ps'" "sz \<le> j" "length (drop n xs) \<le> length ps' + 3 * pages_left (i + 4096) sz"
        using less.hyps [OF dec r(4) i(4)] by metis
      have "x \<noteq> 0" using less.prems(1) ps pm_inv_aligned [of s "x # xs" x] by (auto simp: uv_inv_def vm_inv_def)
      moreover have "walk_lookup (mem s) old i \<noteq> 0" "pte_valid e" "load64 (mem s) (walk_lookup (mem s) old i) = e"
        using Some lk by (auto simp: Let_def split: if_splits)
      ultimately have "uvmcopy_loop old new i sz s = (Inr 0, s')"
        using True i(3) lt r(1,2) s'(1) by (subst uvmcopy_loop.simps) (simp add: Let_def not_less)
      then show ?thesis using s' pages_left_step [OF True step] ps r(3) by (intro exI [of _ s'] exI [of _ ps'] exI [of _ j]) simp
    qed
  qed
qed

lemma uvmcopy_run:
  assumes "vm_inv s 2 new ps" and "old_apart s old new ps sz" and "sz \<le> 0x80000000"
    and "\<forall>va. page_aligned va \<longrightarrow> va < sz \<longrightarrow> pt_map (mem s) 2 new va = None"
    and "3 * pages_left 0 sz \<le> length ps"
  obtains s' ps' where "uvmcopy old new sz s = (Inr 0, s')" and "vm_inv s' 2 new ps'" and "same_rest s s'"
    and "\<And>va. page_aligned va \<Longrightarrow> va < sz \<Longrightarrow> page_copied s s' old new ps ps' va"
    and "pt_map (mem s') 2 old = pt_map (mem s) 2 old" and "pt_wf (mem s') 2 old"
    and "\<And>b. \<forall>x \<in> pt_tabs (mem s) 2 new \<union> set ps. \<not> in_range x PGSIZE b \<Longrightarrow> mem s' b = mem s b"
    and "\<And>va. page_aligned va \<Longrightarrow> 0x80000000 \<le> va \<Longrightarrow> va < 0x8000000000 \<Longrightarrow> pt_map (mem s') 2 new va = pt_map (mem s) 2 new va"
    and "set ps' \<subseteq> set ps" and "length ps \<le> length ps' + 3 * pages_left 0 sz"
    and "pt_tabs (mem s') 2 new \<subseteq> pt_tabs (mem s) 2 new \<union> set ps"
proof -
  have pm: "pm_inv s ps" and wf: "pt_wf (mem s) 2 new" using assms(1) by (simp_all add: vm_inv_def)
  have "same_rest s s" unfolding same_rest_def by (intro exI [of _ "mem s"] exI [of _ "freelist s"]) simp
  then have "uv_inv s old new ps sz 0 s ps" using assms(1,4) by (simp add: uv_inv_def)
  then obtain s' ps' j where r: "uvmcopy_loop old new 0 sz s = (Inr 0, s')" "uv_inv s old new ps sz j s' ps'" "sz \<le> j"
      "length ps \<le> length ps' + 3 * pages_left 0 sz"
    using uvmcopy_loop_run [OF _ pm wf assms(2) _ assms(3)] assms(5) by force
  show ?thesis
  proof (rule that)
    show "uvmcopy old new sz s = (Inr 0, s')" using r(1) by (simp add: uvmcopy_def)
    show "page_copied s s' old new ps ps' va" if "page_aligned va" "va < sz" for va
      using r(2) that less_le_trans [OF that(2) r(3)] unfolding uv_inv_def by metis
    show "pt_map (mem s') 2 old = pt_map (mem s) 2 old" "pt_wf (mem s') 2 old" using uv_old_same [OF r(2) pm wf assms(2)] by simp_all
  qed (use r(2,4) in \<open>simp_all add: uv_inv_def\<close>)
qed

section \<open>Property\<close>

text \<open>C10. \<^verbatim>\<open>uvmcopy\<close> makes an independent copy of the user space: with three free pages for every
  page of the range, an empty destination and a source that is apart from the destination's
  tables and the free pages, it returns 0; every page mapped in the source has in the
  destination a frame of its own, taken from the free pages, with the same 4096 bytes and the
  source's flags plus \<^verbatim>\<open>PTE_U\<close>; unmapped pages stay unmapped; the source's map and memory are
  unchanged.\<close>

theorem uvmcopy_copies:
  assumes "vm_inv s 2 new ps" and "old_apart s old new ps sz" and "sz \<le> 0x80000000"
    and "\<forall>va. page_aligned va \<longrightarrow> va < sz \<longrightarrow> pt_map (mem s) 2 new va = None"
    and "3 * pages_left 0 sz \<le> length ps"
  shows "\<exists>s' ps'. uvmcopy old new sz s = (Inr 0, s') \<and> vm_inv s' 2 new ps' \<and>
    (\<forall>va. page_aligned va \<longrightarrow> va < sz \<longrightarrow> page_copied s s' old new ps ps' va) \<and>
    pt_map (mem s') 2 old = pt_map (mem s) 2 old \<and>
    (\<forall>b. (\<forall>x \<in> pt_tabs (mem s) 2 new \<union> set ps. \<not> in_range x PGSIZE b) \<longrightarrow> mem s' b = mem s b)"
  using assms by (rule uvmcopy_run) blast

text \<open>A parent with one user page at address 0 (frame \<open>0x87000000\<close>), root table \<open>0x80005000\<close>, an empty
  table \<open>0x80004000\<close> for the child, and free pages from \<open>0x80006000\<close> up.\<close>

definition demo_pages :: "addr list" where
  "demo_pages = [0x8000A000, 0x80009000, 0x80008000, 0x80007000, 0x80006000]"

definition demo_five :: kpm where
  "demo_five = demo_kpm\<lparr>freelist := 0x8000A000,
     mem := store64 (store64 (store64 (store64 (\<lambda>_. 0)
       0x80007000 0x80006000) 0x80008000 0x80007000) 0x80009000 0x80008000) 0x8000A000 0x80009000\<rparr>"

definition demo_fork :: kpm where
  "demo_fork = snd (map_page 0x80005000 0 0x87000000 0x16 demo_five)"

lemma demo_five_low: "unat b < 0x80006000 \<Longrightarrow> mem demo_five b = 0"
  by (simp add: demo_five_def store64_outside in_range_nat)

lemma demo_five_inv: "pm_inv demo_five demo_pages"
proof -
  have l6: "load64 (mem demo_five) 0x80006000 = 0"
    by (rule load64_zero) (simp add: demo_five_def store64_outside in_range_nat)
  have "load64 (mem demo_five) 0x8000A000 = 0x80009000" "load64 (mem demo_five) 0x80009000 = 0x80008000"
    "load64 (mem demo_five) 0x80008000 = 0x80007000" "load64 (mem demo_five) 0x80007000 = 0x80006000"
    by (simp_all add: demo_five_def load64_store64_other)
  then have "flist (mem demo_five) 0x8000A000 demo_pages" using l6 by (simp add: demo_pages_def)
  then show ?thesis
    by (simp add: pm_inv_def)
      (simp add: demo_five_def demo_kpm_def kcore.extend_def demo_pages_def page_ok_def PGSIZE_def PHYSTOP_eq)
qed

lemma demo_five_empty:
  assumes "r \<in> {0x80004000, 0x80005000}"
  shows "pt_wf (mem demo_five) 2 r \<and> pt_tabs (mem demo_five) 2 r = {r} \<and> pt_map (mem demo_five) 2 r = (\<lambda>_. None)"
  using assms by (intro pt_empty) (auto simp: PGSIZE_def in_range_nat demo_five_low)

lemma demo_fork_inv:
  "\<exists>ps. vm_inv demo_fork 2 0x80004000 ps \<and> old_apart demo_fork 0x80005000 0x80004000 ps 4096 \<and>
     pt_map (mem demo_fork) 2 0x80004000 = (\<lambda>_. None) \<and> 3 \<le> length ps \<and>
     pt_map (mem demo_fork) 2 0x80005000 0 = Some 0x21C00017"
proof -
  let ?old = "0x80005000 :: addr" and ?new = "0x80004000 :: addr"
  have inv: "vm_inv demo_five 2 ?old demo_pages"
    using demo_five_inv demo_five_empty [of ?old] by (simp add: vm_inv_def demo_pages_def)
  have e: "map_entry 0 0x87000000 0x16 None = 0x21C00017" by code_simp
  have pa: "PTE2PA 0x21C00017 = 0x87000000" by code_simp
  have "2 \<le> length demo_pages" "page_aligned 0" "may_map demo_five 0" by (simp_all add: demo_pages_def)
  with inv show ?thesis
  proof (cases rule: map_page_run [where perm = "0x16" and pa = "0x87000000"])
    case (other e s')
    then show ?thesis using demo_five_empty [of ?old] by simp
  next
    case (mapped s' n)
    have s': "demo_fork = s'" using mapped(2) by (simp add: demo_fork_def)
    let ?ps = "drop n demo_pages"
    have T: "pt_tabs (mem s') 2 ?old \<subseteq> insert ?old (set (take n demo_pages))"
      using mapped(6) demo_five_empty [of ?old] by auto
    have al: "page_aligned y" if "y \<in> pt_tabs (mem s') 2 ?old" for y
      using pt_tabs_aligned [of "mem s'" 2 ?old y] mapped(4) that by (simp add: vm_inv_def)
    have n1: "?new \<notin> pt_tabs (mem s') 2 ?old" using T by (auto simp: demo_pages_def dest!: in_set_takeD)
    have zero: "mem s' b = 0" if b: "in_range ?new PGSIZE b" for b
    proof -
      have "page_aligned ?new" by (simp add: PGSIZE_def)
      then have "\<forall>x \<in> pt_tabs (mem s') 2 ?old. \<not> in_range x PGSIZE b"
        using pages_apart [OF _ al _ b] n1 by metis
      then have "mem s' b = mem demo_five b" using mapped(8) by simp
      then show ?thesis using b demo_five_low [of b] by (simp add: in_range_nat PGSIZE_def)
    qed
    then have new: "pt_wf (mem s') 2 ?new \<and> pt_tabs (mem s') 2 ?new = {?new} \<and> pt_map (mem s') 2 ?new = (\<lambda>_. None)"
      by (intro pt_empty) (simp_all add: PGSIZE_def)
    have "?new \<notin> set ?ps" by (auto simp: demo_pages_def dest!: in_set_dropD)
    then have "vm_inv s' 2 ?new ?ps" using mapped(4) new by (simp add: vm_inv_def)
    moreover have map: "pt_map (mem s') 2 ?old va = (if same_page 2 0 va then Some 0x21C00017 else None)" for va
      using mapped(7) demo_five_empty [of ?old] e by (simp cong: if_cong)
    moreover have "old_apart s' ?old ?new ?ps 4096"
    proof -
      have "pt_tabs (mem s') 2 ?old \<inter> set ?ps = {}" "pt_wf (mem s') 2 ?old" using mapped(4) by (simp_all add: vm_inv_def)
      moreover have "0x87000000 \<notin> insert ?new (set ?ps)" by (auto simp: demo_pages_def dest!: in_set_dropD)
      ultimately show ?thesis using new n1 map pa by (auto simp: old_apart_def split: if_splits)
    qed
    moreover have "3 \<le> length ?ps" using mapped(3) by (simp add: demo_pages_def)
    ultimately show ?thesis using new unfolding s' by (intro exI [of _ ?ps]) simp
  qed
qed

theorem uvmcopy_copies_witness:
  "\<exists>s' ps ps'. uvmcopy 0x80005000 0x80004000 4096 demo_fork = (Inr 0, s') \<and>
     page_copied demo_fork s' 0x80005000 0x80004000 ps ps' 0 \<and>
     pt_map (mem demo_fork) 2 0x80005000 0 = Some 0x21C00017"
proof -
  obtain ps where ps: "vm_inv demo_fork 2 0x80004000 ps" "old_apart demo_fork 0x80005000 0x80004000 ps 4096"
      "pt_map (mem demo_fork) 2 0x80004000 = (\<lambda>_. None)" "3 \<le> length ps"
      "pt_map (mem demo_fork) 2 0x80005000 0 = Some 0x21C00017"
    using demo_fork_inv by blast
  have "pages_left 0 4096 = 1" by (simp add: pages_left_def)
  then obtain s' ps' where r: "uvmcopy 0x80005000 0x80004000 4096 demo_fork = (Inr 0, s')"
      "\<forall>va. page_aligned va \<longrightarrow> va < 4096 \<longrightarrow> page_copied demo_fork s' 0x80005000 0x80004000 ps ps' va"
    using uvmcopy_copies [OF ps(1,2)] ps(3,4) by auto
  have "page_copied demo_fork s' 0x80005000 0x80004000 ps ps' 0" using r(2) [rule_format, of 0] by simp
  then show ?thesis using r(1) ps(5) by blast
qed

end
