(* ===== verification/PageFree.thy ===== *)
theory PageFree
  imports PageMap
begin

text \<open>
  \<^verbatim>\<open>free_pagetable\<close> of \<^verbatim>\<open>kernel/vm.c\<close>: it gives back exactly the pages of the table tree, each
  once, and needs no more recursion than the tree has levels.
\<close>

abbreviation pte_leaf :: "u64 \<Rightarrow> bool" where
  "pte_leaf e \<equiv> e AND (PTE_R OR PTE_W OR PTE_X) \<noteq> 0"

text \<open>Inner entries have no permission bit, leaves have one.\<close>

fun pt_shape :: "phys \<Rightarrow> nat \<Rightarrow> addr \<Rightarrow> bool" where
  "pt_shape m 0 pt \<longleftrightarrow> (\<forall>i < 512. pte_valid (ent m pt i) \<longrightarrow> pte_leaf (ent m pt i))"
| "pt_shape m (Suc l) pt \<longleftrightarrow> (\<forall>i < 512. pte_valid (ent m pt i) \<longrightarrow>
     \<not> pte_leaf (ent m pt i) \<and> pt_shape m l (PTE2PA (ent m pt i)))"

lemma pt_shape_frame:
  assumes "pt_wf m l pt" and "pt_shape m l pt"
    and "\<And>x b. x \<in> pt_tabs m l pt \<Longrightarrow> in_range x PGSIZE b \<Longrightarrow> m' b = m b"
  shows "pt_shape m' l pt"
  using assms
proof (induction l arbitrary: pt)
  case 0
  then have "ent m' pt i = ent m pt i" if "i < 512" for i using that by (intro ent_cong) auto
  then show ?case using 0 by simp
next
  case (Suc l)
  have ent: "ent m' pt i = ent m pt i" if "i < 512" for i
    using Suc.prems pt_wf_root [OF Suc.prems(1)] that by (intro ent_cong) auto
  have "pt_shape m' l (PTE2PA (ent m pt i))" if "i < 512" "pte_valid (ent m pt i)" for i
    by (rule Suc.IH) (use Suc.prems that in auto)
  then show ?case using Suc.prems(2) ent by (simp cong: conj_cong imp_cong)
qed

section \<open>The loop over one table\<close>

text \<open>Before entry \<open>k\<close> of table \<open>pt\<close> is visited: the pages \<open>S\<close> have been freed, entries from \<open>k\<close> on
  are as at the start.\<close>

definition fp_inv :: "('a) kpm_scheme \<Rightarrow> addr list \<Rightarrow> addr \<Rightarrow> addr set \<Rightarrow> nat \<Rightarrow> ('a) kpm_scheme \<Rightarrow> bool" where
  "fp_inv s ps pt S k t \<longleftrightarrow> (\<exists>qs. pm_inv t (qs @ ps) \<and> set qs = S) \<and> same_rest s t \<and>
     (\<forall>b. (\<forall>x \<in> insert pt S. \<not> in_range x PGSIZE b) \<longrightarrow> mem t b = mem s b) \<and>
     (\<forall>j < 512. k \<le> unat j \<longrightarrow> ent (mem t) pt j = ent (mem s) pt j)"

lemma fp_inv_Suc: "fp_inv s ps pt S k t \<Longrightarrow> fp_inv s ps pt S (Suc k) t"
  by (auto simp: fp_inv_def)

lemma of_nat_512: "k < 512 \<Longrightarrow> (of_nat k :: u64) < 512 \<and> unat (of_nat k :: u64) = k"
  by (simp add: word_less_nat_alt unat_of_nat)

lemma fp_inv_clear:
  assumes inv: "fp_inv s ps pt S k t" and al: "page_aligned pt" and k: "k < 512" and new: "pt \<notin> S \<union> set ps"
  shows "fp_inv s ps pt S (Suc k) (t\<lparr>mem := store64 (mem t) (pt + 8 * of_nat k) 0\<rparr>)"
proof -
  let ?m = "store64 (mem t) (pt + 8 * of_nat k) 0"
  obtain qs where qs: "pm_inv t (qs @ ps)" "set qs = S" using inv by (auto simp: fp_inv_def)
  note k' = of_nat_512 [OF k]
  have out: "?m b = mem t b" if "\<not> in_range pt PGSIZE b" for b
    using store_ent_outside [OF al _ that] k' by simp
  have "pm_inv (t\<lparr>mem := ?m\<rparr>) (qs @ ps)"
  proof (rule pm_inv_frame [OF qs(1)])
    fix y b assume y: "y \<in> set (qs @ ps)" "in_range y PGSIZE b"
    then have "y \<noteq> pt" using new qs(2) by auto
    then show "mem (t\<lparr>mem := ?m\<rparr>) b = mem t b"
      using out pages_apart [of y pt b] y al pm_inv_aligned [OF qs(1) y(1)] by simp
  qed simp_all
  moreover have "ent ?m pt j = ent (mem t) pt j" if "j < 512" "Suc k \<le> unat j" for j
    using ent_store [OF al _ that(1), of "of_nat k"] k' that(2) by auto
  ultimately show ?thesis
    using inv qs(2) out same_rest_mem by (auto simp: fp_inv_def)
qed

lemma fp_inv_child:
  assumes inv: "fp_inv s ps pt S k t" and pm: "pm_inv t' (qs' @ qs @ ps)" and S: "set qs = S" and rest: "same_rest t t'"
    and out: "\<And>b. (\<forall>x \<in> set qs'. \<not> in_range x PGSIZE b) \<Longrightarrow> mem t' b = mem t b"
    and al: "page_aligned pt" and new: "pt \<notin> set qs'"
  shows "fp_inv s ps pt (S \<union> set qs') k t'"
proof -
  have "mem t' b = mem t b" if "in_range pt PGSIZE b" for b
    using out [of b] pages_apart [OF al _ _ that] pm_inv_aligned [OF pm] new by (metis UnCI set_append)
  then have "ent (mem t') pt j = ent (mem t) pt j" if "j < 512" for j
    using that by (intro ent_cong [OF al]) auto
  moreover have "\<exists>rs. pm_inv t' (rs @ ps) \<and> set rs = S \<union> set qs'"
    using pm S by (intro exI [of _ "qs' @ qs"]) auto
  ultimately show ?thesis
    using inv out same_rest_trans [OF _ rest] unfolding fp_inv_def by (metis Un_iff insert_iff)
qed

section \<open>The whole tree\<close>

definition freed_below :: "phys \<Rightarrow> nat \<Rightarrow> addr \<Rightarrow> nat \<Rightarrow> addr set" where
  "freed_below m l pt k =
     (\<Union>j \<in> {j. j < 512 \<and> unat j < k \<and> pte_valid (ent m pt j)}. pt_tabs m l (PTE2PA (ent m pt j)))"

lemma freed_below_Suc:
  "k < 512 \<Longrightarrow> freed_below m l pt (Suc k) = freed_below m l pt k \<union>
     (if pte_valid (ent m pt (of_nat k)) then pt_tabs m l (PTE2PA (ent m pt (of_nat k))) else {})"
proof -
  assume "k < 512"
  then have "{j :: u64. j < 512 \<and> unat j < Suc k \<and> pte_valid (ent m pt j)} =
      {j. j < 512 \<and> unat j < k \<and> pte_valid (ent m pt j)} \<union>
      (if pte_valid (ent m pt (of_nat k)) then {of_nat k} else {})"
    using of_nat_512 by (auto simp: less_Suc_eq)
  then show ?thesis by (auto simp: freed_below_def)
qed

lemma freed_below_512: "insert pt (freed_below m l pt 512) = pt_tabs m (Suc l) pt"
  by (auto simp: freed_below_def word_less_nat_alt)

lemma fp_inv_start: "pm_inv s ps \<Longrightarrow> fp_inv s ps pt {} 0 s"
  by (auto simp: fp_inv_def same_rest_def intro!: exI [of _ "[]"] exI [of _ "mem s"] exI [of _ "freelist s"])

lemma fp_inv_finish:
  assumes inv: "fp_inv s ps pt S 512 t" and ok: "page_ok (ld_end s) pt" and new: "pt \<notin> S \<union> set ps"
  shows "\<exists>s' qs. free_page pt t = (Inr (), s') \<and> pm_inv s' (qs @ ps) \<and> set qs = insert pt S \<and> same_rest s s' \<and>
    (\<forall>b. (\<forall>x \<in> insert pt S. \<not> in_range x PGSIZE b) \<longrightarrow> mem s' b = mem s b)"
proof -
  obtain qs where qs: "pm_inv t (qs @ ps)" "set qs = S" and rest: "same_rest s t"
    and out: "\<forall>b. (\<forall>x \<in> insert pt S. \<not> in_range x PGSIZE b) \<longrightarrow> mem t b = mem s b"
    using inv by (auto simp: fp_inv_def)
  have "page_ok (ld_end t) pt" using ok same_rest_fields [OF rest] by simp
  moreover have "pt \<notin> set (qs @ ps)" using new qs(2) by simp
  ultimately obtain s' where s': "free_page pt t = (Inr (), s')" "pm_inv s' (pt # qs @ ps)"
      "s' = t\<lparr>mem := mem s', freelist := freelist s'\<rparr>"
      "\<And>a. \<not> in_range pt 8 a \<Longrightarrow> mem s' a = mem t a"
    using free_page_inv [OF qs(1), of pt] by metis
  have "mem s' b = mem s b" if "\<forall>x \<in> insert pt S. \<not> in_range x PGSIZE b" for b
    using s'(4) [of b] out that in_range_mono [of pt 8 b PGSIZE] by (auto simp: PGSIZE_def)
  then show ?thesis
    using s' qs(2) same_rest_trans [OF rest same_restI [OF s'(3)]]
    by (intro exI [of _ s'] exI [of _ "pt # qs"]) auto
qed

abbreviation free_entry :: "nat \<Rightarrow> addr \<Rightarrow> nat \<Rightarrow> (('a) kpm_scheme, unit) km" where
  "free_entry n pt i \<equiv>
     (let a = pt + 8 * of_nat i
      in kbind (kget (\<lambda>s. load64 (mem s) a)) (\<lambda>pte.
           if pte_valid pte \<and> pte AND (PTE_R OR PTE_W OR PTE_X) = 0
           then kseq (free_pagetable n (PTE2PA pte)) (store_pte a 0)
           else if pte_valid pte then store_pte a 0
           else kret ()))"

lemma free_pagetable_loop:
  assumes body: "\<And>k t. k < 512 \<Longrightarrow> fp_inv s ps pt (F k) k t \<Longrightarrow>
      \<exists>t'. free_entry n pt k t = (Inr (), t') \<and> fp_inv s ps pt (F (Suc k)) (Suc k) t'"
    and F: "F 0 = {}" "insert pt (F 512) = T" "pt \<notin> F 512 \<union> set ps"
    and pm: "pm_inv s ps" and ok: "page_ok (ld_end s) pt"
  shows "\<exists>s' qs. free_pagetable (Suc n) pt s = (Inr (), s') \<and> pm_inv s' (qs @ ps) \<and> set qs = T \<and> same_rest s s' \<and>
    (\<forall>b. (\<forall>x \<in> T. \<not> in_range x PGSIZE b) \<longrightarrow> mem s' b = mem s b)"
proof -
  have "ktriple (fp_inv s ps pt (F 0) 0) (kfor [0..<512] (free_entry n pt)) (\<lambda>_. fp_inv s ps pt (F 512) 512)"
    using ktriple_for [of "[0..<512]" "\<lambda>k. fp_inv s ps pt (F k) k" "free_entry n pt"] body
    by (simp add: ktriple_def)
  moreover have "fp_inv s ps pt (F 0) 0 s" using fp_inv_start [OF pm] F(1) by simp
  ultimately obtain t where t: "kfor [0..<512] (free_entry n pt) s = (Inr (), t)" "fp_inv s ps pt (F 512) 512 t"
    unfolding ktriple_def by auto
  obtain s' qs where s': "free_page pt t = (Inr (), s')" "pm_inv s' (qs @ ps)" "set qs = T" "same_rest s s'"
      "\<forall>b. (\<forall>x \<in> T. \<not> in_range x PGSIZE b) \<longrightarrow> mem s' b = mem s b"
    using fp_inv_finish [OF t(2) ok F(3)] F(2) by auto
  have "free_pagetable (Suc n) pt s = (Inr (), s')"
    using t(1) s'(1) by (simp only: free_pagetable.simps kseq_run_Inr)
  then show ?thesis using s' by blast
qed

lemma free_pagetable_run:
  fixes s :: "('a) kpm_scheme"
  assumes "pm_inv s ps" and "pt_wf (mem s) l pt" and "pt_shape (mem s) l pt"
    and "pt_tabs (mem s) l pt \<inter> set ps = {}" and "\<forall>x \<in> pt_tabs (mem s) l pt. page_ok (ld_end s) x"
  shows "\<exists>s' qs. free_pagetable (Suc l) pt s = (Inr (), s') \<and> pm_inv s' (qs @ ps) \<and>
    set qs = pt_tabs (mem s) l pt \<and> same_rest s s' \<and>
    (\<forall>b. (\<forall>x \<in> pt_tabs (mem s) l pt. \<not> in_range x PGSIZE b) \<longrightarrow> mem s' b = mem s b)"
  using assms
proof (induction l arbitrary: s ps pt)
  case 0
  show ?case
  proof (rule free_pagetable_loop [where F = "\<lambda>_. {}"])
    fix k t assume k: "k < 512" and inv: "fp_inv s ps pt {} k t"
    have e: "load64 (mem t) (pt + 8 * of_nat k) = ent (mem s) pt (of_nat k)"
      using inv of_nat_512 [OF k] by (auto simp: fp_inv_def ent_def)
    have "pt \<notin> {} \<union> set ps" "page_aligned pt" using 0 by auto
    then show "\<exists>t'. free_entry 0 pt k t = (Inr (), t') \<and> fp_inv s ps pt {} (Suc k) t'"
      using 0(3) e of_nat_512 [OF k] fp_inv_clear [OF inv _ k] fp_inv_Suc [OF inv]
      by (auto simp: store_pte_def Let_def)
  qed (use 0 in auto)
next
  case (Suc l)
  let ?F = "freed_below (mem s) l pt" and ?c = "\<lambda>i. PTE2PA (ent (mem s) pt i)"
  have al: "page_aligned pt" using Suc.prems(2) by simp
  have pt: "pt \<notin> ?F k \<union> set ps" for k
    using Suc.prems(2,4) pt_tabs_root [of pt "mem s" "Suc l"] by (auto simp: freed_below_def simp del: pt_tabs_root)
  show ?case
  proof (rule free_pagetable_loop [where F = ?F])
    fix k t assume k: "k < 512" and inv: "fp_inv s ps pt (?F k) k t"
    let ?i = "of_nat k :: u64"
    note i = of_nat_512 [OF k]
    have e: "load64 (mem t) (pt + 8 * ?i) = ent (mem s) pt ?i"
      using inv i by (auto simp: fp_inv_def ent_def)
    show "\<exists>t'. free_entry (Suc l) pt k t = (Inr (), t') \<and> fp_inv s ps pt (?F (Suc k)) (Suc k) t'"
    proof (cases "pte_valid (ent (mem s) pt ?i)")
      case False
      then show ?thesis using e fp_inv_Suc [OF inv] freed_below_Suc [OF k] by (simp add: Let_def)
    next
      case True
      have wf: "pt_wf (mem s) l (?c ?i)" "pt_shape (mem s) l (?c ?i)" "pt \<notin> pt_tabs (mem s) l (?c ?i)"
        and shape: "ent (mem s) pt ?i AND (PTE_R OR PTE_W OR PTE_X) = 0"
        using Suc.prems(2,3) True i by auto
      have sub: "pt_tabs (mem s) l (?c ?i) \<subseteq> pt_tabs (mem s) (Suc l) pt"
        using pt_tabs_child [OF True] i by blast
      have dj: "pt_tabs (mem s) l (?c ?i) \<inter> (insert pt (?F k) \<union> set ps) = {}"
      proof -
        have "pt_tabs (mem s) l (?c ?i) \<inter> pt_tabs (mem s) l (?c j) = {}"
          if "j < 512" "unat j < k" "pte_valid (ent (mem s) pt j)" for j
        proof -
          have "?i \<noteq> j" using i that(2) by auto
          then show ?thesis using Suc.prems(2) True i that by simp
        qed
        then show ?thesis using wf(3) sub Suc.prems(4) by (auto simp: freed_below_def)
      qed
      obtain qs where qs: "pm_inv t (qs @ ps)" "set qs = ?F k" and rest: "same_rest s t"
        and out: "\<And>b. (\<forall>x \<in> insert pt (?F k). \<not> in_range x PGSIZE b) \<Longrightarrow> mem t b = mem s b"
        using inv unfolding fp_inv_def by blast
      have same: "mem t b = mem s b" if "x \<in> pt_tabs (mem s) l (?c ?i)" "in_range x PGSIZE b" for x b
      proof (rule out, rule ballI)
        fix y assume y: "y \<in> insert pt (?F k)"
        then have "y = pt \<or> y \<in> set (qs @ ps)" using qs(2) by simp blast
        then have "page_aligned y" using al pm_inv_aligned [OF qs(1)] by metis
        moreover have "x \<noteq> y" using that(1) y dj by blast
        ultimately show "\<not> in_range y PGSIZE b"
          using pages_apart [of x y b] pt_tabs_aligned [OF wf(1) that(1)] that(2) by simp
      qed
      have fr: "pt_tabs (mem t) l (?c ?i) = pt_tabs (mem s) l (?c ?i)" "pt_wf (mem t) l (?c ?i)"
        using pt_frame [OF wf(1), of "mem t"] same by blast+
      have "pt_shape (mem t) l (?c ?i)" using pt_shape_frame [OF wf(1,2)] same by blast
      moreover have "pt_tabs (mem t) l (?c ?i) \<inter> set (qs @ ps) = {}" using dj fr(1) qs(2) by auto
      moreover have "\<forall>x \<in> pt_tabs (mem t) l (?c ?i). page_ok (ld_end t) x"
        using fr(1) sub Suc.prems(5) same_rest_fields [OF rest] by auto
      ultimately obtain t1 qs' where t1: "free_pagetable (Suc l) (?c ?i) t = (Inr (), t1)" "pm_inv t1 (qs' @ qs @ ps)"
          "set qs' = pt_tabs (mem s) l (?c ?i)" "same_rest t t1"
          "\<And>b. (\<forall>x \<in> set qs'. \<not> in_range x PGSIZE b) \<Longrightarrow> mem t1 b = mem t b"
        using Suc.IH [OF qs(1) fr(2)] fr(1) by metis
      have "fp_inv s ps pt (?F (Suc k)) k t1"
        using fp_inv_child [OF inv t1(2) qs(2) t1(4,5) al] wf(3) t1(3) freed_below_Suc [OF k] True by simp
      then have "fp_inv s ps pt (?F (Suc k)) (Suc k) (t1\<lparr>mem := store64 (mem t1) (pt + 8 * ?i) 0\<rparr>)"
        by (rule fp_inv_clear [OF _ al k pt])
      then show ?thesis using e True shape t1(1) by (simp add: store_pte_def Let_def)
    qed
  next
    show "insert pt (?F 512) = pt_tabs (mem s) (Suc l) pt" by (rule freed_below_512)
    show "?F 0 = {}" by (simp add: freed_below_def)
  qed (use Suc.prems pt in auto)
qed

section \<open>Property\<close>

text \<open>C27. \<^verbatim>\<open>free_pagetable\<close> returns every page of a three-level table to the allocator exactly once
  and nothing else: with recursion depth 3 it ends normally, the free list grows by exactly
  the pages of the tree, the allocator's invariant holds (so no page is on the list twice), and
  no byte outside these pages changes.\<close>

theorem free_pagetable_frees:
  assumes "vm_inv s 2 pt ps" and "pt_shape (mem s) 2 pt" and "\<forall>x \<in> pt_tabs (mem s) 2 pt. page_ok (ld_end s) x"
  shows "\<exists>s' qs. free_pagetable 3 pt s = (Inr (), s') \<and> pm_inv s' (qs @ ps) \<and>
    set qs = pt_tabs (mem s) 2 pt \<and>
    (\<forall>b. (\<forall>x \<in> pt_tabs (mem s) 2 pt. \<not> in_range x PGSIZE b) \<longrightarrow> mem s' b = mem s b)"
  using free_pagetable_run [of s ps 2 pt] assms by (auto simp: vm_inv_def numeral_3_eq_3 numeral_2_eq_2)

theorem free_pagetable_frees_witness:
  "\<exists>s' qs. free_pagetable 3 0x80005000 demo_vm = (Inr (), s') \<and>
     pm_inv s' (qs @ [0x80008000, 0x80007000, 0x80006000]) \<and> set qs = {0x80005000}"
proof -
  have zero: "mem demo_vm b = 0" if "in_range 0x80005000 PGSIZE b" for b
    using that by (simp add: demo_vm_mem_outside in_range_nat PGSIZE_def)
  then have tabs: "pt_tabs (mem demo_vm) 2 0x80005000 = {0x80005000}"
    by (intro pt_empty [THEN conjunct2, THEN conjunct1]) (simp_all add: PGSIZE_def)
  have "ent (mem demo_vm) 0x80005000 i = 0" if "i < 512" for i
    unfolding ent_def by (rule load64_zero, rule zero, rule ent_addr_in_page [OF _ that]) (simp_all add: PGSIZE_def)
  then have "pt_shape (mem demo_vm) 2 0x80005000" by (simp add: numeral_2_eq_2)
  moreover have "page_ok (ld_end demo_vm) 0x80005000"
    by (simp add: page_ok_def PGSIZE_def PHYSTOP_eq demo_vm_def demo_kpm_def kcore.extend_def)
  ultimately show ?thesis
    using free_pagetable_frees [of demo_vm "0x80005000" "[0x80008000, 0x80007000, 0x80006000]"] demo_vm_inv tabs
    by (auto simp del: free_pagetable.simps)
qed

end
