(* ===== verification/Proc.thy ===== *)
theory Proc
  imports File AddrSpace PageFree
begin

text \<open>
  Life cycle of processes, \<^verbatim>\<open>kernel/proc.c\<close>: the process table, creation, \<^verbatim>\<open>fork_proc\<close>, \<^verbatim>\<open>wait_proc\<close>, and shutdown.
  The scheduler is in \<open>Sched\<close>. A trapframe is owned by its process: its contents are read from the page
  when the page is allocated and then kept in \<open>tframe\<close>. The addresses of functions and of the
  trampoline code are fields of the state. \<open>fuel\<close> bounds the rounds of \<^verbatim>\<open>force_commit_log\<close>, \<open>depth\<close> the depth of
  \<^verbatim>\<open>free_pagetable\<close>.
\<close>

record kproc = kfile +
  proc_table_pages :: nat
  proc_table_mem :: "nat \<Rightarrow> addr"
  fn_forkret :: u64
  fn_usertrap :: u64
  fn_kernelvec :: u64
  ld_uservec :: addr
  ld_userret :: addr
  stvec :: u64
  sscratch :: u64

section \<open>Shutdown and exit\<close>

definition free_proc_table :: "(('a) kproc_scheme, unit) km" where
  "free_proc_table = kbind (kget (\<lambda>s. (proc_table_pages s, proc_table_mem s))) (\<lambda>(n, pg). kfor [0..<n] (\<lambda>i. free_page (pg i)))"

definition shutdown :: "nat \<Rightarrow> (('a) kproc_scheme, 'b) km" where
  "shutdown fuel = kseq intr_off (kbind get_log_status (\<lambda>(o1, c).
     kseq (if o1 > 0 \<or> c then kseq intr_on (kseq (force_commit_log fuel) intr_off) else kret ())
       (kseq sync_all_buffers (kseq free_proc_table (kstop PowerOff)))))"

text \<open>A run that stops because the thread calls \<^verbatim>\<open>exit_proc\<close>, with the effects of that call.\<close>

definition with_exit :: "nat \<Rightarrow> (('a) kproc_scheme, 'b) km \<Rightarrow> (('a) kproc_scheme, 'b) km" where
  "with_exit fuel m = (\<lambda>s. case m s of
     (Inl (ExitProc st), s') \<Rightarrow> exit_proc (shutdown fuel) st s'
   | (r, s') \<Rightarrow> (r, s'))"

section \<open>The process table\<close>

definition zero_context :: kcontext where
  "zero_context = \<lparr>ctx_ra = 0, ctx_sp = 0, ctx_s = (\<lambda>_. 0)\<rparr>"

text \<open>\<^verbatim>\<open>memset(proc_table[i], 0, sizeof(struct proc))\<close>.\<close>

definition zero_proc :: proc where
  "zero_proc = \<lparr>pstate = UNUSED, pid = 0, kstack = 0, pcontext = zero_context, killed = False, exit_status = 0,
     parent = None, sleep_ticks = 0, pchan = None, is_user = False, psz = 0, pagetable = 0, trapframe_ptr = 0,
     tframe = (\<lambda>_. 0), cwd = None, ofile = (\<lambda>_. None)\<rparr>"

definition init_proc :: "(('a) kproc_scheme, unit) km" where
  "init_proc = kseq (kfor [0..<PROC] (\<lambda>i. kbind alloc_page (\<lambda>pg.
       if pg = 0 then panic ''init_proc: alloc_page failed for proc_table''
       else kseq (kmod (\<lambda>s. s\<lparr>proc_table_mem := (proc_table_mem s)(i := pg)\<rparr>)) (kmod (upd_proc i (\<lambda>_. zero_proc))))))
     (kmod (\<lambda>s. s\<lparr>proc_table_pages := PROC\<rparr>))"

fun tf_index :: "tfield \<Rightarrow> nat" where
  "tf_index Tf_kernel_satp = 0" | "tf_index Tf_kernel_sp = 1" | "tf_index Tf_kernel_trap = 2" | "tf_index Tf_usertrap = 3"
| "tf_index Tf_kernel_vec = 4" | "tf_index Tf_kernel_hartid = 5" | "tf_index Tf_sstatus = 6" | "tf_index Tf_epc = 7"
| "tf_index Tf_ra = 8" | "tf_index Tf_sp = 9" | "tf_index Tf_gp = 10" | "tf_index Tf_tp = 11"
| "tf_index Tf_t0 = 12" | "tf_index Tf_t1 = 13" | "tf_index Tf_t2 = 14" | "tf_index Tf_t3 = 15"
| "tf_index Tf_t4 = 16" | "tf_index Tf_t5 = 17" | "tf_index Tf_t6 = 18" | "tf_index Tf_s0 = 19" | "tf_index Tf_s1 = 20"
| "tf_index Tf_a0 = 21" | "tf_index Tf_a1 = 22" | "tf_index Tf_a2 = 23" | "tf_index Tf_a3 = 24"
| "tf_index Tf_a4 = 25" | "tf_index Tf_a5 = 26" | "tf_index Tf_a6 = 27" | "tf_index Tf_a7 = 28"
| "tf_index Tf_s2 = 29" | "tf_index Tf_s3 = 30" | "tf_index Tf_s4 = 31" | "tf_index Tf_s5 = 32" | "tf_index Tf_s6 = 33"
| "tf_index Tf_s7 = 34" | "tf_index Tf_s8 = 35" | "tf_index Tf_s9 = 36" | "tf_index Tf_s10 = 37" | "tf_index Tf_s11 = 38"

definition load_tframe :: "phys \<Rightarrow> addr \<Rightarrow> trapframe" where
  "load_tframe m a = (\<lambda>f. load64 m (a + of_nat (8 * tf_index f)))"

section \<open>Allocation\<close>

text \<open>The error exits of \<^verbatim>\<open>alloc_proc\<close>.\<close>

definition unalloc :: "nat \<Rightarrow> (('a) kproc_scheme, nat option) km" where
  "unalloc i = kseq (kmod (upd_proc i (\<lambda>p. p\<lparr>pstate := UNUSED, pid := 0\<rparr>))) (kret None)"

definition alloc_proc_at :: "nat \<Rightarrow> nat \<Rightarrow> bool \<Rightarrow> (('a) kproc_scheme, nat option) km" where
  "alloc_proc_at depth i user =
     kseq (kmod (upd_proc i (\<lambda>p. p\<lparr>pid := int i, cwd := None, pstate := USED, is_user := user\<rparr>)))
      (kbind alloc_page (\<lambda>tf.
        kseq (kmod (\<lambda>s. upd_proc i (\<lambda>p. p\<lparr>trapframe_ptr := tf, tframe := load_tframe (mem s) tf\<rparr>) s))
         (if tf = 0 then unalloc i
          else kbind (if user then create_pagetable else kget kernel_pagetable) (\<lambda>pt.
            kseq (kmod (upd_proc i (\<lambda>p. p\<lparr>pagetable := pt\<rparr>)))
             (if user \<and> pt = 0
              then kseq (free_page tf) (kseq (kmod (upd_proc i (\<lambda>p. p\<lparr>trapframe_ptr := 0\<rparr>))) (unalloc i))
              else kbind alloc_page (\<lambda>ks.
                if ks = 0
                then kseq (free_page tf) (kseq (free_pagetable depth pt)
                  (kseq (kmod (upd_proc i (\<lambda>p. p\<lparr>trapframe_ptr := 0, pagetable := 0\<rparr>))) (unalloc i)))
                else kseq (kmod (\<lambda>s. upd_proc i (\<lambda>p. p\<lparr>kstack := ks,
                      pcontext := \<lparr>ctx_ra = fn_forkret s, ctx_sp = ks + of_nat PGSIZE - 16, ctx_s = (\<lambda>_. 0)\<rparr>,
                      killed := False, ofile := (\<lambda>fd. if fd < NOFILE then None else ofile p fd)\<rparr>) s))
                  (kret (Some i))))))))"

definition alloc_proc :: "nat \<Rightarrow> bool \<Rightarrow> (('a) kproc_scheme, nat option) km" where
  "alloc_proc depth user = kbind (kget proc_table) (\<lambda>t.
     case find_proc t (\<lambda>p. pstate p = UNUSED) [0..<PROC] of
       None \<Rightarrow> kret None | Some i \<Rightarrow> alloc_proc_at depth i user)"

definition free_proc :: "nat \<Rightarrow> nat \<Rightarrow> (('a) kproc_scheme, unit) km" where
  "free_proc depth i = kbind (kget (\<lambda>s. (proc_table s i, kernel_pagetable s))) (\<lambda>(p, kpt).
     kseq (if trapframe_ptr p \<noteq> 0 then free_page (trapframe_ptr p) else kret ())
      (kseq (kmod (upd_proc i (\<lambda>p. p\<lparr>trapframe_ptr := 0\<rparr>)))
       (kseq (if pagetable p \<noteq> 0 \<and> pagetable p \<noteq> kpt then free_pagetable depth (pagetable p) else kret ())
        (kseq (kmod (upd_proc i (\<lambda>p. p\<lparr>pagetable := 0\<rparr>)))
         (kseq (if kstack p \<noteq> 0 then free_page (kstack p) else kret ())
          (kseq (kmod (upd_proc i (\<lambda>p. p\<lparr>kstack := 0\<rparr>)))
           (kseq (kfor [0..<NOFILE] (\<lambda>fd. kbind (kget (\<lambda>s. ofile (proc_table s i) fd)) (\<lambda>f. case f of
                None \<Rightarrow> kret ()
              | Some f \<Rightarrow> kseq (close f) (kmod (upd_proc i (\<lambda>p. p\<lparr>ofile := (ofile p)(fd := None)\<rparr>))))))
            (kmod (upd_proc i (\<lambda>p. p\<lparr>pid := 0, pstate := UNUSED, parent := None, pchan := None,
               pcontext := zero_context\<rparr>))))))))))"

section \<open>Creation\<close>

abbreviation set_tf :: "nat \<Rightarrow> tfield \<Rightarrow> u64 \<Rightarrow> (('a) kproc_scheme, unit) km" where
  "set_tf i f v \<equiv> kmod (upd_proc i (\<lambda>p. p\<lparr>tframe := (tframe p)(f := v)\<rparr>))"

text \<open>The parent is the running process, whose working directory is shared.\<close>

definition adopt :: "nat \<Rightarrow> (('a) kproc_scheme, unit) km" where
  "adopt i = kbind (kget current_proc) (\<lambda>par. kseq (kmod (upd_proc i (\<lambda>p. p\<lparr>parent := par\<rparr>)))
     (kbind (kget (\<lambda>s. case par of None \<Rightarrow> None | Some q \<Rightarrow> cwd (proc_table s q))) (\<lambda>c. case c of
        None \<Rightarrow> kmod (upd_proc i (\<lambda>p. p\<lparr>cwd := None\<rparr>))
      | Some ip \<Rightarrow> kbind (idup ip) (\<lambda>ip'. kmod (upd_proc i (\<lambda>p. p\<lparr>cwd := Some ip'\<rparr>))))))"

definition create_kernel_proc :: "nat \<Rightarrow> u64 \<Rightarrow> (('a) kproc_scheme, int) km" where
  "create_kernel_proc depth entry = kbind (alloc_proc depth False) (\<lambda>r. case r of
     None \<Rightarrow> kret (- 1)
   | Some i \<Rightarrow> kseq (set_tf i Tf_epc entry)
       (kseq (kmod (upd_proc i (\<lambda>p. p\<lparr>pstate := RUNNABLE\<rparr>)))
         (kseq (adopt i) (kget (\<lambda>s. pid (proc_table s i))))))"

definition create_kernel_proc1 :: "nat \<Rightarrow> u64 \<Rightarrow> u64 \<Rightarrow> (('a) kproc_scheme, int) km" where
  "create_kernel_proc1 depth entry arg = kbind (alloc_proc depth False) (\<lambda>r. case r of
     None \<Rightarrow> kret (- 1)
   | Some i \<Rightarrow> kseq (set_tf i Tf_epc entry) (kseq (set_tf i Tf_a0 arg)
       (kseq (kmod (upd_proc i (\<lambda>p. p\<lparr>pstate := RUNNABLE, sleep_ticks := 0\<rparr>)))
         (kseq (adopt i) (kget (\<lambda>s. pid (proc_table s i)))))))"

definition fail_proc :: "nat \<Rightarrow> nat \<Rightarrow> (('a) kproc_scheme, int) km" where
  "fail_proc depth i = kseq (free_proc depth i) (kret (- 1))"

abbreviation perms :: "u64 \<Rightarrow> u32" where
  "perms w \<equiv> ucast w"

text \<open>The two stack pages of a new user process, topmost first.\<close>

fun stack_pages :: "nat \<Rightarrow> nat \<Rightarrow> nat list \<Rightarrow> (('a) kproc_scheme, bool) km" where
  "stack_pages depth i [] = kret True"
| "stack_pages depth i (k # ks) = kbind alloc_page (\<lambda>pg.
     if pg = 0 then kseq (free_proc depth i) (kret False)
     else kbind (kget (\<lambda>s. pagetable (proc_table s i))) (\<lambda>pt.
       kbind (map_page pt (USER_STACK_SIZE - of_nat (PGSIZE * (k + 1))) pg (perms (PTE_R OR PTE_W OR PTE_U))) (\<lambda>r.
         if r \<noteq> 0 then kseq (free_page pg) (kseq (free_proc depth i) (kret False))
         else stack_pages depth i ks)))"

text \<open>The trapframe of a new user process.\<close>

definition user_tframe :: "('a) kproc_scheme \<Rightarrow> proc \<Rightarrow> trapframe" where
  "user_tframe s p = (\<lambda>_. 0)(Tf_epc := USER_TEXT_START, Tf_sp := USER_STACK_SIZE, Tf_sstatus := 0x20,
     Tf_kernel_satp := MAKE_SATP (kernel_pagetable s), Tf_kernel_sp := kstack p + of_nat PGSIZE,
     Tf_usertrap := fn_usertrap s, Tf_kernel_vec := fn_kernelvec s)"

definition create_user_proc :: "nat \<Rightarrow> addr \<Rightarrow> int \<Rightarrow> (('a) kproc_scheme, int) km" where
  "create_user_proc depth user_bin bin_size = kbind (alloc_proc depth True) (\<lambda>r. case r of
     None \<Rightarrow> kret (- 1)
   | Some i \<Rightarrow> kbind alloc_page (\<lambda>page.
       if page = 0 then fail_proc depth i
       else kbind (kget (\<lambda>s. pagetable (proc_table s i))) (\<lambda>pt.
         kbind (map_page pt USER_TEXT_START page (perms (PTE_R OR PTE_W OR PTE_X OR PTE_U))) (\<lambda>_.
         kseq (kmod (\<lambda>s. s\<lparr>mem := memcpy (mem s) page user_bin (nat bin_size)\<rparr>))
         (kbind (stack_pages depth i [0, 1]) (\<lambda>ok. if \<not> ok then kret (- 1) else
           kseq (kmod (upd_proc i (\<lambda>p. p\<lparr>psz := USER_STACK_SIZE\<rparr>)))
           (kbind (kget (\<lambda>s. trapframe_ptr (proc_table s i))) (\<lambda>tf.
             kbind (map_page pt TRAPFRAME tf (perms (PTE_R OR PTE_W))) (\<lambda>r. if r \<noteq> 0 then fail_proc depth i else
               kseq (kmod (\<lambda>s. upd_proc i (\<lambda>p. p\<lparr>tframe := user_tframe s p, pstate := RUNNABLE\<rparr>) s))
               (kbind (kget trampoline_phys_addr) (\<lambda>tr.
                 kbind (map_page pt TRAMPOLINE tr (perms (PTE_X OR PTE_R))) (\<lambda>r. if r \<noteq> 0 then fail_proc depth i else
                   kseq (kmod (\<lambda>s. upd_proc i (\<lambda>p. p\<lparr>parent := current_proc s, sleep_ticks := 0\<rparr>) s))
                     (kget (\<lambda>s. pid (proc_table s i)))))))))))))))"

section \<open>fork and wait\<close>

definition fork_tframe :: "('a) kproc_scheme \<Rightarrow> trapframe \<Rightarrow> proc \<Rightarrow> trapframe" where
  "fork_tframe s tf c = (let t = tf(Tf_kernel_sp := kstack c + of_nat PGSIZE, Tf_kernel_satp := MAKE_SATP (kernel_pagetable s))
     in t(Tf_epc := t Tf_epc + 4, Tf_a0 := 0))"

definition fork_proc :: "nat \<Rightarrow> (('a) kproc_scheme, int) km" where
  "fork_proc depth = kbind myproc (\<lambda>q. kbind (kget (\<lambda>s. proc_table s q)) (\<lambda>par.
     kbind (alloc_proc depth (is_user par)) (\<lambda>r. case r of
       None \<Rightarrow> kret (- 1)
     | Some c \<Rightarrow> kbind (kget (\<lambda>s. proc_table s c)) (\<lambda>ch.
         kbind (uvmcopy (pagetable par) (pagetable ch) (psz par)) (\<lambda>r. if r < 0 then fail_proc depth c else
           kseq (kmod (upd_proc c (\<lambda>p. p\<lparr>psz := psz par\<rparr>)))
           (if unat (trapframe_ptr ch) mod PGSIZE \<noteq> 0 then fail_proc depth c else
            kbind (map_page (pagetable ch) TRAPFRAME (trapframe_ptr ch) (perms (PTE_R OR PTE_W))) (\<lambda>r. if r \<noteq> 0 then fail_proc depth c else
              kbind (kget trampoline_phys_addr) (\<lambda>tr.
                kbind (map_page (pagetable ch) TRAMPOLINE tr (perms (PTE_R OR PTE_X))) (\<lambda>r. if r \<noteq> 0 then fail_proc depth c else
                  kbind (kget (\<lambda>s. MAKE_SATP (kernel_pagetable s))) (\<lambda>sat.
                    if sat = 0 then panic ''assert''
                    else kseq (kmod (\<lambda>s. upd_proc c (\<lambda>p. p\<lparr>tframe := fork_tframe s (tframe (proc_table s q)) p,
                        pstate := RUNNABLE, parent := Some q, cwd := cwd (proc_table s q)\<rparr>) s))
                      (kget (\<lambda>s. pid (proc_table s c)))))))))))))"

text \<open>One round of \<^verbatim>\<open>wait_proc\<close>: the child's identifier and exit status, \<open>-1\<close> without children, or the
  processor is given up and the next round follows. The interrupt flag is on again on every exit.\<close>

definition wait_proc :: "nat \<Rightarrow> (('a) kproc_scheme, int \<times> int option) km" where
  "wait_proc depth = kbind (kget current_proc) (\<lambda>me. case me of
     None \<Rightarrow> kret (- 1, None)
   | Some p \<Rightarrow> kseq intr_off (kbind (kget proc_table) (\<lambda>t.
       case find_proc t (\<lambda>c. pstate c = ZOMBIE \<and> parent c = Some p) [0..<PROC] of
         Some i \<Rightarrow> kseq intr_on (kseq (free_proc depth i) (kret (pid (t i), Some (exit_status (t i)))))
       | None \<Rightarrow> (case find_proc t (\<lambda>c. pstate c \<noteq> UNUSED \<and> pstate c \<noteq> ZOMBIE \<and> parent c = Some p) [0..<PROC] of
             None \<Rightarrow> kseq intr_on (kret (- 1, None))
           | Some _ \<Rightarrow> kseq intr_on (kbind yield_enter (\<lambda>_. kstop Yielded))))))"

definition yield_resume :: "nat \<Rightarrow> (('a) kproc_scheme, unit) km" where
  "yield_resume p = check_killed p"

definition wait_resume :: "nat \<Rightarrow> nat \<Rightarrow> (('a) kproc_scheme, int \<times> int option) km" where
  "wait_resume depth p = kseq (yield_resume p) (wait_proc depth)"

section \<open>First run of a process\<close>

text \<open>The jump to \<^verbatim>\<open>userret\<close> is the value returned: its target and its two arguments.\<close>

definition return_to_user :: "(('a) kproc_scheme, u64 \<times> u64 \<times> u64) km" where
  "return_to_user = kbind (kget current_proc) (\<lambda>me. case me of
     None \<Rightarrow> panic ''return_to_user: no current process''
   | Some p \<Rightarrow> kbind (kget (\<lambda>s. (ld_trampoline s, ld_userret s, ld_uservec s))) (\<lambda>(tr, ur, uv).
       if tr = 0 \<or> ur = 0 then panic ''return_to_user: invalid trampoline addresses''
       else kseq (kmod (\<lambda>s. s\<lparr>stvec := TRAMPOLINE + (uv - tr)\<rparr>))
         (if (TRAMPOLINE + (ur - tr)) AND NOT 0xFFF \<noteq> TRAMPOLINE then panic ''return_to_user: userret outside trampoline page''
          else kget (\<lambda>s. (TRAMPOLINE + (ur - tr), TRAPFRAME, MAKE_SATP (pagetable (proc_table s p)))))))"

text \<open>\<open>code a\<close> is the kernel function at address \<open>a\<close>; the value is the jump for a user process.\<close>

definition forkret :: "(u64 \<Rightarrow> u64 \<Rightarrow> (('a) kproc_scheme, unit) km) \<Rightarrow> nat \<Rightarrow> (('a) kproc_scheme, u64 \<times> u64 \<times> u64) km" where
  "forkret code fuel = kbind (kget current_proc) (\<lambda>me. case me of
     None \<Rightarrow> panic ''forkret: no current process''
   | Some p \<Rightarrow> kbind (kget (\<lambda>s. proc_table s p)) (\<lambda>x.
       if killed x then exit_proc (shutdown fuel) SYS_kill
       else if is_user x then return_to_user
       else kseq (if tframe x Tf_epc \<noteq> 0 then with_exit fuel (code (tframe x Tf_epc) (tframe x Tf_a0)) else kret ())
         (exit_proc (shutdown fuel) 0)))"

end
