(* ===== verification/Format.thy ===== *)
theory Format
  imports Cstring
begin

text \<open>
  Formatted output, \<^verbatim>\<open>kernel/printf.c\<close>. The console is the list of bytes handed to the UART.
  \<^verbatim>\<open>printf_buffer\<close> with its fill position is the list of the buffered bytes. A variadic argument
  list is a list of 64-bit argument slots (RV64 passes every integer argument in one) and
  string arguments. A format that runs off its array, a missing or ill-typed argument and a
  store outside a local array are undefined in C: the functions return \<open>None\<close> there.
\<close>

section \<open>State and arguments\<close>

record console =
  printf_buffer :: "u8 list"
  uart_out :: "u8 list"

datatype varg = ANum u64 | AStr "carray option"

definition PRINTF_BUFFER_SIZE :: nat where
  "PRINTF_BUFFER_SIZE = 128"

text \<open>\<^verbatim>\<open>va_arg\<close> for the types the formatter asks for.\<close>

fun va_int :: "varg list \<Rightarrow> (u64 \<times> varg list) option" where
  "va_int (ANum w # ap) = Some (scast (ucast w :: u32), ap)"
| "va_int _ = None"

fun va_uint :: "varg list \<Rightarrow> (u64 \<times> varg list) option" where
  "va_uint (ANum w # ap) = Some (ucast (ucast w :: u32), ap)"
| "va_uint _ = None"

fun va_long :: "varg list \<Rightarrow> (u64 \<times> varg list) option" where
  "va_long (ANum w # ap) = Some (w, ap)"
| "va_long _ = None"

fun va_str :: "varg list \<Rightarrow> (carray option \<times> varg list) option" where
  "va_str (AStr s # ap) = Some (s, ap)"
| "va_str _ = None"

section \<open>Console output\<close>

fun cchars :: "carray \<Rightarrow> u8 list option" where
  "cchars [] = None"
| "cchars (c # s) = (if c = 0 then Some [] else map_option ((#) c) (cchars s))"

text \<open>\<open>consputc\<close> sends one byte, \<open>consputs\<close> the bytes of a string up to its NUL.\<close>

definition consputc :: "u8 \<Rightarrow> console \<Rightarrow> console" where
  "consputc c st = st\<lparr>uart_out := uart_out st @ [c]\<rparr>"

definition consputs :: "carray \<Rightarrow> console \<Rightarrow> console option" where
  "consputs s st = map_option (\<lambda>cs. st\<lparr>uart_out := uart_out st @ cs\<rparr>) (cchars s)"

definition flush_printf_buffer :: "console \<Rightarrow> console" where
  "flush_printf_buffer st =
     (if 0 < length (printf_buffer st)
      then st\<lparr>uart_out := uart_out st @ takeWhile (\<lambda>c. c \<noteq> 0) (printf_buffer st @ [0]),
              printf_buffer := []\<rparr>
      else st)"

definition buffer_char :: "u8 \<Rightarrow> console \<Rightarrow> console" where
  "buffer_char c st =
     (if length (printf_buffer st) < PRINTF_BUFFER_SIZE - 1
      then st\<lparr>printf_buffer := printf_buffer st @ [c]\<rparr>
      else (let st' = flush_printf_buffer st
            in st'\<lparr>printf_buffer := printf_buffer st' @ [c]\<rparr>))"

section \<open>Integers\<close>

definition digits :: "u8 list" where
  "digits = [48, 49, 50, 51, 52, 53, 54, 55, 56, 57, 97, 98, 99, 100, 101, 102]"

text \<open>
  The digit loop, least significant digit first. Every caller passes base 2, 8, 10 or 16; the
  guard only keeps the recursion defined for the others.
\<close>

function digit_loop :: "nat \<Rightarrow> nat \<Rightarrow> u8 list" where
  "digit_loop base x =
     digits ! (x mod base) #
       (if x div base \<noteq> 0 \<and> 1 < base then digit_loop base (x div base) else [])"
  by pat_completeness auto
termination
  by (relation "measure snd") (auto simp: div_eq_0_iff intro!: div_less_dividend intro: ccontr)

declare digit_loop.simps [simp del]

text \<open>The bytes \<^verbatim>\<open>printint\<close> puts into its \<^verbatim>\<open>buf[32]\<close>: digits and sign, reversed.\<close>

definition printint_buf :: "u64 \<Rightarrow> nat \<Rightarrow> bool \<Rightarrow> u8 list" where
  "printint_buf xx base sign =
     (let neg = sign \<and> sint xx < 0;
          x = (if neg then - xx else xx)
      in digit_loop base (unat x) @ (if neg then [45] else []))"

definition printint :: "u64 \<Rightarrow> nat \<Rightarrow> bool \<Rightarrow> int \<Rightarrow> bool \<Rightarrow> console \<Rightarrow> console option" where
  "printint xx base sign width padzero st =
     (let buf = printint_buf xx base sign; i = length buf
      in if i > 32 then None
         else Some (st\<lparr>uart_out := uart_out st
                @ replicate (nat (width - int i)) (if padzero then 48 else 32) @ rev buf\<rparr>))"

text \<open>
  \<open>int_to_str\<close> uses \<^verbatim>\<open>tmp[32]\<close> for the digits and the caller's \<^verbatim>\<open>numbuf[32]\<close> for sign, digits
  and NUL.
\<close>

definition int_to_str :: "u64 \<Rightarrow> nat \<Rightarrow> bool \<Rightarrow> u8 list option" where
  "int_to_str x base sign =
     (let neg = sign \<and> sint x < 0;
          x' = (if neg then - x else x);
          tmp = digit_loop base (unat x');
          out = (if neg then [45] else []) @ rev tmp
      in if length tmp > 32 \<or> length out + 1 > 32 then None else Some out)"

section \<open>The format interpreter\<close>

fun parse_width :: "nat \<Rightarrow> carray \<Rightarrow> (nat \<times> carray) option" where
  "parse_width w [] = None"
| "parse_width w (c # s) =
     (if 48 \<le> c \<and> c \<le> 57 then parse_width (w * 10 + (unat c - 48)) s else Some (w, c # s))"

text \<open>The directive after a percent sign: zero flag, width, \<^verbatim>\<open>l\<close>, conversion byte, rest of the format.\<close>

fun parse_long :: "bool \<Rightarrow> nat \<Rightarrow> carray \<Rightarrow> (bool \<times> nat \<times> bool \<times> u8 \<times> carray) option" where
  "parse_long padzero width (c # s) =
     (if c = 108
      then (case s of [] \<Rightarrow> None | c' # s' \<Rightarrow> Some (padzero, width, True, c', s'))
      else Some (padzero, width, False, c, s))"
| "parse_long _ _ [] = None"

fun parse_spec :: "carray \<Rightarrow> (bool \<times> nat \<times> bool \<times> u8 \<times> carray) option" where
  "parse_spec [] = None"
| "parse_spec (c # s) =
     (let padzero = (c = 48); s1 = (if c = 48 then s else c # s)
      in case parse_width 0 s1 of
           None \<Rightarrow> None
         | Some (width, s2) \<Rightarrow> parse_long padzero width s2)"

definition hex16 :: "u64 \<Rightarrow> u8 list" where
  "hex16 ptr = map (\<lambda>i. digits ! unat (drop_bit ((15 - i) * 4) ptr AND 15)) [0..<16]"

definition fmt_null :: carray where
  "fmt_null = [40, 110, 117, 108, 108, 41, 0]"

definition put_num ::
  "(u64 \<times> varg list) option \<Rightarrow> nat \<Rightarrow> bool \<Rightarrow> nat \<Rightarrow> bool \<Rightarrow> console
   \<Rightarrow> (varg list \<times> console) option" where
  "put_num arg base sign width padzero st =
     (case arg of
        None \<Rightarrow> None
      | Some (x, ap) \<Rightarrow> map_option (Pair ap) (printint x base sign (int width) padzero st))"

text \<open>The \<^verbatim>\<open>switch\<close> of \<^verbatim>\<open>vprintf\<close>.\<close>

definition vprintf_conv ::
  "bool \<Rightarrow> nat \<Rightarrow> bool \<Rightarrow> u8 \<Rightarrow> varg list \<Rightarrow> console \<Rightarrow> (varg list \<times> console) option" where
  "vprintf_conv padzero width is_long c ap st =
     (if c = 100 then put_num ((if is_long then va_long else va_int) ap) 10 True width padzero st
      else if c = 120 then put_num ((if is_long then va_long else va_int) ap) 16 False width padzero st
      else if c = 117 then put_num ((if is_long then va_long else va_uint) ap) 10 False width padzero st
      else if c = 99 then map_option (\<lambda>(x, ap'). (ap', consputc (ucast x) st)) (va_int ap)
      else if c = 115 then
        (case va_str ap of
           None \<Rightarrow> None
         | Some (s, ap') \<Rightarrow>
             map_option (Pair ap') (consputs (case s of None \<Rightarrow> fmt_null | Some t \<Rightarrow> t) st))
      else if c = 112 then
        (case va_long ap of
           None \<Rightarrow> None
         | Some (ptr, ap') \<Rightarrow>
             (case consputs [48, 120, 0] st of
                None \<Rightarrow> None
              | Some st' \<Rightarrow> map_option (Pair ap') (consputs (hex16 ptr @ [0]) st')))
      else if c = 98 then put_num ((if is_long then va_long else va_int) ap) 2 False width padzero st
      else if c = 111 then put_num ((if is_long then va_long else va_int) ap) 8 False width padzero st
      else if c = 37 then Some (ap, buffer_char 37 st)
      else
        (let st1 = buffer_char 37 st;
             st2 = (if padzero then buffer_char 48 st1 else st1);
             st3 = (if width \<noteq> 0 then buffer_char (of_nat (48 + width)) st2 else st2);
             st4 = (if is_long then buffer_char 108 st3 else st3)
         in Some (ap, buffer_char c st4)))"

lemma parse_width_length: "parse_width w s = Some (w', s') \<Longrightarrow> length s' \<le> length s"
  by (induction w s rule: parse_width.induct) (auto split: if_splits)

lemma parse_spec_length:
  assumes "parse_spec s = Some (z, w, l, c, r)"
  shows "length r < length s"
proof (cases s)
  case Nil
  then show ?thesis using assms by simp
next
  case (Cons d t)
  define s1 where "s1 = (if d = 48 then t else d # t)"
  have "length s1 \<le> length s" using Cons by (simp add: s1_def)
  from assms Cons obtain w' s2 where s2: "parse_width 0 s1 = Some (w', s2)"
      "parse_long (d = 48) w' s2 = Some (z, w, l, c, r)"
    by (auto simp: s1_def Let_def split: option.splits prod.splits)
  from s2(2) have "length r < length s2"
    by (cases s2) (auto split: if_splits list.splits)
  then show ?thesis
    using parse_width_length [OF s2(1)] \<open>length s1 \<le> length s\<close> by simp
qed

function vprintf_loop :: "carray \<Rightarrow> varg list \<Rightarrow> console \<Rightarrow> console option" where
  "vprintf_loop [] ap st = None"
| "vprintf_loop (c # s) ap st =
     (if c = 0 then Some st
      else if c \<noteq> 37 then vprintf_loop s ap (buffer_char c st)
      else
        (case parse_spec s of
           None \<Rightarrow> None
         | Some (padzero, width, is_long, c', rest) \<Rightarrow>
             if is_long \<and> c' = 0 then Some (flush_printf_buffer st)
             else
               (case vprintf_conv padzero width is_long c' ap (flush_printf_buffer st) of
                  None \<Rightarrow> None
                | Some (ap', st') \<Rightarrow> vprintf_loop rest ap' st')))"
  by pat_completeness auto
termination
  by (relation "measure (\<lambda>(s, _, _). length s)") (auto dest: parse_spec_length)

definition vprintf :: "carray \<Rightarrow> varg list \<Rightarrow> console \<Rightarrow> console option" where
  "vprintf fmt ap st = map_option flush_printf_buffer (vprintf_loop fmt ap st)"

section \<open>snprintf\<close>

text \<open>\<open>out\<close> is what has been stored at \<^verbatim>\<open>buf[0..pos)\<close>.\<close>

definition emit :: "nat \<Rightarrow> u8 list \<Rightarrow> u8 list \<Rightarrow> u8 list" where
  "emit sz out cs = out @ take (sz - 1 - length out) cs"

fun str_take :: "nat \<Rightarrow> carray \<Rightarrow> u8 list option" where
  "str_take room [] = None"
| "str_take room (c # s) =
     (if c = 0 \<or> room = 0 then Some [] else map_option ((#) c) (str_take (room - 1) s))"

text \<open>The \<^verbatim>\<open>numbuf\<close> branches of the \<^verbatim>\<open>switch\<close>: the bytes left in \<^verbatim>\<open>numbuf\<close>.\<close>

definition num_str :: "(u64 \<times> varg list) option \<Rightarrow> nat \<Rightarrow> bool \<Rightarrow> (u8 list \<times> varg list) option" where
  "num_str arg base sign =
     (case arg of
        None \<Rightarrow> None
      | Some (x, ap) \<Rightarrow> map_option (\<lambda>bs. (bs, ap)) (int_to_str x base sign))"

definition numbuf :: "bool \<Rightarrow> u8 \<Rightarrow> varg list \<Rightarrow> (u8 list \<times> varg list) option" where
  "numbuf is_long c ap =
     (if c = 100 then num_str ((if is_long then va_long else va_int) ap) 10 True
      else if c = 120 then num_str ((if is_long then va_long else va_int) ap) 16 False
      else if c = 117 then num_str ((if is_long then va_long else va_uint) ap) 10 False
      else if c = 111 then num_str ((if is_long then va_long else va_int) ap) 8 False
      else if c = 98 then num_str ((if is_long then va_long else va_int) ap) 2 False
      else if c = 99 then map_option (\<lambda>(x, ap'). ([ucast x], ap')) (va_int ap)
      else if c = 37 then Some ([37], ap)
      else Some ([37, c], ap))"

definition pad_to :: "bool \<Rightarrow> nat \<Rightarrow> u8 list \<Rightarrow> u8 list" where
  "pad_to padzero width bs =
     replicate (width - length bs) (if padzero then 48 else 32) @ bs"

text \<open>
  A \<^verbatim>\<open>%p\<close> builds 18 bytes in \<^verbatim>\<open>pbuf[18]\<close> and then stores a NUL at index 18, one past its end:
  the model has no defined result for it.
\<close>

function vsnprintf_loop :: "nat \<Rightarrow> carray \<Rightarrow> varg list \<Rightarrow> u8 list \<Rightarrow> u8 list option" where
  "vsnprintf_loop sz [] ap out = None"
| "vsnprintf_loop sz (c # s) ap out =
     (if c = 0 \<or> \<not> length out + 1 < sz then Some out
      else if c \<noteq> 37 then vsnprintf_loop sz s ap (out @ [c])
      else
        (case parse_spec s of
           None \<Rightarrow> None
         | Some (padzero, width, is_long, c', rest) \<Rightarrow>
             if is_long \<and> c' = 0 then Some out
             else if c' = 115 then
               (case va_str ap of
                  None \<Rightarrow> None
                | Some (t, ap') \<Rightarrow>
                    (case str_take (sz - 1 - length out) (case t of None \<Rightarrow> fmt_null | Some u \<Rightarrow> u) of
                       None \<Rightarrow> None
                     | Some cs \<Rightarrow> vsnprintf_loop sz rest ap' (out @ cs)))
             else if c' = 112 then None
             else
               (case numbuf is_long c' ap of
                  None \<Rightarrow> None
                | Some (bs, ap') \<Rightarrow>
                    vsnprintf_loop sz rest ap' (emit sz out (pad_to padzero width bs)))))"
  by pat_completeness auto
termination
  by (relation "measure (\<lambda>(_, s, _, _). length s)") (auto dest: parse_spec_length)

text \<open>The final NUL goes to \<^verbatim>\<open>buf[pos]\<close>, which exists only for a non-empty buffer.\<close>

definition vsnprintf :: "nat \<Rightarrow> carray \<Rightarrow> varg list \<Rightarrow> u8 list option" where
  "vsnprintf sz fmt ap = (if sz = 0 then None else vsnprintf_loop sz fmt ap [])"

section \<open>Terminal control\<close>

definition esc_num :: "u64 \<Rightarrow> u8 \<Rightarrow> console \<Rightarrow> console option" where
  "esc_num n final st =
     map_option (consputc final) (printint n 10 False 0 False (consputc 91 (consputc 27 st)))"

definition cursor_up :: "u32 \<Rightarrow> console \<Rightarrow> console option" where
  "cursor_up lines st = (if sint lines \<le> 0 then Some st else esc_num (scast lines) 65 st)"

definition cursor_down :: "u32 \<Rightarrow> console \<Rightarrow> console option" where
  "cursor_down lines st = (if sint lines \<le> 0 then Some st else esc_num (scast lines) 66 st)"

definition cursor_right :: "u32 \<Rightarrow> console \<Rightarrow> console option" where
  "cursor_right cols st = (if sint cols \<le> 0 then Some st else esc_num (scast cols) 67 st)"

definition cursor_left :: "u32 \<Rightarrow> console \<Rightarrow> console option" where
  "cursor_left cols st = (if sint cols \<le> 0 then Some st else esc_num (scast cols) 68 st)"

definition save_cursor :: "console \<Rightarrow> console" where
  "save_cursor st = consputc 115 (consputc 91 (consputc 27 st))"

definition restore_cursor :: "console \<Rightarrow> console" where
  "restore_cursor st = consputc 117 (consputc 91 (consputc 27 st))"

definition goto_rc :: "u32 \<Rightarrow> u32 \<Rightarrow> console \<Rightarrow> console option" where
  "goto_rc row col st =
     (case printint (scast row) 10 False 0 False (consputc 91 (consputc 27 st)) of
        None \<Rightarrow> None
      | Some st' \<Rightarrow>
          map_option (consputc 72) (printint (scast col) 10 False 0 False (consputc 59 st')))"

definition clear_screen :: "console \<Rightarrow> console option" where
  "clear_screen st =
     (case consputs [27, 91, 50, 74, 0] st of
        None \<Rightarrow> None
      | Some st' \<Rightarrow> consputs [27, 91, 72, 0] st')"

definition clear_line :: "console \<Rightarrow> console" where
  "clear_line st = consputc 75 (consputc 50 (consputc 91 (consputc 27 st)))"

definition reset_color :: "console \<Rightarrow> console option" where
  "reset_color st = consputs [27, 91, 48, 109, 0] st"

datatype color_t = BLACK | RED | GREEN | YELLOW | BLUE | PURPLE | CYAN | REVERSE

primrec color_num :: "color_t \<Rightarrow> nat" where
  "color_num BLACK = 0"
| "color_num RED = 1"
| "color_num GREEN = 2"
| "color_num YELLOW = 3"
| "color_num BLUE = 4"
| "color_num PURPLE = 5"
| "color_num CYAN = 6"
| "color_num REVERSE = 7"

definition set_fg_color :: "color_t \<Rightarrow> console \<Rightarrow> console option" where
  "set_fg_color color st =
     (let code = 30 + color_num color
      in if code < 30 \<or> code > 37 then Some st else esc_num (of_nat code) 109 st)"

definition set_bg_color :: "color_t \<Rightarrow> console \<Rightarrow> console option" where
  "set_bg_color color st =
     (let code = 30 + color_num color
      in if code < 40 \<or> code > 47 then Some st else esc_num (of_nat code) 109 st)"

text \<open>
  \<^verbatim>\<open>warning\<close> and \<^verbatim>\<open>panic\<close> print a coloured prefix and the message; \<^verbatim>\<open>panic\<close> then loops for
  ever, which its callers' models represent by a stop value.
\<close>

definition tagged :: "color_t \<Rightarrow> carray \<Rightarrow> carray \<Rightarrow> varg list \<Rightarrow> console \<Rightarrow> console option" where
  "tagged color tag fmt ap st =
     Option.bind (set_fg_color color st) (\<lambda>st1.
     Option.bind (vprintf tag [] st1) (\<lambda>st2.
     Option.bind (vprintf fmt ap st2) reset_color))"

definition warning :: "carray \<Rightarrow> varg list \<Rightarrow> console \<Rightarrow> console option" where
  "warning fmt ap st = tagged PURPLE [91, 87, 65, 82, 78, 73, 78, 71, 93, 32, 0] fmt ap st"

definition panic_message :: "carray \<Rightarrow> varg list \<Rightarrow> console \<Rightarrow> console option" where
  "panic_message fmt ap st = tagged RED [91, 80, 65, 78, 73, 67, 93, 32, 0] fmt ap st"

section \<open>Digits\<close>

lemma digits_decimal: "d < 10 \<Longrightarrow> digits ! d = of_nat (48 + d)"
  by (auto simp: digits_def less_Suc_eq numeral_eq_Suc)

lemma digit_loop_nonempty [simp]: "digit_loop base x \<noteq> []"
  by (subst digit_loop.simps) simp

lemma digit_loop_length:
  assumes "2 \<le> base"
  shows "length (digit_loop base x) \<le> Suc k \<longleftrightarrow> x < base ^ Suc k"
proof (induction k arbitrary: x)
  case 0
  have "x div base = 0 \<longleftrightarrow> x < base" using assms by (simp add: div_eq_0_iff)
  then show ?case using assms by (subst digit_loop.simps) simp
next
  case (Suc k)
  have "x div base < base ^ Suc k \<longleftrightarrow> x < base ^ Suc (Suc k)"
    using assms by (simp add: div_less_iff_less_mult mult.commute)
  moreover have "x div base = 0 \<Longrightarrow> x < base ^ Suc (Suc k)"
    using assms calculation by simp
  ultimately show ?case
    using assms Suc.IH [of "x div base"] by (subst digit_loop.simps) auto
qed

lemma decimal_digit_range:
  assumes "d < 10"
  shows "48 \<le> (of_nat (48 + d) :: u8)" and "(of_nat (48 + d) :: u8) \<le> 57"
    and "(ucast (of_nat (48 + d) :: u8) - 48 :: u32) = of_nat d"
proof -
  have u: "unat (of_nat (48 + d) :: u8) = 48 + d" using assms by (subst unat_of_nat) simp
  show "48 \<le> (of_nat (48 + d) :: u8)" "(of_nat (48 + d) :: u8) \<le> 57"
    using assms u by (simp_all only: word_le_nat_alt) simp_all
  have "(ucast (of_nat (48 + d) :: u8) :: u32) = of_nat (48 + d)"
    using u by (metis of_nat_unat)
  then show "(ucast (of_nat (48 + d) :: u8) - 48 :: u32) = of_nat d" by simp
qed

lemma digit_loop_10:
  "digit_loop 10 x = of_nat (48 + x mod 10) #
     (if x div 10 \<noteq> 0 then digit_loop 10 (x div 10) else [])"
  by (subst digit_loop.simps) (simp add: digits_decimal)

lemma digit_loop_decimal_digits: "c \<in> set (digit_loop 10 x) \<Longrightarrow> 48 \<le> c \<and> c \<le> 57"
proof (induction x rule: less_induct)
  case (less x)
  have "48 \<le> (of_nat (48 + x mod 10) :: u8) \<and> (of_nat (48 + x mod 10) :: u8) \<le> 57"
    using decimal_digit_range [of "x mod 10"] by simp
  moreover have "x div 10 < x" if "0 < x div 10" using that by (simp add: div_greater_zero_iff)
  ultimately show ?case
    using less.IH [of "x div 10"] less.prems
    by (subst (asm) (2) digit_loop_10) (auto split: if_splits simp del: of_nat_add)
qed

lemma atoi_digits_decimal:
  "atoi_digits (rev (digit_loop 10 x) @ t) acc =
     atoi_digits t (acc * 10 ^ length (digit_loop 10 x) + of_nat x)"
proof (induction x arbitrary: t acc rule: less_induct)
  case (less x)
  let ?d = "of_nat (48 + x mod 10) :: u8"
  have d: "atoi_digits (?d # t) a = atoi_digits t (a * 10 + of_nat (x mod 10))" for a
    using decimal_digit_range [of "x mod 10"] by (simp del: of_nat_add)
  show ?case
  proof (cases "x div 10 = 0")
    case True
    then have "x mod 10 = x" by (simp add: div_eq_0_iff)
    then show ?thesis using True d by (simp add: digit_loop_10 [of x] del: of_nat_add)
  next
    case False
    then have "x div 10 < x" by (simp add: div_eq_0_iff)
    from less.IH [OF this] False d
    have "atoi_digits (rev (digit_loop 10 x) @ t) acc =
        atoi_digits t ((acc * 10 ^ length (digit_loop 10 (x div 10)) + of_nat (x div 10)) * 10
          + of_nat (x mod 10))"
      by (simp add: digit_loop_10 [of x] del: of_nat_add)
    moreover have "(of_nat x :: u32) = of_nat (x div 10) * 10 + of_nat (x mod 10)"
      by (metis div_mult_mod_eq of_nat_add of_nat_mult of_nat_numeral)
    ultimately show ?thesis using False by (simp add: digit_loop_10 [of x] algebra_simps)
  qed
qed

lemma int_to_str_decimal:
  "int_to_str x 10 True = Some
     ((if sint x < 0 then [45] else []) @
      rev (digit_loop 10 (unat (if sint x < 0 then - x else x))))"
proof -
  define y where "y = (if sint x < 0 then - x else x)"
  have "unat y < 10 ^ Suc 19" using unat_lt_pow [of y] by simp
  then have "length (digit_loop 10 (unat y)) \<le> Suc 19"
    using digit_loop_length [of 10 "unat y" 19] by simp
  then have "\<not> 30 < length (digit_loop 10 (unat y))" by simp
  then show ?thesis by (auto simp: int_to_str_def Let_def y_def)
qed

lemma ucast_of_nat_unat: "(of_nat (unat (x :: u64)) :: u32) = ucast x"
  by simp

lemma ucast_uminus: "(ucast (- x :: u64) :: u32) = - ucast x"
proof -
  have "take_bit 32 (take_bit 64 (- k)) = take_bit 32 (- take_bit 64 k)" for k :: int
  proof -
    have "k mod 2 ^ 64 mod 2 ^ 32 = k mod 2 ^ 32" by (rule mod_mod_cancel) simp
    then have "(- (k mod 2 ^ 64)) mod 2 ^ 32 = (- k) mod 2 ^ 32" by (metis mod_minus_eq)
    moreover have "(- k) mod 2 ^ 64 mod 2 ^ 32 = (- k) mod 2 ^ 32" by (rule mod_mod_cancel) simp
    ultimately show ?thesis by (simp only: take_bit_eq_mod)
  qed
  then show ?thesis by transfer simp
qed

lemma map_option_times_1: "map_option ((*) (1 :: u32)) r = r"
  by (cases r) simp_all

lemma atoi_digit_start:
  assumes "cs \<noteq> []" and "\<And>c. c \<in> set cs \<Longrightarrow> 48 \<le> c \<and> c \<le> 57"
  shows "atoi (cs @ t) = atoi_digits (cs @ t) 0"
proof -
  obtain c cs' where cs: "cs = c # cs'" using assms(1) by (cases cs) auto
  then have "48 \<le> unat c" using assms(2) [of c] by (simp add: word_le_nat_alt)
  then have "c \<noteq> 32" "c \<noteq> 9" "c \<noteq> 45" "c \<noteq> 43" by auto
  then show ?thesis
    using cs by (simp add: atoi_def map_option_times_1)
qed

section \<open>Buffering is transparent\<close>

text \<open>
  The reference: what a directive contributes to the output, with no buffer between the
  format interpreter and the console.
\<close>

definition num_out ::
  "(u64 \<times> varg list) option \<Rightarrow> nat \<Rightarrow> bool \<Rightarrow> nat \<Rightarrow> bool \<Rightarrow> (u8 list \<times> varg list) option" where
  "num_out arg base sign width padzero =
     (case arg of
        None \<Rightarrow> None
      | Some (x, ap) \<Rightarrow>
          if length (printint_buf x base sign) > 32 then None
          else Some (pad_to padzero width (rev (printint_buf x base sign)), ap))"

definition conv_out ::
  "bool \<Rightarrow> nat \<Rightarrow> bool \<Rightarrow> u8 \<Rightarrow> varg list \<Rightarrow> (u8 list \<times> varg list) option" where
  "conv_out padzero width is_long c ap =
     (if c = 100 then num_out ((if is_long then va_long else va_int) ap) 10 True width padzero
      else if c = 120 then num_out ((if is_long then va_long else va_int) ap) 16 False width padzero
      else if c = 117 then num_out ((if is_long then va_long else va_uint) ap) 10 False width padzero
      else if c = 99 then map_option (\<lambda>(x, ap'). ([ucast x], ap')) (va_int ap)
      else if c = 115 then
        Option.bind (va_str ap) (\<lambda>(s, ap').
          map_option (\<lambda>cs. (cs, ap')) (cchars (case s of None \<Rightarrow> fmt_null | Some t \<Rightarrow> t)))
      else if c = 112 then map_option (\<lambda>(p, ap'). (48 # 120 # hex16 p, ap')) (va_long ap)
      else if c = 98 then num_out ((if is_long then va_long else va_int) ap) 2 False width padzero
      else if c = 111 then num_out ((if is_long then va_long else va_int) ap) 8 False width padzero
      else if c = 37 then Some ([37], ap)
      else Some ([37] @ (if padzero then [48] else []) @
                 (if width \<noteq> 0 then [of_nat (48 + width)] else []) @
                 (if is_long then [108] else []) @ [c], ap))"

function format_out :: "carray \<Rightarrow> varg list \<Rightarrow> u8 list option" where
  "format_out [] ap = None"
| "format_out (c # s) ap =
     (if c = 0 then Some []
      else if c \<noteq> 37 then map_option ((#) c) (format_out s ap)
      else
        (case parse_spec s of
           None \<Rightarrow> None
         | Some (padzero, width, is_long, c', rest) \<Rightarrow>
             if is_long \<and> c' = 0 then Some []
             else
               (case conv_out padzero width is_long c' ap of
                  None \<Rightarrow> None
                | Some (bs, ap') \<Rightarrow> map_option ((@) bs) (format_out rest ap'))))"
  by pat_completeness auto
termination
  by (relation "measure (\<lambda>(s, _). length s)") (auto dest: parse_spec_length)

definition pending :: "console \<Rightarrow> u8 list" where
  "pending st = uart_out st @ printf_buffer st"

definition buf_ok :: "console \<Rightarrow> bool" where
  "buf_ok st \<longleftrightarrow> length (printf_buffer st) < PRINTF_BUFFER_SIZE \<and> 0 \<notin> set (printf_buffer st)"

lemma flush_pending:
  assumes "buf_ok st"
  shows "uart_out (flush_printf_buffer st) = pending st"
    and "printf_buffer (flush_printf_buffer st) = []"
proof -
  have "takeWhile (\<lambda>c. c \<noteq> 0) (printf_buffer st @ [0]) = printf_buffer st"
    using assms by (subst takeWhile_append2) (auto simp: buf_ok_def)
  then show "uart_out (flush_printf_buffer st) = pending st"
    and "printf_buffer (flush_printf_buffer st) = []"
    by (auto simp: flush_printf_buffer_def pending_def)
qed

lemma flush_ok [simp]: "buf_ok st \<Longrightarrow> buf_ok (flush_printf_buffer st)"
  using flush_pending(2) [of st] by (simp add: buf_ok_def PRINTF_BUFFER_SIZE_def)

lemma buffer_char_pending:
  assumes "buf_ok st" and "c \<noteq> 0"
  shows "pending (buffer_char c st) = pending st @ [c]" and "buf_ok (buffer_char c st)"
  using assms flush_pending [OF assms(1)]
  by (auto simp: buffer_char_def pending_def buf_ok_def PRINTF_BUFFER_SIZE_def Let_def)

definition emits :: "console \<Rightarrow> u8 list \<Rightarrow> console \<Rightarrow> bool" where
  "emits st bs st' \<longleftrightarrow> pending st' = pending st @ bs \<and> buf_ok st'"

lemma emits_buffer_char: "emits st bs st' \<Longrightarrow> c \<noteq> 0 \<Longrightarrow> emits st (bs @ [c]) (buffer_char c st')"
  using buffer_char_pending [of st' c] by (simp add: emits_def)

lemma emits_start: "buf_ok st \<Longrightarrow> emits st [] st"
  by (simp add: emits_def)

lemma consputs_cchars: "consputs s st = map_option (\<lambda>cs. st\<lparr>uart_out := uart_out st @ cs\<rparr>) (cchars s)"
  by (simp add: consputs_def)

lemma cchars_terminated: "0 \<notin> set cs \<Longrightarrow> cchars (cs @ 0 # r) = Some cs"
  by (induction cs) auto

lemma digits_nonzero:
  assumes "i < 16"
  shows "digits ! i \<noteq> 0"
proof -
  have "digits ! i \<in> set digits" using assms by (intro nth_mem) (simp add: digits_def)
  moreover have "0 \<notin> set digits" by (simp add: digits_def)
  ultimately show ?thesis by metis
qed

lemma hex16_nonzero: "0 \<notin> set (hex16 p)"
proof -
  have "unat (x AND 15 :: u64) < 16" for x
  proof -
    have "x AND 15 \<le> (15 :: u64)" by (rule word_and_le1)
    then show ?thesis by (simp add: word_le_nat_alt)
  qed
  then show ?thesis using digits_nonzero by (auto simp: hex16_def)
qed

lemma emits_direct:
  "printf_buffer st = [] \<Longrightarrow> emits st bs (st\<lparr>uart_out := uart_out st @ bs\<rparr>)"
  by (simp add: emits_def pending_def buf_ok_def PRINTF_BUFFER_SIZE_def)

lemma nat_int_minus: "nat (int a - int b) = a - b"
  by simp

lemma put_num_emits:
  assumes "num_out arg base sign width padzero = Some (bs, ap')" and "printf_buffer st = []"
  shows "\<exists>st'. put_num arg base sign width padzero st = Some (ap', st') \<and> emits st bs st'"
  using assms emits_direct [of st]
  by (auto simp: num_out_def put_num_def printint_def Let_def pad_to_def
      nat_int_minus split: option.splits if_splits)

lemma default_emits:
  assumes "buf_ok st" and "0 \<notin> set bs"
    and "bs = [37] @ (if padzero then [48] else []) @
      (if width \<noteq> 0 then [of_nat (48 + width)] else []) @ (if is_long then [108] else []) @ [c]"
  shows "emits st bs
    (let st1 = buffer_char 37 st;
         st2 = (if padzero then buffer_char 48 st1 else st1);
         st3 = (if width \<noteq> 0 then buffer_char (of_nat (48 + width)) st2 else st2);
         st4 = (if is_long then buffer_char 108 st3 else st3)
     in buffer_char c st4)"
proof -
  define b1 where "b1 = [37 :: u8]"
  define b2 where "b2 = b1 @ (if padzero then [48] else [])"
  define b3 where "b3 = b2 @ (if width \<noteq> 0 then [of_nat (48 + width)] else [])"
  define b4 where "b4 = b3 @ (if is_long then [108] else [])"
  have bs: "bs = b4 @ [c]" using assms(3) by (simp add: b1_def b2_def b3_def b4_def)
  define st1 where "st1 = buffer_char 37 st"
  define st2 where "st2 = (if padzero then buffer_char 48 st1 else st1)"
  define st3 where "st3 = (if width \<noteq> 0 then buffer_char (of_nat (48 + width)) st2 else st2)"
  define st4 where "st4 = (if is_long then buffer_char 108 st3 else st3)"
  have e1: "emits st b1 st1"
    using emits_buffer_char [OF emits_start [OF assms(1)], of 37] by (simp add: b1_def st1_def)
  then have e2: "emits st b2 st2"
    using emits_buffer_char [of st b1 st1 48] by (simp add: b2_def st2_def)
  moreover have "width \<noteq> 0 \<Longrightarrow> (of_nat (48 + width) :: u8) \<noteq> 0"
    using assms(2) bs unfolding b4_def b3_def by (auto simp del: of_nat_add)
  ultimately have "emits st b3 st3"
    using emits_buffer_char [of st b2 st2 "of_nat (48 + width)"] by (simp add: b3_def st3_def del: of_nat_add)
  then have "emits st b4 st4"
    using emits_buffer_char [of st b3 st3 108] by (simp add: b4_def st4_def)
  then have "emits st (b4 @ [c]) (buffer_char c st4)"
    using assms(2) bs by (intro emits_buffer_char) auto
  then show ?thesis
    unfolding bs Let_def st4_def st3_def st2_def st1_def .
qed

lemma vprintf_conv_emits:
  assumes "conv_out padzero width is_long c ap = Some (bs, ap')"
    and "0 \<notin> set bs" and st: "printf_buffer st = []"
  shows "\<exists>st'. vprintf_conv padzero width is_long c ap st = Some (ap', st') \<and> emits st bs st'"
proof -
  have ok: "buf_ok st" using st by (simp add: buf_ok_def PRINTF_BUFFER_SIZE_def)
  note num = put_num_emits [OF _ st]
  consider (num) "c \<in> {100, 120, 117, 98, 111}" | (chr) "c = 99" | (str) "c = 115" | (ptr) "c = 112"
    | (pct) "c = 37" | (other) "c \<notin> {100, 120, 117, 98, 111, 99, 115, 112, 37}"
    by auto
  then show ?thesis
  proof cases
    case num
    then show ?thesis
      using assms(1) by (auto simp: conv_out_def vprintf_conv_def dest!: put_num_emits [OF _ st])
  next
    case chr
    then show ?thesis
      using assms(1) emits_direct [OF st]
      by (auto simp: conv_out_def vprintf_conv_def consputc_def)
  next
    case str
    then show ?thesis
      using assms(1) emits_direct [OF st]
      by (auto simp: conv_out_def vprintf_conv_def consputs_def bind_eq_Some_conv)
  next
    case ptr
    then show ?thesis
      using assms(1) emits_direct [OF st] cchars_terminated [OF hex16_nonzero, of _ "[]"]
      by (auto simp: conv_out_def vprintf_conv_def consputs_def)
  next
    case pct
    then show ?thesis
      using assms(1) emits_buffer_char [OF emits_start [OF ok], of 37]
      by (auto simp: conv_out_def vprintf_conv_def)
  next
    case other
    then have bs: "bs = [37] @ (if padzero then [48] else []) @
        (if width \<noteq> 0 then [of_nat (48 + width)] else []) @ (if is_long then [108] else []) @ [c]"
      and "ap' = ap"
      using assms(1) by (simp_all add: conv_out_def)
    with other show ?thesis
      using default_emits [OF ok assms(2) bs] by (simp add: vprintf_conv_def Let_def)
  qed
qed

lemma emits_trans: "emits st bs st' \<Longrightarrow> emits st' cs st'' \<Longrightarrow> emits st (bs @ cs) st''"
  by (simp add: emits_def)

lemma vprintf_loop_emits:
  assumes "format_out fmt ap = Some bs" and "0 \<notin> set bs" and "buf_ok st"
  shows "\<exists>st'. vprintf_loop fmt ap st = Some st' \<and> emits st bs st'"
  using assms
proof (induction fmt ap arbitrary: st bs rule: format_out.induct)
  case (1 ap)
  then show ?case by simp
next
  case (2 c s ap)
  have fl: "emits st [] (flush_printf_buffer st)"
    using flush_pending [OF "2.prems"(3)] "2.prems"(3) by (simp add: emits_def pending_def)
  consider (nul) "c = 0" | (lit) "c \<noteq> 0" "c \<noteq> 37" | (dir) "c = 37" by auto
  then show ?case
  proof cases
    case nul
    then show ?thesis using 2 emits_start by auto
  next
    case lit
    then obtain cs where cs: "format_out s ap = Some cs" "bs = c # cs"
      using "2.prems" by auto
    note b = emits_buffer_char [OF emits_start [OF "2.prems"(3)] lit(1)]
    have "\<exists>st'. vprintf_loop s ap (buffer_char c st) = Some st' \<and> emits (buffer_char c st) cs st'"
      by (rule "2.IH"(1)) (use lit cs "2.prems" b in \<open>auto simp: emits_def\<close>)
    then obtain st' where "vprintf_loop s ap (buffer_char c st) = Some st'"
        "emits (buffer_char c st) cs st'"
      by auto
    then show ?thesis using lit cs emits_trans [OF b] by auto
  next
    case dir
    then obtain z w l c' rest where p: "parse_spec s = Some (z, w, l, c', rest)"
      using "2.prems" by (auto split: option.splits)
    show ?thesis
    proof (cases "l \<and> c' = 0")
      case True
      then show ?thesis using dir p "2.prems" fl by auto
    next
      case False
      then obtain b1 ap' b2 where co: "conv_out z w l c' ap = Some (b1, ap')"
          "format_out rest ap' = Some b2" "bs = b1 @ b2"
        using dir p "2.prems" by (auto split: option.splits)
      have "0 \<notin> set b1" using co "2.prems" by simp
      from vprintf_conv_emits [OF co(1) this flush_pending(2) [OF "2.prems"(3)]]
      obtain st1 where st1: "vprintf_conv z w l c' ap (flush_printf_buffer st) = Some (ap', st1)"
          "emits (flush_printf_buffer st) b1 st1"
        by auto
      have "\<exists>st'. vprintf_loop rest ap' st1 = Some st' \<and> emits st1 b2 st'"
        by (rule "2.IH"(2)) (use dir p False co st1 "2.prems" in \<open>auto simp: emits_def\<close>)
      then show ?thesis
        using dir p False st1 co emits_trans [OF emits_trans [OF fl st1(2)]] by auto
    qed
  qed
qed

section \<open>Truncation by snprintf\<close>

text \<open>The reference: the string an unbounded buffer would receive.\<close>

function snformat_out :: "carray \<Rightarrow> varg list \<Rightarrow> u8 list option" where
  "snformat_out [] ap = None"
| "snformat_out (c # s) ap =
     (if c = 0 then Some []
      else if c \<noteq> 37 then map_option ((#) c) (snformat_out s ap)
      else
        (case parse_spec s of
           None \<Rightarrow> None
         | Some (padzero, width, is_long, c', rest) \<Rightarrow>
             if is_long \<and> c' = 0 then Some []
             else if c' = 115 then
               (case va_str ap of
                  None \<Rightarrow> None
                | Some (t, ap') \<Rightarrow>
                    (case cchars (case t of None \<Rightarrow> fmt_null | Some u \<Rightarrow> u) of
                       None \<Rightarrow> None
                     | Some cs \<Rightarrow> map_option ((@) cs) (snformat_out rest ap')))
             else if c' = 112 then None
             else
               (case numbuf is_long c' ap of
                  None \<Rightarrow> None
                | Some (bs, ap') \<Rightarrow>
                    map_option ((@) (pad_to padzero width bs)) (snformat_out rest ap'))))"
  by pat_completeness auto
termination
  by (relation "measure (\<lambda>(s, _). length s)") (auto dest: parse_spec_length)

lemma str_take_cchars: "cchars s = Some cs \<Longrightarrow> str_take room s = Some (take room cs)"
  by (induction room s arbitrary: cs rule: str_take.induct) (auto simp: take_Cons' split: if_splits)

lemma vsnprintf_loop_full:
  assumes "snformat_out fmt ap = Some bs" and "length out = sz - 1"
  shows "vsnprintf_loop sz fmt ap out = Some out"
  using assms by (cases fmt) auto

lemma vsnprintf_loop_truncates:
  assumes "snformat_out fmt ap = Some bs" and "length out \<le> sz - 1"
  shows "vsnprintf_loop sz fmt ap out = Some (out @ take (sz - 1 - length out) bs)"
  using assms
proof (induction fmt ap arbitrary: out bs rule: snformat_out.induct)
  case (1 ap)
  then show ?case by simp
next
  case (2 c s ap)
  show ?case
  proof (cases "length out = sz - 1")
    case True
    then show ?thesis using vsnprintf_loop_full [OF "2.prems"(1) True] by simp
  next
    case False
    then have room: "length out + 1 < sz" and lt: "length out < sz - 1" using "2.prems" by auto
    consider (nul) "c = 0" | (lit) "c \<noteq> 0" "c \<noteq> 37" | (dir) "c = 37" by auto
    then show ?thesis
    proof cases
      case nul
      then show ?thesis using 2 by simp
    next
      case lit
      then obtain cs where cs: "snformat_out s ap = Some cs" "bs = c # cs"
        using "2.prems" by auto
      have "vsnprintf_loop sz s ap (out @ [c]) =
          Some ((out @ [c]) @ take (sz - 1 - length (out @ [c])) cs)"
        by (rule "2.IH"(1)) (use lit cs lt in auto)
      then show ?thesis using lit cs room lt by (simp add: take_Cons')
    next
      case dir
      then obtain z w l c' rest where p: "parse_spec s = Some (z, w, l, c', rest)"
        using "2.prems" by (auto split: option.splits)
      consider (brk) "l \<and> c' = 0" | (str) "c' = 115" | (num) "\<not> (l \<and> c' = 0)" "c' \<noteq> 115" by auto
      then show ?thesis
      proof cases
        case brk
        then show ?thesis using dir p "2.prems" room by auto
      next
        case str
        then obtain t ap' b1 b2 where t: "va_str ap = Some (t, ap')"
            "cchars (case t of None \<Rightarrow> fmt_null | Some u \<Rightarrow> u) = Some b1"
            "snformat_out rest ap' = Some b2" "bs = b1 @ b2"
          using dir p "2.prems" by (auto split: option.splits)
        let ?o = "out @ take (sz - 1 - length out) b1"
        have "vsnprintf_loop sz rest ap' ?o = Some (?o @ take (sz - 1 - length ?o) b2)"
          by (rule "2.IH"(2)) (use dir p str t lt in auto)
        then show ?thesis
          using dir p str t room str_take_cchars [OF t(2)] by (simp add: min_def diff_diff_left)
      next
        case num
        then obtain b1 ap' b2 where t: "numbuf l c' ap = Some (b1, ap')" "c' \<noteq> 112"
            "snformat_out rest ap' = Some b2" "bs = pad_to z w b1 @ b2"
          using dir p "2.prems" by (auto split: option.splits if_splits)
        let ?o = "emit sz out (pad_to z w b1)"
        have "vsnprintf_loop sz rest ap' ?o = Some (?o @ take (sz - 1 - length ?o) b2)"
          by (rule "2.IH"(3)) (use dir p num t lt in \<open>auto simp: emit_def\<close>)
        then show ?thesis
          using dir p num t room by (auto simp: emit_def min_def diff_diff_left)
      qed
    qed
  qed
qed

section \<open>Properties\<close>

text \<open>C33. Buffering is transparent: if the format is well formed for its arguments and produces
  no NUL byte, \<^verbatim>\<open>vprintf\<close> returns, sends exactly the reference output to the UART after
  whatever was sent or buffered before, and leaves the buffer empty.\<close>

theorem vprintf_refines_format:
  assumes "format_out fmt ap = Some bs" and "0 \<notin> set bs" and "buf_ok st"
  shows "\<exists>st'. vprintf fmt ap st = Some st' \<and> uart_out st' = pending st @ bs \<and>
    printf_buffer st' = []"
  using vprintf_loop_emits [OF assms] flush_pending by (auto simp: vprintf_def emits_def)

theorem vprintf_refines_format_witness:
  "\<exists>st'. vprintf [112, 61, 37, 100, 0] [ANum 7] \<lparr>printf_buffer = [], uart_out = [33]\<rparr> = Some st'
    \<and> uart_out st' = pending \<lparr>printf_buffer = [], uart_out = [33]\<rparr> @ [112, 61, 55]
    \<and> printf_buffer st' = []"
  by (rule vprintf_refines_format)
    (simp_all add: buf_ok_def PRINTF_BUFFER_SIZE_def conv_out_def num_out_def printint_buf_def
      digit_loop.simps digits_def pad_to_def)

text \<open>\<^verbatim>\<open>vsnprintf\<close> with a non-empty buffer stores exactly the first \<open>size - 1\<close> bytes of the
  string an unbounded buffer would receive (and then the NUL), so it never passes the end.\<close>

theorem vsnprintf_truncates:
  assumes "snformat_out fmt ap = Some bs" and "0 < sz"
  shows "vsnprintf sz fmt ap = Some (take (sz - 1) bs)"
  using vsnprintf_loop_truncates [OF assms(1), of "[]" sz] assms(2) by (simp add: vsnprintf_def)

theorem vsnprintf_truncates_witness:
  "vsnprintf 4 [97, 37, 120, 98, 0] [ANum 255] = Some (take (4 - 1) [97, 102, 102, 98])"
  by (rule vsnprintf_truncates)
    (simp_all add: numbuf_def num_str_def int_to_str_def digit_loop.simps digits_def pad_to_def)

text \<open>Decimal output and \<^verbatim>\<open>atoi\<close> are inverse: for every 64-bit value, \<^verbatim>\<open>int_to_str\<close> in base
  10 fits its buffers, and \<^verbatim>\<open>atoi\<close> reads the string back as the value's low 32 bits, sign
  included.\<close>

theorem atoi_int_to_str:
  "\<exists>s. int_to_str x 10 True = Some s \<and> atoi (s @ 0 # r) = Some (ucast x)"
proof (cases "sint x < 0")
  case True
  have "atoi (([45] @ rev (digit_loop 10 (unat (- x)))) @ 0 # r) =
      map_option ((*) (- 1)) (atoi_digits (rev (digit_loop 10 (unat (- x))) @ 0 # r) 0)"
    by (simp add: atoi_def)
  also have "\<dots> = Some (ucast x)"
    by (simp add: atoi_digits_decimal ucast_uminus)
  finally show ?thesis using True by (simp add: int_to_str_decimal)
next
  case False
  have "atoi (rev (digit_loop 10 (unat x)) @ 0 # r) =
      atoi_digits (rev (digit_loop 10 (unat x)) @ 0 # r) 0"
    by (rule atoi_digit_start) (simp, metis set_rev digit_loop_decimal_digits)
  also have "\<dots> = Some (ucast x)" by (simp add: atoi_digits_decimal)
  finally show ?thesis using False by (simp add: int_to_str_decimal)
qed

text \<open>Local buffer bounds of \<^verbatim>\<open>printint\<close>: octal, decimal and hexadecimal output of any
  64-bit value fits \<^verbatim>\<open>buf[32]\<close>, but binary output fits exactly for values below \<open>2 ^ 32\<close>; a
  larger value, in particular every negative \<^verbatim>\<open>int\<close>, overruns the array.\<close>

theorem printint_buffer_bounds:
  "(base \<in> {8, 10, 16} \<longrightarrow> (\<exists>st'. printint x base sign width padzero st = Some st')) \<and>
   (printint x 2 False width padzero st = None \<longleftrightarrow> 2 ^ 32 \<le> unat x)"
proof -
  have len: "length (printint_buf x base sign) \<le> 32" if "base \<in> {8, 10, 16}"
  proof -
    define y where "y = (if sign \<and> sint x < 0 then - x else x)"
    have "unat y < 2 ^ 64" using unat_lt_pow [of y] by simp
    also have "(2 :: nat) ^ 64 \<le> base ^ Suc 21" using that by auto
    finally have "length (digit_loop base (unat y)) \<le> Suc 21"
      using digit_loop_length [of base "unat y" 21] that by auto
    then show ?thesis by (auto simp: printint_buf_def Let_def y_def split: if_splits)
  qed
  moreover have "length (printint_buf x 2 False) \<le> 32 \<longleftrightarrow> unat x < 2 ^ 32"
    using digit_loop_length [of 2 "unat x" 31] by (simp add: printint_buf_def)
  ultimately show ?thesis by (auto simp: printint_def Let_def not_less not_le)
qed

theorem printint_buffer_bounds_witness:
  "(\<exists>st'. printint 4294967296 10 False 0 False \<lparr>printf_buffer = [], uart_out = []\<rparr> = Some st') \<and>
   printint 4294967296 2 False 0 False \<lparr>printf_buffer = [], uart_out = []\<rparr> = None"
  using printint_buffer_bounds [of 10 4294967296 False 0 False "\<lparr>printf_buffer = [], uart_out = []\<rparr>"]
  by simp

text \<open>\<^verbatim>\<open>set_bg_color\<close> computes the foreground code but tests it against the background
  range, so it changes nothing for any colour, while \<^verbatim>\<open>set_fg_color\<close> always emits the
  escape sequence of its colour.\<close>

theorem set_bg_color_emits_nothing:
  "set_bg_color color st = Some st \<and>
   set_fg_color color st =
     Some (st\<lparr>uart_out := uart_out st @ [27, 91, 51, 48 + of_nat (color_num color), 109]\<rparr>)"
proof -
  have "color_num color \<le> 7" by (cases color) simp_all
  moreover have "esc_num (of_nat (30 + color_num color)) 109 st =
      Some (st\<lparr>uart_out := uart_out st @ [27, 91, 51, 48 + of_nat (color_num color), 109]\<rparr>)"
    by (cases color)
      (simp_all add: esc_num_def printint_def printint_buf_def consputc_def digit_loop.simps digits_def)
  ultimately show ?thesis by (simp add: set_bg_color_def set_fg_color_def)
qed

end
