(* ===== verification/Trap.thy ===== *)
theory Trap
  imports Proc Format
begin

text \<open>
  Interrupts, exceptions and system calls: \<^verbatim>\<open>kernel/trap.c\<close>, \<^verbatim>\<open>kernel/plic.c\<close> and \<^verbatim>\<open>kernel/timer.c\<close>. The control
  registers of the processor, the registers of the interrupt controller and the console are fields of
  the state. \<open>code a\<close> is the interrupt handler at address \<open>a\<close>. A \<^verbatim>\<open>struct trapframe *\<close> points to the
  trapframe of a process or to the local variable of \<^verbatim>\<open>kerneltrap\<close>. Debugging messages and
  warnings are not modelled. \<open>tstack\<close> gives the addresses or initial contents of local variables, and the bounds
  \<open>fuel\<close> and \<open>depth\<close> of \<open>Proc\<close>.
\<close>

section \<open>State\<close>

record trap_info =
  ti_sepc :: u64
  ti_sstatus :: u64
  ti_scause :: u64
  ti_stval :: u64

datatype tfptr = TfProc nat | TfLocal

record ktrap = kproc +
  scause :: u64
  sepc :: u64
  stval :: u64
  sstatus :: u64
  sie_csr :: u64
  tf_local :: trapframe
  interrupt_vector :: "nat \<Rightarrow> u64"
  mmio :: "u64 \<Rightarrow> u32"
  plic_irq :: u32
  plic_done :: "u32 list"
  now :: u64
  stimer :: u64
  test_flag :: "int option"
  kcons :: console

record tstack =
  ts_frames :: frames
  ts_kbuf :: addr
  ts_instr :: "u8 list"
  ts_fuel :: nat
  ts_depth :: nat

definition tf_get :: "tfptr \<Rightarrow> ('a) ktrap_scheme \<Rightarrow> trapframe" where
  "tf_get tf s = (case tf of TfProc p \<Rightarrow> tframe (proc_table s p) | TfLocal \<Rightarrow> tf_local s)"

definition tf_set :: "tfptr \<Rightarrow> tfield \<Rightarrow> u64 \<Rightarrow> ('a) ktrap_scheme \<Rightarrow> ('a) ktrap_scheme" where
  "tf_set tf f v s = (case tf of
     TfProc p \<Rightarrow> upd_proc p (\<lambda>x. x\<lparr>tframe := (tframe x)(f := v)\<rparr>) s
   | TfLocal \<Rightarrow> s\<lparr>tf_local := (tf_local s)(f := v)\<rparr>)"

definition get_sepc :: "tfptr \<Rightarrow> (('a) ktrap_scheme, u64) km" where
  "get_sepc tf = kget (\<lambda>s. tf_get tf s Tf_epc)"

definition set_sepc :: "tfptr \<Rightarrow> u64 \<Rightarrow> (('a) ktrap_scheme, unit) km" where
  "set_sepc tf v = kmod (tf_set tf Tf_epc v)"

definition set_a0 :: "tfptr \<Rightarrow> u64 \<Rightarrow> (('a) ktrap_scheme, unit) km" where
  "set_a0 tf v = kmod (tf_set tf Tf_a0 v)"

section \<open>The interrupt controller and the timer\<close>

definition MAX_IRQ :: nat where "MAX_IRQ = 64"
definition UART0_IRQ :: nat where "UART0_IRQ = 10"
definition VIRTIO0_IRQ :: nat where "VIRTIO0_IRQ = 1"
definition PLIC_ENABLE :: u64 where "PLIC_ENABLE = PLIC + 0x2080"
definition PLIC_THRESHOLD :: u64 where "PLIC_THRESHOLD = PLIC + 0x201000"
definition TIMER_INTERVAL :: u64 where "TIMER_INTERVAL = 1000000"

definition write32 :: "u64 \<Rightarrow> u32 \<Rightarrow> (('a) ktrap_scheme, unit) km" where
  "write32 a v = kmod (\<lambda>s. if a AND 3 = 0 then s\<lparr>mmio := (mmio s)(a := v)\<rparr> else s)"

definition read32 :: "u64 \<Rightarrow> (('a) ktrap_scheme, u32) km" where
  "read32 a = kget (\<lambda>s. if a AND 3 = 0 then mmio s a else 0)"

definition plic_init :: "(('a) ktrap_scheme, unit) km" where
  "plic_init = kseq (kfor [1..<33] (\<lambda>i. write32 (PLIC + of_nat i * 4) 0))
     (kseq (write32 (PLIC + of_nat UART0_IRQ * 4) 1)
       (kseq (write32 (PLIC + of_nat VIRTIO0_IRQ * 4) 1)
         (kseq (write32 PLIC_ENABLE (push_bit UART0_IRQ 1 OR push_bit VIRTIO0_IRQ 1))
           (write32 PLIC_THRESHOLD 0))))"

definition plic_enable :: "nat \<Rightarrow> (('a) ktrap_scheme, unit) km" where
  "plic_enable irq = kbind (read32 PLIC_ENABLE) (\<lambda>old. write32 PLIC_ENABLE (old OR push_bit irq 1))"

definition plic_disable :: "nat \<Rightarrow> (('a) ktrap_scheme, unit) km" where
  "plic_disable irq = kbind (read32 PLIC_ENABLE) (\<lambda>old. write32 PLIC_ENABLE (old AND NOT (push_bit irq 1)))"

definition enable_interrupts :: "nat \<Rightarrow> (('a) ktrap_scheme, unit) km" where
  "enable_interrupts irq = plic_enable irq"

definition disable_interrupts :: "nat \<Rightarrow> (('a) ktrap_scheme, unit) km" where
  "disable_interrupts irq = plic_disable irq"

text \<open>Reading and writing the claim register.\<close>

definition plic_claim :: "(('a) ktrap_scheme, int) km" where
  "plic_claim = kget (\<lambda>s. sint (plic_irq s))"

definition plic_complete :: "int \<Rightarrow> (('a) ktrap_scheme, unit) km" where
  "plic_complete irq = kmod (\<lambda>s. s\<lparr>plic_done := plic_done s @ [word_of_int irq]\<rparr>)"

definition timeintr :: "(('a) ktrap_scheme, unit) km" where
  "timeintr = kmod (\<lambda>s. s\<lparr>test_flag := map_option (\<lambda>n. n + 1) (test_flag s)\<rparr>)"

definition set_next_tick :: "(('a) ktrap_scheme, unit) km" where
  "set_next_tick = kmod (\<lambda>s. s\<lparr>stimer := now s + TIMER_INTERVAL\<rparr>)"

section \<open>Interrupt dispatch\<close>

definition register_interrupt :: "int \<Rightarrow> u64 \<Rightarrow> (('a) ktrap_scheme, unit) km" where
  "register_interrupt irq h = kmod (\<lambda>s. if irq \<ge> 0 \<and> irq < int MAX_IRQ
     then s\<lparr>interrupt_vector := (interrupt_vector s)(nat irq := h)\<rparr> else s)"

definition unregister_interrupt :: "int \<Rightarrow> (('a) ktrap_scheme, unit) km" where
  "unregister_interrupt irq = kmod (\<lambda>s. if irq \<ge> 0 \<and> irq < int MAX_IRQ
     then s\<lparr>interrupt_vector := (interrupt_vector s)(nat irq := 0)\<rparr> else s)"

definition interrupt_dispatch :: "(u64 \<Rightarrow> (('a) ktrap_scheme, unit) km) \<Rightarrow> int \<Rightarrow> (('a) ktrap_scheme, unit) km" where
  "interrupt_dispatch code irq = kbind (kget interrupt_vector) (\<lambda>v.
     if irq \<ge> 0 \<and> irq < int MAX_IRQ \<and> v (nat irq) \<noteq> 0 then code (v (nat irq)) else kret ())"

definition handle_external_interrupt :: "(u64 \<Rightarrow> (('a) ktrap_scheme, unit) km) \<Rightarrow> (('a) ktrap_scheme, unit) km" where
  "handle_external_interrupt code = kbind plic_claim (\<lambda>irq.
     if irq = 0 then kret () else kseq (interrupt_dispatch code irq) (plic_complete irq))"

definition trap_init :: "(('a) ktrap_scheme, unit) km" where
  "trap_init = kseq (kmod (\<lambda>s. s\<lparr>stvec := fn_kernelvec s\<rparr>))
     (kseq (kmod (\<lambda>s. s\<lparr>interrupt_vector := (\<lambda>i. if i < MAX_IRQ then 0 else interrupt_vector s i)\<rparr>))
       (kseq plic_init
         (kseq (kmod (\<lambda>s. s\<lparr>sie_csr := sie_csr s OR push_bit 5 1 OR push_bit 9 1\<rparr>)) set_next_tick)))"

section \<open>System calls\<close>

definition SYS_printint :: u64 where "SYS_printint = 1"
definition SYS_printstr :: u64 where "SYS_printstr = 2"
definition SYS_open :: u64 where "SYS_open = 16"
definition SYS_close :: u64 where "SYS_close = 17"
definition SYS_read :: u64 where "SYS_read = 18"
definition SYS_write :: u64 where "SYS_write = 19"
definition SYS_unlink :: u64 where "SYS_unlink = 20"
definition SYS_sbrk :: u64 where "SYS_sbrk = 25"
definition SYS_get_time :: u64 where "SYS_get_time = 42"
definition SYS_exit :: u64 where "SYS_exit = 93"
definition SYS_pid :: u64 where "SYS_pid = 172"
definition SYS_ppid :: u64 where "SYS_ppid = 173"
definition SYS_fork :: u64 where "SYS_fork = 220"
definition SYS_wait :: u64 where "SYS_wait = 221"
definition SYS_yield :: u64 where "SYS_yield = 222"
definition SYS_step :: u64 where "SYS_step = 0xFFF"

text \<open>\<^verbatim>\<open>(int)x\<close>, and an \<^verbatim>\<open>int\<close> assigned to a \<^verbatim>\<open>uint64\<close>.\<close>

definition to_int :: "u64 \<Rightarrow> int" where
  "to_int w = sint (ucast w :: u32)"

definition kprintf :: "carray \<Rightarrow> varg list \<Rightarrow> (('a) ktrap_scheme, unit) km" where
  "kprintf fmt ap = kbind (kget kcons) (\<lambda>c. case vprintf fmt ap c of
     None \<Rightarrow> kstop Undefined | Some c' \<Rightarrow> kmod (\<lambda>s. s\<lparr>kcons := c'\<rparr>))"

text \<open>A string argument of at most 128 bytes.\<close>

definition fetch_str :: "u64 \<Rightarrow> (('a) ktrap_scheme, carray option) km" where
  "fetch_str a = kbind myproc (\<lambda>p. kbind (kget (\<lambda>s. pagetable (proc_table s p))) (\<lambda>pt.
     kbind (copyinstr pt a 128) (\<lambda>(r, bs). kret (if r < 0 then None else Some bs))))"

definition yield_now :: "(('a) ktrap_scheme, unit) km" where
  "yield_now = kbind yield_enter (\<lambda>sw. if sw then kstop Yielded else kret ())"

text \<open>What follows the return of \<^verbatim>\<open>wait_proc\<close>.\<close>

definition case_wait_done :: "tfptr \<Rightarrow> u64 \<Rightarrow> int \<times> int option \<Rightarrow> (('a) ktrap_scheme, unit) km" where
  "case_wait_done tf uaddr r = (case r of (n, st) \<Rightarrow>
     if n \<ge> 0 \<and> uaddr \<noteq> 0
     then kbind myproc (\<lambda>p. kbind (kget (\<lambda>s. pagetable (proc_table s p))) (\<lambda>pt.
       kbind (copyout pt uaddr (le_bytes 4 (unat (word_of_int (case st of None \<Rightarrow> 0 | Some v \<Rightarrow> v) :: u32)))) (\<lambda>c.
         set_a0 tf (word_of_int (if c < 0 then - 1 else n)))))
     else set_a0 tf (word_of_int n))"

definition case_write :: "tstack \<Rightarrow> tfptr \<Rightarrow> trapframe \<Rightarrow> (('a) ktrap_scheme, unit) km" where
  "case_write ts tf t = (let fd = to_int (t Tf_a0); buf = t Tf_a1; n = to_int (t Tf_a2) in
     if check_user_addr buf (word_of_int n) False < 0 then set_a0 tf (- 1)
     else if fd = 1 \<or> fd = 2
     then kbind (fetch_str buf) (\<lambda>r. case r of
         None \<Rightarrow> set_a0 tf (- 1)
       | Some bs \<Rightarrow> kseq (kprintf (cstr ''%s'') [AStr (Some bs)])
           (case strlen bs of None \<Rightarrow> kstop Undefined | Some l \<Rightarrow> set_a0 tf (of_nat l)))
     else kbind (ker_write (ts_kbuf ts) fd buf n) (\<lambda>r. set_a0 tf (word_of_int r)))"

definition case_read :: "tstack \<Rightarrow> tfptr \<Rightarrow> trapframe \<Rightarrow> (('a) ktrap_scheme, unit) km" where
  "case_read ts tf t = (let fd = to_int (t Tf_a0); buf = t Tf_a1; n = to_int (t Tf_a2) in
     if check_user_addr buf (word_of_int n) True < 0 then set_a0 tf (- 1)
     else if fd = 0 then set_a0 tf (- 1)
     else kbind (ker_read (ts_kbuf ts) fd buf n) (\<lambda>r. set_a0 tf (word_of_int r)))"

definition case_open :: "tstack \<Rightarrow> tfptr \<Rightarrow> trapframe \<Rightarrow> (('a) ktrap_scheme, unit) km" where
  "case_open ts tf t = kbind (fetch_str (t Tf_a0)) (\<lambda>r. case r of
     None \<Rightarrow> set_a0 tf (- 1)
   | Some path \<Rightarrow> kbind (ker_open (ts_frames ts) path (ucast (t Tf_a1))) (\<lambda>fd. set_a0 tf (word_of_int fd)))"

definition case_unlink :: "tstack \<Rightarrow> tfptr \<Rightarrow> trapframe \<Rightarrow> (('a) ktrap_scheme, unit) km" where
  "case_unlink ts tf t = kbind (fetch_str (t Tf_a0)) (\<lambda>r. case r of
     None \<Rightarrow> set_a0 tf (- 1)
   | Some path \<Rightarrow> kbind (ker_unlink (ts_frames ts) path) (\<lambda>r. set_a0 tf (word_of_int r)))"

definition case_ppid :: "tfptr \<Rightarrow> (('a) ktrap_scheme, unit) km" where
  "case_ppid tf = kbind myproc (\<lambda>p. kbind (kget (\<lambda>s. case parent (proc_table s p) of
     None \<Rightarrow> 0 | Some q \<Rightarrow> pid (proc_table s q))) (\<lambda>n. set_a0 tf (word_of_int n)))"

definition syscall_case :: "tstack \<Rightarrow> tfptr \<Rightarrow> trapframe \<Rightarrow> (('a) ktrap_scheme, unit) km" where
  "syscall_case ts tf t = (let k = t Tf_a7; a0 = t Tf_a0 in
     if k = SYS_printint then kprintf (cstr ''%ld'') [ANum a0]
     else if k = SYS_printstr then kbind (fetch_str a0) (\<lambda>r. case r of
         None \<Rightarrow> kret () | Some bs \<Rightarrow> kprintf (cstr ''%s'') [AStr (Some bs)])
     else if k = SYS_exit then kstop (ExitProc (to_int a0))
     else if k = word_of_int SYS_kill then kbind myproc (\<lambda>_. kill_proc (to_int a0))
     else if k = SYS_fork then kbind (fork_proc (ts_depth ts)) (\<lambda>c. set_a0 tf (word_of_int c))
     else if k = SYS_wait then kbind (wait_proc (ts_depth ts)) (case_wait_done tf a0)
     else if k = SYS_yield then kseq (set_a0 tf 0) yield_now
     else if k = SYS_pid then kbind mypid (\<lambda>n. set_a0 tf (word_of_int n))
     else if k = SYS_ppid then case_ppid tf
     else if k = SYS_get_time then kbind (kget now) (set_a0 tf)
     else if k = SYS_step then set_a0 tf 0
     else if k = SYS_open then case_open ts tf t
     else if k = SYS_close then kbind (ker_close (to_int a0)) (\<lambda>r. set_a0 tf (word_of_int r))
     else if k = SYS_read then case_read ts tf t
     else if k = SYS_write then case_write ts tf t
     else if k = SYS_unlink then case_unlink ts tf t
     else if k = SYS_sbrk then set_a0 tf (- 1)
     else set_a0 tf (- 1))"

definition handle_syscall :: "tstack \<Rightarrow> tfptr \<Rightarrow> trap_info \<Rightarrow> (('a) ktrap_scheme, unit) km" where
  "handle_syscall ts tf info = kbind (kget (tf_get tf)) (\<lambda>t.
     kseq (syscall_case ts tf t) (set_sepc tf (ti_sepc info + 4)))"

text \<open>Continuations of the two system calls that give up the processor.\<close>

definition syscall_yield_resume :: "nat \<Rightarrow> tfptr \<Rightarrow> trap_info \<Rightarrow> (('a) ktrap_scheme, unit) km" where
  "syscall_yield_resume p tf info = kseq (check_killed p) (set_sepc tf (ti_sepc info + 4))"

definition syscall_wait_resume :: "tstack \<Rightarrow> nat \<Rightarrow> tfptr \<Rightarrow> u64 \<Rightarrow> trap_info \<Rightarrow> (('a) ktrap_scheme, unit) km" where
  "syscall_wait_resume ts p tf uaddr info = kbind (wait_resume (ts_depth ts) p) (\<lambda>r.
     kseq (case_wait_done tf uaddr r) (set_sepc tf (ti_sepc info + 4)))"

section \<open>Exceptions\<close>

text \<open>A user process is ended; a kernel thread skips the instruction.\<close>

definition kill_or_skip :: "tfptr \<Rightarrow> trap_info \<Rightarrow> (('a) ktrap_scheme, unit) km" where
  "kill_or_skip tf info = kbind myproc (\<lambda>p. kbind (kget (\<lambda>s. is_user (proc_table s p))) (\<lambda>u.
     if u then kstop (ExitProc (- 1)) else set_sepc tf (ti_sepc info + 4)))"

definition handle_instruction_page_fault :: "trap_info \<Rightarrow> (('a) ktrap_scheme, unit) km" where
  "handle_instruction_page_fault info = kbind (handle_page_fault (ti_stval info) 1) (\<lambda>r.
     if r \<noteq> 0 then kret () else panic ''Unhandled instruction page fault'')"

definition handle_load_page_fault :: "trap_info \<Rightarrow> (('a) ktrap_scheme, unit) km" where
  "handle_load_page_fault info = kbind (handle_page_fault (ti_stval info) 2) (\<lambda>r.
     if r \<noteq> 0 then kret () else panic ''Unhandled load page fault'')"

definition handle_store_page_fault :: "trap_info \<Rightarrow> (('a) ktrap_scheme, unit) km" where
  "handle_store_page_fault info = kbind (handle_page_fault (ti_stval info) 3) (\<lambda>r.
     if r \<noteq> 0 then kret () else panic ''Unhandled store page fault'')"

definition access_fault :: "tfptr \<Rightarrow> trap_info \<Rightarrow> int \<Rightarrow> (('a) ktrap_scheme, unit) km" where
  "access_fault tf info ty = kbind (kget (check_is_mapped (ti_stval info))) (\<lambda>m.
     kbind (if m then handle_page_fault (ti_stval info) ty else kret 0) (\<lambda>r.
       if r \<noteq> 0 then kret () else set_sepc tf (ti_sepc info + 4)))"

text \<open>The instruction word that \<^verbatim>\<open>copyin\<close> leaves in the local variable, and the test for a division.\<close>

definition fetched_instr :: "tstack \<Rightarrow> u8 list \<Rightarrow> u32" where
  "fetched_instr ts bs = of_nat (le_val (bs @ drop (length bs) (ts_instr ts)))"

definition is_division :: "u32 \<Rightarrow> bool" where
  "is_division w \<longleftrightarrow> w AND 0x7F = 0x33 \<and> (let f = drop_bit 12 w AND 7 in f = 4 \<or> f = 5 \<or> f = 6 \<or> f = 7)"

definition illegal_instruction :: "tstack \<Rightarrow> tfptr \<Rightarrow> trap_info \<Rightarrow> (('a) ktrap_scheme, unit) km" where
  "illegal_instruction ts tf info = kbind (copyin (ti_sepc info) 4) (\<lambda>(r, bs).
     if r = 0 \<and> is_division (fetched_instr ts bs) then kstop (ExitProc (- 1)) else kill_or_skip tf info)"

definition handle_exception :: "tstack \<Rightarrow> tfptr \<Rightarrow> trap_info \<Rightarrow> (('a) ktrap_scheme, unit) km" where
  "handle_exception ts tf info = (let c = ti_scause info in
     if c = 0 \<or> c = 1 \<or> c = 4 \<or> c = 6 then kill_or_skip tf info
     else if c = 2 then illegal_instruction ts tf info
     else if c = 3 \<or> c = 9 then set_sepc tf (ti_sepc info + 4)
     else if c = 5 then access_fault tf info 2
     else if c = 7 then access_fault tf info 3
     else if c = 8 then kbind myproc (\<lambda>p. kbind (kget (\<lambda>s. is_user (proc_table s p))) (\<lambda>u.
       if u then handle_syscall ts tf info else kret ()))
     else if c = 12 then handle_instruction_page_fault info
     else if c = 13 then handle_load_page_fault info
     else if c = 15 then handle_store_page_fault info
     else panic ''Unknown exception'')"

section \<open>Traps\<close>

text \<open>\<^verbatim>\<open>kerneltrap\<close>; a timer interrupt during a running process gives up the processor, and \<open>kerneltrap_resume\<close>
  continues.\<close>

definition restore_trap :: "u64 \<Rightarrow> bool \<Rightarrow> (('a) ktrap_scheme, unit) km" where
  "restore_trap pc ie = kmod (\<lambda>s. s\<lparr>sepc := pc, sie := ie\<rparr>)"

definition kerneltrap :: "tstack \<Rightarrow> (u64 \<Rightarrow> (('a) ktrap_scheme, unit) km) \<Rightarrow> (('a) ktrap_scheme, unit) km" where
  "kerneltrap ts code = kbind (kget (\<lambda>s. (scause s, sepc s, stval s, sie s, sstatus s))) (\<lambda>(cs, pc, tv, ie, ss).
     if bit cs 63
     then kseq
       (if cs AND 0xFF = 5
        then kseq timeintr (kseq set_next_tick (kbind (kget current_proc) (\<lambda>me. case me of
            None \<Rightarrow> kret ()
          | Some p \<Rightarrow> kbind (kget (\<lambda>s. pstate (proc_table s p))) (\<lambda>st. if st = RUNNING then yield_now else kret ()))))
        else if cs AND 0xFF = 9 then handle_external_interrupt code
        else kret ())
       (restore_trap pc ie)
     else kseq (set_sepc TfLocal pc)
       (kseq (handle_exception ts TfLocal \<lparr>ti_sepc = pc, ti_sstatus = ss, ti_scause = cs, ti_stval = tv\<rparr>)
         (kbind (get_sepc TfLocal) (\<lambda>pc'. restore_trap pc' ie))))"

definition kerneltrap_resume :: "nat \<Rightarrow> u64 \<Rightarrow> bool \<Rightarrow> (('a) ktrap_scheme, unit) km" where
  "kerneltrap_resume p pc ie = kseq (check_killed p) (restore_trap pc ie)"

text \<open>\<^verbatim>\<open>usertrapret\<close> ends in a jump: its target and its two arguments are the result.\<close>

definition usertrapret :: "(('a) ktrap_scheme, u64 \<times> u64 \<times> u64) km" where
  "usertrapret = kbind myproc (\<lambda>p. kseq (kmod (\<lambda>s. s\<lparr>stvec := TRAMPOLINE + (ld_uservec s - ld_trampoline s), sscratch := TRAPFRAME\<rparr>))
     (kget (\<lambda>s. (TRAMPOLINE + (ld_userret s - ld_trampoline s), TRAPFRAME, MAKE_SATP (pagetable (proc_table s p))))))"

definition usertrap :: "tstack \<Rightarrow> (u64 \<Rightarrow> (('a) ktrap_scheme, unit) km) \<Rightarrow> (('a) ktrap_scheme, u64 \<times> u64 \<times> u64) km" where
  "usertrap ts code = kbind myproc (\<lambda>p. kbind (kget (\<lambda>s. (scause s, stval s, tframe (proc_table s p)))) (\<lambda>(cs, tv, t).
     let info = \<lparr>ti_sepc = t Tf_epc, ti_sstatus = t Tf_sstatus, ti_scause = cs, ti_stval = tv\<rparr> in
     kseq (if \<not> bit cs 63 \<and> cs AND 0xFF = 8 then handle_syscall ts (TfProc p) info
           else if bit cs 63
           then (if cs AND 0xFF = 5 then kseq timeintr set_next_tick
                 else if cs AND 0xFF = 9 then handle_external_interrupt code
                 else kret ())
           else handle_exception ts (TfProc p) info)
       usertrapret))"

end
