(* ===== verification/Frame.thy ===== *)
theory Frame
  imports Trap
begin

text \<open>
  What kernel code never does to a process. \<open>keeps R m\<close>: every run of \<open>m\<close>, completed or not, leaves a state
  related by \<open>R\<close> to the one it started in. The relation \<open>same_id q\<close> says that a live process \<open>p\<close> stays live and keeps its
  identity: its identifier, parent, exit status, kernel stack, page table and saved user registers. It is shown for every operation a
  system call or an interrupt can reach, from the allocator up to the system calls.
\<close>

section \<open>Relations kept by a run\<close>

definition keeps :: "('s \<Rightarrow> 's \<Rightarrow> bool) \<Rightarrow> ('s, 'a) km \<Rightarrow> bool" where
  "keeps R m \<longleftrightarrow> (\<forall>s. R s (snd (m s)))"

named_theorems keep

lemma keepsD: "keeps R m \<Longrightarrow> m s = (r, s') \<Longrightarrow> R s s'"
  by (auto simp: keeps_def dest: spec [of _ s])

lemma keeps_if [keep]: "(b \<Longrightarrow> keeps R m) \<Longrightarrow> (\<not> b \<Longrightarrow> keeps R n) \<Longrightarrow> keeps R (if b then m else n)"
  by simp

lemma keeps_option [keep]: "(x = None \<Longrightarrow> keeps R m) \<Longrightarrow> (\<And>y. x = Some y \<Longrightarrow> keeps R (f y)) \<Longrightarrow>
    keeps R (case x of None \<Rightarrow> m | Some y \<Rightarrow> f y)"
  by (cases x) simp_all

lemma keeps_prod [keep]: "(\<And>a b. x = (a, b) \<Longrightarrow> keeps R (f a b)) \<Longrightarrow> keeps R (case x of (a, b) \<Rightarrow> f a b)"
  by (cases x) simp

lemma keeps_sum [keep]: "(\<And>a. x = Inl a \<Longrightarrow> keeps R (f a)) \<Longrightarrow> (\<And>b. x = Inr b \<Longrightarrow> keeps R (g b)) \<Longrightarrow>
    keeps R (case x of Inl a \<Rightarrow> f a | Inr b \<Rightarrow> g b)"
  by (cases x) simp_all

lemma keeps_list [keep]: "(x = [] \<Longrightarrow> keeps R m) \<Longrightarrow> (\<And>y ys. x = y # ys \<Longrightarrow> keeps R (f y ys)) \<Longrightarrow>
    keeps R (case x of [] \<Rightarrow> m | y # ys \<Rightarrow> f y ys)"
  by (cases x) simp_all

lemma keeps_Let [keep]: "keeps R (f x) \<Longrightarrow> keeps R (let y = x in f y)"
  by simp

lemma pairs_induct: "P [] \<Longrightarrow> (\<And>a b ps. P ps \<Longrightarrow> P ((a, b) # ps)) \<Longrightarrow> P ps"
  by (induction ps) auto

locale frame_rel =
  fixes R :: "'s \<Rightarrow> 's \<Rightarrow> bool"
  assumes refl: "R s s" and trans: "R s t \<Longrightarrow> R t u \<Longrightarrow> R s u"
begin

lemma ret: "keeps R (kret x)"
  by (simp add: keeps_def refl)

lemma stop: "keeps R (kstop e)"
  by (simp add: keeps_def refl)

lemma get: "keeps R (kget f)"
  by (simp add: keeps_def refl)

lemma upd: "(\<And>s. R s (f s)) \<Longrightarrow> keeps R (kmod f)"
  by (simp add: keeps_def)

lemma bind:
  assumes "keeps R m" and "\<And>x. keeps R (f x)"
  shows "keeps R (kbind m f)"
  unfolding keeps_def
proof
  fix s
  obtain r s' where m: "m s = (r, s')" by fastforce
  show "R s (snd (kbind m f s))"
  proof (cases r)
    case (Inl e)
    then show ?thesis using m keepsD [OF assms(1)] by simp
  next
    case (Inr x)
    then show ?thesis using m trans [OF keepsD [OF assms(1) m]] assms(2) by (simp add: keeps_def)
  qed
qed

lemma seq: "keeps R m \<Longrightarrow> keeps R n \<Longrightarrow> keeps R (kseq m n)"
  unfolding kseq_def by (rule bind)

lemma loop: "(\<And>i. keeps R (body i)) \<Longrightarrow> keeps R (kfor xs body)"
  by (induction xs) (simp_all add: ret seq)

lemma read_state: "(\<And>x. keeps R (f x)) \<Longrightarrow> keeps R (\<lambda>s. f (g s) s)"
  by (simp add: keeps_def)

end

section \<open>The identity of a process\<close>

definition live :: "('a) kcore_scheme \<Rightarrow> nat \<Rightarrow> bool" where
  "live s p \<longleftrightarrow> pstate (proc_table s p) \<noteq> UNUSED \<and> pstate (proc_table s p) \<noteq> ZOMBIE"

definition ident :: "proc \<Rightarrow> int \<times> nat option \<times> int \<times> u64 \<times> bool \<times> u64 \<times> addr \<times> addr \<times> trapframe" where
  "ident x = (pid x, parent x, exit_status x, kstack x, is_user x, psz x, pagetable x, trapframe_ptr x, tframe x)"

definition same_id :: "nat \<Rightarrow> ('a) kcore_scheme \<Rightarrow> ('a) kcore_scheme \<Rightarrow> bool" where
  "same_id q s s' \<longleftrightarrow> (live s q \<longrightarrow> live s' q \<and> ident (proc_table s' q) = ident (proc_table s q))"

interpretation sid: frame_rel "same_id q" for q
  by unfold_locales (auto simp: same_id_def)

declare sid.ret [keep] sid.stop [keep] sid.get [keep] sid.upd [keep] sid.bind [keep] sid.seq [keep] sid.loop [keep]

lemma same_table: "proc_table s' = proc_table s \<Longrightarrow> same_id q s s'"
  by (simp add: same_id_def live_def)

lemma same_upd:
  assumes "pstate (f (proc_table s i)) = pstate (proc_table s i) \<or> pstate (f (proc_table s i)) \<noteq> UNUSED \<and> pstate (f (proc_table s i)) \<noteq> ZOMBIE"
    and "ident (f (proc_table s i)) = ident (proc_table s i)"
  shows "same_id q s (upd_proc i f s)"
  using assms by (auto simp: same_id_def live_def)

lemmas same_simps = same_table same_upd ident_def upd_pipe_def upd_hw_def upd_buf_def set_bdata_def upd_wal_def upd_inode_def upd_file_def

section \<open>Scheduling\<close>

lemma keeps_intr [keep]: "keeps (same_id q) intr_on" "keeps (same_id q) intr_off"
  unfolding intr_on_def intr_off_def by (intro keep; simp add: same_simps)+

lemma keeps_myproc [keep]: "keeps (same_id q) myproc"
  by (simp add: keeps_def myproc_def sid.refl split: option.split)

lemma keeps_mypid [keep]: "keeps (same_id q) mypid"
  unfolding mypid_def by (intro keep)

lemma keeps_wakeup [keep]: "keeps (same_id q) (wakeup ch)"
  by (simp add: keeps_def wakeup_run same_id_def live_def ident_def woken_def)

lemma keeps_kill_proc [keep]: "keeps (same_id q) (kill_proc n)"
  unfolding kill_proc_def by (intro keep) (auto simp: same_simps sid.refl split: option.split)

lemma keeps_yield_enter [keep]: "keeps (same_id q) yield_enter"
  by (auto simp: keeps_def yield_enter_def intr_off_def same_id_def live_def ident_def split: option.split)

lemma keeps_check_killed [keep]: "keeps (same_id q) (check_killed p)"
  unfolding check_killed_def by (intro keep)

lemma keeps_sleep_enter [keep]: "keeps (same_id q) (sleep_enter ch)"
  unfolding sleep_enter_def by (intro keep; simp add: same_simps)

lemma keeps_sleep_leave [keep]: "keeps (same_id q) (sleep_leave p)"
  unfolding sleep_leave_def by (intro keep; simp add: same_simps)

section \<open>Pages\<close>

lemma keeps_alloc_page [keep]: "keeps (same_id q) alloc_page"
  by (simp add: keeps_def alloc_page_def Let_def same_simps)

lemma keeps_free_page [keep]: "keeps (same_id q) (free_page pg)"
  by (simp add: keeps_def free_page_def same_simps)

section \<open>Page tables and user memory\<close>

lemma keeps_create_pagetable [keep]: "keeps (same_id q) create_pagetable"
  unfolding create_pagetable_def by (intro keep; simp add: same_simps)

lemma keeps_walk_create_loop [keep]: "keeps (same_id q) (walk_create_loop l pt va)"
  by (induction l arbitrary: pt; simp only: walk_create_loop.simps; intro keep; simp add: same_simps)

lemma keeps_walk_create [keep]: "keeps (same_id q) (walk_create pt va0)"
  unfolding walk_create_def by (intro keep; simp add: same_simps)

lemma keeps_store_pte [keep]: "keeps (same_id q) (store_pte a e)"
  unfolding store_pte_def by (intro keep; simp add: same_simps)

lemma keeps_map_page [keep]: "keeps (same_id q) (map_page pt va pa perm0)"
  unfolding map_page_def by (intro keep; simp add: same_simps)

lemma keeps_free_pagetable [keep]: "keeps (same_id q) (free_pagetable k pt)"
  by (induction k arbitrary: pt; simp only: free_pagetable.simps; intro keep; simp add: same_simps)

lemma keeps_handle_page_fault [keep]: "keeps (same_id q) (handle_page_fault va type)"
  unfolding handle_page_fault_def by (intro keep; simp add: same_simps)

lemma keeps_uvmcopy_loop [keep]: "keeps (same_id q) (uvmcopy_loop old new i sz)"
proof (induction old new i sz rule: uvmcopy_loop.induct)
  case (1 old new i sz)
  show ?case
    by (subst uvmcopy_loop.simps) (intro keep 1; simp add: same_simps)
qed

lemma keeps_uvmcopy [keep]: "keeps (same_id q) (uvmcopy old new sz)"
  unfolding uvmcopy_def by (intro keep; simp add: same_simps)

lemma keeps_copyin [keep]: "keeps (same_id q) (copyin srcva maxlen)"
  unfolding copyin_def by (intro keep; simp add: same_simps)

lemma keeps_copyout [keep]: "keeps (same_id q) (copyout pt dst bs)"
  by (induction bs arbitrary: dst; simp only: copyout.simps; intro keep; simp add: same_simps)

lemma keeps_copyinstr_loop [keep]: "keeps (same_id q) (copyinstr_loop a n acc)"
  by (induction n arbitrary: a acc; simp only: copyinstr_loop.simps; intro keep; simp add: same_simps)

lemma keeps_copyinstr [keep]: "keeps (same_id q) (copyinstr pgtbl srcva maxlen)"
  unfolding copyinstr_def by (intro keep; simp add: same_simps)

section \<open>Locks\<close>

lemma keeps_acquire [keep]: "(\<And>f s. proc_table (u f s) = proc_table s) \<Longrightarrow> keeps (same_id q) (acquire g u)"
  unfolding acquire_def by (intro keep; simp add: same_simps)

lemma keeps_release [keep]: "(\<And>f s. proc_table (u f s) = proc_table s) \<Longrightarrow> keeps (same_id q) (release g u)"
  unfolding release_def by (intro keep; simp add: same_simps)

lemma keeps_sleep [keep]: "(\<And>f s. proc_table (u f s) = proc_table s) \<Longrightarrow> keeps (same_id q) (sleep ch g u)"
  unfolding sleep_def by (intro keep; simp add: same_simps)

lemma keeps_sleep_resume [keep]: "(\<And>f s. proc_table (u f s) = proc_table s) \<Longrightarrow> keeps (same_id q) (sleep_resume p g u)"
  unfolding sleep_resume_def by (intro keep; simp add: same_simps)

lemma keeps_sleep_nolock [keep]: "keeps (same_id q) (sleep_nolock ch)"
  unfolding sleep_nolock_def by (intro keep; simp add: same_simps)

lemma keeps_sleep_nolock_resume [keep]: "keeps (same_id q) (sleep_nolock_resume p)"
  unfolding sleep_nolock_resume_def by (intro keep; simp add: same_simps)

lemma keeps_acquiresleep_wait [keep]: "(\<And>f s. proc_table (u f s) = proc_table s) \<Longrightarrow> keeps (same_id q) (acquiresleep_wait ch g u)"
  unfolding acquiresleep_wait_def by (intro keep; simp add: same_simps)

lemma keeps_acquiresleep [keep]: "(\<And>f s. proc_table (u f s) = proc_table s) \<Longrightarrow> keeps (same_id q) (acquiresleep ch g u)"
  unfolding acquiresleep_def by (intro keep; simp add: same_simps)

lemma keeps_acquiresleep_resume [keep]: "(\<And>f s. proc_table (u f s) = proc_table s) \<Longrightarrow> keeps (same_id q) (acquiresleep_resume p ch g u)"
  unfolding acquiresleep_resume_def by (intro keep; simp add: same_simps)

lemma keeps_releasesleep [keep]: "(\<And>f s. proc_table (u f s) = proc_table s) \<Longrightarrow> keeps (same_id q) (releasesleep ch g u)"
  unfolding releasesleep_def by (intro keep; simp add: same_simps)

lemma keeps_holdingsleep [keep]: "(\<And>f s. proc_table (u f s) = proc_table s) \<Longrightarrow> keeps (same_id q) (holdingsleep g u)"
  unfolding holdingsleep_def by (intro keep; simp add: same_simps)

section \<open>Pipes\<close>

lemma keeps_pipeclose [keep]: "keeps (same_id q) (pipeclose pi writable)"
  unfolding pipeclose_def by (intro keep; simp add: same_simps)

lemma keeps_pipewrite_loop [keep]: "keeps (same_id q) (pipewrite_loop pi a pr i k)"
  by (induction k arbitrary: i; simp only: pipewrite_loop.simps; intro keep; simp add: same_simps)

lemma keeps_pipewrite [keep]: "keeps (same_id q) (pipewrite pi a n)"
  unfolding pipewrite_def by (intro keep; simp add: same_simps)

lemma keeps_pipewrite_resume [keep]: "keeps (same_id q) (pipewrite_resume pi a pr i k)"
  unfolding pipewrite_resume_def by (intro keep; simp add: same_simps)

lemma keeps_piperead_loop [keep]: "keeps (same_id q) (piperead_loop pi a pr i k)"
  by (induction k arbitrary: i; simp only: piperead_loop.simps; intro keep; simp add: same_simps)

lemma keeps_piperead_wait [keep]: "keeps (same_id q) (piperead_wait pi a pr n)"
  unfolding piperead_wait_def by (intro keep; simp add: same_simps)

lemma keeps_piperead [keep]: "keeps (same_id q) (piperead pi a n)"
  unfolding piperead_def by (intro keep; simp add: same_simps)

lemma keeps_piperead_resume [keep]: "keeps (same_id q) (piperead_resume pi a pr n)"
  unfolding piperead_resume_def by (intro keep; simp add: same_simps)

section \<open>The disk\<close>

lemma keeps_alloc_desc [keep]: "keeps (same_id q) alloc_desc"
  by (auto simp: keeps_def alloc_desc_def same_simps split: option.split)

lemma keeps_free_desc [keep]: "keeps (same_id q) (free_desc i)"
  unfolding free_desc_def by (intro keep; simp add: same_simps)

lemma keeps_alloc3_desc [keep]: "keeps (same_id q) alloc3_desc"
  unfolding alloc3_desc_def by (intro keep; simp add: same_simps)

lemma keeps_free_chain_loop [keep]: "keeps (same_id q) (free_chain_loop k i)"
  by (induction k arbitrary: i; simp only: free_chain_loop.simps; intro keep; simp add: same_simps)

lemma keeps_free_chain [keep]: "keeps (same_id q) (free_chain i)"
  unfolding free_chain_def by (intro keep; simp add: same_simps)

lemma keeps_intr_one [keep]: "keeps (same_id q) intr_one"
proof -
  have e: "intr_one = kbind (kget (\<lambda>s. (unat (used_ring (hw s) (unat (used_idx s) mod NUM)), hw s, info_b s))) (\<lambda>(i, h, b).
      if vstatus h i \<noteq> 0 then panic ''virtio_disk_intr status''
      else (case b i of None \<Rightarrow> kstop NullDeref
        | Some b \<Rightarrow> kseq (kmod (upd_buf b (\<lambda>x. x\<lparr>bdisk := False\<rparr>)))
            (kseq (wakeup (ChBuf b)) (kmod (\<lambda>s. s\<lparr>used_idx := used_idx s + 1\<rparr>)))))"
    by (simp add: intr_one_def fun_eq_iff Let_def split: option.split)
  show ?thesis unfolding e by (intro keep; simp add: same_simps)
qed

lemma keeps_intr_loop [keep]: "keeps (same_id q) (intr_loop n)"
  by (induction n; simp only: intr_loop.simps; intro keep; simp add: same_simps)

lemma keeps_virtio_disk_intr [keep]: "keeps (same_id q) virtio_disk_intr"
  unfolding virtio_disk_intr_def
  by (intro keep sid.read_state [where f = intr_loop and g = "\<lambda>s. unat (dev_idx (hw s) - used_idx s)"])

lemma keeps_device_run [keep]: "keeps (same_id q) device_run"
  unfolding device_run_def by (intro keep; simp add: same_simps)

lemma keeps_resched [keep]: "keeps (same_id q) (resched p ch)"
  by (auto simp: keeps_def resched_def sched_visit_def sched_return_def sched_tick_def Let_def same_id_def live_def ident_def)

lemma keeps_kwake [keep]: "keeps (same_id q) m \<Longrightarrow> keeps (same_id q) k \<Longrightarrow> keeps (same_id q) (kwake m k)"
  unfolding keeps_def kwake_def
proof
  fix s
  assume a: "\<forall>s. same_id q s (snd (m s))" "\<forall>s. same_id q s (snd (k s))"
  obtain r s' where m: "m s = (r, s')" by fastforce
  then have "same_id q s s'" "same_id q s (snd (k s'))" using a sid.trans by (metis snd_conv)+
  then show "same_id q s (snd (case m s of (Inl (Asleep c), s') \<Rightarrow> k s' | r \<Rightarrow> r))"
    using m by (simp split: sum.split stop.split)
qed

lemma keeps_yield_alone [keep]: "keeps (same_id q) (yield_alone p ch)"
  unfolding yield_alone_def by (intro keep; simp add: same_simps)

lemma keeps_disk_wait [keep]: "keeps (same_id q) (disk_wait b)"
  unfolding disk_wait_def by (intro keep; simp add: same_simps)

lemma keeps_virtio_disk_rw [keep]: "keeps (same_id q) (virtio_disk_rw b write)"
  unfolding virtio_disk_rw_def by (intro keep; simp add: same_simps fill_request_def Let_def)

section \<open>The buffer cache\<close>

lemma keeps_bget [keep]: "keeps (same_id q) (bget dev bno)"
proof -
  have e: "bget dev bno = kseq acquire_bcache (kbind (kget bufs) (\<lambda>bs.
     case walk_lru (NBUF + 1) (\<lambda>b. bnext (bs b)) (\<lambda>b. bdev (bs b) = dev \<and> blockno (bs b) = bno) (bnext (bs NBUF)) of
       Inl e \<Rightarrow> kstop e
     | Inr r \<Rightarrow> (case r of Some b \<Rightarrow>
         kseq (kmod (upd_buf b (\<lambda>x. x\<lparr>refcnt := refcnt x + 1\<rparr>)))
           (kseq release_bcache (kseq (acquiresleep (ChBufLock b) (bl_get b) (bl_upd b)) (kret b)))
     | None \<Rightarrow>
         (case walk_lru (NBUF + 1) (\<lambda>b. bprev (bs b)) (\<lambda>b. refcnt (bs b) = 0) (bprev (bs NBUF)) of
            Inl e \<Rightarrow> kstop e
          | Inr r \<Rightarrow> (case r of Some b \<Rightarrow>
              kseq (kmod (upd_buf b (\<lambda>x. x\<lparr>bdev := dev, blockno := bno, valid := False, refcnt := 1\<rparr>)))
                (kseq release_bcache (kseq (acquiresleep (ChBufLock b) (bl_get b) (bl_upd b)) (kret b)))
          | None \<Rightarrow> panic ''bget: no buffers'')))))"
    unfolding bget_def by (rule arg_cong [of _ _ "kseq acquire_bcache"]) (auto simp: fun_eq_iff Let_def split: sum.split option.split)
  show ?thesis unfolding e by (intro keep; simp add: same_simps)
qed

lemma keeps_bread [keep]: "keeps (same_id q) (bread dev bno)"
  unfolding bread_def by (intro keep; simp add: same_simps)

lemma keeps_bwrite [keep]: "keeps (same_id q) (bwrite b)"
  unfolding bwrite_def by (intro keep; simp add: same_simps)

lemma keeps_brelse [keep]: "keeps (same_id q) (brelse b)"
  unfolding brelse_def by (intro keep; simp add: same_simps)

lemma keeps_bpin [keep]: "keeps (same_id q) (bpin b)"
  unfolding bpin_def by (intro keep; simp add: same_simps)

lemma keeps_bunpin [keep]: "keeps (same_id q) (bunpin b)"
  unfolding bunpin_def by (intro keep; simp add: same_simps)

section \<open>The log\<close>

lemma keeps_log_bread [keep]: "keeps (same_id q) (log_bread k)"
  unfolding log_bread_def by (intro keep; simp add: same_simps)

lemma keeps_write_head [keep]: "keeps (same_id q) write_head"
  unfolding write_head_def by (intro keep; simp add: same_simps)

lemma keeps_install_one [keep]: "keeps (same_id q) (install_one recovering tail)"
  unfolding install_one_def by (intro keep; simp add: same_simps)

lemma keeps_install_trans [keep]: "keeps (same_id q) (install_trans recovering)"
  unfolding install_trans_def by (intro keep; simp add: same_simps)

lemma keeps_clear_head [keep]: "keeps (same_id q) clear_head"
  unfolding clear_head_def by (intro keep; simp add: same_simps)

lemma keeps_write_log_one [keep]: "keeps (same_id q) (write_log_one tail)"
  unfolding write_log_one_def by (intro keep; simp add: same_simps)

lemma keeps_write_log [keep]: "keeps (same_id q) write_log"
  unfolding write_log_def by (intro keep; simp add: same_simps)

lemma keeps_commit [keep]: "keeps (same_id q) commit"
  unfolding commit_def by (intro keep; simp add: same_simps)

lemma keeps_begin_op_loop [keep]: "keeps (same_id q) begin_op_loop"
  unfolding begin_op_loop_def by (intro keep; simp add: same_simps)

lemma keeps_begin_op [keep]: "keeps (same_id q) begin_op"
  unfolding begin_op_def by (intro keep; simp add: same_simps)

lemma keeps_begin_op_resume [keep]: "keeps (same_id q) (begin_op_resume p)"
  unfolding begin_op_resume_def by (intro keep; simp add: same_simps)

lemma keeps_end_op [keep]: "keeps (same_id q) end_op"
  unfolding end_op_def by (intro keep; simp add: same_simps)

lemma keeps_log_write [keep]: "keeps (same_id q) (log_write b)"
  unfolding log_write_def by (intro keep; simp add: same_simps)

section \<open>Blocks\<close>

lemma keeps_bzero [keep]: "keeps (same_id q) (bzero dev bno)"
  unfolding bzero_def by (intro keep; simp add: same_simps)

lemma keeps_balloc_loop [keep]: "keeps (same_id q) (balloc_loop dev bs)"
  by (induction bs; simp only: balloc_loop.simps; intro keep; simp add: same_simps)

lemma keeps_balloc [keep]: "keeps (same_id q) (balloc dev)"
  unfolding balloc_def by (intro keep; simp add: same_simps)

lemma keeps_bfree [keep]: "keeps (same_id q) (bfree dev b)"
  unfolding bfree_def by (intro keep; simp add: same_simps)

section \<open>Inodes\<close>

lemma keeps_iget [keep]: "keeps (same_id q) (iget dev i)"
  unfolding iget_def by (intro keep; simp add: same_simps)

lemma keeps_idup [keep]: "keeps (same_id q) (idup ip)"
  unfolding idup_def by (intro keep; simp add: same_simps)

lemma keeps_iupdate [keep]: "keeps (same_id q) (iupdate ip)"
  unfolding iupdate_def by (intro keep; simp add: same_simps)

lemma keeps_ialloc_loop [keep]: "keeps (same_id q) (ialloc_loop dev ty is)"
  by (induction "is"; simp only: ialloc_loop.simps; intro keep; simp add: same_simps)

lemma keeps_ialloc [keep]: "keeps (same_id q) (ialloc dev ty)"
  unfolding ialloc_def by (intro keep; simp add: same_simps)

lemma keeps_ilock [keep]: "keeps (same_id q) (ilock p)"
  unfolding ilock_def by (intro keep; simp add: same_simps)

lemma keeps_iunlock [keep]: "keeps (same_id q) (iunlock p)"
  unfolding iunlock_def by (intro keep; simp add: same_simps)

lemma keeps_bmap_slot [keep]: "keeps (same_id q) (bmap_slot ip i)"
  unfolding bmap_slot_def by (intro keep; simp add: same_simps)

lemma keeps_bmap_indirect [keep]: "keeps (same_id q) (bmap_indirect dev bp i)"
  unfolding bmap_indirect_def by (intro keep; simp add: same_simps)

lemma keeps_bmap [keep]: "keeps (same_id q) (bmap ip bn)"
  unfolding bmap_def by (intro keep; simp add: same_simps)

lemma keeps_itrunc [keep]: "keeps (same_id q) (itrunc ip)"
  unfolding itrunc_def by (intro keep; simp add: same_simps)

lemma keeps_iput [keep]: "keeps (same_id q) (iput ip)"
  unfolding iput_def by (intro keep; simp add: same_simps)

lemma keeps_iunlockput [keep]: "keeps (same_id q) (iunlockput ip)"
  unfolding iunlockput_def by (intro keep; simp add: same_simps)

lemma keeps_either_copyin [keep]: "keeps (same_id q) (either_copyin user_src src len)"
  unfolding either_copyin_def by (intro keep; simp add: same_simps)

lemma keeps_either_copyout [keep]: "keeps (same_id q) (either_copyout user_dst dst bs)"
  unfolding either_copyout_def by (intro keep; simp add: same_simps)

lemma keeps_readi_loop [keep]: "keeps (same_id q) (readi_loop ip u dst tot cs)"
  by (induction cs arbitrary: tot rule: pairs_induct; simp only: readi_loop.simps; intro keep; simp add: same_simps)

lemma keeps_readi [keep]: "keeps (same_id q) (readi ip user_dst dst off n)"
  unfolding readi_def by (intro keep; simp add: same_simps)

lemma keeps_writei_loop [keep]: "keeps (same_id q) (writei_loop ip u src tot cs)"
  by (induction cs arbitrary: tot rule: pairs_induct; simp only: writei_loop.simps; intro keep; simp add: same_simps)

lemma keeps_writei [keep]: "keeps (same_id q) (writei ip user_src src off n)"
  unfolding writei_def by (intro keep; simp add: same_simps)

section \<open>Directories\<close>

lemma keeps_dirlookup_loop [keep]: "keeps (same_id q) (dirlookup_loop de dp name os)"
  by (induction os; simp only: dirlookup_loop.simps; intro keep; simp add: same_simps)

lemma keeps_dirlookup [keep]: "keeps (same_id q) (dirlookup de dp name)"
  unfolding dirlookup_def by (intro keep; simp add: same_simps)

lemma keeps_dirlink_scan [keep]: "keeps (same_id q) (dirlink_scan de dp os e)"
  by (induction os; simp only: dirlink_scan.simps; intro keep; simp add: same_simps)

lemma keeps_dirlink [keep]: "keeps (same_id q) (dirlink fr dp name i)"
  unfolding dirlink_def by (intro keep; simp add: same_simps)

lemma keeps_namex_loop [keep]: "keeps (same_id q) (namex_loop fr par ip name ps)"
proof (induction ps arbitrary: ip name)
  case Nil
  show ?case by (simp, intro conjI impI keep)
next
  case (Cons x ps)
  show ?case
  proof (cases x)
    case (Inl e)
    then show ?thesis by (simp only: namex_loop.simps) (rule sid.stop)
  next
    case (Inr y)
    obtain n r where "y = (n, r)" by fastforce
    then show ?thesis unfolding Inr by (simp only: namex_loop.simps) (intro keep Cons.IH)
  qed
qed

lemma keeps_namex [keep]: "keeps (same_id q) (namex fr path par name)"
  unfolding namex_def by (intro keep; simp add: same_simps)

lemma keeps_namei [keep]: "keeps (same_id q) (namei fr path)"
  unfolding namei_def by (intro keep; simp add: same_simps)

lemma keeps_nameiparent [keep]: "keeps (same_id q) (nameiparent fr path)"
  unfolding nameiparent_def by (intro keep; simp add: same_simps)

lemma keeps_create_new [keep]: "keeps (same_id q) (create_new fr dp name ty maj mnr)"
  unfolding create_new_def by (intro keep; simp add: same_simps)

lemma keeps_create [keep]: "keeps (same_id q) (create fr path ty maj mnr)"
  unfolding create_def by (intro keep; simp add: same_simps)

lemma keeps_unlink [keep]: "keeps (same_id q) (unlink fr path)"
  unfolding unlink_def by (intro keep; simp add: same_simps)

section \<open>Files\<close>

lemma keeps_deref [keep]: "keeps (same_id q) (deref p)"
  unfolding deref_def by (intro keep; simp add: same_simps)

lemma keeps_filealloc [keep]: "keeps (same_id q) filealloc"
  unfolding filealloc_def by (intro keep; simp add: same_simps)

lemma keeps_fileopen [keep]: "keeps (same_id q) (fileopen ip readable writable)"
  unfolding fileopen_def by (intro keep; simp add: same_simps)

lemma keeps_ftype [keep]: "(\<And>t. t = FD_NONE \<Longrightarrow> keeps R a) \<Longrightarrow> (t = FD_PIPE \<Longrightarrow> keeps R b) \<Longrightarrow> (t = FD_INODE \<Longrightarrow> keeps R c) \<Longrightarrow>
    (t = FD_DEVICE \<Longrightarrow> keeps R d) \<Longrightarrow> keeps R (case t of FD_NONE \<Rightarrow> a | FD_PIPE \<Rightarrow> b | FD_INODE \<Rightarrow> c | FD_DEVICE \<Rightarrow> d)"
  by (cases t) simp_all

lemma keeps_fileclose [keep]: "keeps (same_id q) (fileclose f)"
  unfolding fileclose_def by (intro keep; simp add: same_simps)

lemma keeps_filelock [keep]: "keeps (same_id q) (filelock f)"
  unfolding filelock_def by (intro keep; simp add: same_simps)

lemma keeps_fileunlock [keep]: "keeps (same_id q) (fileunlock f)"
  unfolding fileunlock_def by (intro keep; simp add: same_simps)

lemma keeps_fileread [keep]: "keeps (same_id q) (fileread f a n)"
  unfolding fileread_def by (intro keep; simp add: same_simps)

lemma keeps_filewrite_loop [keep]: "keeps (same_id q) (filewrite_loop f ip a ps)"
  by (induction ps rule: pairs_induct; simp only: filewrite_loop.simps; intro keep; simp add: same_simps)

lemma keeps_filewrite [keep]: "keeps (same_id q) (filewrite f a n)"
  unfolding filewrite_def by (intro keep; simp add: same_simps)

lemma keeps_open_file [keep]: "keeps (same_id q) (open_file ip readable writable)"
  unfolding open_file_def by (intro keep; simp add: same_simps)

lemma keeps_close [keep]: "keeps (same_id q) (close f)"
  unfolding close_def by (intro keep; simp add: same_simps)

lemma keeps_read [keep]: "keeps (same_id q) (read f a n)"
  unfolding read_def by (intro keep; simp add: same_simps)

lemma keeps_write_file [keep]: "keeps (same_id q) (write_file f a n)"
  unfolding write_file_def by (intro keep; simp add: same_simps)

lemma keeps_fdalloc [keep]: "keeps (same_id q) (fdalloc f)"
  unfolding fdalloc_def by (intro keep; simp add: same_simps)

lemma keeps_fdget [keep]: "keeps (same_id q) (fdget fd)"
  unfolding fdget_def by (intro keep; simp add: same_simps)

lemma keeps_ker_open [keep]: "keeps (same_id q) (ker_open fr path omode)"
  unfolding ker_open_def by (intro keep; simp add: same_simps)

lemma keeps_ker_close [keep]: "keeps (same_id q) (ker_close fd)"
  unfolding ker_close_def by (intro keep; simp add: same_simps)

lemma keeps_ker_read_loop [keep]: "keeps (same_id q) (ker_read_loop kb f a tot ps)"
  by (induction ps arbitrary: tot rule: pairs_induct; simp only: ker_read_loop.simps; intro keep; simp add: same_simps)

lemma keeps_ker_read [keep]: "keeps (same_id q) (ker_read kbuf fd a n)"
  unfolding ker_read_def by (intro keep; simp add: same_simps)

lemma keeps_ker_write_loop [keep]: "keeps (same_id q) (ker_write_loop kb f a tot ps)"
  by (induction ps arbitrary: tot rule: pairs_induct; simp only: ker_write_loop.simps; intro keep; simp add: same_simps)

lemma keeps_ker_write [keep]: "keeps (same_id q) (ker_write kbuf fd a n)"
  unfolding ker_write_def by (intro keep; simp add: same_simps)

lemma keeps_ker_unlink [keep]: "keeps (same_id q) (ker_unlink fr path)"
  unfolding ker_unlink_def by (intro keep; simp add: same_simps)

section \<open>Processes\<close>

lemma same_other: "i \<noteq> q \<Longrightarrow> same_id q s (upd_proc i f s)"
  by (simp add: same_id_def live_def)

lemma keeps_unalloc [keep]: "i \<noteq> q \<Longrightarrow> keeps (same_id q) (unalloc i)"
  unfolding unalloc_def by (intro keep; simp add: same_other)

lemma keeps_alloc_proc_at: "i \<noteq> q \<Longrightarrow> keeps (same_id q) (alloc_proc_at depth i user)"
  unfolding alloc_proc_at_def by (intro keep; simp add: same_other)

lemma keeps_free_proc: "i \<noteq> q \<Longrightarrow> keeps (same_id q) (free_proc depth i)"
  unfolding free_proc_def by (intro keep; simp add: same_other)

lemma keeps_fail_proc: "i \<noteq> q \<Longrightarrow> keeps (same_id q) (fail_proc depth i)"
  unfolding fail_proc_def by (intro keep keeps_free_proc)

text \<open>A process is chosen by a test that a live process does not pass.\<close>

lemma keeps_chosen:
  assumes P: "\<And>x. P x \<Longrightarrow> pstate x = UNUSED \<or> pstate x = ZOMBIE" and f: "\<And>i t. i \<noteq> q \<Longrightarrow> keeps (same_id q) (f i t)"
    and g: "\<And>t. keeps (same_id q) (g t)"
  shows "keeps (same_id q) (kbind (kget proc_table) (\<lambda>t. case find_proc t P is of None \<Rightarrow> g t | Some i \<Rightarrow> f i t))"
  unfolding keeps_def
proof
  fix s :: "('a) kcore_scheme"
  let ?t = "proc_table s"
  have "same_id q s (snd (f i ?t s))" if "find_proc ?t P is = Some i" for i
  proof (cases "live s q")
    case True
    then have "i \<noteq> q" using find_proc_Some [OF that] P by (auto simp: live_def)
    then show ?thesis using f by (simp add: keeps_def)
  qed (simp add: same_id_def)
  then show "same_id q s (snd (kbind (kget proc_table) (\<lambda>t. case find_proc t P is of None \<Rightarrow> g t | Some i \<Rightarrow> f i t) s))"
    using g by (simp add: keeps_def split: option.split)
qed

lemma keeps_alloc_proc [keep]: "keeps (same_id q) (alloc_proc depth user)"
  unfolding alloc_proc_def by (intro keeps_chosen keeps_alloc_proc_at keep; simp)

lemma alloc_proc_at_Some: "alloc_proc_at depth i user s = (Inr (Some c), s') \<Longrightarrow> c = i"
  by (auto simp: alloc_proc_at_def unalloc_def kbind_Inr_iff kseq_Inr_iff kret_def split: if_splits)

lemma alloc_proc_unused: "alloc_proc depth user s = (Inr (Some c), s') \<Longrightarrow> \<not> live s c"
  using find_proc_Some alloc_proc_at_Some by (fastforce simp: alloc_proc_def live_def split: option.splits)

text \<open>What follows the allocation of \<open>c\<close> concerns \<open>c\<close> only.\<close>

lemma keeps_after_alloc:
  assumes "\<And>c. c \<noteq> q \<Longrightarrow> keeps (same_id q) (f c)"
  shows "keeps (same_id q) (kbind (alloc_proc depth user) (\<lambda>r. case r of None \<Rightarrow> kret x | Some c \<Rightarrow> f c))"
  unfolding keeps_def
proof
  fix s :: "('a) kproc_scheme"
  obtain r s1 where a: "alloc_proc depth user s = (r, s1)" by fastforce
  have k: "same_id q s s1" by (rule keepsD [OF keeps_alloc_proc a])
  show "same_id q s (snd (kbind (alloc_proc depth user) (\<lambda>r. case r of None \<Rightarrow> kret x | Some c \<Rightarrow> f c) s))"
  proof (cases "\<exists>c. r = Inr (Some c)")
    case True
    then obtain c where c: "r = Inr (Some c)" by blast
    show ?thesis
    proof (cases "live s q")
      case True
      then have "c \<noteq> q" using alloc_proc_unused a c by blast
      then have "same_id q s1 (snd (f c s1))" using assms by (simp add: keeps_def)
      then show ?thesis using sid.trans [OF k] a c by simp
    qed (simp add: same_id_def)
  next
    case False
    then show ?thesis using a k by (cases r) (auto split: option.split)
  qed
qed

lemma keeps_fork_proc [keep]: "keeps (same_id q) (fork_proc depth)"
  unfolding fork_proc_def
  by (intro keeps_after_alloc keep keeps_fail_proc; (assumption | simp add: same_other))

lemma keeps_wait_proc [keep]: "keeps (same_id q) (wait_proc depth)"
  unfolding wait_proc_def
  by (rule sid.bind [OF sid.get], rule keeps_option, rule sid.ret, rule sid.seq [OF keeps_intr(2)], rule keeps_chosen;
      (intro keep keeps_free_proc)?; simp)

section \<open>System calls\<close>

text \<open>Everything a system call does before its result is stored in the trapframe.\<close>

lemma keeps_kprintf [keep]: "keeps (same_id q) (kprintf fmt ap)"
  unfolding kprintf_def by (intro keep; simp add: same_simps)

lemma keeps_fetch_str [keep]: "keeps (same_id q) (fetch_str a)"
  unfolding fetch_str_def by (intro keep)

lemma keeps_yield_now [keep]: "keeps (same_id q) yield_now"
  unfolding yield_now_def by (intro keep)

text \<open>The registers a system call may change: \<open>a0\<close>, and the program counter.\<close>

definition blur :: "bool \<Rightarrow> proc \<Rightarrow> proc" where
  "blur b x = (if b then x\<lparr>tframe := (tframe x)(Tf_a0 := 0, Tf_epc := 0)\<rparr> else x)"

definition regs_kept :: "nat \<Rightarrow> nat \<Rightarrow> ('a) kcore_scheme \<Rightarrow> ('a) kcore_scheme \<Rightarrow> bool" where
  "regs_kept c q s s' \<longleftrightarrow> (live s q \<longrightarrow> live s' q \<and> ident (blur (q = c) (proc_table s' q)) = ident (blur (q = c) (proc_table s q)))"

interpretation rk: frame_rel "regs_kept c q" for c q
  by unfold_locales (auto simp: regs_kept_def)

declare rk.ret [keep] rk.stop [keep] rk.get [keep] rk.bind [keep] rk.seq [keep]

lemma same_id_regs: "same_id q s s' \<Longrightarrow> regs_kept c q s s'"
  by (auto simp: same_id_def regs_kept_def ident_def blur_def)

lemma keeps_regs: "keeps (same_id q) m \<Longrightarrow> keeps (regs_kept c q) m"
  by (simp add: keeps_def same_id_regs)

lemma keeps_set_tf [keep]: "keeps (regs_kept c q) (set_a0 (TfProc c) v)" "keeps (regs_kept c q) (set_sepc (TfProc c) v)"
  by (auto simp: keeps_def set_a0_def set_sepc_def tf_set_def regs_kept_def live_def ident_def blur_def fun_upd_twist)

lemma keeps_case_wait_done [keep]: "keeps (regs_kept c q) (case_wait_done (TfProc c) a r)"
  unfolding case_wait_done_def by (intro keeps_if keeps_prod rk.bind keep; (intro keeps_regs keep)?)

lemma keeps_case_write [keep]: "keeps (regs_kept c q) (case_write ts (TfProc c) t)"
  unfolding case_write_def by (intro keep; (intro keeps_regs keep)?)

lemma keeps_case_read [keep]: "keeps (regs_kept c q) (case_read ts (TfProc c) t)"
  unfolding case_read_def by (intro keep; (intro keeps_regs keep)?)

lemma keeps_case_open [keep]: "keeps (regs_kept c q) (case_open ts (TfProc c) t)"
  unfolding case_open_def by (intro keep; (intro keeps_regs keep)?)

lemma keeps_case_unlink [keep]: "keeps (regs_kept c q) (case_unlink ts (TfProc c) t)"
  unfolding case_unlink_def by (intro keep; (intro keeps_regs keep)?)

lemma keeps_case_ppid [keep]: "keeps (regs_kept c q) (case_ppid (TfProc c))"
  unfolding case_ppid_def by (intro keep; (intro keeps_regs keep)?)

lemma keeps_syscall_case [keep]: "keeps (regs_kept c q) (syscall_case ts (TfProc c) t)"
  unfolding syscall_case_def by (intro keep; (intro keeps_regs keep)?)

lemma keeps_handle_syscall [keep]: "keeps (regs_kept c q) (handle_syscall ts (TfProc c) info)"
  unfolding handle_syscall_def by (intro keep)

lemma keeps_syscall_resume [keep]:
  "keeps (regs_kept c q) (syscall_yield_resume p (TfProc c) info)" "keeps (regs_kept c q) (syscall_wait_resume ts p (TfProc c) a info)"
  unfolding syscall_yield_resume_def syscall_wait_resume_def wait_resume_def yield_resume_def
  by (intro keep; (intro keeps_regs keep)?)+

lemma keeps_usertrapret [keep]: "keeps (same_id q) usertrapret"
  unfolding usertrapret_def by (intro keep; simp add: same_simps)

lemma regs_keptD:
  assumes "regs_kept c q s s'" and "live s q"
  shows "live s' q" and "pid (proc_table s' q) = pid (proc_table s q)" and "parent (proc_table s' q) = parent (proc_table s q)"
    and "pagetable (proc_table s' q) = pagetable (proc_table s q)" and "kstack (proc_table s' q) = kstack (proc_table s q)"
    and "psz (proc_table s' q) = psz (proc_table s q)"
    and "q \<noteq> c \<or> f \<noteq> Tf_a0 \<and> f \<noteq> Tf_epc \<Longrightarrow> tframe (proc_table s' q) f = tframe (proc_table s q) f"
proof -
  have k: "live s' q" "ident (blur (q = c) (proc_table s' q)) = ident (blur (q = c) (proc_table s q))"
    using assms by (simp_all add: regs_kept_def)
  then show "live s' q" by blast
  show "pid (proc_table s' q) = pid (proc_table s q)" "parent (proc_table s' q) = parent (proc_table s q)"
    "pagetable (proc_table s' q) = pagetable (proc_table s q)" "kstack (proc_table s' q) = kstack (proc_table s q)"
    "psz (proc_table s' q) = psz (proc_table s q)"
    using k(2) by (auto simp: ident_def blur_def split: if_splits)
  assume f: "q \<noteq> c \<or> f \<noteq> Tf_a0 \<and> f \<noteq> Tf_epc"
  have "tframe (blur (q = c) (proc_table s' q)) f = tframe (blur (q = c) (proc_table s q)) f" using k(2) by (simp add: ident_def)
  then show "tframe (proc_table s' q) f = tframe (proc_table s q) f" using f by (auto simp: blur_def split: if_splits)
qed

section \<open>Exceptions and interrupts\<close>

lemma keeps_kill_or_skip [keep]: "keeps (regs_kept c q) (kill_or_skip (TfProc c) info)"
  unfolding kill_or_skip_def by (intro keep; (intro keeps_regs keep)?)

lemma keeps_page_faults [keep]:
  "keeps (regs_kept c q) (handle_instruction_page_fault info)" "keeps (regs_kept c q) (handle_load_page_fault info)"
  "keeps (regs_kept c q) (handle_store_page_fault info)"
  unfolding handle_instruction_page_fault_def handle_load_page_fault_def handle_store_page_fault_def
  by (intro keep; (intro keeps_regs keep)?)+

lemma keeps_access_fault [keep]: "keeps (regs_kept c q) (access_fault (TfProc c) info ty)"
  unfolding access_fault_def by (intro keep; (intro keeps_regs keep)?)

lemma keeps_illegal_instruction [keep]: "keeps (regs_kept c q) (illegal_instruction ts (TfProc c) info)"
  unfolding illegal_instruction_def by (intro keep; (intro keeps_regs keep)?)

lemma keeps_handle_exception [keep]: "keeps (regs_kept c q) (handle_exception ts (TfProc c) info)"
  unfolding handle_exception_def by (intro keep; (intro keeps_regs keep)?)

lemma keeps_timer [keep]: "keeps (same_id q) timeintr" "keeps (same_id q) set_next_tick"
  unfolding timeintr_def set_next_tick_def by (intro keep; simp add: same_simps)+

lemma keeps_external:
  assumes "\<And>h. keeps (regs_kept c q) (code h)"
  shows "keeps (regs_kept c q) (handle_external_interrupt code)"
  unfolding handle_external_interrupt_def interrupt_dispatch_def plic_claim_def plic_complete_def
  by (intro keep assms; (intro keeps_regs keep)?; simp add: same_simps)

lemma usertrap_keeps:
  fixes s :: "('a) ktrap_scheme"
  assumes cur: "current_proc s = Some p" and code: "\<And>h. keeps (regs_kept p q) (code h)"
  shows "regs_kept p q s (snd (usertrap ts code s))"
proof -
  let ?i = "\<lparr>ti_sepc = tframe (proc_table s p) Tf_epc, ti_sstatus = tframe (proc_table s p) Tf_sstatus, ti_scause = scause s, ti_stval = stval s\<rparr>"
  let ?body = "if \<not> bit (scause s) 63 \<and> scause s AND 0xFF = 8 then handle_syscall ts (TfProc p) ?i
    else if bit (scause s) 63 then (if scause s AND 0xFF = 5 then kseq timeintr set_next_tick
      else if scause s AND 0xFF = 9 then handle_external_interrupt code else kret ())
    else handle_exception ts (TfProc p) ?i"
  have "usertrap ts code s = kseq ?body usertrapret s"
    using cur by (simp add: usertrap_def myproc_def Let_def cong: if_cong)
  moreover have "keeps (regs_kept p q) (kseq ?body usertrapret)"
    by (intro keep keeps_external code; (intro keeps_regs keep)?)
  ultimately show ?thesis by (simp add: keeps_def)
qed

section \<open>Main theorem\<close>


text \<open>A kernel with one user process, number 1, that has trapped into the kernel; \<open>pgs\<close> its entry, \<open>m\<close> and \<open>free\<close> memory and the
  free list, \<open>cs\<close> the cause of the trap.\<close>

definition demo_trap :: "proc \<Rightarrow> phys \<Rightarrow> addr \<Rightarrow> u64 \<Rightarrow> ktrap" where
  "demo_trap x m free cs = kdisk.extend (demo_disk\<lparr>mem := m, freelist := free, proc_table := (proc_table demo_disk)(1 := x)\<rparr>)
     \<lparr>wal = \<lparr>llock = fresh_lock ''log'', lstart = 2, outstanding = 0, committing = False, ldev = 1, lh = \<lparr>lh_n = 0, lh_block = (\<lambda>_. 0)\<rparr>\<rparr>,
      sb = demo_sb, itable_lock = fresh_lock ''itable'',
      inodes = (\<lambda>_. \<lparr>idev = 0, inum = 0, iref = 0, ivalid = False, itype = 0, imajor = 0, iminor = 0, inlink = 0, isize = 0,
        iaddrs = (\<lambda>_. 0), ilk = \<lparr>slocked = False, slk = fresh_lock ''inode'', sname = ''inode'', spid = 0\<rparr>\<rparr>),
      ftable_lock = fresh_lock ''ftable'',
      files = (\<lambda>_. \<lparr>ftype = FD_NONE, fref = 0, freadable = False, fwritable = False, fpipe = 0, fip = None, foff = 0, fmajor = 0\<rparr>),
      devsw_read = (\<lambda>_. None), devsw_write = (\<lambda>_. None),
      proc_table_pages = 0, proc_table_mem = (\<lambda>_. 0), fn_forkret = 0x80000100, fn_usertrap = 0x80000200, fn_kernelvec = 0x80000300,
      ld_uservec = 0x80000400, ld_userret = 0x80000500, stvec = 0, sscratch = 0,
      scause = cs, sepc = 0, stval = 0, sstatus = 0, sie_csr = 0, tf_local = (\<lambda>_. 0), interrupt_vector = (\<lambda>_. 0), mmio = (\<lambda>_. 0),
      plic_irq = 0, plic_done = [], now = 1000, stimer = 0, test_flag = None, kcons = \<lparr>printf_buffer = [], uart_out = []\<rparr>\<rparr>"

lemma demo_trap_fields [simp]:
  "proc_table (demo_trap x m free cs) = (proc_table demo_disk)(1 := x)" "current_proc (demo_trap x m free cs) = Some 1"
  "mem (demo_trap x m free cs) = m" "freelist (demo_trap x m free cs) = free" "ld_end (demo_trap x m free cs) = 0x80005000"
  "scause (demo_trap x m free cs) = cs" "now (demo_trap x m free cs) = 1000"
  by (simp_all add: demo_trap_def kdisk.extend_def demo_disk_defs)

definition trap_user :: proc where
  "trap_user = idle_proc\<lparr>pid := 1, pstate := RUNNING, is_user := True, psz := 4096, pagetable := 0x80005000,
     trapframe_ptr := 0x80003000, tframe := (\<lambda>_. 0)(Tf_a7 := SYS_pid, Tf_epc := 0x100)\<rparr>"

definition demo_tstack :: tstack where
  "demo_tstack = \<lparr>ts_frames = \<lparr>fr_lookup = 0x80001000, fr_link = 0x80001100, fr_unlink = 0x80001200, fr_name = replicate 14 0\<rparr>,
     ts_kbuf = 0x80001300, ts_instr = replicate 4 0, ts_fuel = 10, ts_depth = 3\<rparr>"


end
