(* ===== verification/ForkSpec.thy ===== *)
theory ForkSpec
  imports Frame
begin

text \<open>
  Creation of processes. \<^verbatim>\<open>alloc_proc\<close> fills a free table entry from three free pages; \<^verbatim>\<open>fork_proc\<close> gives the child
  a copy of the parent's user space and registers.
\<close>

section \<open>State outside memory\<close>

lemma vm_inv_proc [simp]: "pm_inv (upd_proc i f s) ps = pm_inv s ps" "vm_inv (upd_proc i f s) l pt ps = vm_inv s l pt ps"
  by (simp_all add: pm_inv_def vm_inv_def upd_proc_def)

lemma upd_proc_mem [simp]: "mem (upd_proc i f s) = mem s" "freelist (upd_proc i f s) = freelist s" "ld_end (upd_proc i f s) = ld_end s"
  by (simp_all add: upd_proc_def)

lemma upd_proc_vm [simp]: "kernel_pagetable (upd_proc i f s) = kernel_pagetable s"
  "trampoline_phys_addr (upd_proc i f s) = trampoline_phys_addr s"
  by (simp_all add: upd_proc_def)

lemma fn_forkret_proc [simp]: "fn_forkret (upd_proc i f s) = fn_forkret s"
  by (simp add: upd_proc_def)

lemma same_rest_vm:
  assumes "same_rest s s'"
  shows "kernel_pagetable s' = kernel_pagetable s" "trampoline_phys_addr s' = trampoline_phys_addr s"
  using assms by (auto simp: same_rest_def)

lemma page_copied_proc [simp]: "page_copied s (upd_proc i f s') old new ps ps' va = page_copied s s' old new ps ps' va"
  by (simp add: page_copied_def split: option.split)

lemma pt_map_same_page: "same_page l va va' \<Longrightarrow> pt_map m l pt va = pt_map m l pt va'"
  by (induction l arbitrary: pt) (auto simp: same_page_Suc, simp_all add: same_page_def)

lemma high_px:
  "px 0 TRAPFRAME = 510" "px 1 TRAPFRAME = 511" "px 2 TRAPFRAME = 511" "px 0 TRAMPOLINE = 511" "px 1 TRAMPOLINE = 511" "px 2 TRAMPOLINE = 511"
  "px 0 0x7FFFFFE000 = 510" "px 1 0x7FFFFFE000 = 511" "px 2 0x7FFFFFE000 = 511" "px 0 0x7FFFFFF000 = 511" "px 1 0x7FFFFFF000 = 511" "px 2 0x7FFFFFF000 = 511"
  by code_simp+

lemma high_pages: "same_page 2 TRAPFRAME 0x7FFFFFE000" "same_page 2 TRAMPOLINE 0x7FFFFFF000" "\<not> same_page 2 TRAPFRAME TRAMPOLINE"
  by (simp_all add: same_page_2 high_px del: One_nat_def)

lemma high_aligned: "page_aligned TRAPFRAME" "page_aligned TRAMPOLINE" "page_aligned 0x7FFFFFE000" "page_aligned 0x7FFFFFF000"
  by (simp_all add: TRAPFRAME_def TRAMPOLINE_def PGSIZE_def)

section \<open>Allocation\<close>

lemma create_pagetable_run:
  assumes "pm_inv s (x # xs)"
  obtains s' where "create_pagetable s = (Inr x, s')" and "pm_inv s' xs" and "same_rest s s'"
    and "pt_wf (mem s') l x" and "pt_tabs (mem s') l x = {x}" and "pt_map (mem s') l x = (\<lambda>_. None)"
    and "\<And>a. \<not> in_range x PGSIZE a \<Longrightarrow> mem s' a = mem s a"
proof -
  have x: "page_aligned x" "x \<noteq> 0" "x \<notin> set xs" using pm_inv_aligned [OF assms, of x] assms by (auto simp: pm_inv_def)
  obtain s1 where s1: "alloc_page s = (Inr x, s1)" "pm_inv s1 xs" "s1 = s\<lparr>mem := mem s1, freelist := freelist s1\<rparr>"
      "\<And>a. \<not> in_range x PGSIZE a \<Longrightarrow> mem s1 a = mem s a"
    using alloc_page_inv [OF assms] by metis
  let ?s = "s1\<lparr>mem := memset (mem s1) x 0 PGSIZE\<rparr>"
  have ms: "mem ?s b = (if in_range x PGSIZE b then 0 else mem s1 b)" for b
    using page_room [OF x(1)] by (simp add: memset_apply PGSIZE_def)
  have pm: "pm_inv ?s xs"
  proof (rule pm_inv_frame [OF s1(2)])
    fix y b assume "y \<in> set xs" "in_range y PGSIZE b"
    then show "mem ?s b = mem s1 b" using ms x pm_inv_aligned [OF s1(2), of y] pages_apart [of y x b] by auto
  qed simp_all
  have z: "mem ?s b = 0" if "in_range x PGSIZE b" for b using that ms by simp
  note e = pt_empty [OF x(1,2) z, where l = l]
  show ?thesis
  proof (rule that [of ?s])
    show "create_pagetable s = (Inr x, ?s)" using s1(1) x(2) by (simp add: create_pagetable_def)
    show "same_rest s ?s" using same_rest_mem [OF same_restI [OF s1(3)]] by simp
    show "mem ?s a = mem s a" if "\<not> in_range x PGSIZE a" for a using that ms s1(4) by simp
  qed (use pm e in simp_all)
qed

text \<open>\<open>entry_rest i x s s'\<close>: from \<open>s\<close> to \<open>s'\<close> entry \<open>i\<close> of the process table has become \<open>x\<close>; apart from memory and the free list
  nothing else has changed.\<close>

definition entry_rest :: "nat \<Rightarrow> proc \<Rightarrow> ('a) kpm_scheme \<Rightarrow> ('a) kpm_scheme \<Rightarrow> bool" where
  "entry_rest i x s s' \<longleftrightarrow> (\<exists>m f. s' = s\<lparr>proc_table := (proc_table s)(i := x), mem := m, freelist := f\<rparr>)"

lemma entry_rest_start: "entry_rest i (f (proc_table s i)) s (upd_proc i f s)"
  unfolding entry_rest_def upd_proc_def by (intro exI [of _ "mem s"] exI [of _ "freelist s"]) simp

lemma entry_rest_upd: "entry_rest i x s s' \<Longrightarrow> entry_rest i (f x) s (upd_proc i f s')"
proof -
  assume "entry_rest i x s s'"
  then obtain m g where "s' = s\<lparr>proc_table := (proc_table s)(i := x), mem := m, freelist := g\<rparr>" by (auto simp: entry_rest_def)
  then show ?thesis unfolding entry_rest_def upd_proc_def by (intro exI [of _ m] exI [of _ g]) simp
qed

lemma entry_rest_mem:
  assumes "entry_rest i x s s'" and "same_rest s' s''"
  shows "entry_rest i x s s''"
proof -
  obtain m f where "s'' = s'\<lparr>mem := m, freelist := f\<rparr>" using assms(2) by (auto simp: same_rest_def)
  then show ?thesis using assms(1) unfolding entry_rest_def by (elim exE, intro exI [of _ m] exI [of _ f]) simp
qed

lemma entry_rest_fields:
  assumes "entry_rest i x s s'"
  shows "proc_table s' = (proc_table s)(i := x)" "current_proc s' = current_proc s" "ld_end s' = ld_end s"
  using assms by (auto simp: entry_rest_def)

lemma entry_rest_vm:
  assumes "entry_rest i x s s'"
  shows "kernel_pagetable s' = kernel_pagetable s" "trampoline_phys_addr s' = trampoline_phys_addr s"
  using assms by (auto simp: entry_rest_def)

lemma alloc_page_same:
  assumes "pm_inv s (x # xs)"
  obtains s' where "alloc_page s = (Inr x, s')" and "pm_inv s' xs" and "same_rest s s'" and "\<And>a. \<not> in_range x PGSIZE a \<Longrightarrow> mem s' a = mem s a"
  using assms by (rule alloc_page_inv) (use same_restI in blast)

text \<open>The entry \<^verbatim>\<open>alloc_proc\<close> makes for a user process from the pages \<open>tf\<close>, \<open>pt\<close> and \<open>ks\<close>.\<close>

definition fresh_user :: "nat \<Rightarrow> addr \<Rightarrow> addr \<Rightarrow> addr \<Rightarrow> u64 \<Rightarrow> trapframe \<Rightarrow> proc \<Rightarrow> proc" where
  "fresh_user i tf pt ks entry t p = p\<lparr>pid := int i, cwd := None, pstate := USED, is_user := True, trapframe_ptr := tf, tframe := t,
     pagetable := pt, kstack := ks, pcontext := \<lparr>ctx_ra = entry, ctx_sp = ks + of_nat PGSIZE - 16, ctx_s = (\<lambda>_. 0)\<rparr>,
     killed := False, ofile := (\<lambda>fd. if fd < NOFILE then None else ofile p fd)\<rparr>"

lemma alloc_user_run:
  fixes s :: "('a) kproc_scheme"
  assumes pm: "pm_inv s (tf # pt # ks # ps)"
  obtains s' t where "alloc_proc_at depth i True s = (Inr (Some i), s')" and "pm_inv s' ps"
    and "entry_rest i (fresh_user i tf pt ks (fn_forkret s) t (proc_table s i)) s s'"
    and "pt_wf (mem s') 2 pt" and "pt_tabs (mem s') 2 pt = {pt}" and "pt_map (mem s') 2 pt = (\<lambda>_. None)"
    and "\<And>b. \<forall>x \<in> {tf, pt, ks}. \<not> in_range x PGSIZE b \<Longrightarrow> mem s' b = mem s b"
proof -
  have al: "page_aligned tf" "tf \<noteq> 0" "page_aligned pt" "pt \<noteq> 0" "page_aligned ks" "ks \<noteq> 0" "distinct (tf # pt # ks # ps)"
    using pm_inv_aligned [OF pm] pm by (auto simp: pm_inv_def)
  let ?u0 = "\<lambda>p. p\<lparr>pid := int i, cwd := None, pstate := USED, is_user := True\<rparr>"
  let ?s0 = "upd_proc i ?u0 s"
  have pm0: "pm_inv ?s0 (tf # pt # ks # ps)" using pm by simp
  obtain s1 where s1: "alloc_page ?s0 = (Inr tf, s1)" "pm_inv s1 (pt # ks # ps)" "same_rest ?s0 s1"
      "\<And>a. \<not> in_range tf PGSIZE a \<Longrightarrow> mem s1 a = mem ?s0 a"
    using pm0 by (rule alloc_page_same) (rule that)
  let ?u1 = "\<lambda>p. p\<lparr>trapframe_ptr := tf, tframe := load_tframe (mem s1) tf\<rparr>"
  let ?s1 = "upd_proc i ?u1 s1"
  have pm1: "pm_inv ?s1 (pt # ks # ps)" using s1(2) by simp
  obtain s2 where s2: "create_pagetable ?s1 = (Inr pt, s2)" "pm_inv s2 (ks # ps)" "same_rest ?s1 s2"
      "pt_wf (mem s2) 2 pt" "pt_tabs (mem s2) 2 pt = {pt}" "pt_map (mem s2) 2 pt = (\<lambda>_. None)"
      "\<And>a. \<not> in_range pt PGSIZE a \<Longrightarrow> mem s2 a = mem ?s1 a"
    using pm1 by (rule create_pagetable_run) (rule that)
  let ?s2 = "upd_proc i (\<lambda>p. p\<lparr>pagetable := pt\<rparr>) s2"
  have pm2: "pm_inv ?s2 (ks # ps)" using s2(2) by simp
  obtain s3 where s3: "alloc_page ?s2 = (Inr ks, s3)" "pm_inv s3 ps" "same_rest ?s2 s3"
      "\<And>a. \<not> in_range ks PGSIZE a \<Longrightarrow> mem s3 a = mem ?s2 a"
    using pm2 by (rule alloc_page_same) (rule that)
  let ?u3 = "\<lambda>p. p\<lparr>kstack := ks, pcontext := \<lparr>ctx_ra = fn_forkret s, ctx_sp = ks + of_nat PGSIZE - 16, ctx_s = (\<lambda>_. 0)\<rparr>,
      killed := False, ofile := (\<lambda>fd. if fd < NOFILE then None else ofile p fd)\<rparr>"
  let ?s3 = "upd_proc i ?u3 s3"
  have e1: "entry_rest i (?u1 (?u0 (proc_table s i))) s ?s1"
    by (rule entry_rest_upd [OF entry_rest_mem [OF entry_rest_start s1(3)]])
  have e2: "entry_rest i ((?u1 (?u0 (proc_table s i)))\<lparr>pagetable := pt\<rparr>) s ?s2"
    by (rule entry_rest_upd [where f = "\<lambda>p. p\<lparr>pagetable := pt\<rparr>", OF entry_rest_mem [OF e1 s2(3)]])
  have e3: "entry_rest i (?u3 ((?u1 (?u0 (proc_table s i)))\<lparr>pagetable := pt\<rparr>)) s ?s3"
    by (rule entry_rest_upd [where f = ?u3, OF entry_rest_mem [OF e2 s3(3)]])
  have fk: "fn_forkret s3 = fn_forkret s" using entry_rest_mem [OF e2 s3(3)] by (auto simp: entry_rest_def)
  have frame: "pt_tabs (mem s3) 2 pt = pt_tabs (mem s2) 2 pt \<and> pt_wf (mem s3) 2 pt \<and> pt_map (mem s3) 2 pt = pt_map (mem s2) 2 pt"
    using s2(5) s3(4) pages_apart [OF al(3,5)] al(7) by (intro pt_frame [OF s2(4)]) auto
  show ?thesis
  proof (rule that [of ?s3 "load_tframe (mem s1) tf"])
    show "alloc_proc_at depth i True s = (Inr (Some i), ?s3)"
      using s1(1) s2(1) s3(1) al fk by (simp add: alloc_proc_at_def)
    show "pm_inv ?s3 ps" using s3(2) by simp
    show "entry_rest i (fresh_user i tf pt ks (fn_forkret s) (load_tframe (mem s1) tf) (proc_table s i)) s ?s3"
      using e3 by (simp add: fresh_user_def cong: if_cong)
    show "mem ?s3 b = mem s b" if "\<forall>x \<in> {tf, pt, ks}. \<not> in_range x PGSIZE b" for b
      using that s1(4) s2(7) s3(4) by simp
  qed (use frame s2(5,6) in simp_all)
qed

section \<open>fork\<close>

text \<open>A user space below \<open>sz\<close> whose tables and frames are not among the pages \<open>ps\<close>.\<close>

definition space_ok :: "('a) kpm_scheme \<Rightarrow> addr \<Rightarrow> u64 \<Rightarrow> addr list \<Rightarrow> bool" where
  "space_ok s pt sz ps \<longleftrightarrow> pt_wf (mem s) 2 pt \<and> pt_tabs (mem s) 2 pt \<inter> set ps = {} \<and>
     (\<forall>va e. va < sz \<longrightarrow> pt_map (mem s) 2 pt va = Some e \<longrightarrow> PTE2PA e \<notin> set ps)"

lemma space_keep:
  assumes sp: "space_ok s pt sz ps" and al: "\<And>y. y \<in> Y \<Longrightarrow> page_aligned y" and Y: "Y \<subseteq> set ps"
    and m: "\<And>b. \<forall>y \<in> Y. \<not> in_range y PGSIZE b \<Longrightarrow> mem s' b = mem s b"
  shows "pt_tabs (mem s') 2 pt = pt_tabs (mem s) 2 pt \<and> pt_wf (mem s') 2 pt \<and> pt_map (mem s') 2 pt = pt_map (mem s) 2 pt"
proof -
  have wf: "pt_wf (mem s) 2 pt" using sp by (simp add: space_ok_def)
  have "mem s' b = mem s b" if x: "x \<in> pt_tabs (mem s) 2 pt" "in_range x PGSIZE b" for x b
  proof (rule m, rule ballI)
    fix y assume "y \<in> Y"
    then show "\<not> in_range y PGSIZE b"
      using sp Y x(1) pages_apart [OF conjunct1 [OF pt_tabs_aligned [OF wf x(1)]] al _ x(2)] by (auto simp: space_ok_def)
  qed
  then show ?thesis by (rule pt_frame [OF wf])
qed

text \<open>A later mapping in the new space does not disturb the pages copied before.\<close>

lemma page_copied_step:
  assumes c: "page_copied s0 s old new ps0 ps va" and al: "\<And>x. x \<in> set ps0 \<Longrightarrow> page_aligned x"
    and vm: "vm_inv s' 2 new (drop n ps)" and T: "pt_tabs (mem s') 2 new = pt_tabs (mem s) 2 new \<union> set (take n ps)"
    and m: "pt_map (mem s') 2 new va = pt_map (mem s) 2 new va"
    and out: "\<forall>b. (\<forall>x \<in> pt_tabs (mem s') 2 new. \<not> in_range x PGSIZE b) \<longrightarrow> mem s' b = mem s b"
  shows "page_copied s0 s' old new ps0 (drop n ps) va"
proof (cases "pt_map (mem s0) 2 old va")
  case None
  then show ?thesis using c m by (simp add: page_copied_def)
next
  case (Some e)
  then obtain x where x: "x \<in> set ps0" "x \<notin> set ps" "x \<notin> pt_tabs (mem s) 2 new" "pt_map (mem s) 2 new va = Some (copy_entry va e x)"
      "\<And>b. in_range x PGSIZE b \<Longrightarrow> mem s b = mem s0 (PTE2PA e + (b - x))"
    using c by (auto simp: page_copied_def)
  have xT: "x \<notin> pt_tabs (mem s') 2 new" "x \<notin> set (drop n ps)" using x T by (auto dest: in_set_takeD in_set_dropD)
  have wf: "pt_wf (mem s') 2 new" using vm by (simp add: vm_inv_def)
  have "mem s' b = mem s b" if "in_range x PGSIZE b" for b
    using out pages_apart [OF al [OF x(1)] conjunct1 [OF pt_tabs_aligned [OF wf]] _ that] xT(1) by metis
  then show ?thesis using Some x m xT by (auto simp: page_copied_def)
qed

lemma page_copied_base:
  assumes c: "page_copied s1 s' old new ps ps' va" and m: "pt_map (mem s1) 2 old = pt_map (mem s) 2 old" and sub: "set ps \<subseteq> set ps0"
    and f: "\<And>e b. pt_map (mem s) 2 old va = Some e \<Longrightarrow> in_range (PTE2PA e) PGSIZE b \<Longrightarrow> mem s1 b = mem s b"
  shows "page_copied s s' old new ps0 ps' va"
proof (cases "pt_map (mem s) 2 old va")
  case None
  then show ?thesis using c m by (simp add: page_copied_def)
next
  case (Some e)
  have "mem s1 (PTE2PA e + (b - x)) = mem s (PTE2PA e + (b - x))" if "in_range x PGSIZE b" for b x
    using that by (intro f [OF Some]) (simp add: in_range_def)
  then show ?thesis using c m Some sub by (fastforce simp: page_copied_def)
qed

text \<open>The two pages above the user space, for the trapframe and the trampoline.\<close>

lemma map_high_run:
  fixes s :: "('a) kpm_scheme"
  assumes vm: "vm_inv s 2 pt ps" and len: "2 \<le> length ps" and va: "va = TRAPFRAME \<or> va = TRAMPOLINE" and none: "pt_map (mem s) 2 pt va = None"
  obtains s' n where "map_page pt va pa perm s = (Inr 0, s')" and "n \<le> 2" and "vm_inv s' 2 pt (drop n ps)" and "same_rest s s'"
    and "pt_tabs (mem s') 2 pt = pt_tabs (mem s) 2 pt \<union> set (take n ps)"
    and "pt_map (mem s') 2 pt = (\<lambda>va'. if same_page 2 va va' then Some (map_entry va pa perm None) else pt_map (mem s) 2 pt va')"
    and "\<forall>b. (\<forall>x \<in> pt_tabs (mem s') 2 pt. \<not> in_range x PGSIZE b) \<longrightarrow> mem s' b = mem s b"
proof -
  have "page_aligned va" "may_map s va" using va high_aligned by auto
  with vm len show ?thesis
  proof (cases rule: map_page_run [where perm = perm and pa = pa])
    case (mapped s' n)
    then show ?thesis using none by (intro that [of s' n]) (simp_all cong: if_cong)
  next
    case (other e s')
    then show ?thesis using none by simp
  qed
qed

lemma map_high_pages:
  fixes s :: "('a) kpm_scheme"
  assumes vm: "vm_inv s 2 pt ps" and len: "4 \<le> length ps" and none: "pt_map (mem s) 2 pt TRAPFRAME = None" "pt_map (mem s) 2 pt TRAMPOLINE = None"
  obtains s1 s' n where "map_page pt TRAPFRAME tf p1 s = (Inr 0, s1)" and "map_page pt TRAMPOLINE tr p2 s1 = (Inr 0, s')"
    and "vm_inv s' 2 pt (drop n ps)" and "same_rest s s1" and "same_rest s s'" and "pt_tabs (mem s') 2 pt \<subseteq> pt_tabs (mem s) 2 pt \<union> set ps"
    and "pt_map (mem s') 2 pt TRAPFRAME = Some (map_entry TRAPFRAME tf p1 None)"
    and "pt_map (mem s') 2 pt TRAMPOLINE = Some (map_entry TRAMPOLINE tr p2 None)"
    and "\<And>b. \<forall>x \<in> pt_tabs (mem s') 2 pt. \<not> in_range x PGSIZE b \<Longrightarrow> mem s' b = mem s b"
    and "\<And>s0 old ps0 va. page_copied s0 s old pt ps0 ps va \<Longrightarrow> \<forall>x \<in> set ps0. page_aligned x \<Longrightarrow> px 2 va \<noteq> 511 \<Longrightarrow>
      page_copied s0 s' old pt ps0 (drop n ps) va"
proof -
  have l1: "2 \<le> length ps" using len by simp
  obtain s1 n where s1: "map_page pt TRAPFRAME tf p1 s = (Inr 0, s1)" "n \<le> 2" "vm_inv s1 2 pt (drop n ps)" "same_rest s s1"
      "pt_tabs (mem s1) 2 pt = pt_tabs (mem s) 2 pt \<union> set (take n ps)"
      "pt_map (mem s1) 2 pt = (\<lambda>va'. if same_page 2 TRAPFRAME va' then Some (map_entry TRAPFRAME tf p1 None) else pt_map (mem s) 2 pt va')"
      "\<forall>b. (\<forall>x \<in> pt_tabs (mem s1) 2 pt. \<not> in_range x PGSIZE b) \<longrightarrow> mem s1 b = mem s b"
    by (rule map_high_run [OF vm l1 disjI1 [OF refl] none(1)]) (rule that)
  have l2: "2 \<le> length (drop n ps)" and n2: "pt_map (mem s1) 2 pt TRAMPOLINE = None" using len s1(2,6) none(2) high_pages(3) by simp_all
  obtain s' k where s2: "map_page pt TRAMPOLINE tr p2 s1 = (Inr 0, s')" "k \<le> 2" "vm_inv s' 2 pt (drop k (drop n ps))" "same_rest s1 s'"
      "pt_tabs (mem s') 2 pt = pt_tabs (mem s1) 2 pt \<union> set (take k (drop n ps))"
      "pt_map (mem s') 2 pt = (\<lambda>va'. if same_page 2 TRAMPOLINE va' then Some (map_entry TRAMPOLINE tr p2 None) else pt_map (mem s1) 2 pt va')"
      "\<forall>b. (\<forall>x \<in> pt_tabs (mem s') 2 pt. \<not> in_range x PGSIZE b) \<longrightarrow> mem s' b = mem s1 b"
    by (rule map_high_run [OF s1(3) l2 disjI2 [OF refl] n2]) (rule that)
  have far: "\<not> same_page 2 TRAMPOLINE va \<and> \<not> same_page 2 TRAPFRAME va" if "px 2 va \<noteq> 511" for va
    using that high_px(3,6) by (auto simp: same_page_2)
  have r: "\<not> same_page 2 TRAMPOLINE TRAPFRAME" "same_page 2 TRAPFRAME TRAPFRAME" "same_page 2 TRAMPOLINE TRAMPOLINE"
    using high_pages(3) by (auto simp: same_page_2)
  show ?thesis
  proof (rule that [of s1 s' "k + n"])
    show "vm_inv s' 2 pt (drop (k + n) ps)" using s2(3) by simp
    show "same_rest s s'" by (rule same_rest_trans [OF s1(4) s2(4)])
    show "pt_tabs (mem s') 2 pt \<subseteq> pt_tabs (mem s) 2 pt \<union> set ps" using s1(5) s2(5) by (auto dest: in_set_takeD in_set_dropD)
    show "mem s' b = mem s b" if "\<forall>x \<in> pt_tabs (mem s') 2 pt. \<not> in_range x PGSIZE b" for b using that s1(7) s2(5,7) by simp
    show "page_copied s0 s' old pt ps0 (drop (k + n) ps) va"
      if "page_copied s0 s old pt ps0 ps va" and al: "\<forall>x \<in> set ps0. page_aligned x" and "px 2 va \<noteq> 511" for s0 old ps0 va
    proof -
      have "page_copied s0 s1 old pt ps0 (drop n ps) va"
        using far [OF that(3)] s1(6) by (intro page_copied_step [OF that(1) bspec [OF al] s1(3,5) _ s1(7)]) simp_all
      from page_copied_step [OF this bspec [OF al] s2(3,5) _ s2(7)] show ?thesis using far [OF that(3)] s2(6) by simp
    qed
  qed (use s1 s2 r in simp_all)
qed

lemma MAKE_SATP_nonzero: "MAKE_SATP pt \<noteq> 0"
proof
  assume "MAKE_SATP pt = 0"
  then have "\<not> bit (MAKE_SATP pt) 63" by simp
  then show False by (simp add: MAKE_SATP_def bit_or_iff bit_push_bit_iff)
qed

lemma low_px: "va < 0x80000000 \<Longrightarrow> px 2 va \<noteq> 511"
proof
  assume "va < 0x80000000" and "px 2 va = 511"
  moreover have "px 2 va \<le> drop_bit 30 va" by (simp add: px_def word_and_le2)
  ultimately have "511 \<le> unat va div 2 ^ 30" and "unat va < 2 ^ 31"
    by (simp_all add: word_le_nat_alt word_less_nat_alt unat_div drop_bit_eq_div)
  then show False using less_mult_imp_div_less [of "unat va" 2 "2 ^ 30"] by simp
qed

text \<open>The address space of a child, from the pages taken first for its trapframe, table and stack: the parent's pages are copied,
  the two pages above the user space are mapped, and the parent's space is not touched.\<close>

lemma fork_space_run:
  fixes s :: "('a) kproc_scheme"
  assumes pm: "pm_inv s (tf # pt # ks # ps)" and sp: "space_ok s old sz (tf # pt # ks # ps)"
    and sz: "sz \<le> 0x80000000" and len: "3 * pages_left 0 sz + 4 \<le> length ps"
  obtains s1 s2 s3 s' t ps' where "alloc_proc_at depth c True s = (Inr (Some c), s1)"
    and "entry_rest c (fresh_user c tf pt ks (fn_forkret s) t (proc_table s c)) s s1"
    and "uvmcopy old pt sz s1 = (Inr 0, s2)" and "same_rest s1 s2"
    and "map_page pt TRAPFRAME tf (perms (PTE_R OR PTE_W)) (upd_proc c (\<lambda>p. p\<lparr>psz := sz\<rparr>) s2) = (Inr 0, s3)"
    and "same_rest (upd_proc c (\<lambda>p. p\<lparr>psz := sz\<rparr>) s2) s3"
    and "map_page pt TRAMPOLINE (trampoline_phys_addr s) (perms (PTE_R OR PTE_X)) s3 = (Inr 0, s')"
    and "same_rest (upd_proc c (\<lambda>p. p\<lparr>psz := sz\<rparr>) s2) s'" and "vm_inv s' 2 pt ps'"
    and "\<And>va. page_aligned va \<Longrightarrow> va < sz \<Longrightarrow> page_copied s s' old pt (tf # pt # ks # ps) ps' va"
    and "pt_map (mem s') 2 pt TRAPFRAME = Some (map_entry TRAPFRAME tf (perms (PTE_R OR PTE_W)) None)"
    and "pt_map (mem s') 2 pt TRAMPOLINE = Some (map_entry TRAMPOLINE (trampoline_phys_addr s) (perms (PTE_R OR PTE_X)) None)"
    and "\<And>b. \<forall>x \<in> set (tf # pt # ks # ps). \<not> in_range x PGSIZE b \<Longrightarrow> mem s' b = mem s b"
proof -
  let ?ps0 = "tf # pt # ks # ps"
  have al: "page_aligned x" if "x \<in> set ?ps0" for x using pm_inv_aligned [OF pm that] by simp
  obtain s1 t where s1: "alloc_proc_at depth c True s = (Inr (Some c), s1)" "pm_inv s1 ps"
      "entry_rest c (fresh_user c tf pt ks (fn_forkret s) t (proc_table s c)) s s1"
      "pt_wf (mem s1) 2 pt" "pt_tabs (mem s1) 2 pt = {pt}" "pt_map (mem s1) 2 pt = (\<lambda>_. None)"
      "\<And>b. \<forall>x \<in> {tf, pt, ks}. \<not> in_range x PGSIZE b \<Longrightarrow> mem s1 b = mem s b"
    using pm by (rule alloc_user_run) (rule that)
  have vm1: "vm_inv s1 2 pt ps" using s1(2,4,5) pm by (simp add: vm_inv_def pm_inv_def)
  have old1: "pt_tabs (mem s1) 2 old = pt_tabs (mem s) 2 old \<and> pt_wf (mem s1) 2 old \<and> pt_map (mem s1) 2 old = pt_map (mem s) 2 old"
    by (rule space_keep [where Y = "{tf, pt, ks}", OF sp _ _ s1(7)]) (auto intro: al)
  have ap: "old_apart s1 old pt ps sz" using sp old1 s1(5) by (auto simp: old_apart_def space_ok_def)
  have e: "\<forall>va. page_aligned va \<longrightarrow> va < sz \<longrightarrow> pt_map (mem s1) 2 pt va = None" using s1(6) by simp
  have l: "3 * pages_left 0 sz \<le> length ps" using len by simp
  obtain s2 ps2 where s2: "uvmcopy old pt sz s1 = (Inr 0, s2)" "vm_inv s2 2 pt ps2" "same_rest s1 s2"
      "\<And>va. page_aligned va \<Longrightarrow> va < sz \<Longrightarrow> page_copied s1 s2 old pt ps ps2 va" "pt_map (mem s2) 2 old = pt_map (mem s1) 2 old" "pt_wf (mem s2) 2 old"
      "\<And>b. \<forall>x \<in> pt_tabs (mem s1) 2 pt \<union> set ps. \<not> in_range x PGSIZE b \<Longrightarrow> mem s2 b = mem s1 b"
      "\<And>va. page_aligned va \<Longrightarrow> 0x80000000 \<le> va \<Longrightarrow> va < 0x8000000000 \<Longrightarrow> pt_map (mem s2) 2 pt va = pt_map (mem s1) 2 pt va"
      "set ps2 \<subseteq> set ps" "length ps \<le> length ps2 + 3 * pages_left 0 sz" "pt_tabs (mem s2) 2 pt \<subseteq> pt_tabs (mem s1) 2 pt \<union> set ps"
    by (rule uvmcopy_run [OF vm1 ap sz e l]) (rule that)
  let ?s2 = "upd_proc c (\<lambda>p. p\<lparr>psz := sz\<rparr>) s2"
  have hi: "pt_map (mem s2) 2 pt 0x7FFFFFE000 = None" "pt_map (mem s2) 2 pt 0x7FFFFFF000 = None"
    using s2(8) [OF high_aligned(3)] s2(8) [OF high_aligned(4)] s1(6) by simp_all
  have none: "pt_map (mem ?s2) 2 pt TRAPFRAME = None" "pt_map (mem ?s2) 2 pt TRAMPOLINE = None"
    using hi pt_map_same_page [OF high_pages(1)] pt_map_same_page [OF high_pages(2)] by simp_all
  have vm2: "vm_inv ?s2 2 pt ps2" and l2: "4 \<le> length ps2" using s2(2,10) len by simp_all
  obtain s3 s' n where m: "map_page pt TRAPFRAME tf (perms (PTE_R OR PTE_W)) ?s2 = (Inr 0, s3)"
      "map_page pt TRAMPOLINE (trampoline_phys_addr s) (perms (PTE_R OR PTE_X)) s3 = (Inr 0, s')"
      "vm_inv s' 2 pt (drop n ps2)" "same_rest ?s2 s3" "same_rest ?s2 s'" "pt_tabs (mem s') 2 pt \<subseteq> pt_tabs (mem ?s2) 2 pt \<union> set ps2"
      "pt_map (mem s') 2 pt TRAPFRAME = Some (map_entry TRAPFRAME tf (perms (PTE_R OR PTE_W)) None)"
      "pt_map (mem s') 2 pt TRAMPOLINE = Some (map_entry TRAMPOLINE (trampoline_phys_addr s) (perms (PTE_R OR PTE_X)) None)"
      "\<And>b. \<forall>x \<in> pt_tabs (mem s') 2 pt. \<not> in_range x PGSIZE b \<Longrightarrow> mem s' b = mem ?s2 b"
      "\<And>s0 old ps0 va. page_copied s0 ?s2 old pt ps0 ps2 va \<Longrightarrow> \<forall>x \<in> set ps0. page_aligned x \<Longrightarrow> px 2 va \<noteq> 511 \<Longrightarrow>
        page_copied s0 s' old pt ps0 (drop n ps2) va"
    by (rule map_high_pages [OF vm2 l2 none]) (rule that)
  have tabs: "pt_tabs (mem s') 2 pt \<subseteq> set (pt # ps)" using m(6) s2(9,11) s1(5) by auto
  have out: "mem s' b = mem s b" if "\<forall>x \<in> set ?ps0. \<not> in_range x PGSIZE b" for b
  proof -
    have "mem s' b = mem s2 b" using that tabs m(9) [of b] by auto
    then show ?thesis using that s2(7) [of b] s1(5) s1(7) [of b] by simp
  qed
  have frames: "mem s1 b = mem s b" if va: "va < sz" "pt_map (mem s) 2 old va = Some e" and b: "in_range (PTE2PA e) PGSIZE b" for va e b
  proof (rule s1(7), rule ballI)
    fix x assume "x \<in> {tf, pt, ks}"
    then show "\<not> in_range x PGSIZE b" using sp va pages_apart [OF PTE2PA_aligned al _ b, of x] by (auto simp: space_ok_def)
  qed
  have copied: "page_copied s s' old pt ?ps0 (drop n ps2) va" if va: "page_aligned va" "va < sz" for va
  proof (rule page_copied_base)
    show "page_copied s1 s' old pt ps (drop n ps2) va"
      using s2(4) [OF va] low_px [OF less_le_trans [OF va(2) sz]] al by (intro m(10)) simp_all
  qed (use old1 frames [OF va(2)] in auto)
  show ?thesis by (rule that [OF s1(1,3) s2(1,3) m(1,4,2,5,3) copied m(7,8) out])
qed

text \<open>The entry of the child: the parent's size, directory and registers, except that it returns 0 and continues after the
  call; its own kernel stack; no open files.\<close>

definition forked :: "nat \<Rightarrow> proc \<Rightarrow> addr \<Rightarrow> addr \<Rightarrow> addr \<Rightarrow> addr \<Rightarrow> proc \<Rightarrow> bool" where
  "forked q par kpt tf pt ks ch \<longleftrightarrow> pstate ch = RUNNABLE \<and> parent ch = Some q \<and> is_user ch \<and> \<not> killed ch \<and> psz ch = psz par \<and>
     cwd ch = cwd par \<and> (\<forall>fd < NOFILE. ofile ch fd = None) \<and> trapframe_ptr ch = tf \<and> pagetable ch = pt \<and> kstack ch = ks \<and>
     tframe ch = (tframe par)(Tf_kernel_sp := ks + of_nat PGSIZE, Tf_kernel_satp := MAKE_SATP kpt,
       Tf_epc := tframe par Tf_epc + 4, Tf_a0 := 0)"

text \<open>\<^verbatim>\<open>fork_proc\<close> with a free table entry and enough free pages.\<close>

lemma fork_run:
  fixes s :: "('a) kproc_scheme"
  assumes cur: "current_proc s = Some q" and usr: "is_user (proc_table s q)"
    and free: "find_proc (proc_table s) (\<lambda>p. pstate p = UNUSED) [0..<PROC] = Some c" and cq: "c \<noteq> q"
    and pm: "pm_inv s (tf # pt # ks # ps)" and sp: "space_ok s (pagetable (proc_table s q)) (psz (proc_table s q)) (tf # pt # ks # ps)"
    and sz: "psz (proc_table s q) \<le> 0x80000000" and len: "3 * pages_left 0 (psz (proc_table s q)) + 4 \<le> length ps"
  shows "\<exists>s' ps' ch. fork_proc depth s = (Inr (int c), s') \<and> proc_table s' = (proc_table s)(c := ch) \<and>
    forked q (proc_table s q) (kernel_pagetable s) tf pt ks ch \<and> pid ch = int c \<and> current_proc s' = Some q \<and> vm_inv s' 2 pt ps' \<and>
    (\<forall>va. page_aligned va \<longrightarrow> va < psz (proc_table s q) \<longrightarrow> page_copied s s' (pagetable (proc_table s q)) pt (tf # pt # ks # ps) ps' va) \<and>
    pt_map (mem s') 2 pt TRAPFRAME = Some (map_entry TRAPFRAME tf (perms (PTE_R OR PTE_W)) None) \<and>
    pt_map (mem s') 2 pt TRAMPOLINE = Some (map_entry TRAMPOLINE (trampoline_phys_addr s) (perms (PTE_R OR PTE_X)) None) \<and>
    (\<forall>b. (\<forall>x \<in> set (tf # pt # ks # ps). \<not> in_range x PGSIZE b) \<longrightarrow> mem s' b = mem s b)"
proof -
  let ?par = "proc_table s q"
  obtain s1 s2 s3 s' t ps' where r: "alloc_proc_at depth c True s = (Inr (Some c), s1)"
      "entry_rest c (fresh_user c tf pt ks (fn_forkret s) t (proc_table s c)) s s1"
      "uvmcopy (pagetable ?par) pt (psz ?par) s1 = (Inr 0, s2)" "same_rest s1 s2"
      "map_page pt TRAPFRAME tf (perms (PTE_R OR PTE_W)) (upd_proc c (\<lambda>p. p\<lparr>psz := psz ?par\<rparr>) s2) = (Inr 0, s3)"
      "same_rest (upd_proc c (\<lambda>p. p\<lparr>psz := psz ?par\<rparr>) s2) s3"
      "map_page pt TRAMPOLINE (trampoline_phys_addr s) (perms (PTE_R OR PTE_X)) s3 = (Inr 0, s')"
      "same_rest (upd_proc c (\<lambda>p. p\<lparr>psz := psz ?par\<rparr>) s2) s'" "vm_inv s' 2 pt ps'"
      "\<And>va. page_aligned va \<Longrightarrow> va < psz ?par \<Longrightarrow> page_copied s s' (pagetable ?par) pt (tf # pt # ks # ps) ps' va"
      "pt_map (mem s') 2 pt TRAPFRAME = Some (map_entry TRAPFRAME tf (perms (PTE_R OR PTE_W)) None)"
      "pt_map (mem s') 2 pt TRAMPOLINE = Some (map_entry TRAMPOLINE (trampoline_phys_addr s) (perms (PTE_R OR PTE_X)) None)"
      "\<And>b. \<forall>x \<in> set (tf # pt # ks # ps). \<not> in_range x PGSIZE b \<Longrightarrow> mem s' b = mem s b"
    by (rule fork_space_run [OF pm sp sz len]) (rule that)
  let ?x = "fresh_user c tf pt ks (fn_forkret s) t (proc_table s c)" and ?u = "\<lambda>p. p\<lparr>psz := psz ?par\<rparr>"
  have e2: "entry_rest c (?u ?x) s (upd_proc c ?u s2)" by (rule entry_rest_upd [where f = ?u, OF entry_rest_mem [OF r(2,4)]])
  note e3 = entry_rest_mem [OF e2 r(6)] and e' = entry_rest_mem [OF e2 r(8)]
  let ?ch = "(?u ?x)\<lparr>tframe := fork_tframe s' (tframe (proc_table s' q)) (?u ?x), pstate := RUNNABLE, parent := Some q, cwd := cwd (proc_table s' q)\<rparr>"
  let ?s = "upd_proc c (\<lambda>p. p\<lparr>tframe := fork_tframe s' (tframe (proc_table s' q)) p, pstate := RUNNABLE, parent := Some q,
    cwd := cwd (proc_table s' q)\<rparr>) s'"
  note f1 = entry_rest_fields [OF r(2)] and f3 = entry_rest_vm [OF e3] and f' = entry_rest_fields [OF e'] entry_rest_vm [OF e']
  have tf0: "unat tf mod PGSIZE = 0" using pm_inv_aligned [OF pm, of tf] by simp
  have x: "pagetable ?x = pt" "trapframe_ptr ?x = tf" "kstack ?x = ks" "pid ?x = int c" by (simp_all add: fresh_user_def)
  have run: "fork_proc depth s = (Inr (int c), ?s)"
    using cur usr free r(1,3,5,7) f1 f3 f' tf0 x MAKE_SATP_nonzero
    by (simp add: fork_proc_def myproc_def alloc_proc_def)
  have tab: "proc_table ?s = (proc_table s)(c := ?ch)" using f'(1) by (simp add: upd_proc_def)
  have ch: "forked q ?par (kernel_pagetable s) tf pt ks ?ch" "pid ?ch = int c"
    using f' cq x by (simp_all add: forked_def fork_tframe_def fresh_user_def)
  show ?thesis
    by (intro exI [of _ ?s] exI [of _ ps'] exI [of _ ?ch] conjI run tab ch) (use r(9-13) f'(2) cur in simp_all)
qed

section \<open>A process with one page\<close>

text \<open>Memory in which the pages of a list are linked as the free list has them.\<close>

fun link_pages :: "addr list \<Rightarrow> phys" where
  "link_pages [] = (\<lambda>_. 0)"
| "link_pages [x] = (\<lambda>_. 0)"
| "link_pages (x # y # xs) = store64 (link_pages (y # xs)) x y"

lemma store64_page: "\<not> in_range x PGSIZE b \<Longrightarrow> store64 m x v b = m b"
  by (rule store64_outside) (use in_range_mono [of x 8 b PGSIZE] in \<open>auto simp: PGSIZE_def\<close>)

lemma link_pages_outside: "\<forall>x \<in> set ps. \<not> in_range x PGSIZE b \<Longrightarrow> link_pages ps b = 0"
  by (induction ps rule: link_pages.induct) (simp_all add: store64_page)

lemma flist_link_pages:
  assumes "distinct ps" and "\<And>x. x \<in> set ps \<Longrightarrow> page_aligned x \<and> x \<noteq> 0" and "ps \<noteq> []"
  shows "flist (link_pages ps) (hd ps) ps"
  using assms
proof (induction ps rule: link_pages.induct)
  case 1
  then show ?case by simp
next
  case (2 x)
  then show ?case by (simp add: load64_zero)
next
  case (3 x y xs)
  let ?m = "link_pages (y # xs)"
  have "store64 ?m x y b = ?m b" if z: "z \<in> set (y # xs)" "in_range z PGSIZE b" for z b
    using 3(2,3) z pages_apart [of z x b] by (intro store64_page) auto
  then have "flist (store64 ?m x y) y (y # xs) = flist ?m y (y # xs)"
    by (intro flist_cong) (use in_range_mono [of _ 8 _ PGSIZE] in \<open>auto simp: PGSIZE_def\<close>)
  then show ?case using 3 by (simp add: load64_store64)
qed

text \<open>Process 1 has one page, at address 0 (frame \<open>0x87000000\<close>); its table has been made by \<^verbatim>\<open>map_page\<close>.\<close>

definition fork_pages :: "addr list" where
  "fork_pages = [0x80006000, 0x80007000, 0x80008000, 0x80009000, 0x8000A000, 0x8000B000, 0x8000C000, 0x8000D000, 0x8000E000,
     0x8000F000, 0x80010000, 0x80011000]"

definition demo_parent :: ktrap where
  "demo_parent = snd (map_page 0x80005000 0 0x87000000 0x16 (demo_trap trap_user (link_pages fork_pages) 0x80006000 8))"

lemma fork_pages_ok: "pm_inv (demo_trap trap_user (link_pages fork_pages) 0x80006000 8) fork_pages"
proof -
  have "flist (link_pages fork_pages) (hd fork_pages) fork_pages"
    by (rule flist_link_pages) (auto simp: fork_pages_def PGSIZE_def)
  then show ?thesis by (simp add: pm_inv_def) (simp add: fork_pages_def page_ok_def PGSIZE_def PHYSTOP_eq)
qed

lemma demo_parent_ok:
  obtains ps where "pm_inv demo_parent ps" and "10 \<le> length ps" and "space_ok demo_parent 0x80005000 4096 ps"
    and "same_rest (demo_trap trap_user (link_pages fork_pages) 0x80006000 8) demo_parent"
    and "pt_map (mem demo_parent) 2 0x80005000 0 = Some 0x21C00017"
proof -
  let ?pt = "0x80005000 :: addr" and ?s = "demo_trap trap_user (link_pages fork_pages) 0x80006000 8"
  have z: "mem ?s b = 0" if "in_range ?pt PGSIZE b" for b
    using that by (simp, intro link_pages_outside) (auto simp: fork_pages_def in_range_nat PGSIZE_def)
  have "page_aligned ?pt" "?pt \<noteq> 0" by (simp_all add: PGSIZE_def)
  note e = pt_empty [OF this z, where l = 2]
  have vm: "vm_inv ?s 2 ?pt fork_pages" using e fork_pages_ok by (simp add: vm_inv_def) (simp add: fork_pages_def)
  have m: "map_entry 0 0x87000000 0x16 None = 0x21C00017" and pa: "PTE2PA 0x21C00017 = 0x87000000" by code_simp+
  have "2 \<le> length fork_pages" "page_aligned 0" "may_map ?s 0" by (simp_all add: fork_pages_def)
  with vm show ?thesis
  proof (cases rule: map_page_run [where perm = "0x16" and pa = "0x87000000"])
    case (other e' s')
    then show ?thesis using e by simp
  next
    case (mapped s' n)
    have s': "demo_parent = s'" using mapped(2) by (simp add: demo_parent_def)
    have map: "pt_map (mem s') 2 ?pt va = (if same_page 2 0 va then Some 0x21C00017 else None)" for va
      using mapped(7) e m by (simp cong: if_cong)
    have "0x87000000 \<notin> set (drop n fork_pages)" by (auto simp: fork_pages_def dest!: in_set_dropD)
    then have "space_ok s' ?pt 4096 (drop n fork_pages)"
      using mapped(4) map pa by (auto simp: space_ok_def vm_inv_def split: if_splits)
    moreover have "10 \<le> length (drop n fork_pages)" "pm_inv s' (drop n fork_pages)" "pt_map (mem s') 2 ?pt 0 = Some 0x21C00017"
      using mapped(3,4) map by (simp_all add: fork_pages_def vm_inv_def same_page_def)
    ultimately show ?thesis using mapped(5) s' by (intro that [of "drop n fork_pages"]) simp_all
  qed
qed

end
