(* ===== verification/ExitSpec.thy ===== *)
theory ExitSpec
  imports ForkSpec
begin

text \<open>
  The end of a process: \<^verbatim>\<open>exit_proc\<close> in the child and \<^verbatim>\<open>wait_proc\<close> with \<^verbatim>\<open>free_proc\<close> in the parent, \<^verbatim>\<open>kernel/proc.c\<close>.
\<close>

section \<open>Freeing a process\<close>

text \<open>The pages a user process owns in the kernel: its trapframe, its kernel stack and its page tables, all apart from each
  other and from the free pages. It has no open files.\<close>

definition owned_pages :: "('a) kproc_scheme \<Rightarrow> proc \<Rightarrow> addr set" where
  "owned_pages s x = {trapframe_ptr x, kstack x} \<union> pt_tabs (mem s) 2 (pagetable x)"

definition child_ok :: "('a) kproc_scheme \<Rightarrow> proc \<Rightarrow> addr list \<Rightarrow> bool" where
  "child_ok s x ps \<longleftrightarrow> pt_wf (mem s) 2 (pagetable x) \<and> pt_shape (mem s) 2 (pagetable x) \<and> pagetable x \<noteq> kernel_pagetable s \<and>
     (\<forall>y \<in> owned_pages s x. page_ok (ld_end s) y) \<and> owned_pages s x \<inter> set ps = {} \<and>
     trapframe_ptr x \<noteq> kstack x \<and> {trapframe_ptr x, kstack x} \<inter> pt_tabs (mem s) 2 (pagetable x) = {} \<and>
     (\<forall>fd < NOFILE. ofile x fd = None)"

definition freed_proc :: "proc \<Rightarrow> proc" where
  "freed_proc x = x\<lparr>trapframe_ptr := 0, pagetable := 0, kstack := 0, pid := 0, pstate := UNUSED, parent := None, pchan := None,
     pcontext := zero_context\<rparr>"

lemma page_ok_nz: "0 < lo \<Longrightarrow> page_ok lo x \<Longrightarrow> x \<noteq> 0 \<and> page_aligned x"
  by (auto simp: page_ok_def)

lemma free_page_same:
  assumes "pm_inv s xs" and "page_ok (ld_end s) x" and "x \<notin> set xs"
  obtains s' where "free_page x s = (Inr (), s')" and "pm_inv s' (x # xs)" and "same_rest s s'" and "\<And>b. \<not> in_range x PGSIZE b \<Longrightarrow> mem s' b = mem s b"
proof -
  obtain s' where s': "free_page x s = (Inr (), s')" "pm_inv s' (x # xs)" "s' = s\<lparr>mem := mem s', freelist := freelist s'\<rparr>" "ld_end s' = ld_end s"
      "\<And>a. \<not> in_range x 8 a \<Longrightarrow> mem s' a = mem s a"
    by (rule free_page_inv [OF assms]) (rule that)
  have "mem s' b = mem s b" if "\<not> in_range x PGSIZE b" for b
    using that in_range_mono [of x 8 b PGSIZE] by (intro s'(5)) (auto simp: PGSIZE_def)
  then show ?thesis using that [OF s'(1,2) same_restI [OF s'(3)]] by blast
qed

text \<open>No file is open, so the loop over the descriptors does nothing.\<close>

lemma close_none:
  assumes "\<forall>fd < NOFILE. ofile (proc_table s i) fd = None"
  shows "kfor [0..<NOFILE] (\<lambda>fd. kbind (kget (\<lambda>s. ofile (proc_table s i) fd)) (\<lambda>f. case f of
      None \<Rightarrow> kret () | Some f \<Rightarrow> kseq (close f) (kmod (upd_proc i (\<lambda>p. p\<lparr>ofile := (ofile p)(fd := None)\<rparr>))))) s = (Inr (), s)"
proof -
  have "kfor fds (\<lambda>fd. kbind (kget (\<lambda>s. ofile (proc_table s i) fd)) (\<lambda>f. case f of
      None \<Rightarrow> kret () | Some f \<Rightarrow> kseq (close f) (kmod (upd_proc i (\<lambda>p. p\<lparr>ofile := (ofile p)(fd := None)\<rparr>))))) s = (Inr (), s)"
    if "\<forall>fd \<in> set fds. ofile (proc_table s i) fd = None" for fds
    using that by (induction fds) simp_all
  then show ?thesis using assms by simp
qed

lemma free_proc_run:
  fixes s :: "('a) kproc_scheme"
  assumes pm: "pm_inv s ps" and ok: "child_ok s (proc_table s i) ps"
  obtains s' qs where "free_proc 3 i s = (Inr (), s')" and "entry_rest i (freed_proc (proc_table s i)) s s'"
    and "pm_inv s' (kstack (proc_table s i) # qs @ trapframe_ptr (proc_table s i) # ps)"
    and "set qs = pt_tabs (mem s) 2 (pagetable (proc_table s i))"
    and "\<And>b. \<forall>x \<in> owned_pages s (proc_table s i). \<not> in_range x PGSIZE b \<Longrightarrow> mem s' b = mem s b"
proof -
  let ?x = "proc_table s i" and ?T = "pt_tabs (mem s) 2 (pagetable (proc_table s i))"
  let ?tf = "trapframe_ptr ?x" and ?ks = "kstack ?x" and ?pt = "pagetable ?x"
  have wf: "pt_wf (mem s) 2 ?pt" "pt_shape (mem s) 2 ?pt" "?pt \<noteq> kernel_pagetable s" and ko: "page_ok (ld_end s) ?tf" "page_ok (ld_end s) ?ks" "\<forall>y \<in> ?T. page_ok (ld_end s) y"
    and dj: "?tf \<notin> set ps" "?ks \<notin> set ps" "?T \<inter> set ps = {}" "?tf \<noteq> ?ks" "?tf \<notin> ?T" "?ks \<notin> ?T" and no: "\<forall>fd < NOFILE. ofile ?x fd = None"
    using ok by (auto simp: child_ok_def owned_pages_def)
  have lo: "0 < ld_end s" using pm by (simp add: pm_inv_def)
  note al = page_ok_nz [OF lo ko(1)] page_ok_nz [OF lo ko(2)]
  have ptn: "?pt \<noteq> 0" using wf(1) by (simp add: pt_wf_root)
  obtain s1 where s1: "free_page ?tf s = (Inr (), s1)" "pm_inv s1 (?tf # ps)" "same_rest s s1" "\<And>b. \<not> in_range ?tf PGSIZE b \<Longrightarrow> mem s1 b = mem s b"
    by (rule free_page_same [OF pm ko(1) dj(1)]) (rule that)
  let ?s1 = "upd_proc i (\<lambda>p. p\<lparr>trapframe_ptr := 0\<rparr>) s1"
  have m1: "mem s1 b = mem s b" if "y \<in> ?T" "in_range y PGSIZE b" for y b
    using s1(4) pages_apart [OF conjunct1 [OF pt_tabs_aligned [OF wf(1) that(1)]] conjunct2 [OF al(1)] _ that(2)] dj(5) that(1) by blast
  have f1: "pt_tabs (mem s1) 2 ?pt = ?T \<and> pt_wf (mem s1) 2 ?pt \<and> pt_map (mem s1) 2 ?pt = pt_map (mem s) 2 ?pt" by (rule pt_frame [OF wf(1) m1])
  have sh: "pt_shape (mem s1) 2 ?pt" by (rule pt_shape_frame [OF wf(1,2) m1])
  have l1: "ld_end s1 = ld_end s" using same_rest_fields [OF s1(3)] by simp
  have T1: "pt_tabs (mem ?s1) 2 ?pt = ?T" using f1 by simp
  have fp: "pm_inv ?s1 (?tf # ps)" "pt_wf (mem ?s1) 2 ?pt" "pt_shape (mem ?s1) 2 ?pt" "pt_tabs (mem ?s1) 2 ?pt \<inter> set (?tf # ps) = {}"
      "\<forall>x \<in> pt_tabs (mem ?s1) 2 ?pt. page_ok (ld_end ?s1) x"
    unfolding T1 using s1(2) f1 sh dj(3,5) ko(3) l1 by simp_all
  have "Suc 2 = 3" by simp
  note fr = free_pagetable_run [OF fp, unfolded this T1]
  obtain s2 qs where s2: "free_pagetable 3 ?pt ?s1 = (Inr (), s2)" "pm_inv s2 (qs @ ?tf # ps)" "set qs = ?T" "same_rest ?s1 s2"
      "\<forall>b. (\<forall>x \<in> ?T. \<not> in_range x PGSIZE b) \<longrightarrow> mem s2 b = mem ?s1 b"
    using fr by blast
  let ?s2 = "upd_proc i (\<lambda>p. p\<lparr>pagetable := 0\<rparr>) s2"
  have l2: "ld_end s2 = ld_end s" using same_rest_fields [OF s2(4)] l1 by simp
  have pm2: "pm_inv ?s2 (qs @ ?tf # ps)" and ko2: "page_ok (ld_end ?s2) ?ks" and n2: "?ks \<notin> set (qs @ ?tf # ps)" using s2(2,3) ko(2) l2 dj by auto
  obtain s3 where s3: "free_page ?ks ?s2 = (Inr (), s3)" "pm_inv s3 (?ks # qs @ ?tf # ps)" "same_rest ?s2 s3" "\<And>b. \<not> in_range ?ks PGSIZE b \<Longrightarrow> mem s3 b = mem ?s2 b"
    by (rule free_page_same [OF pm2 ko2 n2]) (rule that)
  let ?u1 = "\<lambda>p. p\<lparr>trapframe_ptr := 0\<rparr>" and ?u2 = "\<lambda>p. p\<lparr>pagetable := 0\<rparr>" and ?u3 = "\<lambda>p. p\<lparr>kstack := 0\<rparr>"
    and ?u4 = "\<lambda>p. p\<lparr>pid := 0, pstate := UNUSED, parent := None, pchan := None, pcontext := zero_context\<rparr>"
  have "entry_rest i ?x s s1" using entry_rest_mem [OF entry_rest_start [where f = id and i = i and s = s]] s1(3) by (simp add: upd_proc_def)
  note e1 = entry_rest_upd [where f = ?u1, OF this]
  note e2 = entry_rest_upd [where f = ?u2, OF entry_rest_mem [OF e1 s2(4)]]
  note e3 = entry_rest_upd [where f = ?u3, OF entry_rest_mem [OF e2 s3(3)]]
  note e4 = entry_rest_upd [where f = ?u4, OF e3]
  have t3: "proc_table (upd_proc i ?u3 s3) i = ?u3 (?u2 (?u1 ?x))" using entry_rest_fields [OF e3] by simp
  have files: "\<forall>fd < NOFILE. ofile (proc_table (upd_proc i ?u3 s3) i) fd = None" unfolding t3 using no by simp
  have run: "free_proc 3 i s = (Inr (), upd_proc i ?u4 (upd_proc i ?u3 s3))"
    using s1(1) s2(1) s3(1) al wf(3) ptn close_none [OF files] by (simp add: free_proc_def)
  have out: "mem s3 b = mem s b" if b: "\<forall>x \<in> owned_pages s ?x. \<not> in_range x PGSIZE b" for b
    using b s1(4) [of b] s2(5) s3(4) [of b] by (simp add: owned_pages_def)
  show ?thesis
  proof (rule that [OF run])
    show "entry_rest i (freed_proc ?x) s (upd_proc i ?u4 (upd_proc i ?u3 s3))" using e4 by (simp add: freed_proc_def)
  qed (use s2(3) s3(2) out in simp_all)
qed

section \<open>exit and wait\<close>

lemma find_proc_unique:
  assumes "c \<in> set is" and "P (tab c)" and "\<And>i. i \<in> set is \<Longrightarrow> i \<noteq> c \<Longrightarrow> \<not> P (tab i)"
  shows "find_proc tab P is = Some c"
  using assms by (induction "is") auto

lemma sched_visit_runnable:
  fixes s :: "('a) kproc_scheme"
  assumes "st_of s p = RUNNABLE"
  shows "\<exists>x. pstate x = RUNNING \<and> sched_visit p s = s\<lparr>proc_table := (proc_table s)(p := x), cpu_proc := Some p, current_proc := Some p\<rparr>"
  using assms sched_tick_runnable [of "proc_table s p"]
  by (intro exI [of _ "(sched_tick (proc_table s p))\<lparr>pstate := RUNNING\<rparr>"]) (simp add: sched_visit_def Let_def upd_proc_def)

lemma child_ok_cong:
  assumes "child_ok s x ps" and "mem s' = mem s" and "ld_end s' = ld_end s" and "kernel_pagetable s' = kernel_pagetable s"
    and "pagetable x' = pagetable x" and "trapframe_ptr x' = trapframe_ptr x" and "kstack x' = kstack x" and "ofile x' = ofile x"
  shows "child_ok s' x' ps"
  using assms by (simp add: child_ok_def owned_pages_def)

lemma wait_proc_reaps:
  fixes s :: "('a) kproc_scheme"
  assumes cur: "current_proc s = Some p" and z: "find_proc (proc_table s) (\<lambda>c. pstate c = ZOMBIE \<and> parent c = Some p) [0..<PROC] = Some i"
    and pm: "pm_inv s ps" and ok: "child_ok s (proc_table s i) ps"
  obtains s' qs where "wait_proc 3 s = (Inr (pid (proc_table s i), Some (exit_status (proc_table s i))), s')"
    and "proc_table s' = (proc_table s)(i := freed_proc (proc_table s i))" and "current_proc s' = Some p"
    and "pm_inv s' (kstack (proc_table s i) # qs @ trapframe_ptr (proc_table s i) # ps)"
    and "set qs = pt_tabs (mem s) 2 (pagetable (proc_table s i))"
    and "\<And>b. \<forall>x \<in> owned_pages s (proc_table s i). \<not> in_range x PGSIZE b \<Longrightarrow> mem s' b = mem s b"
proof -
  let ?t = "s\<lparr>sie := True\<rparr>"
  have pm1: "pm_inv ?t ps" using pm by (simp add: pm_inv_def)
  have ok1: "child_ok ?t (proc_table ?t i) ps" by (rule child_ok_cong [OF ok]) simp_all
  obtain s' qs where r: "free_proc 3 i ?t = (Inr (), s')" "entry_rest i (freed_proc (proc_table ?t i)) ?t s'"
      "pm_inv s' (kstack (proc_table ?t i) # qs @ trapframe_ptr (proc_table ?t i) # ps)"
      "set qs = pt_tabs (mem ?t) 2 (pagetable (proc_table ?t i))"
      "\<And>b. \<forall>x \<in> owned_pages ?t (proc_table ?t i). \<not> in_range x PGSIZE b \<Longrightarrow> mem s' b = mem ?t b"
    by (rule free_proc_run [OF pm1 ok1]) (rule that)
  have run: "wait_proc 3 s = (Inr (pid (proc_table s i), Some (exit_status (proc_table s i))), s')"
    using cur z r(1) by (simp add: wait_proc_def intr_off_def intr_on_def)
  show ?thesis
    by (rule that [OF run]) (use r(3-5) entry_rest_fields [OF r(2)] cur in \<open>simp_all add: owned_pages_def\<close>)
qed

section \<open>Property\<close>

text \<open>C9. The end of a process. When a child with status \<open>st\<close> exits and its parent, which has given up the processor in
  \<^verbatim>\<open>wait_proc\<close>, is scheduled next, \<^verbatim>\<open>wait_proc\<close> returns the identifier of the child and \<open>st\<close>. The child's table entry is
  free again, and exactly its kernel stack, its page tables and its trapframe have come back to the free
  list, each once; memory outside them is unchanged. In particular no frame of the child's user space
  is freed.\<close>

theorem exit_wait_reaps_child:
  fixes s :: "('a) kproc_scheme"
  assumes cur: "current_proc s = Some c" and par: "parent (proc_table s c) = Some p" and c: "c < PROC" "p \<noteq> c"
    and run: "pstate (proc_table s p) = RUNNABLE"
    and only: "\<And>i. i < PROC \<Longrightarrow> i \<noteq> c \<Longrightarrow> pstate (proc_table s i) = ZOMBIE \<Longrightarrow> parent (proc_table s i) \<noteq> Some p"
    and pm: "pm_inv s ps" and ok: "child_ok s (proc_table s c) ps"
  shows "\<exists>s1 s' qs. exit_proc sd st s = (Inl Gone, s1) \<and>
    wait_proc 3 (sched_visit p s1) = (Inr (pid (proc_table s c), Some st), s') \<and> current_proc s' = Some p \<and>
    pstate (proc_table s' c) = UNUSED \<and>
    pm_inv s' (kstack (proc_table s c) # qs @ trapframe_ptr (proc_table s c) # ps) \<and>
    set qs = pt_tabs (mem s) 2 (pagetable (proc_table s c)) \<and>
    (\<forall>b. (\<forall>x \<in> owned_pages s (proc_table s c). \<not> in_range x PGSIZE b) \<longrightarrow> mem s' b = mem s b)"
proof -
  let ?x = "(proc_table s c)\<lparr>exit_status := st, pstate := ZOMBIE\<rparr>"
  let ?tab = "woken (ChProc p) ((proc_table s)(c := ?x))"
  let ?s1 = "s\<lparr>proc_table := ?tab, current_proc := None, cpu_proc := None, sie := True\<rparr>"
  have e: "exit_proc sd st s = (Inl Gone, ?s1)" by (rule exit_proc_run [OF cur par])
  have "st_of ?s1 p = RUNNABLE" using run c(2) by (simp add: woken_def)
  then obtain y where y: "pstate y = RUNNING"
      "sched_visit p ?s1 = ?s1\<lparr>proc_table := ?tab(p := y), cpu_proc := Some p, current_proc := Some p\<rparr>"
    using sched_visit_runnable [of ?s1 p] by auto
  let ?s2 = "sched_visit p ?s1"
  have tc: "proc_table ?s2 c = ?x" and cur2: "current_proc ?s2 = Some p" using y(2) c(2) by (simp_all add: woken_def)
  have z: "find_proc (proc_table ?s2) (\<lambda>c. pstate c = ZOMBIE \<and> parent c = Some p) [0..<PROC] = Some c"
  proof (rule find_proc_unique)
    fix i assume i: "i \<in> set [0..<PROC]" "i \<noteq> c"
    show "\<not> (pstate (proc_table ?s2 i) = ZOMBIE \<and> parent (proc_table ?s2 i) = Some p)"
      using y only [of i] i by (auto simp: woken_def)
  qed (use c(1) tc par in simp_all)
  have pm2: "pm_inv ?s2 ps" using pm y(2) by (simp add: pm_inv_def)
  have ok2: "child_ok ?s2 (proc_table ?s2 c) ps" unfolding tc by (rule child_ok_cong [OF ok]) (simp_all add: y(2))
  obtain s' qs where r: "wait_proc 3 ?s2 = (Inr (pid (proc_table ?s2 c), Some (exit_status (proc_table ?s2 c))), s')"
      "proc_table s' = (proc_table ?s2)(c := freed_proc (proc_table ?s2 c))" "current_proc s' = Some p"
      "pm_inv s' (kstack (proc_table ?s2 c) # qs @ trapframe_ptr (proc_table ?s2 c) # ps)"
      "set qs = pt_tabs (mem ?s2) 2 (pagetable (proc_table ?s2 c))"
      "\<And>b. \<forall>x \<in> owned_pages ?s2 (proc_table ?s2 c). \<not> in_range x PGSIZE b \<Longrightarrow> mem s' b = mem ?s2 b"
    by (rule wait_proc_reaps [OF cur2 z pm2 ok2]) (rule that)
  have m2: "mem ?s2 = mem s" using y(2) by simp
  show ?thesis
    by (intro exI [of _ ?s1] exI [of _ s'] exI [of _ qs] conjI e)
      (use r tc m2 in \<open>simp_all add: freed_proc_def owned_pages_def\<close>)
qed

text \<open>Process 1, a child of process 0, with an empty address space; no page is free.\<close>

definition demo_child :: ktrap where
  "demo_child = upd_proc 0 (\<lambda>p. p\<lparr>pstate := RUNNABLE\<rparr>) (demo_trap (trap_user\<lparr>parent := Some 0, pagetable := 0x80006000,
     trapframe_ptr := 0x80007000, kstack := 0x80008000\<rparr>) (\<lambda>_. 0) 0 8)"

lemma demo_child_fields:
  "proc_table demo_child 1 = trap_user\<lparr>parent := Some 0, pagetable := 0x80006000, trapframe_ptr := 0x80007000, kstack := 0x80008000\<rparr>"
  "mem demo_child = (\<lambda>_. 0)" "ld_end demo_child = 0x80005000" "freelist demo_child = 0" "current_proc demo_child = Some 1"
  "pstate (proc_table demo_child 0) = RUNNABLE" "kernel_pagetable demo_child = 0"
  "i \<noteq> 1 \<Longrightarrow> pstate (proc_table demo_child i) \<noteq> ZOMBIE"
  by (simp_all add: demo_child_def demo_trap_def kdisk.extend_def demo_disk_defs)

theorem exit_wait_reaps_child_witness:
  "\<exists>s1 s'. (exit_proc (kret ()) 7 :: (ktrap, unit) km) demo_child = (Inl Gone, s1) \<and> wait_proc 3 (sched_visit 0 s1) = (Inr (1, Some 7), s') \<and>
     pstate (proc_table s' 1) = UNUSED \<and> pm_inv s' [0x80008000, 0x80006000, 0x80007000]"
proof -
  let ?x = "proc_table demo_child 1"
  have z: "pt_wf (\<lambda>_. 0) 2 0x80006000 \<and> pt_tabs (\<lambda>_. 0) 2 0x80006000 = {0x80006000} \<and> pt_map (\<lambda>_. 0) 2 0x80006000 = (\<lambda>_. None)"
    by (rule pt_empty) (simp_all add: PGSIZE_def)
  have "ent (\<lambda>_. 0) 0x80006000 i = 0" for i unfolding ent_def by (rule load64_zero) simp
  then have sh: "pt_shape (\<lambda>_. 0) 2 0x80006000" by (simp add: numeral_2_eq_2)
  have x: "pagetable ?x = 0x80006000" "trapframe_ptr ?x = 0x80007000" "kstack ?x = 0x80008000" "pid ?x = 1" "parent ?x = Some 0"
      "\<forall>fd < NOFILE. ofile ?x fd = None"
    unfolding demo_child_fields(1) by (simp_all add: trap_user_def idle_proc_def)
  have own: "owned_pages demo_child ?x = {0x80007000, 0x80008000, 0x80006000}"
    unfolding owned_pages_def x demo_child_fields(2) using z by auto
  have T: "pt_tabs (mem demo_child) 2 (pagetable ?x) = {0x80006000}" unfolding x demo_child_fields(2) using z by simp
  have ok: "child_ok demo_child ?x []"
    unfolding child_ok_def own T unfolding x demo_child_fields(2-8)
    using z sh x(6) by (simp add: page_ok_def PGSIZE_def PHYSTOP_eq)
  have pm: "pm_inv demo_child []" by (simp add: pm_inv_def demo_child_fields)
  have only: "parent (proc_table demo_child i) \<noteq> Some 0" if "i < PROC" "i \<noteq> 1" "pstate (proc_table demo_child i) = ZOMBIE" for i
    using that demo_child_fields(8) by blast
  have c: "(1 :: nat) < PROC" "(0 :: nat) \<noteq> 1" by (simp_all add: PROC_def)
  obtain s1 s' qs where r: "(exit_proc (kret ()) 7 :: (ktrap, unit) km) demo_child = (Inl Gone, s1)"
      "wait_proc 3 (sched_visit 0 s1) = (Inr (pid ?x, Some 7), s')" "pstate (proc_table s' 1) = UNUSED"
      "pm_inv s' (kstack ?x # qs @ trapframe_ptr ?x # [])" "set qs = pt_tabs (mem demo_child) 2 (pagetable ?x)"
    using exit_wait_reaps_child [OF demo_child_fields(5) x(5) c demo_child_fields(6) only pm ok, where st = 7 and sd = "kret ()"]
    by blast
  have "distinct qs" "set qs = {0x80006000}" using r(4,5) T by (simp_all add: pm_inv_def)
  then have "qs = [0x80006000]" by (cases qs; cases "tl qs") auto
  then have "pm_inv s' [0x80008000, 0x80006000, 0x80007000]" using r(4) unfolding x by simp
  then show ?thesis using r(1-3) unfolding x by blast
qed

end
