(* ===== verification/UserLib.thy ===== *)
theory UserLib
  imports Format
begin

text \<open>
  The string library of user programs, \<^verbatim>\<open>user/user_lib.h\<close>. Arrays are as in \<open>Cstring\<close>: a routine that would leave its
  arrays returns \<open>None\<close>. \<^verbatim>\<open>int\<close> is 32 bits wide; the negation in \<^verbatim>\<open>usr_itoa\<close> wraps. The
  arguments \<open>nbuf\<close> are the local arrays, whose first contents are arbitrary.
\<close>

section \<open>Definitions\<close>

function usr_strlen_loop :: "carray \<Rightarrow> nat \<Rightarrow> nat option" where
  "usr_strlen_loop s len = (if len < length s then if s ! len \<noteq> 0 then usr_strlen_loop s (len + 1) else Some len else None)"
  by pat_completeness auto
termination by (relation "measure (\<lambda>(s, len). length s - len)") auto

declare usr_strlen_loop.simps [simp del]

definition usr_strlen :: "carray \<Rightarrow> nat option" where
  "usr_strlen s = usr_strlen_loop s 0"

fun usr_strcpy :: "carray \<Rightarrow> carray \<Rightarrow> carray option" where
  "usr_strcpy (d # dst) (c # src) = map_option ((#) c) (if c \<noteq> 0 then usr_strcpy dst src else Some dst)"
| "usr_strcpy _ _ = None"

definition usr_strcat :: "carray \<Rightarrow> carray \<Rightarrow> carray option" where
  "usr_strcat dst src = (case usr_strlen dst of
     None \<Rightarrow> None
   | Some n \<Rightarrow> map_option (\<lambda>r. take n dst @ r) (usr_strcpy (drop n dst) src))"

definition put_at :: "carray \<Rightarrow> nat \<Rightarrow> u8 \<Rightarrow> carray option" where
  "put_at s i v = (if i < length s then Some (s[i := v]) else None)"

function usr_itoa_loop :: "int \<Rightarrow> nat \<Rightarrow> carray \<Rightarrow> (nat \<times> carray) option" where
  "usr_itoa_loop num i str =
     (if num > 0
      then (case put_at str i (word_of_int (num mod 10 + 48)) of None \<Rightarrow> None | Some s \<Rightarrow> usr_itoa_loop (num div 10) (i + 1) s)
      else Some (i, str))"
  by pat_completeness auto
termination by (relation "measure (\<lambda>(num, i, str). nat num)") auto

declare usr_itoa_loop.simps [simp del]

text \<open>The swaps that reverse the first \<open>len\<close> bytes.\<close>

definition usr_swap :: "nat \<Rightarrow> carray \<Rightarrow> nat \<Rightarrow> carray" where
  "usr_swap len str j = (let temp = str ! j; s = str[j := str ! (len - 1 - j)] in s[len - 1 - j := temp])"

definition usr_itoa :: "u32 \<Rightarrow> carray \<Rightarrow> carray option" where
  "usr_itoa num str =
     (if num = 0 then (case put_at str 0 48 of None \<Rightarrow> None | Some s \<Rightarrow> put_at s 1 0)
      else let is_negative = sint num < 0; n = (if is_negative then - num else num)
           in case usr_itoa_loop (sint n) 0 str of
                None \<Rightarrow> None
              | Some (i, s) \<Rightarrow> (case (if is_negative then map_option (Pair (i + 1)) (put_at s i 45) else Some (i, s)) of
                    None \<Rightarrow> None
                  | Some (len, s) \<Rightarrow> map_option (\<lambda>s. foldl (usr_swap len) s [0..<len div 2]) (put_at s len 0)))"

definition usr_build_string_with_int :: "carray \<Rightarrow> carray \<Rightarrow> carray \<Rightarrow> u32 \<Rightarrow> carray \<Rightarrow> carray option" where
  "usr_build_string_with_int nbuf buffer prefix num suffix =
     (case usr_itoa num nbuf of None \<Rightarrow> None | Some ns \<Rightarrow>
      (case usr_strcpy buffer prefix of None \<Rightarrow> None | Some b \<Rightarrow>
       (case usr_strcat b ns of None \<Rightarrow> None | Some b \<Rightarrow> usr_strcat b suffix)))"

definition usr_build_string_with_two_ints ::
  "carray \<Rightarrow> carray \<Rightarrow> carray \<Rightarrow> carray \<Rightarrow> u32 \<Rightarrow> carray \<Rightarrow> u32 \<Rightarrow> carray \<Rightarrow> carray option" where
  "usr_build_string_with_two_ints nbuf1 nbuf2 buffer prefix1 num1 middle num2 suffix =
     (case usr_itoa num1 nbuf1 of None \<Rightarrow> None | Some n1 \<Rightarrow>
      (case usr_itoa num2 nbuf2 of None \<Rightarrow> None | Some n2 \<Rightarrow>
       (case usr_strcpy buffer prefix1 of None \<Rightarrow> None | Some b \<Rightarrow>
        (case usr_strcat b n1 of None \<Rightarrow> None | Some b \<Rightarrow>
         (case usr_strcat b middle of None \<Rightarrow> None | Some b \<Rightarrow>
          (case usr_strcat b n2 of None \<Rightarrow> None | Some b \<Rightarrow> usr_strcat b suffix))))))"

section \<open>Strings\<close>

lemma usr_strlen_loop_zstr: "zstr s p \<Longrightarrow> k \<le> length p \<Longrightarrow> usr_strlen_loop s k = Some (length p)"
proof (induction "length p - k" arbitrary: k)
  case 0
  then show ?case by (subst usr_strlen_loop.simps) (auto simp: zstr_def nth_append)
next
  case (Suc x)
  then have "p ! k \<noteq> 0" "k < length p" by (auto simp: zstr_def) (metis Suc_diff_Suc nth_mem zero_less_Suc zero_less_diff)
  then show ?case using Suc by (subst usr_strlen_loop.simps) (auto simp: zstr_def nth_append)
qed

lemma usr_strlen_zstr: "zstr s p \<Longrightarrow> usr_strlen s = Some (length p)"
  using usr_strlen_loop_zstr [of s p 0] by (simp add: usr_strlen_def)

lemma usr_strcpy_zstr:
  assumes "0 \<notin> set p" and "length p < length dst"
  shows "usr_strcpy dst (p @ 0 # r) = Some (p @ 0 # drop (Suc (length p)) dst)"
  using assms
proof (induction p arbitrary: dst)
  case Nil
  then show ?case by (cases dst) auto
next
  case (Cons c p)
  then show ?case by (cases dst) auto
qed

lemma usr_strcat_zstr:
  assumes "zstr dst p" and "zstr src q" and "length p + length q < length dst"
  obtains b where "usr_strcat dst src = Some b" and "zstr b (p @ q)" and "length b = length dst"
proof -
  obtain r r' where r: "dst = p @ 0 # r" "src = q @ 0 # r'" "0 \<notin> set p" "0 \<notin> set q" using assms by (auto simp: zstr_def)
  have "usr_strcpy (0 # r) src = Some (q @ 0 # drop (length q) r)"
    using usr_strcpy_zstr [OF r(4), of "0 # r" r'] assms(3) r by simp
  then have "usr_strcat dst src = Some (p @ q @ 0 # drop (length q) r)"
    using usr_strlen_zstr [OF assms(1)] r(1) by (simp add: usr_strcat_def)
  then show ?thesis using that r assms(3) by (simp add: zstr_def)
qed

section \<open>Numbers\<close>

lemma usr_itoa_loop_digits:
  assumes "0 < n" and "i + length (digit_loop 10 n) \<le> length str"
  shows "usr_itoa_loop (int n) i str = Some (i + length (digit_loop 10 n), take i str @ digit_loop 10 n @ drop (i + length (digit_loop 10 n)) str)"
  using assms
proof (induction n arbitrary: i str rule: less_induct)
  case (less n)
  let ?c = "of_nat (48 + n mod 10) :: u8"
  have "int n mod 10 + 48 = int (48 + n mod 10)" by (simp add: of_nat_mod)
  then have c: "word_of_int (int n mod 10 + 48) = ?c" by (simp only: of_int_of_nat_eq)
  have i: "i < length str" using less.prems(2) by (subst (asm) digit_loop_10) auto
  have step: "usr_itoa_loop (int n) i str = usr_itoa_loop (int (n div 10)) (i + 1) (str[i := ?c])"
    using less.prems(1) i c by (subst usr_itoa_loop.simps) (simp add: put_at_def zdiv_int add.commute)
  show ?case
  proof (cases "n div 10 = 0")
    case True
    then show ?thesis using step i by (simp add: digit_loop_10 [of n] usr_itoa_loop.simps [of 0] upd_conv_take_nth_drop)
  next
    case False
    have d: "digit_loop 10 n = ?c # digit_loop 10 (n div 10)" using False by (simp add: digit_loop_10 [of n])
    have "usr_itoa_loop (int (n div 10)) (i + 1) (str[i := ?c]) = Some (i + 1 + length (digit_loop 10 (n div 10)),
        take (i + 1) (str[i := ?c]) @ digit_loop 10 (n div 10) @ drop (i + 1 + length (digit_loop 10 (n div 10))) (str[i := ?c]))"
      using less.prems False d by (intro less.IH) simp_all
    then show ?thesis using step i d by (simp add: take_Suc_conv_app_nth)
  qed
qed

lemma usr_swap_nth:
  assumes "j < len" and "len \<le> length s" and "k < length s"
  shows "usr_swap len s j ! k = (if k = len - 1 - j then s ! j else if k = j then s ! (len - 1 - j) else s ! k)"
  using assms by (simp add: usr_swap_def nth_list_update)

lemma usr_swaps:
  assumes "len \<le> length s" and "n \<le> len div 2"
  shows "length (foldl (usr_swap len) s [0..<n]) = length s \<and> (\<forall>k < length s. foldl (usr_swap len) s [0..<n] ! k =
    (if k < len \<and> (k < n \<or> len - n \<le> k) then s ! (len - 1 - k) else s ! k))"
  using assms(2)
proof (induction n)
  case (Suc n)
  let ?t = "foldl (usr_swap len) s [0..<n]"
  have IH: "length ?t = length s" "\<And>k. k < length s \<Longrightarrow> ?t ! k = (if k < len \<and> (k < n \<or> len - n \<le> k) then s ! (len - 1 - k) else s ! k)"
    using Suc by simp_all
  have n: "n < len" "len - 1 - n < length s" "2 * n + 2 \<le> len" using Suc.prems assms(1) by simp_all
  have "usr_swap len ?t n ! k = (if k < len \<and> (k < Suc n \<or> len - Suc n \<le> k) then s ! (len - 1 - k) else s ! k)" if "k < length s" for k
    using usr_swap_nth [of n len ?t k] IH that n assms(1) by auto
  moreover have "length (usr_swap len ?t n) = length s" using IH(1) by (simp add: usr_swap_def)
  ultimately show ?case by simp
qed auto

lemma usr_swaps_rev: "foldl (usr_swap (length xs)) (xs @ r) [0..<length xs div 2] = rev xs @ r"
proof (rule nth_equalityI)
  note w = usr_swaps [of "length xs" "xs @ r" "length xs div 2"]
  show "length (foldl (usr_swap (length xs)) (xs @ r) [0..<length xs div 2]) = length (rev xs @ r)" using w by simp
  fix k assume k: "k < length (foldl (usr_swap (length xs)) (xs @ r) [0..<length xs div 2])"
  show "foldl (usr_swap (length xs)) (xs @ r) [0..<length xs div 2] ! k = (rev xs @ r) ! k"
  proof (cases "k < length xs")
    case True
    have "xs ! k = xs ! (length xs - 1 - k)" if "\<not> k < length xs div 2" "\<not> length xs - length xs div 2 \<le> k"
    proof -
      have "k = length xs - 1 - k" using that True by presburger
      then show ?thesis by simp
    qed
    then show ?thesis using w k True by (auto simp: nth_append rev_nth)
  next
    case False
    then show ?thesis using w k by (auto simp: nth_append)
  qed
qed

text \<open>The decimal text of an \<^verbatim>\<open>int\<close>.\<close>

definition decimal :: "u32 \<Rightarrow> u8 list" where
  "decimal num = (if sint num < 0 then [45] else []) @ rev (digit_loop 10 (nat \<bar>sint num\<bar>))"

lemma sint_range: "- (2 ^ 31) \<le> sint (num :: u32)" "sint num < 2 ^ 31"
  using sint_ge [of num] sint_lt [of num] by simp_all

lemma word_sint_inverse: "word_of_int (sint num) = (num :: u32)"
  by simp

lemma decimal_length: "length (decimal num) \<le> 11"
proof -
  have "nat \<bar>sint num\<bar> < 10 ^ Suc 9" using sint_range [of num] by simp
  then have "length (digit_loop 10 (nat \<bar>sint num\<bar>)) \<le> 10" using digit_loop_length [of 10 "nat \<bar>sint num\<bar>" 9] by simp
  then show ?thesis by (cases "sint num < 0") (simp_all add: decimal_def)
qed

lemma decimal_no_nul: "0 \<notin> set (decimal num)"
  using digit_loop_decimal_digits [of 0 "nat \<bar>sint num\<bar>"] by (auto simp: decimal_def)

lemma sint_minus_pos:
  assumes "sint (num :: u32) < 0" and "num \<noteq> 0x80000000"
  shows "sint (- num) = - sint num"
proof -
  have "sint num \<noteq> - (2 ^ 31)"
  proof
    assume "sint num = - (2 ^ 31)"
    then have "num = word_of_int (- (2 ^ 31))" by (metis word_sint_inverse)
    then show False using assms(2) by simp
  qed
  then show ?thesis using sint_range [of num] assms(1) by (simp add: sint_word_minus signed_take_bit_int_eq_self)
qed

lemma append_at: "length xs < length s \<Longrightarrow> put_at (xs @ drop (length xs) s) (length xs) v = Some ((xs @ [v]) @ drop (Suc (length xs)) s)"
  by (simp add: put_at_def list_update_append flip: Cons_nth_drop_Suc)

lemma usr_itoa_decimal:
  assumes len: "12 \<le> length str" and min: "num \<noteq> 0x80000000"
  obtains s where "usr_itoa num str = Some s" and "zstr s (decimal num)" and "length s = length str"
proof (cases "num = 0")
  case True
  have "digit_loop 10 0 = [48]" by (simp add: digit_loop_10 [of 0])
  then show ?thesis using that True len by (cases str; cases "tl str") (auto simp: usr_itoa_def put_at_def decimal_def zstr_def)
next
  case False
  let ?n = "nat \<bar>sint num\<bar>" and ?neg = "sint num < 0"
  define ds xs where "ds = digit_loop 10 ?n" and "xs = ds @ (if ?neg then [45] else [])"
  have dec: "decimal num = rev xs" by (simp add: decimal_def xs_def ds_def)
  then have l: "length xs \<le> 11" "length ds \<le> length xs" using decimal_length [of num] by (simp_all add: xs_def)
  have s: "sint (if ?neg then - num else num) = int ?n" and n: "0 < ?n"
  proof -
    have "sint num \<noteq> 0" using False word_sint_inverse [of num] by (metis of_int_0)
    then show "0 < ?n" "sint (if ?neg then - num else num) = int ?n" using sint_minus_pos [OF _ min] by simp_all
  qed
  have loop: "usr_itoa_loop (int ?n) 0 str = Some (length ds, ds @ drop (length ds) str)"
    using usr_itoa_loop_digits [OF n, of 0 str] l len by (simp add: ds_def)
  have "(if ?neg then map_option (Pair (length ds + 1)) (put_at (ds @ drop (length ds) str) (length ds) 45)
      else Some (length ds, ds @ drop (length ds) str)) = Some (length xs, xs @ drop (length xs) str)"
    using append_at [of ds str 45] l len by (simp add: xs_def)
  moreover have "put_at (xs @ drop (length xs) str) (length xs) 0 = Some (xs @ 0 # drop (Suc (length xs)) str)"
    using append_at [of xs str 0] l len by simp
  ultimately have "usr_itoa num str = Some (rev xs @ 0 # drop (Suc (length xs)) str)"
    using False loop s by (simp add: usr_itoa_def Let_def usr_swaps_rev cong: if_cong)
  then show ?thesis using that dec decimal_no_nul [of num] l len by (simp add: zstr_def)
qed

text \<open>\<^verbatim>\<open>atoi\<close> of \<^verbatim>\<open>kernel/string.c\<close> reads the number back, when no digit follows.\<close>

lemma atoi_decimal:
  assumes "\<not> (48 \<le> c \<and> c \<le> 57)"
  shows "atoi (decimal num @ c # r) = Some num"
proof (cases "sint num < 0")
  case True
  have "- of_nat (nat \<bar>sint num\<bar>) = num" using True by simp
  then show ?thesis using True assms by (auto simp: atoi_def decimal_def atoi_digits_decimal)
next
  case False
  have "atoi (rev (digit_loop 10 (nat \<bar>sint num\<bar>)) @ c # r) = atoi_digits (rev (digit_loop 10 (nat \<bar>sint num\<bar>)) @ c # r) 0"
    by (rule atoi_digit_start) (simp, metis set_rev digit_loop_decimal_digits)
  then show ?thesis using False assms by (simp add: decimal_def atoi_digits_decimal)
qed

section \<open>Property\<close>

text \<open>C40. Messages of user programs. For every number but \<^verbatim>\<open>INT_MIN\<close>, and with room for eleven more bytes than the two
  texts, \<^verbatim>\<open>usr_build_string_with_int\<close> leaves in the buffer the NUL-terminated concatenation of the prefix, the decimal
  text of the number and the suffix; reading the number back at the end of the prefix gives the number, when the suffix
  does not begin with a digit. For \<^verbatim>\<open>INT_MIN\<close> the number's text is a lone minus sign.\<close>

theorem usr_build_string_reads_back:
  assumes p: "zstr prefix p" and q: "zstr suffix q" and len: "12 \<le> length nbuf" "length p + length q + 11 < length buffer"
    and q1: "q = [] \<or> \<not> (48 \<le> hd q \<and> hd q \<le> 57)"
  shows "if num = 0x80000000 then \<exists>b. usr_build_string_with_int nbuf buffer prefix num suffix = Some b \<and> zstr b (p @ [45] @ q)
    else \<exists>b. usr_build_string_with_int nbuf buffer prefix num suffix = Some b \<and> zstr b (p @ decimal num @ q) \<and>
      atoi (drop (length p) b) = Some num"
proof -
  obtain pr where pr: "prefix = p @ 0 # pr" "0 \<notin> set p" using p by (auto simp: zstr_def)
  let ?b0 = "p @ 0 # drop (Suc (length p)) buffer"
  have b0: "usr_strcpy buffer prefix = Some ?b0" "zstr ?b0 p" "length ?b0 = length buffer"
    using usr_strcpy_zstr [OF pr(2), of buffer pr] pr len by (auto simp: zstr_def)
  have build: "\<exists>b. usr_build_string_with_int nbuf buffer prefix num suffix = Some b \<and> zstr b (p @ d @ q)"
    if i: "usr_itoa num nbuf = Some ns" "zstr ns d" "length d \<le> 11" for ns d
  proof -
    have l1: "length p + length d < length ?b0" using i(3) len b0(3) by simp
    obtain b1 where b1: "usr_strcat ?b0 ns = Some b1" "zstr b1 (p @ d)" "length b1 = length ?b0"
      by (rule usr_strcat_zstr [OF b0(2) i(2) l1]) (rule that)
    have l2: "length (p @ d) + length q < length b1" using i(3) len b0(3) b1(3) by simp
    obtain b where "usr_strcat b1 suffix = Some b" "zstr b ((p @ d) @ q)"
      by (rule usr_strcat_zstr [OF b1(2) q l2]) (rule that)
    then show ?thesis using i(1) b0(1) b1(1) by (simp add: usr_build_string_with_int_def)
  qed
  show ?thesis
  proof (cases "num = 0x80000000")
    case True
    have "nbuf \<noteq> []" using len by auto
    then have "usr_itoa num nbuf = Some (nbuf[0 := 45, 1 := 0])" using True len
      by (simp add: usr_itoa_def usr_itoa_loop.simps put_at_def)
    moreover have "zstr (nbuf[0 := 45, 1 := 0]) [45]" using len by (cases nbuf; cases "tl nbuf") (auto simp: zstr_def)
    ultimately show ?thesis using build [of _ "[45]"] True by simp
  next
    case False
    obtain ns where ns: "usr_itoa num nbuf = Some ns" "zstr ns (decimal num)" "length ns = length nbuf"
      by (rule usr_itoa_decimal [OF len(1) False]) (rule that)
    obtain b where b: "usr_build_string_with_int nbuf buffer prefix num suffix = Some b" "zstr b (p @ decimal num @ q)"
      using build [OF ns(1,2) decimal_length] by blast
    obtain r where "b = p @ decimal num @ q @ 0 # r" using b(2) by (auto simp: zstr_def)
    then have "atoi (drop (length p) b) = Some num" using q1 by (cases q) (auto simp: atoi_decimal)
    then show ?thesis using b False by auto
  qed
qed

theorem usr_build_string_reads_back_witness:
  "\<exists>b. usr_build_string_with_int (replicate 32 7) (replicate 64 7) [112, 58, 0] (- 305) [33, 0] = Some b \<and>
     zstr b ([112, 58] @ decimal (- 305) @ [33]) \<and> atoi (drop 2 b) = Some (- 305)"
proof -
  have "zstr [112, 58, 0] [112, 58]" "zstr [33, 0] [33]" by (auto simp: zstr_def)
  from usr_build_string_reads_back [OF this, of "replicate 32 7" "replicate 64 7" "- 305"] obtain b where b:
    "usr_build_string_with_int (replicate 32 7) (replicate 64 7) [112, 58, 0] (- 305) [33, 0] = Some b"
    "zstr b ([112, 58] @ decimal (- 305) @ [33])" "atoi (drop (length [112 :: u8, 58]) b) = Some (- 305)" by auto
  have "length [112 :: u8, 58] = 2" by simp
  from b(3) [unfolded this] b(1,2) show ?thesis by blast
qed

end
