(* ===== verification/Uart.thy ===== *)
theory Uart
  imports Format Sched
begin

text \<open>
  The UART driver, \<^verbatim>\<open>kernel/uart.c\<close>: polled output, and input through an interrupt handler that
  edits a line and hands finished lines to a ring buffer, from which \<^verbatim>\<open>readline\<close> takes them. The
  receive register is modelled by the list \<open>rx\<close> of bytes that have arrived. The abstraction of the
  ring is the list \<open>rqueue\<close>; the abstraction of the line editor is the function \<open>edit\<close>.
\<close>

section \<open>State\<close>

definition INPUT_BUF_SIZE :: nat where
  "INPUT_BUF_SIZE = 128"

definition LINE_BUF_SIZE :: nat where
  "LINE_BUF_SIZE = 128"

text \<open>\<^verbatim>\<open>uart_input_buf\<close> (its field \<^verbatim>\<open>e\<close> is never used), the static variables of \<^verbatim>\<open>uart_intr\<close> (with
  \<^verbatim>\<open>line_len\<close> as the length of \<open>linebuf\<close>), the bytes waiting in the receive FIFO, the console.\<close>

record kuart = kcore +
  ubuf :: "nat \<Rightarrow> u8"
  ur :: nat
  uw :: nat
  linebuf :: "u8 list"
  in_escape :: bool
  rx :: "u8 list"
  cons :: console

section \<open>Output\<close>

definition uart_putc :: "u8 \<Rightarrow> (('a) kuart_scheme, unit) km" where
  "uart_putc c = kmod (\<lambda>s. s\<lparr>cons := consputc c (cons s)\<rparr>)"

text \<open>\<^verbatim>\<open>uart_puts\<close> sends at most four bytes each time the transmitter is idle. The result is the bytes
  sent; \<open>None\<close> if the array has no NUL.\<close>

fun uart_burst :: "nat \<Rightarrow> carray \<Rightarrow> u8 list \<times> carray" where
  "uart_burst 0 s = ([], s)"
| "uart_burst (Suc k) [] = ([], [])"
| "uart_burst (Suc k) (c # s) =
     (if c = 0 then ([], c # s) else (case uart_burst k s of (out, rest) \<Rightarrow> (c # out, rest)))"

lemma uart_burst_shorter: "uart_burst k s = (out, rest) \<Longrightarrow> length rest + length out = length s"
  by (induction k s arbitrary: out rest rule: uart_burst.induct) (auto split: if_splits prod.splits)

function uart_puts :: "carray \<Rightarrow> u8 list option" where
  "uart_puts [] = None"
| "uart_puts (c # s) =
     (if c = 0 then Some []
      else (case uart_burst 4 (c # s) of (out, rest) \<Rightarrow> map_option ((@) out) (uart_puts rest)))"
  by pat_completeness auto
termination
proof (relation "measure length", simp, goal_cases)
  case (1 c s out rest)
  then have "uart_burst 4 (c # s) = (out, rest)" by simp
  then have "length rest + length out = length (c # s)" by (rule uart_burst_shorter)
  moreover have "out \<noteq> []" using 1 by (auto simp: numeral_eq_Suc split: if_splits prod.splits)
  ultimately show ?case by (cases out) auto
qed

section \<open>The receive interrupt\<close>

definition ring_put :: "u8 \<Rightarrow> ('a) kuart_scheme \<Rightarrow> ('a) kuart_scheme" where
  "ring_put c s =
     (let next = (uw s + 1) mod INPUT_BUF_SIZE
      in if next \<noteq> ur s then s\<lparr>ubuf := (ubuf s)(uw s := c), uw := next\<rparr> else s)"

definition lift_cons :: "(console \<Rightarrow> console option) \<Rightarrow> (('a) kuart_scheme, unit) km" where
  "lift_cons f = (\<lambda>s. case f (cons s) of None \<Rightarrow> (Inl Undefined, s) | Some c \<Rightarrow> (Inr (), s\<lparr>cons := c\<rparr>))"

definition prompt :: carray where
  "prompt = [67, 111, 110, 115, 111, 108, 101, 32, 62, 62, 62, 32, 0]"

definition ctrl_c_text :: carray where
  "ctrl_c_text = [67, 116, 114, 108, 43, 67, 32, 116, 111, 32, 67, 114, 97, 115, 104, 10, 0]"

abbreviation printable :: "u8 \<Rightarrow> bool" where
  "printable c \<equiv> 0x20 \<le> c \<and> c \<le> 0x7E"

abbreviation escape_end :: "u8 \<Rightarrow> bool" where
  "escape_end c \<equiv> (65 \<le> c \<and> c \<le> 90) \<or> (97 \<le> c \<and> c \<le> 122) \<or> c = 126"

definition uart_char :: "u8 \<Rightarrow> (('a) kuart_scheme, unit) km" where
  "uart_char c = kbind (kget (\<lambda>s. (in_escape s, linebuf s))) (\<lambda>(esc, line).
     if esc then (if escape_end c then kmod (\<lambda>s. s\<lparr>in_escape := False\<rparr>) else kret ())
     else if c = 0x1b then kmod (\<lambda>s. s\<lparr>in_escape := True\<rparr>)
     else if c = 0x0c
     then kseq (lift_cons clear_screen)
       (kbind mypid (\<lambda>me. if me = 1 then lift_cons (vprintf prompt []) else kret ()))
     else if c = 0x03 then kseq (lift_cons (warning ctrl_c_text [])) (kstop PowerOff)
     else if c = 13 \<or> c = 10
     then kseq (uart_putc 10)
       (kseq (kfor line (\<lambda>b. kmod (ring_put b)))
         (kseq (kmod (ring_put 10)) (kmod (\<lambda>s. s\<lparr>linebuf := []\<rparr>))))
     else if c = 0x7f \<or> c = 0x08
     then (if line \<noteq> []
           then kseq (uart_putc 8) (kseq (uart_putc 32) (kseq (uart_putc 8)
                  (kmod (\<lambda>s. s\<lparr>linebuf := butlast line\<rparr>))))
           else kret ())
     else if c = 9
     then (if length line < LINE_BUF_SIZE - 1
           then kseq (uart_putc 32) (kmod (\<lambda>s. s\<lparr>linebuf := line @ [32]\<rparr>)) else kret ())
     else if printable c \<and> length line < LINE_BUF_SIZE - 1
     then kseq (uart_putc c) (kmod (\<lambda>s. s\<lparr>linebuf := line @ [c]\<rparr>))
     else kret ())"

fun uart_rx_loop :: "u8 list \<Rightarrow> (('a) kuart_scheme, unit) km" where
  "uart_rx_loop [] = kret ()"
| "uart_rx_loop (c # cs) = kseq (kmod (\<lambda>s. s\<lparr>rx := cs\<rparr>)) (kseq (uart_char c) (uart_rx_loop cs))"

definition uart_intr :: "(('a) kuart_scheme, unit) km" where
  "uart_intr = kbind (kget rx) uart_rx_loop"

section \<open>Reading\<close>

text \<open>The polling loop of \<^verbatim>\<open>uart_getc_blocking\<close> ends only when an interrupt brings input.\<close>

definition uart_getc_blocking :: "(('a) kuart_scheme, u8) km" where
  "uart_getc_blocking = (\<lambda>s.
     if ur s = uw s then (Inl (Spin ''uart_getc_blocking''), s)
     else (Inr (ubuf s (ur s)), s\<lparr>ur := (ur s + 1) mod INPUT_BUF_SIZE\<rparr>))"

text \<open>\<open>k\<close> characters may still be stored; the result is the return value and the string in \<^verbatim>\<open>buf\<close>.\<close>

fun readline_loop :: "nat \<Rightarrow> u8 list \<Rightarrow> (('a) kuart_scheme, int \<times> u8 list) km" where
  "readline_loop 0 acc = kret (int (length acc), acc)"
| "readline_loop (Suc k) acc = kbind uart_getc_blocking (\<lambda>c.
     if c = 10 then kret (int (length acc), acc) else readline_loop k (acc @ [c]))"

definition readline :: "int \<Rightarrow> (('a) kuart_scheme, int \<times> u8 list) km" where
  "readline maxlen = readline_loop (nat (maxlen - 1)) []"

section \<open>The ring\<close>

definition rlen :: "('a) kuart_scheme \<Rightarrow> nat" where
  "rlen s = (uw s + INPUT_BUF_SIZE - ur s) mod INPUT_BUF_SIZE"

definition rqueue :: "('a) kuart_scheme \<Rightarrow> u8 list" where
  "rqueue s = map (\<lambda>k. ubuf s ((ur s + k) mod INPUT_BUF_SIZE)) [0..<rlen s]"

definition ring_ok :: "('a) kuart_scheme \<Rightarrow> bool" where
  "ring_ok s \<longleftrightarrow> ur s < INPUT_BUF_SIZE \<and> uw s < INPUT_BUF_SIZE"

lemma uw_eq: "ring_ok s \<Longrightarrow> uw s = (ur s + rlen s) mod INPUT_BUF_SIZE"
  by (simp add: ring_ok_def rlen_def mod_add_right_eq)

lemma rlen_lt: "rlen s < INPUT_BUF_SIZE"
  by (simp add: rlen_def INPUT_BUF_SIZE_def)

lemma ring_index_inj:
  assumes "k < INPUT_BUF_SIZE" and "l < INPUT_BUF_SIZE" and "(r + k) mod INPUT_BUF_SIZE = (r + l) mod INPUT_BUF_SIZE"
  shows "k = l"
proof -
  have "k mod INPUT_BUF_SIZE = l mod INPUT_BUF_SIZE"
    using assms(3) by (simp add: nat_mod_eq_iff)
  then show ?thesis using assms(1,2) by simp
qed

lemma ring_put_run:
  assumes "ring_ok s"
  shows "ring_ok (ring_put c s) \<and>
    rqueue (ring_put c s) = (if rlen s < INPUT_BUF_SIZE - 1 then rqueue s @ [c] else rqueue s) \<and>
    rlen (ring_put c s) = (if rlen s < INPUT_BUF_SIZE - 1 then Suc (rlen s) else rlen s)"
proof -
  let ?n = "(uw s + 1) mod INPUT_BUF_SIZE"
  have n: "?n = (ur s + Suc (rlen s)) mod INPUT_BUF_SIZE"
    using uw_eq [OF assms] by (metis Suc_eq_plus1 add_Suc_right mod_Suc_eq)
  have r0: "ur s = (ur s + 0) mod INPUT_BUF_SIZE" using assms by (simp add: ring_ok_def)
  show ?thesis
  proof (cases "rlen s < INPUT_BUF_SIZE - 1")
    case True
    then have ne: "?n \<noteq> ur s"
      using ring_index_inj [of "Suc (rlen s)" 0 "ur s"] n r0 by (auto simp: INPUT_BUF_SIZE_def)
    let ?s = "s\<lparr>ubuf := (ubuf s)(uw s := c), uw := ?n\<rparr>"
    have put: "ring_put c s = ?s" using ne by (simp add: ring_put_def)
    have len: "rlen ?s = Suc (rlen s)"
    proof -
      have "ring_ok ?s" using assms by (simp add: ring_ok_def INPUT_BUF_SIZE_def)
      then have "(ur s + rlen ?s) mod INPUT_BUF_SIZE = (ur s + Suc (rlen s)) mod INPUT_BUF_SIZE"
        using uw_eq [of ?s] n by simp
      then show ?thesis using ring_index_inj rlen_lt [of ?s] True by (metis Suc_less_eq Suc_pred' add_diff_cancel_left' less_diff_conv plus_1_eq_Suc zero_less_diff not_gr_zero less_zeroE)
    qed
    have "(ur s + k) mod INPUT_BUF_SIZE \<noteq> uw s" if "k < rlen s" for k
      using ring_index_inj [of k "rlen s" "ur s"] uw_eq [OF assms] that rlen_lt [of s] by auto
    then have "rqueue ?s = rqueue s @ [c]"
      unfolding rqueue_def len using uw_eq [OF assms, symmetric] by simp
    then show ?thesis using True put len assms by (simp add: ring_ok_def INPUT_BUF_SIZE_def)
  next
    case False
    then have "rlen s = INPUT_BUF_SIZE - 1" using rlen_lt [of s] by simp
    then have "?n = ur s" using n assms by (simp add: ring_ok_def INPUT_BUF_SIZE_def)
    then show ?thesis using False assms by (simp add: ring_put_def)
  qed
qed

lemma uart_getc_run:
  assumes "ring_ok s" and "rqueue s = c # cs"
  shows "\<exists>s'. uart_getc_blocking s = (Inr c, s') \<and> ring_ok s' \<and> rqueue s' = cs"
proof -
  let ?s = "s\<lparr>ur := (ur s + 1) mod INPUT_BUF_SIZE\<rparr>"
  have pos: "0 < rlen s" using assms(2) by (cases "rlen s") (auto simp: rqueue_def)
  have ok: "ring_ok ?s" using assms(1) by (simp add: ring_ok_def INPUT_BUF_SIZE_def)
  have ne: "ur s \<noteq> uw s"
    using uw_eq [OF assms(1)] ring_index_inj [of 0 "rlen s" "ur s"] pos rlen_lt [of s] assms(1)
    by (auto simp: ring_ok_def)
  have idx: "((ur s + 1) mod INPUT_BUF_SIZE + k) mod INPUT_BUF_SIZE = (ur s + Suc k) mod INPUT_BUF_SIZE" for k
    by (simp add: mod_add_left_eq)
  have len: "rlen s = Suc (rlen ?s)"
  proof -
    have "(ur s + Suc (rlen ?s)) mod INPUT_BUF_SIZE = (ur s + rlen s) mod INPUT_BUF_SIZE"
      using uw_eq [OF ok] uw_eq [OF assms(1)] idx [of "rlen ?s"] by simp
    moreover have "Suc (rlen ?s) < INPUT_BUF_SIZE \<or> Suc (rlen ?s) = INPUT_BUF_SIZE" using rlen_lt [of ?s] by auto
    moreover have "Suc (rlen ?s) \<noteq> INPUT_BUF_SIZE"
    proof
      assume "Suc (rlen ?s) = INPUT_BUF_SIZE"
      then have "(ur s + 0) mod INPUT_BUF_SIZE = (ur s + rlen s) mod INPUT_BUF_SIZE" using calculation(1) by simp
      then show False using ring_index_inj [of 0 "rlen s" "ur s"] pos rlen_lt [of s] by simp
    qed
    ultimately show ?thesis using ring_index_inj [of "Suc (rlen ?s)" "rlen s" "ur s"] rlen_lt [of s] by auto
  qed
  have "rqueue s = ubuf s (ur s) # rqueue ?s"
    using assms(1) idx
    by (simp add: rqueue_def len upt_conv_Cons del: upt_Suc, simp add: ring_ok_def map_Suc_upt [symmetric] del: upt_Suc)
  then show ?thesis using assms(2) ok ne by (simp add: uart_getc_blocking_def)
qed

section \<open>The line editor\<close>

text \<open>The bytes that edit the current line: everything but end of line, escape, form feed and
  Ctrl-C.\<close>

abbreviation edit_byte :: "u8 \<Rightarrow> bool" where
  "edit_byte c \<equiv> c \<noteq> 0x1b \<and> c \<noteq> 0x0c \<and> c \<noteq> 0x03 \<and> c \<noteq> 13 \<and> c \<noteq> 10"

definition edit :: "u8 list \<Rightarrow> u8 \<Rightarrow> u8 list" where
  "edit line c =
     (if c = 0x7f \<or> c = 0x08 then butlast line
      else if length line \<ge> LINE_BUF_SIZE - 1 then line
      else if c = 9 then line @ [32]
      else if printable c then line @ [c]
      else line)"

lemma uart_char_edit:
  assumes "edit_byte c" and "\<not> in_escape s"
  shows "\<exists>co. uart_char c s = (Inr (), s\<lparr>linebuf := edit (linebuf s) c, cons := co\<rparr>)"
proof -
  have [simp]: "s\<lparr>cons := cons s\<rparr> = s" "s\<lparr>linebuf := linebuf s\<rparr> = s" by simp_all
  consider "c = 0x7f \<or> c = 0x08" | "c \<noteq> 0x7f" "c \<noteq> 0x08" "c = 9" | "c \<noteq> 0x7f" "c \<noteq> 0x08" "c \<noteq> 9" by blast
  then show ?thesis
  proof cases
    case 1
    then show ?thesis
      using assms by (cases "linebuf s = []") (auto simp: uart_char_def uart_putc_def edit_def intro!: exI kuart.equality)
  next
    case 2
    then show ?thesis
      using assms by (auto simp: uart_char_def uart_putc_def edit_def intro!: exI kuart.equality)
  next
    case 3
    then show ?thesis
      using assms by (auto simp: uart_char_def uart_putc_def edit_def intro!: exI kuart.equality)
  qed
qed

lemma uart_rx_edits:
  assumes "\<forall>c \<in> set cs. edit_byte c" and "\<not> in_escape s"
  shows "\<exists>s'. uart_rx_loop (cs @ rest) s = uart_rx_loop rest s' \<and> linebuf s' = foldl edit (linebuf s) cs \<and>
    \<not> in_escape s' \<and> ubuf s' = ubuf s \<and> ur s' = ur s \<and> uw s' = uw s"
  using assms
proof (induction cs arbitrary: s)
  case Nil
  then show ?case by (intro exI [of _ s]) simp
next
  case (Cons c cs)
  let ?s = "s\<lparr>rx := cs @ rest\<rparr>"
  have "edit_byte c" "\<not> in_escape ?s" using Cons.prems by simp_all
  then obtain o' where o': "uart_char c ?s = (Inr (), ?s\<lparr>linebuf := edit (linebuf ?s) c, cons := o'\<rparr>)"
    using uart_char_edit by blast
  let ?s1 = "?s\<lparr>linebuf := edit (linebuf ?s) c, cons := o'\<rparr>"
  have "\<forall>c \<in> set cs. edit_byte c" "\<not> in_escape ?s1" using Cons.prems by simp_all
  then obtain s' where "uart_rx_loop (cs @ rest) ?s1 = uart_rx_loop rest s'"
      "linebuf s' = foldl edit (linebuf ?s1) cs" "\<not> in_escape s'" "ubuf s' = ubuf ?s1" "ur s' = ur ?s1" "uw s' = uw ?s1"
    using Cons.IH by blast
  then show ?case using o' by (intro exI [of _ s']) simp
qed

lemma ring_put_fold:
  assumes "ring_ok s" and "rlen s + length xs < INPUT_BUF_SIZE"
  shows "ring_ok (fold ring_put xs s) \<and> rqueue (fold ring_put xs s) = rqueue s @ xs \<and>
    rlen (fold ring_put xs s) = rlen s + length xs"
  using assms
proof (induction xs arbitrary: s)
  case Nil
  then show ?case by simp
next
  case (Cons x xs)
  have "rlen s < INPUT_BUF_SIZE - 1" using Cons.prems(2) by simp
  then have "ring_ok (ring_put x s)" "rqueue (ring_put x s) = rqueue s @ [x]" "rlen (ring_put x s) = Suc (rlen s)"
    using ring_put_run [OF Cons.prems(1), of x] by simp_all
  then show ?case using Cons.IH [of "ring_put x s"] Cons.prems(2) by simp
qed

lemma ring_same:
  "ubuf s = ubuf s' \<Longrightarrow> ur s = ur s' \<Longrightarrow> uw s = uw s' \<Longrightarrow>
     ring_ok s = ring_ok s' \<and> rqueue s = rqueue s' \<and> rlen s = rlen s'"
  by (simp add: ring_ok_def rqueue_def rlen_def)

lemma uart_char_newline:
  assumes "\<not> in_escape s" and "ring_ok s" and "rlen s + length (linebuf s) + 1 < INPUT_BUF_SIZE"
  shows "\<exists>s'. uart_char 10 s = (Inr (), s') \<and> ring_ok s' \<and> rqueue s' = rqueue s @ linebuf s @ [10] \<and> linebuf s' = []"
proof -
  let ?s1 = "s\<lparr>cons := consputc 10 (cons s)\<rparr>" and ?xs = "linebuf s @ [10]"
  have same: "ring_ok ?s1 = ring_ok s" "rqueue ?s1 = rqueue s" "rlen ?s1 = rlen s"
    using ring_same [of ?s1 s] by simp_all
  have run: "uart_char 10 s = (Inr (), (fold ring_put ?xs ?s1)\<lparr>linebuf := []\<rparr>)"
    using assms(1) by (simp add: uart_char_def uart_putc_def kfor_mod)
  have "ring_ok (fold ring_put ?xs ?s1) \<and> rqueue (fold ring_put ?xs ?s1) = rqueue ?s1 @ ?xs"
    using ring_put_fold [of ?s1 ?xs] same assms(2,3) by simp
  then show ?thesis
    using run same(2) ring_same [of "(fold ring_put ?xs ?s1)\<lparr>linebuf := []\<rparr>" "fold ring_put ?xs ?s1"] by simp
qed

lemma readline_loop_run:
  assumes "ring_ok s" and "rqueue s = xs @ 10 # ys" and "10 \<notin> set xs" and "length xs < k"
  shows "\<exists>s'. readline_loop k acc s = (Inr (int (length (acc @ xs)), acc @ xs), s') \<and> rqueue s' = ys \<and> ring_ok s'"
  using assms
proof (induction xs arbitrary: s k acc)
  case Nil
  then obtain k' where "k = Suc k'" by (cases k) auto
  then show ?case using uart_getc_run [OF Nil(1)] Nil(2) by auto
next
  case (Cons x xs)
  then obtain k' where k: "k = Suc k'" by (cases k) auto
  obtain s1 where "uart_getc_blocking s = (Inr x, s1)" "ring_ok s1" "rqueue s1 = xs @ 10 # ys"
    using uart_getc_run [OF Cons.prems(1)] Cons.prems(2) by auto
  then show ?case using Cons.IH [of s1 k' "acc @ [x]"] Cons.prems(3,4) k by auto
qed

lemma edit_no_newline: "10 \<notin> set line \<Longrightarrow> 10 \<notin> set (edit line c)"
proof -
  assume "10 \<notin> set line"
  moreover have "10 \<notin> set (butlast line)" using calculation by (metis in_set_butlastD)
  ultimately show ?thesis by (simp add: edit_def word_le_nat_alt) (auto simp: word_unat_eq_iff)
qed

lemma edits_no_newline: "10 \<notin> set line \<Longrightarrow> 10 \<notin> set (foldl edit line cs)"
proof (induction cs arbitrary: line)
  case (Cons c cs)
  then show ?case using edit_no_newline [of line c] by simp
qed simp

section \<open>Property\<close>

text \<open>C32. What is typed is what is read: bytes arrive, end with a newline and contain no escape or
  other control sequence; if the edited line fits the ring, then after \<^verbatim>\<open>uart_intr\<close> the call
  \<^verbatim>\<open>readline\<close> with a large enough buffer returns exactly the edited line (backspace removes the
  last character, tab becomes a blank, other control bytes are ignored) and its length, and the
  ring is empty again. It holds wherever the ring's indices stand.\<close>

theorem readline_returns_edited_line:
  assumes "ring_ok s" and "rqueue s = []" and "linebuf s = []" and "\<not> in_escape s" and "rx s = cs @ [10]"
    and "\<forall>c \<in> set cs. edit_byte c" and "length (foldl edit [] cs) + 1 < INPUT_BUF_SIZE"
    and "int (length (foldl edit [] cs)) + 1 < maxlen"
  shows "\<exists>s1 s2. uart_intr s = (Inr (), s1) \<and>
    readline maxlen s1 = (Inr (int (length (foldl edit [] cs)), foldl edit [] cs), s2) \<and> rqueue s2 = []"
proof -
  let ?line = "foldl edit [] cs"
  obtain s' where s': "uart_rx_loop (cs @ [10]) s = uart_rx_loop [10] s'" "linebuf s' = ?line" "\<not> in_escape s'"
      "ubuf s' = ubuf s" "ur s' = ur s" "uw s' = uw s"
    using uart_rx_edits [OF assms(6,4), of "[10]"] assms(3) by auto
  let ?t = "s'\<lparr>rx := []\<rparr>"
  have same: "ring_ok ?t" "rqueue ?t = []" "rlen ?t = rlen s"
    using ring_same [of ?t s] s' assms(1,2) by simp_all
  have "rlen s = 0" using assms(2) by (simp add: rqueue_def)
  then obtain s1 where s1: "uart_char 10 ?t = (Inr (), s1)" "ring_ok s1" "rqueue s1 = ?line @ [10]"
    using uart_char_newline [of ?t] same s' assms(7) by auto
  have "uart_intr s = (Inr (), s1)" using s' s1(1) assms(5) by (simp add: uart_intr_def)
  moreover have "10 \<notin> set ?line" by (rule edits_no_newline) simp
  then have "\<exists>s2. readline_loop (nat (maxlen - 1)) [] s1 = (Inr (int (length ([] @ ?line)), [] @ ?line), s2) \<and>
      rqueue s2 = [] \<and> ring_ok s2"
    by (intro readline_loop_run) (use s1 assms(8) in auto)
  ultimately show ?thesis by (auto simp: readline_def)
qed

definition demo_uart :: kuart where
  "demo_uart = kcore.extend demo_core
     \<lparr>ubuf = (\<lambda>_. 0), ur = 126, uw = 126, linebuf = [], in_escape = False, rx = [104, 120, 127, 105, 9, 10],
      cons = \<lparr>printf_buffer = [], uart_out = []\<rparr>\<rparr>"

theorem readline_returns_edited_line_witness:
  "\<exists>s1 s2. uart_intr demo_uart = (Inr (), s1) \<and> readline 16 s1 = (Inr (3, [104, 105, 32]), s2) \<and> rqueue s2 = []"
proof -
  have line: "foldl edit [] [104, 120, 127, 105, 9] = [104, 105, 32]" by (simp add: edit_def LINE_BUF_SIZE_def)
  have f: "ur demo_uart = 126" "uw demo_uart = 126" "linebuf demo_uart = []" "\<not> in_escape demo_uart"
      "rx demo_uart = [104, 120, 127, 105, 9] @ [10]"
    by (simp_all add: demo_uart_def kcore.extend_def)
  show ?thesis
    using readline_returns_edited_line [of demo_uart "[104, 120, 127, 105, 9]" 16] f line
    by (simp add: ring_ok_def rqueue_def rlen_def INPUT_BUF_SIZE_def)
qed

end
