(* ===== verification/InodeSpec.thy ===== *)
theory InodeSpec
  imports Inode
begin

text \<open>
  Inodes: the on-disk form and back, the inode table, and the contents of files.
\<close>

section \<open>Fields of a block\<close>

definition slice :: "nat \<Rightarrow> nat \<Rightarrow> u8 list \<Rightarrow> u8 list" where
  "slice off n d = take n (drop off d)"

named_theorems field \<open>reading a field of a block after writing another\<close>

lemma get_slice: "get16 d off = of_nat (le_val (slice off 2 d))" "get32 d off = of_nat (le_val (slice off 4 d))"
  by (simp_all add: get16_def get32_def slice_def)

lemma put_put_bytes: "put16 d off v = put_bytes off (le_bytes 2 (unat v)) d" "put32 d off w = put_bytes off (le_bytes 4 (unat w)) d"
  by (simp_all add: put16_def put32_def put_bytes_def)

lemma length_put_bytes [simp]: "off + length bs \<le> length d \<Longrightarrow> length (put_bytes off bs d) = length d"
  by (simp add: put_bytes_def)

lemma slice_put_same: "off + length bs \<le> length d \<Longrightarrow> n = length bs \<Longrightarrow> slice off n (put_bytes off bs d) = bs"
  by (simp add: slice_def put_bytes_def)

lemma slice_put_other:
  assumes "off + length bs \<le> length d" and "o1 + n \<le> off \<or> off + length bs \<le> o1"
  shows "slice o1 n (put_bytes off bs d) = slice o1 n d"
  using assms by (auto simp: slice_def put_bytes_def drop_append take_drop min_def)

lemma put16_length [simp]: "off + 2 \<le> length d \<Longrightarrow> length (put16 d off v) = length d"
  by (simp add: put_put_bytes)

lemma get16_put16 [field]: "off + 2 \<le> length d \<Longrightarrow> get16 (put16 d off v) off = v"
proof -
  assume a: "off + 2 \<le> length d"
  have "unat v < 2 ^ 16" using unat_lt_pow [of v] by simp
  then show ?thesis using a by (simp add: get_slice put_put_bytes slice_put_same le_val_le_bytes)
qed

lemma slice_put16 [field]: "off + 2 \<le> length d \<Longrightarrow> o1 + n \<le> off \<or> off + 2 \<le> o1 \<Longrightarrow> slice o1 n (put16 d off v) = slice o1 n d"
  by (simp add: put_put_bytes slice_put_other)

lemma slice_put32 [field]: "off + 4 \<le> length d \<Longrightarrow> o1 + n \<le> off \<or> off + 4 \<le> o1 \<Longrightarrow> slice o1 n (put32 d off v) = slice o1 n d"
  by (simp add: put_put_bytes slice_put_other)

lemma get16_other [field]:
  "off + 2 \<le> length d \<Longrightarrow> o1 + 2 \<le> off \<or> off + 2 \<le> o1 \<Longrightarrow> get16 (put16 d off v) o1 = get16 d o1"
  "off + 4 \<le> length d \<Longrightarrow> o1 + 2 \<le> off \<or> off + 4 \<le> o1 \<Longrightarrow> get16 (put32 d off w) o1 = get16 d o1"
  by (simp_all add: get_slice slice_put16 slice_put32)

lemma get32_other [field]:
  "off + 2 \<le> length d \<Longrightarrow> o1 + 4 \<le> off \<or> off + 2 \<le> o1 \<Longrightarrow> get32 (put16 d off v) o1 = get32 d o1"
  by (simp add: get_slice slice_put16)

text \<open>An array of words.\<close>

definition put_words :: "nat \<Rightarrow> (nat \<Rightarrow> u32) \<Rightarrow> nat \<Rightarrow> u8 list \<Rightarrow> u8 list" where
  "put_words b f k d = fold (\<lambda>i d. put32 d (b + 4 * i) (f i)) [0..<k] d"

lemma put_words_Suc: "put_words b f (Suc k) d = put32 (put_words b f k d) (b + 4 * k) (f k)"
  by (simp add: put_words_def)

lemma length_put_words [simp]: "b + 4 * k \<le> length d \<Longrightarrow> length (put_words b f k d) = length d"
  by (induction k) (simp_all add: put_words_Suc, simp add: put_words_def)

lemma slice_put_words [field]:
  "b + 4 * k \<le> length d \<Longrightarrow> o1 + n \<le> b \<or> b + 4 * k \<le> o1 \<Longrightarrow> slice o1 n (put_words b f k d) = slice o1 n d"
proof (induction k)
  case (Suc k)
  then show ?case by (auto simp: put_words_Suc slice_put32)
qed (simp add: put_words_def)

lemma get32_put_words: "b + 4 * k \<le> length d \<Longrightarrow> j < k \<Longrightarrow> get32 (put_words b f k d) (b + 4 * j) = f j"
proof (induction k)
  case (Suc k)
  then show ?case by (cases "j = k") (simp_all add: put_words_Suc get32_put32_other)
qed simp

section \<open>The on-disk inode\<close>

lemma store_dinode_words: "store_dinode x o1 d = put_words (o1 + 12) (iaddrs x) (Suc NDIRECT)
     (put32 (put16 (put16 (put16 (put16 d o1 (itype x)) (o1 + 2) (imajor x)) (o1 + 4) (iminor x)) (o1 + 6) (inlink x)) (o1 + 8) (isize x))"
  by (simp add: store_dinode_def put_words_def)

lemma length_store_dinode [simp]: "o1 + DINODE_SIZE \<le> length d \<Longrightarrow> length (store_dinode x o1 d) = length d"
  by (simp add: store_dinode_words DINODE_SIZE_def NDIRECT_def)

lemma slice_store_dinode:
  "o1 + DINODE_SIZE \<le> length d \<Longrightarrow> o2 + n \<le> o1 \<or> o1 + DINODE_SIZE \<le> o2 \<Longrightarrow> slice o2 n (store_dinode x o1 d) = slice o2 n d"
  by (erule disjE) (simp_all add: store_dinode_words slice_put_words slice_put32 slice_put16 DINODE_SIZE_def NDIRECT_def)

lemma unat_mod_self [simp]: "unat (v :: u16) mod 65536 = unat v" "unat (w :: u32) mod 4294967296 = unat w"
  using unat_lt_pow [of v] unat_lt_pow [of w] by simp_all

text \<open>The fields of an inode that are kept on disk.\<close>

definition disk_fields :: "inode \<Rightarrow> u16 \<times> u16 \<times> u16 \<times> u16 \<times> u32 \<times> u32 list" where
  "disk_fields x = (itype x, imajor x, iminor x, inlink x, isize x, map (iaddrs x) [0..<Suc NDIRECT])"

lemma load_store_dinode:
  assumes "o1 + DINODE_SIZE \<le> length d"
  shows "disk_fields (load_dinode (store_dinode x o1 d) o1 y) = disk_fields x"
proof -
  let ?d = "store_dinode x o1 d"
  have l: "o1 + 64 \<le> length d" using assms by (simp add: DINODE_SIZE_def)
  have "get32 ?d (o1 + 12 + 4 * i) = iaddrs x i" if "i \<le> NDIRECT" for i
    using that l get32_put_words [of "o1 + 12" "Suc NDIRECT" _ i "iaddrs x"] by (simp add: store_dinode_words NDIRECT_def)
  moreover have "get16 ?d o1 = itype x" "get16 ?d (o1 + 2) = imajor x" "get16 ?d (o1 + 4) = iminor x" "get16 ?d (o1 + 6) = inlink x"
    using l by (simp_all add: store_dinode_words get_slice slice_put_words slice_put32 slice_put16 NDIRECT_def del: upt_Suc)
      (simp_all add: put_put_bytes slice_put_other slice_put_same le_val_le_bytes)
  moreover have "get32 ?d (o1 + 8) = isize x"
    using l by (simp add: store_dinode_words get_slice slice_put_words NDIRECT_def)
      (simp add: put_put_bytes slice_put_same le_val_le_bytes)
  ultimately show ?thesis by (simp add: disk_fields_def load_dinode_def del: upt_Suc)
qed

lemma load_other_dinode:
  assumes "o1 + DINODE_SIZE \<le> length d" and "o2 + DINODE_SIZE \<le> o1 \<or> o1 + DINODE_SIZE \<le> o2"
  shows "load_dinode (store_dinode x o1 d) o2 y = load_dinode d o2 y"
proof -
  have f: "slice (o2 + j) n (store_dinode x o1 d) = slice (o2 + j) n d" if "j + n \<le> DINODE_SIZE" for j n
    using assms that by (intro slice_store_dinode) auto
  have "get32 (store_dinode x o1 d) (o2 + 12 + 4 * i) = get32 d (o2 + 12 + 4 * i)" if "i \<le> NDIRECT" for i
    using f [of "12 + 4 * i" 4] that by (simp add: get_slice DINODE_SIZE_def NDIRECT_def add.assoc)
  then show ?thesis
    using f [of 0 2] f [of 2 2] f [of 4 2] f [of 6 2] f [of 8 4]
    by (simp add: load_dinode_def get_slice DINODE_SIZE_def cong: if_cong)
qed

section \<open>Locks\<close>

interpretation itl: lock_cell itable_lock itable_lock_update
  by unfold_locales (simp_all add: comp_def)

lemma upd_inode_id: "f (inodes s i) = inodes s i \<Longrightarrow> upd_inode i f s = s"
  by (simp add: upd_inode_def)

interpretation ilk: sleep_cell "il_get i" "il_upd i" for i
proof
  fix f :: "sleeplock \<Rightarrow> sleeplock" and s :: "('a) kino_scheme"
  assume "f (il_get i s) = il_get i s"
  then show "il_upd i f s = s" by (intro upd_inode_id) simp
qed (simp_all add: upd_inode_def)

text \<open>An empty file, inode 1 of the example file system.\<close>

definition demo_inode :: inode where
  "demo_inode = \<lparr>idev = ROOTDEV, inum = 1, iref = 1, ivalid = True, itype = T_FILE, imajor = 0, iminor = 0, inlink = 1, isize = 0,
     iaddrs = (\<lambda>_. 0), ilk = fresh_sleeplock ''inode''\<rparr>"

definition demo_ino :: kino where
  "demo_ino = klog.extend (demo_log 0 (zero_disk(45 := demo_bitmap)))
     \<lparr>sb = demo_sb, itable_lock = fresh_lock ''itable'', inodes = (\<lambda>_. demo_inode)\<rparr>"



section \<open>The inode table as a collection of references\<close>

definition itable_ok :: "(nat \<Rightarrow> inode) \<Rightarrow> bool" where
  "itable_ok t \<longleftrightarrow> (\<forall>i < NINODE. 0 \<le> iref (t i)) \<and>
     (\<forall>i < NINODE. \<forall>j < NINODE. 0 < iref (t i) \<and> 0 < iref (t j) \<and> idev (t i) = idev (t j) \<and> inum (t i) = inum (t j) \<longrightarrow> i = j)"

text \<open>How many references there are to inode \<open>k\<close> of device \<open>d\<close>.\<close>

definition refs :: "(nat \<Rightarrow> inode) \<Rightarrow> u32 \<times> u32 \<Rightarrow> int" where
  "refs t k = (case find_inode t (fst k) (snd k) of None \<Rightarrow> 0 | Some i \<Rightarrow> iref (t i))"

lemma find_inode_Some:
  assumes "itable_ok t"
  shows "find_inode t d k = Some i \<longleftrightarrow> i < NINODE \<and> 0 < iref (t i) \<and> idev (t i) = d \<and> inum (t i) = k"
proof
  assume "find_inode t d k = Some i"
  then show "i < NINODE \<and> 0 < iref (t i) \<and> idev (t i) = d \<and> inum (t i) = k" unfolding find_inode_def using find_SomeD by fastforce
next
  assume "i < NINODE \<and> 0 < iref (t i) \<and> idev (t i) = d \<and> inum (t i) = k"
  then show "find_inode t d k = Some i"
    unfolding find_inode_def using assms by (intro find_unique) (auto simp: itable_ok_def)
qed

lemma find_inode_None: "find_inode t d k = None \<longleftrightarrow> (\<forall>i < NINODE. 0 < iref (t i) \<longrightarrow> idev (t i) = d \<longrightarrow> inum (t i) \<noteq> k)"
  by (auto simp: find_inode_def find_None_iff)

lemma refs_eq:
  assumes "itable_ok t" and "i < NINODE" and "0 < iref (t i)"
  shows "refs t (idev (t i), inum (t i)) = iref (t i)"
  using find_inode_Some [OF assms(1), of "idev (t i)" "inum (t i)" i] assms(2,3) by (simp add: refs_def)

lemma refs_nonneg: "itable_ok t \<Longrightarrow> 0 \<le> refs t k"
  using find_inode_Some [of t "fst k" "snd k"] by (auto simp: refs_def split: option.splits)

lemma refs_zero: "itable_ok t \<Longrightarrow> refs t k = 0 \<longleftrightarrow> find_inode t (fst k) (snd k) = None"
  using find_inode_Some [of t "fst k" "snd k"] by (auto simp: refs_def split: option.splits)

text \<open>Changing one entry.\<close>

lemma itable_upd:
  assumes ok: "itable_ok t" and i: "i < NINODE" and r: "0 \<le> iref x"
    and un: "find_inode t (idev x) (inum x) \<in> {None, Some i}"
  shows "itable_ok (t(i := x))" and "refs (t(i := x)) (idev x, inum x) = iref x"
    and "k \<noteq> (idev x, inum x) \<Longrightarrow> (0 < iref (t i) \<Longrightarrow> k \<noteq> (idev (t i), inum (t i))) \<Longrightarrow> refs (t(i := x)) k = refs t k"
proof -
  have u: "j = i" if "j < NINODE" "0 < iref (t j)" "idev (t j) = idev x" "inum (t j) = inum x" for j
  proof -
    have "find_inode t (idev x) (inum x) = Some j" using find_inode_Some [OF ok] that by simp
    then show ?thesis using un by simp
  qed
  show ok': "itable_ok (t(i := x))"
    unfolding itable_ok_def
  proof (intro conjI allI impI)
    fix a assume "a < NINODE"
    then show "0 \<le> iref ((t(i := x)) a)" using ok r by (simp add: itable_ok_def)
  next
    fix a b assume b: "a < NINODE" "b < NINODE" and e: "0 < iref ((t(i := x)) a) \<and> 0 < iref ((t(i := x)) b) \<and>
      idev ((t(i := x)) a) = idev ((t(i := x)) b) \<and> inum ((t(i := x)) a) = inum ((t(i := x)) b)"
    show "a = b"
    proof (cases "a = i \<or> b = i")
      case True
      then show ?thesis using e u [of a] u [of b] b by (auto split: if_splits)
    next
      case False
      then show ?thesis using e b ok by (simp add: itable_ok_def)
    qed
  qed
  show "refs (t(i := x)) (idev x, inum x) = iref x"
  proof (cases "0 < iref x")
    case True
    then show ?thesis using refs_eq [OF ok' i] by simp
  next
    case False
    have "find_inode (t(i := x)) (idev x) (inum x) = None"
      unfolding find_inode_None using u False by auto
    then show ?thesis using False r by (simp add: refs_def)
  qed
  show "refs (t(i := x)) k = refs t k" if "k \<noteq> (idev x, inum x)" "0 < iref (t i) \<Longrightarrow> k \<noteq> (idev (t i), inum (t i))"
  proof -
    have e: "find_inode (t(i := x)) (fst k) (snd k) = Some j \<longleftrightarrow> find_inode t (fst k) (snd k) = Some j \<and> j \<noteq> i" for j
      using find_inode_Some [OF ok', of "fst k" "snd k" j] find_inode_Some [OF ok, of "fst k" "snd k" j] that i
      by (cases k) auto
    moreover have "find_inode t (fst k) (snd k) \<noteq> Some i"
      using find_inode_Some [OF ok, of "fst k" "snd k" i] that by (cases k) auto
    ultimately have "find_inode (t(i := x)) (fst k) (snd k) = find_inode t (fst k) (snd k)"
      by (cases "find_inode t (fst k) (snd k)"; cases "find_inode (t(i := x)) (fst k) (snd k)") auto
    moreover have "find_inode t (fst k) (snd k) = Some j \<Longrightarrow> j \<noteq> i" for j
      using \<open>find_inode t (fst k) (snd k) \<noteq> Some i\<close> by auto
    ultimately show ?thesis by (auto simp: refs_def split: option.splits)
  qed
qed

text \<open>Critical sections on the table.\<close>

lemma acquire_itable_run:
  assumes "lock_idle (itable_lock s)" and "current_proc s = Some p"
  shows "acquire_itable s = (Inr (), s\<lparr>itable_lock := (itable_lock s)\<lparr>locked := True, lpid := pid (proc_table s p)\<rparr>\<rparr>)"
  using itl.acquire_free [of s p] assms by (simp add: lock_idle_def)

lemma release_itable_run:
  assumes "lock_idle (itable_lock s)"
  shows "release_itable (s\<lparr>itable_lock := (itable_lock s)\<lparr>locked := True, lpid := q\<rparr>, inodes := t\<rparr>) = (Inr (), s\<lparr>inodes := t\<rparr>)"
  using itl.release_held [of "s\<lparr>itable_lock := (itable_lock s)\<lparr>locked := True, lpid := q\<rparr>, inodes := t\<rparr>"] assms
  by (simp add: lock_idle_def)

lemma iget_run:
  assumes "lock_idle (itable_lock s)" and "current_proc s = Some p"
  shows "case find_inode (inodes s) dev k of
      Some j \<Rightarrow> iget dev k s = (Inr j, upd_inode j (\<lambda>x. x\<lparr>iref := iref x + 1\<rparr>) s)
    | None \<Rightarrow> (case find_empty (inodes s) of
        Some j \<Rightarrow> iget dev k s = (Inr j, upd_inode j (\<lambda>x. x\<lparr>idev := dev, inum := k, iref := 1, ivalid := False\<rparr>) s)
      | None \<Rightarrow> fst (iget dev k s) = Inl (Panic ''iget: no inodes''))"
  using acquire_itable_run [OF assms] release_itable_run [OF assms(1)]
  by (auto simp: iget_def upd_inode_def split: option.splits)

lemma idup_run:
  assumes "lock_idle (itable_lock s)" and "current_proc s = Some p"
  shows "idup ip s = (Inr ip, upd_inode ip (\<lambda>x. x\<lparr>iref := iref x + 1\<rparr>) s)"
  using acquire_itable_run [OF assms] release_itable_run [OF assms(1)]
  by (simp add: idup_def upd_inode_def)

lemma iput_keep:
  assumes "lock_idle (itable_lock s)" and "current_proc s = Some p"
    and "\<not> (iref (inodes s ip) = 1 \<and> ivalid (inodes s ip) \<and> inlink (inodes s ip) = 0)"
  shows "iput ip s = (Inr (), upd_inode ip (\<lambda>x. x\<lparr>iref := iref x - 1\<rparr>) s)"
proof -
  let ?s = "s\<lparr>itable_lock := (itable_lock s)\<lparr>locked := True, lpid := pid (proc_table s p)\<rparr>\<rparr>"
  have "kbind (kget (\<lambda>s. inodes s ip)) (\<lambda>x. if iref x = 1 \<and> ivalid x \<and> inlink x = 0 then m else kret ()) ?s = (Inr (), ?s)" for m
    using assms(3) by auto
  then show ?thesis
    using acquire_itable_run [OF assms(1,2)] release_itable_run [OF assms(1)] by (simp add: iput_def upd_inode_def)
qed

lemma find_empty_Some: "find_empty t = Some j \<Longrightarrow> j < NINODE \<and> iref (t j) = 0"
  unfolding find_empty_def using find_SomeD by fastforce

text \<open>\<^verbatim>\<open>iget\<close> adds a reference, \<^verbatim>\<open>iput\<close> takes one away.\<close>

lemma iget_counts:
  assumes ok: "itable_ok (inodes s)" and l: "lock_idle (itable_lock s)" "current_proc s = Some p"
    and r: "0 < refs (inodes s) (dev, k) \<or> (\<exists>j < NINODE. iref (inodes s j) = 0)"
  shows "\<exists>j x. iget dev k s = (Inr j, s\<lparr>inodes := (inodes s)(j := x)\<rparr>) \<and> j < NINODE \<and> idev x = dev \<and> inum x = k \<and> 0 < iref x \<and>
    \<not> (iref x = 1 \<and> ivalid x) \<and> itable_ok ((inodes s)(j := x)) \<and>
    refs ((inodes s)(j := x)) = (refs (inodes s))((dev, k) := refs (inodes s) (dev, k) + 1)"
proof (cases "find_inode (inodes s) dev k")
  let ?t = "inodes s"
  case (Some j)
  then have j: "j < NINODE" "0 < iref (?t j)" "idev (?t j) = dev" "inum (?t j) = k" using find_inode_Some [OF ok] by auto
  let ?x = "(?t j)\<lparr>iref := iref (?t j) + 1\<rparr>"
  have rk: "refs ?t (dev, k) = iref (?t j)" using refs_eq [OF ok j(1,2)] j by simp
  note u = itable_upd [OF ok j(1), of ?x]
  have "itable_ok (?t(j := ?x))" "refs (?t(j := ?x)) = (refs ?t)((dev, k) := refs ?t (dev, k) + 1)"
    using u Some j rk by (auto simp: fun_eq_iff)
  then show ?thesis using iget_run [OF l, of dev k] Some j by (auto simp: upd_inode_def intro!: exI [of _ j] exI [of _ ?x])
next
  let ?t = "inodes s"
  case None
  then have r0: "refs ?t (dev, k) = 0" by (simp add: refs_def)
  then obtain j where e: "find_empty ?t = Some j" using r by (cases "find_empty ?t") (auto simp: find_empty_def find_None_iff)
  let ?x = "(?t j)\<lparr>idev := dev, inum := k, iref := 1, ivalid := False\<rparr>"
  have j: "j < NINODE" "iref (?t j) = 0" using find_empty_Some [OF e] by auto
  note u = itable_upd [OF ok j(1), of ?x]
  have "itable_ok (?t(j := ?x))" "refs (?t(j := ?x)) = (refs ?t)((dev, k) := refs ?t (dev, k) + 1)"
    using u None j r0 by (auto simp: fun_eq_iff)
  then show ?thesis using iget_run [OF l, of dev k] None e j by (auto simp: upd_inode_def intro!: exI [of _ j] exI [of _ ?x])
qed

lemma iput_counts:
  assumes ok: "itable_ok (inodes s)" and l: "lock_idle (itable_lock s)" "current_proc s = Some p"
    and j: "j < NINODE" "0 < iref (inodes s j)" "\<not> (iref (inodes s j) = 1 \<and> ivalid (inodes s j))"
    and k: "k = (idev (inodes s j), inum (inodes s j))"
  shows "\<exists>t. iput j s = (Inr (), s\<lparr>inodes := t\<rparr>) \<and> itable_ok t \<and> refs t = (refs (inodes s))(k := refs (inodes s) k - 1)"
proof -
  let ?t = "inodes s"
  let ?x = "(?t j)\<lparr>iref := iref (?t j) - 1\<rparr>"
  have f: "find_inode ?t (fst k) (snd k) = Some j" using find_inode_Some [OF ok] j k by simp
  note u = itable_upd [OF ok j(1), of ?x]
  have "refs ?t k = iref (?t j)" using refs_eq [OF ok j(1,2)] k by simp
  then have "refs (?t(j := ?x)) = (refs ?t)(k := refs ?t k - 1)" using u(2,3) f j k by (auto simp: fun_eq_iff)
  moreover have "itable_ok (?t(j := ?x))" using u(1) f j k by simp
  ultimately show ?thesis using iput_keep [OF l, of j] j(3) by (auto simp: upd_inode_def)
qed



end
