(* ===== verification/FileData.thy ===== *)
theory FileData
  imports InodeSpec
begin

text \<open>
  The contents of files on the file system's view of a transaction: how \<^verbatim>\<open>bmap\<close> finds and allocates the
  blocks of a file, and what \<^verbatim>\<open>readi\<close> and \<^verbatim>\<open>writei\<close> do to the bytes of a file.
\<close>

section \<open>The rest of the state during a transaction\<close>

lemma tx_outside:
  assumes "txo oc p st n V H F s" and "abs_cache s' = abs_cache s" and "cache_inv s' p = cache_inv s p" and "wal s' = wal s"
  shows "txo oc p st n V H (frame s') s'"
proof -
  have "in_trans s' p st L = in_trans s p st L" for L using assms(2-4) by (simp add: in_trans_def log_at_def)
  then show ?thesis using assms by (auto simp: tx_def)
qed

lemma upd_inode_fields [simp]:
  "bufs (upd_inode i f t) = bufs t" "hw (upd_inode i f t) = hw t" "wal (upd_inode i f t) = wal t" "mem (upd_inode i f t) = mem t"
  "sb (upd_inode i f t) = sb t" "itable_lock (upd_inode i f t) = itable_lock t" "proc_table (upd_inode i f t) = proc_table t"
  "current_proc (upd_inode i f t) = current_proc t" "inodes (upd_inode i f t) = (inodes t)(i := f (inodes t i))"
  by (simp_all add: upd_inode_def)

lemma outside_fields:
  "abs_cache (s\<lparr>mem := m\<rparr>) = abs_cache s" "cache_inv (s\<lparr>mem := m\<rparr>) p = cache_inv s p"
  "abs_cache (upd_inode i f t) = abs_cache t" "cache_inv (upd_inode i f t) p = cache_inv t p"
proof -
  have k: "key (s\<lparr>mem := m\<rparr>) = key s" "key (upd_inode i f t) = key t" by (simp_all add: key_def fun_eq_iff)
  then have b: "buf_of (s\<lparr>mem := m\<rparr>) = buf_of s" "buf_of (upd_inode i f t) = buf_of t"
    by (simp_all add: buf_of_def fun_eq_iff)
  have o: "buf_ok (s\<lparr>mem := m\<rparr>) p = buf_ok s p" "buf_ok (upd_inode i f t) p = buf_ok t p"
    "one_buf (s\<lparr>mem := m\<rparr>) = one_buf s" "one_buf (upd_inode i f t) = one_buf t"
    using k by (simp_all add: buf_ok_def one_buf_def Let_def fun_eq_iff)
  show "abs_cache (s\<lparr>mem := m\<rparr>) = abs_cache s" "abs_cache (upd_inode i f t) = abs_cache t"
    using k b by (simp_all add: abs_cache_def cong: option.case_cong if_cong)
  show "cache_inv (s\<lparr>mem := m\<rparr>) p = cache_inv s p" "cache_inv (upd_inode i f t) p = cache_inv t p"
    using o by (simp_all add: cache_inv_def quiet_def vq_idle_def upd_inode_def)
qed

lemma tx_frame: "txo oc p st n V H F s \<Longrightarrow> frame s = F"
  by (simp add: tx_def)

lemma tx_mem:
  assumes "txo oc p st n V H F s"
  shows "txo oc p st n V H (F\<lparr>mem := m\<rparr>) (s\<lparr>mem := m\<rparr>)"
proof -
  have "frame (s\<lparr>mem := m\<rparr>) = F\<lparr>mem := m\<rparr>" using tx_frame [OF assms] by (auto simp: frame_def)
  then show ?thesis using tx_outside [OF assms, of "s\<lparr>mem := m\<rparr>"] by (simp add: outside_fields)
qed

lemma tx_inode:
  assumes "txo oc p st n V H F s"
  shows "txo oc p st n V H (upd_inode i f F) (upd_inode i f s)"
proof -
  have "frame (upd_inode i f s) = upd_inode i f F" using tx_frame [OF assms] by (auto simp: frame_def upd_inode_def)
  then show ?thesis using tx_outside [OF assms, of "upd_inode i f s"] by (simp add: outside_fields)
qed

lemma tx_fields:
  assumes "txo oc p st n V H F s"
  shows "mem s = mem F" and "current_proc s = current_proc F" and "proc_table s = proc_table F"
  using tx_frame [OF assms] by (auto simp: frame_def)

lemma tx_inodes:
  assumes "txo oc p st n V H F s"
  shows "inodes s = inodes F" and "itable_lock s = itable_lock F"
  using tx_frame [OF assms] by (auto simp: frame_def)

section \<open>The blocks of a file\<close>

text \<open>Slot \<open>i\<close> below \<^verbatim>\<open>MAXFILE\<close> is the \<open>i\<close>-th block of the file, slot \<^verbatim>\<open>MAXFILE\<close> the indirect block; 0 means none.\<close>

definition addr_at :: "(nat \<Rightarrow> u8 list) \<Rightarrow> inode \<Rightarrow> nat \<Rightarrow> u32" where
  "addr_at V x i = (if i < NDIRECT then iaddrs x i
     else if i < MAXFILE then (if iaddrs x NDIRECT = 0 then 0 else get32 (V (unat (iaddrs x NDIRECT))) (4 * (i - NDIRECT)))
     else iaddrs x NDIRECT)"

definition ablk :: "(nat \<Rightarrow> u8 list) \<Rightarrow> inode \<Rightarrow> nat \<Rightarrow> nat" where
  "ablk V x i = unat (addr_at V x i)"

definition own :: "(nat \<Rightarrow> u8 list) \<Rightarrow> inode \<Rightarrow> nat set" where
  "own V x = {ablk V x i | i. i \<le> MAXFILE \<and> ablk V x i \<noteq> 0}"

definition blk_ok :: "superblock \<Rightarrow> (nat \<Rightarrow> u8 list) \<Rightarrow> nat \<Rightarrow> bool" where
  "blk_ok sp V k \<longleftrightarrow> data_start sp \<le> k \<and> k < unat (sb_size sp) \<and> \<not> blk_free sp V k \<and> length (V k) = BSIZE"

definition file_ok :: "superblock \<Rightarrow> (nat \<Rightarrow> u8 list) \<Rightarrow> inode \<Rightarrow> bool" where
  "file_ok sp V x \<longleftrightarrow> idev x = ROOTDEV \<and> unat (isize x) \<le> MAXFILE * BSIZE \<and>
     (\<forall>i \<le> MAXFILE. ablk V x i \<noteq> 0 \<longrightarrow> blk_ok sp V (ablk V x i)) \<and>
     (\<forall>i \<le> MAXFILE. \<forall>j \<le> MAXFILE. ablk V x i = ablk V x j \<and> ablk V x i \<noteq> 0 \<longrightarrow> i = j) \<and>
     (\<forall>i. i * BSIZE < unat (isize x) \<longrightarrow> ablk V x i \<noteq> 0)"

text \<open>The bytes of a file.\<close>

definition fbyte :: "(nat \<Rightarrow> u8 list) \<Rightarrow> inode \<Rightarrow> nat \<Rightarrow> u8" where
  "fbyte V x j = V (ablk V x (j div BSIZE)) ! (j mod BSIZE)"

definition contents :: "(nat \<Rightarrow> u8 list) \<Rightarrow> inode \<Rightarrow> u8 list" where
  "contents V x = map (fbyte V x) [0..<unat (isize x)]"

lemma MAXFILE_val: "MAXFILE = 268" "NDIRECT = 12" "NINDIRECT = 256"
  by (simp_all add: MAXFILE_def NDIRECT_def NINDIRECT_def BSIZE_def)

lemma blk_ok_usable:
  assumes "blk_ok sp V k" and "fs_layout sp st V"
  shows "k < 2 ^ 31" and "k \<notin> log_area st" and "unat (sb_bmapstart sp) \<le> k" and "k < unat (sb_size sp) \<longrightarrow> \<not> blk_free sp V k"
    and "length (V k) = BSIZE"
  using assms by (auto simp: blk_ok_def fs_layout_def data_start_def)

lemma ablk_MAXFILE: "ablk V x MAXFILE = unat (iaddrs x NDIRECT)"
  by (simp add: ablk_def addr_at_def MAXFILE_val)

lemma file_ok_blk: "file_ok sp V x \<Longrightarrow> i \<le> MAXFILE \<Longrightarrow> ablk V x i \<noteq> 0 \<Longrightarrow> blk_ok sp V (ablk V x i)"
  by (simp add: file_ok_def)

section \<open>Looking up a block\<close>

lemma bmap_found:
  assumes t: "txo oc p st n V Map.empty F s" and lay: "fs_layout sp st V" and x: "inodes F ip = x" and ok: "file_ok sp V x"
    and i: "i < MAXFILE" and a: "ablk V x i \<noteq> 0" and n: "n < NBUF"
  shows "\<exists>s'. bmap ip (of_nat i) s = (Inr (addr_at V x i), s') \<and> txo oc p st n V Map.empty F s'"
proof -
  have iu: "unat (of_nat i :: u32) = i" using i by (intro unat_block) (simp add: MAXFILE_val)
  have xs: "inodes s ip = x" using tx_inodes [OF t] x by simp
  have a0: "addr_at V x i \<noteq> 0" using a by (auto simp: ablk_def)
  show ?thesis
  proof (cases "i < NDIRECT")
    case True
    then show ?thesis using iu xs a0 t by (auto simp: bmap_def bmap_slot_def addr_at_def)
  next
    case False
    let ?d = "iaddrs x NDIRECT"
    have d0: "?d \<noteq> 0" using a0 False i by (auto simp: addr_at_def)
    have "ablk V x MAXFILE \<noteq> 0" using d0 by (simp add: ablk_MAXFILE unat_eq_0)
    then have "blk_ok sp V (unat ?d)" using file_ok_blk [OF ok, of MAXFILE] by (simp add: ablk_MAXFILE)
    note u = blk_ok_usable [OF this lay]
    obtain b t1 where t1: "bread ROOTDEV ?d s = (Inr b, t1)" "txo oc p st n V [b \<mapsto> unat ?d] F t1" "bdata t1 b = V (unat ?d)"
      using tx_bread [OF t u(1)] n by auto
    obtain t2 where t2: "brelse b t1 = (Inr (), t2)" "txo oc p st n V Map.empty F t2"
      using tx_brelse [OF t1(2), of b "unat ?d"] by auto
    have ad: "get32 (V (unat ?d)) (4 * (i - NDIRECT)) = addr_at V x i" using False i d0 by (simp add: addr_at_def)
    have "idev x = ROOTDEV" using ok by (simp add: file_ok_def)
    moreover have "i - NDIRECT < NINDIRECT" using i by (simp add: MAXFILE_val)
    ultimately show ?thesis
      using False iu xs d0 t1 t2 ad a0 by (simp add: bmap_def bmap_slot_def bmap_indirect_def)
  qed
qed

section \<open>Reading\<close>

lemma write_bytes_Nil [simp]: "write_bytes m a [] = m"
  by (simp add: write_bytes_def)

lemma write_bytes_append:
  assumes "length bs + length cs \<le> 2 ^ 64"
  shows "write_bytes (write_bytes m d bs) (d + of_nat (length bs)) cs = write_bytes m d (bs @ cs)"
proof
  fix c
  let ?u = "unat (c - d)" and ?n = "length bs"
  have u: "?u < 2 ^ 64" using unat_lt_pow [of "c - d"] by simp
  have e: "c - (d + of_nat ?n) = (c - d) - of_nat ?n" by simp
  have "unat ((c - d) - of_nat ?n) = (if ?n \<le> ?u then ?u - ?n else 2 ^ 64 + ?u - ?n)" if "?n < 2 ^ 64"
    using unat_minus_wrap [of "c - d" "of_nat ?n"] that by (simp add: unat_of_nat)
  moreover have "cs = []" if "\<not> ?n < 2 ^ 64" using that assms by (cases cs) auto
  ultimately show "write_bytes (write_bytes m d bs) (d + of_nat ?n) cs c = write_bytes m d (bs @ cs) c"
    using assms u by (cases "cs = []") (auto simp: write_bytes_def in_range_def e nth_append)
qed

text \<open>The bytes of one piece.\<close>

lemma same_block: "off \<le> j \<Longrightarrow> j < off + m \<Longrightarrow> off mod BSIZE + m \<le> BSIZE \<Longrightarrow>
    j div BSIZE = off div BSIZE \<and> j mod BSIZE = off mod BSIZE + (j - off)"
proof -
  assume a: "off \<le> j" "j < off + m" "off mod BSIZE + m \<le> BSIZE"
  have j: "j = off div BSIZE * BSIZE + (off mod BSIZE + (j - off))" using a(1) by simp
  have l: "off mod BSIZE + (j - off) < BSIZE" using a by linarith
  have "j div BSIZE = off div BSIZE" by (subst j, subst div_mult_self3) (use l in simp_all)
  moreover have "j mod BSIZE = off mod BSIZE + (j - off)" by (subst j, subst mod_mult_self3) (use l in simp)
  ultimately show ?thesis by simp
qed

lemma piece_bytes:
  assumes "off mod BSIZE + m \<le> BSIZE" and "length (V (ablk V x (off div BSIZE))) = BSIZE"
  shows "take m (drop (off mod BSIZE) (V (ablk V x (off div BSIZE)))) = map (fbyte V x) [off..<off + m]"
proof (rule nth_equalityI)
  show "length (take m (drop (off mod BSIZE) (V (ablk V x (off div BSIZE))))) = length (map (fbyte V x) [off..<off + m])"
    using assms by simp
  fix i assume "i < length (take m (drop (off mod BSIZE) (V (ablk V x (off div BSIZE)))))"
  then have i: "i < m" by simp
  then show "take m (drop (off mod BSIZE) (V (ablk V x (off div BSIZE)))) ! i = map (fbyte V x) [off..<off + m] ! i"
    using assms same_block [of off "off + i" m] by (simp add: fbyte_def)
qed

lemma chunk_head:
  assumes "0 < n"
  shows "chunks off n = (off, min n (BSIZE - off mod BSIZE)) # chunks (off + min n (BSIZE - off mod BSIZE)) (n - min n (BSIZE - off mod BSIZE))"
    and "off mod BSIZE + min n (BSIZE - off mod BSIZE) \<le> BSIZE" and "0 < min n (BSIZE - off mod BSIZE)"
  using assms by (simp_all add: chunks.simps [of off n] Let_def BSIZE_def)

lemma readi_loop_run:
  assumes lay: "fs_layout sp st V" and ok: "file_ok sp V x" and nb: "n < NBUF"
    and sz: "off + m \<le> unat (isize x)" and small: "tot + m < 2 ^ 32"
    and t: "txo oc p st n V Map.empty F s" and x: "inodes F ip = x"
  shows "\<exists>s'. readi_loop ip False dst tot (chunks off m) s = (Inr (sint (of_nat (tot + m) :: u32)), s') \<and>
    txo oc p st n V Map.empty (F\<lparr>mem := write_bytes (mem F) (dst + of_nat tot) (map (fbyte V x) [off..<off + m])\<rparr>) s'"
  using sz small t x
proof (induction m arbitrary: off tot F s rule: less_induct)
  case (less m)
  show ?case
  proof (cases "m = 0")
    case True
    then show ?thesis using less.prems by (intro exI [of _ s]) (simp add: chunks.simps)
  next
    case False
    let ?c = "min m (BSIZE - off mod BSIZE)" and ?i = "off div BSIZE"
    note ch = chunk_head [of m off]
    have c: "0 < ?c" "?c \<le> m" "off mod BSIZE + ?c \<le> BSIZE" using ch(2,3) False by auto
    have offs: "off < unat (isize x)" using less.prems(1) False by simp
    then have "?i * BSIZE < unat (isize x)" using div_times_less_eq_dividend [of off BSIZE] by linarith
    then have a: "ablk V x ?i \<noteq> 0" using ok by (simp add: file_ok_def)
    have "off < MAXFILE * BSIZE" using offs ok by (simp add: file_ok_def)
    then have i: "?i < MAXFILE" by (simp add: less_mult_imp_div_less)
    have bo: "blk_ok sp V (ablk V x ?i)" using file_ok_blk [OF ok _ a] i by simp
    note u = blk_ok_usable [OF bo lay]
    obtain s1 where s1: "bmap ip (of_nat ?i) s = (Inr (addr_at V x ?i), s1)" "txo oc p st n V Map.empty F s1"
      using bmap_found [OF less.prems(3) lay less.prems(4) ok i a nb] by blast
    obtain b s2 where s2: "bread ROOTDEV (addr_at V x ?i) s1 = (Inr b, s2)" "txo oc p st n V [b \<mapsto> ablk V x ?i] F s2" "bdata s2 b = V (ablk V x ?i)"
      using tx_bread [OF s1(2), of "addr_at V x ?i"] u(1) nb by (auto simp: ablk_def)
    let ?bs = "map (fbyte V x) [off..<off + ?c]"
    let ?m1 = "write_bytes (mem F) (dst + of_nat tot) ?bs"
    have pb: "take ?c (drop (off mod BSIZE) (V (ablk V x ?i))) = ?bs" using piece_bytes [of off ?c V x] c(3) u(5) by simp
    have s3: "txo oc p st n V [b \<mapsto> ablk V x ?i] (F\<lparr>mem := ?m1\<rparr>) (s2\<lparr>mem := ?m1\<rparr>)" by (rule tx_mem [OF s2(2)])
    obtain s4 where s4: "brelse b (s2\<lparr>mem := ?m1\<rparr>) = (Inr (), s4)" "txo oc p st n V Map.empty (F\<lparr>mem := ?m1\<rparr>) s4"
      using tx_brelse [OF s3, of b "ablk V x ?i"] by auto
    have m2: "mem s2 = mem F" using tx_fields [OF s2(2)] by simp
    have xs: "idev (inodes s1 ip) = ROOTDEV" using tx_inodes [OF s1(2)] less.prems(4) ok by (simp add: file_ok_def)
    have a0: "addr_at V x ?i \<noteq> 0" using a by (auto simp: ablk_def)
    have run: "readi_loop ip False dst tot (chunks off m) s = readi_loop ip False dst (tot + ?c) (chunks (off + ?c) (m - ?c)) s4"
      using ch(1) False s1(1) s2(1,3) s4(1) xs a0 pb m2 by (simp add: either_copyout_def)
    have "\<exists>s'. readi_loop ip False dst (tot + ?c) (chunks (off + ?c) (m - ?c)) s4 = (Inr (sint (of_nat (tot + ?c + (m - ?c)) :: u32)), s') \<and>
      txo oc p st n V Map.empty ((F\<lparr>mem := ?m1\<rparr>)\<lparr>mem := write_bytes (mem (F\<lparr>mem := ?m1\<rparr>)) (dst + of_nat (tot + ?c))
        (map (fbyte V x) [off + ?c..<off + ?c + (m - ?c)])\<rparr>) s'"
      using less.prems(1,2,4) c by (intro less.IH [OF _ _ _ s4(2)]) auto
    moreover have "write_bytes ?m1 (dst + of_nat (tot + ?c)) (map (fbyte V x) [off + ?c..<off + m]) =
        write_bytes (mem F) (dst + of_nat tot) (map (fbyte V x) [off..<off + m])"
    proof -
      have "[off..<off + m] = [off..<off + ?c] @ [off + ?c..<off + m]" using upt_add_eq_append [of off "off + ?c" "m - ?c"] c(2) by simp
      moreover have "length ?bs + length (map (fbyte V x) [off + ?c..<off + m]) \<le> 2 ^ 64" using less.prems(2) by simp
      ultimately show ?thesis using write_bytes_append [of ?bs "map (fbyte V x) [off + ?c..<off + m]" "mem F" "dst + of_nat tot"]
        by (simp add: add.assoc)
    qed
    ultimately show ?thesis using run c(2) by simp
  qed
qed

lemma readi_run:
  assumes t: "txo oc p st n V Map.empty F s" and lay: "fs_layout sp st V" and x: "inodes F ip = x" and ok: "file_ok sp V x"
    and n: "n < NBUF" and off: "off \<le> isize x" and w: "\<not> off + m < off"
  shows "\<exists>s'. readi ip False dst off m s = (Inr (int (min (unat m) (unat (isize x) - unat off))), s') \<and>
    txo oc p st n V Map.empty (F\<lparr>mem := write_bytes (mem F) dst (take (unat m) (drop (unat off) (contents V x)))\<rparr>) s'"
proof -
  let ?k = "if off + m > isize x then isize x - off else m"
  have s: "inodes s ip = x" using tx_inodes [OF t] x by simp
  have nw: "unat (off + m) = unat off + unat m"
    using w by (simp add: not_less word_le_nat_alt unat_plus_simple [symmetric] no_olen_add_nat unat_add_lem)
  have k: "unat ?k = min (unat m) (unat (isize x) - unat off)"
    using off nw by (auto simp: word_less_nat_alt word_le_nat_alt unat_minus_le)
  have ks: "unat off + unat ?k \<le> unat (isize x)" using k off by (simp add: word_le_nat_alt)
  have lt: "unat ?k < 2 ^ 31"
    using ks ok by (simp add: file_ok_def MAXFILE_val BSIZE_def)
  have si: "sint (of_nat (unat ?k) :: u32) = int (unat ?k)"
    using sint_small [of "of_nat (unat ?k)"] lt unat_block [OF lt] by simp
  obtain s' where s': "readi_loop ip False dst 0 (chunks (unat off) (unat ?k)) s = (Inr (sint (of_nat (0 + unat ?k) :: u32)), s')"
      "txo oc p st n V Map.empty (F\<lparr>mem := write_bytes (mem F) (dst + of_nat 0) (map (fbyte V x) [unat off..<unat off + unat ?k])\<rparr>) s'"
    using readi_loop_run [OF lay ok n ks _ t x, of 0 dst] lt by fastforce
  have "map (fbyte V x) [unat off..<unat off + unat ?k] = take (unat m) (drop (unat off) (contents V x))"
  proof -
    have "unat off \<le> unat (isize x)" using off by (simp add: word_le_nat_alt)
    then have "take (unat m) [unat off..<unat (isize x)] = [unat off..<unat off + unat ?k]"
      unfolding k by (cases "unat m \<le> unat (isize x) - unat off") simp_all
    then show ?thesis by (simp add: contents_def drop_map take_map)
  qed
  moreover have "readi ip False dst off m s = readi_loop ip False dst 0 (chunks (unat off) (unat ?k)) s"
  proof -
    have "\<not> (off > isize x \<or> off + m < off)" using off w by (simp add: not_less)
    then show ?thesis unfolding readi_def kbind_kget s by (simp only: if_False)
  qed
  ultimately show ?thesis using s' si k by auto
qed

end
