(* ===== verification/FileWrite.thy ===== *)
theory FileWrite
  imports FileData
begin

text \<open>
  Growing and writing files. \<open>evol\<close> relates the contents of the disk and an inode before and after an operation on
  that inode: blocks of the file stay its blocks, new ones were free, and nothing outside the file, its
  bitmap bits and its new blocks changes.
\<close>

section \<open>How a file may change\<close>

definition evol :: "superblock \<Rightarrow> nat \<Rightarrow> (nat \<Rightarrow> u8 list) \<Rightarrow> inode \<Rightarrow> (nat \<Rightarrow> u8 list) \<Rightarrow> inode \<Rightarrow> bool" where
  "evol sp st V x V' x' \<longleftrightarrow> (\<exists>a. x' = x\<lparr>iaddrs := a\<rparr>) \<and> fs_layout sp st V' \<and> file_ok sp V' x' \<and>
     (\<forall>b. blk_ok sp V b \<longrightarrow> blk_ok sp V' b) \<and>
     (\<forall>b. b < unat (sb_bmapstart sp) \<or> blk_ok sp V b \<and> b \<notin> own V x \<longrightarrow> V' b = V b) \<and>
     (\<forall>j \<le> MAXFILE. ablk V x j \<noteq> 0 \<longrightarrow> ablk V' x' j = ablk V x j) \<and>
     (\<forall>j \<le> MAXFILE. ablk V x j = 0 \<and> ablk V' x' j \<noteq> 0 \<longrightarrow> \<not> blk_ok sp V (ablk V' x' j))"

definition free_cnt :: "superblock \<Rightarrow> (nat \<Rightarrow> u8 list) \<Rightarrow> nat" where
  "free_cnt sp V = card {k. k < unat (sb_size sp) \<and> blk_free sp V k}"

lemma evolD:
  assumes "evol sp st V x V' x'"
  shows "\<exists>a. x' = x\<lparr>iaddrs := a\<rparr>" and "fs_layout sp st V'" and "file_ok sp V' x'" and "blk_ok sp V b \<Longrightarrow> blk_ok sp V' b"
    and "b < unat (sb_bmapstart sp) \<Longrightarrow> V' b = V b" and "blk_ok sp V b \<Longrightarrow> b \<notin> own V x \<Longrightarrow> V' b = V b"
    and "j \<le> MAXFILE \<Longrightarrow> ablk V x j \<noteq> 0 \<Longrightarrow> ablk V' x' j = ablk V x j"
    and "j \<le> MAXFILE \<Longrightarrow> ablk V x j = 0 \<Longrightarrow> ablk V' x' j \<noteq> 0 \<Longrightarrow> \<not> blk_ok sp V (ablk V' x' j)"
  using assms unfolding evol_def by blast+

lemma evol_fields:
  assumes "evol sp st V x V' x'"
  shows "isize x' = isize x" "inum x' = inum x" "idev x' = idev x" "itype x' = itype x" "inlink x' = inlink x" "iref x' = iref x"
    "ivalid x' = ivalid x" "ilk x' = ilk x"
  using evolD(1) [OF assms] by auto

lemma evol_refl: "fs_layout sp st V \<Longrightarrow> file_ok sp V x \<Longrightarrow> evol sp st V x V x"
  unfolding evol_def by (auto intro: exI [of _ "iaddrs x"])

lemma own_grow:
  assumes "evol sp st V x V' x'" and "blk_ok sp V b" and "b \<notin> own V x"
  shows "b \<notin> own V' x'"
proof
  assume "b \<in> own V' x'"
  then obtain j where j: "j \<le> MAXFILE" "b = ablk V' x' j" "ablk V' x' j \<noteq> 0" by (auto simp: own_def)
  show False
  proof (cases "ablk V x j = 0")
    case True
    then show ?thesis using evolD(8) [OF assms(1) j(1)] j assms(2) by simp
  next
    case False
    then have "ablk V x j \<in> own V x" using j(1) by (auto simp: own_def)
    then show ?thesis using evolD(7) [OF assms(1) j(1) False] j assms(3) by simp
  qed
qed

lemma evol_trans:
  assumes a: "evol sp st V x V1 x1" and b: "evol sp st V1 x1 V2 x2"
  shows "evol sp st V x V2 x2"
proof -
  obtain f g where "x1 = x\<lparr>iaddrs := f\<rparr>" "x2 = x1\<lparr>iaddrs := g\<rparr>" using evolD(1) [OF a] evolD(1) [OF b] by auto
  then have 1: "\<exists>a. x2 = x\<lparr>iaddrs := a\<rparr>" by auto
  have 4: "V2 c = V c" if "c < unat (sb_bmapstart sp) \<or> blk_ok sp V c \<and> c \<notin> own V x" for c
    using that evolD(5) [OF a] evolD(5) [OF b] evolD(6) [OF a] evolD(6) [OF b] evolD(4) [OF a] own_grow [OF a] by metis
  have 5: "ablk V2 x2 j = ablk V x j" if "j \<le> MAXFILE" "ablk V x j \<noteq> 0" for j
    using that evolD(7) [OF a] evolD(7) [OF b] by metis
  have 6: "\<not> blk_ok sp V (ablk V2 x2 j)" if "j \<le> MAXFILE" "ablk V x j = 0" "ablk V2 x2 j \<noteq> 0" for j
  proof (cases "ablk V1 x1 j = 0")
    case True
    then show ?thesis using evolD(8) [OF b that(1)] that(3) evolD(4) [OF a] by blast
  next
    case False
    then show ?thesis using evolD(7) [OF b that(1)] evolD(8) [OF a that(1,2)] by simp
  qed
  show ?thesis unfolding evol_def
    using 1 4 5 6 evolD(2,3) [OF b] evolD(4) [OF a] evolD(4) [OF b] by blast
qed

section \<open>Taking a block\<close>

lemma own_bounds:
  assumes "file_ok sp V x" and "b \<in> own V x"
  shows "blk_ok sp V b"
  using assms by (auto simp: own_def file_ok_def)

lemma take_block_keep:
  assumes f: "find (blk_free sp V) [0..<unat (sb_size sp)] = Some k" and lay: "fs_layout sp st V" and b: "blk_ok sp V b"
  shows "take_block sp k V b = V b" and "blk_ok sp (take_block sp k V) b" and "b \<noteq> k"
proof -
  note k = find_free_block [OF f lay]
  show bk: "b \<noteq> k" using k(2) b by (auto simp: blk_ok_def)
  show e: "take_block sp k V b = V b" using k(6) b bk by (auto simp: take_block_def blk_ok_def)
  show "blk_ok sp (take_block sp k V) b" using b e take_block_free [OF f lay] by (simp add: blk_ok_def)
qed

lemma take_block_new:
  assumes f: "find (blk_free sp V) [0..<unat (sb_size sp)] = Some k" and lay: "fs_layout sp st V"
  shows "blk_ok sp (take_block sp k V) k" and "take_block sp k V k = replicate BSIZE 0" and "\<not> blk_ok sp V k" and "k \<noteq> 0"
    and "b < unat (sb_bmapstart sp) \<Longrightarrow> take_block sp k V b = V b" and "free_cnt sp V = free_cnt sp (take_block sp k V) + 1"
proof -
  note k = find_free_block [OF f lay]
  show z: "take_block sp k V k = replicate BSIZE 0" by (simp add: take_block_def)
  show "blk_ok sp (take_block sp k V) k" using k z take_block_free [OF f lay k(1)] by (simp add: blk_ok_def)
  show "\<not> blk_ok sp V k" using k(2) by (simp add: blk_ok_def)
  show "k \<noteq> 0" using k(3) by (auto simp: data_start_def)
  show "take_block sp k V b = V b" if "b < unat (sb_bmapstart sp)"
    using that k(3) bmap_block_bounds [OF k(1)] by (auto simp: take_block_def data_start_def)
  have "{j. j < unat (sb_size sp) \<and> blk_free sp (take_block sp k V) j} = {j. j < unat (sb_size sp) \<and> blk_free sp V j} - {k}"
    using take_block_free [OF f lay] by auto
  moreover have "k \<in> {j. j < unat (sb_size sp) \<and> blk_free sp V j}" using k by simp
  ultimately show "free_cnt sp V = free_cnt sp (take_block sp k V) + 1"
    unfolding free_cnt_def using card_Suc_Diff1 [of "{j. j < unat (sb_size sp) \<and> blk_free sp V j}" k] by simp
qed

text \<open>A slot of the file gets the new block.\<close>

lemma alloc_evol:
  assumes f: "find (blk_free sp V) [0..<unat (sb_size sp)] = Some k" and lay: "fs_layout sp st V" and ok: "file_ok sp V x"
    and i: "i \<le> MAXFILE" "ablk V x i = 0"
    and x': "x' = x\<lparr>iaddrs := a\<rparr>" and slots: "\<And>j. j \<le> MAXFILE \<Longrightarrow> ablk V' x' j = (if j = i then k else ablk V x j)"
    and V': "\<And>b. b \<notin> own V x \<Longrightarrow> V' b = take_block sp k V b" "\<And>b. length (V' b) = length (take_block sp k V b)"
  shows "evol sp st V x V' x'" and "free_cnt sp V = free_cnt sp V' + 1"
proof -
  let ?T = "take_block sp k V"
  note nw = take_block_new [OF f lay] and kp = take_block_keep [OF f lay]
  have bm: "V' (bmap_block sp j) = ?T (bmap_block sp j)" if "j < unat (sb_size sp)" for j
    using bmap_block_bounds [OF that] own_bounds [OF ok, of "bmap_block sp j"] by (intro V'(1)) (auto simp: blk_ok_def)
  then have fr: "blk_free sp V' j = blk_free sp ?T j" if "j < unat (sb_size sp)" for j using that by (simp add: blk_free_def)
  have bo: "blk_ok sp V' b = blk_ok sp ?T b" for b using fr V'(2) by (auto simp: blk_ok_def)
  have lay': "fs_layout sp st V'"
    using take_block_layout [OF f lay] fr V'(2) by (simp add: fs_layout_def)
  have keep: "blk_ok sp V' b" if "blk_ok sp V b" for b using that kp(2) bo by simp
  have sl: "ablk V' x' j \<noteq> 0 \<Longrightarrow> blk_ok sp V' (ablk V' x' j)" if "j \<le> MAXFILE" for j
    using slots [OF that] file_ok_blk [OF ok that] keep nw(1) bo by (auto split: if_splits)
  have inj: "j = l" if "j \<le> MAXFILE" "l \<le> MAXFILE" "ablk V' x' j = ablk V' x' l" "ablk V' x' j \<noteq> 0" for j l
  proof (cases "j = i \<or> l = i")
    case True
    then show ?thesis using that slots file_ok_blk [OF ok] nw(3) i(2) by (metis (no_types, lifting))
  next
    case False
    then show ?thesis using that slots ok by (simp add: file_ok_def)
  qed
  have "ablk V' x' j \<noteq> 0" if "j * BSIZE < unat (isize x)" for j
  proof -
    have nz: "ablk V x j \<noteq> 0" using that ok by (simp add: file_ok_def)
    have "unat (isize x) \<le> MAXFILE * BSIZE" using ok by (simp add: file_ok_def)
    then have "j \<le> MAXFILE" using that by (simp add: BSIZE_def)
    then show ?thesis using slots nz nw(4) by simp
  qed
  then have ok': "file_ok sp V' x'" using ok sl inj x' by (simp add: file_ok_def)
  show "evol sp st V x V' x'"
    unfolding evol_def
  proof (intro conjI allI impI)
    show "\<exists>a. x' = x\<lparr>iaddrs := a\<rparr>" using x' by blast
    show "fs_layout sp st V'" "file_ok sp V' x'" by fact+
    show "blk_ok sp V' b" if "blk_ok sp V b" for b by (rule keep [OF that])
    show "V' b = V b" if c: "b < unat (sb_bmapstart sp) \<or> blk_ok sp V b \<and> b \<notin> own V x" for b
    proof -
      have "b \<notin> own V x" using c own_bounds [OF ok, of b] by (auto simp: blk_ok_def data_start_def)
      then show ?thesis using V'(1) c nw(5) kp(1) by auto
    qed
    show "ablk V' x' j = ablk V x j" if "j \<le> MAXFILE" "ablk V x j \<noteq> 0" for j using slots [OF that(1)] that i(2) by auto
    show "\<not> blk_ok sp V (ablk V' x' j)" if "j \<le> MAXFILE" "ablk V x j = 0 \<and> ablk V' x' j \<noteq> 0" for j
      using slots [OF that(1)] that(2) nw(3) by (auto split: if_splits)
  qed
  have "{j. j < unat (sb_size sp) \<and> blk_free sp V' j} = {j. j < unat (sb_size sp) \<and> blk_free sp ?T j}" using fr by auto
  then show "free_cnt sp V = free_cnt sp V' + 1" using nw(6) by (simp add: free_cnt_def)
qed

lemma le_val_zero: "le_val (replicate n 0) = 0"
  by (induction n) simp_all

lemma get32_zero: "get32 (replicate n 0) off = 0"
  by (simp add: get32_def le_val_zero min_def)

lemma free_cnt_find:
  assumes "0 < free_cnt sp V"
  obtains k where "find (blk_free sp V) [0..<unat (sb_size sp)] = Some k"
proof (cases "find (blk_free sp V) [0..<unat (sb_size sp)]")
  case None
  then have "{k. k < unat (sb_size sp) \<and> blk_free sp V k} = {}" by (auto simp: find_None_iff)
  then show ?thesis using assms by (simp only: free_cnt_def) simp
qed (use that in blast)

lemma ablk_direct: "i < NDIRECT \<Longrightarrow> ablk V x i = unat (iaddrs x i)"
  by (simp add: ablk_def addr_at_def)

lemma ablk_indirect: "NDIRECT \<le> i \<Longrightarrow> i < MAXFILE \<Longrightarrow>
    ablk V x i = (if iaddrs x NDIRECT = 0 then 0 else unat (get32 (V (unat (iaddrs x NDIRECT))) (4 * (i - NDIRECT))))"
  by (simp add: ablk_def addr_at_def)

lemma slot_cases:
  assumes "l \<le> MAXFILE"
  obtains "l < NDIRECT" | "NDIRECT \<le> l" "l < MAXFILE" | "l = MAXFILE"
  using assms by linarith

text \<open>The address slots after a block has been entered in the inode.\<close>

lemma slot_alloc:
  assumes f: "find (blk_free sp V) [0..<unat (sb_size sp)] = Some k" and lay: "fs_layout sp st V" and ok: "file_ok sp V x"
    and i: "i \<le> NDIRECT" "iaddrs x i = 0" and j: "j = (if i < NDIRECT then i else MAXFILE)" and l: "l \<le> MAXFILE"
  shows "ablk (take_block sp k V) (x\<lparr>iaddrs := (iaddrs x)(i := of_nat k)\<rparr>) l = (if l = j then k else ablk V x l)"
proof -
  let ?T = "take_block sp k V" and ?x = "x\<lparr>iaddrs := (iaddrs x)(i := of_nat k)\<rparr>"
  have ku: "unat (of_nat k :: u32) = k" using find_free_block(5) [OF f lay] by (rule unat_block)
  have k0: "(of_nat k :: u32) \<noteq> 0" using take_block_new(4) [OF f lay] ku by (metis unat_0)
  have nd: "NDIRECT < MAXFILE" by (simp add: MAXFILE_val)
  show ?thesis
  proof (cases rule: slot_cases [OF l])
    case 1
    then show ?thesis using i(1) j ku nd by (auto simp: ablk_direct)
  next
    case 2
    show ?thesis
    proof (cases "i < NDIRECT")
      case True
      have "?T (unat (iaddrs x NDIRECT)) = V (unat (iaddrs x NDIRECT))" if "iaddrs x NDIRECT \<noteq> 0"
        using that take_block_keep(1) [OF f lay] file_ok_blk [OF ok, of MAXFILE] by (simp add: ablk_MAXFILE unat_eq_0)
      then show ?thesis using True 2 j by (auto simp: ablk_indirect)
    next
      case False
      then have e: "i = NDIRECT" using i(1) by simp
      then show ?thesis
        using 2 j i(2) k0 ku take_block_new(2) [OF f lay] by (simp add: ablk_indirect get32_zero)
    qed
  next
    case 3
    then show ?thesis using i(1) j ku nd by (auto simp: ablk_MAXFILE)
  qed
qed

lemma upd_inode_same: "inodes F i = x \<Longrightarrow> upd_inode i (\<lambda>_. x) F = F"
  by (auto simp: upd_inode_def)

lemma upd_inode_twice: "upd_inode i f (upd_inode i g s) = upd_inode i (\<lambda>x. f (g x)) s"
  by (simp add: upd_inode_def)

lemma held_ok_empty [simp]: "held_ok sp V Map.empty"
  by (simp add: held_ok_def)

lemma bmap_slot_run:
  assumes t: "tx p st n V Map.empty F s" and sp: "sb F = sp" and lay: "fs_layout sp st V" and x: "inodes F ip = x"
    and ok: "file_ok sp V x" and i: "i \<le> NDIRECT" and j: "j = (if i < NDIRECT then i else MAXFILE)"
    and n: "Suc n < NBUF" "Suc n < LOGBLOCKS" and fr: "0 < free_cnt sp V"
  shows "\<exists>s' V' x'. bmap_slot ip i s = (Inr (iaddrs x' i), s') \<and> tx p st (n + 2) V' Map.empty (upd_inode ip (\<lambda>_. x') F) s' \<and>
    evol sp st V x V' x' \<and> iaddrs x' i \<noteq> 0 \<and> free_cnt sp V \<le> free_cnt sp V' + 1 \<and> (\<forall>b. blk_ok sp V b \<longrightarrow> V' b = V b) \<and>
    (\<forall>l \<le> MAXFILE. l \<noteq> j \<longrightarrow> ablk V' x' l = ablk V x l)"
proof (cases "iaddrs x i = 0")
  case False
  have "bmap_slot ip i s = (Inr (iaddrs x i), s)" using False tx_inodes [OF t] x by (simp add: bmap_slot_def)
  moreover have "tx p st (n + 2) V Map.empty (upd_inode ip (\<lambda>_. x) F) s"
    using tx_mono [OF t, of "n + 2"] upd_inode_same [OF x] by simp
  ultimately show ?thesis using False evol_refl [OF lay ok] by (intro exI [of _ s] exI [of _ V] exI [of _ x]) simp
next
  case True
  obtain k where f: "find (blk_free sp V) [0..<unat (sb_size sp)] = Some k" using free_cnt_find [OF fr] .
  let ?T = "take_block sp k V" and ?x = "x\<lparr>iaddrs := (iaddrs x)(i := of_nat k)\<rparr>"
  have ku: "unat (of_nat k :: u32) = k" using find_free_block(5) [OF f lay] by (rule unat_block)
  have k0: "(of_nat k :: u32) \<noteq> 0" using take_block_new(4) [OF f lay] ku by (metis unat_0)
  obtain s1 where s1: "balloc ROOTDEV s = (Inr (of_nat k), s1)" "tx p st (n + 2) ?T Map.empty F s1"
    using balloc_run [OF t sp lay held_ok_empty] n f by auto
  let ?u = "\<lambda>x. x\<lparr>iaddrs := (iaddrs x)(i := of_nat k)\<rparr>"
  have s2: "tx p st (n + 2) ?T Map.empty (upd_inode ip ?u F) (upd_inode ip ?u s1)" by (rule tx_inode [OF s1(2)])
  have up: "upd_inode ip ?u F = upd_inode ip (\<lambda>_. ?x) F" using x by (simp add: upd_inode_def)
  have "idev x = ROOTDEV" using ok by (simp add: file_ok_def)
  then have run: "bmap_slot ip i s = (Inr (of_nat k), upd_inode ip ?u s1)"
    using True tx_inodes [OF t] x s1(1) k0 by (simp add: bmap_slot_def)
  have jm: "j \<le> MAXFILE" "ablk V x j = 0"
  proof -
    have "NDIRECT < MAXFILE" by (simp add: MAXFILE_val)
    then show "j \<le> MAXFILE" "ablk V x j = 0" using True i j by (auto simp: ablk_direct ablk_MAXFILE)
  qed
  note slots = slot_alloc [OF f lay ok i True j]
  have ev: "evol sp st V x ?T ?x" "free_cnt sp V = free_cnt sp ?T + 1"
    using alloc_evol [OF f lay ok jm refl slots refl refl] by auto
  show ?thesis
    using run s2 up ev k0 slots take_block_keep(1) [OF f lay]
    by (intro exI [of _ "upd_inode ip ?u s1"] exI [of _ ?T] exI [of _ ?x]) auto
qed

section \<open>bmap\<close>

text \<open>An entry of the indirect block, held in buffer \<open>b\<close>.\<close>

lemma bmap_indirect_run:
  assumes t: "tx p st n V [b \<mapsto> d] F s" and sp: "sb F = sp" and lay: "fs_layout sp st V" and ok: "file_ok sp V x"
    and d: "d = ablk V x MAXFILE" "d \<noteq> 0" and i: "NDIRECT \<le> i" "i < MAXFILE"
    and n: "n + 3 < NBUF" "n + 2 < LOGBLOCKS" and fr: "0 < free_cnt sp V"
  shows "\<exists>s' V'. bmap_indirect ROOTDEV b (i - NDIRECT) s = (Inr (addr_at V' x i), s') \<and> tx p st (n + 3) V' [b \<mapsto> d] F s' \<and>
    evol sp st V x V' x \<and> ablk V' x i \<noteq> 0 \<and> free_cnt sp V \<le> free_cnt sp V' + 1 \<and> (\<forall>c. blk_ok sp V c \<and> c \<noteq> d \<longrightarrow> V' c = V c)"
proof -
  have dn: "iaddrs x NDIRECT \<noteq> 0" "unat (iaddrs x NDIRECT) = d" using d by (auto simp: ablk_MAXFILE)
  have a: "addr_at V x i = get32 (V d) (4 * (i - NDIRECT))" using i dn by (simp add: addr_at_def)
  have bd: "bdata s b = V d" using tx_held_view(1) [OF t] by simp
  have dok: "blk_ok sp V d" using file_ok_blk [OF ok, of MAXFILE] d by simp
  show ?thesis
  proof (cases "addr_at V x i = 0")
    case False
    then have "ablk V x i \<noteq> 0" by (simp add: ablk_def unat_eq_0)
    moreover have "bmap_indirect ROOTDEV b (i - NDIRECT) s = (Inr (addr_at V x i), s)" using False a bd by (simp add: bmap_indirect_def)
    moreover have "tx p st (n + 3) V [b \<mapsto> d] F s" using tx_mono [OF t] by simp
    ultimately show ?thesis using evol_refl [OF lay ok] by (intro exI [of _ s] exI [of _ V]) simp
  next
    case True
    obtain k where f: "find (blk_free sp V) [0..<unat (sb_size sp)] = Some k" using free_cnt_find [OF fr] .
    let ?T = "take_block sp k V"
    let ?w = "put32 (?T d) (4 * (i - NDIRECT)) (of_nat k)"
    let ?V = "?T(d := ?w)"
    have ku: "unat (of_nat k :: u32) = k" using find_free_block(5) [OF f lay] by (rule unat_block)
    have k0: "(of_nat k :: u32) \<noteq> 0" using take_block_new(4) [OF f lay] ku by (metis unat_0)
    have Td: "?T d = V d" "blk_ok sp ?T d" using take_block_keep [OF f lay dok] by simp_all
    have wl: "4 * (i - NDIRECT) + 4 \<le> length (?T d)" using Td(2) i by (simp add: blk_ok_def BSIZE_def MAXFILE_val)
    have h: "held_ok sp V [b \<mapsto> d]" using dok by (simp add: held_ok_def blk_ok_def)
    obtain s1 where s1: "balloc ROOTDEV s = (Inr (of_nat k), s1)" "tx p st (n + 2) ?T [b \<mapsto> d] F s1"
      using balloc_run [OF t sp lay h] n f by auto
    have bd1: "bdata s1 b = ?T d" using tx_held_view(1) [OF s1(2)] by simp
    have dl: "d \<notin> log_area st" using blk_ok_usable(2) [OF dok lay] .
    obtain s2 where s2: "log_write b (set_bdata b ?w s1) = (Inr (), s2)" "tx p st (n + 3) ?V [b \<mapsto> d] F s2"
      using tx_update [OF s1(2) _ dl, of b ?w] n by (auto simp: numeral_3_eq_3)
    have run: "bmap_indirect ROOTDEV b (i - NDIRECT) s = (Inr (of_nat k), s2)"
      using True a bd s1(1) k0 bd1 s2(1) by (simp add: bmap_indirect_def)
    have slots: "ablk ?V x l = (if l = i then k else ablk V x l)" if "l \<le> MAXFILE" for l
    proof (cases rule: slot_cases [OF that])
      case 1
      then show ?thesis using i by (auto simp: ablk_direct)
    next
      case 2
      have "get32 ?w (4 * (l - NDIRECT)) = get32 (V d) (4 * (l - NDIRECT))" if "l \<noteq> i"
        using that 2 i wl Td(1) by (subst get32_put32_other) auto
      then show ?thesis using 2 i dn ku wl by (auto simp: ablk_indirect)
    next
      case 3
      then show ?thesis using i by (simp add: ablk_MAXFILE)
    qed
    have i0: "i \<le> MAXFILE" "ablk V x i = 0" using True i by (simp_all add: ablk_def)
    have dow: "d \<in> own V x" using d by (auto simp: own_def)
    have x0: "x = x\<lparr>iaddrs := iaddrs x\<rparr>" by simp
    have v1: "?V c = ?T c" if "c \<notin> own V x" for c using that dow by auto
    have v2: "length (?V c) = length (?T c)" for c using wl by simp
    note ev = alloc_evol [where V' = ?V, OF f lay ok i0 x0 slots v1 v2]
    have av: "addr_at ?V x i = of_nat k" "ablk ?V x i \<noteq> 0"
    proof -
      have "ablk ?V x i = k" using slots i by simp
      then show "ablk ?V x i \<noteq> 0" using take_block_new(4) [OF f lay] by simp
      show "addr_at ?V x i = of_nat k" using \<open>ablk ?V x i = k\<close> ku unfolding ablk_def by (metis unat_inj)
    qed
    have "?V c = V c" if "blk_ok sp V c" "c \<noteq> d" for c using take_block_keep(1) [OF f lay that(1)] that(2) by simp
    then show ?thesis using run s2(2) ev av by (intro exI [of _ s2] exI [of _ ?V]) auto
  qed
qed

lemma bmap_run:
  assumes t: "tx p st n V Map.empty F s" and sp: "sb F = sp" and lay: "fs_layout sp st V" and x: "inodes F ip = x"
    and ok: "file_ok sp V x" and i: "i < MAXFILE" and n: "n + 5 < NBUF" "n + 5 < LOGBLOCKS" and fr: "2 \<le> free_cnt sp V"
  shows "\<exists>s' V' x'. bmap ip (of_nat i) s = (Inr (addr_at V' x' i), s') \<and> tx p st (n + 5) V' Map.empty (upd_inode ip (\<lambda>_. x') F) s' \<and>
    evol sp st V x V' x' \<and> ablk V' x' i \<noteq> 0 \<and> free_cnt sp V \<le> free_cnt sp V' + 2 \<and>
    (\<forall>l < MAXFILE. ablk V x l \<noteq> 0 \<longrightarrow> V' (ablk V x l) = V (ablk V x l))"
proof -
  have iu: "unat (of_nat i :: u32) = i" using i by (intro unat_block) (simp add: MAXFILE_val)
  have okl: "blk_ok sp V (ablk V x l)" if "l < MAXFILE" "ablk V x l \<noteq> 0" for l using file_ok_blk [OF ok _ that(2)] that(1) by simp
  show ?thesis
  proof (cases "i < NDIRECT")
    case True
    obtain s' V' x' where r: "bmap_slot ip i s = (Inr (iaddrs x' i), s')" "tx p st (n + 2) V' Map.empty (upd_inode ip (\<lambda>_. x') F) s'"
        "evol sp st V x V' x'" "iaddrs x' i \<noteq> 0" "free_cnt sp V \<le> free_cnt sp V' + 1" "\<forall>b. blk_ok sp V b \<longrightarrow> V' b = V b"
      using bmap_slot_run [OF t sp lay x ok, of i i] True n fr by auto
    have "addr_at V' x' i = iaddrs x' i" "ablk V' x' i \<noteq> 0" using True r(4) by (simp_all add: addr_at_def ablk_def unat_eq_0)
    moreover have "tx p st (n + 5) V' Map.empty (upd_inode ip (\<lambda>_. x') F) s'" using tx_mono [OF r(2)] by simp
    ultimately show ?thesis using True iu r okl by (intro exI [of _ s'] exI [of _ V'] exI [of _ x']) (auto simp: bmap_def)
  next
    case False
    obtain s1 V1 x1 where r: "bmap_slot ip NDIRECT s = (Inr (iaddrs x1 NDIRECT), s1)"
        "tx p st (n + 2) V1 Map.empty (upd_inode ip (\<lambda>_. x1) F) s1"
        "evol sp st V x V1 x1" "iaddrs x1 NDIRECT \<noteq> 0" "free_cnt sp V \<le> free_cnt sp V1 + 1" "\<forall>b. blk_ok sp V b \<longrightarrow> V1 b = V b"
      using bmap_slot_run [OF t sp lay x ok, of NDIRECT MAXFILE] n fr by auto
    let ?F = "upd_inode ip (\<lambda>_. x1) F" and ?d = "ablk V1 x1 MAXFILE"
    note lay1 = evolD(2) [OF r(3)] and ok1 = evolD(3) [OF r(3)]
    have d0: "?d \<noteq> 0" "unat (iaddrs x1 NDIRECT) = ?d" using r(4) by (simp_all add: ablk_MAXFILE unat_eq_0)
    have dok: "blk_ok sp V1 ?d" using file_ok_blk [OF ok1 _ d0(1)] by simp
    note u = blk_ok_usable [OF dok lay1]
    obtain b s2 where s2: "bread ROOTDEV (iaddrs x1 NDIRECT) s1 = (Inr b, s2)" "tx p st (n + 2) V1 [b \<mapsto> ?d] ?F s2"
      using tx_bread [OF r(2), of "iaddrs x1 NDIRECT"] u(1) d0(2) n by auto
    obtain s3 V2 where s3: "bmap_indirect ROOTDEV b (i - NDIRECT) s2 = (Inr (addr_at V2 x1 i), s3)" "tx p st (n + 2 + 3) V2 [b \<mapsto> ?d] ?F s3"
        "evol sp st V1 x1 V2 x1" "ablk V2 x1 i \<noteq> 0" "free_cnt sp V1 \<le> free_cnt sp V2 + 1" "\<forall>c. blk_ok sp V1 c \<and> c \<noteq> ?d \<longrightarrow> V2 c = V1 c"
      using bmap_indirect_run [OF s2(2) _ lay1 ok1 refl d0(1) _ i] False n fr r(5) sp by auto
    obtain s4 where s4: "brelse b s3 = (Inr (), s4)" "tx p st (n + 5) V2 Map.empty ?F s4"
      using tx_brelse [OF s3(2), of b ?d] by (auto simp: numeral_eq_Suc)
    have "idev (inodes s1 ip) = ROOTDEV" using tx_inodes [OF r(2)] ok1 by (simp add: file_ok_def)
    moreover have "i - NDIRECT < NINDIRECT" using i by (simp add: MAXFILE_val)
    ultimately have run: "bmap ip (of_nat i) s = (Inr (addr_at V2 x1 i), s4)"
      using False iu r(1,4) s2(1) s3(1) s4(1) by (simp add: bmap_def)
    have "V2 (ablk V x l) = V (ablk V x l)" if l: "l < MAXFILE" "ablk V x l \<noteq> 0" for l
    proof -
      have e: "ablk V1 x1 l = ablk V x l" using evolD(7) [OF r(3)] l by simp
      have "ablk V x l \<noteq> ?d"
        using ok1 l e d0(1) unfolding file_ok_def by (metis less_le_not_le order_refl less_imp_le)
      then show ?thesis using s3(6) r(6) okl [OF l] evolD(4) [OF r(3)] by auto
    qed
    then show ?thesis using run s4(2) evol_trans [OF r(3) s3(3)] s3(4,5) r(5)
      by (intro exI [of _ s4] exI [of _ V2] exI [of _ x1]) auto
  qed
qed

section \<open>Storing the bytes of a piece\<close>

lemma blk_free_upd:
  assumes "j < unat (sb_size sp)" and "b < unat (sb_bmapstart sp) \<or> data_start sp \<le> b"
  shows "blk_free sp (V(b := v)) j = blk_free sp V j"
  using assms bmap_block_bounds [OF assms(1)] by (auto simp: blk_free_def)

lemma blk_ok_upd:
  assumes "b < unat (sb_bmapstart sp) \<or> data_start sp \<le> b" and "length v = length (V b)"
  shows "blk_ok sp (V(b := v)) c = blk_ok sp V c" and "fs_layout sp st (V(b := v)) = fs_layout sp st V"
    and "free_cnt sp (V(b := v)) = free_cnt sp V"
proof -
  note f = blk_free_upd [OF _ assms(1)]
  show "blk_ok sp (V(b := v)) c = blk_ok sp V c" using f assms(2) by (auto simp: blk_ok_def)
  have l: "length ((V(b := v)) c) = length (V c)" for c using assms(2) by simp
  show "fs_layout sp st (V(b := v)) = fs_layout sp st V" using f l unfolding fs_layout_def by (smt (verit))
  have "{k. k < unat (sb_size sp) \<and> blk_free sp (V(b := v)) k} = {k. k < unat (sb_size sp) \<and> blk_free sp V k}" using f by auto
  then show "free_cnt sp (V(b := v)) = free_cnt sp V" by (simp only: free_cnt_def)
qed

lemma ablk_upd:
  assumes "iaddrs x NDIRECT \<noteq> 0 \<longrightarrow> b \<noteq> unat (iaddrs x NDIRECT)"
  shows "ablk (V(b := v)) x l = ablk V x l"
  using assms by (auto simp: ablk_def addr_at_def)

lemma file_ok_inj:
  assumes "file_ok sp V x" and "i \<le> MAXFILE" and "j \<le> MAXFILE" and "ablk V x i \<noteq> 0" and "ablk V x i = ablk V x j"
  shows "i = j"
  using assms by (simp add: file_ok_def)

lemma data_not_indirect:
  assumes "file_ok sp V x" and "i < MAXFILE" and "ablk V x i \<noteq> 0"
  shows "ablk V x i \<noteq> unat (iaddrs x NDIRECT)"
  using file_ok_inj [OF assms(1) _ order_refl assms(3)] assms(2) by (auto simp: ablk_MAXFILE)

lemma file_ok_cong:
  assumes "file_ok sp V x" and "\<And>l. ablk V' x l = ablk V x l" and "\<And>b. blk_ok sp V' b = blk_ok sp V b"
  shows "file_ok sp V' x"
  using assms by (simp add: file_ok_def)

lemma data_evol:
  assumes lay: "fs_layout sp st V" and ok: "file_ok sp V x" and i: "i < MAXFILE" "ablk V x i \<noteq> 0" and v: "length v = BSIZE"
  shows "evol sp st V x (V(ablk V x i := v)) x" and "free_cnt sp (V(ablk V x i := v)) = free_cnt sp V"
    and "ablk (V(ablk V x i := v)) x l = ablk V x l"
proof -
  let ?a = "ablk V x i"
  have aok: "blk_ok sp V ?a" using file_ok_blk [OF ok _ i(2)] i(1) by simp
  then have a: "data_start sp \<le> ?a" "length v = length (V ?a)" using v by (simp_all add: blk_ok_def)
  note u = blk_ok_upd [where V = V and b = ?a, OF disjI2 [OF a(1)] a(2)]
  show ab: "ablk (V(?a := v)) x l = ablk V x l" for l using data_not_indirect [OF ok i] by (intro ablk_upd) simp
  have own: "?a \<in> own V x" using i by (auto simp: own_def intro!: exI [of _ i])
  have ok': "file_ok sp (V(?a := v)) x" by (rule file_ok_cong [OF ok ab u(1)])
  have ds: "unat (sb_bmapstart sp) \<le> ?a" using a(1) by (simp add: data_start_def)
  have "\<exists>a. x = x\<lparr>iaddrs := a\<rparr>" by (rule exI [of _ "iaddrs x"]) simp
  then show "evol sp st V x (V(?a := v)) x"
    unfolding evol_def using lay ok' u(1,2) own ds ab by auto
  show "free_cnt sp (V(?a := v)) = free_cnt sp V" by (rule u(3))
qed

lemma nth_put_bytes:
  assumes "off + length bs \<le> length d" and "j < length d"
  shows "put_bytes off bs d ! j = (if off \<le> j \<and> j < off + length bs then bs ! (j - off) else d ! j)"
  using assms by (auto simp: put_bytes_def nth_append)

text \<open>The bytes of the file once a piece is stored.\<close>

lemma fbyte_put:
  assumes ok: "file_ok sp V x" and i: "i = off div BSIZE" "i < MAXFILE" "ablk V x i \<noteq> 0" and m: "off mod BSIZE + length bs \<le> BSIZE"
    and j: "j div BSIZE < MAXFILE" "ablk V x (j div BSIZE) \<noteq> 0"
  shows "fbyte (V(ablk V x i := put_bytes (off mod BSIZE) bs (V (ablk V x i)))) x j =
    (if off \<le> j \<and> j < off + length bs then bs ! (j - off) else fbyte V x j)" (is "fbyte ?W x j = ?r")
proof -
  let ?a = "ablk V x i"
  have len: "length (V ?a) = BSIZE" using file_ok_blk [OF ok _ i(3)] i(2) by (simp add: blk_ok_def)
  have ab: "ablk ?W x l = ablk V x l" for l using data_not_indirect [OF ok i(2,3)] by (intro ablk_upd) simp
  have B: "0 < BSIZE" by (simp add: BSIZE_def)
  show ?thesis
  proof (cases "j div BSIZE = i")
    case True
    have jm: "j mod BSIZE < length (V ?a)" using len B by simp
    have "j = i * BSIZE + j mod BSIZE" "off = i * BSIZE + off mod BSIZE" using True i(1) div_mult_mod_eq by metis+
    then have "off \<le> j \<longleftrightarrow> off mod BSIZE \<le> j mod BSIZE" "j - off = j mod BSIZE - off mod BSIZE"
        "j < off + length bs \<longleftrightarrow> j mod BSIZE < off mod BSIZE + length bs"
      by linarith+
    then show ?thesis
      using nth_put_bytes [of "off mod BSIZE" bs "V ?a" "j mod BSIZE"] m len jm True ab by (simp add: fbyte_def)
  next
    case False
    have "ablk V x (j div BSIZE) \<noteq> ?a"
      using file_ok_inj [OF ok _ _ j(2), of i] False i(2) j(1) by auto
    moreover have "\<not> (off \<le> j \<and> j < off + length bs)" using same_block [of off j "length bs"] False i(1) m by auto
    ultimately show ?thesis using ab by (auto simp: fbyte_def)
  qed
qed

section \<open>writei\<close>

lemma fbyte_grow:
  assumes ev: "evol sp st V x V' x'" and l: "\<forall>l < MAXFILE. ablk V x l \<noteq> 0 \<longrightarrow> V' (ablk V x l) = V (ablk V x l)"
    and j: "j div BSIZE < MAXFILE" "ablk V x (j div BSIZE) \<noteq> 0"
  shows "fbyte V' x' j = fbyte V x j"
  using evolD(7) [OF ev, of "j div BSIZE"] l j by (simp add: fbyte_def)

text \<open>One piece: find or allocate its block, copy the bytes in, log the block.\<close>

lemma write_piece_run:
  assumes t: "tx p st n V Map.empty F s" and sp: "sb F = sp" and lay: "fs_layout sp st V" and x: "inodes F ip = x"
    and ok: "file_ok sp V x" and i: "off div BSIZE < MAXFILE" and m: "off mod BSIZE + c \<le> BSIZE"
    and n: "n + 5 < NBUF" "n + 5 < LOGBLOCKS" and fr: "2 \<le> free_cnt sp V"
  shows "\<exists>s' V' x'. writei_loop ip False src tot ((off, c) # cs) s = writei_loop ip False src (tot + c) cs s' \<and>
    tx p st (n + 6) V' Map.empty (upd_inode ip (\<lambda>_. x') F) s' \<and> evol sp st V x V' x' \<and> ablk V' x' (off div BSIZE) \<noteq> 0 \<and>
    free_cnt sp V \<le> free_cnt sp V' + 2 \<and>
    (\<forall>j. j div BSIZE < MAXFILE \<and> ablk V' x' (j div BSIZE) \<noteq> 0 \<and> (ablk V x (j div BSIZE) \<noteq> 0 \<or> off \<le> j \<and> j < off + c) \<longrightarrow>
      fbyte V' x' j = (if off \<le> j \<and> j < off + c then mem F (src + of_nat (tot + (j - off))) else fbyte V x j))"
proof -
  let ?i = "off div BSIZE" and ?bs = "read_bytes (mem F) (src + of_nat tot) c"
  obtain s1 V1 x1 where r: "bmap ip (of_nat ?i) s = (Inr (addr_at V1 x1 ?i), s1)" "tx p st (n + 5) V1 Map.empty (upd_inode ip (\<lambda>_. x1) F) s1"
      "evol sp st V x V1 x1" "ablk V1 x1 ?i \<noteq> 0" "free_cnt sp V \<le> free_cnt sp V1 + 2"
      "\<forall>l < MAXFILE. ablk V x l \<noteq> 0 \<longrightarrow> V1 (ablk V x l) = V (ablk V x l)"
    using bmap_run [OF t sp lay x ok i n fr] by blast
  let ?F = "upd_inode ip (\<lambda>_. x1) F" and ?a = "ablk V1 x1 ?i"
  note lay1 = evolD(2) [OF r(3)] and ok1 = evolD(3) [OF r(3)]
  have aok: "blk_ok sp V1 ?a" using file_ok_blk [OF ok1 _ r(4)] i by simp
  note u = blk_ok_usable [OF aok lay1]
  let ?w = "put_bytes (off mod BSIZE) ?bs (V1 ?a)"
  have wl: "length ?w = BSIZE" using u(5) m by simp
  obtain b s2 where s2: "bread ROOTDEV (addr_at V1 x1 ?i) s1 = (Inr b, s2)" "tx p st (n + 5) V1 [b \<mapsto> ?a] ?F s2" "bdata s2 b = V1 ?a"
    using tx_bread [OF r(2), of "addr_at V1 x1 ?i"] u(1) n by (auto simp: ablk_def)
  have sm: "mem s2 = mem F" using tx_fields(1) [OF s2(2)] by simp
  obtain s3 where s3: "log_write b (set_bdata b ?w s2) = (Inr (), s3)" "tx p st (Suc (n + 5)) (V1(?a := ?w)) [b \<mapsto> ?a] ?F s3"
    using tx_update [OF s2(2) _ u(2) n(2), of b ?w] by auto
  obtain s4 where s4: "brelse b s3 = (Inr (), s4)" "tx p st (n + 6) (V1(?a := ?w)) Map.empty ?F s4"
    using tx_brelse [OF s3(2), of b ?a] by (auto simp: numeral_eq_Suc)
  have xs: "idev (inodes s1 ip) = ROOTDEV" using tx_inodes [OF r(2)] ok1 by (simp add: file_ok_def)
  have a0: "addr_at V1 x1 ?i \<noteq> 0" using r(4) by (auto simp: ablk_def)
  have run: "writei_loop ip False src tot ((off, c) # cs) s = writei_loop ip False src (tot + c) cs s4"
    using r(1) s2(1,3) s3(1) s4(1) xs a0 sm by (simp add: either_copyin_def)
  note d = data_evol [OF lay1 ok1 i r(4) wl]
  have fb: "fbyte (V1(?a := ?w)) x1 j = (if off \<le> j \<and> j < off + c then mem F (src + of_nat (tot + (j - off))) else fbyte V x j)"
    if "j div BSIZE < MAXFILE" "ablk V1 x1 (j div BSIZE) \<noteq> 0" "ablk V x (j div BSIZE) \<noteq> 0 \<or> off \<le> j \<and> j < off + c" for j
  proof -
    have "?bs ! (j - off) = mem F (src + of_nat (tot + (j - off)))" if "off \<le> j" "j < off + c"
    proof -
      have "j - off < c" using that by simp
      then show ?thesis by (simp add: read_bytes_def add.assoc)
    qed
    moreover have "fbyte V1 x1 j = fbyte V x j" if "\<not> (off \<le> j \<and> j < off + c)"
      using fbyte_grow [OF r(3,6)] \<open>j div BSIZE < MAXFILE\<close> that \<open>ablk V x (j div BSIZE) \<noteq> 0 \<or> off \<le> j \<and> j < off + c\<close> by blast
    ultimately show ?thesis using fbyte_put [OF ok1 refl i r(4), of ?bs j] m that(1,2) by simp
  qed
  have "ablk (V1(?a := ?w)) x1 l = ablk V1 x1 l" for l by (rule d(3))
  then show ?thesis using run s4(2) evol_trans [OF r(3) d(1)] d(2) r(4,5) fb
    by (intro exI [of _ s4] exI [of _ "V1(?a := ?w)"] exI [of _ x1]) simp
qed

lemma writei_loop_run:
  assumes lay: "fs_layout sp st V" and ok: "file_ok sp V x"
    and sz: "off + m \<le> MAXFILE * BSIZE" and small: "tot + m < 2 ^ 32"
    and n: "n + 6 * length (chunks off m) < NBUF" "n + 6 * length (chunks off m) < LOGBLOCKS" and fr: "2 * length (chunks off m) \<le> free_cnt sp V"
    and t: "tx p st n V Map.empty F s" and sp: "sb F = sp" and x: "inodes F ip = x"
  shows "\<exists>s' V' x'. writei_loop ip False src tot (chunks off m) s = (Inr (tot + m), s') \<and>
    tx p st (n + 6 * length (chunks off m)) V' Map.empty (upd_inode ip (\<lambda>_. x') F) s' \<and> evol sp st V x V' x' \<and>
    free_cnt sp V \<le> free_cnt sp V' + 2 * length (chunks off m) \<and>
    (\<forall>j. off \<le> j \<and> j < off + m \<longrightarrow> ablk V' x' (j div BSIZE) \<noteq> 0 \<and> fbyte V' x' j = mem F (src + of_nat (tot + (j - off)))) \<and>
    (\<forall>j. \<not> (off \<le> j \<and> j < off + m) \<and> j div BSIZE < MAXFILE \<and> ablk V x (j div BSIZE) \<noteq> 0 \<longrightarrow> fbyte V' x' j = fbyte V x j)"
  using lay ok sz small n fr t sp x
proof (induction m arbitrary: off tot n V x F s rule: less_induct)
  case (less m)
  show ?case
  proof (cases "m = 0")
    case True
    then show ?thesis using less.prems evol_refl [OF less.prems(1,2)] upd_inode_same [OF less.prems(10)]
      by (intro exI [of _ s] exI [of _ V] exI [of _ x]) (simp add: chunks.simps)
  next
    case False
    let ?c = "min m (BSIZE - off mod BSIZE)" and ?i = "off div BSIZE"
    let ?cs = "chunks (off + ?c) (m - ?c)"
    note ch = chunk_head [of m off]
    have c: "0 < ?c" "?c \<le> m" "off mod BSIZE + ?c \<le> BSIZE" using ch(2,3) False by auto
    have L: "length (chunks off m) = Suc (length ?cs)" using ch(1) False by simp
    have i: "?i < MAXFILE" using less.prems(3) False by (simp add: less_mult_imp_div_less)
    obtain s1 V1 x1 where r: "writei_loop ip False src tot ((off, ?c) # ?cs) s = writei_loop ip False src (tot + ?c) ?cs s1"
        "tx p st (n + 6) V1 Map.empty (upd_inode ip (\<lambda>_. x1) F) s1" "evol sp st V x V1 x1" "ablk V1 x1 ?i \<noteq> 0"
        "free_cnt sp V \<le> free_cnt sp V1 + 2"
        "\<forall>j. j div BSIZE < MAXFILE \<and> ablk V1 x1 (j div BSIZE) \<noteq> 0 \<and> (ablk V x (j div BSIZE) \<noteq> 0 \<or> off \<le> j \<and> j < off + ?c) \<longrightarrow>
          fbyte V1 x1 j = (if off \<le> j \<and> j < off + ?c then mem F (src + of_nat (tot + (j - off))) else fbyte V x j)"
      using write_piece_run [OF less.prems(8,9,1,10,2) i c(3), of src tot ?cs] less.prems(5-7) L by auto
    let ?F = "upd_inode ip (\<lambda>_. x1) F"
    obtain s2 V2 x2 where q: "writei_loop ip False src (tot + ?c) ?cs s1 = (Inr (tot + ?c + (m - ?c)), s2)"
        "tx p st (n + 6 + 6 * length ?cs) V2 Map.empty (upd_inode ip (\<lambda>_. x2) ?F) s2" "evol sp st V1 x1 V2 x2"
        "free_cnt sp V1 \<le> free_cnt sp V2 + 2 * length ?cs"
        "\<forall>j. off + ?c \<le> j \<and> j < off + ?c + (m - ?c) \<longrightarrow> ablk V2 x2 (j div BSIZE) \<noteq> 0 \<and> fbyte V2 x2 j = mem ?F (src + of_nat (tot + ?c + (j - (off + ?c))))"
        "\<forall>j. \<not> (off + ?c \<le> j \<and> j < off + ?c + (m - ?c)) \<and> j div BSIZE < MAXFILE \<and> ablk V1 x1 (j div BSIZE) \<noteq> 0 \<longrightarrow> fbyte V2 x2 j = fbyte V1 x1 j"
    proof -
      have a: "m - ?c < m" "off + ?c + (m - ?c) \<le> MAXFILE * BSIZE" "tot + ?c + (m - ?c) < 2 ^ 32" using c less.prems(3,4) by simp_all
      obtain l where l: "length ?cs = l" by simp
      have b: "n + 6 + 6 * length ?cs < NBUF" "n + 6 + 6 * length ?cs < LOGBLOCKS" "2 * length ?cs \<le> free_cnt sp V1"
        using less.prems(5-7) [unfolded L l] r(5) unfolding l by simp_all
      have f: "sb ?F = sp" "inodes ?F ip = x1" using less.prems(9) by simp_all
      from less.IH [OF a(1) evolD(2) [OF r(3)] evolD(3) [OF r(3)] a(2,3) b r(2) f]
      show ?thesis by (elim exE conjE) (rule that)
    qed
    have up: "upd_inode ip (\<lambda>_. x2) ?F = upd_inode ip (\<lambda>_. x2) F" by (simp add: upd_inode_twice)
    have in_piece: "ablk V2 x2 (j div BSIZE) \<noteq> 0 \<and> fbyte V2 x2 j = mem F (src + of_nat (tot + (j - off)))" if j: "off \<le> j" "j < off + m" for j
    proof (cases "j < off + ?c")
      case True
      have e: "j div BSIZE = ?i" using same_block [OF j(1) True c(3)] by simp
      then have "ablk V2 x2 (j div BSIZE) \<noteq> 0" using evolD(7) [OF q(3), of ?i] r(4) i by simp
      moreover have "fbyte V2 x2 j = fbyte V1 x1 j" using q(6) True i e r(4) by auto
      ultimately show ?thesis using r(4,6) j(1) True e i by auto
    next
      case False
      have "tot + ?c + (j - (off + ?c)) = tot + (j - off)" using False by simp
      then show ?thesis using q(5) False j c by (metis (no_types, lifting) add.assoc le_add_diff_inverse not_less upd_inode_fields(4))
    qed
    have outside: "fbyte V2 x2 j = fbyte V x j" if j: "\<not> (off \<le> j \<and> j < off + m)" "j div BSIZE < MAXFILE" "ablk V x (j div BSIZE) \<noteq> 0" for j
    proof -
      have a: "ablk V1 x1 (j div BSIZE) \<noteq> 0" using evolD(7) [OF r(3), of "j div BSIZE"] j by simp
      then have "fbyte V2 x2 j = fbyte V1 x1 j" using q(6) j c(2) by auto
      then show ?thesis using r(6) a j c(2) by auto
    qed
    have fc: "free_cnt sp V \<le> free_cnt sp V2 + 2 * length (chunks off m)"
    proof -
      obtain l where "length ?cs = l" by simp
      then show ?thesis using r(5) q(4) unfolding L by simp
    qed
    show ?thesis
      using r(1) q(1,2) up ch(1) False c(2) evol_trans [OF r(3) q(3)] in_piece outside L fc
      by (intro exI [of _ s2] exI [of _ V2] exI [of _ x2]) (simp add: algebra_simps)
  qed
qed

end
