(* ===== verification/FileIo.thy ===== *)
theory FileIo
  imports FileWrite
begin

text \<open>
  What \<^verbatim>\<open>iupdate\<close> and \<^verbatim>\<open>writei\<close> do to a file: the bytes stored, the file size, the on-disk inode and
  what other files keep; and that \<^verbatim>\<open>readi\<close> returns what \<^verbatim>\<open>writei\<close> stored.
\<close>

section \<open>The on-disk inode\<close>

definition inode_block :: "superblock \<Rightarrow> inode \<Rightarrow> nat" where
  "inode_block sp x = unat (IBLOCK (inum x) sp)"

definition inode_block_ok :: "superblock \<Rightarrow> nat \<Rightarrow> (nat \<Rightarrow> u8 list) \<Rightarrow> inode \<Rightarrow> bool" where
  "inode_block_ok sp st V x \<longleftrightarrow> inode_block sp x < unat (sb_bmapstart sp) \<and> inode_block sp x \<notin> log_area st \<and>
     length (V (inode_block sp x)) = BSIZE"

lemma kseq_unit: "kseq m (kret ()) = m"
  by (simp add: kseq_def kbind_def kret_def fun_eq_iff split: prod.splits sum.splits)

lemma dinode_at_bound: "dinode_at i + DINODE_SIZE \<le> BSIZE"
proof -
  have "unat i mod IPB < IPB" by (simp add: IPB_def BSIZE_def DINODE_SIZE_def)
  then have "unat i mod 16 \<le> 15" by (simp add: IPB_def BSIZE_def DINODE_SIZE_def)
  then show ?thesis by (simp add: dinode_at_def IPB_def BSIZE_def DINODE_SIZE_def)
qed

lemma iupdate_run:
  assumes t: "tx p st n V Map.empty F s" and sp: "sb F = sp" and lay: "fs_layout sp st V" and x: "inodes F ip = x"
    and dev: "idev x = ROOTDEV" and ib: "inode_block_ok sp st V x" and n: "n < NBUF" "n < LOGBLOCKS"
  shows "\<exists>s'. iupdate ip s = (Inr (), s') \<and>
    tx p st (Suc n) (V(inode_block sp x := store_dinode x (dinode_at (inum x)) (V (inode_block sp x)))) Map.empty F s'"
proof -
  let ?b = "IBLOCK (inum x) sp"
  have s: "inodes s ip = x" "sb s = sp" using tx_inodes [OF t] x sp tx_frame [OF t] by (auto simp: frame_def)
  have b: "unat ?b < 2 ^ 31" using ib lay by (simp add: inode_block_ok_def inode_block_def fs_layout_def data_start_def)
  have "iupdate ip s = kbind (bread ROOTDEV ?b) (\<lambda>bp. kbind (kget (\<lambda>s. bdata s bp)) (\<lambda>d.
      kseq (kmod (set_bdata bp (store_dinode x (dinode_at (inum x)) d))) (kseq (log_write bp) (kseq (brelse bp) (kret ()))))) s"
    using s dev by (simp add: iupdate_def kseq_unit)
  moreover obtain s' where "kbind (bread ROOTDEV ?b) (\<lambda>bp. kbind (kget (\<lambda>s. bdata s bp)) (\<lambda>d.
      kseq (kmod (set_bdata bp (store_dinode x (dinode_at (inum x)) d))) (kseq (log_write bp) (kseq (brelse bp) (kret ()))))) s = kret () s'"
      "tx p st (Suc n) (V(unat ?b := store_dinode x (dinode_at (inum x)) (V (unat ?b)))) Map.empty F s'"
    using tx_modify [OF t b _ _ _ n(2), of "store_dinode x (dinode_at (inum x))" "kret ()"] ib n
    by (auto simp: inode_block_ok_def inode_block_def)
  ultimately show ?thesis by (auto simp: inode_block_def kret_def)
qed

text \<open>Updating an inode block leaves every file as it is.\<close>

lemma meta_upd:
  assumes lay: "fs_layout sp st V" and ok: "file_ok sp V x" and b: "b < unat (sb_bmapstart sp)" "length v = length (V b)"
  shows "fs_layout sp st (V(b := v))" and "file_ok sp (V(b := v)) x" and "contents (V(b := v)) x = contents V x"
    and "own (V(b := v)) x = own V x"
proof -
  note u = blk_ok_upd [where V = V and b = b, OF disjI1 [OF b(1)] b(2)]
  have far: "b \<noteq> k" if "blk_ok sp V k" for k using that b(1) by (auto simp: blk_ok_def data_start_def)
  have ab: "ablk (V(b := v)) x l = ablk V x l" for l
    using far [OF file_ok_blk [OF ok, of MAXFILE]] by (intro ablk_upd) (simp add: ablk_MAXFILE unat_eq_0)
  show "own (V(b := v)) x = own V x" by (simp add: own_def ab)
  show "fs_layout sp st (V(b := v))" using u(2) lay by simp
  show ok': "file_ok sp (V(b := v)) x" by (rule file_ok_cong [OF ok ab u(1)])
  have "fbyte (V(b := v)) x j = fbyte V x j" if "j < unat (isize x)" for j
  proof -
    have "j div BSIZE * BSIZE < unat (isize x)" using that div_times_less_eq_dividend [of j BSIZE] by linarith
    then have a: "ablk V x (j div BSIZE) \<noteq> 0" using ok by (simp add: file_ok_def)
    have "j < MAXFILE * BSIZE" using that ok by (simp add: file_ok_def)
    then have "j div BSIZE \<le> MAXFILE" by (simp add: less_mult_imp_div_less less_imp_le)
    then show ?thesis using far [OF file_ok_blk [OF ok _ a]] ab by (simp add: fbyte_def)
  qed
  then show "contents (V(b := v)) x = contents V x" by (simp add: contents_def)
qed

section \<open>writei\<close>

text \<open>The size after the write.\<close>

definition grown :: "inode \<Rightarrow> u32 \<Rightarrow> inode" where
  "grown x e = (if e > isize x then x\<lparr>isize := e\<rparr> else x)"

lemma ablk_grown [simp]: "ablk V (grown x e) l = ablk V x l" and fbyte_grown [simp]: "fbyte V (grown x e) j = fbyte V x j"
  by (simp_all add: grown_def ablk_def addr_at_def fbyte_def)

lemma size_grown: "unat (isize (grown x e)) = max (unat (isize x)) (unat e)"
  by (auto simp: grown_def word_less_nat_alt)

lemma grown_ok:
  assumes ok: "file_ok sp V x" and e: "unat e \<le> MAXFILE * BSIZE" "unat off \<le> unat (isize x)"
    and a: "\<forall>j. unat off \<le> j \<and> j < unat e \<longrightarrow> ablk V x (j div BSIZE) \<noteq> 0"
  shows "file_ok sp V (grown x e)"
proof -
  have "ablk V x i \<noteq> 0" if i: "i * BSIZE < max (unat (isize x)) (unat e)" for i
  proof (cases "i * BSIZE < unat (isize x)")
    case True
    then show ?thesis using ok by (simp add: file_ok_def)
  next
    case False
    then show ?thesis using a i e(2) spec [OF a, of "i * BSIZE"] by (auto simp: BSIZE_def)
  qed
  moreover have "idev (grown x e) = idev x" by (simp add: grown_def)
  ultimately show ?thesis using ok e(1) unfolding file_ok_def size_grown ablk_grown by simp
qed

lemma contents_put:
  assumes sz: "off \<le> unat (isize x)" and sz': "unat (isize x') = max (unat (isize x)) (off + length bs)"
    and new: "\<And>j. off \<le> j \<Longrightarrow> j < off + length bs \<Longrightarrow> fbyte V' x' j = bs ! (j - off)"
    and old: "\<And>j. j < unat (isize x) \<Longrightarrow> \<not> (off \<le> j \<and> j < off + length bs) \<Longrightarrow> fbyte V' x' j = fbyte V x j"
  shows "contents V' x' = put_bytes off bs (contents V x)"
proof (rule nth_equalityI)
  show "length (contents V' x') = length (put_bytes off bs (contents V x))"
    using sz sz' by (simp add: contents_def put_bytes_def)
  fix j assume "j < length (contents V' x')"
  then have j: "j < max (unat (isize x)) (off + length bs)" using sz' by (simp add: contents_def)
  show "contents V' x' ! j = put_bytes off bs (contents V x) ! j"
    using j sz sz' new old by (auto simp: contents_def put_bytes_def nth_append)
qed

lemma writei_full:
  assumes t: "tx p st n V Map.empty F s" and sp: "sb F = sp" and lay: "fs_layout sp st V" and x: "inodes F ip = x"
    and ok: "file_ok sp V x" and ib: "inode_block_ok sp st V x"
    and off: "off \<le> isize x" "\<not> off + m < off" "unat off + unat m \<le> MAXFILE * BSIZE"
    and n: "n + 6 * length (chunks (unat off) (unat m)) < NBUF" "n + 6 * length (chunks (unat off) (unat m)) < LOGBLOCKS"
    and fr: "2 * length (chunks (unat off) (unat m)) \<le> free_cnt sp V"
  shows "\<exists>s' V' x'. writei ip False src off m s = (Inr (int (unat m)), s') \<and>
    tx p st (Suc (n + 6 * length (chunks (unat off) (unat m)))) V' Map.empty (upd_inode ip (\<lambda>_. x') F) s' \<and>
    fs_layout sp st V' \<and> file_ok sp V' x' \<and> contents V' x' = put_bytes (unat off) (read_bytes (mem F) src (unat m)) (contents V x) \<and>
    disk_fields (load_dinode (V' (inode_block sp x)) (dinode_at (inum x)) x) = disk_fields x' \<and>
    (\<forall>b. blk_ok sp V b \<and> b \<notin> own V x \<longrightarrow> V' b = V b \<and> blk_ok sp V' b \<and> b \<notin> own V' x') \<and> x' = x\<lparr>isize := isize x', iaddrs := iaddrs x'\<rparr> \<and>
    inode_block_ok sp st V' x' \<and> free_cnt sp V \<le> free_cnt sp V' + 2 * length (chunks (unat off) (unat m))"
proof -
  let ?k = "length (chunks (unat off) (unat m))" and ?e = "off + m" and ?bs = "read_bytes (mem F) src (unat m)"
  have e: "unat ?e = unat off + unat m"
    using off(2) by (simp add: not_less word_le_nat_alt unat_plus_simple [symmetric] no_olen_add_nat unat_add_lem)
  have m32: "0 + unat m < 2 ^ 32" using unat_lt_pow [of m] by simp
  obtain s1 V1 x1 where r: "writei_loop ip False src 0 (chunks (unat off) (unat m)) s = (Inr (unat m), s1)"
      "tx p st (n + 6 * ?k) V1 Map.empty (upd_inode ip (\<lambda>_. x1) F) s1" "evol sp st V x V1 x1" "free_cnt sp V \<le> free_cnt sp V1 + 2 * ?k"
      "\<forall>j. unat off \<le> j \<and> j < unat off + unat m \<longrightarrow> ablk V1 x1 (j div BSIZE) \<noteq> 0 \<and> fbyte V1 x1 j = mem F (src + of_nat (j - unat off))"
      "\<forall>j. \<not> (unat off \<le> j \<and> j < unat off + unat m) \<and> j div BSIZE < MAXFILE \<and> ablk V x (j div BSIZE) \<noteq> 0 \<longrightarrow> fbyte V1 x1 j = fbyte V x j"
    using writei_loop_run [OF lay ok off(3) m32 n fr t sp x, of src] by auto
  let ?x = "grown x1 ?e" and ?b = "inode_block sp x"
  let ?F = "upd_inode ip (\<lambda>_. ?x) F"
  note f1 = evol_fields [OF r(3)]
  have xs: "inodes s ip = x" "inodes s1 ip = x1" using tx_inodes [OF t] tx_inodes [OF r(2)] x by simp_all
  have ok1: "file_ok sp V1 ?x" using grown_ok [OF evolD(3) [OF r(3)], of ?e off] r(5) e off f1(1) by (simp add: word_le_nat_alt)
  let ?g = "if isize x1 < ?e then kmod (upd_inode ip (\<lambda>x. x\<lparr>isize := ?e\<rparr>)) else kret ()"
  have "\<exists>s2. ?g s1 = (Inr (), s2) \<and> tx p st (n + 6 * ?k) V1 Map.empty ?F s2"
    using r(2) tx_inode [OF r(2), of ip "\<lambda>x. x\<lparr>isize := ?e\<rparr>"]
    by (cases "isize x1 < ?e") (simp_all add: grown_def upd_inode_twice)
  then obtain s2 where s2: "?g s1 = (Inr (), s2)" "tx p st (n + 6 * ?k) V1 Map.empty ?F s2" by blast
  have gi: "inum ?x = inum x" "idev ?x = ROOTDEV" "inode_block sp ?x = ?b"
    using f1 ok by (simp_all add: grown_def inode_block_def file_ok_def)
  have Vb: "V1 ?b = V ?b" using evolD(5) [OF r(3)] ib by (simp add: inode_block_ok_def)
  have ib1: "inode_block_ok sp st V1 ?x" using ib Vb gi by (simp add: inode_block_ok_def)
  let ?w = "store_dinode ?x (dinode_at (inum x)) (V1 ?b)"
  obtain s3 where s3: "iupdate ip s2 = (Inr (), s3)" "tx p st (Suc (n + 6 * ?k)) (V1(?b := ?w)) Map.empty ?F s3"
    using iupdate_run [OF s2(2) _ evolD(2) [OF r(3)] _ gi(2) ib1 n, of ip] sp gi by auto
  have len: "length (V1 ?b) = BSIZE" "?b < unat (sb_bmapstart sp)" using ib Vb by (simp_all add: inode_block_ok_def)
  have d: "dinode_at (inum x) + DINODE_SIZE \<le> length (V1 ?b)" using dinode_at_bound len(1) by simp
  have wl: "length ?w = length (V1 ?b)" using d by (rule length_store_dinode)
  note mu = meta_upd [where V = V1, OF evolD(2) [OF r(3)] ok1 len(2) wl]
  have cm: "of_nat (unat m) = m" by simp
  have si: "sint m = int (unat m)" using sint_small [of m] off(3) by (simp add: MAXFILE_val BSIZE_def)
  have g: "kbind (kget (\<lambda>s. isize (inodes s ip))) (\<lambda>sz. if off + of_nat (unat m) > sz
      then kmod (upd_inode ip (\<lambda>x. x\<lparr>isize := off + of_nat (unat m)\<rparr>)) else kret ()) s1 = (Inr (), s2)"
    unfolding kbind_kget xs(2) cm by (rule s2(1))
  have "\<not> (isize x < off \<or> off + m < off)" "\<not> MAXFILE * BSIZE < unat (off + m)" using off e by auto
  then have "writei ip False src off m s = (Inr (sint (of_nat (unat m) :: u32)), s3)"
    using r(1) g s3(1)
    by (simp only: writei_def kbind_kget [of "\<lambda>s. isize (inodes s ip)" _ s] xs(1) if_False kbind_run_Inr kseq_run_Inr kret_run)
  then have run: "writei ip False src off m s = (Inr (int (unat m)), s3)" using si by simp
  have c: "contents V1 ?x = put_bytes (unat off) ?bs (contents V x)"
  proof (rule contents_put)
    show "unat off \<le> unat (isize x)" using off(1) by (simp add: word_le_nat_alt)
    show "unat (isize ?x) = max (unat (isize x)) (unat off + length ?bs)" using f1(1) e by (simp add: size_grown)
    show "fbyte V1 ?x j = ?bs ! (j - unat off)" if "unat off \<le> j" "j < unat off + length ?bs" for j
    proof -
      have "j - unat off < unat m" using that by auto
      then show ?thesis using that r(5) by (simp add: read_bytes_def)
    qed
    show "fbyte V1 ?x j = fbyte V x j" if "j < unat (isize x)" "\<not> (unat off \<le> j \<and> j < unat off + length ?bs)" for j
    proof -
      have "j div BSIZE * BSIZE < unat (isize x)" using that(1) div_times_less_eq_dividend [of j BSIZE] by linarith
      then have a: "ablk V x (j div BSIZE) \<noteq> 0" using ok by (simp add: file_ok_def)
      have "j < MAXFILE * BSIZE" using that(1) ok by (simp add: file_ok_def)
      then have "j div BSIZE < MAXFILE" by (simp add: less_mult_imp_div_less)
      then show ?thesis using r(6) a that(2) by simp
    qed
  qed
  have go: "own V1 ?x = own V1 x1" by (simp add: own_def ablk_def addr_at_def grown_def)
  have other: "(V1(?b := ?w)) b = V b \<and> blk_ok sp (V1(?b := ?w)) b \<and> b \<notin> own (V1(?b := ?w)) ?x" if b: "blk_ok sp V b" "b \<notin> own V x" for b
  proof -
    have "b \<noteq> ?b" using b(1) len(2) by (auto simp: blk_ok_def data_start_def)
    moreover have "blk_ok sp (V1(?b := ?w)) b"
      using blk_ok_upd(1) [where V = V1 and b = ?b, OF disjI1 [OF len(2)] wl] evolD(4) [OF r(3) b(1)] by simp
    ultimately show ?thesis using evolD(6) [OF r(3) b] own_grow [OF r(3) b] mu(4) go by simp
  qed
  have xx: "?x = x\<lparr>isize := isize ?x, iaddrs := iaddrs ?x\<rparr>" using evolD(1) [OF r(3)] by (auto simp: grown_def)
  have "free_cnt sp (V1(?b := ?w)) = free_cnt sp V1" by (rule blk_ok_upd(3) [where V = V1 and b = ?b, OF disjI1 [OF len(2)] wl])
  moreover have "inode_block_ok sp st (V1(?b := ?w)) ?x" using ib1 wl gi(3) by (simp add: inode_block_ok_def)
  ultimately show ?thesis using run s3(2) mu c other xx load_store_dinode [OF d, of ?x x] r(4)
    by (intro exI [of _ s3] exI [of _ "V1(?b := ?w)"] exI [of _ ?x]) simp
qed

lemma writei_run:
  assumes t: "tx p st n V Map.empty F s" and sp: "sb F = sp" and lay: "fs_layout sp st V" and x: "inodes F ip = x"
    and ok: "file_ok sp V x" and ib: "inode_block_ok sp st V x"
    and off: "off \<le> isize x" "\<not> off + m < off" "unat off + unat m \<le> MAXFILE * BSIZE"
    and n: "n + 6 * length (chunks (unat off) (unat m)) < NBUF" "n + 6 * length (chunks (unat off) (unat m)) < LOGBLOCKS"
    and fr: "2 * length (chunks (unat off) (unat m)) \<le> free_cnt sp V"
  shows "\<exists>s' V' x'. writei ip False src off m s = (Inr (int (unat m)), s') \<and>
    tx p st (Suc (n + 6 * length (chunks (unat off) (unat m)))) V' Map.empty (upd_inode ip (\<lambda>_. x') F) s' \<and>
    fs_layout sp st V' \<and> file_ok sp V' x' \<and> contents V' x' = put_bytes (unat off) (read_bytes (mem F) src (unat m)) (contents V x) \<and>
    disk_fields (load_dinode (V' (inode_block sp x)) (dinode_at (inum x)) x) = disk_fields x' \<and>
    (\<forall>b. blk_ok sp V b \<and> b \<notin> own V x \<longrightarrow> V' b = V b) \<and> x' = x\<lparr>isize := isize x', iaddrs := iaddrs x'\<rparr>"
  using writei_full [OF assms, of src] by blast

section \<open>Reading back, and committing\<close>

lemma take_drop_put_bytes:
  assumes "off \<le> length c"
  shows "take (length bs) (drop off (put_bytes off bs c)) = bs"
  using assms by (simp add: put_bytes_def)

lemma disk_fields_same:
  assumes "disk_fields x = disk_fields y"
  shows "ablk V x i = ablk V y i" and "isize x = isize y" and "contents V x = contents V y"
proof -
  have e: "map (iaddrs x) [0..<Suc NDIRECT] = map (iaddrs y) [0..<Suc NDIRECT]" and s: "isize x = isize y"
    using assms by (simp_all add: disk_fields_def)
  have "iaddrs x i = iaddrs y i" if "i \<le> NDIRECT" for i using e that by (simp add: list_eq_iff_nth_eq del: upt_Suc)
  then show a: "ablk V x i = ablk V y i" for i by (simp add: ablk_def addr_at_def)
  show "isize x = isize y" by (rule s)
  then show "contents V x = contents V y" using a by (simp add: contents_def fbyte_def)
qed

lemma contents_agree:
  assumes ok: "file_ok sp V x" and lay: "fs_layout sp st V" and D: "\<And>k. k \<notin> log_area st \<Longrightarrow> D k = V k"
  shows "contents D x = contents V x"
proof -
  have b: "D k = V k" if "blk_ok sp V k" for k using D blk_ok_usable(2) [OF that lay] by simp
  have ind: "D (unat (iaddrs x NDIRECT)) = V (unat (iaddrs x NDIRECT))" if "iaddrs x NDIRECT \<noteq> 0"
    using that b file_ok_blk [OF ok, of MAXFILE] by (simp add: ablk_MAXFILE unat_eq_0)
  then have a: "ablk D x i = ablk V x i" for i by (auto simp: ablk_def addr_at_def)
  have "fbyte D x j = fbyte V x j" if "j < unat (isize x)" for j
  proof -
    have "j div BSIZE * BSIZE < unat (isize x)" using that div_times_less_eq_dividend [of j BSIZE] by linarith
    then have n: "ablk V x (j div BSIZE) \<noteq> 0" using ok by (simp add: file_ok_def)
    have "j < MAXFILE * BSIZE" using that ok by (simp add: file_ok_def)
    then have "j div BSIZE \<le> MAXFILE" by (simp add: less_mult_imp_div_less less_imp_le)
    then show ?thesis using b [OF file_ok_blk [OF ok _ n]] a by (simp add: fbyte_def)
  qed
  then show ?thesis by (simp add: contents_def)
qed

lemma tx_pending:
  assumes "txo oc p st n V Map.empty F s"
  shows "\<exists>L. pending s p st L \<and> length L \<le> n" and "lock_idle (llock (wal s))" and "\<not> committing (wal s)"
    and "outstanding (wal s) = outstanding (wal F)" and "a_view (abs_cache s) = V"
proof -
  obtain L where "in_trans s p st L" "length L \<le> n" using assms by (auto simp: tx_def)
  then have "pending s p st L \<and> length L \<le> n" using assms in_trans_pending [of s p st L] by (simp add: tx_def)
  then show "\<exists>L. pending s p st L \<and> length L \<le> n" by blast
  show "lock_idle (llock (wal s))" "\<not> committing (wal s)" "outstanding (wal s) = outstanding (wal F)" "a_view (abs_cache s) = V"
    using assms frame_wal [of s F] by (auto simp: tx_def in_trans_def)
qed

text \<open>A write as one transaction of its own.\<close>

definition write_op :: "nat \<Rightarrow> u64 \<Rightarrow> u32 \<Rightarrow> u32 \<Rightarrow> (('a) kino_scheme, int) km" where
  "write_op ip src off m = kseq begin_op (kbind (writei ip False src off m) (\<lambda>r. kseq end_op (kret r)))"

lemma begin_tx:
  assumes p: "pending s p st []" and li: "lock_idle (llock (wal s))" and c: "\<not> committing (wal s)" and o: "outstanding (wal s) = 0"
  shows "\<exists>s1. begin_op s = (Inr (), s1) \<and> tx p st 0 (a_disk (abs_cache s)) Map.empty (frame s1) s1 \<and> outstanding (wal s1) = 1 \<and>
    s1 = upd_wal (\<lambda>l. l\<lparr>outstanding := 1\<rparr>) s"
proof -
  note it = pending_in_trans [OF p li]
  let ?s = "upd_wal (\<lambda>l. l\<lparr>outstanding := outstanding l + 1\<rparr>) s"
  have e: "?s = upd_wal (\<lambda>l. l\<lparr>outstanding := 1\<rparr>) s" using o by (simp add: upd_wal_def)
  have r: "begin_op s = (Inr (), ?s)" using begin_op_run [OF it c] o by (simp add: LOGBLOCKS_def MAXOPBLOCKS_def)
  have it1: "in_trans ?s p st []" by (rule in_trans_upd_wal) (use li it in simp_all)
  have v: "a_view (abs_cache s) = a_disk (abs_cache s)" using pending_clean [OF p] by auto
  have "tx p st 0 (a_disk (abs_cache s)) Map.empty (frame ?s) ?s"
    using it1 p c o v by (auto simp: tx_def pending_def intro!: exI [of _ "[]"])
  then show ?thesis using r e o by auto
qed

lemma write_op_run:
  assumes p: "pending s p st []" and li: "lock_idle (llock (wal s))" and c: "\<not> committing (wal s)" and o: "outstanding (wal s) = 0"
    and lay: "fs_layout (sb s) st (a_disk (abs_cache s))" and ok: "file_ok (sb s) (a_disk (abs_cache s)) x" and x: "inodes s ip = x"
    and ib: "inode_block_ok (sb s) st (a_disk (abs_cache s)) x"
    and off: "off \<le> isize x" "\<not> off + m < off" "unat off + unat m \<le> MAXFILE * BSIZE"
    and n: "6 * length (chunks (unat off) (unat m)) + 1 < LOGBLOCKS"
    and fr: "2 * length (chunks (unat off) (unat m)) \<le> free_cnt (sb s) (a_disk (abs_cache s))"
  shows "\<exists>s'. write_op ip src off m s = (Inr (int (unat m)), s') \<and> pending s' p st [] \<and> outstanding (wal s') = 0 \<and>
    (let D = a_disk (abs_cache s'); y = load_dinode (D (inode_block (sb s) x)) (dinode_at (inum x)) x in
      contents D y = put_bytes (unat off) (read_bytes (mem s) src (unat m)) (contents (a_disk (abs_cache s)) x) \<and>
      (\<forall>b. blk_ok (sb s) (a_disk (abs_cache s)) b \<and> b \<notin> own (a_disk (abs_cache s)) x \<longrightarrow> D b = a_disk (abs_cache s) b))"
proof -
  let ?V = "a_disk (abs_cache s)" and ?sp = "sb s" and ?k = "length (chunks (unat off) (unat m))" and ?b = "inode_block (sb s) x"
  obtain s1 where s1: "begin_op s = (Inr (), s1)" "tx p st 0 ?V Map.empty (frame s1) s1" "outstanding (wal s1) = 1"
      "s1 = upd_wal (\<lambda>l. l\<lparr>outstanding := 1\<rparr>) s"
    using begin_tx [OF p li c o] by blast
  have f: "sb (frame s1) = ?sp" "inodes (frame s1) ip = x" "mem (frame s1) = mem s" using s1(4) x by (simp_all add: frame_def upd_wal_def)
  have nb: "0 + 6 * ?k < NBUF" "0 + 6 * ?k < LOGBLOCKS" "Suc (0 + 6 * ?k) < NBUF" using n by (simp_all add: NBUF_def LOGBLOCKS_def MAXOPBLOCKS_def)
  obtain s2 V' x' where w: "writei ip False src off m s1 = (Inr (int (unat m)), s2)"
      "tx p st (Suc (0 + 6 * ?k)) V' Map.empty (upd_inode ip (\<lambda>_. x') (frame s1)) s2" "fs_layout ?sp st V'" "file_ok ?sp V' x'"
      "contents V' x' = put_bytes (unat off) (read_bytes (mem s) src (unat m)) (contents ?V x)"
      "disk_fields (load_dinode (V' ?b) (dinode_at (inum x)) x) = disk_fields x'" "\<forall>b. blk_ok ?sp ?V b \<and> b \<notin> own ?V x \<longrightarrow> V' b = ?V b"
    using writei_run [OF s1(2) f(1) lay f(2) ok ib off nb(1,2) fr, of src] f(3) by auto
  note tp = tx_pending [OF w(2)]
  obtain L where L: "pending s2 p st L" "length L < NBUF" using tp(1) nb(3) by fastforce
  have o2: "outstanding (wal s2) = 1" using tp(4) s1(3) by (simp add: frame_def)
  obtain s3 where s3: "end_op s2 = (Inr (), s3)" "pending s3 p st []" "outstanding (wal s3) = 0"
      "\<And>k. k \<notin> log_area st \<Longrightarrow> a_disk (abs_cache s3) k = V' k"
    using end_op_last [OF L(1) tp(2) L(2) tp(3) o2] tp(5) by auto
  let ?D = "a_disk (abs_cache s3)"
  have Db: "?D ?b = V' ?b" using s3(4) ib by (simp add: inode_block_ok_def)
  have "contents ?D (load_dinode (?D ?b) (dinode_at (inum x)) x) = contents V' x'"
    using disk_fields_same(3) [OF w(6), of ?D] Db contents_agree [OF w(4,3) s3(4)] by simp
  moreover have "?D b = ?V b" if "blk_ok ?sp ?V b" "b \<notin> own ?V x" for b
    using s3(4) blk_ok_usable(2) [OF that(1) lay] w(7) that by simp
  ultimately show ?thesis using s1(1) w(1,5) s3(1-3) by (simp add: write_op_def Let_def)
qed

lemma length_contents [simp]: "length (contents V x) = unat (isize x)"
  by (simp add: contents_def)

section \<open>A concrete file\<close>

lemma demo_ino_fields: "sb demo_ino = demo_sb" "inodes demo_ino 0 = demo_inode" "wal demo_ino = demo_wal 0"
  "a_disk (abs_cache demo_ino) = zero_disk(45 := demo_bitmap)"
proof -
  show "sb demo_ino = demo_sb" "inodes demo_ino 0 = demo_inode" "wal demo_ino = demo_wal 0"
    by (simp_all add: demo_ino_def klog.extend_def demo_log_fields)
  show "a_disk (abs_cache demo_ino) = zero_disk(45 := demo_bitmap)"
    using demo_log_abs(1) [of 0 "zero_disk(45 := demo_bitmap)"] by (simp add: demo_ino_def extend_abs)
qed

lemma demo_ino_pending: "pending demo_ino 1 2 []"
proof -
  let ?D = "zero_disk(45 := demo_bitmap)"
  have D: "length (?D 2) = BSIZE" "sint (get32 (?D 2) 0) = 0" using zero_head by simp_all
  have "pending (demo_log 0 ?D) 1 2 (demo_blocks 0)" by (rule demo_log_pending) (use D in simp_all)
  then show ?thesis by (simp add: demo_ino_def pending_def log_at_def extend_abs extend_inv demo_blocks_def)
qed

lemma demo_file: "file_ok demo_sb V demo_inode" and demo_inode_block: "inode_block_ok demo_sb 2 (zero_disk(45 := demo_bitmap)) demo_inode"
proof -
  have "ablk V demo_inode i = 0" for i by (simp add: ablk_def addr_at_def demo_inode_def)
  then show "file_ok demo_sb V demo_inode" by (simp add: file_ok_def) (simp add: demo_inode_def)
  have "inode_block demo_sb demo_inode = 33" by (simp add: inode_block_def IBLOCK_def demo_inode_def demo_sb_def IPB_def BSIZE_def DINODE_SIZE_def)
  then show "inode_block_ok demo_sb 2 (zero_disk(45 := demo_bitmap)) demo_inode"
    by (simp add: inode_block_ok_def demo_sb_def log_area_def LOGBLOCKS_def MAXOPBLOCKS_def zero_disk_def)
qed

lemma demo_free: "2 \<le> free_cnt demo_sb (zero_disk(45 := demo_bitmap))"
proof -
  have "blk_free demo_sb (zero_disk(45 := demo_bitmap)) k" if "k \<in> {48, 49}" for k
    using that by (auto simp: blk_free_def bmap_block_def BPB_val demo_sb_def bit_clear_def demo_bitmap_def bit_mask_def BSIZE_def)
  then have "{48, 49} \<subseteq> {k. k < unat (sb_size demo_sb) \<and> blk_free demo_sb (zero_disk(45 := demo_bitmap)) k}" by auto
  then have "card {48, 49 :: nat} \<le> free_cnt demo_sb (zero_disk(45 := demo_bitmap))"
    unfolding free_cnt_def by (intro card_mono) simp_all
  then show ?thesis by simp
qed

lemma demo_chunks: "chunks 0 5 = [(0, 5)]"
  by (simp add: chunks.simps BSIZE_def)

lemma demo_ino_tx: "tx 1 2 0 (zero_disk(45 := demo_bitmap)) Map.empty (frame demo_ino) demo_ino"
proof -
  have w: "outstanding (wal demo_ino) = 1" "\<not> committing (wal demo_ino)" "lock_idle (llock (wal demo_ino))"
    by (simp_all add: demo_ino_fields demo_wal_def lock_idle_def fresh_lock_def)
  have v: "a_view (abs_cache demo_ino) = a_disk (abs_cache demo_ino)" using pending_clean [OF demo_ino_pending] by auto
  then show ?thesis
    using w pending_in_trans [OF demo_ino_pending w(3)] demo_ino_pending
    by (auto simp: tx_def pending_def demo_ino_fields intro!: exI [of _ "[]"])
qed

lemma demo_frame: "sb (frame demo_ino) = demo_sb" "inodes (frame demo_ino) 0 = demo_inode" "mem (frame demo_ino) = mem demo_ino"
  using demo_ino_fields(1,2) by (simp_all add: frame_def)

section \<open>Main theorems\<close>

text \<open>Reading a file: inside a transaction, for an offset inside a well-formed file, \<^verbatim>\<open>readi\<close> returns
  the number of bytes left (at most the number asked for) and copies exactly those bytes of the file to the
  destination, through direct and indirect blocks alike; nothing else of the state visible to the file
  system changes.\<close>

theorem readi_returns_contents:
  assumes "tx p st n V Map.empty F s" and "fs_layout sp st V" and "file_ok sp V (inodes F ip)" and "n < NBUF"
    and "off \<le> isize (inodes F ip)" and "\<not> off + m < off"
  shows "\<exists>s'. readi ip False dst off m s = (Inr (int (min (unat m) (unat (isize (inodes F ip)) - unat off))), s') \<and>
    tx p st n V Map.empty (F\<lparr>mem := write_bytes (mem F) dst (take (unat m) (drop (unat off) (contents V (inodes F ip))))\<rparr>) s'"
  using readi_run [OF assms(1,2) refl assms(3-6)] .

theorem readi_returns_contents_witness:
  "\<exists>s'. readi 0 False 0x80100000 0 5 demo_ino = (Inr 0, s') \<and> mem s' = mem demo_ino"
proof -
  obtain s' where s': "readi 0 False 0x80100000 0 5 demo_ino = (Inr (int (min (unat (5 :: u32)) (unat (isize demo_inode) - unat (0 :: u32)))), s')"
      "tx 1 2 0 (zero_disk(45 := demo_bitmap)) Map.empty ((frame demo_ino)\<lparr>mem := write_bytes (mem (frame demo_ino)) 0x80100000
        (take (unat (5 :: u32)) (drop (unat (0 :: u32)) (contents (zero_disk(45 := demo_bitmap)) demo_inode)))\<rparr>) s'"
    using readi_returns_contents [OF demo_ino_tx demo_layout, of 0 0 5 "0x80100000"] demo_file demo_frame by (auto simp: NBUF_def MAXOPBLOCKS_def)
  have "contents (zero_disk(45 := demo_bitmap)) demo_inode = []" by (simp add: contents_def demo_inode_def)
  then show ?thesis using s' tx_fields(1) [OF s'(2)] tx_fields(1) [OF demo_ino_tx] by (auto simp: demo_inode_def)
qed

text \<open>C3. Writing a file: inside a transaction with room for six blocks per piece and two free blocks per
  piece, \<^verbatim>\<open>writei\<close> stores all the bytes. The new contents are the old ones with the bytes at the offset
  replaced (and the file extended if they reach past its end), the file stays well formed, the on-disk inode
  agrees with the one in memory, and every allocated block that is not of this file keeps its contents.\<close>

theorem writei_patches_contents:
  assumes "tx p st n V Map.empty F s" and "fs_layout (sb F) st V" and "inodes F ip = x" and "file_ok (sb F) V x"
    and "inode_block_ok (sb F) st V x" and "off \<le> isize x" and "\<not> off + m < off" and "unat off + unat m \<le> MAXFILE * BSIZE"
    and "n + 6 * length (chunks (unat off) (unat m)) < LOGBLOCKS" and "2 * length (chunks (unat off) (unat m)) \<le> free_cnt (sb F) V"
  shows "\<exists>s' V' x'. writei ip False src off m s = (Inr (int (unat m)), s') \<and>
    tx p st (Suc (n + 6 * length (chunks (unat off) (unat m)))) V' Map.empty (upd_inode ip (\<lambda>_. x') F) s' \<and>
    fs_layout (sb F) st V' \<and> file_ok (sb F) V' x' \<and> contents V' x' = put_bytes (unat off) (read_bytes (mem F) src (unat m)) (contents V x) \<and>
    disk_fields (load_dinode (V' (inode_block (sb F) x)) (dinode_at (inum x)) x) = disk_fields x' \<and>
    (\<forall>b. blk_ok (sb F) V b \<and> b \<notin> own V x \<longrightarrow> V' b = V b) \<and> x' = x\<lparr>isize := isize x', iaddrs := iaddrs x'\<rparr>"
  by (rule writei_run [OF assms(1) refl assms(2-8)]) (use assms in \<open>simp_all add: NBUF_def LOGBLOCKS_def\<close>)

theorem writei_patches_contents_witness:
  "\<exists>s' V' x'. writei 0 False 0x80000000 0 5 demo_ino = (Inr 5, s') \<and>
     tx 1 2 7 V' Map.empty (upd_inode 0 (\<lambda>_. x') (frame demo_ino)) s' \<and>
     contents V' x' = read_bytes (mem demo_ino) 0x80000000 5"
proof -
  have "contents (zero_disk(45 := demo_bitmap)) demo_inode = []" by (simp add: contents_def demo_inode_def)
  then show ?thesis
    using writei_patches_contents [OF demo_ino_tx, of 0 demo_inode 0 5 "0x80000000"] demo_layout demo_file demo_inode_block demo_free
    by (auto simp: demo_frame demo_chunks demo_inode_def LOGBLOCKS_def MAXOPBLOCKS_def MAXFILE_val BSIZE_def put_bytes_def)
qed

text \<open>What is written is read back: \<^verbatim>\<open>readi\<close> at the same place after \<^verbatim>\<open>writei\<close> returns the same
  number of bytes and puts the bytes that were written at its destination.\<close>

theorem writei_readi_roundtrip:
  assumes "tx p st n V Map.empty F s" and "fs_layout (sb F) st V" and "file_ok (sb F) V (inodes F ip)"
    and "inode_block_ok (sb F) st V (inodes F ip)" and "off \<le> isize (inodes F ip)" and "\<not> off + m < off"
    and "unat off + unat m \<le> MAXFILE * BSIZE" and "n + 6 * length (chunks (unat off) (unat m)) + 1 < LOGBLOCKS"
    and "2 * length (chunks (unat off) (unat m)) \<le> free_cnt (sb F) V"
  shows "\<exists>s1 s2. writei ip False src off m s = (Inr (int (unat m)), s1) \<and> readi ip False dst off m s1 = (Inr (int (unat m)), s2) \<and>
    mem s2 = write_bytes (mem s) dst (read_bytes (mem s) src (unat m))"
proof -
  let ?x = "inodes F ip" and ?bs = "read_bytes (mem F) src (unat m)" and ?k = "length (chunks (unat off) (unat m))"
  have nb: "n + 6 * ?k < NBUF" "n + 6 * ?k < LOGBLOCKS" "Suc (n + 6 * ?k) < NBUF"
    using assms(8) by (simp_all add: NBUF_def LOGBLOCKS_def)
  obtain s1 V' x' where w: "writei ip False src off m s = (Inr (int (unat m)), s1)"
      "tx p st (Suc (n + 6 * ?k)) V' Map.empty (upd_inode ip (\<lambda>_. x') F) s1"
      "fs_layout (sb F) st V'" "file_ok (sb F) V' x'" "contents V' x' = put_bytes (unat off) ?bs (contents V ?x)"
    using writei_run [OF assms(1) refl assms(2) refl assms(3-7) nb(1,2) assms(9), of src] by blast
  have offs: "unat off \<le> unat (isize ?x)" using assms(5) by (simp add: word_le_nat_alt)
  then have sz: "unat off + unat m \<le> unat (isize x')" using arg_cong [OF w(5), of length] by (simp add: contents_def put_bytes_def)
  then have "off \<le> isize x'" by (simp add: word_le_nat_alt)
  then obtain s2 where r: "readi ip False dst off m s1 = (Inr (int (min (unat m) (unat (isize x') - unat off))), s2)"
      "tx p st (Suc (n + 6 * ?k)) V' Map.empty ((upd_inode ip (\<lambda>_. x') F)\<lparr>mem := write_bytes (mem F) dst
        (take (unat m) (drop (unat off) (contents V' x')))\<rparr>) s2"
    using readi_run [OF w(2,3) _ w(4) nb(3) _ assms(6), of ip dst] by auto
  have "take (unat m) (drop (unat off) (contents V' x')) = ?bs"
    using take_drop_put_bytes [of "unat off" "contents V ?x" ?bs] offs w(5) by (simp add: contents_def)
  then have "mem s2 = write_bytes (mem s) dst (read_bytes (mem s) src (unat m))"
    using tx_fields(1) [OF r(2)] tx_fields(1) [OF assms(1)] by simp
  moreover have "min (unat m) (unat (isize x') - unat off) = unat m" using sz by simp
  ultimately show ?thesis using w(1) r(1) by auto
qed

theorem writei_readi_roundtrip_witness:
  "\<exists>s1 s2. writei 0 False 0x80000000 0 5 demo_ino = (Inr 5, s1) \<and> readi 0 False 0x80100000 0 5 s1 = (Inr 5, s2) \<and>
     mem s2 = write_bytes (mem demo_ino) 0x80100000 (read_bytes (mem demo_ino) 0x80000000 5)"
  using writei_readi_roundtrip [OF demo_ino_tx, of 0 0 5 "0x80000000" "0x80100000"] demo_layout demo_file demo_inode_block demo_free
  by (auto simp: demo_frame demo_chunks demo_inode_def LOGBLOCKS_def MAXOPBLOCKS_def MAXFILE_val BSIZE_def)

text \<open>A write is durable when its transaction ends: from an idle log, \<^verbatim>\<open>begin_op\<close>, \<^verbatim>\<open>writei\<close> and
  \<^verbatim>\<open>end_op\<close> leave the log empty and the disk such that the inode read from it gives the file with the bytes
  written; no block of another file has changed on disk.\<close>

theorem write_op_durable:
  assumes "pending s p st []" and "lock_idle (llock (wal s))" and "\<not> committing (wal s)" and "outstanding (wal s) = 0"
    and "fs_layout (sb s) st (a_disk (abs_cache s))" and "file_ok (sb s) (a_disk (abs_cache s)) x" and "inodes s ip = x"
    and "inode_block_ok (sb s) st (a_disk (abs_cache s)) x"
    and "off \<le> isize x" and "\<not> off + m < off" and "unat off + unat m \<le> MAXFILE * BSIZE"
    and "6 * length (chunks (unat off) (unat m)) + 1 < LOGBLOCKS"
    and "2 * length (chunks (unat off) (unat m)) \<le> free_cnt (sb s) (a_disk (abs_cache s))"
  shows "\<exists>s'. write_op ip src off m s = (Inr (int (unat m)), s') \<and> pending s' p st [] \<and> outstanding (wal s') = 0 \<and>
    (let D = a_disk (abs_cache s'); y = load_dinode (D (inode_block (sb s) x)) (dinode_at (inum x)) x in
      contents D y = put_bytes (unat off) (read_bytes (mem s) src (unat m)) (contents (a_disk (abs_cache s)) x) \<and>
      (\<forall>b. blk_ok (sb s) (a_disk (abs_cache s)) b \<and> b \<notin> own (a_disk (abs_cache s)) x \<longrightarrow> D b = a_disk (abs_cache s) b))"
  using write_op_run [OF assms] .

theorem write_op_durable_witness:
  "\<exists>s'. write_op 0 0x80000000 0 5 (upd_wal (\<lambda>l. l\<lparr>outstanding := 0\<rparr>) demo_ino) = (Inr 5, s') \<and>
     (let D = a_disk (abs_cache s') in contents D (load_dinode (D 33) 64 demo_inode) = read_bytes (mem demo_ino) 0x80000000 5)"
proof -
  let ?s = "upd_wal (\<lambda>l. l\<lparr>outstanding := 0\<rparr>) demo_ino"
  have f: "sb ?s = demo_sb" "inodes ?s 0 = demo_inode" "mem ?s = mem demo_ino" "a_disk (abs_cache ?s) = zero_disk(45 := demo_bitmap)"
  proof -
    show "sb ?s = demo_sb" "inodes ?s 0 = demo_inode" "mem ?s = mem demo_ino" using demo_ino_fields by (simp_all add: upd_wal_def)
    show "a_disk (abs_cache ?s) = zero_disk(45 := demo_bitmap)" using demo_ino_fields(4) by simp
  qed
  have p: "pending ?s 1 2 []" using demo_ino_pending by simp
  have w: "lock_idle (llock (wal ?s))" "\<not> committing (wal ?s)" "outstanding (wal ?s) = 0"
    by (simp_all add: demo_ino_fields demo_wal_def lock_idle_def fresh_lock_def)
  have b: "inode_block demo_sb demo_inode = 33" "dinode_at (inum demo_inode) = 64"
    by (simp_all add: inode_block_def IBLOCK_def demo_inode_def demo_sb_def IPB_def BSIZE_def DINODE_SIZE_def dinode_at_def)
  have "contents (zero_disk(45 := demo_bitmap)) demo_inode = []" by (simp add: contents_def demo_inode_def)
  then show ?thesis
    using write_op_durable [OF p w, of demo_inode 0 0 5 "0x80000000"] demo_layout demo_file demo_inode_block demo_free b
    unfolding f Let_def
    by (auto simp: demo_chunks demo_inode_def [THEN arg_cong, of isize] LOGBLOCKS_def MAXOPBLOCKS_def MAXFILE_val BSIZE_def put_bytes_def)
qed

end
