(* ===== verification/PathSpec.thy ===== *)
theory PathSpec
  imports Dir
begin

text \<open>
  What \<^verbatim>\<open>skipelem\<close> does to a path: the walk over a path name visits exactly the non-empty pieces between
  slashes, in order, each cut to the width of a directory entry, and recognises the last one.
\<close>

section \<open>Reference\<close>

text \<open>The pieces between slashes.\<close>

fun split_slash :: "u8 list \<Rightarrow> u8 list list" where
  "split_slash [] = [[]]"
| "split_slash (c # cs) = (if c = slash then [] # split_slash cs
     else (case split_slash cs of [] \<Rightarrow> [[c]] | e # es \<Rightarrow> (c # e) # es))"

definition path_elems :: "u8 list \<Rightarrow> u8 list list" where
  "path_elems p = filter (\<lambda>e. e \<noteq> []) (split_slash p)"

text \<open>The name an array of \<^verbatim>\<open>DIRSIZ\<close> bytes holds, with or without a terminator.\<close>

definition array_name :: "carray \<Rightarrow> u8 list" where
  "array_name a = takeWhile (\<lambda>c. c \<noteq> 0) (take DIRSIZ a)"

section \<open>Splitting\<close>

lemma split_slash_ne [simp]: "split_slash p \<noteq> []"
  by (induction p) (auto split: list.splits)

lemma split_slash_elem: "slash \<notin> set e \<Longrightarrow> split_slash e = [e]"
  by (induction e) auto

lemma split_slash_append: "slash \<notin> set e \<Longrightarrow> split_slash (e @ slash # q) = e # split_slash q"
  by (induction e) auto

lemma path_elems_slash: "path_elems (slash # p) = path_elems p"
  by (simp add: path_elems_def)

lemma path_elems_skip: "path_elems (skip_slash p) = path_elems p"
  unfolding skip_slash_def
proof (induction p)
  case (Cons c p)
  then show ?case by (cases "c = slash") (simp_all add: path_elems_slash)
qed simp

lemma path_elems_first:
  assumes "p \<noteq> []" and "hd p \<noteq> slash"
  shows "path_elems p = takeWhile (\<lambda>c. c \<noteq> slash) p # path_elems (dropWhile (\<lambda>c. c \<noteq> slash) p)"
proof -
  let ?e = "takeWhile (\<lambda>c. c \<noteq> slash) p" and ?q = "dropWhile (\<lambda>c. c \<noteq> slash) p"
  have ns: "slash \<notin> set ?e" by (auto dest: set_takeWhileD)
  have ne: "?e \<noteq> []" using assms by (cases p) auto
  show ?thesis
  proof (cases ?q)
    case Nil
    then have "p = ?e" by (metis takeWhile_dropWhile_id append_Nil2)
    then have "split_slash p = [?e]" using split_slash_elem [OF ns] by simp
    then show ?thesis unfolding Nil using ne by (simp add: path_elems_def)
  next
    case (Cons c q)
    then have c: "c = slash" using hd_dropWhile [of "\<lambda>c. c \<noteq> slash" p] by simp
    then have "p = ?e @ slash # q" using Cons by (metis takeWhile_dropWhile_id)
    then have "split_slash p = ?e # split_slash q" using split_slash_append [OF ns, of q] by metis
    then show ?thesis using Cons c ne by (simp add: path_elems_def)
  qed
qed

section \<open>skipelem on a terminated path\<close>

lemma skip_slash_zstr: "skip_slash (p @ 0 # r) = skip_slash p @ 0 # r"
  unfolding skip_slash_def by (induction p) (auto simp: slash_def)

lemma elem_zstr: "0 \<notin> set p \<Longrightarrow> elem_of (p @ 0 # r) = takeWhile (\<lambda>c. c \<noteq> slash) p"
  unfolding elem_of_def by (induction p) auto

lemma after_elem_zstr: "0 \<notin> set p \<Longrightarrow> after_elem (p @ 0 # r) = dropWhile (\<lambda>c. c \<noteq> slash) p @ 0 # r"
  unfolding after_elem_def by (induction p) auto

lemma skipelem_zstr:
  assumes "0 \<notin> set p"
  shows "skipelem (p @ 0 # r) name = Inr (if skip_slash p = [] then None
    else Some (skip_slash (dropWhile (\<lambda>c. c \<noteq> slash) (skip_slash p)) @ 0 # r,
      put_name (takeWhile (\<lambda>c. c \<noteq> slash) (skip_slash p)) name))"
proof -
  have z: "0 \<notin> set (skip_slash p)" using assms by (auto simp: skip_slash_def dest: set_dropWhileD)
  have "hd (skip_slash p @ 0 # r) = 0 \<longleftrightarrow> skip_slash p = []"
    using z by (cases "skip_slash p") auto
  then show ?thesis
    using elem_zstr [OF z] after_elem_zstr [OF z] by (simp add: skipelem_def skip_slash_zstr Let_def)
qed

lemma array_name_put:
  assumes "0 \<notin> set e"
  shows "array_name (put_name e name) = take DIRSIZ e"
proof (cases "length e \<ge> DIRSIZ")
  case True
  then have "take DIRSIZ (put_name e name) = take DIRSIZ e" by (simp add: put_name_def)
  moreover have "\<forall>c \<in> set (take DIRSIZ e). c \<noteq> 0" using assms by (auto dest: in_set_takeD)
  ultimately show ?thesis by (simp add: array_name_def takeWhile_eq_all_conv)
next
  case False
  then have "take DIRSIZ (put_name e name) = e @ 0 # take (DIRSIZ - length e - 1) (drop (length e + 1) name)"
    by (simp add: put_name_def take_Cons')
  then show ?thesis using assms False by (auto simp: array_name_def takeWhile_tail takeWhile_append2)
qed

lemma length_put_name: "length name = DIRSIZ \<Longrightarrow> length (put_name e name) = DIRSIZ"
  by (simp add: put_name_def)

lemma path_elems_Nil: "path_elems p = [] \<longleftrightarrow> skip_slash p = []"
proof -
  have "path_elems p = path_elems (skip_slash p)" by (simp add: path_elems_skip)
  moreover have "path_elems (skip_slash p) = [] \<longleftrightarrow> skip_slash p = []"
    using path_elems_first [OF _ skip_slash_hd, of p] by (cases "skip_slash p = []") (auto simp: path_elems_def)
  ultimately show ?thesis by simp
qed

text \<open>The steps as names, with a mark on the last one.\<close>

definition step_names :: "(stop + carray \<times> carray) list \<Rightarrow> (u8 list \<times> bool) option list" where
  "step_names ps = map (\<lambda>r. case r of Inl _ \<Rightarrow> None | Inr (n, q) \<Rightarrow> Some (array_name n, hd q = 0)) ps"

fun mark_last :: "u8 list list \<Rightarrow> (u8 list \<times> bool) option list" where
  "mark_last [] = []"
| "mark_last (e # es) = Some (take DIRSIZ e, es = []) # mark_last es"

lemma path_steps_marks:
  assumes "0 \<notin> set p"
  shows "step_names (path_steps (p @ 0 # r) name) = mark_last (path_elems p)"
  using assms
proof (induction "length p" arbitrary: p name rule: less_induct)
  case less
  show ?case
  proof (cases "skip_slash p = []")
    case True
    then have "path_elems p = []" by (simp add: path_elems_Nil)
    then show ?thesis
      using True skipelem_zstr [OF less.prems]
      by (simp add: path_steps.simps [of "p @ 0 # r"] step_names_def)
  next
    case False
    let ?s = "skip_slash p"
    let ?e = "takeWhile (\<lambda>c. c \<noteq> slash) ?s" and ?q = "skip_slash (dropWhile (\<lambda>c. c \<noteq> slash) ?s)"
    have z: "0 \<notin> set ?s" "0 \<notin> set ?e" using less.prems by (auto simp: skip_slash_def dest: set_dropWhileD set_takeWhileD)
    have zq: "0 \<notin> set ?q" using z(1) by (auto simp: skip_slash_def dest!: set_dropWhileD)
    have sk: "skipelem (p @ 0 # r) name = Inr (Some (?q @ 0 # r, put_name ?e name))"
      using skipelem_zstr [OF less.prems] False by simp
    have "length ?q < length p" using skipelem_shorter [OF sk] by simp
    then have ih: "step_names (path_steps (?q @ 0 # r) (put_name ?e name)) = mark_last (path_elems ?q)"
      using less.hyps zq by blast
    have pe: "path_elems p = ?e # path_elems ?q"
      using path_elems_first [OF False skip_slash_hd [OF False]] by (simp add: path_elems_skip)
    have "hd (?q @ 0 # r) = 0 \<longleftrightarrow> ?q = []" using zq by (cases ?q) auto
    moreover have "?q = [] \<longleftrightarrow> path_elems ?q = []"
      using path_elems_Nil [of "dropWhile (\<lambda>c. c \<noteq> slash) ?s"] by (simp add: path_elems_skip)
    ultimately show ?thesis
      using ih pe array_name_put [OF z(2)]
      by (simp add: path_steps.simps [of "p @ 0 # r"] sk step_names_def)
  qed
qed

text \<open>C24. Walking a path. For every NUL-terminated path the repeated calls of \<^verbatim>\<open>skipelem\<close> in \<^verbatim>\<open>namex\<close> end, never read
  past the terminator, and deliver exactly the non-empty pieces between the slashes of the
  reference splitter, in order, each cut to \<^verbatim>\<open>DIRSIZ\<close> bytes; the test \<^verbatim>\<open>*path == 0\<close> by which
  \<^verbatim>\<open>nameiparent\<close> stops one level early holds exactly at the last piece.\<close>

theorem path_walk_splits:
  assumes "zstr path p"
  shows "step_names (path_steps path name) = mark_last (path_elems p)"
  using assms path_steps_marks by (auto simp: zstr_def)

theorem path_walk_splits_witness:
  "step_names (path_steps (map of_char ''//usr/a_very_long_name//x/'' @ [0]) (replicate 14 7)) =
     [Some (map of_char ''usr'', False), Some (map of_char ''a_very_long_na'', False), Some (map of_char ''x'', True)]"
proof -
  have "zstr (map of_char ''//usr/a_very_long_name//x/'' @ [0]) (map of_char ''//usr/a_very_long_name//x/'')"
    by (simp add: zstr_def)
  from path_walk_splits [OF this] show ?thesis by (simp add: path_elems_def slash_def DIRSIZ_def)
qed

end
