(* ===== verification/DirSpec.thy ===== *)
theory DirSpec
  imports FileIo PathSpec
begin

text \<open>
  What the directory operations of \<^verbatim>\<open>kernel/fs.c\<close> do to the names of a directory. The reference is the map from
  names to inode numbers that the bytes of a directory stand for: \<^verbatim>\<open>dirlookup\<close> reads it and \<^verbatim>\<open>dirlink\<close>
  updates it at one name.
\<close>

section \<open>The map a directory stands for\<close>

definition dent :: "u8 list \<Rightarrow> nat \<Rightarrow> u8 list" where
  "dent c i = take DIRENT_SIZE (drop (DIRENT_SIZE * i) c)"

definition ent_inum :: "u8 list \<Rightarrow> u16" where
  "ent_inum e = get16 e 0"

definition ent_name :: "u8 list \<Rightarrow> u8 list" where
  "ent_name e = cname DIRSIZ (drop 2 e)"

definition has_name :: "u8 list \<Rightarrow> u8 list \<Rightarrow> nat \<Rightarrow> bool" where
  "has_name c nm i \<longleftrightarrow> ent_inum (dent c i) \<noteq> 0 \<and> ent_name (dent c i) = nm"

definition dir_find :: "u8 list \<Rightarrow> u8 list \<Rightarrow> nat option" where
  "dir_find c nm = find (has_name c nm) [0..<length c div DIRENT_SIZE]"

definition dir_map :: "u8 list \<Rightarrow> u8 list \<Rightarrow> u16 option" where
  "dir_map c nm = map_option (\<lambda>i. ent_inum (dent c i)) (dir_find c nm)"

text \<open>The entry a new name goes to: the first empty one, or one past the end.\<close>

definition dir_slot :: "u8 list \<Rightarrow> nat" where
  "dir_slot c = (case find (\<lambda>i. ent_inum (dent c i) = 0) [0..<length c div DIRENT_SIZE] of
     None \<Rightarrow> length c div DIRENT_SIZE | Some i \<Rightarrow> i)"

lemma find_append_None: "(\<And>j. j \<in> set ys \<Longrightarrow> \<not> P j) \<Longrightarrow> find P (xs @ ys) = find P xs"
proof (induction xs)
  case Nil
  then show ?case using find_None_iff [of P ys] by auto
qed auto

lemma dent_length: "DIRENT_SIZE * i + DIRENT_SIZE \<le> length c \<Longrightarrow> length (dent c i) = DIRENT_SIZE"
  by (simp add: dent_def)

lemma dent_put:
  assumes "length e = DIRENT_SIZE" and "DIRENT_SIZE * k \<le> length c"
  shows "dent (put_bytes (DIRENT_SIZE * k) e c) k = e"
    and "i \<noteq> k \<Longrightarrow> DIRENT_SIZE * i + DIRENT_SIZE \<le> length c \<Longrightarrow> dent (put_bytes (DIRENT_SIZE * k) e c) i = dent c i"
proof -
  show "dent (put_bytes (DIRENT_SIZE * k) e c) k = e" using assms by (simp add: dent_def put_bytes_def)
  assume "i \<noteq> k" and i: "DIRENT_SIZE * i + DIRENT_SIZE \<le> length c"
  then have "i < k \<or> k < i" by auto
  then show "dent (put_bytes (DIRENT_SIZE * k) e c) i = dent c i"
  proof
    assume "i < k"
    then have "DIRENT_SIZE * i + DIRENT_SIZE \<le> DIRENT_SIZE * k" by (simp add: DIRENT_SIZE_def)
    then show ?thesis using assms by (simp add: dent_def put_bytes_def take_drop)
  next
    assume "k < i"
    then have "DIRENT_SIZE * k + DIRENT_SIZE \<le> DIRENT_SIZE * i" by (simp add: DIRENT_SIZE_def)
    moreover have "DIRENT_SIZE * k - DIRENT_SIZE * i = 0" "DIRENT_SIZE * k \<le> DIRENT_SIZE * i" using \<open>k < i\<close> by simp_all
    ultimately show ?thesis using assms by (simp add: dent_def put_bytes_def)
  qed
qed

lemma dir_slot_cases:
  assumes "DIRENT_SIZE dvd length c"
  shows "dir_slot c < length c div DIRENT_SIZE \<and> ent_inum (dent c (dir_slot c)) = 0 \<or> dir_slot c = length c div DIRENT_SIZE"
    and "DIRENT_SIZE * dir_slot c \<le> length c"
proof -
  show d: "dir_slot c < length c div DIRENT_SIZE \<and> ent_inum (dent c (dir_slot c)) = 0 \<or> dir_slot c = length c div DIRENT_SIZE"
    by (auto simp: dir_slot_def split: option.split dest!: find_SomeD)
  then have "dir_slot c \<le> length c div DIRENT_SIZE" by linarith
  then have "DIRENT_SIZE * dir_slot c \<le> DIRENT_SIZE * (length c div DIRENT_SIZE)" by (simp add: DIRENT_SIZE_def)
  also have "\<dots> \<le> length c" by simp
  finally show "DIRENT_SIZE * dir_slot c \<le> length c" .
qed

lemma in_range_ent: "i < length c div DIRENT_SIZE \<Longrightarrow> DIRENT_SIZE * i + DIRENT_SIZE \<le> length c"
proof -
  assume "i < length c div DIRENT_SIZE"
  then have "DIRENT_SIZE * (i + 1) \<le> DIRENT_SIZE * (length c div DIRENT_SIZE)" by (simp add: DIRENT_SIZE_def)
  also have "\<dots> \<le> length c" by simp
  finally show ?thesis by simp
qed

lemma length_put_slot:
  assumes "length e = DIRENT_SIZE" and "DIRENT_SIZE dvd length c"
  shows "length (put_bytes (DIRENT_SIZE * dir_slot c) e c) div DIRENT_SIZE = max (length c div DIRENT_SIZE) (Suc (dir_slot c))"
proof (cases "dir_slot c = length c div DIRENT_SIZE")
  case True
  then have "DIRENT_SIZE * dir_slot c = length c" using assms(2) by simp
  then show ?thesis using True assms(1) by (simp add: put_bytes_def DIRENT_SIZE_def)
next
  case False
  then have k: "dir_slot c < length c div DIRENT_SIZE" using dir_slot_cases(1) [OF assms(2)] by blast
  then show ?thesis using in_range_ent [OF k] assms(1) by (simp add: max_def)
qed

lemma dir_map_put:
  assumes e: "length e = DIRENT_SIZE" and d: "DIRENT_SIZE dvd length c" and i: "ent_inum e \<noteq> 0"
    and f: "dir_map c (ent_name e) = None"
  shows "dir_map (put_bytes (DIRENT_SIZE * dir_slot c) e c) = (dir_map c)(ent_name e \<mapsto> ent_inum e)"
proof
  fix nm
  let ?k = "dir_slot c" and ?N = "length c div DIRENT_SIZE" and ?c = "put_bytes (DIRENT_SIZE * dir_slot c) e c"
  have len: "length ?c div DIRENT_SIZE = max ?N (Suc ?k)" by (rule length_put_slot [OF e d])
  have same: "dent ?c j = dent c j" if "j < ?N" "j \<noteq> ?k" for j
    using dent_put(2) [OF e dir_slot_cases(2) [OF d] that(2) in_range_ent [OF that(1)]] .
  have new: "dent ?c ?k = e" by (rule dent_put(1) [OF e dir_slot_cases(2) [OF d]])
  have old: "\<not> has_name c nm ?k" if "?k < ?N" for nm using dir_slot_cases(1) [OF d] that by (auto simp: has_name_def)
  show "dir_map ?c nm = ((dir_map c)(ent_name e \<mapsto> ent_inum e)) nm"
  proof (cases "nm = ent_name e")
    case True
    have no: "\<not> has_name c nm j" if "j < ?N" for j
      using f that True by (auto simp: dir_map_def dir_find_def find_None_iff)
    have "has_name ?c nm j \<longleftrightarrow> j = ?k" if "j < max ?N (Suc ?k)" for j
    proof (cases "j = ?k")
      case False
      then have "j < ?N" using that dir_slot_cases(1) [OF d] by (auto simp: max_def split: if_splits)
      then show ?thesis using no [of j] same [of j] False by (simp add: has_name_def)
    qed (use i new True in \<open>simp add: has_name_def\<close>)
    then have "dir_find ?c nm = Some ?k" unfolding dir_find_def len by (intro find_unique) (auto simp: less_max_iff_disj)
    then show ?thesis using True new by (simp add: dir_map_def)
  next
    case False
    have eq: "has_name ?c nm j = has_name c nm j" if "j < ?N" for j
      using same [of j] old [of nm] new False that by (cases "j = ?k") (auto simp: has_name_def)
    have "find (has_name ?c nm) [0..<max ?N (Suc ?k)] = find (has_name ?c nm) [0..<?N]"
    proof (cases "?k < ?N")
      case True
      then have "max ?N (Suc ?k) = ?N" by simp
      then show ?thesis by (simp only:)
    next
      case F: False
      then have k: "?k = ?N" using dir_slot_cases(1) [OF d] by blast
      have "\<not> has_name ?c nm ?N" using new False k by (simp add: has_name_def)
      then show ?thesis using find_append_None [of "[?N]" "has_name ?c nm" "[0..<?N]"] k by simp
    qed
    also have "\<dots> = find (has_name c nm) [0..<?N]" by (rule find_cong) (use eq in simp_all)
    finally have fe: "dir_find ?c nm = dir_find c nm" unfolding dir_find_def len .
    have "dent ?c j = dent c j" if "dir_find c nm = Some j" for j
    proof -
      have "j < ?N" "has_name c nm j" using that find_SomeD [of "has_name c nm" "[0..<?N]" j] by (auto simp: dir_find_def)
      then show ?thesis using same [of j] old [of nm] by (cases "j = ?k") auto
    qed
    then show ?thesis using fe False by (cases "dir_find c nm") (simp_all add: dir_map_def)
  qed
qed

section \<open>Reading the entries\<close>

lemma write_bytes_outside: "\<not> in_range a (length bs) b \<Longrightarrow> write_bytes m a bs b = m b"
  by (simp add: write_bytes_def)

definition dir_ok :: "superblock \<Rightarrow> nat \<Rightarrow> (nat \<Rightarrow> u8 list) \<Rightarrow> inode \<Rightarrow> bool" where
  "dir_ok sp st V x \<longleftrightarrow> fs_layout sp st V \<and> file_ok sp V x \<and> itype x = T_DIR \<and> DIRENT_SIZE dvd unat (isize x)"

lemma dirent_offs_eq:
  assumes "DIRENT_SIZE dvd unat sz"
  shows "dirent_offs sz = map (\<lambda>i. of_nat (DIRENT_SIZE * i)) [0..<unat sz div DIRENT_SIZE]"
proof -
  have "(unat sz + DIRENT_SIZE - 1) div DIRENT_SIZE = unat sz div DIRENT_SIZE"
    using assms by (auto simp: dvd_def DIRENT_SIZE_def)
  then show ?thesis by (simp add: dirent_offs_def)
qed

lemma read_entry:
  assumes t: "txo oc p st n V Map.empty F s" and d: "dir_ok sp st V x" and x: "inodes F dp = x" and n: "n < NBUF"
    and i: "i < unat (isize x) div DIRENT_SIZE"
  shows "\<exists>s' M. readi dp False de (of_nat (DIRENT_SIZE * i)) (of_nat DIRENT_SIZE) s = (Inr (int DIRENT_SIZE), s') \<and>
    txo oc p st n V Map.empty (F\<lparr>mem := M\<rparr>) s' \<and> (\<forall>a. \<not> in_range de DIRENT_SIZE a \<longrightarrow> M a = mem F a) \<and> length (dent (contents V x) i) = DIRENT_SIZE \<and>
    de_inum (mem s') de = ent_inum (dent (contents V x) i) \<and> de_name (mem s') de = drop 2 (dent (contents V x) i)"
proof -
  let ?o = "of_nat (DIRENT_SIZE * i) :: u32" and ?e = "dent (contents V x) i"
  note dd = d [unfolded dir_ok_def]
  have e: "DIRENT_SIZE * i + DIRENT_SIZE \<le> unat (isize x)" using in_range_ent [of i "contents V x"] i by simp
  have sz: "unat (isize x) \<le> 268 * 1024" using dd by (simp add: file_ok_def MAXFILE_val BSIZE_def)
  have o: "unat ?o = DIRENT_SIZE * i" using unat_block [of "DIRENT_SIZE * i"] e sz by simp
  have m: "unat (of_nat DIRENT_SIZE :: u32) = DIRENT_SIZE" by (simp add: DIRENT_SIZE_def)
  have w: "\<not> ?o + of_nat DIRENT_SIZE < ?o"
    using e sz o by (simp add: word_less_nat_alt unat_word_ariths DIRENT_SIZE_def)
  have l: "length ?e = DIRENT_SIZE" using dent_length [of i "contents V x"] e by simp
  obtain s' where s': "readi dp False de ?o (of_nat DIRENT_SIZE) s = (Inr (int DIRENT_SIZE), s')"
      "txo oc p st n V Map.empty (F\<lparr>mem := write_bytes (mem F) de ?e\<rparr>) s'"
    using readi_run [OF t _ x _ n _ w, of sp de] dd o m e by (auto simp: word_le_nat_alt dent_def)
  have "read_bytes (mem s') de DIRENT_SIZE = ?e"
    using tx_fields(1) [OF s'(2)] read_write_bytes [of ?e "mem F" de] l by (simp add: DIRENT_SIZE_def)
  then show ?thesis
    using s' l write_bytes_outside [of de ?e _ "mem F"]
    by (intro exI [of _ s'] exI [of _ "write_bytes (mem F) de ?e"]) (simp add: de_inum_def de_name_def ent_inum_def)
qed

lemma dirlookup_loop_run:
  assumes "txo oc p st n V Map.empty F s" and d: "dir_ok sp st V x" and "inodes F dp = x" and n: "n < NBUF" and nm: "DIRSIZ \<le> length name"
    and "\<forall>i \<in> set is. i < unat (isize x) div DIRENT_SIZE"
  shows "\<exists>s' M. dirlookup_loop de dp name (map (\<lambda>i. of_nat (DIRENT_SIZE * i)) is) s =
      (case find (has_name (contents V x) (cname DIRSIZ name)) is of None \<Rightarrow> kret None
       | Some i \<Rightarrow> kbind (iget (idev x) (ucast (ent_inum (dent (contents V x) i)))) (\<lambda>j. kret (Some (j, of_nat (DIRENT_SIZE * i))))) s' \<and>
    txo oc p st n V Map.empty (F\<lparr>mem := M\<rparr>) s' \<and> (\<forall>a. \<not> in_range de DIRENT_SIZE a \<longrightarrow> M a = mem F a)"
  using assms(1,3,6)
proof (induction "is" arbitrary: F s)
  case Nil
  then show ?case by (intro exI [of _ s] exI [of _ "mem F"]) simp
next
  case (Cons i "is")
  let ?e = "dent (contents V x) i"
  obtain s1 M where s1: "readi dp False de (of_nat (DIRENT_SIZE * i)) (of_nat DIRENT_SIZE) s = (Inr (int DIRENT_SIZE), s1)"
      "txo oc p st n V Map.empty (F\<lparr>mem := M\<rparr>) s1" "de_inum (mem s1) de = ent_inum ?e" "de_name (mem s1) de = drop 2 ?e"
      and l: "length ?e = DIRENT_SIZE" and fr: "\<forall>a. \<not> in_range de DIRENT_SIZE a \<longrightarrow> M a = mem F a"
    using read_entry [OF Cons.prems(1) d Cons.prems(2) n, of i de] Cons.prems(3) by auto
  have x1: "inodes s1 dp = x" using tx_inodes(1) [OF s1(2)] Cons.prems(2) by simp
  obtain v where v: "namecmp name (drop 2 ?e) = Some v" "v = 0 \<longleftrightarrow> ent_name ?e = cname DIRSIZ name"
    using strncmp_cname [of DIRSIZ name "drop 2 ?e"] nm l by (auto simp: namecmp_def ent_name_def DIRSIZ_def DIRENT_SIZE_def)
  show ?case
  proof (cases "has_name (contents V x) (cname DIRSIZ name) i")
    case True
    then show ?thesis
      using s1 v x1 fr by (intro exI [of _ s1] exI [of _ M]) (simp add: has_name_def)
  next
    case False
    then have "dirlookup_loop de dp name (map (\<lambda>i. of_nat (DIRENT_SIZE * i)) (i # is)) s =
        dirlookup_loop de dp name (map (\<lambda>i. of_nat (DIRENT_SIZE * i)) is) s1"
      using s1 v by (auto simp: has_name_def)
    then show ?thesis using Cons.IH [OF s1(2)] Cons.prems(2,3) False fr by auto
  qed
qed

lemma dirlink_scan_run:
  assumes "tx p st n V Map.empty F s" and d: "dir_ok sp st V x" and "inodes F dp = x" and n: "n < NBUF"
    and "\<forall>i \<in> set is. i < unat (isize x) div DIRENT_SIZE"
  shows "\<exists>s' M. dirlink_scan de dp (map (\<lambda>i. of_nat (DIRENT_SIZE * i)) is) e s =
      (Inr (case find (\<lambda>i. ent_inum (dent (contents V x) i) = 0) is of None \<Rightarrow> e | Some i \<Rightarrow> of_nat (DIRENT_SIZE * i)), s') \<and>
    tx p st n V Map.empty (F\<lparr>mem := M\<rparr>) s' \<and> (\<forall>a. \<not> in_range de DIRENT_SIZE a \<longrightarrow> M a = mem F a)"
  using assms(1,3,5)
proof (induction "is" arbitrary: F s)
  case Nil
  then show ?case by (intro exI [of _ s] exI [of _ "mem F"]) simp
next
  case (Cons i "is")
  obtain s1 M where s1: "readi dp False de (of_nat (DIRENT_SIZE * i)) (of_nat DIRENT_SIZE) s = (Inr (int DIRENT_SIZE), s1)"
      "tx p st n V Map.empty (F\<lparr>mem := M\<rparr>) s1" "de_inum (mem s1) de = ent_inum (dent (contents V x) i)"
      "\<forall>a. \<not> in_range de DIRENT_SIZE a \<longrightarrow> M a = mem F a"
    using read_entry [OF Cons.prems(1) d Cons.prems(2) n, of i de] Cons.prems(3) by auto
  show ?case
  proof (cases "ent_inum (dent (contents V x) i) = 0")
    case True
    then show ?thesis using s1 by (intro exI [of _ s1] exI [of _ M]) simp
  next
    case False
    then have "dirlink_scan de dp (map (\<lambda>i. of_nat (DIRENT_SIZE * i)) (i # is)) e s =
        dirlink_scan de dp (map (\<lambda>i. of_nat (DIRENT_SIZE * i)) is) e s1"
      using s1 by simp
    then show ?thesis using Cons.IH [OF s1(2)] Cons.prems(2,3) False s1(4) by auto
  qed
qed

lemma dirlookup_run:
  assumes t: "txo oc p st n V Map.empty F s" and d: "dir_ok sp st V x" and x: "inodes F dp = x" and n: "n < NBUF" and nm: "DIRSIZ \<le> length name"
  shows "\<exists>s' M. dirlookup de dp name s =
      (case dir_find (contents V x) (cname DIRSIZ name) of None \<Rightarrow> kret None
       | Some i \<Rightarrow> kbind (iget (idev x) (ucast (ent_inum (dent (contents V x) i)))) (\<lambda>j. kret (Some (j, of_nat (DIRENT_SIZE * i))))) s' \<and>
    txo oc p st n V Map.empty (F\<lparr>mem := M\<rparr>) s' \<and> (\<forall>a. \<not> in_range de DIRENT_SIZE a \<longrightarrow> M a = mem F a)"
proof -
  have s: "inodes s dp = x" using tx_inodes(1) [OF t] x by simp
  have "dirlookup de dp name s = dirlookup_loop de dp name (map (\<lambda>i. of_nat (DIRENT_SIZE * i)) [0..<unat (isize x) div DIRENT_SIZE]) s"
    using s d dirent_offs_eq [of "isize x"] by (simp add: dirlookup_def dir_ok_def)
  then show ?thesis
    using dirlookup_loop_run [OF t d x n nm, of "[0..<unat (isize x) div DIRENT_SIZE]" de] by (simp add: dir_find_def)
qed

section \<open>Writing an entry\<close>

text \<open>The entry that \<^verbatim>\<open>dirlink\<close> builds in its local variable.\<close>

lemma built_entry:
  assumes "length bs = 2" and "length r = DIRSIZ"
  shows "read_bytes (write_bytes (write_bytes m (de + 2) r) de bs) de DIRENT_SIZE = bs @ r"
proof (rule nth_equalityI)
  fix k assume "k < length (read_bytes (write_bytes (write_bytes m (de + 2) r) de bs) de DIRENT_SIZE)"
  then have k: "k < 16" by (simp add: DIRENT_SIZE_def)
  have u: "unat (of_nat k :: u64) = k" using k by (simp add: unat_of_nat)
  have "unat (de + of_nat k - (de + 2)) = k - 2" if "2 \<le> k"
  proof -
    have "de + of_nat k - (de + 2) = of_nat (k - 2)" using that by (simp add: of_nat_diff)
    then show ?thesis using k by (simp add: unat_of_nat)
  qed
  then show "read_bytes (write_bytes (write_bytes m (de + 2) r) de bs) de DIRENT_SIZE ! k = (bs @ r) ! k"
    using assms k u by (auto simp: read_bytes_def write_bytes_def in_range_def DIRENT_SIZE_def DIRSIZ_def nth_append)
qed (use assms in \<open>simp add: DIRENT_SIZE_def DIRSIZ_def\<close>)

lemma chunks_entry: "chunks (DIRENT_SIZE * k) DIRENT_SIZE = [(DIRENT_SIZE * k, DIRENT_SIZE)]"
proof -
  have "DIRENT_SIZE * k mod BSIZE = 16 * (k mod 64)" using mult_mod_right [of 16 k 64] by (simp add: DIRENT_SIZE_def BSIZE_def)
  moreover have "k mod 64 < 64" by simp
  ultimately have "DIRENT_SIZE \<le> BSIZE - DIRENT_SIZE * k mod BSIZE" by (simp add: DIRENT_SIZE_def BSIZE_def)
  then have "min DIRENT_SIZE (BSIZE - DIRENT_SIZE * k mod BSIZE) = DIRENT_SIZE" by simp
  then show ?thesis by (simp add: chunks.simps [of "DIRENT_SIZE * k" DIRENT_SIZE] Let_def) (simp add: chunks.simps DIRENT_SIZE_def)
qed

lemma in_range_inner: "in_range (a + 2) 14 b \<Longrightarrow> in_range a 16 b" for a b :: addr
proof -
  assume r: "in_range (a + 2) 14 b"
  have "b - a = (b - (a + 2)) + 2" by simp
  then have "unat (b - a) = unat (b - (a + 2)) + 2"
    using r unat_add_lem [of "b - (a + 2)" 2] by (simp add: in_range_def)
  then show ?thesis using r by (simp add: in_range_def)
qed

lemma ent_built:
  assumes "length r = DIRSIZ"
  shows "length (le_bytes 2 (unat i) @ r) = DIRENT_SIZE" and "ent_inum (le_bytes 2 (unat i) @ r) = ucast (i :: u32)"
    and "ent_name (le_bytes 2 (unat i) @ r) = cname DIRSIZ r"
proof -
  show "length (le_bytes 2 (unat i) @ r) = DIRENT_SIZE" using assms by (simp add: DIRENT_SIZE_def DIRSIZ_def)
  show "ent_name (le_bytes 2 (unat i) @ r) = cname DIRSIZ r" by (simp add: ent_name_def)
  have "unat (of_nat (unat i mod 2 ^ 16) :: u16) = unat (ucast i :: u16)"
    by (simp add: unat_of_nat unsigned_ucast_eq take_bit_eq_mod)
  then show "ent_inum (le_bytes 2 (unat i) @ r) = ucast i"
    by (simp add: ent_inum_def get16_def le_val_le_bytes word_unat_eq_iff)
qed

lemma dir_ok_put:
  assumes "dir_ok sp st V x" and "fs_layout sp st V'" and "file_ok sp V' x'" and "itype x' = T_DIR" and "length e = DIRENT_SIZE"
    and "contents V' x' = put_bytes (DIRENT_SIZE * k) e (contents V x)" and "DIRENT_SIZE * k \<le> unat (isize x)"
  shows "dir_ok sp st V' x'"
proof -
  have "unat (isize x') = max (unat (isize x)) (DIRENT_SIZE * k + DIRENT_SIZE)"
    using arg_cong [OF assms(6), of length] assms(5,7) by (simp add: put_bytes_def)
  moreover have "DIRENT_SIZE dvd unat (isize x)" using assms(1) by (simp add: dir_ok_def)
  ultimately have "DIRENT_SIZE dvd unat (isize x')" by (simp add: max_def)
  then show ?thesis using assms(2-4) by (simp add: dir_ok_def)
qed

text \<open>A name that is not in the directory.\<close>

lemma dirlink_run:
  assumes t: "tx p st n V Map.empty F s" and sp: "sb F = sp" and d: "dir_ok sp st V x" and x: "inodes F dp = x"
    and ib: "inode_block_ok sp st V x" and nm: "DIRSIZ \<le> length name" and i: "ucast (i :: u32) \<noteq> (0 :: u16)"
    and n: "n + 6 < LOGBLOCKS" and fr: "2 \<le> free_cnt sp V" and sz: "unat (isize x) + DIRENT_SIZE \<le> MAXFILE * BSIZE"
    and f: "dir_map (contents V x) (cname DIRSIZ name) = None"
  shows "\<exists>s' V' x' M. dirlink fr dp name i s = (Inr 0, s') \<and> tx p st (n + 7) V' Map.empty (upd_inode dp (\<lambda>_. x') (F\<lparr>mem := M\<rparr>)) s' \<and>
    dir_ok sp st V' x' \<and> dir_map (contents V' x') = (dir_map (contents V x))(cname DIRSIZ name \<mapsto> ucast i) \<and>
    disk_fields (load_dinode (V' (inode_block sp x)) (dinode_at (inum x)) x) = disk_fields x' \<and>
    (\<forall>b. blk_ok sp V b \<and> b \<notin> own V x \<longrightarrow> V' b = V b) \<and> x' = x\<lparr>isize := isize x', iaddrs := iaddrs x'\<rparr> \<and>
    (\<forall>a. \<not> in_range (fr_lookup fr) DIRENT_SIZE a \<longrightarrow> \<not> in_range (fr_link fr) DIRENT_SIZE a \<longrightarrow> M a = mem F a)"
proof -
  let ?c = "contents V x" and ?de = "fr_link fr" and ?N = "unat (isize x) div DIRENT_SIZE" and ?k = "dir_slot (contents V x)"
  let ?bs = "le_bytes 2 (unat i)" and ?off = "of_nat (DIRENT_SIZE * dir_slot (contents V x)) :: u32"
  have nb: "n < NBUF" "n + 6 < NBUF" using n by (simp_all add: NBUF_def LOGBLOCKS_def)
  have dv: "DIRENT_SIZE dvd length ?c" using d by (simp add: dir_ok_def)
  obtain s1 M1 where s1: "dirlookup (fr_lookup fr) dp name s = (Inr None, s1)" "tx p st n V Map.empty (F\<lparr>mem := M1\<rparr>) s1"
      "\<forall>a. \<not> in_range (fr_lookup fr) DIRENT_SIZE a \<longrightarrow> M1 a = mem F a"
    using dirlookup_run [OF t d x nb(1) nm, of "fr_lookup fr"] f by (auto simp: dir_map_def)
  obtain s2 M2 where s2: "dirlink_scan ?de dp (map (\<lambda>i. of_nat (DIRENT_SIZE * i)) [0..<?N]) (of_nat (DIRENT_SIZE * ?N)) s1 = (Inr ?off, s2)"
      "tx p st n V Map.empty (F\<lparr>mem := M2\<rparr>) s2" "\<forall>a. \<not> in_range ?de DIRENT_SIZE a \<longrightarrow> M2 a = M1 a"
    using dirlink_scan_run [OF s1(2) d _ nb(1), of dp "[0..<?N]" ?de "of_nat (DIRENT_SIZE * ?N)"] x
    by (auto simp: dir_slot_def option.case_distrib [of "\<lambda>k. of_nat DIRENT_SIZE * of_nat k :: u32"] cong: option.case_cong)
  have "length (de_name M2 ?de) = DIRSIZ" by (simp add: de_name_def DIRENT_SIZE_def DIRSIZ_def)
  then obtain r where r: "strncpy (de_name M2 ?de) name DIRSIZ = Some r" "length r = DIRSIZ" "cname DIRSIZ r = cname DIRSIZ name"
    using strncpy_cname [of DIRSIZ "de_name M2 ?de" name] nm by auto
  let ?M = "write_bytes (write_bytes M2 (?de + 2) r) ?de ?bs"
  have s3: "tx p st n V Map.empty (F\<lparr>mem := ?M\<rparr>) (s2\<lparr>mem := ?M\<rparr>)" using tx_mem [OF s2(2), of ?M] by simp
  have k: "DIRENT_SIZE * ?k \<le> unat (isize x)" using dir_slot_cases(2) [OF dv] by simp
  have o: "unat ?off = DIRENT_SIZE * ?k" "unat (of_nat DIRENT_SIZE :: u32) = DIRENT_SIZE"
    using unat_block [of "DIRENT_SIZE * ?k"] unat_block [of DIRENT_SIZE] k sz by (simp_all add: MAXFILE_val BSIZE_def DIRENT_SIZE_def)
  have w: "\<not> ?off + of_nat DIRENT_SIZE < ?off" "?off \<le> isize x" "unat ?off + unat (of_nat DIRENT_SIZE :: u32) \<le> MAXFILE * BSIZE"
    using k sz o by (simp_all add: word_less_nat_alt word_le_nat_alt unat_word_ariths MAXFILE_val BSIZE_def DIRENT_SIZE_def)
  note e = ent_built [OF r(2), of i]
  have rb: "read_bytes (mem (F\<lparr>mem := ?M\<rparr>)) ?de DIRENT_SIZE = ?bs @ r"
    using built_entry [of ?bs r M2 ?de] r(2) by simp
  have ok: "fs_layout sp st V" "file_ok sp V x" "itype x = T_DIR" using d by (simp_all add: dir_ok_def)
  have F: "sb (F\<lparr>mem := ?M\<rparr>) = sp" "inodes (F\<lparr>mem := ?M\<rparr>) dp = x" using sp x by simp_all
  have l1: "length (chunks (DIRENT_SIZE * ?k) DIRENT_SIZE) = 1" unfolding chunks_entry by simp
  have n7: "Suc (n + 6 * 1) = n + 7" by simp
  have nl: "n + 6 * length (chunks (unat ?off) (unat (of_nat DIRENT_SIZE :: u32))) < NBUF"
      "n + 6 * length (chunks (unat ?off) (unat (of_nat DIRENT_SIZE :: u32))) < LOGBLOCKS"
      "2 * length (chunks (unat ?off) (unat (of_nat DIRENT_SIZE :: u32))) \<le> free_cnt sp V"
    unfolding o l1 using n nb fr by simp_all
  obtain s' V' x' where wr: "writei dp False ?de ?off (of_nat DIRENT_SIZE) (s2\<lparr>mem := ?M\<rparr>) = (Inr (int DIRENT_SIZE), s')"
      "tx p st (n + 7) V' Map.empty (upd_inode dp (\<lambda>_. x') (F\<lparr>mem := ?M\<rparr>)) s'" "fs_layout sp st V'" "file_ok sp V' x'"
      "contents V' x' = put_bytes (DIRENT_SIZE * ?k) (?bs @ r) ?c"
      "disk_fields (load_dinode (V' (inode_block sp x)) (dinode_at (inum x)) x) = disk_fields x'"
      "\<forall>b. blk_ok sp V b \<and> b \<notin> own V x \<longrightarrow> V' b = V b" "x' = x\<lparr>isize := isize x', iaddrs := iaddrs x'\<rparr>"
    using writei_run [OF s3 F(1) ok(1) F(2) ok(2) ib w(2,1,3) nl, of ?de, unfolded o l1 rb n7] by (elim exE conjE) (rule that)
  have ty: "itype x' = T_DIR" using ok(3) arg_cong [OF wr(8), of itype] by simp
  have "dir_ok sp st V' x'" by (rule dir_ok_put [OF d wr(3,4) ty e(1) wr(5) k])
  moreover have "dir_map (contents V' x') = (dir_map ?c)(cname DIRSIZ name \<mapsto> ucast i)"
    using dir_map_put [OF e(1) dv, unfolded e(2,3) r(3), OF i f] wr(5) by simp
  moreover have "?M a = mem F a" if "\<not> in_range (fr_lookup fr) DIRENT_SIZE a" "\<not> in_range ?de DIRENT_SIZE a" for a
  proof -
    have "\<not> in_range (?de + 2) 14 a" "\<not> in_range ?de 2 a" using that(2) in_range_inner [of ?de a] by (auto simp: in_range_def DIRENT_SIZE_def)
    then show ?thesis using that s1(3) s2(3) r(2) by (simp add: write_bytes_def DIRSIZ_def)
  qed
  moreover have "dirlink fr dp name i s = (Inr 0, s')"
    using s1(1) s2(1) r(1) wr(1) tx_inodes(1) [OF s1(2)] x tx_fields(1) [OF s2(2)] dirent_offs_eq [of "isize x"] dv
    by (simp add: dirlink_def Let_def)
  ultimately show ?thesis using wr(2,6-8) by blast
qed

text \<open>A name that is in the directory.\<close>

lemma dirlookup_found:
  assumes t: "txo oc p st n V Map.empty F s" and d: "dir_ok sp st V x" and x: "inodes F dp = x" and n: "n < NBUF" and nm: "DIRSIZ \<le> length name"
    and it: "itable_ok (inodes F)" "lock_idle (itable_lock F)" "current_proc F = Some p" "\<exists>j < NINODE. iref (inodes F j) = 0"
    and k: "dir_map (contents V x) (cname DIRSIZ name) = Some k"
  shows "\<exists>j i t s' M. dirlookup de dp name s = (Inr (Some (j, of_nat (DIRENT_SIZE * i))), s') \<and> txo oc p st n V Map.empty (F\<lparr>mem := M, inodes := t\<rparr>) s' \<and>
    (\<forall>a. \<not> in_range de DIRENT_SIZE a \<longrightarrow> M a = mem F a) \<and> has_name (contents V x) (cname DIRSIZ name) i \<and> ent_inum (dent (contents V x) i) = k \<and>
    j < NINODE \<and> (\<forall>l. l \<noteq> j \<longrightarrow> t l = inodes F l) \<and> idev (t j) = idev x \<and> inum (t j) = ucast k \<and>
    0 < iref (t j) \<and> \<not> (iref (t j) = 1 \<and> ivalid (t j)) \<and> itable_ok t \<and>
    refs t = (refs (inodes F))((idev x, ucast k) := refs (inodes F) (idev x, ucast k) + 1)"
proof -
  let ?c = "contents V x" and ?nm = "cname DIRSIZ name"
  obtain i where i: "dir_find ?c ?nm = Some i" "ent_inum (dent ?c i) = k" using k by (auto simp: dir_map_def)
  obtain s1 M where s1: "dirlookup de dp name s = kbind (iget (idev x) (ucast k)) (\<lambda>j. kret (Some (j, of_nat (DIRENT_SIZE * i)))) s1"
      "txo oc p st n V Map.empty (F\<lparr>mem := M\<rparr>) s1" "\<forall>a. \<not> in_range de DIRENT_SIZE a \<longrightarrow> M a = mem F a"
    using dirlookup_run [OF t d x n nm, of de] i by auto
  have h: "has_name ?c ?nm i" using i(1) find_SomeD [of "has_name ?c ?nm" _ i] by (auto simp: dir_find_def)
  have f: "inodes s1 = inodes F" "itable_lock s1 = itable_lock F" "current_proc s1 = Some p"
    using tx_inodes [OF s1(2)] tx_fields(2) [OF s1(2)] it(3) by simp_all
  obtain j y where g: "iget (idev x) (ucast k) s1 = (Inr j, s1\<lparr>inodes := (inodes F)(j := y)\<rparr>)" "j < NINODE" "idev y = idev x" "inum y = ucast k"
      "0 < iref y" "\<not> (iref y = 1 \<and> ivalid y)" "itable_ok ((inodes F)(j := y))"
      "refs ((inodes F)(j := y)) = (refs (inodes F))((idev x, ucast k) := refs (inodes F) (idev x, ucast k) + 1)"
    using iget_counts [of s1 p "idev x" "ucast k"] f it by auto
  have "txo oc p st n V Map.empty (F\<lparr>mem := M, inodes := (inodes F)(j := y)\<rparr>) (s1\<lparr>inodes := (inodes F)(j := y)\<rparr>)"
    using tx_inode [OF s1(2), of j "\<lambda>_. y"] f(1) by (simp add: upd_inode_def)
  moreover have "dirlookup de dp name s = (Inr (Some (j, of_nat (DIRENT_SIZE * i))), s1\<lparr>inodes := (inodes F)(j := y)\<rparr>)"
    using s1(1) g(1) by simp
  ultimately show ?thesis using s1(3) g h i(2)
    by (intro exI [of _ j] exI [of _ i] exI [of _ "(inodes F)(j := y)"] exI [of _ "s1\<lparr>inodes := (inodes F)(j := y)\<rparr>"] exI [of _ M]) simp
qed

lemma tx_itable:
  assumes t: "txo oc p st n V H F s"
  shows "txo oc p st n V H (F\<lparr>inodes := t\<rparr>) (s\<lparr>inodes := t\<rparr>)"
proof -
  have k: "key (s\<lparr>inodes := t\<rparr>) = key s" by (simp add: key_def fun_eq_iff)
  then have b: "buf_of (s\<lparr>inodes := t\<rparr>) = buf_of s" "buf_ok (s\<lparr>inodes := t\<rparr>) p = buf_ok s p" "one_buf (s\<lparr>inodes := t\<rparr>) = one_buf s"
    by (simp_all add: buf_of_def buf_ok_def one_buf_def Let_def fun_eq_iff)
  have "frame (s\<lparr>inodes := t\<rparr>) = F\<lparr>inodes := t\<rparr>" using tx_frame [OF t] by (auto simp: frame_def)
  moreover have "abs_cache (s\<lparr>inodes := t\<rparr>) = abs_cache s" using k b by (simp add: abs_cache_def cong: option.case_cong if_cong)
  moreover have "cache_inv (s\<lparr>inodes := t\<rparr>) p = cache_inv s p" using b by (simp add: cache_inv_def quiet_def vq_idle_def)
  ultimately show ?thesis using tx_outside [OF t, of "s\<lparr>inodes := t\<rparr>"] by simp
qed

lemma dirlink_exists:
  assumes t: "tx p st n V Map.empty F s" and d: "dir_ok sp st V x" and x: "inodes F dp = x" and n: "n < NBUF" and nm: "DIRSIZ \<le> length name"
    and it: "itable_ok (inodes F)" "lock_idle (itable_lock F)" "current_proc F = Some p" "\<exists>j < NINODE. iref (inodes F j) = 0"
    and k: "dir_map (contents V x) (cname DIRSIZ name) = Some k"
  shows "\<exists>s' M t. dirlink fr dp name i s = (Inr (- 1), s') \<and> tx p st n V Map.empty (F\<lparr>mem := M, inodes := t\<rparr>) s' \<and>
    itable_ok t \<and> refs t = refs (inodes F) \<and> (\<forall>a. \<not> in_range (fr_lookup fr) DIRENT_SIZE a \<longrightarrow> M a = mem F a)"
proof -
  obtain j o1 T s1 M where r: "dirlookup (fr_lookup fr) dp name s = (Inr (Some (j, of_nat (DIRENT_SIZE * o1))), s1)"
      "tx p st n V Map.empty (F\<lparr>mem := M, inodes := T\<rparr>) s1" "\<forall>a. \<not> in_range (fr_lookup fr) DIRENT_SIZE a \<longrightarrow> M a = mem F a"
      "j < NINODE" "idev (T j) = idev x" "inum (T j) = ucast k" "0 < iref (T j)" "\<not> (iref (T j) = 1 \<and> ivalid (T j))" "itable_ok T"
      "refs T = (refs (inodes F))((idev x, ucast k) := refs (inodes F) (idev x, ucast k) + 1)"
    using dirlookup_found [OF assms, of "fr_lookup fr"] by blast
  have f: "inodes s1 = T" "itable_lock s1 = itable_lock F" "current_proc s1 = Some p"
    using tx_inodes [OF r(2)] tx_fields(2) [OF r(2)] it(3) by simp_all
  obtain t' where p: "iput j s1 = (Inr (), s1\<lparr>inodes := t'\<rparr>)" "itable_ok t'" "refs t' = (refs T)((idev x, ucast k) := refs T (idev x, ucast k) - 1)"
    using iput_counts [of s1 p j "(idev x, ucast k)"] f r(4-9) it(2) by auto
  have "tx p st n V Map.empty (F\<lparr>mem := M, inodes := t'\<rparr>) (s1\<lparr>inodes := t'\<rparr>)" using tx_itable [OF r(2), of t'] by simp
  moreover have "refs t' = refs (inodes F)" using p(3) r(10) by (simp add: fun_eq_iff)
  moreover have "dirlink fr dp name i s = (Inr (- 1), s1\<lparr>inodes := t'\<rparr>)" using r(1) p(1) by (simp add: dirlink_def)
  ultimately show ?thesis using p(2) r(3) by auto
qed

section \<open>A concrete directory\<close>

text \<open>An empty directory in the first entry of the inode table, the other entries free; the name \<^verbatim>\<open>ab\<close>.\<close>

definition demo_dir :: inode where
  "demo_dir = demo_inode\<lparr>itype := T_DIR\<rparr>"

definition demo_dir_st :: kino where
  "demo_dir_st = demo_ino\<lparr>inodes := (\<lambda>j. if j = 0 then demo_dir else demo_inode\<lparr>iref := 0\<rparr>)\<rparr>"

definition demo_name :: carray where
  "demo_name = [97, 98] @ replicate 12 0"

definition demo_frames :: frames where
  "demo_frames = \<lparr>fr_lookup = 0x80100000, fr_link = 0x80100100, fr_unlink = 0x80100200, fr_name = replicate 14 0\<rparr>"

lemma demo_dir_tx: "tx 1 2 0 (zero_disk(45 := demo_bitmap)) Map.empty (frame demo_dir_st) demo_dir_st"
proof -
  have "frame demo_dir_st = (frame demo_ino)\<lparr>inodes := inodes demo_dir_st\<rparr>" by (simp add: demo_dir_st_def frame_def)
  then show ?thesis using tx_itable [OF demo_ino_tx, of "inodes demo_dir_st"] by (simp add: demo_dir_st_def)
qed

lemma demo_dir_fields:
  "sb (frame demo_dir_st) = demo_sb" "inodes (frame demo_dir_st) 0 = demo_dir" "inodes (frame demo_dir_st) = inodes demo_dir_st"
  "lock_idle (itable_lock (frame demo_dir_st))" "current_proc (frame demo_dir_st) = Some 1"
  by (simp_all add: frame_def demo_dir_st_def demo_ino_def klog.extend_def demo_log_def kdisk.extend_def demo_disk_defs lock_idle_def)

lemma demo_dir_ok: "dir_ok demo_sb 2 (zero_disk(45 := demo_bitmap)) demo_dir" "inode_block_ok demo_sb 2 (zero_disk(45 := demo_bitmap)) demo_dir"
  "contents V demo_dir = []" "unat (isize demo_dir) = 0" "idev demo_dir = ROOTDEV"
proof -
  have "ablk V demo_dir = ablk V demo_inode" for V by (simp add: fun_eq_iff ablk_def addr_at_def demo_dir_def)
  then have "file_ok demo_sb (zero_disk(45 := demo_bitmap)) demo_dir" using demo_file [of "zero_disk(45 := demo_bitmap)"] by (simp add: file_ok_def demo_dir_def)
  then show "dir_ok demo_sb 2 (zero_disk(45 := demo_bitmap)) demo_dir" using demo_layout by (simp add: dir_ok_def) (simp add: demo_dir_def demo_inode_def)
  show "inode_block_ok demo_sb 2 (zero_disk(45 := demo_bitmap)) demo_dir"
    using demo_inode_block by (simp add: inode_block_ok_def inode_block_def demo_dir_def)
  show "contents V demo_dir = []" "unat (isize demo_dir) = 0" "idev demo_dir = ROOTDEV" by (simp_all add: contents_def demo_dir_def demo_inode_def)
qed

lemma demo_itable: "itable_ok (inodes demo_dir_st)" "\<exists>j < NINODE. iref (inodes demo_dir_st j) = 0"
  by (auto simp: itable_ok_def demo_dir_st_def demo_dir_def demo_inode_def NINODE_def intro!: exI [of _ 1])

lemma demo_name_props: "DIRSIZ \<le> length demo_name" "cname DIRSIZ demo_name = [97, 98]"
  by (simp_all add: demo_name_def DIRSIZ_def cname_def)

section \<open>Main theorems\<close>

text \<open>A directory is a map from names to inode numbers, and \<^verbatim>\<open>dirlookup\<close> reads it: inside a transaction, with an
  entry of the inode table free, it returns null for a name that is not in the map; for one that is, an entry of the inode
  table that holds the inode with that number, with one more reference to it and to no other, and the offset of a
  directory entry with that name and number. Names are compared on their first 14 bytes up to a NUL. Nothing on disk
  and no memory outside the local directory entry changes.\<close>

theorem dirlookup_reads_map:
  assumes "tx p st n V Map.empty F s" and "dir_ok sp st V x" and "inodes F dp = x" and "n < NBUF" and "DIRSIZ \<le> length name"
    and "itable_ok (inodes F)" and "lock_idle (itable_lock F)" and "current_proc F = Some p" and "\<exists>j < NINODE. iref (inodes F j) = 0"
  shows "\<exists>r s' M t. dirlookup de dp name s = (Inr r, s') \<and> tx p st n V Map.empty (F\<lparr>mem := M, inodes := t\<rparr>) s' \<and>
    (\<forall>a. \<not> in_range de DIRENT_SIZE a \<longrightarrow> M a = mem F a) \<and>
    (case dir_map (contents V x) (cname DIRSIZ name) of
       None \<Rightarrow> r = None \<and> t = inodes F
     | Some k \<Rightarrow> \<exists>j i. r = Some (j, of_nat (DIRENT_SIZE * i)) \<and> has_name (contents V x) (cname DIRSIZ name) i \<and> ent_inum (dent (contents V x) i) = k \<and>
         j < NINODE \<and> (\<forall>l. l \<noteq> j \<longrightarrow> t l = inodes F l) \<and> idev (t j) = idev x \<and> inum (t j) = ucast k \<and> itable_ok t \<and>
         refs t = (refs (inodes F))((idev x, ucast k) := refs (inodes F) (idev x, ucast k) + 1))"
proof (cases "dir_map (contents V x) (cname DIRSIZ name)")
  case None
  obtain s1 M where "dirlookup de dp name s = (Inr None, s1)" "tx p st n V Map.empty (F\<lparr>mem := M\<rparr>) s1"
      "\<forall>a. \<not> in_range de DIRENT_SIZE a \<longrightarrow> M a = mem F a"
    using dirlookup_run [OF assms(1-5), of de] None by (auto simp: dir_map_def)
  then show ?thesis using None by (intro exI [of _ None] exI [of _ s1] exI [of _ M] exI [of _ "inodes F"]) simp
next
  case (Some k)
  obtain j i T s1 M where r: "dirlookup de dp name s = (Inr (Some (j, of_nat (DIRENT_SIZE * i))), s1)"
      "tx p st n V Map.empty (F\<lparr>mem := M, inodes := T\<rparr>) s1" "\<forall>a. \<not> in_range de DIRENT_SIZE a \<longrightarrow> M a = mem F a"
      "has_name (contents V x) (cname DIRSIZ name) i \<and> ent_inum (dent (contents V x) i) = k \<and> j < NINODE \<and> (\<forall>l. l \<noteq> j \<longrightarrow> T l = inodes F l) \<and>
         idev (T j) = idev x \<and> inum (T j) = ucast k \<and> itable_ok T \<and> refs T = (refs (inodes F))((idev x, ucast k) := refs (inodes F) (idev x, ucast k) + 1)"
    using dirlookup_found [OF assms Some, of de] by blast
  then show ?thesis unfolding Some option.case by blast
qed

theorem dirlookup_reads_map_witness:
  "\<exists>s1 s2 j off. dirlink demo_frames 0 demo_name 7 demo_dir_st = (Inr 0, s1) \<and> dirlookup 0x80100000 0 demo_name s1 = (Inr (Some (j, off)), s2) \<and>
     inum (inodes s2 j) = 7"
proof -
  let ?F = "frame demo_dir_st"
  have z: "dir_map (contents V demo_dir) nm = None" for V nm by (simp add: demo_dir_ok(3) dir_map_def dir_find_def)
  obtain s1 V' x' M where r: "dirlink demo_frames 0 demo_name 7 demo_dir_st = (Inr 0, s1)"
      "tx 1 2 (0 + 7) V' Map.empty (upd_inode 0 (\<lambda>_. x') (?F\<lparr>mem := M\<rparr>)) s1" "dir_ok demo_sb 2 V' x'"
      "dir_map (contents V' x') (cname DIRSIZ demo_name) = Some 7" "x' = demo_dir\<lparr>isize := isize x', iaddrs := iaddrs x'\<rparr>"
    using dirlink_run [where fr = demo_frames and i = 7, OF demo_dir_tx demo_dir_fields(1) demo_dir_ok(1) demo_dir_fields(2) demo_dir_ok(2) demo_name_props(1) _ _ demo_free _ z]
    by (auto simp: LOGBLOCKS_def MAXOPBLOCKS_def MAXFILE_val BSIZE_def DIRENT_SIZE_def demo_dir_ok)
  let ?G = "upd_inode 0 (\<lambda>_. x') (?F\<lparr>mem := M\<rparr>)"
  have x: "idev x' = ROOTDEV" "inum x' = 1" "iref x' = 1" using arg_cong [OF r(5), of idev] arg_cong [OF r(5), of inum] arg_cong [OF r(5), of iref]
    by (simp_all add: demo_dir_def demo_inode_def)
  have G: "inodes ?G = (inodes demo_dir_st)(0 := x')" "itable_lock ?G = itable_lock ?F" "current_proc ?G = Some 1"
    using demo_dir_fields(3,5) by (simp_all add: upd_inode_def)
  have i: "itable_ok (inodes ?G)" "\<exists>j < NINODE. iref (inodes ?G j) = 0" "inodes ?G 0 = x'"
    unfolding G using x by (auto simp: itable_ok_def demo_dir_st_def demo_dir_def demo_inode_def NINODE_def intro!: exI [of _ 1])
  have nl: "0 + 7 < NBUF" "lock_idle (itable_lock ?G)" unfolding G(2) by (simp_all add: NBUF_def MAXOPBLOCKS_def demo_dir_fields(4))
  obtain j i s2 M2 t where "dirlookup 0x80100000 0 demo_name s1 = (Inr (Some (j, of_nat (DIRENT_SIZE * i))), s2)"
      "tx 1 2 (0 + 7) V' Map.empty (?G\<lparr>mem := M2, inodes := t\<rparr>) s2" "inum (t j) = ucast (7 :: u16)"
    using dirlookup_reads_map [OF r(2,3) i(3) nl(1) demo_name_props(1) i(1) nl(2) G(3) i(2), of "0x80100000", unfolded r(4) option.case] by blast
  then show ?thesis using r(1) tx_inodes(1) by fastforce
qed

text \<open>C16. \<^verbatim>\<open>dirlink\<close> updates the map at one name: inside a transaction with room for seven more blocks, two free blocks on the
  disk and room for one entry in the directory, a name that is not in the directory is added with the low 16
  bits of the inode number (when they are not 0), every other name keeps its number, the directory stays well formed, the inode on disk agrees with
  the one in memory and the blocks of other files stay as they are. A name that is there makes it
  return -1 with the directory, the disk and all reference counts unchanged.\<close>

theorem dirlink_updates_map:
  assumes "tx p st n V Map.empty F s" and "dir_ok (sb F) st V x" and "inodes F dp = x" and "inode_block_ok (sb F) st V x"
    and "DIRSIZ \<le> length name" and "n + 6 < LOGBLOCKS" and "2 \<le> free_cnt (sb F) V" and "unat (isize x) + DIRENT_SIZE \<le> MAXFILE * BSIZE"
    and "itable_ok (inodes F)" and "lock_idle (itable_lock F)" and "current_proc F = Some p" and "\<exists>j < NINODE. iref (inodes F j) = 0"
    and "ucast (i :: u32) \<noteq> (0 :: u16)"
  shows "if dir_map (contents V x) (cname DIRSIZ name) = None
    then \<exists>s' V' x' M. dirlink fr dp name i s = (Inr 0, s') \<and> tx p st (n + 7) V' Map.empty (upd_inode dp (\<lambda>_. x') (F\<lparr>mem := M\<rparr>)) s' \<and>
      dir_ok (sb F) st V' x' \<and> dir_map (contents V' x') = (dir_map (contents V x))(cname DIRSIZ name \<mapsto> ucast i) \<and>
      disk_fields (load_dinode (V' (inode_block (sb F) x)) (dinode_at (inum x)) x) = disk_fields x' \<and>
      (\<forall>b. blk_ok (sb F) V b \<and> b \<notin> own V x \<longrightarrow> V' b = V b) \<and> x' = x\<lparr>isize := isize x', iaddrs := iaddrs x'\<rparr> \<and>
      (\<forall>a. \<not> in_range (fr_lookup fr) DIRENT_SIZE a \<longrightarrow> \<not> in_range (fr_link fr) DIRENT_SIZE a \<longrightarrow> M a = mem F a)
    else \<exists>s' M t. dirlink fr dp name i s = (Inr (- 1), s') \<and> tx p st n V Map.empty (F\<lparr>mem := M, inodes := t\<rparr>) s' \<and>
      itable_ok t \<and> refs t = refs (inodes F) \<and> (\<forall>a. \<not> in_range (fr_lookup fr) DIRENT_SIZE a \<longrightarrow> M a = mem F a)"
proof (cases "dir_map (contents V x) (cname DIRSIZ name)")
  case None
  show ?thesis
    unfolding if_P [OF None] using dirlink_run [OF assms(1) refl assms(2-5) assms(13) assms(6-8) None, of fr] .
next
  case (Some k)
  have "n < NBUF" using assms(6) by (simp add: NBUF_def LOGBLOCKS_def)
  then show ?thesis using dirlink_exists [OF assms(1-3) _ assms(5,9-12) Some, of fr i] Some by simp
qed

theorem dirlink_updates_map_witness:
  "\<exists>s' V' x' M. dirlink demo_frames 0 demo_name 7 demo_dir_st = (Inr 0, s') \<and>
     tx 1 2 7 V' Map.empty (upd_inode 0 (\<lambda>_. x') ((frame demo_dir_st)\<lparr>mem := M\<rparr>)) s' \<and> dir_map (contents V' x') = [[97, 98] \<mapsto> 7]"
proof -
  have z: "dir_map (contents V demo_dir) = Map.empty" for V by (simp add: fun_eq_iff demo_dir_ok(3) dir_map_def dir_find_def)
  show ?thesis
    using dirlink_updates_map [where fr = demo_frames and i = 7, OF demo_dir_tx _ demo_dir_fields(2) _ demo_name_props(1) _ _ _ _ demo_dir_fields(4,5)]
      demo_dir_ok demo_free demo_itable
    unfolding demo_dir_fields(1,3) demo_name_props(2) z
    by (auto simp: LOGBLOCKS_def MAXOPBLOCKS_def MAXFILE_val BSIZE_def DIRENT_SIZE_def)
qed

end
