(* ===== verification/FileSpec.thy ===== *)
theory FileSpec
  imports FileIo File UserMem
begin

text \<open>
  Open files over the file system: \<^verbatim>\<open>read\<close> and \<^verbatim>\<open>write\<close> of \<^verbatim>\<open>kernel/file.c\<close> as transactions of their own on a file whose
  inode is in memory, with the position of the file and the inode's sleep lock.
\<close>

section \<open>The disk outside the log\<close>

lemma agree_layout:
  assumes lay: "fs_layout sp st V" and D: "\<And>k. k \<notin> log_area st \<Longrightarrow> D k = V k"
  shows "fs_layout sp st D" and "blk_ok sp D k = blk_ok sp V k" and "free_cnt sp D = free_cnt sp V"
    and "file_ok sp V x \<Longrightarrow> file_ok sp D x" and "file_ok sp V x \<Longrightarrow> own D x = own V x"
proof -
  have m: "D k = V k" if "unat (sb_bmapstart sp) \<le> k" for k using lay that by (intro D) (auto simp: fs_layout_def)
  then have f: "blk_free sp D k = blk_free sp V k" for k by (simp add: blk_free_def bmap_block_def)
  show "fs_layout sp st D" using lay m f by (auto simp: fs_layout_def)
  show b: "blk_ok sp D k = blk_ok sp V k" for k using f m [of k] by (auto simp: blk_ok_def data_start_def)
  show "free_cnt sp D = free_cnt sp V" using f by (simp add: free_cnt_def)
  assume ok: "file_ok sp V x"
  have "D (unat (iaddrs x NDIRECT)) = V (unat (iaddrs x NDIRECT))" if "iaddrs x NDIRECT \<noteq> 0"
    using that D blk_ok_usable(2) [OF file_ok_blk [OF ok, of MAXFILE] lay] by (simp add: ablk_MAXFILE unat_eq_0)
  then have a: "ablk D x i = ablk V x i" for i by (auto simp: ablk_def addr_at_def)
  show "file_ok sp D x" by (rule file_ok_cong [OF ok a b])
  show "own D x = own V x" using a by (simp add: own_def)
qed

text \<open>The inode in memory, its copy on disk and its blocks are intact.\<close>

definition inode_ok :: "superblock \<Rightarrow> nat \<Rightarrow> (nat \<Rightarrow> u8 list) \<Rightarrow> inode \<Rightarrow> bool" where
  "inode_ok sp st D x \<longleftrightarrow> fs_layout sp st D \<and> file_ok sp D x \<and> inode_block_ok sp st D x \<and>
     disk_fields (load_dinode (D (inode_block sp x)) (dinode_at (inum x)) x) = disk_fields x"

lemma agree_inode:
  assumes "inode_ok sp st V x" and D: "\<And>k. k \<notin> log_area st \<Longrightarrow> D k = V k"
  shows "inode_ok sp st D x" and "contents D x = contents V x"
proof -
  have o: "fs_layout sp st V" "file_ok sp V x" "inode_block_ok sp st V x" using assms(1) by (simp_all add: inode_ok_def)
  have "D (inode_block sp x) = V (inode_block sp x)" using o(3) by (intro D) (simp add: inode_block_ok_def)
  then show "inode_ok sp st D x"
    using assms(1) agree_layout(1,4) [OF o(1) D] o(2) by (simp add: inode_ok_def inode_block_ok_def)
  show "contents D x = contents V x" by (rule contents_agree [OF o(2,1) D])
qed

text \<open>The lock of an inode does not matter for its blocks.\<close>

lemma ilk_irrelevant [simp]:
  "file_ok sp V (x\<lparr>ilk := l\<rparr>) = file_ok sp V x" "contents V (x\<lparr>ilk := l\<rparr>) = contents V x" "own V (x\<lparr>ilk := l\<rparr>) = own V x"
  "inode_block sp (x\<lparr>ilk := l\<rparr>) = inode_block sp x" "inode_block_ok sp st V (x\<lparr>ilk := l\<rparr>) = inode_block_ok sp st V x"
  "disk_fields (x\<lparr>ilk := l\<rparr>) = disk_fields x" "disk_fields (load_dinode d o1 (x\<lparr>ilk := l\<rparr>)) = disk_fields (load_dinode d o1 x)"
proof -
  have a: "ablk V (x\<lparr>ilk := l\<rparr>) = ablk V x" by (simp add: fun_eq_iff ablk_def addr_at_def)
  show "file_ok sp V (x\<lparr>ilk := l\<rparr>) = file_ok sp V x" "own V (x\<lparr>ilk := l\<rparr>) = own V x" "contents V (x\<lparr>ilk := l\<rparr>) = contents V x"
    using a by (simp_all add: file_ok_def own_def contents_def fbyte_def)
  show b: "inode_block sp (x\<lparr>ilk := l\<rparr>) = inode_block sp x" by (simp add: inode_block_def)
  show "inode_block_ok sp st V (x\<lparr>ilk := l\<rparr>) = inode_block_ok sp st V x" using b by (simp add: inode_block_ok_def)
  show "disk_fields (x\<lparr>ilk := l\<rparr>) = disk_fields x" by (simp add: disk_fields_def)
  show "disk_fields (load_dinode d o1 (x\<lparr>ilk := l\<rparr>)) = disk_fields (load_dinode d o1 x)" by (simp add: disk_fields_def load_dinode_def)
qed

section \<open>Transactions\<close>

definition fs_idle :: "('a) klog_scheme \<Rightarrow> nat \<Rightarrow> nat \<Rightarrow> bool" where
  "fs_idle s p st \<longleftrightarrow> pending s p st [] \<and> lock_idle (llock (wal s)) \<and> \<not> committing (wal s) \<and> outstanding (wal s) = 0"

abbreviation disk :: "('a) kdisk_scheme \<Rightarrow> nat \<Rightarrow> u8 list" where
  "disk s \<equiv> a_disk (abs_cache s)"

lemma op_begins:
  assumes "fs_idle s p st"
  shows "\<exists>s1. begin_op s = (Inr (), s1) \<and> tx p st 0 (disk s) Map.empty (upd_wal (\<lambda>l. l\<lparr>outstanding := 1\<rparr>) (frame s)) s1"
proof -
  obtain s1 where "begin_op s = (Inr (), s1)" "tx p st 0 (disk s) Map.empty (frame s1) s1" "s1 = upd_wal (\<lambda>l. l\<lparr>outstanding := 1\<rparr>) s"
    using begin_tx [of s p st] assms by (auto simp: fs_idle_def)
  moreover have "frame (upd_wal (\<lambda>l. l\<lparr>outstanding := 1\<rparr>) s) = upd_wal (\<lambda>l. l\<lparr>outstanding := 1\<rparr>) (frame s)"
    by (simp add: frame_def upd_wal_def)
  ultimately show ?thesis by metis
qed

lemma op_ends:
  assumes t: "tx p st n V Map.empty F s" and n: "n < NBUF" and o: "outstanding (wal F) = 1"
  shows "\<exists>s'. end_op s = (Inr (), s') \<and> fs_idle s' p st \<and> frame s' = upd_wal (\<lambda>l. l\<lparr>outstanding := 0\<rparr>) F \<and>
    (\<forall>k. k \<notin> log_area st \<longrightarrow> disk s' k = V k)"
proof -
  note tp = tx_pending [OF t]
  obtain L where L: "pending s p st L" "length L < NBUF" using tp(1) n by fastforce
  show ?thesis
    using end_op_last [OF L(1) tp(2) L(2) tp(3)] tp(4,5) o tx_frame [OF t] by (auto simp: fs_idle_def)
qed

section \<open>The inode lock and the position\<close>

definition lk_idle :: "sleeplock \<Rightarrow> bool" where
  "lk_idle l \<longleftrightarrow> \<not> slocked l \<and> spid l = 0 \<and> lock_idle (slk l)"

definition can_lock :: "inode \<Rightarrow> bool" where
  "can_lock x \<longleftrightarrow> 1 \<le> iref x \<and> ivalid x \<and> lk_idle (ilk x)"

definition held_by :: "int \<Rightarrow> inode \<Rightarrow> inode" where
  "held_by q x = x\<lparr>ilk := (ilk x)\<lparr>slocked := True, spid := q\<rparr>\<rparr>"

lemma tx_quiet: "txo oc p st n V H F s \<Longrightarrow> quiet s p"
  by (auto simp: tx_def in_trans_def log_at_def cache_inv_def)

lemma ilock_tx:
  assumes t: "txo oc p st n V H F s" and l: "can_lock (inodes F ip)"
  shows "\<exists>s'. ilock (Some ip) s = (Inr (), s') \<and> txo oc p st n V H (upd_inode ip (held_by (pid (proc_table F p))) F) s'"
proof -
  let ?q = "pid (proc_table s p)"
  have f: "inodes s ip = inodes F ip" "proc_table s = proc_table F" using tx_inodes [OF t] tx_fields(3) [OF t] by simp_all
  have a: "acquiresleep (ChInodeLock ip) (il_get ip) (il_upd ip) s = (Inr (), il_upd ip (\<lambda>l. l\<lparr>slocked := True, spid := ?q\<rparr>) s)"
    using ilk.acquiresleep_free [where i = ip and s = s and p = p] l f quiet_cur [OF tx_quiet [OF t]]
    by (simp add: can_lock_def lk_idle_def lock_idle_def)
  have "il_upd ip (\<lambda>l. l\<lparr>slocked := True, spid := ?q\<rparr>) s = upd_inode ip (held_by ?q) s" by (simp add: held_by_def upd_inode_def)
  then have "ilock (Some ip) s = (Inr (), upd_inode ip (held_by ?q) s)"
    using a l f by (simp add: ilock_def can_lock_def held_by_def)
  then show ?thesis using tx_inode [OF t, of ip "held_by ?q"] f(2) by simp
qed

lemma holding_tx:
  assumes t: "txo oc p st n V H F s" and x: "inodes F ip = held_by (pid (proc_table F p)) x" and l: "lk_idle (ilk x)"
  shows "holdingsleep (il_get ip) (il_upd ip) s = (Inr True, s)"
proof -
  have f: "inodes s ip = inodes F ip" "proc_table s = proc_table F" using tx_inodes [OF t] tx_fields(3) [OF t] by simp_all
  show ?thesis
    using ilk.holdingsleep_run [where i = ip and s = s and p = p] x l f quiet_cur [OF tx_quiet [OF t]]
    by (simp add: held_by_def lk_idle_def lock_idle_def)
qed

lemma iunlock_tx:
  assumes t: "txo oc p st n V H F s" and x: "inodes F ip = held_by (pid (proc_table F p)) x" and l: "can_lock x"
  shows "\<exists>s'. iunlock (Some ip) s = (Inr (), s') \<and> txo oc p st n V H (upd_inode ip (\<lambda>_. x) F) s'"
proof -
  have f: "inodes s ip = inodes F ip" "proc_table s = proc_table F" using tx_inodes [OF t] tx_fields(3) [OF t] by simp_all
  have q: "current_proc s = Some p" "\<forall>i. pstate (proc_table s i) \<noteq> SLEEPING" "sie s" using tx_quiet [OF t] by (simp_all add: quiet_def)
  have "releasesleep (ChInodeLock ip) (il_get ip) (il_upd ip) s = (Inr (), il_upd ip (\<lambda>l. l\<lparr>slocked := False, spid := 0\<rparr>) s)"
    using ilk.releasesleep_held [where i = ip and s = s and p = p and ch = "ChInodeLock ip"] x l f q woken_quiet [OF q(2)]
    by (simp add: held_by_def can_lock_def lk_idle_def lock_idle_def upd_inode_def)
  moreover have "il_upd ip (\<lambda>l. l\<lparr>slocked := False, spid := 0\<rparr>) s = upd_inode ip (\<lambda>_. x) s"
  proof -
    have "(ilk x)\<lparr>slocked := False, spid := 0\<rparr> = ilk x" using l by (simp add: can_lock_def lk_idle_def)
    then show ?thesis using x f(1) by (simp add: upd_inode_def held_by_def)
  qed
  ultimately have "iunlock (Some ip) s = (Inr (), upd_inode ip (\<lambda>_. x) s)"
    using holding_tx [OF t x] l x f(1) by (simp add: iunlock_def can_lock_def held_by_def)
  then show ?thesis using tx_inode [OF t, of ip "\<lambda>_. x"] by simp
qed

lemma tx_file:
  assumes t: "txo oc p st n V H F s"
  shows "txo oc p st n V H (upd_file f g F) (upd_file f g s)"
proof -
  have k: "key (upd_file f g s) = key s" by (simp add: key_def fun_eq_iff upd_file_def)
  then have b: "buf_of (upd_file f g s) = buf_of s" "buf_ok (upd_file f g s) p = buf_ok s p" "one_buf (upd_file f g s) = one_buf s"
    by (simp_all add: buf_of_def buf_ok_def one_buf_def Let_def fun_eq_iff upd_file_def)
  have "frame (upd_file f g s) = upd_file f g F" using tx_frame [OF t] by (auto simp: frame_def upd_file_def)
  moreover have "abs_cache (upd_file f g s) = abs_cache s" using k b by (simp add: abs_cache_def upd_file_def cong: option.case_cong if_cong)
  moreover have "cache_inv (upd_file f g s) p = cache_inv s p" using b by (simp add: cache_inv_def quiet_def vq_idle_def upd_file_def)
  moreover have "wal (upd_file f g s) = wal s" by (simp add: upd_file_def)
  ultimately show ?thesis using tx_outside [OF t, of "upd_file f g s"] by simp
qed

lemma tx_files: "txo oc p st n V H F s \<Longrightarrow> files s = files F"
  using tx_frame [of oc p st n V H F s] by (auto simp: frame_def)

lemma upd_file_fields [simp]:
  "inodes (upd_file f g s) = inodes s" "sb (upd_file f g s) = sb s" "mem (upd_file f g s) = mem s" "wal (upd_file f g s) = wal s"
  "proc_table (upd_file f g s) = proc_table s" "files (upd_file f g s) = (files s)(f := g (files s f))"
  "upd_inode i h (upd_file f g s) = upd_file f g (upd_inode i h s)"
  by (simp_all add: upd_file_def upd_inode_def)

lemma upd_inode_files [simp]: "files (upd_inode i h s) = files s"
  by (simp add: upd_inode_def)

section \<open>Writing\<close>

lemma chunks_length: "0 < m \<Longrightarrow> length (chunks off m) * BSIZE < off mod BSIZE + m + BSIZE"
proof (induction m arbitrary: off rule: less_induct)
  case (less m)
  let ?c = "min m (BSIZE - off mod BSIZE)"
  have h: "length (chunks off m) = Suc (length (chunks (off + ?c) (m - ?c)))" using chunk_head(1) [OF less.prems, of off] by simp
  have b: "off mod BSIZE < BSIZE" by (simp add: BSIZE_def)
  show ?case
  proof (cases "m \<le> BSIZE - off mod BSIZE")
    case True
    then have "?c = m" by simp
    then have "length (chunks off m) = 1" using h by (simp add: chunks.simps)
    then show ?thesis using less.prems by simp
  next
    case False
    then have c: "?c = BSIZE - off mod BSIZE" by simp
    have "(off + (BSIZE - off mod BSIZE)) mod BSIZE = 0"
    proof -
      have "off + (BSIZE - off mod BSIZE) = off div BSIZE * BSIZE + BSIZE" using b div_mult_mod_eq [of off BSIZE] by linarith
      then show ?thesis by simp
    qed
    then have "length (chunks (off + ?c) (m - ?c)) * BSIZE < (m - ?c) + BSIZE"
      using less.IH [of "m - ?c" "off + ?c"] False less.prems b c by simp
    then show ?thesis using h c False b by simp
  qed
qed

lemma chunks_write_max: "m \<le> write_max \<Longrightarrow> length (chunks off m) \<le> 4"
proof (cases "m = 0")
  case False
  assume "m \<le> write_max"
  moreover have "off mod BSIZE < BSIZE" by (simp add: BSIZE_def)
  ultimately show ?thesis using chunks_length [of m off] False by (simp add: BSIZE_def write_max_def MAXOPBLOCKS_def)
qed (simp add: chunks.simps)

lemma pieces_one: "m \<le> lim \<Longrightarrow> 0 < m \<Longrightarrow> pieces lim 0 m = [(0, m)]" "pieces lim i 0 = []"
  by (simp_all add: pieces.simps)

text \<open>A file over an inode in memory.\<close>

definition file_on :: "file_t \<Rightarrow> nat \<Rightarrow> bool" where
  "file_on y ip \<longleftrightarrow> ftype y = FD_INODE \<and> fip y = Some ip"

lemma filewrite_tx:
  fixes F :: "('a) kfile_scheme"
  assumes t: "tx p st 0 V Map.empty F s" and F: "file_on (files F f) ip" "fwritable (files F f)" "inodes F ip = held_by (pid (proc_table F p)) x"
    and l: "can_lock x" and ok: "fs_layout (sb F) st V" "file_ok (sb F) V x" "inode_block_ok (sb F) st V x"
    and off: "unat (foff (files F f)) \<le> unat (isize x)" "unat (foff (files F f)) + N \<le> MAXFILE * BSIZE" and N: "N \<le> write_max"
    and fr: "2 * length (chunks (unat (foff (files F f))) N) \<le> free_cnt (sb F) V" and ag: "disk_fields (load_dinode (V (inode_block (sb F) x)) (dinode_at (inum x)) x) = disk_fields x"
  shows "\<exists>s' V' x'. filewrite f a (int N) s = (Inr (int N), s') \<and>
    tx p st 25 V' Map.empty (upd_file f (\<lambda>y. y\<lparr>foff := foff y + of_nat N\<rparr>) (upd_inode ip (\<lambda>_. held_by (pid (proc_table F p)) x') F)) s' \<and>
    inode_ok (sb F) st V' x' \<and> contents V' x' = put_bytes (unat (foff (files F f))) (read_bytes (mem F) a N) (contents V x) \<and>
    (\<forall>b. blk_ok (sb F) V b \<and> b \<notin> own V x \<longrightarrow> V' b = V b \<and> blk_ok (sb F) V' b \<and> b \<notin> own V' x') \<and> x' = x\<lparr>isize := isize x', iaddrs := iaddrs x'\<rparr> \<and>
    free_cnt (sb F) V \<le> free_cnt (sb F) V' + 2 * length (chunks (unat (foff (files F f))) N)"
proof (cases "N = 0")
  case True
  have "upd_file f (\<lambda>y. y\<lparr>foff := foff y + of_nat N\<rparr>) (upd_inode ip (\<lambda>_. held_by (pid (proc_table F p)) x) F) = F"
    using upd_inode_same [OF F(3)] True by (simp add: upd_file_def)
  moreover have "filewrite f a (int N) s = (Inr (int N), s)"
    using F tx_files [OF t] holding_tx [OF t F(3)] l True by (simp add: filewrite_def file_on_def deref_def pieces_one can_lock_def)
  ultimately show ?thesis using tx_mono [OF t, of 25] ok ag True off
    by (intro exI [of _ s] exI [of _ V] exI [of _ x]) (simp add: inode_ok_def put_bytes_def read_bytes_def)
next
  case False
  let ?off = "foff (files F f)" and ?m = "of_nat N :: u32" and ?q = "pid (proc_table F p)"
  have N31: "N < 2 ^ 31" using N by (simp add: write_max_def MAXOPBLOCKS_def BSIZE_def)
  note um = unat_block [OF N31]
  have w: "?off \<le> isize (held_by ?q x)" "\<not> ?off + ?m < ?off" "unat ?off + unat ?m \<le> MAXFILE * BSIZE"
    using off um by (simp_all add: word_le_nat_alt word_less_nat_alt held_by_def unat_word_ariths MAXFILE_val BSIZE_def)
  let ?k = "length (chunks (unat ?off) (unat ?m))"
  have k4: "?k \<le> 4" using chunks_write_max [OF N] um by simp
  have nb: "0 + 6 * ?k < NBUF" "0 + 6 * ?k < LOGBLOCKS" "2 * ?k \<le> free_cnt (sb F) V"
    using k4 fr um by (simp_all add: NBUF_def LOGBLOCKS_def MAXOPBLOCKS_def)
  have hx: "file_ok (sb F) V (held_by ?q x)" "inode_block_ok (sb F) st V (held_by ?q x)" using ok by (simp_all add: held_by_def)
  obtain s1 V' y where r: "writei ip False a ?off ?m s = (Inr (int (unat ?m)), s1)"
      "tx p st (Suc (0 + 6 * ?k)) V' Map.empty (upd_inode ip (\<lambda>_. y) F) s1" "fs_layout (sb F) st V'" "file_ok (sb F) V' y"
      "contents V' y = put_bytes (unat ?off) (read_bytes (mem F) a (unat ?m)) (contents V (held_by ?q x))"
      "disk_fields (load_dinode (V' (inode_block (sb F) (held_by ?q x))) (dinode_at (inum (held_by ?q x))) (held_by ?q x)) = disk_fields y"
      "\<forall>b. blk_ok (sb F) V b \<and> b \<notin> own V (held_by ?q x) \<longrightarrow> V' b = V b \<and> blk_ok (sb F) V' b \<and> b \<notin> own V' y"
      "y = (held_by ?q x)\<lparr>isize := isize y, iaddrs := iaddrs y\<rparr>" "inode_block_ok (sb F) st V' y" "free_cnt (sb F) V \<le> free_cnt (sb F) V' + 2 * ?k"
    using writei_full [OF t refl ok(1) F(3) hx w nb, of a] by (elim exE conjE) (rule that)
  obtain sz ad where y0: "y = (held_by ?q x)\<lparr>isize := sz, iaddrs := ad\<rparr>" using r(8) by blast
  define x' where "x' = x\<lparr>isize := sz, iaddrs := ad\<rparr>"
  have y: "y = held_by ?q x'" by (simp add: y0 x'_def held_by_def)
  have ib: "inode_block (sb F) x' = inode_block (sb F) x" "inum x' = inum x" by (simp_all add: x'_def inode_block_def)
  have df: "disk_fields (load_dinode d o1 x') = disk_fields (load_dinode d o1 x)" for d o1 by (simp add: x'_def disk_fields_def load_dinode_def)
  have io: "inode_ok (sb F) st V' x'"
    using r(3,4,6,9) y ib df by (simp add: inode_ok_def held_by_def)
  let ?G = "upd_file f (\<lambda>y. y\<lparr>foff := foff y + of_nat N\<rparr>) (upd_inode ip (\<lambda>_. held_by ?q x') F)"
  have t2: "tx p st 25 V' Map.empty ?G (upd_file f (\<lambda>y. y\<lparr>foff := foff y + of_nat N\<rparr>) s1)"
    using tx_mono [OF tx_file [OF r(2)], of 25] k4 y by simp
  have run: "filewrite f a (int N) s = (Inr (int N), upd_file f (\<lambda>y. y\<lparr>foff := foff y + of_nat N\<rparr>) s1)"
    using F tx_files [OF t] holding_tx [OF t F(3)] l False r(1) um pieces_one(1) [OF N]
    by (simp add: filewrite_def file_on_def deref_def can_lock_def)
  show ?thesis using run t2 io r(5,7,10) um y
    by (intro exI [of _ "upd_file f (\<lambda>y. y\<lparr>foff := foff y + of_nat N\<rparr>) s1"] exI [of _ V'] exI [of _ x']) (simp add: held_by_def x'_def)
qed

lemma wal_fields [simp]:
  "files (upd_wal g s) = files s" "inodes (upd_wal g t) = inodes t" "sb (upd_wal g u) = sb u" "mem (upd_wal g v) = mem v" "proc_table (upd_wal g v) = proc_table v"
  "upd_wal g (upd_file f h s) = upd_file f h (upd_wal g s)" "upd_wal g (upd_inode i k t) = upd_inode i k (upd_wal g t)"
  by (simp_all add: upd_wal_def upd_file_def upd_inode_def)

lemma frame_fields [simp]:
  "files (frame s) = files s" "inodes (frame t) = inodes t" "sb (frame u) = sb u" "mem (frame v) = mem v" "proc_table (frame v) = proc_table v"
  "outstanding (wal (frame v)) = outstanding (wal v)"
  by (simp_all add: frame_def)

lemma reopened: "outstanding (wal s) = 0 \<Longrightarrow> upd_wal (\<lambda>l. l\<lparr>outstanding := 0\<rparr>) (upd_wal (\<lambda>l. l\<lparr>outstanding := 1\<rparr>) (frame s)) = frame s"
  by (simp add: frame_def upd_wal_def)

lemma write_file_run:
  fixes s :: "('a) kfile_scheme"
  assumes i: "fs_idle s p st" and F: "file_on (files s f) ip" "fwritable (files s f)" and x: "inodes s ip = x" and l: "can_lock x"
    and ok: "inode_ok (sb s) st (disk s) x" and o: "foff (files s f) = off" and off: "unat off \<le> unat (isize x)" "unat off + N \<le> MAXFILE * BSIZE"
    and N: "N \<le> write_max" and fr: "2 * length (chunks (unat off) N) \<le> free_cnt (sb s) (disk s)"
  shows "\<exists>s' x'. write_file f a (int N) s = (Inr (int N), s') \<and> fs_idle s' p st \<and>
    frame s' = upd_file f (\<lambda>y. y\<lparr>foff := off + of_nat N\<rparr>) (upd_inode ip (\<lambda>_. x') (frame s)) \<and>
    x' = x\<lparr>isize := isize x', iaddrs := iaddrs x'\<rparr> \<and> inode_ok (sb s) st (disk s') x' \<and>
    contents (disk s') x' = put_bytes (unat off) (read_bytes (mem s) a N) (contents (disk s) x) \<and>
    (\<forall>b. blk_ok (sb s) (disk s) b \<and> b \<notin> own (disk s) x \<longrightarrow>
      disk s' b = disk s b \<and> blk_ok (sb s) (disk s') b \<and> b \<notin> own (disk s') x') \<and>
    free_cnt (sb s) (disk s) \<le> free_cnt (sb s) (disk s') + 2 * length (chunks (unat off) N)"
proof -
  let ?q = "pid (proc_table s p)" and ?F0 = "upd_wal (\<lambda>l. l\<lparr>outstanding := 1\<rparr>) (frame s)" and ?sp = "sb s"
  obtain s1 where s1: "begin_op s = (Inr (), s1)" "tx p st 0 (disk s) Map.empty ?F0 s1" using op_begins [OF i] by blast
  obtain s2 where s2: "ilock (Some ip) s1 = (Inr (), s2)" "tx p st 0 (disk s) Map.empty (upd_inode ip (held_by ?q) ?F0) s2"
    using ilock_tx [OF s1(2), of ip] x l by auto
  let ?F = "upd_inode ip (held_by ?q) ?F0"
  have f: "files ?F = files s" "inodes ?F ip = held_by ?q x" "sb ?F = ?sp" "mem ?F = mem s" "proc_table ?F = proc_table s" using x by simp_all
  have okd: "fs_layout ?sp st (disk s)" "file_ok ?sp (disk s) x" "inode_block_ok ?sp st (disk s) x"
      "disk_fields (load_dinode (disk s (inode_block ?sp x)) (dinode_at (inum x)) x) = disk_fields x" using ok by (simp_all add: inode_ok_def)
  obtain s3 V' x' where s3: "filewrite f a (int N) s2 = (Inr (int N), s3)"
      "tx p st 25 V' Map.empty (upd_file f (\<lambda>y. y\<lparr>foff := foff y + of_nat N\<rparr>) (upd_inode ip (\<lambda>_. held_by ?q x') ?F)) s3" "inode_ok ?sp st V' x'"
      "contents V' x' = put_bytes (unat off) (read_bytes (mem s) a N) (contents (disk s) x)"
      "\<forall>b. blk_ok ?sp (disk s) b \<and> b \<notin> own (disk s) x \<longrightarrow> V' b = disk s b \<and> blk_ok ?sp V' b \<and> b \<notin> own V' x'" "x' = x\<lparr>isize := isize x', iaddrs := iaddrs x'\<rparr>"
      "free_cnt ?sp (disk s) \<le> free_cnt ?sp V' + 2 * length (chunks (unat off) N)"
    using filewrite_tx [where f = f and ip = ip and x = x and N = N, OF s2(2), unfolded f o, OF F refl l okd(1-3) off N fr okd(4), of a]
    by (elim exE conjE) (rule that)
  let ?G = "upd_file f (\<lambda>y. y\<lparr>foff := foff y + of_nat N\<rparr>) (upd_inode ip (\<lambda>_. held_by ?q x') ?F)"
  have l': "can_lock x'" using l by (subst s3(6)) (simp add: can_lock_def)
  have "inodes ?G ip = held_by (pid (proc_table ?G p)) x'" by simp
  then obtain s4 where s4: "iunlock (Some ip) s3 = (Inr (), s4)" "tx p st 25 V' Map.empty (upd_inode ip (\<lambda>_. x') ?G) s4"
    using iunlock_tx [OF s3(2) _ l'] by blast
  obtain s' where s': "end_op s4 = (Inr (), s')" "fs_idle s' p st" "frame s' = upd_wal (\<lambda>l. l\<lparr>outstanding := 0\<rparr>) (upd_inode ip (\<lambda>_. x') ?G)"
      "\<forall>k. k \<notin> log_area st \<longrightarrow> disk s' k = V' k"
    using op_ends [OF s4(2)] by (auto simp: NBUF_def MAXOPBLOCKS_def)
  have fl: "files s1 = files s" "files s3 f = (files s f)\<lparr>foff := off + of_nat N\<rparr>" using tx_files [OF s1(2)] tx_files [OF s3(2)] o by simp_all
  have run: "write_file f a (int N) s = (Inr (int N), s')"
    using s1(1) s2(1) s3(1) s4(1) s'(1) fl F(1) by (simp add: write_file_def filelock_def fileunlock_def file_on_def)
  have fr': "frame s' = upd_file f (\<lambda>y. y\<lparr>foff := off + of_nat N\<rparr>) (upd_inode ip (\<lambda>_. x') (frame s))"
    unfolding s'(3) using reopened [of s] i o by (simp add: upd_inode_twice fs_idle_def) (simp add: upd_file_def)
  have D: "disk s' k = V' k" if "k \<notin> log_area st" for k using s'(4) that by simp
  have V: "fs_layout ?sp st V'" "file_ok ?sp V' x'" using s3(3) by (simp_all add: inode_ok_def)
  have "disk s' b = disk s b \<and> blk_ok ?sp (disk s') b \<and> b \<notin> own (disk s') x'" if "blk_ok ?sp (disk s) b" "b \<notin> own (disk s) x" for b
    using D blk_ok_usable(2) [OF that(1) okd(1)] s3(5) that agree_layout(2,5) [OF V(1) D] V(2) by simp
  then show ?thesis
    using run s'(2) fr' s3(4,6,7) agree_inode [OF s3(3) D] agree_layout(3) [OF V(1) D] by auto
qed

section \<open>Reading\<close>

lemma frame_mem [simp]: "frame (s\<lparr>mem := m\<rparr>) = (frame s)\<lparr>mem := m\<rparr>"
  by (simp add: frame_def)

lemma mem_comm [simp]: "(upd_inode i h s)\<lparr>mem := m\<rparr> = upd_inode i h (s\<lparr>mem := m\<rparr>)" "(upd_wal g t)\<lparr>mem := m\<rparr> = upd_wal g (t\<lparr>mem := m\<rparr>)"
  by (simp_all add: upd_inode_def upd_wal_def)

lemma fileread_tx:
  fixes F :: "('a) kfile_scheme"
  assumes t: "txo oc p st 0 V Map.empty F s" and F: "file_on (files F f) ip" "freadable (files F f)" "inodes F ip = held_by (pid (proc_table F p)) x"
    and l: "can_lock x" and ok: "fs_layout sp st V" "file_ok sp V x" and off: "unat (foff (files F f)) \<le> unat (isize x)" and N: "N < 2 ^ 31"
  shows "\<exists>s'. fileread f a (int N) s = (Inr (int (min N (unat (isize x) - unat (foff (files F f))))), s') \<and>
    txo oc p st 0 V Map.empty (upd_file f (\<lambda>y. y\<lparr>foff := foff y + of_nat (min N (unat (isize x) - unat (foff (files F f))))\<rparr>)
      (F\<lparr>mem := write_bytes (mem F) a (take N (drop (unat (foff (files F f))) (contents V x)))\<rparr>)) s'"
proof -
  let ?off = "foff (files F f)" and ?m = "of_nat N :: u32" and ?k = "min N (unat (isize x) - unat (foff (files F f)))"
  let ?G = "F\<lparr>mem := write_bytes (mem F) a (take N (drop (unat (foff (files F f))) (contents V x)))\<rparr>"
  note um = unat_block [OF N]
  have sz: "unat (isize x) \<le> 268 * 1024" using ok(2) by (simp add: file_ok_def MAXFILE_val BSIZE_def)
  have w: "?off \<le> isize (held_by (pid (proc_table F p)) x)" "\<not> ?off + ?m < ?off"
    using off um N sz by (simp_all add: word_le_nat_alt word_less_nat_alt held_by_def unat_word_ariths)
  have h: "file_ok sp V (held_by (pid (proc_table F p)) x)" "0 < NBUF" using ok by (simp_all add: held_by_def NBUF_def MAXOPBLOCKS_def)
  obtain s1 where r: "readi ip False a ?off ?m s = (Inr (int ?k), s1)" "txo oc p st 0 V Map.empty ?G s1"
    using readi_run [OF t ok(1) F(3) h w, of a] um by (auto simp: held_by_def)
  have fs: "files s1 f = files F f" using tx_files [OF r(2)] by simp
  have "(if 0 < int ?k then kmod (upd_file f (\<lambda>x. x\<lparr>foff := foff x + word_of_int (int ?k)\<rparr>)) else kret ()) s1 =
      (Inr (), upd_file f (\<lambda>y. y\<lparr>foff := foff y + of_nat ?k\<rparr>) s1)"
    by (cases "?k = 0") (simp_all add: upd_file_def)
  then have "fileread f a (int N) s = (Inr (int ?k), upd_file f (\<lambda>y. y\<lparr>foff := foff y + of_nat ?k\<rparr>) s1)"
    using F tx_files [OF t] holding_tx [OF t F(3)] l r(1) by (simp add: fileread_def file_on_def deref_def can_lock_def)
  then show ?thesis using tx_file [OF r(2)] by blast
qed

lemma read_run:
  fixes s :: "('a) kfile_scheme"
  assumes i: "fs_idle s p st" and F: "file_on (files s f) ip" "freadable (files s f)" and x: "inodes s ip = x" and l: "can_lock x"
    and ok: "fs_layout (sb s) st (disk s)" "file_ok (sb s) (disk s) x" and o: "foff (files s f) = off" and off: "unat off \<le> unat (isize x)" and N: "N < 2 ^ 31"
  shows "\<exists>s'. read f a (int N) s = (Inr (int (min N (unat (isize x) - unat off))), s') \<and> fs_idle s' p st \<and>
    frame s' = upd_file f (\<lambda>y. y\<lparr>foff := off + of_nat (min N (unat (isize x) - unat off))\<rparr>)
      ((frame s)\<lparr>mem := write_bytes (mem s) a (take N (drop (unat off) (contents (disk s) x)))\<rparr>) \<and>
    (\<forall>k. k \<notin> log_area st \<longrightarrow> disk s' k = disk s k)"
proof -
  let ?q = "pid (proc_table s p)" and ?F0 = "upd_wal (\<lambda>l. l\<lparr>outstanding := 1\<rparr>) (frame s)" and ?k = "min N (unat (isize x) - unat off)"
  let ?M = "write_bytes (mem s) a (take N (drop (unat off) (contents (disk s) x)))"
  obtain s1 where s1: "begin_op s = (Inr (), s1)" "tx p st 0 (disk s) Map.empty ?F0 s1" using op_begins [OF i] by blast
  obtain s2 where s2: "ilock (Some ip) s1 = (Inr (), s2)" "tx p st 0 (disk s) Map.empty (upd_inode ip (held_by ?q) ?F0) s2"
    using ilock_tx [OF s1(2), of ip] x l by auto
  let ?F = "upd_inode ip (held_by ?q) ?F0"
  have f: "files ?F = files s" "inodes ?F ip = held_by ?q x" "mem ?F = mem s" "proc_table ?F = proc_table s" using x by simp_all
  obtain s3 where s3: "fileread f a (int N) s2 = (Inr (int ?k), s3)"
      "tx p st 0 (disk s) Map.empty (upd_file f (\<lambda>y. y\<lparr>foff := foff y + of_nat ?k\<rparr>) (?F\<lparr>mem := ?M\<rparr>)) s3"
    using fileread_tx [where f = f and ip = ip and x = x and N = N, OF s2(2), unfolded f o, OF F refl l ok off N, of a] by blast
  let ?G = "upd_file f (\<lambda>y. y\<lparr>foff := foff y + of_nat ?k\<rparr>) (?F\<lparr>mem := ?M\<rparr>)"
  have "inodes ?G ip = held_by (pid (proc_table ?G p)) x" using x by simp
  then obtain s4 where s4: "iunlock (Some ip) s3 = (Inr (), s4)" "tx p st 0 (disk s) Map.empty (upd_inode ip (\<lambda>_. x) ?G) s4"
    using iunlock_tx [OF s3(2) _ l] by blast
  obtain s' where s': "end_op s4 = (Inr (), s')" "fs_idle s' p st" "frame s' = upd_wal (\<lambda>l. l\<lparr>outstanding := 0\<rparr>) (upd_inode ip (\<lambda>_. x) ?G)"
      "\<forall>k. k \<notin> log_area st \<longrightarrow> disk s' k = disk s k"
    using op_ends [OF s4(2)] by (auto simp: NBUF_def MAXOPBLOCKS_def)
  have fl: "files s1 = files s" "files s3 f = (files s f)\<lparr>foff := off + of_nat ?k\<rparr>" using tx_files [OF s1(2)] tx_files [OF s3(2)] o by simp_all
  have run: "read f a (int N) s = (Inr (int ?k), s')"
    using s1(1) s2(1) s3(1) s4(1) s'(1) fl F(1) by (simp add: read_def filelock_def fileunlock_def file_on_def)
  have "upd_wal (\<lambda>l. l\<lparr>outstanding := 0\<rparr>) (upd_wal (\<lambda>l. l\<lparr>outstanding := 1\<rparr>) ((frame s)\<lparr>mem := ?M\<rparr>)) = (frame s)\<lparr>mem := ?M\<rparr>"
    using reopened [of "s\<lparr>mem := ?M\<rparr>"] i by (simp add: fs_idle_def)
  moreover have "upd_inode ip (\<lambda>_. x) ((frame s)\<lparr>mem := ?M\<rparr>) = (frame s)\<lparr>mem := ?M\<rparr>" by (rule upd_inode_same) (use x in simp)
  ultimately have "frame s' = upd_file f (\<lambda>y. y\<lparr>foff := off + of_nat ?k\<rparr>) ((frame s)\<lparr>mem := ?M\<rparr>)"
    unfolding s'(3) using o by (simp add: upd_inode_twice) (simp add: upd_file_def)
  then show ?thesis using run s'(2,4) by blast
qed

end
