(* ===== verification/NameSpec.thy ===== *)
theory NameSpec
  imports DirSpec FileSpec
begin

text \<open>
  Path names: \<^verbatim>\<open>namei\<close> of \<^verbatim>\<open>kernel/fs.c\<close> against the tree that the directories on the disk stand for. Along the way \<^verbatim>\<open>ilock\<close> reads inodes
  from the disk, \<^verbatim>\<open>dirlookup\<close> takes references and \<^verbatim>\<open>iunlockput\<close> gives them back.
\<close>

section \<open>The tree on the disk\<close>

text \<open>Inode \<open>i\<close> as it is on the disk.\<close>

definition dino :: "superblock \<Rightarrow> (nat \<Rightarrow> u8 list) \<Rightarrow> u32 \<Rightarrow> inode" where
  "dino sp V i = load_dinode (V (unat (IBLOCK i sp))) (dinode_at i) \<lparr>idev = ROOTDEV, inum = i, iref = 0, ivalid = True, itype = 0, imajor = 0,
     iminor = 0, inlink = 0, isize = 0, iaddrs = (\<lambda>_. 0), ilk = fresh_sleeplock ''inode''\<rparr>"

text \<open>The inode a list of names leads to.\<close>

fun resolve :: "superblock \<Rightarrow> (nat \<Rightarrow> u8 list) \<Rightarrow> u32 \<Rightarrow> u8 list list \<Rightarrow> u32 option" where
  "resolve sp V i [] = Some i"
| "resolve sp V i (nm # nms) = (if itype (dino sp V i) \<noteq> T_DIR then None
     else (case dir_map (contents V (dino sp V i)) nm of None \<Rightarrow> None | Some k \<Rightarrow> resolve sp V (ucast k) nms))"

text \<open>The inodes \<open>S\<close> form a tree: the root is one of them, each of them is well formed and has a link, and directories
  name only inodes of \<open>S\<close>.\<close>

definition live_tree :: "superblock \<Rightarrow> nat \<Rightarrow> (nat \<Rightarrow> u8 list) \<Rightarrow> u32 set \<Rightarrow> bool" where
  "live_tree sp st V S \<longleftrightarrow> fs_layout sp st V \<and> ROOTINO \<in> S \<and> (\<forall>i \<in> S. let x = dino sp V i in
     itype x \<noteq> 0 \<and> inlink x \<noteq> 0 \<and> inode_block_ok sp st V x \<and> file_ok sp V x \<and>
     (itype x = T_DIR \<longrightarrow> dir_ok sp st V x \<and> (\<forall>nm k. dir_map (contents V x) nm = Some k \<longrightarrow> ucast k \<in> S)))"

lemma dino_fields [simp]: "inum (dino sp V i) = i" "idev (dino sp V i) = ROOTDEV"
  by (simp_all add: dino_def load_dinode_def)

lemma disk_fields_load:
  "disk_fields (load_dinode d o1 x) = disk_fields (load_dinode d o1 y)"
  by (simp add: disk_fields_def load_dinode_def)

lemma disk_fields_types: "disk_fields x = disk_fields y \<Longrightarrow> itype x = itype y \<and> inlink x = inlink y"
  by (simp add: disk_fields_def)

lemma disk_fields_dir:
  assumes "disk_fields x = disk_fields y" and "idev x = idev y"
  shows "dir_ok sp st V x = dir_ok sp st V y"
  using disk_fields_same [OF assms(1)] disk_fields_types [OF assms(1)] assms(2) by (simp add: dir_ok_def file_ok_def)

section \<open>The inode table\<close>

text \<open>No inode is locked, all of them are of the disk, and those that have been read agree with it.\<close>

definition tab_ok :: "superblock \<Rightarrow> (nat \<Rightarrow> u8 list) \<Rightarrow> (nat \<Rightarrow> inode) \<Rightarrow> bool" where
  "tab_ok sp V t \<longleftrightarrow> itable_ok t \<and> (\<forall>j < NINODE. lk_idle (ilk (t j)) \<and> (0 < iref (t j) \<longrightarrow> idev (t j) = ROOTDEV \<and>
     (ivalid (t j) \<longrightarrow> disk_fields (t j) = disk_fields (dino sp V (inum (t j))))))"

text \<open>The table while inode \<open>ip\<close> is locked by process \<open>q\<close>.\<close>

definition locked_in :: "int \<Rightarrow> nat \<Rightarrow> (nat \<Rightarrow> inode) \<Rightarrow> nat \<Rightarrow> inode" where
  "locked_in q ip t = t(ip := held_by q (t ip))"

lemma held_by_fields [simp]:
  "iref (held_by q x) = iref x" "idev (held_by q x) = idev x" "inum (held_by q x) = inum x" "ivalid (held_by q x) = ivalid x"
  "disk_fields (held_by q x) = disk_fields x" "itype (held_by q x) = itype x" "inlink (held_by q x) = inlink x"
  "contents V (held_by q x) = contents V x"
  by (simp_all add: held_by_def)

lemma locked_find: "find_inode (locked_in q ip t) d k = find_inode t d k" "find_empty (locked_in q ip t) = find_empty t"
proof -
  have "iref (locked_in q ip t j) = iref (t j)" "idev (locked_in q ip t j) = idev (t j)" "inum (locked_in q ip t j) = inum (t j)" for j
    by (simp_all add: locked_in_def)
  then show "find_inode (locked_in q ip t) d k = find_inode t d k" "find_empty (locked_in q ip t) = find_empty t"
    by (simp_all add: find_inode_def find_empty_def)
qed

text \<open>A table in which fewer inodes than entries are in use has a free entry.\<close>

lemma free_slot:
  assumes ok: "itable_ok t" and c: "card {k. 0 < refs t k} < NINODE"
  shows "\<exists>j < NINODE. iref (t j) = 0"
proof (rule ccontr)
  assume "\<not> (\<exists>j < NINODE. iref (t j) = 0)"
  then have p: "0 < iref (t j)" if "j < NINODE" for j using ok that by (fastforce simp: itable_ok_def)
  let ?f = "\<lambda>j. (idev (t j), inum (t j))"
  have "inj_on ?f {..<NINODE}" using ok p by (auto simp: inj_on_def itable_ok_def)
  then have "card (?f ` {..<NINODE}) = NINODE" by (simp add: card_image)
  moreover have "{k. 0 < refs t k} = ?f ` {..<NINODE}"
  proof (intro equalityI subsetI)
    fix k assume "k \<in> {k. 0 < refs t k}"
    then obtain j where "find_inode t (fst k) (snd k) = Some j" by (auto simp: refs_def split: option.splits)
    then have "j < NINODE" "k = ?f j" using find_inode_Some [OF ok] by auto
    then show "k \<in> ?f ` {..<NINODE}" by blast
  next
    fix k assume "k \<in> ?f ` {..<NINODE}"
    then show "k \<in> {k. 0 < refs t k}" using refs_eq [OF ok _ p] p by auto
  qed
  ultimately show False using c by simp
qed

lemma refs_finite: "itable_ok t \<Longrightarrow> finite {k. 0 < refs t k}"
proof -
  assume ok: "itable_ok t"
  have "{k. 0 < refs t k} \<subseteq> (\<lambda>j. (idev (t j), inum (t j))) ` {..<NINODE}"
  proof
    fix k assume "k \<in> {k. 0 < refs t k}"
    then obtain j where "find_inode t (fst k) (snd k) = Some j" by (auto simp: refs_def split: option.splits)
    then have "j < NINODE" "k = (idev (t j), inum (t j))" using find_inode_Some [OF ok] by auto
    then show "k \<in> (\<lambda>j. (idev (t j), inum (t j))) ` {..<NINODE}" by blast
  qed
  then show ?thesis by (rule finite_subset) simp
qed

lemma tab_get:
  assumes ok: "tab_ok sp V t" and r: "\<exists>j < NINODE. iref (t j) = 0"
  shows "\<exists>j y. (case find_inode t ROOTDEV k of Some j \<Rightarrow> Some (j, (t j)\<lparr>iref := iref (t j) + 1\<rparr>)
      | None \<Rightarrow> (case find_empty t of Some j \<Rightarrow> Some (j, (t j)\<lparr>idev := ROOTDEV, inum := k, iref := 1, ivalid := False\<rparr>) | None \<Rightarrow> None)) = Some (j, y) \<and>
    j < NINODE \<and> 0 < iref y \<and> inum y = k \<and> tab_ok sp V (t(j := y)) \<and> refs (t(j := y)) = (refs t)((ROOTDEV, k) := refs t (ROOTDEV, k) + 1)"
proof -
  have it: "itable_ok t" using ok by (simp add: tab_ok_def)
  show ?thesis
  proof (cases "find_inode t ROOTDEV k")
    case (Some j)
    then have j: "j < NINODE" "0 < iref (t j)" "idev (t j) = ROOTDEV" "inum (t j) = k" using find_inode_Some [OF it] by auto
    let ?x = "(t j)\<lparr>iref := iref (t j) + 1\<rparr>"
    have rk: "refs t (ROOTDEV, k) = iref (t j)" using refs_eq [OF it j(1,2)] j by simp
    note u = itable_upd [OF it j(1), of ?x]
    have "itable_ok (t(j := ?x))" "refs (t(j := ?x)) = (refs t)((ROOTDEV, k) := refs t (ROOTDEV, k) + 1)"
      using u Some j rk by (auto simp: fun_eq_iff)
    moreover have "disk_fields ?x = disk_fields (t j)" by (simp add: disk_fields_def)
    ultimately show ?thesis using Some j ok by (auto simp: tab_ok_def)
  next
    case None
    then have r0: "refs t (ROOTDEV, k) = 0" by (simp add: refs_def)
    obtain j where e: "find_empty t = Some j" using r by (cases "find_empty t") (auto simp: find_empty_def find_None_iff)
    let ?x = "(t j)\<lparr>idev := ROOTDEV, inum := k, iref := 1, ivalid := False\<rparr>"
    have j: "j < NINODE" "iref (t j) = 0" using find_empty_Some [OF e] by auto
    note u = itable_upd [OF it j(1), of ?x]
    have "itable_ok (t(j := ?x))" "refs (t(j := ?x)) = (refs t)((ROOTDEV, k) := refs t (ROOTDEV, k) + 1)"
      using u None j r0 by (auto simp: fun_eq_iff)
    then show ?thesis using None e j ok by (auto simp: tab_ok_def)
  qed
qed

lemma iget_tab:
  assumes l: "lock_idle (itable_lock s)" "current_proc s = Some p" and t: "inodes s = t" "tab_ok sp V t" and r: "\<exists>j < NINODE. iref (t j) = 0"
  shows "\<exists>j y. iget ROOTDEV k s = (Inr j, s\<lparr>inodes := t(j := y)\<rparr>) \<and> j < NINODE \<and> 0 < iref y \<and> inum y = k \<and> tab_ok sp V (t(j := y)) \<and>
    refs (t(j := y)) = (refs t)((ROOTDEV, k) := refs t (ROOTDEV, k) + 1)"
proof (cases "find_inode t ROOTDEV k")
  case (Some j)
  then have "iget ROOTDEV k s = (Inr j, s\<lparr>inodes := t(j := (t j)\<lparr>iref := iref (t j) + 1\<rparr>)\<rparr>)"
    using iget_run [OF l, of ROOTDEV k] t(1) by (simp add: upd_inode_def)
  then show ?thesis using tab_get [OF t(2) r, of k] Some by auto
next
  case None
  then obtain j where e: "find_empty t = Some j" using r by (cases "find_empty t") (auto simp: find_empty_def find_None_iff)
  then have "iget ROOTDEV k s = (Inr j, s\<lparr>inodes := t(j := (t j)\<lparr>idev := ROOTDEV, inum := k, iref := 1, ivalid := False\<rparr>)\<rparr>)"
    using iget_run [OF l, of ROOTDEV k] t(1) None by (simp add: upd_inode_def)
  then show ?thesis using tab_get [OF t(2) r, of k] None e by auto
qed

lemma iget_locked:
  assumes l: "lock_idle (itable_lock s)" "current_proc s = Some p" and t: "inodes s = locked_in q ip t" "tab_ok sp V t" and r: "\<exists>j < NINODE. iref (t j) = 0"
    and ip: "0 < iref (t ip)"
  shows "\<exists>j y. iget ROOTDEV k s = (Inr j, s\<lparr>inodes := locked_in q ip (t(j := y))\<rparr>) \<and> j < NINODE \<and> 0 < iref y \<and> inum y = k \<and> tab_ok sp V (t(j := y)) \<and>
    refs (t(j := y)) = (refs t)((ROOTDEV, k) := refs t (ROOTDEV, k) + 1) \<and> (j = ip \<longrightarrow> y = (t ip)\<lparr>iref := iref (t ip) + 1\<rparr>)"
proof -
  have a: "(locked_in q ip t)(j := (locked_in q ip t j)\<lparr>iref := iref (locked_in q ip t j) + 1\<rparr>) = locked_in q ip (t(j := (t j)\<lparr>iref := iref (t j) + 1\<rparr>))" for j
    by (auto simp: locked_in_def held_by_def fun_eq_iff)
  have b: "(locked_in q ip t)(j := (locked_in q ip t j)\<lparr>idev := d, inum := k, iref := 1, ivalid := False\<rparr>) =
      locked_in q ip (t(j := (t j)\<lparr>idev := d, inum := k, iref := 1, ivalid := False\<rparr>))" if "j \<noteq> ip" for j d
    using that by (auto simp: locked_in_def fun_eq_iff)
  show ?thesis
  proof (cases "find_inode t ROOTDEV k")
    case (Some j)
    then have "iget ROOTDEV k s = (Inr j, s\<lparr>inodes := locked_in q ip (t(j := (t j)\<lparr>iref := iref (t j) + 1\<rparr>))\<rparr>)"
      using iget_run [OF l, of ROOTDEV k] t(1) a [of j] by (simp add: upd_inode_def locked_find)
    then show ?thesis using tab_get [OF t(2) r, of k] Some by auto
  next
    case None
    then obtain j where e: "find_empty t = Some j" using r by (cases "find_empty t") (auto simp: find_empty_def find_None_iff)
    then have ne: "j \<noteq> ip" using find_empty_Some [OF e] ip by auto
    then have "iget ROOTDEV k s = (Inr j, s\<lparr>inodes := locked_in q ip (t(j := (t j)\<lparr>idev := ROOTDEV, inum := k, iref := 1, ivalid := False\<rparr>))\<rparr>)"
      using iget_run [OF l, of ROOTDEV k] t(1) b [of j ROOTDEV] None e by (simp add: upd_inode_def locked_find)
    then show ?thesis using tab_get [OF t(2) r, of k] None e ne by auto
  qed
qed

text \<open>Giving a reference back, when the inode has a link or other references.\<close>

lemma tab_put:
  assumes ok: "tab_ok sp V t" and j: "j < NINODE" "0 < iref (t j)" and k: "k = (ROOTDEV, inum (t j))"
  shows "tab_ok sp V (t(j := (t j)\<lparr>iref := iref (t j) - 1\<rparr>))" and "refs (t(j := (t j)\<lparr>iref := iref (t j) - 1\<rparr>)) = (refs t)(k := refs t k - 1)"
proof -
  let ?x = "(t j)\<lparr>iref := iref (t j) - 1\<rparr>"
  have it: "itable_ok t" and d: "idev (t j) = ROOTDEV" using ok j by (auto simp: tab_ok_def)
  have f: "find_inode t (fst k) (snd k) = Some j" using find_inode_Some [OF it] j k d by simp
  note u = itable_upd [OF it j(1), of ?x]
  have "refs t k = iref (t j)" using refs_eq [OF it j] k d by simp
  then show "refs (t(j := ?x)) = (refs t)(k := refs t k - 1)" using u(2,3) f j k d by (auto simp: fun_eq_iff)
  have "itable_ok (t(j := ?x))" using u(1) f j k d by simp
  moreover have "disk_fields ?x = disk_fields (t j)" by (simp add: disk_fields_def)
  ultimately show "tab_ok sp V (t(j := ?x))" using ok j by (auto simp: tab_ok_def)
qed

section \<open>Locking an inode\<close>

text \<open>What \<^verbatim>\<open>ilock\<close> finds or reads.\<close>

definition loaded :: "superblock \<Rightarrow> (nat \<Rightarrow> u8 list) \<Rightarrow> inode \<Rightarrow> inode" where
  "loaded sp V x = (if ivalid x then x else (load_dinode (V (inode_block sp x)) (dinode_at (inum x)) x)\<lparr>ivalid := True\<rparr>)"

lemma loaded_fields:
  "iref (loaded sp V x) = iref x" "idev (loaded sp V x) = idev x" "inum (loaded sp V x) = inum x" "ilk (loaded sp V x) = ilk x" "ivalid (loaded sp V x)"
  by (simp_all add: loaded_def load_dinode_def)

lemma loaded_disk:
  assumes "tab_ok sp V t" and "j < NINODE" and "0 < iref (t j)"
  shows "disk_fields (loaded sp V (t j)) = disk_fields (dino sp V (inum (t j)))"
proof (cases "ivalid (t j)")
  case True
  then show ?thesis using assms by (simp add: tab_ok_def loaded_def)
next
  case False
  then have "disk_fields (loaded sp V (t j)) = disk_fields (load_dinode (V (inode_block sp (t j))) (dinode_at (inum (t j))) (t j))"
    by (simp add: loaded_def disk_fields_def)
  then show ?thesis unfolding dino_def inode_block_def using disk_fields_load by metis
qed

lemma tab_loaded:
  assumes "tab_ok sp V t" and "j < NINODE" and "0 < iref (t j)"
  shows "tab_ok sp V (t(j := loaded sp V (t j)))" and "refs (t(j := loaded sp V (t j))) = refs t"
proof -
  let ?t = "t(j := loaded sp V (t j))"
  have e: "iref (?t i) = iref (t i)" "idev (?t i) = idev (t i)" "inum (?t i) = inum (t i)" "ilk (?t i) = ilk (t i)" for i
    by (simp_all add: loaded_fields)
  then have f: "find_inode ?t d k = find_inode t d k" for d k by (simp add: find_inode_def)
  show "refs ?t = refs t" unfolding refs_def f e ..
  have "itable_ok ?t = itable_ok t" unfolding itable_ok_def e ..
  then show "tab_ok sp V ?t" using assms loaded_disk [OF assms] by (auto simp: tab_ok_def loaded_fields)
qed

lemma live_inode:
  assumes "live_tree sp st V S" and "i \<in> S"
  shows "itype (dino sp V i) \<noteq> 0" and "inlink (dino sp V i) \<noteq> 0" and "unat (IBLOCK i sp) < 2 ^ 31"
    and "itype (dino sp V i) = T_DIR \<Longrightarrow> dir_ok sp st V (dino sp V i)"
    and "itype (dino sp V i) = T_DIR \<Longrightarrow> dir_map (contents V (dino sp V i)) nm = Some k \<Longrightarrow> ucast k \<in> S"
proof -
  have l: "let x = dino sp V i in itype x \<noteq> 0 \<and> inlink x \<noteq> 0 \<and> inode_block_ok sp st V x \<and> file_ok sp V x \<and>
     (itype x = T_DIR \<longrightarrow> dir_ok sp st V x \<and> (\<forall>nm k. dir_map (contents V x) nm = Some k \<longrightarrow> ucast k \<in> S))" "fs_layout sp st V"
    using assms by (auto simp: live_tree_def)
  then show "itype (dino sp V i) \<noteq> 0" "inlink (dino sp V i) \<noteq> 0" "itype (dino sp V i) = T_DIR \<Longrightarrow> dir_ok sp st V (dino sp V i)"
    "itype (dino sp V i) = T_DIR \<Longrightarrow> dir_map (contents V (dino sp V i)) nm = Some k \<Longrightarrow> ucast k \<in> S" by (simp_all add: Let_def)
  have "unat (IBLOCK i sp) < unat (sb_bmapstart sp)" using l(1) by (simp add: Let_def inode_block_ok_def inode_block_def)
  moreover have "unat (sb_bmapstart sp) < 2 ^ 31" using l(2) by (simp add: fs_layout_def data_start_def)
  ultimately show "unat (IBLOCK i sp) < 2 ^ 31" by linarith
qed

lemma load_held: "(load_dinode d o1 (held_by q x))\<lparr>ivalid := True\<rparr> = held_by q ((load_dinode d o1 x)\<lparr>ivalid := True\<rparr>)"
  by (cases x) (simp add: load_dinode_def held_by_def cong: if_cong)

lemma ilock_loads:
  assumes t: "txo oc p st n V Map.empty F s" and n: "n < NBUF" and sp: "sb F = sp" and ok: "tab_ok sp V (inodes F)" and ip: "ip < NINODE" "0 < iref (inodes F ip)"
    and S: "live_tree sp st V S" "inum (inodes F ip) \<in> S"
  shows "\<exists>s'. ilock (Some ip) s = (Inr (), s') \<and>
    txo oc p st n V Map.empty (upd_inode ip (\<lambda>x. held_by (pid (proc_table F p)) (loaded sp V x)) F) s'"
proof (cases "ivalid (inodes F ip)")
  case True
  then have l: "can_lock (inodes F ip)" using ok ip by (simp add: can_lock_def tab_ok_def)
  have "upd_inode ip (\<lambda>x. held_by q (loaded sp V x)) F = upd_inode ip (held_by q) F" for q using True by (simp add: upd_inode_def loaded_def)
  then show ?thesis using ilock_tx [OF t l] by simp
next
  case False
  let ?q = "pid (proc_table F p)" and ?x = "inodes F ip" and ?bno = "IBLOCK (inum (inodes F ip)) sp"
  have f: "inodes s ip = ?x" "proc_table s = proc_table F" "sb s = sp" using tx_inodes [OF t] tx_fields(3) [OF t] tx_sb [OF t] sp by simp_all
  have lk: "lk_idle (ilk ?x)" "idev ?x = ROOTDEV" using ok ip by (simp_all add: tab_ok_def)
  let ?s1 = "upd_inode ip (held_by ?q) s"
  have a: "acquiresleep (ChInodeLock ip) (il_get ip) (il_upd ip) s = (Inr (), ?s1)"
    using ilk.acquiresleep_free [where i = ip and s = s and p = p] lk f quiet_cur [OF tx_quiet [OF t]]
    by (simp add: lk_idle_def lock_idle_def held_by_def upd_inode_def)
  have t1: "txo oc p st n V Map.empty (upd_inode ip (held_by ?q) F) ?s1" by (rule tx_inode [OF t])
  obtain b s2 where s2: "bread ROOTDEV ?bno ?s1 = (Inr b, s2)" "txo oc p st n V [b \<mapsto> unat ?bno] (upd_inode ip (held_by ?q) F) s2" "bdata s2 b = V (unat ?bno)"
    using tx_bread [OF t1 live_inode(3) [OF S]] n by auto
  let ?ld = "load_dinode (V (unat ?bno)) (dinode_at (inum ?x))"
  have t3: "txo oc p st n V [b \<mapsto> unat ?bno] (upd_inode ip ?ld (upd_inode ip (held_by ?q) F)) (upd_inode ip ?ld s2)" by (rule tx_inode [OF s2(2)])
  obtain s4 where s4: "brelse b (upd_inode ip ?ld s2) = (Inr (), s4)" "txo oc p st n V Map.empty (upd_inode ip ?ld (upd_inode ip (held_by ?q) F)) s4"
    using tx_brelse [OF t3, of b] by auto
  let ?F5 = "upd_inode ip (\<lambda>x. x\<lparr>ivalid := True\<rparr>) (upd_inode ip ?ld (upd_inode ip (held_by ?q) F))" and ?s5 = "upd_inode ip (\<lambda>x. x\<lparr>ivalid := True\<rparr>) s4"
  have t5: "txo oc p st n V Map.empty ?F5 ?s5" by (rule tx_inode [OF s4(2)])
  have F5: "?F5 = upd_inode ip (\<lambda>x. held_by ?q (loaded sp V x)) F"
    using False load_held by (simp add: upd_inode_def loaded_def inode_block_def)
  have "itype (inodes ?s5 ip) = itype (loaded sp V ?x)" using tx_inodes(1) [OF t5] unfolding F5 by (simp add: upd_inode_def)
  then have ty: "itype (inodes ?s5 ip) \<noteq> 0"
    using disk_fields_types [OF loaded_disk [OF ok ip]] live_inode(1) [OF S] by simp
  have i1: "sb ?s1 = sp" "inodes ?s1 ip = held_by ?q ?x" using f by (simp_all add: upd_inode_def)
  have "ilock (Some ip) s = (Inr (), ?s5)"
    using a i1 s2(1,3) s4(1) ty f ip(2) False lk(2) by (simp add: ilock_def)
  then show ?thesis using t5 unfolding F5 by blast
qed

lemma inodes_id: "inodes s = t \<Longrightarrow> s\<lparr>inodes := t\<rparr> = s"
  by (erule subst) simp

lemma upd_inode_table: "upd_inode ip f F = F\<lparr>inodes := (inodes F)(ip := f (inodes F ip))\<rparr>"
  by (simp add: upd_inode_def)

text \<open>Unlocking and giving the reference back.\<close>

lemma iunlockput_tab:
  assumes t: "txo oc p st n V H (F\<lparr>inodes := locked_in (pid (proc_table F p)) ip tab\<rparr>) s" and ok: "tab_ok sp V tab" and ip: "ip < NINODE" "0 < iref (tab ip)"
    and v: "ivalid (tab ip)" and S: "live_tree sp st V S" "inum (tab ip) \<in> S" and l: "lock_idle (itable_lock F)" "current_proc F = Some p"
  shows "\<exists>s'. iunlockput ip s = (Inr (), s') \<and> txo oc p st n V H (F\<lparr>inodes := tab(ip := (tab ip)\<lparr>iref := iref (tab ip) - 1\<rparr>)\<rparr>) s'"
proof -
  let ?F = "F\<lparr>inodes := locked_in (pid (proc_table F p)) ip tab\<rparr>"
  have c: "can_lock (tab ip)" using ok ip v by (simp add: can_lock_def tab_ok_def)
  have x: "inodes ?F ip = held_by (pid (proc_table ?F p)) (tab ip)" by (simp add: locked_in_def)
  have e: "upd_inode ip (\<lambda>_. tab ip) ?F = F\<lparr>inodes := tab\<rparr>" by (simp add: upd_inode_def locked_in_def)
  obtain s1 where s1: "iunlock (Some ip) s = (Inr (), s1)" "txo oc p st n V H (F\<lparr>inodes := tab\<rparr>) s1" using iunlock_tx [OF t x c] unfolding e by blast
  have "disk_fields (tab ip) = disk_fields (dino sp V (inum (tab ip)))" using ok ip v by (simp add: tab_ok_def)
  then have "inlink (tab ip) \<noteq> 0" using disk_fields_types live_inode(2) [OF S] by metis
  moreover have f: "inodes s1 = tab" "itable_lock s1 = itable_lock F" "current_proc s1 = Some p"
    using tx_inodes [OF s1(2)] tx_fields(2) [OF s1(2)] l(2) by simp_all
  ultimately have "iput ip s1 = (Inr (), upd_inode ip (\<lambda>x. x\<lparr>iref := iref x - 1\<rparr>) s1)" using iput_keep [of s1 p ip] l(1) by simp
  moreover have "txo oc p st n V H (F\<lparr>inodes := tab(ip := (tab ip)\<lparr>iref := iref (tab ip) - 1\<rparr>)\<rparr>) (upd_inode ip (\<lambda>x. x\<lparr>iref := iref x - 1\<rparr>) s1)"
    using tx_inode [OF s1(2), of ip "\<lambda>x. x\<lparr>iref := iref x - 1\<rparr>"] by (simp add: upd_inode_def)
  ultimately show ?thesis using s1(1) by (simp add: iunlockput_def)
qed

section \<open>Looking up a name in a locked directory\<close>

lemma dirlookup_tab:
  fixes F :: "('a) kino_scheme"
  assumes t: "txo oc p st n V Map.empty (F\<lparr>inodes := locked_in q ip tab\<rparr>) s" and n: "n < NBUF" and ok: "tab_ok sp V tab" and ip: "ip < NINODE" "0 < iref (tab ip)"
    and v: "ivalid (tab ip)" "inum (tab ip) = i" and S: "live_tree sp st V S" "i \<in> S" and d: "itype (dino sp V i) = T_DIR" and nm: "DIRSIZ \<le> length name"
    and l: "lock_idle (itable_lock F)" "current_proc F = Some p" and r: "\<exists>j < NINODE. iref (tab j) = 0"
  shows "\<exists>s' M. (\<forall>a. \<not> in_range de DIRENT_SIZE a \<longrightarrow> M a = mem F a) \<and> (case dir_map (contents V (dino sp V i)) (cname DIRSIZ name) of
      None \<Rightarrow> dirlookup de ip name s = (Inr None, s') \<and> txo oc p st n V Map.empty (F\<lparr>mem := M, inodes := locked_in q ip tab\<rparr>) s'
    | Some k \<Rightarrow> \<exists>j y off. dirlookup de ip name s = (Inr (Some (j, off)), s') \<and>
        txo oc p st n V Map.empty (F\<lparr>mem := M, inodes := locked_in q ip (tab(j := y))\<rparr>) s' \<and> j < NINODE \<and> 0 < iref y \<and> inum y = ucast k \<and>
        tab_ok sp V (tab(j := y)) \<and> refs (tab(j := y)) = (refs tab)((ROOTDEV, ucast k) := refs tab (ROOTDEV, ucast k) + 1) \<and>
        (j = ip \<longrightarrow> y = (tab ip)\<lparr>iref := iref (tab ip) + 1\<rparr>))"
proof -
  let ?x = "held_by q (tab ip)" and ?F = "F\<lparr>inodes := locked_in q ip tab\<rparr>" and ?c = "contents V (dino sp V i)"
  have df: "disk_fields ?x = disk_fields (dino sp V i)" "idev ?x = ROOTDEV" using ok ip v by (simp_all add: tab_ok_def)
  have dk: "dir_ok sp st V ?x" using disk_fields_dir [OF df(1), of sp st V] df(2) live_inode(4) [OF S d] by simp
  have c: "contents V ?x = ?c" by (rule disk_fields_same(3) [OF df(1)])
  have xi: "inodes ?F ip = ?x" by (simp add: locked_in_def)
  obtain s1 M where s1: "dirlookup de ip name s = (case dir_find ?c (cname DIRSIZ name) of None \<Rightarrow> kret None
       | Some i \<Rightarrow> kbind (iget ROOTDEV (ucast (ent_inum (dent ?c i)))) (\<lambda>j. kret (Some (j, of_nat (DIRENT_SIZE * i))))) s1"
      "txo oc p st n V Map.empty (?F\<lparr>mem := M\<rparr>) s1" "\<forall>a. \<not> in_range de DIRENT_SIZE a \<longrightarrow> M a = mem F a"
    using dirlookup_run [OF t dk xi n nm, of de] unfolding c df(2) by auto
  show ?thesis
  proof (cases "dir_find ?c (cname DIRSIZ name)")
    case None
    have "inodes s1 = locked_in q ip tab" using tx_inodes(1) [OF s1(2)] by simp
    then have "s1\<lparr>inodes := locked_in q ip tab\<rparr> = s1" by (rule inodes_id)
    then have "txo oc p st n V Map.empty (F\<lparr>mem := M, inodes := locked_in q ip tab\<rparr>) s1" using tx_itable [OF s1(2), of "locked_in q ip tab"] by simp
    then show ?thesis using s1(1,3) None by (intro exI [of _ s1] exI [of _ M]) (simp add: dir_map_def)
  next
    case (Some e)
    let ?k = "ucast (ent_inum (dent ?c e)) :: u32"
    have f: "inodes s1 = locked_in q ip tab" "lock_idle (itable_lock s1)" "current_proc s1 = Some p"
      using tx_inodes [OF s1(2)] tx_fields(2) [OF s1(2)] l by simp_all
    obtain j y where g: "iget ROOTDEV ?k s1 = (Inr j, s1\<lparr>inodes := locked_in q ip (tab(j := y))\<rparr>)" "j < NINODE" "0 < iref y" "inum y = ?k" "tab_ok sp V (tab(j := y))"
        "refs (tab(j := y)) = (refs tab)((ROOTDEV, ?k) := refs tab (ROOTDEV, ?k) + 1)" "j = ip \<longrightarrow> y = (tab ip)\<lparr>iref := iref (tab ip) + 1\<rparr>"
      using iget_locked [OF f(2,3,1) ok r ip(2), of ?k] by blast
    have t2: "txo oc p st n V Map.empty (F\<lparr>mem := M, inodes := locked_in q ip (tab(j := y))\<rparr>) (s1\<lparr>inodes := locked_in q ip (tab(j := y))\<rparr>)"
      using tx_itable [OF s1(2), of "locked_in q ip (tab(j := y))"] by simp
    have "dirlookup de ip name s = (Inr (Some (j, of_nat (DIRENT_SIZE * e))), s1\<lparr>inodes := locked_in q ip (tab(j := y))\<rparr>)"
      using s1(1) Some g(1) by simp
    then show ?thesis using Some s1(3) t2 g(2-7)
      by (intro exI [of _ "s1\<lparr>inodes := locked_in q ip (tab(j := y))\<rparr>"] exI [of _ M]) (auto simp: dir_map_def)
  qed
qed

section \<open>Walking a path\<close>

text \<open>The state between two names: \<open>R\<close> are the references before the call, and the walk holds one more, to inode \<open>i\<close> in entry \<open>ip\<close>.\<close>

definition walk_at :: "int \<Rightarrow> nat \<Rightarrow> nat \<Rightarrow> nat \<Rightarrow> (nat \<Rightarrow> u8 list) \<Rightarrow> addr \<Rightarrow> (u32 \<times> u32 \<Rightarrow> int) \<Rightarrow> ('a) kino_scheme \<Rightarrow> u32 option \<Rightarrow> nat option \<Rightarrow> ('a) kino_scheme \<Rightarrow> bool" where
  "walk_at oc p st n V de R F i ip s \<longleftrightarrow> (\<exists>M tab. txo oc p st n V Map.empty (F\<lparr>mem := M, inodes := tab\<rparr>) s \<and> (\<forall>a. \<not> in_range de DIRENT_SIZE a \<longrightarrow> M a = mem F a) \<and>
     tab_ok (sb F) V tab \<and> (case (i, ip) of
       (Some k, Some j) \<Rightarrow> j < NINODE \<and> 0 < iref (tab j) \<and> inum (tab j) = k \<and> refs tab = R((ROOTDEV, k) := R (ROOTDEV, k) + 1)
     | (None, None) \<Rightarrow> refs tab = R
     | _ \<Rightarrow> False))"

definition step_name :: "stop + carray \<times> carray \<Rightarrow> u8 list" where
  "step_name r = (case r of Inl _ \<Rightarrow> [] | Inr (n, q) \<Rightarrow> cname DIRSIZ n)"

lemma extra_ref_slot:
  assumes "itable_ok t" and "refs t = R(k := R k + 1)" and "finite {k. 0 < R k}" and "card {k. 0 < R k} + 1 < NINODE"
  shows "\<exists>j < NINODE. iref (t j) = 0"
proof (rule free_slot [OF assms(1)])
  have "{x. 0 < refs t x} \<subseteq> insert k {k. 0 < R k}" unfolding assms(2) by auto
  then have "card {x. 0 < refs t x} \<le> card (insert k {k. 0 < R k})" using assms(3) by (intro card_mono) simp_all
  also have "\<dots> \<le> card {k. 0 < R k} + 1" by (simp add: card_insert_if assms(3))
  finally show "card {x. 0 < refs t x} < NINODE" using assms(4) by simp
qed

lemma namex_step:
  fixes F :: "('a) kino_scheme"
  assumes w: "walk_at oc p st n V (fr_lookup fr) R F (Some i) (Some ip) s" and n: "n < NBUF" and S: "live_tree (sb F) st V S" "i \<in> S" and nm: "DIRSIZ \<le> length nm"
    and l: "lock_idle (itable_lock F)" "current_proc F = Some p" and R: "finite {k. 0 < R k}" "card {k. 0 < R k} + 1 < NINODE"
  shows "\<exists>s'. case resolve (sb F) V i [cname DIRSIZ nm] of
      None \<Rightarrow> namex_loop fr False ip name (Inr (nm, q) # ps) s = (Inr (None, nm), s') \<and> walk_at oc p st n V (fr_lookup fr) R F None None s'
    | Some k \<Rightarrow> \<exists>j. namex_loop fr False ip name (Inr (nm, q) # ps) s = namex_loop fr False j nm ps s' \<and> walk_at oc p st n V (fr_lookup fr) R F (Some k) (Some j) s'"
proof -
  let ?sp = "sb F" and ?de = "fr_lookup fr" and ?q = "pid (proc_table F p)"
  obtain M t0 where t: "txo oc p st n V Map.empty (F\<lparr>mem := M, inodes := t0\<rparr>) s" "\<forall>a. \<not> in_range ?de DIRENT_SIZE a \<longrightarrow> M a = mem F a"
      "tab_ok ?sp V t0" "ip < NINODE" "0 < iref (t0 ip)" "inum (t0 ip) = i" "refs t0 = R((ROOTDEV, i) := R (ROOTDEV, i) + 1)"
    using w unfolding walk_at_def by auto
  obtain tab where tab: "tab = t0(ip := loaded ?sp V (t0 ip))" by simp
  have ok: "tab_ok ?sp V tab" "refs tab = R((ROOTDEV, i) := R (ROOTDEV, i) + 1)" using tab_loaded [OF t(3-5)] t(7) tab by simp_all
  have f: "0 < iref (tab ip)" "ivalid (tab ip)" "inum (tab ip) = i" using t(5,6) tab by (simp_all add: loaded_fields)
  have iS: "inum (tab ip) \<in> S" using f(3) S(2) by simp
  have e: "upd_inode ip (\<lambda>x. held_by ?q (loaded ?sp V x)) (F\<lparr>mem := M, inodes := t0\<rparr>) = F\<lparr>mem := M, inodes := locked_in ?q ip tab\<rparr>"
    by (simp add: upd_inode_def locked_in_def tab)
  have i0: "inum (inodes (F\<lparr>mem := M, inodes := t0\<rparr>) ip) \<in> S" using t(6) S(2) by simp
  obtain s1 where s1: "ilock (Some ip) s = (Inr (), s1)" "txo oc p st n V Map.empty (F\<lparr>mem := M, inodes := locked_in ?q ip tab\<rparr>) s1"
    using ilock_loads [OF t(1) n _ _ t(4) _ S(1) i0] t(3,5) e by auto
  have ty: "itype (inodes s1 ip) = itype (dino ?sp V i)"
    using tx_inodes(1) [OF s1(2)] disk_fields_types [OF loaded_disk [OF t(3-5)]] t(6) tab by (simp add: locked_in_def)
  have none: "\<exists>s'. iunlockput ip r = (Inr (), s') \<and> walk_at oc p st n V ?de R F None None s'"
    if r: "txo oc p st n V Map.empty (F\<lparr>mem := M', inodes := locked_in ?q ip tab\<rparr>) r" and M': "\<forall>a. \<not> in_range ?de DIRENT_SIZE a \<longrightarrow> M' a = mem F a" for M' r
  proof -
    have "refs (tab(ip := (tab ip)\<lparr>iref := iref (tab ip) - 1\<rparr>)) = R" using tab_put(2) [OF ok(1) t(4) f(1) refl] unfolding f(3) ok(2) by simp
    moreover obtain s' where "iunlockput ip r = (Inr (), s')" "txo oc p st n V Map.empty (F\<lparr>mem := M', inodes := tab(ip := (tab ip)\<lparr>iref := iref (tab ip) - 1\<rparr>)\<rparr>) s'"
      using iunlockput_tab [where F = "F\<lparr>mem := M'\<rparr>" and s = r and tab = tab and ip = ip and p = p and n = n and H = Map.empty, OF _ ok(1) t(4) f(1,2) S(1) iS] r l by auto
    ultimately show ?thesis
      using M' tab_put(1) [OF ok(1) t(4) f(1) refl] unfolding walk_at_def
      by (intro exI [of _ s'] conjI exI [of _ M'] exI [of _ "tab(ip := (tab ip)\<lparr>iref := iref (tab ip) - 1\<rparr>)"]) auto
  qed
  show ?thesis
  proof (cases "itype (dino ?sp V i) = T_DIR")
    case False
    then show ?thesis using none [OF s1(2) t(2)] s1(1) ty by auto
  next
    case True
    have slot: "\<exists>j < NINODE. iref (tab j) = 0" using extra_ref_slot [OF _ ok(2) R] ok(1) by (simp add: tab_ok_def)
    have l': "lock_idle (itable_lock (F\<lparr>mem := M\<rparr>))" "current_proc (F\<lparr>mem := M\<rparr>) = Some p" using l by simp_all
    have dl: "\<exists>s' M'. (\<forall>a. \<not> in_range ?de DIRENT_SIZE a \<longrightarrow> M' a = M a) \<and> (case dir_map (contents V (dino ?sp V i)) (cname DIRSIZ nm) of
        None \<Rightarrow> dirlookup ?de ip nm s1 = (Inr None, s') \<and> txo oc p st n V Map.empty (F\<lparr>mem := M', inodes := locked_in ?q ip tab\<rparr>) s'
      | Some k \<Rightarrow> \<exists>j y off. dirlookup ?de ip nm s1 = (Inr (Some (j, off)), s') \<and>
          txo oc p st n V Map.empty (F\<lparr>mem := M', inodes := locked_in ?q ip (tab(j := y))\<rparr>) s' \<and> j < NINODE \<and> 0 < iref y \<and> inum y = ucast k \<and>
          tab_ok ?sp V (tab(j := y)) \<and> refs (tab(j := y)) = (refs tab)((ROOTDEV, ucast k) := refs tab (ROOTDEV, ucast k) + 1) \<and>
          (j = ip \<longrightarrow> y = (tab ip)\<lparr>iref := iref (tab ip) + 1\<rparr>))"
      using dirlookup_tab [where F = "F\<lparr>mem := M\<rparr>", OF s1(2) n ok(1) t(4) f S True nm l' slot, of ?de] by (simp cong: option.case_cong)
    show ?thesis
    proof (cases "dir_map (contents V (dino ?sp V i)) (cname DIRSIZ nm)")
      case None
      obtain s2 M' where s2: "\<forall>a. \<not> in_range ?de DIRENT_SIZE a \<longrightarrow> M' a = M a" "dirlookup ?de ip nm s1 = (Inr None, s2)"
          "txo oc p st n V Map.empty (F\<lparr>mem := M', inodes := locked_in ?q ip tab\<rparr>) s2" using dl None by auto
      have "\<forall>a. \<not> in_range ?de DIRENT_SIZE a \<longrightarrow> M' a = mem F a" using s2(1) t(2) by simp
      then show ?thesis using none [OF s2(3)] s1(1) ty True None s2(2) by auto
    next
      case (Some k)
      obtain s2 M' j y off where s2: "\<forall>a. \<not> in_range ?de DIRENT_SIZE a \<longrightarrow> M' a = M a" "dirlookup ?de ip nm s1 = (Inr (Some (j, off)), s2)"
          "txo oc p st n V Map.empty (F\<lparr>mem := M', inodes := locked_in ?q ip (tab(j := y))\<rparr>) s2" "j < NINODE" "0 < iref y" "inum y = ucast k"
          "tab_ok ?sp V (tab(j := y))" "refs (tab(j := y)) = (refs tab)((ROOTDEV, ucast k) := refs tab (ROOTDEV, ucast k) + 1)"
          "j = ip \<longrightarrow> y = (tab ip)\<lparr>iref := iref (tab ip) + 1\<rparr>"
        using dl unfolding Some option.case by (elim exE conjE) (rule that)
      obtain t2 where t2: "t2 = tab(j := y)" by simp
      have g: "0 < iref (t2 ip)" "ivalid (t2 ip)" "inum (t2 ip) = i" "inum (t2 ip) \<in> S" using s2(5,9) f S(2) t2 by auto
      let ?u = "t2(ip := (t2 ip)\<lparr>iref := iref (t2 ip) - 1\<rparr>)"
      have u: "tab_ok ?sp V ?u" "refs ?u = R((ROOTDEV, ucast k) := R (ROOTDEV, ucast k) + 1)"
        using tab_put [OF s2(7) [folded t2] t(4) g(1) refl] s2(8) [folded t2] ok(2) g(3) by (auto simp: fun_eq_iff)
      have uj: "0 < iref (?u j)" "inum (?u j) = ucast k"
        using s2(5,6,9) f(1,3) t2 by auto
      obtain s3 where s3: "iunlockput ip s2 = (Inr (), s3)" "txo oc p st n V Map.empty (F\<lparr>mem := M', inodes := ?u\<rparr>) s3"
        using iunlockput_tab [where F = "F\<lparr>mem := M'\<rparr>" and s = s2 and tab = t2 and ip = ip and p = p and n = n and H = Map.empty, OF _ s2(7) [folded t2] t(4) g(1,2) S(1) g(4)] s2(3) [folded t2] l by auto
      have "walk_at oc p st n V ?de R F (Some (ucast k)) (Some j) s3"
        unfolding walk_at_def using s3(2) s2(1,4) t(2) u uj by (intro exI [of _ M'] exI [of _ ?u]) simp
      moreover have "namex_loop fr False ip name (Inr (nm, q) # ps) s = namex_loop fr False j nm ps s3" using s1(1) ty True s2(2) s3(1) by simp
      ultimately show ?thesis using True Some by auto
    qed
  qed
qed

lemma resolve_Cons: "resolve sp V i (nm # nms) = (case resolve sp V i [nm] of None \<Rightarrow> None | Some k \<Rightarrow> resolve sp V k nms)"
  by (simp split: option.split)

lemma namex_loop_run:
  fixes F :: "('a) kino_scheme"
  assumes w: "walk_at oc p st n V (fr_lookup fr) R F (Some i) (Some ip) s" and n: "n < NBUF" and S: "live_tree (sb F) st V S" "i \<in> S"
    and ps: "\<forall>r \<in> set ps. \<exists>nm q. r = Inr (nm, q) \<and> DIRSIZ \<le> length nm"
    and l: "lock_idle (itable_lock F)" "current_proc F = Some p" and R: "finite {k. 0 < R k}" "card {k. 0 < R k} + 1 < NINODE"
  shows "\<exists>r nm s'. namex_loop fr False ip name ps s = (Inr (r, nm), s') \<and> walk_at oc p st n V (fr_lookup fr) R F (resolve (sb F) V i (map step_name ps)) r s'"
  using w S(2) ps
proof (induction ps arbitrary: i ip name s)
  case Nil
  then show ?case by auto
next
  case (Cons r ps)
  obtain nm q where r: "r = Inr (nm, q)" "DIRSIZ \<le> length nm" using Cons.prems(3) by auto
  have sn: "map step_name (r # ps) = cname DIRSIZ nm # map step_name ps" by (simp add: r step_name_def)
  have rs: "resolve (sb F) V i (map step_name (r # ps)) =
      (case resolve (sb F) V i [cname DIRSIZ nm] of None \<Rightarrow> None | Some k \<Rightarrow> resolve (sb F) V k (map step_name ps))"
    unfolding sn by (rule resolve_Cons)
  note st = namex_step [OF Cons.prems(1) n S(1) Cons.prems(2) r(2) l R, of name q ps, folded r(1)]
  show ?case
  proof (cases "resolve (sb F) V i [cname DIRSIZ nm]")
    case None
    then show ?thesis using st unfolding rs None option.case by blast
  next
    case (Some k)
    obtain s1 j where s1: "namex_loop fr False ip name (r # ps) s = namex_loop fr False j nm ps s1"
        "walk_at oc p st n V (fr_lookup fr) R F (Some k) (Some j) s1" using st unfolding Some option.case by blast
    have "k \<in> S" using Some live_inode(5) [OF S(1) Cons.prems(2)] by (auto split: if_splits option.splits)
    then show ?thesis using Cons.IH [OF s1(2), of nm] Cons.prems(3) s1(1) unfolding rs Some option.case by simp
  qed
qed

lemma path_steps_length:
  assumes "0 \<notin> set p" and "length name = DIRSIZ"
  shows "\<forall>x \<in> set (path_steps (p @ 0 # r) name). \<exists>nm q. x = Inr (nm, q) \<and> DIRSIZ \<le> length nm"
  using assms
proof (induction "length p" arbitrary: p name rule: less_induct)
  case less
  show ?case
  proof (cases "skip_slash p = []")
    case True
    then show ?thesis using skipelem_zstr [OF less.prems(1)] by (simp add: path_steps.simps [of "p @ 0 # r"])
  next
    case False
    let ?s = "skip_slash p"
    let ?e = "takeWhile (\<lambda>c. c \<noteq> slash) ?s" and ?q = "skip_slash (dropWhile (\<lambda>c. c \<noteq> slash) ?s)"
    have z: "0 \<notin> set ?q" using less.prems by (auto simp: skip_slash_def dest!: set_dropWhileD)
    have sk: "skipelem (p @ 0 # r) name = Inr (Some (?q @ 0 # r, put_name ?e name))"
      using skipelem_zstr [OF less.prems(1)] False by simp
    have "length ?q < length p" using skipelem_shorter [OF sk] by simp
    then show ?thesis using less.hyps [OF _ z length_put_name [OF less.prems(2), of ?e]] length_put_name [OF less.prems(2), of ?e]
      by (simp add: path_steps.simps [of "p @ 0 # r"] sk)
  qed
qed

lemma mark_last_names: "map (\<lambda>x. fst (the x)) (mark_last es) = map (take DIRSIZ) es"
  by (induction es) simp_all

lemma path_steps_names:
  assumes "0 \<notin> set p" and "length name = DIRSIZ"
  shows "map step_name (path_steps (p @ 0 # r) name) = map (take DIRSIZ) (path_elems p)"
proof -
  let ?ps = "path_steps (p @ 0 # r) name"
  have "map step_name ?ps = map (\<lambda>x. fst (the x)) (step_names ?ps)"
    using path_steps_length [OF assms, of r] by (auto simp: step_names_def step_name_def array_name_def cname_def)
  also have "\<dots> = map (\<lambda>x. fst (the x)) (mark_last (path_elems p))" using path_steps_marks [OF assms(1)] by simp
  also have "\<dots> = map (take DIRSIZ) (path_elems p)" by (rule mark_last_names)
  finally show ?thesis .
qed

lemma namei_run:
  fixes F :: "('a) kino_scheme"
  assumes t: "txo oc p st n V Map.empty F s" and n: "n < NBUF" and S: "live_tree (sb F) st V S" and ok: "tab_ok (sb F) V (inodes F)"
    and l: "lock_idle (itable_lock F)" "current_proc F = Some p" and c: "card {k. 0 < refs (inodes F) k} + 1 < NINODE"
    and path: "zstr path (slash # q)" and nm: "length (fr_name fr) = DIRSIZ"
  shows "\<exists>r s'. namei fr path s = (Inr r, s') \<and>
    walk_at oc p st n V (fr_lookup fr) (refs (inodes F)) F (resolve (sb F) V ROOTINO (map (take DIRSIZ) (path_elems q))) r s'"
proof -
  let ?R = "refs (inodes F)"
  have it: "itable_ok (inodes F)" using ok by (simp add: tab_ok_def)
  have R: "finite {k. 0 < ?R k}" by (rule refs_finite [OF it])
  have slot: "\<exists>j < NINODE. iref (inodes F j) = 0" using free_slot [OF it] c by simp
  have f: "inodes s = inodes F" "lock_idle (itable_lock s)" "current_proc s = Some p" using tx_inodes [OF t] tx_fields(2) [OF t] l by simp_all
  obtain j y where g: "iget ROOTDEV ROOTINO s = (Inr j, s\<lparr>inodes := (inodes F)(j := y)\<rparr>)" "j < NINODE" "0 < iref y" "inum y = ROOTINO"
      "tab_ok (sb F) V ((inodes F)(j := y))" "refs ((inodes F)(j := y)) = ?R((ROOTDEV, ROOTINO) := ?R (ROOTDEV, ROOTINO) + 1)"
    using iget_tab [OF f(2,3,1) ok slot, of ROOTINO] by blast
  have "walk_at oc p st n V (fr_lookup fr) ?R F (Some ROOTINO) (Some j) (s\<lparr>inodes := (inodes F)(j := y)\<rparr>)"
    unfolding walk_at_def using tx_itable [OF t, of "(inodes F)(j := y)"] g(2-6)
    by (intro exI [of _ "mem F"] exI [of _ "(inodes F)(j := y)"]) simp
  moreover obtain e where p: "path = slash # q @ 0 # e" "0 \<notin> set (slash # q)" using path by (auto simp: zstr_def)
  have "ROOTINO \<in> S" using S by (simp add: live_tree_def)
  moreover have "map step_name (path_steps path (fr_name fr)) = map (take DIRSIZ) (path_elems q)"
    using path_steps_names [OF p(2) nm, of e] p(1) by (simp add: path_elems_slash)
  ultimately show ?thesis
    using namex_loop_run [OF _ n S _ _ l R c, of oc fr ROOTINO j "s\<lparr>inodes := (inodes F)(j := y)\<rparr>" "path_steps path (fr_name fr)" "fr_name fr"]
      path_steps_length [OF p(2) nm, of e] p(1) g(1) by (auto simp: namei_def namex_def)
qed

section \<open>A small tree\<close>

text \<open>The root directory, in block 46, has one entry, the file \<^verbatim>\<open>ab\<close> with inode 7; the inode table is empty.\<close>

definition tree_root :: inode where
  "tree_root = demo_inode\<lparr>itype := T_DIR, isize := 16, iaddrs := (\<lambda>_. 0)(0 := 46)\<rparr>"

definition tree_entry :: "u8 list" where
  "tree_entry = [7, 0, 97, 98] @ replicate 12 0"

definition tree_disk :: "nat \<Rightarrow> u8 list" where
  "tree_disk = zero_disk(45 := demo_bitmap, 33 := store_dinode tree_root 64 (store_dinode demo_inode 448 (replicate BSIZE 0)),
     46 := tree_entry @ replicate (BSIZE - 16) 0)"

definition tree_st :: kino where
  "tree_st = klog.extend (demo_log 0 tree_disk) \<lparr>sb = demo_sb, itable_lock = fresh_lock ''itable'', inodes = (\<lambda>_. demo_inode\<lparr>iref := 0\<rparr>)\<rparr>"

lemma tree_tx: "tx 1 2 0 tree_disk Map.empty (frame tree_st) tree_st"
proof -
  have D: "length (tree_disk 2) = BSIZE" "sint (get32 (tree_disk 2) 0) = 0" using zero_head by (simp_all add: tree_disk_def)
  have "LogCrash.pending (demo_log 0 tree_disk) 1 2 (demo_blocks 0)" by (rule demo_log_pending) (use D in simp_all)
  then have p: "LogCrash.pending tree_st 1 2 []" by (simp add: tree_st_def LogCrash.pending_def log_at_def extend_abs extend_inv demo_blocks_def)
  have w: "outstanding (wal tree_st) = 1" "\<not> committing (wal tree_st)" "lock_idle (llock (wal tree_st))"
    by (simp_all add: tree_st_def demo_log_fields demo_wal_def lock_idle_def fresh_lock_def)
  have d: "a_disk (abs_cache tree_st) = tree_disk" using demo_log_abs(1) [of 0 tree_disk] by (simp add: tree_st_def extend_abs)
  have "a_view (abs_cache tree_st) = a_disk (abs_cache tree_st)" using pending_clean [OF p] by auto
  then show ?thesis
    using w pending_in_trans [OF p w(3)] p by (auto simp: tx_def LogCrash.pending_def d intro!: exI [of _ "[]"])
qed

lemma tree_fields:
  "sb (frame tree_st) = demo_sb" "inodes (frame tree_st) = (\<lambda>_. demo_inode\<lparr>iref := 0\<rparr>)" "lock_idle (itable_lock (frame tree_st))"
  "current_proc (frame tree_st) = Some 1"
  by (simp_all add: frame_def tree_st_def klog.extend_def demo_log_def kdisk.extend_def demo_disk_defs lock_idle_def)

lemma tree_dino: "disk_fields (dino demo_sb tree_disk 1) = disk_fields tree_root" "disk_fields (dino demo_sb tree_disk 7) = disk_fields demo_inode"
proof -
  have b: "unat (IBLOCK 1 demo_sb) = 33" "unat (IBLOCK 7 demo_sb) = 33" "dinode_at 1 = 64" "dinode_at 7 = 448"
    by (simp_all add: IBLOCK_def demo_sb_def IPB_def BSIZE_def DINODE_SIZE_def dinode_at_def)
  have l: "64 + DINODE_SIZE \<le> length (store_dinode demo_inode 448 (replicate BSIZE 0))" "448 + DINODE_SIZE \<le> length (replicate BSIZE (0 :: u8))"
    by (simp_all add: DINODE_SIZE_def BSIZE_def)
  have d: "tree_disk 33 = store_dinode tree_root 64 (store_dinode demo_inode 448 (replicate BSIZE 0))" by (simp add: tree_disk_def)
  show "disk_fields (dino demo_sb tree_disk 1) = disk_fields tree_root" unfolding dino_def b d by (rule load_store_dinode [OF l(1)])
  have "load_dinode (tree_disk 33) 448 y = load_dinode (store_dinode demo_inode 448 (replicate BSIZE 0)) 448 y" for y
    unfolding d by (rule load_other_dinode) (use l in \<open>simp_all add: DINODE_SIZE_def BSIZE_def\<close>)
  then show "disk_fields (dino demo_sb tree_disk 7) = disk_fields demo_inode" unfolding dino_def b by (simp add: load_store_dinode [OF l(2)])
qed

lemma tree_layout: "fs_layout demo_sb 2 tree_disk" "blk_ok demo_sb tree_disk 46"
proof -
  have f: "blk_free demo_sb tree_disk k = blk_free demo_sb (zero_disk(45 := demo_bitmap)) k" if "k < 200" for k
    using that by (simp add: blk_free_def bmap_block_def BPB_val demo_sb_def tree_disk_def)
  show "fs_layout demo_sb 2 tree_disk"
    using demo_layout f by (auto simp: fs_layout_def data_start_def BPB_val) (auto simp: demo_sb_def tree_disk_def BSIZE_def)
  have "bit_clear demo_bitmap 46 = False" using demo_bitmap_used by simp
  moreover have "length (tree_disk 46) = BSIZE" by (simp add: tree_disk_def tree_entry_def BSIZE_def)
  ultimately show "blk_ok demo_sb tree_disk 46"
    using f [of 46] by (simp add: blk_ok_def data_start_def) (simp add: demo_sb_def BPB_val blk_free_def bmap_block_def)
qed

lemma tree_root_ok: "dir_ok demo_sb 2 tree_disk tree_root" "contents tree_disk tree_root = tree_entry"
proof -
  have a: "ablk V tree_root i = (if i = 0 then 46 else 0)" for V i
    by (auto simp: ablk_def addr_at_def tree_root_def NDIRECT_def MAXFILE_def)
  have "file_ok demo_sb tree_disk tree_root"
    using tree_layout(2) by (auto simp: file_ok_def a) (auto simp: tree_root_def demo_inode_def MAXFILE_val BSIZE_def)
  then show "dir_ok demo_sb 2 tree_disk tree_root"
    using tree_layout(1) by (simp add: dir_ok_def) (simp add: tree_root_def DIRENT_SIZE_def)
  have d: "tree_disk 46 = tree_entry @ replicate (BSIZE - 16) 0" "length tree_entry = 16" by (simp_all add: tree_disk_def tree_entry_def)
  have "fbyte tree_disk tree_root k = tree_entry ! k" if "k < 16" for k
    using that d by (simp add: fbyte_def a nth_append) (simp add: BSIZE_def nth_append)
  then show "contents tree_disk tree_root = tree_entry"
    using d(2) by (auto simp: contents_def list_eq_iff_nth_eq) (simp_all add: tree_root_def)
qed

lemma tree_map: "dir_map tree_entry nm = (if nm = [97, 98] then Some 7 else None)"
proof -
  have e: "ent_inum (dent tree_entry 0) = 7" "ent_name (dent tree_entry 0) = [97, 98]" by code_simp+
  then have "has_name tree_entry nm 0 \<longleftrightarrow> nm = [97, 98]" by (auto simp: has_name_def)
  moreover have "[0..<length tree_entry div DIRENT_SIZE] = [0]" by code_simp
  ultimately show ?thesis using e(1) by (simp add: dir_map_def dir_find_def)
qed

lemma tree_live: "live_tree demo_sb 2 tree_disk {1, 7}"
proof -
  note d = disk_fields_types [OF tree_dino(1)] disk_fields_types [OF tree_dino(2)] disk_fields_same(3) [OF tree_dino(1)]
  have "idev tree_root = ROOTDEV" by (simp add: tree_root_def demo_inode_def)
  then have r: "dir_ok demo_sb 2 tree_disk (dino demo_sb tree_disk 1)" using disk_fields_dir [OF tree_dino(1)] tree_root_ok(1) by simp
  have "length (tree_disk 33) = BSIZE"
    by (simp add: tree_disk_def) (subst length_store_dinode, (subst length_store_dinode)?, simp_all add: DINODE_SIZE_def BSIZE_def)
  moreover have "inode_block demo_sb (dino demo_sb tree_disk i) = 33" if "i \<in> {1, 7}" for i
    using that by (auto simp: inode_block_def IBLOCK_def demo_sb_def IPB_def BSIZE_def DINODE_SIZE_def)
  ultimately have "inode_block_ok demo_sb 2 tree_disk (dino demo_sb tree_disk i)" if "i \<in> {1, 7}" for i
    using that by (auto simp: inode_block_ok_def demo_sb_def log_area_def LOGBLOCKS_def MAXOPBLOCKS_def)
  moreover have "dir_map (contents tree_disk (dino demo_sb tree_disk 1)) nm = (if nm = [97, 98] then Some 7 else None)" for nm
    using d(3) tree_root_ok(2) tree_map by simp
  moreover have "file_ok demo_sb tree_disk (dino demo_sb tree_disk 7)"
    using demo_file [of tree_disk] disk_fields_same [OF tree_dino(2)] by (simp add: file_ok_def)
  ultimately show ?thesis using d(1,2) r tree_layout(1) r [unfolded dir_ok_def]
    by (auto simp: live_tree_def Let_def ROOTINO_def tree_root_def demo_inode_def T_DIR_def T_FILE_def split: if_splits)
qed

lemma tree_table: "tab_ok demo_sb tree_disk (\<lambda>_. demo_inode\<lparr>iref := 0\<rparr>)" "refs (\<lambda>_. demo_inode\<lparr>iref := 0\<rparr>) = (\<lambda>_. 0)"
proof -
  show "tab_ok demo_sb tree_disk (\<lambda>_. demo_inode\<lparr>iref := 0\<rparr>)"
    by (simp add: tab_ok_def itable_ok_def) (simp add: demo_inode_def lk_idle_def fresh_sleeplock_def fresh_lock_def lock_idle_def)
  have "find_inode (\<lambda>_. demo_inode\<lparr>iref := 0\<rparr>) d k = None" for d k by (simp add: find_inode_def find_None_iff)
  then show "refs (\<lambda>_. demo_inode\<lparr>iref := 0\<rparr>) = (\<lambda>_. 0)" by (simp add: refs_def fun_eq_iff)
qed

lemma tree_resolve: "resolve demo_sb tree_disk ROOTINO (map (take DIRSIZ) (path_elems [97, 98])) = Some 7"
proof -
  have "path_elems [97, 98] = [[97, 98]]" by (simp add: path_elems_def slash_def)
  then show ?thesis
    using disk_fields_types [OF tree_dino(1)] disk_fields_same(3) [OF tree_dino(1), of tree_disk] tree_root_ok(2) tree_map
    by (simp add: ROOTINO_def DIRSIZ_def) (simp add: tree_root_def)
qed

section \<open>Main theorem\<close>

text \<open>C17. \<^verbatim>\<open>namei\<close> resolves absolute paths. Inside a transaction, or outside of one as
  \<^verbatim>\<open>ker_open\<close> calls it, on a disk whose directories form a tree, with no inode locked and two entries of the inode table to
  spare, \<^verbatim>\<open>namei\<close> of a path always returns. The answer is that of walking the names of the path, cut to
  \<^verbatim>\<open>DIRSIZ\<close> bytes, through the directories on the disk: no inode if a name is missing or a step goes through something that is
  no directory, and otherwise an entry of the inode table for the inode the names lead to. The call holds exactly one new reference, to that inode,
  and every reference taken on the way has been given back; no inode stays locked, nothing is written to the disk, and the memory changes only in the
  buffer that \<^verbatim>\<open>dirlookup\<close> reads entries into.\<close>

theorem namei_resolves:
  fixes F :: "('a) kino_scheme"
  assumes "txo oc p st n V Map.empty F s" and "n < NBUF" and "live_tree (sb F) st V S" and "tab_ok (sb F) V (inodes F)"
    and "lock_idle (itable_lock F)" and "current_proc F = Some p" and "card {k. 0 < refs (inodes F) k} + 1 < NINODE"
    and "zstr path (slash # q)" and "length (fr_name fr) = DIRSIZ"
  shows "\<exists>r s' M t. namei fr path s = (Inr r, s') \<and> txo oc p st n V Map.empty (F\<lparr>mem := M, inodes := t\<rparr>) s' \<and>
    (\<forall>a. \<not> in_range (fr_lookup fr) DIRENT_SIZE a \<longrightarrow> M a = mem F a) \<and> tab_ok (sb F) V t \<and>
    (case resolve (sb F) V ROOTINO (map (take DIRSIZ) (path_elems q)) of
       None \<Rightarrow> r = None \<and> refs t = refs (inodes F)
     | Some k \<Rightarrow> \<exists>j < NINODE. r = Some j \<and> 0 < iref (t j) \<and> inum (t j) = k \<and>
         refs t = (refs (inodes F))((ROOTDEV, k) := refs (inodes F) (ROOTDEV, k) + 1))"
  using namei_run [OF assms] unfolding walk_at_def
  by (fastforce split: option.splits)

theorem namei_resolves_witness:
  "\<exists>j s'. namei demo_frames [slash, 97, 98, 0] tree_st = (Inr (Some j), s') \<and> j < NINODE \<and> inum (inodes s' j) = 7 \<and> iref (inodes s' j) = 1"
proof -
  have c: "card {k. 0 < refs (inodes (frame tree_st)) k} + 1 < NINODE" unfolding tree_fields tree_table by (simp add: NINODE_def)
  have l: "live_tree (sb (frame tree_st)) 2 tree_disk {1, 7}" "tab_ok (sb (frame tree_st)) tree_disk (inodes (frame tree_st))"
    unfolding tree_fields by (rule tree_live, rule tree_table(1))
  have n: "0 < NBUF" by (simp add: NBUF_def MAXOPBLOCKS_def)
  have z: "zstr [slash, 97, 98, 0] (slash # [97, 98])" by (simp add: zstr_def slash_def)
  obtain j s' M t where r: "namei demo_frames [slash, 97, 98, 0] tree_st = (Inr (Some j), s')" "j < NINODE" "0 < iref (t j)" "inum (t j) = 7"
      "tx 1 2 0 tree_disk Map.empty ((frame tree_st)\<lparr>mem := M, inodes := t\<rparr>) s'" "tab_ok demo_sb tree_disk t"
      "refs t = (\<lambda>_. 0)((ROOTDEV, 7) := 1)"
    using namei_resolves [OF tree_tx n l(1,2) tree_fields(3,4) c z, of demo_frames] tree_resolve unfolding tree_fields tree_table
    by (auto simp: demo_frames_def DIRSIZ_def)
  moreover have "inodes s' = t" using tx_inodes [OF r(5)] by simp
  moreover have "iref (t j) = 1" using refs_eq [of t j] r by (auto simp: tab_ok_def)
  ultimately show ?thesis by auto
qed

end
