(* ===== verification/FdSpec.thy ===== *)
theory FdSpec
  imports FileSpec
begin

text \<open>
  Reading and writing through a file descriptor: \<^verbatim>\<open>ker_write\<close> and \<^verbatim>\<open>ker_read\<close> of \<^verbatim>\<open>kernel/file.c\<close> move the bytes between the
  user's buffer and the file in pieces of 256 bytes, each a transaction of its own.
\<close>

section \<open>The user's buffer and the kernel's\<close>

text \<open>Memory differs at most in the kernel's buffer.\<close>

definition but_kbuf :: "addr \<Rightarrow> phys \<Rightarrow> phys \<Rightarrow> bool" where
  "but_kbuf kbuf m m' \<longleftrightarrow> (\<forall>b. \<not> in_range kbuf KBUF b \<longrightarrow> m' b = m b)"

text \<open>The \<open>n\<close> bytes at user address \<open>a\<close> are mapped at the addresses \<open>as\<close>; neither they nor the page tables share a byte with the
  kernel's buffer.\<close>

definition user_buf :: "('a) kpm_scheme \<Rightarrow> addr \<Rightarrow> addr \<Rightarrow> u64 \<Rightarrow> nat \<Rightarrow> addr list \<Rightarrow> bool" where
  "user_buf s pt kbuf a n as \<longleftrightarrow> pt_wf (mem s) 2 pt \<and> nonnull_map (pt_map (mem s) 2 pt) \<and>
     (\<forall>x \<in> pt_tabs (mem s) 2 pt. \<forall>b. in_range x PGSIZE b \<longrightarrow> \<not> in_range kbuf KBUF b) \<and>
     user_addrs (pt_map (mem s) 2 pt) a n = Some as \<and> (\<forall>b \<in> set as. \<not> in_range kbuf KBUF b)"

lemma user_addrs_part:
  assumes "user_addrs pm va n = Some as" and "i + m \<le> n"
  shows "user_addrs pm (va + of_nat i) m = Some (take m (drop i as))"
  using assms
proof (induction i arbitrary: va n as)
  case 0
  then show ?case
  proof (induction m arbitrary: va n as)
    case (Suc m)
    then obtain k where "n = Suc k" by (cases n) auto
    then show ?case using Suc by (auto split: option.splits)
  qed simp
next
  case (Suc i)
  then obtain k where k: "n = Suc k" by (cases n) auto
  then obtain a as' where "as = a # as'" "user_addrs pm (va + 1) k = Some as'" using Suc.prems(1) by (auto split: option.splits)
  then show ?case using Suc.IH [of "va + 1" k as'] Suc.prems(2) k by (simp add: add.assoc)
qed

lemma kbuf_frame:
  assumes u: "user_buf s pt kbuf a n as" and m: "but_kbuf kbuf (mem s) m"
  shows "pt_wf m 2 pt" and "pt_map m 2 pt = pt_map (mem s) 2 pt" and "pt_tabs m 2 pt = pt_tabs (mem s) 2 pt" and "map m as = map (mem s) as"
proof -
  have "m b = mem s b" if "x \<in> pt_tabs (mem s) 2 pt" "in_range x PGSIZE b" for x b
    using u m that by (auto simp: user_buf_def but_kbuf_def)
  then show "pt_wf m 2 pt" "pt_map m 2 pt = pt_map (mem s) 2 pt" "pt_tabs m 2 pt = pt_tabs (mem s) 2 pt"
    using pt_frame [of "mem s" 2 pt m] u unfolding user_buf_def by blast+
  show "map m as = map (mem s) as" using u m by (auto simp: user_buf_def but_kbuf_def)
qed

lemma copyin_part:
  assumes u: "user_buf s pt kbuf a n as" and m: "but_kbuf kbuf (mem s) m" and nz: "0 \<notin> set (map (mem s) as)" and k: "i + k \<le> n"
  shows "copyin_loop m pt (a + of_nat i) k = (0, take k (drop i (map (mem s) as)))"
proof -
  note f = kbuf_frame [OF u m]
  have "user_addrs (pt_map m 2 pt) (a + of_nat i) k = Some (take k (drop i as))"
    using user_addrs_part [OF _ k, of "pt_map m 2 pt" a as] u f(2) by (simp add: user_buf_def)
  then have "user_bytes m (pt_map m 2 pt) (a + of_nat i) k = Some (take k (drop i (map (mem s) as)))"
    using f(4) by (auto simp: user_bytes_def take_map drop_map dest: in_set_takeD in_set_dropD)
  moreover have "upto_nul (take k (drop i (map (mem s) as))) = take k (drop i (map (mem s) as))"
    using nz by (intro upto_nul_id) (meson in_set_takeD in_set_dropD)
  ultimately show ?thesis using copyin_loop_bytes [of m pt] f(1,2) u by (simp add: user_buf_def)
qed

lemma but_kbuf_write: "but_kbuf kbuf m m' \<Longrightarrow> length bs \<le> KBUF \<Longrightarrow> but_kbuf kbuf m (write_bytes m' kbuf bs)"
  by (auto simp: but_kbuf_def write_bytes_def in_range_def)

lemma fs_idle_mem [simp]: "fs_idle (s\<lparr>mem := m\<rparr>) p st = fs_idle s p st" "disk (s\<lparr>mem := m\<rparr>) = disk s"
  by (simp_all add: fs_idle_def pending_def log_at_def outside_fields)

lemma idle_cur: "fs_idle s p st \<Longrightarrow> current_proc s = Some p"
  by (simp add: fs_idle_def pending_def log_at_def cache_inv_def quiet_cur)

lemma put_bytes_append:
  assumes "off \<le> length c"
  shows "put_bytes (off + length xs) ys (put_bytes off xs c) = put_bytes off (xs @ ys) c"
  using assms by (simp add: put_bytes_def ac_simps)

lemma length_put_bytes_ge: "off \<le> length c \<Longrightarrow> off + length bs \<le> length (put_bytes off bs c)"
  by (simp add: put_bytes_def)

lemma chunks_piece: "m \<le> KBUF \<Longrightarrow> length (chunks off m) \<le> 2"
proof (cases "m = 0")
  case False
  assume "m \<le> KBUF"
  moreover have "off mod BSIZE < BSIZE" by (simp add: BSIZE_def)
  ultimately show ?thesis using chunks_length [of m off] False by (simp add: BSIZE_def KBUF_def)
qed (simp add: chunks.simps)

section \<open>Writing\<close>

text \<open>After \<open>tot\<close> bytes of \<open>bs\<close> have been written from state \<open>s0\<close>.\<close>

definition wr_inv :: "addr \<Rightarrow> nat \<Rightarrow> nat \<Rightarrow> nat \<Rightarrow> nat \<Rightarrow> ('a) kfile_scheme \<Rightarrow> u8 list \<Rightarrow> nat \<Rightarrow> ('a) kfile_scheme \<Rightarrow> inode \<Rightarrow> bool" where
  "wr_inv kbuf p st f ip s0 bs tot s x \<longleftrightarrow> fs_idle s p st \<and>
     (\<exists>M. frame s = upd_file f (\<lambda>y. y\<lparr>foff := foff y + of_nat tot\<rparr>) (upd_inode ip (\<lambda>_. x) ((frame s0)\<lparr>mem := M\<rparr>)) \<and> but_kbuf kbuf (mem s0) M) \<and>
     (\<exists>sz ad. x = (inodes s0 ip)\<lparr>isize := sz, iaddrs := ad\<rparr>) \<and> inode_ok (sb s0) st (disk s) x \<and>
     contents (disk s) x = put_bytes (unat (foff (files s0 f))) (take tot bs) (contents (disk s0) (inodes s0 ip)) \<and>
     (\<forall>b. blk_ok (sb s0) (disk s0) b \<and> b \<notin> own (disk s0) (inodes s0 ip) \<longrightarrow> disk s b = disk s0 b \<and> blk_ok (sb s0) (disk s) b \<and> b \<notin> own (disk s) x)"

lemma unat_add_off:
  assumes "unat (off :: u32) + k \<le> MAXFILE * BSIZE"
  shows "unat (off + of_nat k) = unat off + k"
proof -
  have "k < 2 ^ 31" using assms by (simp add: MAXFILE_val BSIZE_def)
  then show ?thesis using assms unat_block [of k] by (simp add: unat_word_ariths MAXFILE_val BSIZE_def)
qed

lemma wr_step:
  fixes s0 :: "('a) kfile_scheme"
  assumes inv: "wr_inv kbuf p st f ip s0 bs tot s x" and u: "user_buf s0 (pagetable (proc_table s0 p)) kbuf a (length bs) as"
    and bs: "map (mem s0) as = bs" "0 \<notin> set bs" and F: "file_on (files s0 f) ip" "fwritable (files s0 f)" and l: "can_lock (inodes s0 ip)"
    and off: "unat (foff (files s0 f)) \<le> unat (isize (inodes s0 ip))" "unat (foff (files s0 f)) + length bs \<le> MAXFILE * BSIZE"
    and m: "0 < m" "m \<le> KBUF" "tot + m \<le> length bs" and fr: "4 \<le> free_cnt (sb s0) (disk s)"
  shows "\<exists>s' x'. ker_write_loop kbuf f a tot ((i, m) # ps) s = ker_write_loop kbuf f a (tot + m) ps s' \<and>
    wr_inv kbuf p st f ip s0 bs (tot + m) s' x' \<and> free_cnt (sb s0) (disk s) \<le> free_cnt (sb s0) (disk s') + 4"
proof -
  let ?pt = "pagetable (proc_table s0 p)" and ?base = "foff (files s0 f)" and ?old = "inodes s0 ip" and ?sp = "sb s0"
  let ?piece = "take m (drop tot bs)" and ?off = "foff (files s0 f) + of_nat tot"
  obtain M sz ad where v: "fs_idle s p st" "frame s = upd_file f (\<lambda>y. y\<lparr>foff := foff y + of_nat tot\<rparr>) (upd_inode ip (\<lambda>_. x) ((frame s0)\<lparr>mem := M\<rparr>))"
      "but_kbuf kbuf (mem s0) M" "x = ?old\<lparr>isize := sz, iaddrs := ad\<rparr>" "inode_ok ?sp st (disk s) x"
      "contents (disk s) x = put_bytes (unat ?base) (take tot bs) (contents (disk s0) ?old)"
      "\<forall>b. blk_ok ?sp (disk s0) b \<and> b \<notin> own (disk s0) ?old \<longrightarrow> disk s b = disk s0 b \<and> blk_ok ?sp (disk s) b \<and> b \<notin> own (disk s) x"
    using inv unfolding wr_inv_def by blast
  have f: "files s f = (files s0 f)\<lparr>foff := ?off\<rparr>" "inodes s ip = x" "sb s = ?sp" "mem s = M" "proc_table s = proc_table s0"
    using arg_cong [OF v(2), of files] arg_cong [OF v(2), of inodes] arg_cong [OF v(2), of sb] arg_cong [OF v(2), of mem] arg_cong [OF v(2), of proc_table]
    by (simp_all add: frame_def)
  have cur: "current_proc s = Some p" by (rule idle_cur [OF v(1)])
  have ci: "copyin_loop (mem s) ?pt (a + of_nat tot) m = (0, ?piece)"
    using copyin_part [OF u v(3), of tot m] bs m f(4) by simp
  let ?M = "write_bytes M kbuf ?piece" and ?s1 = "s\<lparr>mem := write_bytes M kbuf (take m (drop tot bs))\<rparr>"
  have lb: "length ?piece = m" using m by simp
  have o: "unat ?off = unat ?base + tot" using unat_add_off [of ?base tot] off(2) m by simp
  have c0: "unat ?base \<le> length (contents (disk s0) ?old)" using off(1) by simp
  have sz: "unat ?off \<le> unat (isize x)"
    using length_put_bytes_ge [OF c0, of "take tot bs"] arg_cong [OF v(6), of length] o m by simp
  have k: "2 * length (chunks (unat ?off) m) \<le> 4" using chunks_piece [OF m(2), of "unat ?off"] by simp
  have pre: "fs_idle ?s1 p st" "file_on (files ?s1 f) ip" "fwritable (files ?s1 f)" "inodes ?s1 ip = x" "can_lock x"
      "inode_ok (sb ?s1) st (disk ?s1) x" "foff (files ?s1 f) = ?off" "unat ?off + m \<le> MAXFILE * BSIZE" "m \<le> write_max"
      "2 * length (chunks (unat ?off) m) \<le> free_cnt (sb ?s1) (disk ?s1)"
    using v(1,5) f F l o off(2) m fr k by (simp_all add: file_on_def can_lock_def v(4) write_max_def MAXOPBLOCKS_def BSIZE_def KBUF_def)
  obtain s' x' where r: "write_file f kbuf (int m) ?s1 = (Inr (int m), s')" "fs_idle s' p st"
      "frame s' = upd_file f (\<lambda>y. y\<lparr>foff := ?off + of_nat m\<rparr>) (upd_inode ip (\<lambda>_. x') (frame ?s1))"
      "x' = x\<lparr>isize := isize x', iaddrs := iaddrs x'\<rparr>" "inode_ok ?sp st (disk s') x'"
      "contents (disk s') x' = put_bytes (unat ?off) (read_bytes ?M kbuf m) (contents (disk s) x)"
      "\<forall>b. blk_ok ?sp (disk s) b \<and> b \<notin> own (disk s) x \<longrightarrow> disk s' b = disk s b \<and> blk_ok ?sp (disk s') b \<and> b \<notin> own (disk s') x'"
      "free_cnt ?sp (disk s) \<le> free_cnt ?sp (disk s') + 2 * length (chunks (unat ?off) m)"
    using write_file_run [OF pre(1-7) sz pre(8-10), of kbuf] f(3) by auto
  have "ker_write_loop kbuf f a tot ((i, m) # ps) s = ker_write_loop kbuf f a (tot + m) ps s'"
    using ci cur f(4,5) r(1) m by (simp add: copyin_def myproc_def)
  moreover have "wr_inv kbuf p st f ip s0 bs (tot + m) s' x'"
  proof -
    have fr': "frame s' = upd_file f (\<lambda>y. y\<lparr>foff := foff y + of_nat (tot + m)\<rparr>) (upd_inode ip (\<lambda>_. x') ((frame s0)\<lparr>mem := ?M\<rparr>))"
      unfolding r(3) frame_mem v(2) by (simp add: upd_file_def upd_inode_def add.assoc)
    have bk: "but_kbuf kbuf (mem s0) ?M" using but_kbuf_write [OF v(3)] m lb by simp
    have "read_bytes ?M kbuf m = ?piece" using read_write_bytes [of ?piece M kbuf] lb m by (simp add: KBUF_def)
    then have ct: "contents (disk s') x' = put_bytes (unat ?base) (take (tot + m) bs) (contents (disk s0) ?old)"
      using put_bytes_append [OF c0, of "take tot bs" ?piece] r(6) v(6) o m by (simp add: take_add)
    have ex: "\<exists>sz ad. x' = ?old\<lparr>isize := sz, iaddrs := ad\<rparr>"
      by (intro exI, rule trans [OF r(4)]) (simp add: v(4))
    have ot: "\<forall>b. blk_ok ?sp (disk s0) b \<and> b \<notin> own (disk s0) ?old \<longrightarrow> disk s' b = disk s0 b \<and> blk_ok ?sp (disk s') b \<and> b \<notin> own (disk s') x'"
      using r(7) v(7) by simp
    show ?thesis unfolding wr_inv_def using r(2,5) fr' bk ct ex ot by blast
  qed
  ultimately show ?thesis using r(8) k by (intro exI [of _ s'] exI [of _ x']) linarith
qed

lemma ker_write_loop_run:
  fixes s0 :: "('a) kfile_scheme"
  assumes "wr_inv kbuf p st f ip s0 bs tot s x" and "tot + n = length bs" and "4 * length (pieces KBUF i n) \<le> free_cnt (sb s0) (disk s)"
    and c: "user_buf s0 (pagetable (proc_table s0 p)) kbuf a (length bs) as" "map (mem s0) as = bs" "0 \<notin> set bs"
      "file_on (files s0 f) ip" "fwritable (files s0 f)" "can_lock (inodes s0 ip)"
      "unat (foff (files s0 f)) \<le> unat (isize (inodes s0 ip))" "unat (foff (files s0 f)) + length bs \<le> MAXFILE * BSIZE"
  shows "\<exists>s' x'. ker_write_loop kbuf f a tot (pieces KBUF i n) s = (Inr (int (length bs)), s') \<and> wr_inv kbuf p st f ip s0 bs (length bs) s' x'"
  using assms(1-3)
proof (induction n arbitrary: tot i s x rule: less_induct)
  case (less n)
  show ?case
  proof (cases "n = 0")
    case True
    then show ?thesis using less.prems by (intro exI [of _ s] exI [of _ x]) (simp add: pieces_one)
  next
    case False
    let ?m = "min n KBUF" and ?ps = "pieces KBUF (i + min n KBUF) (n - min n KBUF)"
    have ps: "pieces KBUF i n = (i, ?m) # ?ps" using False by (subst pieces.simps) (simp add: KBUF_def Let_def)
    have m: "0 < ?m" "?m \<le> KBUF" "tot + ?m \<le> length bs" "n - ?m < n" using False less.prems(2) by (simp_all add: KBUF_def)
    have fr: "4 \<le> free_cnt (sb s0) (disk s)" using less.prems(3) unfolding ps by simp
    obtain s1 x1 where r: "ker_write_loop kbuf f a tot ((i, ?m) # ?ps) s = ker_write_loop kbuf f a (tot + ?m) ?ps s1"
        "wr_inv kbuf p st f ip s0 bs (tot + ?m) s1 x1" "free_cnt (sb s0) (disk s) \<le> free_cnt (sb s0) (disk s1) + 4"
      using wr_step [OF less.prems(1) c m(1-3) fr, of i ?ps] by blast
    have t: "tot + ?m + (n - ?m) = length bs" using less.prems(2) by simp
    have g: "4 * length ?ps \<le> free_cnt (sb s0) (disk s1)"
    proof -
      obtain l where "length ?ps = l" by simp
      then show ?thesis using less.prems(3) r(3) unfolding ps by simp
    qed
    show ?thesis using less.IH [OF m(4) r(2) t g] r(1) unfolding ps by simp
  qed
qed

lemma wr_inv_start:
  assumes "fs_idle s p st" and "inode_ok (sb s) st (disk s) (inodes s ip)"
  shows "wr_inv kbuf p st f ip s bs 0 s (inodes s ip)"
proof -
  have "upd_file f (\<lambda>y. y\<lparr>foff := foff y + of_nat 0\<rparr>) (upd_inode ip (\<lambda>_. inodes s ip) ((frame s)\<lparr>mem := mem s\<rparr>)) = frame s"
    by (simp add: upd_file_def upd_inode_def frame_def)
  moreover have "\<exists>sz ad. inodes s ip = (inodes s ip)\<lparr>isize := sz, iaddrs := ad\<rparr>"
    by (intro exI [of _ "isize (inodes s ip)"] exI [of _ "iaddrs (inodes s ip)"]) simp
  ultimately show ?thesis using assms unfolding wr_inv_def
    by (intro conjI exI [of _ "mem s"]) (simp_all add: but_kbuf_def put_bytes_def)
qed

section \<open>Reading\<close>

text \<open>After \<open>tot\<close> bytes have been read from state \<open>s0\<close>; \<open>ds\<close> are the bytes of the file from its position on.\<close>

definition rd_inv :: "addr \<Rightarrow> nat \<Rightarrow> nat \<Rightarrow> nat \<Rightarrow> ('a) kfile_scheme \<Rightarrow> addr list \<Rightarrow> u8 list \<Rightarrow> nat \<Rightarrow> ('a) kfile_scheme \<Rightarrow> bool" where
  "rd_inv kbuf p st f s0 as ds tot s \<longleftrightarrow> fs_idle s p st \<and>
     (\<exists>M. frame s = upd_file f (\<lambda>y. y\<lparr>foff := foff y + of_nat tot\<rparr>) ((frame s0)\<lparr>mem := M\<rparr>) \<and>
       (\<forall>b. \<not> in_range kbuf KBUF b \<and> b \<notin> set (take tot as) \<longrightarrow> M b = mem s0 b) \<and> map M (take tot as) = take tot ds) \<and>
     (\<forall>k. k \<notin> log_area st \<longrightarrow> disk s k = disk s0 k) \<and> tot \<le> length ds"

lemma user_frame:
  assumes u: "user_buf s pt kbuf a n as" and fa: "frames_apart (mem s) pt"
    and m: "\<forall>b. \<not> in_range kbuf KBUF b \<and> b \<notin> set as \<longrightarrow> m b = mem s b"
  shows "pt_wf m 2 pt" and "pt_map m 2 pt = pt_map (mem s) 2 pt" and "frames_apart m pt"
proof -
  have "b \<notin> set as" if "x \<in> pt_tabs (mem s) 2 pt" "in_range x PGSIZE b" for x b
    using user_addrs_translate [of _ a n as b] u fa that by (auto simp: user_buf_def frames_apart_def)
  then have "m b = mem s b" if "x \<in> pt_tabs (mem s) 2 pt" "in_range x PGSIZE b" for x b
    using u m that by (auto simp: user_buf_def)
  then have f: "pt_tabs m 2 pt = pt_tabs (mem s) 2 pt \<and> pt_wf m 2 pt \<and> pt_map m 2 pt = pt_map (mem s) 2 pt"
    using pt_frame [of "mem s" 2 pt m] u unfolding user_buf_def by blast
  then show "pt_wf m 2 pt" "pt_map m 2 pt = pt_map (mem s) 2 pt" by simp_all
  show "frames_apart m pt" using fa f by (simp add: frames_apart_def)
qed

lemma copyout_part:
  fixes s :: "('a) kpm_scheme"
  assumes u: "user_buf s pt kbuf a n as" and fa: "frames_apart (mem s) pt"
    and m: "\<forall>b. \<not> in_range kbuf KBUF b \<and> b \<notin> set as \<longrightarrow> mem t b = mem s b" and k: "i + length bs \<le> n"
  shows "copyout pt (a + of_nat i) bs t = (Inr 0, t\<lparr>mem := write_at (mem t) (take (length bs) (drop i as)) bs\<rparr>)"
proof -
  note f = user_frame [OF u fa m]
  have "user_addrs (pt_map (mem t) 2 pt) (a + of_nat i) (length bs) = Some (take (length bs) (drop i as))"
    using user_addrs_part [OF _ k, of "pt_map (mem t) 2 pt" a as] u f(2) by (simp add: user_buf_def)
  then show ?thesis using copyout_run [of t pt "a + of_nat i" bs] f u by (simp add: user_buf_def)
qed

lemma rd_step:
  fixes s0 :: "('a) kfile_scheme"
  assumes inv: "rd_inv kbuf p st f s0 as ds tot s" and u: "user_buf s0 (pagetable (proc_table s0 p)) kbuf a n as" and fa: "frames_apart (mem s0) (pagetable (proc_table s0 p))"
    and di: "distinct as" and F: "file_on (files s0 f) ip" "freadable (files s0 f)" and l: "can_lock (inodes s0 ip)" and ok: "inode_ok (sb s0) st (disk s0) (inodes s0 ip)"
    and off: "unat (foff (files s0 f)) \<le> unat (isize (inodes s0 ip))" and ds: "ds = drop (unat (foff (files s0 f))) (contents (disk s0) (inodes s0 ip))"
    and m: "m \<le> KBUF" "tot + m \<le> n"
  shows "\<exists>s1 s'. read f kbuf (int m) s = (Inr (int (min m (length ds - tot))), s1) \<and> current_proc s1 = Some p \<and> proc_table s1 = proc_table s0 \<and>
    copyout (pagetable (proc_table s0 p)) (a + of_nat tot) (read_bytes (mem s1) kbuf (min m (length ds - tot))) s1 = (Inr 0, s') \<and>
    rd_inv kbuf p st f s0 as ds (tot + min m (length ds - tot)) s'"
proof -
  let ?base = "foff (files s0 f)" and ?x = "inodes s0 ip" and ?sp = "sb s0" and ?off = "foff (files s0 f) + of_nat tot" and ?k = "min m (length ds - tot)"
  obtain M where v: "fs_idle s p st" "frame s = upd_file f (\<lambda>y. y\<lparr>foff := foff y + of_nat tot\<rparr>) ((frame s0)\<lparr>mem := M\<rparr>)"
      "\<forall>b. \<not> in_range kbuf KBUF b \<and> b \<notin> set (take tot as) \<longrightarrow> M b = mem s0 b" "map M (take tot as) = take tot ds"
      "\<forall>k. k \<notin> log_area st \<longrightarrow> disk s k = disk s0 k" "tot \<le> length ds"
    using inv unfolding rd_inv_def by blast
  have f: "files s f = (files s0 f)\<lparr>foff := ?off\<rparr>" "inodes s = inodes s0" "sb s = ?sp" "mem s = M" "proc_table s = proc_table s0"
    using arg_cong [OF v(2), of files] arg_cong [OF v(2), of inodes] arg_cong [OF v(2), of sb] arg_cong [OF v(2), of mem] arg_cong [OF v(2), of proc_table]
    by (simp_all add: frame_def)
  have D: "disk s j = disk s0 j" if "j \<notin> log_area st" for j using v(5) that by simp
  note ag = agree_inode [OF ok D]
  have okd: "fs_layout ?sp st (disk s)" "file_ok ?sp (disk s) ?x" using ag(1) by (simp_all add: inode_ok_def)
  have ld: "length ds = unat (isize ?x) - unat ?base" using ds by simp
  have "unat (isize ?x) \<le> MAXFILE * BSIZE" using okd(2) by (simp add: file_ok_def)
  then have "unat ?base + tot \<le> MAXFILE * BSIZE" using v(6) ld off by linarith
  then have o: "unat ?off = unat ?base + tot" by (rule unat_add_off)
  have k: "min m (unat (isize ?x) - unat ?off) = ?k" using o ld by simp
  have piece: "take m (drop (unat ?off) (contents (disk s) ?x)) = take ?k (drop tot ds)"
  proof -
    have "drop (unat ?off) (contents (disk s) ?x) = drop tot ds" using o ag(2) ds by (simp add: add.commute)
    then show ?thesis by (cases "m \<le> length ds - tot") simp_all
  qed
  let ?piece = "take (min m (length ds - tot)) (drop tot ds)" and ?M1 = "write_bytes M kbuf (take (min m (length ds - tot)) (drop tot ds))"
  have pre: "file_on (files s f) ip" "freadable (files s f)" "inodes s ip = ?x" "foff (files s f) = ?off" "unat ?off \<le> unat (isize ?x)" "m < 2 ^ 31"
    "fs_layout (sb s) st (disk s)" "file_ok (sb s) (disk s) ?x"
    using F f o v(6) ld off m(1) okd by (simp_all add: file_on_def KBUF_def)
  obtain s1 where r: "read f kbuf (int m) s = (Inr (int ?k), s1)" "fs_idle s1 p st"
      "frame s1 = upd_file f (\<lambda>y. y\<lparr>foff := ?off + of_nat ?k\<rparr>) ((frame s)\<lparr>mem := ?M1\<rparr>)" "\<forall>k. k \<notin> log_area st \<longrightarrow> disk s1 k = disk s k"
    using read_run [OF v(1) pre(1-3) l pre(7,8,4-6), of kbuf, unfolded k piece f(4)] by blast
  have lp: "length ?piece = ?k" by simp
  have g: "mem s1 = ?M1" "proc_table s1 = proc_table s0" using arg_cong [OF r(3), of mem] arg_cong [OF r(3), of proc_table] f(5) by simp_all
  have rb: "read_bytes (mem s1) kbuf ?k = ?piece" using read_write_bytes [of ?piece M kbuf] m(1) lp g(1) by (simp add: KBUF_def)
  have "\<not> in_range kbuf (length ?piece) b" if "\<not> in_range kbuf KBUF b" for b using that lp m(1) by (auto simp: in_range_def)
  then have M1: "?M1 b = M b" if "\<not> in_range kbuf KBUF b" for b using that by (simp add: write_bytes_def)
  let ?as = "take (min m (length ds - tot)) (drop tot as)"
  have sub: "set (take tot as) \<union> set ?as = set (take (tot + ?k) as)" by (simp add: take_add)
  have lan: "length as = n" using u user_addrs_length by (auto simp: user_buf_def)
  have la: "length ?as = ?k" using lan m(2) by simp
  have "\<forall>b. \<not> in_range kbuf KBUF b \<and> b \<notin> set as \<longrightarrow> mem s1 b = mem s0 b" using v(3) M1 g(1) by (auto dest: in_set_takeD)
  then have c: "copyout (pagetable (proc_table s0 p)) (a + of_nat tot) ?piece s1 = (Inr 0, s1\<lparr>mem := write_at (mem s1) ?as ?piece\<rparr>)"
    using copyout_part [OF u fa, of s1 tot ?piece] m(2) lp by simp
  let ?s' = "s1\<lparr>mem := write_at (mem s1) (take (min m (length ds - tot)) (drop tot as)) (take (min m (length ds - tot)) (drop tot ds))\<rparr>"
  have "rd_inv kbuf p st f s0 as ds (tot + ?k) ?s'"
  proof -
    let ?M2 = "write_at ?M1 ?as ?piece"
    have fr': "frame ?s' = upd_file f (\<lambda>y. y\<lparr>foff := foff y + of_nat (tot + ?k)\<rparr>) ((frame s0)\<lparr>mem := ?M2\<rparr>)"
      unfolding frame_mem r(3) v(2) g(1) by (simp add: upd_file_def add.assoc)
    have out: "?M2 b = mem s0 b" if "\<not> in_range kbuf KBUF b" "b \<notin> set (take (tot + ?k) as)" for b
    proof -
      have "b \<notin> set ?as" "b \<notin> set (take tot as)" using that(2) sub by blast+
      then show ?thesis using write_at_other [of b ?as ?M1 ?piece] M1 that(1) v(3) by simp
    qed
    have d1: "map ?M2 ?as = ?piece" using write_at_map [of ?as ?piece ?M1] di la by simp
    have "?M2 b = M b" if b: "b \<in> set (take tot as)" for b
    proof -
      have "b \<notin> set (drop tot as)" using b di by (metis IntI append_take_drop_id distinct_append empty_iff)
      then have "b \<notin> set ?as" by (blast dest: in_set_takeD)
      moreover have "b \<in> set as" using b by (rule in_set_takeD)
      then have "\<not> in_range kbuf KBUF b" using u by (auto simp: user_buf_def)
      ultimately show ?thesis using write_at_other [of b ?as ?M1 ?piece] M1 by simp
    qed
    then have "map ?M2 (take tot as) = map M (take tot as)" by (intro map_cong refl)
    then have mp: "map ?M2 (take (tot + ?k) as) = take (tot + ?k) ds" using d1 v(4) unfolding take_add map_append by simp
    have dk: "\<forall>k. k \<notin> log_area st \<longrightarrow> disk ?s' k = disk s0 k" using r(4) D by simp
    have le: "tot + ?k \<le> length ds" using v(6) by simp
    have "fs_idle ?s' p st" using r(2) by simp
    then show ?thesis unfolding rd_inv_def using fr' out mp dk le by blast
  qed
  then show ?thesis using r(1) idle_cur [OF r(2)] g(2) rb c by (intro exI [of _ s1] exI [of _ ?s']) simp
qed

lemma ker_read_step:
  assumes "read f kbuf (int m) s = (Inr (int k), s1)" and "current_proc s1 = Some p" and "proc_table s1 = proc_table s0"
    and "copyout (pagetable (proc_table s0 p)) (a + of_nat tot) (read_bytes (mem s1) kbuf k) s1 = (Inr 0, s2)"
  shows "ker_read_loop kbuf f a tot ((i, m) # ps) s =
    (if k = 0 then (Inr (int tot), s1) else if k < m then (Inr (int tot + int k), s2) else ker_read_loop kbuf f a (tot + k) ps s2)"
  using assms by (simp add: myproc_def)

lemma ker_read_loop_run:
  fixes s0 :: "('a) kfile_scheme"
  assumes "rd_inv kbuf p st f s0 as ds tot s" and "tot + j = n"
    and c: "user_buf s0 (pagetable (proc_table s0 p)) kbuf a n as" "frames_apart (mem s0) (pagetable (proc_table s0 p))" "distinct as"
      "file_on (files s0 f) ip" "freadable (files s0 f)" "can_lock (inodes s0 ip)" "inode_ok (sb s0) st (disk s0) (inodes s0 ip)"
      "unat (foff (files s0 f)) \<le> unat (isize (inodes s0 ip))" "ds = drop (unat (foff (files s0 f))) (contents (disk s0) (inodes s0 ip))"
  shows "\<exists>s'. ker_read_loop kbuf f a tot (pieces KBUF i j) s = (Inr (int (min n (length ds))), s') \<and> rd_inv kbuf p st f s0 as ds (min n (length ds)) s'"
  using assms(1,2)
proof (induction j arbitrary: tot i s rule: less_induct)
  case (less j)
  have tl: "tot \<le> length ds" using less.prems(1) by (simp add: rd_inv_def)
  show ?case
  proof (cases "j = 0")
    case True
    then have "min n (length ds) = tot" using less.prems(2) tl by simp
    then show ?thesis using less.prems(1) True by (intro exI [of _ s]) (simp add: pieces_one)
  next
    case False
    let ?m = "min j KBUF" and ?ps = "pieces KBUF (i + min j KBUF) (j - min j KBUF)" and ?k = "min (min j KBUF) (length ds - tot)"
    have ps: "pieces KBUF i j = (i, ?m) # ?ps" using False by (subst pieces.simps) (simp add: KBUF_def Let_def)
    have m: "?m \<le> KBUF" "tot + ?m \<le> n" "j - ?m < j" "0 < ?m" using False less.prems(2) by (simp_all add: KBUF_def)
    obtain s1 s2 where r: "read f kbuf (int ?m) s = (Inr (int ?k), s1)" "current_proc s1 = Some p" "proc_table s1 = proc_table s0"
        "copyout (pagetable (proc_table s0 p)) (a + of_nat tot) (read_bytes (mem s1) kbuf ?k) s1 = (Inr 0, s2)" "rd_inv kbuf p st f s0 as ds (tot + ?k) s2"
      using rd_step [OF less.prems(1) c m(1,2)] by blast
    have step: "ker_read_loop kbuf f a tot (pieces KBUF i j) s =
        (if ?k = 0 then (Inr (int tot), s1) else if ?k < ?m then (Inr (int tot + int ?k), s2) else ker_read_loop kbuf f a (tot + ?k) ?ps s2)"
      unfolding ps by (rule ker_read_step [OF r(1-4)])
    consider "?k = 0" | "0 < ?k" "?k < ?m" | "0 < ?k" "?k = ?m" by linarith
    then show ?thesis
    proof cases
      case 1
      then have e: "min n (length ds) = tot" using tl m less.prems(2) by (auto simp: min_def split: if_splits)
      have "s2 = s1" using r(4) 1 by (simp add: read_bytes_def)
      then show ?thesis using step 1 r(5) e by simp
    next
      case 2
      then have e: "min n (length ds) = tot + ?k" using tl m less.prems(2) by (auto simp: min_def split: if_splits)
      then show ?thesis using step 2 r(5) by simp
    next
      case 3
      have t: "tot + ?k + (j - ?m) = n" using less.prems(2) 3(2) by simp
      show ?thesis using less.IH [OF m(3) r(5) t, of "i + min j KBUF"] step 3 by simp
    qed
  qed
qed

lemma rd_inv_start:
  assumes "fs_idle s p st"
  shows "rd_inv kbuf p st f s as ds 0 s"
proof -
  have "upd_file f (\<lambda>y. y\<lparr>foff := foff y + of_nat 0\<rparr>) ((frame s)\<lparr>mem := mem s\<rparr>) = frame s" by (simp add: upd_file_def frame_def)
  then show ?thesis using assms unfolding rd_inv_def by (intro conjI exI [of _ "mem s"]) simp_all
qed

section \<open>Open descriptors\<close>

text \<open>An open descriptor of a file over an inode that is in memory and not locked.\<close>

definition fd_open :: "('a) kfile_scheme \<Rightarrow> nat \<Rightarrow> nat \<Rightarrow> int \<Rightarrow> nat \<Rightarrow> nat \<Rightarrow> bool" where
  "fd_open s p st fd f ip \<longleftrightarrow> fs_idle s p st \<and> 0 \<le> fd \<and> fd < int NOFILE \<and> ofile (proc_table s p) (nat fd) = Some f \<and> file_on (files s f) ip \<and>
     can_lock (inodes s ip) \<and> inode_ok (sb s) st (disk s) (inodes s ip) \<and> unat (foff (files s f)) \<le> unat (isize (inodes s ip))"

lemma fdget_open: "fd_open s p st fd f ip \<Longrightarrow> fdget fd s = (Inr (Some f), s)"
  using idle_cur [of s p st] by (simp add: fd_open_def fdget_def myproc_def)

lemma ker_write_run:
  fixes s :: "('a) kfile_scheme"
  assumes "fd_open s p st fd f ip" and "fwritable (files s f)" and "user_buf s (pagetable (proc_table s p)) kbuf a (length bs) as"
    and "map (mem s) as = bs" and "0 \<notin> set bs" and "unat (foff (files s f)) + length bs \<le> MAXFILE * BSIZE"
    and "4 * length (pieces KBUF 0 (length bs)) \<le> free_cnt (sb s) (disk s)"
  shows "\<exists>s'. ker_write kbuf fd a (int (length bs)) s = (Inr (int (length bs)), s') \<and> fd_open s' p st fd f ip \<and>
    contents (disk s') (inodes s' ip) = put_bytes (unat (foff (files s f))) bs (contents (disk s) (inodes s ip)) \<and>
    foff (files s' f) = foff (files s f) + of_nat (length bs) \<and> (\<forall>g. g \<noteq> f \<longrightarrow> files s' g = files s g) \<and> proc_table s' = proc_table s \<and>
    (\<forall>b. blk_ok (sb s) (disk s) b \<and> b \<notin> own (disk s) (inodes s ip) \<longrightarrow> disk s' b = disk s b) \<and> but_kbuf kbuf (mem s) (mem s')"
proof -
  have o: "fs_idle s p st" "file_on (files s f) ip" "can_lock (inodes s ip)" "inode_ok (sb s) st (disk s) (inodes s ip)"
      "unat (foff (files s f)) \<le> unat (isize (inodes s ip))" using assms(1) by (simp_all add: fd_open_def)
  obtain s' x' where r: "ker_write_loop kbuf f a 0 (pieces KBUF 0 (length bs)) s = (Inr (int (length bs)), s')" "wr_inv kbuf p st f ip s bs (length bs) s' x'"
    using ker_write_loop_run [OF wr_inv_start [OF o(1,4)] _ assms(7,3,4,5) o(2) assms(2) o(3,5) assms(6)] by auto
  obtain M sz ad where v: "fs_idle s' p st" "frame s' = upd_file f (\<lambda>y. y\<lparr>foff := foff y + of_nat (length bs)\<rparr>) (upd_inode ip (\<lambda>_. x') ((frame s)\<lparr>mem := M\<rparr>))"
      "but_kbuf kbuf (mem s) M" "x' = (inodes s ip)\<lparr>isize := sz, iaddrs := ad\<rparr>" "inode_ok (sb s) st (disk s') x'"
      "contents (disk s') x' = put_bytes (unat (foff (files s f))) bs (contents (disk s) (inodes s ip))"
      "\<forall>b. blk_ok (sb s) (disk s) b \<and> b \<notin> own (disk s) (inodes s ip) \<longrightarrow> disk s' b = disk s b"
    using r(2) unfolding wr_inv_def by auto
  have g: "files s' = (files s)(f := (files s f)\<lparr>foff := foff (files s f) + of_nat (length bs)\<rparr>)" "inodes s' ip = x'" "sb s' = sb s" "mem s' = M"
      "proc_table s' = proc_table s"
    using arg_cong [OF v(2), of files] arg_cong [OF v(2), of inodes] arg_cong [OF v(2), of sb] arg_cong [OF v(2), of mem] arg_cong [OF v(2), of proc_table]
    by (simp_all add: frame_def)
  have "unat (foff (files s f)) + length bs \<le> unat (isize x')"
    using length_put_bytes_ge [of "unat (foff (files s f))" "contents (disk s) (inodes s ip)" bs] o(5) arg_cong [OF v(6), of length] by simp
  then have "fd_open s' p st fd f ip"
    using assms(1) v(1,4,5) g unat_add_off [OF assms(6)] unfolding fd_open_def by (simp add: file_on_def can_lock_def)
  moreover have "ker_write kbuf fd a (int (length bs)) s = (Inr (int (length bs)), s')"
    using fdget_open [OF assms(1)] r(1) by (simp add: ker_write_def)
  ultimately show ?thesis using v(3,6,7) g by auto
qed

lemma ker_read_run:
  fixes s :: "('a) kfile_scheme"
  assumes "fd_open s p st fd f ip" and "freadable (files s f)" and "user_buf s (pagetable (proc_table s p)) kbuf a n as"
    and "frames_apart (mem s) (pagetable (proc_table s p))" and "distinct as"
    and "ds = take n (drop (unat (foff (files s f))) (contents (disk s) (inodes s ip)))"
  shows "\<exists>s'. ker_read kbuf fd a (int n) s = (Inr (int (length ds)), s') \<and> fd_open s' p st fd f ip \<and> map (mem s') (take (length ds) as) = ds \<and>
    foff (files s' f) = foff (files s f) + of_nat (length ds) \<and> (\<forall>g. g \<noteq> f \<longrightarrow> files s' g = files s g) \<and> proc_table s' = proc_table s \<and> inodes s' = inodes s \<and>
    (\<forall>k. k \<notin> log_area st \<longrightarrow> disk s' k = disk s k) \<and> (\<forall>b. \<not> in_range kbuf KBUF b \<and> b \<notin> set (take (length ds) as) \<longrightarrow> mem s' b = mem s b)"
proof -
  let ?c = "drop (unat (foff (files s f))) (contents (disk s) (inodes s ip))"
  have o: "fs_idle s p st" "file_on (files s f) ip" "can_lock (inodes s ip)" "inode_ok (sb s) st (disk s) (inodes s ip)"
      "unat (foff (files s f)) \<le> unat (isize (inodes s ip))" using assms(1) by (simp_all add: fd_open_def)
  have ld: "min n (length ?c) = length ds" using assms(6) by (simp only: length_take min.commute)
  have lt: "take (length ds) ?c = ds" using assms(6) by (cases "n \<le> length ?c") simp_all
  obtain s' where r: "ker_read_loop kbuf f a 0 (pieces KBUF 0 n) s = (Inr (int (length ds)), s')" "rd_inv kbuf p st f s as ?c (length ds) s'"
    using ker_read_loop_run [OF rd_inv_start [OF o(1)] _ assms(3-5) o(2) assms(2) o(3,4,5) refl, of n 0, unfolded ld] by auto
  obtain M where v: "fs_idle s' p st" "frame s' = upd_file f (\<lambda>y. y\<lparr>foff := foff y + of_nat (length ds)\<rparr>) ((frame s)\<lparr>mem := M\<rparr>)"
      "\<forall>b. \<not> in_range kbuf KBUF b \<and> b \<notin> set (take (length ds) as) \<longrightarrow> M b = mem s b" "map M (take (length ds) as) = ds"
      "\<forall>k. k \<notin> log_area st \<longrightarrow> disk s' k = disk s k" "length ds \<le> length ?c"
    using r(2) unfolding rd_inv_def lt by blast
  have g: "files s' = (files s)(f := (files s f)\<lparr>foff := foff (files s f) + of_nat (length ds)\<rparr>)" "inodes s' = inodes s" "sb s' = sb s" "mem s' = M"
      "proc_table s' = proc_table s"
    using arg_cong [OF v(2), of files] arg_cong [OF v(2), of inodes] arg_cong [OF v(2), of sb] arg_cong [OF v(2), of mem] arg_cong [OF v(2), of proc_table]
    by (simp_all add: frame_def)
  have le: "unat (foff (files s f)) + length ds \<le> unat (isize (inodes s ip))" using v(6) o(5) by simp
  have mx: "unat (isize (inodes s ip)) \<le> MAXFILE * BSIZE" using o(4) by (simp add: inode_ok_def file_ok_def)
  have "inode_ok (sb s) st (disk s') (inodes s ip)" using agree_inode(1) [OF o(4)] v(5) by simp
  then have "fd_open s' p st fd f ip"
    using assms(1) v(1) g le unat_add_off [of "foff (files s f)" "length ds"] mx unfolding fd_open_def by (simp add: file_on_def)
  moreover have "ker_read kbuf fd a (int n) s = (Inr (int (length ds)), s')"
    using fdget_open [OF assms(1)] r(1) by (simp add: ker_read_def)
  ultimately show ?thesis using v(3-5) g by auto
qed

end
