(* ===== verification/OpenSpec.thy ===== *)
theory OpenSpec
  imports NameSpec FdSpec
begin

text \<open>
  Opening and closing a file by name: \<^verbatim>\<open>ker_open\<close> and \<^verbatim>\<open>ker_close\<close> of \<^verbatim>\<open>kernel/file.c\<close> on a file that exists, from the path through
  the inode table and the file table to the descriptor.
\<close>

section \<open>Operations that write nothing\<close>

text \<open>Between transactions the disk is seen as it is.\<close>

lemma idle_view: "fs_idle s p st \<Longrightarrow> txo 0 p st 0 (disk s) Map.empty (frame s) s"
  using pending_in_trans [of s p st "[]"] pending_clean [of s p st "[]"]
  by (auto simp: txo_def fs_idle_def LogCrash.pending_def intro!: exI [of _ "[]"])

lemma view_idle:
  assumes t: "txo oc p st 0 V Map.empty F s" and o: "outstanding (wal F) = 0"
  shows "fs_idle s p st" and "disk s = V"
proof -
  note tp = tx_pending [OF t]
  have p: "pending s p st []" using tp(1) by auto
  show "fs_idle s p st" using p tp o by (simp add: fs_idle_def)
  show "disk s = V" using pending_clean [OF p] tp(5) by auto
qed

text \<open>A transaction in which nothing has been logged ends without a write.\<close>

lemma end_op_empty:
  assumes i: "fs_idle s p st"
  shows "end_op (upd_wal (\<lambda>l. l\<lparr>outstanding := 1\<rparr>) s) = (Inr (), s)"
proof -
  let ?lk = "\<lambda>q l. (l :: spinlock)\<lparr>locked := True, lpid := q\<rparr>"
  let ?w = "upd_wal (\<lambda>l. l\<lparr>outstanding := 1\<rparr>) s" and ?q = "pid (proc_table s p)"
  have p: "pending s p st []" and li: "lock_idle (llock (wal s))" and c: "\<not> committing (wal s)" and o: "outstanding (wal s) = 0"
    using i by (simp_all add: fs_idle_def)
  have q: "quiet s p" and n: "lh_n (lh (wal s)) = 0" using p by (simp_all add: LogCrash.pending_def log_at_def cache_inv_def)
  have cur: "current_proc (upd_wal g s) = Some p" for g using quiet_cur [OF q] by (simp add: upd_wal_def)
  let ?s1 = "upd_wal (\<lambda>l. l\<lparr>outstanding := 0, committing := True, llock := ?lk ?q (llock l)\<rparr>) s"
  let ?s2 = "upd_wal (\<lambda>l. l\<lparr>committing := True\<rparr>) s"
  have a: "acquire wl_get wl_upd ?w = (Inr (), wl_upd (?lk ?q) ?w)" using wl_acquire [of ?w p] li cur by simp
  have e1: "upd_wal (\<lambda>l. l\<lparr>committing := True\<rparr>) (upd_wal (\<lambda>l. l\<lparr>outstanding := outstanding l - 1\<rparr>) (wl_upd (?lk ?q) ?w)) = ?s1"
    by (simp add: upd_wal_def)
  have e2: "wl_upd (\<lambda>l. l\<lparr>locked := False, lpid := - 1\<rparr>) ?s1 = ?s2" using li o by (simp add: upd_wal_def lock_idle_def)
  have r: "release wl_get wl_upd ?s1 = (Inr (), ?s2)" using wl_release [of ?s1] e2 by (simp add: upd_wal_def)
  have cm: "commit ?s2 = (Inr (), ?s2)" using n by (simp add: commit_def)
  have a2: "acquire wl_get wl_upd ?s2 = (Inr (), wl_upd (?lk ?q) ?s2)" using wl_acquire [of ?s2 p] li cur by simp
  let ?u = "upd_wal (\<lambda>l. l\<lparr>committing := False\<rparr>) (wl_upd (?lk ?q) ?s2)"
  have "quiet ?u p" using q by (simp add: quiet_def upd_wal_def)
  then have wk: "wakeup ChLog ?u = (Inr (), ?u)" by (rule wakeup_quiet)
  have "wl_upd (\<lambda>l. l\<lparr>locked := False, lpid := - 1\<rparr>) ?u = s" using li c by (simp add: upd_wal_def lock_idle_def)
  then have r2: "release wl_get wl_upd ?u = (Inr (), s)" using wl_release [of ?u] by (simp add: upd_wal_def)
  have w: "\<not> committing (wal (upd_wal (\<lambda>l. l\<lparr>outstanding := outstanding l - 1\<rparr>) (wl_upd (?lk ?q) ?w)))"
      "outstanding (wal (upd_wal (\<lambda>l. l\<lparr>outstanding := outstanding l - 1\<rparr>) (wl_upd (?lk ?q) ?w))) = 0" using c by (simp_all add: upd_wal_def)
  show ?thesis using a e1 r cm a2 wk r2 w by (simp add: end_op_def)
qed

lemma begin_op_idle: "fs_idle s p st \<Longrightarrow> begin_op s = (Inr (), upd_wal (\<lambda>l. l\<lparr>outstanding := 1\<rparr>) s)"
  using begin_tx [of s p st] by (auto simp: fs_idle_def)

section \<open>The file table\<close>

interpretation ftl: lock_cell ftable_lock ftable_lock_update
  by unfold_locales simp_all

lemma ftable_run:
  assumes "lock_idle (ftable_lock s)" and "current_proc s = Some p"
  shows "acquire_ftable s = (Inr (), s\<lparr>ftable_lock := (ftable_lock s)\<lparr>locked := True, lpid := pid (proc_table s p)\<rparr>\<rparr>)"
    and "release_ftable (s\<lparr>ftable_lock := (ftable_lock s)\<lparr>locked := True, lpid := q\<rparr>, files := t\<rparr>) = (Inr (), s\<lparr>files := t\<rparr>)"
  using ftl.acquire_free [of s p] ftl.release_held [of "s\<lparr>ftable_lock := (ftable_lock s)\<lparr>locked := True, lpid := q\<rparr>, files := t\<rparr>"] assms
  by (simp_all add: lock_idle_def)

text \<open>A new file for inode \<open>ip\<close>.\<close>

definition new_file :: "nat \<Rightarrow> bool \<Rightarrow> bool \<Rightarrow> file_t \<Rightarrow> file_t" where
  "new_file ip r w x = x\<lparr>fref := 1, ftype := FD_INODE, fip := Some ip, freadable := r, fwritable := w, foff := 0\<rparr>"

lemma fileopen_run:
  assumes l: "lock_idle (ftable_lock s)" "lock_idle (itable_lock s)" "current_proc s = Some p" and f: "find_file (files s) = Some f"
  shows "fileopen ip r w s = (Inr (Some f), upd_file f (new_file ip r w) (upd_inode ip (\<lambda>x. x\<lparr>iref := iref x + 1\<rparr>) s))"
proof -
  have "filealloc s = (Inr (Some f), upd_file f (\<lambda>x. x\<lparr>fref := 1\<rparr>) s)"
    using ftable_run [OF l(1,3)] f by (simp add: filealloc_def upd_file_def)
  moreover have "idup ip (s\<lparr>files := t\<rparr>) = (Inr ip, upd_inode ip (\<lambda>x. x\<lparr>iref := iref x + 1\<rparr>) (s\<lparr>files := t\<rparr>))" for t
    by (rule idup_run) (use l in simp_all)
  ultimately show ?thesis by (simp add: fileopen_def upd_file_def new_file_def) (simp add: upd_inode_def)
qed

lemma open_file_run:
  assumes i: "fs_idle s p st" and l: "lock_idle (ftable_lock s)" "lock_idle (itable_lock s)" and f: "find_file (files s) = Some f"
    and s': "s' = upd_file f (new_file ip r w) (upd_inode ip (\<lambda>x. x\<lparr>iref := iref x + 1\<rparr>) s)"
  shows "open_file ip r w s = (Inr (Some f), s')" and "fs_idle s' p st" and "disk s' = disk s"
proof -
  let ?o = "\<lambda>l. l\<lparr>outstanding := 1\<rparr>"
  have t: "txo 0 p st 0 (disk s) Map.empty (upd_file f (new_file ip r w) (upd_inode ip (\<lambda>x. x\<lparr>iref := iref x + 1\<rparr>) (frame s))) s'"
    unfolding s' by (rule tx_file [OF tx_inode [OF idle_view [OF i]]])
  then show i': "fs_idle s' p st" and "disk s' = disk s" using view_idle [OF t] i by (simp_all add: fs_idle_def)
  have c: "current_proc (upd_wal ?o s) = Some p" using idle_cur [OF i] by (simp add: upd_wal_def)
  have lk: "lock_idle (ftable_lock (upd_wal ?o s))" "lock_idle (itable_lock (upd_wal ?o s))" using l by (simp_all add: upd_wal_def)
  have "fileopen ip r w (upd_wal ?o s) = (Inr (Some f), upd_wal ?o s')"
    using fileopen_run [of "upd_wal ?o s", OF lk c] f by (simp add: s')
  then show "open_file ip r w s = (Inr (Some f), s')" using begin_op_idle [OF i] end_op_empty [OF i'] by (simp add: open_file_def)
qed

text \<open>Closing the last reference to a file of an inode that has a link or other references.\<close>

lemma close_run:
  assumes i: "fs_idle s p st" and l: "lock_idle (ftable_lock s)" "lock_idle (itable_lock s)" and f: "file_on (files s f) ip" "fref (files s f) = 1"
    and k: "inlink (inodes s ip) \<noteq> 0"
    and s': "s' = upd_file f (\<lambda>x. x\<lparr>fref := 0, ftype := FD_NONE\<rparr>) (upd_inode ip (\<lambda>x. x\<lparr>iref := iref x - 1\<rparr>) s)"
  shows "close f s = (Inr (), s')" and "fs_idle s' p st" and "disk s' = disk s"
proof -
  let ?w = "upd_wal (\<lambda>l. l\<lparr>outstanding := 1\<rparr>) s"
  have t: "txo 0 p st 0 (disk s) Map.empty (upd_file f (\<lambda>x. x\<lparr>fref := 0, ftype := FD_NONE\<rparr>) (upd_inode ip (\<lambda>x. x\<lparr>iref := iref x - 1\<rparr>) (frame s))) s'"
    unfolding s' by (rule tx_file [OF tx_inode [OF idle_view [OF i]]])
  then show i': "fs_idle s' p st" and "disk s' = disk s" using view_idle [OF t] i by (simp_all add: fs_idle_def)
  have c: "current_proc ?w = Some p" using idle_cur [OF i] by (simp add: upd_wal_def)
  have lk: "lock_idle (ftable_lock ?w)" using l by (simp add: upd_wal_def)
  have "iput ip (?w\<lparr>files := t\<rparr>) = (Inr (), upd_inode ip (\<lambda>x. x\<lparr>iref := iref x - 1\<rparr>) (?w\<lparr>files := t\<rparr>))" for t
    by (rule iput_keep) (use l c k in \<open>simp_all add: upd_wal_def\<close>)
  then have "fileclose f ?w = (Inr (), upd_wal (\<lambda>l. l\<lparr>outstanding := 1\<rparr>) s')"
    using ftable_run [OF lk c] f by (simp add: fileclose_def file_on_def deref_def upd_file_def s') (simp add: upd_inode_def upd_wal_def)
  then show "close f s = (Inr (), s')" using begin_op_idle [OF i] end_op_empty [OF i'] by (simp add: close_def)
qed

section \<open>Descriptors\<close>

lemma tx_ofile:
  assumes t: "txo oc p st n V H F s"
  shows "txo oc p st n V H (upd_proc i (\<lambda>x. x\<lparr>ofile := h x\<rparr>) F) (upd_proc i (\<lambda>x. x\<lparr>ofile := h x\<rparr>) s)"
proof -
  let ?s = "upd_proc i (\<lambda>x. x\<lparr>ofile := h x\<rparr>) s"
  have k: "key ?s = key s" by (simp add: key_def fun_eq_iff upd_proc_def)
  have pid: "pid (proc_table ?s j) = pid (proc_table s j)" for j by (simp add: upd_proc_def)
  have b: "buf_of ?s = buf_of s" "buf_ok ?s p = buf_ok s p" "one_buf ?s = one_buf s"
    using k pid by (simp_all add: buf_of_def buf_ok_def one_buf_def Let_def fun_eq_iff upd_proc_def)
  have "frame ?s = upd_proc i (\<lambda>x. x\<lparr>ofile := h x\<rparr>) F" using tx_frame [OF t] by (auto simp: frame_def upd_proc_def)
  moreover have "abs_cache ?s = abs_cache s" using k b by (simp add: abs_cache_def upd_proc_def cong: option.case_cong if_cong)
  moreover have "quiet ?s p = quiet s p" by (auto simp: quiet_def upd_proc_def)
  moreover have "cache_inv ?s p = cache_inv s p" using b calculation(3) by (simp add: cache_inv_def vq_idle_def upd_proc_def)
  moreover have "wal ?s = wal s" by (simp add: upd_proc_def)
  ultimately show ?thesis using tx_outside [OF t, of ?s] by simp
qed

definition free_fd :: "(nat \<Rightarrow> nat option) \<Rightarrow> nat option" where
  "free_fd t = find (\<lambda>fd. t fd = None) [3..<NOFILE]"

lemma fdalloc_run:
  assumes "current_proc s = Some p" and "free_fd (ofile (proc_table s p)) = Some fd"
  shows "fdalloc f s = (Inr (int fd), upd_proc p (\<lambda>x. x\<lparr>ofile := (ofile x)(fd := Some f)\<rparr>) s)"
  using assms by (simp add: fdalloc_def free_fd_def myproc_def)

lemma resolve_live:
  assumes "live_tree sp st V S" and "i \<in> S" and "resolve sp V i nms = Some k"
  shows "k \<in> S"
  using assms(2,3)
proof (induction nms arbitrary: i)
  case (Cons nm nms)
  then show ?case using live_inode(5) [OF assms(1)] by (auto split: if_splits option.splits)
qed simp

section \<open>Opening by name\<close>

text \<open>The state after a file has been opened: process \<open>p\<close> has the new descriptor \<open>fd\<close> for the new file \<open>f\<close>, the inode is entry
  \<open>ip\<close> of the new inode table \<open>t\<close>, and only the buffer of \<^verbatim>\<open>dirlookup\<close> differs in the memory \<open>M\<close>.\<close>

definition opened :: "nat \<Rightarrow> nat \<Rightarrow> nat \<Rightarrow> nat \<Rightarrow> bool \<Rightarrow> bool \<Rightarrow> (addr \<Rightarrow> u8) \<Rightarrow> (nat \<Rightarrow> inode) \<Rightarrow> ('a) kfile_scheme \<Rightarrow> ('a) kfile_scheme" where
  "opened p fd f ip r w M t s = upd_proc p (\<lambda>x. x\<lparr>ofile := (ofile x)(fd := Some f)\<rparr>)
     (upd_file f (new_file ip r w) (s\<lparr>mem := M, inodes := t\<rparr>))"

lemma tab_dup:
  assumes ok: "tab_ok sp V t" and j: "j < NINODE" "0 < iref (t j)" and k: "k = (ROOTDEV, inum (t j))"
  shows "tab_ok sp V (t(j := (t j)\<lparr>iref := iref (t j) + 1\<rparr>))" and "refs (t(j := (t j)\<lparr>iref := iref (t j) + 1\<rparr>)) = (refs t)(k := refs t k + 1)"
proof -
  let ?x = "(t j)\<lparr>iref := iref (t j) + 1\<rparr>"
  have it: "itable_ok t" and d: "idev (t j) = ROOTDEV" using ok j by (auto simp: tab_ok_def)
  have f: "find_inode t (fst k) (snd k) = Some j" using find_inode_Some [OF it] j k d by simp
  note u = itable_upd [OF it j(1), of ?x]
  have "refs t k = iref (t j)" using refs_eq [OF it j] k d by simp
  then show "refs (t(j := ?x)) = (refs t)(k := refs t k + 1)" using u(2,3) f j k d by (auto simp: fun_eq_iff)
  have "itable_ok (t(j := ?x))" using u(1) f j k d by simp
  moreover have "disk_fields ?x = disk_fields (t j)" by (simp add: disk_fields_def)
  ultimately show "tab_ok sp V (t(j := ?x))" using ok j d by (auto simp: tab_ok_def)
qed

lemma ker_open_run:
  fixes s :: "('a) kfile_scheme"
  assumes i: "fs_idle s p st" and S: "live_tree (sb s) st (disk s) S" and ok: "tab_ok (sb s) (disk s) (inodes s)"
    and l: "lock_idle (itable_lock s)" "lock_idle (ftable_lock s)" and c: "card {k. 0 < refs (inodes s) k} + 1 < NINODE"
    and path: "zstr path (slash # q)" and nm: "length (fr_name fr) = DIRSIZ"
    and k: "resolve (sb s) (disk s) ROOTINO (map (take DIRSIZ) (path_elems q)) = Some k"
    and ty: "itype (dino (sb s) (disk s) k) \<noteq> T_DIR \<or> m = O_RDONLY" and m: "m AND O_CREATE = 0"
    and f: "find_file (files s) = Some f" and fd: "free_fd (ofile (proc_table s p)) = Some fd"
  shows "\<exists>s' ip M t. ker_open fr path m s = (Inr (int fd), s') \<and>
    txo 0 p st 0 (disk s) Map.empty (opened p fd f ip (m AND O_WRONLY = 0) (m AND O_WRONLY \<noteq> 0 \<or> m AND O_RDWR \<noteq> 0) M t (frame s)) s' \<and>
    (\<forall>a. \<not> in_range (fr_lookup fr) DIRENT_SIZE a \<longrightarrow> M a = mem s a) \<and> tab_ok (sb s) (disk s) t \<and> ip < NINODE \<and> ivalid (t ip) \<and>
    inum (t ip) = k \<and> 1 < iref (t ip) \<and> refs t = (refs (inodes s))((ROOTDEV, k) := refs (inodes s) (ROOTDEV, k) + 2)"
proof -
  let ?V = "disk s" and ?F = "frame s" and ?sp = "sb s" and ?q = "pid (proc_table s p)" and ?R = "refs (inodes s)"
  let ?r = "m AND O_WRONLY = 0" and ?w = "m AND O_WRONLY \<noteq> 0 \<or> m AND O_RDWR \<noteq> 0"
  have F: "lock_idle (itable_lock ?F)" "current_proc ?F = Some p" "outstanding (wal ?F) = 0"
    using l idle_cur [OF i] i by (simp_all add: frame_def fs_idle_def)
  have nb: "0 < NBUF" by (simp add: NBUF_def MAXOPBLOCKS_def)
  obtain r s1 where s1: "namei fr path s = (Inr r, s1)" "walk_at 0 p st 0 ?V (fr_lookup fr) ?R ?F (Some k) r s1"
    using namei_run [where S = S, OF idle_view [OF i] nb _ _ F(1,2) _ path nm] S ok c k by auto
  then obtain ip where ip: "r = Some ip" by (cases r) (auto simp: walk_at_def)
  obtain M tab where w: "txo 0 p st 0 ?V Map.empty (?F\<lparr>mem := M, inodes := tab\<rparr>) s1" "\<forall>a. \<not> in_range (fr_lookup fr) DIRENT_SIZE a \<longrightarrow> M a = mem s a"
      "tab_ok ?sp ?V tab" "ip < NINODE" "0 < iref (tab ip)" "inum (tab ip) = k" "refs tab = ?R((ROOTDEV, k) := ?R (ROOTDEV, k) + 1)"
    using s1(2) unfolding walk_at_def ip by auto
  let ?F1 = "?F\<lparr>mem := M, inodes := tab\<rparr>" and ?y = "loaded ?sp ?V (tab ip)"
  have kS: "k \<in> S" using resolve_live [OF S _ k] S by (simp add: live_tree_def)
  obtain s2 where s2: "ilock (Some ip) s1 = (Inr (), s2)" "txo 0 p st 0 ?V Map.empty (upd_inode ip (\<lambda>x. held_by ?q (loaded ?sp ?V x)) ?F1) s2"
    using ilock_loads [OF w(1) nb, of ?sp ip S] w S kS by auto
  let ?F2 = "upd_inode ip (\<lambda>x. held_by ?q (loaded ?sp ?V x)) ?F1"
  note ty' = disk_fields_types [OF loaded_disk [OF w(3-5)]]
  have g2: "inodes s2 ip = held_by ?q ?y" "files s2 = files s" "proc_table s2 = proc_table s" "current_proc s2 = Some p" "itable_lock s2 = itable_lock s"
    using tx_inodes [OF s2(2)] tx_files [OF s2(2)] tx_fields [OF s2(2)] F(2) by (simp_all add: frame_def upd_inode_def)
  have lk2: "lock_idle (ftable_lock s2)" using arg_cong [OF tx_frame [OF s2(2)], of ftable_lock] l(2) by (simp add: frame_def upd_inode_def)
  have i2: "fs_idle s2 p st" using view_idle [OF s2(2)] F(3) by simp
  let ?up = "\<lambda>x. x\<lparr>iref := iref x + 1\<rparr>" and ?of = "\<lambda>x. x\<lparr>ofile := (ofile x)(fd := Some f)\<rparr>"
  let ?s3 = "upd_file f (new_file ip ?r ?w) (upd_inode ip ?up s2)"
  have s3: "open_file ip ?r ?w s2 = (Inr (Some f), ?s3)"
    using open_file_run(1) [OF i2 lk2 _ _ refl] g2 l(1) f by simp
  let ?s4 = "upd_proc p ?of ?s3"
  have s4: "fdalloc f ?s3 = (Inr (int fd), ?s4)" using fdalloc_run [of ?s3 p fd f] g2(3,4) fd by (simp add: upd_file_def upd_inode_def)
  let ?F4 = "upd_proc p ?of (upd_file f (new_file ip ?r ?w) (upd_inode ip ?up ?F2))" and ?x = "?up ?y"
  have t4: "txo 0 p st 0 ?V Map.empty ?F4 ?s4" by (rule tx_ofile [OF tx_file [OF tx_inode [OF s2(2)]]])
  have x: "inodes ?F4 ip = held_by (pid (proc_table ?F4 p)) ?x" by (simp add: upd_proc_def held_by_def)
  have cl: "can_lock ?x" using w(3-5) by (simp add: can_lock_def tab_ok_def loaded_fields)
  obtain s5 where s5: "iunlock (Some ip) ?s4 = (Inr (), s5)" "txo 0 p st 0 ?V Map.empty (upd_inode ip (\<lambda>_. ?x) ?F4) s5"
    using iunlock_tx [OF t4 x cl] by blast
  let ?t = "(tab(ip := ?y))(ip := ?up ((tab(ip := ?y)) ip))"
  have e: "upd_inode ip (\<lambda>_. ?x) ?F4 = opened p fd f ip ?r ?w M ?t ?F" by (simp add: opened_def upd_proc_def upd_file_def upd_inode_def)
  note tl = tab_loaded [OF w(3-5)]
  note td = tab_dup [OF tl(1) w(4), of "(ROOTDEV, k)"]
  have T: "tab_ok ?sp ?V ?t" "refs ?t = ?R((ROOTDEV, k) := ?R (ROOTDEV, k) + 2)"
    using td w(5-7) tl(2) by (simp_all add: loaded_fields add.commute)
  have run: "ker_open fr path m s = (Inr (int fd), s5)"
    using s1(1) ip s2(1) g2(1) ty ty' w(6) m s3 s4 s5(1) by (auto simp: ker_open_def)
  show ?thesis using run s5(2) w(2,4-6) T unfolding e
    by (intro exI [of _ s5] exI [of _ ip] exI [of _ M] exI [of _ ?t]) (simp add: loaded_fields)
qed

text \<open>A path that leads nowhere, and a directory opened for writing.\<close>

lemma ker_open_fails:
  fixes s :: "('a) kfile_scheme"
  assumes i: "fs_idle s p st" and S: "live_tree (sb s) st (disk s) S" and ok: "tab_ok (sb s) (disk s) (inodes s)"
    and l: "lock_idle (itable_lock s)" and c: "card {k. 0 < refs (inodes s) k} + 1 < NINODE"
    and path: "zstr path (slash # q)" and nm: "length (fr_name fr) = DIRSIZ" and m: "m AND O_CREATE = 0"
    and k: "resolve (sb s) (disk s) ROOTINO (map (take DIRSIZ) (path_elems q)) = r"
      "r = None \<or> itype (dino (sb s) (disk s) (the r)) = T_DIR \<and> m \<noteq> O_RDONLY"
  shows "\<exists>s' M t. ker_open fr path m s = (Inr (- 1), s') \<and> txo 0 p st 0 (disk s) Map.empty ((frame s)\<lparr>mem := M, inodes := t\<rparr>) s' \<and>
    (\<forall>a. \<not> in_range (fr_lookup fr) DIRENT_SIZE a \<longrightarrow> M a = mem s a) \<and> tab_ok (sb s) (disk s) t \<and> refs t = refs (inodes s)"
proof -
  let ?V = "disk s" and ?F = "frame s" and ?sp = "sb s" and ?q = "pid (proc_table s p)" and ?R = "refs (inodes s)"
  have F: "lock_idle (itable_lock ?F)" "current_proc ?F = Some p" using l idle_cur [OF i] by (simp_all add: frame_def)
  have nb: "0 < NBUF" by (simp add: NBUF_def MAXOPBLOCKS_def)
  obtain ro s1 where s1: "namei fr path s = (Inr ro, s1)" "walk_at 0 p st 0 ?V (fr_lookup fr) ?R ?F r ro s1"
    using namei_run [where S = S, OF idle_view [OF i] nb _ _ F(1,2) _ path nm] S ok c k(1) by auto
  show ?thesis
  proof (cases r)
    case None
    then have "ro = None" using s1(2) by (cases ro) (auto simp: walk_at_def)
    then show ?thesis using s1 m unfolding walk_at_def None by (auto simp: ker_open_def)
  next
    case (Some k)
    then obtain ip where ip: "ro = Some ip" using s1(2) by (cases ro) (auto simp: walk_at_def)
    obtain M tab where w: "txo 0 p st 0 ?V Map.empty (?F\<lparr>mem := M, inodes := tab\<rparr>) s1" "\<forall>a. \<not> in_range (fr_lookup fr) DIRENT_SIZE a \<longrightarrow> M a = mem s a"
        "tab_ok ?sp ?V tab" "ip < NINODE" "0 < iref (tab ip)" "inum (tab ip) = k" "refs tab = ?R((ROOTDEV, k) := ?R (ROOTDEV, k) + 1)"
      using s1(2) unfolding walk_at_def ip Some by auto
    let ?F1 = "?F\<lparr>mem := M, inodes := tab\<rparr>" and ?y = "loaded ?sp ?V (tab ip)"
    have kS: "k \<in> S" using resolve_live [OF S _ k(1) [unfolded Some]] S by (simp add: live_tree_def)
    obtain s2 where s2: "ilock (Some ip) s1 = (Inr (), s2)" "txo 0 p st 0 ?V Map.empty (upd_inode ip (\<lambda>x. held_by ?q (loaded ?sp ?V x)) ?F1) s2"
      using ilock_loads [OF w(1) nb, of ?sp ip S] w S kS by auto
    have ty: "itype (inodes s2 ip) = T_DIR" "m \<noteq> O_RDONLY"
      using tx_inodes(1) [OF s2(2)] disk_fields_types [OF loaded_disk [OF w(3-5)]] w(6) k(2) Some by simp_all
    let ?t = "tab(ip := ?y)"
    note tl = tab_loaded [OF w(3-5)]
    have "upd_inode ip (\<lambda>x. held_by ?q (loaded ?sp ?V x)) ?F1 = (?F\<lparr>mem := M\<rparr>)\<lparr>inodes := locked_in (pid (proc_table (?F\<lparr>mem := M\<rparr>) p)) ip ?t\<rparr>"
      by (simp add: upd_inode_def locked_in_def)
    then obtain s3 where s3: "iunlockput ip s2 = (Inr (), s3)"
        "txo 0 p st 0 ?V Map.empty ((?F\<lparr>mem := M\<rparr>)\<lparr>inodes := ?t(ip := (?t ip)\<lparr>iref := iref (?t ip) - 1\<rparr>)\<rparr>) s3"
      using iunlockput_tab [of 0 p st 0 ?V Map.empty "?F\<lparr>mem := M\<rparr>" ip ?t s2 ?sp S] s2(2) tl(1) w(4-6) S kS F by (auto simp: loaded_fields)
    note tp = tab_put [OF tl(1) w(4), of "(ROOTDEV, k)"]
    have "refs (?t(ip := (?t ip)\<lparr>iref := iref (?t ip) - 1\<rparr>)) = ?R" "tab_ok ?sp ?V (?t(ip := (?t ip)\<lparr>iref := iref (?t ip) - 1\<rparr>))"
      using tp tl(2) w(5-7) by (auto simp: loaded_fields fun_eq_iff)
    moreover have "ker_open fr path m s = (Inr (- 1), s3)" using s1(1) ip s2(1) ty m s3(1) by (simp add: ker_open_def)
    ultimately show ?thesis using s3(2) w(2)
      by (intro exI [of _ s3] exI [of _ M] exI [of _ "?t(ip := (?t ip)\<lparr>iref := iref (?t ip) - 1\<rparr>)"]) simp
  qed
qed

text \<open>What the state after opening gives.\<close>

lemma free_fdD: "free_fd t = Some fd \<Longrightarrow> 3 \<le> fd \<and> fd < NOFILE \<and> t fd = None"
  unfolding free_fd_def using find_SomeD by fastforce

lemma opened_facts:
  assumes t: "txo 0 p st 0 (disk s) Map.empty (opened p fd f ip r w M t (frame s)) s'"
  shows "mem s' = M" and "inodes s' = t" and "files s' = (files s)(f := new_file ip r w (files s f))" and "sb s' = sb s"
    and "proc_table s' = (proc_table s)(p := (proc_table s p)\<lparr>ofile := (ofile (proc_table s p))(fd := Some f)\<rparr>)"
    and "itable_lock s' = itable_lock s" and "ftable_lock s' = ftable_lock s"
  using arg_cong [OF tx_frame [OF t], of mem] arg_cong [OF tx_frame [OF t], of inodes] arg_cong [OF tx_frame [OF t], of files]
    arg_cong [OF tx_frame [OF t], of sb] arg_cong [OF tx_frame [OF t], of proc_table] arg_cong [OF tx_frame [OF t], of itable_lock]
    arg_cong [OF tx_frame [OF t], of ftable_lock]
  by (simp_all add: opened_def upd_proc_def upd_file_def frame_def)

lemma opened_fd:
  assumes i: "fs_idle s p st" and t: "txo 0 p st 0 (disk s) Map.empty (opened p fd f ip r w M t (frame s)) s'"
    and S: "live_tree (sb s) st (disk s) S" "k \<in> S" and T: "tab_ok (sb s) (disk s) t" "ip < NINODE" "ivalid (t ip)" "inum (t ip) = k" "0 < iref (t ip)"
    and fd: "free_fd (ofile (proc_table s p)) = Some fd"
  shows "fd_open s' p st (int fd) f ip" and "contents (disk s') (inodes s' ip) = contents (disk s) (dino (sb s) (disk s) k)" and "disk s' = disk s" and "fs_idle s' p st"
proof -
  let ?V = "disk s" and ?sp = "sb s"
  note o = opened_facts [OF t]
  have "outstanding (wal (opened p fd f ip r w M t (frame s))) = 0" using i by (simp add: opened_def upd_proc_def upd_file_def fs_idle_def)
  note v = view_idle [OF t this]
  show i': "fs_idle s' p st" and d': "disk s' = ?V" by (rule v)+
  have d: "disk_fields (t ip) = disk_fields (dino ?sp ?V k)" "idev (t ip) = ROOTDEV" "lk_idle (ilk (t ip))" using T by (auto simp: tab_ok_def)
  show "contents (disk s') (inodes s' ip) = contents ?V (dino ?sp ?V k)" unfolding v(2) o(2) by (rule disk_fields_same(3) [OF d(1)])
  have L: "fs_layout ?sp st ?V" "file_ok ?sp ?V (dino ?sp ?V k)" "inode_block_ok ?sp st ?V (dino ?sp ?V k)"
    using S by (auto simp: live_tree_def Let_def)
  have b: "inode_block ?sp (t ip) = unat (IBLOCK k ?sp)" "inode_block ?sp (dino ?sp ?V k) = unat (IBLOCK k ?sp)" using T(4) by (simp_all add: inode_block_def)
  have "disk_fields (load_dinode (?V (unat (IBLOCK k ?sp))) (dinode_at k) (t ip)) = disk_fields (dino ?sp ?V k)"
    unfolding dino_def by (rule disk_fields_load)
  then have "inode_ok ?sp st ?V (t ip)"
    using L b d disk_fields_same [OF d(1)] T(4) by (simp add: inode_ok_def inode_block_ok_def file_ok_def)
  then show "fd_open s' p st (int fd) f ip"
    using i' d' T(3,5) d(3) o free_fdD [OF fd] by (simp add: fd_open_def file_on_def new_file_def can_lock_def)
qed

lemma ker_close_run:
  assumes o: "fd_open s p st fd f ip" and l: "lock_idle (ftable_lock s)" "lock_idle (itable_lock s)" and f: "fref (files s f) = 1"
    and k: "inlink (inodes s ip) \<noteq> 0"
  shows "\<exists>s'. ker_close fd s = (Inr 0, s') \<and> fs_idle s' p st \<and> disk s' = disk s \<and>
    s' = upd_file f (\<lambda>x. x\<lparr>fref := 0, ftype := FD_NONE\<rparr>) (upd_inode ip (\<lambda>x. x\<lparr>iref := iref x - 1\<rparr>)
      (upd_proc p (\<lambda>x. x\<lparr>ofile := (ofile x)(nat fd := None)\<rparr>) s))"
proof -
  let ?s1 = "upd_proc p (\<lambda>x. x\<lparr>ofile := (ofile x)(nat fd := None)\<rparr>) s"
  have i: "fs_idle s p st" "file_on (files s f) ip" using o by (simp_all add: fd_open_def)
  note t1 = tx_ofile [OF idle_view [OF i(1)], of p "\<lambda>x. (ofile x)(nat fd := None)"]
  have i1: "fs_idle ?s1 p st" "disk ?s1 = disk s" using view_idle [OF t1] i(1) by (simp_all add: upd_proc_def fs_idle_def)
  have e: "file_on (files ?s1 f) ip" "fref (files ?s1 f) = 1" "inlink (inodes ?s1 ip) \<noteq> 0" "lock_idle (ftable_lock ?s1)" "lock_idle (itable_lock ?s1)"
    using i(2) f k l by (simp_all add: upd_proc_def)
  note c = close_run [OF i1(1) e(4,5,1-3) refl]
  have "ker_close fd s = (Inr 0, upd_file f (\<lambda>x. x\<lparr>fref := 0, ftype := FD_NONE\<rparr>) (upd_inode ip (\<lambda>x. x\<lparr>iref := iref x - 1\<rparr>) ?s1))"
    using fdget_open [OF o] idle_cur [OF i(1)] c(1) by (simp add: ker_close_def myproc_def)
  then show ?thesis using c(2,3) i1(2) by simp
qed

section \<open>A file that exists\<close>

text \<open>The tree of \<open>NameSpec\<close> between transactions, with empty file and inode tables.\<close>

definition open_st :: kfile where
  "open_st = klog.extend (upd_wal (\<lambda>l. l\<lparr>outstanding := 0\<rparr>) (demo_log 0 tree_disk))
     \<lparr>sb = demo_sb, itable_lock = fresh_lock ''itable'', inodes = (\<lambda>_. demo_inode\<lparr>iref := 0\<rparr>), ftable_lock = fresh_lock ''ftable'',
      files = (\<lambda>_. \<lparr>ftype = FD_NONE, fref = 0, freadable = False, fwritable = False, fpipe = 0, fip = None, foff = 0, fmajor = 0\<rparr>),
      devsw_read = (\<lambda>_. None), devsw_write = (\<lambda>_. None)\<rparr>"

lemma open_st_idle: "fs_idle open_st 1 2" "disk open_st = tree_disk"
proof -
  have D: "length (tree_disk 2) = BSIZE" "sint (get32 (tree_disk 2) 0) = 0" using zero_head by (simp_all add: tree_disk_def)
  have p: "LogCrash.pending (demo_log 0 tree_disk) 1 2 (demo_blocks 0)" by (rule demo_log_pending) (use D in simp_all)
  then show "fs_idle open_st 1 2"
    by (simp add: fs_idle_def open_st_def LogCrash.pending_def log_at_def extend_abs extend_inv demo_log_fields demo_blocks_def)
      (simp add: demo_wal_def lock_idle_def fresh_lock_def)
  show "disk open_st = tree_disk" using demo_log_abs(1) [of 0 tree_disk] by (simp add: open_st_def extend_abs)
qed

lemma open_st_fields:
  "sb open_st = demo_sb" "inodes open_st = (\<lambda>_. demo_inode\<lparr>iref := 0\<rparr>)" "lock_idle (itable_lock open_st)" "lock_idle (ftable_lock open_st)"
  "find_file (files open_st) = Some 0" "free_fd (ofile (proc_table open_st 1)) = Some 3"
proof -
  have t: "ofile (proc_table open_st 1) = Map.empty"
    by (simp add: open_st_def upd_wal_def klog.extend_def demo_log_def kdisk.extend_def demo_disk_defs)
  have "[3..<NOFILE] = 3 # [4..<NOFILE]" by (simp add: NOFILE_def upt_rec)
  then show "free_fd (ofile (proc_table open_st 1)) = Some 3" unfolding t free_fd_def by simp
  have "[0..<NFILE] = 0 # [1..<NFILE]" by (simp add: NFILE_def upt_rec)
  then show "find_file (files open_st) = Some 0" by (simp add: find_file_def open_st_def klog.extend_def)
  show "sb open_st = demo_sb" "inodes open_st = (\<lambda>_. demo_inode\<lparr>iref := 0\<rparr>)" "lock_idle (itable_lock open_st)" "lock_idle (ftable_lock open_st)"
    by (simp_all add: open_st_def klog.extend_def lock_idle_def fresh_lock_def)
qed

lemma open_st_ready:
  "live_tree (sb open_st) 2 (disk open_st) {1, 7}" "tab_ok (sb open_st) (disk open_st) (inodes open_st)"
  "card {k. 0 < refs (inodes open_st) k} + 1 < NINODE" "length (fr_name demo_frames) = DIRSIZ" "zstr [slash, 97, 98, 0] (slash # [97, 98])"
  "resolve (sb open_st) (disk open_st) ROOTINO (map (take DIRSIZ) (path_elems [97, 98])) = Some 7"
  "itype (dino (sb open_st) (disk open_st) 7) \<noteq> T_DIR"
  unfolding open_st_fields open_st_idle tree_table(2)
  using tree_live tree_table(1) tree_resolve disk_fields_types [OF tree_dino(2)]
  by (simp_all add: NINODE_def demo_frames_def DIRSIZ_def zstr_def slash_def) (simp add: demo_inode_def T_FILE_def T_DIR_def)

section \<open>Main theorems\<close>

text \<open>C15. \<^verbatim>\<open>ker_open\<close> opens a file by its absolute path. Between transactions, on a disk whose directories form a tree, with a free file,
  a free descriptor and two entries of the inode table to spare, opening without \<^verbatim>\<open>O_CREATE\<close> returns: if the path leads to an inode, and that
  is no directory or the mode is \<^verbatim>\<open>O_RDONLY\<close>, the result is the first free descriptor; it is open on that inode, at position 0, with the
  contents that the disk has for it, readable and writable as the mode says. Otherwise the result is -1, and no file, descriptor or
  reference is taken. In both cases nothing is written to the disk, other files and processes are as before, and the memory changes only in
  the buffer of \<^verbatim>\<open>dirlookup\<close>.\<close>

theorem open_by_name:
  fixes s :: "('a) kfile_scheme"
  assumes "fs_idle s p st" and "live_tree (sb s) st (disk s) S" and "tab_ok (sb s) (disk s) (inodes s)"
    and "lock_idle (itable_lock s)" and "lock_idle (ftable_lock s)" and "card {k. 0 < refs (inodes s) k} + 1 < NINODE"
    and "zstr path (slash # q)" and "length (fr_name fr) = DIRSIZ" and "m AND O_CREATE = 0"
    and "find_file (files s) = Some f" and "free_fd (ofile (proc_table s p)) = Some fd"
  shows "\<exists>r s'. ker_open fr path m s = (Inr r, s') \<and> fs_idle s' p st \<and> disk s' = disk s \<and> tab_ok (sb s') (disk s') (inodes s') \<and>
    (\<forall>g. g \<noteq> f \<longrightarrow> files s' g = files s g) \<and> (\<forall>j. j \<noteq> p \<longrightarrow> proc_table s' j = proc_table s j) \<and>
    (\<forall>a. \<not> in_range (fr_lookup fr) DIRENT_SIZE a \<longrightarrow> mem s' a = mem s a) \<and>
    (case resolve (sb s) (disk s) ROOTINO (map (take DIRSIZ) (path_elems q)) of
       None \<Rightarrow> r = - 1 \<and> files s' = files s \<and> proc_table s' = proc_table s \<and> refs (inodes s') = refs (inodes s)
     | Some k \<Rightarrow> if itype (dino (sb s) (disk s) k) = T_DIR \<and> m \<noteq> O_RDONLY
         then r = - 1 \<and> files s' = files s \<and> proc_table s' = proc_table s \<and> refs (inodes s') = refs (inodes s)
         else r = int fd \<and> (\<exists>ip. fd_open s' p st r f ip \<and> inum (inodes s' ip) = k \<and>
           contents (disk s') (inodes s' ip) = contents (disk s) (dino (sb s) (disk s) k) \<and> foff (files s' f) = 0 \<and>
           (freadable (files s' f) \<longleftrightarrow> m AND O_WRONLY = 0) \<and> (fwritable (files s' f) \<longleftrightarrow> m AND O_WRONLY \<noteq> 0 \<or> m AND O_RDWR \<noteq> 0) \<and>
           proc_table s' p = (proc_table s p)\<lparr>ofile := (ofile (proc_table s p))(fd := Some f)\<rparr>))"
proof -
  let ?k = "resolve (sb s) (disk s) ROOTINO (map (take DIRSIZ) (path_elems q))"
  show ?thesis
  proof (cases "?k = None \<or> itype (dino (sb s) (disk s) (the ?k)) = T_DIR \<and> m \<noteq> O_RDONLY")
    case True
    obtain s' M t where r: "ker_open fr path m s = (Inr (- 1), s')" "txo 0 p st 0 (disk s) Map.empty ((frame s)\<lparr>mem := M, inodes := t\<rparr>) s'"
        "\<forall>a. \<not> in_range (fr_lookup fr) DIRENT_SIZE a \<longrightarrow> M a = mem s a" "tab_ok (sb s) (disk s) t" "refs t = refs (inodes s)"
      using ker_open_fails [OF assms(1-4,6-9) refl True] by blast
    have "outstanding (wal ((frame s)\<lparr>mem := M, inodes := t\<rparr>)) = 0" using assms(1) by (simp add: fs_idle_def)
    note v = view_idle [OF r(2) this]
    have "files s' = files s" "proc_table s' = proc_table s" "mem s' = M" "inodes s' = t" "sb s' = sb s"
      using tx_files [OF r(2)] tx_fields [OF r(2)] tx_inodes [OF r(2)] tx_sb [OF r(2)] by simp_all
    then show ?thesis using r v True by (auto split: option.splits)
  next
    case False
    then obtain k where k: "?k = Some k" "itype (dino (sb s) (disk s) k) \<noteq> T_DIR \<or> m = O_RDONLY" by auto
    have kS: "k \<in> S" using resolve_live [OF assms(2) _ k(1)] assms(2) by (simp add: live_tree_def)
    obtain s' ip M t where r: "ker_open fr path m s = (Inr (int fd), s')"
        "txo 0 p st 0 (disk s) Map.empty (opened p fd f ip (m AND O_WRONLY = 0) (m AND O_WRONLY \<noteq> 0 \<or> m AND O_RDWR \<noteq> 0) M t (frame s)) s'"
        "\<forall>a. \<not> in_range (fr_lookup fr) DIRENT_SIZE a \<longrightarrow> M a = mem s a" "tab_ok (sb s) (disk s) t" "ip < NINODE" "ivalid (t ip)" "inum (t ip) = k" "1 < iref (t ip)"
      using ker_open_run [OF assms(1-8) k assms(9-11)] by blast
    have "0 < iref (t ip)" using r(8) by simp
    note d = opened_fd [OF assms(1) r(2) assms(2) kS r(4-7) this assms(11)]
    note o = opened_facts [OF r(2)]
    have "\<not> (itype (dino (sb s) (disk s) k) = T_DIR \<and> m \<noteq> O_RDONLY)" using k(2) by blast
    then show ?thesis unfolding k(1) option.case if_not_P [OF \<open>\<not> (itype (dino (sb s) (disk s) k) = T_DIR \<and> m \<noteq> O_RDONLY)\<close>]
      using r(1,3,4,7) d o by (intro exI [of _ "int fd"] exI [of _ s']) (auto simp: new_file_def)
  qed
qed

theorem open_by_name_witness:
  "\<exists>s' ip. ker_open demo_frames [slash, 97, 98, 0] O_RDWR open_st = (Inr 3, s') \<and> fd_open s' 1 2 3 0 ip \<and> inum (inodes s' ip) = 7 \<and> fwritable (files s' 0)"
proof -
  have m: "O_RDWR AND O_CREATE = 0" "O_RDWR AND O_WRONLY = 0" "O_RDWR AND O_RDWR \<noteq> 0" by (simp_all add: O_RDWR_def O_CREATE_def O_WRONLY_def)
  show ?thesis
    using open_by_name [OF open_st_idle(1) open_st_ready(1,2) open_st_fields(3,4) open_st_ready(3,5,4) m(1) open_st_fields(5,6)] m
    unfolding open_st_ready(6) by (auto simp: open_st_ready(7))
qed

text \<open>C18. Every open leaves a reference behind. \<^verbatim>\<open>namei\<close> takes a reference to the inode, \<^verbatim>\<open>fileopen\<close> takes another one with \<^verbatim>\<open>idup\<close>, and
  \<^verbatim>\<open>ker_open\<close> does not give the first back; \<^verbatim>\<open>ker_close\<close> returns one. Opening a file and closing the descriptor at once
  therefore succeeds, restores the process table and the disk, frees the file table entry again, and ends with one reference more to the inode than before.\<close>

theorem open_close_leaks_reference:
  fixes s :: "('a) kfile_scheme"
  assumes "fs_idle s p st" and "live_tree (sb s) st (disk s) S" and "tab_ok (sb s) (disk s) (inodes s)"
    and "lock_idle (itable_lock s)" and "lock_idle (ftable_lock s)" and "card {k. 0 < refs (inodes s) k} + 1 < NINODE"
    and "zstr path (slash # q)" and "length (fr_name fr) = DIRSIZ"
    and "resolve (sb s) (disk s) ROOTINO (map (take DIRSIZ) (path_elems q)) = Some k"
    and "itype (dino (sb s) (disk s) k) \<noteq> T_DIR \<or> m = O_RDONLY" and "m AND O_CREATE = 0"
    and "find_file (files s) = Some f" and "free_fd (ofile (proc_table s p)) = Some fd"
  shows "\<exists>s1 s2. ker_open fr path m s = (Inr (int fd), s1) \<and> ker_close (int fd) s1 = (Inr 0, s2) \<and>
    fs_idle s2 p st \<and> disk s2 = disk s \<and> proc_table s2 = proc_table s \<and> fref (files s2 f) = fref (files s f) \<and>
    (\<forall>g. g \<noteq> f \<longrightarrow> files s2 g = files s g) \<and>
    refs (inodes s2) = (refs (inodes s))((ROOTDEV, k) := refs (inodes s) (ROOTDEV, k) + 1)"
proof -
  have kS: "k \<in> S" using resolve_live [OF assms(2) _ assms(9)] assms(2) by (simp add: live_tree_def)
  obtain s1 ip M t where r: "ker_open fr path m s = (Inr (int fd), s1)"
      "txo 0 p st 0 (disk s) Map.empty (opened p fd f ip (m AND O_WRONLY = 0) (m AND O_WRONLY \<noteq> 0 \<or> m AND O_RDWR \<noteq> 0) M t (frame s)) s1"
      "tab_ok (sb s) (disk s) t" "ip < NINODE" "ivalid (t ip)" "inum (t ip) = k" "1 < iref (t ip)"
      "refs t = (refs (inodes s))((ROOTDEV, k) := refs (inodes s) (ROOTDEV, k) + 2)"
    using ker_open_run [OF assms] by blast
  have i0: "0 < iref (t ip)" using r(7) by simp
  note d = opened_fd [OF assms(1) r(2) assms(2) kS r(3-6) i0 assms(13)]
  note o = opened_facts [OF r(2)]
  have "disk_fields (t ip) = disk_fields (dino (sb s) (disk s) k)" using r(3-6) i0 by (auto simp: tab_ok_def)
  then have nl: "inlink (inodes s1 ip) \<noteq> 0" unfolding o(2) using disk_fields_types live_inode(2) [OF assms(2) kS] by metis
  obtain s2 where s2: "ker_close (int fd) s1 = (Inr 0, s2)" "fs_idle s2 p st" "disk s2 = disk s1"
      "s2 = upd_file f (\<lambda>x. x\<lparr>fref := 0, ftype := FD_NONE\<rparr>) (upd_inode ip (\<lambda>x. x\<lparr>iref := iref x - 1\<rparr>)
        (upd_proc p (\<lambda>x. x\<lparr>ofile := (ofile x)(nat (int fd) := None)\<rparr>) s1))"
    using ker_close_run [OF d(1) _ _ _ nl] assms(4,5) o by (auto simp: new_file_def)
  have "(proc_table s p)\<lparr>ofile := (ofile (proc_table s p))(fd := None)\<rparr> = proc_table s p"
    using free_fdD [OF assms(13)] by (simp add: fun_upd_idem)
  then have e: "proc_table s2 = proc_table s" "inodes s2 = t(ip := (t ip)\<lparr>iref := iref (t ip) - 1\<rparr>)"
      "files s2 = (files s)(f := (new_file ip (m AND O_WRONLY = 0) (m AND O_WRONLY \<noteq> 0 \<or> m AND O_RDWR \<noteq> 0) (files s f))\<lparr>fref := 0, ftype := FD_NONE\<rparr>)"
    unfolding s2(4) using o by (simp_all add: upd_proc_def)
  have "fref (files s f) = 0" using find_SomeD [OF assms(12) [unfolded find_file_def]] by simp
  moreover have "refs (inodes s2) = (refs (inodes s))((ROOTDEV, k) := refs (inodes s) (ROOTDEV, k) + 1)"
    using tab_put(2) [OF r(3,4) i0, of "(ROOTDEV, k)"] r(6,8) e(2) by (simp add: add.commute)
  ultimately show ?thesis using r(1) s2(1-3) d(3) e by auto
qed

theorem open_close_leaks_reference_witness:
  "\<exists>s1 s2. ker_open demo_frames [slash, 97, 98, 0] O_RDWR open_st = (Inr 3, s1) \<and> ker_close 3 s1 = (Inr 0, s2) \<and>
    refs (inodes open_st) (ROOTDEV, 7) = 0 \<and> refs (inodes s2) (ROOTDEV, 7) = 1"
proof -
  have m: "O_RDWR AND O_CREATE = 0" by (simp add: O_RDWR_def O_CREATE_def)
  have "refs (inodes open_st) = (\<lambda>_. 0)" unfolding open_st_fields(2) by (rule tree_table(2))
  then show ?thesis
    using open_close_leaks_reference [OF open_st_idle(1) open_st_ready(1,2) open_st_fields(3,4) open_st_ready(3,5,4,6) _ m open_st_fields(5,6)] open_st_ready(7)
    by auto
qed

end
