(* ===== verification/Usys.thy ===== *)
theory Usys
  imports ForkSpec
begin

text \<open>
  The system call stubs of user programs, \<^verbatim>\<open>kernel/syscall.h\<close>. \<^verbatim>\<open>ecall\<close> raises exception 8; the trampoline stores the registers in
  the trapframe of the process and calls \<^verbatim>\<open>usertrap\<close>; the value of the stub is the register \<^verbatim>\<open>a0\<close> with which the
  process continues. A call that gives up the processor or ends the process stops the run, as in \<open>Trap\<close>.
\<close>

section \<open>Stubs\<close>

definition ecall :: "tstack \<Rightarrow> (u64 \<Rightarrow> (('a) ktrap_scheme, unit) km) \<Rightarrow> (trapframe \<Rightarrow> trapframe) \<Rightarrow> (('a) ktrap_scheme, u64) km" where
  "ecall ts code regs = kbind myproc (\<lambda>p.
     kseq (kmod (\<lambda>s. (upd_proc p (\<lambda>x. x\<lparr>tframe := regs (tframe x)\<rparr>) s)\<lparr>scause := 8\<rparr>))
       (kbind (usertrap ts code) (\<lambda>_. kget (\<lambda>s. tframe (proc_table s p) Tf_a0))))"

definition do_syscall :: "tstack \<Rightarrow> (u64 \<Rightarrow> (('a) ktrap_scheme, unit) km) \<Rightarrow> u64 \<Rightarrow> u64 \<Rightarrow> u64 \<Rightarrow> (('a) ktrap_scheme, u64) km" where
  "do_syscall ts code n arg0 arg1 = ecall ts code (\<lambda>t. t(Tf_a0 := arg0, Tf_a1 := arg1, Tf_a7 := n))"

definition do_syscall_5 ::
  "tstack \<Rightarrow> (u64 \<Rightarrow> (('a) ktrap_scheme, unit) km) \<Rightarrow> u64 \<Rightarrow> u64 \<Rightarrow> u64 \<Rightarrow> u64 \<Rightarrow> u64 \<Rightarrow> u64 \<Rightarrow> (('a) ktrap_scheme, u64) km" where
  "do_syscall_5 ts code n arg0 arg1 arg2 arg3 arg4 =
     ecall ts code (\<lambda>t. t(Tf_a0 := arg0, Tf_a1 := arg1, Tf_a2 := arg2, Tf_a3 := arg3, Tf_a4 := arg4, Tf_a7 := n))"

text \<open>A \<^verbatim>\<open>long\<close> result returned as an \<^verbatim>\<open>int\<close>, or dropped.\<close>

abbreviation as_int :: "(('a) ktrap_scheme, u64) km \<Rightarrow> (('a) ktrap_scheme, int) km" where
  "as_int m \<equiv> kbind m (\<lambda>r. kret (to_int r))"

abbreviation as_void :: "(('a) ktrap_scheme, u64) km \<Rightarrow> (('a) ktrap_scheme, unit) km" where
  "as_void m \<equiv> kbind m (\<lambda>_. kret ())"

definition sys_exit :: "tstack \<Rightarrow> (u64 \<Rightarrow> (('a) ktrap_scheme, unit) km) \<Rightarrow> int \<Rightarrow> (('a) ktrap_scheme, unit) km" where
  "sys_exit ts code status = kseq (as_void (do_syscall ts code SYS_exit (word_of_int status) 0)) (kstop Diverge)"

definition sys_kill :: "tstack \<Rightarrow> (u64 \<Rightarrow> (('a) ktrap_scheme, unit) km) \<Rightarrow> int \<Rightarrow> (('a) ktrap_scheme, unit) km" where
  "sys_kill ts code n = as_void (do_syscall ts code (word_of_int SYS_kill) (word_of_int n) 0)"

definition sys_fork :: "tstack \<Rightarrow> (u64 \<Rightarrow> (('a) ktrap_scheme, unit) km) \<Rightarrow> (('a) ktrap_scheme, int) km" where
  "sys_fork ts code = as_int (do_syscall ts code SYS_fork 0 0)"

definition sys_wait :: "tstack \<Rightarrow> (u64 \<Rightarrow> (('a) ktrap_scheme, unit) km) \<Rightarrow> u64 \<Rightarrow> (('a) ktrap_scheme, int) km" where
  "sys_wait ts code status = as_int (do_syscall ts code SYS_wait status 0)"

definition sys_yield :: "tstack \<Rightarrow> (u64 \<Rightarrow> (('a) ktrap_scheme, unit) km) \<Rightarrow> (('a) ktrap_scheme, int) km" where
  "sys_yield ts code = as_int (do_syscall ts code SYS_yield 0 0)"

definition sys_step :: "tstack \<Rightarrow> (u64 \<Rightarrow> (('a) ktrap_scheme, unit) km) \<Rightarrow> (('a) ktrap_scheme, int) km" where
  "sys_step ts code = as_int (do_syscall ts code SYS_step 0 0)"

definition sys_pid :: "tstack \<Rightarrow> (u64 \<Rightarrow> (('a) ktrap_scheme, unit) km) \<Rightarrow> (('a) ktrap_scheme, int) km" where
  "sys_pid ts code = as_int (do_syscall ts code SYS_pid 0 0)"

definition sys_ppid :: "tstack \<Rightarrow> (u64 \<Rightarrow> (('a) ktrap_scheme, unit) km) \<Rightarrow> (('a) ktrap_scheme, int) km" where
  "sys_ppid ts code = as_int (do_syscall ts code SYS_ppid 0 0)"

definition sys_printint :: "tstack \<Rightarrow> (u64 \<Rightarrow> (('a) ktrap_scheme, unit) km) \<Rightarrow> u64 \<Rightarrow> (('a) ktrap_scheme, unit) km" where
  "sys_printint ts code x = as_void (do_syscall ts code SYS_printint x 0)"

definition sys_printstr :: "tstack \<Rightarrow> (u64 \<Rightarrow> (('a) ktrap_scheme, unit) km) \<Rightarrow> u64 \<Rightarrow> (('a) ktrap_scheme, unit) km" where
  "sys_printstr ts code a = as_void (do_syscall ts code SYS_printstr a 0)"

definition sys_open :: "tstack \<Rightarrow> (u64 \<Rightarrow> (('a) ktrap_scheme, unit) km) \<Rightarrow> u64 \<Rightarrow> int \<Rightarrow> int \<Rightarrow> (('a) ktrap_scheme, int) km" where
  "sys_open ts code pathname flags mode = as_int (do_syscall_5 ts code SYS_open pathname (word_of_int flags) (word_of_int mode) 0 0)"

definition sys_close :: "tstack \<Rightarrow> (u64 \<Rightarrow> (('a) ktrap_scheme, unit) km) \<Rightarrow> int \<Rightarrow> (('a) ktrap_scheme, int) km" where
  "sys_close ts code fd = as_int (do_syscall ts code SYS_close (word_of_int fd) 0)"

definition sys_read :: "tstack \<Rightarrow> (u64 \<Rightarrow> (('a) ktrap_scheme, unit) km) \<Rightarrow> int \<Rightarrow> u64 \<Rightarrow> int \<Rightarrow> (('a) ktrap_scheme, int) km" where
  "sys_read ts code fd buf count = as_int (do_syscall_5 ts code SYS_read (word_of_int fd) buf (word_of_int count) 0 0)"

definition sys_write :: "tstack \<Rightarrow> (u64 \<Rightarrow> (('a) ktrap_scheme, unit) km) \<Rightarrow> int \<Rightarrow> u64 \<Rightarrow> int \<Rightarrow> (('a) ktrap_scheme, int) km" where
  "sys_write ts code fd buf count = as_int (do_syscall_5 ts code SYS_write (word_of_int fd) buf (word_of_int count) 0 0)"

definition sys_unlink :: "tstack \<Rightarrow> (u64 \<Rightarrow> (('a) ktrap_scheme, unit) km) \<Rightarrow> u64 \<Rightarrow> (('a) ktrap_scheme, int) km" where
  "sys_unlink ts code pathname = as_int (do_syscall ts code SYS_unlink pathname 0)"

definition sys_sbrk :: "tstack \<Rightarrow> (u64 \<Rightarrow> (('a) ktrap_scheme, unit) km) \<Rightarrow> int \<Rightarrow> (('a) ktrap_scheme, u64) km" where
  "sys_sbrk ts code increment = do_syscall ts code SYS_sbrk (word_of_int increment) 0"

definition sys_get_time :: "tstack \<Rightarrow> (u64 \<Rightarrow> (('a) ktrap_scheme, unit) km) \<Rightarrow> (('a) ktrap_scheme, u64) km" where
  "sys_get_time ts code = do_syscall ts code SYS_get_time 0 0"

section \<open>What an ecall does\<close>

text \<open>The state in which the kernel finds the registers.\<close>

definition trapped :: "nat \<Rightarrow> (trapframe \<Rightarrow> trapframe) \<Rightarrow> ('a) ktrap_scheme \<Rightarrow> ('a) ktrap_scheme" where
  "trapped p regs s = (upd_proc p (\<lambda>x. x\<lparr>tframe := regs (tframe x)\<rparr>) s)\<lparr>scause := 8\<rparr>"

lemma ecall_returns:
  fixes s :: "('a) ktrap_scheme"
  assumes cur: "current_proc s = Some p"
    and c: "syscall_case ts (TfProc p) (regs (tframe (proc_table s p))) (trapped p regs s) = (Inr (), s1)"
    and cur1: "current_proc s1 = Some p" and epc: "regs (tframe (proc_table s p)) Tf_epc = pc"
  shows "ecall ts code regs s = (Inr (tframe (proc_table s1 p) Tf_a0),
    (tf_set (TfProc p) Tf_epc (pc + 4) s1)\<lparr>stvec := TRAMPOLINE + (ld_uservec s1 - ld_trampoline s1), sscratch := TRAPFRAME\<rparr>)"
proof -
  let ?t = "trapped p regs s"
  have t: "current_proc ?t = Some p" "scause ?t = 8" "tframe (proc_table ?t p) = regs (tframe (proc_table s p))"
    using cur by (simp_all add: trapped_def)
  have "current_proc (tf_set (TfProc p) Tf_epc (pc + 4) s1) = Some p" "ld_uservec (tf_set (TfProc p) Tf_epc (pc + 4) s1) = ld_uservec s1"
    "ld_trampoline (tf_set (TfProc p) Tf_epc (pc + 4) s1) = ld_trampoline s1" "ld_userret (tf_set (TfProc p) Tf_epc (pc + 4) s1) = ld_userret s1"
    "pagetable (proc_table (tf_set (TfProc p) Tf_epc (pc + 4) s1) p) = pagetable (proc_table s1 p)"
    using cur1 by (simp_all add: tf_set_def upd_proc_def)
  then have "usertrap ts code ?t = (Inr (TRAMPOLINE + (ld_userret s1 - ld_trampoline s1), TRAPFRAME, MAKE_SATP (pagetable (proc_table s1 p))),
      (tf_set (TfProc p) Tf_epc (pc + 4) s1)\<lparr>stvec := TRAMPOLINE + (ld_uservec s1 - ld_trampoline s1), sscratch := TRAPFRAME\<rparr>)"
    using t c epc by (simp add: usertrap_def myproc_def Let_def handle_syscall_def tf_get_def set_sepc_def usertrapret_def)
  then show ?thesis using cur by (simp add: ecall_def myproc_def trapped_def) (simp add: tf_set_def)
qed

lemma trapped_fields:
  "mem (trapped p regs s) = mem s" "current_proc (trapped p regs s) = current_proc s" "kernel_pagetable (trapped p regs s) = kernel_pagetable s"
  "trampoline_phys_addr (trapped p regs s) = trampoline_phys_addr s" "now (trapped p regs s) = now s"
  "proc_table (trapped p regs s) = (proc_table s)(p := (proc_table s p)\<lparr>tframe := regs (tframe (proc_table s p))\<rparr>)"
  "pm_inv (trapped p regs s) ps = pm_inv s ps" "space_ok (trapped p regs s) pt sz ps = space_ok s pt sz ps"
  by (simp_all add: trapped_def pm_inv_def space_ok_def upd_proc_def)

lemma find_proc_tframe:
  "find_proc (tab(p := (tab p)\<lparr>tframe := t\<rparr>)) (\<lambda>p. pstate p = UNUSED) is = find_proc tab (\<lambda>p. pstate p = UNUSED) is"
  by (induction "is") simp_all

lemma to_int_small: "n < PROC \<Longrightarrow> to_int (word_of_int (int n)) = int n"
proof -
  assume n: "n < PROC"
  have "ucast (of_nat n :: u64) = (of_nat n :: u32)" 
    using n by (simp add: word_unat_eq_iff unsigned_ucast_eq unat_of_nat take_bit_nat_eq_self PROC_def)
  moreover have "sint (of_nat n :: u32) = int n"
    using n by (simp add: signed_of_nat signed_take_bit_int_eq_self PROC_def)
  ultimately show ?thesis by (simp add: to_int_def)
qed

lemmas SYS_defs = SYS_printint_def SYS_printstr_def SYS_exit_def SYS_kill_def SYS_fork_def SYS_wait_def SYS_yield_def SYS_pid_def SYS_ppid_def
  SYS_get_time_def SYS_step_def SYS_open_def SYS_close_def SYS_read_def SYS_write_def SYS_unlink_def SYS_sbrk_def

section \<open>Properties\<close>

text \<open>C6. \<^verbatim>\<open>fork\<close> returns twice. When a user process with a free table entry and enough free pages calls \<^verbatim>\<open>sys_fork\<close>, the
  call returns the identifier of a new process, the index of its entry. The new process is runnable and has the caller as parent;
  its saved registers are those with which the caller continues, except that \<^verbatim>\<open>a0\<close> is 0 and that the kernel's own two
  words are set for it, so both continue after the \<^verbatim>\<open>ecall\<close>. Every page of the caller has in the new process's
  table a frame of its own with the same bytes, and the trapframe and the trampoline are mapped. The entry of no
  other process changes, and neither does memory outside the pages that were free.\<close>

theorem sys_fork_returns_twice:
  fixes s :: "('a) ktrap_scheme"
  assumes cur: "current_proc s = Some q" and usr: "is_user (proc_table s q)"
    and free: "find_proc (proc_table s) (\<lambda>p. pstate p = UNUSED) [0..<PROC] = Some c" and cq: "c \<noteq> q"
    and pm: "pm_inv s (tf # pt # ks # ps)" and sp: "space_ok s (pagetable (proc_table s q)) (psz (proc_table s q)) (tf # pt # ks # ps)"
    and sz: "psz (proc_table s q) \<le> 0x80000000" and len: "3 * pages_left 0 (psz (proc_table s q)) + 4 \<le> length ps"
  shows "\<exists>s' ps' ch. sys_fork ts code s = (Inr (int c), s') \<and> proc_table s' c = ch \<and> pid ch = int c \<and>
    pstate ch = RUNNABLE \<and> parent ch = Some q \<and> is_user ch \<and> psz ch = psz (proc_table s q) \<and> cwd ch = cwd (proc_table s q) \<and>
    (\<forall>fd < NOFILE. ofile ch fd = None) \<and> pagetable ch = pt \<and> kstack ch = ks \<and>
    tframe ch = (tframe (proc_table s' q))(Tf_a0 := 0, Tf_kernel_sp := ks + of_nat PGSIZE, Tf_kernel_satp := MAKE_SATP (kernel_pagetable s)) \<and>
    tframe (proc_table s' q) = (tframe (proc_table s q))(Tf_a0 := of_nat c, Tf_a1 := 0, Tf_a7 := SYS_fork, Tf_epc := tframe (proc_table s q) Tf_epc + 4) \<and>
    (\<forall>j. j \<noteq> c \<longrightarrow> j \<noteq> q \<longrightarrow> proc_table s' j = proc_table s j) \<and> vm_inv s' 2 pt ps' \<and>
    (\<forall>va. page_aligned va \<longrightarrow> va < psz (proc_table s q) \<longrightarrow> page_copied s s' (pagetable (proc_table s q)) pt (tf # pt # ks # ps) ps' va) \<and>
    pt_map (mem s') 2 pt TRAPFRAME = Some (map_entry TRAPFRAME tf (perms (PTE_R OR PTE_W)) None) \<and>
    pt_map (mem s') 2 pt TRAMPOLINE = Some (map_entry TRAMPOLINE (trampoline_phys_addr s) (perms (PTE_R OR PTE_X)) None) \<and>
    (\<forall>b. (\<forall>x \<in> set (tf # pt # ks # ps). \<not> in_range x PGSIZE b) \<longrightarrow> mem s' b = mem s b)"
proof -
  let ?regs = "\<lambda>t. t(Tf_a0 := 0, Tf_a1 := 0, Tf_a7 := SYS_fork) :: trapframe" and ?pc = "tframe (proc_table s q) Tf_epc"
  let ?t = "trapped q ?regs s" and ?old = "pagetable (proc_table s q)" and ?sz = "psz (proc_table s q)"
  have q: "proc_table ?t q = (proc_table s q)\<lparr>tframe := ?regs (tframe (proc_table s q))\<rparr>" by (simp add: trapped_fields)
  have pre: "current_proc ?t = Some q" "is_user (proc_table ?t q)" "find_proc (proc_table ?t) (\<lambda>p. pstate p = UNUSED) [0..<PROC] = Some c"
      "pm_inv ?t (tf # pt # ks # ps)" "space_ok ?t (pagetable (proc_table ?t q)) (psz (proc_table ?t q)) (tf # pt # ks # ps)"
      "psz (proc_table ?t q) \<le> 0x80000000" "3 * pages_left 0 (psz (proc_table ?t q)) + 4 \<le> length ps"
    unfolding q unfolding trapped_fields find_proc_tframe using cur usr free pm sp sz len by simp_all
  obtain s1 ps' ch where f: "fork_proc (ts_depth ts) ?t = (Inr (int c), s1)" "proc_table s1 = (proc_table ?t)(c := ch)"
      "forked q (proc_table ?t q) (kernel_pagetable s) tf pt ks ch" "pid ch = int c" "current_proc s1 = Some q" "vm_inv s1 2 pt ps'"
      "\<forall>va. page_aligned va \<longrightarrow> va < ?sz \<longrightarrow> page_copied ?t s1 ?old pt (tf # pt # ks # ps) ps' va"
      "pt_map (mem s1) 2 pt TRAPFRAME = Some (map_entry TRAPFRAME tf (perms (PTE_R OR PTE_W)) None)"
      "pt_map (mem s1) 2 pt TRAMPOLINE = Some (map_entry TRAMPOLINE (trampoline_phys_addr s) (perms (PTE_R OR PTE_X)) None)"
      "\<forall>b. (\<forall>x \<in> set (tf # pt # ks # ps). \<not> in_range x PGSIZE b) \<longrightarrow> mem s1 b = mem s b"
    using fork_run [OF pre(1-3) cq pre(4-7), of "ts_depth ts"] unfolding trapped_fields by auto
  let ?s2 = "tf_set (TfProc q) Tf_a0 (word_of_int (int c)) s1"
  have call: "syscall_case ts (TfProc q) (?regs (tframe (proc_table s q))) ?t = (Inr (), ?s2)"
    using f(1) by (simp add: syscall_case_def SYS_defs set_a0_def)
  let ?s' = "(tf_set (TfProc q) Tf_epc (?pc + 4) ?s2)\<lparr>stvec := TRAMPOLINE + (ld_uservec ?s2 - ld_trampoline ?s2), sscratch := TRAPFRAME\<rparr>"
  have c2: "current_proc ?s2 = Some q" "tframe (proc_table ?s2 q) Tf_a0 = of_nat c" using f(5) by (simp_all add: tf_set_def)
  have "c < PROC" using find_proc_Some [OF free] by simp
  then have run: "sys_fork ts code s = (Inr (int c), ?s')"
    using ecall_returns [where regs = ?regs and pc = ?pc and code = code, OF cur call c2(1)] c2(2) to_int_small [of c]
    by (simp add: sys_fork_def do_syscall_def)
  have same: "mem ?s' = mem s1" "vm_inv ?s' 2 pt ps' = vm_inv s1 2 pt ps'"
    by (simp_all add: tf_set_def upd_proc_def vm_inv_def pm_inv_def)
  have tab: "proc_table ?s' c = ch" "\<And>j. j \<noteq> c \<Longrightarrow> j \<noteq> q \<Longrightarrow> proc_table ?s' j = proc_table s j"
      "tframe (proc_table ?s' q) = (?regs (tframe (proc_table s q)))(Tf_a0 := of_nat c, Tf_epc := ?pc + 4)"
    using f(2) cq by (simp_all add: tf_set_def trapped_fields)
  have pc: "page_copied s ?s' ?old pt (tf # pt # ks # ps) ps' va" if "page_aligned va" "va < ?sz" for va
    using f(7) [rule_format, OF that] unfolding page_copied_def same trapped_fields .
  show ?thesis
    by (intro exI [of _ ?s'] exI [of _ ps'] exI [of _ ch] conjI run tab(1) allI impI tab(2) pc)
      (use f(3,4,6,8-10) tab(3) same q in \<open>simp_all add: forked_def fun_upd_twist\<close>)
qed

theorem sys_fork_returns_twice_witness:
  "\<exists>s' pt ps ps'. sys_fork demo_tstack (\<lambda>_. kret ()) demo_parent = (Inr 0, s') \<and> tframe (proc_table s' 0) Tf_a0 = 0 \<and>
     tframe (proc_table s' 1) Tf_epc = 0x104 \<and> page_copied demo_parent s' 0x80005000 pt ps ps' 0 \<and>
     pt_map (mem demo_parent) 2 0x80005000 0 = Some 0x21C00017"
proof -
  obtain ps where ps: "pm_inv demo_parent ps" "10 \<le> length ps" "space_ok demo_parent 0x80005000 4096 ps"
      "same_rest (demo_trap trap_user (link_pages fork_pages) 0x80006000 8) demo_parent"
      "pt_map (mem demo_parent) 2 0x80005000 0 = Some 0x21C00017"
    by (rule demo_parent_ok) (rule that)
  obtain tf pt ks qs where qs: "ps = tf # pt # ks # qs"
  proof -
    have "3 \<le> length ps" using ps(2) by simp
    then show thesis using that by (auto simp: numeral_3_eq_3 Suc_le_length_iff)
  qed
  have c: "current_proc demo_parent = Some 1" and t: "proc_table demo_parent = (proc_table demo_disk)(1 := trap_user)"
    using same_rest_fields [OF ps(4)] by simp_all
  have f: "find_proc (proc_table demo_parent) (\<lambda>p. pstate p = UNUSED) [0..<PROC] = Some 0"
    unfolding t by (simp add: upt_conv_Cons PROC_def demo_disk_defs)
  have u: "is_user trap_user" "pagetable trap_user = 0x80005000" "psz trap_user = 4096" "tframe trap_user Tf_epc = 0x100"
    by (simp_all add: trap_user_def)
  have l: "3 * pages_left 0 4096 + 4 \<le> length qs" using ps(2) qs by (simp add: pages_left_def)
  have q: "proc_table demo_parent 1 = trap_user" by (simp add: t)
  have sp: "space_ok demo_parent 0x80005000 4096 (tf # pt # ks # qs)" and sz: "(4096 :: u64) \<le> 0x80000000" using ps(3) qs by simp_all
  obtain s' ps' ch where r: "sys_fork demo_tstack (\<lambda>_. kret ()) demo_parent = (Inr (int 0), s')" "proc_table s' 0 = ch"
      "tframe ch = (tframe (proc_table s' 1))(Tf_a0 := 0, Tf_kernel_sp := ks + of_nat PGSIZE, Tf_kernel_satp := MAKE_SATP (kernel_pagetable demo_parent))"
      "tframe (proc_table s' 1) = (tframe trap_user)(Tf_a0 := of_nat 0, Tf_a1 := 0, Tf_a7 := SYS_fork, Tf_epc := tframe trap_user Tf_epc + 4)"
      "\<forall>va. page_aligned va \<longrightarrow> va < 4096 \<longrightarrow> page_copied demo_parent s' 0x80005000 pt (tf # pt # ks # qs) ps' va"
    using sys_fork_returns_twice [OF c _ f _ ps(1) [unfolded qs], where ts = demo_tstack and code = "\<lambda>_. kret ()",
        unfolded q u(1-3), OF u(1) zero_neq_one sp sz l] by blast
  have "page_copied demo_parent s' 0x80005000 pt (tf # pt # ks # qs) ps' 0" using r(5) [rule_format, of 0] by simp
  moreover have "sys_fork demo_tstack (\<lambda>_. kret ()) demo_parent = (Inr 0, s')" using r(1) by simp
  moreover have "tframe (proc_table s' 0) Tf_a0 = 0" "tframe (proc_table s' 1) Tf_epc = 0x104" unfolding r(2,3) r(4) u(4) by simp_all
  ultimately show ?thesis using ps(5) by blast
qed

definition quiet_call :: "nat \<Rightarrow> ('a) ktrap_scheme \<Rightarrow> ('a) ktrap_scheme \<Rightarrow> bool" where
  "quiet_call p s s' \<longleftrightarrow> mem s' = mem s \<and> current_proc s' = Some p \<and> (\<forall>j. j \<noteq> p \<longrightarrow> proc_table s' j = proc_table s j) \<and>
     tframe (proc_table s' p) Tf_epc = tframe (proc_table s p) Tf_epc + 4 \<and>
     (\<forall>f. f \<notin> {Tf_a0, Tf_a1, Tf_a7, Tf_epc} \<longrightarrow> tframe (proc_table s' p) f = tframe (proc_table s p) f) \<and>
     pstate (proc_table s' p) = pstate (proc_table s p)"

lemma quiet_ecall:
  fixes s :: "('a) ktrap_scheme"
  assumes cur: "current_proc s = Some p"
    and c: "syscall_case ts (TfProc p) ((tframe (proc_table s p))(Tf_a0 := a0, Tf_a1 := a1, Tf_a7 := n))
      (trapped p (\<lambda>t. t(Tf_a0 := a0, Tf_a1 := a1, Tf_a7 := n)) s) =
      (Inr (), tf_set (TfProc p) Tf_a0 v (trapped p (\<lambda>t. t(Tf_a0 := a0, Tf_a1 := a1, Tf_a7 := n)) s))"
  shows "\<exists>s'. do_syscall ts code n a0 a1 s = (Inr v, s') \<and> quiet_call p s s'"
proof -
  let ?regs = "\<lambda>t. t(Tf_a0 := a0, Tf_a1 := a1, Tf_a7 := n) :: trapframe"
  let ?t = "tf_set (TfProc p) Tf_a0 v (trapped p ?regs s)"
  let ?s' = "(tf_set (TfProc p) Tf_epc (tframe (proc_table s p) Tf_epc + 4) ?t)\<lparr>stvec := TRAMPOLINE + (ld_uservec ?t - ld_trampoline ?t), sscratch := TRAPFRAME\<rparr>"
  have cur1: "current_proc ?t = Some p" and v: "tframe (proc_table ?t p) Tf_a0 = v" using cur by (simp_all add: tf_set_def trapped_fields)
  have "do_syscall ts code n a0 a1 s = (Inr v, ?s')"
    using ecall_returns [where regs = ?regs and code = code, OF cur c cur1 refl] v by (simp add: do_syscall_def)
  moreover have "quiet_call p s ?s'" using cur by (simp add: quiet_call_def tf_set_def trapped_def upd_proc_def)
  ultimately show ?thesis by blast
qed

lemma as_int_run: "m s = (Inr v, s') \<Longrightarrow> as_int m s = (Inr (to_int v), s')"
  by simp

lemma to_int_word: "- (2 ^ 31) \<le> n \<Longrightarrow> n < 2 ^ 31 \<Longrightarrow> to_int (word_of_int n) = n"
proof -
  assume n: "- (2 ^ 31) \<le> n" "n < 2 ^ 31"
  have "sint (ucast (word_of_int n :: u64) :: u32) = signed_take_bit 31 (take_bit 64 n)" by (simp add: unsigned_of_int signed_of_int)
  also have "\<dots> = signed_take_bit 31 n" by (simp add: signed_take_bit_take_bit)
  also have "\<dots> = n" using n by (simp add: signed_take_bit_int_eq_self)
  finally show ?thesis by (simp add: to_int_def)
qed

text \<open>The calls that only read. For the running process \<open>p\<close>, \<^verbatim>\<open>sys_pid\<close> returns its identifier, \<^verbatim>\<open>sys_ppid\<close> that of its
  parent (0 without one), \<^verbatim>\<open>sys_get_time\<close> the time, \<^verbatim>\<open>sys_step\<close> 0 and \<^verbatim>\<open>sys_sbrk\<close> -1; a call with a number the kernel does not know returns -1.
  Each of them continues after the \<^verbatim>\<open>ecall\<close>, and changes no memory, no other process and no register but
  \<^verbatim>\<open>a0\<close>, the program counter and the registers of the arguments.\<close>

theorem sys_calls_answer:
  fixes s :: "('a) ktrap_scheme"
  assumes cur: "current_proc s = Some p" and ids: "\<And>i. i = p \<or> parent (proc_table s p) = Some i \<Longrightarrow> - (2 ^ 31) \<le> pid (proc_table s i) \<and> pid (proc_table s i) < 2 ^ 31"
  shows "(\<exists>s'. sys_pid ts code s = (Inr (pid (proc_table s p)), s') \<and> quiet_call p s s') \<and>
    (\<exists>s'. sys_ppid ts code s = (Inr (case parent (proc_table s p) of None \<Rightarrow> 0 | Some q \<Rightarrow> pid (proc_table s q)), s') \<and> quiet_call p s s') \<and>
    (\<exists>s'. sys_get_time ts code s = (Inr (now s), s') \<and> quiet_call p s s') \<and>
    (\<exists>s'. sys_step ts code s = (Inr 0, s') \<and> quiet_call p s s') \<and>
    (\<exists>s'. sys_sbrk ts code n s = (Inr (- 1), s') \<and> quiet_call p s s') \<and>
    (k \<notin> {SYS_printint, SYS_printstr, SYS_open, SYS_close, SYS_read, SYS_write, SYS_unlink, SYS_sbrk, SYS_get_time, SYS_exit,
        word_of_int SYS_kill, SYS_pid, SYS_ppid, SYS_fork, SYS_wait, SYS_yield, SYS_step} \<longrightarrow>
      (\<exists>s'. do_syscall ts code k a b s = (Inr (- 1), s') \<and> quiet_call p s s'))"
proof (intro conjI impI)
  note q = quiet_ecall [OF cur, of ts _ _ _ _ code] and f = trapped_fields
  let ?ppid = "case parent (proc_table s p) of None \<Rightarrow> 0 | Some q \<Rightarrow> pid (proc_table s q)"
  have pp: "- (2 ^ 31) \<le> ?ppid \<and> ?ppid < 2 ^ 31" using ids by (simp split: option.split)
  have "\<exists>s'. do_syscall ts code SYS_pid 0 0 s = (Inr (word_of_int (pid (proc_table s p))), s') \<and> quiet_call p s s'"
    by (rule q) (use cur in \<open>simp add: syscall_case_def SYS_defs set_a0_def mypid_def myproc_def f\<close>)
  then show "\<exists>s'. sys_pid ts code s = (Inr (pid (proc_table s p)), s') \<and> quiet_call p s s'"
    unfolding sys_pid_def using to_int_word [of "pid (proc_table s p)"] ids [of p] by auto
  have "\<exists>s'. do_syscall ts code SYS_ppid 0 0 s = (Inr (word_of_int ?ppid), s') \<and> quiet_call p s s'"
    by (rule q) (use cur in \<open>auto simp: syscall_case_def SYS_defs set_a0_def case_ppid_def myproc_def f split: option.split\<close>)
  then show "\<exists>s'. sys_ppid ts code s = (Inr ?ppid, s') \<and> quiet_call p s s'"
    unfolding sys_ppid_def using to_int_word [of ?ppid] pp by auto
  show "\<exists>s'. sys_get_time ts code s = (Inr (now s), s') \<and> quiet_call p s s'"
    unfolding sys_get_time_def by (rule q) (simp add: syscall_case_def SYS_defs set_a0_def f)
  have "\<exists>s'. do_syscall ts code SYS_step 0 0 s = (Inr 0, s') \<and> quiet_call p s s'"
    by (rule q) (simp add: syscall_case_def SYS_defs set_a0_def)
  then show "\<exists>s'. sys_step ts code s = (Inr 0, s') \<and> quiet_call p s s'" unfolding sys_step_def by (auto simp: to_int_def)
  show "\<exists>s'. sys_sbrk ts code n s = (Inr (- 1), s') \<and> quiet_call p s s'"
    unfolding sys_sbrk_def by (rule q) (simp add: syscall_case_def SYS_defs set_a0_def)
  show "\<exists>s'. do_syscall ts code k a b s = (Inr (- 1), s') \<and> quiet_call p s s'"
    if "k \<notin> {SYS_printint, SYS_printstr, SYS_open, SYS_close, SYS_read, SYS_write, SYS_unlink, SYS_sbrk, SYS_get_time, SYS_exit,
        word_of_int SYS_kill, SYS_pid, SYS_ppid, SYS_fork, SYS_wait, SYS_yield, SYS_step}"
    using that by (intro q) (simp add: syscall_case_def set_a0_def)
qed

theorem sys_calls_answer_witness:
  "(\<exists>s'. sys_pid demo_tstack (\<lambda>_. kret ()) (demo_trap trap_user (\<lambda>_. 0) 0 0) = (Inr 1, s')) \<and>
   (\<exists>s'. sys_ppid demo_tstack (\<lambda>_. kret ()) (demo_trap trap_user (\<lambda>_. 0) 0 0) = (Inr 0, s')) \<and>
   (\<exists>s'. do_syscall demo_tstack (\<lambda>_. kret ()) 7777 0 0 (demo_trap trap_user (\<lambda>_. 0) 0 0) = (Inr (- 1), s'))"
proof -
  let ?s = "demo_trap trap_user (\<lambda>_. 0) 0 0"
  have p: "pid (proc_table ?s 1) = 1" "parent (proc_table ?s 1) = None" by (simp_all add: trap_user_def idle_proc_def)
  have ids: "- (2 ^ 31) \<le> pid (proc_table ?s i) \<and> pid (proc_table ?s i) < 2 ^ 31" if "i = 1 \<or> parent (proc_table ?s 1) = Some i" for i
    using that p by auto
  have c: "current_proc ?s = Some 1" by simp
  have k: "(7777 :: u64) \<notin> {SYS_printint, SYS_printstr, SYS_open, SYS_close, SYS_read, SYS_write, SYS_unlink, SYS_sbrk, SYS_get_time, SYS_exit,
      word_of_int SYS_kill, SYS_pid, SYS_ppid, SYS_fork, SYS_wait, SYS_yield, SYS_step}" by (simp add: SYS_defs)
  note r = sys_calls_answer [OF c ids, where k = 7777 and ts = demo_tstack and code = "\<lambda>_. kret ()" and a = 0 and b = 0]
  show ?thesis
  proof (intro conjI)
    show "\<exists>s'. sys_pid demo_tstack (\<lambda>_. kret ()) ?s = (Inr 1, s')" using r unfolding p by blast
    show "\<exists>s'. sys_ppid demo_tstack (\<lambda>_. kret ()) ?s = (Inr 0, s')" using r unfolding p option.case by blast
    show "\<exists>s'. do_syscall demo_tstack (\<lambda>_. kret ()) 7777 0 0 ?s = (Inr (- 1), s')" using r k by blast
  qed
qed

end
