(* ===== verification/SysFile.thy ===== *)
theory SysFile
  imports FdSpec Usys
begin

text \<open>
  The system calls \<^verbatim>\<open>sys_write\<close> and \<^verbatim>\<open>sys_read\<close> of user programs on an open file, from the stub through the trap, the descriptor, the
  transaction and the buffer cache to the disk and back.
\<close>

section \<open>A trap and the file system\<close>

text \<open>Registers and control registers do not matter for the file system.\<close>

lemma regs_idle:
  fixes s s' :: "('a) ktrap_scheme"
  assumes e: "bufs s' = bufs s" "hw s' = hw s" "wal s' = wal s" "bcache_lock s' = bcache_lock s" "vdev s' = vdev s" "vfree s' = vfree s"
    "used_idx s' = used_idx s" "info_b s' = info_b s" "vdisk_lock s' = vdisk_lock s" "current_proc s' = current_proc s" "cpu_proc s' = cpu_proc s"
    "sie s' = sie s" and t: "\<And>i. proc_table s' i = (proc_table s i)\<lparr>tframe := tframe (proc_table s' i)\<rparr>"
  shows "abs_cache s' = abs_cache s" and "fs_idle s' p st = fs_idle s p st"
proof -
  have f: "pid (proc_table s' i) = pid (proc_table s i)" "pstate (proc_table s' i) = pstate (proc_table s i)" "killed (proc_table s' i) = killed (proc_table s i)"
      "pchan (proc_table s' i) = pchan (proc_table s i)" "sleep_ticks (proc_table s' i) = sleep_ticks (proc_table s i)" for i
    by (subst t, simp)+
  have k: "key s' = key s" using e by (simp add: key_def fun_eq_iff)
  then have b: "buf_of s' = buf_of s" using e by (simp add: buf_of_def fun_eq_iff)
  show a: "abs_cache s' = abs_cache s" using k b e by (simp add: abs_cache_def cong: option.case_cong if_cong)
  have "BioSpec.buf_ok s' p = BioSpec.buf_ok s p" "one_buf s' = one_buf s" using k e f by (simp_all add: BioSpec.buf_ok_def one_buf_def Let_def fun_eq_iff)
  moreover have "quiet s' p = quiet s p" "vq_idle s' = vq_idle s" using e f by (simp_all add: quiet_def vq_idle_def)
  ultimately have "cache_inv s' p = cache_inv s p" using e by (simp add: cache_inv_def)
  then show "fs_idle s' p st = fs_idle s p st" using a e by (simp add: fs_idle_def LogCrash.pending_def log_at_def)
qed

lemma trapped_open:
  fixes s :: "('a) ktrap_scheme"
  shows "disk (trapped p regs s) = disk s" and "fd_open (trapped p regs s) p st fd f ip = fd_open s p st fd f ip"
    and "files (trapped p regs s) = files s" and "inodes (trapped p regs s) = inodes s" and "sb (trapped p regs s) = sb s"
proof -
  have a: "abs_cache (trapped p regs s) = abs_cache s" "fs_idle (trapped p regs s) p st = fs_idle s p st"
    by (rule regs_idle; simp add: trapped_def upd_proc_def)+
  then show "disk (trapped p regs s) = disk s" by simp
  show "fd_open (trapped p regs s) p st fd f ip = fd_open s p st fd f ip" unfolding fd_open_def a by (simp add: trapped_def upd_proc_def)
  show "files (trapped p regs s) = files s" "inodes (trapped p regs s) = inodes s" "sb (trapped p regs s) = sb s" by (simp_all add: trapped_def upd_proc_def)
qed

text \<open>The state in which the process continues after a call that has left the kernel in state \<open>s\<close>.\<close>

definition resumed :: "nat \<Rightarrow> u64 \<Rightarrow> u64 \<Rightarrow> ('a) ktrap_scheme \<Rightarrow> ('a) ktrap_scheme" where
  "resumed p r pc s = (tf_set (TfProc p) Tf_epc (pc + 4) (tf_set (TfProc p) Tf_a0 r s))\<lparr>
     stvec := TRAMPOLINE + (ld_uservec s - ld_trampoline s), sscratch := TRAPFRAME\<rparr>"

lemma resumed_fields:
  fixes s :: "('a) ktrap_scheme"
  shows "mem (resumed p r pc s) = mem s" and "files (resumed p r pc s) = files s" and "inodes (resumed p r pc s) = inodes s"
    and "abs_cache (resumed p r pc s) = abs_cache s" and "fd_open (resumed p r pc s) p st fd f ip = fd_open s p st fd f ip"
    and "proc_table (resumed p r pc s) = (proc_table s)(p := (proc_table s p)\<lparr>tframe := (tframe (proc_table s p))(Tf_a0 := r, Tf_epc := pc + 4)\<rparr>)"
proof -
  have a: "abs_cache (resumed p r pc s) = abs_cache s" "fs_idle (resumed p r pc s) p st = fs_idle s p st"
    by (rule regs_idle; simp add: resumed_def tf_set_def upd_proc_def)+
  then show "abs_cache (resumed p r pc s) = abs_cache s" by simp
  show "fd_open (resumed p r pc s) p st fd f ip = fd_open s p st fd f ip" unfolding fd_open_def a by (simp add: resumed_def tf_set_def upd_proc_def)
qed (simp_all add: resumed_def tf_set_def upd_proc_def)

lemma ecall_resumes:
  fixes s :: "('a) ktrap_scheme"
  assumes cur: "current_proc s = Some p" and c: "syscall_case ts (TfProc p) (regs (tframe (proc_table s p))) (trapped p regs s) = (Inr (), tf_set (TfProc p) Tf_a0 r s1)"
    and s1: "current_proc s1 = Some p" and epc: "regs (tframe (proc_table s p)) Tf_epc = tframe (proc_table s p) Tf_epc"
  shows "ecall ts code regs s = (Inr r, resumed p r (tframe (proc_table s p) Tf_epc) s1)"
proof -
  have "current_proc (tf_set (TfProc p) Tf_a0 r s1) = Some p" using s1 by (simp add: tf_set_def upd_proc_def)
  from ecall_returns [where regs = regs and code = code, OF cur c this epc] show ?thesis by (simp add: resumed_def) (simp add: tf_set_def upd_proc_def)
qed

text \<open>What a call with three arguments leaves of the registers and of the other processes.\<close>

definition call_regs :: "nat \<Rightarrow> ('a) ktrap_scheme \<Rightarrow> ('a) ktrap_scheme \<Rightarrow> bool" where
  "call_regs p s s' \<longleftrightarrow> (\<forall>j. j \<noteq> p \<longrightarrow> proc_table s' j = proc_table s j) \<and> proc_table s' p = (proc_table s p)\<lparr>tframe := tframe (proc_table s' p)\<rparr> \<and>
     tframe (proc_table s' p) Tf_epc = tframe (proc_table s p) Tf_epc + 4 \<and>
     (\<forall>r. r \<notin> {Tf_a0, Tf_a1, Tf_a2, Tf_a3, Tf_a4, Tf_a7, Tf_epc} \<longrightarrow> tframe (proc_table s' p) r = tframe (proc_table s p) r)"

lemma call_regs_proc:
  assumes "call_regs p s s'"
  shows "pagetable (proc_table s' p) = pagetable (proc_table s p)" and "ofile (proc_table s' p) = ofile (proc_table s p)"
proof -
  obtain t where "proc_table s' p = (proc_table s p)\<lparr>tframe := t\<rparr>" using assms unfolding call_regs_def by blast
  then show "pagetable (proc_table s' p) = pagetable (proc_table s p)" "ofile (proc_table s' p) = ofile (proc_table s p)" by simp_all
qed

lemma resumed_regs:
  assumes "proc_table s1 = proc_table (trapped p (\<lambda>t. t(Tf_a0 := v0, Tf_a1 := v1, Tf_a2 := v2, Tf_a3 := 0, Tf_a4 := 0, Tf_a7 := n)) s)"
  shows "call_regs p s (resumed p r (tframe (proc_table s p) Tf_epc) s1)"
  using assms by (simp add: call_regs_def resumed_fields(6) trapped_fields)

lemma user_buf_trapped [simp]: "user_buf (trapped p regs s) pt kbuf a n as = user_buf s pt kbuf a n as"
  by (simp add: user_buf_def trapped_fields)

lemma sys_write_run:
  fixes s :: "('a) ktrap_scheme"
  assumes o: "fd_open s p st fd f ip" and fd: "fd \<noteq> 1" "fd \<noteq> 2" and a: "check_user_addr a (word_of_int (int (length bs))) False = 0"
    and w: "fwritable (files s f)" and u: "user_buf s (pagetable (proc_table s p)) (ts_kbuf ts) a (length bs) as" "map (mem s) as = bs" "0 \<notin> set bs"
    and sz: "unat (foff (files s f)) + length bs \<le> MAXFILE * BSIZE" and fr: "4 * length (pieces KBUF 0 (length bs)) \<le> free_cnt (sb s) (disk s)"
  shows "\<exists>s'. sys_write ts code fd a (int (length bs)) s = (Inr (int (length bs)), s') \<and> fd_open s' p st fd f ip \<and>
    contents (disk s') (inodes s' ip) = put_bytes (unat (foff (files s f))) bs (contents (disk s) (inodes s ip)) \<and>
    foff (files s' f) = foff (files s f) + of_nat (length bs) \<and> (\<forall>g. g \<noteq> f \<longrightarrow> files s' g = files s g) \<and>
    (\<forall>b. blk_ok (sb s) (disk s) b \<and> b \<notin> own (disk s) (inodes s ip) \<longrightarrow> disk s' b = disk s b) \<and>
    but_kbuf (ts_kbuf ts) (mem s) (mem s') \<and> call_regs p s s'"
proof -
  let ?n = "int (length bs)"
  let ?regs = "\<lambda>t. t(Tf_a0 := word_of_int fd, Tf_a1 := a, Tf_a2 := word_of_int (int (length bs)), Tf_a3 := 0, Tf_a4 := 0, Tf_a7 := SYS_write) :: trapframe"
  let ?t = "trapped p ?regs s"
  have cur: "current_proc s = Some p" using o idle_cur by (auto simp: fd_open_def)
  have i: "to_int (word_of_int fd) = fd" "to_int (word_of_int ?n) = ?n"
    by (rule to_int_word; use o sz in \<open>simp add: fd_open_def NOFILE_def MAXFILE_val BSIZE_def\<close>)+
  have pt: "pagetable (proc_table ?t p) = pagetable (proc_table s p)" by (simp add: trapped_fields)
  have pre: "fd_open ?t p st fd f ip" "fwritable (files ?t f)" "user_buf ?t (pagetable (proc_table ?t p)) (ts_kbuf ts) a (length bs) as"
      "map (mem ?t) as = bs" "unat (foff (files ?t f)) + length bs \<le> MAXFILE * BSIZE" "4 * length (pieces KBUF 0 (length bs)) \<le> free_cnt (sb ?t) (disk ?t)"
    unfolding trapped_open pt user_buf_trapped trapped_fields(1) using o w u sz fr by simp_all
  obtain s1 where r: "ker_write (ts_kbuf ts) fd a ?n ?t = (Inr ?n, s1)" "fd_open s1 p st fd f ip"
      "contents (disk s1) (inodes s1 ip) = put_bytes (unat (foff (files s f))) bs (contents (disk s) (inodes s ip))"
      "foff (files s1 f) = foff (files s f) + of_nat (length bs)" "\<forall>g. g \<noteq> f \<longrightarrow> files s1 g = files s g" "proc_table s1 = proc_table ?t"
      "\<forall>b. blk_ok (sb s) (disk s) b \<and> b \<notin> own (disk s) (inodes s ip) \<longrightarrow> disk s1 b = disk s b" "but_kbuf (ts_kbuf ts) (mem s) (mem s1)"
    using ker_write_run [OF pre(1-4) u(3) pre(5,6), unfolded trapped_open trapped_fields(1)] by (elim exE conjE) (rule that)
  have c: "syscall_case ts (TfProc p) (?regs (tframe (proc_table s p))) ?t = (Inr (), tf_set (TfProc p) Tf_a0 (word_of_int ?n) s1)"
    using r(1) i fd a by (simp add: syscall_case_def SYS_defs case_write_def set_a0_def)
  have cur1: "current_proc s1 = Some p" using r(2) idle_cur by (auto simp: fd_open_def)
  let ?s' = "resumed p (word_of_int ?n) (tframe (proc_table s p) Tf_epc) s1"
  have e: "ecall ts code ?regs s = (Inr (word_of_int ?n), ?s')"
    using ecall_resumes [where regs = ?regs and code = code, OF cur c cur1] by simp
  have "sys_write ts code fd a ?n s = (Inr ?n, ?s')" using e i(2) by (simp add: sys_write_def do_syscall_5_def)
  moreover have "call_regs p s ?s'" by (rule resumed_regs [OF r(6)])
  ultimately show ?thesis using r(2-5,7,8) by (intro exI [of _ ?s'] conjI) (simp_all only: resumed_fields)
qed

lemma sys_read_run:
  fixes s :: "('a) ktrap_scheme"
  assumes o: "fd_open s p st fd f ip" and fd: "fd \<noteq> 0" and n: "n < 2 ^ 31" and a: "check_user_addr a (word_of_int (int n)) True = 0"
    and w: "freadable (files s f)" and u: "user_buf s (pagetable (proc_table s p)) (ts_kbuf ts) a n as"
    and fa: "frames_apart (mem s) (pagetable (proc_table s p))" "distinct as"
    and ds: "ds = take n (drop (unat (foff (files s f))) (contents (disk s) (inodes s ip)))"
  shows "\<exists>s'. sys_read ts code fd a (int n) s = (Inr (int (length ds)), s') \<and> fd_open s' p st fd f ip \<and> map (mem s') (take (length ds) as) = ds \<and>
    foff (files s' f) = foff (files s f) + of_nat (length ds) \<and> (\<forall>g. g \<noteq> f \<longrightarrow> files s' g = files s g) \<and> inodes s' = inodes s \<and>
    (\<forall>k. k \<notin> log_area st \<longrightarrow> disk s' k = disk s k) \<and>
    (\<forall>b. \<not> in_range (ts_kbuf ts) KBUF b \<and> b \<notin> set (take (length ds) as) \<longrightarrow> mem s' b = mem s b) \<and> call_regs p s s'"
proof -
  let ?k = "int (length ds)"
  let ?regs = "\<lambda>t. t(Tf_a0 := word_of_int fd, Tf_a1 := a, Tf_a2 := word_of_int (int n), Tf_a3 := 0, Tf_a4 := 0, Tf_a7 := SYS_read) :: trapframe"
  let ?t = "trapped p ?regs s"
  have cur: "current_proc s = Some p" using o idle_cur by (auto simp: fd_open_def)
  have ld: "length ds \<le> n" using ds by simp
  have i: "to_int (word_of_int fd) = fd" "to_int (word_of_int (int n)) = int n" "to_int (word_of_int ?k) = ?k"
    by (rule to_int_word; use o n ld in \<open>simp add: fd_open_def NOFILE_def\<close>)+
  have pt: "pagetable (proc_table ?t p) = pagetable (proc_table s p)" by (simp add: trapped_fields)
  have pre: "fd_open ?t p st fd f ip" "freadable (files ?t f)" "user_buf ?t (pagetable (proc_table ?t p)) (ts_kbuf ts) a n as"
      "frames_apart (mem ?t) (pagetable (proc_table ?t p))" "ds = take n (drop (unat (foff (files ?t f))) (contents (disk ?t) (inodes ?t ip)))"
    unfolding trapped_open pt user_buf_trapped trapped_fields(1) by (fact o w u fa(1) ds)+
  obtain s1 where r: "ker_read (ts_kbuf ts) fd a (int n) ?t = (Inr ?k, s1)" "fd_open s1 p st fd f ip" "map (mem s1) (take (length ds) as) = ds"
      "foff (files s1 f) = foff (files s f) + of_nat (length ds)" "\<forall>g. g \<noteq> f \<longrightarrow> files s1 g = files s g" "proc_table s1 = proc_table ?t" "inodes s1 = inodes s"
      "\<forall>k. k \<notin> log_area st \<longrightarrow> disk s1 k = disk s k"
      "\<forall>b. \<not> in_range (ts_kbuf ts) KBUF b \<and> b \<notin> set (take (length ds) as) \<longrightarrow> mem s1 b = mem s b"
    using ker_read_run [OF pre(1-4) fa(2) pre(5), unfolded trapped_open trapped_fields(1)] by (elim exE conjE) (rule that)
  have c: "syscall_case ts (TfProc p) (?regs (tframe (proc_table s p))) ?t = (Inr (), tf_set (TfProc p) Tf_a0 (word_of_int ?k) s1)"
    using r(1) i fd a by (simp add: syscall_case_def SYS_defs case_read_def set_a0_def)
  have cur1: "current_proc s1 = Some p" using r(2) idle_cur by (auto simp: fd_open_def)
  let ?s' = "resumed p (word_of_int ?k) (tframe (proc_table s p) Tf_epc) s1"
  have e: "ecall ts code ?regs s = (Inr (word_of_int ?k), ?s')"
    using ecall_resumes [where regs = ?regs and code = code, OF cur c cur1] by simp
  have "sys_read ts code fd a (int n) s = (Inr ?k, ?s')" using e i(3) by (simp add: sys_read_def do_syscall_5_def)
  moreover have "call_regs p s ?s'" by (rule resumed_regs [OF r(6)])
  ultimately show ?thesis using r(2-5,7-9) by (intro exI [of _ ?s'] conjI) (simp_all only: resumed_fields)
qed

section \<open>A concrete descriptor\<close>

text \<open>Process 1 of the example machine has two bytes in a page at \<open>0x10000\<close> and the descriptors 3 and 4 open at position 1 of a file
  with the bytes 7, 8, 9 in block 46; its inode is also on disk.\<close>

definition demo_data :: inode where
  "demo_data = demo_inode\<lparr>isize := 3, iaddrs := (\<lambda>_. 0)(0 := 46)\<rparr>"

definition demo_fd_disk :: "nat \<Rightarrow> u8 list" where
  "demo_fd_disk = zero_disk(45 := demo_bitmap, 33 := store_dinode demo_data 64 (replicate BSIZE 0), 46 := [7, 8, 9] @ replicate (BSIZE - 3) 0)"

definition demo_table :: "nat \<Rightarrow> proc" where
  "demo_table = (proc_table demo_disk)(1 := (proc_table demo_disk 1)\<lparr>pagetable := 0x80005000, ofile := [3 \<mapsto> 0, 4 \<mapsto> 1]\<rparr>)"

definition demo_fd :: ktrap where
  "demo_fd = klog.extend (upd_wal (\<lambda>l. l\<lparr>outstanding := 0\<rparr>) ((demo_log 0 demo_fd_disk)\<lparr>mem := mem demo_str, proc_table := demo_table\<rparr>))
     \<lparr>sb = demo_sb, itable_lock = fresh_lock ''itable'', inodes = (\<lambda>_. demo_data), ftable_lock = fresh_lock ''ftable'',
      files = (\<lambda>_. \<lparr>ftype = FD_INODE, fref = 1, freadable = True, fwritable = True, fpipe = 0, fip = Some 0, foff = 1, fmajor = 0\<rparr>),
      devsw_read = (\<lambda>_. None), devsw_write = (\<lambda>_. None),
      proc_table_pages = 0, proc_table_mem = (\<lambda>_. 0), fn_forkret = 0x80000100, fn_usertrap = 0x80000200, fn_kernelvec = 0x80000300,
      ld_uservec = 0x80000400, ld_userret = 0x80000500, stvec = 0, sscratch = 0,
      scause = 0, sepc = 0, stval = 0, sstatus = 0, sie_csr = 0, tf_local = (\<lambda>_. 0), interrupt_vector = (\<lambda>_. 0), mmio = (\<lambda>_. 0),
      plic_irq = 0, plic_done = [], now = 1000, stimer = 0, test_flag = None, kcons = \<lparr>printf_buffer = [], uart_out = []\<rparr>\<rparr>"

lemma table_cache:
  assumes "pid (t p) = pid (proc_table s p)" and "quiet (s\<lparr>proc_table := t\<rparr>) p"
  shows "abs_cache (s\<lparr>proc_table := t\<rparr>) = abs_cache s" and "cache_inv s p \<Longrightarrow> cache_inv (s\<lparr>proc_table := t\<rparr>) p"
proof -
  have k: "key (s\<lparr>proc_table := t\<rparr>) = key s" by (simp add: key_def fun_eq_iff)
  then have b: "buf_of (s\<lparr>proc_table := t\<rparr>) = buf_of s" by (simp add: buf_of_def fun_eq_iff)
  show "abs_cache (s\<lparr>proc_table := t\<rparr>) = abs_cache s" using k b by (simp add: abs_cache_def cong: option.case_cong if_cong)
  have "BioSpec.buf_ok (s\<lparr>proc_table := t\<rparr>) p = BioSpec.buf_ok s p" "one_buf (s\<lparr>proc_table := t\<rparr>) = one_buf s"
    using k assms(1) by (simp_all add: BioSpec.buf_ok_def one_buf_def Let_def fun_eq_iff)
  moreover have "vq_idle (s\<lparr>proc_table := t\<rparr>) = vq_idle s" by (simp add: vq_idle_def)
  ultimately show "cache_inv s p \<Longrightarrow> cache_inv (s\<lparr>proc_table := t\<rparr>) p" using assms(2) by (simp add: cache_inv_def)
qed

lemma demo_table_1: "pagetable (demo_table (Suc 0)) = 0x80005000"
  by (simp add: demo_table_def)

lemma demo_fd_idle: "fs_idle demo_fd 1 2" "disk demo_fd = demo_fd_disk"
proof -
  let ?l = "demo_log 0 demo_fd_disk" and ?t = "(demo_log 0 demo_fd_disk)\<lparr>mem := mem demo_str, proc_table := demo_table\<rparr>"
  have D: "length (demo_fd_disk 2) = BSIZE" "sint (get32 (demo_fd_disk 2) 0) = 0" using zero_head by (simp_all add: demo_fd_disk_def)
  have p: "LogCrash.pending ?l 1 2 (demo_blocks 0)" by (rule demo_log_pending) (use D in simp_all)
  then have q: "quiet (?l\<lparr>mem := mem demo_str\<rparr>) 1" using outside_fields(2) [of "mem demo_str" ?l 1] by (simp add: LogCrash.pending_def log_at_def cache_inv_def)
  have "quiet (?l\<lparr>mem := mem demo_str, proc_table := demo_table\<rparr>) 1"
    using q unfolding quiet_def by (simp add: demo_log_fields demo_table_def)
  note c = table_cache [OF _ this, simplified]
  have pid: "pid (demo_table (Suc 0)) = pid (proc_table ?l (Suc 0))" by (simp add: demo_table_def demo_log_fields)
  have a: "abs_cache ?t = abs_cache ?l" using c(1) pid by (simp add: outside_fields)
  have i: "cache_inv ?t 1" using c(2) pid p by (simp add: outside_fields LogCrash.pending_def log_at_def)
  show "disk demo_fd = demo_fd_disk" using demo_log_abs(1) [of 0 demo_fd_disk] a by (simp add: demo_fd_def extend_abs)
  have "wal ?t = wal ?l" by simp
  then have "LogCrash.pending ?t 1 2 []" using p a i unfolding LogCrash.pending_def log_at_def by (simp add: demo_blocks_def)
  then show "fs_idle demo_fd 1 2"
    by (simp add: fs_idle_def demo_fd_def LogCrash.pending_def log_at_def extend_abs extend_inv demo_log_fields)
      (simp add: demo_wal_def lock_idle_def fresh_lock_def)
qed

lemma demo_fd_fields:
  "sb demo_fd = demo_sb" "inodes demo_fd ip = demo_data" "mem demo_fd = mem demo_str" "proc_table demo_fd = demo_table"
  "files demo_fd f = \<lparr>ftype = FD_INODE, fref = 1, freadable = True, fwritable = True, fpipe = 0, fip = Some 0, foff = 1, fmajor = 0\<rparr>"
  by (simp_all add: demo_fd_def klog.extend_def upd_wal_def)

lemma demo_data_ok: "inode_ok demo_sb 2 demo_fd_disk demo_data" "contents demo_fd_disk demo_data = [7, 8, 9]" "4 \<le> free_cnt demo_sb demo_fd_disk"
proof -
  have f: "blk_free demo_sb demo_fd_disk k = blk_free demo_sb (zero_disk(45 := demo_bitmap)) k" if "k < 200" for k
    using that by (simp add: blk_free_def bmap_block_def BPB_val demo_sb_def demo_fd_disk_def)
  have lay: "fs_layout demo_sb 2 demo_fd_disk"
    using demo_layout f by (auto simp: fs_layout_def data_start_def BPB_val) (auto simp: demo_sb_def demo_fd_disk_def BSIZE_def)
  have a: "ablk V demo_data i = (if i = 0 then 46 else 0)" for V i
    by (auto simp: ablk_def addr_at_def demo_data_def NDIRECT_def MAXFILE_def)
  have d46: "demo_fd_disk 46 = [7, 8, 9] @ replicate (BSIZE - 3) 0" by (simp add: demo_fd_disk_def)
  have "bit_clear demo_bitmap 46 = False" using demo_bitmap_used by simp
  then have "blk_ok demo_sb demo_fd_disk 46"
    using f [of 46] d46 by (simp add: blk_ok_def data_start_def) (simp add: demo_sb_def BPB_val BSIZE_def blk_free_def bmap_block_def)
  then have fo: "file_ok demo_sb demo_fd_disk demo_data"
    by (auto simp: file_ok_def a) (auto simp: demo_data_def demo_inode_def MAXFILE_val BSIZE_def)
  have ib: "inode_block demo_sb demo_data = 33"
    by (simp add: inode_block_def IBLOCK_def demo_data_def demo_inode_def demo_sb_def IPB_def BSIZE_def DINODE_SIZE_def)
  have d33: "demo_fd_disk 33 = store_dinode demo_data 64 (replicate BSIZE 0)" by (simp add: demo_fd_disk_def)
  have at: "dinode_at (inum demo_data) = 64" by (simp add: dinode_at_def demo_data_def demo_inode_def IPB_def BSIZE_def DINODE_SIZE_def)
  have "length (store_dinode demo_data 64 (replicate BSIZE 0)) = BSIZE" by (subst length_store_dinode) (simp_all add: DINODE_SIZE_def BSIZE_def)
  then have "inode_block_ok demo_sb 2 demo_fd_disk demo_data"
    using d33 by (simp add: inode_block_ok_def ib) (simp add: demo_sb_def log_area_def LOGBLOCKS_def MAXOPBLOCKS_def)
  moreover have "disk_fields (load_dinode (demo_fd_disk 33) 64 demo_data) = disk_fields demo_data"
    unfolding d33 by (rule load_store_dinode) (simp add: DINODE_SIZE_def BSIZE_def)
  ultimately show "inode_ok demo_sb 2 demo_fd_disk demo_data" using lay fo by (simp add: inode_ok_def ib at)
  have "[0..<3] = [0, 1, 2 :: nat]" by (simp add: upt_rec)
  then show "contents demo_fd_disk demo_data = [7, 8, 9]"
    unfolding contents_def by (simp add: demo_data_def fbyte_def a [unfolded demo_data_def] d46) (simp add: BSIZE_def)
  have "blk_free demo_sb demo_fd_disk k" if "k \<in> {48, 49, 50, 51}" for k
    using that f [of k] by (auto simp: blk_free_def bmap_block_def BPB_val demo_sb_def bit_clear_def demo_bitmap_def bit_mask_def BSIZE_def)
  then have "{48, 49, 50, 51} \<subseteq> {k. k < unat (sb_size demo_sb) \<and> blk_free demo_sb demo_fd_disk k}" by auto
  then have "card {48, 49, 50, 51 :: nat} \<le> free_cnt demo_sb demo_fd_disk" unfolding free_cnt_def by (intro card_mono) simp_all
  then show "4 \<le> free_cnt demo_sb demo_fd_disk" by simp
qed

lemma demo_fd_open: "fd_open demo_fd 1 2 3 0 0" "fd_open demo_fd 1 2 4 1 0"
  using demo_fd_idle demo_data_ok(1)
  by (simp_all add: fd_open_def demo_fd_fields demo_table_def NOFILE_def file_on_def can_lock_def lk_idle_def)
    (simp_all add: demo_data_def demo_inode_def fresh_sleeplock_def fresh_lock_def lock_idle_def)

lemma demo_fd_buf:
  "user_buf demo_fd 0x80005000 0x80001300 0x10000 3 [0x87000000, 0x87000001, 0x87000002]"
  "user_buf demo_fd 0x80005000 0x80001300 0x10000 2 [0x87000000, 0x87000001]"
  "map (mem demo_fd) [0x87000000, 0x87000001] = [104, 105]"
proof -
  let ?pm = "pt_map (mem demo_fd) 2 0x80005000"
  have fr: "\<not> in_range 0x80001300 KBUF b" if "x \<in> pt_tabs (mem demo_fd) 2 0x80005000" "in_range x PGSIZE b" for x b
  proof -
    have "pt_tabs (mem demo_str) 2 0x80005000 = pt_tabs (mem demo_user) 2 0x80005000"
      using copyout_run [of demo_user "0x80005000" "0x10000" "[104, 105, 0]"] demo_user_facts
      by (simp add: numeral_3_eq_3 demo_str_def del: user_addrs.simps)
    then have "x \<in> {0x80005000, 0x80006000, 0x80007000, 0x80008000}" using that(1) demo_user_inv unfolding demo_fd_fields by blast
    then show ?thesis using that(2) by (auto simp: in_range_nat KBUF_def PGSIZE_def)
  qed
  show t: "user_buf demo_fd 0x80005000 0x80001300 0x10000 3 [0x87000000, 0x87000001, 0x87000002]"
    using demo_str_facts fr by (auto simp: user_buf_def demo_fd_fields in_range_nat KBUF_def simp del: user_addrs.simps)
  have "user_addrs ?pm (0x10000 + of_nat 0) 2 = Some (take 2 (drop 0 [0x87000000, 0x87000001, 0x87000002]))"
    by (rule user_addrs_part [of _ _ 3]) (use t in \<open>simp_all add: user_buf_def\<close>)
  then show "user_buf demo_fd 0x80005000 0x80001300 0x10000 2 [0x87000000, 0x87000001]"
    using t by (simp add: user_buf_def del: user_addrs.simps)
  show "map (mem demo_fd) [0x87000000, 0x87000001] = [104, 105]"
    by (simp add: demo_fd_fields demo_str_def write_at_def)
qed

lemma demo_fd_calls:
  "check_user_addr 0x10000 (word_of_int (int (length [104, 105 :: u8]))) wr = 0" "check_user_addr 0x10000 (word_of_int (int 3)) True = 0"
  "user_buf demo_fd (pagetable (proc_table demo_fd 1)) (ts_kbuf demo_tstack) 0x10000 (length [104, 105 :: u8]) [0x87000000, 0x87000001]"
  "user_buf demo_fd (pagetable (proc_table demo_fd 1)) (ts_kbuf demo_tstack) 0x10000 3 [0x87000000, 0x87000001, 0x87000002]"
  "frames_apart (mem demo_fd) (pagetable (proc_table demo_fd 1))" "freadable (files demo_fd f)" "fwritable (files demo_fd f)"
  "unat (foff (files demo_fd 0)) + length [104, 105 :: u8] \<le> MAXFILE * BSIZE" "contents (disk demo_fd) (inodes demo_fd 0) = [7, 8, 9]"
  "4 * length (pieces KBUF 0 (length [104, 105 :: u8])) \<le> free_cnt (sb demo_fd) (disk demo_fd)"
proof -
  show "check_user_addr 0x10000 (word_of_int (int (length [104, 105 :: u8]))) wr = 0" "check_user_addr 0x10000 (word_of_int (int 3)) True = 0"
    unfolding check_user_addr_def by code_simp+
  have k: "ts_kbuf demo_tstack = 0x80001300" by (simp add: demo_tstack_def)
  show "user_buf demo_fd (pagetable (proc_table demo_fd 1)) (ts_kbuf demo_tstack) 0x10000 (length [104, 105 :: u8]) [0x87000000, 0x87000001]"
    "user_buf demo_fd (pagetable (proc_table demo_fd 1)) (ts_kbuf demo_tstack) 0x10000 3 [0x87000000, 0x87000001, 0x87000002]"
    "frames_apart (mem demo_fd) (pagetable (proc_table demo_fd 1))"
    using demo_fd_buf(1,2) demo_str_facts k by (simp_all add: demo_fd_fields demo_table_1 numeral_2_eq_2)
  show "freadable (files demo_fd f)" "fwritable (files demo_fd f)" "unat (foff (files demo_fd 0)) + length [104, 105 :: u8] \<le> MAXFILE * BSIZE"
    by (simp_all add: demo_fd_fields MAXFILE_val BSIZE_def)
  show "contents (disk demo_fd) (inodes demo_fd 0) = [7, 8, 9]" using demo_data_ok(2) demo_fd_idle(2) by (simp add: demo_fd_fields)
  show "4 * length (pieces KBUF 0 (length [104, 105 :: u8])) \<le> free_cnt (sb demo_fd) (disk demo_fd)"
    using demo_data_ok(3) demo_fd_idle(2) by (simp add: demo_fd_fields pieces.simps KBUF_def)
qed

section \<open>Main theorems\<close>



text \<open>C14. Reading a file from a user program. \<^verbatim>\<open>sys_read\<close> of \<open>n\<close> bytes on an open readable file, with a mapped buffer that
  passes the kernel's address check, returns the number of bytes left in the file, at most \<open>n\<close>; exactly these bytes of the file are
  then in the buffer, whatever pieces they were read in, and the position has moved past them. The disk outside
  the log, every inode and the descriptor are as before; memory outside the kernel's buffer and the bytes returned has
  not changed, and the process continues after the call with only the registers of the call changed.\<close>

theorem sys_read_fetches_bytes:
  fixes s :: "('a) ktrap_scheme"
  assumes "fd_open s p st fd f ip" and "fd \<noteq> 0" and "n < 2 ^ 31" and "check_user_addr a (word_of_int (int n)) True = 0"
    and "freadable (files s f)" and "user_buf s (pagetable (proc_table s p)) (ts_kbuf ts) a n as"
    and "frames_apart (mem s) (pagetable (proc_table s p))" and "distinct as"
    and "ds = take n (drop (unat (foff (files s f))) (contents (disk s) (inodes s ip)))"
  shows "\<exists>s'. sys_read ts code fd a (int n) s = (Inr (int (length ds)), s') \<and> fd_open s' p st fd f ip \<and> map (mem s') (take (length ds) as) = ds \<and>
    foff (files s' f) = foff (files s f) + of_nat (length ds) \<and> (\<forall>g. g \<noteq> f \<longrightarrow> files s' g = files s g) \<and> inodes s' = inodes s \<and>
    (\<forall>k. k \<notin> log_area st \<longrightarrow> disk s' k = disk s k) \<and>
    (\<forall>b. \<not> in_range (ts_kbuf ts) KBUF b \<and> b \<notin> set (take (length ds) as) \<longrightarrow> mem s' b = mem s b) \<and> call_regs p s s'"
  by (rule sys_read_run [OF assms])

theorem sys_read_fetches_bytes_witness:
  "\<exists>s'. sys_read demo_tstack (\<lambda>_. kret ()) 3 0x10000 3 demo_fd = (Inr 2, s') \<and> mem s' 0x87000000 = 8 \<and> mem s' 0x87000001 = 9"
proof -
  let ?as = "[0x87000000, 0x87000001, 0x87000002] :: addr list"
  have c: "[8, 9] = take 3 (drop (unat (foff (files demo_fd 0))) (contents (disk demo_fd) (inodes demo_fd 0)))"
    unfolding demo_fd_calls(9) by (simp add: demo_fd_fields)
  have n: "(3 :: int) \<noteq> 0" "3 < (2 :: nat) ^ 31" "distinct ?as" by simp_all
  obtain s' where "sys_read demo_tstack (\<lambda>_. kret ()) 3 0x10000 (int 3) demo_fd = (Inr (int (length [8, 9 :: u8])), s')"
      "map (mem s') (take (length [8, 9 :: u8]) ?as) = [8, 9]"
    using sys_read_fetches_bytes [OF demo_fd_open(1) n(1,2) demo_fd_calls(2,6,4,5) n(3) c, of "\<lambda>_. kret ()"] by (elim exE conjE) (rule that)
  then show ?thesis by auto
qed

end
