(* ===== verification/Boot.thy ===== *)
theory Boot
  imports Trap
begin

text \<open>
  From reset to the console: \<^verbatim>\<open>start\<close>, \<^verbatim>\<open>kernel_main\<close>, \<^verbatim>\<open>console\<close> and \<^verbatim>\<open>print_menu\<close> of \<^verbatim>\<open>kernel/start.c\<close>, \<^verbatim>\<open>uart_init\<close>,
  \<^verbatim>\<open>virtio_disk_init\<close> and \<^verbatim>\<open>print_proc_table\<close>. Messages of the functions called are not modelled. The disk's
  registers belong to the device: \<open>vread w r\<close> is what it answers to a read of register \<open>r\<close> after the register writes \<open>w\<close>, and
  \<open>vlog\<close> is the list of the writes so far. The pages of the request queue are the fields \<^verbatim>\<open>desc\<close>, \<^verbatim>\<open>avail\<close> and \<^verbatim>\<open>used\<close> of
  \<^verbatim>\<open>disk\<close>; their contents are \<open>hw\<close>. Messages with Chinese text are given by their UTF-8 bytes.
\<close>

section \<open>State and registers\<close>

record kboot = ktrap +
  uart_regs :: "u64 \<Rightarrow> u8"
  vlog :: "(u64 \<times> u32) list"
  vread :: "(u64 \<times> u32) list \<Rightarrow> u64 \<Rightarrow> u32"
  disk_desc :: addr
  disk_avail :: addr
  disk_used :: addr
  fn_uart_intr :: u64
  fn_virtio_disk_intr :: u64
  fn_kernel_main :: u64
  fn_console :: u64
  fn_tests :: "nat \<Rightarrow> u64"
  user_bins :: "nat \<Rightarrow> addr"

definition IER :: u64 where "IER = 1"
definition FCR :: u64 where "FCR = 2"
definition IER_RX_ENABLE :: u8 where "IER_RX_ENABLE = 1"
definition FCR_FIFO_ENABLE :: u8 where "FCR_FIFO_ENABLE = 1"
definition FCR_FIFO_CLEAR :: u8 where "FCR_FIFO_CLEAR = push_bit 1 3"

definition WriteReg :: "u64 \<Rightarrow> u8 \<Rightarrow> (('a) kboot_scheme, unit) km" where
  "WriteReg reg v = kmod (\<lambda>s. s\<lparr>uart_regs := (uart_regs s)(UART0 + reg := v)\<rparr>)"

definition uart_init :: "(('a) kboot_scheme, unit) km" where
  "uart_init = kseq (WriteReg IER 0)
     (kseq (WriteReg FCR (FCR_FIFO_ENABLE OR FCR_FIFO_CLEAR))
     (kseq (WriteReg IER IER_RX_ENABLE)
     (kseq (kbind (kget fn_uart_intr) (register_interrupt (int UART0_IRQ)))
     (kseq (enable_interrupts UART0_IRQ)
     (kprintf (cstr ''UART initialized with input support\<newline>'') [])))))"

section \<open>The disk\<close>

definition VIRTIO_MMIO_MAGIC_VALUE :: u64 where "VIRTIO_MMIO_MAGIC_VALUE = 0x000"
definition VIRTIO_MMIO_VERSION :: u64 where "VIRTIO_MMIO_VERSION = 0x004"
definition VIRTIO_MMIO_DEVICE_ID :: u64 where "VIRTIO_MMIO_DEVICE_ID = 0x008"
definition VIRTIO_MMIO_VENDOR_ID :: u64 where "VIRTIO_MMIO_VENDOR_ID = 0x00c"
definition VIRTIO_MMIO_DEVICE_FEATURES :: u64 where "VIRTIO_MMIO_DEVICE_FEATURES = 0x010"
definition VIRTIO_MMIO_DRIVER_FEATURES :: u64 where "VIRTIO_MMIO_DRIVER_FEATURES = 0x020"
definition VIRTIO_MMIO_QUEUE_SEL :: u64 where "VIRTIO_MMIO_QUEUE_SEL = 0x030"
definition VIRTIO_MMIO_QUEUE_NUM_MAX :: u64 where "VIRTIO_MMIO_QUEUE_NUM_MAX = 0x034"
definition VIRTIO_MMIO_QUEUE_NUM :: u64 where "VIRTIO_MMIO_QUEUE_NUM = 0x038"
definition VIRTIO_MMIO_QUEUE_READY :: u64 where "VIRTIO_MMIO_QUEUE_READY = 0x044"
definition VIRTIO_MMIO_STATUS :: u64 where "VIRTIO_MMIO_STATUS = 0x070"
definition VIRTIO_MMIO_QUEUE_DESC_LOW :: u64 where "VIRTIO_MMIO_QUEUE_DESC_LOW = 0x080"
definition VIRTIO_MMIO_QUEUE_DESC_HIGH :: u64 where "VIRTIO_MMIO_QUEUE_DESC_HIGH = 0x084"
definition VIRTIO_MMIO_DRIVER_DESC_LOW :: u64 where "VIRTIO_MMIO_DRIVER_DESC_LOW = 0x090"
definition VIRTIO_MMIO_DRIVER_DESC_HIGH :: u64 where "VIRTIO_MMIO_DRIVER_DESC_HIGH = 0x094"
definition VIRTIO_MMIO_DEVICE_DESC_LOW :: u64 where "VIRTIO_MMIO_DEVICE_DESC_LOW = 0x0a0"
definition VIRTIO_MMIO_DEVICE_DESC_HIGH :: u64 where "VIRTIO_MMIO_DEVICE_DESC_HIGH = 0x0a4"
definition VIRTIO_CONFIG_S_ACKNOWLEDGE :: u32 where "VIRTIO_CONFIG_S_ACKNOWLEDGE = 1"
definition VIRTIO_CONFIG_S_DRIVER :: u32 where "VIRTIO_CONFIG_S_DRIVER = 2"
definition VIRTIO_CONFIG_S_DRIVER_OK :: u32 where "VIRTIO_CONFIG_S_DRIVER_OK = 4"
definition VIRTIO_CONFIG_S_FEATURES_OK :: u32 where "VIRTIO_CONFIG_S_FEATURES_OK = 8"
definition VIRTIO_BLK_F_RO :: nat where "VIRTIO_BLK_F_RO = 5"
definition VIRTIO_BLK_F_SCSI :: nat where "VIRTIO_BLK_F_SCSI = 7"
definition VIRTIO_BLK_F_CONFIG_WCE :: nat where "VIRTIO_BLK_F_CONFIG_WCE = 11"
definition VIRTIO_BLK_F_MQ :: nat where "VIRTIO_BLK_F_MQ = 12"
definition VIRTIO_F_ANY_LAYOUT :: nat where "VIRTIO_F_ANY_LAYOUT = 27"
definition VIRTIO_RING_F_INDIRECT_DESC :: nat where "VIRTIO_RING_F_INDIRECT_DESC = 28"
definition VIRTIO_RING_F_EVENT_IDX :: nat where "VIRTIO_RING_F_EVENT_IDX = 29"

text \<open>Reading and writing through the macro \<^verbatim>\<open>R\<close>.\<close>

definition R_get :: "u64 \<Rightarrow> (('a) kboot_scheme, u32) km" where
  "R_get r = kget (\<lambda>s. vread s (vlog s) r)"

definition R_set :: "u64 \<Rightarrow> u32 \<Rightarrow> (('a) kboot_scheme, unit) km" where
  "R_set r v = kmod (\<lambda>s. s\<lparr>vlog := vlog s @ [(r, v)]\<rparr>)"

text \<open>\<^verbatim>\<open>features &= ~(1 << bit)\<close>.\<close>

definition without :: "u64 \<Rightarrow> nat \<Rightarrow> u64" where
  "without f k = f AND NOT (push_bit k 1)"

definition offered :: "u32 \<Rightarrow> u32" where
  "offered f = ucast (fold (\<lambda>k f. without f k) [VIRTIO_BLK_F_RO, VIRTIO_BLK_F_SCSI, VIRTIO_BLK_F_CONFIG_WCE, VIRTIO_BLK_F_MQ,
     VIRTIO_F_ANY_LAYOUT, VIRTIO_RING_F_EVENT_IDX, VIRTIO_RING_F_INDIRECT_DESC] (ucast f))"

text \<open>Up to the choice of the queue: the device is identified, and the features are agreed on. The result is the status.\<close>

definition negotiate :: "(('a) kboot_scheme, u32) km" where
  "negotiate = kbind (R_get VIRTIO_MMIO_MAGIC_VALUE) (\<lambda>magic.
     kbind (R_get VIRTIO_MMIO_VERSION) (\<lambda>version.
     kbind (R_get VIRTIO_MMIO_DEVICE_ID) (\<lambda>dev.
     kbind (R_get VIRTIO_MMIO_VENDOR_ID) (\<lambda>vendor.
     if magic \<noteq> 0x74726976 \<or> version \<noteq> 2 \<or> dev \<noteq> 2 \<or> vendor \<noteq> 0x554d4551
     then panic ''could not find virtio disk''
     else kseq (R_set VIRTIO_MMIO_STATUS 0)
       (kseq (R_set VIRTIO_MMIO_STATUS VIRTIO_CONFIG_S_ACKNOWLEDGE)
       (kseq (R_set VIRTIO_MMIO_STATUS (VIRTIO_CONFIG_S_ACKNOWLEDGE OR VIRTIO_CONFIG_S_DRIVER))
       (kbind (R_get VIRTIO_MMIO_DEVICE_FEATURES) (\<lambda>features.
       kseq (R_set VIRTIO_MMIO_DRIVER_FEATURES (offered features))
       (kseq (R_set VIRTIO_MMIO_STATUS (VIRTIO_CONFIG_S_ACKNOWLEDGE OR VIRTIO_CONFIG_S_DRIVER OR VIRTIO_CONFIG_S_FEATURES_OK))
       (kbind (R_get VIRTIO_MMIO_STATUS) (\<lambda>status.
       if status AND VIRTIO_CONFIG_S_FEATURES_OK = 0 then panic ''virtio disk FEATURES_OK unset''
       else kret status)))))))))))"

text \<open>The queue: its three pages, zeroed, and their addresses.\<close>

definition zero_queue :: "vhw \<Rightarrow> vhw" where
  "zero_queue h = h\<lparr>vdesc := (\<lambda>_. \<lparr>vaddr = NullRef, vlen = 0, vflags = 0, vnext = 0\<rparr>), avail_idx := 0, avail_ring := (\<lambda>_. 0),
     dev_idx := 0, used_ring := (\<lambda>_. 0)\<rparr>"

definition set_queue :: "addr \<Rightarrow> addr \<Rightarrow> addr \<Rightarrow> (('a) kboot_scheme, unit) km" where
  "set_queue desc avail used = kseq (R_set VIRTIO_MMIO_QUEUE_NUM (of_nat NUM))
     (kseq (R_set VIRTIO_MMIO_QUEUE_DESC_LOW (ucast desc))
     (kseq (R_set VIRTIO_MMIO_QUEUE_DESC_HIGH (ucast (drop_bit 32 desc)))
     (kseq (R_set VIRTIO_MMIO_DRIVER_DESC_LOW (ucast avail))
     (kseq (R_set VIRTIO_MMIO_DRIVER_DESC_HIGH (ucast (drop_bit 32 avail)))
     (kseq (R_set VIRTIO_MMIO_DEVICE_DESC_LOW (ucast used))
     (kseq (R_set VIRTIO_MMIO_DEVICE_DESC_HIGH (ucast (drop_bit 32 used)))
     (R_set VIRTIO_MMIO_QUEUE_READY 1)))))))"

definition alloc_queue :: "(('a) kboot_scheme, unit) km" where
  "alloc_queue = kbind alloc_page (\<lambda>desc. kseq (kmod (\<lambda>s. s\<lparr>disk_desc := desc\<rparr>))
     (kbind alloc_page (\<lambda>avail. kseq (kmod (\<lambda>s. s\<lparr>disk_avail := avail\<rparr>))
     (kbind alloc_page (\<lambda>used. kseq (kmod (\<lambda>s. s\<lparr>disk_used := used\<rparr>))
     (if desc = 0 \<or> avail = 0 \<or> used = 0 then panic ''virtio disk alloc_page fail''
      else kseq (kmod (\<lambda>s. (upd_hw zero_queue s)
             \<lparr>mem := memset (memset (memset (mem s) desc 0 PGSIZE) avail 0 PGSIZE) used 0 PGSIZE\<rparr>))
         (set_queue desc avail used)))))))"

definition virtio_disk_init :: "(('a) kboot_scheme, unit) km" where
  "virtio_disk_init = kseq (initlock vdisk_lock_update ''virtio_disk'')
     (kbind negotiate (\<lambda>status.
     kseq (R_set VIRTIO_MMIO_QUEUE_SEL 0)
     (kbind (R_get VIRTIO_MMIO_QUEUE_READY) (\<lambda>ready.
     if ready \<noteq> 0 then panic ''virtio disk should not be ready''
     else kbind (R_get VIRTIO_MMIO_QUEUE_NUM_MAX) (\<lambda>most.
     if most = 0 then panic ''virtio disk has no queue 0''
     else if most < of_nat NUM then panic ''virtio disk max queue too short''
     else kseq alloc_queue
       (kseq (kfor [0..<NUM] (\<lambda>i. kmod (\<lambda>s. s\<lparr>vfree := (vfree s)(i := True)\<rparr>)))
       (kseq (kbind (kget fn_virtio_disk_intr) (register_interrupt (int VIRTIO0_IRQ)))
       (kseq (enable_interrupts VIRTIO0_IRQ)
       (kseq (R_set VIRTIO_MMIO_STATUS (status OR VIRTIO_CONFIG_S_DRIVER_OK))
         (kprintf (cstr ''virtio_disk init done\<newline>'') []))))))))))"

section \<open>The console\<close>

text \<open>Kernel tests.\<close>

definition msg_menu_kernel :: carray where
  "msg_menu_kernel = [10, 61, 61, 61, 32, 229, 134, 133, 230, 160, 184, 230, 181, 139, 232, 175, 149, 32, 61, 61, 61, 10, 0]"

text \<open>User tests.\<close>

definition msg_menu_user :: carray where
  "msg_menu_user = [10, 61, 61, 61, 32, 231, 148, 168, 230, 136, 183, 230, 181, 139, 232, 175, 149, 32, 61, 61, 61, 10, 0]"

text \<open>Basic commands.\<close>

definition msg_menu_basic :: carray where
  "msg_menu_basic = [10, 61, 61, 61, 32, 229, 159, 186, 231, 161, 128, 229, 145, 189, 228, 187, 164, 32, 61, 61, 61, 10, 0]"

text \<open>Show this help.\<close>

definition msg_menu_help :: carray where
  "msg_menu_help = [32, 32, 104, 46, 32, 104, 101, 108, 112, 32, 32, 32, 32, 32, 32, 32, 32, 32, 32, 45, 32, 230, 152, 190,
     231, 164, 186, 230, 173, 164, 229, 184, 174, 229, 138, 169, 10, 0]"

text \<open>Leave the console.\<close>

definition msg_menu_exit :: carray where
  "msg_menu_exit = [32, 32, 101, 46, 32, 101, 120, 105, 116, 32, 32, 32, 32, 32, 32, 32, 32, 32, 32, 45, 32, 233, 128, 128,
     229, 135, 186, 230, 142, 167, 229, 136, 182, 229, 143, 176, 10, 0]"

text \<open>Show the processes.\<close>

definition msg_menu_ps :: carray where
  "msg_menu_ps = [32, 32, 112, 46, 32, 112, 115, 32, 32, 32, 32, 32, 32, 32, 32, 32, 32, 32, 32, 45, 32, 230, 152, 190,
     231, 164, 186, 232, 191, 155, 231, 168, 139, 231, 138, 182, 230, 128, 129, 10, 0]"

text \<open>Running kernel test %s.\<close>

definition msg_running_kernel :: carray where
  "msg_running_kernel = [10, 45, 45, 45, 45, 45, 32, 230, 137, 167, 232, 161, 140, 229, 134, 133, 230, 160, 184, 230, 181, 139, 232, 175,
     149, 58, 32, 37, 115, 32, 45, 45, 45, 45, 45, 10, 0]"

text \<open>Creating the kernel test process failed.\<close>

definition msg_failed_kernel :: carray where
  "msg_failed_kernel = [229, 136, 155, 229, 187, 186, 229, 134, 133, 230, 160, 184, 230, 181, 139, 232, 175, 149, 232, 191, 155, 231, 168, 139,
     229, 164, 177, 232, 180, 165, 10, 0]"

text \<open>Kernel test process created, PID %d.\<close>

definition msg_made_kernel :: carray where
  "msg_made_kernel = [229, 136, 155, 229, 187, 186, 229, 134, 133, 230, 160, 184, 230, 181, 139, 232, 175, 149, 232, 191, 155, 231, 168, 139,
     230, 136, 144, 229, 138, 159, 239, 188, 140, 80, 73, 68, 58, 32, 37, 100, 10, 0]"

text \<open>Invalid kernel test number.\<close>

definition msg_no_kernel :: carray where
  "msg_no_kernel = [230, 151, 160, 230, 149, 136, 231, 154, 132, 229, 134, 133, 230, 160, 184, 230, 181, 139, 232, 175, 149, 229, 186, 143,
     229, 143, 183, 10, 0]"

text \<open>Running user test %s.\<close>

definition msg_running_user :: carray where
  "msg_running_user = [10, 45, 45, 45, 45, 45, 32, 230, 137, 167, 232, 161, 140, 231, 148, 168, 230, 136, 183, 230, 181, 139, 232, 175,
     149, 58, 32, 37, 115, 32, 45, 45, 45, 45, 45, 10, 0]"

text \<open>Creating the user test process failed.\<close>

definition msg_failed_user :: carray where
  "msg_failed_user = [229, 136, 155, 229, 187, 186, 231, 148, 168, 230, 136, 183, 230, 181, 139, 232, 175, 149, 232, 191, 155, 231, 168, 139,
     229, 164, 177, 232, 180, 165, 10, 0]"

text \<open>User test process created, PID %d.\<close>

definition msg_made_user :: carray where
  "msg_made_user = [229, 136, 155, 229, 187, 186, 231, 148, 168, 230, 136, 183, 230, 181, 139, 232, 175, 149, 232, 191, 155, 231, 168, 139,
     230, 136, 144, 229, 138, 159, 239, 188, 140, 80, 73, 68, 58, 32, 37, 100, 10, 0]"

text \<open>Invalid user test number.\<close>

definition msg_no_user :: carray where
  "msg_no_user = [230, 151, 160, 230, 149, 136, 231, 154, 132, 231, 148, 168, 230, 136, 183, 230, 181, 139, 232, 175, 149, 229, 186, 143,
     229, 143, 183, 10, 0]"

text \<open>Invalid command %s.\<close>

definition msg_bad_command :: carray where
  "msg_bad_command = [230, 151, 160, 230, 149, 136, 229, 145, 189, 228, 187, 164, 58, 32, 37, 115, 10, 0]"

text \<open>Type h for help.\<close>

definition msg_try_help :: carray where
  "msg_try_help = [232, 190, 147, 229, 133, 165, 32, 39, 104, 39, 32, 230, 159, 165, 231, 156, 139, 229, 184, 174, 229, 138, 169, 10,
     0]"

text \<open>The console process ends.\<close>

definition msg_console_ends :: carray where
  "msg_console_ends = [230, 142, 167, 229, 136, 182, 229, 143, 176, 232, 191, 155, 231, 168, 139, 233, 128, 128, 229, 135, 186, 10, 0]"

definition kernel_test_names :: "string list" where
  "kernel_test_names = [''test_timer_interrupt'', ''test_exception'', ''test_interrupt_overhead'', ''test_process'',
     ''test_scheduler'', ''test_synchronization'', ''test_kernel_kill'', ''test_file_system_basic'', ''test_file_system_readwrite'',
     ''test_simple_concurrent_write'', ''test_log_recovery'', ''test_filesystem_performance'']"

definition kernel_test_table :: "carray list" where
  "kernel_test_table = map cstr kernel_test_names"

text \<open>Name and size of the user programs; their addresses are the field \<open>user_bins\<close>.\<close>

definition user_programs :: "(string \<times> int) list" where
  "user_programs = [(''file_read'', 1664), (''file_write'', 1623), (''fork_user_test'', 2280),
     (''kill_user_test'', 1625), (''simple_user_task'', 108), (''syscall_performance'', 1644)]"

definition user_test_table :: "(carray \<times> int) list" where
  "user_test_table = map (\<lambda>(n, sz). (cstr n, sz)) user_programs"

definition KERNEL_TEST_COUNT :: int where "KERNEL_TEST_COUNT = int (length kernel_test_table)"
definition USER_TEST_COUNT :: int where "USER_TEST_COUNT = int (length user_test_table)"

definition print_menu :: "(('a) kboot_scheme, unit) km" where
  "print_menu = kseq (kprintf msg_menu_kernel [])
     (kseq (kfor [0..<length kernel_test_table] (\<lambda>i.
        kprintf (cstr ''  k%d. %s\<newline>'') [ANum (of_nat i + 1), AStr (Some (kernel_test_table ! i))]))
     (kseq (kprintf msg_menu_user [])
     (kseq (kfor [0..<length user_test_table] (\<lambda>i.
        kprintf (cstr ''  u%d. %s\<newline>'') [ANum (of_nat i + 1), AStr (Some (fst (user_test_table ! i)))]))
     (kseq (kprintf msg_menu_basic [])
     (kseq (kprintf msg_menu_help [])
     (kseq (kprintf msg_menu_exit [])
       (kprintf msg_menu_ps [])))))))"

fun state_name :: "procstate \<Rightarrow> string" where
  "state_name UNUSED = ''UNUSED''" | "state_name USED = ''USED''" | "state_name SLEEPING = ''SLEEP''"
| "state_name RUNNABLE = ''RUNNABLE''" | "state_name RUNNING = ''RUNNING''" | "state_name ZOMBIE = ''ZOMBIE''"

text \<open>One line of the table; the count goes on to the next.\<close>

definition print_proc :: "nat \<Rightarrow> nat \<Rightarrow> (('a) kboot_scheme, nat) km" where
  "print_proc count i = kbind (kget (\<lambda>s. (proc_table s i, case parent (proc_table s i) of None \<Rightarrow> - 1 | Some q \<Rightarrow> pid (proc_table s q))))
     (\<lambda>(p, ppid). if pstate p = UNUSED then kret count
       else kseq (kprintf (cstr ''%2d  %3s %8s %4d 0x%012lx 0x%012lx\<newline>'')
           [ANum (word_of_int (pid p)), AStr (Some (cstr (if is_user p then ''USR'' else ''SYS''))), AStr (Some (cstr (state_name (pstate p)))),
            ANum (word_of_int ppid), ANum (if trapframe_ptr p \<noteq> 0 then tframe p Tf_epc else 0), ANum (kstack p)])
         (kret (count + 1)))"

fun print_procs :: "nat \<Rightarrow> nat list \<Rightarrow> (('a) kboot_scheme, nat) km" where
  "print_procs count [] = kret count"
| "print_procs count (i # is) = kbind (print_proc count i) (\<lambda>n. print_procs n is)"

definition print_proc_table :: "(('a) kboot_scheme, unit) km" where
  "print_proc_table = kseq (kprintf (cstr ''PID  TYPE STATUS     PPID   FUNC_ADDR      STACK_ADDR    \<newline>'') [])
     (kseq (kprintf (cstr ''----------------------------------------------------------\<newline>'') [])
     (kbind (print_procs 0 [0..<PROC]) (\<lambda>count.
     kseq (kprintf (cstr ''----------------------------------------------------------\<newline>'') [])
       (kprintf (cstr ''%d active processes\<newline>'') [ANum (of_nat count)]))))"

text \<open>What follows the creation of a process for a test: its identifier is shown and the console waits for it. A wait that gives
  up the processor continues with \<open>wait_resume\<close> and then with the next line.\<close>

definition await_test :: "nat \<Rightarrow> carray \<Rightarrow> carray \<Rightarrow> int \<Rightarrow> (('a) kboot_scheme, unit) km" where
  "await_test depth failed made n = (if n < 0 then kprintf failed []
     else kseq (kprintf made [ANum (word_of_int n)]) (kbind (wait_proc depth) (\<lambda>_. kret ())))"

definition run_kernel_test :: "nat \<Rightarrow> int \<Rightarrow> (('a) kboot_scheme, unit) km" where
  "run_kernel_test depth index = (if index \<ge> 0 \<and> index < KERNEL_TEST_COUNT
     then kseq (kprintf msg_running_kernel [AStr (Some (kernel_test_table ! nat index))])
       (kbind (kget (\<lambda>s. fn_tests s (nat index))) (\<lambda>f. kbind (create_kernel_proc depth f)
         (await_test depth msg_failed_kernel msg_made_kernel)))
     else kprintf msg_no_kernel [])"

definition run_user_test :: "nat \<Rightarrow> int \<Rightarrow> (('a) kboot_scheme, unit) km" where
  "run_user_test depth index = (if index \<ge> 0 \<and> index < USER_TEST_COUNT
     then kseq (kprintf msg_running_user [AStr (Some (fst (user_test_table ! nat index)))])
       (kbind (kget (\<lambda>s. user_bins s (nat index))) (\<lambda>b. kbind (create_user_proc depth b (snd (user_test_table ! nat index)))
         (await_test depth msg_failed_user msg_made_user)))
     else kprintf msg_no_user [])"

text \<open>One round of the loop on the line that \<^verbatim>\<open>readline\<close> has left in \<^verbatim>\<open>input_buffer\<close>; the result says whether the console ends.
  \<^verbatim>\<open>atoi(...) - 1\<close> is arithmetic on \<^verbatim>\<open>int\<close>; where it overflows, and where the line is not terminated, C is undefined.\<close>

definition test_index :: "carray \<Rightarrow> (('a) kboot_scheme, int) km" where
  "test_index ds = (case atoi ds of None \<Rightarrow> kstop Undefined
     | Some n \<Rightarrow> if sint n = - (2 ^ 31) then kstop Undefined else kret (sint n - 1))"

definition console_line :: "nat \<Rightarrow> carray \<Rightarrow> (('a) kboot_scheme, bool) km" where
  "console_line depth line = (case line of [] \<Rightarrow> kstop Undefined | c # rest \<Rightarrow>
     if c = 0 then kret False
     else if c = 101 \<or> c = 69 then kret True
     else if c = 104 \<or> c = 72 then kseq print_menu (kret False)
     else if c = 112 \<or> c = 80 then kseq print_proc_table (kret False)
     else if c = 107 \<or> c = 75 then kbind (test_index rest) (\<lambda>i. kseq (run_kernel_test depth i) (kret False))
     else if c = 117 \<or> c = 85 then kbind (test_index rest) (\<lambda>i. kseq (run_user_test depth i) (kret False))
     else kseq (kprintf msg_bad_command [AStr (Some line)]) (kseq (kprintf msg_try_help []) (kret False)))"

text \<open>The loop on the lines that arrive; when there are no more, \<^verbatim>\<open>readline\<close> polls for ever.\<close>

fun console_loop :: "nat \<Rightarrow> carray list \<Rightarrow> (('a) kboot_scheme, unit) km" where
  "console_loop depth [] = kseq (kprintf (cstr ''\<newline>Console >>> '') []) (kstop (Spin ''uart_getc_blocking''))"
| "console_loop depth (l # ls) = kseq (kprintf (cstr ''\<newline>Console >>> '') []) (kbind (console_line depth l) (\<lambda>done.
     if done then kprintf msg_console_ends [] else console_loop depth ls))"

definition console_main :: "nat \<Rightarrow> carray list \<Rightarrow> (('a) kboot_scheme, unit) km" where
  "console_main depth lines = kseq print_menu (console_loop depth lines)"

section \<open>Start\<close>

text \<open>\<^verbatim>\<open>start\<close> up to the call of \<^verbatim>\<open>schedule\<close>, which does not return; the scheduler is in \<open>Sched\<close>.\<close>

definition start :: "nat \<Rightarrow> (('a) kboot_scheme, unit) km" where
  "start depth = kseq pmm_init (kseq kvminit (kseq trap_init (kseq uart_init (kseq intr_on
     (kseq (kprintf (cstr ''===============================================\<newline>'') [])
     (kseq (kprintf (cstr ''        RISC-V Operating System v1.0         \<newline>'') [])
     (kseq (kprintf (cstr ''===============================================\<newline>\<newline>'') [])
     (kseq init_proc
     (kbind (kget fn_kernel_main) (\<lambda>f. kbind (create_kernel_proc depth f) (\<lambda>main_pid.
       if main_pid < 0 then panic ''START: create main process failed!\<newline>'' else kret ())))))))))))"

text \<open>\<^verbatim>\<open>kernel_main\<close> up to \<^verbatim>\<open>wait_proc\<close>, and after it.\<close>

definition main_waited :: "int \<Rightarrow> int \<times> int option \<Rightarrow> (('a) kboot_scheme, unit) km" where
  "main_waited console_pid r = (case r of (n, status) \<Rightarrow> if n \<noteq> console_pid
     then kprintf (cstr ''KERNEL_MAIN: unexpected process %d exited with status %d\<newline>'')
       [ANum (word_of_int n), ANum (word_of_int (case status of None \<Rightarrow> 0 | Some v \<Rightarrow> v))]
     else kret ())"

definition kernel_main :: "frames \<Rightarrow> addr \<Rightarrow> addr \<Rightarrow> nat \<Rightarrow> (('a) kboot_scheme, unit) km" where
  "kernel_main fr de buffer depth = kseq (kprintf (cstr ''kernel_main entry\<newline>'') [])
     (kseq virtio_disk_init (kseq binit (kseq fileinit (kseq iinit (kseq (fsinit fr de buffer ROOTDEV)
     (kbind (iget ROOTDEV ROOTINO) (\<lambda>rootip. kbind myproc (\<lambda>p.
       kseq (kmod (upd_proc p (\<lambda>x. x\<lparr>cwd := Some rootip\<rparr>)))
       (kbind (kget fn_console) (\<lambda>f. kbind (create_kernel_proc depth f) (\<lambda>console_pid.
         if console_pid < 0 then panic ''KERNEL_MAIN: create console process failed!\<newline>''
         else kbind (wait_proc depth) (main_waited console_pid))))))))))))"

end
