(* ===== verification/KvmSpec.thy ===== *)
theory KvmSpec
  imports ForkSpec
begin

text \<open>
  The address space of the kernel, \<^verbatim>\<open>kvmmake\<close> and \<^verbatim>\<open>kvminit\<close> of \<^verbatim>\<open>kernel/vm.c\<close>: what the table maps when
  paging is switched on, and how many pages its construction takes.
\<close>

section \<open>Tables that are already there\<close>

text \<open>The walk to \<open>va\<close> finds its last table.\<close>

definition there :: "phys \<Rightarrow> addr \<Rightarrow> u64 \<Rightarrow> bool" where
  "there m pt va \<longleftrightarrow> walk_lookup_loop m 2 pt va \<noteq> 0"

lemma walk_create_there:
  "walk_lookup_loop (mem s) l pt va \<noteq> 0 \<Longrightarrow> walk_create_loop l pt va s = (Inr (walk_lookup_loop (mem s) l pt va), s)"
  by (induction l arbitrary: pt) (auto simp: Let_def split: if_splits)

lemma there_cong:
  assumes "there m pt va" and "px 1 va = px 1 va'" and "px 2 va = px 2 va'"
  shows "there m pt va'"
proof -
  have "pa + 8 * px 0 va' \<noteq> 0" if "pa \<noteq> 0" "unat pa mod PGSIZE = 0" for pa
    using ent_addr_nz [of pa "px 0 va'"] that by simp
  then show ?thesis using assms by (auto simp: there_def numeral_2_eq_2 Let_def split: if_splits)
qed

lemma mapped_there: "pt_wf m 2 pt \<Longrightarrow> pt_map m 2 pt va = Some e \<Longrightarrow> there m pt va"
  by (auto simp: pt_map_lookup there_def Let_def split: if_splits)

text \<open>Mapping a new page takes at most two pages, and none when the last table is there.\<close>

lemma map_page_cost:
  fixes s :: "('a) kpm_scheme"
  assumes vm: "vm_inv s 2 pt ps" and len: "\<not> there (mem s) pt va \<Longrightarrow> 2 \<le> length ps"
    and al: "page_aligned va" and ok: "may_map s va" and none: "pt_map (mem s) 2 pt va = None"
  obtains s' n where "map_page pt va pa perm s = (Inr 0, s')" and "n \<le> (if there (mem s) pt va then 0 else 2)"
    and "vm_inv s' 2 pt (drop n ps)" and "same_rest s s'" and "pt_tabs (mem s') 2 pt = pt_tabs (mem s) 2 pt \<union> set (take n ps)"
    and "pt_map (mem s') 2 pt = (\<lambda>va'. if same_page 2 va va' then Some (map_entry va pa perm None) else pt_map (mem s) 2 pt va')"
    and "\<forall>b. (\<forall>x \<in> pt_tabs (mem s') 2 pt. \<not> in_range x PGSIZE b) \<longrightarrow> mem s' b = mem s b"
proof (cases "there (mem s) pt va")
  case True
  let ?a = "walk_lookup_loop (mem s) 2 pt va" and ?e = "map_entry va pa perm None"
  let ?s' = "s\<lparr>mem := store64 (mem s) ?a ?e\<rparr>"
  have a: "?a \<noteq> 0" and wf: "pt_wf (mem s) 2 pt" using True vm by (simp_all add: there_def vm_inv_def)
  have inv: "\<not> pte_valid (load64 (mem s) ?a)" using none a pt_map_lookup [OF wf, of va] by (auto simp: Let_def split: if_splits)
  have run: "map_page pt va pa perm s = (Inr 0, ?s')"
    using al ok walk_create_there [OF a] a inv by (simp add: map_page_def walk_create_eq Let_def store_pte_def map_entry_def)
  have st: "vm_inv ?s' 2 pt ps" "pt_tabs (mem ?s') 2 pt = pt_tabs (mem s) 2 pt"
      "\<forall>b. (\<forall>x \<in> pt_tabs (mem s) 2 pt. \<not> in_range x PGSIZE b) \<longrightarrow> mem ?s' b = mem s b"
    using vm_inv_store [OF vm refl a, of ?e] by simp_all
  have "pt_map (mem ?s') 2 pt = (\<lambda>va'. if same_page 2 va va' then Some ?e else pt_map (mem s) 2 pt va')"
    using pt_store [OF wf refl a, of ?e] by (simp add: fun_eq_iff)
  moreover have "same_rest s ?s'" by (rule same_restI) simp
  ultimately show ?thesis using that [of ?s' 0] run st True by simp
next
  case False
  then have "2 \<le> length ps" using len by simp
  from vm this al ok show ?thesis
  proof (cases rule: map_page_run [where perm = perm and pa = pa])
    case (mapped s' n)
    then show ?thesis using that [of s' n] False none by (simp cong: if_cong)
  next
    case (other e s')
    then show ?thesis using none by simp
  qed
qed

section \<open>Building a space\<close>

text \<open>From \<open>s0\<close>, whose free pages are \<open>ps0\<close>, a space with root \<open>pt\<close> has been built from these pages; \<open>ps\<close> are the pages still free.\<close>

definition kvm_inv :: "('a) kpm_scheme \<Rightarrow> addr list \<Rightarrow> addr \<Rightarrow> addr list \<Rightarrow> ('a) kpm_scheme \<Rightarrow> bool" where
  "kvm_inv s0 ps0 pt ps s \<longleftrightarrow> vm_inv s 2 pt ps \<and> same_rest s0 s \<and> set ps \<subseteq> set ps0 \<and> pt_tabs (mem s) 2 pt \<subseteq> set ps0 \<and>
     (\<forall>b. (\<forall>x \<in> set ps0. \<not> in_range x PGSIZE b) \<longrightarrow> mem s b = mem s0 b)"

text \<open>Page addresses of the lower half: for these \<open>pt_map\<close> gives the whole map.\<close>

abbreviation low_page :: "u64 \<Rightarrow> bool" where
  "low_page va \<equiv> page_aligned va \<and> va < 0x8000000000"

lemma low_page_eq: "low_page va \<Longrightarrow> low_page va' \<Longrightarrow> same_page 2 va va' \<longleftrightarrow> va = va'"
  using same_page_inj [of va va'] by (auto simp: word_less_nat_alt)

lemma kvm_map_step:
  fixes s :: "('a) kpm_scheme"
  assumes inv: "kvm_inv s0 ps0 pt ps s" and len: "\<not> there (mem s) pt va \<Longrightarrow> 2 \<le> length ps"
    and va: "page_aligned va" and w: "low_page w" "same_page 2 va w" and ok: "may_map s0 va" and none: "pt_map (mem s) 2 pt va = None"
  obtains s' ps' where "kvm_map msg pt va pa perm s = (Inr (), s')" and "kvm_inv s0 ps0 pt ps' s'"
    and "length ps \<le> length ps' + (if there (mem s) pt va then 0 else 2)" and "there (mem s') pt va"
    and "\<And>v. low_page v \<Longrightarrow> pt_map (mem s') 2 pt v = (if v = w then Some (map_entry va pa perm None) else pt_map (mem s) 2 pt v)"
proof -
  have vm: "vm_inv s 2 pt ps" and r: "same_rest s0 s" using inv by (simp_all add: kvm_inv_def)
  have ok': "may_map s va" using ok same_rest_user [OF r] by simp
  obtain s' n where m: "map_page pt va pa perm s = (Inr 0, s')" "n \<le> (if there (mem s) pt va then 0 else 2)"
    "vm_inv s' 2 pt (drop n ps)" "same_rest s s'" "pt_tabs (mem s') 2 pt = pt_tabs (mem s) 2 pt \<union> set (take n ps)"
    "pt_map (mem s') 2 pt = (\<lambda>va'. if same_page 2 va va' then Some (map_entry va pa perm None) else pt_map (mem s) 2 pt va')"
    "\<forall>b. (\<forall>x \<in> pt_tabs (mem s') 2 pt. \<not> in_range x PGSIZE b) \<longrightarrow> mem s' b = mem s b"
    by (rule map_page_cost [where pa = pa and perm = perm, OF vm len va ok' none]) (assumption, rule that)
  have T: "pt_tabs (mem s') 2 pt \<subseteq> set ps0" using inv m(5) set_take_subset [of n ps] by (simp add: kvm_inv_def) blast
  have out: "mem s' b = mem s0 b" if b: "\<forall>x \<in> set ps0. \<not> in_range x PGSIZE b" for b
  proof -
    have "\<forall>x \<in> pt_tabs (mem s') 2 pt. \<not> in_range x PGSIZE b" using b T by blast
    moreover have "mem s b = mem s0 b" using inv b by (simp add: kvm_inv_def)
    ultimately show ?thesis using m(7) by simp
  qed
  have "set (drop n ps) \<subseteq> set ps0" using inv set_drop_subset [of n ps] by (auto simp: kvm_inv_def)
  then have "kvm_inv s0 ps0 pt (drop n ps) s'"
    using m(3) same_rest_trans [OF r m(4)] T out by (simp add: kvm_inv_def)
  moreover have "there (mem s') pt va" using m(3,6) by (intro mapped_there [where e = "map_entry va pa perm None"]) (simp_all add: vm_inv_def)
  moreover have "same_page 2 va v \<longleftrightarrow> v = w" if "low_page v" for v
  proof -
    have "same_page 2 va v \<longleftrightarrow> same_page 2 w v" using w(2) by (auto simp: same_page_def)
    then show ?thesis using low_page_eq [OF w(1) that] by auto
  qed
  ultimately show ?thesis using that [of s' "drop n ps"] m(1,2,6) by (auto simp: kvm_map_def split: if_splits)
qed

lemma kvm_page_run:
  fixes s :: "('a) kpm_scheme"
  assumes inv: "kvm_inv s0 ps0 pt ps s" and len: "2 \<le> length ps" and va: "page_aligned va" and w: "low_page w" "same_page 2 va w"
    and u: "\<not> user_running s0" and none: "pt_map (mem s) 2 pt w = None"
  obtains s' ps' where "kvm_map msg pt va pa perm s = (Inr (), s')" and "kvm_inv s0 ps0 pt ps' s'" and "length ps \<le> length ps' + 2"
    and "\<And>v. low_page v \<Longrightarrow> pt_map (mem s') 2 pt v = (if v = w then Some (map_entry va pa perm None) else pt_map (mem s) 2 pt v)"
proof -
  have n: "pt_map (mem s) 2 pt va = None" using none pt_map_same_page [OF w(2)] by simp
  have ok: "may_map s0 va" using u by simp
  show ?thesis
  proof (rule kvm_map_step [where msg = msg and pa = pa and perm = perm, OF inv len va w ok n])
    fix s' ps'
    assume r: "kvm_map msg pt va pa perm s = (Inr (), s')" "kvm_inv s0 ps0 pt ps' s'" "length ps \<le> length ps' + (if there (mem s) pt va then 0 else 2)"
      "\<And>v. low_page v \<Longrightarrow> pt_map (mem s') 2 pt v = (if v = w then Some (map_entry va pa perm None) else pt_map (mem s) 2 pt v)"
    have "length ps \<le> length ps' + 2" using r(3) by (auto split: if_splits)
    then show ?thesis using that [OF r(1,2)] r(4) by blast
  qed
qed

section \<open>A range of pages\<close>

lemma unat_px: "unat (px l va) = unat va div 2 ^ (12 + 9 * l) mod 512"
proof -
  have "(0x1FF :: u64) = mask 9" by (simp add: mask_eq_exp_minus_1)
  then have "px l va = take_bit 9 (drop_bit (12 + 9 * l) va)" by (simp add: px_def take_bit_eq_mask)
  then show ?thesis using unat_lt_pow [of va]
    by (simp only: unsigned_take_bit_eq unsigned_drop_bit_eq) (simp add: take_bit_eq_mod drop_bit_eq_div)
qed

abbreviation nth_page :: "u64 \<Rightarrow> nat \<Rightarrow> u64" where
  "nth_page a k \<equiv> a + 4096 * of_nat k"

lemma unat_nth_page: "unat a + 4096 * k < 2 ^ 64 \<Longrightarrow> unat (nth_page a k) = unat a + 4096 * k"
  by (simp add: unat_word_ariths unat_of_nat)

text \<open>Inside two megabytes the last table is the same.\<close>

lemma next_page_px:
  assumes a: "unat a mod 2 ^ 21 = 0" and lt: "unat a + 4096 * Suc k < 2 ^ 64" and k: "Suc k mod 512 \<noteq> 0" and l: "l = 1 \<or> l = 2"
  shows "px l (nth_page a (Suc k)) = px l (nth_page a k)"
proof -
  have u: "unat (nth_page a (Suc k)) = unat a + 4096 * Suc k" "unat (nth_page a k) = unat a + 4096 * k"
    using lt by (intro unat_nth_page; simp)+
  obtain A where A: "unat a = 2 ^ 21 * A" using a by (auto simp only: mod_eq_0_iff_dvd dvd_def)
  have d: "(2 ^ 21 * A + 4096 * j) div 2 ^ 21 = A + j div 512" for j
    using div_mult2_eq [of "2 ^ 21 * A + 4096 * j" 4096 512] by simp
  have k': "Suc k div 512 = k div 512" using k by (simp add: div_Suc)
  have "(unat a + 4096 * Suc k) div 2 ^ 21 = (unat a + 4096 * k) div 2 ^ 21" unfolding A d k' ..
  moreover from this have "(unat a + 4096 * Suc k) div 2 ^ 30 = (unat a + 4096 * k) div 2 ^ 30"
    using div_mult2_eq [of "unat a + 4096 * Suc k" "2 ^ 21" 512] div_mult2_eq [of "unat a + 4096 * k" "2 ^ 21" 512] by simp
  ultimately show ?thesis using l u by (auto simp: word_unat_eq_iff unat_px)
qed

lemma blocks_Suc: "(Suc k + 511) div 512 = (k + 511) div 512 + (if k mod 512 = 0 then 1 else 0 :: nat)"
proof -
  define q r where "q = k div 512" and "r = k mod 512"
  have k: "k = 512 * q + r" and r: "r < 512" by (simp_all add: q_def r_def)
  have d: "(512 * q + j) div 512 = q + j div 512" for j by simp
  have "(Suc k + 511) div 512 = q + (r + 512) div 512" "(k + 511) div 512 = q + (r + 511) div 512"
    using d [of "r + 512"] d [of "r + 511"] by (simp_all add: k add.assoc)
  moreover have "(r + 512) div 512 = 1" using r by simp
  moreover have "(r + 511) div 512 = (if r = 0 then 0 else 1)" using r by (auto intro: div_nat_eqI)
  ultimately show ?thesis by (simp add: r_def)
qed

text \<open>Mapping \<open>n\<close> pages from \<open>a\<close> to themselves takes two pages for every two megabytes.\<close>

lemma kvm_range_run:
  fixes s :: "('a) kpm_scheme"
  assumes inv: "kvm_inv s0 ps0 pt ps s" and a: "unat a mod 2 ^ 21 = 0" "unat a + 4096 * n \<le> 2 ^ 39" and u: "\<not> user_running s0"
    and len: "2 * ((n + 511) div 512) \<le> length ps"
    and none: "\<And>va. low_page va \<Longrightarrow> unat a \<le> unat va \<Longrightarrow> unat va < unat a + 4096 * n \<Longrightarrow> pt_map (mem s) 2 pt va = None"
    and body: "\<And>k t. k < n \<Longrightarrow> same_rest s0 t \<Longrightarrow> body k t = kvm_map msg pt (nth_page a k) (nth_page a k) (f (nth_page a k)) t"
  obtains s' ps' where "kfor [0..<n] body s = (Inr (), s')" and "kvm_inv s0 ps0 pt ps' s'" and "length ps \<le> length ps' + 2 * ((n + 511) div 512)"
    and "\<And>va. low_page va \<Longrightarrow> pt_map (mem s') 2 pt va =
      (if unat a \<le> unat va \<and> unat va < unat a + 4096 * n then Some (map_entry va va (f va) None) else pt_map (mem s) 2 pt va)"
proof -
  define I where "I k t \<longleftrightarrow> (\<exists>qs. kvm_inv s0 ps0 pt qs t \<and> length ps \<le> length qs + 2 * ((k + 511) div 512) \<and>
      (k mod 512 \<noteq> 0 \<longrightarrow> there (mem t) pt (nth_page a k)) \<and>
      (\<forall>va. low_page va \<longrightarrow> pt_map (mem t) 2 pt va =
        (if unat a \<le> unat va \<and> unat va < unat a + 4096 * k then Some (map_entry va va (f va) None) else pt_map (mem s) 2 pt va)))" for k t
  have "I 0 s" unfolding I_def using inv by (intro exI [of _ ps]) auto
  have step: "\<exists>t'. body k t = (Inr (), t') \<and> I (Suc k) t'" if k: "k < n" and I: "I k t" for k t
  proof -
    let ?x = "nth_page a k"
    obtain qs where qs: "kvm_inv s0 ps0 pt qs t" "length ps \<le> length qs + 2 * ((k + 511) div 512)"
        "k mod 512 \<noteq> 0 \<longrightarrow> there (mem t) pt ?x"
        "\<And>va. low_page va \<Longrightarrow> pt_map (mem t) 2 pt va =
          (if unat a \<le> unat va \<and> unat va < unat a + 4096 * k then Some (map_entry va va (f va) None) else pt_map (mem s) 2 pt va)"
      using I unfolding I_def by blast
    have x: "unat ?x = unat a + 4096 * k" using a(2) k by (intro unat_nth_page) simp
    have al: "unat a mod 4096 = 0" using a(1) mod_mod_cancel [of 4096 "2 ^ 21" "unat a"] by simp
    have "unat ?x mod PGSIZE = 0" unfolding x PGSIZE_def using al by presburger
    moreover have "?x < 0x8000000000" unfolding word_less_nat_alt x using a(2) k by simp
    ultimately have lx: "low_page ?x" by simp
    have none_x: "pt_map (mem t) 2 pt ?x = None" using qs(4) [OF lx] none [OF lx] k unfolding x by simp
    have cost: "(Suc k + 511) div 512 = (k + 511) div 512 + (if k mod 512 = 0 then 1 else 0)" by (rule blocks_Suc)
    have le: "(Suc k + 511) div 512 \<le> (n + 511) div 512" using k by (intro div_le_mono) simp
    have two: "2 \<le> length qs" if "\<not> there (mem t) pt ?x" using that qs(2,3) len cost le by auto
    obtain t' rs where t': "kvm_map msg pt ?x ?x (f ?x) t = (Inr (), t')" "kvm_inv s0 ps0 pt rs t'"
        "length qs \<le> length rs + (if there (mem t) pt ?x then 0 else 2)" "there (mem t') pt ?x"
        "\<And>v. low_page v \<Longrightarrow> pt_map (mem t') 2 pt v = (if v = ?x then Some (map_entry ?x ?x (f ?x) None) else pt_map (mem t) 2 pt v)"
      by (rule kvm_map_step [OF qs(1) two conjunct1 [OF lx] lx _ _ none_x, where pa = ?x and perm = "f ?x" and msg = msg])
        (assumption, simp, use u in simp, rule that)
    have same: "same_rest s0 t" using qs(1) by (simp add: kvm_inv_def)
    have "there (mem t') pt (nth_page a (Suc k))" if "Suc k mod 512 \<noteq> 0"
      using next_page_px [OF a(1) _ that] a(2) k by (intro there_cong [OF t'(4)]) simp_all
    moreover have "unat v < unat a + 4096 * Suc k \<longleftrightarrow> unat v < unat a + 4096 * k \<or> v = ?x" if v: "low_page v" "unat a \<le> unat v" for v
    proof -
      have "unat ?x + PGSIZE \<le> unat v" if "unat ?x < unat v" using lx v(1) that by (intro aligned_room) simp_all
      then have "unat v < unat a + 4096 * Suc k \<longleftrightarrow> unat v < unat a + 4096 * k \<or> unat v = unat a + 4096 * k"
        unfolding x PGSIZE_def by (cases "unat a + 4096 * k < unat v") auto
      then show ?thesis unfolding word_unat_eq_iff x .
    qed
    moreover have "length ps \<le> length rs + 2 * ((Suc k + 511) div 512)" using qs(2,3) t'(3) cost by (auto split: if_splits)
    ultimately have "I (Suc k) t'" unfolding I_def using t'(2,5) qs(4) x by (intro exI [of _ rs]) auto
    then show ?thesis using body [OF k same] t'(1) by auto
  qed
  obtain s' where "kfor [0..<n] body s = (Inr (), s')" "I n s'" using kfor_upt [where I = I and n = n and body = body and s = s] step \<open>I 0 s\<close> by blast
  then show ?thesis using that unfolding I_def by blast
qed

lemma kfor_map: "kfor (map g xs) body = kfor xs (\<lambda>x. body (g x))"
  by (induction xs) simp_all

text \<open>A page taken for something else than a table.\<close>

lemma kvm_inv_alloc:
  fixes s :: "('a) kpm_scheme"
  assumes inv: "kvm_inv s0 ps0 pt (x # xs) s"
  obtains s1 where "alloc_page s = (Inr x, s1)" and "same_rest s s1" and "x \<noteq> 0" and "\<And>b. \<not> in_range x PGSIZE b \<Longrightarrow> mem s1 b = mem s b"
    and "x \<notin> pt_tabs (mem s) 2 pt" and "x \<notin> set xs"
    and "\<And>m. \<forall>b. \<not> in_range x PGSIZE b \<longrightarrow> m b = mem s1 b \<Longrightarrow>
      kvm_inv s0 ps0 pt xs (s1\<lparr>mem := m\<rparr>) \<and> pt_map m 2 pt = pt_map (mem s) 2 pt \<and> pt_tabs m 2 pt = pt_tabs (mem s) 2 pt"
proof -
  have vm: "pm_inv s (x # xs)" "pt_wf (mem s) 2 pt" "pt_tabs (mem s) 2 pt \<inter> set (x # xs) = {}" and r: "same_rest s0 s"
    using inv by (simp_all only: kvm_inv_def vm_inv_def)
  have x: "page_aligned x" "x \<noteq> 0" "x \<notin> set xs" using pm_inv_aligned [OF vm(1), of x] vm(1) by (auto simp: pm_inv_def)
  obtain s1 where s1: "alloc_page s = (Inr x, s1)" "pm_inv s1 xs" "same_rest s s1" "\<And>b. \<not> in_range x PGSIZE b \<Longrightarrow> mem s1 b = mem s b"
    by (rule alloc_page_same [OF vm(1)]) (rule that)
  have keep: "kvm_inv s0 ps0 pt xs (s1\<lparr>mem := m\<rparr>) \<and> pt_map m 2 pt = pt_map (mem s) 2 pt \<and> pt_tabs m 2 pt = pt_tabs (mem s) 2 pt"
    if m': "\<forall>b. \<not> in_range x PGSIZE b \<longrightarrow> m b = mem s1 b" for m
  proof -
    note m = m' [rule_format]
    have apart: "\<not> in_range x PGSIZE b" if "y \<noteq> x" "page_aligned y" "in_range y PGSIZE b" for y b
      using pages_apart [OF that(2) x(1) that(1,3)] .
    have pm: "pm_inv (s1\<lparr>mem := m\<rparr>) xs"
    proof (rule pm_inv_frame [OF s1(2)])
      fix y b assume y: "y \<in> set xs" "in_range y PGSIZE b"
      then have "y \<noteq> x" "page_aligned y" using x(3) pm_inv_aligned [OF s1(2), of y] by auto
      then show "mem (s1\<lparr>mem := m\<rparr>) b = mem s1 b" using m [OF apart] y(2) by simp
    qed simp_all
    have fr: "pt_tabs m 2 pt = pt_tabs (mem s) 2 pt \<and> pt_wf m 2 pt \<and> pt_map m 2 pt = pt_map (mem s) 2 pt"
    proof (rule pt_frame [OF vm(2)])
      fix y b assume y: "y \<in> pt_tabs (mem s) 2 pt" "in_range y PGSIZE b"
      then have "y \<noteq> x" "page_aligned y" using vm(3) pt_tabs_aligned [OF vm(2) y(1)] by auto
      then have "\<not> in_range x PGSIZE b" using apart [of y b] y(2) by simp
      then show "m b = mem s b" using m s1(4) by simp
    qed
    have sub: "set (x # xs) \<subseteq> set ps0" "pt_tabs (mem s) 2 pt \<subseteq> set ps0" using inv by (simp_all only: kvm_inv_def)
    have out: "m b = mem s0 b" if b: "\<forall>y \<in> set ps0. \<not> in_range y PGSIZE b" for b
    proof -
      have "mem s b = mem s0 b" using inv b by (simp add: kvm_inv_def)
      moreover have "\<not> in_range x PGSIZE b" using b sub(1) by simp
      ultimately show ?thesis using m s1(4) by simp
    qed
    have "same_rest s0 (s1\<lparr>mem := m\<rparr>)" by (rule same_rest_mem [OF same_rest_trans [OF r s1(3)]])
    then show ?thesis using pm fr sub out vm(3) by (simp add: kvm_inv_def vm_inv_def)
  qed
  have xt: "x \<notin> pt_tabs (mem s) 2 pt" using vm(3) by simp
  show ?thesis by (rule that [OF s1(1,3) x(2) s1(4) xt x(3) keep])
qed

section \<open>The kernel's map\<close>

text \<open>The lower half of the kernel's space. The two topmost pages are the lower halves of the addresses \<^verbatim>\<open>TRAMPOLINE\<close> and
  \<^verbatim>\<open>TRAPFRAME\<close>, which Sv39 cuts to 39 bits.\<close>

definition device_page :: "u64 \<Rightarrow> bool" where
  "device_page va \<longleftrightarrow> va = UART0 \<or> va = VIRTIO0 \<or> PLIC \<le> va \<and> va < PLIC + 0x400000 \<or> CLINT \<le> va \<and> va < CLINT + 0x10000"

definition kernel_map :: "addr \<Rightarrow> addr \<Rightarrow> addr \<Rightarrow> u64 \<Rightarrow> u64 option" where
  "kernel_map etext tramp tf va =
     (if KERNBASE \<le> va \<and> va < PHYSTOP then Some (map_entry va va (if va < etext then PERM_RX else PERM_RW) None)
      else if device_page va then Some (map_entry va va PERM_RW None)
      else if va = 0x7FFFFFF000 then Some (map_entry TRAMPOLINE tramp PERM_RX None)
      else if va = 0x7FFFFFE000 then Some (map_entry TRAPFRAME tf PERM_RW None)
      else None)"

lemma kmap_simps:
  "unat KERNBASE = 0x80000000" "unat PLIC = 0x0c000000" "unat CLINT = 0x2000000"
  "page_range KERNBASE PHYSTOP = map (nth_page KERNBASE) [0..<32768]" "page_range PLIC (PLIC + 0x400000) = map (nth_page PLIC) [0..<1024]"
  "page_range CLINT (CLINT + 0x10000) = map (nth_page CLINT) [0..<16]"
  by (simp_all add: page_range_def KERNBASE_def PHYSTOP_def PLIC_def CLINT_def PGSIZE_def del: upt_Suc)

text \<open>The loops and single mappings of \<^verbatim>\<open>kvmmake\<close> up to the device pages.\<close>

lemma kvm_devices_run:
  fixes s :: "('a) kvm_scheme"
  assumes inv: "kvm_inv s0 ps0 pt ps s" and u: "\<not> user_running s0" and len: "138 \<le> length ps"
    and none: "\<And>va. low_page va \<Longrightarrow> pt_map (mem s) 2 pt va = None"
  obtains s1 s2 s3 s4 s5 ps' where
    "kfor (page_range KERNBASE PHYSTOP) (\<lambda>pa. kbind (kget ld_etext) (\<lambda>etext.
       kvm_map ''kvmmake: heap map failed'' pt pa pa (if pa < etext then PERM_RX else PERM_RW))) s = (Inr (), s1)"
    and "kvm_map ''kvmmake: uart map failed'' pt UART0 UART0 PERM_RW s1 = (Inr (), s2)"
    and "kfor (page_range PLIC (PLIC + 0x400000)) (\<lambda>pa. kvm_map ''kvmmake: plic map failed'' pt pa pa PERM_RW) s2 = (Inr (), s3)"
    and "kfor (page_range CLINT (CLINT + 0x10000)) (\<lambda>pa. kvm_map ''kvmmake: clint map failed'' pt pa pa PERM_RW) s3 = (Inr (), s4)"
    and "kvm_map ''kvmmake: virtio map failed'' pt VIRTIO0 VIRTIO0 PERM_RW s4 = (Inr (), s5)"
    and "kvm_inv s0 ps0 pt ps' s5" and "length ps \<le> length ps' + 138"
    and "\<And>va. low_page va \<Longrightarrow> pt_map (mem s5) 2 pt va =
      (if KERNBASE \<le> va \<and> va < PHYSTOP then Some (map_entry va va (if va < ld_etext s0 then PERM_RX else PERM_RW) None)
       else if device_page va then Some (map_entry va va PERM_RW None) else None)"
proof -
  let ?f = "\<lambda>pa. if pa < ld_etext s0 then PERM_RX else PERM_RW"
  have et: "ld_etext t = ld_etext s0" if "same_rest s0 t" for t using that by (auto simp: same_rest_def)
  have l1: "2 * ((32768 + 511) div 512) \<le> length ps" using len by simp
  have a1: "unat KERNBASE mod 2 ^ 21 = 0" "unat KERNBASE + 4096 * 32768 \<le> 2 ^ 39" by (simp_all add: kmap_simps)
  let ?b1 = "\<lambda>k. kbind (kget ld_etext) (\<lambda>etext. kvm_map ''kvmmake: heap map failed'' pt (nth_page KERNBASE k) (nth_page KERNBASE k)
        (if nth_page KERNBASE k < etext then PERM_RX else PERM_RW))"
  obtain s1 ps1 where s1: "kfor [0..<32768] ?b1 s = (Inr (), s1)"
      "kvm_inv s0 ps0 pt ps1 s1" "length ps \<le> length ps1 + 2 * ((32768 + 511) div 512)"
      "\<And>va. low_page va \<Longrightarrow> pt_map (mem s1) 2 pt va = (if unat KERNBASE \<le> unat va \<and> unat va < unat KERNBASE + 4096 * 32768
        then Some (map_entry va va (?f va) None) else pt_map (mem s) 2 pt va)"
    by (rule kvm_range_run [where f = ?f and msg = "''kvmmake: heap map failed''" and body = ?b1, OF inv a1 u l1 none])
      (assumption, simp add: et, rule that)
  have p: "low_page UART0" "low_page VIRTIO0" by (simp_all add: UART0_def VIRTIO0_def PGSIZE_def)
  have n2: "pt_map (mem s1) 2 pt UART0 = None" using s1(4) [OF p(1)] none [OF p(1)] by (simp add: kmap_simps UART0_def)
  have l2: "2 \<le> length ps1" using s1(3) len by simp
  obtain s2 ps2 where s2: "kvm_map ''kvmmake: uart map failed'' pt UART0 UART0 PERM_RW s1 = (Inr (), s2)" "kvm_inv s0 ps0 pt ps2 s2"
      "length ps1 \<le> length ps2 + 2"
      "\<And>v. low_page v \<Longrightarrow> pt_map (mem s2) 2 pt v = (if v = UART0 then Some (map_entry UART0 UART0 PERM_RW None) else pt_map (mem s1) 2 pt v)"
    by (rule kvm_page_run [OF s1(2) l2 conjunct1 [OF p(1)] p(1) same_page_refl u n2]) (rule that)
  have a3: "unat PLIC mod 2 ^ 21 = 0" "unat PLIC + 4096 * 1024 \<le> 2 ^ 39" by (simp_all add: kmap_simps)
  have l3: "2 * ((1024 + 511) div 512) \<le> length ps2" using s1(3) s2(3) len by simp
  have n3: "pt_map (mem s2) 2 pt va = None" if va: "low_page va" "unat PLIC \<le> unat va" "unat va < unat PLIC + 4096 * 1024" for va
    using s2(4) [OF va(1)] s1(4) [OF va(1)] none [OF va(1)] va(2,3) by (auto simp: kmap_simps UART0_def)
  let ?b3 = "\<lambda>k. kvm_map ''kvmmake: plic map failed'' pt (nth_page PLIC k) (nth_page PLIC k) PERM_RW"
  obtain s3 ps3 where s3: "kfor [0..<1024] ?b3 s2 = (Inr (), s3)" "kvm_inv s0 ps0 pt ps3 s3" "length ps2 \<le> length ps3 + 2 * ((1024 + 511) div 512)"
      "\<And>va. low_page va \<Longrightarrow> pt_map (mem s3) 2 pt va = (if unat PLIC \<le> unat va \<and> unat va < unat PLIC + 4096 * 1024
        then Some (map_entry va va PERM_RW None) else pt_map (mem s2) 2 pt va)"
    by (rule kvm_range_run [where f = "\<lambda>_. PERM_RW" and body = ?b3, OF s2(2) a3 u l3 n3 refl]) (assumption+, rule that)
  have a4: "unat CLINT mod 2 ^ 21 = 0" "unat CLINT + 4096 * 16 \<le> 2 ^ 39" by (simp_all add: kmap_simps)
  have l4: "2 * ((16 + 511) div 512) \<le> length ps3" using s1(3) s2(3) s3(3) len by simp
  have n4: "pt_map (mem s3) 2 pt va = None" if va: "low_page va" "unat CLINT \<le> unat va" "unat va < unat CLINT + 4096 * 16" for va
    using s3(4) [OF va(1)] s2(4) [OF va(1)] s1(4) [OF va(1)] none [OF va(1)] va(2,3) by (auto simp: kmap_simps UART0_def)
  let ?b4 = "\<lambda>k. kvm_map ''kvmmake: clint map failed'' pt (nth_page CLINT k) (nth_page CLINT k) PERM_RW"
  obtain s4 ps4 where s4: "kfor [0..<16] ?b4 s3 = (Inr (), s4)" "kvm_inv s0 ps0 pt ps4 s4" "length ps3 \<le> length ps4 + 2 * ((16 + 511) div 512)"
      "\<And>va. low_page va \<Longrightarrow> pt_map (mem s4) 2 pt va = (if unat CLINT \<le> unat va \<and> unat va < unat CLINT + 4096 * 16
        then Some (map_entry va va PERM_RW None) else pt_map (mem s3) 2 pt va)"
    by (rule kvm_range_run [where f = "\<lambda>_. PERM_RW" and body = ?b4, OF s3(2) a4 u l4 n4 refl]) (assumption+, rule that)
  note m4 = s4(4) s3(4) s2(4) s1(4) none
  have n5: "pt_map (mem s4) 2 pt VIRTIO0 = None" using m4 [OF p(2)] by (simp add: kmap_simps UART0_def VIRTIO0_def)
  have l5: "2 \<le> length ps4" using s1(3) s2(3) s3(3) s4(3) len by simp
  obtain s5 ps5 where s5: "kvm_map ''kvmmake: virtio map failed'' pt VIRTIO0 VIRTIO0 PERM_RW s4 = (Inr (), s5)" "kvm_inv s0 ps0 pt ps5 s5"
      "length ps4 \<le> length ps5 + 2"
      "\<And>v. low_page v \<Longrightarrow> pt_map (mem s5) 2 pt v = (if v = VIRTIO0 then Some (map_entry VIRTIO0 VIRTIO0 PERM_RW None) else pt_map (mem s4) 2 pt v)"
    by (rule kvm_page_run [OF s4(2) l5 conjunct1 [OF p(2)] p(2) same_page_refl u n5]) (rule that)
  have map5: "pt_map (mem s5) 2 pt va =
      (if KERNBASE \<le> va \<and> va < PHYSTOP then Some (map_entry va va (?f va) None)
       else if device_page va then Some (map_entry va va PERM_RW None) else None)" if va: "low_page va" for va
    unfolding s5(4) [OF va] m4 [OF va]
    by (auto simp: kmap_simps device_page_def word_le_nat_alt word_less_nat_alt PHYSTOP_eq UART0_def VIRTIO0_def PLIC_def CLINT_def KERNBASE_def)
  show ?thesis
    by (rule that [OF _ s2(1) _ _ s5(1,2) _ map5]) (use s1(1,3) s2(3) s3(1,3) s4(1,3) s5(3) len in \<open>simp_all add: kmap_simps kfor_map\<close>)
qed

text \<open>From then on the page \<open>x\<close> is not touched.\<close>

lemma kvm_inv_rebase:
  assumes "kvm_inv s0 ps0 pt ps s" and "x \<notin> pt_tabs (mem s) 2 pt" and "x \<notin> set ps"
  shows "kvm_inv s (filter (\<lambda>y. y \<noteq> x) ps0) pt ps s"
proof -
  have "same_rest s s" by (rule same_restI) simp
  then show ?thesis using assms by (auto simp: kvm_inv_def)
qed

lemma kvm_inv_trans:
  assumes "kvm_inv s0 ps0 pt qs s1" and "kvm_inv s1 ps1 pt ps s" and "set ps1 \<subseteq> set ps0"
  shows "kvm_inv s0 ps0 pt ps s"
proof -
  have "mem s b = mem s0 b" if "\<forall>x \<in> set ps0. \<not> in_range x PGSIZE b" for b
    using that assms by (auto simp: kvm_inv_def subset_iff)
  then show ?thesis using assms same_rest_trans by (auto simp: kvm_inv_def)
qed

lemma memcpy_outside: "\<not> in_range d n b \<Longrightarrow> memcpy m d s n b = m b"
proof -
  have "memcpy_loop m d s i k b = m b" if "\<not> in_range d (i + k) b" for i k m
    using that
  proof (induction k arbitrary: i m)
    case (Suc k)
    have "unat (of_nat i :: u64) \<le> i" by (simp add: unat_of_nat)
    then have "b \<noteq> d + of_nat i" using Suc.prems by (auto simp: in_range_def)
    then show ?case using Suc.IH [of "Suc i"] Suc.prems by simp
  qed simp
  then show "\<not> in_range d n b \<Longrightarrow> memcpy m d s n b = m b" by (simp add: memcpy_def)
qed

text \<open>A copy from below reads no byte it has written.\<close>

lemma memcpy_below:
  assumes "unat d + n \<le> 2 ^ 64" and src: "unat s + n \<le> unat d" and b: "in_range d n b"
  shows "memcpy m d s n b = m (s + (b - d))" and "\<not> in_range d n (s + (b - d))"
proof -
  show "memcpy m d s n b = m (s + (b - d))" using memcpy_copied [of d n s m] assms unat_lt_pow [of d] b by (simp add: copied_def)
  have k: "unat (b - d) < n" using b by (simp add: in_range_def)
  then have "unat (s + (b - d)) = unat s + unat (b - d)" using src unat_lt_pow [of d] by (intro unat_plus_nowrap) simp
  then show "\<not> in_range d n (s + (b - d))" using k src assms(1) by (simp add: in_range_nat)
qed

text \<open>The trampoline and trapframe pages, filled and mapped at the top.\<close>

lemma kvm_top_run:
  fixes s :: "('a) kvm_scheme"
  assumes inv: "kvm_inv s0 ps0 pt (tr # tf # qs) s" and u: "\<not> user_running s0" and len: "4 \<le> length qs"
    and none: "pt_map (mem s) 2 pt 0x7FFFFFF000 = None" "pt_map (mem s) 2 pt 0x7FFFFFE000 = None"
    and code: "unat (ld_trampoline s0) + PGSIZE \<le> unat tr" and al0: "\<And>x. x \<in> set ps0 \<Longrightarrow> page_aligned x"
  obtains s6 s7 s8 s' qs' where "alloc_page s = (Inr tr, s6)" and "tr \<noteq> 0" and "ld_trampoline s6 = ld_trampoline s0"
    and "alloc_page (s6\<lparr>mem := memcpy (mem s6) tr (ld_trampoline s0) PGSIZE\<rparr>) = (Inr tf, s7)" and "tf \<noteq> 0"
    and "kvm_map ''kvmmake: trampoline map failed'' pt TRAMPOLINE tr PERM_RX (s7\<lparr>mem := memset (mem s7) tf 0 PGSIZE\<rparr>) = (Inr (), s8)"
    and "kvm_map ''kvmmake: trapframe map failed'' pt TRAPFRAME tf PERM_RW s8 = (Inr (), s')"
    and "kvm_inv s0 ps0 pt qs' s'" and "length qs \<le> length qs' + 4"
    and "\<And>v. low_page v \<Longrightarrow> pt_map (mem s') 2 pt v = (if v = 0x7FFFFFF000 then Some (map_entry TRAMPOLINE tr PERM_RX None)
      else if v = 0x7FFFFFE000 then Some (map_entry TRAPFRAME tf PERM_RW None) else pt_map (mem s) 2 pt v)"
    and "\<And>b. in_range tr PGSIZE b \<Longrightarrow> mem s' b = mem s (ld_trampoline s0 + (b - tr))"
proof -
  have pm: "pm_inv s (tr # tf # qs)" using inv by (simp only: kvm_inv_def vm_inv_def)
  then have al: "page_aligned tr" using pm_inv_aligned [OF pm, of tr] by simp
  obtain s6 where s6: "alloc_page s = (Inr tr, s6)" "same_rest s s6" "tr \<noteq> 0" "\<And>b. \<not> in_range tr PGSIZE b \<Longrightarrow> mem s6 b = mem s b"
      "tr \<notin> pt_tabs (mem s) 2 pt" "tr \<notin> set (tf # qs)"
      "\<And>m. \<forall>b. \<not> in_range tr PGSIZE b \<longrightarrow> m b = mem s6 b \<Longrightarrow>
        kvm_inv s0 ps0 pt (tf # qs) (s6\<lparr>mem := m\<rparr>) \<and> pt_map m 2 pt = pt_map (mem s) 2 pt \<and> pt_tabs m 2 pt = pt_tabs (mem s) 2 pt"
    using inv by (rule kvm_inv_alloc) (rule that)
  let ?m6 = "memcpy (mem s6) tr (ld_trampoline s0) PGSIZE"
  let ?s6 = "s6\<lparr>mem := ?m6\<rparr>"
  have k6: "kvm_inv s0 ps0 pt (tf # qs) ?s6" "pt_map ?m6 2 pt = pt_map (mem s) 2 pt" "pt_tabs ?m6 2 pt = pt_tabs (mem s) 2 pt"
  proof -
    have "\<forall>b. \<not> in_range tr PGSIZE b \<longrightarrow> ?m6 b = mem s6 b" by (simp add: memcpy_outside)
    from s6(7) [OF this] show "kvm_inv s0 ps0 pt (tf # qs) ?s6" "pt_map ?m6 2 pt = pt_map (mem s) 2 pt"
        "pt_tabs ?m6 2 pt = pt_tabs (mem s) 2 pt" by (simp_all only:)
  qed
  have tr6: "?m6 b = mem s (ld_trampoline s0 + (b - tr))" if b: "in_range tr PGSIZE b" for b
    using memcpy_below [OF _ code b] page_room [OF al] s6(4) by simp
  let ?ps1 = "filter (\<lambda>y. y \<noteq> tr) ps0"
  have k6': "kvm_inv ?s6 ?ps1 pt (tf # qs) ?s6" using k6(1,3) s6(5,6) by (intro kvm_inv_rebase) simp_all
  obtain s7 where s7: "alloc_page ?s6 = (Inr tf, s7)" "same_rest ?s6 s7" "tf \<noteq> 0" "\<And>b. \<not> in_range tf PGSIZE b \<Longrightarrow> mem s7 b = mem ?s6 b"
      "tf \<notin> pt_tabs (mem ?s6) 2 pt" "tf \<notin> set qs"
      "\<And>m. \<forall>b. \<not> in_range tf PGSIZE b \<longrightarrow> m b = mem s7 b \<Longrightarrow> kvm_inv ?s6 ?ps1 pt qs (s7\<lparr>mem := m\<rparr>) \<and>
        pt_map m 2 pt = pt_map (mem ?s6) 2 pt \<and> pt_tabs m 2 pt = pt_tabs (mem ?s6) 2 pt"
    using k6' by (rule kvm_inv_alloc) (rule that)
  let ?s7 = "s7\<lparr>mem := memset (mem s7) tf 0 PGSIZE\<rparr>"
  have k7: "kvm_inv ?s6 ?ps1 pt qs ?s7" "pt_map (mem ?s7) 2 pt = pt_map (mem s) 2 pt"
  proof -
    have "\<forall>b. \<not> in_range tf PGSIZE b \<longrightarrow> memset (mem s7) tf 0 PGSIZE b = mem s7 b" by (simp add: memset_apply PGSIZE_def)
    from s7(7) [OF this] show "kvm_inv ?s6 ?ps1 pt qs ?s7" "pt_map (mem ?s7) 2 pt = pt_map (mem s) 2 pt" using k6(2) by simp_all
  qed
  have u6: "\<not> user_running ?s6" using u k6(1) same_rest_user [of s0 ?s6] by (simp add: kvm_inv_def)
  have w: "low_page 0x7FFFFFF000" "low_page 0x7FFFFFE000" using high_aligned by simp_all
  have l7: "2 \<le> length qs" and n7: "pt_map (mem ?s7) 2 pt 0x7FFFFFF000 = None" using len none(1) k7(2) by simp_all
  obtain s8 qs8 where s8: "kvm_map ''kvmmake: trampoline map failed'' pt TRAMPOLINE tr PERM_RX ?s7 = (Inr (), s8)"
      "kvm_inv ?s6 ?ps1 pt qs8 s8" "length qs \<le> length qs8 + 2"
      "\<And>v. low_page v \<Longrightarrow> pt_map (mem s8) 2 pt v = (if v = 0x7FFFFFF000 then Some (map_entry TRAMPOLINE tr PERM_RX None) else pt_map (mem ?s7) 2 pt v)"
    by (rule kvm_page_run [OF k7(1) l7 high_aligned(2) w(1) high_pages(2) u6 n7]) (rule that)
  have l8: "2 \<le> length qs8" and n8: "pt_map (mem s8) 2 pt 0x7FFFFFE000 = None" using len s8(3) s8(4) [OF w(2)] none(2) k7(2) by simp_all
  obtain s' qs' where s': "kvm_map ''kvmmake: trapframe map failed'' pt TRAPFRAME tf PERM_RW s8 = (Inr (), s')"
      "kvm_inv ?s6 ?ps1 pt qs' s'" "length qs8 \<le> length qs' + 2"
      "\<And>v. low_page v \<Longrightarrow> pt_map (mem s') 2 pt v = (if v = 0x7FFFFFE000 then Some (map_entry TRAPFRAME tf PERM_RW None) else pt_map (mem s8) 2 pt v)"
    by (rule kvm_page_run [OF s8(2) l8 high_aligned(1) w(2) high_pages(1) u6 n8]) (rule that)
  have fin: "kvm_inv s0 ps0 pt qs' s'" by (rule kvm_inv_trans [OF k6(1) s'(2)]) simp
  have tr': "mem s' b = mem s (ld_trampoline s0 + (b - tr))" if b: "in_range tr PGSIZE b" for b
  proof -
    have "\<forall>x \<in> set ?ps1. \<not> in_range x PGSIZE b" using pages_apart [OF al al0 _ b] by auto
    then have "mem s' b = ?m6 b" using s'(2) by (simp add: kvm_inv_def)
    then show ?thesis using tr6 [OF b] by simp
  qed
  have "ld_trampoline s6 = ld_trampoline s0" using s6(2) inv by (auto simp: kvm_inv_def same_rest_def)
  moreover have "pt_map (mem s') 2 pt v = (if v = 0x7FFFFFF000 then Some (map_entry TRAMPOLINE tr PERM_RX None)
      else if v = 0x7FFFFFE000 then Some (map_entry TRAPFRAME tf PERM_RW None) else pt_map (mem s) 2 pt v)" if v: "low_page v" for v
    unfolding s'(4) [OF v] s8(4) [OF v] k7(2) by simp
  moreover have "length qs \<le> length qs' + 4" using s8(3) s'(3) by simp
  ultimately show ?thesis by (intro that [OF s6(1,3) _ s7(1,3) s8(1) s'(1) fin _ _ tr'])
qed

text \<open>The whole of \<^verbatim>\<open>kvmmake\<close>: one page for the root, 142 for tables at most, and two for the trampoline and the trapframe.\<close>

lemma kvmmake_run:
  fixes s :: "('a) kvm_scheme"
  assumes pm: "pm_inv s ps" and u: "\<not> user_running s" and len: "145 \<le> length ps" and code: "unat (ld_trampoline s) + PGSIZE \<le> unat (ld_end s)"
  obtains s' ps' pt tr tf where "kvmmake s = (Inr pt, s'\<lparr>trampoline_phys_addr := tr, trapframe_phys_addr := tf\<rparr>)"
    and "kvm_inv s ps pt ps' s'" and "length ps \<le> length ps' + 145" and "{pt, tr, tf} \<subseteq> set ps"
    and "\<And>va. low_page va \<Longrightarrow> pt_map (mem s') 2 pt va = kernel_map (ld_etext s) tr tf va"
    and "\<And>b. in_range tr PGSIZE b \<Longrightarrow> mem s' b = mem s (ld_trampoline s + (b - tr))"
proof -
  obtain pt qs where ps: "ps = pt # qs" using len by (cases ps) auto
  have al0: "page_aligned x" "unat (ld_end s) \<le> unat x" if "x \<in> set ps" for x
    using pm that by (auto simp: pm_inv_def page_ok_def word_le_nat_alt)
  obtain s0 where s0: "create_pagetable s = (Inr pt, s0)" "pm_inv s0 qs" "same_rest s s0" "pt_wf (mem s0) 2 pt" "pt_tabs (mem s0) 2 pt = {pt}"
      "pt_map (mem s0) 2 pt = (\<lambda>_. None)" "\<And>b. \<not> in_range pt PGSIZE b \<Longrightarrow> mem s0 b = mem s b"
    using pm unfolding ps by (rule create_pagetable_run) (rule that)
  have pt0: "pt \<noteq> 0" "pt \<notin> set qs" using pm_inv_aligned [OF pm, of pt] pm ps by (auto simp: pm_inv_def)
  have inv: "kvm_inv s ps pt qs s0" using s0(2-5,7) pt0(2) by (auto simp: kvm_inv_def vm_inv_def ps)
  have l: "138 \<le> length qs" and none: "pt_map (mem s0) 2 pt va = None" for va using len ps s0(6) by simp_all
  obtain s1 s2 s3 s4 s5 rs where d:
    "kfor (page_range KERNBASE PHYSTOP) (\<lambda>pa. kbind (kget ld_etext) (\<lambda>etext.
       kvm_map ''kvmmake: heap map failed'' pt pa pa (if pa < etext then PERM_RX else PERM_RW))) s0 = (Inr (), s1)"
    "kvm_map ''kvmmake: uart map failed'' pt UART0 UART0 PERM_RW s1 = (Inr (), s2)"
    "kfor (page_range PLIC (PLIC + 0x400000)) (\<lambda>pa. kvm_map ''kvmmake: plic map failed'' pt pa pa PERM_RW) s2 = (Inr (), s3)"
    "kfor (page_range CLINT (CLINT + 0x10000)) (\<lambda>pa. kvm_map ''kvmmake: clint map failed'' pt pa pa PERM_RW) s3 = (Inr (), s4)"
    "kvm_map ''kvmmake: virtio map failed'' pt VIRTIO0 VIRTIO0 PERM_RW s4 = (Inr (), s5)"
    "kvm_inv s ps pt rs s5" "length qs \<le> length rs + 138"
    "\<And>va. low_page va \<Longrightarrow> pt_map (mem s5) 2 pt va =
      (if KERNBASE \<le> va \<and> va < PHYSTOP then Some (map_entry va va (if va < ld_etext s then PERM_RX else PERM_RW) None)
       else if device_page va then Some (map_entry va va PERM_RW None) else None)"
    by (rule kvm_devices_run [OF inv u l none]) (rule that)
  have "6 \<le> length rs" using d(7) len ps by simp
  then obtain tr tf qs' where rs: "rs = tr # tf # qs'" "4 \<le> length qs'" by (cases rs; cases "tl rs") auto
  have sub: "{pt, tr, tf} \<subseteq> set ps" using d(6) ps rs by (auto simp: kvm_inv_def)
  have w: "low_page 0x7FFFFFF000" "low_page 0x7FFFFFE000" using high_aligned by simp_all
  have n: "pt_map (mem s5) 2 pt 0x7FFFFFF000 = None" "pt_map (mem s5) 2 pt 0x7FFFFFE000 = None"
    using d(8) [OF w(1)] d(8) [OF w(2)]
    by (simp_all add: device_page_def KERNBASE_def PHYSTOP_eq UART0_def VIRTIO0_def PLIC_def CLINT_def)
  have c: "unat (ld_trampoline s) + PGSIZE \<le> unat tr" using code al0(2) [of tr] sub by simp
  obtain s6 s7 s8 s' ps' where e: "alloc_page s5 = (Inr tr, s6)" "tr \<noteq> 0" "ld_trampoline s6 = ld_trampoline s"
      "alloc_page (s6\<lparr>mem := memcpy (mem s6) tr (ld_trampoline s) PGSIZE\<rparr>) = (Inr tf, s7)" "tf \<noteq> 0"
      "kvm_map ''kvmmake: trampoline map failed'' pt TRAMPOLINE tr PERM_RX (s7\<lparr>mem := memset (mem s7) tf 0 PGSIZE\<rparr>) = (Inr (), s8)"
      "kvm_map ''kvmmake: trapframe map failed'' pt TRAPFRAME tf PERM_RW s8 = (Inr (), s')"
      "kvm_inv s ps pt ps' s'" "length qs' \<le> length ps' + 4"
      "\<And>v. low_page v \<Longrightarrow> pt_map (mem s') 2 pt v = (if v = 0x7FFFFFF000 then Some (map_entry TRAMPOLINE tr PERM_RX None)
        else if v = 0x7FFFFFE000 then Some (map_entry TRAPFRAME tf PERM_RW None) else pt_map (mem s5) 2 pt v)"
      "\<And>b. in_range tr PGSIZE b \<Longrightarrow> mem s' b = mem s5 (ld_trampoline s + (b - tr))"
    by (rule kvm_top_run [OF d(6) [unfolded rs] u rs(2) n c al0(1)]) (assumption, rule that)
  have run: "kvmmake s = (Inr pt, s'\<lparr>trampoline_phys_addr := tr, trapframe_phys_addr := tf\<rparr>)"
    using s0(1) d(1-5) e(1-7) pt0(1) by (simp add: kvmmake_def)
  have map: "pt_map (mem s') 2 pt va = kernel_map (ld_etext s) tr tf va" if "low_page va" for va
    unfolding e(10) [OF that] d(8) [OF that] kernel_map_def
    by (simp add: device_page_def KERNBASE_def PHYSTOP_eq UART0_def VIRTIO0_def PLIC_def CLINT_def)
  have cd: "mem s' b = mem s (ld_trampoline s + (b - tr))" if b: "in_range tr PGSIZE b" for b
  proof -
    have k: "unat (b - tr) < PGSIZE" using b by (simp add: in_range_def)
    then have ua: "unat (ld_trampoline s + (b - tr)) = unat (ld_trampoline s) + unat (b - tr)"
      using code unat_lt_pow [of "ld_end s"] by (intro unat_plus_nowrap) simp
    have "\<not> in_range x PGSIZE (ld_trampoline s + (b - tr))" if "x \<in> set ps" for x
      using k ua code al0 [OF that] page_room [of x] by (simp add: in_range_nat)
    then have "mem s5 (ld_trampoline s + (b - tr)) = mem s (ld_trampoline s + (b - tr))" using d(6) by (simp add: kvm_inv_def)
    then show ?thesis using e(11) [OF b] by simp
  qed
  have "length ps \<le> length ps' + 145" using d(7) e(9) rs ps by simp
  then show ?thesis by (rule that [OF run e(8) _ sub map cd])
qed

lemma PA2PTE_flags: "PA2PTE pa AND PTE_U = 0" "PA2PTE pa AND PTE_W = 0" "PA2PTE pa AND PTE_X = 0"
proof -
  have "PA2PTE pa AND push_bit n 1 = 0" if "n < 10" for n
    using that by (intro bit_word_eqI) (auto simp: PA2PTE_def bit_simps)
  from this [of 4] this [of 2] this [of 3] show "PA2PTE pa AND PTE_U = 0" "PA2PTE pa AND PTE_W = 0" "PA2PTE pa AND PTE_X = 0"
    by (simp_all add: PTE_U_def PTE_W_def PTE_X_def)
qed

lemma kernel_entry:
  "map_entry va pa PERM_RW None = PA2PTE pa OR 7" "map_entry va pa PERM_RX None = PA2PTE pa OR 11"
  by (simp_all add: map_entry_def PERM_RW_def PERM_RX_def PTE_R_def PTE_W_def PTE_X_def PTE_U_def PTE_V_def or.assoc)

lemma kernel_map_protects:
  assumes "kernel_map etext tr tf va = Some e"
  shows "e AND PTE_U = 0 \<and> (e AND PTE_W = 0 \<or> e AND PTE_X = 0)"
proof -
  obtain pa where "e = PA2PTE pa OR 7 \<or> e = PA2PTE pa OR 11"
    using assms by (auto simp: kernel_map_def kernel_entry split: if_splits)
  then show ?thesis
    by (auto simp: bit.conj_disj_distrib2 PA2PTE_flags) (simp_all add: PTE_U_def PTE_W_def PTE_X_def)
qed

section \<open>Property\<close>

text \<open>C8. Switching on paging. From a state with at least 145 free pages \<^verbatim>\<open>kvminit\<close> returns; \<^verbatim>\<open>satp\<close> then points to a
  well-formed table, apart from the pages that are still free, whose map is exactly \<open>kernel_map\<close>: the memory of the machine
  and the devices are mapped to themselves, the trampoline and the trapframe at the top, and nothing else is mapped. No
  page is open to user mode, and no page is both writable and executable. The trampoline page holds the code
  the kernel image has for it, and memory outside the pages that were free is unchanged.\<close>

theorem kvminit_maps_kernel:
  fixes s :: "('a) kvm_scheme"
  assumes "pm_inv s ps" and "\<not> user_running s" and "145 \<le> length ps" and "unat (ld_trampoline s) + PGSIZE \<le> unat (ld_end s)"
  shows "\<exists>s' ps'. kvminit s = (Inr (), s') \<and> vm_inv s' 2 (kernel_pagetable s') ps' \<and> satp s' = MAKE_SATP (kernel_pagetable s') \<and>
    (\<forall>va. low_page va \<longrightarrow> pt_map (mem s') 2 (kernel_pagetable s') va =
      kernel_map (ld_etext s) (trampoline_phys_addr s') (trapframe_phys_addr s') va) \<and>
    (\<forall>va e. low_page va \<longrightarrow> pt_map (mem s') 2 (kernel_pagetable s') va = Some e \<longrightarrow>
      e AND PTE_U = 0 \<and> (e AND PTE_W = 0 \<or> e AND PTE_X = 0)) \<and>
    (\<forall>b. in_range (trampoline_phys_addr s') PGSIZE b \<longrightarrow> mem s' b = mem s (ld_trampoline s + (b - trampoline_phys_addr s'))) \<and>
    (\<forall>b. (\<forall>x \<in> set ps. \<not> in_range x PGSIZE b) \<longrightarrow> mem s' b = mem s b)"
proof -
  obtain s' ps' pt tr tf where r: "kvmmake s = (Inr pt, s'\<lparr>trampoline_phys_addr := tr, trapframe_phys_addr := tf\<rparr>)"
      "kvm_inv s ps pt ps' s'" "length ps \<le> length ps' + 145" "{pt, tr, tf} \<subseteq> set ps"
      "\<And>va. low_page va \<Longrightarrow> pt_map (mem s') 2 pt va = kernel_map (ld_etext s) tr tf va"
      "\<And>b. in_range tr PGSIZE b \<Longrightarrow> mem s' b = mem s (ld_trampoline s + (b - tr))"
    using assms by (rule kvmmake_run) (rule that)
  let ?s = "s'\<lparr>trampoline_phys_addr := tr, trapframe_phys_addr := tf, kernel_pagetable := pt, satp := MAKE_SATP pt\<rparr>"
  have run: "kvminit s = (Inr (), ?s)" using r(1) by (simp add: kvminit_def)
  have vm: "vm_inv ?s 2 pt ps'" using r(2) by (simp add: kvm_inv_def vm_inv_def pm_inv_def)
  have safe: "e AND PTE_U = 0 \<and> (e AND PTE_W = 0 \<or> e AND PTE_X = 0)" if "low_page va" "pt_map (mem s') 2 pt va = Some e" for va e
    using kernel_map_protects that r(5) by metis
  have out: "mem s' b = mem s b" if "\<forall>x \<in> set ps. \<not> in_range x PGSIZE b" for b using r(2) that by (simp add: kvm_inv_def)
  show ?thesis
    by (intro exI [of _ ?s] exI [of _ ps'] conjI run) (use vm r(5,6) safe out in simp_all)
qed

text \<open>Two hundred free pages after the kernel image.\<close>

definition boot_pages :: "addr list" where
  "boot_pages = map (nth_page 0x80006000) [0..<200]"

definition demo_boot_mem :: ktrap where
  "demo_boot_mem = demo_trap (idle_proc\<lparr>pid := 1, pstate := RUNNING\<rparr>) (link_pages boot_pages) 0x80006000 8"

lemma boot_page: "k < 200 \<Longrightarrow> unat (nth_page 0x80006000 k) = 0x80006000 + 4096 * k"
  by (subst unat_nth_page) simp_all

lemma boot_pages_ok: "x \<in> set boot_pages \<Longrightarrow> page_ok 0x80005000 x" "distinct boot_pages" "hd boot_pages = 0x80006000" "boot_pages \<noteq> []"
proof -
  show "distinct boot_pages"
    unfolding boot_pages_def by (auto simp: distinct_map inj_on_def) (metis atLeastLessThan_iff boot_page add_left_cancel mult_left_cancel zero_neq_numeral)
  assume "x \<in> set boot_pages"
  then obtain k where "k < 200" "x = nth_page 0x80006000 k" by (auto simp: boot_pages_def)
  then show "page_ok 0x80005000 x"
    using boot_page [of k] by (simp add: page_ok_def PGSIZE_def word_le_nat_alt word_less_nat_alt PHYSTOP_eq mod_add_left_eq)
qed (simp_all add: boot_pages_def hd_map)

lemma demo_boot_mem_ok: "pm_inv demo_boot_mem boot_pages"
proof -
  have "page_aligned x \<and> x \<noteq> 0" if "x \<in> set boot_pages" for x using boot_pages_ok(1) [OF that] by (auto simp: page_ok_def)
  then have "flist (link_pages boot_pages) 0x80006000 boot_pages"
    using flist_link_pages [OF boot_pages_ok(2) _ boot_pages_ok(4)] boot_pages_ok(3) by simp
  then show ?thesis using boot_pages_ok(1,2) by (simp add: pm_inv_def demo_boot_mem_def)
qed

theorem kvminit_maps_kernel_witness:
  "\<exists>s'. kvminit demo_boot_mem = (Inr (), s') \<and> satp s' = MAKE_SATP (kernel_pagetable s') \<and>
     pt_map (mem s') 2 (kernel_pagetable s') UART0 = Some (map_entry UART0 UART0 PERM_RW None)"
proof -
  have u: "\<not> user_running demo_boot_mem" by (simp add: user_running_def demo_boot_mem_def idle_proc_def)
  have l: "145 \<le> length boot_pages" by (simp add: boot_pages_def)
  have c: "unat (ld_trampoline demo_boot_mem) + PGSIZE \<le> unat (ld_end demo_boot_mem)"
    by (simp add: demo_boot_mem_def demo_trap_def kdisk.extend_def demo_disk_defs PGSIZE_def)
  obtain s' where s': "kvminit demo_boot_mem = (Inr (), s')" "satp s' = MAKE_SATP (kernel_pagetable s')"
      "\<forall>va. low_page va \<longrightarrow> pt_map (mem s') 2 (kernel_pagetable s') va =
        kernel_map (ld_etext demo_boot_mem) (trampoline_phys_addr s') (trapframe_phys_addr s') va"
    using kvminit_maps_kernel [OF demo_boot_mem_ok u l c] by blast
  have "low_page UART0" by (simp add: UART0_def PGSIZE_def)
  then have "pt_map (mem s') 2 (kernel_pagetable s') UART0 = Some (map_entry UART0 UART0 PERM_RW None)"
    using s'(3) by (simp add: kernel_map_def device_page_def) (simp add: UART0_def KERNBASE_def)
  then show ?thesis using s'(1,2) by blast
qed

end
