(* ===== verification/BootSpec.thy ===== *)
theory BootSpec
  imports Boot KvmSpec
begin

text \<open>
  What the boot sequence of \<open>Boot\<close> establishes: \<^verbatim>\<open>start\<close> leaves the allocator, the kernel's page table, the process table and the
  first process in the states from which the other theories argue, and the disk driver and the buffer cache start with the
  invariant \<open>cache_inv\<close> on which the file system rests.
\<close>

section \<open>Messages\<close>

text \<open>The state after \<open>bs\<close> has been printed: the buffer is empty.\<close>

definition shown :: "u8 list \<Rightarrow> ('a) ktrap_scheme \<Rightarrow> ('a) ktrap_scheme" where
  "shown bs s = s\<lparr>kcons := \<lparr>printf_buffer = [], uart_out = pending (kcons s) @ bs\<rparr>\<rparr>"

abbreviation cons_ok :: "('a) ktrap_scheme \<Rightarrow> bool" where
  "cons_ok s \<equiv> Format.buf_ok (kcons s)"

lemma kprintf_shown:
  assumes "format_out fmt ap = Some bs" and "0 \<notin> set bs" and "cons_ok s"
  shows "kprintf fmt ap s = (Inr (), shown bs s)"
proof -
  obtain c where c: "vprintf_loop fmt ap (kcons s) = Some c" "emits (kcons s) bs c" using vprintf_loop_emits [OF assms] by blast
  then have "flush_printf_buffer c = \<lparr>printf_buffer = [], uart_out = pending (kcons s) @ bs\<rparr>"
    using flush_pending [of c] by (auto simp: emits_def intro: console.equality)
  then show ?thesis using c(1) by (simp add: kprintf_def vprintf_def shown_def)
qed

lemma shown_ok [simp]: "cons_ok (shown bs s)"
  by (simp add: shown_def Format.buf_ok_def PRINTF_BUFFER_SIZE_def)

lemma shown_pending [simp]: "pending (kcons (shown bs s)) = pending (kcons s) @ bs"
  by (simp add: shown_def pending_def)

text \<open>A format without directives.\<close>

lemma format_plain: "37 \<notin> set bs \<Longrightarrow> 0 \<notin> set bs \<Longrightarrow> format_out (bs @ [0]) ap = Some bs"
  by (induction bs) auto

lemma kprintf_plain:
  assumes "37 \<notin> set (map of_char xs :: u8 list)" and "0 \<notin> set (map of_char xs :: u8 list)" and "cons_ok s"
  shows "kprintf (cstr xs) ap s = (Inr (), shown (map of_char xs) s)"
  unfolding cstr_def by (rule kprintf_shown [OF format_plain]) (use assms in auto)

section \<open>The disk\<close>

lemmas reg_defs = VIRTIO_MMIO_MAGIC_VALUE_def VIRTIO_MMIO_VERSION_def VIRTIO_MMIO_DEVICE_ID_def VIRTIO_MMIO_VENDOR_ID_def
  VIRTIO_MMIO_DEVICE_FEATURES_def VIRTIO_MMIO_DRIVER_FEATURES_def VIRTIO_MMIO_QUEUE_SEL_def VIRTIO_MMIO_QUEUE_NUM_MAX_def
  VIRTIO_MMIO_QUEUE_NUM_def VIRTIO_MMIO_QUEUE_READY_def VIRTIO_MMIO_STATUS_def

text \<open>The registers identify a disk.\<close>

definition found :: "(u64 \<Rightarrow> u32) \<Rightarrow> bool" where
  "found rd \<longleftrightarrow> rd VIRTIO_MMIO_MAGIC_VALUE = 0x74726976 \<and> rd VIRTIO_MMIO_VERSION = 2 \<and> rd VIRTIO_MMIO_DEVICE_ID = 2 \<and>
     rd VIRTIO_MMIO_VENDOR_ID = 0x554d4551"

text \<open>The register writes of the handshake, with the features the device offers, and of the set-up of the queue.\<close>

definition handshake :: "u32 \<Rightarrow> (u64 \<times> u32) list" where
  "handshake f = [(VIRTIO_MMIO_STATUS, 0), (VIRTIO_MMIO_STATUS, 1), (VIRTIO_MMIO_STATUS, 3), (VIRTIO_MMIO_DRIVER_FEATURES, f),
     (VIRTIO_MMIO_STATUS, 11)]"

definition queue_setup :: "addr \<Rightarrow> addr \<Rightarrow> addr \<Rightarrow> (u64 \<times> u32) list" where
  "queue_setup d a u = [(VIRTIO_MMIO_QUEUE_NUM, 16), (VIRTIO_MMIO_QUEUE_DESC_LOW, ucast d), (VIRTIO_MMIO_QUEUE_DESC_HIGH, ucast (drop_bit 32 d)),
     (VIRTIO_MMIO_DRIVER_DESC_LOW, ucast a), (VIRTIO_MMIO_DRIVER_DESC_HIGH, ucast (drop_bit 32 a)),
     (VIRTIO_MMIO_DEVICE_DESC_LOW, ucast u), (VIRTIO_MMIO_DEVICE_DESC_HIGH, ucast (drop_bit 32 u)), (VIRTIO_MMIO_QUEUE_READY, 1)]"

text \<open>What the device offers when the driver asks.\<close>

definition feats :: "('a) kboot_scheme \<Rightarrow> u32" where
  "feats s = vread s (vlog s @ [(VIRTIO_MMIO_STATUS, 0), (VIRTIO_MMIO_STATUS, 1), (VIRTIO_MMIO_STATUS, 3)]) VIRTIO_MMIO_DEVICE_FEATURES"

definition agreed :: "('a) kboot_scheme \<Rightarrow> (u64 \<times> u32) list" where
  "agreed s = vlog s @ handshake (offered (feats s))"

definition dev_status :: "('a) kboot_scheme \<Rightarrow> u32" where
  "dev_status s = vread s (agreed s) VIRTIO_MMIO_STATUS"

abbreviation queue_reg :: "('a) kboot_scheme \<Rightarrow> u64 \<Rightarrow> u32" where
  "queue_reg s r \<equiv> vread s (agreed s @ [(VIRTIO_MMIO_QUEUE_SEL, 0)]) r"

text \<open>The device is one the driver can use: it is a disk, accepts the features, and has an unused queue of at least \<^verbatim>\<open>NUM\<close> entries.\<close>

definition usable :: "('a) kboot_scheme \<Rightarrow> bool" where
  "usable s \<longleftrightarrow> found (vread s (vlog s)) \<and> dev_status s AND 8 \<noteq> 0 \<and> queue_reg s VIRTIO_MMIO_QUEUE_READY = 0 \<and>
     16 \<le> queue_reg s VIRTIO_MMIO_QUEUE_NUM_MAX"

lemmas status_bits = VIRTIO_CONFIG_S_ACKNOWLEDGE_def VIRTIO_CONFIG_S_DRIVER_def VIRTIO_CONFIG_S_FEATURES_OK_def VIRTIO_CONFIG_S_DRIVER_OK_def

lemma negotiate_run:
  "negotiate s = (if \<not> found (vread s (vlog s)) then (Inl (Panic ''could not find virtio disk''), s)
     else (if dev_status s AND 8 = 0 then Inl (Panic ''virtio disk FEATURES_OK unset'') else Inr (dev_status s), s\<lparr>vlog := agreed s\<rparr>))"
  by (simp add: negotiate_def R_get_def R_set_def status_bits handshake_def feats_def dev_status_def agreed_def found_def)

text \<open>Three free pages become the queue.\<close>

lemma alloc_queue_run:
  fixes s :: "('a) kboot_scheme"
  assumes pm: "pm_inv s (d # a # u # ps)"
  obtains m f where "alloc_queue s = (Inr (), s\<lparr>mem := m, freelist := f, hw := zero_queue (hw s), disk_desc := d, disk_avail := a, disk_used := u,
      vlog := vlog s @ queue_setup d a u\<rparr>)" and "pm_inv (s\<lparr>mem := m, freelist := f\<rparr>) ps"
    and "\<And>b. \<forall>x \<in> {d, a, u}. \<not> in_range x PGSIZE b \<Longrightarrow> m b = mem s b"
proof -
  have al: "page_aligned d" "d \<noteq> 0" "page_aligned a" "a \<noteq> 0" "page_aligned u" "u \<noteq> 0" "distinct (d # a # u # ps)"
    using pm_inv_aligned [OF pm] pm by (auto simp: pm_inv_def)
  obtain s1 where s1: "alloc_page s = (Inr d, s1)" "pm_inv s1 (a # u # ps)" "same_rest s s1" "\<And>b. \<not> in_range d PGSIZE b \<Longrightarrow> mem s1 b = mem s b"
    by (rule alloc_page_same [OF pm]) (rule that)
  have pm1: "pm_inv (s1\<lparr>disk_desc := d\<rparr>) (a # u # ps)" using s1(2) by (simp add: pm_inv_def)
  obtain s2 where s2: "alloc_page (s1\<lparr>disk_desc := d\<rparr>) = (Inr a, s2)" "pm_inv s2 (u # ps)" "same_rest (s1\<lparr>disk_desc := d\<rparr>) s2"
      "\<And>b. \<not> in_range a PGSIZE b \<Longrightarrow> mem s2 b = mem (s1\<lparr>disk_desc := d\<rparr>) b"
    by (rule alloc_page_same [OF pm1]) (rule that)
  have pm2: "pm_inv (s2\<lparr>disk_avail := a\<rparr>) (u # ps)" using s2(2) by (simp add: pm_inv_def)
  obtain s3 where s3: "alloc_page (s2\<lparr>disk_avail := a\<rparr>) = (Inr u, s3)" "pm_inv s3 ps" "same_rest (s2\<lparr>disk_avail := a\<rparr>) s3"
      "\<And>b. \<not> in_range u PGSIZE b \<Longrightarrow> mem s3 b = mem (s2\<lparr>disk_avail := a\<rparr>) b"
    by (rule alloc_page_same [OF pm2]) (rule that)
  let ?m = "memset (memset (memset (mem s3) d 0 PGSIZE) a 0 PGSIZE) u 0 PGSIZE"
  obtain m1 f1 m2 f2 m3 f3 where e: "s1 = s\<lparr>mem := m1, freelist := f1\<rparr>" "s2 = s1\<lparr>disk_desc := d, mem := m2, freelist := f2\<rparr>"
      "s3 = s2\<lparr>disk_avail := a, mem := m3, freelist := f3\<rparr>"
    using s1(3) s2(3) s3(3) by (auto simp: same_rest_def)
  have frame: "?m b = mem s3 b" if "\<forall>x \<in> {d, a, u}. \<not> in_range x PGSIZE b" for b using that by (simp add: memset_apply PGSIZE_def)
  have pages: "\<forall>x \<in> {d, a, u}. \<not> in_range x PGSIZE b" if "y \<in> set ps" "in_range y PGSIZE b" for y b
  proof -
    have y: "page_aligned y" "y \<noteq> d" "y \<noteq> a" "y \<noteq> u" using that(1) pm_inv_aligned [OF s3(2)] al(7) by auto
    show ?thesis using pages_apart [OF y(1) al(1) y(2) that(2)] pages_apart [OF y(1) al(3) y(3) that(2)] pages_apart [OF y(1) al(5) y(4) that(2)]
      by simp
  qed
  have pm3: "pm_inv (s3\<lparr>mem := ?m\<rparr>) ps" by (rule pm_inv_frame [OF s3(2)]) (use frame pages in auto)
  show ?thesis
  proof (rule that [where m = ?m and f = f3])
    show "alloc_queue s = (Inr (), s\<lparr>mem := ?m, freelist := f3, hw := zero_queue (hw s), disk_desc := d, disk_avail := a, disk_used := u,
        vlog := vlog s @ queue_setup d a u\<rparr>)"
      using s1(1) s2(1) s3(1) al unfolding alloc_queue_def set_queue_def R_set_def queue_setup_def upd_hw_def by (simp add: e NUM_def)
    show "pm_inv (s\<lparr>mem := ?m, freelist := f3\<rparr>) ps" using pm3 by (simp add: e pm_inv_def)
    show "?m b = mem s b" if "\<forall>x \<in> {d, a, u}. \<not> in_range x PGSIZE b" for b
      using frame [OF that] s1(4) s2(4) s3(4) that by simp
  qed
qed

lemma free_all_run: "kfor is (\<lambda>i. kmod (\<lambda>s. s\<lparr>vfree := (vfree s)(i := True)\<rparr>)) s = (Inr (), s\<lparr>vfree := (\<lambda>i. i \<in> set is \<or> vfree s i)\<rparr>)"
proof (induction "is" arbitrary: s)
  case (Cons i "is")
  have "(\<lambda>j. j \<in> set is \<or> ((vfree s)(i := True)) j) = (\<lambda>j. j \<in> set (i # is) \<or> vfree s j)" by auto
  then show ?case using Cons by simp
qed simp

lemma initlock_fresh: "initlock u n = kmod (u (\<lambda>_. fresh_lock n))"
  by (simp add: initlock_def fresh_lock_def)

text \<open>All of \<^verbatim>\<open>virtio_disk_init\<close>: the state it leaves.\<close>

definition disk_up :: "addr \<Rightarrow> addr \<Rightarrow> addr \<Rightarrow> phys \<Rightarrow> addr \<Rightarrow> ('a) kboot_scheme \<Rightarrow> ('a) kboot_scheme" where
  "disk_up d a u m f s = shown (map of_char ''virtio_disk init done\<newline>'')
     (s\<lparr>vdisk_lock := fresh_lock ''virtio_disk'', mem := m, freelist := f, hw := zero_queue (hw s), disk_desc := d, disk_avail := a, disk_used := u,
       vfree := (\<lambda>i. i < NUM \<or> vfree s i),
       interrupt_vector := (interrupt_vector s)(VIRTIO0_IRQ := fn_virtio_disk_intr s),
       mmio := (mmio s)(PLIC_ENABLE := mmio s PLIC_ENABLE OR push_bit VIRTIO0_IRQ 1),
       vlog := agreed s @ [(VIRTIO_MMIO_QUEUE_SEL, 0)] @ queue_setup d a u @ [(VIRTIO_MMIO_STATUS, dev_status s OR 4)]\<rparr>)"

lemma lock_device [simp]:
  "feats (s\<lparr>vdisk_lock := l\<rparr>) = feats s" "agreed (s\<lparr>vdisk_lock := l\<rparr>) = agreed s" "dev_status (s\<lparr>vdisk_lock := l\<rparr>) = dev_status s"
  by (simp_all add: feats_def agreed_def dev_status_def)

lemma virtio_disk_init_run:
  fixes s :: "('a) kboot_scheme"
  assumes dev: "usable s" and pm: "pm_inv s (d # a # u # ps)" and c: "cons_ok s"
  obtains m f where "virtio_disk_init s = (Inr (), disk_up d a u m f s)" and "pm_inv (disk_up d a u m f s) ps"
    and "\<And>b. \<forall>x \<in> {d, a, u}. \<not> in_range x PGSIZE b \<Longrightarrow> m b = mem s b"
proof -
  let ?s0 = "s\<lparr>vdisk_lock := fresh_lock ''virtio_disk''\<rparr>"
  let ?w = "agreed s @ [(VIRTIO_MMIO_QUEUE_SEL, 0)]"
  let ?s1 = "?s0\<lparr>vlog := ?w\<rparr>"
  have rd: "found (vread s (vlog s))" "dev_status s AND 8 \<noteq> 0" "vread s ?w VIRTIO_MMIO_QUEUE_READY = 0" "\<not> vread s ?w VIRTIO_MMIO_QUEUE_NUM_MAX < 16"
      "vread s ?w VIRTIO_MMIO_QUEUE_NUM_MAX \<noteq> 0"
    using dev by (auto simp: usable_def)
  have "pm_inv ?s1 (d # a # u # ps)" using pm by (simp add: pm_inv_def)
  then obtain m f where q: "alloc_queue ?s1 = (Inr (), ?s1\<lparr>mem := m, freelist := f, hw := zero_queue (hw s), disk_desc := d, disk_avail := a,
        disk_used := u, vlog := ?w @ queue_setup d a u\<rparr>)"
      "pm_inv (?s1\<lparr>mem := m, freelist := f\<rparr>) ps" "\<And>b. \<forall>x \<in> {d, a, u}. \<not> in_range x PGSIZE b \<Longrightarrow> m b = mem s b"
    by (rule alloc_queue_run) (simp add: that)
  have p: "kprintf (cstr ''virtio_disk init done\<newline>'') [] t = (Inr (), shown (map of_char ''virtio_disk init done\<newline>'') t)"
    if "cons_ok t" for t :: "('a) kboot_scheme" using that by (intro kprintf_plain) simp_all
  show ?thesis
  proof (rule that [of m f])
    show "virtio_disk_init s = (Inr (), disk_up d a u m f s)"
      unfolding virtio_disk_init_def initlock_fresh using q(1) rd c
      by (simp add: negotiate_run R_get_def R_set_def free_all_run p NUM_def register_interrupt_def enable_interrupts_def plic_enable_def
        write32_def read32_def disk_up_def status_bits PLIC_ENABLE_def PLIC_def VIRTIO0_IRQ_def MAX_IRQ_def)
  qed (use q(2,3) in \<open>simp_all add: pm_inv_def disk_up_def shown_def\<close>)
qed

text \<open>Otherwise it panics before a page is taken and before the device is told that the driver is ready.\<close>

lemma virtio_disk_init_panics:
  assumes "\<not> usable s"
  obtains msg w where "virtio_disk_init s = (Inl (Panic msg), s\<lparr>vdisk_lock := fresh_lock ''virtio_disk'', vlog := vlog s @ w\<rparr>)"
    and "\<And>v. (VIRTIO_MMIO_QUEUE_READY, v) \<notin> set w" and "\<And>v. (VIRTIO_MMIO_STATUS, v) \<in> set w \<Longrightarrow> v AND 4 = 0"
proof -
  let ?w = "agreed s @ [(VIRTIO_MMIO_QUEUE_SEL, 0)]" and ?l = "fresh_lock ''virtio_disk''"
  let ?h = "handshake (offered (feats s))"
  have h: "\<And>v. (VIRTIO_MMIO_QUEUE_READY, v) \<notin> set (?h @ [(VIRTIO_MMIO_QUEUE_SEL, 0)])"
      "\<And>v. (VIRTIO_MMIO_STATUS, v) \<in> set (?h @ [(VIRTIO_MMIO_QUEUE_SEL, 0)]) \<Longrightarrow> v AND 4 = 0"
    by (auto simp: handshake_def reg_defs)
  consider (none) "\<not> found (vread s (vlog s))" | (feat) "found (vread s (vlog s))" "dev_status s AND 8 = 0"
    | (queue) "found (vread s (vlog s))" "dev_status s AND 8 \<noteq> 0" "queue_reg s VIRTIO_MMIO_QUEUE_READY \<noteq> 0 \<or> queue_reg s VIRTIO_MMIO_QUEUE_NUM_MAX < 16"
    using assms unfolding usable_def by (metis not_le)
  then show ?thesis
  proof cases
    case none
    then have "virtio_disk_init s = (Inl (Panic ''could not find virtio disk''), s\<lparr>vdisk_lock := ?l, vlog := vlog s @ []\<rparr>)"
      by (simp add: virtio_disk_init_def initlock_fresh negotiate_run)
    then show ?thesis by (rule that) simp_all
  next
    case feat
    then have "virtio_disk_init s = (Inl (Panic ''virtio disk FEATURES_OK unset''), s\<lparr>vdisk_lock := ?l, vlog := vlog s @ ?h\<rparr>)"
      by (simp add: virtio_disk_init_def initlock_fresh negotiate_run agreed_def)
    then show ?thesis by (rule that) (use h in auto)
  next
    case queue
    have "\<exists>msg. virtio_disk_init s = (Inl (Panic msg), s\<lparr>vdisk_lock := ?l, vlog := vlog s @ ?h @ [(VIRTIO_MMIO_QUEUE_SEL, 0)]\<rparr>)"
      using queue by (simp add: virtio_disk_init_def initlock_fresh negotiate_run R_get_def R_set_def agreed_def NUM_def)
    then show ?thesis using that h by blast
  qed
qed

section \<open>From the disk to the cache\<close>

text \<open>The variables of the driver and of the cache as the loader leaves them: zero.\<close>

definition bss_disk :: "('a) kdisk_scheme \<Rightarrow> bool" where
  "bss_disk s \<longleftrightarrow> info_b s = (\<lambda>_. None) \<and> used_idx s = 0 \<and>
     (\<forall>b < NBUF. bdev (bufs s b) = 0 \<and> blockno (bufs s b) = 0 \<and> refcnt (bufs s b) = 0 \<and> \<not> bdisk (bufs s b))"

lemma cache_starts:
  assumes q: "quiet s p" and g: "good_dev (vdev s)" and v: "vq_idle s"
    and z: "\<forall>b < NBUF. bdev (bufs s b) = 0 \<and> blockno (bufs s b) = 0 \<and> refcnt (bufs s b) = 0 \<and> \<not> bdisk (bufs s b)"
  obtains bs where "binit s = (Inr (), s\<lparr>bcache_lock := fresh_lock ''bcache'', bufs := bs\<rparr>)" and "cache_inv (s\<lparr>bcache_lock := fresh_lock ''bcache'', bufs := bs\<rparr>) p"
proof -
  obtain bs where bs: "binit s = (Inr (), s\<lparr>bcache_lock := fresh_lock ''bcache'', bufs := bs\<rparr>)" "lru_list bs (rev [0..<NBUF])"
      "\<And>i. i < NBUF \<Longrightarrow> block_lock (bs i) = fresh_sleeplock ''buffer'' \<and> bdisk (bs i) = bdisk (bufs s i) \<and>
        bdev (bs i) = bdev (bufs s i) \<and> blockno (bs i) = blockno (bufs s i) \<and> refcnt (bs i) = refcnt (bufs s i)"
    using binit_run [of s] by blast
  let ?s = "s\<lparr>bcache_lock := fresh_lock ''bcache'', bufs := bs\<rparr>"
  have "BioSpec.buf_ok ?s p b" if "b < NBUF" for b
    using bs(3) [OF that] z that by (simp add: BioSpec.buf_ok_def Let_def fresh_sleeplock_def fresh_lock_def key_def ROOTDEV_def)
  moreover have "one_buf ?s" using bs(3) z by (auto simp: one_buf_def ROOTDEV_def)
  moreover have "quiet ?s p" "vq_idle ?s" "lock_idle (bcache_lock ?s)" using q v by (simp_all add: lock_idle_def fresh_lock_def quiet_def vq_idle_def)
  ultimately have "cache_inv ?s p" using bs(2) g by (auto simp: cache_inv_def)
  then show ?thesis using bs(1) that by blast
qed

text \<open>C11. Disk and cache at boot. On a device it can use, \<^verbatim>\<open>virtio_disk_init\<close> followed by \<^verbatim>\<open>binit\<close> returns in a state in which the request
  queue is idle and the buffer cache satisfies the invariant all file-system operations rely on; three free pages, zeroed, are the
  queue, the register writes are those of the virtio handshake in order, the interrupt handler is registered and no block of the disk
  has changed. On any other device the kernel panics before a page is taken and before the device is told that queue or driver
  are ready.\<close>

theorem disk_and_cache_start:
  fixes s :: "('a) kboot_scheme"
  assumes "pm_inv s (d # a # u # ps)" and "cons_ok s" and "quiet s p" and "good_dev (vdev s)" and "bss_disk s"
  shows "if usable s
    then \<exists>s'. kseq virtio_disk_init binit s = (Inr (), s') \<and> cache_inv s' p \<and> pm_inv s' ps \<and>
      disk_desc s' = d \<and> disk_avail s' = a \<and> disk_used s' = u \<and> platter (hw s') = platter (hw s) \<and>
      vlog s' = vlog s @ handshake (offered (feats s)) @ [(VIRTIO_MMIO_QUEUE_SEL, 0)] @ queue_setup d a u @ [(VIRTIO_MMIO_STATUS, dev_status s OR 4)] \<and>
      interrupt_vector s' VIRTIO0_IRQ = fn_virtio_disk_intr s \<and>
      (\<forall>b. (\<forall>x \<in> {d, a, u}. \<not> in_range x PGSIZE b) \<longrightarrow> mem s' b = mem s b)
    else \<exists>msg w. virtio_disk_init s = (Inl (Panic msg), s\<lparr>vdisk_lock := fresh_lock ''virtio_disk'', vlog := vlog s @ w\<rparr>) \<and>
      (\<forall>v. (VIRTIO_MMIO_QUEUE_READY, v) \<notin> set w \<and> ((VIRTIO_MMIO_STATUS, v) \<in> set w \<longrightarrow> v AND 4 = 0))"
proof (cases "usable s")
  case True
  obtain m f where v: "virtio_disk_init s = (Inr (), disk_up d a u m f s)" "pm_inv (disk_up d a u m f s) ps"
      "\<And>b. \<forall>x \<in> {d, a, u}. \<not> in_range x PGSIZE b \<Longrightarrow> m b = mem s b"
    by (rule virtio_disk_init_run [OF True assms(1,2)]) (rule that)
  let ?s = "disk_up d a u m f s"
  have "quiet ?s p" "good_dev (vdev ?s)" using assms(3,4) by (simp_all add: quiet_def disk_up_def shown_def)
  moreover have "vq_idle ?s"
    using assms(5) by (simp add: vq_idle_def bss_disk_def disk_up_def shown_def zero_queue_def fresh_lock_def)
  moreover have "\<forall>b < NBUF. bdev (bufs ?s b) = 0 \<and> blockno (bufs ?s b) = 0 \<and> refcnt (bufs ?s b) = 0 \<and> \<not> bdisk (bufs ?s b)"
    using assms(5) by (simp add: bss_disk_def disk_up_def shown_def)
  ultimately obtain bs where b: "binit ?s = (Inr (), ?s\<lparr>bcache_lock := fresh_lock ''bcache'', bufs := bs\<rparr>)"
      "cache_inv (?s\<lparr>bcache_lock := fresh_lock ''bcache'', bufs := bs\<rparr>) p"
    by (rule cache_starts) (rule that)
  have "kseq virtio_disk_init binit s = (Inr (), ?s\<lparr>bcache_lock := fresh_lock ''bcache'', bufs := bs\<rparr>)" using v(1) b(1) by simp
  then show ?thesis using True b(2) v(2,3)
    by (simp only: if_True, intro exI conjI) (assumption | simp add: pm_inv_def disk_up_def shown_def zero_queue_def agreed_def)+
next
  case False
  obtain msg w where "virtio_disk_init s = (Inl (Panic msg), s\<lparr>vdisk_lock := fresh_lock ''virtio_disk'', vlog := vlog s @ w\<rparr>)"
      "\<And>v. (VIRTIO_MMIO_QUEUE_READY, v) \<notin> set w" "\<And>v. (VIRTIO_MMIO_STATUS, v) \<in> set w \<Longrightarrow> v AND 4 = 0"
    by (rule virtio_disk_init_panics [OF False]) (rule that)
  then show ?thesis using False by auto
qed

section \<open>Start\<close>

lemma kstep: "m s = (Inr (), s') \<Longrightarrow> n s' = r \<Longrightarrow> kseq m n s = r"
  by simp

text \<open>Between the end of a kernel image below \<open>0x87F4D000\<close> and the end of memory there are at least 179 pages.\<close>

lemma pages_above:
  assumes "set ps = {x. page_ok e x}" and "e \<le> 0x87F4D000"
  shows "179 \<le> length ps"
proof -
  let ?q = "map (nth_page 0x87F4D000) [0..<179]"
  have u: "unat (nth_page 0x87F4D000 k) = 0x87F4D000 + 4096 * k" if "k < 179" for k using that by (subst unat_nth_page) simp_all
  have "page_ok e (nth_page 0x87F4D000 k)" if "k < 179" for k
    using u [OF that] that assms(2) by (simp add: page_ok_def PGSIZE_def word_le_nat_alt word_less_nat_alt PHYSTOP_eq mod_add_left_eq)
  then have sub: "set ?q \<subseteq> set ps" using assms(1) by auto
  have "inj_on (nth_page 0x87F4D000) {0..<179}" 
    by (rule inj_on_imageI2 [of unat]) (simp add: inj_on_def u)
  then have "card (set ?q) = 179" by (simp add: card_image)
  then show ?thesis using card_mono [OF _ sub] card_length [of ps] by simp
qed

lemma pages_above_image:
  assumes "pm_inv s ps" and "b < ld_end s" and "x \<in> set ps"
  shows "\<not> in_range x PGSIZE b"
proof -
  have "ld_end s \<le> x" "x < PHYSTOP" using assms(1,3) by (auto simp: pm_inv_def page_ok_def)
  then have "unat x + PGSIZE \<le> 2 ^ 64" "unat b < unat x" using assms(2) by (simp_all add: word_le_nat_alt word_less_nat_alt PHYSTOP_eq PGSIZE_def)
  then show ?thesis by (simp add: in_range_nat)
qed

text \<open>An allocation leaves a table apart from the free pages as it is.\<close>

lemma alloc_apart:
  assumes vm: "vm_inv s 2 pt (x # xs)"
  obtains m f where "alloc_page s = (Inr x, s\<lparr>mem := m, freelist := f\<rparr>)" and "x \<noteq> 0" and "vm_inv (s\<lparr>mem := m, freelist := f\<rparr>) 2 pt xs"
    and "pt_map m 2 pt = pt_map (mem s) 2 pt" and "\<And>b. \<not> in_range x PGSIZE b \<Longrightarrow> m b = mem s b"
proof -
  have v: "pm_inv s (x # xs)" "pt_wf (mem s) 2 pt" "pt_tabs (mem s) 2 pt \<inter> set (x # xs) = {}" using vm by (simp_all only: vm_inv_def)
  have x: "page_aligned x" "x \<noteq> 0" using pm_inv_aligned [OF v(1), of x] by simp_all
  obtain s1 where s1: "alloc_page s = (Inr x, s1)" "pm_inv s1 xs" "same_rest s s1" "\<And>b. \<not> in_range x PGSIZE b \<Longrightarrow> mem s1 b = mem s b"
    by (rule alloc_page_same [OF v(1)]) (rule that)
  have "pt_tabs (mem s1) 2 pt = pt_tabs (mem s) 2 pt \<and> pt_wf (mem s1) 2 pt \<and> pt_map (mem s1) 2 pt = pt_map (mem s) 2 pt"
  proof (rule pt_frame [OF v(2)])
    fix y b assume y: "y \<in> pt_tabs (mem s) 2 pt" "in_range y PGSIZE b"
    have "y \<noteq> x" using y(1) v(3) by auto
    then show "mem s1 b = mem s b" using s1(4) pages_apart [OF conjunct1 [OF pt_tabs_aligned [OF v(2) y(1)]] x(1) _ y(2)] by simp
  qed
  moreover obtain m f where e: "s1 = s\<lparr>mem := m, freelist := f\<rparr>" using s1(3) by (auto simp: same_rest_def)
  ultimately show ?thesis using s1 v(3) x(2) by (intro that [where m = m and f = f]) (auto simp: vm_inv_def)
qed

lemma init_procs_run:
  fixes s :: "('a) kproc_scheme"
  assumes "vm_inv s 2 pt ps" and "length is \<le> length ps"
  obtains m f g where "kfor is (\<lambda>i. kbind alloc_page (\<lambda>pg.
       if pg = 0 then panic ''init_proc: alloc_page failed for proc_table''
       else kseq (kmod (\<lambda>s. s\<lparr>proc_table_mem := (proc_table_mem s)(i := pg)\<rparr>)) (kmod (upd_proc i (\<lambda>_. zero_proc))))) s
     = (Inr (), s\<lparr>mem := m, freelist := f, proc_table_mem := g, proc_table := (\<lambda>i. if i \<in> set is then zero_proc else proc_table s i)\<rparr>)"
    and "vm_inv (s\<lparr>mem := m, freelist := f\<rparr>) 2 pt (drop (length is) ps)" and "pt_map m 2 pt = pt_map (mem s) 2 pt"
    and "\<And>b. \<forall>x \<in> set ps. \<not> in_range x PGSIZE b \<Longrightarrow> m b = mem s b"
  using assms
proof (induction "is" arbitrary: s ps thesis)
  case Nil
  show ?case by (rule Nil(1) [where m = "mem s" and f = "freelist s" and g = "proc_table_mem s"]) (use Nil(2) in simp_all)
next
  case (Cons i "is")
  obtain x xs where ps: "ps = x # xs" using Cons.prems(3) by (cases ps) auto
  obtain m f where a: "alloc_page s = (Inr x, s\<lparr>mem := m, freelist := f\<rparr>)" "x \<noteq> 0" "vm_inv (s\<lparr>mem := m, freelist := f\<rparr>) 2 pt xs"
      "pt_map m 2 pt = pt_map (mem s) 2 pt" "\<And>b. \<not> in_range x PGSIZE b \<Longrightarrow> m b = mem s b"
    using Cons.prems(2) unfolding ps by (rule alloc_apart) (rule that)
  let ?s = "s\<lparr>mem := m, freelist := f, proc_table_mem := (proc_table_mem s)(i := x), proc_table := (proc_table s)(i := zero_proc)\<rparr>"
  have vm: "vm_inv ?s 2 pt xs" using a(3) by (simp add: vm_inv_def pm_inv_def)
  have len: "length is \<le> length xs" using Cons.prems(3) ps by simp
  obtain m' f' g where r: "kfor is (\<lambda>i. kbind alloc_page (\<lambda>pg.
       if pg = 0 then panic ''init_proc: alloc_page failed for proc_table''
       else kseq (kmod (\<lambda>s. s\<lparr>proc_table_mem := (proc_table_mem s)(i := pg)\<rparr>)) (kmod (upd_proc i (\<lambda>_. zero_proc))))) ?s
     = (Inr (), ?s\<lparr>mem := m', freelist := f', proc_table_mem := g, proc_table := (\<lambda>j. if j \<in> set is then zero_proc else proc_table ?s j)\<rparr>)"
      "vm_inv (?s\<lparr>mem := m', freelist := f'\<rparr>) 2 pt (drop (length is) xs)" "pt_map m' 2 pt = pt_map (mem ?s) 2 pt"
      "\<And>b. \<forall>x \<in> set xs. \<not> in_range x PGSIZE b \<Longrightarrow> m' b = mem ?s b"
    by (rule Cons.IH [OF _ vm len]) (rule that)
  have t: "(\<lambda>j. if j \<in> set is then zero_proc else ((proc_table s)(i := zero_proc)) j) = (\<lambda>j. if j \<in> set (i # is) then zero_proc else proc_table s j)"
    by auto
  show ?case
  proof (rule Cons.prems(1) [where m = m' and f = f' and g = g])
    show "kfor (i # is) (\<lambda>i. kbind alloc_page (\<lambda>pg.
       if pg = 0 then panic ''init_proc: alloc_page failed for proc_table''
       else kseq (kmod (\<lambda>s. s\<lparr>proc_table_mem := (proc_table_mem s)(i := pg)\<rparr>)) (kmod (upd_proc i (\<lambda>_. zero_proc))))) s
     = (Inr (), s\<lparr>mem := m', freelist := f', proc_table_mem := g, proc_table := (\<lambda>j. if j \<in> set (i # is) then zero_proc else proc_table s j)\<rparr>)"
      using a(1,2) r(1) unfolding t [symmetric] by (simp add: upd_proc_def cong: if_cong)
  qed (use r(2-4) a(4,5) ps in \<open>auto simp: vm_inv_def pm_inv_def\<close>)
qed

lemma init_proc_run:
  fixes s :: "('a) kproc_scheme"
  assumes "vm_inv s 2 pt ps" and "PROC \<le> length ps"
  obtains m f g where "init_proc s = (Inr (), s\<lparr>mem := m, freelist := f, proc_table_mem := g,
      proc_table := (\<lambda>i. if i < PROC then zero_proc else proc_table s i), proc_table_pages := PROC\<rparr>)"
    and "vm_inv (s\<lparr>mem := m, freelist := f\<rparr>) 2 pt (drop PROC ps)" and "pt_map m 2 pt = pt_map (mem s) 2 pt"
    and "\<And>b. \<forall>x \<in> set ps. \<not> in_range x PGSIZE b \<Longrightarrow> m b = mem s b"
proof -
  have "length [0..<PROC] \<le> length ps" using assms(2) by simp
  note r = init_procs_run [OF assms(1) this]
  show ?thesis by (rule r) (auto intro!: that simp: init_proc_def)
qed

text \<open>The first kernel process: entry 0 of an empty table.\<close>

definition main_proc :: "addr \<Rightarrow> addr \<Rightarrow> addr \<Rightarrow> u64 \<Rightarrow> u64 \<Rightarrow> trapframe \<Rightarrow> proc" where
  "main_proc tf pt ks fork entry t = zero_proc\<lparr>pid := 0, pstate := RUNNABLE, trapframe_ptr := tf, tframe := t(Tf_epc := entry), pagetable := pt,
     kstack := ks, pcontext := \<lparr>ctx_ra = fork, ctx_sp = ks + of_nat PGSIZE - 16, ctx_s = (\<lambda>_. 0)\<rparr>\<rparr>"

lemma first_proc_run:
  fixes s :: "('a) kproc_scheme"
  assumes vm: "vm_inv s 2 (kernel_pagetable s) (tf # ks # ps)" and tab: "\<forall>i < PROC. proc_table s i = zero_proc" and cur: "current_proc s = None"
  obtains m f t where "create_kernel_proc depth entry s = (Inr 0, s\<lparr>mem := m, freelist := f,
      proc_table := (proc_table s)(0 := main_proc tf (kernel_pagetable s) ks (fn_forkret s) entry t)\<rparr>)"
    and "vm_inv (s\<lparr>mem := m, freelist := f\<rparr>) 2 (kernel_pagetable s) ps" and "pt_map m 2 (kernel_pagetable s) = pt_map (mem s) 2 (kernel_pagetable s)"
    and "\<And>b. \<not> in_range tf PGSIZE b \<Longrightarrow> \<not> in_range ks PGSIZE b \<Longrightarrow> m b = mem s b"
proof -
  let ?k = "kernel_pagetable s"
  let ?u0 = "\<lambda>p. p\<lparr>pid := 0, cwd := None, pstate := USED, is_user := False\<rparr>"
  have z: "proc_table s 0 = zero_proc" using tab by (simp add: PROC_def)
  have "vm_inv (upd_proc 0 ?u0 s) 2 ?k (tf # ks # ps)" using vm by (simp add: vm_inv_def pm_inv_def upd_proc_def)
  then obtain m f where a: "alloc_page (upd_proc 0 ?u0 s) = (Inr tf, (upd_proc 0 ?u0 s)\<lparr>mem := m, freelist := f\<rparr>)" "tf \<noteq> 0"
      "vm_inv ((upd_proc 0 ?u0 s)\<lparr>mem := m, freelist := f\<rparr>) 2 ?k (ks # ps)"
      "pt_map m 2 ?k = pt_map (mem s) 2 ?k" "\<And>b. \<not> in_range tf PGSIZE b \<Longrightarrow> m b = mem s b"
    by (rule alloc_apart) (simp add: that upd_proc_def)
  let ?p = "zero_proc\<lparr>pid := 0, cwd := None, pstate := USED, is_user := False, trapframe_ptr := tf, tframe := load_tframe m tf, pagetable := ?k\<rparr>"
  let ?s1 = "s\<lparr>mem := m, freelist := f, proc_table := (proc_table s)(0 := ?p)\<rparr>"
  have "vm_inv ?s1 2 ?k (ks # ps)" using a(3) by (simp add: vm_inv_def pm_inv_def upd_proc_def)
  then obtain m' f' where b: "alloc_page ?s1 = (Inr ks, ?s1\<lparr>mem := m', freelist := f'\<rparr>)" "ks \<noteq> 0" "vm_inv (?s1\<lparr>mem := m', freelist := f'\<rparr>) 2 ?k ps"
      "pt_map m' 2 ?k = pt_map m 2 ?k" "\<And>b. \<not> in_range ks PGSIZE b \<Longrightarrow> m' b = m b"
    by (rule alloc_apart) (simp add: that)
  have find: "find_proc (proc_table s) (\<lambda>p. pstate p = UNUSED) [0..<PROC] = Some 0" using z by (simp add: PROC_def upt_rec zero_proc_def)
  show ?thesis
  proof (rule that [where m = m' and f = f' and t = "load_tframe m tf"])
    show "create_kernel_proc depth entry s = (Inr 0, s\<lparr>mem := m', freelist := f',
        proc_table := (proc_table s)(0 := main_proc tf ?k ks (fn_forkret s) entry (load_tframe m tf))\<rparr>)"
      using a(1,2) b(1,2) find cur
      by (simp add: create_kernel_proc_def alloc_proc_def alloc_proc_at_def adopt_def upd_proc_def z main_proc_def zero_proc_def cong: if_cong)
  qed (use a(4,5) b(3-5) in \<open>auto simp: vm_inv_def pm_inv_def\<close>)
qed

lemma kvminit_run:
  fixes s :: "('a) kvm_scheme"
  assumes "pm_inv s ps" and "\<not> user_running s" and "145 \<le> length ps" and "unat (ld_trampoline s) + PGSIZE \<le> unat (ld_end s)"
  obtains m f pt tr tf ps' where "kvminit s = (Inr (), s\<lparr>mem := m, freelist := f, trampoline_phys_addr := tr, trapframe_phys_addr := tf,
      kernel_pagetable := pt, satp := MAKE_SATP pt\<rparr>)" and "vm_inv (s\<lparr>mem := m, freelist := f\<rparr>) 2 pt ps'" and "length ps \<le> length ps' + 145"
    and "set ps' \<subseteq> set ps" and "\<And>va. low_page va \<Longrightarrow> pt_map m 2 pt va = kernel_map (ld_etext s) tr tf va"
    and "\<And>b. \<forall>x \<in> set ps. \<not> in_range x PGSIZE b \<Longrightarrow> m b = mem s b"
proof -
  obtain s' ps' pt tr tf where r: "kvmmake s = (Inr pt, s'\<lparr>trampoline_phys_addr := tr, trapframe_phys_addr := tf\<rparr>)"
      "kvm_inv s ps pt ps' s'" "length ps \<le> length ps' + 145" "{pt, tr, tf} \<subseteq> set ps"
      "\<And>va. low_page va \<Longrightarrow> pt_map (mem s') 2 pt va = kernel_map (ld_etext s) tr tf va"
      "\<And>b. in_range tr PGSIZE b \<Longrightarrow> mem s' b = mem s (ld_trampoline s + (b - tr))"
    using assms by (rule kvmmake_run) (rule that)
  obtain m f where e: "s' = s\<lparr>mem := m, freelist := f\<rparr>" using r(2) by (auto simp: kvm_inv_def same_rest_def)
  show ?thesis
    by (rule that [where m = m and f = f and pt = pt and tr = tr and tf = tf and ps' = ps'])
      (use r(1,2,3,5) e in \<open>auto simp: kvminit_def kvm_inv_def\<close>)
qed

lemma write32_run: "write32 a v s = (Inr (), s\<lparr>mmio := if a AND 3 = 0 then (mmio s)(a := v) else mmio s\<rparr>)"
  by (simp add: write32_def)

lemma write32s_run: "\<exists>m. kfor is (\<lambda>i. write32 (g i) v) s = (Inr (), s\<lparr>mmio := m\<rparr>)"
proof (induction "is" arbitrary: s)
  case Nil
  show ?case by (rule exI [of _ "mmio s"]) simp
next
  case (Cons i "is")
  then show ?case using Cons [of "s\<lparr>mmio := if g i AND 3 = 0 then (mmio s)(g i := v) else mmio s\<rparr>"] by (auto simp: write32_run)
qed

lemma trap_init_run:
  obtains m where "trap_init s = (Inr (), s\<lparr>stvec := fn_kernelvec s, interrupt_vector := (\<lambda>i. if i < MAX_IRQ then 0 else interrupt_vector s i),
      mmio := m, sie_csr := sie_csr s OR push_bit 5 1 OR push_bit 9 1, stimer := now s + TIMER_INTERVAL\<rparr>)"
    and "m PLIC_ENABLE = push_bit UART0_IRQ 1 OR push_bit VIRTIO0_IRQ 1"
proof -
  let ?s = "s\<lparr>stvec := fn_kernelvec s, interrupt_vector := (\<lambda>i. if i < MAX_IRQ then 0 else interrupt_vector s i)\<rparr>"
  obtain m where m: "kfor [1..<33] (\<lambda>i. write32 (PLIC + of_nat i * 4) 0) ?s = (Inr (), ?s\<lparr>mmio := m\<rparr>)" using write32s_run [of "[1..<33]" "\<lambda>i. PLIC + of_nat i * 4" 0 ?s] by blast
  let ?m = "m(PLIC + of_nat UART0_IRQ * 4 := 1, PLIC + of_nat VIRTIO0_IRQ * 4 := 1, PLIC_ENABLE := push_bit UART0_IRQ 1 OR push_bit VIRTIO0_IRQ 1, PLIC_THRESHOLD := 0)"
  have "plic_init ?s = (Inr (), ?s\<lparr>mmio := ?m\<rparr>)"
    unfolding plic_init_def by (rule kstep, rule m) (simp add: write32_run PLIC_def PLIC_ENABLE_def PLIC_THRESHOLD_def UART0_IRQ_def VIRTIO0_IRQ_def)
  then show ?thesis
    by (intro that [of ?m]) (simp_all add: trap_init_def set_next_tick_def PLIC_def PLIC_ENABLE_def PLIC_THRESHOLD_def cong: if_cong)
qed

lemma uart_init_run:
  assumes "cons_ok s"
  shows "uart_init s = (Inr (), shown (map of_char ''UART initialized with input support\<newline>'')
    (s\<lparr>uart_regs := (uart_regs s)(UART0 + FCR := 7, UART0 + IER := 1), interrupt_vector := (interrupt_vector s)(UART0_IRQ := fn_uart_intr s),
      mmio := (mmio s)(PLIC_ENABLE := mmio s PLIC_ENABLE OR push_bit UART0_IRQ 1)\<rparr>))"
proof -
  have "kprintf (cstr ''UART initialized with input support\<newline>'') [] t = (Inr (), shown (map of_char ''UART initialized with input support\<newline>'') t)"
    if "cons_ok t" for t :: "('a) kboot_scheme" using that by (intro kprintf_plain) simp_all
  then show ?thesis using assms
    by (simp add: uart_init_def WriteReg_def register_interrupt_def enable_interrupts_def plic_enable_def read32_def write32_def PLIC_ENABLE_def PLIC_def
      IER_def FCR_def UART0_IRQ_def MAX_IRQ_def UART0_def FCR_FIFO_ENABLE_def FCR_FIFO_CLEAR_def IER_RX_ENABLE_def fun_upd_twist)
qed

text \<open>What \<^verbatim>\<open>start\<close> prints.\<close>

definition banner :: "u8 list" where
  "banner = map of_char (''UART initialized with input support\<newline>'' @ ''===============================================\<newline>'' @
     ''        RISC-V Operating System v1.0         \<newline>'' @ ''===============================================\<newline>\<newline>'')"

text \<open>The state in which \<^verbatim>\<open>start\<close> calls \<^verbatim>\<open>init_proc\<close>: memory and its map, then devices, interrupts and console.\<close>

lemma start_devices:
  fixes s :: "('a) kboot_scheme"
  assumes "cons_ok s"
  obtains t where "kseq trap_init (kseq uart_init (kseq intr_on (kseq (kprintf (cstr ''===============================================\<newline>'') [])
      (kseq (kprintf (cstr ''        RISC-V Operating System v1.0         \<newline>'') [])
      (kseq (kprintf (cstr ''===============================================\<newline>\<newline>'') []) k))))) s = k t"
    and "mem t = mem s" "freelist t = freelist s" "ld_end t = ld_end s" "kernel_pagetable t = kernel_pagetable s" "proc_table t = proc_table s"
      "current_proc t = current_proc s" "satp t = satp s" "trampoline_phys_addr t = trampoline_phys_addr s" "trapframe_phys_addr t = trapframe_phys_addr s"
      "fn_forkret t = fn_forkret s" "fn_kernel_main t = fn_kernel_main s"
    and "sie t" "stvec t = fn_kernelvec s" "interrupt_vector t UART0_IRQ = fn_uart_intr s" "stimer t = now s + TIMER_INTERVAL"
      "uart_regs t (UART0 + IER) = IER_RX_ENABLE" "mmio t PLIC_ENABLE = push_bit UART0_IRQ 1 OR push_bit VIRTIO0_IRQ 1"
      "uart_out (kcons t) = pending (kcons s) @ banner" "printf_buffer (kcons t) = []"
proof -
  obtain m where tr: "trap_init s = (Inr (), s\<lparr>stvec := fn_kernelvec s, interrupt_vector := (\<lambda>i. if i < MAX_IRQ then 0 else interrupt_vector s i),
      mmio := m, sie_csr := sie_csr s OR push_bit 5 1 OR push_bit 9 1, stimer := now s + TIMER_INTERVAL\<rparr>)"
      "m PLIC_ENABLE = push_bit UART0_IRQ 1 OR push_bit VIRTIO0_IRQ 1"
    by (rule trap_init_run [of s]) (rule that)
  let ?s1 = "s\<lparr>stvec := fn_kernelvec s, interrupt_vector := (\<lambda>i. if i < MAX_IRQ then 0 else interrupt_vector s i),
      mmio := m, sie_csr := sie_csr s OR push_bit 5 1 OR push_bit 9 1, stimer := now s + TIMER_INTERVAL\<rparr>"
  let ?s2 = "shown (map of_char ''UART initialized with input support\<newline>'')
    (?s1\<lparr>uart_regs := (uart_regs s)(UART0 + FCR := 7, UART0 + IER := 1), interrupt_vector := (interrupt_vector ?s1)(UART0_IRQ := fn_uart_intr s),
      mmio := m(PLIC_ENABLE := m PLIC_ENABLE OR push_bit UART0_IRQ 1)\<rparr>)"
  have u: "uart_init ?s1 = (Inr (), ?s2)" using uart_init_run [of ?s1] assms by simp
  let ?t = "shown (map of_char ''===============================================\<newline>\<newline>'')
    (shown (map of_char ''        RISC-V Operating System v1.0         \<newline>'')
      (shown (map of_char ''===============================================\<newline>'') (?s2\<lparr>sie := True\<rparr>)))"
  have p: "kprintf (cstr ''===============================================\<newline>'') [] r = (Inr (), shown (map of_char ''===============================================\<newline>'') r)"
      "kprintf (cstr ''        RISC-V Operating System v1.0         \<newline>'') [] r = (Inr (), shown (map of_char ''        RISC-V Operating System v1.0         \<newline>'') r)"
      "kprintf (cstr ''===============================================\<newline>\<newline>'') [] r = (Inr (), shown (map of_char ''===============================================\<newline>\<newline>'') r)"
    if "cons_ok r" for r :: "('a) kboot_scheme" using that by (intro kprintf_plain; simp)+
  have io: "intr_on r = (Inr (), r\<lparr>sie := True\<rparr>)" for r :: "('a) kboot_scheme" by (simp add: intr_on_def)
  have ok: "cons_ok (?s2\<lparr>sie := True\<rparr>)" by (simp add: shown_def Format.buf_ok_def PRINTF_BUFFER_SIZE_def)
  show ?thesis
  proof (rule that [of ?t])
    show "kseq trap_init (kseq uart_init (kseq intr_on (kseq (kprintf (cstr ''===============================================\<newline>'') [])
      (kseq (kprintf (cstr ''        RISC-V Operating System v1.0         \<newline>'') [])
      (kseq (kprintf (cstr ''===============================================\<newline>\<newline>'') []) k))))) s = k ?t"
      by (rule kstep, rule tr(1), rule kstep, rule u, rule kstep, rule io, rule kstep, rule p(1) [OF ok],
        rule kstep, rule p(2) [OF shown_ok], rule kstep, rule p(3) [OF shown_ok], rule refl)
    show "mmio ?t PLIC_ENABLE = push_bit UART0_IRQ 1 OR push_bit VIRTIO0_IRQ 1" using tr(2) by (simp add: shown_def UART0_IRQ_def VIRTIO0_IRQ_def)
    show "uart_out (kcons ?t) = pending (kcons s) @ banner" by (simp add: shown_def banner_def pending_def)
  qed (simp_all add: shown_def IER_RX_ENABLE_def IER_def FCR_def)
qed

text \<open>The memory part: allocator and paging.\<close>

lemma start_memory:
  fixes s :: "('a) kboot_scheme"
  assumes reset: "freelist s = 0" "0 < ld_end s" "ld_end s \<le> 0x87F4D000" "current_proc s = None"
    and tramp: "unat (ld_trampoline s) + PGSIZE \<le> unat (ld_end s)"
  obtains m f pt tr tf ps where "kseq pmm_init (kseq kvminit k) s = k (s\<lparr>mem := m, freelist := f, trampoline_phys_addr := tr, trapframe_phys_addr := tf,
      kernel_pagetable := pt, satp := MAKE_SATP pt\<rparr>)" and "vm_inv (s\<lparr>mem := m, freelist := f\<rparr>) 2 pt ps" and "34 \<le> length ps"
    and "\<And>va. low_page va \<Longrightarrow> pt_map m 2 pt va = kernel_map (ld_etext s) tr tf va"
    and "\<And>b. b < ld_end s \<Longrightarrow> m b = mem s b \<and> (\<forall>x \<in> set ps. \<not> in_range x PGSIZE b)"
proof -
  have top: "ld_end s \<le> PHYSTOP" using reset(3) by (rule order_trans) (simp add: PHYSTOP_eq)
  obtain s1 ps where p: "pmm_init s = (Inr (), s1)" "pm_inv s1 ps" "set ps = {x. page_ok (ld_end s) x}" "s1 = s\<lparr>mem := mem s1, freelist := freelist s1\<rparr>"
      "\<And>a. a < ld_end s \<Longrightarrow> mem s1 a = mem s a"
    by (rule pmm_init_run [OF reset(1,2) top]) (rule that)
  obtain m1 f1 where s1: "s1 = s\<lparr>mem := m1, freelist := f1\<rparr>" using p(4) by blast
  have len: "179 \<le> length ps" by (rule pages_above [OF p(3) reset(3)])
  have k: "\<not> user_running s1" "145 \<le> length ps" "unat (ld_trampoline s1) + PGSIZE \<le> unat (ld_end s1)"
    using len tramp reset(4) by (simp_all add: user_running_def s1)
  obtain m f pt tr tf ps' where v: "kvminit s1 = (Inr (), s1\<lparr>mem := m, freelist := f, trampoline_phys_addr := tr, trapframe_phys_addr := tf,
        kernel_pagetable := pt, satp := MAKE_SATP pt\<rparr>)" "vm_inv (s1\<lparr>mem := m, freelist := f\<rparr>) 2 pt ps'" "length ps \<le> length ps' + 145" "set ps' \<subseteq> set ps"
      "\<And>va. low_page va \<Longrightarrow> pt_map m 2 pt va = kernel_map (ld_etext s1) tr tf va" "\<And>b. \<forall>x \<in> set ps. \<not> in_range x PGSIZE b \<Longrightarrow> m b = mem s1 b"
    by (rule kvminit_run [OF p(2) k]) (rule that)
  have low: "m b = mem s b \<and> (\<forall>x \<in> set ps'. \<not> in_range x PGSIZE b)" if "b < ld_end s" for b
  proof -
    have "\<forall>x \<in> set ps. \<not> in_range x PGSIZE b" using pages_above_image [OF p(2)] that by (simp add: s1)
    then show ?thesis using v(4,6) p(5) [OF that] by auto
  qed
  have "kseq pmm_init (kseq kvminit k) s = k (s\<lparr>mem := m, freelist := f, trampoline_phys_addr := tr, trapframe_phys_addr := tf,
      kernel_pagetable := pt, satp := MAKE_SATP pt\<rparr>)"
    by (rule kstep, rule p(1), rule kstep, rule v(1)) (simp add: s1)
  then show ?thesis
  proof (rule that)
    show "34 \<le> length ps'" using v(3) len by simp
    show "\<And>b. b < ld_end s \<Longrightarrow> m b = mem s b \<and> (\<forall>x \<in> set ps'. \<not> in_range x PGSIZE b)" by (rule low)
  qed (use v(2,5) in \<open>simp_all add: s1\<close>)
qed

text \<open>The process part.\<close>

lemma start_process:
  fixes t :: "('a) kboot_scheme"
  assumes vm: "vm_inv t 2 (kernel_pagetable t) ps" and len: "34 \<le> length ps" and cur: "current_proc t = None"
  obtains m f g tf ks tt qs where "kseq init_proc (kbind (kget fn_kernel_main) (\<lambda>f. kbind (create_kernel_proc depth f) (\<lambda>main_pid.
       if main_pid < 0 then panic ''START: create main process failed!\<newline>'' else kret ()))) t =
      (Inr (), t\<lparr>mem := m, freelist := f, proc_table_mem := g, proc_table_pages := PROC, proc_table :=
        (\<lambda>i. if i < PROC then zero_proc else proc_table t i)(0 := main_proc tf (kernel_pagetable t) ks (fn_forkret t) (fn_kernel_main t) tt)\<rparr>)"
    and "vm_inv (t\<lparr>mem := m, freelist := f\<rparr>) 2 (kernel_pagetable t) qs" and "pt_map m 2 (kernel_pagetable t) = pt_map (mem t) 2 (kernel_pagetable t)"
    and "\<And>b. \<forall>x \<in> set ps. \<not> in_range x PGSIZE b \<Longrightarrow> m b = mem t b"
proof -
  let ?k = "kernel_pagetable t"
  have "PROC \<le> length ps" using len by (simp add: PROC_def)
  with vm obtain m1 f1 g where i: "init_proc t = (Inr (), t\<lparr>mem := m1, freelist := f1, proc_table_mem := g,
      proc_table := (\<lambda>i. if i < PROC then zero_proc else proc_table t i), proc_table_pages := PROC\<rparr>)"
      "vm_inv (t\<lparr>mem := m1, freelist := f1\<rparr>) 2 ?k (drop PROC ps)" "pt_map m1 2 ?k = pt_map (mem t) 2 ?k"
      "\<And>b. \<forall>x \<in> set ps. \<not> in_range x PGSIZE b \<Longrightarrow> m1 b = mem t b"
    by (rule init_proc_run) (rule that)
  let ?t = "t\<lparr>mem := m1, freelist := f1, proc_table_mem := g, proc_table := (\<lambda>i. if i < PROC then zero_proc else proc_table t i), proc_table_pages := PROC\<rparr>"
  have "2 \<le> length (drop PROC ps)" using len by (simp add: PROC_def)
  then obtain tf ks qs where q: "drop PROC ps = tf # ks # qs" by (metis (no_types) One_nat_def Suc_1 Suc_le_length_iff)
  have sub: "{tf, ks} \<subseteq> set ps" using q by (metis insert_subset list.set_intros set_drop_subset subset_code(1) empty_subsetI)
  have vt: "vm_inv ?t 2 (kernel_pagetable ?t) (tf # ks # qs)" using i(2) q by (simp add: vm_inv_def pm_inv_def)
  have z: "\<forall>i < PROC. proc_table ?t i = zero_proc" "current_proc ?t = None" using cur by simp_all
  obtain m f tt where c: "create_kernel_proc depth (fn_kernel_main t) ?t = (Inr 0, ?t\<lparr>mem := m, freelist := f,
      proc_table := (proc_table ?t)(0 := main_proc tf (kernel_pagetable ?t) ks (fn_forkret ?t) (fn_kernel_main t) tt)\<rparr>)"
      "vm_inv (?t\<lparr>mem := m, freelist := f\<rparr>) 2 (kernel_pagetable ?t) qs" "pt_map m 2 (kernel_pagetable ?t) = pt_map (mem ?t) 2 (kernel_pagetable ?t)"
      "\<And>b. \<not> in_range tf PGSIZE b \<Longrightarrow> \<not> in_range ks PGSIZE b \<Longrightarrow> m b = mem ?t b"
    by (rule first_proc_run [OF vt z]) (rule that)
  show ?thesis
  proof (rule that [where m = m and f = f and g = g and tf = tf and ks = ks and tt = tt and qs = qs])
    show "kseq init_proc (kbind (kget fn_kernel_main) (\<lambda>f. kbind (create_kernel_proc depth f) (\<lambda>main_pid.
       if main_pid < 0 then panic ''START: create main process failed!\<newline>'' else kret ()))) t =
      (Inr (), t\<lparr>mem := m, freelist := f, proc_table_mem := g, proc_table_pages := PROC, proc_table :=
        (\<lambda>i. if i < PROC then zero_proc else proc_table t i)(0 := main_proc tf ?k ks (fn_forkret t) (fn_kernel_main t) tt)\<rparr>)"
      by (rule kstep, rule i(1)) (use c(1) in simp)
    show "m b = mem t b" if "\<forall>x \<in> set ps. \<not> in_range x PGSIZE b" for b using i(4) [OF that] c(4) [of b] sub that by auto
  qed (use c(2,3) i(3) in \<open>simp_all add: vm_inv_def pm_inv_def\<close>)
qed

text \<open>C5. Boot. From the reset state, with a kernel image that ends below \<open>0x87F4D000\<close>, \<^verbatim>\<open>start\<close> reaches the scheduler. Then paging is on with exactly
  the kernel's map; the process table is empty but for entry 0, a runnable kernel process that will enter \<^verbatim>\<open>kernel_main\<close> through
  \<^verbatim>\<open>forkret\<close> on a stack of its own; the remaining pages form a well-formed free list, apart from the kernel's table; traps
  go to \<^verbatim>\<open>kernelvec\<close>, the first tick is set, interrupts of UART and disk are enabled and the UART's handler is registered; the
  banner has been printed; memory below the end of the image is unchanged; and the first visit of the scheduler dispatches
  \<^verbatim>\<open>kernel_main\<close>'s process.\<close>

theorem start_boots:
  fixes s :: "('a) kboot_scheme"
  assumes reset: "freelist s = 0" "0 < ld_end s" "ld_end s \<le> 0x87F4D000" "current_proc s = None" "cons_ok s"
    and tramp: "unat (ld_trampoline s) + PGSIZE \<le> unat (ld_end s)"
  shows "\<exists>s' ps tf ks t. start depth s = (Inr (), s') \<and> vm_inv s' 2 (kernel_pagetable s') ps \<and> satp s' = MAKE_SATP (kernel_pagetable s') \<and>
    (\<forall>va. low_page va \<longrightarrow> pt_map (mem s') 2 (kernel_pagetable s') va = kernel_map (ld_etext s) (trampoline_phys_addr s') (trapframe_phys_addr s') va) \<and>
    proc_table s' 0 = main_proc tf (kernel_pagetable s') ks (fn_forkret s) (fn_kernel_main s) t \<and>
    (\<forall>i. 0 < i \<longrightarrow> i < PROC \<longrightarrow> proc_table s' i = zero_proc) \<and> sie s' \<and> stvec s' = fn_kernelvec s \<and> stimer s' = now s + TIMER_INTERVAL \<and>
    interrupt_vector s' UART0_IRQ = fn_uart_intr s \<and> uart_regs s' (UART0 + IER) = IER_RX_ENABLE \<and>
    mmio s' PLIC_ENABLE = push_bit UART0_IRQ 1 OR push_bit VIRTIO0_IRQ 1 \<and> uart_out (kcons s') = pending (kcons s) @ banner \<and>
    (\<forall>b < ld_end s. mem s' b = mem s b) \<and>
    current_proc s' = None \<and> current_proc (sched_visit 0 s') = Some 0 \<and> pstate (proc_table (sched_visit 0 s') 0) = RUNNING"
proof -
  let ?k = "kseq init_proc (kbind (kget fn_kernel_main) (\<lambda>f. kbind (create_kernel_proc depth f) (\<lambda>main_pid.
       if main_pid < 0 then panic ''START: create main process failed!\<newline>'' else kret ())))"
  let ?d = "kseq trap_init (kseq uart_init (kseq intr_on (kseq (kprintf (cstr ''===============================================\<newline>'') [])
      (kseq (kprintf (cstr ''        RISC-V Operating System v1.0         \<newline>'') [])
      (kseq (kprintf (cstr ''===============================================\<newline>\<newline>'') []) ?k)))))"
  obtain m f pt tr tf0 ps where v: "kseq pmm_init (kseq kvminit ?d) s = ?d (s\<lparr>mem := m, freelist := f, trampoline_phys_addr := tr, trapframe_phys_addr := tf0,
      kernel_pagetable := pt, satp := MAKE_SATP pt\<rparr>)" "vm_inv (s\<lparr>mem := m, freelist := f\<rparr>) 2 pt ps" "34 \<le> length ps"
      "\<And>va. low_page va \<Longrightarrow> pt_map m 2 pt va = kernel_map (ld_etext s) tr tf0 va"
      "\<And>b. b < ld_end s \<Longrightarrow> m b = mem s b \<and> (\<forall>x \<in> set ps. \<not> in_range x PGSIZE b)"
    by (rule start_memory [where k = ?d, OF reset(1-4) tramp]) (rule that)
  let ?s2 = "s\<lparr>mem := m, freelist := f, trampoline_phys_addr := tr, trapframe_phys_addr := tf0, kernel_pagetable := pt, satp := MAKE_SATP pt\<rparr>"
  have ok: "cons_ok ?s2" using reset(5) by simp
  obtain t where d: "?d ?s2 = ?k t"
      "mem t = mem ?s2" "freelist t = freelist ?s2" "ld_end t = ld_end ?s2" "kernel_pagetable t = kernel_pagetable ?s2" "proc_table t = proc_table ?s2"
      "current_proc t = current_proc ?s2" "satp t = satp ?s2" "trampoline_phys_addr t = trampoline_phys_addr ?s2" "trapframe_phys_addr t = trapframe_phys_addr ?s2"
      "fn_forkret t = fn_forkret ?s2" "fn_kernel_main t = fn_kernel_main ?s2"
      "sie t" "stvec t = fn_kernelvec ?s2" "interrupt_vector t UART0_IRQ = fn_uart_intr ?s2" "stimer t = now ?s2 + TIMER_INTERVAL"
      "uart_regs t (UART0 + IER) = IER_RX_ENABLE" "mmio t PLIC_ENABLE = push_bit UART0_IRQ 1 OR push_bit VIRTIO0_IRQ 1"
      "uart_out (kcons t) = pending (kcons ?s2) @ banner" "printf_buffer (kcons t) = []"
    by (rule start_devices [where k = ?k, OF ok]) (rule that)
  have vt: "vm_inv t 2 (kernel_pagetable t) ps" "current_proc t = None" using v(2) d(2-5,7) reset(4) by (simp_all add: vm_inv_def pm_inv_def)
  obtain m' f' g tf ks tt qs where c: "?k t = (Inr (), t\<lparr>mem := m', freelist := f', proc_table_mem := g, proc_table_pages := PROC, proc_table :=
        (\<lambda>i. if i < PROC then zero_proc else proc_table t i)(0 := main_proc tf (kernel_pagetable t) ks (fn_forkret t) (fn_kernel_main t) tt)\<rparr>)"
      "vm_inv (t\<lparr>mem := m', freelist := f'\<rparr>) 2 (kernel_pagetable t) qs" "pt_map m' 2 (kernel_pagetable t) = pt_map (mem t) 2 (kernel_pagetable t)"
      "\<And>b. \<forall>x \<in> set ps. \<not> in_range x PGSIZE b \<Longrightarrow> m' b = mem t b"
    by (rule start_process [OF vt(1) v(3) vt(2)]) (rule that)
  let ?e = "t\<lparr>mem := m', freelist := f', proc_table_mem := g, proc_table_pages := PROC, proc_table :=
        (\<lambda>i. if i < PROC then zero_proc else proc_table t i)(0 := main_proc tf (kernel_pagetable t) ks (fn_forkret t) (fn_kernel_main t) tt)\<rparr>"
  have run: "start depth s = (Inr (), ?e)" unfolding start_def by (rule trans, rule v(1), rule trans, rule d(1), rule c(1))
  have vis: "current_proc (sched_visit 0 ?e) = Some 0" "pstate (proc_table (sched_visit 0 ?e) 0) = RUNNING"
    by (simp_all add: sched_visit_def Let_def main_proc_def sched_tick_def)
  show ?thesis
  proof (rule exI [of _ ?e], rule exI [of _ qs], rule exI [of _ tf], rule exI [of _ ks], rule exI [of _ tt], intro conjI run vis)
    show "vm_inv ?e 2 (kernel_pagetable ?e) qs" using c(2) by (simp add: vm_inv_def pm_inv_def)
    show "\<forall>va. low_page va \<longrightarrow> pt_map (mem ?e) 2 (kernel_pagetable ?e) va = kernel_map (ld_etext s) (trampoline_phys_addr ?e) (trapframe_phys_addr ?e) va"
      using c(3) v(4) d(2,5,9,10) by simp
    show "\<forall>b < ld_end s. mem ?e b = mem s b" using c(4) v(5) d(2) by simp
  qed (use d(5,8,11-19) vt(2) in simp_all)
qed

section \<open>The console\<close>

text \<open>A positive number that fits an \<^verbatim>\<open>int\<close>: printed by \<open>%d\<close>, and read by \<^verbatim>\<open>atoi\<close>.\<close>

lemma print_int:
  assumes "n < 2 ^ 31"
  shows "conv_out False 0 False 100 (ANum (of_nat n) # ap) = Some (rev (digit_loop 10 n), ap)"
proof -
  have b: "sint (of_nat n :: u32) = int n" using assms by (simp add: signed_of_nat signed_take_bit_int_eq_self)
  have c: "sint (of_nat n :: u64) = int n" "unat (of_nat n :: u64) = n"
    using assms by (simp_all add: signed_of_nat signed_take_bit_int_eq_self unsigned_of_nat take_bit_nat_eq_self)
  have a: "(ucast (of_nat n :: u64) :: u32) = of_nat n" using ucast_of_nat_unat [of "of_nat n"] c(2) by simp
  have d: "(scast (of_nat n :: u32) :: u64) = of_nat n" by (simp add: scast_eq b)
  have "n < 10 ^ Suc 9" using assms by simp
  then have "length (digit_loop 10 n) \<le> Suc 9" using digit_loop_length [of 10 n 9] by simp
  then show ?thesis by (simp add: conv_out_def num_out_def a d c printint_buf_def pad_to_def)
qed

lemma read_int: "atoi (rev (digit_loop 10 n) @ [0]) = Some (of_nat n)"
proof -
  have "atoi (rev (digit_loop 10 n) @ [0]) = atoi_digits (rev (digit_loop 10 n) @ [0]) 0"
    by (rule atoi_digit_start) (simp, metis set_rev digit_loop_decimal_digits)
  then show ?thesis by (simp add: atoi_digits_decimal)
qed

text \<open>A line of the menu, for the letter \<open>c\<close>, the number \<open>n\<close> and the name \<open>xs\<close>.\<close>

lemma menu_line:
  assumes "n < 2 ^ 31" and "0 \<notin> set (map of_char xs :: u8 list)" and "of_char c \<noteq> (37 :: u8)" "of_char c \<noteq> (0 :: u8)"
  shows "format_out (cstr (''  '' @ c # ''%d. %s\<newline>'')) [ANum (of_nat n), AStr (Some (cstr xs))] =
    Some ([32, 32, of_char c] @ rev (digit_loop 10 n) @ [46, 32] @ map of_char xs @ [10])"
proof -
  have s: "conv_out False 0 False 115 [AStr (Some (cstr xs))] = Some (map of_char xs, [])"
    using assms(2) cchars_terminated [of "map of_char xs" "[]"] by (simp add: conv_out_def cstr_def)
  show ?thesis using assms(3,4) by (simp add: cstr_def print_int [OF assms(1)] s [unfolded cstr_def])
qed

lemma names_clean:
  "xs \<in> set kernel_test_names \<Longrightarrow> 0 \<notin> set (map of_char xs :: u8 list)" "(xs, sz) \<in> set user_programs \<Longrightarrow> 0 \<notin> set (map of_char xs :: u8 list)"
  by (auto simp: kernel_test_names_def user_programs_def)

lemma counts: "KERNEL_TEST_COUNT = 12" "USER_TEST_COUNT = 6" "length kernel_test_names = 12" "length user_programs = 6"
  by (simp_all add: KERNEL_TEST_COUNT_def USER_TEST_COUNT_def kernel_test_table_def user_test_table_def kernel_test_names_def user_programs_def)

lemma test_index_run:
  assumes "n < 2 ^ 31"
  shows "test_index (rev (digit_loop 10 n) @ [0]) s = (Inr (int n - 1), s)"
proof -
  have "sint (of_nat n :: u32) = int n" using assms by (simp add: signed_of_nat signed_take_bit_int_eq_self)
  then show ?thesis by (simp add: test_index_def read_int)
qed

lemma announces:
  fixes s :: "('a) kboot_scheme"
  assumes "f \<in> {msg_running_kernel, msg_running_user}" and "0 \<notin> set (map of_char xs :: u8 list)" and "cons_ok s"
  shows "kprintf f [AStr (Some (cstr xs))] s = (Inr (), shown (the (format_out f [AStr (Some (cstr xs))])) s)"
proof -
  have "conv_out False 0 False 115 [AStr (Some (cstr xs))] = Some (map of_char xs, [])"
    using assms(2) cchars_terminated [of "map of_char xs" "[]"] by (simp add: conv_out_def cstr_def)
  then have "\<exists>bs. format_out f [AStr (Some (cstr xs))] = Some bs \<and> 0 \<notin> set bs"
    using assms(1,2) by (auto simp: msg_running_kernel_def msg_running_user_def)
  then show ?thesis using assms(3) by (auto intro: kprintf_shown)
qed

lemma kernel_line_run:
  fixes s :: "('a) kboot_scheme"
  assumes i: "i < length kernel_test_names" and c: "c = 107 \<or> c = 75" and ok: "cons_ok s"
  shows "console_line depth (c # rev (digit_loop 10 (i + 1)) @ [0]) s =
    kbind (kbind (create_kernel_proc depth (fn_tests s i)) (await_test depth msg_failed_kernel msg_made_kernel))
      (\<lambda>_. kret False) (shown (the (format_out msg_running_kernel [AStr (Some (kernel_test_table ! i))])) s)"
proof -
  let ?t = "shown (the (format_out msg_running_kernel [AStr (Some (kernel_test_table ! i))])) s"
  have n: "kernel_test_table ! i = cstr (kernel_test_names ! i)" "0 \<notin> set (map of_char (kernel_test_names ! i) :: u8 list)"
    using names_clean(1) [of "kernel_test_names ! i"] i by (simp_all add: kernel_test_table_def)
  have x: "test_index (rev (digit_loop 10 (i + 1)) @ [0]) s = (Inr (int i), s)" using test_index_run [of "i + 1" s] i counts(3) by simp
  have a: "kprintf msg_running_kernel [AStr (Some (kernel_test_table ! i))] s = (Inr (), ?t)"
    unfolding n(1) by (rule announces [OF _ n(2) ok]) simp
  have f: "fn_tests ?t i = fn_tests s i" by (simp add: shown_def)
  have r: "run_kernel_test depth (int i) s = kbind (create_kernel_proc depth (fn_tests s i)) (await_test depth msg_failed_kernel msg_made_kernel) ?t"
    using i counts a f by (simp add: run_kernel_test_def)
  have "console_line depth (c # rev (digit_loop 10 (i + 1)) @ [0]) s = kseq (run_kernel_test depth (int i)) (kret False) s"
    using c x by (auto simp: console_line_def)
  then show ?thesis using r by (simp add: kseq_def kbind_def)
qed

lemma user_line_run:
  fixes s :: "('a) kboot_scheme"
  assumes i: "i < length user_programs" and c: "c = 117 \<or> c = 85" and ok: "cons_ok s"
  shows "console_line depth (c # rev (digit_loop 10 (i + 1)) @ [0]) s =
    kbind (kbind (create_user_proc depth (user_bins s i) (snd (user_programs ! i))) (await_test depth msg_failed_user msg_made_user))
      (\<lambda>_. kret False) (shown (the (format_out msg_running_user [AStr (Some (fst (user_test_table ! i)))])) s)"
proof -
  let ?t = "shown (the (format_out msg_running_user [AStr (Some (fst (user_test_table ! i)))])) s"
  have n: "fst (user_test_table ! i) = cstr (fst (user_programs ! i))" "0 \<notin> set (map of_char (fst (user_programs ! i)) :: u8 list)"
      "snd (user_test_table ! i) = snd (user_programs ! i)"
    using names_clean(2) [of "fst (user_programs ! i)" "snd (user_programs ! i)"] i by (simp_all add: user_test_table_def split_beta)
  have x: "test_index (rev (digit_loop 10 (i + 1)) @ [0]) s = (Inr (int i), s)" using test_index_run [of "i + 1" s] i counts(4) by simp
  have a: "kprintf msg_running_user [AStr (Some (fst (user_test_table ! i)))] s = (Inr (), ?t)"
    unfolding n(1) by (rule announces [OF _ n(2) ok]) simp
  have f: "user_bins ?t i = user_bins s i" by (simp add: shown_def)
  have r: "run_user_test depth (int i) s = kbind (create_user_proc depth (user_bins s i) (snd (user_programs ! i))) (await_test depth msg_failed_user msg_made_user) ?t"
    using i counts a f n(3) by (simp add: run_user_test_def)
  have "console_line depth (c # rev (digit_loop 10 (i + 1)) @ [0]) s = kseq (run_user_test depth (int i)) (kret False) s"
    using c x by (auto simp: console_line_def)
  then show ?thesis using r by (simp add: kseq_def kbind_def)
qed

lemma no_test_run:
  fixes s :: "('a) kboot_scheme"
  assumes n: "n < 2 ^ 31" and ok: "cons_ok s"
  shows "n = 0 \<or> 12 < n \<Longrightarrow> console_line depth (107 # rev (digit_loop 10 n) @ [0]) s = (Inr False, shown (butlast msg_no_kernel) s)"
    and "n = 0 \<or> 6 < n \<Longrightarrow> console_line depth (117 # rev (digit_loop 10 n) @ [0]) s = (Inr False, shown (butlast msg_no_user) s)"
proof -
  note x = test_index_run [OF n, of s]
  have k: "kprintf f [] s = (Inr (), shown (butlast f) s)" if "f \<in> {msg_no_kernel, msg_no_user}" for f
    by (rule kprintf_shown) (use that ok in \<open>auto simp: msg_no_kernel_def msg_no_user_def\<close>)
  show "console_line depth (107 # rev (digit_loop 10 n) @ [0]) s = (Inr False, shown (butlast msg_no_kernel) s)" if "n = 0 \<or> 12 < n"
    using x that k [of msg_no_kernel] by (auto simp: console_line_def run_kernel_test_def counts(1))
  show "console_line depth (117 # rev (digit_loop 10 n) @ [0]) s = (Inr False, shown (butlast msg_no_user) s)" if "n = 0 \<or> 6 < n"
    using x that k [of msg_no_user] by (auto simp: console_line_def run_user_test_def counts(2))
qed

text \<open>The console does what its menu says. For every kernel test \<open>i\<close> the menu shows a number, a dot and the test's name after the letter \<^verbatim>\<open>k\<close>; typing \<^verbatim>\<open>k\<close>
  and that number, in either case of the letter, runs exactly test \<open>i\<close>: its name is announced and a process with its entry point is created and
  waited for. The same holds for the letter \<^verbatim>\<open>u\<close> and the user programs. A number the menu does not show creates no process: a message is
  printed and nothing else changes.\<close>

theorem console_runs_menu_entries:
  fixes s :: "('a) kboot_scheme"
  assumes "cons_ok s"
  shows "(i < length kernel_test_names \<longrightarrow> (\<exists>ds.
      format_out (cstr ''  k%d. %s\<newline>'') [ANum (of_nat i + 1), AStr (Some (kernel_test_table ! i))] =
        Some (map of_char ''  k'' @ ds @ map of_char (''. '' @ kernel_test_names ! i) @ [10]) \<and>
      (\<forall>c \<in> {107, 75}. console_line depth (c # ds @ [0]) s = kbind (kbind (create_kernel_proc depth (fn_tests s i)) (await_test depth msg_failed_kernel msg_made_kernel))
        (\<lambda>_. kret False) (shown (the (format_out msg_running_kernel [AStr (Some (kernel_test_table ! i))])) s)))) \<and>
    (i < length user_programs \<longrightarrow> (\<exists>ds.
      format_out (cstr ''  u%d. %s\<newline>'') [ANum (of_nat i + 1), AStr (Some (fst (user_test_table ! i)))] =
        Some (map of_char ''  u'' @ ds @ map of_char (''. '' @ fst (user_programs ! i)) @ [10]) \<and>
      (\<forall>c \<in> {117, 85}. console_line depth (c # ds @ [0]) s = kbind (kbind (create_user_proc depth (user_bins s i) (snd (user_programs ! i)))
          (await_test depth msg_failed_user msg_made_user)) (\<lambda>_. kret False) (shown (the (format_out msg_running_user [AStr (Some (fst (user_test_table ! i)))])) s)))) \<and>
    (\<forall>n < 2 ^ 31. (n = 0 \<or> 12 < n \<longrightarrow> console_line depth (107 # rev (digit_loop 10 n) @ [0]) s = (Inr False, shown (butlast msg_no_kernel) s)) \<and>
      (n = 0 \<or> 6 < n \<longrightarrow> console_line depth (117 # rev (digit_loop 10 n) @ [0]) s = (Inr False, shown (butlast msg_no_user) s)))"
proof -
  have k: "format_out (cstr ''  k%d. %s\<newline>'') [ANum (of_nat i + 1), AStr (Some (kernel_test_table ! i))] =
        Some (map of_char ''  k'' @ rev (digit_loop 10 (i + 1)) @ map of_char (''. '' @ kernel_test_names ! i) @ [10])" if i: "i < length kernel_test_names"
  proof -
    have p: "i + 1 < 2 ^ 31" "0 \<notin> set (map of_char (kernel_test_names ! i) :: u8 list)" "of_char (CHR ''k'') \<noteq> (37 :: u8)" "of_char (CHR ''k'') \<noteq> (0 :: u8)"
      using names_clean(1) [of "kernel_test_names ! i"] i by (simp_all add: counts(3))
    show ?thesis using menu_line [OF p] i by (simp add: kernel_test_table_def add.commute)
  qed
  have u: "format_out (cstr ''  u%d. %s\<newline>'') [ANum (of_nat i + 1), AStr (Some (fst (user_test_table ! i)))] =
        Some (map of_char ''  u'' @ rev (digit_loop 10 (i + 1)) @ map of_char (''. '' @ fst (user_programs ! i)) @ [10])" if i: "i < length user_programs"
  proof -
    have p: "i + 1 < 2 ^ 31" "0 \<notin> set (map of_char (fst (user_programs ! i)) :: u8 list)" "of_char (CHR ''u'') \<noteq> (37 :: u8)" "of_char (CHR ''u'') \<noteq> (0 :: u8)"
      using names_clean(2) [of "fst (user_programs ! i)" "snd (user_programs ! i)"] i by (simp_all add: counts(4))
    show ?thesis using menu_line [OF p] i by (simp add: user_test_table_def split_beta add.commute)
  qed
  show ?thesis
    using k u kernel_line_run [OF _ _ assms] user_line_run [OF _ _ assms] no_test_run [OF _ assms]
    by (intro conjI impI allI) (blast, blast, blast, blast)
qed

section \<open>Example machines\<close>

text \<open>A disk: registers read back what was written last, but for identification, features and queue length.\<close>

definition last_write :: "u64 \<Rightarrow> (u64 \<times> u32) list \<Rightarrow> u32" where
  "last_write r w = fold (\<lambda>(q, v) x. if q = r then v else x) w 0"

definition demo_dev :: "(u64 \<times> u32) list \<Rightarrow> u64 \<Rightarrow> u32" where
  "demo_dev w r = (if r = 0 then 0x74726976 else if r = 4 then 2 else if r = 8 then 2 else if r = 0xc then 0x554d4551
     else if r = 0x10 then 0x30000E54 else if r = 0x34 then 1024 else last_write r w)"

definition power_on :: "ktrap \<Rightarrow> kboot" where
  "power_on s = ktrap.extend s \<lparr>uart_regs = (\<lambda>_. 0), vlog = [], vread = demo_dev, disk_desc = 0, disk_avail = 0, disk_used = 0,
     fn_uart_intr = 0x80000600, fn_virtio_disk_intr = 0x80000700, fn_kernel_main = 0x80000800, fn_console = 0x80000900,
     fn_tests = (\<lambda>i. 0x80001000 + 16 * of_nat i), user_bins = (\<lambda>i. 0x80002000 + 4096 * of_nat i)\<rparr>"

definition demo_reset :: kboot where
  "demo_reset = (power_on (demo_trap zero_proc (\<lambda>_. 0) 0 0))\<lparr>current_proc := None\<rparr>"

lemmas power_on_defs = power_on_def ktrap.extend_def demo_trap_def kdisk.extend_def demo_disk_defs Format.buf_ok_def PRINTF_BUFFER_SIZE_def

text \<open>The kernel process that runs \<^verbatim>\<open>kernel_main\<close> on a machine with two hundred free pages and an empty cache.\<close>

definition demo_main :: kboot where
  "demo_main = power_on (demo_boot_mem\<lparr>bufs := (\<lambda>_. \<lparr>valid = False, bdisk = False, bdev = 0, blockno = 0, refcnt = 0,
     block_lock = fresh_sleeplock '''', bprev = 0, bnext = 0\<rparr>)\<rparr>)"

theorem start_boots_witness:
  "\<exists>s'. start 3 demo_reset = (Inr (), s') \<and> satp s' = MAKE_SATP (kernel_pagetable s') \<and> uart_out (kcons s') = banner \<and>
     tframe (proc_table s' 0) Tf_epc = 0x80000800 \<and> current_proc (sched_visit 0 s') = Some 0"
proof -
  have p: "freelist demo_reset = 0" "0 < ld_end demo_reset" "ld_end demo_reset \<le> 0x87F4D000" "current_proc demo_reset = None" "cons_ok demo_reset"
      "unat (ld_trampoline demo_reset) + PGSIZE \<le> unat (ld_end demo_reset)"
    by (simp_all add: demo_reset_def power_on_defs PGSIZE_def)
  have q: "pending (kcons demo_reset) = []" "fn_kernel_main demo_reset = 0x80000800" by (simp_all add: demo_reset_def power_on_defs pending_def)
  show ?thesis using start_boots [OF p, of 3] q by (auto simp: main_proc_def)
qed

theorem disk_and_cache_start_witness:
  "\<exists>s'. kseq virtio_disk_init binit demo_main = (Inr (), s') \<and> cache_inv s' 1 \<and> (VIRTIO_MMIO_STATUS, 15) \<in> set (vlog s')"
proof -
  obtain d a u ps where b: "boot_pages = d # a # u # ps" by (simp add: boot_pages_def upt_rec)
  have pm: "pm_inv demo_main (d # a # u # ps)"
    using demo_boot_mem_ok unfolding b by (simp add: demo_main_def power_on_def ktrap.extend_def pm_inv_def)
  have p: "cons_ok demo_main" "quiet demo_main 1" "good_dev (vdev demo_main)" "bss_disk demo_main"
    by (simp_all add: demo_main_def demo_boot_mem_def power_on_defs quiet_def good_dev_serve bss_disk_def PROC_def)
  have u: "usable demo_main" "dev_status demo_main = 11"
    by (simp_all add: usable_def dev_status_def agreed_def feats_def handshake_def found_def demo_main_def power_on_def ktrap.extend_def demo_dev_def
      last_write_def reg_defs)
  show ?thesis using disk_and_cache_start [OF pm p] u by auto
qed

theorem console_runs_menu_entries_witness:
  "\<exists>ds. console_line 3 (107 # ds @ [0]) demo_reset = kbind (kbind (create_kernel_proc 3 0x80001020) (await_test 3 msg_failed_kernel msg_made_kernel))
     (\<lambda>_. kret False) (shown (the (format_out msg_running_kernel [AStr (Some (cstr ''test_interrupt_overhead''))])) demo_reset)"
proof -
  have "cons_ok demo_reset" "fn_tests demo_reset 2 = 0x80001020" "kernel_test_table ! 2 = cstr ''test_interrupt_overhead''" "2 < length kernel_test_names"
    by (simp_all add: demo_reset_def power_on_defs kernel_test_table_def kernel_test_names_def)
  then show ?thesis using console_runs_menu_entries [of demo_reset 2 3] by auto
qed

end
