(* ===== verification/UserProg.thy ===== *)
theory UserProg
  imports Usys BootSpec
begin

text \<open>
  The start code of user programs, \<^verbatim>\<open>user/crt0.c\<close>, and the program \<^verbatim>\<open>user/simple_user_task.c\<close>, whose string literal is at
  the address \<open>lit\<close>, run from the first instruction to the exit of the process.
\<close>

section \<open>Definitions\<close>

definition crt0_start :: "tstack \<Rightarrow> (u64 \<Rightarrow> (('a) ktrap_scheme, unit) km) \<Rightarrow> (('a) ktrap_scheme, int) km \<Rightarrow> (('a) ktrap_scheme, unit) km" where
  "crt0_start ts code main = kbind main (\<lambda>ret. kseq (sys_exit ts code ret) (kstop Diverge))"

definition simple_user_task :: "tstack \<Rightarrow> (u64 \<Rightarrow> (('a) ktrap_scheme, unit) km) \<Rightarrow> u64 \<Rightarrow> (('a) ktrap_scheme, int) km" where
  "simple_user_task ts code lit = kseq (sys_printstr ts code lit) (kbind (sys_pid ts code) (\<lambda>n.
     kseq (sys_printint ts code (word_of_int n)) (kseq (sys_exit ts code 0) (kret 0))))"

definition task_text :: "u8 list" where
  "task_text = map of_char ''Simple kernel task running in pid: ''"

section \<open>Calls that print\<close>

text \<open>A call of process \<open>p\<close> that has printed \<open>bs\<close> and changed nothing but the registers of the process.\<close>

definition printed :: "nat \<Rightarrow> u8 list \<Rightarrow> ('a) ktrap_scheme \<Rightarrow> ('a) ktrap_scheme \<Rightarrow> bool" where
  "printed p bs s s' \<longleftrightarrow> mem s' = mem s \<and> current_proc s' = Some p \<and> printf_buffer (kcons s') = [] \<and> uart_out (kcons s') = uart_out (kcons s) @ bs \<and>
     proc_table s' = (proc_table s)(p := (proc_table s p)\<lparr>tframe := tframe (proc_table s' p)\<rparr>)"

lemma printed_trans [trans]:
  assumes "printed p bs s t" and "printed p cs t u"
  shows "printed p (bs @ cs) s u"
proof -
  obtain r1 r2 where "proc_table t = (proc_table s)(p := (proc_table s p)\<lparr>tframe := r1\<rparr>)" "proc_table u = (proc_table t)(p := (proc_table t p)\<lparr>tframe := r2\<rparr>)"
    using assms unfolding printed_def by blast
  then show ?thesis using assms by (simp add: printed_def)
qed

lemma printed_proc:
  assumes "printed p bs s s'"
  shows "pid (proc_table s' p) = pid (proc_table s p)" and "pagetable (proc_table s' p) = pagetable (proc_table s p)"
proof -
  obtain r where "proc_table s' p = (proc_table s p)\<lparr>tframe := r\<rparr>" using assms unfolding printed_def by (metis fun_upd_same)
  then show "pid (proc_table s' p) = pid (proc_table s p)" "pagetable (proc_table s' p) = pagetable (proc_table s p)" by simp_all
qed

lemma printed_cons: "printed p bs s s' \<Longrightarrow> cons_ok s'"
  by (simp add: printed_def Format.buf_ok_def PRINTF_BUFFER_SIZE_def)

lemma printed_trapped: "current_proc s = Some p \<Longrightarrow> printf_buffer (kcons s) = [] \<Longrightarrow> printed p [] s (trapped p regs s)"
  by (simp add: printed_def trapped_fields) (simp add: trapped_def upd_proc_def)

lemma printed_shown: "current_proc s = Some p \<Longrightarrow> printf_buffer (kcons s) = [] \<Longrightarrow> printed p bs s (shown bs s)"
  by (simp add: printed_def shown_def Format.pending_def)

lemma printed_set: "current_proc s = Some p \<Longrightarrow> printf_buffer (kcons s) = [] \<Longrightarrow> printed p [] s (tf_set (TfProc p) f v s)"
  by (simp add: printed_def tf_set_def upd_proc_def)

lemma printed_call:
  fixes s :: "('a) ktrap_scheme"
  assumes cur: "current_proc s = Some p" and b: "printf_buffer (kcons s) = []"
    and c: "syscall_case ts (TfProc p) ((tframe (proc_table s p))(Tf_a0 := a0, Tf_a1 := a1, Tf_a7 := n)) (trapped p (\<lambda>t. t(Tf_a0 := a0, Tf_a1 := a1, Tf_a7 := n)) s) = (Inr (), t)"
    and t: "printed p bs (trapped p (\<lambda>t. t(Tf_a0 := a0, Tf_a1 := a1, Tf_a7 := n)) s) t"
  shows "\<exists>s'. do_syscall ts code n a0 a1 s = (Inr (tframe (proc_table t p) Tf_a0), s') \<and> printed p bs s s'"
proof -
  let ?regs = "\<lambda>t. t(Tf_a0 := a0, Tf_a1 := a1, Tf_a7 := n) :: trapframe" and ?pc = "tframe (proc_table s p) Tf_epc"
  have t': "current_proc t = Some p" "printf_buffer (kcons t) = []" using t by (simp_all add: printed_def)
  let ?u = "tf_set (TfProc p) Tf_epc (?pc + 4) t"
  let ?s' = "?u\<lparr>stvec := TRAMPOLINE + (ld_uservec t - ld_trampoline t), sscratch := TRAPFRAME\<rparr>"
  have "do_syscall ts code n a0 a1 s = (Inr (tframe (proc_table t p) Tf_a0), ?s')"
    using ecall_returns [where regs = ?regs and code = code, OF cur c t'(1)] by (simp add: do_syscall_def)
  moreover have "printed p bs s ?s'"
    using printed_trans [OF printed_trapped [OF cur b] printed_trans [OF t printed_set [OF t', of Tf_epc "?pc + 4"]]] by (simp add: printed_def)
  ultimately show ?thesis by blast
qed

lemma printstr_prints:
  fixes s :: "('a) ktrap_scheme"
  assumes cur: "current_proc s = Some p" and b: "printf_buffer (kcons s) = []"
    and u: "pt_wf (mem s) 2 (pagetable (proc_table s p))" "nonnull_map (pt_map (mem s) 2 (pagetable (proc_table s p)))"
      "user_bytes (mem s) (pt_map (mem s) 2 (pagetable (proc_table s p))) a (length xs + 1) = Some (xs @ [0])" "0 \<notin> set xs" "length xs < 128"
  shows "\<exists>s'. sys_printstr ts code a s = (Inr (), s') \<and> printed p xs s s'"
proof -
  let ?regs = "\<lambda>t. t(Tf_a0 := a, Tf_a1 := 0, Tf_a7 := SYS_printstr) :: trapframe"
  let ?t = "trapped p ?regs s"
  have t: "current_proc ?t = Some p" "mem ?t = mem s" "pagetable (proc_table ?t p) = pagetable (proc_table s p)" "printf_buffer (kcons ?t) = []"
    using cur b by (simp_all add: trapped_fields) (simp add: trapped_def upd_proc_def)
  have f: "copyinstr pt a 128 ?t = (Inr (0, xs @ [0]), ?t)" for pt
    using copyinstr_loop_string [where s = ?t, OF _ t(1), of a xs 128 "[]"] u t by (simp add: copyinstr_def del: user_bytes_simps)
  have "cchars (xs @ [0]) = Some xs" using u(4) by (induction xs) auto
  then have o: "format_out (cstr ''%s'') [AStr (Some (xs @ [0]))] = Some xs" by (simp add: cstr_def conv_out_def)
  have "cons_ok ?t" using t(4) by (simp add: Format.buf_ok_def PRINTF_BUFFER_SIZE_def)
  then have "kprintf (cstr ''%s'') [AStr (Some (xs @ [0]))] ?t = (Inr (), shown xs ?t)" using kprintf_shown [OF o] u(4) by simp
  then have c: "syscall_case ts (TfProc p) (?regs (tframe (proc_table s p))) ?t = (Inr (), shown xs ?t)"
    using f t(1) by (simp add: syscall_case_def SYS_defs fetch_str_def myproc_def)
  show ?thesis using printed_call [OF cur b c printed_shown [OF t(1,4)], of code] by (auto simp: sys_printstr_def)
qed

lemma printint_prints:
  fixes s :: "('a) ktrap_scheme"
  assumes cur: "current_proc s = Some p" and b: "printf_buffer (kcons s) = []" and n: "0 \<le> n" "n < 2 ^ 31"
  shows "\<exists>s'. sys_printint ts code (word_of_int n) s = (Inr (), s') \<and> printed p (rev (digit_loop 10 (nat n))) s s'"
proof -
  let ?regs = "\<lambda>t. t(Tf_a0 := word_of_int n, Tf_a1 := 0, Tf_a7 := SYS_printint) :: trapframe" and ?ds = "rev (digit_loop 10 (nat n))"
  let ?t = "trapped p ?regs s"
  have t: "current_proc ?t = Some p" "printf_buffer (kcons ?t) = []"
    using cur b by (simp_all add: trapped_fields) (simp add: trapped_def upd_proc_def)
  have o: "format_out (cstr ''%ld'') [ANum (word_of_int n)] = Some ?ds"
  proof -
    have w: "\<not> sint (word_of_int n :: u64) < 0" "unat (word_of_int n :: u64) = nat n"
      using n by (simp_all add: signed_of_int signed_take_bit_int_eq_self unat_eq_nat_uint unsigned_of_int take_bit_int_eq_self)
    have "length (digit_loop 10 (nat n)) \<le> Suc 31" using n by (subst digit_loop_length) (simp_all add: nat_less_iff)
    then show ?thesis using w by (simp add: cstr_def conv_out_def num_out_def printint_buf_def pad_to_def)
  qed
  have "cons_ok ?t" "0 \<notin> set ?ds" using t(2) digit_loop_decimal_digits [of 0 "nat n"] by (auto simp: Format.buf_ok_def PRINTF_BUFFER_SIZE_def)
  then have "kprintf (cstr ''%ld'') [ANum (word_of_int n)] ?t = (Inr (), shown ?ds ?t)" using kprintf_shown [OF o] by simp
  then have c: "syscall_case ts (TfProc p) (?regs (tframe (proc_table s p))) ?t = (Inr (), shown ?ds ?t)"
    by (simp add: syscall_case_def SYS_defs)
  show ?thesis using printed_call [OF cur b c printed_shown [OF t], of code] by (auto simp: sys_printint_def)
qed

lemma pid_answers:
  fixes s :: "('a) ktrap_scheme"
  assumes cur: "current_proc s = Some p" and b: "printf_buffer (kcons s) = []" and n: "pid (proc_table s p) = n" "0 \<le> n" "n < 2 ^ 31"
  shows "\<exists>s'. sys_pid ts code s = (Inr n, s') \<and> printed p [] s s'"
proof -
  let ?regs = "\<lambda>t. t(Tf_a0 := 0, Tf_a1 := 0, Tf_a7 := SYS_pid) :: trapframe"
  let ?t = "trapped p ?regs s"
  have t: "current_proc ?t = Some p" "printf_buffer (kcons ?t) = []" "pid (proc_table ?t p) = n"
    using cur b n(1) by (simp_all add: trapped_fields) (simp add: trapped_def upd_proc_def)
  then have c: "syscall_case ts (TfProc p) (?regs (tframe (proc_table s p))) ?t = (Inr (), tf_set (TfProc p) Tf_a0 (word_of_int n) ?t)"
    by (simp add: syscall_case_def SYS_defs set_a0_def mypid_def myproc_def)
  have v: "tframe (proc_table (tf_set (TfProc p) Tf_a0 (word_of_int n) ?t) p) Tf_a0 = word_of_int n" by (simp add: tf_set_def)
  show ?thesis using printed_call [OF cur b c printed_set [OF t(1,2)], of code] to_int_word [of n] n unfolding v by (auto simp: sys_pid_def)
qed

lemma exit_stops:
  fixes s :: "('a) ktrap_scheme"
  assumes cur: "current_proc s = Some p" and b: "printf_buffer (kcons s) = []" and n: "- (2 ^ 31) \<le> n" "n < 2 ^ 31"
  shows "\<exists>s'. sys_exit ts code n s = (Inl (ExitProc n), s') \<and> printed p [] s s'"
proof -
  let ?regs = "\<lambda>t. t(Tf_a0 := word_of_int n, Tf_a1 := 0, Tf_a7 := SYS_exit) :: trapframe"
  let ?t = "trapped p ?regs s"
  have t: "current_proc ?t = Some p" "scause ?t = 8" "tframe (proc_table ?t p) = ?regs (tframe (proc_table s p))"
    using cur by (simp_all add: trapped_def)
  have "syscall_case ts (TfProc p) (?regs (tframe (proc_table s p))) ?t = (Inl (ExitProc n), ?t)"
    using to_int_word [OF n] by (simp add: syscall_case_def SYS_defs)
  then have "usertrap ts code ?t = (Inl (ExitProc n), ?t)"
    using t by (simp add: usertrap_def myproc_def Let_def handle_syscall_def tf_get_def)
  then have "sys_exit ts code n s = (Inl (ExitProc n), ?t)"
    using cur by (simp add: sys_exit_def do_syscall_def ecall_def myproc_def trapped_def)
  then show ?thesis using printed_trapped [OF cur b] by blast
qed

section \<open>Main theorem\<close>


text \<open>The program in the page at \<open>0x10000\<close> of the example process.\<close>

definition task_addrs :: "addr list" where
  "task_addrs = map (\<lambda>i. 0x87000000 + of_nat i) [0..<36]"

definition task_mem :: phys where
  "task_mem = write_at (mem demo_user) task_addrs (task_text @ [0])"

lemma user_addrs_map: "(\<And>i. i < n \<Longrightarrow> translate pm (va + of_nat i) = Some (g i)) \<Longrightarrow> user_addrs pm va n = Some (map g [0..<n])"
proof (induction n arbitrary: va g)
  case (Suc n)
  have "user_addrs pm (va + 1) n = Some (map (\<lambda>i. g (Suc i)) [0..<n])" by (rule Suc.IH) (use Suc.prems [of "Suc _"] in \<open>simp add: add.assoc\<close>)
  moreover have "map g [0..<Suc n] = g 0 # map (\<lambda>i. g (Suc i)) [0..<n]" by (simp add: upt_conv_Cons map_Suc_upt [symmetric] del: upt_Suc)
  ultimately show ?case using Suc.prems [of 0] by (simp del: upt_Suc)
qed simp

lemma task_user: "user_addrs (pt_map (mem demo_user) 2 0x80005000) 0x10000 36 = Some task_addrs"
proof -
  let ?pm = "pt_map (mem demo_user) 2 0x80005000"
  obtain pm where pm: "?pm = pm" "pm = (\<lambda>va. if same_page 2 0x10000 va then Some 0x21C00017 else None)" using demo_user_inv by blast
  have "list_all (\<lambda>i. (px 2 0x10000 = px 2 (0x10000 + of_nat i) \<and> px 1 0x10000 = px 1 (0x10000 + of_nat i) \<and> px 0 0x10000 = px 0 (0x10000 + of_nat i)) \<and>
      0x87000000 OR ((0x10000 + of_nat i) AND 0xFFF) = (0x87000000 + of_nat i :: u64)) [0..<36]" by code_simp
  then have "translate ?pm (0x10000 + of_nat i) = Some (0x87000000 + of_nat i)" if "i < 36" for i
    using that unfolding list_all_iff pm(1) demo_user_translate [OF pm(2)] same_page_2 by simp
  then show ?thesis unfolding task_addrs_def by (rule user_addrs_map)
qed

lemma task_mem_ok:
  "pt_wf task_mem 2 0x80005000" "nonnull_map (pt_map task_mem 2 0x80005000)"
  "user_bytes task_mem (pt_map task_mem 2 0x80005000) 0x10000 (length task_text + 1) = Some (task_text @ [0])"
proof -
  have l: "length (task_text @ [0]) = 36" by (simp add: task_text_def)
  have m: "pt_wf task_mem 2 0x80005000" "pt_map task_mem 2 0x80005000 = pt_map (mem demo_user) 2 0x80005000"
    using copyout_run [of demo_user "0x80005000" "0x10000" "task_text @ [0]"] demo_user_facts task_user unfolding l task_mem_def by simp_all
  then show "pt_wf task_mem 2 0x80005000" "nonnull_map (pt_map task_mem 2 0x80005000)" using demo_user_facts by simp_all
  have "distinct task_addrs" by code_simp
  then have "map task_mem task_addrs = task_text @ [0]" unfolding task_mem_def by (rule write_at_map) (simp add: task_addrs_def task_text_def)
  then show "user_bytes task_mem (pt_map task_mem 2 0x80005000) 0x10000 (length task_text + 1) = Some (task_text @ [0])"
    using task_user l m(2) by (simp add: user_bytes_def del: user_bytes_simps)
qed


end
