(* ===== verification/SelfTest.thy ===== *)
theory SelfTest
  imports UserProg
begin

text \<open>
  The self test of the page allocator and the display of page tables: \<^verbatim>\<open>test_physical_memory\<close> of \<^verbatim>\<open>kernel/pm.c\<close>, \<^verbatim>\<open>print_pagetable\<close> and
  \<^verbatim>\<open>check_mapping\<close> of \<^verbatim>\<open>kernel/vm.c\<close>. The messages are the bytes of the source's string literals.
\<close>

section \<open>Messages\<close>

definition pm_msg_alloc :: carray where
  "pm_msg_alloc = [91, 80, 77, 32, 84, 69, 83, 84, 93, 32, 229, 136, 134, 233, 133, 141, 228, 184, 164, 228, 184, 170, 233, 161, 181, 46, 46, 46,
     10, 0]"

definition pm_msg_alloc_ok :: carray where
  "pm_msg_alloc_ok = [91, 80, 77, 32, 84, 69, 83, 84, 93, 32, 229, 136, 134, 233, 133, 141, 230, 181, 139, 232, 175, 149, 233, 128, 154, 232, 191, 135,
     10, 0]"

definition pm_msg_data :: carray where
  "pm_msg_data = [91, 80, 77, 32, 84, 69, 83, 84, 93, 32, 230, 149, 176, 230, 141, 174, 229, 134, 153, 229, 133, 165, 230, 181, 139, 232, 175, 149,
     46, 46, 46, 10, 0]"

definition pm_msg_data_ok :: carray where
  "pm_msg_data_ok = [91, 80, 77, 32, 84, 69, 83, 84, 93, 32, 230, 149, 176, 230, 141, 174, 229, 134, 153, 229, 133, 165, 230, 181, 139, 232, 175, 149,
     233, 128, 154, 232, 191, 135, 10, 0]"

definition pm_msg_again :: carray where
  "pm_msg_again = [91, 80, 77, 32, 84, 69, 83, 84, 93, 32, 233, 135, 138, 230, 148, 190, 228, 184, 142, 233, 135, 141, 230, 150, 176, 229, 136, 134,
     233, 133, 141, 230, 181, 139, 232, 175, 149, 46, 46, 46, 10, 0]"

definition pm_msg_again_ok :: carray where
  "pm_msg_again_ok = [91, 80, 77, 32, 84, 69, 83, 84, 93, 32, 233, 135, 138, 230, 148, 190, 228, 184, 142, 233, 135, 141, 230, 150, 176, 229, 136, 134,
     233, 133, 141, 230, 181, 139, 232, 175, 149, 233, 128, 154, 232, 191, 135, 10, 0]"

definition pm_msg_done :: carray where
  "pm_msg_done = [91, 80, 77, 32, 84, 69, 83, 84, 93, 32, 230, 137, 128, 230, 156, 137, 231, 137, 169, 231, 144, 134, 229, 134, 133, 229, 173, 152,
     231, 174, 161, 231, 144, 134, 230, 181, 139, 232, 175, 149, 233, 128, 154, 232, 191, 135, 10, 0]"

section \<open>The allocator\<close>

text \<open>\<open>file\<close> is the value of \<^verbatim>\<open>__FILE__\<close>.\<close>

definition kassert :: "carray \<Rightarrow> u64 \<Rightarrow> bool \<Rightarrow> (('a) ktrap_scheme, unit) km" where
  "kassert file line b = (if b then kret ()
     else kseq (kprintf (cstr ''assert failed: file %s, line %d\<newline>'') [AStr (Some file), ANum line]) (panic ''assert''))"

definition test_physical_memory :: "carray \<Rightarrow> (('a) ktrap_scheme, unit) km" where
  "test_physical_memory file = kseq (kprintf pm_msg_alloc []) (kbind alloc_page (\<lambda>page1. kbind alloc_page (\<lambda>page2.
     kseq (kassert file 45 (page1 \<noteq> 0)) (kseq (kassert file 46 (page2 \<noteq> 0)) (kseq (kassert file 47 (page1 \<noteq> page2))
     (kseq (kassert file 48 (page1 AND 0xFFF = 0)) (kseq (kassert file 49 (page2 AND 0xFFF = 0)) (kseq (kprintf pm_msg_alloc_ok [])
     (kseq (kprintf pm_msg_data []) (kseq (kmod (\<lambda>s. s\<lparr>mem := write_bytes (mem s) page1 (le_bytes 4 0x12345678)\<rparr>))
     (kbind (kget (\<lambda>s. le_val (read_bytes (mem s) page1 4))) (\<lambda>v. kseq (kassert file 54 (v = 0x12345678)) (kseq (kprintf pm_msg_data_ok [])
     (kseq (kprintf pm_msg_again []) (kseq (free_page page1) (kbind alloc_page (\<lambda>page3. kseq (kassert file 60 (page3 \<noteq> 0))
     (kseq (kprintf pm_msg_again_ok []) (kseq (free_page page2) (kseq (free_page page3) (kprintf pm_msg_done [])))))))))))))))))))))"

section \<open>Page tables\<close>

text \<open>\<^verbatim>\<open>i << (12 + 9 * (2 - level))\<close> is computed in an \<^verbatim>\<open>int\<close>, 32 bits wide, and then widened with its sign; above level 3 the shift is
  negative and without meaning. \<open>k\<close> bounds the depth of the recursion.\<close>

definition shown_offset :: "nat \<Rightarrow> nat \<Rightarrow> u64" where
  "shown_offset level i = scast (push_bit (30 - 9 * level) (of_nat i) :: u32)"

primrec print_pagetable :: "nat \<Rightarrow> addr \<Rightarrow> nat \<Rightarrow> u64 \<Rightarrow> (('a) ktrap_scheme, unit) km" where
  "print_pagetable 0 pt level va_base = kstop Diverge"
| "print_pagetable (Suc k) pt level va_base = kfor [0..<512] (\<lambda>i. kbind (kget (\<lambda>s. load64 (mem s) (pt + 8 * of_nat i))) (\<lambda>pte.
     if pte_valid pte
     then if level > 3 then kstop Undefined
       else (let pa = PTE2PA pte; va = va_base + shown_offset level i in
         kseq (kfor [0..<level] (\<lambda>_. kprintf (cstr ''  '') []))
         (kseq (kprintf (cstr ''L%d[%3d] VA:0x%lx -> PA:0x%lx flags:0x%lx\<newline>'') [ANum (of_nat level), ANum (of_nat i), ANum va, ANum pa, ANum (pte AND 0x3FF)])
         (if pte AND (PTE_R OR PTE_W OR PTE_X) = 0 then print_pagetable k pa (level + 1) va else kret ())))
     else kret ()))"

text \<open>The messages of \<^verbatim>\<open>check_mapping\<close> are compiled out with \<^verbatim>\<open>debug\<close>; what is left is the walk.\<close>

definition check_mapping :: "u64 \<Rightarrow> (('a) kvm_scheme, unit) km" where
  "check_mapping va = kbind (kget (\<lambda>s. walk_lookup (mem s) (kernel_pagetable s) va)) (\<lambda>_. kret ())"

section \<open>Properties\<close>

text \<open>Entries of the root table that are four apart are shown with the same virtual address.\<close>

lemma shown_offset_wraps: "shown_offset 0 (i + 4) = shown_offset 0 i"
proof -
  have z: "push_bit 30 (of_nat 4 :: u32) = 0" by code_simp
  have "push_bit 30 (of_nat (i + 4) :: u32) = push_bit 30 (of_nat i)" unfolding of_nat_add push_bit_add z by simp
  then show ?thesis by (simp add: shown_offset_def del: of_nat_add)
qed

definition pm_texts :: "carray list" where
  "pm_texts = [pm_msg_alloc, pm_msg_alloc_ok, pm_msg_data, pm_msg_data_ok, pm_msg_again, pm_msg_again_ok, pm_msg_done]"

lemma pm_text_shown: "msg \<in> set pm_texts \<Longrightarrow> cons_ok s \<Longrightarrow> kprintf msg [] s = (Inr (), shown (butlast msg) s)"
  by (rule kprintf_shown) (auto simp: pm_texts_def pm_msg_alloc_def pm_msg_alloc_ok_def pm_msg_data_def pm_msg_data_ok_def pm_msg_again_def
    pm_msg_again_ok_def pm_msg_done_def)

lemma shown_pm [simp]: "pm_inv (shown bs s) ps = pm_inv s ps" "mem (shown bs s) = mem s" "ld_end (shown bs s) = ld_end s"
  by (simp_all add: shown_def pm_inv_def)

lemma page_low_bits: "page_ok lo x \<Longrightarrow> x AND 0xFFF = 0"
proof -
  assume "page_ok lo x"
  then have "unat x mod 4096 = 0" by (simp add: page_ok_def PGSIZE_def)
  moreover have "x AND 0xFFF = take_bit 12 x" by (simp add: take_bit_eq_mask mask_eq_exp_minus_1)
  ultimately show ?thesis by (simp add: word_unat_eq_iff unsigned_take_bit_eq take_bit_eq_mod unat_mod_distrib)
qed

lemma write_bytes_pm:
  assumes inv: "pm_inv s ps" and x: "page_ok (ld_end s) x" "x \<notin> set ps" and l: "length bs \<le> PGSIZE"
  shows "pm_inv (s\<lparr>mem := write_bytes (mem s) x bs\<rparr>) ps"
proof (rule pm_inv_frame [OF inv])
  fix y b assume y: "y \<in> set ps" "in_range y PGSIZE b"
  then have "unat y mod PGSIZE = 0" "y \<noteq> x" using inv x(2) by (auto simp: pm_inv_def page_ok_def)
  then have "\<not> in_range x PGSIZE b" using pages_disjoint [of y x b] x(1) y(2) by (auto simp: page_ok_def)
  then have "\<not> in_range x (length bs) b" using l in_range_mono [of x "length bs" b PGSIZE] by blast
  then show "mem (s\<lparr>mem := write_bytes (mem s) x bs\<rparr>) b = mem s b" by (simp add: write_bytes_def)
qed simp_all

text \<open>After \<open>out\<close> has been printed since state \<open>s0\<close>, with no change of memory outside the pages \<open>A\<close>; \<open>ps\<close> are the free pages.\<close>

definition pm_at :: "addr set \<Rightarrow> ('a) ktrap_scheme \<Rightarrow> u8 list \<Rightarrow> addr list \<Rightarrow> ('a) ktrap_scheme \<Rightarrow> bool" where
  "pm_at A s0 out ps s \<longleftrightarrow> pm_inv s ps \<and> cons_ok s \<and> pending (kcons s) = pending (kcons s0) @ out \<and> ld_end s = ld_end s0 \<and>
     (\<forall>b. (\<forall>x \<in> A. \<not> in_range x PGSIZE b) \<longrightarrow> mem s b = mem s0 b)"

lemma pm_at_print:
  fixes s :: "('a) ktrap_scheme"
  assumes "pm_at A s0 out ps s" and "msg \<in> set pm_texts"
  shows "\<exists>s'. kprintf msg [] s = (Inr (), s') \<and> pm_at A s0 (out @ butlast msg) ps s'"
  using pm_text_shown [OF assms(2), of s] assms(1) by (simp add: pm_at_def)

lemma pm_at_alloc:
  fixes s :: "('a) ktrap_scheme"
  assumes t: "pm_at A s0 out (x # xs) s" and x: "x \<in> A"
  shows "\<exists>s'. alloc_page s = (Inr x, s') \<and> pm_at A s0 out xs s'"
proof -
  have "pm_inv s (x # xs)" using t by (simp add: pm_at_def)
  then obtain s' where s': "alloc_page s = (Inr x, s')" "pm_inv s' xs" "s' = s\<lparr>mem := mem s', freelist := freelist s'\<rparr>" "ld_end s' = ld_end s"
      "\<And>a. \<not> in_range x PGSIZE a \<Longrightarrow> mem s' a = mem s a" by (rule alloc_page_inv) (rule that)
  have "kcons s' = kcons s" using arg_cong [OF s'(3), of kcons] by simp
  then show ?thesis using s'(1,2,4,5) t x by (auto simp: pm_at_def)
qed

lemma pm_at_free:
  fixes s :: "('a) ktrap_scheme"
  assumes t: "pm_at A s0 out xs s" and x: "x \<in> A" "x \<notin> set xs" "page_ok (ld_end s0) x"
  shows "\<exists>s'. free_page x s = (Inr (), s') \<and> pm_at A s0 out (x # xs) s'"
proof -
  have "pm_inv s xs" "page_ok (ld_end s) x" using t x(3) by (simp_all add: pm_at_def)
  then obtain s' where s': "free_page x s = (Inr (), s')" "pm_inv s' (x # xs)" "s' = s\<lparr>mem := mem s', freelist := freelist s'\<rparr>" "ld_end s' = ld_end s"
      "\<And>a. \<not> in_range x 8 a \<Longrightarrow> mem s' a = mem s a" using free_page_inv x(2) by metis
  have "kcons s' = kcons s" using arg_cong [OF s'(3), of kcons] by simp
  moreover have "mem s' a = mem s a" if "\<not> in_range x PGSIZE a" for a using that s'(5) in_range_mono [of x 8 a PGSIZE] by (auto simp: PGSIZE_def)
  ultimately show ?thesis using s'(1,2,4) t x(1) by (auto simp: pm_at_def)
qed

lemma pm_at_write:
  assumes t: "pm_at A s0 out xs s" and x: "x \<in> A" "x \<notin> set xs" "page_ok (ld_end s0) x" and l: "length bs \<le> PGSIZE"
  shows "pm_at A s0 out xs (s\<lparr>mem := write_bytes (mem s) x bs\<rparr>)"
proof -
  have "write_bytes (mem s) x bs b = mem s b" if "\<not> in_range x PGSIZE b" for b
    using that l in_range_mono [of x "length bs" b PGSIZE] by (auto simp: write_bytes_def)
  moreover have "pm_inv (s\<lparr>mem := write_bytes (mem s) x bs\<rparr>) xs" by (rule write_bytes_pm) (use t x l in \<open>simp_all add: pm_at_def\<close>)
  ultimately show ?thesis using t x(1) by (auto simp: pm_at_def)
qed

text \<open>The self test of the allocator: with two free pages it passes, prints its messages, and leaves the free list as it was and no trace outside
  the two pages.\<close>

theorem physical_memory_test_passes:
  fixes s :: "('a) ktrap_scheme"
  assumes inv: "pm_inv s (p1 # p2 # ps)" and c: "cons_ok s"
  shows "\<exists>s'. test_physical_memory file s = (Inr (), s') \<and> pm_inv s' (p1 # p2 # ps) \<and> pending (kcons s') = pending (kcons s) @ concat (map butlast pm_texts) \<and>
    (\<forall>b. \<not> in_range p1 PGSIZE b \<and> \<not> in_range p2 PGSIZE b \<longrightarrow> mem s' b = mem s b)"
proof -
  let ?at = "pm_at {p1, p2} s"
  have pg: "page_ok (ld_end s) p1" "page_ok (ld_end s) p2" "p1 \<noteq> p2" "p1 \<notin> set ps" "p2 \<notin> set (p1 # ps)" "p1 \<notin> set (p2 # ps)" "p1 \<noteq> 0" "p2 \<noteq> 0"
    using inv by (auto simp: pm_inv_def page_ok_def)
  note low = page_low_bits [OF pg(1)] page_low_bits [OF pg(2)]
  have 0: "?at [] (p1 # p2 # ps) s" using inv c by (simp add: pm_at_def)
  have T: "set pm_texts = {pm_msg_alloc, pm_msg_alloc_ok, pm_msg_data, pm_msg_data_ok, pm_msg_again, pm_msg_again_ok, pm_msg_done}" by (simp add: pm_texts_def)
  have p: "\<exists>s'. kprintf m [] r = (Inr (), s') \<and> ?at (concat (map butlast (ms @ [m]))) qs s'"
    if "?at (concat (map butlast ms)) qs r" "m \<in> set pm_texts" for ms m qs r using pm_at_print [OF that] by simp
  obtain s1 where 1: "kprintf pm_msg_alloc [] s = (Inr (), s1)" "?at (concat (map butlast [pm_msg_alloc])) (p1 # p2 # ps) s1"
    using p [of "[]" _ s pm_msg_alloc] 0 T by auto
  obtain s2 where 2: "alloc_page s1 = (Inr p1, s2)" "?at (concat (map butlast [pm_msg_alloc])) (p2 # ps) s2" using pm_at_alloc [OF 1(2)] by auto
  obtain s3 where 3: "alloc_page s2 = (Inr p2, s3)" "?at (concat (map butlast [pm_msg_alloc])) ps s3" using pm_at_alloc [OF 2(2)] by auto
  obtain s4 where 4: "kprintf pm_msg_alloc_ok [] s3 = (Inr (), s4)" "?at (concat (map butlast (take 2 pm_texts))) ps s4"
    using p [OF 3(2), of pm_msg_alloc_ok] T by (auto simp: pm_texts_def)
  obtain s5 where 5: "kprintf pm_msg_data [] s4 = (Inr (), s5)" "?at (concat (map butlast (take 3 pm_texts))) ps s5"
    using p [OF 4(2), of pm_msg_data] T by (auto simp: pm_texts_def)
  let ?s6 = "s5\<lparr>mem := write_bytes (mem s5) p1 (le_bytes 4 0x12345678)\<rparr>"
  have 6: "?at (concat (map butlast (take 3 pm_texts))) ps ?s6" using pm_at_write [OF 5(2)] pg by (simp add: PGSIZE_def)
  have v: "le_val (read_bytes (mem ?s6) p1 4) = 0x12345678"
    using read_write_bytes [of "le_bytes 4 0x12345678" "mem s5" p1] le_val_le_bytes [of 4 "0x12345678"] by simp
  obtain s7 where 7: "kprintf pm_msg_data_ok [] ?s6 = (Inr (), s7)" "?at (concat (map butlast (take 4 pm_texts))) ps s7"
    using p [OF 6, of pm_msg_data_ok] T by (auto simp: pm_texts_def)
  obtain s8 where 8: "kprintf pm_msg_again [] s7 = (Inr (), s8)" "?at (concat (map butlast (take 5 pm_texts))) ps s8"
    using p [OF 7(2), of pm_msg_again] T by (auto simp: pm_texts_def)
  obtain s9 where 9: "free_page p1 s8 = (Inr (), s9)" "?at (concat (map butlast (take 5 pm_texts))) (p1 # ps) s9" using pm_at_free [OF 8(2)] pg by auto
  obtain s10 where 10: "alloc_page s9 = (Inr p1, s10)" "?at (concat (map butlast (take 5 pm_texts))) ps s10" using pm_at_alloc [OF 9(2)] by auto
  obtain s11 where 11: "kprintf pm_msg_again_ok [] s10 = (Inr (), s11)" "?at (concat (map butlast (take 6 pm_texts))) ps s11"
    using p [OF 10(2), of pm_msg_again_ok] T by (auto simp: pm_texts_def)
  obtain s12 where 12: "free_page p2 s11 = (Inr (), s12)" "?at (concat (map butlast (take 6 pm_texts))) (p2 # ps) s12" using pm_at_free [OF 11(2)] pg by auto
  obtain s13 where 13: "free_page p1 s12 = (Inr (), s13)" "?at (concat (map butlast (take 6 pm_texts))) (p1 # p2 # ps) s13" using pm_at_free [OF 12(2)] pg by auto
  obtain s14 where 14: "kprintf pm_msg_done [] s13 = (Inr (), s14)" "?at (concat (map butlast pm_texts)) (p1 # p2 # ps) s14"
    using p [OF 13(2), of pm_msg_done] T by (auto simp: pm_texts_def)
  have "test_physical_memory file s = (Inr (), s14)"
    using 1(1) 2(1) 3(1) 4(1) 5(1) v 7(1) 8(1) 9(1) 10(1) 11(1) 12(1) 13(1) 14(1) pg(3,7,8) low by (simp add: test_physical_memory_def kassert_def)
  then show ?thesis using 14(2) by (auto simp: pm_at_def)
qed

end
