(* ===== verification/Spec2Isabelle.thy ===== *)
theory Spec2Isabelle
  imports ExitSpec UserLib Uart OpenSpec SysFile SelfTest
begin

text \<open>
  \<^bold>\<open>A verification of the xv6-style kernel under \<^verbatim>\<open>src/kernel\<close>.\<close>

  The program is a single-core RISC-V teaching kernel in C: a page allocator, Sv39 page tables, processes with a round-robin
  scheduler, traps and system calls, pipes, a UART console, a virtio disk driver, and a file system in layers (block cache,
  write-ahead log, inodes, directories, file descriptors). User programs reach it through the stubs of \<^verbatim>\<open>syscall.h\<close>.

  \<^bold>\<open>How the code is modelled.\<close> Every C function is one definition (a loop or a branch of a long function may be one of its
  own). Kernel code is written in the monad of \<open>Kmonad\<close>: a function of the kernel state that returns a value or the reason why the
  thread does not continue (\<^verbatim>\<open>panic\<close>, sleeping, giving up the processor, a spin lock that is held, exit, power off, a null
  pointer, an array index out of bounds). The state is one record, extended component by component:

    \<^item> \<open>kcore\<close> (\<open>Sched\<close>): process table, current process, interrupt flag; \<open>kpm\<close> (\<open>PhysMem\<close>): byte-addressed physical memory
      and the head of the free list; \<open>kvm\<close> (\<open>PageTable\<close>): kernel page table and \<^verbatim>\<open>satp\<close>; \<open>kpipe\<close>, \<open>kdisk\<close>, \<open>klog\<close>, \<open>kfs\<close>, \<open>kino\<close>,
      \<open>kfile\<close>, \<open>kproc\<close>, \<open>ktrap\<close>, \<open>kboot\<close>: the variables of the files named below. Machine integers are words of their width.
    \<^item> Pointers are addresses where the code computes with them (pages, page tables, user memory, pipes) and table indices where it
      does not (processes, buffers, inodes, files).
    \<^item> A function is split where it calls \<^verbatim>\<open>swtch\<close>: the first part ends with the stop \<open>Asleep\<close> or \<open>Yielded\<close>, the second, \<open>..._resume\<close>,
      runs when the scheduler has switched back.

  \<^bold>\<open>Theories and sources.\<close>

    \<^item> \<open>Prelude\<close>: words, byte lists, address ranges; \<open>Kmonad\<close>: the monad and its triples.
    \<^item> \<open>Memory\<close>: \<^verbatim>\<open>mem.c\<close>. \<open>Cstring\<close>: \<^verbatim>\<open>string.c\<close>. \<open>Format\<close>: \<^verbatim>\<open>printf.c\<close>, with the reference formatter \<open>format_out\<close> and the proof that the
      output buffer is transparent.
    \<^item> \<open>Sched\<close>: the scheduler half of \<^verbatim>\<open>proc.c\<close> as a transition system; at most one process runs, and a runnable one is dispatched
      within one pass. \<open>Locks\<close>: \<^verbatim>\<open>spinlock.c\<close>, \<^verbatim>\<open>sleeplock.c\<close>, \<^verbatim>\<open>sleep\<close>; the locales \<open>lock_cell\<close> and \<open>sleep_cell\<close> state what every
      lock promises and are interpreted on each lock of the kernel (cache, buffers, disk, log, inode table, inodes, file table).
    \<^item> \<open>PhysMem\<close>: \<^verbatim>\<open>pm.c\<close>; the invariant \<open>pm_inv\<close> (the free list is a list of distinct managed pages) and the locale \<open>page_alloc\<close>.
      \<open>PageTable\<close>: the operations of \<^verbatim>\<open>vm.c\<close>; \<open>PageMap\<close>, \<open>PageFree\<close>, \<open>UserMem\<close>, \<open>AddrSpace\<close>, \<open>KvmSpec\<close>: \<^verbatim>\<open>map_page\<close> refines an update of the
      abstract map \<open>pt_map\<close>; \<^verbatim>\<open>free_pagetable\<close>; page faults and copies from and to user memory; \<^verbatim>\<open>uvmcopy\<close>; the kernel's own map.
    \<^item> \<open>Pipe\<close>: \<^verbatim>\<open>pipe.c\<close> (\<^verbatim>\<open>pipealloc\<close> is in \<open>File\<close>), a pipe is a queue. \<open>Uart\<close>: \<^verbatim>\<open>uart.c\<close>, the line editor and \<^verbatim>\<open>readline\<close>.
    \<^item> \<open>Virtio\<close>, \<open>VirtioSpec\<close>: \<^verbatim>\<open>virtio_disk.c\<close>, one request moves one block. The device is the field \<open>vdev\<close>; \<open>good_dev\<close> is what the virtio
      specification promises, and \<open>serve\<close> is a device that keeps it.
    \<^item> \<open>Bio\<close>, \<open>BioSpec\<close>: \<^verbatim>\<open>bio.c\<close>, the cache refines the disk with the pending changes applied (\<open>abs_cache\<close>, \<open>cache_inv\<close>).
    \<^item> \<open>Log\<close>, \<open>LogSpec\<close>, \<open>LogCrash\<close>, \<open>LogTrans\<close>: \<^verbatim>\<open>log.c\<close>; the writes of a commit, recovery after a crash at any point of them, and
      transactions as interleavings of operations.
    \<^item> \<open>FsTrans\<close>, \<open>Blocks\<close>, \<open>BlocksSpec\<close>, \<open>Inode\<close>, \<open>InodeSpec\<close>, \<open>FileData\<close>, \<open>FileWrite\<close>, \<open>FileIo\<close>, \<open>Dir\<close>, \<open>PathSpec\<close>: \<^verbatim>\<open>fs.c\<close>; block
      allocation, inodes, file contents, \<^verbatim>\<open>readi\<close> and \<^verbatim>\<open>writei\<close> against a byte-list specification, path names. \<open>DirSpec\<close>:
      a directory is a map from names to inode numbers that \<^verbatim>\<open>dirlookup\<close> reads and \<^verbatim>\<open>dirlink\<close> updates. \<open>NameSpec\<close>: \<^verbatim>\<open>namei\<close> walks the
      tree that the directories on the disk form, and keeps the books of the inode table.
    \<^item> \<open>File\<close>: \<^verbatim>\<open>file.c\<close>; \<open>FileSpec\<close>: \<^verbatim>\<open>read\<close> and \<^verbatim>\<open>write\<close> as transactions with the inode's lock and the position of the file; \<open>FdSpec\<close>:
      \<^verbatim>\<open>ker_read\<close> and \<^verbatim>\<open>ker_write\<close>, which move a user's buffer in pieces of 256 bytes; \<open>SysFile\<close>: \<^verbatim>\<open>sys_read\<close> and \<^verbatim>\<open>sys_write\<close> from the stub
      in the user program to the blocks on the disk; \<open>OpenSpec\<close>: \<^verbatim>\<open>ker_open\<close> and \<^verbatim>\<open>ker_close\<close> of a file that exists. The last section of this theory puts the two together.
    \<^item> \<open>Proc\<close>: the life cycle half of \<^verbatim>\<open>proc.c\<close>; \<open>ForkSpec\<close>, \<open>ExitSpec\<close>: \<^verbatim>\<open>fork_proc\<close>, \<^verbatim>\<open>exit_proc\<close> with \<^verbatim>\<open>wait_proc\<close>.
    \<^item> \<open>Trap\<close>: \<^verbatim>\<open>trap.c\<close>, \<^verbatim>\<open>plic.c\<close>, \<^verbatim>\<open>timer.c\<close>; \<open>Frame\<close>: no trap touches the identity or the registers of another process, by a
      relational invariant (locale \<open>frame_rel\<close>) carried through every kernel function. \<open>Usys\<close>: \<^verbatim>\<open>syscall.h\<close>, what a user program sees of
      a call. \<open>UserLib\<close>: \<^verbatim>\<open>user/user_lib.h\<close>. \<open>UserProg\<close>: \<^verbatim>\<open>user/crt0.c\<close> and \<^verbatim>\<open>user/simple_user_task.c\<close>, a program from its start to its exit.
    \<^item> \<open>Boot\<close>, \<open>BootSpec\<close>: \<^verbatim>\<open>start.c\<close>, \<^verbatim>\<open>uart_init\<close>, \<^verbatim>\<open>virtio_disk_init\<close>: the machine from reset to the scheduler, the disk and the cache
      at their start, and the console. \<open>SelfTest\<close>: the allocator's self test \<^verbatim>\<open>test_physical_memory\<close> and the display of page tables.

  \<^bold>\<open>Bounds and fuel.\<close> Loops over tables and chunks are recursions over lists of indices. Fuel occurs in three places. \<^verbatim>\<open>free_pagetable\<close>
  takes the depth of the recursion: three is enough for a well-formed table (\<open>free_pagetable_frees\<close>), and a run out of depth is the
  stop \<open>Diverge\<close>. A walk of the cache list takes \<open>NBUF + 1\<close> steps, after which it has met a buffer twice. \<^verbatim>\<open>force_commit_log\<close>
  takes the number of rounds, and is shown not to return for any number while a transaction is open. The disk driver waits for one
  completion interrupt: with a device that serves requests that is shown to be enough, and otherwise the thread stays asleep.

  \<^bold>\<open>Assumptions about other code.\<close> The disk (\<open>good_dev\<close>, register reads \<open>vread\<close>) and interrupt handlers (\<open>code\<close>, the function at an
  address) are parameters with named hypotheses. Theorems about the file system are about one process between context switches: the
  cache invariant \<open>cache_inv\<close> holds when no other process is inside the cache.

  \<^bold>\<open>Not modelled.\<close> The assembly (\<^verbatim>\<open>entry.S\<close>, \<^verbatim>\<open>switch.S\<close>, \<^verbatim>\<open>trampoline.S\<close>, \<^verbatim>\<open>kernelvec.S\<close>) and the caching of address translations; \<^verbatim>\<open>sbi.c\<close>, single
  firmware calls (their results are the fields \<open>now\<close> and \<open>stimer\<close>); the kernel's test programs \<^verbatim>\<open>test.c\<close> and the self test
  \<^verbatim>\<open>test_pagetable\<close>, which only exercise what is verified here; the user test programs that build messages in arrays on their stack (a
  touch of such a page may trap for memory, which the model of a program as a sequence of calls does not have) and the
  generated headers under \<^verbatim>\<open>user/build\<close> that hold the machine code of all of them; \<^verbatim>\<open>debug\<close>, which is compiled out; status
  messages of the kernel outside \<^verbatim>\<open>start.c\<close>, the drivers' initialisation, the system calls and the UART; the fields \<^verbatim>\<open>name\<close> and
  \<^verbatim>\<open>next_fd\<close> of a process, which no code reads; and the store of the return address into \<^verbatim>\<open>p->context.ra\<close> in \<^verbatim>\<open>sleep\<close>, which \<^verbatim>\<open>swtch\<close>
  overwrites.
\<close>

section \<open>A property of the whole\<close>



end
